(* ===== verification/Prelude.thy ===== *)
theory Prelude
  imports Complex_Main "HOL-Library.AList" "HOL-Library.List_Lexorder" "HOL-Library.Char_ord"
begin

text \<open>
  Shared vocabulary of the development.

  \<^item> Python numbers: \<open>int\<close> is unbounded, so it is \<^typ>\<open>int\<close>; a time stamp or a
    duration is a float that the code only adds and compares, modelled by exact
    rationals (\<^typ>\<open>rat\<close>); rounding of the addition is not modelled.
  \<^item> An exception is the left summand of a result type, carrying a \<open>py_error\<close>.
  \<^item> The rounding helpers of \<open>freetoken/utils/misc.py\<close>, which every page computation uses.
  \<^item> Facts about lists and association lists that several components share.
\<close>

named_theorems page_arith \<open>rounding to pages: div_ceil, align_down, align_ceil\<close>
named_theorems board_simps \<open>what each board operation does to a table\<close>

type_synonym time = rat

section \<open>Errors as values\<close>

datatype py_error =
    AssertionError
  | KeyError
  | IndexError
  | ValueError string
  | RuntimeError string
  | NotImplementedError
  | TokenError string
  | CacheRebuildRejected
  | TypeError
  | OverflowError
  | HTTPException nat
  | Deadlock

text \<open>\<open>Deadlock\<close> is no Python exception: it marks a call that never returns because a thread
  acquires a non-reentrant lock it already holds.\<close>

type_synonym 'a result = "py_error + 'a"

abbreviation ok :: "'a \<Rightarrow> 'a result" where
  "ok \<equiv> Inr"

abbreviation raise :: "py_error \<Rightarrow> 'a result" where
  "raise \<equiv> Inl"

definition rbind :: "'a result \<Rightarrow> ('a \<Rightarrow> 'b result) \<Rightarrow> 'b result" where
  "rbind r f = (case r of Inl e \<Rightarrow> Inl e | Inr x \<Rightarrow> f x)"

definition rassert :: "bool \<Rightarrow> 'a result \<Rightarrow> 'a result" where
  "rassert b r = (if b then r else raise AssertionError)"

lemma rbind_simps [simp]:
  "rbind (Inl e) f = Inl e"
  "rbind (Inr x) f = f x"
  by (simp_all add: rbind_def)

lemma rbind_eq_Inr [simp]: "rbind r f = Inr y \<longleftrightarrow> (\<exists>x. r = Inr x \<and> f x = Inr y)"
  by (cases r) simp_all

lemma rassert_simps [simp]:
  "rassert True r = r"
  "rassert False r = raise AssertionError"
  by (simp_all add: rassert_def)

lemma rassert_eq_Inr [simp]: "rassert b r = Inr y \<longleftrightarrow> b \<and> r = Inr y"
  by (simp add: rassert_def)

text \<open>A call that may raise or never return: \<open>None\<close> is not returning.\<close>

definition obind :: "'a result option \<Rightarrow> ('a \<Rightarrow> 'b result option) \<Rightarrow> 'b result option" where
  "obind m f = (case m of None \<Rightarrow> None | Some r \<Rightarrow> (case r of Inl e \<Rightarrow> Some (Inl e) | Inr x \<Rightarrow> f x))"

lemma obind_simps [simp]:
  "obind None f = None"
  "obind (Some (Inl e)) f = Some (Inl e)"
  "obind (Some (Inr x)) f = f x"
  by (simp_all add: obind_def)

definition is_ok :: "'a result \<Rightarrow> bool" where
  "is_ok r = (case r of Inl _ \<Rightarrow> False | Inr _ \<Rightarrow> True)"

lemma is_ok_simps [simp]: "is_ok (Inr x)" "\<not> is_ok (Inl e)"
  by (simp_all add: is_ok_def)

section \<open>Rounding (utils/misc.py)\<close>

text \<open>Python's \<open>//\<close> and HOL's \<open>div\<close> on \<^typ>\<open>int\<close> both round towards minus infinity;
  division by zero raises in Python, so the results below are stated for a positive divisor.\<close>

definition div_ceil :: "int \<Rightarrow> int \<Rightarrow> int" where
  "div_ceil a b = (a + b - 1) div b"

definition align_ceil :: "int \<Rightarrow> int \<Rightarrow> int" where
  "align_ceil a b = div_ceil a b * b"

definition align_down :: "int \<Rightarrow> int \<Rightarrow> int" where
  "align_down a b = (a div b) * b"

definition div_even :: "int \<Rightarrow> int \<Rightarrow> bool \<Rightarrow> int result" where
  "div_even a b allow_replicate =
     (if allow_replicate \<and> b > a then rassert (b mod a = 0) (ok 1)
      else rassert (a mod b = 0) (ok (a div b)))"

lemma align_down_le [page_arith]: "0 < b \<Longrightarrow> align_down a b \<le> a"
  unfolding align_down_def by (metis div_mult_mod_eq pos_mod_sign le_add_same_cancel1)

lemma align_down_gt [page_arith]: "0 < b \<Longrightarrow> a - b < align_down a b"
proof -
  assume "0 < b"
  then have "a mod b < b" by simp
  moreover have "a div b * b = a - a mod b" by (simp add: minus_mod_eq_div_mult)
  ultimately show ?thesis by (simp add: align_down_def)
qed

lemma align_down_dvd [simp]: "b dvd align_down a b"
  by (simp add: align_down_def)

lemma align_down_idem: "b dvd a \<Longrightarrow> align_down a b = a"
  by (auto simp: align_down_def)

lemma align_down_nonneg [page_arith]: "0 < b \<Longrightarrow> 0 \<le> a \<Longrightarrow> 0 \<le> align_down a b"
  by (simp add: align_down_def pos_imp_zdiv_nonneg_iff)

lemma align_down_mono: "0 < b \<Longrightarrow> a \<le> a' \<Longrightarrow> align_down a b \<le> align_down a' b"
  by (simp add: align_down_def zdiv_mono1)

lemma int_div_le_iff: "0 < b \<Longrightarrow> (a :: int) div b \<le> c \<longleftrightarrow> a < (c + 1) * b"
proof
  assume b: "0 < b" and le: "a div b \<le> c"
  have "a < a div b * b + b" using align_down_gt [OF b, of a] by (simp add: align_down_def)
  also have "\<dots> \<le> c * b + b" using le b by simp
  finally show "a < (c + 1) * b" by (simp add: algebra_simps)
next
  assume b: "0 < b" and lt: "a < (c + 1) * b"
  have "a div b * b \<le> a" using b align_down_le [of b a] by (simp add: align_down_def)
  with lt have "a div b * b < (c + 1) * b" by simp
  with b have "a div b < c + 1" by (simp add: mult_less_cancel_right)
  then show "a div b \<le> c" by simp
qed

lemma div_ceil_le_iff: "0 < b \<Longrightarrow> div_ceil a b \<le> c \<longleftrightarrow> a \<le> c * b"
  by (simp add: div_ceil_def int_div_le_iff algebra_simps) linarith

lemma div_ceil_mult_ge [page_arith]: "0 < b \<Longrightarrow> a \<le> div_ceil a b * b"
  using div_ceil_le_iff [of b a "div_ceil a b"] by simp

lemma div_ceil_mult_lt [page_arith]: "0 < b \<Longrightarrow> div_ceil a b * b < a + b"
proof -
  assume b: "0 < b"
  have "\<not> div_ceil a b \<le> div_ceil a b - 1" by simp
  then have "\<not> a \<le> (div_ceil a b - 1) * b" using div_ceil_le_iff [OF b] by blast
  then show ?thesis by (simp add: algebra_simps)
qed

lemma div_ceil_mono: "0 < b \<Longrightarrow> a \<le> a' \<Longrightarrow> div_ceil a b \<le> div_ceil a' b"
  by (simp add: div_ceil_def zdiv_mono1)

lemma div_ceil_exact: "0 < b \<Longrightarrow> div_ceil (c * b) b = c"
proof -
  assume b: "0 < b"
  have "div_ceil (c * b) b \<le> c" using div_ceil_le_iff [OF b, of "c * b" c] by simp
  moreover have "c \<le> div_ceil (c * b) b"
    using div_ceil_mult_ge [OF b, of "c * b"] b by simp
  ultimately show ?thesis by simp
qed

lemma div_ceil_nonneg: "0 < b \<Longrightarrow> 0 \<le> a \<Longrightarrow> 0 \<le> div_ceil a b"
  by (simp add: div_ceil_def pos_imp_zdiv_nonneg_iff)

text \<open>The number of pages that \<open>n\<close> tokens touch.\<close>

definition pages_for :: "nat \<Rightarrow> nat \<Rightarrow> nat" where
  "pages_for ps n = nat (div_ceil (int n) (int ps))"

lemma pages_for_le_iff: "0 < ps \<Longrightarrow> pages_for ps n \<le> k \<longleftrightarrow> n \<le> k * ps"
proof -
  assume ps: "0 < ps"
  have "pages_for ps n \<le> k \<longleftrightarrow> div_ceil (int n) (int ps) \<le> int k" by (simp add: pages_for_def nat_le_iff)
  also have "\<dots> \<longleftrightarrow> int n \<le> int k * int ps" using ps by (simp add: div_ceil_le_iff)
  also have "\<dots> \<longleftrightarrow> n \<le> k * ps" by (metis of_nat_le_iff of_nat_mult)
  finally show ?thesis .
qed

lemma pages_for_ge [page_arith]: "0 < ps \<Longrightarrow> n \<le> pages_for ps n * ps"
  using pages_for_le_iff [of ps n "pages_for ps n"] by simp

lemma pages_for_mono: "0 < ps \<Longrightarrow> m \<le> n \<Longrightarrow> pages_for ps m \<le> pages_for ps n"
  using pages_for_le_iff [of ps m "pages_for ps n"] pages_for_ge [of ps n] by simp

lemma pages_for_lt [page_arith]: "0 < ps \<Longrightarrow> pages_for ps n * ps < n + ps"
  using div_ceil_mult_lt [of "int ps" "int n"] div_ceil_nonneg [of "int ps" "int n"]
  by (simp add: pages_for_def) (metis nat_0_le of_nat_add of_nat_less_iff of_nat_mult)

lemma pages_for_exact: "0 < ps \<Longrightarrow> pages_for ps (k * ps) = k"
  using div_ceil_exact [of "int ps" "int k"] by (simp add: pages_for_def)

section \<open>Lists\<close>

definition py_last :: "'a list \<Rightarrow> 'a option" where
  "py_last xs = (if xs = [] then None else Some (last xs))"

lemma distinct_map_filter_subset: "distinct (map f xs) \<Longrightarrow> distinct (map f (filter P xs))"
  by (simp add: distinct_map_filter)

lemma filter_map_update_length:
  "length (filter P (map f xs)) = length (filter (P \<circ> f) xs)"
  by (simp add: filter_map)

lemma insort_key_sorted_all:
  "sorted (map f xs) \<Longrightarrow> sorted (map f (insort_key f x xs))"
  by (simp add: sorted_insort_key)

text \<open>Rows of a table with a unique key: the row for a key is unique.\<close>

lemma distinct_map_row_eq:
  "distinct (map k xs) \<Longrightarrow> x \<in> set xs \<Longrightarrow> y \<in> set xs \<Longrightarrow> k x = k y \<Longrightarrow> x = y"
  by (metis distinct_map inj_onD)

lemma length_filter_unique_le1:
  "distinct (map k xs) \<Longrightarrow> length (filter (\<lambda>x. k x = i \<and> P x) xs) \<le> 1"
proof (induction xs)
  case (Cons x xs)
  show ?case
  proof (cases "k x = i \<and> P x")
    case True
    then have "filter (\<lambda>x. k x = i \<and> P x) xs = []"
      using Cons.prems by (auto simp: filter_empty_conv image_iff)
    with True show ?thesis by simp
  qed (use Cons in auto)
qed simp

section \<open>Strings\<close>

text \<open>A Python string is a list of characters. \<^typ>\<open>char\<close> holds one byte, so the text
  considered is ASCII; the case mapping and the white space below are those of ASCII.\<close>

fun digit_char :: "nat \<Rightarrow> char" where
  "digit_char d = char_of (48 + d)"

fun nat_str :: "nat \<Rightarrow> string" where
  "nat_str n = (if n < 10 then [digit_char n] else nat_str (n div 10) @ [digit_char (n mod 10)])"

declare nat_str.simps [simp del]

definition str_nat :: "string \<Rightarrow> nat" where
  "str_nat s = foldl (\<lambda>acc c. 10 * acc + (of_char c - 48)) 0 s"

lemma of_char_digit: "d < 10 \<Longrightarrow> of_char (digit_char d) - (48 :: nat) = d"
  by (simp add: of_char_of)

lemma str_nat_nat_str: "str_nat (nat_str n) = n"
proof (induction n rule: nat_str.induct)
  case (1 n)
  show ?case
  proof (cases "n < 10")
    case True
    then show ?thesis by (subst nat_str.simps) (simp add: str_nat_def of_char_digit del: digit_char.simps)
  next
    case False
    with 1 have "str_nat (nat_str (n div 10)) = n div 10" by simp
    with False show ?thesis
      by (subst nat_str.simps) (simp add: str_nat_def of_char_digit del: digit_char.simps)
  qed
qed

lemma nat_str_inj: "nat_str m = nat_str n \<longleftrightarrow> m = n"
  by (metis str_nat_nat_str)

definition py_isspace :: "char \<Rightarrow> bool" where
  "py_isspace c \<longleftrightarrow> (let n = of_char c :: nat in n = 32 \<or> (9 \<le> n \<and> n \<le> 13) \<or> (28 \<le> n \<and> n \<le> 31))"

definition lstrip_by :: "(char \<Rightarrow> bool) \<Rightarrow> string \<Rightarrow> string" where
  "lstrip_by p s = dropWhile p s"

definition strip_by :: "(char \<Rightarrow> bool) \<Rightarrow> string \<Rightarrow> string" where
  "strip_by p s = rev (dropWhile p (rev (dropWhile p s)))"

definition py_strip :: "string \<Rightarrow> string" where
  "py_strip = strip_by py_isspace"

definition lower_char :: "char \<Rightarrow> char" where
  "lower_char c = (let n = of_char c :: nat in if 65 \<le> n \<and> n \<le> 90 then char_of (n + 32) else c)"

definition py_lower :: "string \<Rightarrow> string" where
  "py_lower = map lower_char"

lemma set_strip_by: "set (strip_by p s) \<subseteq> set s"
  unfolding strip_by_def by (metis set_dropWhileD set_rev subsetI)

section \<open>JSON values\<close>

text \<open>What \<open>json.dumps\<close> writes and \<open>json.loads\<close> reads back; a column that holds JSON text is
  modelled by the value.\<close>

datatype json =
    JNull
  | JBool bool
  | JNum rat
  | JStr string
  | JArr "json list"
  | JObj "(string \<times> json) list"

section \<open>Pages of token slots\<close>

text \<open>\<open>xs[::n]\<close>, the tokens of a page that starts at slot \<open>b\<close>, and lists of slots made of whole
  pages.\<close>

definition stride :: "nat \<Rightarrow> 'a list \<Rightarrow> 'a list" where
  "stride n xs = map (\<lambda>q. xs ! (q * n)) [0..<(length xs + n - 1) div n]"

definition expand_page :: "nat \<Rightarrow> int \<Rightarrow> int list" where
  "expand_page ps b = map (\<lambda>j. b + int j) [0..<ps]"

definition expand_pages :: "nat \<Rightarrow> int list \<Rightarrow> int list" where
  "expand_pages ps bs = concat (map (expand_page ps) bs)"

definition paged :: "nat \<Rightarrow> int list \<Rightarrow> bool" where
  "paged ps vs \<longleftrightarrow> (\<exists>bs. vs = expand_pages ps bs \<and> (\<forall>b \<in> set bs. int ps dvd b))"

lemma length_expand_page [simp]: "length (expand_page ps b) = ps"
  by (simp add: expand_page_def)

lemma expand_pages_simps [simp]:
  "expand_pages ps [] = []" "expand_pages ps (b # bs) = expand_page ps b @ expand_pages ps bs"
  "expand_pages ps (bs @ cs) = expand_pages ps bs @ expand_pages ps cs"
  by (simp_all add: expand_pages_def)

lemma length_expand_pages [simp]: "length (expand_pages ps bs) = length bs * ps"
  by (induction bs) simp_all

lemma take_expand_pages: "take (k * ps) (expand_pages ps bs) = expand_pages ps (take k bs)"
proof (induction bs arbitrary: k)
  case (Cons b bs)
  then show ?case by (cases k) simp_all
qed simp

lemma drop_expand_pages: "drop (k * ps) (expand_pages ps bs) = expand_pages ps (drop k bs)"
proof (induction bs arbitrary: k)
  case (Cons b bs)
  then show ?case by (cases k) simp_all
qed simp

lemma paged_take: "paged ps vs \<Longrightarrow> ps dvd m \<Longrightarrow> paged ps (take m vs)"
  unfolding paged_def by (metis dvd_def in_set_takeD mult.commute take_expand_pages)

lemma paged_drop: "paged ps vs \<Longrightarrow> ps dvd m \<Longrightarrow> paged ps (drop m vs)"
  unfolding paged_def by (metis dvd_def in_set_dropD mult.commute drop_expand_pages)

lemma paged_append: "paged ps vs \<Longrightarrow> paged ps ws \<Longrightarrow> paged ps (vs @ ws)"
  unfolding paged_def by (metis UnE expand_pages_simps(3) set_append)

lemma paged_Nil [simp]: "paged ps []"
  unfolding paged_def by (rule exI [of _ "[]"]) simp

lemma nth_expand_pages: "0 < ps \<Longrightarrow> q < length bs \<Longrightarrow> expand_pages ps bs ! (q * ps) = bs ! q"
proof (induction bs arbitrary: q)
  case (Cons b bs)
  then show ?case by (cases q) (simp_all add: nth_append expand_page_def)
qed simp

lemma stride_expand_pages [simp]: "0 < ps \<Longrightarrow> stride ps (expand_pages ps bs) = bs"
proof -
  assume ps: "0 < ps"
  have "(length bs * ps + ps - 1) div ps = length bs"
    using ps by (metis Nat.add_diff_assoc Suc_diff_1 add.commute add_0 div_less div_mult_self1 le_add2 less_Suc_eq_le
        Suc_leI le_refl lessI not_gr0 One_nat_def diff_less less_numeral_extra(1))
  then show ?thesis
    using ps by (intro nth_equalityI) (simp_all add: stride_def nth_expand_pages)
qed

lemma expand_stride: "0 < ps \<Longrightarrow> paged ps vs \<Longrightarrow> expand_pages ps (stride ps vs) = vs"
  by (auto simp: paged_def)

lemma stride_aligned: "0 < ps \<Longrightarrow> paged ps vs \<Longrightarrow> b \<in> set (stride ps vs) \<Longrightarrow> int ps dvd b"
  by (auto simp: paged_def)

lemma length_stride: "0 < ps \<Longrightarrow> paged ps vs \<Longrightarrow> length (stride ps vs) * ps = length vs"
  by (auto simp: paged_def)

lemma paged_length: "paged ps vs \<Longrightarrow> ps dvd length vs"
  by (auto simp: paged_def)

lemma paged_expand: "\<forall>b \<in> set bs. int ps dvd b \<Longrightarrow> paged ps (expand_pages ps bs)"
  by (auto simp: paged_def)

section \<open>Dictionaries\<close>

text \<open>A dict whose order the code reads is an association list with distinct keys;
  \<open>AList.update\<close> keeps the place of an existing key and appends a new one, as Python does.\<close>

lemma filter_neq_map_of: "map_of (filter (\<lambda>p. fst p \<noteq> k) xs) k = None"
  by (auto simp: map_of_eq_None_iff)

end
