(* ===== verification/CacheBudget.thy ===== *)
theory CacheBudget
  imports Prelude
begin

text \<open>
  The memory arithmetic that sizes the caches of the engine: \<open>engine/cache_budget.py\<close>, the
  family-independent templates of \<open>kvcache/base.py\<close> and the slot counts of
  \<open>kvcache/linear_state_pool.py\<close>. Bytes and counts are Python integers. The memory ratio is
  a float and is modelled by an exact rational, so \<open>int(ratio * free)\<close> is exact truncation.
  The per-family cost function \<open>kv_cost\<close> is abstract in the source; it is a parameter here.
\<close>

section \<open>engine/cache_budget.py\<close>

definition py_int :: "rat \<Rightarrow> int" where
  "py_int x = (if 0 \<le> x then \<lfloor>x\<rfloor> else \<lceil>x\<rceil>)"

text \<open>A bank source is a list of per-layer tensors; the code reads the row size and the element
  size of the first one. A tensor is given by (elements per row, bytes per element).\<close>

fun expert_bytes_per_slot :: "(string \<times> (int \<times> int) list) list \<Rightarrow> int result" where
  "expert_bytes_per_slot [] = ok 0"
| "expert_bytes_per_slot ((name, []) # rest) = raise IndexError"
| "expert_bytes_per_slot ((name, (numel, esize) # layers) # rest) =
     rbind (expert_bytes_per_slot rest) (\<lambda>n. ok (numel * esize + n))"

definition net_cache_budget_bytes :: "rat \<Rightarrow> int \<Rightarrow> int \<Rightarrow> int \<Rightarrow> int" where
  "net_cache_budget_bytes memory_ratio baseline_free weights_bytes fixed_cache_size =
     py_int (memory_ratio * of_int baseline_free) - weights_bytes - fixed_cache_size"

definition required_bytes :: "int \<Rightarrow> int \<Rightarrow> int \<Rightarrow> int \<Rightarrow> int" where
  "required_bytes moe_cache_size num_pages per_expert_bytes cache_per_page =
     moe_cache_size * per_expert_bytes + num_pages * cache_per_page"

record cache_plan =
  cp_moe_cache_size :: int
  cp_num_pages :: int
  cp_overlap :: bool

text \<open>The floor on the slots and the cap, named as in \<open>plan_cache_budget\<close>.\<close>

definition plan_hi :: "int \<Rightarrow> int \<Rightarrow> int" where
  "plan_hi total_experts max_slots = min total_experts max_slots"

definition plan_lo :: "int \<Rightarrow> int \<Rightarrow> bool \<Rightarrow> int" where
  "plan_lo num_experts hi prefill_overlap =
     (if prefill_overlap \<and> hi \<ge> 2 * num_experts then 2 * num_experts else num_experts)"

definition plan_cache_budget ::
  "int \<Rightarrow> int \<Rightarrow> int \<Rightarrow> int \<Rightarrow> int \<Rightarrow> bool \<Rightarrow> int \<Rightarrow> int \<Rightarrow> cache_plan result" where
  "plan_cache_budget budget_bytes per_expert_bytes cache_per_page num_experts total_experts
     prefill_overlap kv_reserve_pages max_slots =
     rassert (per_expert_bytes > 0) (
     rassert (cache_per_page > 0) (
     let hi = plan_hi total_experts max_slots;
         overlap = (prefill_overlap \<and> hi \<ge> 2 * num_experts);
         lo = plan_lo num_experts hi prefill_overlap
     in rassert (hi \<ge> lo) (
     let kv_reserve_bytes = kv_reserve_pages * cache_per_page;
         raw = (budget_bytes - kv_reserve_bytes) div per_expert_bytes;
         moe_cache_size = max lo (min raw hi);
         overlap' = (overlap \<and> moe_cache_size \<ge> 2 * num_experts);
         remaining = budget_bytes - moe_cache_size * per_expert_bytes;
         num_pages = max (remaining div cache_per_page) kv_reserve_pages;
         total = moe_cache_size * per_expert_bytes + num_pages * cache_per_page
     in rassert (total \<le> budget_bytes) (
        rassert (num_pages > 1) (
        ok \<lparr>cp_moe_cache_size = moe_cache_size, cp_num_pages = num_pages, cp_overlap = overlap'\<rparr>)))))"

definition resolve_moe_cache_auto ::
  "int \<Rightarrow> int \<Rightarrow> rat \<Rightarrow> int \<Rightarrow> int \<Rightarrow> int \<Rightarrow> int \<Rightarrow> int \<Rightarrow> bool \<Rightarrow> int \<Rightarrow> int \<Rightarrow> string
     \<Rightarrow> cache_plan result" where
  "resolve_moe_cache_auto baseline_free weights_bytes memory_ratio cache_per_page fixed_cache_size
     per_expert_bytes num_experts total_experts prefill_overlap kv_reserve_tokens page_size quant_format =
     (let budget_bytes = net_cache_budget_bytes memory_ratio baseline_free weights_bytes fixed_cache_size;
          max_slots = (if quant_format = ''nvfp4_marlin'' then 992 else total_experts);
          kv_reserve_pages = div_ceil kv_reserve_tokens page_size
      in plan_cache_budget budget_bytes per_expert_bytes cache_per_page num_experts total_experts
           prefill_overlap kv_reserve_pages max_slots)"

section \<open>kvcache/base.py: per-token cost and the sizing templates\<close>

record kv_spec =
  ks_mla :: bool
  ks_head_dim :: int
  ks_num_kv_heads :: int
  ks_num_layers :: int
  ks_index_head_dim :: int
  ks_num_index_layers :: int

definition spec_kv_bytes_per_token :: "kv_spec \<Rightarrow> int \<Rightarrow> int \<Rightarrow> int result" where
  "spec_kv_bytes_per_token spec tp_size itemsize =
     rbind (div_even (ks_num_kv_heads spec) tp_size True) (\<lambda>local_heads.
     let per_token = (if ks_mla spec then 1 else 2) * ks_head_dim spec * local_heads * itemsize
                       * ks_num_layers spec
     in ok (per_token + ks_index_head_dim spec * ks_num_index_layers spec * 2))"

text \<open>\<open>kv_cost\<close> is the pair (cache_per_page, fixed_cache_size) of a pool family.
  A zero \<open>cache_per_page\<close> divides by zero in Python.\<close>

definition solve_num_pages :: "int \<times> int \<Rightarrow> int option \<Rightarrow> int \<Rightarrow> int result" where
  "solve_num_pages kv_cost num_page_override available_memory =
     (let (cache_per_page, fixed_cache_size) = kv_cost in
      case num_page_override of
        None \<Rightarrow> (if cache_per_page = 0 then raise (RuntimeError ''ZeroDivisionError'')
                 else let num_pages = (available_memory - fixed_cache_size) div cache_per_page
                      in rassert (num_pages > 1) (ok num_pages))
      | Some num_pages \<Rightarrow> rassert (num_pages > 1) (ok num_pages))"

definition validate_rebuild ::
  "int \<times> int \<Rightarrow> rat \<Rightarrow> int option \<Rightarrow> int \<Rightarrow> int \<Rightarrow> int \<Rightarrow> int \<Rightarrow> int \<Rightarrow> int \<Rightarrow> unit result" where
  "validate_rebuild kv_cost memory_ratio num_pages target_moe per_expert_bytes baseline_free
     weights_bytes current_num_pages extra_fixed_bytes =
     (let target_pages = (case num_pages of Some n \<Rightarrow> n | None \<Rightarrow> current_num_pages);
          (cache_per_page, fixed_cache_size) = kv_cost;
          budget = net_cache_budget_bytes memory_ratio baseline_free weights_bytes
                     (fixed_cache_size + extra_fixed_bytes);
          need = required_bytes target_moe target_pages per_expert_bytes cache_per_page
      in if need > budget then raise CacheRebuildRejected else ok ())"

section \<open>kvcache/linear_state_pool.py: slot counts and state bytes\<close>

record linear_group =
  lg_num_layers :: int
  lg_num_key_heads :: int
  lg_num_value_heads :: int
  lg_key_head_dim :: int
  lg_value_head_dim :: int
  lg_conv_kernel_dim :: int

definition linear_local_dims :: "linear_group \<Rightarrow> int \<Rightarrow> (int \<times> int \<times> int) result" where
  "linear_local_dims grp tp_size =
     rbind (div_even (lg_num_key_heads grp) tp_size True) (\<lambda>local_k_heads.
     rbind (div_even (lg_num_value_heads grp) tp_size True) (\<lambda>local_v_heads.
     let local_conv_dim = 2 * local_k_heads * lg_key_head_dim grp
                            + local_v_heads * lg_value_head_dim grp
     in ok (lg_num_layers grp, local_conv_dim, local_v_heads)))"

definition linear_state_bytes_per_req :: "linear_group \<Rightarrow> int \<Rightarrow> int \<Rightarrow> int \<Rightarrow> int result" where
  "linear_state_bytes_per_req grp tp_size itemsize ssm_itemsize =
     rbind (linear_local_dims grp tp_size) (\<lambda>(n_layers, local_conv_dim, local_v_heads).
     let conv_elems = local_conv_dim * (lg_conv_kernel_dim grp - 1);
         rec_elems = local_v_heads * lg_key_head_dim grp * lg_value_head_dim grp;
         conv_bytes = conv_elems * itemsize;
         rec_bytes = rec_elems * ssm_itemsize
     in ok (n_layers * (conv_bytes + rec_bytes)))"

definition linear_pool_num_slots :: "string \<Rightarrow> int \<Rightarrow> rat \<Rightarrow> int" where
  "linear_pool_num_slots cache_type mr ratio =
     (if cache_type \<noteq> ''hybrid_radix'' then mr + 1
      else let n_cache = max 4 (py_int (ratio * of_int mr)) in 4 * mr + n_cache + 1)"

definition linear_pool_min_slots :: "string \<Rightarrow> int \<Rightarrow> int" where
  "linear_pool_min_slots cache_type mr =
     (if cache_type \<noteq> ''hybrid_radix'' then mr + 1 else 4 * mr + 1)"

definition state_pool_bytes ::
  "linear_group option \<Rightarrow> int \<Rightarrow> int \<Rightarrow> int \<Rightarrow> string \<Rightarrow> int \<Rightarrow> rat \<Rightarrow> int option \<Rightarrow> int result" where
  "state_pool_bytes linear_attention_group tp_size itemsize ssm_itemsize cache_type mr ratio num_slots =
     (case linear_attention_group of
        None \<Rightarrow> ok 0
      | Some grp \<Rightarrow>
          let slots = (case num_slots of Some n \<Rightarrow> n | None \<Rightarrow> linear_pool_num_slots cache_type mr ratio)
          in rbind (linear_state_bytes_per_req grp tp_size itemsize ssm_itemsize)
               (\<lambda>b. ok (b * slots)))"

section \<open>The plan\<close>

lemma plan_cache_budget_okD:
  assumes "plan_cache_budget B pe cpp n tot ov kvr ms = ok p"
  shows "0 < pe" "0 < cpp" "plan_lo n (plan_hi tot ms) ov \<le> plan_hi tot ms"
    "cp_moe_cache_size p = max (plan_lo n (plan_hi tot ms) ov) (min ((B - kvr * cpp) div pe) (plan_hi tot ms))"
    "cp_num_pages p = max ((B - cp_moe_cache_size p * pe) div cpp) kvr"
    "cp_overlap p \<longleftrightarrow> (ov \<and> 2 * n \<le> plan_hi tot ms) \<and> 2 * n \<le> cp_moe_cache_size p"
    "cp_moe_cache_size p * pe + cp_num_pages p * cpp \<le> B" "1 < cp_num_pages p"
proof -
  note d = assms [unfolded plan_cache_budget_def Let_def rassert_eq_Inr sum.inject]
  from d show "0 < pe" "0 < cpp" "plan_lo n (plan_hi tot ms) ov \<le> plan_hi tot ms" by blast+
  from d have p: "p = \<lparr>cp_moe_cache_size = max (plan_lo n (plan_hi tot ms) ov) (min ((B - kvr * cpp) div pe) (plan_hi tot ms)),
      cp_num_pages = max ((B - max (plan_lo n (plan_hi tot ms) ov) (min ((B - kvr * cpp) div pe) (plan_hi tot ms)) * pe) div cpp) kvr,
      cp_overlap = ((ov \<and> 2 * n \<le> plan_hi tot ms) \<and> 2 * n \<le> max (plan_lo n (plan_hi tot ms) ov) (min ((B - kvr * cpp) div pe) (plan_hi tot ms)))\<rparr>"
    by blast
  show "cp_moe_cache_size p = max (plan_lo n (plan_hi tot ms) ov) (min ((B - kvr * cpp) div pe) (plan_hi tot ms))"
    "cp_num_pages p = max ((B - cp_moe_cache_size p * pe) div cpp) kvr"
    "cp_overlap p \<longleftrightarrow> (ov \<and> 2 * n \<le> plan_hi tot ms) \<and> 2 * n \<le> cp_moe_cache_size p"
    by (simp_all only: p cache_plan.select_convs)
  from d show "cp_moe_cache_size p * pe + cp_num_pages p * cpp \<le> B" "1 < cp_num_pages p"
    by (simp_all only: p cache_plan.select_convs)
qed

lemma floor_div_maximal: "0 < (b :: int) \<Longrightarrow> x div b < y \<Longrightarrow> x < y * b"
  using int_div_le_iff [of b x "y - 1"] by simp

lemma floor_div_fits: "0 < (b :: int) \<Longrightarrow> y \<le> x div b \<Longrightarrow> y * b \<le> x"
  using align_down_le [of b x] by (simp add: align_down_def) (meson mult_right_mono order_trans less_imp_le)

text \<open>C39: a plan that \<open>plan_cache_budget\<close> returns never needs more than the budget, keeps the
  number of expert slots between the floor and the cap, keeps the reserved pages and at least
  two pages, and claims prefill overlap only with two full expert layers of slots.\<close>

theorem plan_cache_budget_sound:
  assumes "plan_cache_budget B pe cpp n tot ov kvr ms = ok p"
  shows "required_bytes (cp_moe_cache_size p) (cp_num_pages p) pe cpp \<le> B
    \<and> plan_lo n (plan_hi tot ms) ov \<le> cp_moe_cache_size p
    \<and> cp_moe_cache_size p \<le> plan_hi tot ms
    \<and> kvr \<le> cp_num_pages p \<and> 2 \<le> cp_num_pages p
    \<and> (cp_overlap p \<longrightarrow> ov \<and> 2 * n \<le> cp_moe_cache_size p)"
proof -
  note d = plan_cache_budget_okD [OF assms]
  have "plan_lo n (plan_hi tot ms) ov \<le> cp_moe_cache_size p" "cp_moe_cache_size p \<le> plan_hi tot ms"
    using d(3) by (simp_all only: d(4) max.cobounded1 max.bounded_iff min.cobounded2 simp_thms)
  moreover have "kvr \<le> cp_num_pages p" by (simp only: d(5) max.cobounded2)
  moreover have "2 \<le> cp_num_pages p" using d(8) by linarith
  ultimately show ?thesis using d(6,7) unfolding required_bytes_def by blast
qed

theorem plan_cache_budget_sound_witness:
  "plan_cache_budget 1000 10 5 4 64 True 20 32 = ok \<lparr>cp_moe_cache_size = 32, cp_num_pages = 136, cp_overlap = True\<rparr>
   \<and> required_bytes 32 136 10 5 \<le> 1000"
proof -
  have h: "plan_cache_budget 1000 10 5 4 64 True 20 32
      = ok \<lparr>cp_moe_cache_size = 32, cp_num_pages = 136, cp_overlap = True\<rparr>"
    by (simp add: plan_cache_budget_def plan_hi_def plan_lo_def Let_def)
  show ?thesis using h plan_cache_budget_sound [OF h] by simp
qed

text \<open>The plan is MoE first: no plan with more expert slots, within the cap, leaves room for
  the reserved pages, and with the planned slots no further page fits.\<close>

theorem plan_cache_budget_greedy:
  assumes "plan_cache_budget B pe cpp n tot ov kvr ms = ok p"
    and "cp_moe_cache_size p < m" "m \<le> plan_hi tot ms"
  shows "B < required_bytes m kvr pe cpp
    \<and> B < required_bytes (cp_moe_cache_size p) (cp_num_pages p + 1) pe cpp"
proof -
  note d = plan_cache_budget_okD [OF assms(1)]
  have "(B - kvr * cpp) div pe < m" using d(4) assms(2,3) by (auto simp: max_def min_def split: if_splits)
  then have "B - kvr * cpp < m * pe" using floor_div_maximal d(1) by blast
  moreover have "(B - cp_moe_cache_size p * pe) div cpp < cp_num_pages p + 1" using d(5) by simp
  then have "B - cp_moe_cache_size p * pe < (cp_num_pages p + 1) * cpp"
    using floor_div_maximal d(2) by blast
  ultimately show ?thesis by (simp add: required_bytes_def)
qed

theorem plan_cache_budget_greedy_witness:
  "420 < required_bytes 64 20 10 5 \<and> 420 < required_bytes 32 21 10 5"
proof -
  have h: "plan_cache_budget 420 10 5 4 64 True 20 64
      = ok \<lparr>cp_moe_cache_size = 32, cp_num_pages = 20, cp_overlap = True\<rparr>"
    by (simp add: plan_cache_budget_def plan_hi_def plan_lo_def Let_def)
  show ?thesis
    using plan_cache_budget_greedy [OF h, of 64] by (simp add: plan_hi_def)
qed

lemma plan_fits_iff:
  assumes pe: "0 < (pe :: int)" and hl: "lo \<le> hi"
  shows "(max lo (min ((B - R) div pe) hi)) * pe + R \<le> B \<longleftrightarrow> lo * pe + R \<le> B"
proof
  assume "max lo (min ((B - R) div pe) hi) * pe + R \<le> B"
  moreover have "lo * pe \<le> max lo (min ((B - R) div pe) hi) * pe" using pe by simp
  ultimately show "lo * pe + R \<le> B" by linarith
next
  assume "lo * pe + R \<le> B"
  then have "lo \<le> (B - R) div pe"
    using int_div_le_iff [OF pe, of "B - R" "lo - 1"] by (simp add: not_le [symmetric])
  then have "max lo (min ((B - R) div pe) hi) \<le> (B - R) div pe" using hl by simp
  then have "max lo (min ((B - R) div pe) hi) * pe \<le> B - R" by (rule floor_div_fits [OF pe])
  then show "max lo (min ((B - R) div pe) hi) * pe + R \<le> B" by simp
qed

lemma pages_fit_iff:
  assumes "0 < (cpp :: int)"
  shows "m + max ((B - m) div cpp) kvr * cpp \<le> B \<longleftrightarrow> m + kvr * cpp \<le> B"
proof
  assume "m + max ((B - m) div cpp) kvr * cpp \<le> B"
  moreover have "kvr * cpp \<le> max ((B - m) div cpp) kvr * cpp" using assms by simp
  ultimately show "m + kvr * cpp \<le> B" by linarith
next
  assume "m + kvr * cpp \<le> B"
  then show "m + max ((B - m) div cpp) kvr * cpp \<le> B"
    using floor_div_fits [OF assms, of "(B - m) div cpp" "B - m"] by (simp add: max_def)
qed

lemma two_pages_iff: "0 < (b :: int) \<Longrightarrow> 1 < x div b \<longleftrightarrow> 2 * b \<le> x"
  using floor_div_fits [of b 2 x] floor_div_maximal [of b x 2] by linarith

text \<open>C40: planning succeeds exactly when the sizes are positive, the cap admits the floor of slots, the floor
  with the reserved pages fits the budget, and either at least two pages are reserved or two pages fit
  beside the slots that the experts take greedily. In particular, with fewer than two reserved pages a budget is
  refused when the experts leave less than two pages, also when a plan with fewer slots would fit; and
  when overlap is asked for and the cap allows it, a budget that only fits the plan without overlap is
  refused (overlap is never dropped for the budget).\<close>

theorem plan_cache_budget_complete:
  "is_ok (plan_cache_budget B pe cpp n tot ov kvr ms)
    \<longleftrightarrow> 0 < pe \<and> 0 < cpp \<and> plan_lo n (plan_hi tot ms) ov \<le> plan_hi tot ms
      \<and> required_bytes (plan_lo n (plan_hi tot ms) ov) kvr pe cpp \<le> B
      \<and> (kvr < 2 \<longrightarrow> required_bytes (max (plan_lo n (plan_hi tot ms) ov) (min ((B - kvr * cpp) div pe) (plan_hi tot ms))) 2 pe cpp \<le> B)"
proof (cases "0 < pe \<and> 0 < cpp \<and> plan_lo n (plan_hi tot ms) ov \<le> plan_hi tot ms")
  case True
  let ?m = "max (plan_lo n (plan_hi tot ms) ov) (min ((B - kvr * cpp) div pe) (plan_hi tot ms))"
  have "is_ok (plan_cache_budget B pe cpp n tot ov kvr ms)
      \<longleftrightarrow> ?m * pe + max ((B - ?m * pe) div cpp) kvr * cpp \<le> B \<and> 1 < max ((B - ?m * pe) div cpp) kvr"
    unfolding plan_cache_budget_def Let_def rassert_def
    using True by (simp only: if_True if_split is_ok_simps simp_thms) blast
  also have "\<dots> \<longleftrightarrow> plan_lo n (plan_hi tot ms) ov * pe + kvr * cpp \<le> B \<and> 1 < max ((B - ?m * pe) div cpp) kvr"
    using True by (simp only: pages_fit_iff plan_fits_iff)
  also have "1 < max ((B - ?m * pe) div cpp) kvr \<longleftrightarrow> (kvr < 2 \<longrightarrow> ?m * pe + 2 * cpp \<le> B)"
    using two_pages_iff [of cpp "B - ?m * pe"] True by (auto simp: max_def)
  finally show ?thesis using True by (simp only: required_bytes_def simp_thms)
next
  case False
  then show ?thesis unfolding plan_cache_budget_def Let_def rassert_def by (auto simp only: if_False if_True is_ok_simps simp_thms split: if_splits)
qed

theorem plan_cache_budget_complete_witness:
  "is_ok (plan_cache_budget 90 10 5 4 64 True 2 64)
   \<and> \<not> is_ok (plan_cache_budget 70 10 5 4 64 True 2 64)
   \<and> is_ok (plan_cache_budget 70 10 5 4 64 False 2 64)"
proof -
  have t: "is_ok (plan_cache_budget B 10 5 n 64 ov 2 64)
      \<longleftrightarrow> required_bytes (plan_lo n (plan_hi 64 64) ov) 2 10 5 \<le> B" if "2 * n \<le> 64" "0 \<le> n" for B n ov
    unfolding plan_cache_budget_complete using that by (auto simp: plan_lo_def plan_hi_def)
  show ?thesis by (simp add: t required_bytes_def plan_lo_def plan_hi_def)
qed

end
