(* ===== verification/Projects.thy ===== *)
theory Projects
  imports Prelude
begin

text \<open>
  The project registry, \<open>ui/backend/app/projects.py\<close>: the file \<open>projects.json\<close> is
  re-read by every operation and written by the ones that change it, so the state is the
  file. \<open>None\<close> is a missing, unreadable or malformed file. A fresh uuid, the clock and the
  answers of the file system (does \<open>mkdir\<close> succeed, what does \<open>resolve\<close> return) are
  arguments of the operations.
\<close>

section \<open>Slugs\<close>

definition slug_char :: "char \<Rightarrow> bool" where
  "slug_char c \<longleftrightarrow> (let n = of_char c :: nat in (97 \<le> n \<and> n \<le> 122) \<or> (48 \<le> n \<and> n \<le> 57) \<or> n = 45)"

text \<open>\<open>re.sub("[^a-z0-9-]+", "-", s)\<close>: every maximal run of other characters is one dash.\<close>

function slug_sub :: "string \<Rightarrow> string" where
  "slug_sub [] = []"
| "slug_sub (c # cs) =
     (if slug_char c then c # slug_sub cs
      else CHR ''-'' # slug_sub (dropWhile (\<lambda>d. \<not> slug_char d) cs))"
  by pat_completeness auto
termination
  by (relation "measure length") (auto simp: le_imp_less_Suc length_dropWhile_le)

definition reserved_names :: "string list" where
  "reserved_names = [''con'', ''prn'', ''aux'', ''nul'']
     @ map (\<lambda>i. ''com'' @ nat_str i) [1..<10] @ map (\<lambda>i. ''lpt'' @ nat_str i) [1..<10]"

definition slugify :: "string \<Rightarrow> string" where
  "slugify name =
     (let slug = take 48 (strip_by (\<lambda>c. c = CHR ''-'') (slug_sub (py_lower (py_strip name))));
          slug = (if slug = [] then ''project'' else slug)
      in if slug \<in> set reserved_names then slug @ ''-project'' else slug)"

section \<open>The registry file\<close>

type_synonym str_dict = "(string \<times> string) list"

record project =
  pj_id :: string
  pj_name :: string
  pj_slug :: string
  pj_data_dir :: string
  pj_connectors :: "string list"
  pj_created_at :: time
  pj_task_server :: "string option"
  pj_models :: "string list option"
  pj_model_roles :: str_dict
  pj_swarm_enabled :: bool
  pj_sql :: "string option"
  pj_task_options :: "(string \<times> str_dict) list"

record registry =
  rg_projects :: "project list"
  rg_active :: "string option"

type_synonym registry_file = "registry option"

definition read_registry :: "registry_file \<Rightarrow> registry" where
  "read_registry f = (case f of None \<Rightarrow> \<lparr>rg_projects = [], rg_active = None\<rparr> | Some r \<Rightarrow> r)"

definition list_projects :: "registry_file \<Rightarrow> project list" where
  "list_projects f = rg_projects (read_registry f)"

definition get_project :: "registry_file \<Rightarrow> string \<Rightarrow> project option" where
  "get_project f i = find (\<lambda>p. pj_id p = i) (rg_projects (read_registry f))"

definition active_id :: "registry_file \<Rightarrow> string option" where
  "active_id f =
     (let data = read_registry f in
      case rg_active data of
        Some current \<Rightarrow>
          (if current \<in> set (map pj_id (rg_projects data)) then Some current
           else case rg_projects data of [] \<Rightarrow> None | p # _ \<Rightarrow> Some (pj_id p))
      | None \<Rightarrow> (case rg_projects data of [] \<Rightarrow> None | p # _ \<Rightarrow> Some (pj_id p)))"

definition set_active :: "registry_file \<Rightarrow> string \<Rightarrow> (registry_file \<times> project) result" where
  "set_active f i =
     (let data = read_registry f in
      case find (\<lambda>p. pj_id p = i) (rg_projects data) of
        None \<Rightarrow> raise (ValueError ''no project'')
      | Some p \<Rightarrow> ok (Some (data\<lparr>rg_active := Some i\<rparr>), p))"

text \<open>The search for a free slug, \<open>base\<close>, \<open>base-2\<close>, \<open>base-3\<close>, ...: a loop with no bound
  in the code; \<open>length taken + 1\<close> rounds of fuel are enough (\<open>free_slug_enough\<close>).\<close>

fun free_slug :: "nat \<Rightarrow> string \<Rightarrow> string list \<Rightarrow> string \<Rightarrow> nat \<Rightarrow> string option" where
  "free_slug 0 base taken slug n = None"
| "free_slug (Suc fuel) base taken slug n =
     (if slug \<in> set taken then free_slug fuel base taken (base @ ''-'' @ nat_str n) (n + 1)
      else Some slug)"

definition create_project ::
  "registry_file \<Rightarrow> string \<Rightarrow> time \<Rightarrow> string \<Rightarrow> (string \<Rightarrow> bool) \<Rightarrow> (string \<Rightarrow> string)
     \<Rightarrow> string \<Rightarrow> string option \<Rightarrow> string list option \<Rightarrow> string option \<Rightarrow> (registry_file \<times> project) result" where
  "create_project f uuid now default_root mkdir_ok resolve name data_dir connectors task_server =
     (let name = py_strip name in
      if name = [] then raise (ValueError ''project name must not be empty'')
      else
        let data = read_registry f;
            base_slug = slugify name;
            taken = map pj_slug (rg_projects data)
        in case free_slug (length taken + 1) base_slug taken base_slug 2 of
             None \<Rightarrow> raise (RuntimeError ''no free slug'')
           | Some slug \<Rightarrow>
               (let path = (case data_dir of
                              Some d \<Rightarrow> if d = [] then default_root @ ''/'' @ slug @ ''/data'' else d
                            | None \<Rightarrow> default_root @ ''/'' @ slug @ ''/data'')
                in if \<not> mkdir_ok path then raise (ValueError ''cannot create data directory'')
                   else
                     let project = \<lparr>pj_id = uuid, pj_name = name, pj_slug = slug,
                           pj_data_dir = resolve path,
                           pj_connectors = (case connectors of None \<Rightarrow> [] | Some cs \<Rightarrow> cs),
                           pj_created_at = now,
                           pj_task_server = (case task_server of Some ts \<Rightarrow> if ts = [] then None else Some ts | None \<Rightarrow> None),
                           pj_models = None, pj_model_roles = [], pj_swarm_enabled = True,
                           pj_sql = None, pj_task_options = []\<rparr>;
                         active = (case rg_active data of
                                     None \<Rightarrow> Some uuid
                                   | Some a \<Rightarrow> if a = [] then Some uuid else Some a)
                     in ok (Some (data\<lparr>rg_projects := rg_projects data @ [project], rg_active := active\<rparr>),
                            project)))"

section \<open>Updating and deleting\<close>

text \<open>The keyword arguments of \<open>update\<close>: \<open>None\<close> is a field the caller did not pass.\<close>

record project_update =
  up_name :: "string option"
  up_connectors :: "string list option"
  up_models :: "string list option option"
  up_model_roles :: "str_dict option"
  up_task_server :: "string option"
  up_task_options :: "(string \<times> str_dict) list option"
  up_swarm_enabled :: "bool option"
  up_sql :: "string option option"
  up_data_dir :: "string option"

definition role_names :: "string list" where
  "role_names = [''search'', ''ideas'', ''both'']"

definition option_keys :: "string list" where
  "option_keys = [''target'', ''value_function'', ''action_rule'', ''direction'', ''source'']"

definition merge_setting :: "string \<times> string \<Rightarrow> str_dict \<Rightarrow> str_dict" where
  "merge_setting kv cur =
     (if fst kv \<notin> set option_keys then cur
      else if snd kv \<noteq> [] then AList.update (fst kv) (snd kv) cur
      else AList.delete (fst kv) cur)"

definition merge_task :: "string \<times> str_dict \<Rightarrow> (string \<times> str_dict) list \<Rightarrow> (string \<times> str_dict) list" where
  "merge_task to opts =
     (let cur = (case map_of opts (fst to) of Some c \<Rightarrow> c | None \<Rightarrow> [])
      in AList.update (fst to) (fold merge_setting (snd to) cur) opts)"

definition merge_task_options ::
  "(string \<times> str_dict) list \<Rightarrow> (string \<times> str_dict) list \<Rightarrow> (string \<times> str_dict) list" where
  "merge_task_options new old = filter (\<lambda>to. snd to \<noteq> []) (fold merge_task new old)"

definition update_name :: "project_update \<Rightarrow> project \<Rightarrow> project result" where
  "update_name u p =
     (case up_name u of
        None \<Rightarrow> ok p
      | Some n \<Rightarrow> (let n = py_strip n in
                   if n = [] then raise (ValueError ''project name must not be empty'')
                   else ok (p\<lparr>pj_name := n\<rparr>)))"

definition update_roles :: "project_update \<Rightarrow> project \<Rightarrow> project result" where
  "update_roles u p =
     (case up_model_roles u of
        None \<Rightarrow> ok p
      | Some rs \<Rightarrow>
          (if \<exists>r \<in> set rs. snd r \<notin> set role_names then raise (ValueError ''unknown role(s)'')
           else ok (p\<lparr>pj_model_roles := sort_key fst rs\<rparr>)))"

definition update_data_dir ::
  "(string \<Rightarrow> bool) \<Rightarrow> (string \<Rightarrow> string) \<Rightarrow> project_update \<Rightarrow> project \<Rightarrow> project result" where
  "update_data_dir mkdir_ok resolve u p =
     (case up_data_dir u of
        None \<Rightarrow> ok p
      | Some d \<Rightarrow> (if d = [] then ok p
                   else if \<not> mkdir_ok d then raise (ValueError ''cannot use data directory'')
                   else ok (p\<lparr>pj_data_dir := resolve d\<rparr>)))"

definition update_plain :: "project_update \<Rightarrow> project \<Rightarrow> project" where
  "update_plain u p =
     (let p = (case up_connectors u of None \<Rightarrow> p | Some cs \<Rightarrow> p\<lparr>pj_connectors := sort (remdups cs)\<rparr>);
          p = (case up_models u of None \<Rightarrow> p
               | Some None \<Rightarrow> p\<lparr>pj_models := None\<rparr>
               | Some (Some ms) \<Rightarrow> p\<lparr>pj_models := Some (sort (remdups ms))\<rparr>)
      in p)"

definition update_task :: "project_update \<Rightarrow> project \<Rightarrow> project" where
  "update_task u p =
     (let p = (case up_task_server u of None \<Rightarrow> p
               | Some ts \<Rightarrow> (let ts = py_strip ts in
                   if ts \<noteq> [] then p\<lparr>pj_task_server := Some ts\<rparr> else p\<lparr>pj_task_server := None\<rparr>));
          p = (case up_task_options u of None \<Rightarrow> p
               | Some new \<Rightarrow> p\<lparr>pj_task_options := merge_task_options new (pj_task_options p)\<rparr>);
          p = (case up_swarm_enabled u of None \<Rightarrow> p | Some b \<Rightarrow> p\<lparr>pj_swarm_enabled := b\<rparr>);
          p = (case up_sql u of None \<Rightarrow> p | Some v \<Rightarrow> p\<lparr>pj_sql := v\<rparr>)
      in p)"

definition apply_update ::
  "(string \<Rightarrow> bool) \<Rightarrow> (string \<Rightarrow> string) \<Rightarrow> project_update \<Rightarrow> project \<Rightarrow> project result" where
  "apply_update mkdir_ok resolve u p =
     rbind (update_name u p) (\<lambda>p.
     rbind (update_roles u (update_plain u p)) (\<lambda>p.
     update_data_dir mkdir_ok resolve u (update_task u p)))"

text \<open>\<open>next(p for p in ...)\<close> finds the first row; the operation mutates that object.\<close>

fun replace_first :: "('a \<Rightarrow> bool) \<Rightarrow> 'a \<Rightarrow> 'a list \<Rightarrow> 'a list" where
  "replace_first P y [] = []"
| "replace_first P y (x # xs) = (if P x then y # xs else x # replace_first P y xs)"

definition update_project ::
  "registry_file \<Rightarrow> (string \<Rightarrow> bool) \<Rightarrow> (string \<Rightarrow> string) \<Rightarrow> string \<Rightarrow> project_update
     \<Rightarrow> (registry_file \<times> project) result" where
  "update_project f mkdir_ok resolve i u =
     (let data = read_registry f in
      case find (\<lambda>p. pj_id p = i) (rg_projects data) of
        None \<Rightarrow> raise (ValueError ''no project'')
      | Some p \<Rightarrow>
          rbind (apply_update mkdir_ok resolve u p) (\<lambda>q.
            ok (Some (data\<lparr>rg_projects := replace_first (\<lambda>r. pj_id r = i) q (rg_projects data)\<rparr>), q)))"

definition delete_project :: "registry_file \<Rightarrow> string \<Rightarrow> registry_file \<times> bool" where
  "delete_project f i =
     (let data = read_registry f in
      case find (\<lambda>p. pj_id p = i) (rg_projects data) of
        None \<Rightarrow> (f, False)
      | Some p \<Rightarrow>
          let ps = filter (\<lambda>p. pj_id p \<noteq> i) (rg_projects data);
              active = (if rg_active data = Some i
                        then (case ps of [] \<Rightarrow> None | q # _ \<Rightarrow> Some (pj_id q))
                        else rg_active data)
          in (Some \<lparr>rg_projects = ps, rg_active = active\<rparr>, True))"

definition ensure_default ::
  "registry_file \<Rightarrow> string \<Rightarrow> time \<Rightarrow> string \<Rightarrow> (string \<Rightarrow> bool) \<Rightarrow> (string \<Rightarrow> string)
     \<Rightarrow> (registry_file \<times> project) result" where
  "ensure_default f uuid now default_root mkdir_ok resolve =
     (case rg_projects (read_registry f) of
        [] \<Rightarrow> create_project f uuid now default_root mkdir_ok resolve ''Default'' None None None
      | _ \<Rightarrow> (case active_id f of
                None \<Rightarrow> raise (RuntimeError ''StopIteration'')
              | Some a \<Rightarrow> (case get_project f a of
                             None \<Rightarrow> raise (RuntimeError ''StopIteration'')
                           | Some p \<Rightarrow> ok (f, p))))"

section \<open>Paths inside the data directory\<close>

text \<open>An absolute path is its list of segments. \<open>Path.resolve\<close> asks the file system (symbolic
  links, \<open>..\<close>), so it is an argument; \<open>lexical_resolve\<close> is what it does where no segment is
  a symbolic link.\<close>

datatype path_arg = RelPath "string list" | AbsPath "string list"

fun path_join :: "string list \<Rightarrow> path_arg \<Rightarrow> string list" where
  "path_join rootdir (RelPath segs) = rootdir @ segs"
| "path_join rootdir (AbsPath segs) = segs"

definition is_relative_to :: "string list \<Rightarrow> string list \<Rightarrow> bool" where
  "is_relative_to p rootdir \<longleftrightarrow> take (length rootdir) p = rootdir"

definition resolve_in_data_dir ::
  "(string list \<Rightarrow> string list) \<Rightarrow> (string list \<Rightarrow> bool) \<Rightarrow> string list \<Rightarrow> path_arg \<Rightarrow> bool
     \<Rightarrow> string list result" where
  "resolve_in_data_dir resolve exists data_dir relative must_exist =
     (let rootdir = resolve data_dir;
          candidate = resolve (path_join rootdir relative)
      in if candidate \<noteq> rootdir \<and> \<not> is_relative_to candidate rootdir
         then raise (ValueError ''path escapes the project data directory'')
         else if must_exist \<and> \<not> exists candidate then raise (ValueError ''no such path'')
         else ok candidate)"

fun lexical_step :: "string \<Rightarrow> string list \<Rightarrow> string list" where
  "lexical_step seg acc =
     (if seg = ''..'' then tl acc else if seg = ''.'' \<or> seg = [] then acc else seg # acc)"

definition lexical_resolve :: "string list \<Rightarrow> string list" where
  "lexical_resolve segs = rev (fold lexical_step segs [])"

section \<open>Slugs are safe directory names\<close>

lemma slug_char_dash [simp]: "slug_char (CHR ''-'')"
  by (simp add: slug_char_def)

lemma slug_sub_chars: "\<forall>c \<in> set (slug_sub s). slug_char c"
proof (induction s rule: slug_sub.induct)
  case (2 c cs)
  show ?case
  proof (cases "slug_char c")
    case True
    have "\<forall>c \<in> set (slug_sub cs). slug_char c" by (rule 2(1) [OF True])
    then show ?thesis using True by (simp only: slug_sub.simps if_True list.set ball_simps simp_thms)
  next
    case False
    have "\<forall>c \<in> set (slug_sub (dropWhile (\<lambda>d. \<not> slug_char d) cs)). slug_char c" by (rule 2(2) [OF False])
    then show ?thesis using False slug_char_dash
      by (simp only: slug_sub.simps if_False list.set ball_simps simp_thms)
  qed
qed simp

lemma nat_str_slug_chars: "\<forall>c \<in> set (nat_str n). slug_char c"
proof (induction n rule: nat_str.induct)
  case (1 n)
  have d: "slug_char (digit_char k)" if "k < 10" for k
  proof -
    have "(of_char (digit_char k) :: nat) = 48 + k" using that by (simp add: of_char_of)
    with that show ?thesis unfolding slug_char_def Let_def by linarith
  qed
  show ?case
  proof (cases "n < 10")
    case True
    then show ?thesis by (subst nat_str.simps) (simp add: d del: digit_char.simps)
  next
    case False
    with 1 show ?thesis by (subst nat_str.simps) (auto simp: d simp del: digit_char.simps)
  qed
qed

lemma slugify_chars: "\<forall>c \<in> set (slugify name). slug_char c"
proof -
  let ?s = "take 48 (strip_by (\<lambda>c. c = CHR ''-'') (slug_sub (py_lower (py_strip name))))"
  have "\<forall>c \<in> set ?s. slug_char c"
    using slug_sub_chars set_strip_by in_set_takeD by (metis subsetD)
  then show ?thesis
    by (auto simp: slugify_def Let_def slug_char_def)
qed

lemma slugify_nonempty: "slugify name \<noteq> []"
  by (simp add: slugify_def Let_def)

lemma slugify_length: "length (slugify name) \<le> 56"
  by (simp add: slugify_def Let_def min_le_iff_disj)

lemma reserved_short: "r \<in> set reserved_names \<Longrightarrow> length r \<le> 4"
proof -
  have "list_all (\<lambda>r. length r \<le> 4) reserved_names" by code_simp
  then show "r \<in> set reserved_names \<Longrightarrow> length r \<le> 4" by (simp add: list_all_iff)
qed

lemma slugify_not_reserved: "slugify name \<notin> set reserved_names"
proof
  assume r: "slugify name \<in> set reserved_names"
  then have "length (slugify name) \<le> 4" by (rule reserved_short)
  with r show False by (auto simp: slugify_def Let_def split: if_splits)
qed

section \<open>The search for a free slug ends\<close>

abbreviation numbered :: "string \<Rightarrow> nat \<Rightarrow> string" where
  "numbered base n \<equiv> base @ ''-'' @ nat_str n"

lemma free_slug_None:
  "free_slug fuel base taken (numbered base n) m = None
     \<Longrightarrow> m = Suc n \<Longrightarrow> \<forall>k < fuel. numbered base (n + k) \<in> set taken"
proof (induction fuel arbitrary: n m)
  case (Suc fuel)
  then have h: "numbered base n \<in> set taken"
      "free_slug fuel base taken (numbered base (Suc n)) (Suc (Suc n)) = None"
    by (auto split: if_splits)
  from Suc.IH [OF h(2)] have ih: "\<forall>k < fuel. numbered base (Suc n + k) \<in> set taken" by simp
  show ?case
  proof (intro allI impI)
    fix k assume "k < Suc fuel"
    then show "numbered base (n + k) \<in> set taken"
      using h(1) ih by (cases k) auto
  qed
qed simp

lemma numbered_pigeonhole: "\<not> (\<forall>k < Suc (length taken). numbered base (n + k) \<in> set taken)"
proof
  assume all: "\<forall>k < Suc (length taken). numbered base (n + k) \<in> set taken"
  have "inj_on (\<lambda>k. numbered base (n + k)) {..< Suc (length taken)}"
    by (auto simp: inj_on_def nat_str_inj)
  then have "card ((\<lambda>k. numbered base (n + k)) ` {..< Suc (length taken)}) = Suc (length taken)"
    by (simp add: card_image)
  moreover have "card ((\<lambda>k. numbered base (n + k)) ` {..< Suc (length taken)}) \<le> card (set taken)"
    using all by (intro card_mono) auto
  ultimately show False using card_length [of taken] by simp
qed

lemma free_slug_Some: "free_slug fuel base taken slug n = Some s \<Longrightarrow> s \<notin> set taken"
  by (induction fuel base taken slug n rule: free_slug.induct) (auto split: if_splits)

text \<open>The base slug itself may be the one that is taken by the extra round, so the list is
  counted without it.\<close>

lemma free_slug_enough: "\<exists>s. free_slug (length taken + 1) base taken base 2 = Some s"
proof (cases "base \<in> set taken")
  case False
  then show ?thesis by simp
next
  case True
  let ?rest = "removeAll base taken"
  have len: "length ?rest < length taken" using True by (rule length_removeAll_less)
  show ?thesis
  proof (rule ccontr)
    assume "\<not> ?thesis"
    then have "free_slug (length taken) base taken (numbered base 2) 3 = None"
      using True by simp
    from free_slug_None [OF this]
    have "\<forall>k < length taken. numbered base (2 + k) \<in> set taken" by simp
    then have "\<forall>k < Suc (length ?rest). numbered base (2 + k) \<in> set ?rest"
      using len by auto
    with numbered_pigeonhole [of ?rest base 2] show False by blast
  qed
qed

declare free_slug.simps [simp del]

section \<open>The registry invariant\<close>

definition project_ids :: "registry \<Rightarrow> string list" where
  "project_ids r = map pj_id (rg_projects r)"

definition registry_wf :: "registry_file \<Rightarrow> bool" where
  "registry_wf f \<longleftrightarrow>
     (let r = read_registry f in
      distinct (project_ids r) \<and> distinct (map pj_slug (rg_projects r))
      \<and> (case rg_active r of None \<Rightarrow> True | Some a \<Rightarrow> a \<in> set (project_ids r)))"

lemma replace_first_map:
  "(\<And>x. P x \<Longrightarrow> x \<in> set xs \<Longrightarrow> k y = k x) \<Longrightarrow> map k (replace_first P y xs) = map k xs"
  by (induction xs) auto

lemma set_replace_first: "set (replace_first P y xs) \<subseteq> insert y (set xs)"
  by (induction xs) auto

lemma find_pj_id: "find (\<lambda>p. pj_id p = i) ps = Some p \<Longrightarrow> p \<in> set ps \<and> pj_id p = i"
  by (auto simp: find_Some_iff)

definition same_identity :: "project \<Rightarrow> project \<Rightarrow> bool" where
  "same_identity p q \<longleftrightarrow>
     pj_id q = pj_id p \<and> pj_slug q = pj_slug p \<and> pj_created_at q = pj_created_at p"

lemma update_frames:
  "update_name u p = ok q \<Longrightarrow> same_identity p q"
  "update_roles u p = ok q \<Longrightarrow> same_identity p q"
  "update_data_dir mk rs u p = ok q \<Longrightarrow> same_identity p q"
  "same_identity p (update_plain u p)"
  "same_identity p (update_task u p)"
  by (auto simp: same_identity_def update_name_def update_roles_def update_data_dir_def
      update_plain_def update_task_def Let_def split: option.splits if_splits)

lemma apply_update_frame:
  assumes "apply_update mk rs u p = ok q"
  shows "pj_id q = pj_id p \<and> pj_slug q = pj_slug p \<and> pj_created_at q = pj_created_at p"
proof -
  from assms obtain a b where ab: "update_name u p = ok a" "update_roles u (update_plain u a) = ok b"
      "update_data_dir mk rs u (update_task u b) = ok q"
    by (auto simp: apply_update_def)
  show ?thesis
    using update_frames(1) [OF ab(1)] update_frames(4) [of a u] update_frames(2) [OF ab(2)]
      update_frames(5) [of b u] update_frames(3) [OF ab(3)]
    by (simp add: same_identity_def)
qed

lemma read_registry_Some [simp]: "read_registry (Some r) = r"
  by (simp add: read_registry_def)

lemma create_project_okD:
  assumes "create_project f uuid now dr mk rs name dd cs ts = ok (f', p)"
  shows "pj_id p = uuid" "pj_name p = py_strip name" "py_strip name \<noteq> []"
    "pj_slug p \<notin> set (map pj_slug (list_projects f))"
    "list_projects f' = list_projects f @ [p]"
    "rg_active (read_registry f') = (case rg_active (read_registry f) of None \<Rightarrow> Some uuid
       | Some a \<Rightarrow> if a = [] then Some uuid else Some a)"
proof -
  let ?taken = "map pj_slug (rg_projects (read_registry f))"
  from free_slug_enough obtain slug
    where sl: "free_slug (length ?taken + 1) (slugify (py_strip name)) ?taken (slugify (py_strip name)) 2 = Some slug"
    by blast
  from free_slug_Some [OF sl] have nt: "slug \<notin> set ?taken" .
  note d = assms [unfolded create_project_def Let_def sl option.case]
  from d have ne: "py_strip name \<noteq> []" by (auto split: if_splits)
  show "py_strip name \<noteq> []" by (rule ne)
  from d ne have d2: "f' = Some ((read_registry f)\<lparr>rg_projects := rg_projects (read_registry f) @ [p],
      rg_active := (case rg_active (read_registry f) of None \<Rightarrow> Some uuid
         | Some a \<Rightarrow> if a = [] then Some uuid else Some a)\<rparr>)"
    and d3: "pj_id p = uuid" "pj_name p = py_strip name" "pj_slug p = slug"
    by (auto split: if_splits)
  show "pj_id p = uuid" "pj_name p = py_strip name" by (rule d3)+
  show "pj_slug p \<notin> set (map pj_slug (list_projects f))" using nt d3 by (simp add: list_projects_def)
  show "list_projects f' = list_projects f @ [p]" by (simp add: list_projects_def d2)
  show "rg_active (read_registry f') = (case rg_active (read_registry f) of None \<Rightarrow> Some uuid
       | Some a \<Rightarrow> if a = [] then Some uuid else Some a)" by (simp add: d2)
qed

lemma create_project_ok:
  assumes "\<And>d. mk d" "py_strip name \<noteq> []"
  shows "\<exists>r. create_project f uuid now dr mk rs name dd cs ts = ok r"
  using free_slug_enough [of "map pj_slug (rg_projects (read_registry f))" "slugify (py_strip name)"] assms
  by (auto simp add: create_project_def Let_def)

lemma create_project_wf:
  assumes "registry_wf f" "uuid \<notin> set (project_ids (read_registry f))"
    and "create_project f uuid now dr mk rs name dd cs ts = ok (f', p)"
  shows "registry_wf f'"
proof -
  note d = create_project_okD [OF assms(3)]
  have ps: "rg_projects (read_registry f') = rg_projects (read_registry f) @ [p]"
    using d(5) by (simp add: list_projects_def)
  show ?thesis
    using assms(1,2) d(1,4) unfolding registry_wf_def Let_def project_ids_def list_projects_def d(6)
    by (auto simp: ps split: option.splits)
qed

lemma update_project_wf:
  assumes "registry_wf f" "update_project f mk rs i u = ok (f', q)"
  shows "registry_wf f'"
proof -
  from assms(2) obtain p where p: "find (\<lambda>p. pj_id p = i) (rg_projects (read_registry f)) = Some p"
      and q: "apply_update mk rs u p = ok q"
      and f': "f' = Some ((read_registry f)\<lparr>rg_projects :=
                 replace_first (\<lambda>r. pj_id r = i) q (rg_projects (read_registry f))\<rparr>)"
    by (auto simp: update_project_def Let_def split: option.splits)
  let ?ps = "rg_projects (read_registry f)"
  have pin: "p \<in> set ?ps" "pj_id p = i" using find_pj_id [OF p] by auto
  have same: "\<And>x. pj_id x = i \<Longrightarrow> x \<in> set ?ps \<Longrightarrow> x = p"
    using assms(1) pin by (auto simp: registry_wf_def Let_def project_ids_def intro: distinct_map_row_eq)
  have "map pj_id (replace_first (\<lambda>r. pj_id r = i) q ?ps) = map pj_id ?ps"
    by (rule replace_first_map) (use same apply_update_frame [OF q] in auto)
  moreover have "map pj_slug (replace_first (\<lambda>r. pj_id r = i) q ?ps) = map pj_slug ?ps"
    by (rule replace_first_map) (use same apply_update_frame [OF q] in auto)
  ultimately show ?thesis using assms(1)
    by (simp add: registry_wf_def f' Let_def project_ids_def del: set_map split: option.splits)
qed

lemma delete_project_wf:
  assumes "registry_wf f"
  shows "registry_wf (fst (delete_project f i))"
proof (cases "find (\<lambda>p. pj_id p = i) (rg_projects (read_registry f))")
  case None
  with assms show ?thesis by (simp add: delete_project_def Let_def)
next
  case (Some p)
  let ?ps = "filter (\<lambda>p. pj_id p \<noteq> i) (rg_projects (read_registry f))"
  have d: "distinct (map pj_id ?ps)" "distinct (map pj_slug ?ps)"
    using assms by (auto simp: registry_wf_def Let_def project_ids_def distinct_map_filter)
  have a: "a \<in> pj_id ` set ?ps"
    if "rg_active (read_registry f) = Some a" "a \<noteq> i" for a
    using assms that by (auto simp: registry_wf_def Let_def project_ids_def)
  have h: "y \<in> set ?ps" if "?ps = y # ys" for y ys
    by (simp only: that list.set_intros)
  show ?thesis
    using Some d a
    by (auto dest!: h simp: registry_wf_def delete_project_def Let_def project_ids_def
        split: option.splits list.splits)
qed

section \<open>The interface of the registry\<close>

text \<open>What the message board relies on: the active project is a registered one, and the default
  project that is created on demand is registered.\<close>

locale project_registry =
  fixes known :: "'f \<Rightarrow> string \<Rightarrow> bool"
    and active :: "'f \<Rightarrow> string option"
    and default_project :: "'f \<Rightarrow> ('f \<times> string) result"
    and new_id :: string
  assumes active_known: "active f = Some a \<Longrightarrow> known f a"
    and default_known: "default_project f = ok (f', d) \<Longrightarrow> known f' d"
    and default_cases: "default_project f = ok (f', d) \<Longrightarrow> d = new_id \<or> f' = f \<and> active f = Some d"
    and default_keeps: "default_project f = ok (f', d) \<Longrightarrow> known f a \<Longrightarrow> known f' a"

definition known_project :: "registry_file \<Rightarrow> string \<Rightarrow> bool" where
  "known_project f i \<longleftrightarrow> get_project f i \<noteq> None"

definition default_project_id ::
  "string \<Rightarrow> time \<Rightarrow> string \<Rightarrow> (string \<Rightarrow> bool) \<Rightarrow> (string \<Rightarrow> string) \<Rightarrow> registry_file
     \<Rightarrow> (registry_file \<times> string) result" where
  "default_project_id uuid now default_root mkdir_ok resolve f =
     rbind (ensure_default f uuid now default_root mkdir_ok resolve) (\<lambda>(f', p). ok (f', pj_id p))"

lemma known_project_iff: "known_project f i \<longleftrightarrow> i \<in> set (project_ids (read_registry f))"
  by (auto simp: known_project_def get_project_def project_ids_def find_None_iff)

lemma active_id_known: "active_id f = Some a \<Longrightarrow> known_project f a"
  by (auto simp: known_project_iff active_id_def Let_def project_ids_def
      split: option.splits list.splits if_splits)

lemma ensure_default_cases:
  assumes "ensure_default f uuid now dr mk rs = ok (f', p)"
  shows "(f' = f \<and> active_id f = Some (pj_id p) \<and> known_project f (pj_id p))
    \<or> (pj_id p = uuid \<and> list_projects f' = list_projects f @ [p])"
proof (cases "rg_projects (read_registry f)")
  case Nil
  with assms have "create_project f uuid now dr mk rs ''Default'' None None None = ok (f', p)"
    by (simp add: ensure_default_def)
  then show ?thesis by (blast dest: create_project_okD)
next
  case (Cons q qs)
  then have e: "ensure_default f uuid now dr mk rs = (case active_id f of
      None \<Rightarrow> raise (RuntimeError ''StopIteration'')
    | Some a \<Rightarrow> (case get_project f a of
        None \<Rightarrow> raise (RuntimeError ''StopIteration'') | Some p \<Rightarrow> ok (f, p)))"
    by (simp only: ensure_default_def list.case)
  obtain a where act: "active_id f = Some a" using assms unfolding e by (cases "active_id f") simp_all
  have "get_project f a = Some p \<and> f' = f"
    using assms unfolding e act by (cases "get_project f a") simp_all
  then have a: "get_project f a = Some p" and f': "f' = f" by simp_all
  from a have "pj_id p = a" unfolding get_project_def by (rule find_pj_id [THEN conjunct2])
  with a act f' show ?thesis by (simp add: known_project_def)
qed

lemma ensure_default_known:
  "ensure_default f uuid now dr mk rs = ok (f', p)
     \<Longrightarrow> known_project f' (pj_id p) \<and> (known_project f a \<longrightarrow> known_project f' a)"
  using ensure_default_cases [of f uuid now dr mk rs f' p]
  by (auto simp: known_project_iff project_ids_def list_projects_def)

interpretation registry: project_registry known_project active_id
  "default_project_id uuid now default_root mkdir_ok resolve" uuid for uuid now default_root mkdir_ok resolve
  by unfold_locales
    (auto simp: default_project_id_def dest: active_id_known ensure_default_known ensure_default_cases)

section \<open>Properties\<close>

text \<open>C18: creating a project with a name that is not blank, in a directory the file system accepts,
  always succeeds (the search for a free slug ends), appends one project under a slug no other
  project has, and keeps the registry well formed.\<close>

theorem create_project_total:
  assumes "registry_wf f" "uuid \<notin> set (project_ids (read_registry f))"
    and "py_strip name \<noteq> []" "\<forall>path. mk path"
  shows "\<exists>f' p. create_project f uuid now dr mk rs name dd cs ts = ok (f', p)
    \<and> list_projects f' = list_projects f @ [p]
    \<and> pj_slug p \<notin> set (map pj_slug (list_projects f))
    \<and> registry_wf f'"
proof -
  obtain f' p where r: "create_project f uuid now dr mk rs name dd cs ts = ok (f', p)"
    using create_project_ok [of mk name] assms(3,4) by fastforce
  show ?thesis
    using create_project_okD [OF r] create_project_wf [OF assms(1,2) r] r by blast
qed

theorem create_project_total_witness:
  "\<exists>f' p. create_project None ''u1'' 0 ''/srv'' (\<lambda>_. True) id ''  My Work!'' None None None = ok (f', p)
    \<and> list_projects f' = list_projects None @ [p]
    \<and> pj_slug p \<notin> set (map pj_slug (list_projects None)) \<and> registry_wf f'"
  by (rule create_project_total)
    (simp_all add: registry_wf_def read_registry_def project_ids_def py_strip_def strip_by_def py_isspace_def)

text \<open>No update changes a project's identity: the id, slug and creation time of every project
  and the order of the projects survive, and an update that raises writes nothing.\<close>

theorem update_project_identity:
  assumes "registry_wf f" "update_project f mk rs i u = ok (f', q)"
  shows "map (\<lambda>p. (pj_id p, pj_slug p, pj_created_at p)) (list_projects f')
       = map (\<lambda>p. (pj_id p, pj_slug p, pj_created_at p)) (list_projects f) \<and> registry_wf f'"
proof -
  from assms(2) obtain p where p: "find (\<lambda>p. pj_id p = i) (rg_projects (read_registry f)) = Some p"
      and q: "apply_update mk rs u p = ok q"
      and f': "f' = Some ((read_registry f)\<lparr>rg_projects :=
                 replace_first (\<lambda>r. pj_id r = i) q (rg_projects (read_registry f))\<rparr>)"
    by (auto simp: update_project_def Let_def split: option.splits)
  have same: "\<And>x. pj_id x = i \<Longrightarrow> x \<in> set (rg_projects (read_registry f)) \<Longrightarrow> x = p"
    using assms(1) find_pj_id [OF p]
    by (auto simp: registry_wf_def Let_def project_ids_def intro: distinct_map_row_eq)
  have "map (\<lambda>p. (pj_id p, pj_slug p, pj_created_at p)) (list_projects f')
       = map (\<lambda>p. (pj_id p, pj_slug p, pj_created_at p)) (list_projects f)"
  proof -
    have ps: "list_projects f' = replace_first (\<lambda>r. pj_id r = i) q (list_projects f)"
      by (simp add: f' list_projects_def)
    show ?thesis
      unfolding ps by (rule replace_first_map)
        (use same apply_update_frame [OF q] in \<open>auto simp: list_projects_def\<close>)
  qed
  then show ?thesis using update_project_wf [OF assms] by simp
qed

definition sample_project :: project where
  "sample_project = \<lparr>pj_id = ''u1'', pj_name = ''A'', pj_slug = ''a'', pj_data_dir = ''/a'',
     pj_connectors = [], pj_created_at = 0, pj_task_server = None, pj_models = None,
     pj_model_roles = [], pj_swarm_enabled = True, pj_sql = None, pj_task_options = []\<rparr>"

definition no_update :: project_update where
  "no_update = \<lparr>up_name = None, up_connectors = None, up_models = None, up_model_roles = None,
     up_task_server = None, up_task_options = None, up_swarm_enabled = None, up_sql = None,
     up_data_dir = None\<rparr>"

theorem update_project_identity_witness:
  "\<exists>f' q. update_project (Some \<lparr>rg_projects = [sample_project], rg_active = Some ''u1''\<rparr>) (\<lambda>_. True) id ''u1''
      (no_update\<lparr>up_name := Some ''B'', up_connectors := Some [''y'', ''x'', ''y'']\<rparr>) = ok (f', q)
    \<and> pj_name q = ''B'' \<and> pj_connectors q = [''x'', ''y'']
    \<and> map (\<lambda>p. (pj_id p, pj_slug p, pj_created_at p)) (list_projects f') = [(''u1'', ''a'', 0)]
    \<and> registry_wf f'"
proof -
  let ?f = "Some \<lparr>rg_projects = [sample_project], rg_active = Some ''u1''\<rparr>"
  let ?u = "no_update\<lparr>up_name := Some ''B'', up_connectors := Some [''y'', ''x'', ''y'']\<rparr>"
  let ?q = "sample_project\<lparr>pj_name := ''B'', pj_connectors := [''x'', ''y'']\<rparr>"
  have wf: "registry_wf ?f" by (simp add: registry_wf_def project_ids_def sample_project_def)
  have st: "py_strip ''B'' = ''B''" by (simp add: py_strip_def strip_by_def py_isspace_def)
  have so: "sort (remdups [''y'', ''x'', ''y'']) = [''x'', ''y'']" by code_simp
  have u: "apply_update (\<lambda>_. True) id ?u sample_project = ok ?q"
    unfolding apply_update_def update_name_def update_roles_def update_plain_def update_task_def
      update_data_dir_def Let_def no_update_def
    by (simp add: st so [simplified])
  have r: "update_project ?f (\<lambda>_. True) id ''u1'' ?u
      = ok (Some \<lparr>rg_projects = [?q], rg_active = Some ''u1''\<rparr>, ?q)"
    using u by (simp add: update_project_def sample_project_def)
  show ?thesis
    using update_project_identity [OF wf r] r by (simp add: list_projects_def sample_project_def)
qed

text \<open>A path that \<open>resolve_in_data_dir\<close> accepts lies in the data directory, whatever the file
  system resolves the argument to; with a file system without links, no number of \<open>..\<close> segments
  that climbs above the directory is accepted.\<close>

theorem resolve_in_data_dir_contained:
  assumes "resolve_in_data_dir rs ex d rel me = ok p"
  shows "take (length (rs d)) p = rs d \<and> (me \<longrightarrow> ex p)"
  using assms by (auto simp: resolve_in_data_dir_def Let_def is_relative_to_def split: if_splits)

theorem resolve_in_data_dir_contained_witness:
  "resolve_in_data_dir lexical_resolve (\<lambda>_. True) [''srv'', ''d''] (RelPath [''a'', ''..'', ''b'']) True
     = ok [''srv'', ''d'', ''b'']
   \<and> take 2 [''srv'', ''d'', ''b''] = [''srv'', ''d'']
   \<and> resolve_in_data_dir lexical_resolve (\<lambda>_. True) [''srv'', ''d''] (RelPath [''a'', ''..'', ''..'', ''x'']) False
     = raise (ValueError ''path escapes the project data directory'')"
proof -
  have h: "resolve_in_data_dir lexical_resolve (\<lambda>_. True) [''srv'', ''d''] (RelPath [''a'', ''..'', ''b'']) True
     = ok [''srv'', ''d'', ''b'']"
    by (simp add: resolve_in_data_dir_def lexical_resolve_def is_relative_to_def)
  show ?thesis
    using h resolve_in_data_dir_contained [OF h]
    by (simp add: resolve_in_data_dir_def lexical_resolve_def is_relative_to_def)
qed

end
