(* ===== verification/MsgBoard.thy ===== *)
theory MsgBoard
  imports Projects
begin

text \<open>
  The agent message board, \<open>ui/backend/app/msgboard.py\<close>. The SQLite database is a record of
  tables, each a list of rows in the order of their insertion; a handler is a function from the
  database to the database it leaves and its answer, because a handler that ends in an
  \<open>HTTPException\<close> may have committed before. The columns \<open>meta\<close> and \<open>value\<close> hold JSON text
  and are modelled by the JSON value. \<open>ORDER BY\<close> is a stable sort, so ties keep insertion order.
  What a call reads from outside, the clock, fresh uuids and the file system of the project
  registry, is the record \<open>mb_env\<close>; the clock counts as standing still during a call. Authentication (\<open>require_agent\<close>) is not modelled.

  \<open>_db_lock\<close> is a \<open>threading.Lock\<close>, which its holder cannot take again: a handler that calls
  \<open>resolve_project\<close> while it holds the lock never returns when a default project has to be
  created (\<open>Deadlock\<close>).
\<close>

section \<open>Rows and tables\<close>

datatype agent_status = Idle | Working | Blocked | AgentDone
datatype msg_kind = Chat | Directive | ResultMsg | ErrorMsg | Thought | SystemMsg
datatype tier = Auto | Small | Mid | Hard
datatype task_status = Open | Claimed | Done | Failed
datatype complete_status = CDone | CFailed

record agent_row =
  ag_id :: string
  ag_name :: string
  ag_role :: string
  ag_model :: string
  ag_capabilities :: "string list"
  ag_registered_at :: time
  ag_last_seen :: time
  ag_status :: agent_status
  ag_project_id :: string

record message_row =
  ms_seq :: nat
  ms_channel :: string
  ms_author :: string
  ms_author_id :: "string option"
  ms_kind :: msg_kind
  ms_content :: string
  ms_meta :: json
  ms_reply_to :: "int option"
  ms_ts :: time
  ms_session_id :: string
  ms_project_id :: string

record task_row =
  tk_id :: string
  tk_title :: string
  tk_description :: string
  tk_tier :: tier
  tk_status :: task_status
  tk_parent_id :: "string option"
  tk_claimed_by :: "string option"
  tk_lease_until :: "time option"
  tk_result :: "string option"
  tk_created_at :: time
  tk_updated_at :: time
  tk_attempts :: nat
  tk_session_id :: string
  tk_project_id :: string

record bb_row =
  bb_project_id :: string
  bb_key :: string
  bb_value :: json
  bb_version :: int
  bb_updated_by :: string
  bb_updated_at :: time

record session_row =
  ss_id :: string
  ss_title :: string
  ss_note :: string
  ss_started_at :: time
  ss_ended_at :: "time option"
  ss_project_id :: string

record board =
  bd_agents :: "agent_row list"
  bd_messages :: "message_row list"
  bd_last_seq :: nat
  bd_tasks :: "task_row list"
  bd_blackboard :: "bb_row list"
  bd_sessions :: "session_row list"
  bd_registry :: registry_file

record mb_env =
  ev_now :: time
  ev_uuid :: string
  ev_session_uuid :: string
  ev_project_uuid :: string
  ev_now_text :: string
  ev_root :: string
  ev_mkdir_ok :: "string \<Rightarrow> bool"
  ev_resolve :: "string \<Rightarrow> string"

type_synonym 'a handler = "board \<Rightarrow> board \<times> 'a result"

definition hbind :: "'a handler \<Rightarrow> ('a \<Rightarrow> 'b handler) \<Rightarrow> 'b handler" where
  "hbind h k bd = (case h bd of (bd', Inl e) \<Rightarrow> (bd', Inl e) | (bd', Inr x) \<Rightarrow> k x bd')"

section \<open>Projects and sessions\<close>

definition adopt_session :: "string \<Rightarrow> session_row \<Rightarrow> session_row" where
  "adopt_session p r = (if ss_project_id r = [] then r\<lparr>ss_project_id := p\<rparr> else r)"

definition adopt_message :: "string \<Rightarrow> message_row \<Rightarrow> message_row" where
  "adopt_message p r = (if ms_project_id r = [] then r\<lparr>ms_project_id := p\<rparr> else r)"

definition adopt_task :: "string \<Rightarrow> task_row \<Rightarrow> task_row" where
  "adopt_task p r = (if tk_project_id r = [] then r\<lparr>tk_project_id := p\<rparr> else r)"

definition adopt_agent :: "string \<Rightarrow> agent_row \<Rightarrow> agent_row" where
  "adopt_agent p r = (if ag_project_id r = [] then r\<lparr>ag_project_id := p\<rparr> else r)"

definition adopt_bb :: "string \<Rightarrow> bb_row \<Rightarrow> bb_row" where
  "adopt_bb p r = (if bb_project_id r = [] then r\<lparr>bb_project_id := p\<rparr> else r)"

definition adopt_orphans :: "string \<Rightarrow> board \<Rightarrow> board \<times> nat" where
  "adopt_orphans project_id bd =
     (let adopted = length (filter (\<lambda>r. ss_project_id r = []) (bd_sessions bd))
                  + length (filter (\<lambda>r. ms_project_id r = []) (bd_messages bd))
                  + length (filter (\<lambda>r. tk_project_id r = []) (bd_tasks bd))
                  + length (filter (\<lambda>r. ag_project_id r = []) (bd_agents bd))
                  + length (filter (\<lambda>r. bb_project_id r = []) (bd_blackboard bd))
      in (bd\<lparr>bd_sessions := map (adopt_session project_id) (bd_sessions bd),
             bd_messages := map (adopt_message project_id) (bd_messages bd),
             bd_tasks := map (adopt_task project_id) (bd_tasks bd),
             bd_agents := map (adopt_agent project_id) (bd_agents bd),
             bd_blackboard := map (adopt_bb project_id) (bd_blackboard bd)\<rparr>,
          adopted))"

text \<open>\<open>resolve_project\<close> over the three functions of \<open>projects\<close> it calls; \<open>locked\<close> says whether
  the calling thread holds \<open>_db_lock\<close>. An empty string counts as absent, as in Python.\<close>

definition resolve_with ::
  "(registry_file \<Rightarrow> string \<Rightarrow> bool) \<Rightarrow> (registry_file \<Rightarrow> string option)
     \<Rightarrow> (registry_file \<Rightarrow> (registry_file \<times> string) result)
     \<Rightarrow> bool \<Rightarrow> string option \<Rightarrow> string handler" where
  "resolve_with known active default_project locked explicit bd =
     (case explicit of
        Some (c # cs) \<Rightarrow>
          (bd, if known (bd_registry bd) (c # cs) then ok (c # cs) else raise (HTTPException 404))
      | _ \<Rightarrow>
          (case active (bd_registry bd) of
             Some (c # cs) \<Rightarrow> (bd, ok (c # cs))
           | _ \<Rightarrow>
               (case default_project (bd_registry bd) of
                  Inl e \<Rightarrow> (bd, Inl e)
                | Inr (reg, created) \<Rightarrow>
                    (if locked then (bd\<lparr>bd_registry := reg\<rparr>, Inl Deadlock)
                     else (fst (adopt_orphans created (bd\<lparr>bd_registry := reg\<rparr>)), ok created)))))"

definition resolve_project :: "mb_env \<Rightarrow> bool \<Rightarrow> string option \<Rightarrow> string handler" where
  "resolve_project env =
     resolve_with known_project active_id
       (default_project_id (ev_project_uuid env) (ev_now env) (ev_root env) (ev_mkdir_ok env) (ev_resolve env))"

definition open_sessions :: "string \<Rightarrow> board \<Rightarrow> session_row list" where
  "open_sessions project_id bd =
     filter (\<lambda>s. ss_ended_at s = None \<and> ss_project_id s = project_id) (bd_sessions bd)"

definition current_session_id :: "mb_env \<Rightarrow> string \<Rightarrow> board \<Rightarrow> board \<times> string" where
  "current_session_id env project_id bd =
     (case sort_key (\<lambda>s. - ss_started_at s) (open_sessions project_id bd) of
        row # _ \<Rightarrow> (bd, ss_id row)
      | [] \<Rightarrow>
          (bd\<lparr>bd_sessions := bd_sessions bd @
               [\<lparr>ss_id = ev_session_uuid env, ss_title = ev_now_text env, ss_note = [],
                 ss_started_at = ev_now env, ss_ended_at = None, ss_project_id = project_id\<rparr>]\<rparr>,
           ev_session_uuid env))"

text \<open>A claim whose lease is over goes back to the queue.\<close>

definition lease_expired :: "time \<Rightarrow> task_row \<Rightarrow> bool" where
  "lease_expired now t \<longleftrightarrow> tk_status t = Claimed \<and>
     (case tk_lease_until t of None \<Rightarrow> False | Some l \<Rightarrow> l < now)"

definition reopen :: "time \<Rightarrow> task_row \<Rightarrow> task_row" where
  "reopen now t = t\<lparr>tk_status := Open, tk_claimed_by := None, tk_lease_until := None, tk_updated_at := now\<rparr>"

definition expire_leases :: "time \<Rightarrow> board \<Rightarrow> board \<times> nat" where
  "expire_leases now bd =
     (bd\<lparr>bd_tasks := map (\<lambda>t. if lease_expired now t then reopen now t else t) (bd_tasks bd)\<rparr>,
      length (filter (lease_expired now) (bd_tasks bd)))"

section \<open>Agents\<close>

definition AGENT_STALE_S :: time where "AGENT_STALE_S = 90"
definition DEFAULT_LEASE_S :: int where "DEFAULT_LEASE_S = 300"

record agent_register =
  ar_project_id :: "string option"
  ar_name :: string
  ar_role :: string
  ar_model :: string
  ar_capabilities :: "string list"

definition register_agent :: "mb_env \<Rightarrow> agent_register \<Rightarrow> (string \<times> string) handler" where
  "register_agent env req =
     (if length (ar_name req) > 120 \<or> length (ar_role req) > 200 \<or> length (ar_model req) > 200
      then (\<lambda>bd. (bd, raise (HTTPException 422)))
      else hbind (resolve_project env False (ar_project_id req)) (\<lambda>scope bd.
        case find (\<lambda>a. ag_name a = ar_name req \<and> ag_project_id a = scope) (bd_agents bd) of
          Some row \<Rightarrow>
            (bd\<lparr>bd_agents := map (\<lambda>a. if ag_id a = ag_id row
                   then a\<lparr>ag_role := ar_role req, ag_model := ar_model req,
                          ag_capabilities := ar_capabilities req, ag_last_seen := ev_now env\<rparr>
                   else a) (bd_agents bd)\<rparr>, ok (ag_id row, scope))
        | None \<Rightarrow>
            (bd\<lparr>bd_agents := bd_agents bd @
               [\<lparr>ag_id = ev_uuid env, ag_name = ar_name req, ag_role = ar_role req, ag_model = ar_model req,
                 ag_capabilities = ar_capabilities req, ag_registered_at = ev_now env,
                 ag_last_seen = ev_now env, ag_status = Idle, ag_project_id = scope\<rparr>]\<rparr>,
             ok (ev_uuid env, scope))))"

definition heartbeat :: "mb_env \<Rightarrow> string \<Rightarrow> agent_status \<Rightarrow> unit handler" where
  "heartbeat env agent_id status bd =
     (if agent_id \<in> set (map ag_id (bd_agents bd))
      then (bd\<lparr>bd_agents := map (\<lambda>a. if ag_id a = agent_id
              then a\<lparr>ag_last_seen := ev_now env, ag_status := status\<rparr> else a) (bd_agents bd)\<rparr>, ok ())
      else (bd, raise (HTTPException 404)))"

definition agent_online :: "time \<Rightarrow> agent_row \<Rightarrow> bool" where
  "agent_online now a \<longleftrightarrow> now - ag_last_seen a < AGENT_STALE_S"

definition list_agents :: "mb_env \<Rightarrow> string option \<Rightarrow> (agent_row \<times> bool) list handler" where
  "list_agents env project_id =
     hbind (resolve_project env False project_id) (\<lambda>scope bd.
       (bd, ok (map (\<lambda>a. (a, agent_online (ev_now env) a))
                 (sort_key ag_name (filter (\<lambda>a. ag_project_id a = scope) (bd_agents bd))))))"

section \<open>Messages\<close>

record post_message_req =
  pm_project_id :: "string option"
  pm_channel :: string
  pm_author :: string
  pm_author_id :: "string option"
  pm_kind :: msg_kind
  pm_content :: string
  pm_meta :: json
  pm_reply_to :: "int option"

definition post_message :: "mb_env \<Rightarrow> post_message_req \<Rightarrow> (nat \<times> string \<times> string) handler" where
  "post_message env req =
     (if length (pm_channel req) > 80 \<or> length (pm_author req) > 120 \<or> length (pm_content req) > 200000
      then (\<lambda>bd. (bd, raise (HTTPException 422)))
      else hbind (resolve_project env True (pm_project_id req)) (\<lambda>project_id bd.
        let (bd, session_id) = current_session_id env project_id bd;
            seq = bd_last_seq bd + 1
        in (bd\<lparr>bd_messages := bd_messages bd @
                 [\<lparr>ms_seq = seq, ms_channel = pm_channel req, ms_author = pm_author req,
                   ms_author_id = pm_author_id req, ms_kind = pm_kind req, ms_content = pm_content req,
                   ms_meta = pm_meta req, ms_reply_to = pm_reply_to req, ms_ts = ev_now env,
                   ms_session_id = session_id, ms_project_id = project_id\<rparr>],
               bd_last_seq := seq\<rparr>,
            ok (seq, session_id, project_id))))"

text \<open>A filter that is absent or the empty string adds no clause; \<open>tail\<close> is 0 when not asked for.\<close>

definition clause :: "string option \<Rightarrow> string \<Rightarrow> bool" where
  "clause c v \<longleftrightarrow> (case c of None \<Rightarrow> True | Some s \<Rightarrow> s = [] \<or> v = s)"

definition message_matches ::
  "string option \<Rightarrow> string option \<Rightarrow> string option \<Rightarrow> message_row \<Rightarrow> bool" where
  "message_matches channel session_id project_id m \<longleftrightarrow>
     clause channel (ms_channel m) \<and> clause session_id (ms_session_id m) \<and> clause project_id (ms_project_id m)"

definition read_messages ::
  "string option \<Rightarrow> int \<Rightarrow> nat \<Rightarrow> string option \<Rightarrow> string option \<Rightarrow> nat \<Rightarrow> board \<Rightarrow> message_row list" where
  "read_messages channel since limit session_id project_id tail bd =
     (let rows = sort_key ms_seq (filter (\<lambda>m. int (ms_seq m) > since
                    \<and> message_matches channel session_id project_id m) (bd_messages bd))
      in if tail > 0 then rev (take tail (rev rows)) else take limit rows)"

definition next_cursor :: "message_row list \<Rightarrow> int \<Rightarrow> int" where
  "next_cursor entries since = (if entries = [] then since else int (ms_seq (last entries)))"

text \<open>The long poll reads again every 0.4 s until the deadline; \<open>polls\<close> are the states of the
  board at those instants (other handlers run in between).\<close>

fun poll_messages :: "(board \<Rightarrow> message_row list) \<Rightarrow> board list \<Rightarrow> message_row list" where
  "poll_messages read [] = []"
| "poll_messages read (bd # polls) = (let entries = read bd in if entries \<noteq> [] then entries else poll_messages read polls)"

definition get_messages ::
  "mb_env \<Rightarrow> string option \<Rightarrow> int \<Rightarrow> nat \<Rightarrow> board list \<Rightarrow> string option \<Rightarrow> string option \<Rightarrow> nat
     \<Rightarrow> (message_row list \<times> int) handler" where
  "get_messages env channel since limit polls session_id project_id tail =
     (if \<not> (1 \<le> limit \<and> limit \<le> 1000 \<and> tail \<le> 500) then (\<lambda>bd. (bd, raise (HTTPException 422)))
      else hbind (resolve_project env False project_id) (\<lambda>scope bd.
        let entries = read_messages channel since limit session_id (Some scope) tail bd
        in if tail > 0 then (bd, ok (entries, next_cursor entries since))
           else
             let entries = (if entries = []
                            then poll_messages (read_messages channel since limit session_id (Some scope) 0) polls
                            else entries)
             in (bd, ok (entries, next_cursor entries since))))"

definition channels :: "board \<Rightarrow> (string \<times> nat \<times> time) list" where
  "channels bd =
     sort_key (\<lambda>(c, n, ts). - ts)
       (map (\<lambda>c. let rows = filter (\<lambda>m. ms_channel m = c) (bd_messages bd)
                 in (c, length rows, Max (set (map ms_ts rows))))
          (sort (remdups (map ms_channel (bd_messages bd)))))"

section \<open>Tasks\<close>

record create_task_req =
  ct_project_id :: "string option"
  ct_title :: string
  ct_description :: string
  ct_tier :: tier
  ct_parent_id :: "string option"

definition create_task :: "mb_env \<Rightarrow> create_task_req \<Rightarrow> (string \<times> string \<times> string) handler" where
  "create_task env req =
     (if length (ct_title req) > 300 \<or> length (ct_description req) > 100000
      then (\<lambda>bd. (bd, raise (HTTPException 422)))
      else hbind (resolve_project env True (ct_project_id req)) (\<lambda>project_id bd.
        let (bd, session_id) = current_session_id env project_id bd
        in (bd\<lparr>bd_tasks := bd_tasks bd @
                 [\<lparr>tk_id = ev_uuid env, tk_title = ct_title req, tk_description = ct_description req,
                   tk_tier = ct_tier req, tk_status = Open, tk_parent_id = ct_parent_id req,
                   tk_claimed_by = None, tk_lease_until = None, tk_result = None,
                   tk_created_at = ev_now env, tk_updated_at = ev_now env, tk_attempts = 0,
                   tk_session_id = session_id, tk_project_id = project_id\<rparr>]\<rparr>,
            ok (ev_uuid env, session_id, project_id))))"

record claim_req =
  cl_project_id :: "string option"
  cl_agent_id :: string
  cl_lease_s :: int
  cl_tier :: "tier option"

definition claim_valid :: "claim_req \<Rightarrow> bool" where
  "claim_valid req \<longleftrightarrow> 10 \<le> cl_lease_s req \<and> cl_lease_s req \<le> 7200"

definition claimable :: "string \<Rightarrow> tier option \<Rightarrow> task_row \<Rightarrow> bool" where
  "claimable scope tr t \<longleftrightarrow> tk_status t = Open \<and> tk_project_id t = scope \<and>
     (case tr of None \<Rightarrow> True | Some Auto \<Rightarrow> True | Some x \<Rightarrow> tk_tier t = x \<or> tk_tier t = Auto)"

definition claim_row :: "time \<Rightarrow> claim_req \<Rightarrow> task_row \<Rightarrow> task_row" where
  "claim_row now req t = t\<lparr>tk_status := Claimed, tk_claimed_by := Some (cl_agent_id req),
     tk_lease_until := Some (now + of_int (cl_lease_s req)), tk_updated_at := now,
     tk_attempts := tk_attempts t + 1\<rparr>"

definition claim_next :: "mb_env \<Rightarrow> claim_req \<Rightarrow> task_row option handler" where
  "claim_next env req =
     (if \<not> claim_valid req then (\<lambda>bd. (bd, raise (HTTPException 422)))
      else (\<lambda>bd. hbind (resolve_project env True (cl_project_id req)) (\<lambda>scope bd.
        case sort_key tk_created_at (filter (claimable scope (cl_tier req)) (bd_tasks bd)) of
          [] \<Rightarrow> (bd, ok None)
        | row # _ \<Rightarrow>
            let bd' = bd\<lparr>bd_tasks := map (\<lambda>t. if tk_id t = tk_id row \<and> tk_status t = Open
                          then claim_row (ev_now env) req t else t) (bd_tasks bd)\<rparr>
            in (bd', ok (find (\<lambda>t. tk_id t = tk_id row) (bd_tasks bd'))))
        (fst (expire_leases (ev_now env) bd))))"

record complete_req =
  cm_agent_id :: string
  cm_status :: complete_status
  cm_result :: string

definition final_status :: "complete_status \<Rightarrow> task_status" where
  "final_status c = (case c of CDone \<Rightarrow> Done | CFailed \<Rightarrow> Failed)"

definition complete_task :: "mb_env \<Rightarrow> string \<Rightarrow> complete_req \<Rightarrow> task_status handler" where
  "complete_task env task_id req bd =
     (if length (cm_result req) > 500000 then (bd, raise (HTTPException 422))
      else
        let mine = (\<lambda>t. tk_id t = task_id \<and> tk_claimed_by t = Some (cm_agent_id req))
        in if filter mine (bd_tasks bd) = [] then (bd, raise (HTTPException 409))
           else (bd\<lparr>bd_tasks := map (\<lambda>t. if mine t
                     then t\<lparr>tk_status := final_status (cm_status req), tk_result := Some (cm_result req),
                            tk_lease_until := None, tk_updated_at := ev_now env\<rparr>
                     else t) (bd_tasks bd)\<rparr>, ok (final_status (cm_status req))))"

definition extend_lease :: "mb_env \<Rightarrow> string \<Rightarrow> claim_req \<Rightarrow> unit handler" where
  "extend_lease env task_id req bd =
     (if \<not> claim_valid req then (bd, raise (HTTPException 422))
      else
        let mine = (\<lambda>t. tk_id t = task_id \<and> tk_claimed_by t = Some (cl_agent_id req) \<and> tk_status t = Claimed)
        in if filter mine (bd_tasks bd) = [] then (bd, raise (HTTPException 409))
           else (bd\<lparr>bd_tasks := map (\<lambda>t. if mine t
                     then t\<lparr>tk_lease_until := Some (ev_now env + of_int (cl_lease_s req)),
                            tk_updated_at := ev_now env\<rparr>
                     else t) (bd_tasks bd)\<rparr>, ok ()))"

definition task_status_text :: "task_status \<Rightarrow> string" where
  "task_status_text s = (case s of Open \<Rightarrow> ''open'' | Claimed \<Rightarrow> ''claimed'' | Done \<Rightarrow> ''done'' | Failed \<Rightarrow> ''failed'')"

definition list_tasks :: "mb_env \<Rightarrow> string option \<Rightarrow> nat \<Rightarrow> string option \<Rightarrow> task_row list handler" where
  "list_tasks env status limit project_id =
     (if \<not> (1 \<le> limit \<and> limit \<le> 1000) then (\<lambda>bd. (bd, raise (HTTPException 422)))
      else hbind (resolve_project env False project_id) (\<lambda>scope bd.
        let bd = fst (expire_leases (ev_now env) bd)
        in (bd, ok (take limit (sort_key (\<lambda>t. - tk_created_at t)
             (filter (\<lambda>t. tk_project_id t = scope \<and> clause status (task_status_text (tk_status t))) (bd_tasks bd)))))))"

section \<open>Blackboard\<close>

record set_value_req =
  sv_project_id :: "string option"
  sv_value :: json
  sv_updated_by :: string
  sv_expect_version :: "int option"

definition bb_lookup :: "string \<Rightarrow> string \<Rightarrow> board \<Rightarrow> bb_row option" where
  "bb_lookup scope key bd = find (\<lambda>r. bb_project_id r = scope \<and> bb_key r = key) (bd_blackboard bd)"

definition set_state :: "mb_env \<Rightarrow> string \<Rightarrow> set_value_req \<Rightarrow> (int \<times> string) handler" where
  "set_state env key req =
     hbind (resolve_project env False (sv_project_id req)) (\<lambda>scope bd.
       let row = bb_lookup scope key bd;
           current = (case row of None \<Rightarrow> 0 | Some r \<Rightarrow> bb_version r);
           version = (case row of None \<Rightarrow> 1 | Some r \<Rightarrow> bb_version r + 1)
       in if (case sv_expect_version req of None \<Rightarrow> False | Some v \<Rightarrow> current \<noteq> v)
          then (bd, raise (HTTPException 409))
          else case row of
             None \<Rightarrow> (bd\<lparr>bd_blackboard := bd_blackboard bd @
                 [\<lparr>bb_project_id = scope, bb_key = key, bb_value = sv_value req, bb_version = version,
                   bb_updated_by = sv_updated_by req, bb_updated_at = ev_now env\<rparr>]\<rparr>, ok (version, scope))
           | Some _ \<Rightarrow> (bd\<lparr>bd_blackboard := map (\<lambda>r. if bb_project_id r = scope \<and> bb_key r = key
                 then r\<lparr>bb_value := sv_value req, bb_version := version,
                        bb_updated_by := sv_updated_by req, bb_updated_at := ev_now env\<rparr>
                 else r) (bd_blackboard bd)\<rparr>, ok (version, scope)))"

definition get_state :: "mb_env \<Rightarrow> string \<Rightarrow> string option \<Rightarrow> bb_row handler" where
  "get_state env key project_id =
     hbind (resolve_project env False project_id) (\<lambda>scope bd.
       (bd, case bb_lookup scope key bd of None \<Rightarrow> raise (HTTPException 404) | Some r \<Rightarrow> ok r))"

definition list_state :: "mb_env \<Rightarrow> string option \<Rightarrow> bb_row list handler" where
  "list_state env project_id =
     hbind (resolve_project env False project_id) (\<lambda>scope bd.
       (bd, ok (sort_key bb_key (filter (\<lambda>r. bb_project_id r = scope) (bd_blackboard bd)))))"

section \<open>Sessions\<close>

record new_session_req =
  ns_project_id :: "string option"
  ns_title :: string
  ns_note :: string

definition start_session :: "mb_env \<Rightarrow> new_session_req \<Rightarrow> (string \<times> string \<times> string) handler" where
  "start_session env req =
     (if length (ns_title req) > 200 \<or> length (ns_note req) > 10000
      then (\<lambda>bd. (bd, raise (HTTPException 422)))
      else
        let title = (if py_strip (ns_title req) \<noteq> [] then py_strip (ns_title req) else ev_now_text env)
        in hbind (resolve_project env False (ns_project_id req)) (\<lambda>scope bd.
          (bd\<lparr>bd_sessions := map (\<lambda>s. if ss_ended_at s = None \<and> ss_project_id s = scope
                 then s\<lparr>ss_ended_at := Some (ev_now env)\<rparr> else s) (bd_sessions bd) @
               [\<lparr>ss_id = ev_session_uuid env, ss_title = title, ss_note = ns_note req,
                 ss_started_at = ev_now env, ss_ended_at = None, ss_project_id = scope\<rparr>]\<rparr>,
           ok (ev_session_uuid env, title, scope))))"

definition close_session :: "mb_env \<Rightarrow> string \<Rightarrow> unit handler" where
  "close_session env session_id bd =
     (let mine = (\<lambda>s. ss_id s = session_id \<and> ss_ended_at s = None)
      in if filter mine (bd_sessions bd) = [] then (bd, raise (HTTPException 404))
         else (bd\<lparr>bd_sessions := map (\<lambda>s. if mine s then s\<lparr>ss_ended_at := Some (ev_now env)\<rparr> else s)
                  (bd_sessions bd)\<rparr>, ok ()))"

record session_view =
  sv_session :: session_row
  sv_message_count :: nat
  sv_task_count :: nat
  sv_tasks_done :: nat
  sv_active :: bool

definition session_view_of :: "board \<Rightarrow> session_row \<Rightarrow> session_view" where
  "session_view_of bd s =
     \<lparr>sv_session = s,
      sv_message_count = length (filter (\<lambda>m. ms_session_id m = ss_id s) (bd_messages bd)),
      sv_task_count = length (filter (\<lambda>t. tk_session_id t = ss_id s) (bd_tasks bd)),
      sv_tasks_done = length (filter (\<lambda>t. tk_session_id t = ss_id s \<and> tk_status t = Done) (bd_tasks bd)),
      sv_active = (ss_ended_at s = None)\<rparr>"

definition list_sessions :: "mb_env \<Rightarrow> nat \<Rightarrow> string option \<Rightarrow> session_view list handler" where
  "list_sessions env limit project_id =
     (if \<not> (1 \<le> limit \<and> limit \<le> 1000) then (\<lambda>bd. (bd, raise (HTTPException 422)))
      else hbind (resolve_project env False project_id) (\<lambda>scope bd.
        (bd, ok (map (session_view_of bd) (take limit (sort_key (\<lambda>s. - ss_started_at s)
           (filter (\<lambda>s. ss_project_id s = scope) (bd_sessions bd))))))))"

definition get_session :: "string \<Rightarrow> (session_row \<times> message_row list \<times> task_row list) handler" where
  "get_session session_id bd =
     (bd, case find (\<lambda>s. ss_id s = session_id) (bd_sessions bd) of
            None \<Rightarrow> raise (HTTPException 404)
          | Some s \<Rightarrow> ok (s, sort_key ms_seq (filter (\<lambda>m. ms_session_id m = session_id) (bd_messages bd)),
                            sort_key tk_created_at (filter (\<lambda>t. tk_session_id t = session_id) (bd_tasks bd))))"

record board_summary =
  sm_agents :: "(agent_row \<times> bool) list"
  sm_task_counts :: "task_status \<Rightarrow> nat"
  sm_message_total :: nat
  sm_session :: "session_row option"

definition summary :: "mb_env \<Rightarrow> string option \<Rightarrow> board_summary handler" where
  "summary env project_id =
     hbind (resolve_project env False project_id) (\<lambda>scope bd.
       let bd = fst (expire_leases (ev_now env) bd)
       in (bd, ok \<lparr>sm_agents = map (\<lambda>a. (a, agent_online (ev_now env) a))
                     (sort_key ag_name (filter (\<lambda>a. ag_project_id a = scope) (bd_agents bd))),
            sm_task_counts = (\<lambda>st. length (filter (\<lambda>t. tk_project_id t = scope \<and> tk_status t = st) (bd_tasks bd))),
            sm_message_total = length (filter (\<lambda>m. ms_project_id m = scope) (bd_messages bd)),
            sm_session = (case sort_key (\<lambda>s. - ss_started_at s) (open_sessions scope bd) of
                            [] \<Rightarrow> None | s # _ \<Rightarrow> Some s)\<rparr>))"

section \<open>Requests\<close>

text \<open>The handlers that write, as one type of requests; \<open>board_step\<close> is the board a request
  leaves, whatever its answer. The handlers run one at a time: each holds \<open>_db_lock\<close> while it
  touches the database.\<close>

datatype request =
    Register agent_register
  | Heartbeat string agent_status
  | Post post_message_req
  | Create create_task_req
  | Claim claim_req
  | Complete string complete_req
  | Extend string claim_req
  | ListTasks "string option" nat "string option"
  | SetState string set_value_req
  | StartSession new_session_req
  | CloseSession string
  | Summary "string option"

fun board_step :: "mb_env \<Rightarrow> request \<Rightarrow> board \<Rightarrow> board" where
  "board_step env (Register r) bd = fst (register_agent env r bd)"
| "board_step env (Heartbeat i st) bd = fst (heartbeat env i st bd)"
| "board_step env (Post r) bd = fst (post_message env r bd)"
| "board_step env (Create r) bd = fst (create_task env r bd)"
| "board_step env (Claim r) bd = fst (claim_next env r bd)"
| "board_step env (Complete i r) bd = fst (complete_task env i r bd)"
| "board_step env (Extend i r) bd = fst (extend_lease env i r bd)"
| "board_step env (ListTasks st n p) bd = fst (list_tasks env st n p bd)"
| "board_step env (SetState k r) bd = fst (set_state env k r bd)"
| "board_step env (StartSession r) bd = fst (start_session env r bd)"
| "board_step env (CloseSession i) bd = fst (close_session env i bd)"
| "board_step env (Summary p) bd = fst (summary env p bd)"

fun board_run :: "(mb_env \<times> request) list \<Rightarrow> board \<Rightarrow> board" where
  "board_run [] bd = bd"
| "board_run ((env, r) # rest) bd = board_run rest (board_step env r bd)"

section \<open>What every handler does to the tables\<close>

lemma adopt_nil [simp]:
  "adopt_session [] r = r" "adopt_message [] m = m" "adopt_task [] t = t"
  "adopt_agent [] a = a" "adopt_bb [] b = b"
  by (simp_all add: adopt_session_def adopt_message_def adopt_task_def adopt_agent_def adopt_bb_def)

lemma map_adopt_nil [simp]:
  "map (adopt_session []) rs = rs" "map (adopt_message []) ms = ms" "map (adopt_task []) ts = ts"
  "map (adopt_agent []) as = as" "map (adopt_bb []) bs = bs"
  by (simp_all add: map_idI)

lemma adopt_task_sel [simp]:
  "tk_id (adopt_task p t) = tk_id t" "tk_status (adopt_task p t) = tk_status t"
  "tk_claimed_by (adopt_task p t) = tk_claimed_by t" "tk_lease_until (adopt_task p t) = tk_lease_until t"
  "tk_created_at (adopt_task p t) = tk_created_at t" "tk_tier (adopt_task p t) = tk_tier t"
  by (simp_all add: adopt_task_def)

text \<open>Whatever \<open>resolve_project\<close> does, the tables change by an adoption only (of nothing, when
  the adopting project is the empty name).\<close>

definition adopted_board :: "string \<Rightarrow> registry_file \<Rightarrow> board \<Rightarrow> board" where
  "adopted_board p reg bd = fst (adopt_orphans p (bd\<lparr>bd_registry := reg\<rparr>))"

lemma adopted_board_sel [simp]:
  "bd_tasks (adopted_board p reg bd) = map (adopt_task p) (bd_tasks bd)"
  "bd_sessions (adopted_board p reg bd) = map (adopt_session p) (bd_sessions bd)"
  "bd_messages (adopted_board p reg bd) = map (adopt_message p) (bd_messages bd)"
  "bd_agents (adopted_board p reg bd) = map (adopt_agent p) (bd_agents bd)"
  "bd_blackboard (adopted_board p reg bd) = map (adopt_bb p) (bd_blackboard bd)"
  "bd_last_seq (adopted_board p reg bd) = bd_last_seq bd"
  "bd_registry (adopted_board p reg bd) = reg"
  by (simp_all add: adopted_board_def adopt_orphans_def)

lemma adopted_board_nil: "adopted_board [] (bd_registry bd) bd = bd"
  "adopted_board [] reg bd = bd\<lparr>bd_registry := reg\<rparr>"
  by (simp_all add: adopted_board_def adopt_orphans_def)

locale board_registry = project_registry known active default_project new_id
  for known :: "registry_file \<Rightarrow> string \<Rightarrow> bool"
    and active :: "registry_file \<Rightarrow> string option"
    and default_project :: "registry_file \<Rightarrow> (registry_file \<times> string) result"
    and new_id :: string
begin

lemma resolve_known:
  "resolve_with known active default_project locked explicit bd = (bd', ok p) \<Longrightarrow> known (bd_registry bd') p"
  by (auto simp: resolve_with_def adopt_orphans_def active_known default_known
      split: option.splits list.splits sum.splits if_splits)

text \<open>The last branch of \<open>resolve_project\<close>: no explicit project and no active one.\<close>

lemma resolve_default_frame:
  assumes "active (bd_registry bd) = None \<or> active (bd_registry bd) = Some []"
    and "default_project (bd_registry bd) = ok (reg, d)"
  shows "d = [] \<or> d = new_id"
  using assms default_cases by fastforce

lemma resolve_frame:
  "\<exists>p reg. fst (resolve_with known active default_project locked explicit bd) = adopted_board p reg bd
     \<and> (p = [] \<or> p = new_id)"
proof -
  have same: "\<exists>p reg. bd = adopted_board p reg bd \<and> (p = [] \<or> p = new_id)"
    by (rule exI [of _ "[]"], rule exI [of _ "bd_registry bd"]) (simp add: adopted_board_nil)
  have reg: "\<exists>p reg. bd\<lparr>bd_registry := g\<rparr> = adopted_board p reg bd \<and> (p = [] \<or> p = new_id)" for g
    by (rule exI [of _ "[]"], rule exI [of _ g]) (simp add: adopted_board_nil)
  have dflt: "\<exists>p reg. fst (case default_project (bd_registry bd) of
         Inl e \<Rightarrow> (bd, Inl e)
       | Inr (reg, created) \<Rightarrow>
           (if locked then (bd\<lparr>bd_registry := reg\<rparr>, Inl Deadlock)
            else (fst (adopt_orphans created (bd\<lparr>bd_registry := reg\<rparr>)), ok created)))
         = adopted_board p reg bd \<and> (p = [] \<or> p = new_id)"
    if none: "active (bd_registry bd) = None \<or> active (bd_registry bd) = Some []"
  proof (cases "default_project (bd_registry bd)")
    case (Inl e)
    with same show ?thesis by simp
  next
    case (Inr x)
    obtain g d where x: "x = (g, d)" by (cases x)
    have "d = [] \<or> d = new_id" using resolve_default_frame [OF none] Inr x by blast
    with Inr x reg show ?thesis by (cases locked) (auto simp: adopted_board_def)
  qed
  have dflt': "\<exists>p reg. fst (case active (bd_registry bd) of
        Some (c # cs) \<Rightarrow> (bd, ok (c # cs))
      | _ \<Rightarrow> (case default_project (bd_registry bd) of
         Inl e \<Rightarrow> (bd, Inl e)
       | Inr (reg, created) \<Rightarrow>
           (if locked then (bd\<lparr>bd_registry := reg\<rparr>, Inl Deadlock)
            else (fst (adopt_orphans created (bd\<lparr>bd_registry := reg\<rparr>)), ok created))))
         = adopted_board p reg bd \<and> (p = [] \<or> p = new_id)"
  proof (cases "active (bd_registry bd)")
    case None
    with dflt show ?thesis by simp
  next
    case (Some a)
    with dflt same show ?thesis by (cases a) simp_all
  qed
  show ?thesis
  proof (cases explicit)
    case None
    with dflt' show ?thesis by (simp add: resolve_with_def)
  next
    case (Some e)
    with dflt' same show ?thesis by (cases e) (simp_all add: resolve_with_def)
  qed
qed

end

interpretation board: board_registry known_project active_id
  "default_project_id uuid now default_root mkdir_ok resolve" uuid for uuid now default_root mkdir_ok resolve
  by unfold_locales

lemma resolve_project_frame:
  obtains p reg where "fst (resolve_project env locked explicit bd) = adopted_board p reg bd"
    and "p = [] \<or> p = ev_project_uuid env"
  using board.resolve_frame unfolding resolve_project_def by blast

lemma resolve_project_cases:
  obtains (err) p reg e where "resolve_project env locked explicit bd = (adopted_board p reg bd, Inl e)"
      and "p = [] \<or> p = ev_project_uuid env"
    | (res) p reg scope where "resolve_project env locked explicit bd = (adopted_board p reg bd, ok scope)"
      and "p = [] \<or> p = ev_project_uuid env" and "known_project reg scope"
proof -
  obtain p reg where f: "fst (resolve_project env locked explicit bd) = adopted_board p reg bd"
      "p = [] \<or> p = ev_project_uuid env" by (rule resolve_project_frame)
  show thesis
  proof (cases "snd (resolve_project env locked explicit bd)")
    case (Inl e)
    with f show thesis by (intro err [of p reg e]) (auto simp: prod_eq_iff)
  next
    case (Inr scope)
    with f have r: "resolve_project env locked explicit bd = (adopted_board p reg bd, ok scope)"
      by (auto simp: prod_eq_iff)
    then have "known_project (bd_registry (adopted_board p reg bd)) scope"
      unfolding resolve_project_def by (rule board.resolve_known)
    with f r show thesis by (intro res [of p reg scope]) auto
  qed
qed

section \<open>The invariant of the board\<close>

text \<open>An open task has no owner and no lease; a claimed one has both; a finished one keeps its
  owner and has no lease.\<close>

definition task_ok :: "task_row \<Rightarrow> bool" where
  "task_ok t \<longleftrightarrow> (case tk_status t of
       Open \<Rightarrow> tk_claimed_by t = None \<and> tk_lease_until t = None
     | Claimed \<Rightarrow> tk_claimed_by t \<noteq> None \<and> tk_lease_until t \<noteq> None
     | _ \<Rightarrow> tk_claimed_by t \<noteq> None \<and> tk_lease_until t = None)"

definition tasks_inv :: "board \<Rightarrow> bool" where
  "tasks_inv bd \<longleftrightarrow> distinct (map tk_id (bd_tasks bd)) \<and> (\<forall>t \<in> set (bd_tasks bd). task_ok t)"

definition messages_inv :: "board \<Rightarrow> bool" where
  "messages_inv bd \<longleftrightarrow> sorted_wrt (<) (map ms_seq (bd_messages bd))
     \<and> (\<forall>m \<in> set (bd_messages bd). ms_seq m \<le> bd_last_seq bd)"

definition sessions_inv :: "board \<Rightarrow> bool" where
  "sessions_inv bd \<longleftrightarrow> (\<forall>p. length (open_sessions p bd) \<le> 1)"

definition blackboard_inv :: "board \<Rightarrow> bool" where
  "blackboard_inv bd \<longleftrightarrow> distinct (map (\<lambda>r. (bb_project_id r, bb_key r)) (bd_blackboard bd))"

definition board_inv :: "board \<Rightarrow> bool" where
  "board_inv bd \<longleftrightarrow> tasks_inv bd \<and> messages_inv bd \<and> sessions_inv bd \<and> blackboard_inv bd"

text \<open>Fresh uuids: the task id is new, and the id of a default project is neither empty nor the
  project of any stored row.\<close>

definition ids_fresh :: "mb_env \<Rightarrow> board \<Rightarrow> bool" where
  "ids_fresh env bd \<longleftrightarrow> ev_uuid env \<notin> tk_id ` set (bd_tasks bd)"

definition project_fresh :: "mb_env \<Rightarrow> board \<Rightarrow> bool" where
  "project_fresh env bd \<longleftrightarrow> ev_project_uuid env \<noteq> []
     \<and> ev_project_uuid env \<notin> ss_project_id ` set (bd_sessions bd)
     \<and> ev_project_uuid env \<notin> bb_project_id ` set (bd_blackboard bd)"

fun run_fresh :: "(mb_env \<times> request) list \<Rightarrow> board \<Rightarrow> bool" where
  "run_fresh [] bd = True"
| "run_fresh ((env, r) # rest) bd =
     (ids_fresh env bd \<and> project_fresh env bd \<and> run_fresh rest (board_step env r bd))"

subsection \<open>Adoption keeps it\<close>

lemma adopt_task_ok [simp]: "task_ok (adopt_task p t) = task_ok t"
  by (cases "tk_status t") (simp_all add: task_ok_def)

lemma adopt_tasks_inv: "tasks_inv bd \<Longrightarrow> tasks_inv (adopted_board p reg bd)"
  by (auto simp: tasks_inv_def comp_def)

lemma adopt_messages_inv: "messages_inv bd \<Longrightarrow> messages_inv (adopted_board p reg bd)"
proof -
  have "ms_seq (adopt_message p m) = ms_seq m" for m by (simp add: adopt_message_def)
  then show "messages_inv bd \<Longrightarrow> messages_inv (adopted_board p reg bd)"
    by (auto simp: messages_inv_def comp_def)
qed

lemma adopt_session_sel [simp]:
  "ss_ended_at (adopt_session p s) = ss_ended_at s"
  "ss_project_id (adopt_session p s) = (if ss_project_id s = [] then p else ss_project_id s)"
  by (simp_all add: adopt_session_def)

lemma filter_adopt_sessions:
  assumes "\<And>s. s \<in> set ss \<Longrightarrow> ss_project_id (adopt_session p s) = q \<longleftrightarrow> ss_project_id s = q'"
  shows "length (filter (\<lambda>s. ss_ended_at s = None \<and> ss_project_id s = q) (map (adopt_session p) ss))
    = length (filter (\<lambda>s. ss_ended_at s = None \<and> ss_project_id s = q') ss)"
  using assms
proof (induction ss)
  case (Cons s ss)
  then have "length (filter (\<lambda>s. ss_ended_at s = None \<and> ss_project_id s = q) (map (adopt_session p) ss))
    = length (filter (\<lambda>s. ss_ended_at s = None \<and> ss_project_id s = q') ss)" by simp
  moreover have "ss_project_id (adopt_session p s) = q \<longleftrightarrow> ss_project_id s = q'" using Cons.prems by simp
  ultimately show ?case by (simp del: adopt_session_sel(2))
qed simp

lemma open_sessions_adopted:
  assumes "p \<noteq> []" "p \<notin> ss_project_id ` set (bd_sessions bd)"
  shows "length (open_sessions p (adopted_board p reg bd)) = length (open_sessions [] bd)"
    and "q \<noteq> p \<Longrightarrow> q \<noteq> [] \<Longrightarrow> length (open_sessions q (adopted_board p reg bd)) = length (open_sessions q bd)"
    and "open_sessions [] (adopted_board p reg bd) = []"
proof -
  have sp: "ss_project_id s \<noteq> p" if "s \<in> set (bd_sessions bd)" for s using assms(2) that by blast
  show "length (open_sessions p (adopted_board p reg bd)) = length (open_sessions [] bd)"
    unfolding open_sessions_def adopted_board_sel by (rule filter_adopt_sessions) (use sp in simp)
  show "length (open_sessions q (adopted_board p reg bd)) = length (open_sessions q bd)"
    if "q \<noteq> p" "q \<noteq> []"
    unfolding open_sessions_def adopted_board_sel
    by (rule filter_adopt_sessions) (use that in \<open>simp add: adopt_session_def\<close>)
  show "open_sessions [] (adopted_board p reg bd) = []"
    using assms(1) by (simp add: open_sessions_def filter_empty_conv)
qed

lemma adopt_sessions_inv:
  assumes "sessions_inv bd" "p = [] \<or> p \<notin> ss_project_id ` set (bd_sessions bd)"
  shows "sessions_inv (adopted_board p reg bd)"
proof (cases "p = []")
  case True
  with assms show ?thesis by (simp add: sessions_inv_def open_sessions_def)
next
  case False
  note adopted = open_sessions_adopted [OF False, of bd]
  have bound: "length (open_sessions r bd) \<le> 1" for r using assms(1) by (simp add: sessions_inv_def)
  have "length (open_sessions q (adopted_board p reg bd)) \<le> 1" for q
    using False assms(2) adopted bound [of "[]"] bound [of q]
    by (cases "q = p"; cases "q = []") simp_all
  then show ?thesis by (simp add: sessions_inv_def)
qed

lemma adopt_blackboard_inv:
  assumes "blackboard_inv bd" "p = [] \<or> p \<notin> bb_project_id ` set (bd_blackboard bd)"
  shows "blackboard_inv (adopted_board p reg bd)"
proof -
  have "distinct (map (\<lambda>r. (bb_project_id r, bb_key r)) rs)
      \<Longrightarrow> p \<notin> bb_project_id ` set rs
      \<Longrightarrow> distinct (map (\<lambda>r. (bb_project_id (adopt_bb p r), bb_key (adopt_bb p r))) rs)" for rs
    by (induction rs) (auto simp: adopt_bb_def image_iff split: if_splits)
  with assms show ?thesis
    by (cases "p = []") (auto simp: blackboard_inv_def comp_def)
qed

lemma adopt_board_inv:
  assumes "board_inv bd" "p = [] \<or> p = ev_project_uuid env" "project_fresh env bd"
  shows "board_inv (adopted_board p reg bd)"
  using assms
  by (auto simp: board_inv_def project_fresh_def
      intro: adopt_tasks_inv adopt_messages_inv adopt_sessions_inv adopt_blackboard_inv)

definition inv_for :: "mb_env \<Rightarrow> board \<Rightarrow> bool" where
  "inv_for env bd \<longleftrightarrow> board_inv bd \<and> ids_fresh env bd"

lemma resolve_inv:
  assumes "inv_for env bd" "project_fresh env bd"
  shows "inv_for env (fst (resolve_project env locked e bd))"
proof -
  obtain p reg where f: "fst (resolve_project env locked e bd) = adopted_board p reg bd"
      "p = [] \<or> p = ev_project_uuid env" by (rule resolve_project_frame)
  show ?thesis
    using assms f adopt_board_inv [of bd p env reg]
    by (simp add: inv_for_def ids_fresh_def image_image)
qed

lemma hbind_inv:
  assumes "I (fst (h bd))" "\<And>x bd'. I bd' \<Longrightarrow> I (fst (k x bd'))"
  shows "I (fst (hbind h k bd))"
  using assms by (auto simp: hbind_def split: prod.splits sum.splits)

lemma resolved_inv:
  assumes "inv_for env bd" "project_fresh env bd" "\<And>x bd'. inv_for env bd' \<Longrightarrow> inv_for env (fst (k x bd'))"
  shows "inv_for env (fst (hbind (resolve_project env locked e) k bd))"
  using resolve_inv [OF assms(1,2)] assms(3) by (rule hbind_inv)

lemma guarded_inv:
  assumes "I bd" "I (fst (h bd))"
  shows "I (fst ((if b then (\<lambda>bd. (bd, raise e)) else h) bd))"
  using assms by simp

subsection \<open>Every request keeps it\<close>

lemma tasks_map_inv:
  assumes "inv_for env bd" "\<And>t. t \<in> set (bd_tasks bd) \<Longrightarrow> tk_id (g t) = tk_id t"
    "\<And>t. t \<in> set (bd_tasks bd) \<Longrightarrow> task_ok t \<Longrightarrow> task_ok (g t)"
  shows "inv_for env (bd\<lparr>bd_tasks := map g (bd_tasks bd)\<rparr>)"
proof -
  have ids: "map tk_id (map g (bd_tasks bd)) = map tk_id (bd_tasks bd)" using assms(2) by simp
  have "tk_id ` g ` set (bd_tasks bd) = tk_id ` set (bd_tasks bd)"
    using arg_cong [OF ids, of set] unfolding set_map .
  with assms ids show ?thesis
    by (auto simp: inv_for_def board_inv_def tasks_inv_def messages_inv_def sessions_inv_def
        blackboard_inv_def ids_fresh_def open_sessions_def simp del: map_map)
qed

lemma expire_inv: "inv_for env bd \<Longrightarrow> inv_for env (fst (expire_leases now bd))"
  unfolding expire_leases_def fst_conv
  by (rule tasks_map_inv) (auto simp: reopen_def task_ok_def)

lemma session_inv_step:
  "inv_for env bd \<Longrightarrow> inv_for env (fst (current_session_id env p bd))"
proof (cases "sort_key (\<lambda>s. - ss_started_at s) (open_sessions p bd)")
  case Nil
  then have "open_sessions p bd = []" by (metis length_0_conv length_sort)
  then show "inv_for env bd \<Longrightarrow> ?thesis" using Nil
    by (auto simp: current_session_id_def inv_for_def board_inv_def tasks_inv_def messages_inv_def
        sessions_inv_def blackboard_inv_def ids_fresh_def open_sessions_def)
next
  case (Cons s ss)
  then show "inv_for env bd \<Longrightarrow> ?thesis" by (simp add: current_session_id_def)
qed

lemmas inv_defs = inv_for_def board_inv_def tasks_inv_def messages_inv_def sessions_inv_def
  blackboard_inv_def ids_fresh_def open_sessions_def

lemma inv_board: "inv_for env bd \<Longrightarrow> board_inv bd"
  by (simp add: inv_for_def)

lemma resolved_board:
  assumes "inv_for env bd" "project_fresh env bd" "\<And>x bd'. inv_for env bd' \<Longrightarrow> board_inv (fst (k x bd'))"
  shows "board_inv (fst (hbind (resolve_project env locked e) k bd))"
  using resolve_inv [OF assms(1,2), of locked e] assms(3)
  by (cases "resolve_project env locked e bd"; cases "snd (resolve_project env locked e bd)")
    (simp_all add: hbind_def inv_board)

lemma agents_inv: "inv_for env bd \<Longrightarrow> inv_for env (bd\<lparr>bd_agents := as\<rparr>)"
  by (simp add: inv_defs)

lemma message_inv:
  assumes "inv_for env bd" "ms_seq m = bd_last_seq bd + 1"
  shows "inv_for env (bd\<lparr>bd_messages := bd_messages bd @ [m], bd_last_seq := bd_last_seq bd + 1\<rparr>)"
  using assms by (auto simp: inv_defs sorted_wrt_append)

lemma new_task_board:
  assumes "inv_for env bd" "tk_id t = ev_uuid env" "task_ok t"
  shows "board_inv (bd\<lparr>bd_tasks := bd_tasks bd @ [t]\<rparr>)"
  using assms by (auto simp: inv_defs)

lemma claim_row_ok [simp]: "tk_id (claim_row now req t) = tk_id t" "task_ok (claim_row now req t)"
  by (simp_all add: claim_row_def task_ok_def)

lemma sessions_replace_inv:
  assumes "inv_for env bd" "\<And>q. length (filter (\<lambda>s. ss_ended_at s = None \<and> ss_project_id s = q) ss) \<le> 1"
  shows "inv_for env (bd\<lparr>bd_sessions := ss\<rparr>)"
  using assms by (simp add: inv_defs)

lemma register_inv:
  assumes "inv_for env bd" "project_fresh env bd"
  shows "inv_for env (fst (register_agent env r bd))"
proof -
  have "inv_for env (fst (hbind (resolve_project env False (ar_project_id r)) (\<lambda>scope bd.
        case find (\<lambda>a. ag_name a = ar_name r \<and> ag_project_id a = scope) (bd_agents bd) of
          Some row \<Rightarrow> (bd\<lparr>bd_agents := f row bd\<rparr>, g row scope)
        | None \<Rightarrow> (bd\<lparr>bd_agents := f' scope bd\<rparr>, g' scope)) bd))" for f g f' and g' :: "string \<Rightarrow> (string \<times> string) result"
    by (rule resolved_inv [OF assms]) (simp add: agents_inv split: option.split)
  then show ?thesis using assms(1) by (simp add: register_agent_def)
qed

lemma heartbeat_inv: "inv_for env bd \<Longrightarrow> inv_for env (fst (heartbeat env i st bd))"
  by (simp add: heartbeat_def agents_inv)

lemma post_message_inv:
  assumes "inv_for env bd" "project_fresh env bd"
  shows "inv_for env (fst (post_message env r bd))"
proof -
  have "inv_for env (fst (let (bd, session_id) = current_session_id env p bd'; seq = bd_last_seq bd + 1
        in (bd\<lparr>bd_messages := bd_messages bd @
                 [\<lparr>ms_seq = seq, ms_channel = pm_channel r, ms_author = pm_author r,
                   ms_author_id = pm_author_id r, ms_kind = pm_kind r, ms_content = pm_content r,
                   ms_meta = pm_meta r, ms_reply_to = pm_reply_to r, ms_ts = ev_now env,
                   ms_session_id = session_id, ms_project_id = p\<rparr>],
               bd_last_seq := seq\<rparr>, ok (seq, session_id, p))))"
    if "inv_for env bd'" for p bd'
    using session_inv_step [OF that, of p]
    by (cases "current_session_id env p bd'") (simp add: message_inv [simplified])
  then show ?thesis unfolding post_message_def
    by (intro guarded_inv [where I = "inv_for env"] resolved_inv [OF assms] assms(1))
qed

lemma create_task_inv:
  assumes "inv_for env bd" "project_fresh env bd"
  shows "board_inv (fst (create_task env r bd))"
proof -
  have "board_inv (fst (let (bd, session_id) = current_session_id env p bd'
        in (bd\<lparr>bd_tasks := bd_tasks bd @
                 [\<lparr>tk_id = ev_uuid env, tk_title = ct_title r, tk_description = ct_description r,
                   tk_tier = ct_tier r, tk_status = Open, tk_parent_id = ct_parent_id r,
                   tk_claimed_by = None, tk_lease_until = None, tk_result = None,
                   tk_created_at = ev_now env, tk_updated_at = ev_now env, tk_attempts = 0,
                   tk_session_id = session_id, tk_project_id = p\<rparr>]\<rparr>,
            ok (ev_uuid env, session_id, p))))"
    if "inv_for env bd'" for p bd'
    using session_inv_step [OF that, of p]
    by (cases "current_session_id env p bd'") (simp add: new_task_board task_ok_def)
  then show ?thesis
    unfolding create_task_def
    by (intro guarded_inv [where I = board_inv] resolved_board [OF assms] inv_board [OF assms(1)])
qed

lemma claim_next_inv:
  assumes "inv_for env bd" "project_fresh env bd"
  shows "inv_for env (fst (claim_next env r bd))"
proof -
  have exp: "inv_for env (fst (expire_leases (ev_now env) bd))"
      "project_fresh env (fst (expire_leases (ev_now env) bd))"
    using expire_inv [OF assms(1)] assms(2) by (simp_all add: project_fresh_def expire_leases_def)
  have "inv_for env (fst (case sort_key tk_created_at (filter (claimable p (cl_tier r)) (bd_tasks bd')) of
          [] \<Rightarrow> (bd', ok None)
        | row # _ \<Rightarrow>
            let bd'' = bd'\<lparr>bd_tasks := map (\<lambda>t. if tk_id t = tk_id row \<and> tk_status t = Open
                          then claim_row (ev_now env) r t else t) (bd_tasks bd')\<rparr>
            in (bd'', ok (find (\<lambda>t. tk_id t = tk_id row) (bd_tasks bd'')))))"
    if "inv_for env bd'" for p bd'
  proof (cases "sort_key tk_created_at (filter (claimable p (cl_tier r)) (bd_tasks bd'))")
    case Nil
    then show ?thesis using that by simp
  next
    case (Cons row rows)
    show ?thesis unfolding Cons list.case Let_def fst_conv
      by (rule tasks_map_inv [OF that]) simp_all
  qed
  then show ?thesis
    unfolding claim_next_def
    by (intro guarded_inv [where I = "inv_for env"] resolved_inv [OF exp] assms(1))
qed

lemma complete_task_inv: "inv_for env bd \<Longrightarrow> inv_for env (fst (complete_task env i r bd))"
proof -
  have fin: "task_ok (t\<lparr>tk_status := final_status (cm_status r), tk_result := x, tk_lease_until := None,
      tk_updated_at := n\<rparr>)" if "tk_claimed_by t = Some a" for t x n a
    using that by (cases "cm_status r") (simp_all add: task_ok_def final_status_def)
  show "inv_for env bd \<Longrightarrow> ?thesis"
    unfolding complete_task_def Let_def by (auto simp: fin intro!: tasks_map_inv)
qed

lemma extend_lease_inv: "inv_for env bd \<Longrightarrow> inv_for env (fst (extend_lease env i r bd))"
  unfolding extend_lease_def Let_def by (auto simp: task_ok_def intro!: tasks_map_inv)

lemma list_tasks_inv:
  assumes "inv_for env bd" "project_fresh env bd"
  shows "inv_for env (fst (list_tasks env st n p bd))"
  unfolding list_tasks_def Let_def
  by (intro guarded_inv [where I = "inv_for env"] resolved_inv [OF assms] assms(1)) (simp add: expire_inv)

lemma summary_inv:
  assumes "inv_for env bd" "project_fresh env bd"
  shows "inv_for env (fst (summary env p bd))"
  unfolding summary_def Let_def by (intro resolved_inv [OF assms]) (simp add: expire_inv)

lemma bb_lookup_None: "bb_lookup p k bd = None \<longleftrightarrow> (p, k) \<notin> (\<lambda>r. (bb_project_id r, bb_key r)) ` set (bd_blackboard bd)"
  by (auto simp: bb_lookup_def find_None_iff)

lemma set_state_body_inv:
  assumes "inv_for env bd"
  shows "bb_lookup p k bd = None \<Longrightarrow> bb_project_id r = p \<Longrightarrow> bb_key r = k
      \<Longrightarrow> inv_for env (bd\<lparr>bd_blackboard := bd_blackboard bd @ [r]\<rparr>)"
    and "(\<And>r. (bb_project_id (g r), bb_key (g r)) = (bb_project_id r, bb_key r))
      \<Longrightarrow> inv_for env (bd\<lparr>bd_blackboard := map g (bd_blackboard bd)\<rparr>)"
  using assms by (auto simp: inv_defs bb_lookup_None comp_def)

lemma set_state_inv:
  assumes "inv_for env bd" "project_fresh env bd"
  shows "inv_for env (fst (set_state env k r bd))"
  unfolding set_state_def Let_def
  by (intro resolved_inv [OF assms])
    (auto split: option.split simp: set_state_body_inv)

lemma filter_map_le:
  assumes "\<And>x. Q (g x) \<Longrightarrow> P x"
  shows "length (filter Q (map g xs)) \<le> length (filter P xs)"
  by (induction xs) (use assms in auto)

lemma close_session_inv:
  assumes "inv_for env bd"
  shows "inv_for env (fst (close_session env i bd))"
proof -
  define g where "g s = (if ss_id s = i \<and> ss_ended_at s = None then s\<lparr>ss_ended_at := Some (ev_now env)\<rparr> else s)" for s :: session_row
  have "length (filter (\<lambda>s. ss_ended_at s = None \<and> ss_project_id s = q) (map g (bd_sessions bd)))
      \<le> length (open_sessions q bd)" for q
    unfolding open_sessions_def by (rule filter_map_le) (simp add: g_def split: if_splits)
  moreover have "length (open_sessions q bd) \<le> 1" for q
    using assms by (simp add: inv_for_def board_inv_def sessions_inv_def)
  ultimately have "inv_for env (bd\<lparr>bd_sessions := map g (bd_sessions bd)\<rparr>)"
    using sessions_replace_inv [OF assms] order_trans by blast
  then show ?thesis using assms by (simp add: close_session_def g_def [abs_def])
qed

lemma filter_closed_same:
  "filter (\<lambda>s. ss_ended_at s = None \<and> ss_project_id s = p)
     (map (\<lambda>s. if ss_ended_at s = None \<and> ss_project_id s = p then s\<lparr>ss_ended_at := Some t\<rparr> else s) ss) = []"
proof (induction ss)
  case (Cons s ss)
  then show ?case by (cases "ss_ended_at s = None"; cases "ss_project_id s = p") simp_all
qed simp

lemma filter_closed_other:
  "q \<noteq> p \<Longrightarrow> filter (\<lambda>s. ss_ended_at s = None \<and> ss_project_id s = q)
     (map (\<lambda>s. if ss_ended_at s = None \<and> ss_project_id s = p then s\<lparr>ss_ended_at := Some t\<rparr> else s) ss)
   = filter (\<lambda>s. ss_ended_at s = None \<and> ss_project_id s = q) ss"
proof (induction ss)
  case (Cons s ss)
  then show ?case by (cases "ss_ended_at s = None"; cases "ss_project_id s = p") simp_all
qed simp

lemma start_session_body_inv:
  assumes "inv_for env bd" "ss_ended_at n = None" "ss_project_id n = p"
  shows "inv_for env (bd\<lparr>bd_sessions := map (\<lambda>s. if ss_ended_at s = None \<and> ss_project_id s = p
                 then s\<lparr>ss_ended_at := Some t\<rparr> else s) (bd_sessions bd) @ [n]\<rparr>)" (is "inv_for env (bd\<lparr>bd_sessions := map ?g _ @ _\<rparr>)")
proof (rule sessions_replace_inv [OF assms(1)])
  fix q
  have old: "length (open_sessions q bd) \<le> 1"
    using assms(1) by (simp add: inv_for_def board_inv_def sessions_inv_def)
  show "length (filter (\<lambda>s. ss_ended_at s = None \<and> ss_project_id s = q) (map ?g (bd_sessions bd) @ [n])) \<le> 1"
    using old assms(2,3) by (cases "q = p") (simp_all add: filter_closed_other filter_closed_same open_sessions_def)
qed

lemma start_session_inv:
  assumes "inv_for env bd" "project_fresh env bd"
  shows "inv_for env (fst (start_session env r bd))"
  unfolding start_session_def Let_def
  by (intro guarded_inv [where I = "inv_for env"] resolved_inv [OF assms] assms(1))
    (simp add: start_session_body_inv)

lemma board_step_inv:
  assumes "board_inv bd" "ids_fresh env bd" "project_fresh env bd"
  shows "board_inv (board_step env req bd)"
proof -
  have inv: "inv_for env bd" using assms by (simp add: inv_for_def)
  note handlers = register_inv heartbeat_inv post_message_inv claim_next_inv complete_task_inv
    extend_lease_inv list_tasks_inv set_state_inv start_session_inv close_session_inv summary_inv
  show ?thesis
    by (cases req) (simp_all add: inv_board [OF handlers(1)] create_task_inv inv assms(3) inv_board [OF heartbeat_inv]
        inv_board [OF post_message_inv] inv_board [OF claim_next_inv] inv_board [OF complete_task_inv]
        inv_board [OF extend_lease_inv] inv_board [OF list_tasks_inv] inv_board [OF set_state_inv]
        inv_board [OF start_session_inv] inv_board [OF close_session_inv] inv_board [OF summary_inv])
qed

end
