(* ===== verification/BoardProps.thy ===== *)
theory BoardProps
  imports MsgBoard
begin

text \<open>
  What the message board promises its agents: the invariant over every sequence of requests, the
  exclusive lease of a claimed task, the order in which tasks are handed out, the loss-free paging of
  the transcript and the compare-and-set of the blackboard. The deadlock of the handlers that
  resolve the project under \<open>_db_lock\<close> is stated at the end.
\<close>

section \<open>Shared facts\<close>

lemma resolve_explicit:
  "p \<noteq> [] \<Longrightarrow> resolve_project env locked (Some p) bd
     = (bd, if known_project (bd_registry bd) p then ok p else raise (HTTPException 404))"
  by (cases p) (simp_all add: resolve_project_def resolve_with_def)

lemma sort_key_filter_head:
  assumes "sort_key f xs = y # ys"
  shows "y \<in> set xs" "\<forall>x \<in> set xs. f y \<le> f x"
proof -
  have s: "sorted (map f (y # ys))" using assms by (metis sorted_sort_key)
  have "set xs = set (y # ys)" using assms by (metis set_sort)
  with s show "y \<in> set xs" "\<forall>x \<in> set xs. f y \<le> f x" by auto
qed

lemma sort_key_Nil: "sort_key f xs = [] \<longleftrightarrow> xs = []"
  by (metis length_0_conv length_sort)

lemma find_distinct:
  assumes "distinct (map f xs)" "x \<in> set xs"
  shows "find (\<lambda>y. f y = f x) xs = Some x"
  using assms by (induction xs) auto

lemma find_map_same:
  assumes "\<And>x. f (g x) = f x"
  shows "find (\<lambda>y. f y = k) (map g xs) = map_option g (find (\<lambda>y. f y = k) xs)"
  by (induction xs) (use assms in auto)

section \<open>The invariant over runs\<close>

lemma board_run_inv: "board_inv bd \<Longrightarrow> run_fresh rs bd \<Longrightarrow> board_inv (board_run rs bd)"
  by (induction rs bd rule: run_fresh.induct) (simp_all add: board_step_inv)

text \<open>C6: whatever sequence of requests the board serves, the board stays well formed: task ids are
  unique, a task is claimed exactly when it has an owner and a lease, message numbers increase,
  a project has at most one open session and a blackboard key at most one row.\<close>

theorem board_run_invariant:
  assumes "board_inv bd" "run_fresh rs bd"
  shows "board_inv (board_run rs bd)"
  using assms by (rule board_run_inv)

definition demo_registry :: registry_file where
  "demo_registry = Some \<lparr>rg_projects = [sample_project], rg_active = Some ''u1''\<rparr>"

definition demo_board :: board where
  "demo_board = \<lparr>bd_agents = [], bd_messages = [], bd_last_seq = 0, bd_tasks = [], bd_blackboard = [],
     bd_sessions = [], bd_registry = demo_registry\<rparr>"

definition demo_env :: "time \<Rightarrow> string \<Rightarrow> mb_env" where
  "demo_env now uuid = \<lparr>ev_now = now, ev_uuid = uuid, ev_session_uuid = ''s1'', ev_project_uuid = ''u9'',
     ev_now_text = ''2025-01-01 00:00'', ev_root = ''/srv'', ev_mkdir_ok = (\<lambda>_. True), ev_resolve = id\<rparr>"

definition demo_task :: create_task_req where
  "demo_task = \<lparr>ct_project_id = Some ''u1'', ct_title = ''t'', ct_description = [], ct_tier = Auto, ct_parent_id = None\<rparr>"

definition demo_claim :: "string \<Rightarrow> claim_req" where
  "demo_claim a = \<lparr>cl_project_id = Some ''u1'', cl_agent_id = a, cl_lease_s = 300, cl_tier = None\<rparr>"

lemmas demo_defs = demo_registry_def demo_board_def demo_env_def demo_task_def demo_claim_def
  sample_project_def

lemma demo_known: "known_project demo_registry ''u1''"
  by (simp add: demo_defs known_project_iff project_ids_def)

lemma demo_create:
  "board_run [(demo_env 0 ''t1'', Create demo_task)] demo_board
   = demo_board\<lparr>bd_tasks := [\<lparr>tk_id = ''t1'', tk_title = ''t'', tk_description = [], tk_tier = Auto,
         tk_status = Open, tk_parent_id = None, tk_claimed_by = None, tk_lease_until = None,
         tk_result = None, tk_created_at = 0, tk_updated_at = 0, tk_attempts = 0,
         tk_session_id = ''s1'', tk_project_id = ''u1''\<rparr>],
      bd_sessions := [\<lparr>ss_id = ''s1'', ss_title = ''2025-01-01 00:00'', ss_note = [],
         ss_started_at = 0, ss_ended_at = None, ss_project_id = ''u1''\<rparr>]\<rparr>"
  using demo_known
  by (simp add: create_task_def hbind_def resolve_explicit demo_board_def demo_env_def demo_task_def
      current_session_id_def open_sessions_def)

theorem board_run_invariant_witness:
  "board_inv (board_run [(demo_env 0 ''t1'', Create demo_task), (demo_env 0 ''t2'', Create demo_task)] demo_board)"
proof -
  have i: "board_inv demo_board"
    by (simp add: demo_board_def inv_defs)
  have e: "board_step (demo_env 0 ''t1'') (Create demo_task) demo_board
      = board_run [(demo_env 0 ''t1'', Create demo_task)] demo_board" by simp
  have f: "run_fresh [(demo_env 0 ''t1'', Create demo_task), (demo_env 0 ''t2'', Create demo_task)] demo_board"
    unfolding run_fresh.simps e demo_create
    by (simp add: demo_board_def demo_env_def ids_fresh_def project_fresh_def)
  show ?thesis by (rule board_run_invariant [OF i f])
qed

section \<open>Tasks\<close>

text \<open>The task \<open>i\<close> is held by the agent \<open>a\<close> under a lease that ends at \<open>l\<close>.\<close>

definition leased :: "string \<Rightarrow> time \<Rightarrow> string \<Rightarrow> board \<Rightarrow> bool" where
  "leased a l i bd \<longleftrightarrow> (\<exists>t \<in> set (bd_tasks bd). tk_id t = i \<and> tk_status t = Claimed
     \<and> tk_claimed_by t = Some a \<and> tk_lease_until t = Some l)"

definition holder_acts :: "string \<Rightarrow> string \<Rightarrow> request \<Rightarrow> bool" where
  "holder_acts a i req \<longleftrightarrow> (case req of
       Complete j r \<Rightarrow> j = i \<and> cm_agent_id r = a
     | Extend j r \<Rightarrow> j = i \<and> cl_agent_id r = a
     | _ \<Rightarrow> False)"

lemma leased_mapI:
  assumes "leased a l i bd" "bd_tasks bd' = map g (bd_tasks bd)"
    "\<And>t. tk_id t = i \<Longrightarrow> tk_status t = Claimed \<Longrightarrow> tk_claimed_by t = Some a \<Longrightarrow> tk_lease_until t = Some l
       \<Longrightarrow> tk_id (g t) = i \<and> tk_status (g t) = Claimed \<and> tk_claimed_by (g t) = Some a \<and> tk_lease_until (g t) = Some l"
  shows "leased a l i bd'"
  using assms unfolding leased_def by fastforce

lemma leased_same: "leased a l i bd \<Longrightarrow> bd_tasks bd' = bd_tasks bd \<Longrightarrow> leased a l i bd'"
  by (simp add: leased_def)

lemma leased_append: "leased a l i bd \<Longrightarrow> bd_tasks bd' = bd_tasks bd @ ts \<Longrightarrow> leased a l i bd'"
  by (auto simp: leased_def)

lemma leased_resolve: "leased a l i bd \<Longrightarrow> leased a l i (fst (resolve_project env locked e bd))"
proof -
  assume l: "leased a l i bd"
  obtain p reg where f: "fst (resolve_project env locked e bd) = adopted_board p reg bd"
    by (rule resolve_project_frame)
  show ?thesis unfolding f by (rule leased_mapI [OF l, where g = "adopt_task p"]) simp_all
qed

lemma leased_resolved:
  assumes "leased a l i bd" "\<And>x bd'. leased a l i bd' \<Longrightarrow> leased a l i (fst (k x bd'))"
  shows "leased a l i (fst (hbind (resolve_project env locked e) k bd))"
  using leased_resolve [OF assms(1)] assms(2) by (rule hbind_inv)

lemma leased_expire:
  "leased a l i bd \<Longrightarrow> now \<le> l \<Longrightarrow> leased a l i (fst (expire_leases now bd))"
  unfolding expire_leases_def fst_conv
  by (rule leased_mapI [where g = "\<lambda>t. if lease_expired now t then reopen now t else t"])
    (simp_all add: lease_expired_def)

lemma tasks_current_session [simp]: "bd_tasks (fst (current_session_id env p bd)) = bd_tasks bd"
  by (simp add: current_session_id_def split: list.split)

lemma leased_update:
  "leased a l i bd \<Longrightarrow> leased a l i (bd\<lparr>bd_agents := as\<rparr>)"
  "leased a l i bd \<Longrightarrow> leased a l i (bd\<lparr>bd_messages := ms, bd_last_seq := n\<rparr>)"
  "leased a l i bd \<Longrightarrow> leased a l i (bd\<lparr>bd_blackboard := bb\<rparr>)"
  "leased a l i bd \<Longrightarrow> leased a l i (bd\<lparr>bd_sessions := ss\<rparr>)"
  by (simp_all add: leased_def)

lemma leased_claim:
  assumes "leased a l i bd"
  shows "leased a l i (bd\<lparr>bd_tasks := map (\<lambda>t. if tk_id t = j \<and> tk_status t = Open
            then claim_row now r t else t) (bd_tasks bd)\<rparr>)"
  by (rule leased_mapI [OF assms, where g = "\<lambda>t. if tk_id t = j \<and> tk_status t = Open
            then claim_row now r t else t"]) simp_all

lemma leased_complete:
  assumes "leased a l i bd" "\<not> holder_acts a i (Complete j r)"
  shows "leased a l i (fst (complete_task env j r bd))"
  using assms unfolding complete_task_def Let_def holder_acts_def
  by (auto intro!: leased_mapI [OF assms(1), where g = "\<lambda>t. if tk_id t = j \<and> tk_claimed_by t = Some (cm_agent_id r)
        then t\<lparr>tk_status := final_status (cm_status r), tk_result := Some (cm_result r),
               tk_lease_until := None, tk_updated_at := ev_now env\<rparr> else t"])

lemma leased_extend:
  assumes "leased a l i bd" "\<not> holder_acts a i (Extend j r)"
  shows "leased a l i (fst (extend_lease env j r bd))"
  using assms unfolding extend_lease_def Let_def holder_acts_def
  by (auto intro!: leased_mapI [OF assms(1), where g = "\<lambda>t. if tk_id t = j \<and> tk_claimed_by t = Some (cl_agent_id r)
        \<and> tk_status t = Claimed
        then t\<lparr>tk_lease_until := Some (ev_now env + of_int (cl_lease_s r)), tk_updated_at := ev_now env\<rparr> else t"])

lemma leased_step:
  assumes "leased a l i bd" "ev_now env \<le> l" "\<not> holder_acts a i req"
  shows "leased a l i (board_step env req bd)"
proof (cases req)
  case (Register r)
  then show ?thesis unfolding Register board_step.simps register_agent_def
    by (intro guarded_inv [where I = "leased a l i"] leased_resolved assms(1))
      (simp add: leased_update split: option.split)
next
  case (Heartbeat j st)
  then show ?thesis using assms(1) by (simp add: heartbeat_def leased_update)
next
  case (Post r)
  show ?thesis unfolding Post board_step.simps post_message_def
    by (intro guarded_inv [where I = "leased a l i"] leased_resolved assms(1))
      (simp add: Let_def split_def leased_same)
next
  case (Create r)
  show ?thesis unfolding Create board_step.simps create_task_def
    by (intro guarded_inv [where I = "leased a l i"] leased_resolved assms(1))
      (simp add: Let_def split_def leased_append)
next
  case (Claim r)
  show ?thesis unfolding Claim board_step.simps claim_next_def
    by (intro guarded_inv [where I = "leased a l i"] leased_resolved leased_expire [OF _ assms(2)] assms(1))
      (auto simp: Let_def leased_claim split: list.split)
next
  case (Complete j r)
  then show ?thesis using assms leased_complete by simp
next
  case (Extend j r)
  then show ?thesis using assms leased_extend by simp
next
  case (ListTasks st n p)
  show ?thesis unfolding ListTasks board_step.simps list_tasks_def Let_def
    by (intro guarded_inv [where I = "leased a l i"] leased_resolved assms(1))
      (simp add: leased_expire assms(2))
next
  case (SetState k r)
  show ?thesis unfolding SetState board_step.simps set_state_def Let_def
    by (intro leased_resolved assms(1)) (simp add: leased_update split: option.split)
next
  case (StartSession r)
  show ?thesis unfolding StartSession board_step.simps start_session_def Let_def
    by (intro guarded_inv [where I = "leased a l i"] leased_resolved assms(1)) (simp add: leased_update)
next
  case (CloseSession j)
  then show ?thesis using assms(1) by (simp add: close_session_def leased_update)
next
  case (Summary p)
  show ?thesis unfolding Summary board_step.simps summary_def Let_def
    by (intro leased_resolved assms(1)) (simp add: leased_expire assms(2))
qed

lemma leased_run:
  assumes "leased a l i bd" "\<forall>(env, req) \<in> set rs. ev_now env \<le> l \<and> \<not> holder_acts a i req"
  shows "leased a l i (board_run rs bd)"
  using assms
proof (induction rs arbitrary: bd)
  case (Cons r rs)
  then show ?case by (cases r) (simp add: leased_step)
qed simp

lemma claim_answerD:
  assumes "snd (claim_next env req bd) = ok (Some t')" "tasks_inv bd"
  obtains t p where "t \<in> set (bd_tasks bd)" "tk_id t' = tk_id t"
    "tk_status t = Open \<or> lease_expired (ev_now env) t"
    "t' \<in> set (bd_tasks (fst (claim_next env req bd)))" "tk_claimed_by t' = Some (cl_agent_id req)"
proof -
  let ?e = "fst (expire_leases (ev_now env) bd)"
  obtain p scope where r: "fst (resolve_project env True (cl_project_id req) ?e) = p"
      "snd (resolve_project env True (cl_project_id req) ?e) = ok scope"
    using assms(1) by (cases "resolve_project env True (cl_project_id req) ?e";
      cases "snd (resolve_project env True (cl_project_id req) ?e)")
      (auto simp: claim_next_def hbind_def split: if_splits)
  obtain q reg where f: "p = adopted_board q reg ?e"
    using resolve_project_frame r(1) by metis
  have h: "claim_next env req bd = (case sort_key tk_created_at (filter (claimable scope (cl_tier req)) (bd_tasks p)) of
          [] \<Rightarrow> (p, ok None)
        | row # _ \<Rightarrow>
            let bd' = p\<lparr>bd_tasks := map (\<lambda>t. if tk_id t = tk_id row \<and> tk_status t = Open
                          then claim_row (ev_now env) req t else t) (bd_tasks p)\<rparr>
            in (bd', ok (find (\<lambda>t. tk_id t = tk_id row) (bd_tasks bd'))))"
    using assms(1) r
    by (cases "resolve_project env True (cl_project_id req) ?e")
      (auto simp: claim_next_def hbind_def split: if_splits)
  then obtain row rows where c: "sort_key tk_created_at (filter (claimable scope (cl_tier req)) (bd_tasks p)) = row # rows"
    using assms(1) by (auto split: list.splits)
  have row: "row \<in> set (bd_tasks p)" "tk_status row = Open"
    using sort_key_filter_head(1) [OF c] by (auto simp: claimable_def)
  have dis: "distinct (map tk_id (bd_tasks p))"
    using assms(2) by (auto simp: f tasks_inv_def expire_leases_def reopen_def comp_def if_distrib cong: if_cong)
  let ?g = "\<lambda>t. if tk_id t = tk_id row \<and> tk_status t = Open then claim_row (ev_now env) req t else t"
  have "find (\<lambda>t. tk_id t = tk_id row) (map ?g (bd_tasks p)) = Some (?g row)"
    using find_distinct [OF dis row(1)] by (subst find_map_same) auto
  then have t': "t' = claim_row (ev_now env) req row"
    using assms(1) h c row(2) by (simp add: Let_def)
  obtain t where t: "t \<in> set (bd_tasks bd)"
      "row = adopt_task q (if lease_expired (ev_now env) t then reopen (ev_now env) t else t)"
    using row(1) unfolding f by (auto simp: expire_leases_def)
  have "t' \<in> set (bd_tasks (fst (claim_next env req bd)))"
    using h c row t' by (auto simp: Let_def image_iff)
  moreover have "tk_id t' = tk_id t" using t(2) t' by (simp add: reopen_def)
  moreover have "tk_status t = Open \<or> lease_expired (ev_now env) t"
    using t(2) row(2) by (auto split: if_splits)
  ultimately show thesis using that t(1) t' by (simp add: claim_row_def)
qed

text \<open>C1: a lease is exclusive: from the moment an agent holds a task until its lease ends, and
  whatever the other agents request in between, the task stays claimed by that agent under that
  lease, and no claim of any agent is answered with it.\<close>

theorem lease_exclusive:
  assumes "board_inv bd" "run_fresh rs bd" "leased a l i bd"
    and "\<forall>(env, req) \<in> set rs. ev_now env \<le> l \<and> \<not> holder_acts a i req"
    and "ev_now env \<le> l"
  shows "leased a l i (board_run rs bd)
    \<and> (\<forall>t. snd (claim_next env req (board_run rs bd)) = ok (Some t) \<longrightarrow> tk_id t \<noteq> i)"
proof (intro conjI allI impI)
  show l: "leased a l i (board_run rs bd)" by (rule leased_run [OF assms(3,4)])
  have inv: "tasks_inv (board_run rs bd)"
    using board_run_inv [OF assms(1,2)] by (simp add: board_inv_def)
  fix t assume "snd (claim_next env req (board_run rs bd)) = ok (Some t)"
  then obtain u where u: "u \<in> set (bd_tasks (board_run rs bd))" "tk_id t = tk_id u"
      "tk_status u = Open \<or> lease_expired (ev_now env) u"
    using inv by (rule claim_answerD)
  from l obtain v where v: "v \<in> set (bd_tasks (board_run rs bd))" "tk_id v = i" "tk_status v = Claimed"
      "tk_lease_until v = Some l" by (auto simp: leased_def)
  show "tk_id t \<noteq> i"
  proof
    assume "tk_id t = i"
    then have "u = v" using inv u v by (auto simp: tasks_inv_def intro: distinct_map_row_eq)
    then show False using u(3) v assms(5) by (simp add: lease_expired_def)
  qed
qed

definition demo_row :: "string \<Rightarrow> task_status \<Rightarrow> string option \<Rightarrow> time option \<Rightarrow> time \<Rightarrow> task_row" where
  "demo_row i st owner lease created = \<lparr>tk_id = i, tk_title = ''t'', tk_description = [], tk_tier = Auto,
     tk_status = st, tk_parent_id = None, tk_claimed_by = owner, tk_lease_until = lease,
     tk_result = None, tk_created_at = created, tk_updated_at = created, tk_attempts = 1,
     tk_session_id = ''s1'', tk_project_id = ''u1''\<rparr>"

definition demo_leased :: board where
  "demo_leased = demo_board\<lparr>bd_tasks := [demo_row ''t1'' Claimed (Some ''a'') (Some 300) 0,
      demo_row ''t2'' Open None None 5, demo_row ''t3'' Open None None 4]\<rparr>"

lemma demo_leased_inv: "board_inv demo_leased"
  by (simp add: demo_leased_def demo_row_def demo_board_def inv_defs task_ok_def)

theorem lease_exclusive_witness:
  "leased ''a'' 300 ''t1'' (board_run [(demo_env 100 ''x'', Claim (demo_claim ''b''))] demo_leased)
   \<and> snd (claim_next (demo_env 300 ''x'') (demo_claim ''b'')
          (board_run [(demo_env 100 ''x'', Claim (demo_claim ''b''))] demo_leased))
       \<noteq> ok (Some (demo_row ''t1'' Claimed (Some ''b'') (Some 600) 0))"
proof -
  have f: "run_fresh [(demo_env 100 ''x'', Claim (demo_claim ''b''))] demo_leased"
    by (simp add: demo_leased_def demo_board_def demo_env_def demo_row_def ids_fresh_def project_fresh_def)
  have l: "leased ''a'' 300 ''t1'' demo_leased"
    by (simp add: leased_def demo_leased_def demo_row_def)
  have "\<forall>(env, req) \<in> set [(demo_env 100 ''x'', Claim (demo_claim ''b''))].
      ev_now env \<le> 300 \<and> \<not> holder_acts ''a'' ''t1'' req" "ev_now (demo_env 300 ''x'') \<le> 300"
    by (simp_all add: demo_env_def holder_acts_def)
  note h = lease_exclusive [OF demo_leased_inv f l this, of "demo_claim ''b''"]
  have "tk_id (demo_row ''t1'' Claimed (Some ''b'') (Some 600) 0) = ''t1''" by (simp add: demo_row_def)
  with h show ?thesis by blast
qed

lemma claim_marks_one:
  fixes x c :: "task_row \<Rightarrow> task_row"
  assumes "distinct (map tk_id ts)" "t \<in> set ts" "\<And>u. tk_id (x u) = tk_id u" "tk_status (x t) = Open"
    "\<And>u. tk_id (c u) = tk_id u"
  shows "map (\<lambda>u. if tk_id u = tk_id t \<and> tk_status u = Open then c u else u) (map x ts)
      = map (\<lambda>u. if tk_id u = tk_id t then c (x t) else x u) ts" (is ?rows)
    and "find (\<lambda>u. tk_id u = tk_id t) (map (\<lambda>u. if tk_id u = tk_id t then c (x t) else x u) ts) = Some (c (x t))" (is ?find)
proof -
  have same: "u = t" if "u \<in> set ts" "tk_id u = tk_id t" for u
    using distinct_map_row_eq assms(1,2) that by metis
  have "(if tk_id (x u) = tk_id t \<and> tk_status (x u) = Open then c (x u) else x u)
      = (if tk_id u = tk_id t then c (x t) else x u)" if "u \<in> set ts" for u
    using same [OF that] assms(3,4) by (cases "tk_id u = tk_id t") auto
  then show ?rows by simp
  show ?find
    using find_distinct [OF assms(1,2)] assms(3,5)
      find_map_same [of tk_id "\<lambda>u. if tk_id u = tk_id t then c (x t) else x u"] by simp
qed

text \<open>C7: a claim hands out work oldest first and never overlooks any: with a registered project and
  a valid request, the answer is empty only if no task of the project and tier is open or has an
  expired lease; otherwise it is such a task, no other one was created earlier, and exactly this row
  of the board is claimed for the agent until the lease ends, with one more attempt.\<close>

theorem claim_next_oldest:
  assumes "tasks_inv bd" "claim_valid req" "cl_project_id req = Some p" "p \<noteq> []"
    and "known_project (bd_registry bd) p"
    and "claim_next env req bd = (bd', ans)"
  defines "due \<equiv> filter (\<lambda>t. tk_project_id t = p \<and> (tk_status t = Open \<or> lease_expired (ev_now env) t)
      \<and> (case cl_tier req of None \<Rightarrow> True | Some Auto \<Rightarrow> True | Some x \<Rightarrow> tk_tier t = x \<or> tk_tier t = Auto))
      (bd_tasks bd)"
  shows "(ans = ok None \<and> due = []) \<or>
    (\<exists>t \<in> set due. \<exists>t'. ans = ok (Some t') \<and> (\<forall>u \<in> set due. tk_created_at t \<le> tk_created_at u)
       \<and> tk_id t' = tk_id t \<and> tk_status t' = Claimed \<and> tk_claimed_by t' = Some (cl_agent_id req)
       \<and> tk_lease_until t' = Some (ev_now env + of_int (cl_lease_s req)) \<and> tk_attempts t' = tk_attempts t + 1
       \<and> bd_tasks bd' = map (\<lambda>u. if tk_id u = tk_id t then t'
                               else if lease_expired (ev_now env) u then reopen (ev_now env) u else u) (bd_tasks bd))"
proof -
  let ?x = "\<lambda>t. if lease_expired (ev_now env) t then reopen (ev_now env) t else t"
  let ?e = "fst (expire_leases (ev_now env) bd)"
  have tasks: "bd_tasks ?e = map ?x (bd_tasks bd)" "bd_registry ?e = bd_registry bd"
    by (simp_all add: expire_leases_def)
  have cl: "claimable p (cl_tier req) (?x t) \<longleftrightarrow> t \<in> set due" if "t \<in> set (bd_tasks bd)" for t
    using that by (cases "lease_expired (ev_now env) t"; cases "cl_tier req")
      (auto simp: due_def claimable_def reopen_def split: tier.split)
  have h: "claim_next env req bd = (case sort_key tk_created_at (filter (claimable p (cl_tier req)) (bd_tasks ?e)) of
          [] \<Rightarrow> (?e, ok None)
        | row # _ \<Rightarrow>
            let bd' = ?e\<lparr>bd_tasks := map (\<lambda>t. if tk_id t = tk_id row \<and> tk_status t = Open
                          then claim_row (ev_now env) req t else t) (bd_tasks ?e)\<rparr>
            in (bd', ok (find (\<lambda>t. tk_id t = tk_id row) (bd_tasks bd'))))"
    using assms(2-5) tasks by (simp add: claim_next_def hbind_def resolve_explicit)
  show ?thesis
  proof (cases "sort_key tk_created_at (filter (claimable p (cl_tier req)) (bd_tasks ?e))")
    case Nil
    then have "filter (claimable p (cl_tier req)) (bd_tasks ?e) = []" by (simp only: sort_key_Nil)
    then have "\<forall>t \<in> set (bd_tasks bd). t \<notin> set due" using cl unfolding tasks by (simp add: filter_empty_conv)
    then have "due = []" unfolding due_def by (auto simp: filter_empty_conv)
    then show ?thesis using h assms(6) Nil by simp
  next
    case (Cons row rows)
    note head = sort_key_filter_head [OF Cons]
    then obtain t where t: "t \<in> set (bd_tasks bd)" "row = ?x t" "claimable p (cl_tier req) row"
      unfolding tasks by auto
    have td: "t \<in> set due" using cl t by blast
    have id: "tk_id row = tk_id t" "tk_created_at row = tk_created_at t" "tk_attempts row = tk_attempts t"
        "tk_status row = Open"
      using t by (simp_all add: reopen_def claimable_def)
    have oldest: "tk_created_at t \<le> tk_created_at u" if "u \<in> set due" for u
    proof -
      have "u \<in> set (bd_tasks bd)" using that by (simp add: due_def)
      moreover from this that have "claimable p (cl_tier req) (?x u)" using cl by blast
      ultimately have "tk_created_at row \<le> tk_created_at (?x u)" using head(2) unfolding tasks by auto
      then show ?thesis using id(2) by (simp add: reopen_def split: if_splits)
    qed
    let ?t' = "claim_row (ev_now env) req row"
    have "tk_status (?x t) = Open" "distinct (map tk_id (bd_tasks bd))"
      using id(4) t(2) assms(1) by (simp_all add: tasks_inv_def)
    note marks = claim_marks_one [of "bd_tasks bd" t ?x "claim_row (ev_now env) req", OF this(2) t(1) _ this(1)]
    have rows: "map (\<lambda>u. if tk_id u = tk_id row \<and> tk_status u = Open then claim_row (ev_now env) req u else u)
          (bd_tasks ?e) = map (\<lambda>u. if tk_id u = tk_id t then ?t' else ?x u) (bd_tasks bd)"
      unfolding tasks id(1) unfolding t(2) by (rule marks(1)) (simp_all add: reopen_def)
    have fnd: "find (\<lambda>u. tk_id u = tk_id row) (map (\<lambda>u. if tk_id u = tk_id t then ?t' else ?x u) (bd_tasks bd)) = Some ?t'"
      unfolding id(1) unfolding t(2) by (rule marks(2)) (simp_all add: reopen_def)
    show ?thesis
      using h assms(6) Cons rows fnd td oldest id by (intro disjI2 bexI [of _ t] exI [of _ ?t']) (auto simp: claim_row_def)
  qed
qed

lemma demo_claim_known: "claim_valid (demo_claim a)" "cl_project_id (demo_claim a) = Some ''u1''"
    "known_project (bd_registry demo_leased) ''u1''"
  using demo_known by (simp_all add: demo_claim_def claim_valid_def demo_leased_def demo_board_def)

theorem claim_next_oldest_witness:
  "\<exists>t'. snd (claim_next (demo_env 100 ''x'') (demo_claim ''b'') demo_leased) = ok (Some t')
     \<and> tk_id t' = ''t3'' \<and> tk_claimed_by t' = Some ''b'' \<and> tk_lease_until t' = Some 400"
proof -
  obtain bd' ans where c: "claim_next (demo_env 100 ''x'') (demo_claim ''b'') demo_leased = (bd', ans)"
    by (cases "claim_next (demo_env 100 ''x'') (demo_claim ''b'') demo_leased")
  have inv: "tasks_inv demo_leased" using demo_leased_inv by (simp add: board_inv_def)
  have due: "filter (\<lambda>t. tk_project_id t = ''u1'' \<and> (tk_status t = Open \<or> lease_expired (ev_now (demo_env 100 ''x'')) t)
      \<and> (case cl_tier (demo_claim ''b'') of None \<Rightarrow> True | Some Auto \<Rightarrow> True | Some x \<Rightarrow> tk_tier t = x \<or> tk_tier t = Auto))
      (bd_tasks demo_leased) = [demo_row ''t2'' Open None None 5, demo_row ''t3'' Open None None 4]"
    by (simp add: demo_leased_def demo_row_def demo_env_def demo_claim_def lease_expired_def)
  have ne: "''u1'' \<noteq> ([] :: string)" by simp
  from claim_next_oldest [OF inv demo_claim_known(1,2) ne demo_claim_known(3) c, unfolded due]
  obtain t t' where "t \<in> set [demo_row ''t2'' Open None None 5, demo_row ''t3'' Open None None 4]"
      and ans: "ans = ok (Some t')" "tk_id t' = tk_id t" "tk_claimed_by t' = Some (cl_agent_id (demo_claim ''b''))"
        "tk_lease_until t' = Some (ev_now (demo_env 100 ''x'') + of_int (cl_lease_s (demo_claim ''b'')))"
      and old: "\<forall>u \<in> set [demo_row ''t2'' Open None None 5, demo_row ''t3'' Open None None 4].
        tk_created_at t \<le> tk_created_at u"
    by blast
  then have "t = demo_row ''t3'' Open None None 4" by (auto simp: demo_row_def)
  with ans c show ?thesis by (simp add: demo_row_def demo_env_def demo_claim_def)
qed

text \<open>Once a task was handed to another agent, its former holder can neither finish it nor
  extend its lease: both requests are answered 409 and leave the board as it is.\<close>

theorem lost_lease_conflict:
  assumes "tasks_inv bd" "snd (claim_next env req bd) = ok (Some t)" "cl_agent_id req \<noteq> a"
    and "length (cm_result done_req) \<le> 500000" "cm_agent_id done_req = a"
    and "claim_valid more_req" "cl_agent_id more_req = a"
  defines "bd' \<equiv> fst (claim_next env req bd)"
  assumes "board_inv bd'"
  shows "complete_task env' (tk_id t) done_req bd' = (bd', raise (HTTPException 409))
    \<and> extend_lease env' (tk_id t) more_req bd' = (bd', raise (HTTPException 409))"
proof -
  obtain u where "t \<in> set (bd_tasks bd')" "tk_claimed_by t = Some (cl_agent_id req)"
    unfolding bd'_def by (rule claim_answerD [OF assms(2,1)]) blast
  moreover have "distinct (map tk_id (bd_tasks bd'))"
    using assms(9) by (simp add: board_inv_def tasks_inv_def)
  ultimately have "tk_claimed_by u \<noteq> Some a" if "u \<in> set (bd_tasks bd')" "tk_id u = tk_id t" for u
    using that assms(3) distinct_map_row_eq [of tk_id "bd_tasks bd'" u t] by auto
  then have "filter (\<lambda>u. tk_id u = tk_id t \<and> tk_claimed_by u = Some a) (bd_tasks bd') = []"
      "filter (\<lambda>u. tk_id u = tk_id t \<and> tk_claimed_by u = Some a \<and> tk_status u = Claimed) (bd_tasks bd') = []"
    by (auto simp: filter_empty_conv)
  then show ?thesis using assms(4-7) by (simp add: complete_task_def extend_lease_def)
qed

theorem lost_lease_conflict_witness:
  "\<exists>t. snd (claim_next (demo_env 301 ''x'') (demo_claim ''b'') demo_leased) = ok (Some t) \<and> tk_id t = ''t1''
     \<and> complete_task (demo_env 302 ''x'') ''t1'' \<lparr>cm_agent_id = ''a'', cm_status = CDone, cm_result = []\<rparr>
         (fst (claim_next (demo_env 301 ''x'') (demo_claim ''b'') demo_leased))
       = (fst (claim_next (demo_env 301 ''x'') (demo_claim ''b'') demo_leased), raise (HTTPException 409))"
proof -
  let ?c = "claim_next (demo_env 301 ''x'') (demo_claim ''b'') demo_leased"
  have inv: "tasks_inv demo_leased" using demo_leased_inv by (simp add: board_inv_def)
  have "inv_for (demo_env 301 ''x'') demo_leased" "project_fresh (demo_env 301 ''x'') demo_leased"
    using demo_leased_inv
    by (simp_all add: inv_for_def ids_fresh_def project_fresh_def demo_leased_def demo_row_def demo_env_def demo_board_def)
  then have binv: "board_inv (fst ?c)" by (intro inv_board [OF claim_next_inv])
  have "\<exists>t. snd ?c = ok (Some t) \<and> tk_id t = ''t1''"
    using demo_claim_known
    by (simp add: claim_next_def hbind_def resolve_explicit expire_leases_def demo_leased_def lease_expired_def
        demo_row_def reopen_def claimable_def demo_env_def demo_claim_def claim_row_def demo_board_def)
  then obtain t where t: "snd ?c = ok (Some t)" "tk_id t = ''t1''" by blast
  show ?thesis
    using t lost_lease_conflict [OF inv t(1), of "''a''" "\<lparr>cm_agent_id = ''a'', cm_status = CDone, cm_result = []\<rparr>"
        "demo_claim ''a''" "demo_env 302 ''x''"] binv demo_claim_known(1)
    by (auto simp: demo_claim_def)
qed

section \<open>The blackboard\<close>

lemma find_append_hit: "find P (xs @ ys) = (case find P xs of None \<Rightarrow> find P ys | Some x \<Rightarrow> Some x)"
  by (induction xs) auto

lemma bb_lookup_key: "bb_lookup p k bd = Some r \<Longrightarrow> bb_project_id r = p \<and> bb_key r = k"
  by (auto simp: bb_lookup_def find_Some_iff)

lemma set_state_okD:
  assumes "set_state env k req bd = (bd', ok (n, s))" "sv_project_id req = Some p" "p \<noteq> []"
  obtains row where "s = p" "known_project (bd_registry bd') p"
    "bb_lookup p k bd' = Some row" "bb_version row = n" "bb_value row = sv_value req"
    "n = (case bb_lookup p k bd of None \<Rightarrow> 1 | Some r \<Rightarrow> bb_version r + 1)"
    "\<And>q j. (q, j) \<noteq> (p, k) \<Longrightarrow> bb_lookup q j bd' = bb_lookup q j bd"
proof (cases "bb_lookup p k bd")
  case None
  let ?r = "\<lparr>bb_project_id = p, bb_key = k, bb_value = sv_value req, bb_version = 1,
        bb_updated_by = sv_updated_by req, bb_updated_at = ev_now env\<rparr>"
  have b: "bd' = bd\<lparr>bd_blackboard := bd_blackboard bd @ [?r]\<rparr>" "n = 1" "s = p" "known_project (bd_registry bd) p"
    using assms None by (auto simp: set_state_def hbind_def resolve_explicit Let_def split: if_splits)
  show thesis
    by (rule that [of ?r]) (use None b in \<open>auto simp: bb_lookup_def find_append_hit split: option.split\<close>)
next
  case (Some r)
  let ?g = "\<lambda>r'. if bb_project_id r' = p \<and> bb_key r' = k
       then r'\<lparr>bb_value := sv_value req, bb_version := bb_version r + 1,
              bb_updated_by := sv_updated_by req, bb_updated_at := ev_now env\<rparr> else r'"
  have b: "bd' = bd\<lparr>bd_blackboard := map ?g (bd_blackboard bd)\<rparr>" "n = bb_version r + 1" "s = p"
      "known_project (bd_registry bd) p"
    using assms Some by (auto simp: set_state_def hbind_def resolve_explicit Let_def split: if_splits)
  have l: "bb_lookup q j bd' = map_option ?g (bb_lookup q j bd)" for q j
    using find_map_same [of "\<lambda>r. (bb_project_id r, bb_key r)" ?g "(q, j)" "bd_blackboard bd"]
    by (simp add: b(1) bb_lookup_def)
  have "bb_project_id r = p \<and> bb_key r = k" using Some by (rule bb_lookup_key)
  then have hit: "bb_lookup p k bd' = Some (?g r)" "bb_version (?g r) = n" "bb_value (?g r) = sv_value req"
    using l Some b(2) by simp_all
  have miss: "bb_lookup q j bd' = bb_lookup q j bd" if "(q, j) \<noteq> (p, k)" for q j
  proof (cases "bb_lookup q j bd")
    case (Some r')
    then have "bb_project_id r' = q \<and> bb_key r' = j" by (rule bb_lookup_key)
    then have "?g r' = r'" using that by auto
    then show ?thesis unfolding l Some by simp
  qed (simp add: l)
  show thesis
    by (rule that [OF b(3) _ hit]) (use b Some miss in simp_all)
qed

text \<open>C8: \<open>expect_version\<close> is a compare-and-set: a write that names version \<open>v\<close> and is accepted
  stores its value under version \<open>v + 1\<close> and touches no other entry, and any later write that still
  names \<open>v\<close> is answered 409 and changes nothing.\<close>

theorem set_state_compare_and_set:
  assumes "set_state env k req bd = (bd', ok (n, s))" "sv_project_id req = Some p" "p \<noteq> []"
    and "sv_expect_version req = Some v"
    and "sv_project_id req2 = Some p" "sv_expect_version req2 = Some v"
  shows "n = v + 1 \<and> (\<exists>row. bb_lookup p k bd' = Some row \<and> bb_version row = v + 1 \<and> bb_value row = sv_value req)
    \<and> (\<forall>q j. (q, j) \<noteq> (p, k) \<longrightarrow> bb_lookup q j bd' = bb_lookup q j bd)
    \<and> set_state env2 k req2 bd' = (bd', raise (HTTPException 409))"
proof -
  obtain row where r: "known_project (bd_registry bd') p" "bb_lookup p k bd' = Some row" "bb_version row = n"
      "bb_value row = sv_value req" "n = (case bb_lookup p k bd of None \<Rightarrow> 1 | Some r \<Rightarrow> bb_version r + 1)"
      "\<And>q j. (q, j) \<noteq> (p, k) \<Longrightarrow> bb_lookup q j bd' = bb_lookup q j bd"
    by (rule set_state_okD [OF assms(1-3)]) blast
  have "v = (case bb_lookup p k bd of None \<Rightarrow> 0 | Some r \<Rightarrow> bb_version r)"
    using assms(1-4) by (auto simp: set_state_def hbind_def resolve_explicit Let_def split: if_splits option.splits)
  then have n: "n = v + 1" using r(5) by (simp split: option.splits)
  have "set_state env2 k req2 bd' = (bd', raise (HTTPException 409))"
    using assms(3,5,6) r(1,2,3) n by (simp add: set_state_def hbind_def resolve_explicit)
  with n r show ?thesis by blast
qed

definition demo_write :: "string \<Rightarrow> set_value_req" where
  "demo_write a = \<lparr>sv_project_id = Some ''u1'', sv_value = JStr a, sv_updated_by = a, sv_expect_version = Some 0\<rparr>"

theorem set_state_compare_and_set_witness:
  "\<exists>bd'. set_state (demo_env 1 ''x'') ''plan'' (demo_write ''a'') demo_board = (bd', ok (1, ''u1''))
     \<and> set_state (demo_env 2 ''x'') ''plan'' (demo_write ''b'') bd' = (bd', raise (HTTPException 409))"
proof -
  obtain bd' where b: "set_state (demo_env 1 ''x'') ''plan'' (demo_write ''a'') demo_board = (bd', ok (1, ''u1''))"
    using demo_known
    by (simp add: set_state_def hbind_def resolve_explicit demo_write_def demo_board_def bb_lookup_def)
  show ?thesis
    using set_state_compare_and_set [OF b, of "''u1''" 0 "demo_write ''b''" "demo_env 2 ''x''"] b
    by (simp add: demo_write_def)
qed

section \<open>The transcript\<close>

lemma sort_key_strict: "sorted_wrt (<) (map f xs) \<Longrightarrow> sort_key (f :: 'a \<Rightarrow> nat) xs = xs"
  by (intro sort_key_id_if_sorted sorted_wrt_mono_rel [of "map f xs" "(<)" "(\<le>)"]) auto

lemma sorted_wrt_filter_map: "sorted_wrt (<) (map f xs) \<Longrightarrow> sorted_wrt (<) (map (f :: 'a \<Rightarrow> nat) (filter P xs))"
  by (induction xs) auto

lemma filter_after_last:
  assumes "sorted_wrt (<) (map (f :: 'a \<Rightarrow> nat) xs)" "a = take k xs" "a \<noteq> []"
  shows "filter (\<lambda>m. f (last a) < f m) xs = drop k xs"
proof -
  obtain b x where a: "a = b @ [x]" using assms(3) by (metis append_butlast_last_id)
  have x: "xs = b @ x # drop k xs" using assms(2) a by (metis append_Cons append_Nil append_assoc append_take_drop_id)
  define ys where "ys = drop k xs"
  have xs: "xs = b @ x # ys" using x ys_def by simp
  have "\<forall>m \<in> set b. f m < f x" "\<forall>m \<in> set ys. f x < f m"
    using assms(1) unfolding xs by (auto simp: sorted_wrt_append)
  then have "filter (\<lambda>m. f x < f m) xs = ys" unfolding xs by (auto simp: filter_empty_conv filter_id_conv)
  then show ?thesis using a ys_def by simp
qed

lemma read_messages_filter:
  "messages_inv bd \<Longrightarrow> read_messages ch since n ses p 0 bd
     = take n (filter (\<lambda>m. since < int (ms_seq m) \<and> message_matches ch ses p m) (bd_messages bd))"
  unfolding read_messages_def Let_def messages_inv_def
  by (simp add: sort_key_strict sorted_wrt_filter_map)

text \<open>C9: a reader that passes the returned cursor on misses nothing and sees nothing twice: two
  consecutive pages, with any messages posted between the two reads, are exactly the first matching
  messages after the first cursor, in increasing order of their numbers.\<close>

theorem read_messages_pages:
  assumes "messages_inv bd" "messages_inv bd'" "bd_messages bd' = bd_messages bd @ posted"
    and "page1 = read_messages ch since n1 ses p 0 bd"
    and "page2 = read_messages ch (next_cursor page1 since) n2 ses p 0 bd'"
  shows "page1 @ page2 = read_messages ch since (length page1 + n2) ses p 0 bd'
    \<and> sorted_wrt (<) (map ms_seq (page1 @ page2))"
proof -
  define P where "P m = (since < int (ms_seq m) \<and> message_matches ch ses p m)" for m
  define F where "F = filter P (bd_messages bd')"
  have srt: "sorted_wrt (<) (map ms_seq F)"
    using assms(2) unfolding F_def messages_inv_def by (simp add: sorted_wrt_filter_map)
  have p1: "page1 = take n1 (filter P (bd_messages bd))"
    unfolding assms(4) read_messages_filter [OF assms(1)] P_def ..
  then have p1F: "page1 = take (length page1) F"
    unfolding F_def assms(3) filter_append take_append
    by (cases "n1 \<le> length (filter P (bd_messages bd))") simp_all
  have p2: "page2 = take n2 (drop (length page1) F)"
  proof (cases "page1 = []")
    case True
    then show ?thesis
      unfolding assms(5) read_messages_filter [OF assms(2)] F_def P_def by (simp add: next_cursor_def)
  next
    case False
    have "last page1 \<in> set F" using False p1F by (metis in_set_takeD last_in_set)
    then have last: "since < int (ms_seq (last page1))" unfolding F_def P_def by simp
    have "filter (\<lambda>m. int (ms_seq (last page1)) < int (ms_seq m) \<and> message_matches ch ses p m) (bd_messages bd')
        = filter (\<lambda>m. ms_seq (last page1) < ms_seq m) F"
      unfolding F_def P_def filter_filter by (rule filter_cong [OF refl]) (use last in auto)
    also have "\<dots> = drop (length page1) F" by (rule filter_after_last [OF srt p1F False])
    finally show ?thesis using assms(2,5) False by (simp add: read_messages_filter next_cursor_def)
  qed
  have "page1 @ page2 = take (length page1 + n2) F"
    using p1F p2 by (metis take_add)
  moreover from this have "sorted_wrt (<) (map ms_seq (page1 @ page2))"
    using srt by (simp add: take_map [symmetric] sorted_wrt_take del: map_append)
  ultimately show ?thesis unfolding read_messages_filter [OF assms(2)] F_def P_def by blast
qed

definition demo_message :: "nat \<Rightarrow> string \<Rightarrow> message_row" where
  "demo_message n c = \<lparr>ms_seq = n, ms_channel = c, ms_author = ''a'', ms_author_id = None, ms_kind = Chat,
     ms_content = [], ms_meta = JNull, ms_reply_to = None, ms_ts = 0, ms_session_id = ''s1'', ms_project_id = ''u1''\<rparr>"

definition demo_transcript :: "nat \<Rightarrow> board" where
  "demo_transcript n = demo_board\<lparr>bd_last_seq := n,
     bd_messages := map (\<lambda>i. demo_message (i + 1) (if even i then ''x'' else ''y'')) [0..<n]\<rparr>"

theorem read_messages_pages_witness:
  "read_messages (Some ''x'') 0 2 None None 0 (demo_transcript 5)
     @ read_messages (Some ''x'') 3 2 None None 0 (demo_transcript 7)
   = read_messages (Some ''x'') 0 4 None None 0 (demo_transcript 7)
   \<and> map ms_seq (read_messages (Some ''x'') 0 4 None None 0 (demo_transcript 7)) = [1, 3, 5, 7]"
proof -
  have inv: "messages_inv (demo_transcript 5)" "messages_inv (demo_transcript 7)"
    by (simp_all add: messages_inv_def demo_transcript_def demo_message_def upt_rec)
  have seven: "[0..<7] = [0..<5] @ [5, 6 :: nat]" by code_simp
  have more: "bd_messages (demo_transcript 7) = bd_messages (demo_transcript 5) @ [demo_message 6 ''y'', demo_message 7 ''x'']"
    by (simp add: demo_transcript_def seven)
  have c: "next_cursor (read_messages (Some ''x'') 0 2 None None 0 (demo_transcript 5)) 0 = 3"
    unfolding read_messages_filter [OF inv(1)]
    by (simp add: demo_transcript_def demo_message_def upt_rec message_matches_def clause_def next_cursor_def)
  have all: "map ms_seq (read_messages (Some ''x'') 0 4 None None 0 (demo_transcript 7)) = [1, 3, 5, 7]"
      "length (read_messages (Some ''x'') 0 2 None None 0 (demo_transcript 5)) = 2"
    unfolding read_messages_filter [OF inv(1)] read_messages_filter [OF inv(2)]
    by (simp_all add: demo_transcript_def demo_message_def upt_rec message_matches_def clause_def)
  show ?thesis
    using read_messages_pages [OF inv more refl refl, of "Some ''x''" 0 2 None None 2] all c by simp
qed

section \<open>Posting and sessions\<close>

lemma current_session_open:
  assumes "current_session_id env p bd = (bd', sid)"
  shows "\<exists>s \<in> set (open_sessions p bd'). ss_id s = sid"
proof (cases "sort_key (\<lambda>s. - ss_started_at s) (open_sessions p bd)")
  case Nil
  then show ?thesis using assms by (auto simp: current_session_id_def open_sessions_def)
next
  case (Cons s ss)
  then show ?thesis using assms sort_key_filter_head(1) [OF Cons] by (auto simp: current_session_id_def)
qed

lemma current_session_messages [simp]:
  "bd_messages (fst (current_session_id env p bd)) = bd_messages bd"
  "bd_last_seq (fst (current_session_id env p bd)) = bd_last_seq bd"
  "bd_registry (fst (current_session_id env p bd)) = bd_registry bd"
  by (simp_all add: current_session_id_def split: list.split)

text \<open>An accepted message gets a number above every stored one, is stamped with a registered
  project and with an open session of that project, and is the only change to the transcript, apart
  from a first project adopting the orphaned rows.\<close>

theorem post_message_appends:
  assumes "messages_inv bd" "post_message env req bd = (bd', ok (seq, sid, p))"
  shows "known_project (bd_registry bd') p
    \<and> (\<exists>s \<in> set (open_sessions p bd'). ss_id s = sid)
    \<and> (\<forall>m \<in> set (bd_messages bd). ms_seq m < seq) \<and> messages_inv bd'
    \<and> (\<exists>m q. bd_messages bd' = map (adopt_message q) (bd_messages bd) @ [m]
         \<and> ms_seq m = seq \<and> ms_session_id m = sid \<and> ms_project_id m = p
         \<and> ms_content m = pm_content req \<and> ms_channel m = pm_channel req)"
proof -
  obtain q reg scope where r: "resolve_project env True (pm_project_id req) bd = (adopted_board q reg bd, ok scope)"
      "known_project reg scope"
    by (rule resolve_project_cases [of env True "pm_project_id req" bd])
      (use assms(2) in \<open>auto simp: post_message_def hbind_def split: if_splits\<close>)
  let ?a = "adopted_board q reg bd"
  obtain bs s where c: "current_session_id env scope ?a = (bs, s)" by fastforce
  have keep: "bd_messages bs = map (adopt_message q) (bd_messages bd)" "bd_last_seq bs = bd_last_seq bd"
      "bd_registry bs = reg"
    using c current_session_messages [of env scope ?a] by simp_all
  let ?m = "\<lparr>ms_seq = bd_last_seq bd + 1, ms_channel = pm_channel req, ms_author = pm_author req,
     ms_author_id = pm_author_id req, ms_kind = pm_kind req, ms_content = pm_content req,
     ms_meta = pm_meta req, ms_reply_to = pm_reply_to req, ms_ts = ev_now env, ms_session_id = s,
     ms_project_id = scope\<rparr>"
  have b: "bd' = bs\<lparr>bd_messages := bd_messages bs @ [?m], bd_last_seq := bd_last_seq bd + 1\<rparr>"
      "seq = bd_last_seq bd + 1" "sid = s" "p = scope"
    using assms(2) r(1) c keep by (auto simp: post_message_def hbind_def Let_def split: if_splits)
  have "messages_inv ?a" by (rule adopt_messages_inv [OF assms(1)])
  then have "messages_inv bd'" unfolding b messages_inv_def using keep
    by (auto simp: sorted_wrt_append le_Suc_eq)
  moreover have "\<exists>x \<in> set (open_sessions p bd'). ss_id x = sid"
    using current_session_open [OF c] b by (simp add: open_sessions_def)
  moreover have "\<forall>m \<in> set (bd_messages bd). ms_seq m < seq"
    using assms(1) b(2) by (auto simp: messages_inv_def)
  moreover have "bd_messages bd' = map (adopt_message q) (bd_messages bd) @ [?m]"
    using b(1) keep by simp
  moreover have "known_project (bd_registry bd') p" using b(1,4) keep(3) r(2) by simp
  ultimately show ?thesis using b by (intro conjI) (auto intro!: exI [of _ ?m] exI [of _ q])
qed

definition demo_post :: "string option \<Rightarrow> post_message_req" where
  "demo_post p = \<lparr>pm_project_id = p, pm_channel = ''x'', pm_author = ''a'', pm_author_id = None,
     pm_kind = Chat, pm_content = ''hi'', pm_meta = JNull, pm_reply_to = None\<rparr>"

theorem post_message_appends_witness:
  "\<exists>bd'. post_message (demo_env 9 ''x'') (demo_post None) (demo_transcript 2) = (bd', ok (3, ''s1'', ''u1''))
     \<and> messages_inv bd' \<and> known_project (bd_registry bd') ''u1''"
proof -
  have inv: "messages_inv (demo_transcript 2)"
    by (simp add: messages_inv_def demo_transcript_def demo_message_def upt_rec)
  obtain bd' where b: "post_message (demo_env 9 ''x'') (demo_post None) (demo_transcript 2) = (bd', ok (3, ''s1'', ''u1''))"
    by (simp add: post_message_def demo_post_def hbind_def resolve_project_def resolve_with_def demo_transcript_def
        demo_board_def demo_registry_def active_id_def get_project_def list_projects_def sample_project_def
        current_session_id_def open_sessions_def demo_env_def)
  show ?thesis using post_message_appends [OF inv b] b by blast
qed

text \<open>Starting a session closes every other open session of its project and of no other
  project, so the new session is the one that later messages and tasks are filed under.\<close>

theorem start_session_exclusive:
  assumes "start_session env req bd = (bd', ok (sid, title, p))"
  shows "(\<exists>s. open_sessions p bd' = [s] \<and> ss_id s = sid \<and> ss_title s = title)
    \<and> current_session_id env' p bd' = (bd', sid)
    \<and> (\<exists>q reg. \<forall>r. r \<noteq> p \<longrightarrow> open_sessions r bd' = open_sessions r (adopted_board q reg bd))"
proof -
  obtain q reg scope where r: "resolve_project env False (ns_project_id req) bd = (adopted_board q reg bd, ok scope)"
    by (rule resolve_project_cases [of env False "ns_project_id req" bd])
      (use assms in \<open>auto simp: start_session_def hbind_def Let_def split: if_splits\<close>)
  let ?g = "\<lambda>s. if ss_ended_at s = None \<and> ss_project_id s = p then s\<lparr>ss_ended_at := Some (ev_now env)\<rparr> else s"
  let ?n = "\<lparr>ss_id = sid, ss_title = title, ss_note = ns_note req, ss_started_at = ev_now env,
     ss_ended_at = None, ss_project_id = p\<rparr>"
  have b: "bd_sessions bd' = map ?g (bd_sessions (adopted_board q reg bd)) @ [?n]"
    using assms r by (auto simp: start_session_def hbind_def Let_def split: if_splits)
  have new: "open_sessions p bd' = [?n]"
    unfolding open_sessions_def b by (simp add: filter_closed_same del: adopted_board_sel map_map)
  have "open_sessions r bd' = open_sessions r (adopted_board q reg bd)" if "r \<noteq> p" for r
    unfolding open_sessions_def b using that by (simp add: filter_closed_other del: adopted_board_sel map_map)
  moreover have "current_session_id env' p bd' = (bd', sid)" using new by (simp add: current_session_id_def)
  ultimately show ?thesis using new by auto
qed

theorem start_session_exclusive_witness:
  "\<exists>bd' s. start_session (demo_env 9 ''x'') \<lparr>ns_project_id = Some ''u1'', ns_title = ''run'', ns_note = []\<rparr> demo_board
     = (bd', ok (''s1'', ''run'', ''u1'')) \<and> open_sessions ''u1'' bd' = [s] \<and> ss_title s = ''run''"
proof -
  have "py_strip ''run'' = ''run''" by (simp add: py_strip_def strip_by_def py_isspace_def)
  then obtain bd' where b: "start_session (demo_env 9 ''x'') \<lparr>ns_project_id = Some ''u1'', ns_title = ''run'', ns_note = []\<rparr> demo_board
     = (bd', ok (''s1'', ''run'', ''u1''))"
    using demo_known
    by (simp add: start_session_def hbind_def resolve_explicit demo_board_def demo_env_def Let_def)
  show ?thesis using start_session_exclusive [OF b] b by blast
qed

section \<open>The lock\<close>

text \<open>With no project named and none active, the handlers that resolve the project while they
  hold \<open>_db_lock\<close> never answer: posting a message, creating and claiming a task wait for a lock
  their own thread holds. The handlers that resolve it before they take the lock create the default
  project instead.\<close>

theorem default_project_deadlock:
  assumes "active_id (bd_registry bd) = None"
    and "default_project_id (ev_project_uuid env) (ev_now env) (ev_root env) (ev_mkdir_ok env) (ev_resolve env)
           (bd_registry bd) = ok (reg, d)"
    and "pm_project_id post = None" "length (pm_channel post) \<le> 80" "length (pm_author post) \<le> 120"
        "length (pm_content post) \<le> 200000"
    and "ct_project_id task = None" "length (ct_title task) \<le> 300" "length (ct_description task) \<le> 100000"
    and "cl_project_id claim = None" "claim_valid claim"
  shows "snd (post_message env post bd) = raise Deadlock \<and> snd (create_task env task bd) = raise Deadlock
    \<and> snd (claim_next env claim bd) = raise Deadlock
    \<and> snd (list_agents env None bd) \<noteq> raise Deadlock"
proof -
  have locked: "resolve_project env True None bd' = (bd'\<lparr>bd_registry := reg\<rparr>, raise Deadlock)"
    if "bd_registry bd' = bd_registry bd" for bd'
    using assms(1,2) that by (simp add: resolve_project_def resolve_with_def)
  have free: "resolve_project env False None bd = (adopted_board d reg bd, ok d)"
    using assms(1,2) by (simp add: resolve_project_def resolve_with_def adopted_board_def)
  have e: "bd_registry (fst (expire_leases (ev_now env) bd)) = bd_registry bd" by (simp add: expire_leases_def)
  show ?thesis
    using assms(3-) locked [OF refl] locked [OF e] free
    by (simp add: post_message_def create_task_def claim_next_def list_agents_def hbind_def)
qed

lemma default_project_ready:
  "\<exists>reg d. default_project_id ''u9'' 9 ''/srv'' (\<lambda>_. True) id None = ok (reg, d)"
proof -
  have "py_strip ''Default'' \<noteq> []" by (simp add: py_strip_def strip_by_def py_isspace_def)
  then obtain r where "create_project None ''u9'' 9 ''/srv'' (\<lambda>_. True) id ''Default'' None None None = ok r"
    using create_project_ok [of "\<lambda>_. True"] by blast
  then show ?thesis
    by (cases r) (simp add: default_project_id_def ensure_default_def read_registry_def)
qed

theorem default_project_deadlock_witness:
  "snd (post_message (demo_env 9 ''x'') (demo_post None) (demo_board\<lparr>bd_registry := None\<rparr>)) = raise Deadlock"
proof -
  let ?bd = "demo_board\<lparr>bd_registry := None\<rparr>"
  have a: "active_id (bd_registry ?bd) = None"
    by (simp add: active_id_def read_registry_def)
  obtain reg d where "default_project_id ''u9'' 9 ''/srv'' (\<lambda>_. True) id None = ok (reg, d)"
    using default_project_ready by blast
  then have d: "default_project_id (ev_project_uuid (demo_env 9 ''x'')) (ev_now (demo_env 9 ''x''))
      (ev_root (demo_env 9 ''x'')) (ev_mkdir_ok (demo_env 9 ''x'')) (ev_resolve (demo_env 9 ''x''))
      (bd_registry ?bd) = ok (reg, d)" by (simp add: demo_env_def)
  show ?thesis
    using default_project_deadlock [OF a d, of "demo_post None" "demo_task\<lparr>ct_project_id := None\<rparr>"
        "(demo_claim ''b'')\<lparr>cl_project_id := None\<rparr>"]
    by (simp add: demo_post_def demo_task_def demo_claim_def claim_valid_def)
qed

end
