(* ===== verification/RadixCache.thy ===== *)
theory RadixCache
  imports Prelude "HOL-Library.Multiset"
begin

text \<open>
  The prefix cache of the KV engine: \<open>kvcache/radix_cache.py\<close>, the interface of
  \<open>kvcache/base.py\<close> and the empty cache of \<open>kvcache/naive_cache.py\<close>. Nodes are shared and
  mutated (a handle keeps a node while later calls split it), so the tree is a store from node
  numbers to nodes; an evicted node stays in the store, unlinked, as the Python object does. The
  root is node 0. A node's dictionary of children is an association list in insertion order.
  Loops are \<open>partial_function\<close>s, so that a loop that never ended would be \<open>None\<close>.

  The clock readings are arguments. The heap of \<open>evict\<close> is a list from which the first node with
  the least time stamp is taken, so the order of nodes with equal stamps is not \<open>heapq\<close>'s. The
  C++ kernel \<open>fast_compare_key\<close> is the length of the common prefix of its arguments.
\<close>

section \<open>Nodes and trees\<close>

record rnode =
  rn_children :: "(int list \<times> nat) list"
  rn_parent :: "nat option"
  rn_key :: "int list"
  rn_value :: "int list"
  rn_ref :: int
  rn_ts :: int
  rn_mamba :: "nat option"
  rn_mamba_ref :: int
  rn_swa_tombstone :: bool
  rn_swa_ref :: int
  rn_swa_uuid :: "nat option"

record rtree =
  rt_node :: "nat \<Rightarrow> rnode"
  rt_next :: nat
  rt_page :: nat
  rt_evictable :: int
  rt_protected :: int

definition new_node :: "int \<Rightarrow> rnode" where
  "new_node tic = \<lparr>rn_children = [], rn_parent = None, rn_key = [], rn_value = [], rn_ref = 0, rn_ts = tic,
     rn_mamba = None, rn_mamba_ref = 0, rn_swa_tombstone = False, rn_swa_ref = 0, rn_swa_uuid = None\<rparr>"

definition update_node :: "nat \<Rightarrow> (rnode \<Rightarrow> rnode) \<Rightarrow> rtree \<Rightarrow> rtree" where
  "update_node i f t = t\<lparr>rt_node := (rt_node t)(i := f (rt_node t i))\<rparr>"

text \<open>\<open>_get_key_fn\<close>: the first page of a key; a single token when the page size is 1.\<close>

definition key_fn :: "nat \<Rightarrow> int list \<Rightarrow> int list" where
  "key_fn page xs = take page xs"

definition set_parent :: "nat \<Rightarrow> nat \<Rightarrow> rtree \<Rightarrow> rtree" where
  "set_parent i p t =
     update_node p (\<lambda>n. n\<lparr>rn_children := AList.update (key_fn (rt_page t) (rn_key (rt_node t i))) i (rn_children n)\<rparr>)
       (update_node i (\<lambda>n. n\<lparr>rn_parent := Some p\<rparr>) t)"

definition is_root :: "rtree \<Rightarrow> nat \<Rightarrow> bool" where
  "is_root t i \<longleftrightarrow> rn_parent (rt_node t i) = None"

definition is_leaf :: "rtree \<Rightarrow> nat \<Rightarrow> bool" where
  "is_leaf t i \<longleftrightarrow> rn_children (rt_node t i) = []"

definition node_length :: "rtree \<Rightarrow> nat \<Rightarrow> nat" where
  "node_length t i = length (rn_key (rt_node t i))"

text \<open>\<open>set_key_value\<close> and the constructor call it follows.\<close>

definition alloc_node :: "int \<Rightarrow> int list \<Rightarrow> int list \<Rightarrow> rtree \<Rightarrow> (rtree \<times> nat) result" where
  "alloc_node tic key val t =
     rassert (length key = length val)
       (ok (t\<lparr>rt_node := (rt_node t)(rt_next t := (new_node tic)\<lparr>rn_key := key, rn_value := val\<rparr>),
              rt_next := rt_next t + 1\<rparr>, rt_next t))"

fun match_len :: "int list \<Rightarrow> int list \<Rightarrow> nat" where
  "match_len (x # xs) (y # ys) = (if x = y then Suc (match_len xs ys) else 0)"
| "match_len _ _ = 0"

definition split_at :: "nat \<Rightarrow> nat \<Rightarrow> rtree \<Rightarrow> (rtree \<times> nat) result" where
  "split_at i pos t =
     (let self = rt_node t i in
      rassert (0 < pos \<and> pos < length (rn_key self)) (
      case rn_parent self of
        None \<Rightarrow> raise AssertionError
      | Some parent \<Rightarrow>
          rbind (alloc_node (rn_ts self) (take pos (rn_key self)) (take pos (rn_value self)) t) (\<lambda>(t, n).
          let t = set_parent n parent t;
              t = update_node n (\<lambda>m. m\<lparr>rn_ref := rn_ref self, rn_swa_ref := rn_swa_ref self,
                    rn_swa_tombstone := rn_swa_tombstone self, rn_swa_uuid := rn_swa_uuid self\<rparr>) t;
              t = update_node i (\<lambda>m. m\<lparr>rn_swa_uuid := None\<rparr>) t
          in rassert (length (drop pos (rn_key self)) = length (drop pos (rn_value self))) (
             let t = update_node i (\<lambda>m. m\<lparr>rn_key := drop pos (rn_key self), rn_value := drop pos (rn_value self)\<rparr>) t
             in ok (set_parent i n t, n)))))"

section \<open>The cache\<close>

definition init_tree :: "nat \<Rightarrow> int \<Rightarrow> rtree" where
  "init_tree page tic = \<lparr>rt_node = (\<lambda>_. new_node 0)(0 := (new_node tic)\<lparr>rn_ref := 1\<rparr>),
     rt_next = 1, rt_page = page, rt_evictable = 0, rt_protected = 0\<rparr>"

record handle =
  hd_cached_len :: nat
  hd_node :: nat

partial_function (option) matched_values :: "rtree \<Rightarrow> nat \<Rightarrow> int list list \<Rightarrow> int list list option" where
  "matched_values t i vals =
     (case rn_parent (rt_node t i) of
        None \<Rightarrow> Some vals
      | Some p \<Rightarrow> matched_values t p (rn_value (rt_node t i) # vals))"

definition get_matched_indices :: "rtree \<Rightarrow> handle \<Rightarrow> int list result option" where
  "get_matched_indices t h =
     map_option (\<lambda>vals. if vals = [] then raise (RuntimeError ''torch.cat'') else ok (concat vals))
       (matched_values t (hd_node h) [])"

definition ref_down :: "nat \<Rightarrow> rtree \<Rightarrow> rtree" where
  "ref_down i t =
     (let t' = update_node i (\<lambda>n. n\<lparr>rn_ref := rn_ref n - 1\<rparr>) t
      in if rn_ref (rt_node t' i) = 0
         then t'\<lparr>rt_evictable := rt_evictable t' + int (node_length t' i),
                 rt_protected := rt_protected t' - int (node_length t' i)\<rparr>
         else t')"

definition ref_up :: "nat \<Rightarrow> rtree \<Rightarrow> rtree" where
  "ref_up i t =
     update_node i (\<lambda>n. n\<lparr>rn_ref := rn_ref n + 1\<rparr>)
       (if rn_ref (rt_node t i) = 0
        then t\<lparr>rt_evictable := rt_evictable t - int (node_length t i),
               rt_protected := rt_protected t + int (node_length t i)\<rparr>
        else t)"

partial_function (option) lock_loop :: "bool \<Rightarrow> nat \<Rightarrow> rtree \<Rightarrow> rtree result option" where
  "lock_loop unlock i t =
     (case rn_parent (rt_node t i) of
        None \<Rightarrow> Some (ok t)
      | Some p \<Rightarrow>
          (if unlock then
             (if rn_ref (rt_node t i) - 1 \<ge> 0 then lock_loop unlock p (ref_down i t)
              else Some (raise AssertionError))
           else lock_loop unlock p (ref_up i t)))"

definition lock_handle :: "handle \<Rightarrow> bool \<Rightarrow> rtree \<Rightarrow> rtree result option" where
  "lock_handle h unlock t = lock_loop unlock (hd_node h) t"

definition touch :: "int \<Rightarrow> nat \<Rightarrow> rtree \<Rightarrow> rtree" where
  "touch tic i t = update_node i (\<lambda>n. n\<lparr>rn_ts := tic\<rparr>) t"

partial_function (option) tree_walk ::
  "int \<Rightarrow> int list \<Rightarrow> nat \<Rightarrow> nat \<Rightarrow> rtree \<Rightarrow> (rtree \<times> nat \<times> nat) result option" where
  "tree_walk tic input_ids node prefix_len t =
     (if prefix_len < length input_ids then
        (case map_of (rn_children (rt_node t node)) (key_fn (rt_page t) (drop prefix_len input_ids)) of
           None \<Rightarrow> Some (ok (t, node, prefix_len))
         | Some child \<Rightarrow>
             (let m = nat (align_down (int (match_len (rn_key (rt_node t child)) (drop prefix_len input_ids)))
                                      (int (rt_page t)))
              in if m \<noteq> node_length t child
                 then Some (rbind (split_at child m t) (\<lambda>(t, n). ok (touch tic n t, n, prefix_len + m)))
                 else tree_walk tic input_ids child (prefix_len + m) (touch tic child t)))
      else Some (ok (t, node, prefix_len)))"

definition match_prefix :: "int \<Rightarrow> int list \<Rightarrow> rtree \<Rightarrow> (rtree \<times> handle) result option" where
  "match_prefix tic input_ids t =
     map_option (\<lambda>r. rbind r (\<lambda>(t, node, prefix_len). ok (t, \<lparr>hd_cached_len = prefix_len, hd_node = node\<rparr>)))
       (tree_walk tic input_ids 0 0 t)"

definition insert_prefix ::
  "int \<Rightarrow> int \<Rightarrow> int list \<Rightarrow> int list \<Rightarrow> rtree \<Rightarrow> (rtree \<times> nat \<times> handle) result option" where
  "insert_prefix tic tic' input_ids indices t =
     (let insert_len = nat (align_down (int (length input_ids)) (int (rt_page t)));
          input_ids = take insert_len input_ids;
          indices = take insert_len indices
      in map_option (\<lambda>r. rbind r (\<lambda>(t, node, prefix_len).
           if prefix_len \<noteq> insert_len
           then rbind (alloc_node tic' (drop prefix_len input_ids) (drop prefix_len indices) t) (\<lambda>(t, n).
                  let t = set_parent n node t
                  in ok (t\<lparr>rt_evictable := rt_evictable t + int (node_length t n)\<rparr>, prefix_len,
                         \<lparr>hd_cached_len = insert_len, hd_node = n\<rparr>))
           else ok (t, prefix_len, \<lparr>hd_cached_len = insert_len, hd_node = node\<rparr>)))
         (tree_walk tic input_ids 0 0 t))"

text \<open>The stack of \<open>_collect_leave_nodes_for_evict\<close> has its top first.\<close>

partial_function (option) collect_leaves :: "rtree \<Rightarrow> nat list \<Rightarrow> nat list \<Rightarrow> nat list option" where
  "collect_leaves t stack acc =
     (case stack of
        [] \<Rightarrow> Some acc
      | node # stack' \<Rightarrow>
          (if is_leaf t node
           then collect_leaves t stack' (if rn_ref (rt_node t node) = 0 then acc @ [node] else acc)
           else collect_leaves t (rev (map snd (rn_children (rt_node t node))) @ stack') acc))"

definition pop_min :: "(nat \<Rightarrow> int) \<Rightarrow> nat list \<Rightarrow> (nat \<times> nat list) option" where
  "pop_min f xs = (if xs = [] then None else Some (arg_min_list f xs, remove1 (arg_min_list f xs) xs))"

definition unlink :: "nat \<Rightarrow> nat \<Rightarrow> rtree \<Rightarrow> rtree" where
  "unlink p i t =
     update_node p (\<lambda>n. n\<lparr>rn_children := AList.delete (key_fn (rt_page t) (rn_key (rt_node t i))) (rn_children n)\<rparr>)
       (t\<lparr>rt_evictable := rt_evictable t - int (node_length t i)\<rparr>)"

partial_function (option) evict_loop ::
  "int \<Rightarrow> rtree \<Rightarrow> nat list \<Rightarrow> int \<Rightarrow> int list list \<Rightarrow> (rtree \<times> int list list) result option" where
  "evict_loop need t leaves evicted_size evicted =
     (if evicted_size < need then
        (case pop_min (\<lambda>i. rn_ts (rt_node t i)) leaves of
           None \<Rightarrow> Some (raise AssertionError)
         | Some (node, rest) \<Rightarrow>
             (case rn_parent (rt_node t node) of
                None \<Rightarrow> Some (raise AssertionError)
              | Some parent \<Rightarrow>
                  (if rn_ref (rt_node t node) = 0 \<and> is_leaf t node then
                     (let t' = unlink parent node t
                      in evict_loop need t'
                           (if is_leaf t' parent \<and> rn_ref (rt_node t' parent) = 0 then rest @ [parent] else rest)
                           (evicted_size + int (node_length t node))
                           (evicted @ [rn_value (rt_node t node)]))
                   else Some (raise AssertionError))))
      else Some (ok (t, evicted)))"

definition evict :: "int \<Rightarrow> rtree \<Rightarrow> (rtree \<times> int list) result option" where
  "evict need t =
     (if need = 0 then Some (ok (t, []))
      else if \<not> need \<le> rt_evictable t then Some (raise AssertionError)
      else Option.bind (collect_leaves t [0] []) (\<lambda>leaves.
        map_option (\<lambda>r. rbind r (\<lambda>(t, evicted).
          if evicted = [] then raise (RuntimeError ''torch.cat'') else ok (t, concat evicted)))
          (evict_loop need t leaves 0 [])))"

section \<open>Paths\<close>

text \<open>\<open>spells t i xs vs\<close>: the node \<open>i\<close> hangs in the tree and the keys and values on the way to it
  spell \<open>xs\<close> and \<open>vs\<close>. A node is live when it hangs in the tree. \<open>up\<close> follows parents.\<close>

inductive spells :: "rtree \<Rightarrow> nat \<Rightarrow> int list \<Rightarrow> int list \<Rightarrow> bool" for t where
  at_root: "spells t 0 [] []"
| at_child: "spells t p xs vs \<Longrightarrow> map_of (rn_children (rt_node t p)) k = Some c
    \<Longrightarrow> spells t c (xs @ rn_key (rt_node t c)) (vs @ rn_value (rt_node t c))"

definition live :: "rtree \<Rightarrow> nat \<Rightarrow> bool" where
  "live t i \<longleftrightarrow> (\<exists>xs vs. spells t i xs vs)"

definition up :: "rtree \<Rightarrow> nat \<Rightarrow> nat \<Rightarrow> bool" where
  "up t = (\<lambda>c p. rn_parent (rt_node t c) = Some p)\<^sup>*\<^sup>*"

definition linked :: "rtree \<Rightarrow> nat \<Rightarrow> int list \<Rightarrow> nat \<Rightarrow> bool" where
  "linked t p k c \<longleftrightarrow> rn_parent (rt_node t c) = Some p \<and> k = key_fn (rt_page t) (rn_key (rt_node t c))
     \<and> rn_key (rt_node t c) \<noteq> [] \<and> length (rn_value (rt_node t c)) = length (rn_key (rt_node t c))
     \<and> rt_page t dvd length (rn_key (rt_node t c)) \<and> paged (rt_page t) (rn_value (rt_node t c))"

text \<open>The shape of a tree: what the code relies on and never checks.\<close>

definition rwf :: "rtree \<Rightarrow> bool" where
  "rwf t \<longleftrightarrow> 0 < rt_page t \<and> rn_parent (rt_node t 0) = None
     \<and> (\<forall>i. live t i \<longrightarrow> i < rt_next t)
     \<and> (\<forall>p k c. live t p \<longrightarrow> map_of (rn_children (rt_node t p)) k = Some c \<longrightarrow> linked t p k c)
     \<and> (\<forall>p. live t p \<longrightarrow> distinct (map fst (rn_children (rt_node t p))))
     \<and> (\<forall>i p. rn_parent (rt_node t i) = Some p \<longrightarrow> i < rt_next t \<and> p < rt_next t)"

lemma live_root [simp]: "live t 0"
  unfolding live_def using at_root by blast

lemma at_live: "spells t i xs vs \<Longrightarrow> live t i"
  unfolding live_def by blast

lemma live_child: "live t p \<Longrightarrow> map_of (rn_children (rt_node t p)) k = Some c \<Longrightarrow> live t c"
  unfolding live_def using at_child by blast

lemma rwfD:
  assumes "rwf t"
  shows "0 < rt_page t" "rn_parent (rt_node t 0) = None"
    "live t i \<Longrightarrow> i < rt_next t"
    "live t p \<Longrightarrow> map_of (rn_children (rt_node t p)) k = Some c \<Longrightarrow> linked t p k c"
    "live t p \<Longrightarrow> distinct (map fst (rn_children (rt_node t p)))"
    "rn_parent (rt_node t i) = Some q \<Longrightarrow> i < rt_next t \<and> q < rt_next t"
  using assms unfolding rwf_def by blast+

lemma at_cases:
  assumes "rwf t" "spells t i xs vs"
  obtains (at_top) "i = 0" "xs = []" "vs = []"
    | (at_below) p k ys us where "i \<noteq> 0" "rn_parent (rt_node t i) = Some p" "spells t p ys us"
        "map_of (rn_children (rt_node t p)) k = Some i" "linked t p k i"
        "xs = ys @ rn_key (rt_node t i)" "vs = us @ rn_value (rt_node t i)"
  using assms(2)
proof cases
  case (at_child p ys us k)
  have l: "linked t p k i" using rwfD(4) [OF assms(1) at_live [OF at_child(3)] at_child(4)] .
  then have "rn_parent (rt_node t i) = Some p" by (simp add: linked_def)
  moreover from this have "i \<noteq> 0" using rwfD(2) [OF assms(1)] by (metis option.distinct(1))
  ultimately show thesis using that(2) at_child l by blast
qed (use that in blast)

lemma at_unique: "spells t i xs vs \<Longrightarrow> rwf t \<Longrightarrow> spells t i ys us \<Longrightarrow> ys = xs \<and> us = vs"
proof (induction arbitrary: ys us rule: spells.induct)
  case at_root
  then show ?case using at_cases [OF at_root(1,2)] by metis
next
  case (at_child p xs vs k c)
  have l: "linked t p k c" using rwfD(4) [OF at_child.prems(1) at_live [OF at_child.hyps(1)] at_child.hyps(2)] .
  from at_child.prems(1,2) show ?case
  proof (cases rule: at_cases)
    case at_top
    then show ?thesis using l rwfD(2) [OF at_child.prems(1)] by (simp add: linked_def)
  next
    case (at_below q k' zs ws)
    then have "q = p" using l by (simp add: linked_def)
    then show ?thesis using at_child.IH [OF at_child.prems(1)] at_below by blast
  qed
qed

lemma at_lengths: "spells t i xs vs \<Longrightarrow> rwf t \<Longrightarrow> length vs = length xs \<and> rt_page t dvd length xs"
proof (induction rule: spells.induct)
  case (at_child p xs vs k c)
  then show ?case using rwfD(4) [OF at_child.prems at_live [OF at_child.hyps(1)] at_child.hyps(2)]
    by (simp add: linked_def)
qed simp

lemma parent_live:
  assumes "rwf t" "live t i" "rn_parent (rt_node t i) = Some p"
  shows "live t p" "i \<noteq> 0" "\<exists>k. map_of (rn_children (rt_node t p)) k = Some i \<and> linked t p k i"
proof -
  obtain xs vs where a: "spells t i xs vs" using assms(2) by (auto simp: live_def)
  have "i \<noteq> 0" using assms(3) rwfD(2) [OF assms(1)] by (metis option.distinct(1))
  from assms(1) a
  have "live t p \<and> i \<noteq> 0 \<and> (\<exists>k. map_of (rn_children (rt_node t p)) k = Some i \<and> linked t p k i)"
    by (cases rule: at_cases) (use \<open>i \<noteq> 0\<close> assms(3) at_live in auto)
  then show "live t p" "i \<noteq> 0" "\<exists>k. map_of (rn_children (rt_node t p)) k = Some i \<and> linked t p k i" by auto
qed

lemma live_parent:
  assumes "rwf t" "live t i" "i \<noteq> 0"
  obtains p where "rn_parent (rt_node t i) = Some p" "live t p"
proof -
  obtain xs vs where a: "spells t i xs vs" using assms(2) by (auto simp: live_def)
  from assms(1) a show thesis by (cases rule: at_cases) (use assms(3) at_live that in blast)+
qed

text \<open>Paths depend on the children, keys and values only.\<close>

definition same_shape :: "rtree \<Rightarrow> rtree \<Rightarrow> bool" where
  "same_shape t t' \<longleftrightarrow> rt_page t' = rt_page t \<and> rt_next t' = rt_next t \<and>
     (\<forall>i. rn_children (rt_node t' i) = rn_children (rt_node t i) \<and> rn_parent (rt_node t' i) = rn_parent (rt_node t i)
        \<and> rn_key (rt_node t' i) = rn_key (rt_node t i) \<and> rn_value (rt_node t' i) = rn_value (rt_node t i))"

lemma same_shape_refl [simp]: "same_shape t t"
  by (simp add: same_shape_def)

lemma same_shape_trans: "same_shape t t' \<Longrightarrow> same_shape t' t'' \<Longrightarrow> same_shape t t''"
  by (simp add: same_shape_def)

lemma same_shape_sym: "same_shape t t' \<Longrightarrow> same_shape t' t"
  by (simp add: same_shape_def)

lemma same_shape_at_imp: "spells t i xs vs \<Longrightarrow> same_shape t t' \<Longrightarrow> spells t' i xs vs"
proof (induction rule: spells.induct)
  case (at_child p xs vs k c)
  then have "spells t' c (xs @ rn_key (rt_node t' c)) (vs @ rn_value (rt_node t' c))"
    by (intro spells.at_child) (auto simp: same_shape_def)
  then show ?case using at_child.prems by (simp add: same_shape_def)
qed (rule spells.at_root)

lemma same_shape_at: "same_shape t t' \<Longrightarrow> spells t' i xs vs = spells t i xs vs"
  using same_shape_at_imp same_shape_sym by blast

lemma same_shape_live: "same_shape t t' \<Longrightarrow> live t' = live t"
  by (simp add: fun_eq_iff live_def same_shape_at)

lemma same_shape_up: "same_shape t t' \<Longrightarrow> up t' = up t"
  by (simp add: up_def same_shape_def)

lemma same_shape_rwf: "same_shape t t' \<Longrightarrow> rwf t' = rwf t"
  unfolding rwf_def by (simp add: same_shape_live linked_def) (simp add: same_shape_def)

lemma same_shape_update:
  assumes "\<And>n. rn_children (f n) = rn_children n \<and> rn_parent (f n) = rn_parent n
      \<and> rn_key (f n) = rn_key n \<and> rn_value (f n) = rn_value n"
  shows "same_shape t (update_node i f t)"
  using assms by (simp add: same_shape_def update_node_def)

lemma same_shape_touch: "same_shape t (touch tic i t)"
  unfolding touch_def by (rule same_shape_update) simp

lemma same_shape_ref: "same_shape t (ref_up i t)" "same_shape t (ref_down i t)"
  by (simp_all add: same_shape_def ref_up_def ref_down_def update_node_def Let_def)

section \<open>Reference counts and sizes\<close>

definition live_nodes :: "rtree \<Rightarrow> nat set" where
  "live_nodes t = {i. live t i \<and> i \<noteq> 0}"

definition weight :: "(rnode \<Rightarrow> bool) \<Rightarrow> rtree \<Rightarrow> int" where
  "weight P t = (\<Sum>i \<in> live_nodes t. if P (rt_node t i) then int (node_length t i) else 0)"

text \<open>The counters are the sizes of the unlocked and of the locked nodes.\<close>

definition sizes_ok :: "rtree \<Rightarrow> bool" where
  "sizes_ok t \<longleftrightarrow> rt_evictable t = weight (\<lambda>n. rn_ref n = 0) t \<and> rt_protected t = weight (\<lambda>n. rn_ref n \<noteq> 0) t
     \<and> (\<forall>i. live t i \<longrightarrow> 0 \<le> rn_ref (rt_node t i))"

text \<open>\<open>L\<close> is the list of nodes whose handles are locked; a node counts the locked handles at or
  below it. The root is always protected.\<close>

definition refs_ok :: "rtree \<Rightarrow> nat list \<Rightarrow> bool" where
  "refs_ok t L \<longleftrightarrow> (\<forall>h \<in> set L. live t h) \<and> 0 < rn_ref (rt_node t 0)
     \<and> (\<forall>i \<in> live_nodes t. rn_ref (rt_node t i) = int (length (filter (\<lambda>h. up t h i) L)))"

definition rinv :: "rtree \<Rightarrow> nat list \<Rightarrow> bool" where
  "rinv t L \<longleftrightarrow> rwf t \<and> sizes_ok t \<and> refs_ok t L"

lemma rinvD: "rinv t L \<Longrightarrow> rwf t" "rinv t L \<Longrightarrow> sizes_ok t" "rinv t L \<Longrightarrow> refs_ok t L"
  by (simp_all add: rinv_def)

lemma finite_live: "rwf t \<Longrightarrow> finite (live_nodes t)"
proof -
  assume w: "rwf t"
  have "live_nodes t \<subseteq> {..< rt_next t}" using rwfD(3) [OF w] by (auto simp: live_nodes_def)
  then show ?thesis using finite_subset by blast
qed

lemma weight_remove:
  assumes "rwf t" "i \<in> live_nodes t"
  shows "weight P t = (if P (rt_node t i) then int (node_length t i) else 0)
     + (\<Sum>j \<in> live_nodes t - {i}. if P (rt_node t j) then int (node_length t j) else 0)"
  unfolding weight_def by (rule sum.remove [OF finite_live [OF assms(1)] assms(2)])

lemma weight_update:
  assumes "rwf t" "i \<in> live_nodes t" "live_nodes t' = live_nodes t"
    and "\<And>j. j \<noteq> i \<Longrightarrow> P (rt_node t' j) = P (rt_node t j) \<and> node_length t' j = node_length t j"
  shows "weight P t' = weight P t - (if P (rt_node t i) then int (node_length t i) else 0)
     + (if P (rt_node t' i) then int (node_length t' i) else 0)"
proof -
  have "(\<Sum>j \<in> live_nodes t - {i}. if P (rt_node t' j) then int (node_length t' j) else 0)
      = (\<Sum>j \<in> live_nodes t - {i}. if P (rt_node t j) then int (node_length t j) else 0)"
    by (rule sum.cong) (use assms(4) in auto)
  moreover have "weight P t' = (if P (rt_node t' i) then int (node_length t' i) else 0)
     + (\<Sum>j \<in> live_nodes t - {i}. if P (rt_node t' j) then int (node_length t' j) else 0)"
    unfolding weight_def assms(3) by (rule sum.remove [OF finite_live [OF assms(1)] assms(2)])
  ultimately show ?thesis using weight_remove [OF assms(1,2), of P] by simp
qed

lemma weight_same:
  assumes "live_nodes t' = live_nodes t"
    and "\<And>j. P (rt_node t' j) = P (rt_node t j) \<and> node_length t' j = node_length t j"
  shows "weight P t' = weight P t"
  unfolding weight_def assms(1) by (rule sum.cong [OF refl]) (simp only: assms(2) conj_commute)

lemma same_shape_live_nodes: "same_shape t t' \<Longrightarrow> live_nodes t' = live_nodes t"
  by (simp add: live_nodes_def same_shape_live)

lemma touch_rinv [simp]: "rinv (touch tic i t) L = rinv t L"
proof -
  have sh: "same_shape t (touch tic i t)" by (rule same_shape_touch)
  have ref: "rn_ref (rt_node (touch tic i t) j) = rn_ref (rt_node t j)" for j
    by (simp add: touch_def update_node_def)
  have sz: "rt_evictable (touch tic i t) = rt_evictable t" "rt_protected (touch tic i t) = rt_protected t"
      "node_length (touch tic i t) j = node_length t j" for j
    by (simp_all add: touch_def update_node_def node_length_def)
  have w: "weight (\<lambda>n. P (rn_ref n)) (touch tic i t) = weight (\<lambda>n. P (rn_ref n)) t" for P
    by (rule weight_same) (simp_all add: same_shape_live_nodes [OF sh] ref sz)
  then show ?thesis
    by (simp add: rinv_def same_shape_rwf [OF sh] sizes_ok_def refs_ok_def same_shape_live [OF sh]
        same_shape_live_nodes [OF sh] same_shape_up [OF sh] ref sz w [of "\<lambda>x. x = 0"] w [of "\<lambda>x. x \<noteq> 0"])
qed

lemma ref_change_sizes:
  assumes "rwf t" "sizes_ok t" "i \<in> live_nodes t"
  shows "sizes_ok (ref_up i t)" "0 < rn_ref (rt_node t i) \<Longrightarrow> sizes_ok (ref_down i t)"
proof -
  have up: "rn_ref (rt_node (ref_up i t) j) = rn_ref (rt_node t j) + (if j = i then 1 else 0)"
      "node_length (ref_up i t) j = node_length t j"
      "rt_evictable (ref_up i t) = rt_evictable t - (if rn_ref (rt_node t i) = 0 then int (node_length t i) else 0)"
      "rt_protected (ref_up i t) = rt_protected t + (if rn_ref (rt_node t i) = 0 then int (node_length t i) else 0)" for j
    by (simp_all add: ref_up_def update_node_def node_length_def)
  have down: "rn_ref (rt_node (ref_down i t) j) = rn_ref (rt_node t j) - (if j = i then 1 else 0)"
      "node_length (ref_down i t) j = node_length t j"
      "rt_evictable (ref_down i t) = rt_evictable t + (if rn_ref (rt_node t i) = 1 then int (node_length t i) else 0)"
      "rt_protected (ref_down i t) = rt_protected t - (if rn_ref (rt_node t i) = 1 then int (node_length t i) else 0)" for j
    by (simp_all add: ref_down_def update_node_def node_length_def Let_def)
  have ge: "0 \<le> rn_ref (rt_node t j)" if "live t j" for j using assms(2) that by (simp add: sizes_ok_def)
  then have gei: "0 \<le> rn_ref (rt_node t i)" using assms(3) by (simp add: live_nodes_def)
  note shp = same_shape_ref [of t i]
  have wu: "weight (\<lambda>n. P (rn_ref n)) (ref_up i t) = weight (\<lambda>n. P (rn_ref n)) t
       - (if P (rn_ref (rt_node t i)) then int (node_length t i) else 0)
       + (if P (rn_ref (rt_node t i) + 1) then int (node_length t i) else 0)" for P
    using weight_update [OF assms(1,3) same_shape_live_nodes [OF shp(1)], of "\<lambda>n. P (rn_ref n)"] by (simp add: up)
  show "sizes_ok (ref_up i t)"
    using assms(2) gei unfolding sizes_ok_def
    by (simp add: wu [of "\<lambda>x. x = 0"] wu [of "\<lambda>x. x \<noteq> 0"] up same_shape_live [OF shp(1)])
  have wd: "weight (\<lambda>n. P (rn_ref n)) (ref_down i t) = weight (\<lambda>n. P (rn_ref n)) t
       - (if P (rn_ref (rt_node t i)) then int (node_length t i) else 0)
       + (if P (rn_ref (rt_node t i) - 1) then int (node_length t i) else 0)" for P
    using weight_update [OF assms(1,3) same_shape_live_nodes [OF shp(2)], of "\<lambda>n. P (rn_ref n)"] by (simp add: down)
  show "sizes_ok (ref_down i t)" if "0 < rn_ref (rt_node t i)"
    using assms(2) that unfolding sizes_ok_def
    by (simp add: wd [of "\<lambda>x. x = 0"] wd [of "\<lambda>x. x \<noteq> 0"] down same_shape_live [OF shp(2)])
qed

section \<open>Locking\<close>

lemma up_refl [simp]: "up t i i"
  by (simp add: up_def)

lemma up_step: "rn_parent (rt_node t i) = Some p \<Longrightarrow> up t i j \<longleftrightarrow> j = i \<or> up t p j"
  unfolding up_def by (auto intro: converse_rtranclp_into_rtranclp elim: converse_rtranclpE)

lemma up_top: "rn_parent (rt_node t i) = None \<Longrightarrow> up t i j \<longleftrightarrow> j = i"
  unfolding up_def by (auto elim: converse_rtranclpE)

lemma up_trans: "up t i j \<Longrightarrow> up t j k \<Longrightarrow> up t i k"
  unfolding up_def by simp

lemma up_spells:
  assumes "up t h j" "rwf t" "spells t h xs vs"
  shows "\<exists>ys us. spells t j ys us \<and> take (length ys) xs = ys \<and> take (length us) vs = us
    \<and> length ys \<le> length xs \<and> (j \<noteq> h \<longrightarrow> length ys < length xs)"
  using assms(1) assms(3) unfolding up_def
proof (induction arbitrary: xs vs rule: converse_rtranclp_induct)
  case (step h p)
  from assms(2) step.prems show ?case
  proof (cases rule: at_cases)
    case (at_below q k ys us)
    then have q: "spells t p ys us" using step.hyps(1) by simp
    from step.IH [OF q] obtain zs ws where z: "spells t j zs ws" "take (length zs) ys = zs"
        "take (length ws) us = ws" "length zs \<le> length ys" by blast
    moreover have "length us = length ys" "length ws = length zs"
      using at_lengths [OF q assms(2)] at_lengths [OF z(1) assms(2)] by simp_all
    moreover have "length ys < length xs" using at_below by (simp add: linked_def)
    then have "length zs < length xs" using z(4) by linarith
    ultimately have "spells t j zs ws \<and> take (length zs) xs = zs \<and> take (length ws) vs = ws
      \<and> length zs \<le> length xs \<and> (j \<noteq> h \<longrightarrow> length zs < length xs)"
      using at_below by auto
    then show ?thesis by blast
  qed (use step.hyps rwfD(2) [OF assms(2)] in auto)
next
  case base
  then have "spells t j xs vs \<and> take (length xs) xs = xs \<and> take (length vs) vs = vs
    \<and> length xs \<le> length xs \<and> (j \<noteq> j \<longrightarrow> length xs < length xs)" by simp
  then show ?case by blast
qed

lemma up_live: "up t h j \<Longrightarrow> rwf t \<Longrightarrow> live t h \<Longrightarrow> live t j"
  unfolding live_def using up_spells by blast

lemma up_acyclic:
  assumes "rwf t" "live t i" "rn_parent (rt_node t i) = Some p"
  shows "\<not> up t p i"
proof
  assume u: "up t p i"
  have "live t p" using parent_live [OF assms] by blast
  then obtain xs vs where p: "spells t p xs vs" by (auto simp: live_def)
  from up_spells [OF u assms(1) p] obtain ys us where y: "spells t i ys us" "length ys \<le> length xs" by blast
  have i: "up t i p" using up_step [OF assms(3)] by simp
  obtain k where k: "map_of (rn_children (rt_node t p)) k = Some i" "linked t p k i"
    using parent_live [OF assms] by blast
  have "p \<noteq> i"
  proof
    assume "p = i"
    moreover have "spells t i (xs @ rn_key (rt_node t i)) (vs @ rn_value (rt_node t i))"
      by (rule spells.at_child [OF p k(1)])
    ultimately have "xs @ rn_key (rt_node t i) = xs" using at_unique [OF p assms(1)] by metis
    then show False using k(2) by (simp add: linked_def)
  qed
  from up_spells [OF i assms(1) y(1)] obtain zs ws where "spells t p zs ws" "length zs < length ys"
    using \<open>p \<noteq> i\<close> by blast
  then show False using at_unique [OF p assms(1)] y(2) by auto
qed

definition moved :: "bool \<Rightarrow> int" where
  "moved unlock = (if unlock then -1 else 1)"

lemma lock_loop_ok:
  assumes "rwf t" "sizes_ok t" "spells t i xs vs"
    and "unlock \<Longrightarrow> (\<And>j. up t i j \<Longrightarrow> j \<noteq> 0 \<Longrightarrow> 0 < rn_ref (rt_node t j))"
  shows "\<exists>t'. lock_loop unlock i t = Some (ok t') \<and> same_shape t t' \<and> sizes_ok t'
    \<and> (\<forall>j. rn_ref (rt_node t' j) = rn_ref (rt_node t j) + (if up t i j \<and> j \<noteq> 0 then moved unlock else 0))"
  using assms
proof (induction "length xs" arbitrary: t i xs vs rule: less_induct)
  case less
  from less.prems(1,3) show ?case
  proof (cases rule: at_cases)
    case at_top
    then show ?thesis using less.prems(1,2) rwfD(2) [OF less.prems(1)]
      by (subst lock_loop.simps) (auto simp: up_top)
  next
    case (at_below p k ys us)
    let ?t1 = "if unlock then ref_down i t else ref_up i t"
    have iln: "i \<in> live_nodes t" using at_below(1) at_live [OF less.prems(3)] by (simp add: live_nodes_def)
    have pos: "unlock \<Longrightarrow> 0 < rn_ref (rt_node t i)" using less.prems(4) [of i] at_below(1) by simp
    have sh: "same_shape t ?t1" using same_shape_ref by simp
    have ref1: "rn_ref (rt_node ?t1 j) = rn_ref (rt_node t j) + (if j = i then moved unlock else 0)" for j
      by (simp add: moved_def ref_up_def ref_down_def update_node_def Let_def)
    have nup: "\<not> up t p i" using up_acyclic [OF less.prems(1) at_live [OF less.prems(3)] at_below(2)] .
    have step: "lock_loop unlock i t = lock_loop unlock p ?t1"
      using at_below(2) pos by (subst lock_loop.simps) (auto simp: moved_def)
    have "length ys < length xs" using at_below by (simp add: linked_def)
    then obtain t' where t': "lock_loop unlock p ?t1 = Some (ok t')" "same_shape ?t1 t'" "sizes_ok t'"
        "\<And>j. rn_ref (rt_node t' j) = rn_ref (rt_node ?t1 j) + (if up ?t1 p j \<and> j \<noteq> 0 then moved unlock else 0)"
    proof (rule less.hyps [THEN exE])
      show "rwf ?t1" using same_shape_rwf [OF sh] less.prems(1) by simp
      show "sizes_ok ?t1" using ref_change_sizes [OF less.prems(1,2) iln] pos by simp
      show "spells ?t1 p ys us" using at_below(3) by (simp add: same_shape_at [OF sh])
      show "0 < rn_ref (rt_node ?t1 j)" if "unlock" "up ?t1 p j" "j \<noteq> 0" for j
      proof -
        have "up t p j" using that(2) by (simp add: same_shape_up [OF sh])
        then show ?thesis using less.prems(4) [OF that(1), of j] nup that ref1 [of j] up_step [OF at_below(2)] by auto
      qed
    qed blast
    have "rn_ref (rt_node t' j) = rn_ref (rt_node t j) + (if up t i j \<and> j \<noteq> 0 then moved unlock else 0)" for j
      using t'(4) [of j] ref1 [of j] nup at_below(1) up_step [OF at_below(2), of j]
      by (auto simp: same_shape_up [OF sh])
    then show ?thesis using t' step same_shape_trans [OF sh] by auto
  qed
qed

lemma filter_remove1_length:
  "i \<in> set L \<Longrightarrow> length (filter P L) = length (filter P (remove1 i L)) + (if P i then 1 else 0)"
  by (induction L) auto

lemma lock_rinv:
  assumes "rinv t L" "live t (hd_node h)"
  shows "\<exists>t'. lock_handle h False t = Some (ok t') \<and> same_shape t t' \<and> rinv t' (hd_node h # L)"
proof -
  obtain xs vs where sp: "spells t (hd_node h) xs vs" using assms(2) by (auto simp: live_def)
  obtain t' where t': "lock_loop False (hd_node h) t = Some (ok t')" "same_shape t t'" "sizes_ok t'"
      "\<And>j. rn_ref (rt_node t' j) = rn_ref (rt_node t j) + (if up t (hd_node h) j \<and> j \<noteq> 0 then moved False else 0)"
    using lock_loop_ok [OF rinvD(1,2) [OF assms(1)] sp, of False] by blast
  have "refs_ok t' (hd_node h # L)"
    using rinvD(3) [OF assms(1)] assms(2) t'(4) unfolding refs_ok_def
    by (simp add: same_shape_live [OF t'(2)] same_shape_live_nodes [OF t'(2)] same_shape_up [OF t'(2)]
        moved_def live_nodes_def)
  then show ?thesis
    using t' rinvD(1) [OF assms(1)] same_shape_rwf [OF t'(2)] by (simp add: lock_handle_def rinv_def)
qed

lemma unlock_rinv:
  assumes "rinv t L" "hd_node h \<in> set L"
  shows "\<exists>t'. lock_handle h True t = Some (ok t') \<and> same_shape t t' \<and> rinv t' (remove1 (hd_node h) L)"
proof -
  have lv: "live t (hd_node h)" using rinvD(3) [OF assms(1)] assms(2) by (simp add: refs_ok_def)
  then obtain xs vs where sp: "spells t (hd_node h) xs vs" by (auto simp: live_def)
  have cnt: "rn_ref (rt_node t i) = int (length (filter (\<lambda>h. up t h i) L))" if "i \<in> live_nodes t" for i
    using rinvD(3) [OF assms(1)] that by (simp add: refs_ok_def)
  have ups: "j \<in> live_nodes t" if "up t (hd_node h) j" "j \<noteq> 0" for j
    using up_live [OF that(1) rinvD(1) [OF assms(1)] lv] that(2) by (simp add: live_nodes_def)
  have pos: "0 < rn_ref (rt_node t j)" if "up t (hd_node h) j" "j \<noteq> 0" for j
    using cnt [OF ups [OF that]] assms(2) that(1) by (auto simp: filter_empty_conv)
  obtain t' where t': "lock_loop True (hd_node h) t = Some (ok t')" "same_shape t t'" "sizes_ok t'"
      "\<And>j. rn_ref (rt_node t' j) = rn_ref (rt_node t j) + (if up t (hd_node h) j \<and> j \<noteq> 0 then moved True else 0)"
    using lock_loop_ok [OF rinvD(1,2) [OF assms(1)] sp, of True] pos by blast
  have "rn_ref (rt_node t' j) = int (length (filter (\<lambda>h. up t h j) (remove1 (hd_node h) L)))" if "j \<in> live_nodes t" for j
    using t'(4) [of j] cnt [OF that] filter_remove1_length [OF assms(2), of "\<lambda>h. up t h j"] that
    by (simp add: moved_def live_nodes_def)
  then have "refs_ok t' (remove1 (hd_node h) L)"
    using rinvD(3) [OF assms(1)] t'(4) [of 0] unfolding refs_ok_def
    by (auto simp: same_shape_live [OF t'(2)] same_shape_live_nodes [OF t'(2)] same_shape_up [OF t'(2)]
        dest: notin_set_remove1)
  then show ?thesis
    using t' rinvD(1) [OF assms(1)] same_shape_rwf [OF t'(2)] by (simp add: lock_handle_def rinv_def)
qed

section \<open>Splitting a node\<close>

text \<open>What one split leaves: the new prefix node \<open>n\<close> takes the place of \<open>i\<close> below \<open>p\<close>.\<close>

definition split_node :: "rtree \<Rightarrow> nat \<Rightarrow> nat \<Rightarrow> nat \<Rightarrow> nat \<Rightarrow> int list \<Rightarrow> rtree \<Rightarrow> bool" where
  "split_node t i p n pos k t' \<longleftrightarrow> rwf t \<and> live t p \<and> map_of (rn_children (rt_node t p)) k = Some i
     \<and> 0 < pos \<and> pos < length (rn_key (rt_node t i)) \<and> rt_page t dvd pos
     \<and> n = rt_next t \<and> rt_page t' = rt_page t \<and> rt_next t' = rt_next t + 1
     \<and> (\<forall>j. j \<noteq> i \<longrightarrow> j \<noteq> n \<longrightarrow> j \<noteq> p \<longrightarrow> rt_node t' j = rt_node t j)
     \<and> rt_node t' p = (rt_node t p)\<lparr>rn_children := AList.update k n (rn_children (rt_node t p))\<rparr>
     \<and> rn_children (rt_node t' i) = rn_children (rt_node t i) \<and> rn_parent (rt_node t' i) = Some n
     \<and> rn_key (rt_node t' i) = drop pos (rn_key (rt_node t i))
     \<and> rn_value (rt_node t' i) = drop pos (rn_value (rt_node t i)) \<and> rn_ref (rt_node t' i) = rn_ref (rt_node t i)
     \<and> rn_children (rt_node t' n) = [(key_fn (rt_page t) (drop pos (rn_key (rt_node t i))), i)]
     \<and> rn_parent (rt_node t' n) = Some p \<and> rn_key (rt_node t' n) = take pos (rn_key (rt_node t i))
     \<and> rn_value (rt_node t' n) = take pos (rn_value (rt_node t i)) \<and> rn_ref (rt_node t' n) = rn_ref (rt_node t i)
     \<and> rn_mamba (rt_node t' i) = rn_mamba (rt_node t i) \<and> rn_mamba_ref (rt_node t' i) = rn_mamba_ref (rt_node t i)
     \<and> rn_mamba (rt_node t' n) = None \<and> rn_mamba_ref (rt_node t' n) = 0
     \<and> rt_evictable t' = rt_evictable t \<and> rt_protected t' = rt_protected t"

lemma split_nodeD:
  assumes "split_node t i p n pos k t'"
  shows "rwf t" "live t p" "map_of (rn_children (rt_node t p)) k = Some i"
    "0 < pos" "pos < length (rn_key (rt_node t i))" "rt_page t dvd pos"
    "n = rt_next t" "rt_page t' = rt_page t" "rt_next t' = rt_next t + 1"
    "rt_evictable t' = rt_evictable t" "rt_protected t' = rt_protected t"
  using assms unfolding split_node_def by blast+

lemma split_old_nodes:
  assumes "split_node t i p n pos k t'"
  shows "j \<noteq> i \<Longrightarrow> j \<noteq> n \<Longrightarrow> j \<noteq> p \<Longrightarrow> rt_node t' j = rt_node t j"
    "rt_node t' p = (rt_node t p)\<lparr>rn_children := AList.update k n (rn_children (rt_node t p))\<rparr>"
  using assms unfolding split_node_def by blast+

lemma split_suffix:
  assumes "split_node t i p n pos k t'"
  shows "rn_children (rt_node t' i) = rn_children (rt_node t i)" "rn_parent (rt_node t' i) = Some n"
    "rn_key (rt_node t' i) = drop pos (rn_key (rt_node t i))"
    "rn_value (rt_node t' i) = drop pos (rn_value (rt_node t i))" "rn_ref (rt_node t' i) = rn_ref (rt_node t i)"
  using assms unfolding split_node_def by blast+

lemma split_prefix:
  assumes "split_node t i p n pos k t'"
  shows "rn_children (rt_node t' n) = [(key_fn (rt_page t) (drop pos (rn_key (rt_node t i))), i)]"
    "rn_parent (rt_node t' n) = Some p" "rn_key (rt_node t' n) = take pos (rn_key (rt_node t i))"
    "rn_value (rt_node t' n) = take pos (rn_value (rt_node t i))" "rn_ref (rt_node t' n) = rn_ref (rt_node t i)"
  using assms unfolding split_node_def by blast+

lemma split_link:
  assumes S: "split_node t i p n pos k t'"
  shows "linked t p k i"
  using rwfD(4) [OF split_nodeD(1) [OF S] split_nodeD(2) [OF S] split_nodeD(3) [OF S]] .

lemma split_parent:
  assumes S: "split_node t i p n pos k t'"
  shows "rn_parent (rt_node t i) = Some p"
  using split_link [OF S] by (simp add: linked_def)

lemma split_live:
  assumes S: "split_node t i p n pos k t'"
  shows "live t i"
  using live_child [OF split_nodeD(2) [OF S] split_nodeD(3) [OF S]] .

lemma split_distinct:
  assumes S: "split_node t i p n pos k t'"
  shows "i \<noteq> n" "p \<noteq> n" "p \<noteq> i" "i \<noteq> 0" "n \<noteq> 0"
proof -
  show "i \<noteq> n" "p \<noteq> n" using rwfD(3) [OF split_nodeD(1) [OF S] split_live [OF S]] rwfD(3) [OF split_nodeD(1) [OF S] split_nodeD(2) [OF S]] split_nodeD(7) [OF S] by auto
  show "p \<noteq> i" using up_acyclic [OF split_nodeD(1) [OF S] split_live [OF S] split_parent [OF S]] by auto
  show "i \<noteq> 0" using split_parent [OF S] rwfD(2) [OF split_nodeD(1) [OF S]] by (metis option.distinct(1))
  show "n \<noteq> 0" using rwfD(3) [OF split_nodeD(1) [OF S] live_root] split_nodeD(7) [OF S] by simp
qed

lemma split_fresh:
  assumes S: "split_node t i p n pos k t'"
  shows "live t j \<Longrightarrow> j \<noteq> n"
  using rwfD(3) [OF split_nodeD(1) [OF S]] split_nodeD(7) [OF S] by blast

lemma split_only_parent:
  assumes S: "split_node t i p n pos k t'"
  shows "live t q \<Longrightarrow> map_of (rn_children (rt_node t q)) k' = Some i \<Longrightarrow> q = p \<and> k' = k"
  using rwfD(4) [OF split_nodeD(1) [OF S]] split_link [OF S] by (fastforce simp: linked_def)

lemma split_children:
  assumes S: "split_node t i p n pos k t'"
  shows "map_of (rn_children (rt_node t' p)) = (map_of (rn_children (rt_node t p)))(k \<mapsto> n)"
  by (simp add: split_old_nodes(2) [OF S] update_conv')

lemma split_children_same:
  assumes S: "split_node t i p n pos k t'"
  shows "j \<noteq> p \<Longrightarrow> j \<noteq> n \<Longrightarrow> rn_children (rt_node t' j) = rn_children (rt_node t j)"
  using split_old_nodes(1) [OF S] split_suffix(1) [OF S] by (cases "j = i") auto

lemma split_key_same:
  assumes S: "split_node t i p n pos k t'"
  shows "j \<noteq> i \<Longrightarrow> j \<noteq> n \<Longrightarrow> rn_key (rt_node t' j) = rn_key (rt_node t j)
    \<and> rn_value (rt_node t' j) = rn_value (rt_node t j) \<and> rn_ref (rt_node t' j) = rn_ref (rt_node t j)
    \<and> rn_parent (rt_node t' j) = rn_parent (rt_node t j)"
  using split_old_nodes(1) [OF S] split_old_nodes(2) [OF S] by (cases "j = p") auto

lemma split_spells_new:
  assumes S: "split_node t i p n pos k t'"
  shows "spells t p xs vs \<Longrightarrow> spells t' p xs vs
    \<Longrightarrow> spells t' n (xs @ take pos (rn_key (rt_node t i))) (vs @ take pos (rn_value (rt_node t i)))"
  using spells.at_child [of t' p xs vs k n] by (simp add: split_children [OF S] split_prefix [OF S])

lemma split_spells_old:
  assumes S: "split_node t i p n pos k t'"
  shows "spells t j xs vs \<Longrightarrow> spells t' j xs vs"
proof (induction rule: spells.induct)
  case (at_child q xs vs k' c)
  have q: "q \<noteq> n" and c: "c \<noteq> n"
    using split_fresh [OF S] at_live [OF at_child.hyps(1)] live_child [OF _ at_child.hyps(2)] by blast+
  show ?case
  proof (cases "c = i")
    case True
    then have qk: "q = p" "k' = k" using split_only_parent [OF S] at_live [OF at_child.hyps(1)] at_child.hyps(2) by blast+
    from at_child.hyps(1) at_child.IH
    have "spells t' n (xs @ take pos (rn_key (rt_node t i))) (vs @ take pos (rn_value (rt_node t i)))"
      unfolding qk by (rule split_spells_new [OF S])
    then have "spells t' i ((xs @ take pos (rn_key (rt_node t i))) @ rn_key (rt_node t' i))
        ((vs @ take pos (rn_value (rt_node t i))) @ rn_value (rt_node t' i))"
      by (rule spells.at_child) (simp add: split_prefix [OF S])
    then show ?thesis by (simp add: split_suffix [OF S] True)
  next
    case False
    have "map_of (rn_children (rt_node t' q)) k' = Some c"
      using at_child.hyps(2) split_children [OF S] split_children_same [OF S, of q] q False split_nodeD(3) [OF S] by (cases "q = p") auto
    then have "spells t' c (xs @ rn_key (rt_node t' c)) (vs @ rn_value (rt_node t' c))"
      by (rule spells.at_child [OF at_child.IH])
    then show ?thesis using split_key_same [OF S, OF False c] by simp
  qed
qed (rule spells.at_root)

lemma split_spells_back:
  assumes S: "split_node t i p n pos k t'"
  shows "spells t' j xs vs \<Longrightarrow> (j \<noteq> n \<and> spells t j xs vs) \<or>
     (j = n \<and> (\<exists>ys us. spells t p ys us \<and> xs = ys @ take pos (rn_key (rt_node t i))
        \<and> vs = us @ take pos (rn_value (rt_node t i))))"
proof (induction rule: spells.induct)
  case at_root
  then show ?case using split_distinct [OF S] spells.at_root by auto
next
  case (at_child q xs vs k' c)
  show ?case
  proof (cases "q = n")
    case True
    then have c: "c = i" using at_child.hyps(2) by (simp add: split_prefix [OF S] split: if_splits)
    from True at_child.IH obtain ys us where y: "spells t p ys us" "xs = ys @ take pos (rn_key (rt_node t i))"
        "vs = us @ take pos (rn_value (rt_node t i))" by blast
    then show ?thesis
      using c split_distinct [OF S] spells.at_child [OF y(1) split_nodeD(3) [OF S]] by (simp add: split_suffix [OF S])
  next
    case False
    with at_child.IH have q: "spells t q xs vs" by blast
    show ?thesis
    proof (cases "c = n")
      case True
      have "q = p"
      proof (rule ccontr)
        assume "q \<noteq> p"
        then have "map_of (rn_children (rt_node t q)) k' = Some n"
          using at_child.hyps(2) split_children_same [OF S, of q] False True by simp
        then show False using split_fresh [OF S] live_child [OF at_live [OF q]] by blast
      qed
      then show ?thesis using True q by (auto simp: split_prefix [OF S])
    next
      case c: False
      have m: "map_of (rn_children (rt_node t q)) k' = Some c"
        using at_child.hyps(2) split_children [OF S] split_children_same [OF S, of q] False c by (cases "q = p") (auto split: if_splits)
      have "c \<noteq> i"
      proof
        assume "c = i"
        then have "q = p" "k' = k" using split_only_parent [OF S, OF at_live [OF q]] m by auto
        then show False using at_child.hyps(2) split_children [OF S] c by simp
      qed
      then show ?thesis using c spells.at_child [OF q m] split_key_same [OF S, of c] by simp
    qed
  qed
qed

lemma split_live_iff:
  assumes S: "split_node t i p n pos k t'"
  shows "live t' j \<longleftrightarrow> j = n \<or> live t j"
proof -
  obtain ys us where "spells t p ys us" using split_nodeD(2) [OF S] by (auto simp: live_def)
  then have "live t' n" using split_spells_new [OF S] split_spells_old [OF S] at_live by blast
  then show ?thesis using split_spells_old [OF S] split_spells_back [OF S] unfolding live_def by blast
qed

lemma update_node_sel [simp]:
  "rt_node (update_node i f t) j = (if j = i then f (rt_node t i) else rt_node t j)"
  "rt_next (update_node i f t) = rt_next t" "rt_page (update_node i f t) = rt_page t"
  "rt_evictable (update_node i f t) = rt_evictable t" "rt_protected (update_node i f t) = rt_protected t"
  by (simp_all add: update_node_def)

lemma key_fn_take: "page dvd pos \<Longrightarrow> 0 < pos \<Longrightarrow> key_fn page (take pos xs) = key_fn page xs"
  by (simp add: key_fn_def min_absorb1 dvd_imp_le)

lemma split_at_node:
  assumes "rwf t" "live t p" "map_of (rn_children (rt_node t p)) k = Some i"
    and "0 < pos" "pos < length (rn_key (rt_node t i))" "rt_page t dvd pos"
  shows "\<exists>t'. split_at i pos t = ok (t', rt_next t) \<and> split_node t i p (rt_next t) pos k t'"
proof -
  have l: "linked t p k i" using rwfD(4) [OF assms(1-3)] .
  have lv: "live t i" using live_child [OF assms(2,3)] .
  have par: "rn_parent (rt_node t i) = Some p" using l by (simp add: linked_def)
  have ne: "i \<noteq> rt_next t" "p \<noteq> rt_next t" "p \<noteq> i"
    using rwfD(3) [OF assms(1) lv] rwfD(3) [OF assms(1,2)] up_acyclic [OF assms(1) lv par] by auto
  have k: "key_fn (rt_page t) (take pos (rn_key (rt_node t i))) = k"
    using l assms(4,6) by (simp add: key_fn_take linked_def)
  have len: "length (rn_value (rt_node t i)) = length (rn_key (rt_node t i))" using l by (simp add: linked_def)
  show ?thesis
    unfolding split_at_def Let_def par option.case split_node_def
    using assms ne k len par
    by (auto simp: alloc_node_def set_parent_def new_node_def rassert_def rbind_def)
qed

lemma split_up:
  assumes S: "split_node t i p n pos k t'"
  shows "h \<noteq> n \<Longrightarrow> j \<noteq> n \<Longrightarrow> up t' h j = up t h j" "h \<noteq> n \<Longrightarrow> up t' h n = up t h i"
proof -
  let ?f = "\<lambda>x. if x = n then i else x"
  have par: "rn_parent (rt_node t' x) = (if x = i then Some n else if x = n then Some p else rn_parent (rt_node t x))" for x
    using split_suffix(2) [OF S] split_prefix(2) [OF S] split_key_same [OF S, of x] by auto
  have pi: "rn_parent (rt_node t i) = Some p" by (rule split_parent [OF S])
  have fresh: "rn_parent (rt_node t x) \<noteq> Some n" "rn_parent (rt_node t n) = None" for x
    using rwfD(6) [OF split_nodeD(1) [OF S]] split_nodeD(7) [OF S] by (metis less_irrefl not_None_eq)+
  have ne: "i \<noteq> n" "p \<noteq> n" using split_distinct [OF S] by auto
  have down: "up t' h j \<Longrightarrow> up t (?f h) (?f j)" for h j
    unfolding up_def
  proof (induction rule: rtranclp_induct)
    case (step y z)
    have "up t (?f y) (?f z)"
      using step.hyps(2) ne fresh(1) [of y] pi up_step [of t "?f y" "?f z"] by (auto simp: par split: if_splits)
    then show ?case using step.IH unfolding up_def by (rule rtranclp_trans [rotated])
  qed simp
  have stepi: "up t' i p" using up_step [of t' i n] up_step [of t' n p] ne by (simp add: par)
  have bwd: "up t h j \<Longrightarrow> up t' h j" for h j
    unfolding up_def
  proof (induction rule: rtranclp_induct)
    case (step y z)
    have "up t' y z"
    proof (cases "y = i")
      case True
      then show ?thesis using step.hyps(2) pi stepi by simp
    next
      case False
      then have "y \<noteq> n" using fresh(2) step.hyps(2) by auto
      then show ?thesis using False step.hyps(2) up_step [of t' y z] by (simp add: par)
    qed
    then show ?case using step.IH unfolding up_def by (rule rtranclp_trans [rotated])
  qed simp
  show "up t' h j = up t h j" if "h \<noteq> n" "j \<noteq> n" using down [of h j] bwd [of h j] that by auto
  have "up t' i n" using up_step [of t' i n] ne by (simp add: par)
  then show "up t' h n = up t h i" if "h \<noteq> n"
    using down [of h n] bwd [of h i] up_trans [of t' h i n] that by auto
qed

lemma split_linked:
  assumes S: "split_node t i p n pos k t'"
  shows "linked t' n (key_fn (rt_page t) (drop pos (rn_key (rt_node t i)))) i" "linked t' p k n"
    "linked t q k' c \<Longrightarrow> c \<noteq> i \<Longrightarrow> c \<noteq> n \<Longrightarrow> linked t' q k' c"
proof -
  have l: "linked t p k i" by (rule split_link [OF S])
  note d = split_nodeD [OF S] and pre = split_prefix [OF S] and suf = split_suffix [OF S]
  show "linked t' n (key_fn (rt_page t) (drop pos (rn_key (rt_node t i)))) i"
    using l d pre suf by (auto simp: linked_def dvd_diff_nat paged_drop)
  show "linked t' p k n"
    using l d pre suf by (auto simp: linked_def key_fn_take min_absorb1 paged_take)
  show "linked t q k' c \<Longrightarrow> c \<noteq> i \<Longrightarrow> c \<noteq> n \<Longrightarrow> linked t' q k' c"
    using split_key_same [OF S, of c] d by (simp add: linked_def)
qed

lemma split_rwf:
  assumes S: "split_node t i p n pos k t'"
  shows "rwf t'"
  unfolding rwf_def
proof (intro conjI allI impI)
  note d = split_nodeD [OF S] and ne = split_distinct [OF S] and w = rwfD [OF split_nodeD(1) [OF S]]
  show "0 < rt_page t'" using d w(1) by simp
  show "rn_parent (rt_node t' 0) = None" using split_key_same [OF S, of 0] ne w(2) by simp
  show "j < rt_next t'" if "live t' j" for j using that w(3) [of j] d by (auto simp: split_live_iff [OF S])
  show "linked t' q k' c" if q: "live t' q" and m: "map_of (rn_children (rt_node t' q)) k' = Some c" for q k' c
  proof (cases "q = n")
    case True
    then show ?thesis using m split_linked(1) [OF S] by (simp add: split_prefix [OF S] split: if_splits)
  next
    case False
    then have lq: "live t q" using q by (simp add: split_live_iff [OF S])
    show ?thesis
    proof (cases "q = p \<and> k' = k")
      case True
      then show ?thesis using m split_linked(2) [OF S] split_children [OF S] by simp
    next
      case qk: False
      then have m': "map_of (rn_children (rt_node t q)) k' = Some c"
        using m False split_children [OF S] split_children_same [OF S, of q] by (cases "q = p") auto
      have "c \<noteq> i" using split_only_parent [OF S lq, of k'] m' qk by auto
      moreover have "c \<noteq> n" using split_fresh [OF S live_child [OF lq m']] .
      ultimately show ?thesis using split_linked(3) [OF S w(4) [OF lq m']] by blast
    qed
  qed
  show "distinct (map fst (rn_children (rt_node t' q)))" if "live t' q" for q
  proof (cases "q = n")
    case False
    then have "live t q" using that by (simp add: split_live_iff [OF S])
    then show ?thesis
      using False w(5) [of q] split_children_same [OF S, of q] split_old_nodes(2) [OF S]
      by (cases "q = p") (auto simp: distinct_update)
  qed (simp add: split_prefix [OF S])
  show "x < rt_next t'" "q < rt_next t'" if "rn_parent (rt_node t' x) = Some q" for x q
  proof -
    have "x < rt_next t' \<and> q < rt_next t'"
      using that w(6) [of x q] w(3) [OF d(2)] w(3) [OF split_live [OF S]] d split_key_same [OF S, of x]
        split_suffix(2) [OF S] split_prefix(2) [OF S]
      by (cases "x = i"; cases "x = n") auto
    then show "x < rt_next t'" "q < rt_next t'" by auto
  qed
qed

lemma split_live_nodes:
  assumes S: "split_node t i p n pos k t'"
  shows "live_nodes t' = insert n (live_nodes t)" "n \<notin> live_nodes t" "i \<in> live_nodes t"
  using split_live_iff [OF S] split_distinct [OF S] split_fresh [OF S] split_live [OF S]
  by (auto simp: live_nodes_def)

lemma split_total:
  fixes f :: "rnode \<Rightarrow> 'a :: comm_monoid_add"
  assumes S: "split_node t i p n pos k t'"
    and "f (rt_node t' n) + f (rt_node t' i) = f (rt_node t i)"
    and "\<And>j. j \<noteq> i \<Longrightarrow> j \<noteq> n \<Longrightarrow> f (rt_node t' j) = f (rt_node t j)"
  shows "(\<Sum>j \<in> live_nodes t'. f (rt_node t' j)) = (\<Sum>j \<in> live_nodes t. f (rt_node t j))"
proof -
  note ln = split_live_nodes [OF S] and fin = finite_live [OF split_nodeD(1) [OF S]]
  have same: "f (rt_node t' j) = f (rt_node t j)" if "j \<in> live_nodes t - {i}" for j
    by (rule assms(3)) (use that ln(2) in auto)
  have "(\<Sum>j \<in> live_nodes t'. f (rt_node t' j))
      = f (rt_node t' n) + (f (rt_node t' i) + (\<Sum>j \<in> live_nodes t - {i}. f (rt_node t' j)))"
    unfolding ln(1) using ln fin by (simp add: sum.remove [OF fin ln(3), of "\<lambda>j. f (rt_node t' j)"])
  also have "(\<Sum>j \<in> live_nodes t - {i}. f (rt_node t' j)) = (\<Sum>j \<in> live_nodes t - {i}. f (rt_node t j))"
    by (rule sum.cong [OF refl same])
  finally show ?thesis
    unfolding sum.remove [OF fin ln(3), of "\<lambda>j. f (rt_node t j)"] assms(2) [symmetric] by (simp add: ac_simps)
qed

lemma split_weight:
  assumes S: "split_node t i p n pos k t'"
  shows "weight (\<lambda>m. P (rn_ref m)) t' = weight (\<lambda>m. P (rn_ref m)) t"
  unfolding weight_def node_length_def
  by (rule split_total [OF S, of "\<lambda>m. if P (rn_ref m) then int (length (rn_key m)) else 0"])
    (use split_prefix [OF S] split_suffix [OF S] split_nodeD(5) [OF S] split_key_same [OF S] in auto)

text \<open>All the pages the tree owns.\<close>

definition tree_pages :: "rtree \<Rightarrow> int multiset" where
  "tree_pages t = (\<Sum>i \<in> live_nodes t. mset (rn_value (rt_node t i)))"

lemma split_pages:
  assumes S: "split_node t i p n pos k t'"
  shows "tree_pages t' = tree_pages t"
  unfolding tree_pages_def
  by (rule split_total [OF S, of "\<lambda>m. mset (rn_value m)"])
    (use split_prefix [OF S] split_suffix [OF S] split_key_same [OF S] in
      \<open>simp_all add: mset_append [symmetric] del: mset_append\<close>)

lemma same_shape_pages: "same_shape t t' \<Longrightarrow> tree_pages t' = tree_pages t"
  by (simp add: tree_pages_def same_shape_live_nodes) (simp add: same_shape_def)

lemma split_rinv:
  assumes S: "split_node t i p n pos k t'" and inv: "rinv t L"
  shows "rinv t' L"
proof -
  note ne = split_distinct [OF S] and ln = split_live_nodes [OF S]
  have ref: "rn_ref (rt_node t' j) = rn_ref (rt_node t (if j = n then i else j))" for j
    using split_prefix(5) [OF S] split_suffix(5) [OF S] split_key_same [OF S, of j] by auto
  have lv: "live t h" if "h \<in> set L" for h using rinvD(3) [OF inv] that by (simp add: refs_ok_def)
  then have hn: "h \<noteq> n" if "h \<in> set L" for h using split_fresh [OF S] that by blast
  have up: "filter (\<lambda>h. up t' h j) L = filter (\<lambda>h. up t h (if j = n then i else j)) L" for j
    by (rule filter_cong [OF refl]) (use split_up [OF S] hn in auto)
  have "sizes_ok t'"
    using rinvD(2) [OF inv] split_nodeD(10,11) [OF S] split_weight [OF S, of "\<lambda>x. x = 0"]
      split_weight [OF S, of "\<lambda>x. x \<noteq> 0"] split_live [OF S]
    by (auto simp: sizes_ok_def ref split_live_iff [OF S])
  moreover have "refs_ok t' L"
    using rinvD(3) [OF inv] ln ne lv unfolding refs_ok_def by (auto simp: ref up split_live_iff [OF S])
  ultimately show ?thesis using split_rwf [OF S] by (simp add: rinv_def)
qed

section \<open>What the cache holds\<close>

text \<open>The page-aligned prefixes of the paths, with the indices of their pages; \<open>below t i zs ws\<close> is
  what can be read downwards from the node \<open>i\<close>.\<close>

definition holds :: "rtree \<Rightarrow> int list \<Rightarrow> int list \<Rightarrow> bool" where
  "holds t xs vs \<longleftrightarrow> rt_page t dvd length xs
     \<and> (\<exists>i ys us. spells t i ys us \<and> length xs \<le> length ys \<and> take (length xs) ys = xs \<and> take (length xs) us = vs)"

inductive below :: "rtree \<Rightarrow> nat \<Rightarrow> int list \<Rightarrow> int list \<Rightarrow> bool" for t where
  below_nil: "below t i [] []"
| below_part: "map_of (rn_children (rt_node t i)) k = Some c \<Longrightarrow> m \<le> length (rn_key (rt_node t c))
    \<Longrightarrow> rt_page t dvd m \<Longrightarrow> below t i (take m (rn_key (rt_node t c))) (take m (rn_value (rt_node t c)))"
| below_child: "map_of (rn_children (rt_node t i)) k = Some c \<Longrightarrow> below t c zs ws
    \<Longrightarrow> below t i (rn_key (rt_node t c) @ zs) (rn_value (rt_node t c) @ ws)"

lemma spells_below: "spells t i xs vs \<Longrightarrow> below t i zs ws \<Longrightarrow> below t 0 (xs @ zs) (vs @ ws)"
proof (induction arbitrary: zs ws rule: spells.induct)
  case (at_child p xs vs k c)
  have "below t p (rn_key (rt_node t c) @ zs) (rn_value (rt_node t c) @ ws)"
    using at_child.hyps(2) at_child.prems by (rule below_child)
  then show ?case using at_child.IH by simp
qed simp

lemma holds_below:
  assumes "rwf t" "holds t xs vs"
  shows "below t 0 xs vs"
proof -
  obtain i ys us where "spells t i ys us" and xs: "length xs \<le> length ys" "take (length xs) ys = xs"
      "take (length xs) us = vs" "rt_page t dvd length xs" using assms(2) by (auto simp: holds_def)
  then show ?thesis
  proof (induction arbitrary: xs vs rule: spells.induct)
    case at_root
    then show ?case by (simp add: below_nil)
  next
    case (at_child p ys us k c)
    have len: "length us = length ys" "rt_page t dvd length ys" using at_lengths [OF at_child.hyps(1) assms(1)] by auto
    show ?case
    proof (cases "length xs \<le> length ys")
      case True
      then show ?thesis using at_child.IH [of xs vs] at_child.prems len by simp
    next
      case False
      define m where "m = length xs - length ys"
      have split: "xs = ys @ take m (rn_key (rt_node t c))" "vs = us @ take m (rn_value (rt_node t c))"
        using at_child.prems(2,3) False len unfolding m_def by auto
      have "m \<le> length (rn_key (rt_node t c))" "rt_page t dvd m"
        using at_child.prems(1,4) len(2) unfolding m_def by (auto simp: dvd_diff_nat)
      then have "below t p (take m (rn_key (rt_node t c))) (take m (rn_value (rt_node t c)))"
        by (rule below_part [OF at_child.hyps(2)])
      then show ?thesis unfolding split by (rule spells_below [OF at_child.hyps(1)])
    qed
  qed
qed

lemma spells_holds: "spells t i xs vs \<Longrightarrow> rwf t \<Longrightarrow> holds t xs vs"
  using at_lengths unfolding holds_def by fastforce

lemma holds_mono:
  "(\<And>i ys us. spells t i ys us \<Longrightarrow> spells t' i ys us) \<Longrightarrow> rt_page t' = rt_page t \<Longrightarrow> holds t xs vs \<Longrightarrow> holds t' xs vs"
  unfolding holds_def by metis

lemma same_shape_holds: "same_shape t t' \<Longrightarrow> holds t' = holds t"
  by (simp add: fun_eq_iff holds_def same_shape_at) (simp add: same_shape_def)

text \<open>A split leaves what the cache holds as it was.\<close>

lemma split_holds:
  assumes S: "split_node t i p n pos k t'"
  shows "holds t' xs vs = holds t xs vs"
proof
  show "holds t xs vs \<Longrightarrow> holds t' xs vs"
    using holds_mono split_spells_old [OF S] split_nodeD(8) [OF S] by blast
  assume h: "holds t' xs vs"
  then obtain j ys us where j: "spells t' j ys us" "length xs \<le> length ys" "take (length xs) ys = xs"
      "take (length xs) us = vs" "rt_page t' dvd length xs" by (auto simp: holds_def)
  show "holds t xs vs"
  proof (cases "j = n")
    case False
    then have "spells t j ys us" using split_spells_back [OF S j(1)] by blast
    then show ?thesis using j split_nodeD(8) [OF S] unfolding holds_def by auto
  next
    case True
    then obtain zs ws where z: "spells t p zs ws" "ys = zs @ take pos (rn_key (rt_node t i))"
        "us = ws @ take pos (rn_value (rt_node t i))" using split_spells_back [OF S j(1)] by blast
    have sp: "spells t i (zs @ rn_key (rt_node t i)) (ws @ rn_value (rt_node t i))"
      by (rule spells.at_child [OF z(1) split_nodeD(3) [OF S]])
    have len: "length ws = length zs" "length (rn_value (rt_node t i)) = length (rn_key (rt_node t i))"
      using at_lengths [OF z(1) split_nodeD(1) [OF S]] split_link [OF S] by (auto simp: linked_def)
    have "length xs \<le> length zs + pos" using j(2) z(2) by simp
    then have "take (length xs) (zs @ rn_key (rt_node t i)) = xs" "take (length xs) (ws @ rn_value (rt_node t i)) = vs"
      using j(3,4) len unfolding z(2,3) by (auto simp: min_absorb1 min_absorb2)
    moreover have "length xs \<le> length (zs @ rn_key (rt_node t i))"
      using \<open>length xs \<le> length zs + pos\<close> split_nodeD(5) [OF S] by simp
    moreover have "rt_page t dvd length xs" using j(5) split_nodeD(8) [OF S] by simp
    ultimately show ?thesis using sp unfolding holds_def by blast
  qed
qed

end
