(* ===== verification/RadixOps.thy ===== *)
theory RadixOps
  imports RadixCache
begin

text \<open>
  The operations of the radix cache: matching a prefix, inserting one, and eviction. Each keeps the
  invariant \<open>rinv\<close> with its locked handles; matching finds the longest cached prefix and changes
  nothing that is cached, insertion adds exactly one path, and eviction frees whole unlocked leaves
  and hands back their pages. The last section states the interface of \<open>BasePrefixCache\<close> as a
  locale and interprets it on the radix cache and on \<open>naive_cache.py\<close>.
\<close>

section \<open>Walking down\<close>

lemma match_len_le: "match_len xs ys \<le> length xs" "match_len xs ys \<le> length ys"
  by (induction xs ys rule: match_len.induct) auto

lemma match_len_take: "take (match_len xs ys) xs = take (match_len xs ys) ys"
  by (induction xs ys rule: match_len.induct) auto

lemma match_len_ge: "take j xs = take j ys \<Longrightarrow> j \<le> length xs \<Longrightarrow> j \<le> length ys \<Longrightarrow> j \<le> match_len xs ys"
proof (induction xs ys arbitrary: j rule: match_len.induct)
  case (1 x xs y ys)
  then show ?case by (cases j) auto
qed auto

lemma nat_align_down: "nat (align_down (int a) (int b)) = a div b * b"
proof -
  have "int a div int b * int b = int (a div b * b)" by (simp add: zdiv_int)
  then show ?thesis unfolding align_down_def by (simp only: nat_int)
qed

lemma aligned_le: "(b :: nat) dvd j \<Longrightarrow> j \<le> a \<Longrightarrow> 0 < b \<Longrightarrow> j \<le> a div b * b"
  by (metis div_le_mono dvd_div_mult_self mult_le_mono1)

lemma aligned_ge: "(b :: nat) dvd j \<Longrightarrow> 0 < j \<Longrightarrow> b \<le> j"
  by (rule dvd_imp_le)

text \<open>Two aligned sequences that start alike start with the same page.\<close>

lemma same_first_page:
  assumes "page dvd m" "0 < m" "take m xs = take m ys"
  shows "key_fn page xs = key_fn page ys"
proof -
  have "page \<le> m" using assms(1,2) by (rule dvd_imp_le)
  then have "take page (take m xs) = take page xs" "take page (take m ys) = take page ys" by (simp_all add: min_absorb1)
  then show ?thesis using assms(3) by (simp add: key_fn_def)
qed

lemma take_append_prefix: "take (length (a @ b)) xs = a @ b \<Longrightarrow> take (length a) xs = a"
proof -
  assume h: "take (length (a @ b)) xs = a @ b"
  have "take (length a) (take (length (a @ b)) xs) = a" unfolding h by simp
  then show ?thesis by simp
qed

lemma below_first:
  assumes "rwf t" "live t i" "below t i zs ws" "zs \<noteq> []" "take (length zs) xs = zs"
  obtains c where "map_of (rn_children (rt_node t i)) (key_fn (rt_page t) xs) = Some c"
    "(\<exists>m \<le> length (rn_key (rt_node t c)). rt_page t dvd m \<and> zs = take m (rn_key (rt_node t c)) \<and> 0 < m)
     \<or> (\<exists>zs' ws'. zs = rn_key (rt_node t c) @ zs' \<and> below t c zs' ws')"
  using assms(3)
proof cases
  case below_nil
  then show thesis using assms(4) by simp
next
  case (below_part k c m)
  have l: "linked t i k c" using rwfD(4) [OF assms(1,2) below_part(3)] .
  have m: "0 < m" "length zs = m" using below_part assms(4) by (auto simp: min_absorb2)
  have "key_fn (rt_page t) (rn_key (rt_node t c)) = key_fn (rt_page t) xs"
    by (rule same_first_page [OF below_part(5) m(1)]) (use below_part assms(5) m in simp)
  then show thesis using that [of c] below_part m l by (auto simp: linked_def)
next
  case (below_child k c zs' ws')
  have l: "linked t i k c" using rwfD(4) [OF assms(1,2) below_child(3)] .
  let ?key = "rn_key (rt_node t c)"
  have "take (length ?key) ?key = take (length ?key) xs"
    using take_append_prefix [of ?key zs' xs] assms(5) below_child(1) by simp
  then have "key_fn (rt_page t) ?key = key_fn (rt_page t) xs"
    using l by (intro same_first_page [of "rt_page t" "length ?key"]) (auto simp: linked_def)
  then show thesis using that [of c] below_child l by (auto simp: linked_def)
qed

lemma below_same_shape: "below t i zs ws \<Longrightarrow> same_shape t t' \<Longrightarrow> below t' i zs ws"
proof (induction rule: below.induct)
  case (below_part i k c m)
  then show ?case using below.below_part [of t' i k c m] by (simp add: same_shape_def)
next
  case (below_child i k c zs ws)
  then show ?case using below.below_child [of t' i k c zs ws] by (simp add: same_shape_def)
qed (rule below.below_nil)

text \<open>What a step of the cache may change: nothing that is cached, no path of an old node, no page.\<close>

lemma update_nonempty: "AList.update k v xs \<noteq> []"
  by (metis update_conv' fun_upd_same map_of.simps(1) option.distinct(1))

text \<open>State snapshots stay where they are: nodes keep theirs, new nodes have none, and a leaf was a leaf
  before or is one of the new nodes \<open>N\<close>.\<close>

definition keeps_marks :: "nat set \<Rightarrow> rtree \<Rightarrow> rtree \<Rightarrow> bool" where
  "keeps_marks N t t' \<longleftrightarrow> rt_next t \<le> rt_next t'
     \<and> (\<forall>j < rt_next t. (live t' j \<longrightarrow> live t j) \<and> rn_mamba (rt_node t' j) = rn_mamba (rt_node t j)
         \<and> rn_mamba_ref (rt_node t' j) = rn_mamba_ref (rt_node t j) \<and> (live t' j \<longrightarrow> is_leaf t' j \<longrightarrow> is_leaf t j))
     \<and> (\<forall>j. rt_next t \<le> j \<longrightarrow> live t' j \<longrightarrow> rn_mamba (rt_node t' j) = None \<and> rn_mamba_ref (rt_node t' j) = 0
         \<and> (is_leaf t' j \<longrightarrow> j \<in> N))"

lemma keeps_marks_same:
  assumes "rwf t" "live t' = live t" "rt_next t' = rt_next t"
    and "\<And>j. rn_mamba (rt_node t' j) = rn_mamba (rt_node t j) \<and> rn_mamba_ref (rt_node t' j) = rn_mamba_ref (rt_node t j)"
    and "\<And>j. is_leaf t' j = is_leaf t j"
  shows "keeps_marks N t t'"
  using assms(3-5) rwfD(3) [OF assms(1)] unfolding keeps_marks_def assms(2) by (metis leD order_refl)

lemma keeps_marks_refl: "rwf t \<Longrightarrow> keeps_marks N t t"
  by (rule keeps_marks_same) simp_all

lemma keeps_marks_mono: "keeps_marks N t t' \<Longrightarrow> N \<subseteq> N' \<Longrightarrow> keeps_marks N' t t'"
  unfolding keeps_marks_def by blast

lemma keeps_marks_trans:
  assumes "keeps_marks N t t'" "keeps_marks N t' t''"
  shows "keeps_marks N t t''"
  unfolding keeps_marks_def
proof (intro conjI allI impI)
  note a = assms(1) [unfolded keeps_marks_def] and b = assms(2) [unfolded keeps_marks_def]
  show "rt_next t \<le> rt_next t''" using a b by linarith
  fix j
  show "rn_mamba (rt_node t'' j) = rn_mamba (rt_node t j)" "rn_mamba_ref (rt_node t'' j) = rn_mamba_ref (rt_node t j)"
    if "j < rt_next t" using that a b by (metis order_less_le_trans)+
  show "live t j" if "j < rt_next t" "live t'' j" using that a b by (metis order_less_le_trans)
  show "is_leaf t j" if "j < rt_next t" "live t'' j" "is_leaf t'' j" using that a b by (metis order_less_le_trans)
  show "rn_mamba (rt_node t'' j) = None" "rn_mamba_ref (rt_node t'' j) = 0" if "rt_next t \<le> j" "live t'' j"
    using that a b by (metis not_le)+
  show "j \<in> N" if "rt_next t \<le> j" "live t'' j" "is_leaf t'' j" using that a b by (metis not_le)
qed

definition preserves :: "rtree \<Rightarrow> rtree \<Rightarrow> bool" where
  "preserves t t' \<longleftrightarrow> rt_page t' = rt_page t \<and> (\<forall>ys us. holds t' ys us = holds t ys us)
     \<and> (\<forall>i ys us. spells t i ys us \<longrightarrow> spells t' i ys us) \<and> tree_pages t' = tree_pages t
     \<and> rt_evictable t' = rt_evictable t \<and> rt_protected t' = rt_protected t \<and> keeps_marks {} t t'"

lemma preserves_refl: "rwf t \<Longrightarrow> preserves t t"
  by (simp add: preserves_def keeps_marks_refl)

lemma preserves_trans: "preserves t t' \<Longrightarrow> preserves t' t'' \<Longrightarrow> preserves t t''"
  unfolding preserves_def using keeps_marks_trans by auto

lemma preserves_touch: "rwf t \<Longrightarrow> preserves t (touch tic i t)"
  using same_shape_holds [OF same_shape_touch] same_shape_at [OF same_shape_touch]
    same_shape_pages [OF same_shape_touch]
    keeps_marks_same [OF _ same_shape_live [OF same_shape_touch [of t tic i]]]
  by (simp add: preserves_def) (simp add: touch_def update_node_def is_leaf_def)

lemma split_marks:
  assumes S: "split_node t i p n pos k t'"
  shows "keeps_marks {} t t'"
proof -
  have old: "rn_mamba (rt_node t' j) = rn_mamba (rt_node t j) \<and> rn_mamba_ref (rt_node t' j) = rn_mamba_ref (rt_node t j)
      \<and> (is_leaf t' j \<longrightarrow> is_leaf t j)"
    if "j \<noteq> n" for j
    using S that split_old_nodes [OF S] update_nonempty unfolding split_node_def by (cases "j = i"; cases "j = p") (auto simp: is_leaf_def)
  have new: "rn_mamba (rt_node t' n) = None \<and> rn_mamba_ref (rt_node t' n) = 0 \<and> \<not> is_leaf t' n"
    using S unfolding split_node_def is_leaf_def by auto
  have lv: "live t' j \<longleftrightarrow> j = n \<or> live t j" for j using split_live_iff [OF S] by blast
  show ?thesis
    unfolding keeps_marks_def lv
    using old new split_nodeD(7,9) [OF S] rwfD(3) [OF split_nodeD(1) [OF S]] by (auto simp: not_less [symmetric])
qed

lemma preserves_split: "split_node t i p n pos k t' \<Longrightarrow> preserves t t'"
  by (simp add: preserves_def split_holds split_spells_old split_pages split_nodeD(8,10,11) split_marks)

lemma tree_walk_ok:
  assumes "rinv t L" "spells t node (take n xs) vs" "n \<le> length xs"
  shows "\<exists>t' node' n' vs'. tree_walk tic xs node n t = Some (ok (t', node', n')) \<and> rinv t' L \<and> preserves t t'
    \<and> n' \<le> length xs \<and> spells t' node' (take n' xs) vs'
    \<and> (\<forall>zs ws. below t node zs ws \<longrightarrow> take (length zs) (drop n xs) = zs \<longrightarrow> n + length zs \<le> n')"
  using assms
proof (induction "length xs - n" arbitrary: t node n vs rule: less_induct)
  case less
  note wf = rinvD(1) [OF less.prems(1)] and lv = at_live [OF less.prems(2)]
  show ?case
  proof (cases "n < length xs")
    case False
    then show ?thesis using less.prems
      by (subst tree_walk.simps) (auto intro!: exI [of _ vs] preserves_refl [OF wf])
  next
    case True
    let ?rest = "drop n xs"
    show ?thesis
    proof (cases "map_of (rn_children (rt_node t node)) (key_fn (rt_page t) ?rest)")
      case None
      have "zs = []" if "below t node zs ws" "take (length zs) ?rest = zs" for zs ws
        using below_first [OF wf lv that(1) _ that(2)] None by fastforce
      then show ?thesis using less.prems True None
        by (subst tree_walk.simps) (auto intro!: exI [of _ vs] preserves_refl [OF wf])
    next
      case (Some c)
      let ?key = "rn_key (rt_node t c)"
      let ?ml = "match_len ?key ?rest"
      define m where "m = ?ml div rt_page t * rt_page t"
      have l: "linked t node (key_fn (rt_page t) ?rest) c" using rwfD(4) [OF wf lv Some] .
      have pg: "0 < rt_page t" by (rule rwfD(1) [OF wf])
      have keylen: "rt_page t \<le> length ?key" using l aligned_ge [of "rt_page t" "length ?key"] by (auto simp: linked_def)
      have "length (key_fn (rt_page t) ?rest) = rt_page t" using l keylen by (simp add: linked_def key_fn_def)
      then have "rt_page t \<le> length ?rest" by (auto simp: key_fn_def)
      then have "rt_page t \<le> ?ml" using l keylen by (intro match_len_ge) (auto simp: linked_def key_fn_def)
      then have m: "rt_page t dvd m" "rt_page t \<le> m" "m \<le> ?ml"
        using aligned_le [of "rt_page t" "rt_page t" ?ml] pg by (auto simp: m_def)
      then have mk: "m \<le> length ?key" "m \<le> length ?rest" "0 < m"
        using match_len_le [of ?key ?rest] pg by linarith+
      have pre: "take m ?key = take m ?rest"
        using match_len_take [of ?key ?rest] m(3) by (metis min.absorb1 take_take)
      have sp: "spells t c (take n xs @ ?key) (vs @ rn_value (rt_node t c))"
        by (rule spells.at_child [OF less.prems(2) Some])
      have xs: "take (n + m) xs = take n xs @ take m ?key" by (simp add: take_add pre)
      have step: "tree_walk tic xs node n t = (if m \<noteq> length ?key
            then Some (rbind (split_at c m t) (\<lambda>(t, k). ok (touch tic k t, k, n + m)))
            else tree_walk tic xs c (n + m) (touch tic c t))"
        using True Some by (subst tree_walk.simps) (simp add: nat_align_down m_def [symmetric] node_length_def Let_def)
      have reach: "length zs \<le> m \<or> (m = length ?key \<and> (\<exists>zs' ws'. zs = ?key @ zs' \<and> below t c zs' ws'))"
        if b: "below t node zs ws" and pz: "take (length zs) ?rest = zs" for zs ws
      proof (cases "zs = []")
        case False
        obtain c' where c': "map_of (rn_children (rt_node t node)) (key_fn (rt_page t) ?rest) = Some c'"
            "(\<exists>j \<le> length (rn_key (rt_node t c')). rt_page t dvd j \<and> zs = take j (rn_key (rt_node t c')) \<and> 0 < j)
             \<or> (\<exists>zs' ws'. zs = rn_key (rt_node t c') @ zs' \<and> below t c' zs' ws')"
          by (rule below_first [OF wf lv b False pz])
        then have "c' = c" using Some by simp
        with c'(2) consider (part) j where "j \<le> length ?key" "rt_page t dvd j" "zs = take j ?key"
          | (full) zs' ws' where "zs = ?key @ zs'" "below t c zs' ws'" by blast
        then show ?thesis
        proof cases
          case part
          then have "take j ?key = take j ?rest" "j \<le> length ?rest" using pz
            by (metis length_take min.absorb2, metis length_take min.absorb2 min.cobounded1)
          then have "j \<le> ?ml" using part by (intro match_len_ge) auto
          then show ?thesis using part aligned_le [OF part(2) _ pg] by (simp add: m_def)
        next
          case full
          then have "take (length ?key) ?rest = ?key" using pz
            by (metis append_eq_conv_conj length_append min.absorb1 le_add1 take_take)
          moreover from this have "length ?key \<le> length ?rest" by (metis length_take min.cobounded1)
          ultimately have "length ?key \<le> ?ml" by (intro match_len_ge) auto
          then have "length ?key \<le> m" using l aligned_le [of "rt_page t" "length ?key" ?ml] pg
            by (auto simp: m_def linked_def)
          then show ?thesis using full mk by auto
        qed
      qed simp
      show ?thesis
      proof (cases "m = length ?key")
        case False
        then have ml: "m < length ?key" using mk by simp
        obtain t1 where t1: "split_at c m t = ok (t1, rt_next t)"
            and S: "split_node t c node (rt_next t) m (key_fn (rt_page t) ?rest) t1"
          using split_at_node [OF wf lv Some mk(3) ml m(1)] by blast
        have "spells t1 (rt_next t) (take (n + m) xs) (vs @ take m (rn_value (rt_node t c)))"
          unfolding xs by (rule split_spells_new [OF S less.prems(2) split_spells_old [OF S less.prems(2)]])
        then have "spells (touch tic (rt_next t) t1) (rt_next t) (take (n + m) xs) (vs @ take m (rn_value (rt_node t c)))"
          by (simp add: same_shape_at [OF same_shape_touch])
        moreover have "preserves t (touch tic (rt_next t) t1)"
          by (rule preserves_trans [OF preserves_split [OF S] preserves_touch [OF split_rwf [OF S]]])
        moreover have "rinv (touch tic (rt_next t) t1) L" using split_rinv [OF S less.prems(1)] by simp
        moreover have "n + m \<le> length xs" using mk(2) True by simp
        moreover have "n + length zs \<le> n + m" if "below t node zs ws" "take (length zs) ?rest = zs" for zs ws
          using reach [OF that] False by simp
        ultimately show ?thesis using step False t1 by auto
      next
        case full: True
        let ?t1 = "touch tic c t"
        have key_xs: "take (n + m) xs = take n xs @ ?key" unfolding xs using full by simp
        have "\<exists>t' node' n' vs'. tree_walk tic xs c (n + m) ?t1 = Some (ok (t', node', n')) \<and> rinv t' L \<and> preserves ?t1 t'
          \<and> n' \<le> length xs \<and> spells t' node' (take n' xs) vs'
          \<and> (\<forall>zs ws. below ?t1 c zs ws \<longrightarrow> take (length zs) (drop (n + m) xs) = zs \<longrightarrow> n + m + length zs \<le> n')"
        proof (rule less.hyps)
          show "length xs - (n + m) < length xs - n" using True mk(3) by simp
          show "rinv ?t1 L" using less.prems(1) by simp
          show "spells ?t1 c (take (n + m) xs) (vs @ rn_value (rt_node t c))"
            unfolding key_xs same_shape_at [OF same_shape_touch] by (rule sp)
          show "n + m \<le> length xs" using mk(2) True by simp
        qed
        then obtain t' node' n' vs' where r: "tree_walk tic xs c (n + m) ?t1 = Some (ok (t', node', n'))"
            "rinv t' L" "preserves ?t1 t'" "n' \<le> length xs" "spells t' node' (take n' xs) vs'"
          and deep: "\<And>zs ws. below ?t1 c zs ws \<Longrightarrow> take (length zs) (drop (n + m) xs) = zs \<Longrightarrow> n + m + length zs \<le> n'"
          by blast
        have "n + m \<le> n'" using deep [OF below_nil] by simp
        have "n + length zs \<le> n'" if b: "below t node zs ws" "take (length zs) ?rest = zs" for zs ws
          using reach [OF b]
        proof (elim disjE conjE exE)
          fix zs' ws' assume z: "zs = ?key @ zs'" "below t c zs' ws'"
          have "take (length zs') (drop (n + m) xs) = zs'"
          proof -
            have "take (length ?key) ?rest @ take (length zs') (drop (length ?key) ?rest) = ?key @ zs'"
              using b(2) unfolding z(1) by (simp add: take_add)
            moreover have "length (take (length ?key) ?rest) = length ?key" using mk(2) full by simp
            ultimately show ?thesis unfolding full by (simp add: add.commute)
          qed
          moreover have "below ?t1 c zs' ws'" using z(2) by (rule below_same_shape [OF _ same_shape_touch])
          ultimately show ?thesis using deep [of zs' ws'] z(1) full by simp
        qed (use \<open>n + m \<le> n'\<close> in simp)
        then show ?thesis using step full r preserves_trans [OF preserves_touch [OF wf] r(3)] by auto
      qed
    qed
  qed
qed

section \<open>Matching\<close>

lemma matched_values_ok:
  assumes "rwf t" "spells t i xs vs"
  shows "\<exists>vals. matched_values t i acc = Some (vals @ acc) \<and> concat vals = vs \<and> (vals = [] \<longleftrightarrow> xs = [])"
  using assms(2)
proof (induction "length xs" arbitrary: i xs vs acc rule: less_induct)
  case less
  from assms(1) less.prems show ?case
  proof (cases rule: at_cases)
    case at_top
    then show ?thesis using rwfD(2) [OF assms(1)] by (subst matched_values.simps) simp
  next
    case (at_below p k ys us)
    have "length ys < length xs" using at_below by (simp add: linked_def)
    from less.hyps [OF this at_below(3), of "rn_value (rt_node t i) # acc"]
    obtain vals where "matched_values t p (rn_value (rt_node t i) # acc) = Some (vals @ rn_value (rt_node t i) # acc)"
        "concat vals = us" by blast
    then have "matched_values t i acc = Some ((vals @ [rn_value (rt_node t i)]) @ acc)
        \<and> concat (vals @ [rn_value (rt_node t i)]) = vs"
      using at_below(2,7) by (subst matched_values.simps) simp
    moreover have "xs \<noteq> []" using \<open>length ys < length xs\<close> by auto
    ultimately show ?thesis by blast
  qed
qed

lemma get_matched_ok:
  assumes "rwf t" "spells t (hd_node h) xs vs" "xs \<noteq> []"
  shows "get_matched_indices t h = Some (ok vs)"
  using matched_values_ok [OF assms(1,2), of "[]"] assms(3) by (auto simp: get_matched_indices_def)

lemma holds_unique_walk:
  assumes "rinv t L"
  obtains t' node n vs where "tree_walk tic xs 0 0 t = Some (ok (t', node, n))" "rinv t' L" "preserves t t'"
    "n \<le> length xs" "spells t' node (take n xs) vs" "holds t (take n xs) vs"
    "\<And>ys us. holds t ys us \<Longrightarrow> take (length ys) xs = ys \<Longrightarrow> length ys \<le> n"
proof -
  have "spells t 0 (take 0 xs) []" by (simp add: spells.at_root)
  from tree_walk_ok [OF assms this, of tic]
  obtain t' node n vs where w: "tree_walk tic xs 0 0 t = Some (ok (t', node, n))" "rinv t' L" "preserves t t'"
      "n \<le> length xs" "spells t' node (take n xs) vs"
    and m0: "\<And>zs ws. below t 0 zs ws \<Longrightarrow> take (length zs) (drop 0 xs) = zs \<Longrightarrow> 0 + length zs \<le> n" by blast
  from m0 have m: "below t 0 zs ws \<Longrightarrow> take (length zs) xs = zs \<Longrightarrow> length zs \<le> n" for zs ws by simp
  have "holds t (take n xs) vs"
    using spells_holds [OF w(5) rinvD(1) [OF w(2)]] w(3) by (simp add: preserves_def)
  with w m holds_below [OF rinvD(1) [OF assms]] show thesis using that by blast
qed

lemma match_prefix_ok:
  assumes "rinv t L"
  obtains t' h vs where "match_prefix tic xs t = Some (ok (t', h))" "rinv t' L" "preserves t t'"
    "hd_cached_len h \<le> length xs" "spells t' (hd_node h) (take (hd_cached_len h) xs) vs"
    "holds t (take (hd_cached_len h) xs) vs"
    "\<And>ys us. holds t ys us \<Longrightarrow> take (length ys) xs = ys \<Longrightarrow> length ys \<le> hd_cached_len h"
proof -
  obtain t' node n vs where w: "tree_walk tic xs 0 0 t = Some (ok (t', node, n))" "rinv t' L" "preserves t t'"
      "n \<le> length xs" "spells t' node (take n xs) vs" "holds t (take n xs) vs"
      "\<And>ys us. holds t ys us \<Longrightarrow> take (length ys) xs = ys \<Longrightarrow> length ys \<le> n"
    using holds_unique_walk [OF assms] by blast
  then show thesis
    using that [of t' "\<lparr>hd_cached_len = n, hd_node = node\<rparr>" vs] by (simp add: match_prefix_def)
qed

section \<open>Adding a leaf\<close>

definition add_node :: "rtree \<Rightarrow> nat \<Rightarrow> nat \<Rightarrow> int list \<Rightarrow> int list \<Rightarrow> rtree \<Rightarrow> bool" where
  "add_node t p n key val t' \<longleftrightarrow> rwf t \<and> live t p \<and> n = rt_next t
     \<and> map_of (rn_children (rt_node t p)) (key_fn (rt_page t) key) = None
     \<and> key \<noteq> [] \<and> length val = length key \<and> rt_page t dvd length key \<and> paged (rt_page t) val
     \<and> rt_page t' = rt_page t \<and> rt_next t' = rt_next t + 1
     \<and> (\<forall>j. j \<noteq> n \<longrightarrow> j \<noteq> p \<longrightarrow> rt_node t' j = rt_node t j)
     \<and> rt_node t' p = (rt_node t p)\<lparr>rn_children := AList.update (key_fn (rt_page t) key) n (rn_children (rt_node t p))\<rparr>
     \<and> rn_children (rt_node t' n) = [] \<and> rn_parent (rt_node t' n) = Some p \<and> rn_key (rt_node t' n) = key
     \<and> rn_value (rt_node t' n) = val \<and> rn_ref (rt_node t' n) = 0
     \<and> rn_mamba (rt_node t' n) = None \<and> rn_mamba_ref (rt_node t' n) = 0
     \<and> rt_evictable t' = rt_evictable t + int (length key) \<and> rt_protected t' = rt_protected t"

lemma add_nodeD:
  assumes "add_node t p n key val t'"
  shows "rwf t" "live t p" "n = rt_next t" "map_of (rn_children (rt_node t p)) (key_fn (rt_page t) key) = None"
    "key \<noteq> []" "length val = length key" "rt_page t dvd length key" "rt_page t' = rt_page t" "rt_next t' = rt_next t + 1"
    "rt_evictable t' = rt_evictable t + int (length key)" "rt_protected t' = rt_protected t"
    "rn_children (rt_node t' n) = []" "rn_parent (rt_node t' n) = Some p" "rn_key (rt_node t' n) = key"
    "rn_value (rt_node t' n) = val" "rn_ref (rt_node t' n) = 0"
    "rt_node t' p = (rt_node t p)\<lparr>rn_children := AList.update (key_fn (rt_page t) key) n (rn_children (rt_node t p))\<rparr>"
    "j \<noteq> n \<Longrightarrow> j \<noteq> p \<Longrightarrow> rt_node t' j = rt_node t j" "paged (rt_page t) val"
  using assms unfolding add_node_def by blast+

lemma add_fresh:
  assumes A: "add_node t p n key val t'"
  shows "live t j \<Longrightarrow> j \<noteq> n" "p \<noteq> n" "n \<noteq> 0"
  using rwfD(3) [OF add_nodeD(1) [OF A]] add_nodeD(2,3) [OF A] live_root by blast+

lemma add_old:
  assumes A: "add_node t p n key val t'" and "j \<noteq> n"
  shows "rn_key (rt_node t' j) = rn_key (rt_node t j)" "rn_value (rt_node t' j) = rn_value (rt_node t j)"
    "rn_ref (rt_node t' j) = rn_ref (rt_node t j)" "rn_parent (rt_node t' j) = rn_parent (rt_node t j)"
  using add_nodeD(17) [OF A] add_nodeD(18) [OF A assms(2)] by (cases "j = p"; simp)+

lemma add_children:
  assumes A: "add_node t p n key val t'"
  shows "map_of (rn_children (rt_node t' q)) k = (if q = p \<and> k = key_fn (rt_page t) key then Some n
      else if q = n then None else map_of (rn_children (rt_node t q)) k)"
  using add_nodeD(12,17) [OF A] add_nodeD(18) [OF A, of q] add_fresh(2) [OF A]
  by (cases "q = p"; cases "q = n") (simp_all add: update_conv')

lemma add_spells:
  assumes A: "add_node t p n key val t'"
  shows "spells t j xs vs \<Longrightarrow> spells t' j xs vs"
proof (induction rule: spells.induct)
  case (at_child q xs vs k c)
  have c: "c \<noteq> n" and q: "q \<noteq> n"
    using add_fresh(1) [OF A] live_child at_live [OF at_child.hyps(1)] at_child.hyps(2) by blast+
  have "map_of (rn_children (rt_node t' q)) k = Some c"
    using at_child.hyps(2) add_nodeD(4) [OF A] q by (auto simp: add_children [OF A])
  then have "spells t' c (xs @ rn_key (rt_node t' c)) (vs @ rn_value (rt_node t' c))"
    by (rule spells.at_child [OF at_child.IH])
  then show ?case by (simp add: add_old [OF A c])
qed (rule spells.at_root)

lemma add_spells_new:
  assumes A: "add_node t p n key val t'" and "spells t p xs vs"
  shows "spells t' n (xs @ key) (vs @ val)"
  using spells.at_child [OF add_spells [OF A assms(2)], of "key_fn (rt_page t) key" n] add_nodeD(14,15) [OF A]
  by (simp add: add_children [OF A])

lemma add_spells_back:
  assumes A: "add_node t p n key val t'"
  shows "spells t' j xs vs \<Longrightarrow> j \<noteq> n \<Longrightarrow> spells t j xs vs"
proof (induction rule: spells.induct)
  case (at_child q xs vs k c)
  have q: "q \<noteq> n" using at_child.hyps(2) add_nodeD(12) [OF A] by auto
  have "map_of (rn_children (rt_node t q)) k = Some c"
    using at_child.hyps(2) at_child.prems q by (auto simp: add_children [OF A] split: if_splits)
  from spells.at_child [OF at_child.IH [OF q] this] show ?case
    by (simp add: add_old [OF A at_child.prems])
qed (rule spells.at_root)

lemma add_live:
  assumes A: "add_node t p n key val t'"
  shows "live t' j \<longleftrightarrow> j = n \<or> live t j" "live_nodes t' = insert n (live_nodes t)" "n \<notin> live_nodes t"
proof -
  obtain xs vs where "spells t p xs vs" using add_nodeD(2) [OF A] by (auto simp: live_def)
  then have "live t' n" using add_spells_new [OF A] at_live by blast
  then have l: "live t' j \<longleftrightarrow> j = n \<or> live t j" for j
    using add_spells [OF A] add_spells_back [OF A] unfolding live_def by blast
  then show "live t' j \<longleftrightarrow> j = n \<or> live t j" .
  show "live_nodes t' = insert n (live_nodes t)" "n \<notin> live_nodes t"
    using l add_fresh(1,3) [OF A] by (auto simp: live_nodes_def)
qed

lemma add_up:
  assumes A: "add_node t p n key val t'" and "h \<noteq> n"
  shows "up t' h j = up t h j" "\<not> up t' h n"
proof -
  have par: "rn_parent (rt_node t' x) = rn_parent (rt_node t x)" if "x \<noteq> n" for x
    using add_old(4) [OF A that] .
  have below_next: "rn_parent (rt_node t x) \<noteq> Some n" for x
    using rwfD(6) [OF add_nodeD(1) [OF A]] add_nodeD(3) [OF A] by (metis less_irrefl)
  have fw: "up t h j \<Longrightarrow> j \<noteq> n \<and> up t' h j" for j
    unfolding up_def
  proof (induction rule: rtranclp_induct)
    case (step y z)
    then show ?case using par [of y] below_next [of y] by (auto intro: rtranclp.rtrancl_into_rtrancl)
  qed (use assms(2) in simp)
  have bw: "up t' h j \<Longrightarrow> up t h j \<and> j \<noteq> n" for j
    unfolding up_def
  proof (induction rule: rtranclp_induct)
    case (step y z)
    then show ?case using par [of y] below_next [of y] by (auto intro: rtranclp.rtrancl_into_rtrancl)
  qed (use assms(2) in simp)
  show "up t' h j = up t h j" "\<not> up t' h n" using fw bw by blast+
qed

lemma add_rwf:
  assumes A: "add_node t p n key val t'"
  shows "rwf t'"
  unfolding rwf_def
proof (intro conjI allI impI)
  note d = add_nodeD [OF A] and w = rwfD [OF add_nodeD(1) [OF A]] and lv = add_live(1) [OF A]
  show "0 < rt_page t'" using d(8) w(1) by simp
  show "rn_parent (rt_node t' 0) = None" using add_old(4) [OF A, of 0] add_fresh(3) [OF A] w(2) by simp
  show "j < rt_next t'" if "live t' j" for j using that w(3) [of j] d(3,9) by (auto simp: lv)
  show "linked t' q k c" if q: "live t' q" and m: "map_of (rn_children (rt_node t' q)) k = Some c" for q k c
  proof (cases "c = n")
    case True
    have "q = p \<and> k = key_fn (rt_page t) key"
    proof (rule ccontr)
      assume "\<not> ?thesis"
      then have "live t q" "map_of (rn_children (rt_node t q)) k = Some n"
        using q m True by (auto simp: lv add_children [OF A] split: if_splits)
      then show False using add_fresh(1) [OF A live_child] by blast
    qed
    then show ?thesis using True d by (simp add: linked_def)
  next
    case False
    then have "live t q" "map_of (rn_children (rt_node t q)) k = Some c"
      using q m by (auto simp: lv add_children [OF A] split: if_splits)
    then show ?thesis using w(4) d(8) add_old [OF A False] by (simp add: linked_def)
  qed
  show "distinct (map fst (rn_children (rt_node t' q)))" if "live t' q" for q
    using that w(5) [of q] d(12,17) d(18) [of q] by (cases "q = n"; cases "q = p") (auto simp: lv distinct_update)
  show "x < rt_next t'" "q < rt_next t'" if "rn_parent (rt_node t' x) = Some q" for x q
  proof -
    have "x < rt_next t' \<and> q < rt_next t'"
      using that w(6) [of x q] w(3) [OF d(2)] d(3,9,13) add_old(4) [OF A, of x] by (cases "x = n") auto
    then show "x < rt_next t'" "q < rt_next t'" by auto
  qed
qed

lemma add_total:
  fixes f :: "rnode \<Rightarrow> 'a :: comm_monoid_add"
  assumes A: "add_node t p n key val t'" and "\<And>j. j \<noteq> n \<Longrightarrow> f (rt_node t' j) = f (rt_node t j)"
  shows "(\<Sum>j \<in> live_nodes t'. f (rt_node t' j)) = f (rt_node t' n) + (\<Sum>j \<in> live_nodes t. f (rt_node t j))"
proof -
  have "(\<Sum>j \<in> live_nodes t. f (rt_node t' j)) = (\<Sum>j \<in> live_nodes t. f (rt_node t j))"
    by (rule sum.cong [OF refl assms(2)]) (use add_live(3) [OF A] in auto)
  then show ?thesis unfolding add_live(2) [OF A] using add_live(3) [OF A] finite_live [OF add_nodeD(1) [OF A]] by simp
qed

lemma add_rinv:
  assumes A: "add_node t p n key val t'" and inv: "rinv t L"
  shows "rinv t' L" "tree_pages t' = tree_pages t + mset val"
proof -
  note d = add_nodeD [OF A] and old = add_old [OF A]
  have w: "weight (\<lambda>m. P (rn_ref m)) t' = (if P 0 then int (length key) else 0) + weight (\<lambda>m. P (rn_ref m)) t" for P
    unfolding weight_def node_length_def
    using add_total [OF A, of "\<lambda>m. if P (rn_ref m) then int (length (rn_key m)) else 0"] old d by simp
  have "sizes_ok t'"
  proof -
    have "0 \<le> rn_ref (rt_node t' j)" if "live t' j" for j
      using rinvD(2) [OF inv] that d(16) old(3) [of j] add_live(1) [OF A, of j]
      by (cases "j = n") (simp_all add: sizes_ok_def)
    then show ?thesis
      using rinvD(2) [OF inv] d(10,11) w [of "\<lambda>x. x = 0"] w [of "\<lambda>x. x \<noteq> 0"] by (simp add: sizes_ok_def)
  qed
  moreover have "refs_ok t' L"
  proof -
    have lv: "live t h" "h \<noteq> n" if "h \<in> set L" for h
      using rinvD(3) [OF inv] that add_fresh(1) [OF A] by (auto simp: refs_ok_def)
    have "filter (\<lambda>h. up t' h j) L = filter (\<lambda>h. up t h j) L" for j
      by (rule filter_cong [OF refl]) (use add_up(1) [OF A] lv in blast)
    moreover have "filter (\<lambda>h. up t' h n) L = []"
      using add_up(2) [OF A] lv by (auto simp: filter_empty_conv)
    moreover have "rn_ref (rt_node t' i) = int (length (filter (\<lambda>h. up t h i) L))" if "i \<in> live_nodes t" for i
    proof -
      have "i \<noteq> n" using that add_live(3) [OF A] by auto
      then show ?thesis using rinvD(3) [OF inv] that old(3) by (simp add: refs_ok_def)
    qed
    moreover have "0 < rn_ref (rt_node t' 0)"
      using rinvD(3) [OF inv] old(3) [of 0] add_fresh(3) [OF A] by (simp add: refs_ok_def)
    ultimately show ?thesis
      using lv(1) d(16) unfolding refs_ok_def add_live(2) [OF A] by (simp add: add_live(1) [OF A])
  qed
  ultimately show "rinv t' L" using add_rwf [OF A] by (simp add: rinv_def)
  show "tree_pages t' = tree_pages t + mset val"
    unfolding tree_pages_def
    using add_total [OF A, of "\<lambda>m. mset (rn_value m)"] old d(15) by (simp add: add.commute)
qed

lemma add_marks:
  assumes A: "add_node t p n key val t'"
  shows "keeps_marks {n} t t'"
proof -
  note d = add_nodeD [OF A]
  have old: "rn_mamba (rt_node t' j) = rn_mamba (rt_node t j) \<and> rn_mamba_ref (rt_node t' j) = rn_mamba_ref (rt_node t j)
      \<and> (is_leaf t' j \<longrightarrow> is_leaf t j)"
    if "j \<noteq> n" for j
    using that d(17) d(18) [of j] update_nonempty by (cases "j = p") (auto simp: is_leaf_def)
  have new: "rn_mamba (rt_node t' n) = None \<and> rn_mamba_ref (rt_node t' n) = 0"
    using A unfolding add_node_def by blast
  show ?thesis
    unfolding keeps_marks_def add_live(1) [OF A]
    using old new d(3,9) rwfD(3) [OF d(1)] by (auto simp: not_less [symmetric])
qed

section \<open>Inserting\<close>

lemma no_child_beyond:
  assumes "rwf t" "spells t i (take n xs) vs" "n < length xs" "rt_page t dvd length xs"
    and "\<And>ys us. holds t ys us \<Longrightarrow> take (length ys) xs = ys \<Longrightarrow> length ys \<le> n"
  shows "map_of (rn_children (rt_node t i)) (key_fn (rt_page t) (drop n xs)) = None"
proof (rule ccontr)
  assume "\<not> ?thesis"
  then obtain c where c: "map_of (rn_children (rt_node t i)) (key_fn (rt_page t) (drop n xs)) = Some c" by auto
  let ?key = "rn_key (rt_node t c)" and ?page = "rt_page t"
  have l: "linked t i (key_fn ?page (drop n xs)) c" using rwfD(4) [OF assms(1) at_live [OF assms(2)] c] .
  have len: "?page dvd length (take n xs)" using at_lengths [OF assms(2,1)] by simp
  have pg: "0 < ?page" "?page \<le> length ?key"
    using rwfD(1) [OF assms(1)] l aligned_ge [of ?page "length ?key"] by (auto simp: linked_def)
  have "?page dvd length (drop n xs)" using len assms(3,4) by (simp add: dvd_diff_nat)
  then have rest: "?page \<le> length (drop n xs)" using aligned_ge assms(3) by simp
  have sp: "spells t c (take n xs @ ?key) (vs @ rn_value (rt_node t c))" by (rule spells.at_child [OF assms(2) c])
  let ?ys = "take (n + ?page) xs"
  have ys: "?ys = take n xs @ take ?page ?key" using l pg by (simp add: take_add linked_def key_fn_def min_absorb2)
  have lys: "length ?ys = n + ?page" using rest assms(3) by simp
  have "take (length ?ys) (take n xs @ ?key) = ?ys" unfolding lys ys using assms(3) pg(2) by (simp add: min_absorb2)
  moreover have "length ?ys \<le> length (take n xs @ ?key)" unfolding lys using pg assms(3) by simp
  moreover have "?page dvd length ?ys" using lys len assms(3) by simp
  ultimately have "holds t ?ys (take (length ?ys) (vs @ rn_value (rt_node t c)))"
    using sp unfolding holds_def by blast
  from assms(5) [OF this] show False using lys pg(1) by simp
qed

lemma insert_prefix_ok:
  fixes xs idx :: "int list"
  assumes inv: "rinv t L" and len: "length xs \<le> length idx"
    and pgd: "paged (rt_page t) (take (length xs div rt_page t * rt_page t) idx)"
  defines "A \<equiv> length xs div rt_page t * rt_page t"
  obtains t' n h vs where "insert_prefix tic tic' xs idx t = Some (ok (t', n, h))" "rinv t' L"
    "hd_cached_len h = A" "n \<le> A" "holds t (take n xs) vs"
    "\<And>ys us. holds t ys us \<Longrightarrow> take (length ys) (take A xs) = ys \<Longrightarrow> length ys \<le> n"
    "spells t' (hd_node h) (take A xs) (vs @ take (A - n) (drop n idx))"
    "\<And>i ys us. spells t i ys us \<Longrightarrow> spells t' i ys us" "rt_page t' = rt_page t"
    "tree_pages t' = tree_pages t + mset (take (A - n) (drop n idx))"
    "rt_evictable t' = rt_evictable t + int (A - n)" "rt_protected t' = rt_protected t" "keeps_marks {hd_node h} t t'"
proof -
  let ?xs = "take A xs" and ?idx = "take A idx"
  have "A \<le> length xs" unfolding A_def by (rule div_times_less_eq_dividend)
  then have AL: "length ?xs = A" "length ?idx = A" using len by simp_all
  obtain t1 node n vs where w: "tree_walk tic ?xs 0 0 t = Some (ok (t1, node, n))" "rinv t1 L" "preserves t t1"
      "n \<le> length ?xs" "spells t1 node (take n ?xs) vs" "holds t (take n ?xs) vs"
    and m: "\<And>ys us. holds t ys us \<Longrightarrow> take (length ys) ?xs = ys \<Longrightarrow> length ys \<le> n"
    using holds_unique_walk [OF inv] by blast
  note pr = w(3) [unfolded preserves_def]
  have nA: "n \<le> A" using w(4) AL by simp
  have tn: "take n ?xs = take n xs" using nA by (simp add: min_absorb1)
  show thesis
  proof (cases "n = A")
    case True
    have res: "insert_prefix tic tic' xs idx t = Some (ok (t1, n, \<lparr>hd_cached_len = A, hd_node = node\<rparr>))"
      using w(1) True AL by (simp add: insert_prefix_def nat_align_down A_def [symmetric] Let_def)
    show thesis
    proof (rule that [OF res w(2)])
      show "hd_cached_len \<lparr>hd_cached_len = A, hd_node = node\<rparr> = A" by simp
      show "n \<le> A" by (rule nA)
      show "holds t (take n xs) vs" using w(6) by (simp only: tn)
      show "length ys \<le> n" if "holds t ys us" "take (length ys) ?xs = ys" for ys us using m that .
      show "spells t1 (hd_node \<lparr>hd_cached_len = A, hd_node = node\<rparr>) ?xs (vs @ take (A - n) (drop n idx))"
        using w(5) True by simp
      show "spells t1 i ys us" if "spells t i ys us" for i ys us using pr that by blast
      show "rt_page t1 = rt_page t" "tree_pages t1 = tree_pages t + mset (take (A - n) (drop n idx))"
          "rt_evictable t1 = rt_evictable t + int (A - n)" "rt_protected t1 = rt_protected t"
        using pr True by simp_all
      show "keeps_marks {hd_node \<lparr>hd_cached_len = A, hd_node = node\<rparr>} t t1" using pr keeps_marks_mono by blast
    qed
  next
    case False
    let ?key = "drop n ?xs" and ?val = "drop n ?idx"
    define t2 where "t2 = t1\<lparr>rt_node := (rt_node t1)(rt_next t1 := (new_node tic')\<lparr>rn_key := ?key, rn_value := ?val\<rparr>),
        rt_next := rt_next t1 + 1\<rparr>"
    define t3 where "t3 = set_parent (rt_next t1) node t2"
    define t' where "t' = t3\<lparr>rt_evictable := rt_evictable t3 + int (node_length t3 (rt_next t1))\<rparr>"
    have wf1: "rwf t1" by (rule rinvD(1) [OF w(2)])
    have lv: "live t1 node" by (rule at_live [OF w(5)])
    then have ne: "node \<noteq> rt_next t1" using rwfD(3) [OF wf1] by blast
    have pg: "rt_page t1 dvd A" using pr by (simp add: A_def)
    have dvd_n: "rt_page t1 dvd n" using at_lengths [OF w(5) wf1] nA AL by simp
    have none: "map_of (rn_children (rt_node t1 node)) (key_fn (rt_page t1) ?key) = None"
      by (rule no_child_beyond [OF wf1 w(5)]) (use nA False AL pg m pr in auto)
    have A: "add_node t1 node (rt_next t1) ?key ?val t'"
      unfolding add_node_def
      using wf1 lv none nA False AL pg dvd_n ne paged_drop [OF pgd] pr
      by (auto simp: t'_def t3_def t2_def set_parent_def node_length_def new_node_def dvd_diff_nat A_def [symmetric])
    have res: "insert_prefix tic tic' xs idx t = Some (ok (t', n, \<lparr>hd_cached_len = A, hd_node = rt_next t1\<rparr>))"
      using w(1) False AL nA
      by (simp add: insert_prefix_def nat_align_down A_def [symmetric] Let_def alloc_node_def t'_def t3_def t2_def)
    have val: "?val = take (A - n) (drop n idx)" by (simp add: drop_take)
    have sp: "spells t' (rt_next t1) ?xs (vs @ ?val)"
      using add_spells_new [OF A w(5)] unfolding append_take_drop_id .
    show thesis
    proof (rule that [OF res add_rinv(1) [OF A w(2)]])
      show "hd_cached_len \<lparr>hd_cached_len = A, hd_node = rt_next t1\<rparr> = A" by simp
      show "n \<le> A" by (rule nA)
      show "holds t (take n xs) vs" using w(6) by (simp only: tn)
      show "length ys \<le> n" if "holds t ys us" "take (length ys) ?xs = ys" for ys us using m that .
      show "spells t' (hd_node \<lparr>hd_cached_len = A, hd_node = rt_next t1\<rparr>) ?xs (vs @ take (A - n) (drop n idx))"
        using sp by (simp only: val handle.select_convs)
      show "spells t' i ys us" if "spells t i ys us" for i ys us using pr that add_spells [OF A] by blast
      show "rt_page t' = rt_page t" using add_nodeD(8) [OF A] pr by simp
      show "tree_pages t' = tree_pages t + mset (take (A - n) (drop n idx))"
        using add_rinv(2) [OF A w(2)] pr by (simp only: val)
      show "rt_evictable t' = rt_evictable t + int (A - n)" "rt_protected t' = rt_protected t"
        using add_nodeD(10,11) [OF A] pr AL by simp_all
      show "keeps_marks {hd_node \<lparr>hd_cached_len = A, hd_node = rt_next t1\<rparr>} t t'"
        using keeps_marks_trans [OF keeps_marks_mono [of "{}"] add_marks [OF A]] pr by simp
    qed
  qed
qed

end
