(* ===== verification/RadixEvict.thy ===== *)
theory RadixEvict
  imports RadixOps
begin

text \<open>
  Eviction from the radix cache: the leaves are collected, unlocked leaves are unlinked one by one
  with their parents following when they become leaves. It always finds enough leaves when the
  request is within \<open>evictable_size\<close>, frees at least the requested size, touches no locked path
  and hands back exactly the pages the tree loses.
\<close>

section \<open>Unlinking a leaf\<close>

definition free_leaf :: "rtree \<Rightarrow> nat \<Rightarrow> bool" where
  "free_leaf t i \<longleftrightarrow> i \<in> live_nodes t \<and> is_leaf t i \<and> rn_ref (rt_node t i) = 0"

definition unlinks :: "rtree \<Rightarrow> nat \<Rightarrow> nat \<Rightarrow> rtree \<Rightarrow> bool" where
  "unlinks t p i t' \<longleftrightarrow> rwf t \<and> free_leaf t i \<and> rn_parent (rt_node t i) = Some p \<and> t' = unlink p i t"

lemma unlink_sel:
  assumes U: "unlinks t p i t'"
  shows "rt_page t' = rt_page t" "rt_next t' = rt_next t" "rt_protected t' = rt_protected t"
    "rt_evictable t' = rt_evictable t - int (node_length t i)"
    "rn_key (rt_node t' j) = rn_key (rt_node t j)" "rn_value (rt_node t' j) = rn_value (rt_node t j)"
    "rn_ref (rt_node t' j) = rn_ref (rt_node t j)" "rn_parent (rt_node t' j) = rn_parent (rt_node t j)"
    "rn_children (rt_node t' j) = (if j = p then AList.delete (key_fn (rt_page t) (rn_key (rt_node t i)))
       (rn_children (rt_node t j)) else rn_children (rt_node t j))"
  using assms by (auto simp: unlinks_def unlink_def node_length_def)

lemma unlink_link:
  assumes U: "unlinks t p i t'"
  shows "live t p" "i \<noteq> 0" "live t i" "map_of (rn_children (rt_node t p)) (key_fn (rt_page t) (rn_key (rt_node t i))) = Some i"
    "p \<noteq> i"
proof -
  have w: "rwf t" "live t i" "rn_parent (rt_node t i) = Some p"
    using U by (auto simp: unlinks_def free_leaf_def live_nodes_def)
  show "live t p" "i \<noteq> 0" "live t i" "map_of (rn_children (rt_node t p)) (key_fn (rt_page t) (rn_key (rt_node t i))) = Some i"
    using parent_live [OF w] w(2) by (auto simp: linked_def)
  show "p \<noteq> i" using up_acyclic [OF w] by auto
qed

lemma unlink_children:
  assumes U: "unlinks t p i t'" and "live t q"
  shows "map_of (rn_children (rt_node t' q)) k = Some c \<longleftrightarrow> map_of (rn_children (rt_node t q)) k = Some c \<and> c \<noteq> i"
proof -
  have w: "rwf t" using U by (simp add: unlinks_def)
  let ?K = "key_fn (rt_page t) (rn_key (rt_node t i))"
  have uniq: "q = p \<and> k = ?K" if "map_of (rn_children (rt_node t q)) k = Some i"
    using rwfD(4) [OF w assms(2) that] U by (simp add: unlinks_def linked_def)
  show ?thesis
  proof (cases "q = p \<and> k = ?K")
    case True
    then show ?thesis using unlink_link(4) [OF U] by (simp add: unlink_sel(9) [OF U] delete_conv')
  next
    case False
    then have "map_of (rn_children (rt_node t' q)) k = map_of (rn_children (rt_node t q)) k"
      by (cases "q = p") (simp_all add: unlink_sel(9) [OF U] delete_conv')
    then show ?thesis using False uniq by metis
  qed
qed

lemma unlink_spells:
  assumes U: "unlinks t p i t'"
  shows "spells t' j xs vs \<longleftrightarrow> spells t j xs vs \<and> j \<noteq> i"
proof
  have i: "i \<noteq> 0" by (rule unlink_link(2) [OF U])
  have leaf: "rn_children (rt_node t i) = []" using U by (simp add: unlinks_def free_leaf_def is_leaf_def)
  show "spells t' j xs vs \<Longrightarrow> spells t j xs vs \<and> j \<noteq> i"
  proof (induction rule: spells.induct)
    case (at_child q xs vs k c)
    then have "spells t q xs vs" "map_of (rn_children (rt_node t q)) k = Some c \<and> c \<noteq> i"
      using unlink_children [OF U] at_live by blast+
    then show ?case using spells.at_child [of t q xs vs k c] unlink_sel(5,6) [OF U] by simp
  qed (use i spells.at_root in simp)
  have "spells t j xs vs \<Longrightarrow> j \<noteq> i \<longrightarrow> spells t' j xs vs"
  proof (induction rule: spells.induct)
    case (at_child q xs vs k c)
    have "q \<noteq> i" using leaf at_child.hyps(2) by auto
    show ?case
    proof
      assume "c \<noteq> i"
      then have "map_of (rn_children (rt_node t' q)) k = Some c"
        using unlink_children [OF U at_live [OF at_child.hyps(1)]] at_child.hyps(2) by blast
      then show "spells t' c (xs @ rn_key (rt_node t c)) (vs @ rn_value (rt_node t c))"
        using spells.at_child [of t' q xs vs k c] at_child.IH \<open>q \<noteq> i\<close> unlink_sel(5,6) [OF U] by simp
    qed
  qed (simp add: spells.at_root)
  then show "spells t j xs vs \<and> j \<noteq> i \<Longrightarrow> spells t' j xs vs" by blast
qed

lemma unlink_live:
  assumes U: "unlinks t p i t'"
  shows "live t' j \<longleftrightarrow> live t j \<and> j \<noteq> i" "live_nodes t' = live_nodes t - {i}" "i \<in> live_nodes t"
  using unlink_spells [OF U] U by (auto simp: live_def live_nodes_def unlinks_def free_leaf_def)

lemma unlink_up:
  assumes U: "unlinks t p i t'"
  shows "up t' = up t"
  using unlink_sel(8) [OF U] by (simp add: up_def)

lemma unlink_rwf:
  assumes U: "unlinks t p i t'"
  shows "rwf t'"
proof -
  have w: "rwf t" using U by (simp add: unlinks_def)
  note wd = rwfD [OF w] and sel = unlink_sel [OF U]
  have lk: "linked t' q k c" if "live t' q" "map_of (rn_children (rt_node t' q)) k = Some c" for q k c
  proof -
    have q: "live t q" using that(1) unlink_live(1) [OF U] by simp
    then have "linked t q k c" using rwfD(4) [OF w q] unlink_children [OF U q] that(2) by blast
    then show ?thesis using unlink_sel [OF U] by (simp add: linked_def)
  qed
  have "distinct (map fst (rn_children (rt_node t' q)))" if "live t' q" for q
    using that wd(5) [of q] unlink_live(1) [OF U] sel(9) [of q] by (cases "q = p") (simp_all add: distinct_delete)
  moreover have "j < rt_next t'" if "live t' j" for j
    using that wd(3) unlink_live(1) [OF U] sel(2) by simp
  moreover have "x < rt_next t' \<and> q < rt_next t'" if "rn_parent (rt_node t' x) = Some q" for x q
    using that wd(6) sel(2,8) by simp
  ultimately show ?thesis
    using lk wd(1,2) sel(1,8) unfolding rwf_def by metis
qed

lemma unlink_total:
  fixes f :: "rnode \<Rightarrow> 'a :: comm_monoid_add"
  assumes U: "unlinks t p i t'" and "\<And>j. f (rt_node t' j) = f (rt_node t j)"
  shows "(\<Sum>j \<in> live_nodes t. f (rt_node t j)) = f (rt_node t i) + (\<Sum>j \<in> live_nodes t'. f (rt_node t' j))"
proof -
  have "rwf t" using U by (simp add: unlinks_def)
  then show ?thesis
    unfolding unlink_live(2) [OF U] assms(2) by (intro sum.remove finite_live unlink_live(3) [OF U])
qed

lemma unlink_rinv:
  assumes U: "unlinks t p i t'" and inv: "rinv t L"
  shows "rinv t' L" "tree_pages t = mset (rn_value (rt_node t i)) + tree_pages t'" "i \<notin> set L"
proof -
  have ref: "rn_ref (rt_node t i) = 0" using U by (simp add: unlinks_def free_leaf_def)
  have cnt: "rn_ref (rt_node t i) = int (length (filter (\<lambda>h. up t h i) L))"
    using rinvD(3) [OF inv] unlink_live(3) [OF U] by (simp add: refs_ok_def)
  show iL: "i \<notin> set L"
  proof
    assume "i \<in> set L"
    then have "filter (\<lambda>h. up t h i) L \<noteq> []" using up_refl [of t i] by (auto simp: filter_empty_conv simp del: up_refl)
    then show False using cnt ref by simp
  qed
  have w': "weight (\<lambda>m. P (rn_ref m)) t
      = (if P (rn_ref (rt_node t i)) then int (node_length t i) else 0) + weight (\<lambda>m. P (rn_ref m)) t'" for P
    unfolding weight_def node_length_def
    by (rule unlink_total [OF U, of "\<lambda>m. if P (rn_ref m) then int (length (rn_key m)) else 0"])
      (simp only: unlink_sel(5,7) [OF U])
  note w = w' [unfolded ref]
  have "sizes_ok t'"
    using rinvD(2) [OF inv] w [of "\<lambda>x. x = 0"] w [of "\<lambda>x. x \<noteq> 0"] unlink_sel [OF U] unlink_live(1) [OF U]
    by (simp add: sizes_ok_def)
  moreover have "refs_ok t' L"
    using rinvD(3) [OF inv] iL unlink_sel(7) [OF U] unlink_up [OF U]
    by (auto simp: refs_ok_def unlink_live(1,2) [OF U])
  ultimately show "rinv t' L" using unlink_rwf [OF U] by (simp add: rinv_def)
  show "tree_pages t = mset (rn_value (rt_node t i)) + tree_pages t'"
    unfolding tree_pages_def using unlink_total [OF U, of "\<lambda>m. mset (rn_value m)"] unlink_sel(6) [OF U] by simp
qed

section \<open>There is always a leaf to evict\<close>

lemma child_ref_le:
  assumes "rinv t L" "i \<in> live_nodes t" "map_of (rn_children (rt_node t i)) k = Some c"
  shows "c \<in> live_nodes t" "rn_ref (rt_node t c) \<le> rn_ref (rt_node t i)"
proof -
  have lv: "live t i" "live t c" using assms live_child by (auto simp: live_nodes_def)
  have l: "linked t i k c" using rwfD(4) [OF rinvD(1) [OF assms(1)] lv(1) assms(3)] .
  then show c: "c \<in> live_nodes t"
    using parent_live(2) [OF rinvD(1) [OF assms(1)] lv(2)] lv(2) by (auto simp: live_nodes_def linked_def)
  have "up t h i" if "up t h c" for h
    using that up_step [of t c i] l up_trans [of t h c i] by (simp add: linked_def)
  then have "length (filter (\<lambda>h. up t h c) L) \<le> length (filter (\<lambda>h. up t h i) L)"
    by (induction L) auto
  then show "rn_ref (rt_node t c) \<le> rn_ref (rt_node t i)"
    using rinvD(3) [OF assms(1)] assms(2) c by (simp add: refs_ok_def)
qed

text \<open>Induction over the tree from its leaves up.\<close>

lemma tree_induct:
  assumes "rwf t" "live t i"
    and "\<And>i. live t i \<Longrightarrow> (\<And>k c. map_of (rn_children (rt_node t i)) k = Some c \<Longrightarrow> P c) \<Longrightarrow> P i"
  shows "P i"
  using assms(2)
proof (induction "card {j. live t j} - card {j. live t j \<and> up t i j}" arbitrary: i rule: less_induct)
  case less
  have fin: "finite {j. live t j}"
    using finite_subset [of "{j. live t j}" "{..< rt_next t}"] rwfD(3) [OF assms(1)] by auto
  show ?case
  proof (rule assms(3) [OF less.prems])
    fix k c assume c: "map_of (rn_children (rt_node t i)) k = Some c"
    have lc: "live t c" by (rule live_child [OF less.prems c])
    have l: "rn_parent (rt_node t c) = Some i" using rwfD(4) [OF assms(1) less.prems c] by (simp add: linked_def)
    have "{j. live t j \<and> up t i j} \<subset> {j. live t j \<and> up t c j}"
      using up_step [OF l] up_acyclic [OF assms(1) lc l] lc by auto
    then have "card {j. live t j \<and> up t i j} < card {j. live t j \<and> up t c j}"
      using fin by (intro psubset_card_mono) auto
    moreover have "card {j. live t j \<and> up t c j} \<le> card {j. live t j}" using fin by (intro card_mono) auto
    ultimately show "P c" using less.hyps [OF _ lc] by linarith
  qed
qed

lemma free_leaf_exists:
  assumes "rinv t L" "0 < rt_evictable t"
  shows "\<exists>i. free_leaf t i"
proof -
  have w: "rwf t" by (rule rinvD(1) [OF assms(1)])
  have "\<exists>i \<in> live_nodes t. rn_ref (rt_node t i) = 0"
  proof (rule ccontr)
    assume "\<not> ?thesis"
    then have "weight (\<lambda>m. rn_ref m = 0) t = 0" unfolding weight_def by (intro sum.neutral) auto
    then show False using assms rinvD(2) [OF assms(1)] by (simp add: sizes_ok_def)
  qed
  then obtain i where i: "i \<in> live_nodes t" "rn_ref (rt_node t i) = 0" by blast
  have "i \<in> live_nodes t \<longrightarrow> rn_ref (rt_node t i) = 0 \<longrightarrow> (\<exists>j. free_leaf t j)"
    using w
  proof (rule tree_induct)
    show "live t i" using i(1) by (simp add: live_nodes_def)
  next
    fix i assume IH: "\<And>k c. map_of (rn_children (rt_node t i)) k = Some c
      \<Longrightarrow> c \<in> live_nodes t \<longrightarrow> rn_ref (rt_node t c) = 0 \<longrightarrow> (\<exists>j. free_leaf t j)"
    show "i \<in> live_nodes t \<longrightarrow> rn_ref (rt_node t i) = 0 \<longrightarrow> (\<exists>j. free_leaf t j)"
    proof (intro impI)
      assume i: "i \<in> live_nodes t" "rn_ref (rt_node t i) = 0"
      show "\<exists>j. free_leaf t j"
      proof (cases "is_leaf t i")
        case True
        then show ?thesis using i by (auto simp: free_leaf_def)
      next
        case False
        then obtain k c where c: "map_of (rn_children (rt_node t i)) k = Some c"
          unfolding is_leaf_def by (metis list.exhaust map_of_Cons_code(2) surj_pair)
        note cl = child_ref_le [OF assms(1) i(1) c]
        have "0 \<le> rn_ref (rt_node t c)"
          using cl(1) rinvD(2) [OF assms(1)] by (simp add: sizes_ok_def live_nodes_def)
        then have "rn_ref (rt_node t c) = 0" using cl(2) i(2) by simp
        then show ?thesis using IH [OF c] cl(1) by blast
      qed
    qed
  qed
  then show ?thesis using i by blast
qed

section \<open>Collecting the leaves\<close>

lemma up_linear: "up t j a \<Longrightarrow> up t j b \<Longrightarrow> up t a b \<or> up t b a"
  unfolding up_def
proof (induction rule: converse_rtranclp_induct)
  case (step x y)
  from step.prems show ?case
  proof (cases rule: converse_rtranclpE)
    case base
    then show ?thesis using converse_rtranclp_into_rtranclp [OF step.hyps(1,2)] by blast
  next
    case (step z)
    then show ?thesis using \<open>rn_parent (rt_node t x) = Some y\<close> step.IH by simp
  qed
qed blast

lemma siblings_disjoint:
  assumes "rwf t" "live t a" "live t b" "rn_parent (rt_node t a) = Some p" "rn_parent (rt_node t b) = Some p" "a \<noteq> b"
  shows "\<not> (up t j a \<and> up t j b)"
proof
  assume "up t j a \<and> up t j b"
  then have "up t a b \<or> up t b a" using up_linear by blast
  then have "up t p b \<or> up t p a"
    using up_step [OF assms(4), of b] up_step [OF assms(5), of a] assms(6) by metis
  then show False using up_acyclic [OF assms(1,3,5)] up_acyclic [OF assms(1,2,4)] by metis
qed

definition free_leaves_below :: "rtree \<Rightarrow> nat \<Rightarrow> nat set" where
  "free_leaves_below t i = {j. live t j \<and> up t j i \<and> is_leaf t j \<and> rn_ref (rt_node t j) = 0}"

definition collects :: "rtree \<Rightarrow> nat list \<Rightarrow> nat list \<Rightarrow> bool" where
  "collects t is ls \<longleftrightarrow> (\<forall>st acc. collect_leaves t (is @ st) acc = collect_leaves t st (acc @ ls))
     \<and> set ls = (\<Union>i \<in> set is. free_leaves_below t i) \<and> distinct ls"

lemma collects_list:
  assumes "\<And>c. c \<in> set cs \<Longrightarrow> \<exists>ls. collects t [c] ls" "distinct cs"
    and "\<And>a b. a \<in> set cs \<Longrightarrow> b \<in> set cs \<Longrightarrow> a \<noteq> b \<Longrightarrow> free_leaves_below t a \<inter> free_leaves_below t b = {}"
  shows "\<exists>ls. collects t cs ls"
  using assms
proof (induction cs)
  case Nil
  then show ?case by (intro exI [of _ "[]"]) (simp add: collects_def)
next
  case (Cons c cs)
  obtain ls where ls: "collects t [c] ls" using Cons.prems(1) by auto
  obtain ls' where ls': "collects t cs ls'" using Cons by auto
  have "free_leaves_below t c \<inter> (\<Union>i \<in> set cs. free_leaves_below t i) = {}"
    using Cons.prems(2,3) by fastforce
  then have "collects t (c # cs) (ls @ ls')" using ls ls' by (auto simp: collects_def)
  then show ?case by blast
qed

lemma child_list:
  assumes "rwf t" "live t i"
  shows "c \<in> set (rev (map snd (rn_children (rt_node t i)))) \<longleftrightarrow> live t c \<and> rn_parent (rt_node t c) = Some i"
    "c \<in> set (rev (map snd (rn_children (rt_node t i)))) \<Longrightarrow> \<exists>k. map_of (rn_children (rt_node t i)) k = Some c"
    "distinct (rev (map snd (rn_children (rt_node t i))))"
proof -
  note w = rwfD(4,5) [OF assms]
  have ch: "\<exists>k. map_of (rn_children (rt_node t i)) k = Some c"
    if "c \<in> set (rev (map snd (rn_children (rt_node t i))))" for c
    using that w(2) by auto
  then show "c \<in> set (rev (map snd (rn_children (rt_node t i)))) \<Longrightarrow> \<exists>k. map_of (rn_children (rt_node t i)) k = Some c" .
  show "c \<in> set (rev (map snd (rn_children (rt_node t i)))) \<longleftrightarrow> live t c \<and> rn_parent (rt_node t c) = Some i"
  proof
    assume "c \<in> set (rev (map snd (rn_children (rt_node t i))))"
    then show "live t c \<and> rn_parent (rt_node t c) = Some i"
      using ch live_child [OF assms(2)] w(1) by (fastforce simp: linked_def)
  next
    assume "live t c \<and> rn_parent (rt_node t c) = Some i"
    then obtain k where "map_of (rn_children (rt_node t i)) k = Some c" using parent_live [OF assms(1)] by blast
    then show "c \<in> set (rev (map snd (rn_children (rt_node t i))))" by (force dest: map_of_SomeD)
  qed
  have "fst x = key_fn (rt_page t) (rn_key (rt_node t (snd x)))" if "x \<in> set (rn_children (rt_node t i))" for x
    using w(1) [of "fst x" "snd x"] that w(2) by (simp add: linked_def)
  then have "inj_on snd (set (rn_children (rt_node t i)))" by (intro inj_onI prod_eqI) metis+
  moreover have "distinct (rn_children (rt_node t i))" using w(2) by (simp add: distinct_map)
  ultimately show "distinct (rev (map snd (rn_children (rt_node t i))))" by (simp add: distinct_map)
qed

text \<open>What lies below a node: the node itself and what lies below its children.\<close>

lemma up_children:
  assumes "rwf t" "live t i" "live t j"
  shows "up t j i \<longleftrightarrow> j = i \<or> (\<exists>c \<in> set (rev (map snd (rn_children (rt_node t i)))). up t j c)"
proof
  assume "up t j i"
  then have u: "(\<lambda>c p. rn_parent (rt_node t c) = Some p)\<^sup>*\<^sup>* j i" by (simp add: up_def)
  from u show "j = i \<or> (\<exists>c \<in> set (rev (map snd (rn_children (rt_node t i)))). up t j c)"
  proof (cases rule: rtranclp.cases)
    case (rtrancl_into_rtrancl c)
    then have c: "up t j c" "rn_parent (rt_node t c) = Some i" by (simp_all add: up_def)
    then have "c \<in> set (rev (map snd (rn_children (rt_node t i))))"
      using child_list(1) [OF assms(1,2)] up_live [OF c(1) assms(1,3)] by blast
    then show ?thesis using c(1) by blast
  qed simp
next
  assume "j = i \<or> (\<exists>c \<in> set (rev (map snd (rn_children (rt_node t i)))). up t j c)"
  then show "up t j i"
  proof
    assume "\<exists>c \<in> set (rev (map snd (rn_children (rt_node t i)))). up t j c"
    then obtain c where c: "c \<in> set (rev (map snd (rn_children (rt_node t i))))" "up t j c" by blast
    then have "up t c i" using child_list(1) [OF assms(1,2)] up_step [of t c i i] by simp
    then show ?thesis using up_trans c(2) by blast
  qed simp
qed

lemma free_leaves_below_children:
  assumes "rwf t" "live t i" "\<not> is_leaf t i"
  shows "free_leaves_below t i = (\<Union>c \<in> set (map snd (rn_children (rt_node t i))). free_leaves_below t c)"
  using up_children [OF assms(1,2)] assms(3) by (auto simp: free_leaves_below_def)

lemma collects_node: "rwf t \<Longrightarrow> live t i \<Longrightarrow> \<exists>ls. collects t [i] ls"
proof (rule tree_induct)
  fix i assume w: "rwf t" and lv: "live t i"
    and IH: "\<And>k c. map_of (rn_children (rt_node t i)) k = Some c \<Longrightarrow> \<exists>ls. collects t [c] ls"
  show "\<exists>ls. collects t [i] ls"
  proof (cases "is_leaf t i")
    case True
    have "up t j i \<and> live t j \<longrightarrow> j = i" for j
    proof (intro impI, rule ccontr)
      assume j: "up t j i \<and> live t j" "j \<noteq> i"
      then have "(\<lambda>c p. rn_parent (rt_node t c) = Some p)\<^sup>*\<^sup>* j i" by (simp add: up_def)
      then obtain c where c: "rn_parent (rt_node t c) = Some i" "up t j c"
        using j(2) by (cases rule: rtranclp.cases) (auto simp: up_def)
      have "live t c" using up_live [OF c(2) w] j(1) by blast
      then show False using parent_live(3) [OF w _ c(1)] True by (auto simp: is_leaf_def)
    qed
    then have "free_leaves_below t i = (if rn_ref (rt_node t i) = 0 then {i} else {})"
      using True lv by (auto simp: free_leaves_below_def)
    then have "collects t [i] (if rn_ref (rt_node t i) = 0 then [i] else [])"
      unfolding collects_def using True by (subst collect_leaves.simps) simp
    then show ?thesis by blast
  next
    case False
    let ?cs = "rev (map snd (rn_children (rt_node t i)))"
    note cl = child_list [OF w lv]
    have "distinct ?cs" by (rule cl(3))
    moreover have "free_leaves_below t a \<inter> free_leaves_below t b = {}" if "a \<in> set ?cs" "b \<in> set ?cs" "a \<noteq> b" for a b
      using siblings_disjoint [OF w _ _ _ _ that(3)] cl(1) that(1,2) by (auto simp: free_leaves_below_def)
    ultimately obtain ls where "collects t ?cs ls" using collects_list [of ?cs t] IH cl(2) by blast
    then have "collects t [i] ls"
      unfolding collects_def using free_leaves_below_children [OF w lv False] False
      by (subst collect_leaves.simps) auto
    then show ?thesis by blast
  qed
qed

section \<open>The eviction loop\<close>

lemma pop_min_ok:
  "xs \<noteq> [] \<Longrightarrow> \<exists>i. i \<in> set xs \<and> pop_min f xs = Some (i, remove1 i xs) \<and> (\<forall>j \<in> set xs. f i \<le> f j)"
  unfolding pop_min_def using arg_min_list_in [of xs f] f_arg_min_list_f [of xs f]
  by (intro exI [of _ "arg_min_list f xs"]) auto

lemma free_leaves_step:
  assumes U: "unlinks t p i t'" and inv: "rinv t L" and "set ls = {j. free_leaf t j}" "distinct ls"
  shows "set (if is_leaf t' p \<and> rn_ref (rt_node t' p) = 0 then remove1 i ls @ [p] else remove1 i ls) = {j. free_leaf t' j}
    \<and> distinct (if is_leaf t' p \<and> rn_ref (rt_node t' p) = 0 then remove1 i ls @ [p] else remove1 i ls)"
proof -
  note sel = unlink_sel [OF U] and lk = unlink_link [OF U]
  have np: "\<not> is_leaf t p" using lk(4) by (auto simp: is_leaf_def)
  then have pls: "p \<notin> set ls" using assms(3) by (simp add: free_leaf_def)
  have p0: "p \<noteq> 0" if "rn_ref (rt_node t p) = 0"
    using that rinvD(3) [OF inv] unfolding refs_ok_def by (metis less_irrefl)
  have other: "free_leaf t' j \<longleftrightarrow> free_leaf t j \<and> j \<noteq> i" if "j \<noteq> p" for j
    using that sel(7,9) [of j] unlink_live(2) [OF U] by (auto simp: free_leaf_def is_leaf_def)
  have atp: "free_leaf t' p \<longleftrightarrow> is_leaf t' p \<and> rn_ref (rt_node t' p) = 0"
    using p0 lk(1,5) sel(7) [of p] unlink_live(2) [OF U] by (auto simp: free_leaf_def live_nodes_def)
  have rest: "set (remove1 i ls) = {j. free_leaf t j \<and> j \<noteq> i}" using assms(3,4) by auto
  have "j \<in> set (remove1 i ls) \<or> (j = p \<and> free_leaf t' p) \<longleftrightarrow> free_leaf t' j" for j
    using other [of j] np unfolding rest by (cases "j = p") (auto simp: free_leaf_def)
  then have "set (remove1 i ls) \<union> (if free_leaf t' p then {p} else {}) = {j. free_leaf t' j}"
    by (auto split: if_splits)
  then show ?thesis using assms(4) pls unfolding atp by (auto dest: notin_set_remove1)
qed

definition evicted_ok :: "rtree \<Rightarrow> nat list \<Rightarrow> int \<Rightarrow> int \<Rightarrow> int list list \<Rightarrow> rtree \<Rightarrow> bool" where
  "evicted_ok t L need es evs t' \<longleftrightarrow> rinv t' L \<and> rt_page t' = rt_page t
     \<and> tree_pages t = mset (concat evs) + tree_pages t' \<and> need \<le> es + int (length (concat evs))
     \<and> rt_evictable t' = rt_evictable t - int (length (concat evs)) \<and> rt_protected t' = rt_protected t
     \<and> (\<forall>i xs vs. spells t' i xs vs \<longrightarrow> spells t i xs vs)
     \<and> (\<forall>h \<in> set L. \<forall>xs vs. spells t h xs vs \<longrightarrow> spells t' h xs vs)
     \<and> paged (rt_page t) (concat evs) \<and> (es < need \<longrightarrow> evs \<noteq> []) \<and> (evs \<noteq> [] \<longrightarrow> es + int (length (concat (butlast evs))) < need)"

lemma evict_loop_ok:
  assumes "rinv t L" "set ls = {i. free_leaf t i}" "distinct ls" "need - es \<le> rt_evictable t"
  shows "\<exists>t' evs. evict_loop need t ls es acc = Some (ok (t', acc @ evs)) \<and> evicted_ok t L need es evs t'"
  using assms
proof (induction "card (live_nodes t)" arbitrary: t ls es acc rule: less_induct)
  case less
  show ?case
  proof (cases "es < need")
    case False
    then show ?thesis using less.prems(1)
      by (subst evict_loop.simps) (auto simp: evicted_ok_def intro!: exI [of _ "[]"])
  next
    case True
    then have "0 < rt_evictable t" using less.prems(4) by linarith
    then have "ls \<noteq> []" using free_leaf_exists [OF less.prems(1)] less.prems(2) by auto
    then obtain i where i: "i \<in> set ls" "pop_min (\<lambda>j. rn_ts (rt_node t j)) ls = Some (i, remove1 i ls)"
      using pop_min_ok by blast
    have fl: "free_leaf t i" using i(1) less.prems(2) by simp
    then have lv: "live t i" "i \<noteq> 0" by (auto simp: free_leaf_def live_nodes_def)
    have w: "rwf t" by (rule rinvD(1) [OF less.prems(1)])
    obtain p where p: "rn_parent (rt_node t i) = Some p" using live_parent [OF w lv] by blast
    define t1 where "t1 = unlink p i t"
    have U: "unlinks t p i t1" using fl w p by (simp add: unlinks_def t1_def)
    let ?ls = "if is_leaf t1 p \<and> rn_ref (rt_node t1 p) = 0 then remove1 i ls @ [p] else remove1 i ls"
    let ?v = "rn_value (rt_node t i)"
    have len: "length ?v = node_length t i" and pv: "paged (rt_page t) ?v"
      using parent_live(3) [OF w lv(1) p] by (auto simp: linked_def node_length_def)
    have "card (live_nodes t1) < card (live_nodes t)"
      unfolding unlink_live(2) [OF U] using finite_live [OF w] unlink_live(3) [OF U]
      by (intro psubset_card_mono) auto
    moreover have "need - (es + int (node_length t i)) \<le> rt_evictable t1"
      using less.prems(4) unlink_sel(4) [OF U] by simp
    ultimately obtain t' evs where r: "evict_loop need t1 ?ls (es + int (node_length t i)) (acc @ [?v])
          = Some (ok (t', (acc @ [?v]) @ evs))" "evicted_ok t1 L need (es + int (node_length t i)) evs t'"
      using less.hyps [OF _ unlink_rinv(1) [OF U less.prems(1)]] free_leaves_step [OF U less.prems(1-3)] by blast
    have step: "evict_loop need t ls es acc = Some (ok (t', acc @ (?v # evs)))"
      using True i(2) p fl r(1) unfolding t1_def
      by (subst evict_loop.simps) (simp add: free_leaf_def Let_def)
    have nolock: "h \<noteq> i" if "h \<in> set L" for h using unlink_rinv(3) [OF U less.prems(1)] that by blast
    note r' = r(2) [unfolded evicted_ok_def] and sel = unlink_sel(1,3,4) [OF U]
    have "tree_pages t = mset (concat (?v # evs)) + tree_pages t'"
      using r' unlink_rinv(2) [OF U less.prems(1)] by (simp add: add.assoc)
    moreover have "need \<le> es + int (length (concat (?v # evs)))" using r' len by (simp del: length_concat)
    moreover have "rt_evictable t' = rt_evictable t - int (length (concat (?v # evs)))"
      using r' sel len by (simp del: length_concat)
    moreover have "rt_page t' = rt_page t" "rt_protected t' = rt_protected t" "rinv t' L" using r' sel by simp_all
    moreover have "spells t j xs vs" if "spells t' j xs vs" for j xs vs
      using r' that unlink_spells [OF U] by blast
    moreover have "spells t' h xs vs" if "h \<in> set L" "spells t h xs vs" for h xs vs
      using r' that unlink_spells [OF U] nolock by blast
    moreover have "es + int (length (concat (butlast (?v # evs)))) < need"
      using r' len True by (cases "evs = []") (simp_all del: length_concat)
    moreover have "paged (rt_page t) (concat (?v # evs))" using r' sel pv by (simp add: paged_append)
    ultimately have "evicted_ok t L need es (?v # evs) t'" unfolding evicted_ok_def by blast
    then show ?thesis using step by blast
  qed
qed

lemma evict_ok:
  assumes "rinv t L" "0 < need" "need \<le> rt_evictable t"
  obtains t' evs where "evict need t = Some (ok (t', concat evs))" "evicted_ok t L need 0 evs t'"
proof -
  have w: "rwf t" by (rule rinvD(1) [OF assms(1)])
  obtain ls where c: "collects t [0] ls" using collects_node [OF w live_root] by blast
  then have "collect_leaves t ([0] @ []) [] = collect_leaves t [] ([] @ ls)" unfolding collects_def by blast
  moreover have "collect_leaves t [] ls = Some ls" by (subst collect_leaves.simps) simp
  ultimately have cl: "collect_leaves t [0] [] = Some ls" by simp
  have root_up: "spells t j xs vs \<Longrightarrow> up t j 0" for j xs vs
  proof (induction rule: spells.induct)
    case (at_child q xs vs k c)
    have "rn_parent (rt_node t c) = Some q"
      using rwfD(4) [OF w at_live [OF at_child.hyps(1)] at_child.hyps(2)] by (simp add: linked_def)
    then show ?case using up_step at_child.IH by blast
  qed simp
  have "rn_ref (rt_node t 0) \<noteq> 0" using rinvD(3) [OF assms(1)] by (simp add: refs_ok_def)
  then have nz: "rn_ref (rt_node t j) = 0 \<Longrightarrow> j \<noteq> 0" for j by (cases "j = 0") simp_all
  have "set ls = {j. live t j \<and> up t j 0 \<and> is_leaf t j \<and> rn_ref (rt_node t j) = 0}"
    using c by (simp add: collects_def free_leaves_below_def)
  also have "\<dots> = {i. free_leaf t i}"
    using root_up nz unfolding free_leaf_def live_nodes_def live_def by blast
  finally have "set ls = {i. free_leaf t i}" .
  then obtain t' evs where "evict_loop need t ls 0 [] = Some (ok (t', [] @ evs))" "evicted_ok t L need 0 evs t'"
    using evict_loop_ok [OF assms(1), of ls need 0 "[]"] assms(3) c by (auto simp: collects_def)
  moreover from this have "evs \<noteq> []" using assms(2) by (simp add: evicted_ok_def)
  ultimately have "evict need t = Some (ok (t', concat evs))"
    using assms(2,3) cl by (simp add: evict_def)
  then show thesis using that \<open>evicted_ok t L need 0 evs t'\<close> by blast
qed

end
