(* ===== verification/PrefixCache.thy ===== *)
theory PrefixCache
  imports RadixEvict
begin

text \<open>
  The interface \<open>BasePrefixCache\<close> of \<open>kvcache/base.py\<close> as a record of operations and a locale of
  the laws the cache manager relies on, interpreted on the radix cache and on the empty cache of
  \<open>kvcache/naive_cache.py\<close>, and the properties of the radix cache.
\<close>

section \<open>The interface\<close>

record ('c, 'h) cache_ops =
  co_match :: "int \<Rightarrow> int list \<Rightarrow> 'c \<Rightarrow> ('c \<times> 'h) result option"
  co_insert :: "int \<Rightarrow> int \<Rightarrow> int list \<Rightarrow> int list \<Rightarrow> 'c \<Rightarrow> ('c \<times> nat \<times> 'h) result option"
  co_lock :: "'h \<Rightarrow> bool \<Rightarrow> 'c \<Rightarrow> 'c result option"
  co_evict :: "int \<Rightarrow> 'c \<Rightarrow> ('c \<times> int list) result option"
  co_indices :: "'c \<Rightarrow> 'h \<Rightarrow> int list result option"
  co_len :: "'h \<Rightarrow> nat"
  co_evictable :: "'c \<Rightarrow> int"
  co_protected :: "'c \<Rightarrow> int"

text \<open>\<open>inv c L\<close>: the cache is well formed and \<open>L\<close> are the locked handles. \<open>has c h xs vs\<close>: the
  handle stands for the tokens \<open>xs\<close> cached in the slots \<open>vs\<close>. \<open>tokens c\<close> are all slots of \<open>c\<close>.\<close>

locale prefix_cache =
  fixes ops :: "('c, 'h) cache_ops" and ps :: nat
    and inv :: "'c \<Rightarrow> 'h list \<Rightarrow> bool"
    and has :: "'c \<Rightarrow> 'h \<Rightarrow> int list \<Rightarrow> int list \<Rightarrow> bool"
    and tokens :: "'c \<Rightarrow> int multiset"
  assumes page_pos: "0 < ps"
    and has_len: "inv c L \<Longrightarrow> has c h xs vs \<Longrightarrow> co_len ops h = length xs \<and> length vs = length xs \<and> ps dvd length xs
        \<and> paged ps vs"
    and inv_perm: "inv c L \<Longrightarrow> mset L' = mset L \<Longrightarrow> inv c L'"
    and has_indices: "inv c L \<Longrightarrow> has c h xs vs \<Longrightarrow> xs \<noteq> [] \<Longrightarrow> co_indices ops c h = Some (ok vs)"
    and empty_lock: "inv c L \<Longrightarrow> has c h [] vs \<Longrightarrow> co_lock ops h b c = Some (ok c)"
    and empty_has: "inv c L \<Longrightarrow> inv c' L' \<Longrightarrow> has c h [] vs \<Longrightarrow> has c' h [] vs"
    and locked_has: "inv c L \<Longrightarrow> h \<in> set L \<Longrightarrow> \<exists>xs vs. has c h xs vs"
    and sizes: "inv c L \<Longrightarrow> co_evictable ops c + co_protected ops c = int (size (tokens c))
        \<and> 0 \<le> co_evictable ops c \<and> 0 \<le> co_protected ops c"
    and match_law: "inv c L \<Longrightarrow> \<exists>c' h n vs. co_match ops tic xs c = Some (ok (c', h)) \<and> inv c' L
        \<and> tokens c' = tokens c \<and> co_evictable ops c' = co_evictable ops c \<and> co_protected ops c' = co_protected ops c
        \<and> n \<le> length xs \<and> has c' h (take n xs) vs \<and> (\<forall>g ys us. has c g ys us \<longrightarrow> has c' g ys us)"
    and lock_law: "inv c L \<Longrightarrow> has c h xs vs \<Longrightarrow> \<exists>c'. co_lock ops h False c = Some (ok c') \<and> inv c' (h # L)
        \<and> tokens c' = tokens c \<and> (\<forall>g ys us. has c g ys us \<longrightarrow> has c' g ys us)"
    and unlock_law: "inv c L \<Longrightarrow> h \<in> set L \<Longrightarrow> \<exists>c'. co_lock ops h True c = Some (ok c') \<and> inv c' (remove1 h L)
        \<and> tokens c' = tokens c \<and> (\<forall>g ys us. has c g ys us \<longrightarrow> has c' g ys us)"
    and insert_law: "inv c L \<Longrightarrow> length xs \<le> length idx \<Longrightarrow> paged ps (take (length xs div ps * ps) idx)
        \<Longrightarrow> \<exists>c' n h vs. co_insert ops tic tic' xs idx c = Some (ok (c', n, h)) \<and> inv c' L
          \<and> n \<le> co_len ops h \<and> co_len ops h \<le> length xs \<and> ps dvd n \<and> length vs = n
          \<and> has c' h (take (co_len ops h) xs) (vs @ take (co_len ops h - n) (drop n idx))
          \<and> tokens c' = tokens c + mset (take (co_len ops h - n) (drop n idx))
          \<and> (\<forall>g ys us. has c g ys us \<longrightarrow> has c' g ys us)
          \<and> (\<forall>g ys us. has c g ys us \<longrightarrow> take (length ys) xs = ys \<longrightarrow> length ys \<le> n \<and> take (length ys) vs = us)"
    and evict_law: "inv c L \<Longrightarrow> 0 < need \<Longrightarrow> need \<le> co_evictable ops c
        \<Longrightarrow> \<exists>c' ev. co_evict ops need c = Some (ok (c', ev)) \<and> inv c' L \<and> tokens c = mset ev + tokens c'
          \<and> need \<le> int (length ev) \<and> co_evictable ops c' = co_evictable ops c - int (length ev)
          \<and> co_protected ops c' = co_protected ops c \<and> paged ps ev
          \<and> (\<forall>g \<in> set L. \<forall>ys us. has c g ys us \<longrightarrow> has c' g ys us)"

section \<open>The empty cache\<close>

definition naive_match :: "int \<Rightarrow> int list \<Rightarrow> unit \<Rightarrow> (unit \<times> unit) result option" where
  "naive_match tic input_ids c = Some (ok (c, ()))"

definition naive_insert :: "int \<Rightarrow> int \<Rightarrow> int list \<Rightarrow> int list \<Rightarrow> unit \<Rightarrow> (unit \<times> nat \<times> unit) result option" where
  "naive_insert tic tic' input_ids indices c = Some (ok (c, 0, ()))"

definition naive_lock :: "unit \<Rightarrow> bool \<Rightarrow> unit \<Rightarrow> unit result option" where
  "naive_lock h unlock c = Some (ok c)"

definition naive_evict :: "int \<Rightarrow> unit \<Rightarrow> (unit \<times> int list) result option" where
  "naive_evict need c = Some (if need = 0 then ok (c, []) else raise NotImplementedError)"

definition naive_indices :: "unit \<Rightarrow> unit \<Rightarrow> int list result option" where
  "naive_indices c h = Some (ok [])"

definition naive_ops :: "(unit, unit) cache_ops" where
  "naive_ops = \<lparr>co_match = naive_match, co_insert = naive_insert, co_lock = naive_lock, co_evict = naive_evict,
     co_indices = naive_indices, co_len = (\<lambda>_. 0), co_evictable = (\<lambda>_. 0), co_protected = (\<lambda>_. 0)\<rparr>"

definition naive_has :: "unit \<Rightarrow> unit \<Rightarrow> int list \<Rightarrow> int list \<Rightarrow> bool" where
  "naive_has c h xs vs \<longleftrightarrow> xs = [] \<and> vs = []"

lemmas naive_defs = naive_ops_def naive_match_def naive_insert_def naive_lock_def naive_evict_def
  naive_indices_def naive_has_def

interpretation naive: prefix_cache naive_ops "Suc n" "\<lambda>c L. True" naive_has "\<lambda>c. {#}" for n
  by unfold_locales (auto simp: naive_defs)

section \<open>The radix cache\<close>

definition radix_ops :: "(rtree, handle) cache_ops" where
  "radix_ops = \<lparr>co_match = match_prefix, co_insert = insert_prefix, co_lock = lock_handle, co_evict = evict,
     co_indices = get_matched_indices, co_len = hd_cached_len, co_evictable = rt_evictable, co_protected = rt_protected\<rparr>"

definition radix_has :: "rtree \<Rightarrow> handle \<Rightarrow> int list \<Rightarrow> int list \<Rightarrow> bool" where
  "radix_has t h xs vs \<longleftrightarrow> spells t (hd_node h) xs vs \<and> hd_cached_len h = length xs"

definition radix_inv :: "nat \<Rightarrow> rtree \<Rightarrow> handle list \<Rightarrow> bool" where
  "radix_inv ps t L \<longleftrightarrow> rinv t (map hd_node L) \<and> rt_page t = ps \<and> (\<forall>h \<in> set L. \<exists>xs vs. radix_has t h xs vs)"

lemma radix_invD: "radix_inv ps t L \<Longrightarrow> rinv t (map hd_node L)" "radix_inv ps t L \<Longrightarrow> rt_page t = ps"
    "radix_inv ps t L \<Longrightarrow> h \<in> set L \<Longrightarrow> \<exists>xs vs. radix_has t h xs vs"
  by (simp_all add: radix_inv_def)

lemma radix_inv_step:
  assumes "radix_inv ps t L" "rinv t' (map hd_node L')" "rt_page t' = rt_page t"
    and "\<And>h xs vs. h \<in> set L \<Longrightarrow> radix_has t h xs vs \<Longrightarrow> radix_has t' h xs vs"
    and "\<And>h. h \<in> set L' \<Longrightarrow> h \<in> set L \<or> (\<exists>xs vs. radix_has t' h xs vs)"
  shows "radix_inv ps t' L'"
  using assms unfolding radix_inv_def by metis

text \<open>What can be read below a node has one value.\<close>

lemma below_length: "below t i zs ws \<Longrightarrow> rwf t \<Longrightarrow> live t i \<Longrightarrow> length ws = length zs"
proof (induction rule: below.induct)
  case (below_part i k c m)
  then show ?case using rwfD(4) [OF below_part.prems below_part.hyps(1)] by (simp add: linked_def)
next
  case (below_child i k c zs ws)
  then show ?case using rwfD(4) [OF below_child.prems below_child.hyps(1)] live_child [OF below_child.prems(2) below_child.hyps(1)]
    by (simp add: linked_def)
qed simp

lemma below_unique: "rwf t \<Longrightarrow> live t i \<Longrightarrow> below t i zs ws \<Longrightarrow> below t i zs us \<Longrightarrow> us = ws"
proof (induction "length zs" arbitrary: i zs ws us rule: less_induct)
  case less
  show ?case
  proof (cases "zs = []")
    case True
    then show ?thesis using below_length [OF less.prems(3,1,2)] below_length [OF less.prems(4,1,2)] by simp
  next
    case False
    have self: "take (length zs) zs = zs" by simp
    obtain c where c: "map_of (rn_children (rt_node t i)) (key_fn (rt_page t) zs) = Some c"
      using below_first [OF less.prems(1,2,3) False self] by blast
    let ?key = "rn_key (rt_node t c)" and ?val = "rn_value (rt_node t c)"
    have l: "linked t i (key_fn (rt_page t) zs) c" using rwfD(4) [OF less.prems(1,2) c] .
    have lc: "live t c" by (rule live_child [OF less.prems(2) c])
    have read: "(length zs \<le> length ?key \<and> vs = take (length zs) ?val)
        \<or> (\<exists>zs' vs'. zs = ?key @ zs' \<and> vs = ?val @ vs' \<and> below t c zs' vs')" if "below t i zs vs" for vs
      using that
    proof cases
      case (below_part k c' m)
      have "linked t i k c'" using rwfD(4) [OF less.prems(1,2) below_part(3)] .
      moreover have "key_fn (rt_page t) (rn_key (rt_node t c')) = key_fn (rt_page t) zs"
        using below_part False by (intro same_first_page [of _ m]) auto
      ultimately have "c' = c" using below_part(3) c by (simp add: linked_def)
      then show ?thesis using below_part l by (auto simp: linked_def min_absorb2)
    next
      case (below_child k c' zs' vs')
      have l': "linked t i k c'" using rwfD(4) [OF less.prems(1,2) below_child(3)] .
      have "key_fn (rt_page t) (rn_key (rt_node t c')) = key_fn (rt_page t) zs"
        using l' below_child(1) by (intro same_first_page [of _ "length (rn_key (rt_node t c'))"]) (auto simp: linked_def)
      then have "c' = c" using below_child(3) c l' by (simp add: linked_def)
      then show ?thesis using below_child by blast
    qed (use False in simp)
    have full: "vs = ?val @ vs'" if "length ?key = length zs" "vs = take (length zs) ?val" "vs' = []" for vs vs'
      using that l by (simp add: linked_def)
    from read [OF less.prems(3)] read [OF less.prems(4)] show ?thesis
    proof (elim disjE exE conjE)
      fix zs' vs' zs'' vs'' assume "zs = ?key @ zs'" "ws = ?val @ vs'" "below t c zs' vs'"
        "zs = ?key @ zs''" "us = ?val @ vs''" "below t c zs'' vs''"
      moreover have "length zs' < length zs" using calculation(1) l by (simp add: linked_def)
      ultimately show ?thesis using less.hyps [of zs' c vs' vs''] less.prems(1) lc by auto
    next
      fix zs' vs' assume a: "length zs \<le> length ?key" "ws = take (length zs) ?val" "zs = ?key @ zs'" "us = ?val @ vs'" "below t c zs' vs'"
      then have "zs' = []" by simp
      then have "vs' = []" using below_length [OF a(5) less.prems(1) lc] by simp
      then show ?thesis using a \<open>zs' = []\<close> l by (simp add: linked_def)
    next
      fix zs' vs' assume a: "length zs \<le> length ?key" "us = take (length zs) ?val" "zs = ?key @ zs'" "ws = ?val @ vs'" "below t c zs' vs'"
      then have "zs' = []" by simp
      then have "vs' = []" using below_length [OF a(5) less.prems(1) lc] by simp
      then show ?thesis using a \<open>zs' = []\<close> l by (simp add: linked_def)
    qed simp
  qed
qed

lemma holds_unique:
  assumes "rwf t" "holds t xs vs" "holds t ys us" "take (length ys) xs = ys" "length ys \<le> length xs"
  shows "take (length ys) vs = us"
proof -
  have "holds t ys (take (length ys) vs)"
  proof -
    obtain i zs ws where z: "spells t i zs ws" "length xs \<le> length zs" "take (length xs) zs = xs" "take (length xs) ws = vs"
      using assms(2) by (auto simp: holds_def)
    have "take (length ys) (take (length xs) zs) = take (length ys) zs" "take (length ys) (take (length xs) ws) = take (length ys) ws"
      using assms(5) by (simp_all add: min_absorb1)
    then have "take (length ys) zs = ys" "take (length ys) ws = take (length ys) vs" using z(3,4) assms(4) by simp_all
    moreover have "length ys \<le> length zs" using z(2) assms(5) by simp
    moreover have "rt_page t dvd length ys" using assms(3) by (simp add: holds_def)
    ultimately show ?thesis using z(1) unfolding holds_def by blast
  qed
  then show ?thesis using below_unique [OF assms(1) live_root] holds_below [OF assms(1)] assms(3) by blast
qed

lemma size_sum_mset: "finite A \<Longrightarrow> size (\<Sum>i \<in> A. f i :: 'b multiset) = (\<Sum>i \<in> A. size (f i))"
  by (induction A rule: finite_induct) auto

lemma tree_pages_size:
  assumes "rinv t L"
  shows "int (size (tree_pages t)) = rt_evictable t + rt_protected t" "0 \<le> rt_evictable t" "0 \<le> rt_protected t"
proof -
  have w: "rwf t" by (rule rinvD(1) [OF assms])
  have len: "int (size (mset (rn_value (rt_node t i)))) = int (node_length t i)" if "i \<in> live_nodes t" for i
  proof -
    have i: "live t i" "i \<noteq> 0" using that by (simp_all add: live_nodes_def)
    obtain p where p: "rn_parent (rt_node t i) = Some p" using live_parent [OF w i] by blast
    then show ?thesis using parent_live(3) [OF w i(1)] by (auto simp: linked_def node_length_def)
  qed
  have "int (size (tree_pages t)) = (\<Sum>i \<in> live_nodes t. int (size (mset (rn_value (rt_node t i)))))"
    unfolding tree_pages_def by (simp add: size_sum_mset finite_live [OF w])
  also have "\<dots> = (\<Sum>i \<in> live_nodes t. (if rn_ref (rt_node t i) = 0 then int (node_length t i) else 0)
        + (if rn_ref (rt_node t i) \<noteq> 0 then int (node_length t i) else 0))"
    by (rule sum.cong) (use len in auto)
  also have "\<dots> = rt_evictable t + rt_protected t"
    using rinvD(2) [OF assms] by (simp add: sum.distrib sizes_ok_def weight_def)
  finally show "int (size (tree_pages t)) = rt_evictable t + rt_protected t" .
  show "0 \<le> rt_evictable t" "0 \<le> rt_protected t"
    using rinvD(2) [OF assms] by (simp_all add: sizes_ok_def weight_def sum_nonneg)
qed

lemma radix_has_unlinked: "radix_has t h xs vs \<Longrightarrow> (\<And>i ys us. spells t i ys us \<Longrightarrow> spells t' i ys us) \<Longrightarrow> radix_has t' h xs vs"
  by (simp add: radix_has_def)

lemma radix_has_shape: "same_shape t t' \<Longrightarrow> radix_has t' = radix_has t"
  by (simp add: fun_eq_iff radix_has_def same_shape_at)

lemma radix_page_pos: "radix_inv ps t L \<Longrightarrow> 0 < ps"
  using rwfD(1) [OF rinvD(1) [OF radix_invD(1)]] radix_invD(2) by metis

lemma radix_match_law:
  assumes "radix_inv ps t L"
  shows "\<exists>t' h n vs. match_prefix tic xs t = Some (ok (t', h)) \<and> radix_inv ps t' L \<and> tree_pages t' = tree_pages t
    \<and> rt_evictable t' = rt_evictable t \<and> rt_protected t' = rt_protected t
    \<and> n \<le> length xs \<and> radix_has t' h (take n xs) vs \<and> (\<forall>g ys us. radix_has t g ys us \<longrightarrow> radix_has t' g ys us)"
proof -
  obtain t' h vs where m: "match_prefix tic xs t = Some (ok (t', h))" "rinv t' (map hd_node L)" "preserves t t'"
      "hd_cached_len h \<le> length xs" "spells t' (hd_node h) (take (hd_cached_len h) xs) vs"
    using match_prefix_ok [OF radix_invD(1) [OF assms]] by metis
  note pr = m(3) [unfolded preserves_def]
  have keep: "radix_has t' g ys us" if "radix_has t g ys us" for g ys us
    using that pr by (simp add: radix_has_def)
  then have "radix_inv ps t' L" using pr m(2) by (intro radix_inv_step [OF assms]) auto
  moreover have "radix_has t' h (take (hd_cached_len h) xs) vs" using m(4,5) by (simp add: radix_has_def min_absorb2)
  ultimately show ?thesis using m(1,4) pr keep by (intro exI [of _ t'] exI [of _ h]) blast
qed

lemma radix_lock_law:
  assumes "radix_inv ps t L" "radix_has t h xs vs"
  shows "\<exists>t'. lock_handle h False t = Some (ok t') \<and> radix_inv ps t' (h # L) \<and> tree_pages t' = tree_pages t
    \<and> (\<forall>g ys us. radix_has t g ys us \<longrightarrow> radix_has t' g ys us)"
proof -
  have "live t (hd_node h)" using assms(2) at_live by (auto simp: radix_has_def)
  then obtain t' where t': "lock_handle h False t = Some (ok t')" "same_shape t t'" "rinv t' (hd_node h # map hd_node L)"
    using lock_rinv [OF radix_invD(1) [OF assms(1)]] by blast
  have "radix_inv ps t' (h # L)"
    by (rule radix_inv_step [OF assms(1)])
      (use t' assms(2) in \<open>auto simp: radix_has_shape [OF t'(2)] same_shape_def\<close>)
  then show ?thesis using t' by (auto simp: radix_has_shape [OF t'(2)] same_shape_pages [OF t'(2)])
qed

lemma radix_unlock_law:
  assumes "radix_inv ps t L" "h \<in> set L"
  shows "\<exists>t'. lock_handle h True t = Some (ok t') \<and> radix_inv ps t' (remove1 h L) \<and> tree_pages t' = tree_pages t
    \<and> (\<forall>g ys us. radix_has t g ys us \<longrightarrow> radix_has t' g ys us)"
proof -
  have "hd_node h \<in> set (map hd_node L)" using assms(2) by simp
  then obtain t' where t': "lock_handle h True t = Some (ok t')" "same_shape t t'"
      "rinv t' (remove1 (hd_node h) (map hd_node L))"
    using unlock_rinv [OF radix_invD(1) [OF assms(1)]] by blast
  have cnt: "length (filter P (map hd_node (remove1 h L))) = length (filter P (remove1 (hd_node h) (map hd_node L)))" for P
    using filter_remove1_length [of h L "\<lambda>g. P (hd_node g)"] filter_remove1_length [of "hd_node h" "map hd_node L" P] assms(2)
    by (simp add: filter_map comp_def)
  have "rinv t' (map hd_node (remove1 h L))"
  proof -
    have "live t' g" if "g \<in> set (map hd_node (remove1 h L))" for g
    proof -
      have "g \<in> set (map hd_node L)" using that set_remove1_subset [of h L] by auto
      then show ?thesis
        using rinvD(3) [OF radix_invD(1) [OF assms(1)]] unfolding refs_ok_def same_shape_live [OF t'(2)] by blast
    qed
    then show ?thesis using t'(3) cnt unfolding rinv_def refs_ok_def by simp
  qed
  then have "radix_inv ps t' (remove1 h L)"
    by (rule radix_inv_step [OF assms(1)])
      (use t' in \<open>auto simp: radix_has_shape [OF t'(2)] same_shape_def dest: notin_set_remove1\<close>)
  then show ?thesis using t' by (auto simp: radix_has_shape [OF t'(2)] same_shape_pages [OF t'(2)])
qed

lemma radix_insert_law:
  assumes "radix_inv ps t L" "length xs \<le> length idx" "paged ps (take (length xs div ps * ps) idx)"
  shows "\<exists>t' n h vs. insert_prefix tic tic' xs idx t = Some (ok (t', n, h)) \<and> radix_inv ps t' L
    \<and> n \<le> hd_cached_len h \<and> hd_cached_len h \<le> length xs \<and> ps dvd n \<and> length vs = n
    \<and> radix_has t' h (take (hd_cached_len h) xs) (vs @ take (hd_cached_len h - n) (drop n idx))
    \<and> tree_pages t' = tree_pages t + mset (take (hd_cached_len h - n) (drop n idx))
    \<and> (\<forall>g ys us. radix_has t g ys us \<longrightarrow> radix_has t' g ys us)
    \<and> (\<forall>g ys us. radix_has t g ys us \<longrightarrow> take (length ys) xs = ys \<longrightarrow> length ys \<le> n \<and> take (length ys) vs = us)"
proof -
  note inv = radix_invD(1) [OF assms(1)] and pg = radix_invD(2) [OF assms(1)]
  let ?A = "length xs div ps * ps"
  obtain t' n h vs where r: "insert_prefix tic tic' xs idx t = Some (ok (t', n, h))" "rinv t' (map hd_node L)"
      "hd_cached_len h = ?A" "n \<le> ?A" "holds t (take n xs) vs"
      "\<And>ys us. holds t ys us \<Longrightarrow> take (length ys) (take ?A xs) = ys \<Longrightarrow> length ys \<le> n"
      "spells t' (hd_node h) (take ?A xs) (vs @ take (?A - n) (drop n idx))"
      "\<And>i ys us. spells t i ys us \<Longrightarrow> spells t' i ys us" "rt_page t' = rt_page t"
      "tree_pages t' = tree_pages t + mset (take (?A - n) (drop n idx))"
    using insert_prefix_ok [OF inv assms(2), of tic tic'] assms(3) unfolding pg by metis
  have A: "?A \<le> length xs" by (rule div_times_less_eq_dividend)
  have keep: "radix_has t' g ys us" if "radix_has t g ys us" for g ys us
    using that r(8) by (simp add: radix_has_def)
  then have i': "radix_inv ps t' L" using r(2,9) by (intro radix_inv_step [OF assms(1)]) auto
  have dn: "ps dvd n" using r(5) r(4) A pg by (auto simp: holds_def min_absorb2)
  have lv: "length vs = n"
  proof -
    have "length vs = length (take n xs)"
      using below_length [OF holds_below [OF rinvD(1) [OF inv] r(5)] rinvD(1) [OF inv] live_root] .
    then show ?thesis using r(4) A by simp
  qed
  have old: "length ys \<le> n \<and> take (length ys) vs = us" if g: "radix_has t g ys us" "take (length ys) xs = ys" for g ys us
  proof -
    have h: "holds t ys us" using g(1) spells_holds rinvD(1) [OF inv] by (auto simp: radix_has_def)
    have "length ys \<le> length xs" using g(2) by (metis length_take min.cobounded1)
    moreover have "ps dvd length ys" using h pg by (simp add: holds_def)
    ultimately have "length ys \<le> ?A" using aligned_le radix_page_pos [OF assms(1)] by blast
    then have "take (length ys) (take ?A xs) = ys" using g(2) by (simp add: min_absorb1)
    then have n: "length ys \<le> n" using r(6) h by blast
    then have "take (length ys) (take n xs) = ys" using g(2) by (simp add: min_absorb1)
    moreover have "length (take n xs) = n" using order_trans [OF r(4) A] by (simp add: min_absorb2)
    then have "length ys \<le> length (take n xs)" using n by simp
    ultimately show ?thesis using holds_unique [OF rinvD(1) [OF inv] r(5) h] n by blast
  qed
  have "radix_has t' h (take (hd_cached_len h) xs) (vs @ take (hd_cached_len h - n) (drop n idx))"
    using r(3,7) A by (simp add: radix_has_def min_absorb2)
  then show ?thesis
    using r(1,4,10) i' dn lv keep old A r(3)
    by (intro exI [of _ t'] exI [of _ n] exI [of _ h] exI [of _ vs] conjI allI impI) (simp_all only: simp_thms)
qed

lemma radix_evict_law:
  assumes "radix_inv ps t L" "0 < need" "need \<le> rt_evictable t"
  shows "\<exists>t' ev. evict need t = Some (ok (t', ev)) \<and> radix_inv ps t' L \<and> tree_pages t = mset ev + tree_pages t'
    \<and> need \<le> int (length ev) \<and> rt_evictable t' = rt_evictable t - int (length ev)
    \<and> rt_protected t' = rt_protected t \<and> paged ps ev
    \<and> (\<forall>g \<in> set L. \<forall>ys us. radix_has t g ys us \<longrightarrow> radix_has t' g ys us)"
proof -
  obtain t' evs where e: "evict need t = Some (ok (t', concat evs))" "evicted_ok t (map hd_node L) need 0 evs t'"
    using evict_ok [OF radix_invD(1) [OF assms(1)] assms(2,3)] by blast
  note ok' = e(2) [unfolded evicted_ok_def]
  have keep: "radix_has t' g ys us" if "g \<in> set L" "radix_has t g ys us" for g ys us
    using ok' that by (simp add: radix_has_def)
  have "radix_inv ps t' L" by (rule radix_inv_step [OF assms(1)]) (use ok' keep in auto)
  then show ?thesis
    using e(1) ok' keep radix_invD(2) [OF assms(1)]
    by (intro exI [of _ t'] exI [of _ "concat evs"]) (simp del: length_concat)
qed

lemma spells_paged: "spells t i xs vs \<Longrightarrow> rwf t \<Longrightarrow> paged (rt_page t) vs"
proof (induction rule: spells.induct)
  case (at_child p xs vs k c)
  then show ?case using rwfD(4) [OF at_child.prems at_live [OF at_child.hyps(1)] at_child.hyps(2)]
    by (simp add: linked_def paged_append)
qed simp

lemma refs_ok_perm: "refs_ok t L \<Longrightarrow> mset L' = mset L \<Longrightarrow> refs_ok t L'"
proof -
  assume r: "refs_ok t L" and m: "mset L' = mset L"
  have "length (filter P L') = length (filter P L)" for P
    using m by (metis mset_filter size_mset)
  then show ?thesis using r mset_eq_setD [OF m] by (simp add: refs_ok_def)
qed

lemma radix_inv_perm:
  assumes "radix_inv ps t L" "mset L' = mset L"
  shows "radix_inv ps t L'"
proof -
  have "mset (map hd_node L') = mset (map hd_node L)" using assms(2) by simp
  then have "rinv t (map hd_node L')"
    using radix_invD(1) [OF assms(1)] refs_ok_perm [of t "map hd_node L"] unfolding rinv_def by blast
  then show ?thesis using assms(1) mset_eq_setD [OF assms(2)] by (simp add: radix_inv_def)
qed

lemma radix_empty_root:
  assumes "rwf t" "radix_has t h [] vs"
  shows "hd_node h = 0 \<and> vs = []"
proof -
  have "spells t (hd_node h) [] vs" using assms(2) by (simp add: radix_has_def)
  then show ?thesis
  proof cases
    case (at_child p xs ws k)
    then show ?thesis using rwfD(4) [OF assms(1) at_live] by (fastforce simp: linked_def)
  qed simp
qed

lemma radix_laws:
  assumes "0 < ps"
  shows "prefix_cache radix_ops ps (radix_inv ps) radix_has tree_pages"
proof
  show "0 < ps" by (rule assms)
  show "co_len radix_ops h = length xs \<and> length vs = length xs \<and> ps dvd length xs \<and> paged ps vs"
    if "radix_inv ps c L" "radix_has c h xs vs" for c L h xs vs
    using at_lengths [OF _ rinvD(1) [OF radix_invD(1) [OF that(1)]]] that radix_invD(2) [OF that(1)]
      spells_paged [OF _ rinvD(1) [OF radix_invD(1) [OF that(1)]]]
    by (auto simp: radix_has_def radix_ops_def)
  show "co_indices radix_ops c h = Some (ok vs)" if "radix_inv ps c L" "radix_has c h xs vs" "xs \<noteq> []" for c L h xs vs
    using get_matched_ok [OF rinvD(1) [OF radix_invD(1) [OF that(1)]], of h xs vs] that(2,3) by (simp add: radix_has_def radix_ops_def)
  show "co_lock radix_ops h b c = Some (ok c)" if i: "radix_inv ps c L" and h: "radix_has c h [] vs" for c L h vs b
  proof -
    have "rwf c" by (rule rinvD(1) [OF radix_invD(1) [OF i]])
    then show ?thesis using radix_empty_root [OF _ h] rwfD(2) by (simp add: radix_ops_def lock_handle_def lock_loop.simps)
  qed
  show "radix_has c' h [] vs" if "radix_inv ps c L" "radix_inv ps c' L'" "radix_has c h [] vs" for c c' L L' h vs
    using radix_empty_root [OF rinvD(1) [OF radix_invD(1) [OF that(1)]] that(3)] that(3)
    by (simp add: radix_has_def spells.at_root)
  show "\<exists>xs vs. radix_has c h xs vs" if "radix_inv ps c L" "h \<in> set L" for c L h
    using radix_invD(3) [OF that] .
  show "co_evictable radix_ops c + co_protected radix_ops c = int (size (tree_pages c))
      \<and> 0 \<le> co_evictable radix_ops c \<and> 0 \<le> co_protected radix_ops c" if "radix_inv ps c L" for c L
    using tree_pages_size [OF radix_invD(1) [OF that]] by (simp add: radix_ops_def)
qed (simp_all only: radix_ops_def cache_ops.select_convs radix_inv_perm radix_match_law radix_lock_law radix_unlock_law
      radix_insert_law radix_evict_law)

interpretation radix: prefix_cache radix_ops "Suc n" "radix_inv (Suc n)" radix_has tree_pages for n
  by (rule radix_laws) simp

end
