(* ===== verification/RadixProps.thy ===== *)
theory RadixProps
  imports PrefixCache
begin

text \<open>
  The properties of the radix prefix cache: longest match, round trip of an insertion, safety of
  eviction, and the invariant over every sequence of calls, as an inductive step relation whose
  state is the tree with the list of locked handles.
\<close>

declare tree_walk.simps [code] lock_loop.simps [code] matched_values.simps [code]

section \<open>A fresh cache\<close>

lemma init_children: "spells (init_tree ps tic) i xs vs \<Longrightarrow> i = 0 \<and> xs = [] \<and> vs = []"
  by (induction rule: spells.induct) (auto simp: init_tree_def new_node_def)

lemma init_live: "live (init_tree ps tic) i \<longleftrightarrow> i = 0"
  using init_children live_root unfolding live_def by blast

lemma init_live_nodes: "live_nodes (init_tree ps tic) = {}"
  by (auto simp: live_nodes_def init_live)

lemma init_inv: "0 < ps \<Longrightarrow> radix_inv ps (init_tree ps tic) []"
proof -
  assume ps: "0 < ps"
  let ?t = "init_tree ps tic"
  have sel: "rn_children (rt_node ?t i) = []" "rn_parent (rt_node ?t i) = None" "rn_ref (rt_node ?t 0) = 1"
      "rt_next ?t = 1" "rt_page ?t = ps" "rt_evictable ?t = 0" "rt_protected ?t = 0" for i
    by (simp_all add: init_tree_def new_node_def)
  note ln = init_live_nodes
  have "rwf ?t" unfolding rwf_def using ps by (simp add: init_live sel)
  moreover have "sizes_ok ?t" by (simp add: sizes_ok_def weight_def ln sel init_live)
  moreover have "refs_ok ?t []" by (simp add: refs_ok_def ln sel)
  ultimately show ?thesis by (simp add: radix_inv_def rinv_def sel)
qed

lemma init_holds: "holds (init_tree ps tic) ys us \<Longrightarrow> ys = []"
  unfolding holds_def using init_children by fastforce

section \<open>Match and insert\<close>

text \<open>C4: matching returns the longest cached prefix: the handle covers a prefix of the request that
  is cached, its indices are the cached ones, no longer page-aligned prefix of the request is cached,
  and the match changes nothing that is cached.\<close>

theorem match_prefix_longest:
  assumes "radix_inv ps t L"
  shows "\<exists>t' h vs. match_prefix tic xs t = Some (ok (t', h)) \<and> radix_inv ps t' L
    \<and> (\<forall>ys us. holds t' ys us \<longleftrightarrow> holds t ys us)
    \<and> holds t (take (hd_cached_len h) xs) vs
    \<and> (take (hd_cached_len h) xs \<noteq> [] \<longrightarrow> get_matched_indices t' h = Some (ok vs))
    \<and> (\<forall>ys us. holds t ys us \<and> take (length ys) xs = ys \<longrightarrow> length ys \<le> hd_cached_len h)"
proof -
  obtain t' h vs where m: "match_prefix tic xs t = Some (ok (t', h))" "rinv t' (map hd_node L)" "preserves t t'"
      "hd_cached_len h \<le> length xs" "spells t' (hd_node h) (take (hd_cached_len h) xs) vs"
      "holds t (take (hd_cached_len h) xs) vs"
      "\<And>ys us. holds t ys us \<Longrightarrow> take (length ys) xs = ys \<Longrightarrow> length ys \<le> hd_cached_len h"
    using match_prefix_ok [OF radix_invD(1) [OF assms]] by metis
  note pr = m(3) [unfolded preserves_def]
  have "radix_inv ps t' L" using pr m(2) by (intro radix_inv_step [OF assms]) (auto simp: radix_has_def)
  then show ?thesis
    using m pr get_matched_ok [OF rinvD(1) [OF m(2)] m(5)]
    by (intro exI [of _ t'] exI [of _ h] exI [of _ vs] conjI allI impI) (blast | simp)+
qed

definition demo_tree :: "rtree result option" where
  "demo_tree = map_option (\<lambda>r. rbind r (\<lambda>(t, n, h). ok t)) (insert_prefix 5 6 [1, 2, 3, 4] [10, 11, 20, 21] (init_tree 2 1))"

lemma paged_demo: "paged 2 [10, 11, 20, 21]"
  unfolding paged_def by (rule exI [of _ "[10, 20]"]) (simp add: expand_page_def upt_rec)

lemma demo_tree_ok:
  obtains t n h where "demo_tree = Some (ok t)" "radix_inv 2 t []" "rt_evictable t = 4"
    "insert_prefix 5 6 [1, 2, 3, 4] [10, 11, 20, 21] (init_tree 2 1) = Some (ok (t, n, h))"
    "tree_pages t = mset [10, 11, 20, 21]" "spells t (hd_node h) [1, 2, 3, 4] [10, 11, 20, 21]" "hd_cached_len h = 4"
proof -
  have i: "rinv (init_tree 2 1) (map hd_node [])" using radix_invD(1) [OF init_inv [of 2 1]] by simp
  have pg: "rt_page (init_tree 2 1) = 2" by (simp add: init_tree_def)
  obtain t n h vs where r: "insert_prefix 5 6 [1, 2, 3, 4] [10, 11, 20, 21] (init_tree 2 1) = Some (ok (t, n, h))"
      "rinv t (map hd_node [])" "hd_cached_len h = 4" "holds (init_tree 2 1) (take n [1, 2, 3, 4]) vs"
      "spells t (hd_node h) (take 4 [1, 2, 3, 4]) (vs @ take (4 - n) (drop n [10, 11, 20, 21]))"
      "rt_page t = 2" "tree_pages t = tree_pages (init_tree 2 1) + mset (take (4 - n) (drop n [10, 11, 20, 21]))"
      "rt_evictable t = rt_evictable (init_tree 2 1) + int (4 - n)"
    by (rule insert_prefix_ok [OF i, of "[1, 2, 3, 4]" "[10, 11, 20, 21]" 5 6]) (use paged_demo in \<open>simp_all add: pg\<close>)
  have "take n [1, 2, 3, 4 :: int] = []" by (rule init_holds [OF r(4)])
  then have n: "n = 0" by simp
  have "vs = []" using r(4) init_children n by (auto simp: holds_def)
  moreover have "tree_pages (init_tree 2 1) = {#}" by (simp add: tree_pages_def init_live_nodes)
  moreover have "rt_evictable (init_tree 2 1) = 0" by (simp add: init_tree_def)
  moreover have "radix_inv 2 t []" using r(2,6) by (simp add: radix_inv_def)
  ultimately show thesis using that [of t n h] r n by (simp add: demo_tree_def)
qed

theorem match_prefix_longest_witness:
  "\<exists>t t' h. demo_tree = Some (ok t) \<and> match_prefix 7 [1, 2, 9, 9] t = Some (ok (t', h)) \<and> 2 \<le> hd_cached_len h"
proof -
  obtain t and h :: handle where t: "demo_tree = Some (ok t)" "radix_inv 2 t []" "spells t (hd_node h) [1, 2, 3, 4] [10, 11, 20, 21]"
    by (rule demo_tree_ok) blast
  have pg: "rt_page t = 2" by (rule radix_invD(2) [OF t(2)])
  have "holds t [1, 2] [10, 11]"
    unfolding holds_def pg using t(3) by (intro conjI exI [of _ "hd_node h"] exI [of _ "[1, 2, 3, 4]"] exI [of _ "[10, 11, 20, 21]"]) auto
  then show ?thesis
    using match_prefix_longest [OF t(2), of 7 "[1, 2, 9, 9]"] t(1) by fastforce
qed

text \<open>C14: after an insertion, matching the same tokens hits the whole aligned prefix, and the indices
  are the inserted ones behind the part that was cached before; everything cached before is still
  cached, and the tree owns exactly the inserted pages more.\<close>

theorem insert_match_roundtrip:
  assumes "radix_inv ps t L" "length xs \<le> length idx" "paged ps (take (length xs div ps * ps) idx)"
    and "0 < length xs div ps"
  shows "\<exists>t1 n h vs t2 h2. insert_prefix tic tic' xs idx t = Some (ok (t1, n, h))
    \<and> match_prefix tic2 xs t1 = Some (ok (t2, h2)) \<and> radix_inv ps t2 L
    \<and> hd_cached_len h2 = length xs div ps * ps \<and> length vs = n
    \<and> get_matched_indices t2 h2 = Some (ok (vs @ take (length xs div ps * ps - n) (drop n idx)))
    \<and> (\<forall>ys us. holds t ys us \<longrightarrow> holds t2 ys us)
    \<and> tree_pages t2 = tree_pages t + mset (take (length xs div ps * ps - n) (drop n idx))"
proof -
  let ?A = "length xs div ps * ps"
  note inv = radix_invD(1) [OF assms(1)] and pg = radix_invD(2) [OF assms(1)]
  obtain t1 n h vs where r: "insert_prefix tic tic' xs idx t = Some (ok (t1, n, h))" "rinv t1 (map hd_node L)"
      "hd_cached_len h = ?A" "n \<le> ?A" "holds t (take n xs) vs"
      "spells t1 (hd_node h) (take ?A xs) (vs @ take (?A - n) (drop n idx))"
      "\<And>i ys us. spells t i ys us \<Longrightarrow> spells t1 i ys us" "rt_page t1 = rt_page t"
      "tree_pages t1 = tree_pages t + mset (take (?A - n) (drop n idx))"
    using insert_prefix_ok [OF inv assms(2), of tic tic'] assms(3) unfolding pg by metis
  have A: "?A \<le> length xs" by (rule div_times_less_eq_dividend)
  have inv1: "radix_inv ps t1 L" using r(2,7,8) by (intro radix_inv_step [OF assms(1)]) (auto simp: radix_has_def)
  have h1: "holds t1 (take ?A xs) (vs @ take (?A - n) (drop n idx))" by (rule spells_holds [OF r(6) rinvD(1) [OF r(2)]])
  obtain t2 h2 ws where m: "match_prefix tic2 xs t1 = Some (ok (t2, h2))" "rinv t2 (map hd_node L)" "preserves t1 t2"
      "hd_cached_len h2 \<le> length xs" "spells t2 (hd_node h2) (take (hd_cached_len h2) xs) ws"
      "holds t1 (take (hd_cached_len h2) xs) ws"
      "\<And>ys us. holds t1 ys us \<Longrightarrow> take (length ys) xs = ys \<Longrightarrow> length ys \<le> hd_cached_len h2"
    using match_prefix_ok [OF radix_invD(1) [OF inv1]] by metis
  note pr = m(3) [unfolded preserves_def]
  have lA: "length (take ?A xs) = ?A" using A by simp
  have "?A \<le> hd_cached_len h2" using m(7) [OF h1] A by (simp add: min_absorb2)
  moreover have "hd_cached_len h2 \<le> ?A"
    using m(4,6) radix_page_pos [OF assms(1)] r(8) pg
    by (intro aligned_le) (auto simp: holds_def min_absorb2)
  ultimately have len: "hd_cached_len h2 = ?A" by simp
  have "ws = vs @ take (?A - n) (drop n idx)"
  proof -
    have "length ws = ?A" using at_lengths [OF m(5) rinvD(1) [OF m(2)]] A by (simp add: len min_absorb2)
    moreover have "take (length (take ?A xs)) ws = vs @ take (?A - n) (drop n idx)"
      using holds_unique [OF rinvD(1) [OF r(2)] m(6) h1] by (simp add: len)
    ultimately show ?thesis by (simp only: lA take_all_iff [THEN iffD2, OF eq_refl])
  qed
  moreover have "take ?A xs \<noteq> []" using assms(4) radix_page_pos [OF assms(1)] A by (cases xs) auto
  ultimately have "get_matched_indices t2 h2 = Some (ok (vs @ take (?A - n) (drop n idx)))"
    using get_matched_ok [OF rinvD(1) [OF m(2)] m(5)] len by simp
  moreover have "radix_inv ps t2 L" using pr m(2) by (intro radix_inv_step [OF inv1]) (auto simp: radix_has_def)
  moreover have "holds t2 ys us" if "holds t ys us" for ys us
    using holds_mono [OF r(7) r(8) that] pr by blast
  moreover have "length vs = n"
    using below_length [OF holds_below [OF rinvD(1) [OF inv] r(5)] rinvD(1) [OF inv] live_root] r(4) A by simp
  ultimately show ?thesis using r(1,9) m(1) len pr by (metis (no_types, lifting))
qed

theorem insert_match_roundtrip_witness:
  "\<exists>t1 n h t2 h2 vs. insert_prefix 5 6 [1, 2, 3, 4, 5] [10, 11, 20, 21, 30] (init_tree 2 1) = Some (ok (t1, n, h))
    \<and> match_prefix 7 [1, 2, 3, 4, 5] t1 = Some (ok (t2, h2)) \<and> hd_cached_len h2 = 4
    \<and> get_matched_indices t2 h2 = Some (ok vs) \<and> length vs = 4"
proof -
  have "paged 2 (take (length [1, 2, 3, 4, 5 :: int] div 2 * 2) [10, 11, 20, 21, 30])" using paged_demo by simp
  from insert_match_roundtrip [OF init_inv [of 2 1] _ this, of 5 6 7]
  obtain t1 n h vs t2 h2 where r: "insert_prefix 5 6 [1, 2, 3, 4, 5] [10, 11, 20, 21, 30] (init_tree 2 1) = Some (ok (t1, n, h))"
      "match_prefix 7 [1, 2, 3, 4, 5] t1 = Some (ok (t2, h2))" "radix_inv 2 t2 []" "hd_cached_len h2 = 4"
      "get_matched_indices t2 h2 = Some (ok (vs @ take (4 - n) (drop n [10, 11, 20, 21, 30])))" "length vs = n"
    by fastforce
  moreover have "n \<le> 4"
    using r(1) insert_prefix_ok [OF radix_invD(1) [OF init_inv [of 2 1]], of "[1, 2, 3, 4, 5]" "[10, 11, 20, 21, 30]" 5 6]
      paged_demo by (auto simp: init_tree_def)
  ultimately show ?thesis by (intro exI conjI) (assumption | simp)+
qed

section \<open>Eviction\<close>

text \<open>C3: an eviction within \<open>evictable_size\<close> always succeeds: it returns at least the requested
  number of slots, whole pages that leave the tree and nothing else, keeps the sizes exact, and
  every locked handle keeps its tokens and indices.\<close>

theorem evict_safe:
  assumes "radix_inv ps t L" "0 < need" "need \<le> rt_evictable t"
  shows "\<exists>t' ev. evict need t = Some (ok (t', ev)) \<and> radix_inv ps t' L
    \<and> need \<le> int (length ev) \<and> paged ps ev \<and> tree_pages t = mset ev + tree_pages t'
    \<and> rt_evictable t' = rt_evictable t - int (length ev) \<and> rt_protected t' = rt_protected t
    \<and> (\<forall>g \<in> set L. \<forall>ys us. radix_has t g ys us \<longrightarrow> radix_has t' g ys us)"
  using radix_evict_law [OF assms] by blast

theorem evict_safe_witness:
  "\<exists>t t' ev. demo_tree = Some (ok t) \<and> evict 3 t = Some (ok (t', ev)) \<and> 3 \<le> length ev
    \<and> mset [10, 11, 20, 21] = mset ev + tree_pages t'"
proof -
  obtain t and h :: handle where t: "demo_tree = Some (ok t)" "radix_inv 2 t []" "rt_evictable t = 4"
      "tree_pages t = mset [10, 11, 20, 21]"
    by (rule demo_tree_ok) blast
  from evict_safe [OF t(2), of 3] t(3)
  obtain t' ev where "evict 3 t = Some (ok (t', ev))" "3 \<le> int (length ev)" "tree_pages t = mset ev + tree_pages t'"
    by fastforce
  then show ?thesis using t(1,4) by (intro exI conjI) (assumption | simp)+
qed

section \<open>Every sequence of calls\<close>

text \<open>A step is one call of the interface, as its clients make them: a handle is locked while it
  still stands for its tokens, and unlocked when it is locked.\<close>

inductive radix_step :: "rtree \<times> handle list \<Rightarrow> rtree \<times> handle list \<Rightarrow> bool" where
  step_match: "match_prefix tic xs t = Some (ok (t', h)) \<Longrightarrow> radix_step (t, L) (t', L)"
| step_insert: "length xs \<le> length idx \<Longrightarrow> paged (rt_page t) (take (length xs div rt_page t * rt_page t) idx)
    \<Longrightarrow> insert_prefix tic tic' xs idx t = Some (ok (t', n, h)) \<Longrightarrow> radix_step (t, L) (t', L)"
| step_lock: "radix_has t h xs vs \<Longrightarrow> lock_handle h False t = Some (ok t') \<Longrightarrow> radix_step (t, L) (t', h # L)"
| step_unlock: "h \<in> set L \<Longrightarrow> lock_handle h True t = Some (ok t') \<Longrightarrow> radix_step (t, L) (t', remove1 h L)"
| step_evict: "evict need t = Some (ok (t', ev)) \<Longrightarrow> radix_step (t, L) (t', L)"

inductive_cases radix_stepE: "radix_step s (t', L')"

lemma evict_inv:
  assumes "radix_inv ps t L" "evict need t = Some (ok (t', ev))"
  shows "radix_inv ps t' L"
proof (cases "need = 0")
  case True
  then show ?thesis using assms by (simp add: evict_def)
next
  case False
  have le: "need \<le> rt_evictable t" using assms(2) False by (auto simp: evict_def split: if_splits)
  have pos: "0 < need"
  proof (rule ccontr)
    assume "\<not> 0 < need"
    then have neg: "need < 0" using False by simp
    then have "evict_loop need t ls 0 [] = Some (ok (t, []))" for ls by (subst evict_loop.simps) simp
    then show False using assms(2) False le
      by (auto simp: evict_def Option.bind_eq_Some_conv)
  qed
  show ?thesis using radix_evict_law [OF assms(1) pos le] assms(2) by auto
qed

lemma radix_step_inv:
  assumes "radix_step s s'" "radix_inv ps (fst s) (snd s)"
  shows "radix_inv ps (fst s') (snd s')"
  using assms
proof (cases rule: radix_step.cases)
  case (step_match tic xs t t' h L)
  then show ?thesis using radix_match_law [of ps t L tic xs] assms(2) by fastforce
next
  case (step_insert xs idx t tic tic' t' n h L)
  then show ?thesis using radix_insert_law [of ps t L xs idx tic tic'] radix_invD(2) [of ps t L] assms(2) by fastforce
next
  case (step_lock t h xs vs t' L)
  then show ?thesis using radix_lock_law [of ps t L h xs vs] assms(2) by fastforce
next
  case (step_unlock h L t t')
  then show ?thesis using radix_unlock_law [of ps t L h] assms(2) by fastforce
next
  case (step_evict need t t' ev L)
  then show ?thesis using evict_inv assms(2) by simp
qed

text \<open>C16: in every state that calls can lead to, the size counters are the sizes of the unlocked
  and the locked nodes, a node's count is the number of locked handles at or below it, the slots the
  tree owns are as many as the counters say, and every locked handle still yields its indices.\<close>

theorem radix_reachable:
  assumes "0 < ps" "radix_step\<^sup>*\<^sup>* (init_tree ps tic, []) (t, L)"
  shows "rt_evictable t = weight (\<lambda>n. rn_ref n = 0) t \<and> rt_protected t = weight (\<lambda>n. rn_ref n \<noteq> 0) t
    \<and> (\<forall>i \<in> live_nodes t. rn_ref (rt_node t i) = int (length (filter (\<lambda>h. up t (hd_node h) i) L)))
    \<and> int (size (tree_pages t)) = rt_evictable t + rt_protected t
    \<and> (\<forall>h \<in> set L. \<exists>vs. length vs = hd_cached_len h \<and> (vs \<noteq> [] \<longrightarrow> get_matched_indices t h = Some (ok vs)))"
proof -
  have "radix_inv ps (fst s) (snd s)" if "radix_step\<^sup>*\<^sup>* (init_tree ps tic, []) s" for s
    using that by (induction rule: rtranclp_induct) (use init_inv [OF assms(1)] radix_step_inv in auto)
  from this [OF assms(2)] have inv: "radix_inv ps t L" by simp
  note r = radix_invD(1) [OF inv]
  have "\<exists>vs. length vs = hd_cached_len h \<and> (vs \<noteq> [] \<longrightarrow> get_matched_indices t h = Some (ok vs))" if hL: "h \<in> set L" for h
  proof -
    obtain xs vs where h: "spells t (hd_node h) xs vs" "hd_cached_len h = length xs"
      using radix_invD(3) [OF inv hL] by (auto simp: radix_has_def)
    have len: "length vs = length xs" using at_lengths [OF h(1) rinvD(1) [OF r]] by simp
    then have "vs \<noteq> [] \<longrightarrow> get_matched_indices t h = Some (ok vs)"
      using get_matched_ok [OF rinvD(1) [OF r] h(1)] by (cases xs) auto
    then show ?thesis using h(2) len by (intro exI [of _ vs]) simp
  qed
  then show ?thesis
    using rinvD(2,3) [OF r] tree_pages_size(1) [OF r]
    by (simp add: sizes_ok_def refs_ok_def filter_map comp_def)
qed

theorem radix_reachable_witness:
  "\<exists>t h vs. rt_evictable t + rt_protected t = 4 \<and> int (size (tree_pages t)) = rt_evictable t + rt_protected t
     \<and> hd_cached_len h = 4 \<and> get_matched_indices t h = Some (ok vs)"
proof -
  obtain t n and h :: handle where t: "demo_tree = Some (ok t)" "radix_inv 2 t []" "rt_evictable t = 4"
      "insert_prefix 5 6 [1, 2, 3, 4] [10, 11, 20, 21] (init_tree 2 1) = Some (ok (t, n, h))"
      "tree_pages t = mset [10, 11, 20, 21]" "spells t (hd_node h) [1, 2, 3, 4] [10, 11, 20, 21]" "hd_cached_len h = 4"
    by (rule demo_tree_ok) blast
  have pg: "rt_page (init_tree 2 1) = 2" by (simp add: init_tree_def)
  have s1: "radix_step (init_tree 2 1, []) (t, [])"
    by (rule step_insert [OF _ _ t(4)]) (use paged_demo in \<open>simp_all add: pg\<close>)
  have has: "radix_has t h [1, 2, 3, 4] [10, 11, 20, 21]" using t(6,7) by (simp add: radix_has_def)
  obtain t2 where l: "lock_handle h False t = Some (ok t2)" "tree_pages t2 = tree_pages t"
    using radix_lock_law [OF t(2) has] by blast
  have "radix_step\<^sup>*\<^sup>* (init_tree 2 1, []) (t2, [h])"
    using s1 step_lock [OF has l(1), of "[]"] by (meson converse_rtranclp_into_rtranclp r_into_rtranclp)
  from radix_reachable [OF _ this]
  have r: "int (size (tree_pages t2)) = rt_evictable t2 + rt_protected t2"
      "\<exists>vs. length vs = hd_cached_len h \<and> (vs \<noteq> [] \<longrightarrow> get_matched_indices t2 h = Some (ok vs))" by auto
  from r(2) obtain vs where "get_matched_indices t2 h = Some (ok vs)" using t(7) by fastforce
  then show ?thesis using r(1) l(2) t(5,7) by (intro exI [of _ t2] exI [of _ h] exI [of _ vs]) simp
qed

end
