(* ===== verification/SchedCore.thy ===== *)
theory SchedCore
  imports Prelude "HOL-Library.Multiset"
begin

text \<open>
  The values the scheduler works on: requests, batches and sampling parameters of
  \<open>freetoken/core.py\<close>, the request-slot table of \<open>scheduler/table.py\<close> and the set of decoding
  requests of \<open>scheduler/decode.py\<close>.

  A request object is a record; its identity is its \<open>uid\<close>, which the tokenizer makes unique. A
  tensor of token ids is a list. \<open>table_idx\<close> is an integer because \<open>-1\<close> marks a freed request.
\<close>

section \<open>Requests\<close>

record sampling_params =
  sp_temperature :: rat
  sp_top_k :: int
  sp_top_p :: rat
  sp_ignore_eos :: bool
  sp_max_tokens :: int
  sp_stop_strs :: "string list"

definition is_greedy :: "sampling_params \<Rightarrow> bool" where
  "is_greedy p \<longleftrightarrow> (sp_temperature p \<le> 0 \<or> sp_top_k p = 1) \<and> sp_top_p p = 1"

record 'h req =
  rq_uid :: int
  rq_ids :: "int list"
  rq_table :: int
  rq_cached :: nat
  rq_device :: nat
  rq_output :: int
  rq_max :: int
  rq_sampling :: sampling_params
  rq_handle :: 'h
  rq_mm :: bool
  rq_chunked :: bool
  rq_aborted :: bool

text \<open>\<open>Req.__post_init__\<close>; \<open>rq_chunked\<close> is the class \<open>ChunkedReq\<close>.\<close>

definition mk_req :: "bool \<Rightarrow> int list \<Rightarrow> int \<Rightarrow> nat \<Rightarrow> int \<Rightarrow> int \<Rightarrow> 'h \<Rightarrow> sampling_params \<Rightarrow> bool \<Rightarrow> 'h req result" where
  "mk_req chunked input_ids table_idx cached_len output_len uid cache_handle sampling mm =
    (let device_len = length input_ids; max_device_len = int (length input_ids) + output_len in
     rassert (cached_len < device_len \<and> int device_len \<le> max_device_len)
       (ok \<lparr>rq_uid = uid, rq_ids = input_ids, rq_table = table_idx, rq_cached = cached_len, rq_device = device_len,
            rq_output = output_len, rq_max = max_device_len, rq_sampling = sampling, rq_handle = cache_handle,
            rq_mm = mm, rq_chunked = chunked, rq_aborted = False\<rparr>))"

definition remain_len :: "'h req \<Rightarrow> int" where
  "remain_len r = rq_max r - int (rq_device r)"

definition extend_len :: "'h req \<Rightarrow> int" where
  "extend_len r = int (rq_device r) - int (rq_cached r)"

definition complete_one :: "'h req \<Rightarrow> 'h req" where
  "complete_one r = r\<lparr>rq_cached := rq_device r, rq_device := rq_device r + 1\<rparr>"

definition append_host :: "int list \<Rightarrow> 'h req \<Rightarrow> 'h req result" where
  "append_host next r =
    (if rq_chunked r then raise NotImplementedError
     else rassert (int (length (rq_ids r) + length next) \<le> rq_max r) (ok (r\<lparr>rq_ids := rq_ids r @ next\<rparr>)))"

definition can_decode :: "'h req \<Rightarrow> bool" where
  "can_decode r \<longleftrightarrow> \<not> rq_chunked r \<and> 0 < remain_len r"

datatype phase = Prefill | Decode

record 'h batch =
  ba_reqs :: "'h req list"
  ba_phase :: phase
  ba_new_tokens :: int
  ba_cached_tokens :: int
  ba_admissions :: "(int \<times> nat \<times> nat) list"

section \<open>The table of request slots\<close>

record table_manager =
  tm_max :: nat
  tm_free :: "int list"
  tm_tokens :: "int \<Rightarrow> nat \<Rightarrow> int"

definition tm_init :: "nat \<Rightarrow> table_manager" where
  "tm_init n = \<lparr>tm_max = n, tm_free = map int [0..<n], tm_tokens = (\<lambda>_ _. 0)\<rparr>"

definition tm_allocate :: "table_manager \<Rightarrow> (table_manager \<times> int) result" where
  "tm_allocate t = (if tm_free t = [] then raise IndexError
     else ok (t\<lparr>tm_free := butlast (tm_free t)\<rparr>, last (tm_free t)))"

definition tm_release :: "int \<Rightarrow> table_manager \<Rightarrow> table_manager" where
  "tm_release slot t = t\<lparr>tm_free := tm_free t @ [slot]\<rparr>"

definition tm_rebuild :: "table_manager \<Rightarrow> table_manager" where
  "tm_rebuild t = tm_init (tm_max t)"

text \<open>Every slot is free or held by one request.\<close>

definition tm_inv :: "table_manager \<Rightarrow> int list \<Rightarrow> bool" where
  "tm_inv t held \<longleftrightarrow> mset (tm_free t) + mset held = mset (map int [0..<tm_max t])"

lemma tm_init_inv: "tm_inv (tm_init n) []"
  by (simp add: tm_inv_def tm_init_def)

lemma tm_inv_distinct:
  assumes "tm_inv t held"
  shows "distinct (tm_free t @ held)"
proof -
  have "mset (tm_free t @ held) = mset (map int [0..<tm_max t])" using assms by (simp add: tm_inv_def)
  moreover have "distinct (map int [0..<tm_max t])" by (simp add: distinct_map)
  ultimately show ?thesis using mset_eq_imp_distinct_iff by blast
qed

lemma tm_allocate_ok:
  assumes "tm_inv t held" "tm_free t \<noteq> []"
  shows "\<exists>t' s. tm_allocate t = ok (t', s) \<and> tm_inv t' (s # held) \<and> s \<notin> set held \<and> 0 \<le> s
    \<and> tm_tokens t' = tm_tokens t"
proof -
  have split: "tm_free t = butlast (tm_free t) @ [last (tm_free t)]" using assms(2) by simp
  have "mset (tm_free t) = mset (butlast (tm_free t)) + {#last (tm_free t)#}"
    by (subst split) simp
  then have "tm_inv (t\<lparr>tm_free := butlast (tm_free t)\<rparr>) (last (tm_free t) # held)"
    using assms(1) by (simp add: tm_inv_def)
  moreover have "last (tm_free t) \<notin> set held"
    using tm_inv_distinct [OF assms(1)] last_in_set [OF assms(2)] by auto
  moreover have "0 \<le> last (tm_free t)"
  proof -
    have "last (tm_free t) \<in># mset (tm_free t) + mset held" using assms(2) by simp
    then have "last (tm_free t) \<in># mset (map int [0..<tm_max t])" using assms(1) unfolding tm_inv_def by metis
    then show ?thesis by auto
  qed
  ultimately show ?thesis using assms(2) by (simp add: tm_allocate_def)
qed

lemma tm_release_inv:
  assumes "tm_inv t held" "s \<in> set held"
  shows "tm_inv (tm_release s t) (remove1 s held)"
proof -
  have "mset held = add_mset s (mset (remove1 s held))" using assms(2) by simp
  then have "mset (tm_free t) + mset held = add_mset s (mset (tm_free t) + mset (remove1 s held))"
    by (metis union_mset_add_mset_right)
  then show ?thesis using assms(1) unfolding tm_inv_def tm_release_def by simp
qed

section \<open>The decoding requests\<close>

text \<open>\<open>running_reqs\<close> is a set of request objects: a list without repeated identity, whose order
  stands for the unspecified iteration order of the set.\<close>

record 'h decode_manager =
  dm_page :: nat
  dm_running :: "'h req list"

definition req_union :: "'h req list \<Rightarrow> 'h req list \<Rightarrow> 'h req list" where
  "req_union rs bs = filter (\<lambda>r. rq_uid r \<notin> rq_uid ` set bs) rs @ bs"

definition filter_reqs :: "'h req list \<Rightarrow> 'h decode_manager \<Rightarrow> 'h decode_manager" where
  "filter_reqs bs d = d\<lparr>dm_running := filter can_decode (req_union (dm_running d) bs)\<rparr>"

definition remove_req :: "'h req \<Rightarrow> 'h decode_manager \<Rightarrow> 'h decode_manager" where
  "remove_req r d = d\<lparr>dm_running := filter (\<lambda>q. rq_uid q \<noteq> rq_uid r) (dm_running d)\<rparr>"

definition dm_abort :: "int \<Rightarrow> 'h decode_manager \<Rightarrow> 'h decode_manager \<times> 'h req option" where
  "dm_abort uid d = (case filter (\<lambda>r. rq_uid r = uid) (dm_running d) of
      [] \<Rightarrow> (d, None)
    | r # _ \<Rightarrow> (remove_req r d, Some r))"

definition inflight_tokens :: "'h decode_manager \<Rightarrow> int" where
  "inflight_tokens d = sum_list (map remain_len (dm_running d)) + (int (dm_page d) - 1) * int (length (dm_running d))"

definition dm_schedule :: "'h decode_manager \<Rightarrow> 'h batch option" where
  "dm_schedule d = (if dm_running d = [] then None
     else Some \<lparr>ba_reqs = sort_key rq_uid (dm_running d), ba_phase = Decode, ba_new_tokens = 0, ba_cached_tokens = 0,
                ba_admissions = []\<rparr>)"

definition dm_inv :: "'h decode_manager \<Rightarrow> bool" where
  "dm_inv d \<longleftrightarrow> distinct (map rq_uid (dm_running d)) \<and> (\<forall>r \<in> set (dm_running d). can_decode r)"

lemma filter_reqs_inv:
  assumes "dm_inv d" "distinct (map rq_uid bs)"
  shows "dm_inv (filter_reqs bs d)"
proof -
  let ?rs = "dm_running d"
  have "distinct (map rq_uid (req_union ?rs bs))"
    using assms by (auto simp: req_union_def dm_inv_def distinct_map_filter)
  then show ?thesis by (simp add: dm_inv_def filter_reqs_def distinct_map_filter)
qed

lemma remove_req_inv: "dm_inv d \<Longrightarrow> dm_inv (remove_req r d)"
  by (auto simp: dm_inv_def remove_req_def distinct_map_filter)

lemma dm_abort_inv: "dm_inv d \<Longrightarrow> dm_inv (fst (dm_abort uid d))"
  by (auto simp: dm_abort_def remove_req_inv split: list.split)

end
