(* ===== verification/CacheManager.thy ===== *)
theory CacheManager
  imports PrefixCache SchedCore
begin

text \<open>
  The page accounting of \<open>scheduler/cache.py\<close>: the free list of pages, the page table that maps the
  positions of a request to token slots, and the commits to the prefix cache. The prefix cache is any
  provider of the interface \<open>prefix_cache\<close>; the extra pools of hybrid and sliding window models
  are not modelled, so this is the path that the naive and the radix cache take.

  A row of the page table is a function from positions to slots. The lock on a handle, the free list
  and the page table are the fields of one record, passed through the operations.
\<close>

section \<open>State and operations\<close>

record 'c cache_manager =
  cm_free :: "int list"
  cm_cache :: 'c
  cm_num_pages :: nat
  cm_page :: nat
  cm_table :: "int \<Rightarrow> nat \<Rightarrow> int"
  cm_lazy :: "int list list option"

definition init_manager :: "'c \<Rightarrow> nat \<Rightarrow> nat \<Rightarrow> (int \<Rightarrow> nat \<Rightarrow> int) \<Rightarrow> 'c cache_manager" where
  "init_manager fresh num_pages page_size page_table =
    \<lparr>cm_free = map (\<lambda>i. int i * int page_size) [0..<num_pages], cm_cache = fresh, cm_num_pages = num_pages,
     cm_page = page_size, cm_table = page_table, cm_lazy = None\<rparr>"

definition page_usage :: "('c, 'h) cache_ops \<Rightarrow> 'c cache_manager \<Rightarrow> int \<times> int" where
  "page_usage ops m =
    (let all_pages = int (cm_num_pages m) in
     (all_pages - int (length (cm_free m)) - co_evictable ops (cm_cache m) div int (cm_page m), all_pages))"

definition available_size :: "('c, 'h) cache_ops \<Rightarrow> 'c cache_manager \<Rightarrow> int" where
  "available_size ops m = co_evictable ops (cm_cache m) + int (length (cm_free m)) * int (cm_page m)"

definition match_req :: "('c, 'h) cache_ops \<Rightarrow> int \<Rightarrow> int list \<Rightarrow> bool \<Rightarrow> 'c cache_manager
    \<Rightarrow> ('c cache_manager \<times> 'h) result option" where
  "match_req ops tic input_ids mm m =
    (if length input_ids > 0 then
       obind (co_match ops tic (if mm then [] else take (length input_ids - 1) input_ids) (cm_cache m))
         (\<lambda>(c, h). Some (ok (m\<lparr>cm_cache := c\<rparr>, h)))
     else Some (raise AssertionError))"

definition set_lock :: "('c, 'h) cache_ops \<Rightarrow> 'h \<Rightarrow> bool \<Rightarrow> 'c cache_manager \<Rightarrow> 'c cache_manager result option" where
  "set_lock ops h unlock m = obind (co_lock ops h unlock (cm_cache m)) (\<lambda>c. Some (ok (m\<lparr>cm_cache := c\<rparr>)))"

text \<open>\<open>_free\<close>, and the version that \<open>lazy_free_region\<close> puts in its place until the region ends.\<close>

definition free_pages :: "int list \<Rightarrow> 'c cache_manager \<Rightarrow> 'c cache_manager" where
  "free_pages indices m = (case cm_lazy m of
      None \<Rightarrow> if length indices > 0 then m\<lparr>cm_free := cm_free m @ stride (cm_page m) indices\<rparr> else m
    | Some pending \<Rightarrow> m\<lparr>cm_lazy := Some (pending @ [stride (cm_page m) indices])\<rparr>)"

definition enter_lazy :: "'c cache_manager \<Rightarrow> 'c cache_manager" where
  "enter_lazy m = m\<lparr>cm_lazy := Some []\<rparr>"

definition exit_lazy :: "'c cache_manager \<Rightarrow> 'c cache_manager" where
  "exit_lazy m = (case cm_lazy m of
      None \<Rightarrow> m
    | Some pending \<Rightarrow> m\<lparr>cm_free := cm_free m @ concat pending, cm_lazy := None\<rparr>)"

definition allocate :: "('c, 'h) cache_ops \<Rightarrow> nat \<Rightarrow> 'c cache_manager \<Rightarrow> ('c cache_manager \<times> int list) result option" where
  "allocate ops needed_pages m =
    obind
      (if needed_pages > length (cm_free m) then
         obind (co_evict ops (int (needed_pages - length (cm_free m)) * int (cm_page m)) (cm_cache m))
           (\<lambda>(c, evicted).
             let m' = m\<lparr>cm_cache := c, cm_free := cm_free m @ stride (cm_page m) evicted\<rparr> in
             Some (if length (cm_free m') \<ge> needed_pages then ok m' else raise AssertionError))
       else Some (ok m))
      (\<lambda>m. Some (ok (m\<lparr>cm_free := drop needed_pages (cm_free m)\<rparr>, take needed_pages (cm_free m))))"

definition page_to_token :: "nat \<Rightarrow> int list \<Rightarrow> int list" where
  "page_to_token page_size pages = (if page_size = 1 then pages else expand_pages page_size pages)"

definition row :: "(int \<Rightarrow> nat \<Rightarrow> int) \<Rightarrow> int \<Rightarrow> nat \<Rightarrow> nat \<Rightarrow> int list" where
  "row tb t a b = map (tb t) [a..<b]"

definition write_cell :: "(int \<Rightarrow> nat \<Rightarrow> int) \<Rightarrow> (int \<times> nat) \<times> int \<Rightarrow> int \<Rightarrow> nat \<Rightarrow> int" where
  "write_cell tb w = tb(fst (fst w) := (tb (fst (fst w)))(snd (fst w) := snd w))"

definition write_positions :: "nat \<Rightarrow> (int \<times> nat \<times> nat) list \<Rightarrow> (int \<times> nat) list" where
  "write_positions page_size info =
    concat (map (\<lambda>(t, first, last). map (Pair t) [first * page_size..<last * page_size]) info)"

definition write_page_table :: "int list \<Rightarrow> (int \<times> nat \<times> nat) list \<Rightarrow> 'c cache_manager \<Rightarrow> 'c cache_manager result" where
  "write_page_table allocated info m =
    (let positions = write_positions (cm_page m) info in
     rassert (length positions = length allocated)
       (ok (m\<lparr>cm_table := foldl write_cell (cm_table m) (zip positions allocated)\<rparr>)))"

definition copy_row :: "int \<Rightarrow> nat \<Rightarrow> nat \<Rightarrow> int list \<Rightarrow> 'c cache_manager \<Rightarrow> 'c cache_manager result" where
  "copy_row t a b vs m =
    (if length vs = b - a
     then ok (m\<lparr>cm_table := foldl write_cell (cm_table m) (zip (map (Pair t) [a..<b]) vs)\<rparr>)
     else raise (RuntimeError ''copy_''))"

definition allocation_info :: "nat \<Rightarrow> 'h req list \<Rightarrow> (int \<times> nat \<times> nat) list" where
  "allocation_info page_size reqs =
    [(rq_table r, pages_for page_size (rq_cached r), pages_for page_size (rq_device r)).
      r \<leftarrow> reqs, pages_for page_size (rq_cached r) < pages_for page_size (rq_device r)]"

definition needed_pages :: "(int \<times> nat \<times> nat) list \<Rightarrow> nat" where
  "needed_pages info = sum_list (map (\<lambda>(t, first, last). last - first) info)"

definition allocate_paged :: "('c, 'h) cache_ops \<Rightarrow> 'h req list \<Rightarrow> 'c cache_manager \<Rightarrow> 'c cache_manager result option" where
  "allocate_paged ops reqs m =
    (let info = allocation_info (cm_page m) reqs; needed = needed_pages info in
     if needed > 0 then
       obind (allocate ops needed m)
         (\<lambda>(m, pages). Some (write_page_table (page_to_token (cm_page m) pages) info m))
     else Some (ok m))"

definition padded_tail :: "'h req \<Rightarrow> nat \<Rightarrow> 'c cache_manager \<Rightarrow> int list" where
  "padded_tail r start m = row (cm_table m) (rq_table r) start (pages_for (cm_page m) (rq_cached r) * cm_page m)"

definition cache_req :: "('c, 'h) cache_ops \<Rightarrow> int \<Rightarrow> int \<Rightarrow> 'h req \<Rightarrow> bool \<Rightarrow> 'c cache_manager
    \<Rightarrow> ('c cache_manager \<times> 'h req) result option" where
  "cache_req ops tic tic' r finished m =
    (let page_indices = row (cm_table m) (rq_table r) 0 (rq_cached r); old_len = co_len ops (rq_handle r) in
     if rq_mm r then
       obind (set_lock ops (rq_handle r) True m)
         (\<lambda>m. Some (ok (if finished then free_pages (padded_tail r old_len m) m else m, r)))
     else
       obind (co_insert ops tic tic' (take (rq_cached r) (rq_ids r)) page_indices (cm_cache m))
         (\<lambda>(c, cached_len, new_handle).
           obind (set_lock ops (rq_handle r) True (m\<lparr>cm_cache := c\<rparr>))
             (\<lambda>m. let m = free_pages (take (cached_len - old_len) (drop old_len page_indices)) m in
                if finished then Some (ok (free_pages (padded_tail r (co_len ops new_handle) m) m, r))
                else
                  obind
                    (if cached_len > old_len then
                       obind (co_indices ops (cm_cache m) new_handle)
                         (\<lambda>canonical. Some (copy_row (rq_table r) old_len cached_len
                            (take (cached_len - old_len) (drop old_len canonical)) m))
                     else Some (ok m))
                    (\<lambda>m. obind (set_lock ops new_handle False m) (\<lambda>m. Some (ok (m, r\<lparr>rq_handle := new_handle\<rparr>)))))))"

definition check_integrity :: "('c, 'h) cache_ops \<Rightarrow> 'c cache_manager \<Rightarrow> unit result" where
  "check_integrity ops m =
    (let cache_pages = (co_evictable ops (cm_cache m) + co_protected ops (cm_cache m)) div int (cm_page m) in
     if int (length (cm_free m)) + cache_pages \<noteq> int (cm_num_pages m) then raise (RuntimeError ''integrity'')
     else rassert (cm_page m > 1 \<longrightarrow> (\<forall>s \<in> set (cm_free m). s mod int (cm_page m) = 0)) (ok ()))"

definition cm_rebuild :: "'c \<Rightarrow> nat \<Rightarrow> (int \<Rightarrow> nat \<Rightarrow> int) \<Rightarrow> 'c cache_manager \<Rightarrow> 'c cache_manager" where
  "cm_rebuild fresh num_pages page_table m = m\<lparr>cm_num_pages := num_pages, cm_table := page_table,
     cm_free := map (\<lambda>i. int i * int (cm_page m)) [0..<num_pages], cm_cache := fresh\<rparr>"

section \<open>Rows of the page table\<close>

lemma length_row [simp]: "length (row tb t a b) = b - a"
  by (simp add: row_def)

lemma row_append: "a \<le> b \<Longrightarrow> b \<le> c \<Longrightarrow> row tb t a b @ row tb t b c = row tb t a c"
  by (metis row_def map_append le_add_diff_inverse upt_add_eq_append)

lemma take_row: "take k (row tb t a b) = row tb t a (min (a + k) b)"
  by (simp add: row_def take_map min_def)

lemma drop_row: "drop k (row tb t a b) = row tb t (a + k) b"
  by (simp add: row_def drop_map)

lemma row_empty [simp]: "b \<le> a \<Longrightarrow> row tb t a b = []"
  by (simp add: row_def)

lemma row_cong: "(\<And>p. a \<le> p \<Longrightarrow> p < b \<Longrightarrow> tb' t p = tb t p) \<Longrightarrow> row tb' t a b = row tb t a b"
  by (simp add: row_def)

lemma write_cell_same: "write_cell tb ((t, p), v) t p = v"
  by (simp add: write_cell_def)

lemma write_cell_other: "(t, p) \<noteq> fst w \<Longrightarrow> write_cell tb w t p = tb t p" "t \<noteq> fst (fst w) \<Longrightarrow> write_cell tb w t = tb t"
  by (auto simp: write_cell_def)

lemma write_other: "(\<And>p. (t, p) \<notin> set ps) \<Longrightarrow> foldl write_cell tb (zip ps vs) t = tb t"
proof (induction ps arbitrary: tb vs)
  case (Cons p ps)
  show ?case
  proof (cases vs)
    case (Cons v ws)
    have "fst p \<noteq> t" using Cons.prems by (metis list.set_intros(1) prod.collapse)
    then show ?thesis using Cons.IH [of "write_cell tb (p, v)" ws] Cons.prems Cons by (simp add: write_cell_other)
  qed simp
qed simp

lemma write_outside: "(t, p) \<notin> set ps \<Longrightarrow> foldl write_cell tb (zip ps vs) t p = tb t p"
proof (induction ps arbitrary: tb vs)
  case (Cons q ps)
  then show ?case by (cases vs) (simp_all add: write_cell_other)
qed simp

lemma write_row: "length vs = b - a \<Longrightarrow> row (foldl write_cell tb (zip (map (Pair t) [a..<b]) vs)) t a b = vs"
proof (induction vs arbitrary: tb a)
  case Nil
  then show ?case by simp
next
  case (Cons v vs)
  then have lt: "a < b" by simp
  then have u: "[a..<b] = a # [Suc a..<b]" by (simp add: upt_conv_Cons)
  let ?tb = "write_cell tb ((t, a), v)"
  let ?tb' = "foldl write_cell ?tb (zip (map (Pair t) [Suc a..<b]) vs)"
  have "row ?tb' t (Suc a) b = vs" using Cons.prems lt by (intro Cons.IH) simp
  moreover have "?tb' t a = v" by (subst write_outside) (auto simp: write_cell_same)
  ultimately show ?case unfolding row_def u by simp
qed

end
