(* ===== verification/CacheOwn.thy ===== *)
theory CacheOwn
  imports CacheManager
begin

text \<open>
  Who owns which page: the invariant of the cache manager over the requests that hold resources, and
  the proof, for every prefix cache that satisfies the laws of \<open>prefix_cache\<close>, that allocation and
  commit keep it. Every slot of the pool is free, waiting in the lazy list, in the prefix cache, or
  in the part of exactly one request's row behind its handle.
\<close>

section \<open>The invariant\<close>

definition pool_free :: "'c cache_manager \<Rightarrow> int list" where
  "pool_free m = cm_free m @ concat (case cm_lazy m of None \<Rightarrow> [] | Some pending \<Rightarrow> pending)"

definition own :: "('c, 'h) cache_ops \<Rightarrow> 'c cache_manager \<Rightarrow> 'h req \<Rightarrow> int list" where
  "own ops m r = padded_tail r (co_len ops (rq_handle r)) m"

definition locks :: "'h req list \<Rightarrow> 'h list" where
  "locks rs = map rq_handle (filter (\<lambda>r. \<not> rq_mm r) rs)"

definition req_ok :: "('c \<Rightarrow> 'h \<Rightarrow> int list \<Rightarrow> int list \<Rightarrow> bool) \<Rightarrow> 'c cache_manager \<Rightarrow> 'h req \<Rightarrow> bool" where
  "req_ok has m r \<longleftrightarrow> (\<exists>xs vs. has (cm_cache m) (rq_handle r) xs vs \<and> take (length xs) (rq_ids r) = xs
     \<and> length xs \<le> rq_cached r \<and> row (cm_table m) (rq_table r) 0 (length xs) = vs \<and> (rq_mm r \<longrightarrow> xs = [])
     \<and> paged (cm_page m) (padded_tail r (length xs) m))"

definition cm_inv :: "('c, 'h) cache_ops \<Rightarrow> ('c \<Rightarrow> 'h list \<Rightarrow> bool) \<Rightarrow> ('c \<Rightarrow> 'h \<Rightarrow> int list \<Rightarrow> int list \<Rightarrow> bool)
    \<Rightarrow> ('c \<Rightarrow> int multiset) \<Rightarrow> 'c cache_manager \<Rightarrow> 'h req list \<Rightarrow> bool" where
  "cm_inv ops cinv has tokens m rs \<longleftrightarrow>
     cinv (cm_cache m) (locks rs) \<and> distinct (map rq_table rs) \<and> (\<forall>r \<in> set rs. req_ok has m r)
     \<and> (\<forall>b \<in> set (pool_free m). int (cm_page m) dvd b)
     \<and> mset (expand_pages (cm_page m) (pool_free m)) + tokens (cm_cache m) + sum_list (map (\<lambda>r. mset (own ops m r)) rs)
       = mset (map int [0..<cm_num_pages m * cm_page m])"

lemma locks_simps [simp]:
  "locks [] = []" "locks (r # rs) = (if rq_mm r then locks rs else rq_handle r # locks rs)"
  "locks (rs @ qs) = locks rs @ locks qs"
  by (simp_all add: locks_def)

lemma locks_complete [simp]: "locks (map complete_one rs) = locks rs"
  by (induction rs) (simp_all add: complete_one_def)

lemma locks_mem: "r \<in> set rs \<Longrightarrow> \<not> rq_mm r \<Longrightarrow> rq_handle r \<in> set (locks rs)"
  by (auto simp: locks_def)

lemma locks_perm: "mset rs = mset qs \<Longrightarrow> mset (locks rs) = mset (locks qs)"
  by (simp add: locks_def mset_filter)

lemma complete_one_simps [simp]:
  "rq_table (complete_one r) = rq_table r" "rq_handle (complete_one r) = rq_handle r" "rq_ids (complete_one r) = rq_ids r"
  "rq_mm (complete_one r) = rq_mm r" "rq_cached (complete_one r) = rq_device r" "rq_device (complete_one r) = rq_device r + 1"
  "rq_uid (complete_one r) = rq_uid r" "rq_max (complete_one r) = rq_max r" "rq_chunked (complete_one r) = rq_chunked r"
  by (simp_all add: complete_one_def)

section \<open>Freeing\<close>

lemma expand_all: "expand_pages ps (map (\<lambda>i. int i * int ps) [0..<n]) = map int [0..<n * ps]"
proof (induction n)
  case (Suc n)
  have "expand_page ps (int n * int ps) = map int [n * ps..<n * ps + ps]"
    by (intro nth_equalityI) (simp_all add: expand_page_def)
  moreover have "[0..<Suc n * ps] = [0..<n * ps] @ [n * ps..<n * ps + ps]"
    by (metis add.commute le_add1 mult_Suc upt_add_eq_append zero_le)
  ultimately show ?case using Suc by (simp del: mult_Suc)
qed simp

lemma free_pages_fields [simp]:
  "cm_cache (free_pages idx m) = cm_cache m" "cm_table (free_pages idx m) = cm_table m"
  "cm_page (free_pages idx m) = cm_page m" "cm_num_pages (free_pages idx m) = cm_num_pages m"
  by (simp_all add: free_pages_def split: option.split)

lemma padded_tail_free [simp]: "padded_tail r s (free_pages idx m) = padded_tail r s m"
  by (simp add: padded_tail_def)

lemma padded_tail_cache [simp]: "padded_tail r s (m\<lparr>cm_cache := c\<rparr>) = padded_tail r s m"
  by (simp add: padded_tail_def)

lemma own_cache [simp]: "own ops (m\<lparr>cm_cache := c\<rparr>) r = own ops m r"
  by (simp add: own_def)

lemma own_free [simp]: "own ops (free_pages idx m) r = own ops m r"
  by (simp add: own_def)

lemma pool_free_cache [simp]: "pool_free (m\<lparr>cm_cache := c\<rparr>) = pool_free m"
  by (simp add: pool_free_def)

lemma free_pages_pool:
  assumes "0 < cm_page m" "paged (cm_page m) idx"
  shows "mset (expand_pages (cm_page m) (pool_free (free_pages idx m)))
      = mset (expand_pages (cm_page m) (pool_free m)) + mset idx"
    and "set (pool_free (free_pages idx m)) = set (pool_free m) \<union> set (stride (cm_page m) idx)"
proof -
  have e: "expand_pages (cm_page m) (stride (cm_page m) idx) = idx" by (rule expand_stride [OF assms])
  have n: "stride (cm_page m) ([] :: int list) = []" by (simp add: stride_def assms(1))
  show "mset (expand_pages (cm_page m) (pool_free (free_pages idx m)))
      = mset (expand_pages (cm_page m) (pool_free m)) + mset idx"
    using e n by (cases "cm_lazy m"; cases idx) (simp_all add: free_pages_def pool_free_def)
  show "set (pool_free (free_pages idx m)) = set (pool_free m) \<union> set (stride (cm_page m) idx)"
    using n by (cases "cm_lazy m"; cases idx) (auto simp: free_pages_def pool_free_def)
qed

lemma pool_free_exit [simp]: "pool_free (exit_lazy m) = pool_free m"
  by (simp add: pool_free_def exit_lazy_def split: option.split)

lemma exit_lazy_fields [simp]:
  "cm_cache (exit_lazy m) = cm_cache m" "cm_table (exit_lazy m) = cm_table m" "cm_page (exit_lazy m) = cm_page m"
  "cm_num_pages (exit_lazy m) = cm_num_pages m" "cm_lazy (exit_lazy m) = None"
  by (simp_all add: exit_lazy_def split: option.split)

section \<open>Parts of a row\<close>

lemma row_parts:
  assumes "a \<le> n" "n \<le> l" "l \<le> e"
  shows "row tb t a e = row tb t a n @ row tb t n l @ row tb t l e"
  using assms by (simp add: row_append)

lemma paged_part:
  assumes "paged ps (row tb t a e)" "ps dvd a" "ps dvd n" "ps dvd l" "a \<le> n" "n \<le> l" "l \<le> e"
  shows "paged ps (row tb t n l)"
proof -
  have "row tb t n l = take (l - n) (drop (n - a) (row tb t a e))" using assms by (simp add: take_row drop_row min_def)
  moreover have "ps dvd l - n" "ps dvd n - a" using assms(2-6) by (simp_all add: dvd_diff_nat)
  ultimately show ?thesis using assms(1) by (simp add: paged_drop paged_take)
qed

lemma req_ok_frame:
  assumes "req_ok has m r" "cm_page m' = cm_page m" "\<And>p. cm_table m' (rq_table r) p = cm_table m (rq_table r) p"
    and "\<And>xs vs. has (cm_cache m) (rq_handle r) xs vs \<Longrightarrow> rq_mm r \<longrightarrow> xs = [] \<Longrightarrow> has (cm_cache m') (rq_handle r) xs vs"
  shows "req_ok has m' r"
proof -
  have "row (cm_table m') (rq_table r) a b = row (cm_table m) (rq_table r) a b" for a b
    using assms(3) by (intro row_cong) simp
  then show ?thesis using assms(1,2,4) unfolding req_ok_def padded_tail_def by metis
qed

lemma own_frame:
  assumes "cm_page m' = cm_page m" "\<And>p. cm_table m' (rq_table r) p = cm_table m (rq_table r) p"
  shows "own ops m' r = own ops m r"
  using assms unfolding own_def padded_tail_def by (metis row_cong)

section \<open>Commits keep the invariant\<close>

lemma sum_mset_perm: "mset rs = mset qs \<Longrightarrow> sum_list (map f rs) = (sum_list (map f qs) :: 'b multiset)"
  by (simp only: sum_mset_sum_list [symmetric] mset_map)

context prefix_cache
begin

abbreviation minv :: "'c cache_manager \<Rightarrow> 'h req list \<Rightarrow> bool" where
  "minv m rs \<equiv> cm_page m = ps \<and> cm_inv ops inv has tokens m rs"

lemma minv_perm:
  assumes "minv m rs" "mset qs = mset rs"
  shows "minv m qs"
proof -
  have "distinct (map rq_table qs) = distinct (map rq_table rs)" using assms(2) by (metis mset_eq_imp_distinct_iff mset_map)
  moreover have "set qs = set rs" using assms(2) by (rule mset_eq_setD)
  moreover have "inv (cm_cache m) (locks qs)"
    using assms(1) inv_perm locks_perm [OF assms(2)] unfolding cm_inv_def by blast
  ultimately show ?thesis
    using assms(1) sum_mset_perm [OF assms(2), of "\<lambda>r. mset (own ops m r)"] unfolding cm_inv_def by metis
qed

lemma minvD:
  assumes "minv m rs"
  shows "inv (cm_cache m) (locks rs)" "distinct (map rq_table rs)" "r \<in> set rs \<Longrightarrow> req_ok has m r"
    "b \<in> set (pool_free m) \<Longrightarrow> int ps dvd b"
    "mset (expand_pages ps (pool_free m)) + tokens (cm_cache m) + sum_list (map (\<lambda>r. mset (own ops m r)) rs)
       = mset (map int [0..<cm_num_pages m * ps])"
  using assms by (auto simp: cm_inv_def)

lemma req_view:
  assumes "minv m rs" "r \<in> set rs"
  obtains xs vs where "has (cm_cache m) (rq_handle r) xs vs" "take (length xs) (rq_ids r) = xs"
    "co_len ops (rq_handle r) = length xs" "length xs \<le> rq_cached r" "ps dvd length xs" "length xs \<le> length (rq_ids r)"
    "row (cm_table m) (rq_table r) 0 (length xs) = vs" "rq_mm r \<Longrightarrow> xs = []" "paged ps vs" "length vs = length xs"
    "paged ps (padded_tail r (length xs) m)"
proof -
  obtain xs vs where x: "has (cm_cache m) (rq_handle r) xs vs" "take (length xs) (rq_ids r) = xs" "length xs \<le> rq_cached r"
      "row (cm_table m) (rq_table r) 0 (length xs) = vs" "rq_mm r \<longrightarrow> xs = []" "paged ps (padded_tail r (length xs) m)"
    using minvD(3) [OF assms] assms(1) unfolding req_ok_def by auto
  have "length xs \<le> length (rq_ids r)" using x(2) by (metis length_take min.cobounded1)
  then show thesis using that x has_len [OF minvD(1) [OF assms(1)] x(1)] by blast
qed

text \<open>Inserting the request and unlocking its old handle: the cached prefix of the row agrees with
  the tree up to the old handle, the tree takes the slots from the hit to the new handle.\<close>

lemma commit:
  assumes m: "minv m (r # rs)" and mm: "\<not> rq_mm r"
  obtains c1 n h vs c2 where
    "co_insert ops tic tic' (take (rq_cached r) (rq_ids r)) (row (cm_table m) (rq_table r) 0 (rq_cached r)) (cm_cache m)
       = Some (ok (c1, n, h))"
    "co_lock ops (rq_handle r) True c1 = Some (ok c2)" "inv c2 (locks rs)"
    "co_len ops (rq_handle r) \<le> n" "n \<le> co_len ops h" "co_len ops h \<le> rq_cached r" "co_len ops h \<le> length (rq_ids r)"
    "ps dvd co_len ops (rq_handle r)" "ps dvd n" "ps dvd co_len ops h" "length vs = n"
    "take (co_len ops (rq_handle r)) vs = row (cm_table m) (rq_table r) 0 (co_len ops (rq_handle r))"
    "has c2 h (take (co_len ops h) (rq_ids r)) (vs @ row (cm_table m) (rq_table r) n (co_len ops h))"
    "tokens c2 = tokens (cm_cache m) + mset (row (cm_table m) (rq_table r) n (co_len ops h))"
    "\<And>g ys us. has (cm_cache m) g ys us \<Longrightarrow> has c2 g ys us"
proof -
  let ?tb = "cm_table m" and ?t = "rq_table r" and ?k = "rq_cached r" and ?c = "cm_cache m"
  let ?xs = "take ?k (rq_ids r)"
  let ?idx = "row ?tb ?t 0 ?k"
  let ?e = "pages_for ps ?k * ps"
  obtain ys us where y: "has ?c (rq_handle r) ys us" "take (length ys) (rq_ids r) = ys" "co_len ops (rq_handle r) = length ys"
      "length ys \<le> ?k" "ps dvd length ys" "length ys \<le> length (rq_ids r)" "row ?tb ?t 0 (length ys) = us"
      "paged ps us" "paged ps (padded_tail r (length ys) m)"
    by (rule req_view [OF m, of r]) auto
  have i: "inv ?c (rq_handle r # locks rs)" using minvD(1) [OF m] mm by simp
  have k: "?k \<le> ?e" by (rule pages_for_ge [OF page_pos])
  have "paged ps (row ?tb ?t 0 ?e)"
  proof -
    have "row ?tb ?t 0 ?e = us @ padded_tail r (length ys) m"
      using y(4) k m unfolding y(7) [symmetric] by (simp add: padded_tail_def row_append)
    then show ?thesis using y(8,9) by (simp add: paged_append)
  qed
  moreover have A: "length ?xs div ps * ps \<le> ?k" using div_times_less_eq_dividend [of "length ?xs" ps] by simp
  have "take (length ?xs div ps * ps) ?idx = take (length ?xs div ps * ps) (row ?tb ?t 0 ?e)"
    using A le_trans [OF A k] by (simp only: take_row add_0 min_absorb1)
  ultimately have pg: "paged ps (take (length ?xs div ps * ps) ?idx)" by (simp add: paged_take)
  have le: "length ?xs \<le> length ?idx" by simp
  obtain c1 n h vs where ins: "co_insert ops tic tic' ?xs ?idx ?c = Some (ok (c1, n, h))" "inv c1 (rq_handle r # locks rs)"
      "n \<le> co_len ops h" "co_len ops h \<le> length ?xs" "ps dvd n" "length vs = n"
      "has c1 h (take (co_len ops h) ?xs) (vs @ take (co_len ops h - n) (drop n ?idx))"
      "tokens c1 = tokens ?c + mset (take (co_len ops h - n) (drop n ?idx))"
      "\<And>g zs ws. has ?c g zs ws \<Longrightarrow> has c1 g zs ws"
      "\<And>g zs ws. has ?c g zs ws \<Longrightarrow> take (length zs) ?xs = zs \<Longrightarrow> length zs \<le> n \<and> take (length zs) vs = ws"
    using insert_law [OF i le pg, of tic tic'] by metis
  have hk: "co_len ops h \<le> ?k" "co_len ops h \<le> length (rq_ids r)" using ins(4) by simp_all
  have sub: "take (co_len ops h - n) (drop n ?idx) = row ?tb ?t n (co_len ops h)"
    using ins(3) hk(1) by (simp add: take_row drop_row min_absorb1)
  have old: "length ys \<le> n \<and> take (length ys) vs = us"
    by (rule ins(10) [OF y(1)]) (use y(2,4) in \<open>simp add: min_absorb1\<close>)
  have hl: "take (co_len ops h) ?xs = take (co_len ops h) (rq_ids r)" using ins(4) by (simp add: min_absorb1)
  have "ps dvd length (take (co_len ops h) ?xs)" using has_len [OF ins(2,7)] by blast
  then have dh: "ps dvd co_len ops h" using ins(4) by (simp add: min_absorb1)
  obtain c2 where un: "co_lock ops (rq_handle r) True c1 = Some (ok c2)" "inv c2 (remove1 (rq_handle r) (rq_handle r # locks rs))"
      "tokens c2 = tokens c1" "\<And>g zs ws. has c1 g zs ws \<Longrightarrow> has c2 g zs ws"
    using unlock_law [OF ins(2), of "rq_handle r"] by auto
  show thesis
    by (rule that [OF ins(1) un(1)])
      (use un ins old y hl hk dh sub in \<open>auto simp del: take_take\<close>)
qed

end

section \<open>Finishing and committing a request\<close>

lemma padded_tail_parts:
  assumes "a \<le> n" "n \<le> l" "l \<le> rq_cached r" "0 < cm_page m"
  shows "padded_tail r a m = row (cm_table m) (rq_table r) a n @ row (cm_table m) (rq_table r) n l @ padded_tail r l m"
  using row_parts [OF assms(1,2)] pages_for_ge [OF assms(4), of "rq_cached r"] assms(3) by (simp add: padded_tail_def)

lemma own_table: "cm_table m' = cm_table m \<Longrightarrow> cm_page m' = cm_page m \<Longrightarrow> own ops m' = own ops m"
  by (rule ext) (simp add: own_def padded_tail_def)

context prefix_cache
begin

lemma own_paged:
  assumes "minv m rs" "r \<in> set rs"
  shows "paged ps (own ops m r)"
proof -
  have "req_ok has m r" by (rule minvD(3) [OF assms])
  then show ?thesis
    using has_len [OF minvD(1) [OF assms(1)]] assms(1) unfolding req_ok_def own_def by metis
qed

lemma frame_others:
  assumes "minv m (r # rs)" "cm_page m' = ps"
    and "\<And>t p. t \<noteq> rq_table r \<Longrightarrow> cm_table m' t p = cm_table m t p"
    and "\<And>g ys us. has (cm_cache m) g ys us \<Longrightarrow> has (cm_cache m') g ys us"
  shows "\<forall>q \<in> set rs. req_ok has m' q" "map (\<lambda>q. mset (own ops m' q)) rs = map (\<lambda>q. mset (own ops m q)) rs"
proof -
  have t: "cm_table m' (rq_table q) p = cm_table m (rq_table q) p" if "q \<in> set rs" for q p
  proof (rule assms(3))
    show "rq_table q \<noteq> rq_table r" using minvD(2) [OF assms(1)] that by (metis distinct.simps(2) image_eqI list.map(2) list.set_map)
  qed
  show "\<forall>q \<in> set rs. req_ok has m' q"
  proof
    fix q assume q: "q \<in> set rs"
    show "req_ok has m' q"
    proof (rule req_ok_frame)
      show "req_ok has m q" using minvD(3) [OF assms(1)] q by simp
      show "cm_page m' = cm_page m" using assms(1,2) by simp
      show "cm_table m' (rq_table q) p = cm_table m (rq_table q) p" for p by (rule t [OF q])
    qed (rule assms(4))
  qed
  show "map (\<lambda>q. mset (own ops m' q)) rs = map (\<lambda>q. mset (own ops m q)) rs"
  proof (rule map_cong [OF refl])
    fix q assume q: "q \<in> set rs"
    have "own ops m' q = own ops m q" by (rule own_frame) (use assms(1,2) t [OF q] in simp_all)
    then show "mset (own ops m' q) = mset (own ops m q)" by simp
  qed
qed

lemma finish_mm:
  assumes m: "minv m (r # rs)" and mm: "rq_mm r"
  shows "\<exists>m'. cache_req ops tic tic' r True m = Some (ok (m', r)) \<and> minv m' rs \<and> cm_table m' = cm_table m
    \<and> cm_num_pages m' = cm_num_pages m"
proof -
  obtain xs vs where y: "has (cm_cache m) (rq_handle r) xs vs" "co_len ops (rq_handle r) = length xs" "rq_mm r \<Longrightarrow> xs = []"
      "paged ps (padded_tail r (length xs) m)"
    by (rule req_view [OF m, of r]) auto
  have x: "xs = []" using y(3) mm .
  have h: "has (cm_cache m) (rq_handle r) [] vs" using y(1) x by simp
  have l: "co_lock ops (rq_handle r) True (cm_cache m) = Some (ok (cm_cache m))" by (rule empty_lock [OF minvD(1) [OF m] h])
  let ?m = "free_pages (padded_tail r 0 m) m"
  have pg: "paged (cm_page m) (padded_tail r 0 m)" "0 < cm_page m" using y(4) x m page_pos by auto
  have run: "cache_req ops tic tic' r True m = Some (ok (?m, r))"
    using mm l y(2) x by (simp add: cache_req_def set_lock_def)
  have o: "own ops m r = padded_tail r 0 m" using y(2) x by (simp add: own_def)
  have "cm_inv ops inv has tokens ?m rs"
    unfolding cm_inv_def
  proof (intro conjI)
    show "inv (cm_cache ?m) (locks rs)" using minvD(1) [OF m] mm by simp
    show "distinct (map rq_table rs)" using minvD(2) [OF m] by simp
    show "\<forall>q \<in> set rs. req_ok has ?m q" using frame_others(1) [OF m, of ?m] m by simp
    show "\<forall>b \<in> set (pool_free ?m). int (cm_page ?m) dvd b"
      using minvD(4) [OF m] free_pages_pool(2) [OF pg(2,1)] stride_aligned [OF pg(2,1)] m by auto
    show "mset (expand_pages (cm_page ?m) (pool_free ?m)) + tokens (cm_cache ?m) + (\<Sum>q\<leftarrow>rs. mset (own ops ?m q))
        = mset (map int [0..<cm_num_pages ?m * cm_page ?m])"
      using minvD(5) [OF m] m o free_pages_pool(1) [OF pg(2,1)] by (simp add: add_ac)
  qed
  then show ?thesis using run m by simp
qed

lemma finish_text:
  assumes m: "minv m (r # rs)" and mm: "\<not> rq_mm r"
  shows "\<exists>m'. cache_req ops tic tic' r True m = Some (ok (m', r)) \<and> minv m' rs \<and> cm_table m' = cm_table m
    \<and> cm_num_pages m' = cm_num_pages m"
proof -
  let ?tb = "cm_table m" and ?t = "rq_table r" and ?o = "co_len ops (rq_handle r)"
  obtain c1 n h vs c2 where c: "co_insert ops tic tic' (take (rq_cached r) (rq_ids r)) (row ?tb ?t 0 (rq_cached r)) (cm_cache m)
       = Some (ok (c1, n, h))" "co_lock ops (rq_handle r) True c1 = Some (ok c2)" "inv c2 (locks rs)"
      "?o \<le> n" "n \<le> co_len ops h" "co_len ops h \<le> rq_cached r" "ps dvd ?o" "ps dvd n" "ps dvd co_len ops h"
      "tokens c2 = tokens (cm_cache m) + mset (row ?tb ?t n (co_len ops h))"
      "\<And>g ys us. has (cm_cache m) g ys us \<Longrightarrow> has c2 g ys us"
    by (rule commit [OF m mm, of tic tic']) metis
  let ?dup = "row ?tb ?t ?o n" and ?tail = "padded_tail r (co_len ops h) m"
  let ?m1 = "free_pages ?dup (m\<lparr>cm_cache := c2\<rparr>)"
  let ?m2 = "free_pages ?tail ?m1"
  have pm: "cm_page m = ps" "0 < ps" using m page_pos by simp_all
  have parts: "own ops m r = ?dup @ row ?tb ?t n (co_len ops h) @ ?tail"
    unfolding own_def using c(4-6) pm by (intro padded_tail_parts) simp_all
  have "paged ps (own ops m r)" by (rule own_paged [OF m]) simp
  then have pg: "paged ps ?dup" "paged ps ?tail"
    using c(4-9) pages_for_ge [OF pm(2), of "rq_cached r"] unfolding own_def padded_tail_def pm(1)
    by (auto intro: paged_part [of ps ?tb ?t ?o])
  have sub: "take (n - ?o) (drop ?o (row ?tb ?t 0 (rq_cached r))) = ?dup" using c(4-6) by (simp add: take_row drop_row min_absorb1)
  have run: "cache_req ops tic tic' r True m = Some (ok (?m2, r))"
    using mm c(1,2) sub by (simp add: cache_req_def set_lock_def Let_def)
  have f1: "mset (expand_pages ps (pool_free ?m2)) = mset (expand_pages ps (pool_free m)) + mset ?dup + mset ?tail"
    "set (pool_free ?m2) = set (pool_free m) \<union> set (stride ps ?dup) \<union> set (stride ps ?tail)"
    using free_pages_pool [of ?m1 ?tail] free_pages_pool [of "m\<lparr>cm_cache := c2\<rparr>" ?dup] pg pm by simp_all
  have "cm_inv ops inv has tokens ?m2 rs"
    unfolding cm_inv_def
  proof (intro conjI)
    show "inv (cm_cache ?m2) (locks rs)" using c(3) by simp
    show "distinct (map rq_table rs)" using minvD(2) [OF m] by simp
    show "\<forall>q \<in> set rs. req_ok has ?m2 q" using frame_others(1) [OF m, of ?m2] pm c(11) by simp
    show "\<forall>b \<in> set (pool_free ?m2). int (cm_page ?m2) dvd b"
      using minvD(4) [OF m] f1(2) stride_aligned [OF pm(2) pg(1)] stride_aligned [OF pm(2) pg(2)] pm by auto
    have "map (\<lambda>q. mset (own ops ?m2 q)) rs = map (\<lambda>q. mset (own ops m q)) rs"
      by simp
    then show "mset (expand_pages (cm_page ?m2) (pool_free ?m2)) + tokens (cm_cache ?m2) + (\<Sum>q\<leftarrow>rs. mset (own ops ?m2 q))
        = mset (map int [0..<cm_num_pages ?m2 * cm_page ?m2])"
      using minvD(5) [OF m] pm c(10) f1(1) parts by (simp add: add_ac)
  qed
  then show ?thesis using run pm by simp
qed

lemma finish_ok:
  assumes "minv m (r # rs)"
  shows "\<exists>m'. cache_req ops tic tic' r True m = Some (ok (m', r)) \<and> minv m' rs \<and> cm_table m' = cm_table m
    \<and> cm_num_pages m' = cm_num_pages m"
  using finish_mm [OF assms] finish_text [OF assms] by blast

end

section \<open>Keeping a request after its prompt is committed\<close>

lemma req_handle_simps [simp]:
  "padded_tail (r\<lparr>rq_handle := h\<rparr>) s m = padded_tail r s m"
  by (simp add: padded_tail_def)

context prefix_cache
begin

text \<open>The row after the commit: the tree's slots up to the hit, the request's own behind it.\<close>

lemma repoint:
  assumes "o1 \<le> n" "length vs = n" "take o1 vs = row tb t 0 o1"
  defines "tb' \<equiv> foldl write_cell tb (zip (map (Pair t) [o1..<n]) (take (n - o1) (drop o1 vs)))"
  shows "row tb' t 0 n = vs" "\<And>s p. s \<noteq> t \<Longrightarrow> tb' s p = tb s p" "\<And>p. n \<le> p \<Longrightarrow> tb' t p = tb t p"
proof -
  have "row tb' t o1 n = take (n - o1) (drop o1 vs)" unfolding tb'_def by (rule write_row) (use assms(1,2) in simp)
  moreover have "row tb' t 0 o1 = row tb t 0 o1"
    unfolding tb'_def by (rule row_cong, rule write_outside) auto
  moreover have "row tb' t 0 n = row tb' t 0 o1 @ row tb' t o1 n" using assms(1) by (simp add: row_append)
  ultimately have "row tb' t 0 n = take o1 vs @ take (n - o1) (drop o1 vs)" using assms(3) by metis
  also have "\<dots> = take (o1 + (n - o1)) vs" by (rule take_add [symmetric])
  also have "\<dots> = vs" using assms(1,2) by simp
  finally show "row tb' t 0 n = vs" .
  show "tb' s p = tb s p" if "s \<noteq> t" for s p unfolding tb'_def using that by (intro write_outside) auto
  show "tb' t p = tb t p" if "n \<le> p" for p unfolding tb'_def using that by (intro write_outside) auto
qed

lemma keep_mm:
  assumes m: "minv m (r # rs)" and mm: "rq_mm r"
  shows "cache_req ops tic tic' r False m = Some (ok (m, r))"
proof -
  obtain xs vs where y: "has (cm_cache m) (rq_handle r) xs vs" "rq_mm r \<Longrightarrow> xs = []"
    by (rule req_view [OF m, of r]) auto
  have x: "xs = []" using y(2) mm .
  have h: "has (cm_cache m) (rq_handle r) [] vs" using y(1) x by simp
  have "co_lock ops (rq_handle r) True (cm_cache m) = Some (ok (cm_cache m))" by (rule empty_lock [OF minvD(1) [OF m] h])
  then show ?thesis using mm by (simp add: cache_req_def set_lock_def)
qed

lemma keep_text:
  assumes m: "minv m (r # rs)" and mm: "\<not> rq_mm r"
  shows "\<exists>m' h. cache_req ops tic tic' r False m = Some (ok (m', r\<lparr>rq_handle := h\<rparr>)) \<and> minv m' (r\<lparr>rq_handle := h\<rparr> # rs)
    \<and> co_len ops (rq_handle r) \<le> co_len ops h \<and> (\<forall>t p. t \<noteq> rq_table r \<longrightarrow> cm_table m' t p = cm_table m t p)
    \<and> cm_num_pages m' = cm_num_pages m"
proof -
  let ?tb = "cm_table m" and ?t = "rq_table r" and ?o = "co_len ops (rq_handle r)"
  obtain c1 n h vs c2 where c: "co_insert ops tic tic' (take (rq_cached r) (rq_ids r)) (row ?tb ?t 0 (rq_cached r)) (cm_cache m)
       = Some (ok (c1, n, h))" "co_lock ops (rq_handle r) True c1 = Some (ok c2)" "inv c2 (locks rs)"
      "?o \<le> n" "n \<le> co_len ops h" "co_len ops h \<le> rq_cached r" "co_len ops h \<le> length (rq_ids r)"
      "ps dvd ?o" "ps dvd n" "ps dvd co_len ops h" "length vs = n" "take ?o vs = row ?tb ?t 0 ?o"
      "has c2 h (take (co_len ops h) (rq_ids r)) (vs @ row ?tb ?t n (co_len ops h))"
      "tokens c2 = tokens (cm_cache m) + mset (row ?tb ?t n (co_len ops h))"
      "\<And>g ys us. has (cm_cache m) g ys us \<Longrightarrow> has c2 g ys us"
    by (rule commit [OF m mm, of tic tic']) metis
  obtain c3 where l: "co_lock ops h False c2 = Some (ok c3)" "inv c3 (h # locks rs)" "tokens c3 = tokens c2"
      "\<And>g ys us. has c2 g ys us \<Longrightarrow> has c3 g ys us"
    using lock_law [OF c(3,13)] by auto
  let ?dup = "row ?tb ?t ?o n" and ?tail = "padded_tail r (co_len ops h) m"
  let ?tb' = "foldl write_cell ?tb (zip (map (Pair ?t) [?o..<n]) (take (n - ?o) (drop ?o vs)))"
  let ?m1 = "free_pages ?dup (m\<lparr>cm_cache := c2\<rparr>)"
  let ?m3 = "?m1\<lparr>cm_table := ?tb', cm_cache := c3\<rparr>"
  let ?r = "r\<lparr>rq_handle := h\<rparr>"
  note tb' = repoint [OF c(4,11,12)]
  have pm: "cm_page m = ps" "0 < ps" using m page_pos by simp_all
  have parts: "own ops m r = ?dup @ row ?tb ?t n (co_len ops h) @ ?tail"
    unfolding own_def using c(4-6) pm by (intro padded_tail_parts) simp_all
  have "paged ps (own ops m r)" by (rule own_paged [OF m]) simp
  then have pg: "paged ps ?dup" "paged ps ?tail"
    using c(4-10) pages_for_ge [OF pm(2), of "rq_cached r"] unfolding own_def padded_tail_def pm(1)
    by (auto intro: paged_part [of ps ?tb ?t ?o])
  have sub: "take (n - ?o) (drop ?o (row ?tb ?t 0 (rq_cached r))) = ?dup" using c(4-6) by (simp add: take_row drop_row min_absorb1)
  have copy: "copy_row ?t ?o n (take (n - ?o) (drop ?o canonical)) ?m1 = ok (?m1\<lparr>cm_table := ?tb'\<rparr>)"
    if "canonical = vs @ row ?tb ?t n (co_len ops h)" for canonical
    using that c(4,11) by (simp add: copy_row_def)
  have run: "cache_req ops tic tic' r False m = Some (ok (?m3, ?r))"
  proof (cases "?o < n")
    case True
    then have "take (co_len ops h) (rq_ids r) \<noteq> []" using c(5,7) by auto
    then have "co_indices ops c2 h = Some (ok (vs @ row ?tb ?t n (co_len ops h)))"
      by (rule has_indices [OF c(3,13)])
    then show ?thesis using mm c(1,2) l(1) sub copy True by (simp add: cache_req_def set_lock_def Let_def)
  next
    case False
    then have "?m1\<lparr>cm_cache := c3\<rparr> = ?m3" by simp
    then show ?thesis using mm c(1,2) l(1) sub False by (simp add: cache_req_def set_lock_def Let_def)
  qed
  have tail: "row ?tb' ?t a b = row ?tb ?t a b" if "n \<le> a" for a b using tb'(3) that by (intro row_cong) simp
  have tails: "padded_tail ?r (co_len ops h) ?m3 = ?tail" using tail [OF c(5)] by (simp add: padded_tail_def)
  have frame: "\<forall>q \<in> set rs. req_ok has ?m3 q" "map (\<lambda>q. mset (own ops ?m3 q)) rs = map (\<lambda>q. mset (own ops m q)) rs"
    using frame_others [OF m, of ?m3] pm tb'(2) c(15) l(4) by simp_all
  have f1: "mset (expand_pages ps (pool_free ?m3)) = mset (expand_pages ps (pool_free m)) + mset ?dup"
    "set (pool_free ?m3) = set (pool_free m) \<union> set (stride ps ?dup)"
    using free_pages_pool [of "m\<lparr>cm_cache := c2\<rparr>" ?dup] pg pm by (simp_all add: pool_free_def)
  have "req_ok has ?m3 ?r"
    unfolding req_ok_def
  proof (intro exI conjI)
    show "has (cm_cache ?m3) (rq_handle ?r) (take (co_len ops h) (rq_ids r)) (vs @ row ?tb ?t n (co_len ops h))"
      using l(4) [OF c(13)] by simp
    have len: "length (take (co_len ops h) (rq_ids r)) = co_len ops h" using c(7) by simp
    show "take (length (take (co_len ops h) (rq_ids r))) (rq_ids ?r) = take (co_len ops h) (rq_ids r)" by (simp add: min_def)
    show "length (take (co_len ops h) (rq_ids r)) \<le> rq_cached ?r" using c(6,7) by simp
    show "row (cm_table ?m3) (rq_table ?r) 0 (length (take (co_len ops h) (rq_ids r))) = vs @ row ?tb ?t n (co_len ops h)"
      unfolding len using tb'(1) tail [of n] c(5) row_append [of 0 n "co_len ops h" ?tb' ?t] by simp
    show "rq_mm ?r \<longrightarrow> take (co_len ops h) (rq_ids r) = []" using mm by simp
    show "paged (cm_page ?m3) (padded_tail ?r (length (take (co_len ops h) (rq_ids r))) ?m3)"
      unfolding len tails using pg(2) pm by simp
  qed
  moreover have "own ops ?m3 ?r = ?tail" using tails by (simp add: own_def)
  moreover define m3 where "m3 = ?m3"
  moreover have "cm_cache m3 = c3" "cm_page m3 = ps" "cm_num_pages m3 = cm_num_pages m" using pm by (simp_all add: m3_def)
  moreover have "(\<Sum>q\<leftarrow>rs. mset (own ops m3 q)) = (\<Sum>q\<leftarrow>rs. mset (own ops m q))" unfolding m3_def by (simp only: frame(2))
  ultimately have "cm_inv ops inv has tokens m3 (?r # rs)"
    using minvD(2,4,5) [OF m] l(2,3) c(14) frame(1) f1 parts mm stride_aligned [OF pm(2) pg(1)]
    unfolding cm_inv_def m3_def [symmetric] by (auto simp: add_ac)
  then show ?thesis using run pm c(4,5) tb'(2) unfolding m3_def by (intro exI [of _ ?m3], intro exI [of _ h]) simp
qed

lemma keep_ok:
  assumes "minv m (r # rs)"
  shows "\<exists>m' h. cache_req ops tic tic' r False m = Some (ok (m', r\<lparr>rq_handle := h\<rparr>)) \<and> minv m' (r\<lparr>rq_handle := h\<rparr> # rs)
    \<and> co_len ops (rq_handle r) \<le> co_len ops h \<and> (\<forall>t p. t \<noteq> rq_table r \<longrightarrow> cm_table m' t p = cm_table m t p)
    \<and> cm_num_pages m' = cm_num_pages m"
proof (cases "rq_mm r")
  case True
  have "r\<lparr>rq_handle := rq_handle r\<rparr> = r" by simp
  then show ?thesis using keep_mm [OF assms True] assms by (metis order_refl)
qed (rule keep_text [OF assms])

end

end
