(* ===== verification/CacheAlloc.thy ===== *)
theory CacheAlloc
  imports CacheOwn
begin

text \<open>
  Allocation of pages for a batch: enough pages are evicted, every new page goes to one position of
  one row, and admission of a request locks what it reuses.
\<close>

section \<open>Writing the page table\<close>

lemma expand_page_one [simp]: "expand_pages (Suc 0) bs = bs"
  by (induction bs) (simp_all add: expand_page_def)

lemma page_to_token_expand [simp]: "page_to_token ps pages = expand_pages ps pages"
  by (simp add: page_to_token_def)

lemma allocation_info_simps [simp]:
  "allocation_info ps [] = []"
  "allocation_info ps (r # rs) =
    (if pages_for ps (rq_cached r) < pages_for ps (rq_device r)
     then [(rq_table r, pages_for ps (rq_cached r), pages_for ps (rq_device r))] else []) @ allocation_info ps rs"
  by (simp_all add: allocation_info_def)

lemma needed_pages_simps [simp]:
  "needed_pages [] = 0" "needed_pages ((t, f, l) # info) = (l - f) + needed_pages info"
  by (simp_all add: needed_pages_def)

lemma write_positions_simps [simp]:
  "write_positions ps [] = []"
  "write_positions ps ((t, f, l) # info) = map (Pair t) [f * ps..<l * ps] @ write_positions ps info"
  by (simp_all add: write_positions_def)

lemma length_write_positions: "length (write_positions ps info) = needed_pages info * ps"
  by (induction info) (auto simp: add_mult_distrib diff_mult_distrib)

lemma needed_zero: "needed_pages (allocation_info ps bs) = 0 \<longleftrightarrow> allocation_info ps bs = []"
  by (induction bs) auto

lemma write_positions_tables: "(t, p) \<in> set (write_positions ps (allocation_info ps bs)) \<Longrightarrow> t \<in> rq_table ` set bs"
  by (induction bs) (auto split: if_splits)

definition span_of :: "nat \<Rightarrow> (int \<Rightarrow> nat \<Rightarrow> int) \<Rightarrow> 'h req \<Rightarrow> int list" where
  "span_of ps tb r = row tb (rq_table r) (pages_for ps (rq_cached r) * ps) (pages_for ps (rq_device r) * ps)"

lemma zip_append_take: "zip (xs @ ys) zs = zip xs (take (length xs) zs) @ zip ys (drop (length xs) zs)"
  by (simp add: zip_append1)

lemma scatter:
  fixes tb :: "int \<Rightarrow> nat \<Rightarrow> int"
  assumes "distinct (map rq_table bs)" "length pages = needed_pages (allocation_info ps bs)" "\<forall>b \<in> set pages. int ps dvd b"
  defines "tb' \<equiv> foldl write_cell tb (zip (write_positions ps (allocation_info ps bs)) (expand_pages ps pages))"
  shows "(\<forall>r \<in> set bs. paged ps (span_of ps tb' r)) \<and> (\<Sum>r\<leftarrow>bs. mset (span_of ps tb' r)) = mset (expand_pages ps pages)
    \<and> (\<forall>t p. t \<notin> rq_table ` set bs \<longrightarrow> tb' t p = tb t p)
    \<and> (\<forall>r \<in> set bs. \<forall>p < pages_for ps (rq_cached r) * ps. tb' (rq_table r) p = tb (rq_table r) p)"
  using assms(1-3) unfolding tb'_def
proof (induction bs arbitrary: tb pages)
  case (Cons r bs)
  let ?f = "pages_for ps (rq_cached r)" and ?l = "pages_for ps (rq_device r)" and ?t = "rq_table r"
  let ?k = "?l - ?f"
  let ?pos = "map (Pair ?t) [?f * ps..<?l * ps]"
  define tb1 where "tb1 = foldl write_cell tb (zip ?pos (expand_pages ps (take ?k pages)))"
  define tb2 where "tb2 = foldl write_cell tb1 (zip (write_positions ps (allocation_info ps bs)) (expand_pages ps (drop ?k pages)))"
  have lk: "length ?pos = ?k * ps" by (simp add: diff_mult_distrib)
  have all: "foldl write_cell tb (zip (write_positions ps (allocation_info ps (r # bs))) (expand_pages ps pages)) = tb2"
  proof (cases "?f < ?l")
    case True
    then show ?thesis
      using lk by (simp add: zip_append_take tb1_def tb2_def take_expand_pages drop_expand_pages del: length_map)
  qed (simp add: tb1_def tb2_def)
  have lp: "length (drop ?k pages) = needed_pages (allocation_info ps bs)" "length (take ?k pages) = ?k"
    using Cons.prems(2) by (auto split: if_splits)
  have al: "\<forall>b \<in> set (drop ?k pages). int ps dvd b" "\<forall>b \<in> set (take ?k pages). int ps dvd b"
    using Cons.prems(3) by (auto dest: in_set_dropD in_set_takeD)
  have IH: "(\<forall>r \<in> set bs. paged ps (span_of ps tb2 r)) \<and> (\<Sum>r\<leftarrow>bs. mset (span_of ps tb2 r)) = mset (expand_pages ps (drop ?k pages))
    \<and> (\<forall>t p. t \<notin> rq_table ` set bs \<longrightarrow> tb2 t p = tb1 t p)
    \<and> (\<forall>r \<in> set bs. \<forall>p < pages_for ps (rq_cached r) * ps. tb2 (rq_table r) p = tb1 (rq_table r) p)"
    unfolding tb2_def using Cons.prems(1) lp(1) al(1) by (intro Cons.IH) simp_all
  have nt: "?t \<notin> rq_table ` set bs" using Cons.prems(1) by simp
  have tb1: "tb1 s p = tb s p" if "s \<noteq> ?t \<or> p < ?f * ps" for s p
    unfolding tb1_def using that by (intro write_outside) auto
  have "row tb1 ?t (?f * ps) (?l * ps) = expand_pages ps (take ?k pages)"
    unfolding tb1_def by (rule write_row) (use lp(2) in \<open>simp add: diff_mult_distrib\<close>)
  moreover have "row tb2 ?t (?f * ps) (?l * ps) = row tb1 ?t (?f * ps) (?l * ps)" using IH nt by (intro row_cong) blast
  ultimately have sp: "span_of ps tb2 r = expand_pages ps (take ?k pages)" by (simp add: span_of_def)
  have "mset (expand_pages ps pages) = mset (expand_pages ps (take ?k pages)) + mset (expand_pages ps (drop ?k pages))"
    by (metis append_take_drop_id expand_pages_simps(3) mset_append)
  then have sum: "(\<Sum>r\<leftarrow>r # bs. mset (span_of ps tb2 r)) = mset (expand_pages ps pages)" using IH sp by simp
  have pg: "paged ps (span_of ps tb2 r)" unfolding sp by (rule paged_expand [OF al(2)])
  show ?case
    unfolding all
  proof (intro conjI)
    show "\<forall>q \<in> set (r # bs). paged ps (span_of ps tb2 q)" using IH pg by simp
    show "\<forall>s p. s \<notin> rq_table ` set (r # bs) \<longrightarrow> tb2 s p = tb s p" using IH tb1 by simp
    show "\<forall>q \<in> set (r # bs). \<forall>p < pages_for ps (rq_cached q) * ps. tb2 (rq_table q) p = tb (rq_table q) p"
    proof (intro ballI allI impI)
      fix q p assume q: "q \<in> set (r # bs)" and p: "p < pages_for ps (rq_cached q) * ps"
      show "tb2 (rq_table q) p = tb (rq_table q) p"
      proof (cases "q = r")
        case True
        then show ?thesis using IH nt tb1 p by simp
      next
        case False
        then have "q \<in> set bs" using q by simp
        moreover from this have "rq_table q \<noteq> ?t" using nt by (metis image_eqI)
        ultimately show ?thesis using IH tb1 p by simp
      qed
    qed
  qed (rule sum)
qed simp

section \<open>Allocating for a batch\<close>

context prefix_cache
begin

lemma evict_frame:
  assumes "inv c L" "inv c' L'" "\<forall>g \<in> set L. \<forall>ys us. has c g ys us \<longrightarrow> has c' g ys us"
    and "h \<in> set L \<or> xs = []" "has c h xs vs"
  shows "has c' h xs vs"
  using assms empty_has by blast

lemma allocate_ok:
  assumes m: "minv m rs" and need: "int needed * int ps \<le> available_size ops m"
  shows "\<exists>m' pages. allocate ops needed m = Some (ok (m', pages)) \<and> length pages = needed
    \<and> cm_page m' = ps \<and> cm_table m' = cm_table m \<and> cm_num_pages m' = cm_num_pages m
    \<and> inv (cm_cache m') (locks rs) \<and> (\<forall>b \<in> set pages \<union> set (pool_free m'). int ps dvd b)
    \<and> mset (expand_pages ps (pool_free m')) + tokens (cm_cache m') + mset (expand_pages ps pages)
       = mset (expand_pages ps (pool_free m)) + tokens (cm_cache m)
    \<and> (\<forall>g \<in> set (locks rs). \<forall>ys us. has (cm_cache m) g ys us \<longrightarrow> has (cm_cache m') g ys us)"
proof -
  have pm: "cm_page m = ps" "0 < ps" using m page_pos by simp_all
  note i = minvD(1) [OF m]
  have "\<exists>c' ev. (if needed > length (cm_free m) then
         co_evict ops (int (needed - length (cm_free m)) * int ps) (cm_cache m) = Some (ok (c', ev)) else c' = cm_cache m \<and> ev = [])
      \<and> inv c' (locks rs) \<and> paged ps ev \<and> needed \<le> length (cm_free m @ stride ps ev)
      \<and> tokens (cm_cache m) = mset ev + tokens c'
      \<and> (\<forall>g \<in> set (locks rs). \<forall>ys us. has (cm_cache m) g ys us \<longrightarrow> has c' g ys us)"
  proof (cases "needed > length (cm_free m)")
    case True
    let ?need = "int (needed - length (cm_free m)) * int ps"
    have pos: "0 < ?need" using True pm(2) by simp
    have le: "?need \<le> co_evictable ops (cm_cache m)"
      using need True pm by (simp add: available_size_def of_nat_diff algebra_simps)
    obtain c' ev where e: "co_evict ops ?need (cm_cache m) = Some (ok (c', ev))" "inv c' (locks rs)"
        "tokens (cm_cache m) = mset ev + tokens c'" "?need \<le> int (length ev)" "paged ps ev"
        "\<forall>g \<in> set (locks rs). \<forall>ys us. has (cm_cache m) g ys us \<longrightarrow> has c' g ys us"
      using evict_law [OF i pos le] by blast
    have "int (needed - length (cm_free m)) * int ps \<le> int (length (stride ps ev)) * int ps"
      using e(4) length_stride [OF pm(2) e(5)] by (metis of_nat_mult)
    then have "needed - length (cm_free m) \<le> length (stride ps ev)" using pm(2) by simp
    then show ?thesis using e True by (intro exI [of _ c'] exI [of _ ev]) simp
  next
    case False
    then show ?thesis using i pm(2) by (intro exI [of _ "cm_cache m"], intro exI [of _ "[]"]) (simp add: stride_def)
  qed
  then obtain c' ev where e: "if needed > length (cm_free m) then
         co_evict ops (int (needed - length (cm_free m)) * int ps) (cm_cache m) = Some (ok (c', ev)) else c' = cm_cache m \<and> ev = []"
      "inv c' (locks rs)" "paged ps ev" "needed \<le> length (cm_free m @ stride ps ev)" "tokens (cm_cache m) = mset ev + tokens c'"
      "\<forall>g \<in> set (locks rs). \<forall>ys us. has (cm_cache m) g ys us \<longrightarrow> has c' g ys us"
    by blast
  let ?free = "cm_free m @ stride ps ev"
  let ?m = "m\<lparr>cm_cache := c', cm_free := drop needed ?free\<rparr>"
  have s0: "stride ps ([] :: int list) = []" using pm(2) by (simp add: stride_def)
  have run: "allocate ops needed m = Some (ok (?m, take needed ?free))"
    using e(1,4) pm(1) s0 by (cases "needed > length (cm_free m)") (simp_all add: allocate_def Let_def)
  have split: "mset (expand_pages ps ?free) = mset (expand_pages ps (take needed ?free)) + mset (expand_pages ps (drop needed ?free))"
    by (metis append_take_drop_id expand_pages_simps(3) mset_append)
  have ev: "expand_pages ps (stride ps ev) = ev" by (rule expand_stride [OF pm(2) e(3)])
  have "mset (expand_pages ps (pool_free ?m)) + tokens c' + mset (expand_pages ps (take needed ?free))
      = mset (expand_pages ps (pool_free m)) + tokens (cm_cache m)"
    using split e(5) ev by (simp add: pool_free_def add_ac)
  moreover have "\<forall>b \<in> set (take needed ?free) \<union> set (pool_free ?m). int ps dvd b"
    using minvD(4) [OF m] stride_aligned [OF pm(2) e(3)]
    by (auto simp: pool_free_def dest!: in_set_takeD in_set_dropD)
  ultimately show ?thesis using run e(2,4,6) pm by (intro exI [of _ ?m], intro exI [of _ "take needed ?free"]) simp
qed

text \<open>After the forward pass has run over the new positions (\<open>complete_one\<close>), the requests of the
  batch own the new pages.\<close>

lemma allocate_paged_ok:
  assumes m: "minv m (bs @ rs)" and le: "\<forall>r \<in> set bs. rq_cached r \<le> rq_device r"
    and need: "int (needed_pages (allocation_info ps bs)) * int ps \<le> available_size ops m"
  shows "\<exists>m'. allocate_paged ops bs m = Some (ok m') \<and> minv m' (map complete_one bs @ rs)
    \<and> cm_num_pages m' = cm_num_pages m \<and> (\<forall>t p. t \<notin> rq_table ` set bs \<longrightarrow> cm_table m' t p = cm_table m t p)
    \<and> (\<forall>r \<in> set bs. \<forall>p < pages_for ps (rq_cached r) * ps. cm_table m' (rq_table r) p = cm_table m (rq_table r) p)"
proof -
  let ?info = "allocation_info ps bs"
  have pm: "cm_page m = ps" "0 < ps" using m page_pos by simp_all
  obtain m1 pages where a: "allocate ops (needed_pages ?info) m = Some (ok (m1, pages))" "length pages = needed_pages ?info"
      "cm_page m1 = ps" "cm_table m1 = cm_table m" "cm_num_pages m1 = cm_num_pages m" "inv (cm_cache m1) (locks (bs @ rs))"
      "\<forall>b \<in> set pages \<union> set (pool_free m1). int ps dvd b"
      "mset (expand_pages ps (pool_free m1)) + tokens (cm_cache m1) + mset (expand_pages ps pages)
       = mset (expand_pages ps (pool_free m)) + tokens (cm_cache m)"
      "\<forall>g \<in> set (locks (bs @ rs)). \<forall>ys us. has (cm_cache m) g ys us \<longrightarrow> has (cm_cache m1) g ys us"
    using allocate_ok [OF m need] by blast
  let ?tb = "foldl write_cell (cm_table m) (zip (write_positions ps ?info) (expand_pages ps pages))"
  define m2 where "m2 = m1\<lparr>cm_table := ?tb\<rparr>"
  have d: "distinct (map rq_table bs)" "\<forall>r \<in> set rs. rq_table r \<notin> rq_table ` set bs"
    using minvD(2) [OF m] by auto
  have "\<forall>b \<in> set pages. int ps dvd b" using a(7) by simp
  note sc = scatter [OF d(1) a(2) this, of "cm_table m"]
  have m2: "cm_page m2 = ps" "cm_cache m2 = cm_cache m1" "cm_num_pages m2 = cm_num_pages m" "cm_table m2 = ?tb"
      "pool_free m2 = pool_free m1"
    using a(3,5) by (simp_all add: m2_def pool_free_def)
  have run: "\<exists>m'. allocate_paged ops bs m = Some (ok m') \<and> m' = m2"
  proof (cases "needed_pages ?info > 0")
    case True
    have "length (write_positions ps ?info) = length (expand_pages ps pages)" using a(2) by (simp add: length_write_positions)
    then show ?thesis using True a(1,3,4) pm by (simp add: allocate_paged_def write_page_table_def Let_def m2_def)
  next
    case False
    then have "pages = []" "?info = []" using a(2) by (simp_all add: needed_zero)
    moreover from this have "m1 = m" using a(1) False by (simp add: allocate_def)
    ultimately show ?thesis using pm False by (simp add: allocate_paged_def m2_def)
  qed
  have keep: "has (cm_cache m2) (rq_handle r) xs vs"
    if "r \<in> set (bs @ rs)" "has (cm_cache m) (rq_handle r) xs vs" "rq_mm r \<longrightarrow> xs = []" for r xs vs
    unfolding m2(2) using evict_frame [OF minvD(1) [OF m] a(6,9) _ that(2)] that locks_mem [of r "bs @ rs"] by blast
  have others: "req_ok has m2 r \<and> own ops m2 r = own ops m r" if "r \<in> set rs" for r
  proof -
    have t: "cm_table m2 (rq_table r) p = cm_table m (rq_table r) p" for p using sc d(2) that unfolding m2(4) by blast
    then show ?thesis
      using req_ok_frame [of has m r m2] own_frame [of m2 m r ops] minvD(3) [OF m, of r] m2(1) pm(1) keep [of r] that by auto
  qed
  have mine: "req_ok has m2 (complete_one r) \<and> own ops m2 (complete_one r) = own ops m r @ span_of ps ?tb r"
    if r: "r \<in> set bs" for r
  proof -
    let ?e = "pages_for ps (rq_cached r) * ps" and ?e' = "pages_for ps (rq_device r) * ps" and ?t = "rq_table r"
    obtain xs vs where y: "has (cm_cache m) (rq_handle r) xs vs" "take (length xs) (rq_ids r) = xs"
        "co_len ops (rq_handle r) = length xs" "length xs \<le> rq_cached r" "row (cm_table m) ?t 0 (length xs) = vs"
        "rq_mm r \<Longrightarrow> xs = []" "paged ps (padded_tail r (length xs) m)"
      by (rule req_view [OF m, of r]) (use r in auto)
    have e: "length xs \<le> ?e" "?e \<le> ?e'"
      using y(4) pages_for_ge [OF pm(2), of "rq_cached r"] pages_for_mono [OF pm(2)] le r by (auto intro: mult_right_mono)
    have same: "row ?tb ?t a b = row (cm_table m) ?t a b" if "b \<le> ?e" for a b
      using sc r that by (intro row_cong) simp
    have tail: "padded_tail (complete_one r) (length xs) m2 = padded_tail r (length xs) m @ span_of ps ?tb r"
      using same [of ?e "length xs"] row_append [OF e, of ?tb ?t] m2(1,4) pm(1) by (simp add: padded_tail_def span_of_def)
    have "req_ok has m2 (complete_one r)"
      unfolding req_ok_def
    proof (intro exI conjI)
      show "has (cm_cache m2) (rq_handle (complete_one r)) xs vs" using keep [of r xs vs] r y(1,6) by simp
      show "take (length xs) (rq_ids (complete_one r)) = xs" using y(2) by simp
      show "length xs \<le> rq_cached (complete_one r)" using y(4) le r by fastforce
      show "row (cm_table m2) (rq_table (complete_one r)) 0 (length xs) = vs" using same [OF e(1)] y(5) m2(4) by simp
      show "rq_mm (complete_one r) \<longrightarrow> xs = []" using y(6) by simp
      show "paged (cm_page m2) (padded_tail (complete_one r) (length xs) m2)"
        unfolding tail using y(7) sc r m2(1) by (simp add: paged_append)
    qed
    then show ?thesis using tail y(3) by (simp add: own_def)
  qed
  have own_bs: "(\<Sum>r\<leftarrow>map complete_one bs. mset (own ops m2 r)) = (\<Sum>r\<leftarrow>bs. mset (own ops m r)) + mset (expand_pages ps pages)"
  proof -
    have "(\<Sum>r\<leftarrow>map complete_one bs. mset (own ops m2 r)) = (\<Sum>r\<leftarrow>bs. mset (own ops m r) + mset (span_of ps ?tb r))"
      unfolding map_map comp_def by (intro arg_cong [where f = sum_list] map_cong refl) (use mine in simp)
    then show ?thesis using sc by (simp add: sum_list_addf)
  qed
  have own_rs: "(\<Sum>r\<leftarrow>rs. mset (own ops m2 r)) = (\<Sum>r\<leftarrow>rs. mset (own ops m r))"
    by (intro arg_cong [where f = sum_list] map_cong refl) (use others in simp)
  have "cm_inv ops inv has tokens m2 (map complete_one bs @ rs)"
    unfolding cm_inv_def
  proof (intro conjI)
    show "inv (cm_cache m2) (locks (map complete_one bs @ rs))" using a(6) m2(2) by simp
    show "distinct (map rq_table (map complete_one bs @ rs))" using minvD(2) [OF m] by (simp add: comp_def)
    show "\<forall>r \<in> set (map complete_one bs @ rs). req_ok has m2 r" using mine others by auto
    show "\<forall>b \<in> set (pool_free m2). int (cm_page m2) dvd b" using a(7) m2 by simp
    have "(\<Sum>r\<leftarrow>map complete_one bs @ rs. mset (own ops m2 r))
        = (\<Sum>r\<leftarrow>bs @ rs. mset (own ops m r)) + mset (expand_pages ps pages)"
      unfolding map_append sum_list_append own_bs own_rs by (simp only: add_ac)
    then have "mset (expand_pages ps (pool_free m2)) + tokens (cm_cache m2) + (\<Sum>r\<leftarrow>map complete_one bs @ rs. mset (own ops m2 r))
        = (mset (expand_pages ps (pool_free m1)) + tokens (cm_cache m1) + mset (expand_pages ps pages))
          + (\<Sum>r\<leftarrow>bs @ rs. mset (own ops m r))"
      unfolding m2(2,5) by (simp only: add_ac)
    also have "\<dots> = mset (map int [0..<cm_num_pages m * ps])" unfolding a(8) by (rule minvD(5) [OF m])
    finally show "mset (expand_pages (cm_page m2) (pool_free m2)) + tokens (cm_cache m2)
        + (\<Sum>r\<leftarrow>map complete_one bs @ rs. mset (own ops m2 r)) = mset (map int [0..<cm_num_pages m2 * cm_page m2])"
      unfolding m2(1,3) .
  qed
  then show ?thesis using run m2 sc by auto
qed

end

section \<open>Admission, start and integrity\<close>

lemma pool_free_eager: "cm_lazy m = None \<Longrightarrow> pool_free m = cm_free m"
  by (simp add: pool_free_def)

context prefix_cache
begin

lemma init_minv: "inv fresh [] \<Longrightarrow> tokens fresh = {#} \<Longrightarrow> minv (init_manager fresh n ps tb) []"
  by (auto simp: cm_inv_def init_manager_def pool_free_def expand_all)

lemma integrity_ok:
  assumes "minv m []" "cm_lazy m = None"
  shows "check_integrity ops m = ok ()"
proof -
  have pm: "cm_page m = ps" "0 < ps" using assms(1) page_pos by simp_all
  have "mset (expand_pages ps (cm_free m)) + tokens (cm_cache m) = mset (map int [0..<cm_num_pages m * ps])"
    using minvD(5) [OF assms(1)] by (simp add: pool_free_eager assms(2))
  then have "length (expand_pages ps (cm_free m)) + size (tokens (cm_cache m)) = cm_num_pages m * ps"
    by (metis diff_zero length_map length_upt size_mset size_union)
  then have sz: "length (cm_free m) * ps + size (tokens (cm_cache m)) = cm_num_pages m * ps" by simp
  then have "int (length (cm_free m)) * int ps + int (size (tokens (cm_cache m))) = int (cm_num_pages m) * int ps"
    by (metis of_nat_add of_nat_mult)
  then have "int (size (tokens (cm_cache m))) = (int (cm_num_pages m) - int (length (cm_free m))) * int ps"
    by (simp add: algebra_simps)
  then have "(co_evictable ops (cm_cache m) + co_protected ops (cm_cache m)) div int ps
      = int (cm_num_pages m) - int (length (cm_free m))"
    using sizes [OF minvD(1) [OF assms(1)]] pm(2) by simp
  moreover have "\<forall>s \<in> set (cm_free m). s mod int ps = 0"
    using minvD(4) [OF assms(1)] pool_free_eager [OF assms(2)] by (auto simp: mod_eq_0_iff_dvd)
  ultimately show ?thesis using pm(1) by (simp add: check_integrity_def)
qed

lemma exclusive:
  assumes "minv m rs"
  shows "distinct (expand_pages ps (pool_free m) @ concat (map (own ops m) rs))"
    and "x \<in># tokens (cm_cache m) \<Longrightarrow> x \<notin> set (expand_pages ps (pool_free m) @ concat (map (own ops m) rs))"
proof -
  let ?xs = "expand_pages ps (pool_free m) @ concat (map (own ops m) rs)"
  obtain ts where ts: "mset ts = tokens (cm_cache m)" by (metis ex_mset)
  have "mset (concat (map (own ops m) rs)) = (\<Sum>r\<leftarrow>rs. mset (own ops m r))" by (induction rs) simp_all
  then have "mset (?xs @ ts) = mset (map int [0..<cm_num_pages m * ps])"
    using minvD(5) [OF assms] ts by (simp add: add_ac)
  moreover have "distinct (map int [0..<cm_num_pages m * ps])" by (simp add: distinct_map)
  ultimately have d: "distinct (?xs @ ts)" using mset_eq_imp_distinct_iff by blast
  then show "distinct ?xs" by (simp only: distinct_append)
  show "x \<in># tokens (cm_cache m) \<Longrightarrow> x \<notin> set ?xs" using d unfolding ts [symmetric] distinct_append by auto
qed

text \<open>Matching leaves what the requests hold; locking the match and copying its slots into a free row
  makes a new holder; unlocking it again undoes the admission.\<close>

lemma swap_cache:
  assumes m: "minv m rs" and c: "inv c (locks rs)" "tokens c = tokens (cm_cache m)"
    "\<forall>g ys us. has (cm_cache m) g ys us \<longrightarrow> has c g ys us"
  shows "minv (m\<lparr>cm_cache := c\<rparr>) rs"
proof -
  have "req_ok has (m\<lparr>cm_cache := c\<rparr>) r" if "r \<in> set rs" for r
    by (rule req_ok_frame [OF minvD(3) [OF m that]]) (use c(3) in simp_all)
  moreover have "\<forall>b \<in> set (pool_free m). int (cm_page m) dvd b" using minvD(4) [OF m] m by simp
  ultimately show ?thesis
    using m c(1,2) minvD(2,5) [OF m] unfolding cm_inv_def by simp
qed

lemma match_ok:
  assumes m: "minv m rs" and ids: "ids \<noteq> []"
  shows "\<exists>m' h vs. match_req ops tic ids mm m = Some (ok (m', h)) \<and> minv m' rs \<and> cm_table m' = cm_table m
    \<and> cm_free m' = cm_free m \<and> cm_lazy m' = cm_lazy m \<and> cm_num_pages m' = cm_num_pages m
    \<and> available_size ops m' = available_size ops m
    \<and> co_len ops h < length ids \<and> has (cm_cache m') h (take (co_len ops h) ids) vs \<and> (mm \<longrightarrow> co_len ops h = 0)
    \<and> ps dvd co_len ops h \<and> length vs = co_len ops h"
proof -
  let ?q = "if mm then [] else take (length ids - 1) ids"
  obtain c' h n vs where c: "co_match ops tic ?q (cm_cache m) = Some (ok (c', h))" "inv c' (locks rs)"
      "tokens c' = tokens (cm_cache m)" "co_evictable ops c' = co_evictable ops (cm_cache m)" "n \<le> length ?q"
      "has c' h (take n ?q) vs" "\<forall>g ys us. has (cm_cache m) g ys us \<longrightarrow> has c' g ys us"
    using match_law [OF minvD(1) [OF m], of tic ?q] by blast
  let ?m = "m\<lparr>cm_cache := c'\<rparr>"
  have n: "co_len ops h = n" "length vs = n" "ps dvd n" using has_len [OF c(2,6)] c(5) by (simp_all add: min_absorb2)
  have le: "n \<le> length ids - 1" "mm \<longrightarrow> n = 0" using c(5) by (auto split: if_splits)
  then have lt: "n < length ids" using ids by (cases ids) auto
  have tk: "take n ?q = take n ids" using le by (auto simp: min_absorb1)
  have "minv ?m rs" by (rule swap_cache [OF m c(2,3,7)])
  show ?thesis
  proof (intro exI conjI)
    show "match_req ops tic ids mm m = Some (ok (?m, h))" using ids c(1) by (simp add: match_req_def)
    show "cm_inv ops inv has tokens ?m rs" "cm_page ?m = ps" using \<open>minv ?m rs\<close> by simp_all
    show "available_size ops ?m = available_size ops m" using c(4) by (simp add: available_size_def)
    show "co_len ops h < length ids" using lt n by simp
    show "has (cm_cache ?m) h (take (co_len ops h) ids) vs" using c(6) tk n(1) by simp
    show "mm \<longrightarrow> co_len ops h = 0" using le n by simp
    show "ps dvd co_len ops h" "length vs = co_len ops h" using n by simp_all
  qed simp_all
qed

lemma hold_ok:
  assumes m: "minv m rs" and h: "has (cm_cache m) h xs vs" and mm: "mm \<longrightarrow> xs = []"
  shows "\<exists>c. set_lock ops h False m = Some (ok (m\<lparr>cm_cache := c\<rparr>)) \<and> has c h xs vs
    \<and> inv c (if mm then locks rs else h # locks rs) \<and> tokens c = tokens (cm_cache m)
    \<and> (\<forall>g ys us. has (cm_cache m) g ys us \<longrightarrow> has c g ys us)"
proof (cases mm)
  case True
  then have "has (cm_cache m) h [] vs" using h mm by simp
  then have "co_lock ops h False (cm_cache m) = Some (ok (cm_cache m))" by (rule empty_lock [OF minvD(1) [OF m]])
  then show ?thesis using True h minvD(1) [OF m] by (intro exI [of _ "cm_cache m"]) (simp add: set_lock_def)
next
  case False
  obtain c where "co_lock ops h False (cm_cache m) = Some (ok c)" "inv c (h # locks rs)" "tokens c = tokens (cm_cache m)"
      "\<forall>g ys us. has (cm_cache m) g ys us \<longrightarrow> has c g ys us"
    using lock_law [OF minvD(1) [OF m] h] by blast
  then show ?thesis using False h by (intro exI [of _ c]) (simp add: set_lock_def)
qed

lemma release_ok:
  assumes m: "minv m rs" and i: "inv c (if mm then locks rs else h # locks rs)" and h: "has c h xs vs" and mm: "mm \<longrightarrow> xs = []"
    and c: "tokens c = tokens (cm_cache m)" "\<forall>g ys us. has (cm_cache m) g ys us \<longrightarrow> has c g ys us"
  shows "\<exists>m'. set_lock ops h True (m\<lparr>cm_cache := c\<rparr>) = Some (ok m') \<and> minv m' rs \<and> cm_table m' = cm_table m
    \<and> cm_num_pages m' = cm_num_pages m"
proof -
  obtain c2 where c2: "co_lock ops h True c = Some (ok c2)" "inv c2 (locks rs)" "tokens c2 = tokens (cm_cache m)"
      "\<And>g ys us. has (cm_cache m) g ys us \<Longrightarrow> has c2 g ys us"
  proof (cases mm)
    case True
    then have "has c h [] vs" using h mm by simp
    then have "co_lock ops h True c = Some (ok c)" by (rule empty_lock [OF i])
    then show thesis using that [of c] i c True by simp
  next
    case False
    then have "inv c (h # locks rs)" using i by simp
    from unlock_law [OF this, of h] obtain c2 where "co_lock ops h True c = Some (ok c2)" "inv c2 (locks rs)" "tokens c2 = tokens c"
        "\<forall>g ys us. has c g ys us \<longrightarrow> has c2 g ys us" by auto
    then show thesis by (intro that [of c2]) (use c in auto)
  qed
  let ?m = "m\<lparr>cm_cache := c2\<rparr>"
  have "minv ?m rs" by (rule swap_cache [OF m c2(2,3)]) (use c2(4) in blast)
  then show ?thesis using c2(1) by (intro exI [of _ ?m]) (simp add: set_lock_def)
qed

lemma admit_ok:
  assumes m: "minv m rs" and i: "inv c (if rq_mm r then locks rs else rq_handle r # locks rs)"
    and c: "tokens c = tokens (cm_cache m)" "\<forall>g ys us. has (cm_cache m) g ys us \<longrightarrow> has c g ys us"
    and h: "has c (rq_handle r) xs vs" and mm: "rq_mm r \<longrightarrow> xs = []" and xs: "take (length xs) (rq_ids r) = xs"
    and len: "rq_cached r = length xs" and t: "rq_table r \<notin> rq_table ` set rs"
    and tb: "row tb (rq_table r) 0 (length xs) = vs" "\<And>s p. s \<noteq> rq_table r \<Longrightarrow> tb s p = cm_table m s p"
  shows "minv (m\<lparr>cm_cache := c, cm_table := tb\<rparr>) (r # rs)"
proof -
  define m' where "m' = m\<lparr>cm_cache := c, cm_table := tb\<rparr>"
  have pm: "cm_page m' = ps" "cm_cache m' = c" "cm_table m' = tb" "pool_free m' = pool_free m" "cm_num_pages m' = cm_num_pages m"
    using m by (simp_all add: m'_def pool_free_def)
  have d: "co_len ops (rq_handle r) = length xs" "ps dvd length xs" using has_len [OF i h] by auto
  have "pages_for ps (length xs) * ps = length xs" using d(2) page_pos by (auto simp: pages_for_exact mult.commute)
  then have tail: "padded_tail r (length xs) m' = []" by (simp add: padded_tail_def len pm)
  have t': "cm_table m' (rq_table q) p = cm_table m (rq_table q) p" if "q \<in> set rs" for q p
    using tb(2) t that pm(3) by (metis image_eqI)
  have "req_ok has m' r" using h mm xs len tb(1) tail pm by (auto simp: req_ok_def)
  moreover have "req_ok has m' q" if q: "q \<in> set rs" for q
    by (rule req_ok_frame [OF minvD(3) [OF m q]]) (use m pm c(2) t' [OF q] in auto)
  moreover have "(\<Sum>q\<leftarrow>rs. mset (own ops m' q)) = (\<Sum>q\<leftarrow>rs. mset (own ops m q))"
    by (intro arg_cong [where f = sum_list] map_cong refl arg_cong [where f = mset] own_frame) (use m pm t' in auto)
  moreover have "own ops m' r = []" using tail d(1) by (simp add: own_def)
  ultimately have "cm_inv ops inv has tokens m' (r # rs)"
    using i c(1) minvD(2,4,5) [OF m] t pm unfolding cm_inv_def by (auto split: if_splits)
  then show ?thesis using pm(1) unfolding m'_def by simp
qed

end

end
