(* ===== verification/Prefill.thy ===== *)
theory Prefill
  imports CacheAlloc
begin

text \<open>
  Admission of waiting requests: \<open>scheduler/prefill.py\<close> with \<open>PendingReq\<close> of \<open>scheduler/utils.py\<close>,
  for the pools that the cache manager theory covers. A request is matched against the prefix cache,
  given a table slot and cut into chunks that fit the token budget; a chunk that is not the last
  stays in the pending list with its chunked request.
\<close>

section \<open>State and operations\<close>

record 'h pending =
  pd_uid :: int
  pd_ids :: "int list"
  pd_sampling :: sampling_params
  pd_chunked :: "'h req option"
  pd_mm :: bool

definition pd_output_len :: "'h pending \<Rightarrow> int" where
  "pd_output_len p = sp_max_tokens (pd_sampling p)"

record 'c adder =
  ad_budget :: int
  ad_reserved :: int
  ad_cache :: "'c cache_manager"
  ad_table :: table_manager

text \<open>\<open>token_pool[t, a:b].copy_(ids)\<close>\<close>

definition write_tokens :: "int \<Rightarrow> nat \<Rightarrow> int list \<Rightarrow> table_manager \<Rightarrow> table_manager" where
  "write_tokens t a ids tm = tm\<lparr>tm_tokens := foldl write_cell (tm_tokens tm) (zip (map (Pair t) [a..<a + length ids]) ids)\<rparr>"

definition seat_request :: "('c, 'h) cache_ops \<Rightarrow> 'h pending \<Rightarrow> 'h \<Rightarrow> 'c adder \<Rightarrow> ('c adder \<times> int) result option" where
  "seat_request ops p h a =
    obind (Some (tm_allocate (ad_table a))) (\<lambda>(tm, t).
      let cached_len = co_len ops h in
      if cached_len > 0 then
        obind (co_indices ops (cm_cache (ad_cache a)) h) (\<lambda>matched.
          obind (Some (copy_row t (cached_len - length matched) cached_len matched (ad_cache a))) (\<lambda>m.
            Some (ok (a\<lparr>ad_cache := m, ad_table := write_tokens t 0 (take cached_len (pd_ids p)) tm\<rparr>, t))))
      else Some (ok (a\<lparr>ad_table := tm\<rparr>, t)))"

definition try_allocate_one :: "('c, 'h) cache_ops \<Rightarrow> int \<Rightarrow> 'h pending \<Rightarrow> 'c adder
    \<Rightarrow> ('c adder \<times> ('h \<times> int) option) result option" where
  "try_allocate_one ops tic p a =
    (if length (tm_free (ad_table a)) = 0 then Some (ok (a, None)) else
     obind (match_req ops tic (pd_ids p) (pd_mm p) (ad_cache a)) (\<lambda>(m, h).
       let a = a\<lparr>ad_cache := m\<rparr>;
           cached_len = co_len ops h;
           extend = int (length (pd_ids p)) - int cached_len;
           estimated_len = extend + pd_output_len p in
       if estimated_len + ad_reserved a > available_size ops m then Some (ok (a, None)) else
       obind (set_lock ops h False m) (\<lambda>m.
         if estimated_len + ad_reserved a > available_size ops m then
           obind (set_lock ops h True m) (\<lambda>m. Some (ok (a\<lparr>ad_cache := m\<rparr>, None)))
         else
           obind (seat_request ops p h (a\<lparr>ad_cache := m\<rparr>)) (\<lambda>(a, t). Some (ok (a, Some (h, t)))))))"

definition add_one_req :: "'h pending \<Rightarrow> 'h \<Rightarrow> int \<Rightarrow> nat \<Rightarrow> 'c adder \<Rightarrow> ('c adder \<times> 'h req) result" where
  "add_one_req p cache_handle table_idx cached_len a =
    (let remain = int (length (pd_ids p)) - int cached_len;
         chunk_size = min (ad_budget a) remain;
         is_chunked = chunk_size < remain;
         upto = cached_len + nat chunk_size;
         a' = a\<lparr>ad_budget := ad_budget a - chunk_size, ad_reserved := ad_reserved a + (remain + pd_output_len p),
                ad_table := write_tokens table_idx cached_len (take (nat chunk_size) (drop cached_len (pd_ids p))) (ad_table a)\<rparr> in
     if is_chunked \<and> pd_mm p then raise NotImplementedError
     else rbind (mk_req is_chunked (take upto (pd_ids p)) table_idx cached_len (pd_output_len p) (pd_uid p) cache_handle
                  (pd_sampling p) (pd_mm p))
            (\<lambda>r. ok (a', r)))"

definition try_add_one :: "('c, 'h) cache_ops \<Rightarrow> int \<Rightarrow> 'h pending \<Rightarrow> 'c adder
    \<Rightarrow> ('c adder \<times> 'h req option) result option" where
  "try_add_one ops tic p a =
    (if ad_budget a \<le> 0 then Some (ok (a, None)) else
     case pd_chunked p of
       Some c \<Rightarrow> obind (Some (add_one_req p (rq_handle c) (rq_table c) (rq_cached c) a)) (\<lambda>(a, r). Some (ok (a, Some r)))
     | None \<Rightarrow>
         obind (try_allocate_one ops tic p a) (\<lambda>(a, resource).
           case resource of
             None \<Rightarrow> Some (ok (a, None))
           | Some (h, t) \<Rightarrow> obind (Some (add_one_req p h t (co_len ops h) a)) (\<lambda>(a, r). Some (ok (a, Some r)))))"

record 'h prefill_log =
  pl_reqs :: "'h req list"
  pl_chunked :: "'h pending list"
  pl_admissions :: "(int \<times> nat \<times> nat) list"
  pl_new :: int
  pl_hit :: int

definition log_one :: "('c, 'h) cache_ops \<Rightarrow> 'h pending \<Rightarrow> 'h req \<Rightarrow> 'h prefill_log \<Rightarrow> 'h prefill_log" where
  "log_one ops p r l =
    (let is_continuation = pd_chunked p \<noteq> None; hit = co_len ops (rq_handle r) in
     l\<lparr>pl_reqs := pl_reqs l @ [r],
       pl_chunked := pl_chunked l @ (if rq_chunked r then [p\<lparr>pd_chunked := Some r\<rparr>] else []),
       pl_admissions := pl_admissions l @ (if is_continuation then [] else [(rq_uid r, length (pd_ids p), hit)]),
       pl_new := pl_new l + extend_len r,
       pl_hit := pl_hit l + (if is_continuation then 0 else int hit)\<rparr>)"

text \<open>The loop over the pending list, up to the first request that cannot be added. Each match takes
  a time stamp from the clock \<open>tics\<close>.\<close>

primrec admit_loop :: "('c, 'h) cache_ops \<Rightarrow> (nat \<Rightarrow> int) \<Rightarrow> nat \<Rightarrow> 'h pending list \<Rightarrow> 'c adder \<Rightarrow> 'h prefill_log
    \<Rightarrow> ('c adder \<times> 'h prefill_log) result option" where
  "admit_loop ops tics k [] a l = Some (ok (a, l))"
| "admit_loop ops tics k (p # ps) a l =
    obind (try_add_one ops (tics k) p a) (\<lambda>(a, req).
      case req of None \<Rightarrow> Some (ok (a, l)) | Some r \<Rightarrow> admit_loop ops tics (Suc k) ps a (log_one ops p r l))"

definition empty_log :: "'h prefill_log" where
  "empty_log = \<lparr>pl_reqs = [], pl_chunked = [], pl_admissions = [], pl_new = 0, pl_hit = 0\<rparr>"

definition schedule_prefill :: "('c, 'h) cache_ops \<Rightarrow> (nat \<Rightarrow> int) \<Rightarrow> int \<Rightarrow> int \<Rightarrow> 'h pending list \<Rightarrow> 'c cache_manager
    \<Rightarrow> table_manager \<Rightarrow> ('c cache_manager \<times> table_manager \<times> 'h pending list \<times> 'h batch option) result option" where
  "schedule_prefill ops tics prefill_budget inflight pending_list m tm =
    (if length pending_list = 0 then Some (ok (m, tm, pending_list, None)) else
     obind (admit_loop ops tics 0 pending_list
         \<lparr>ad_budget = prefill_budget, ad_reserved = inflight, ad_cache = m, ad_table = tm\<rparr> empty_log)
       (\<lambda>(a, l).
         if length (pl_reqs l) = 0 then Some (ok (ad_cache a, ad_table a, pending_list, None))
         else Some (ok (ad_cache a, ad_table a, pl_chunked l @ drop (length (pl_reqs l)) pending_list,
           Some \<lparr>ba_reqs = pl_reqs l, ba_phase = phase.Prefill, ba_new_tokens = pl_new l, ba_cached_tokens = pl_hit l,
                 ba_admissions = pl_admissions l\<rparr>))))"

definition add_pending :: "int \<Rightarrow> int list \<Rightarrow> sampling_params \<Rightarrow> bool \<Rightarrow> 'h pending list \<Rightarrow> 'h pending list" where
  "add_pending uid input_ids sampling mm ps =
    ps @ [\<lparr>pd_uid = uid, pd_ids = input_ids, pd_sampling = sampling, pd_chunked = None, pd_mm = mm\<rparr>]"

fun abort_pending :: "int \<Rightarrow> 'h pending list \<Rightarrow> 'h pending list \<times> 'h req option" where
  "abort_pending uid [] = ([], None)"
| "abort_pending uid (p # ps) =
    (if pd_uid p = uid then (ps, pd_chunked p)
     else (case abort_pending uid ps of (ps', r) \<Rightarrow> (p # ps', r)))"

section \<open>Well-formed pending lists\<close>

definition pending_ok :: "'h pending \<Rightarrow> bool" where
  "pending_ok p \<longleftrightarrow> pd_ids p \<noteq> [] \<and> 0 \<le> pd_output_len p
     \<and> (\<forall>c. pd_chunked p = Some c \<longrightarrow> rq_chunked c \<and> rq_uid c = pd_uid p \<and> rq_mm c = pd_mm p \<and> \<not> pd_mm p
         \<and> rq_cached c < length (pd_ids p) \<and> rq_ids c = take (rq_cached c) (pd_ids p))"

definition holders :: "'h pending list \<Rightarrow> 'h req list" where
  "holders ps = List.map_filter pd_chunked ps"

lemma holders_simps [simp]:
  "holders [] = []" "holders (p # ps) = (case pd_chunked p of None \<Rightarrow> holders ps | Some c \<Rightarrow> c # holders ps)"
  "holders (ps @ qs) = holders ps @ holders qs"
  by (simp_all add: holders_def List.map_filter_def split: option.split)

text \<open>What \<open>add_one_req\<close> builds.\<close>

lemma add_one_req_ok:
  assumes "0 < ad_budget a" "cached_len < length (pd_ids p)" "0 \<le> pd_output_len p"
  defines "remain \<equiv> int (length (pd_ids p)) - int cached_len"
  defines "chunk \<equiv> min (ad_budget a) remain"
  shows "(pd_mm p \<and> ad_budget a < remain \<and> add_one_req p h t cached_len a = raise NotImplementedError)
    \<or> (\<exists>a' r. add_one_req p h t cached_len a = ok (a', r)
      \<and> r = \<lparr>rq_uid = pd_uid p, rq_ids = take (cached_len + nat chunk) (pd_ids p), rq_table = t, rq_cached = cached_len,
             rq_device = cached_len + nat chunk, rq_output = pd_output_len p, rq_max = int (cached_len + nat chunk) + pd_output_len p,
             rq_sampling = pd_sampling p, rq_handle = h, rq_mm = pd_mm p, rq_chunked = (chunk < remain), rq_aborted = False\<rparr>
      \<and> 0 < chunk \<and> chunk \<le> remain \<and> cached_len + nat chunk \<le> length (pd_ids p)
      \<and> ad_budget a' = ad_budget a - chunk \<and> 0 \<le> ad_budget a' \<and> (chunk < remain \<longrightarrow> ad_budget a' = 0 \<and> \<not> pd_mm p)
      \<and> ad_reserved a' = ad_reserved a + (remain + pd_output_len p) \<and> ad_cache a' = ad_cache a
      \<and> tm_free (ad_table a') = tm_free (ad_table a) \<and> tm_max (ad_table a') = tm_max (ad_table a))"
proof -
  have c: "0 < chunk" "chunk \<le> remain" "chunk \<le> ad_budget a" "chunk < remain \<Longrightarrow> chunk = ad_budget a"
    using assms(1,2) by (auto simp: chunk_def remain_def)
  have u: "cached_len + nat chunk \<le> length (pd_ids p)" using c assms(2) by (simp add: remain_def)
  have len: "length (take (cached_len + nat chunk) (pd_ids p)) = cached_len + nat chunk" using u by simp
  show ?thesis
  proof (cases "chunk < remain \<and> pd_mm p")
    case True
    have "add_one_req p h t cached_len a = raise NotImplementedError"
      using True unfolding add_one_req_def Let_def chunk_def remain_def by simp
    then show ?thesis using True c(4) by simp
  next
    case False
    let ?r = "\<lparr>rq_uid = pd_uid p, rq_ids = take (cached_len + nat chunk) (pd_ids p), rq_table = t, rq_cached = cached_len,
             rq_device = cached_len + nat chunk, rq_output = pd_output_len p, rq_max = int (cached_len + nat chunk) + pd_output_len p,
             rq_sampling = pd_sampling p, rq_handle = h, rq_mm = pd_mm p, rq_chunked = (chunk < remain), rq_aborted = False\<rparr>"
    let ?a = "a\<lparr>ad_budget := ad_budget a - chunk, ad_reserved := ad_reserved a + (remain + pd_output_len p),
                ad_table := write_tokens t cached_len (take (nat chunk) (drop cached_len (pd_ids p))) (ad_table a)\<rparr>"
    have "mk_req (chunk < remain) (take (cached_len + nat chunk) (pd_ids p)) t cached_len (pd_output_len p) (pd_uid p) h
        (pd_sampling p) (pd_mm p) = ok ?r"
      using c(1) assms(3) unfolding mk_req_def Let_def len by simp
    then have "add_one_req p h t cached_len a = ok (?a, ?r)"
      using False unfolding add_one_req_def Let_def chunk_def [symmetric] remain_def [symmetric] by simp
    then show ?thesis using c u False
      by (intro disjI2 exI [of _ ?a], intro exI [of _ ?r]) (auto simp: write_tokens_def)
  qed
qed

lemma obind_ok: "obind (Some (Inr x)) f = f x"
  by simp

context prefix_cache
begin

text \<open>An adder state is good for a list of holders: the pages and the table slots are theirs.\<close>

abbreviation adder_ok :: "'c adder \<Rightarrow> 'h req list \<Rightarrow> bool" where
  "adder_ok a rs \<equiv> minv (ad_cache a) rs \<and> tm_inv (ad_table a) (map rq_table rs)"

lemma try_allocate_ok:
  assumes a: "adder_ok a rs" and ids: "pd_ids p \<noteq> []"
  shows "\<exists>a' res. try_allocate_one ops tic p a = Some (ok (a', res)) \<and> ad_budget a' = ad_budget a \<and> ad_reserved a' = ad_reserved a
    \<and> (res = None \<longrightarrow> adder_ok a' rs)
    \<and> (\<forall>h t. res = Some (h, t) \<longrightarrow> co_len ops h < length (pd_ids p) \<and> (pd_mm p \<longrightarrow> co_len ops h = 0)
        \<and> int (length (pd_ids p)) - int (co_len ops h) + pd_output_len p + ad_reserved a \<le> available_size ops (ad_cache a')
        \<and> tm_inv (ad_table a') (t # map rq_table rs)
        \<and> (\<forall>r. rq_table r = t \<longrightarrow> rq_handle r = h \<longrightarrow> rq_mm r = pd_mm p \<longrightarrow> rq_cached r = co_len ops h
             \<longrightarrow> take (co_len ops h) (rq_ids r) = take (co_len ops h) (pd_ids p) \<longrightarrow> minv (ad_cache a') (r # rs)))"
proof (cases "tm_free (ad_table a) = []")
  case True
  then show ?thesis using a by (intro exI [of _ a], intro exI [of _ None]) (simp add: try_allocate_one_def)
next
  case tm: False
  let ?est = "\<lambda>h. int (length (pd_ids p)) - int (co_len ops h) + pd_output_len p + ad_reserved a"
  obtain m1 h vs where m1: "match_req ops tic (pd_ids p) (pd_mm p) (ad_cache a) = Some (ok (m1, h))" "minv m1 rs"
      "cm_table m1 = cm_table (ad_cache a)" "co_len ops h < length (pd_ids p)"
      "has (cm_cache m1) h (take (co_len ops h) (pd_ids p)) vs" "pd_mm p \<longrightarrow> co_len ops h = 0"
      "ps dvd co_len ops h" "length vs = co_len ops h"
    using match_ok [of "ad_cache a" rs "pd_ids p" tic "pd_mm p"] a ids by metis
  show ?thesis
  proof (cases "?est h > available_size ops m1")
    case True
    then show ?thesis using a m1(1,2) tm
      by (intro exI [of _ "a\<lparr>ad_cache := m1\<rparr>"], intro exI [of _ None]) (simp add: try_allocate_one_def Let_def)
  next
    case fit: False
    have mm: "pd_mm p \<longrightarrow> take (co_len ops h) (pd_ids p) = []" using m1(6) by simp
    obtain c where c: "set_lock ops h False m1 = Some (ok (m1\<lparr>cm_cache := c\<rparr>))" "has c h (take (co_len ops h) (pd_ids p)) vs"
        "inv c (if pd_mm p then locks rs else h # locks rs)" "tokens c = tokens (cm_cache m1)"
        "\<forall>g ys us. has (cm_cache m1) g ys us \<longrightarrow> has c g ys us"
      using hold_ok [OF m1(2,5) mm] by blast
    let ?m = "m1\<lparr>cm_cache := c\<rparr>"
    show ?thesis
    proof (cases "?est h > available_size ops ?m")
      case True
      obtain m2 where m2: "set_lock ops h True ?m = Some (ok m2)" "minv m2 rs"
        using release_ok [OF m1(2) c(3,2) mm c(4,5)] by blast
      then show ?thesis using a m1(1) tm fit True c(1)
        by (intro exI [of _ "a\<lparr>ad_cache := m2\<rparr>"], intro exI [of _ None]) (simp add: try_allocate_one_def Let_def)
    next
      case fit2: False
      obtain tm1 t where t: "tm_allocate (ad_table a) = ok (tm1, t)" "tm_inv tm1 (t # map rq_table rs)" "t \<notin> set (map rq_table rs)"
        using tm_allocate_ok [of "ad_table a" "map rq_table rs"] a tm by blast
      let ?n = "co_len ops h"
      let ?tb = "if 0 < ?n then foldl write_cell (cm_table m1) (zip (map (Pair t) [0..<?n]) vs) else cm_table m1"
      let ?m3 = "?m\<lparr>cm_table := ?tb\<rparr>"
      let ?a = "a\<lparr>ad_cache := ?m3, ad_table := (if 0 < ?n then write_tokens t 0 (take ?n (pd_ids p)) tm1 else tm1)\<rparr>"
      have seat: "seat_request ops p h (a\<lparr>ad_cache := ?m\<rparr>) = Some (ok (?a, t))"
      proof (cases "0 < ?n")
        case True
        then have "take ?n (pd_ids p) \<noteq> []" using ids by simp
        then have "co_indices ops c h = Some (ok vs)" using has_indices [OF c(3,2)] by simp
        moreover have "copy_row t (?n - length vs) ?n vs ?m = ok ?m3" using m1(8) True by (simp add: copy_row_def)
        ultimately show ?thesis using t(1) True by (simp add: seat_request_def Let_def)
      next
        case False
        then show ?thesis using t(1) by (simp add: seat_request_def Let_def)
      qed
      have run: "try_allocate_one ops tic p a = Some (ok (?a, Some (h, t)))"
        using m1(1) tm fit fit2 c(1) seat by (simp add: try_allocate_one_def Let_def)
      have tb: "row ?tb t 0 ?n = vs" "\<And>s q. s \<noteq> t \<Longrightarrow> ?tb s q = cm_table m1 s q"
      proof -
        show "row ?tb t 0 ?n = vs" using m1(8) write_row [of vs ?n 0 "cm_table m1" t] by (cases "0 < ?n") simp_all
        show "?tb s q = cm_table m1 s q" if "s \<noteq> t" for s q using that write_outside [of s q "map (Pair t) [0..<?n]" "cm_table m1" vs] by auto
      qed
      have new: "minv ?m3 (r # rs)" if r: "rq_table r = t" "rq_handle r = h" "rq_mm r = pd_mm p" "rq_cached r = ?n"
          "take ?n (rq_ids r) = take ?n (pd_ids p)" for r
      proof -
        have len: "length (take ?n (pd_ids p)) = ?n" using m1(4) by simp
        have i: "inv c (if rq_mm r then locks rs else rq_handle r # locks rs)" unfolding r(2,3) by (rule c(3))
        have "minv (m1\<lparr>cm_cache := c, cm_table := ?tb\<rparr>) (r # rs)"
          by (rule admit_ok [OF m1(2) i, of "take ?n (pd_ids p)" vs])
            (use r c mm len t(3) tb m1(4) in \<open>simp_all add: min_absorb1\<close>)
        then show ?thesis by simp
      qed
      have "tm_inv (ad_table ?a) (t # map rq_table rs)" using t(2) by (simp add: tm_inv_def write_tokens_def)
      moreover have "available_size ops (ad_cache ?a) = available_size ops ?m" by (simp add: available_size_def)
      ultimately show ?thesis using run m1(4,6) fit2 new
        by (intro exI [of _ ?a], intro exI [of _ "Some (h, t)"]) simp
    qed
  qed
qed

lemma minvI:
  assumes "cm_page m = ps" "inv (cm_cache m) (locks rs)" "distinct (map rq_table rs)" "\<And>r. r \<in> set rs \<Longrightarrow> req_ok has m r"
    "\<And>b. b \<in> set (pool_free m) \<Longrightarrow> int ps dvd b"
    "mset (expand_pages ps (pool_free m)) + tokens (cm_cache m) + sum_list (map (\<lambda>r. mset (own ops m r)) rs)
       = mset (map int [0..<cm_num_pages m * ps])"
  shows "minv m rs"
  using assms by (simp add: cm_inv_def)

lemma replace_req:
  assumes m: "minv m (c # rs)" and r: "rq_table r = rq_table c" "rq_handle r = rq_handle c" "rq_cached r = rq_cached c" "rq_mm r = rq_mm c"
    and ids: "\<forall>k. k \<le> rq_cached c \<longrightarrow> k \<le> length (rq_ids c) \<longrightarrow> take k (rq_ids r) = take k (rq_ids c)"
  shows "minv m (r # rs)"
proof -
  have tail: "padded_tail r s m = padded_tail c s m" for s using r by (simp add: padded_tail_def)
  obtain xs vs where y: "has (cm_cache m) (rq_handle c) xs vs" "take (length xs) (rq_ids c) = xs" "length xs \<le> rq_cached c"
      "length xs \<le> length (rq_ids c)" "row (cm_table m) (rq_table c) 0 (length xs) = vs" "rq_mm c \<Longrightarrow> xs = []"
      "paged ps (padded_tail c (length xs) m)"
    by (rule req_view [OF m, of c]) auto
  have "req_ok has m r"
    unfolding req_ok_def
  proof (intro exI conjI)
    show "has (cm_cache m) (rq_handle r) xs vs" using y(1) r by simp
    show "take (length xs) (rq_ids r) = xs" using ids y(2-4) by metis
    show "length xs \<le> rq_cached r" "row (cm_table m) (rq_table r) 0 (length xs) = vs" "rq_mm r \<longrightarrow> xs = []" using y(3,5,6) r by simp_all
    show "paged (cm_page m) (padded_tail r (length xs) m)" using y(7) tail m by simp
  qed
  moreover have "own ops m r = own ops m c" using r tail by (simp add: own_def)
  moreover have "locks (r # rs) = locks (c # rs)" using r by simp
  moreover have "map rq_table (r # rs) = map rq_table (c # rs)" using r by simp
  ultimately show ?thesis
    by (intro minvI) (use m minvD [OF m] in auto)
qed

end

section \<open>One pass over the pending list\<close>

text \<open>What the pass makes of a pending request.\<close>

definition admits :: "'h pending \<Rightarrow> 'h req \<Rightarrow> bool" where
  "admits p r \<longleftrightarrow> rq_uid r = pd_uid p \<and> rq_ids r = take (rq_device r) (pd_ids p) \<and> rq_mm r = pd_mm p
     \<and> rq_cached r < rq_device r \<and> rq_device r \<le> length (pd_ids p) \<and> rq_chunked r = (rq_device r < length (pd_ids p))
     \<and> (rq_chunked r \<longrightarrow> \<not> pd_mm p) \<and> rq_max r = int (rq_device r) + pd_output_len p \<and> rq_sampling r = pd_sampling p
     \<and> (\<forall>c. pd_chunked p = Some c \<longrightarrow> rq_table r = rq_table c \<and> rq_handle r = rq_handle c \<and> rq_cached r = rq_cached c)"

definition next_chunks :: "('h pending \<times> 'h req) list \<Rightarrow> 'h pending list" where
  "next_chunks prs = [p\<lparr>pd_chunked := Some r\<rparr>. (p, r) \<leftarrow> prs, rq_chunked r]"

lemma add_one_req_admits:
  assumes "add_one_req p h t k a = ok (a', r)" "0 < ad_budget a" "k < length (pd_ids p)" "0 \<le> pd_output_len p"
    and "\<forall>c. pd_chunked p = Some c \<longrightarrow> h = rq_handle c \<and> t = rq_table c \<and> k = rq_cached c"
  shows "admits p r" "rq_table r = t" "rq_handle r = h" "rq_cached r = k" "rq_mm r = pd_mm p"
    "ad_budget a' = ad_budget a - extend_len r" "0 \<le> ad_budget a'" "rq_chunked r \<Longrightarrow> ad_budget a' = 0"
    "ad_cache a' = ad_cache a" "tm_inv (ad_table a') = tm_inv (ad_table a)"
    "ad_reserved a' = ad_reserved a + (int (length (pd_ids p)) - int k + pd_output_len p)"
proof -
  let ?chunk = "min (ad_budget a) (int (length (pd_ids p)) - int k)"
  have r: "r = \<lparr>rq_uid = pd_uid p, rq_ids = take (k + nat ?chunk) (pd_ids p), rq_table = t, rq_cached = k,
             rq_device = k + nat ?chunk, rq_output = pd_output_len p, rq_max = int (k + nat ?chunk) + pd_output_len p,
             rq_sampling = pd_sampling p, rq_handle = h, rq_mm = pd_mm p,
             rq_chunked = (?chunk < int (length (pd_ids p)) - int k), rq_aborted = False\<rparr>"
      and b: "0 < ?chunk" "?chunk \<le> int (length (pd_ids p)) - int k" "k + nat ?chunk \<le> length (pd_ids p)"
      "ad_budget a' = ad_budget a - ?chunk" "0 \<le> ad_budget a'"
      "?chunk < int (length (pd_ids p)) - int k \<longrightarrow> ad_budget a' = 0 \<and> \<not> pd_mm p"
      "ad_reserved a' = ad_reserved a + (int (length (pd_ids p)) - int k + pd_output_len p)" "ad_cache a' = ad_cache a"
      "tm_free (ad_table a') = tm_free (ad_table a)" "tm_max (ad_table a') = tm_max (ad_table a)"
    using add_one_req_ok [OF assms(2-4), of h t] assms(1) by auto
  have lt: "?chunk < int (length (pd_ids p)) - int k \<longleftrightarrow> k + nat ?chunk < length (pd_ids p)" using b(1) by linarith
  have ch: "rq_chunked r \<longleftrightarrow> ?chunk < int (length (pd_ids p)) - int k" unfolding r by simp
  have f: "rq_uid r = pd_uid p" "rq_ids r = take (rq_device r) (pd_ids p)" "rq_device r = k + nat ?chunk"
      "rq_max r = int (rq_device r) + pd_output_len p" "rq_sampling r = pd_sampling p"
    unfolding r by simp_all
  show t: "rq_table r = t" "rq_handle r = h" "rq_cached r = k" "rq_mm r = pd_mm p" unfolding r by simp_all
  show "admits p r" unfolding admits_def using assms(5) f t ch lt b(1,3,6) by auto
  show "ad_budget a' = ad_budget a - extend_len r" using b(1,4) f(3) t(3) by (simp add: extend_len_def)
  show "rq_chunked r \<Longrightarrow> ad_budget a' = 0" using ch b(6) by simp
  show "tm_inv (ad_table a') = tm_inv (ad_table a)" using b(9,10) by (simp add: fun_eq_iff tm_inv_def)
  show "0 \<le> ad_budget a'" "ad_cache a' = ad_cache a"
    "ad_reserved a' = ad_reserved a + (int (length (pd_ids p)) - int k + pd_output_len p)" by (fact b)+
qed

definition announced :: "('h pending \<times> 'h req) list \<Rightarrow> (int \<times> nat \<times> nat) list" where
  "announced prs = [(pd_uid p, length (pd_ids p), rq_cached r). (p, r) \<leftarrow> prs, pd_chunked p = None]"

lemma next_chunks_simps [simp]:
  "next_chunks [] = []"
  "next_chunks ((p, r) # prs) = (if rq_chunked r then [p\<lparr>pd_chunked := Some r\<rparr>] else []) @ next_chunks prs"
  by (simp_all add: next_chunks_def)

lemma announced_simps [simp]:
  "announced [] = []"
  "announced ((p, r) # prs) = (if pd_chunked p = None then [(pd_uid p, length (pd_ids p), rq_cached r)] else []) @ announced prs"
  by (simp_all add: announced_def)

lemma admits_extend: "admits p r \<Longrightarrow> 0 < extend_len r"
  by (simp add: admits_def extend_len_def)

text \<open>The outcome of a pass over \<open>ps\<close>.\<close>

definition admitted :: "'h pending list \<Rightarrow> 'h pending list \<Rightarrow> 'h req list \<Rightarrow> int \<Rightarrow> int \<Rightarrow> 'h prefill_log \<Rightarrow> 'h prefill_log \<Rightarrow> bool" where
  "admitted ps rest news b b' l l' \<longleftrightarrow> (\<exists>done. ps = done @ rest \<and> list_all2 admits done news
     \<and> pl_reqs l' = pl_reqs l @ news \<and> pl_chunked l' = pl_chunked l @ next_chunks (zip done news)
     \<and> pl_admissions l' = pl_admissions l @ announced (zip done news)
     \<and> pl_new l' = pl_new l + sum_list (map extend_len news)
     \<and> sum_list (map extend_len news) + b' = b \<and> (news \<noteq> [] \<longrightarrow> 0 \<le> b')
     \<and> (\<forall>r \<in> set (butlast news). \<not> rq_chunked r))"

lemma admitted_Nil: "admitted ps ps [] b b l l"
  by (simp add: admitted_def)

lemma admitted_Cons:
  assumes h: "admits p r" "b1 = b - extend_len r" "0 \<le> b1" "rq_chunked r \<longrightarrow> b1 = 0"
    and l1: "l1 = log_one ops p r l" "pd_chunked p = None \<longrightarrow> rq_cached r = co_len ops (rq_handle r)"
    and t: "admitted ps rest news b1 b' l1 l'"
  shows "admitted (p # ps) rest (r # news) b b' l l'"
proof -
  obtain dn where d: "ps = dn @ rest" "list_all2 admits dn news" "pl_reqs l' = pl_reqs l1 @ news"
      "pl_chunked l' = pl_chunked l1 @ next_chunks (zip dn news)" "pl_admissions l' = pl_admissions l1 @ announced (zip dn news)"
      "pl_new l' = pl_new l1 + sum_list (map extend_len news)" "sum_list (map extend_len news) + b' = b1"
      "news \<noteq> [] \<longrightarrow> 0 \<le> b'" "\<forall>r \<in> set (butlast news). \<not> rq_chunked r"
    using t by (auto simp: admitted_def)
  have pos: "0 < sum_list (map extend_len news)" if ne: "news \<noteq> []"
  proof -
    have all: "\<forall>x \<in> set news. 0 < extend_len x"
      using d(2) by (induction rule: list_all2_induct) (auto dest: admits_extend)
    obtain x xs where x: "news = x # xs" using ne by (cases news) auto
    have "0 \<le> sum_list (map extend_len xs)" using all x by (intro sum_list_nonneg) (auto intro: less_imp_le)
    then show ?thesis using all x by simp
  qed
  have single: "rq_chunked r \<Longrightarrow> news = []" using h(4) d(7,8) pos by force
  have u: "rq_uid r = pd_uid p" using h(1) by (simp add: admits_def)
  show ?thesis
    unfolding admitted_def
  proof (intro exI [of _ "p # dn"] conjI)
    show "\<forall>q \<in> set (butlast (r # news)). \<not> rq_chunked q" using d(9) single by auto
    show "r # news \<noteq> [] \<longrightarrow> 0 \<le> b'" using d(7,8) h(3) by (cases news) auto
  qed (use d h(1,2) l1 u in \<open>simp_all add: log_one_def Let_def\<close>)
qed

context prefix_cache
begin

lemma try_add_ok:
  assumes a: "adder_ok a (holders [p] @ rs)" and p: "pending_ok p"
  shows "try_add_one ops tic p a = Some (raise NotImplementedError)
    \<or> (\<exists>a'. try_add_one ops tic p a = Some (ok (a', None)) \<and> adder_ok a' (holders [p] @ rs) \<and> ad_budget a' = ad_budget a)
    \<or> (\<exists>a' r. try_add_one ops tic p a = Some (ok (a', Some r)) \<and> adder_ok a' (r # rs) \<and> admits p r \<and> 0 < ad_budget a
        \<and> ad_budget a' = ad_budget a - extend_len r \<and> 0 \<le> ad_budget a' \<and> (rq_chunked r \<longrightarrow> ad_budget a' = 0)
        \<and> (pd_chunked p = None \<longrightarrow> rq_cached r = co_len ops (rq_handle r)
           \<and> int (length (pd_ids p)) - int (rq_cached r) + pd_output_len p + ad_reserved a \<le> available_size ops (ad_cache a')))"
proof (cases "0 < ad_budget a")
  case False
  then show ?thesis using a by (simp add: try_add_one_def)
next
  case b: True
  have ids: "pd_ids p \<noteq> []" and out: "0 \<le> pd_output_len p" using p by (simp_all add: pending_ok_def)
  show ?thesis
  proof (cases "pd_chunked p")
    case (Some c)
    have c: "rq_cached c < length (pd_ids p)" "rq_ids c = take (rq_cached c) (pd_ids p)" "rq_mm c = pd_mm p"
      using p Some by (auto simp: pending_ok_def)
    have ac: "adder_ok a (c # rs)" using a Some by simp
    show ?thesis
    proof (cases "add_one_req p (rq_handle c) (rq_table c) (rq_cached c) a")
      case (Inl e)
      then have "e = NotImplementedError" using add_one_req_ok [OF b c(1) out, of "rq_handle c" "rq_table c"] by auto
      then show ?thesis using Inl Some b by (simp add: try_add_one_def)
    next
      case (Inr y)
      obtain a' r where y: "y = (a', r)" by (cases y)
      note w = add_one_req_admits [OF Inr [unfolded y] b c(1) out]
      have eq: "\<forall>c'. pd_chunked p = Some c' \<longrightarrow> rq_handle c = rq_handle c' \<and> rq_table c = rq_table c' \<and> rq_cached c = rq_cached c'"
        using Some by simp
      note w = w [OF eq]
      have "\<forall>k. k \<le> rq_cached c \<longrightarrow> k \<le> length (rq_ids c) \<longrightarrow> take k (rq_ids r) = take k (rq_ids c)"
        using w(1,4) c(2) by (simp add: admits_def min_absorb1)
      moreover have "rq_mm r = rq_mm c" unfolding w(5) c(3) ..
      ultimately have "minv (ad_cache a) (r # rs)" using replace_req [OF conjunct1 [OF ac] w(2,3,4)] by blast
      then have "minv (ad_cache a') (r # rs)" unfolding w(9) .
      moreover have "tm_inv (ad_table a') (map rq_table (r # rs))" using ac w(2,10) by simp
      moreover have "try_add_one ops tic p a = Some (ok (a', Some r))" using Inr y Some b by (simp add: try_add_one_def)
      ultimately show ?thesis using Some b w(1,6,7,8)
        by (intro disjI2) (intro exI [of _ a'], intro exI [of _ r], simp)
    qed
  next
    case None
    have ar: "adder_ok a rs" using a None by simp
    obtain a1 res where r1: "try_allocate_one ops tic p a = Some (ok (a1, res))" "ad_budget a1 = ad_budget a" "ad_reserved a1 = ad_reserved a"
        "res = None \<longrightarrow> adder_ok a1 rs"
        "\<And>h t. res = Some (h, t) \<Longrightarrow> co_len ops h < length (pd_ids p)
          \<and> int (length (pd_ids p)) - int (co_len ops h) + pd_output_len p + ad_reserved a \<le> available_size ops (ad_cache a1)
          \<and> tm_inv (ad_table a1) (t # map rq_table rs)
          \<and> (\<forall>r. rq_table r = t \<longrightarrow> rq_handle r = h \<longrightarrow> rq_mm r = pd_mm p \<longrightarrow> rq_cached r = co_len ops h
             \<longrightarrow> take (co_len ops h) (rq_ids r) = take (co_len ops h) (pd_ids p) \<longrightarrow> minv (ad_cache a1) (r # rs))"
      using try_allocate_ok [OF ar ids, of tic] by blast
    show ?thesis
    proof (cases res)
      case None': None
      then show ?thesis using r1 None b by (simp add: try_add_one_def)
    next
      case (Some ht)
      obtain h t where ht: "ht = (h, t)" by (cases ht)
      note q = r1(5) [OF Some [unfolded ht]]
      have k: "co_len ops h < length (pd_ids p)" and b1: "0 < ad_budget a1" using q b r1(2) by simp_all
      show ?thesis
      proof (cases "add_one_req p h t (co_len ops h) a1")
        case (Inl e)
        then have "e = NotImplementedError" using add_one_req_ok [OF b1 k out, of h t] by auto
        then show ?thesis using Inl None Some ht r1(1) b by (simp add: try_add_one_def)
      next
        case (Inr y)
        obtain a' r where y: "y = (a', r)" by (cases y)
        have eq: "\<forall>c. pd_chunked p = Some c \<longrightarrow> h = rq_handle c \<and> t = rq_table c \<and> co_len ops h = rq_cached c" using None by simp
        note w = add_one_req_admits [OF Inr [unfolded y] b1 k out eq]
        have "take (co_len ops h) (rq_ids r) = take (co_len ops h) (pd_ids p)"
          using w(1,4) by (simp add: admits_def min_absorb1)
        then have "minv (ad_cache a') (r # rs)" unfolding w(9) using q w by blast
        moreover have "tm_inv (ad_table a') (map rq_table (r # rs))" using q w(2,10) by simp
        moreover have "try_add_one ops tic p a = Some (ok (a', Some r))"
          using Inr y Some ht None b r1(1) by (simp add: try_add_one_def)
        ultimately show ?thesis using b r1(2) q w(1,3,4,6,7,8,9)
          by (intro disjI2) (intro exI [of _ a'], intro exI [of _ r], simp)
      qed
    qed
  qed
qed

lemma adder_perm: "adder_ok a rs \<Longrightarrow> mset qs = mset rs \<Longrightarrow> adder_ok a qs"
  using minv_perm [of "ad_cache a" rs qs] by (simp add: tm_inv_def)

lemma admit_loop_ok:
  assumes "adder_ok a (pl_reqs l @ holders wl @ qs)" "\<forall>p \<in> set wl. pending_ok p"
  shows "admit_loop ops tics k wl a l = Some (raise NotImplementedError)
    \<or> (\<exists>a' l' rest news. admit_loop ops tics k wl a l = Some (ok (a', l'))
        \<and> admitted wl rest news (ad_budget a) (ad_budget a') l l' \<and> adder_ok a' (pl_reqs l' @ holders rest @ qs))"
  using assms
proof (induction wl arbitrary: a l k)
  case Nil
  then show ?case using admitted_Nil by (intro disjI2) (intro exI [of _ a], intro exI [of _ l], intro exI [of _ "[]"], auto)
next
  case (Cons p wl)
  let ?rs = "pl_reqs l @ holders wl @ qs"
  have "adder_ok a (holders [p] @ ?rs)"
    by (rule adder_perm [OF Cons.prems(1)]) (simp split: option.split)
  from try_add_ok [OF this, of "tics k"] Cons.prems(2)
  consider "try_add_one ops (tics k) p a = Some (raise NotImplementedError)"
    | a' where "try_add_one ops (tics k) p a = Some (ok (a', None))" "adder_ok a' (holders [p] @ ?rs)" "ad_budget a' = ad_budget a"
    | a' r where "try_add_one ops (tics k) p a = Some (ok (a', Some r))" "adder_ok a' (r # ?rs)" "admits p r"
        "ad_budget a' = ad_budget a - extend_len r" "0 \<le> ad_budget a'" "rq_chunked r \<longrightarrow> ad_budget a' = 0"
        "pd_chunked p = None \<longrightarrow> rq_cached r = co_len ops (rq_handle r)"
    by fastforce
  then show ?case
  proof cases
    case 1
    then show ?thesis by simp
  next
    case (2 a')
    have "adder_ok a' (pl_reqs l @ holders (p # wl) @ qs)"
      by (rule adder_perm [OF 2(2)]) (simp split: option.split)
    moreover have "admit_loop ops tics k (p # wl) a l = Some (ok (a', l))" using 2(1) by simp
    ultimately show ?thesis using admitted_Nil [of "p # wl" "ad_budget a" l] 2(3) by metis
  next
    case (3 a' r)
    let ?l = "log_one ops p r l"
    have run: "admit_loop ops tics k (p # wl) a l = admit_loop ops tics (Suc k) wl a' ?l" using 3(1) by simp
    have "adder_ok a' (pl_reqs ?l @ holders wl @ qs)"
      by (rule adder_perm [OF 3(2)]) (simp add: log_one_def Let_def)
    then have "admit_loop ops tics (Suc k) wl a' ?l = Some (raise NotImplementedError)
      \<or> (\<exists>a'' l' rest news. admit_loop ops tics (Suc k) wl a' ?l = Some (ok (a'', l'))
        \<and> admitted wl rest news (ad_budget a') (ad_budget a'') ?l l' \<and> adder_ok a'' (pl_reqs l' @ holders rest @ qs))"
      using Cons.prems(2) by (intro Cons.IH) simp_all
    then show ?thesis
    proof (elim disjE exE)
      fix a'' l' rest news
      assume asm: "admit_loop ops tics (Suc k) wl a' ?l = Some (ok (a'', l'))
        \<and> admitted wl rest news (ad_budget a') (ad_budget a'') ?l l' \<and> adder_ok a'' (pl_reqs l' @ holders rest @ qs)"
      note r = asm [THEN conjunct1] and t = asm [THEN conjunct2, THEN conjunct1] and ok = asm [THEN conjunct2, THEN conjunct2]
      have "admitted (p # wl) rest (r # news) (ad_budget a) (ad_budget a'') l l'"
        by (rule admitted_Cons [OF 3(3,4,5,6) refl 3(7) t])
      then show ?thesis using r run ok by metis
    qed (use run in simp)
  qed
qed

lemma schedule_ok:
  assumes m: "minv m (holders wl @ qs)" "tm_inv tm (map rq_table (holders wl @ qs))" and wl: "\<forall>p \<in> set wl. pending_ok p"
  shows "schedule_prefill ops tics budget inflight wl m tm = Some (raise NotImplementedError)
    \<or> (\<exists>m' tm'. schedule_prefill ops tics budget inflight wl m tm = Some (ok (m', tm', wl, None))
        \<and> minv m' (holders wl @ qs) \<and> tm_inv tm' (map rq_table (holders wl @ qs)))
    \<or> (\<exists>m' tm' dn rest b. schedule_prefill ops tics budget inflight wl m tm
          = Some (ok (m', tm', next_chunks (zip dn (ba_reqs b)) @ rest, Some b))
        \<and> minv m' (ba_reqs b @ holders rest @ qs) \<and> tm_inv tm' (map rq_table (ba_reqs b @ holders rest @ qs))
        \<and> wl = dn @ rest \<and> ba_reqs b \<noteq> [] \<and> list_all2 admits dn (ba_reqs b) \<and> ba_admissions b = announced (zip dn (ba_reqs b))
        \<and> ba_new_tokens b = sum_list (map extend_len (ba_reqs b)) \<and> ba_new_tokens b \<le> budget
        \<and> (\<forall>r \<in> set (butlast (ba_reqs b)). \<not> rq_chunked r))"
proof (cases "wl = []")
  case True
  then show ?thesis using m by (simp add: schedule_prefill_def)
next
  case False
  let ?a = "\<lparr>ad_budget = budget, ad_reserved = inflight, ad_cache = m, ad_table = tm\<rparr>"
  have "adder_ok ?a (pl_reqs empty_log @ holders wl @ qs)" using m by (simp add: empty_log_def)
  from admit_loop_ok [OF this wl, of tics 0]
  consider "admit_loop ops tics 0 wl ?a empty_log = Some (raise NotImplementedError)"
    | a' l' rest news where "admit_loop ops tics 0 wl ?a empty_log = Some (ok (a', l'))"
        "admitted wl rest news budget (ad_budget a') empty_log l'" "adder_ok a' (pl_reqs l' @ holders rest @ qs)"
    by fastforce
  then show ?thesis
  proof cases
    case 1
    then show ?thesis using False by (simp add: schedule_prefill_def)
  next
    case (2 a' l' rest news)
    obtain dn where d: "wl = dn @ rest" "list_all2 admits dn news" "pl_reqs l' = news" "pl_chunked l' = next_chunks (zip dn news)"
        "pl_admissions l' = announced (zip dn news)" "pl_new l' = sum_list (map extend_len news)"
        "sum_list (map extend_len news) + ad_budget a' = budget" "news \<noteq> [] \<longrightarrow> 0 \<le> ad_budget a'"
        "\<forall>r \<in> set (butlast news). \<not> rq_chunked r"
      using 2(2) by (auto simp: admitted_def empty_log_def)
    show ?thesis
    proof (cases "news = []")
      case True
      then have "schedule_prefill ops tics budget inflight wl m tm = Some (ok (ad_cache a', ad_table a', wl, None))"
        using 2(1) False d(3) by (simp add: schedule_prefill_def)
      moreover have "rest = wl" using d(1,2) True by simp
      ultimately show ?thesis using 2(3) d(3) True by auto
    next
      case ne: False
      let ?b = "\<lparr>ba_reqs = news, ba_phase = phase.Prefill, ba_new_tokens = pl_new l', ba_cached_tokens = pl_hit l',
                 ba_admissions = pl_admissions l'\<rparr>"
      have "drop (length news) wl = rest" using d(1) list_all2_lengthD [OF d(2)] by simp
      then have "schedule_prefill ops tics budget inflight wl m tm
          = Some (ok (ad_cache a', ad_table a', next_chunks (zip dn (ba_reqs ?b)) @ rest, Some ?b))"
        using 2(1) False ne d(3,4) by (simp add: schedule_prefill_def)
      moreover have "ba_reqs ?b = news" "ba_admissions ?b = announced (zip dn news)" "ba_new_tokens ?b = sum_list (map extend_len news)"
        "ba_new_tokens ?b \<le> budget" using d ne by simp_all
      ultimately show ?thesis using 2(3) d(1,2,3,9) ne by metis
    qed
  qed
qed

end

end
