(* ===== verification/Serving.thy ===== *)
theory Serving
  imports Prefill RadixProps
begin

text \<open>
  The cache manager, the table of request slots and the prefill manager at work together on the
  radix cache: one step relation for what the scheduler does to them, its invariant, and the
  properties of admission, allocation and commit.
\<close>

section \<open>The cache manager over the radix cache\<close>

definition radix_cm :: "rtree cache_manager \<Rightarrow> handle req list \<Rightarrow> bool" where
  "radix_cm m rs \<longleftrightarrow> 0 < cm_page m \<and> cm_inv radix_ops (radix_inv (cm_page m)) radix_has tree_pages m rs"

lemma radix_cm_iff:
  "radix_cm m rs \<longleftrightarrow> (\<exists>n. cm_page m = Suc n \<and> cm_inv radix_ops (radix_inv (Suc n)) radix_has tree_pages m rs)"
  unfolding radix_cm_def by (metis Zero_not_Suc gr0_conv_Suc)

lemma radix_cmI: "cm_page m = Suc n \<and> cm_inv radix_ops (radix_inv (Suc n)) radix_has tree_pages m rs \<Longrightarrow> radix_cm m rs"
  by (auto simp: radix_cm_iff)

lemma radix_cm_perm: "radix_cm m rs \<Longrightarrow> mset qs = mset rs \<Longrightarrow> radix_cm m qs"
  unfolding radix_cm_iff using radix.minv_perm by metis

lemma radix_init_cm:
  assumes "0 < ps"
  shows "radix_cm (init_manager (init_tree ps tic) n ps tb) []"
proof -
  obtain k where k: "ps = Suc k" using assms by (metis gr0_conv_Suc)
  have "radix_inv (Suc k) (init_tree ps tic) []" "tree_pages (init_tree ps tic) = {#}"
    using init_inv [OF assms, of tic] k by (simp_all add: tree_pages_def init_live_nodes)
  from radix.init_minv [OF this, of n tb] show ?thesis unfolding k by (intro radix_cmI [of _ k])
qed

lemma radix_finish:
  assumes "radix_cm m (r # rs)"
  shows "\<exists>m'. cache_req radix_ops tic tic' r True m = Some (ok (m', r)) \<and> radix_cm m' rs \<and> cm_table m' = cm_table m"
proof -
  obtain n where "cm_page m = Suc n \<and> cm_inv radix_ops (radix_inv (Suc n)) radix_has tree_pages m (r # rs)"
    using assms by (auto simp: radix_cm_iff)
  from radix.finish_ok [OF this, of tic tic'] show ?thesis using radix_cmI by blast
qed

lemma radix_keep:
  assumes "radix_cm m (r # rs)"
  shows "\<exists>m' h. cache_req radix_ops tic tic' r False m = Some (ok (m', r\<lparr>rq_handle := h\<rparr>)) \<and> radix_cm m' (r\<lparr>rq_handle := h\<rparr> # rs)
    \<and> hd_cached_len (rq_handle r) \<le> hd_cached_len h \<and> (\<forall>t p. t \<noteq> rq_table r \<longrightarrow> cm_table m' t p = cm_table m t p)"
proof -
  obtain n where "cm_page m = Suc n \<and> cm_inv radix_ops (radix_inv (Suc n)) radix_has tree_pages m (r # rs)"
    using assms by (auto simp: radix_cm_iff)
  from radix.keep_ok [OF this, of tic tic']
  obtain m' h where "cache_req radix_ops tic tic' r False m = Some (ok (m', r\<lparr>rq_handle := h\<rparr>))"
      "cm_page m' = Suc n \<and> cm_inv radix_ops (radix_inv (Suc n)) radix_has tree_pages m' (r\<lparr>rq_handle := h\<rparr> # rs)"
      "co_len radix_ops (rq_handle r) \<le> co_len radix_ops h" "\<forall>t p. t \<noteq> rq_table r \<longrightarrow> cm_table m' t p = cm_table m t p"
    by blast
  then show ?thesis using radix_cmI [of m' n] by (metis cache_ops.select_convs(6) radix_ops_def)
qed

lemma radix_allocate:
  assumes "radix_cm m (bs @ rs)" "\<forall>r \<in> set bs. rq_cached r \<le> rq_device r"
    and "int (needed_pages (allocation_info (cm_page m) bs)) * int (cm_page m) \<le> available_size radix_ops m"
  shows "\<exists>m'. allocate_paged radix_ops bs m = Some (ok m') \<and> radix_cm m' (map complete_one bs @ rs)
    \<and> (\<forall>t p. t \<notin> rq_table ` set bs \<longrightarrow> cm_table m' t p = cm_table m t p)
    \<and> (\<forall>r \<in> set bs. \<forall>p < pages_for (cm_page m) (rq_cached r) * cm_page m. cm_table m' (rq_table r) p = cm_table m (rq_table r) p)"
proof -
  obtain n where n: "cm_page m = Suc n \<and> cm_inv radix_ops (radix_inv (Suc n)) radix_has tree_pages m (bs @ rs)"
    using assms(1) by (auto simp: radix_cm_iff)
  have "int (needed_pages (allocation_info (Suc n) bs)) * int (Suc n) \<le> available_size radix_ops m" using assms(3) n by simp
  from radix.allocate_paged_ok [OF n assms(2) this] show ?thesis using radix_cmI [of _ n] n by metis
qed

text \<open>An allocation that succeeds was within the available size: the tree refuses to evict more.\<close>

lemma radix_allocate_need:
  assumes "allocate_paged radix_ops bs m = Some (ok m')" "0 < cm_page m" "0 \<le> rt_evictable (cm_cache m)"
  shows "int (needed_pages (allocation_info (cm_page m) bs)) * int (cm_page m) \<le> available_size radix_ops m"
proof -
  let ?n = "needed_pages (allocation_info (cm_page m) bs)"
  show ?thesis
  proof (cases "?n > length (cm_free m)")
    case False
    then have "int ?n * int (cm_page m) \<le> int (length (cm_free m)) * int (cm_page m)"
      by (intro mult_right_mono) simp_all
    then show ?thesis using assms(3) by (simp add: available_size_def radix_ops_def)
  next
    case True
    let ?need = "int (?n - length (cm_free m)) * int (cm_page m)"
    have "?need \<noteq> 0" using True assms(2) by simp
    then have "?need \<le> rt_evictable (cm_cache m)"
      using assms(1) True
      by (auto simp: allocate_paged_def allocate_def radix_ops_def evict_def Let_def obind_def split: if_splits option.splits sum.splits)
    then show ?thesis using True by (simp add: available_size_def radix_ops_def of_nat_diff algebra_simps)
  qed
qed

lemma radix_cm_evictable: "radix_cm m rs \<Longrightarrow> 0 \<le> rt_evictable (cm_cache m)"
  unfolding radix_cm_def cm_inv_def using tree_pages_size(2) radix_invD(1) by blast

lemma radix_cm_exit: "radix_cm m rs \<Longrightarrow> radix_cm (exit_lazy m) rs"
proof -
  have "req_ok radix_has (exit_lazy m) = req_ok radix_has m" "own radix_ops (exit_lazy m) = own radix_ops m"
    by (auto simp: fun_eq_iff req_ok_def own_def padded_tail_def)
  then show "radix_cm m rs \<Longrightarrow> radix_cm (exit_lazy m) rs" by (simp add: radix_cm_def cm_inv_def)
qed

lemma radix_integrity: "radix_cm m [] \<Longrightarrow> check_integrity radix_ops (exit_lazy m) = ok ()"
  using radix_cm_exit [of m "[]"] radix.integrity_ok [of "exit_lazy m"] by (auto simp: radix_cm_iff)

lemma radix_exclusive:
  assumes "radix_cm m rs"
  shows "distinct (expand_pages (cm_page m) (pool_free m) @ concat (map (own radix_ops m) rs))"
    "set_mset (tree_pages (cm_cache m)) \<inter> set (expand_pages (cm_page m) (pool_free m) @ concat (map (own radix_ops m) rs)) = {}"
  using assms radix.exclusive [of m _ rs] unfolding radix_cm_iff by (metis, metis disjoint_iff)

lemma radix_schedule:
  assumes "radix_cm m (holders wl @ qs)" "tm_inv tm (map rq_table (holders wl @ qs))" "\<forall>p \<in> set wl. pending_ok p"
  shows "schedule_prefill radix_ops tics budget inflight wl m tm = Some (raise NotImplementedError)
    \<or> (\<exists>m' tm'. schedule_prefill radix_ops tics budget inflight wl m tm = Some (ok (m', tm', wl, None))
        \<and> radix_cm m' (holders wl @ qs) \<and> tm_inv tm' (map rq_table (holders wl @ qs)))
    \<or> (\<exists>m' tm' dn rest b. schedule_prefill radix_ops tics budget inflight wl m tm
          = Some (ok (m', tm', next_chunks (zip dn (ba_reqs b)) @ rest, Some b))
        \<and> radix_cm m' (ba_reqs b @ holders rest @ qs) \<and> tm_inv tm' (map rq_table (ba_reqs b @ holders rest @ qs))
        \<and> wl = dn @ rest \<and> ba_reqs b \<noteq> [] \<and> list_all2 admits dn (ba_reqs b) \<and> ba_admissions b = announced (zip dn (ba_reqs b))
        \<and> ba_new_tokens b = sum_list (map extend_len (ba_reqs b)) \<and> ba_new_tokens b \<le> budget
        \<and> (\<forall>r \<in> set (butlast (ba_reqs b)). \<not> rq_chunked r))"
proof -
  obtain n where n: "cm_page m = Suc n \<and> cm_inv radix_ops (radix_inv (Suc n)) radix_has tree_pages m (holders wl @ qs)"
    using assms(1) by (auto simp: radix_cm_iff)
  from radix.schedule_ok [OF n assms(2,3), of tics budget inflight] show ?thesis
    by (elim disjE) (blast intro: radix_cmI)+
qed

section \<open>The scheduler's steps\<close>

record serve =
  sv_cache :: "rtree cache_manager"
  sv_table :: table_manager
  sv_wait :: "handle pending list"
  sv_run :: "handle req list"

text \<open>A chunked request is one object, in the batch and in the pending list: running the batch
  completes it in both places.\<close>

definition complete_chunk :: "'h pending \<Rightarrow> 'h pending" where
  "complete_chunk p = p\<lparr>pd_chunked := map_option complete_one (pd_chunked p)\<rparr>"

definition serve_init :: "nat \<Rightarrow> int \<Rightarrow> nat \<Rightarrow> nat \<Rightarrow> (int \<Rightarrow> nat \<Rightarrow> int) \<Rightarrow> serve" where
  "serve_init ps tic num_pages max_reqs page_table =
    \<lparr>sv_cache = init_manager (init_tree ps tic) num_pages ps page_table, sv_table = tm_init max_reqs, sv_wait = [], sv_run = []\<rparr>"

text \<open>The steps: a request arrives; a prefill batch is scheduled, allocated and run; a decode batch is
  allocated and run; a sampled token is appended; a prompt is committed; a request is finished and
  its slot freed; a waiting request is aborted; the lazy free region is entered and left.\<close>

inductive serve_step :: "serve \<Rightarrow> serve \<Rightarrow> bool" where
  arrive: "input_ids \<noteq> [] \<Longrightarrow> 0 \<le> sp_max_tokens sampling
    \<Longrightarrow> serve_step s (s\<lparr>sv_wait := add_pending uid input_ids sampling mm (sv_wait s)\<rparr>)"
| prefill: "schedule_prefill radix_ops tics budget inflight (sv_wait s) (sv_cache s) (sv_table s)
      = Some (ok (m1, tm1, next_chunks (zip dn (ba_reqs b)) @ rest, Some b))
    \<Longrightarrow> sv_wait s = dn @ rest \<Longrightarrow> length dn = length (ba_reqs b)
    \<Longrightarrow> allocate_paged radix_ops (ba_reqs b) m1 = Some (ok m2)
    \<Longrightarrow> serve_step s \<lparr>sv_cache = m2, sv_table = tm1, sv_wait = map complete_chunk (next_chunks (zip dn (ba_reqs b))) @ rest,
          sv_run = map complete_one (filter (\<lambda>r. \<not> rq_chunked r) (ba_reqs b)) @ sv_run s\<rparr>"
| no_prefill: "schedule_prefill radix_ops tics budget inflight (sv_wait s) (sv_cache s) (sv_table s)
      = Some (ok (m1, tm1, wl, None))
    \<Longrightarrow> serve_step s (s\<lparr>sv_cache := m1, sv_table := tm1, sv_wait := wl\<rparr>)"
| decode: "mset (sv_run s) = mset (bs @ qs) \<Longrightarrow> allocate_paged radix_ops bs (sv_cache s) = Some (ok m2)
    \<Longrightarrow> serve_step s (s\<lparr>sv_cache := m2, sv_run := map complete_one bs @ qs\<rparr>)"
| append: "mset (sv_run s) = mset (r # qs) \<Longrightarrow> append_host next r = ok r'
    \<Longrightarrow> serve_step s (s\<lparr>sv_run := r' # qs\<rparr>)"
| commit: "mset (sv_run s) = mset (r # qs) \<Longrightarrow> cache_req radix_ops tic tic' r False (sv_cache s) = Some (ok (m', r'))
    \<Longrightarrow> serve_step s (s\<lparr>sv_cache := m', sv_run := r' # qs\<rparr>)"
| finish: "mset (sv_run s) = mset (r # qs) \<Longrightarrow> cache_req radix_ops tic tic' r True (sv_cache s) = Some (ok (m', r'))
    \<Longrightarrow> serve_step s (s\<lparr>sv_cache := m', sv_table := tm_release (rq_table r) (sv_table s), sv_run := qs\<rparr>)"
| abort: "abort_pending uid (sv_wait s) = (wl, None) \<Longrightarrow> serve_step s (s\<lparr>sv_wait := wl\<rparr>)"
| abort_chunk: "abort_pending uid (sv_wait s) = (wl, Some r) \<Longrightarrow> cache_req radix_ops tic tic' r True (sv_cache s) = Some (ok (m', r'))
    \<Longrightarrow> serve_step s (s\<lparr>sv_cache := m', sv_table := tm_release (rq_table r) (sv_table s), sv_wait := wl\<rparr>)"
| enter_lazy: "cm_lazy (sv_cache s) = None \<Longrightarrow> serve_step s (s\<lparr>sv_cache := enter_lazy (sv_cache s)\<rparr>)"
| leave_lazy: "serve_step s (s\<lparr>sv_cache := exit_lazy (sv_cache s)\<rparr>)"

definition serve_inv :: "serve \<Rightarrow> bool" where
  "serve_inv s \<longleftrightarrow> radix_cm (sv_cache s) (holders (sv_wait s) @ sv_run s)
     \<and> tm_inv (sv_table s) (map rq_table (holders (sv_wait s) @ sv_run s))
     \<and> (\<forall>p \<in> set (sv_wait s). pending_ok p) \<and> (\<forall>r \<in> set (sv_run s). rq_cached r \<le> rq_device r)"

lemma serve_initI: "0 < ps \<Longrightarrow> serve_inv (serve_init ps tic n k tb)"
  by (simp add: serve_inv_def serve_init_def radix_init_cm tm_init_inv)

lemma tm_inv_perm: "tm_inv t hs \<Longrightarrow> mset gs = mset hs \<Longrightarrow> tm_inv t gs"
  by (simp add: tm_inv_def)

lemma append_table: "append_host next r = ok r' \<Longrightarrow> rq_table r' = rq_table r \<and> rq_handle r' = rq_handle r \<and> rq_cached r' = rq_cached r
    \<and> rq_mm r' = rq_mm r \<and> rq_device r' = rq_device r \<and> rq_ids r' = rq_ids r @ next"
  by (auto simp: append_host_def split: if_splits)

lemma holders_chunks:
  "length dn = length rs \<Longrightarrow> holders (map complete_chunk (next_chunks (zip dn rs))) = map complete_one (filter rq_chunked rs)"
  by (induction dn rs rule: list_induct2) (simp_all add: complete_chunk_def)

lemma pending_chunks:
  assumes "list_all2 admits dn rs" "\<forall>p \<in> set dn. pending_ok p"
  shows "\<forall>p \<in> set (map complete_chunk (next_chunks (zip dn rs))). pending_ok p"
  using assms
proof (induction rule: list_all2_induct)
  case (Cons p dn r rs)
  have "pending_ok (complete_chunk (p\<lparr>pd_chunked := Some r\<rparr>))" if "rq_chunked r"
    using Cons.hyps Cons.prems that by (auto simp: admits_def pending_ok_def complete_chunk_def pd_output_len_def)
  then show ?case using Cons by auto
qed simp

lemma abort_holders:
  "abort_pending uid wl = (wl', r) \<Longrightarrow> set wl' \<subseteq> set wl
    \<and> mset (holders wl) = (case r of None \<Rightarrow> mset (holders wl') | Some c \<Rightarrow> add_mset c (mset (holders wl')))"
proof (induction uid wl arbitrary: wl' r rule: abort_pending.induct)
  case (2 uid p ps)
  show ?case
  proof (cases "pd_uid p = uid")
    case True
    then show ?thesis using 2(2) by (auto split: option.splits)
  next
    case False
    obtain ws q where w: "abort_pending uid ps = (ws, q)" by fastforce
    then have "wl' = p # ws" "r = q" using 2(2) False by auto
    then show ?thesis using 2(1) [OF False w] by (auto split: option.splits)
  qed
qed simp

lemma radix_cm_enter: "cm_lazy m = None \<Longrightarrow> radix_cm m rs \<Longrightarrow> radix_cm (enter_lazy m) rs"
proof -
  have "req_ok radix_has (enter_lazy m) = req_ok radix_has m" "own radix_ops (enter_lazy m) = own radix_ops m"
    by (auto simp: fun_eq_iff req_ok_def own_def padded_tail_def enter_lazy_def)
  moreover assume "cm_lazy m = None"
  then have "pool_free (enter_lazy m) = pool_free m" by (simp add: pool_free_def enter_lazy_def)
  ultimately show "radix_cm m rs \<Longrightarrow> radix_cm (enter_lazy m) rs" by (simp add: radix_cm_def cm_inv_def) (simp add: enter_lazy_def)
qed

lemma map_table_complete [simp]: "map rq_table (map complete_one bs) = map rq_table bs"
  by (simp add: comp_def)

lemma serve_invD:
  assumes "serve_inv s"
  shows "radix_cm (sv_cache s) (holders (sv_wait s) @ sv_run s)"
    "tm_inv (sv_table s) (map rq_table (holders (sv_wait s) @ sv_run s))"
    "p \<in> set (sv_wait s) \<Longrightarrow> pending_ok p" "r \<in> set (sv_run s) \<Longrightarrow> rq_cached r \<le> rq_device r"
  using assms by (auto simp: serve_inv_def)

lemma radix_allocate_any:
  assumes "radix_cm m rs" "mset rs = mset (bs @ qs)" "\<forall>r \<in> set bs. rq_cached r \<le> rq_device r"
    and "allocate_paged radix_ops bs m = Some (ok m')"
  shows "radix_cm m' (map complete_one bs @ qs)"
proof -
  have c: "radix_cm m (bs @ qs)" by (rule radix_cm_perm [OF assms(1)]) (simp add: assms(2))
  have "0 < cm_page m" using c by (simp add: radix_cm_def)
  from radix_allocate [OF c assms(3) radix_allocate_need [OF assms(4) this radix_cm_evictable [OF c]]] assms(4)
  show ?thesis by auto
qed

lemma serve_finish:
  assumes "radix_cm m rs" "tm_inv t (map rq_table rs)" "mset rs = mset (r # qs)"
    and "cache_req radix_ops tic tic' r True m = Some (ok (m', r'))"
  shows "radix_cm m' qs \<and> tm_inv (tm_release (rq_table r) t) (map rq_table qs)"
proof -
  have "radix_cm m (r # qs)" by (rule radix_cm_perm [OF assms(1)]) (simp add: assms(3))
  then have "radix_cm m' qs" using radix_finish [of m r qs tic tic'] assms(4) by auto
  moreover have "tm_inv t (rq_table r # map rq_table qs)"
    by (rule tm_inv_perm [OF assms(2)]) (metis assms(3) list.map(2) mset_map)
  from tm_release_inv [OF this, of "rq_table r"] have "tm_inv (tm_release (rq_table r) t) (map rq_table qs)" by simp
  ultimately show ?thesis by simp
qed

lemma mset_map_split: "mset (map f (filter P xs)) + mset (map f (filter (\<lambda>x. \<not> P x) xs)) = mset (map f xs)"
  by (induction xs) simp_all

lemma serve_prefill_inv:
  assumes s: "serve_inv s"
    and r: "schedule_prefill radix_ops tics budget inflight (sv_wait s) (sv_cache s) (sv_table s)
      = Some (ok (m1, tm1, next_chunks (zip dn (ba_reqs b)) @ rest, Some b))"
    and d: "sv_wait s = dn @ rest" "length dn = length (ba_reqs b)"
    and al: "allocate_paged radix_ops (ba_reqs b) m1 = Some (ok m2)"
  shows "serve_inv \<lparr>sv_cache = m2, sv_table = tm1, sv_wait = map complete_chunk (next_chunks (zip dn (ba_reqs b))) @ rest,
          sv_run = map complete_one (filter (\<lambda>r. \<not> rq_chunked r) (ba_reqs b)) @ sv_run s\<rparr>"
proof -
  let ?new = "map complete_chunk (next_chunks (zip dn (ba_reqs b)))" and ?fin = "filter (\<lambda>r. \<not> rq_chunked r) (ba_reqs b)"
  obtain dn' rest' where q: "radix_cm m1 (ba_reqs b @ holders rest' @ sv_run s)" "tm_inv tm1 (map rq_table (ba_reqs b @ holders rest' @ sv_run s))"
      "sv_wait s = dn' @ rest'" "list_all2 admits dn' (ba_reqs b)"
    using radix_schedule [OF serve_invD(1,2) [OF s] ballI [OF serve_invD(3) [OF s]], of tics budget inflight] r by fastforce
  have "dn' = dn" "rest' = rest" using q(3) d list_all2_lengthD [OF q(4)] by (simp_all add: append_eq_append_conv)
  note q = q [unfolded this]
  have le: "\<forall>r \<in> set (ba_reqs b). rq_cached r \<le> rq_device r"
    using q(4) by (induction rule: list_all2_induct) (auto simp: admits_def)
  have perm: "mset (holders (?new @ rest) @ map complete_one ?fin @ sv_run s)
      = mset (map complete_one (ba_reqs b) @ holders rest @ sv_run s)"
  proof -
    have "mset (map complete_one (filter rq_chunked (ba_reqs b))) + mset (map complete_one ?fin) = mset (map complete_one (ba_reqs b))"
      by (rule mset_map_split)
    then show ?thesis using holders_chunks [OF d(2)] by (simp add: add_ac)
  qed
  have c: "radix_cm m2 (map complete_one (ba_reqs b) @ holders rest @ sv_run s)"
    by (rule radix_allocate_any [OF q(1) refl le al])
  have "tm_inv tm1 (map rq_table (map complete_one (ba_reqs b) @ holders rest @ sv_run s))"
    using q(2) by (simp only: map_append map_table_complete)
  then have t: "tm_inv tm1 (map rq_table (holders (?new @ rest) @ map complete_one ?fin @ sv_run s))"
    by (rule tm_inv_perm) (metis perm mset_map)
  have "\<forall>p \<in> set ?new. pending_ok p" by (rule pending_chunks [OF q(4)]) (use serve_invD(3) [OF s] d(1) in auto)
  moreover have "\<forall>p \<in> set rest. pending_ok p" using serve_invD(3) [OF s] d(1) by auto
  ultimately show ?thesis
    unfolding serve_inv_def serve.select_convs
    using radix_cm_perm [OF c perm] t serve_invD(4) [OF s] by auto
qed

lemma serve_step_inv:
  assumes "serve_step s s'" "serve_inv s"
  shows "serve_inv s'"
  using assms
proof (cases rule: serve_step.cases)
  case (arrive input_ids sampling uid mm)
  then show ?thesis using assms(2) by (auto simp: serve_inv_def add_pending_def pending_ok_def pd_output_len_def)
next
  case (prefill tics budget inflight m1 tm1 dn b rest m2)
  then show ?thesis using serve_prefill_inv [OF assms(2)] by blast
next
  case (no_prefill tics budget inflight m1 tm1 wl)
  from radix_schedule [OF serve_invD(1,2) [OF assms(2)] ballI [OF serve_invD(3) [OF assms(2)]], of tics budget inflight]
  have "radix_cm m1 (holders (sv_wait s) @ sv_run s)" "tm_inv tm1 (map rq_table (holders (sv_wait s) @ sv_run s))" "wl = sv_wait s"
    using no_prefill(2) by auto
  then show ?thesis using no_prefill(1) assms(2) by (simp add: serve_inv_def)
next
  case (decode bs qs m2)
  have st: "set (sv_run s) = set bs \<union> set qs" using decode(2) by (metis set_append set_mset_mset)
  have le: "\<forall>r \<in> set bs. rq_cached r \<le> rq_device r" using serve_invD(4) [OF assms(2)] st by auto
  have "radix_cm m2 (map complete_one bs @ qs @ holders (sv_wait s))"
    by (rule radix_allocate_any [OF serve_invD(1) [OF assms(2)] _ le decode(3)]) (simp add: decode(2) add_ac)
  then have c: "radix_cm m2 (holders (sv_wait s) @ map complete_one bs @ qs)" by (rule radix_cm_perm) (simp add: add_ac)
  have "mset (map rq_table (sv_run s)) = mset (map rq_table (map complete_one bs @ qs))"
    using decode(2) by (metis map_append map_table_complete mset_map)
  then have "tm_inv (sv_table s) (map rq_table (holders (sv_wait s) @ map complete_one bs @ qs))"
    by (intro tm_inv_perm [OF serve_invD(2) [OF assms(2)]]) simp
  then show ?thesis using c decode(1) serve_invD(3,4) [OF assms(2)] st by (auto simp: serve_inv_def)
next
  case (append r qs nxt r')
  have st: "set (sv_run s) = insert r (set qs)" using append(2) by (metis list.set(2) set_mset_mset)
  note a = append_table [OF append(3)]
  have "radix_cm (sv_cache s) (r # qs @ holders (sv_wait s))"
    by (rule radix_cm_perm [OF serve_invD(1) [OF assms(2)]]) (simp add: append(2))
  then obtain n where n: "cm_page (sv_cache s) = Suc n \<and> cm_inv radix_ops (radix_inv (Suc n)) radix_has tree_pages (sv_cache s)
      (r # qs @ holders (sv_wait s))" by (auto simp: radix_cm_iff)
  have "cm_page (sv_cache s) = Suc n \<and> cm_inv radix_ops (radix_inv (Suc n)) radix_has tree_pages (sv_cache s)
      (r' # qs @ holders (sv_wait s))"
    by (rule radix.replace_req [OF n]) (use a in simp_all)
  then have "radix_cm (sv_cache s) (r' # qs @ holders (sv_wait s))" by (rule radix_cmI)
  then have c: "radix_cm (sv_cache s) (holders (sv_wait s) @ r' # qs)" by (rule radix_cm_perm) simp
  have "mset (map rq_table (sv_run s)) = mset (map rq_table (r' # qs))" using append(2) a by (metis list.map(2) mset_map)
  then have "tm_inv (sv_table s) (map rq_table (holders (sv_wait s) @ r' # qs))"
    by (intro tm_inv_perm [OF serve_invD(2) [OF assms(2)]]) simp
  then show ?thesis using c append(1) a serve_invD(3,4) [OF assms(2)] st by (auto simp: serve_inv_def)
next
  case (commit r qs tic tic' m' r')
  have st: "set (sv_run s) = insert r (set qs)" using commit(2) by (metis list.set(2) set_mset_mset)
  have "radix_cm (sv_cache s) (r # qs @ holders (sv_wait s))"
    by (rule radix_cm_perm [OF serve_invD(1) [OF assms(2)]]) (simp add: commit(2))
  from radix_keep [OF this, of tic tic'] commit(3) obtain h where h: "r' = r\<lparr>rq_handle := h\<rparr>" "radix_cm m' (r' # qs @ holders (sv_wait s))"
    by auto
  have c: "radix_cm m' (holders (sv_wait s) @ r' # qs)" by (rule radix_cm_perm [OF h(2)]) simp
  have "rq_table r' = rq_table r" using h(1) by simp
  then have "mset (map rq_table (sv_run s)) = mset (map rq_table (r' # qs))" using commit(2) by (metis list.map(2) mset_map)
  then have "tm_inv (sv_table s) (map rq_table (holders (sv_wait s) @ r' # qs))"
    by (intro tm_inv_perm [OF serve_invD(2) [OF assms(2)]]) simp
  then show ?thesis using c commit(1) h(1) serve_invD(3,4) [OF assms(2)] st by (auto simp: serve_inv_def)
next
  case (finish r qs tic tic' m' r')
  have "mset (holders (sv_wait s) @ sv_run s) = mset (r # holders (sv_wait s) @ qs)" using finish(2) by simp
  note f = serve_finish [OF serve_invD(1,2) [OF assms(2)] this finish(3)]
  have "set (sv_run s) = insert r (set qs)" using finish(2) by (metis list.set(2) set_mset_mset)
  then show ?thesis using f finish(1) serve_invD(3,4) [OF assms(2)] by (auto simp: serve_inv_def)
next
  case (abort uid wl)
  note h = abort_holders [OF abort(2)]
  have m: "mset (holders wl @ sv_run s) = mset (holders (sv_wait s) @ sv_run s)" using h by simp
  have "radix_cm (sv_cache s) (holders wl @ sv_run s)" by (rule radix_cm_perm [OF serve_invD(1) [OF assms(2)] m])
  moreover have "tm_inv (sv_table s) (map rq_table (holders wl @ sv_run s))"
    by (rule tm_inv_perm [OF serve_invD(2) [OF assms(2)]]) (use h in simp)
  ultimately show ?thesis using abort(1) h serve_invD(3,4) [OF assms(2)] by (auto simp: serve_inv_def)
next
  case (abort_chunk uid wl r tic tic' m' r')
  note h = abort_holders [OF abort_chunk(2)]
  have "mset (holders (sv_wait s) @ sv_run s) = mset (r # holders wl @ sv_run s)" using h by simp
  note f = serve_finish [OF serve_invD(1,2) [OF assms(2)] this abort_chunk(3)]
  then show ?thesis using abort_chunk(1) h serve_invD(3,4) [OF assms(2)] by (auto simp: serve_inv_def)
next
  case enter_lazy
  then show ?thesis using assms(2) radix_cm_enter by (simp add: serve_inv_def)
next
  case leave_lazy
  then show ?thesis using assms(2) radix_cm_exit by (simp add: serve_inv_def)
qed

section \<open>Properties\<close>

text \<open>A small pool for the witnesses: eight pages of one token and one admitted request of three tokens.\<close>

definition demo_sampling :: sampling_params where
  "demo_sampling = \<lparr>sp_temperature = 0, sp_top_k = -1, sp_top_p = 1, sp_ignore_eos = False, sp_max_tokens = 4, sp_stop_strs = []\<rparr>"

definition demo_req :: "handle req" where
  "demo_req = \<lparr>rq_uid = 1, rq_ids = [7, 8, 9], rq_table = 0, rq_cached = 0, rq_device = 3, rq_output = 4, rq_max = 7,
     rq_sampling = demo_sampling, rq_handle = \<lparr>hd_cached_len = 0, hd_node = 0\<rparr>, rq_mm = False, rq_chunked = False, rq_aborted = False\<rparr>"

definition demo_cm :: "rtree cache_manager" where
  "demo_cm = init_manager (init_tree 1 0) 8 1 (\<lambda>_ _. 0)"

lemma demo_cm_ok: "radix_cm demo_cm [demo_req]"
proof -
  let ?h = "\<lparr>hd_cached_len = 0, hd_node = 0\<rparr> :: handle"
  have has: "radix_has (init_tree 1 0) ?h [] []" by (simp add: radix_has_def spells.at_root)
  have root: "rn_parent (rt_node (init_tree 1 0) 0) = None" by (simp add: init_tree_def new_node_def)
  then have "lock_handle ?h False (init_tree 1 0) = Some (ok (init_tree 1 0))"
    by (simp add: lock_handle_def lock_loop.simps)
  then have inv: "radix_inv 1 (init_tree 1 0) [?h]"
    using radix_lock_law [OF init_inv [of 1 0] has] by auto
  have c: "cm_page demo_cm = Suc 0 \<and> cm_inv radix_ops (radix_inv (Suc 0)) radix_has tree_pages demo_cm []"
    using radix_init_cm [of 1 0 8 "\<lambda>_ _. 0"] by (simp add: radix_cm_def demo_cm_def init_manager_def)
  have "cm_page (demo_cm\<lparr>cm_cache := init_tree 1 0, cm_table := \<lambda>_ _. 0\<rparr>) = Suc 0
      \<and> cm_inv radix_ops (radix_inv (Suc 0)) radix_has tree_pages (demo_cm\<lparr>cm_cache := init_tree 1 0, cm_table := \<lambda>_ _. 0\<rparr>) [demo_req]"
    by (rule radix.admit_ok [OF c, where xs = "[]" and vs = "[]"])
      (use inv has in \<open>simp_all add: demo_req_def demo_cm_def init_manager_def\<close>)
  then show ?thesis by (intro radix_cmI [of _ 0]) (simp add: demo_cm_def init_manager_def)
qed

lemma demo_allocated:
  obtains m where "allocate_paged radix_ops [demo_req] demo_cm = Some (ok m)" "radix_cm m [complete_one demo_req]"
proof -
  have "radix_cm demo_cm ([demo_req] @ [])" using demo_cm_ok by simp
  from radix_allocate [OF this]
  show thesis using that
    by (auto simp: demo_req_def demo_cm_def init_manager_def pages_for_def div_ceil_def available_size_def radix_ops_def init_tree_def)
qed

text \<open>C2: whatever requests arrive, are scheduled, decoded, committed, finished or aborted, in any
  order, no token slot ever has two owners: the free list, the pages behind the rows of different
  requests and the prefix tree are disjoint; no two requests share a table slot; and once no request
  holds resources, the integrity check of the cache manager passes, so no page has leaked.\<close>

theorem serve_reachable:
  assumes "0 < ps" "serve_step\<^sup>*\<^sup>* (serve_init ps tic num_pages max_reqs tb) s"
  shows "distinct (expand_pages (cm_page (sv_cache s)) (pool_free (sv_cache s))
        @ concat (map (own radix_ops (sv_cache s)) (holders (sv_wait s) @ sv_run s)))
    \<and> set_mset (tree_pages (cm_cache (sv_cache s))) \<inter> set (expand_pages (cm_page (sv_cache s)) (pool_free (sv_cache s))
        @ concat (map (own radix_ops (sv_cache s)) (holders (sv_wait s) @ sv_run s))) = {}
    \<and> distinct (tm_free (sv_table s) @ map rq_table (holders (sv_wait s) @ sv_run s))
    \<and> (holders (sv_wait s) @ sv_run s = [] \<longrightarrow> check_integrity radix_ops (exit_lazy (sv_cache s)) = ok ())"
proof -
  have inv: "serve_inv s"
    using assms(2) by (induction rule: rtranclp_induct) (use serve_initI [OF assms(1)] serve_step_inv in auto)
  note c = serve_invD(1) [OF inv]
  show ?thesis
    using radix_exclusive [OF c] tm_inv_distinct [OF serve_invD(2) [OF inv]] radix_integrity [of "sv_cache s"] c by metis
qed

theorem serve_reachable_witness:
  "\<exists>s :: serve. sv_wait s \<noteq> [] \<and> distinct (tm_free (sv_table s) @ map rq_table (holders (sv_wait s) @ sv_run s))
    \<and> check_integrity radix_ops (exit_lazy (sv_cache s)) = ok ()"
proof -
  define s0 where "s0 = serve_init 1 0 8 2 (\<lambda>_ _. 0)"
  define s where "s = s0\<lparr>sv_wait := add_pending 1 [7, 8] demo_sampling False (sv_wait s0)\<rparr>"
  have "serve_step s0 s" unfolding s_def by (rule arrive) (simp_all add: demo_sampling_def)
  then have "serve_step\<^sup>*\<^sup>* s0 s" by (rule r_into_rtranclp)
  note r = serve_reachable [OF zero_less_one this [unfolded s0_def]]
  have "holders (sv_wait s) @ sv_run s = []" "sv_wait s \<noteq> []" by (simp_all add: s_def s0_def serve_init_def add_pending_def)
  then show ?thesis using r by (intro exI [of _ s]) simp
qed

text \<open>Finishing a request never fails: its pages go back to the free list or stay in the prefix
  tree, no row changes, and the other requests keep everything they hold.\<close>

theorem finish_returns_pages:
  assumes "radix_cm m (r # rs)"
  shows "\<exists>m'. cache_req radix_ops tic tic' r True m = Some (ok (m', r)) \<and> radix_cm m' rs \<and> cm_table m' = cm_table m"
  by (rule radix_finish [OF assms])

theorem finish_returns_pages_witness:
  "\<exists>m m'. allocate_paged radix_ops [demo_req] demo_cm = Some (ok m)
    \<and> cache_req radix_ops 1 2 (complete_one demo_req) True m = Some (ok (m', complete_one demo_req)) \<and> radix_cm m' []"
proof (rule demo_allocated)
  fix m assume "allocate_paged radix_ops [demo_req] demo_cm = Some (ok m)" "radix_cm m [complete_one demo_req]"
  then show ?thesis using finish_returns_pages [of m "complete_one demo_req" "[]" 1 2] by blast
qed

text \<open>Committing a request that goes on never fails: its row in front of the new handle holds the
  tree's own slots for those tokens, so what the request reads there stays locked, and the rows of
  the other requests do not change.\<close>

theorem commit_repoints_row:
  assumes "radix_cm m (r # rs)"
  shows "\<exists>m' h. cache_req radix_ops tic tic' r False m = Some (ok (m', r\<lparr>rq_handle := h\<rparr>)) \<and> radix_cm m' (r\<lparr>rq_handle := h\<rparr> # rs)
    \<and> hd_cached_len (rq_handle r) \<le> hd_cached_len h \<and> (\<forall>t p. t \<noteq> rq_table r \<longrightarrow> cm_table m' t p = cm_table m t p)
    \<and> (0 < hd_cached_len h \<longrightarrow> get_matched_indices (cm_cache m') h
        = Some (ok (row (cm_table m') (rq_table r) 0 (hd_cached_len h))))"
proof -
  obtain m' h where k: "cache_req radix_ops tic tic' r False m = Some (ok (m', r\<lparr>rq_handle := h\<rparr>))"
      "radix_cm m' (r\<lparr>rq_handle := h\<rparr> # rs)" "hd_cached_len (rq_handle r) \<le> hd_cached_len h"
      "\<forall>t p. t \<noteq> rq_table r \<longrightarrow> cm_table m' t p = cm_table m t p"
    using radix_keep [OF assms] by blast
  obtain n where n: "cm_page m' = Suc n \<and> cm_inv radix_ops (radix_inv (Suc n)) radix_has tree_pages m' (r\<lparr>rq_handle := h\<rparr> # rs)"
    using k(2) by (auto simp: radix_cm_iff)
  obtain xs vs where x: "radix_has (cm_cache m') h xs vs" "hd_cached_len h = length xs"
      "row (cm_table m') (rq_table r) 0 (length xs) = vs"
    using radix.minvD(3) [OF n, of "r\<lparr>rq_handle := h\<rparr>"] by (auto simp: req_ok_def radix_has_def)
  have "get_matched_indices (cm_cache m') h = Some (ok vs)" if "xs \<noteq> []"
    using radix.has_indices [OF radix.minvD(1) [OF n] x(1) that] by (simp add: radix_ops_def)
  then have "0 < hd_cached_len h \<longrightarrow> get_matched_indices (cm_cache m') h = Some (ok (row (cm_table m') (rq_table r) 0 (hd_cached_len h)))"
    using x(2,3) by simp
  then show ?thesis using k by (intro exI [of _ m'], intro exI [of _ h], intro conjI)
qed

theorem commit_repoints_row_witness:
  "\<exists>m m' h. allocate_paged radix_ops [demo_req] demo_cm = Some (ok m)
    \<and> cache_req radix_ops 1 2 (complete_one demo_req) False m = Some (ok (m', (complete_one demo_req)\<lparr>rq_handle := h\<rparr>))"
proof (rule demo_allocated)
  fix m assume "allocate_paged radix_ops [demo_req] demo_cm = Some (ok m)" "radix_cm m [complete_one demo_req]"
  then show ?thesis using commit_repoints_row [of m "complete_one demo_req" "[]" 1 2] by blast
qed

text \<open>C28: an allocation whose new pages fit \<open>available_size\<close> never fails, whatever has to be evicted:
  after the forward pass every request of the batch owns its new pages, nothing that was cached for
  it before has moved, and no other row has changed.\<close>

theorem allocate_within_available:
  assumes "radix_cm m (bs @ rs)" "\<forall>r \<in> set bs. rq_cached r \<le> rq_device r"
    and "int (needed_pages (allocation_info (cm_page m) bs)) * int (cm_page m) \<le> available_size radix_ops m"
  shows "\<exists>m'. allocate_paged radix_ops bs m = Some (ok m') \<and> radix_cm m' (map complete_one bs @ rs)
    \<and> (\<forall>t p. t \<notin> rq_table ` set bs \<longrightarrow> cm_table m' t p = cm_table m t p)
    \<and> (\<forall>r \<in> set bs. \<forall>p < pages_for (cm_page m) (rq_cached r) * cm_page m. cm_table m' (rq_table r) p = cm_table m (rq_table r) p)"
  by (rule radix_allocate [OF assms])

theorem allocate_within_available_witness:
  "\<exists>m'. allocate_paged radix_ops [demo_req] demo_cm = Some (ok m') \<and> radix_cm m' [complete_one demo_req]"
proof -
  have "radix_cm demo_cm ([demo_req] @ [])" using demo_cm_ok by simp
  from allocate_within_available [OF this] show ?thesis
    by (auto simp: demo_req_def demo_cm_def init_manager_def pages_for_def div_ceil_def available_size_def radix_ops_def init_tree_def)
qed

end
