(* ===== verification/PrefillProps.thy ===== *)
theory PrefillProps
  imports Serving
begin

text \<open>
  Properties of admission: the order and the budget of a prefill pass, what a request must fit to be
  admitted, and the pages that the estimate does not count.
\<close>

section \<open>One prefill pass\<close>

text \<open>C29: a prefill batch is a prefix of the waiting list in arrival order: each of its requests
  carries the next chunk of its prompt, all chunks together fit the token budget, only the last
  request can be cut short, the cut requests wait at the head of the list, every other waiting
  request keeps its place, and exactly the fresh prompts are announced, each with its full length.\<close>

theorem schedule_prefill_fifo:
  assumes "radix_cm m (holders wl @ qs)" "tm_inv tm (map rq_table (holders wl @ qs))" "\<forall>p \<in> set wl. pending_ok p"
    and "schedule_prefill radix_ops tics budget inflight wl m tm = Some (ok (m', tm', wl', Some b))"
  shows "\<exists>dn rest. wl = dn @ rest \<and> ba_reqs b \<noteq> [] \<and> list_all2 admits dn (ba_reqs b)
    \<and> wl' = next_chunks (zip dn (ba_reqs b)) @ rest \<and> ba_admissions b = announced (zip dn (ba_reqs b))
    \<and> ba_new_tokens b = sum_list (map extend_len (ba_reqs b)) \<and> ba_new_tokens b \<le> budget
    \<and> (\<forall>r \<in> set (butlast (ba_reqs b)). \<not> rq_chunked r)"
  using radix_schedule [OF assms(1-3), of tics budget inflight] assms(4) by auto

definition demo_pending :: "handle pending" where
  "demo_pending = \<lparr>pd_uid = 1, pd_ids = [7, 8, 9], pd_sampling = demo_sampling, pd_chunked = None, pd_mm = False\<rparr>"

lemma demo_schedule:
  "\<exists>m' tm' wl' b. schedule_prefill radix_ops (\<lambda>_. 5) 2 0 [demo_pending] demo_cm (tm_init 2) = Some (ok (m', tm', wl', Some b))"
  by (simp add: schedule_prefill_def try_add_one_def try_allocate_one_def seat_request_def match_req_def radix_ops_def match_prefix_def
      tree_walk.simps set_lock_def lock_handle_def lock_loop.simps demo_cm_def demo_pending_def demo_sampling_def
      init_manager_def init_tree_def new_node_def pd_output_len_def available_size_def tm_init_def tm_allocate_def
      add_one_req_def mk_req_def log_one_def empty_log_def Let_def)

theorem schedule_prefill_fifo_witness:
  "\<exists>m' tm' wl' b. schedule_prefill radix_ops (\<lambda>_. 5) 2 0 [demo_pending] demo_cm (tm_init 2) = Some (ok (m', tm', wl', Some b))
    \<and> ba_new_tokens b \<le> 2"
proof -
  obtain m' tm' wl' b where r: "schedule_prefill radix_ops (\<lambda>_. 5) 2 0 [demo_pending] demo_cm (tm_init 2) = Some (ok (m', tm', wl', Some b))"
    using demo_schedule by blast
  have "radix_cm demo_cm (holders [demo_pending] @ [])"
    using radix_init_cm [of 1 0 8 "\<lambda>_ _. 0"] by (simp add: demo_pending_def demo_cm_def)
  from schedule_prefill_fifo [OF this _ _ r] have "ba_new_tokens b \<le> 2"
    by (auto simp: demo_pending_def tm_init_inv pending_ok_def pd_output_len_def demo_sampling_def)
  then show ?thesis using r by blast
qed

section \<open>The estimate of an admission\<close>

text \<open>Decoding \<open>n\<close> steps: pages for the next position of every request, then the forward pass.\<close>

primrec decode_rounds :: "('c, 'h) cache_ops \<Rightarrow> nat \<Rightarrow> 'h req list \<Rightarrow> 'c cache_manager \<Rightarrow> 'c cache_manager result option" where
  "decode_rounds ops 0 rs m = Some (ok m)"
| "decode_rounds ops (Suc n) rs m = obind (allocate_paged ops rs m) (decode_rounds ops n (map complete_one rs))"

definition small_pending :: "int \<Rightarrow> unit pending" where
  "small_pending uid = \<lparr>pd_uid = uid, pd_ids = [7], pd_sampling = \<lparr>sp_temperature = 0, sp_top_k = -1, sp_top_p = 1,
     sp_ignore_eos = False, sp_max_tokens = 5, sp_stop_strs = []\<rparr>, pd_chunked = None, pd_mm = False\<rparr>"

definition small_cm :: "unit cache_manager" where
  "small_cm = init_manager () 3 4 (\<lambda>_ _. 0)"

definition small_schedule :: "(unit cache_manager \<times> table_manager \<times> unit pending list \<times> unit batch option) result option" where
  "small_schedule = schedule_prefill naive_ops (\<lambda>_. 0) 64 0 [small_pending 1, small_pending 2] small_cm (tm_init 4)"

text \<open>The admission estimate counts tokens, not pages. With three pages of four tokens, two
  requests of one prompt token and five output tokens are both admitted (six tokens each, twelve in
  all), yet they need four pages: the fifth forward pass, well within both output limits, cannot get
  its pages and raises.\<close>

theorem admission_overcommits:
  "case small_schedule of
     Some (Inr (m, tm, wl, Some b)) \<Rightarrow>
       map rq_max (ba_reqs b) = [6, 6] \<and> wl = []
       \<and> (case decode_rounds naive_ops 4 (ba_reqs b) m of Some (Inr m') \<Rightarrow> True | _ \<Rightarrow> False)
       \<and> (case decode_rounds naive_ops 5 (ba_reqs b) m of Some (Inl e) \<Rightarrow> e = NotImplementedError | _ \<Rightarrow> False)
   | _ \<Rightarrow> False"
  by code_simp

section \<open>The chunk cap of sliding window pools\<close>

text \<open>The slots of the window pool that a prefill chunk may take: what is available and not reserved,
  plus what the request's own window will release; the chunk ends at a page unless it is the last.\<close>

definition swa_seat_need :: "int \<Rightarrow> int \<Rightarrow> int \<Rightarrow> int" where
  "swa_seat_need page_size window ext_len = div_ceil (min (max ext_len 1) window + 1) page_size * page_size"

definition swa_budget :: "int \<Rightarrow> int \<Rightarrow> int \<Rightarrow> int \<Rightarrow> int \<Rightarrow> int \<Rightarrow> int \<Rightarrow> int" where
  "swa_budget page_size window floor_len evicted swa_available reserved cached_len =
    (let new_evicted = align_down (cached_len - window - page_size) page_size;
         self_reclaim = max 0 (new_evicted - max evicted floor_len)
     in swa_available + self_reclaim - reserved)"

definition swa_chunk :: "int \<Rightarrow> int \<Rightarrow> int \<Rightarrow> int \<Rightarrow> int \<Rightarrow> int \<Rightarrow> (int \<times> int) option" where
  "swa_chunk page_size budget reserved cached_len chunk_size remain =
    (let max_end = (div_ceil cached_len page_size + max budget 0 div page_size) * page_size;
         chunk = min chunk_size (max (max_end - cached_len) 0);
         aligned = align_down (cached_len + chunk) page_size - cached_len;
         charge = (\<lambda>c. reserved + (div_ceil (cached_len + c) page_size - div_ceil cached_len page_size) * page_size)
     in if 0 < chunk \<and> chunk < remain
        then (if aligned \<le> 0 then None else Some (aligned, charge aligned))
        else Some (chunk, charge chunk))"

lemma swa_cap:
  assumes "0 < ps" "0 \<le> c" "c \<le> max ((div_ceil k ps + max b 0 div ps) * ps - k) 0"
  shows "(div_ceil (k + c) ps - div_ceil k ps) * ps \<le> max b 0"
proof (cases "c = 0")
  case True
  then show ?thesis by simp
next
  case False
  then have "k + c \<le> (div_ceil k ps + max b 0 div ps) * ps" using assms(2,3) by linarith
  then have "div_ceil (k + c) ps - div_ceil k ps \<le> max b 0 div ps" using iffD2 [OF div_ceil_le_iff [OF assms(1)]] by fastforce
  then have "(div_ceil (k + c) ps - div_ceil k ps) * ps \<le> max b 0 div ps * ps" using assms(1) by (intro mult_right_mono) simp_all
  also have "\<dots> \<le> max b 0" using align_down_le [OF assms(1)] by (simp add: align_down_def)
  finally show ?thesis .
qed

text \<open>The chunk a sliding window pool accepts is at most the requested one, its whole pages fit
  the window budget and are exactly what is reserved for it, and unless it ends the prompt it ends
  on a page boundary.\<close>

theorem swa_chunk_fits:
  assumes "0 < ps" "0 \<le> chunk" "chunk \<le> remain" "swa_chunk ps b reserved k chunk remain = Some (c, reserved')"
  shows "0 \<le> c \<and> c \<le> chunk \<and> reserved' = reserved + (div_ceil (k + c) ps - div_ceil k ps) * ps
    \<and> reserved' - reserved \<le> max b 0 \<and> (0 < c \<and> c < remain \<longrightarrow> ps dvd k + c)"
proof -
  let ?max_end = "(div_ceil k ps + max b 0 div ps) * ps"
  define q where "q = min chunk (max (?max_end - k) 0)"
  have q: "0 \<le> q" "q \<le> chunk" "q \<le> max (?max_end - k) 0" using assms(2) by (simp_all add: q_def)
  show ?thesis
  proof (cases "0 < q \<and> q < remain")
    case True
    have c: "c = align_down (k + q) ps - k" "0 < c" "reserved' = reserved + (div_ceil (k + c) ps - div_ceil k ps) * ps"
      using assms(4) True unfolding swa_chunk_def Let_def q_def [symmetric] by (auto split: if_splits)
    have "c \<le> q" using c(1) align_down_le [OF assms(1), of "k + q"] by simp
    moreover have "ps dvd k + c" using c(1) by simp
    ultimately show ?thesis using c q swa_cap [OF assms(1), of c k b] by auto
  next
    case False
    then have c: "c = q" "reserved' = reserved + (div_ceil (k + q) ps - div_ceil k ps) * ps"
      using assms(4) unfolding swa_chunk_def Let_def q_def [symmetric] by auto
    then show ?thesis using q False swa_cap [OF assms(1) q(1) q(3)] by auto
  qed
qed

theorem swa_chunk_fits_witness: "swa_chunk 4 10 0 6 9 20 = Some (6, 4) \<and> (4 :: int) dvd 6 + 6 \<and> 4 - (0 :: int) \<le> max 10 0"
proof -
  have r: "swa_chunk 4 10 0 6 9 20 = Some (6, 4)" by (simp add: swa_chunk_def div_ceil_def align_down_def)
  from swa_chunk_fits [OF _ _ _ r] r show ?thesis by simp
qed

end
