(* ===== verification/SchedLoop.thy ===== *)
theory SchedLoop
  imports Prefill
begin

text \<open>
  The loop of \<open>scheduler/scheduler.py\<close>: messages, scheduling, the forward pass and the drain of its
  results, in the order of \<open>overlap_loop\<close> (one batch in flight while the next is launched) and of
  \<open>normal_loop\<close>.

  A request object is shared between the managers, the batch in flight and the batch just launched.
  Here each of them holds a copy of the record, and every update of an object is written to all of
  them: two records are the same object when their uid is the same and neither is a chunk; a chunk
  belongs to the batch that runs it and to the waiting list.

  Not modelled: the branches for hybrid and sliding window models, CUDA streams, the token pool on the
  device, the figures stamped on the replies, and the execution of a cache rebuild.
\<close>

section \<open>State and messages\<close>

record sched_config =
  sk_max_seq :: int
  sk_budget :: int
  sk_eos :: "int list"
  sk_text :: "int list \<Rightarrow> string"

record ('c, 'h) sched =
  sc_cache :: "'c cache_manager"
  sc_table :: table_manager
  sc_pending :: "'h pending list"
  sc_decode :: "'h decode_manager"
  sc_finished :: "int list"
  sc_acks :: "int list"
  sc_tombs :: "int list"
  sc_last :: "'h batch option"

datatype finish_reason = Stop | Length

datatype reply =
    Detokenize int int "finish_reason option" "string option"
  | ErrorReply int string "string option"
  | PromptAdmitted int nat nat

datatype msg =
    UserMsg int "int list" sampling_params bool
  | AbortMsg int
  | BatchMsg "msg list"

section \<open>Shared request objects\<close>

definition same_obj :: "'h req \<Rightarrow> 'h req \<Rightarrow> bool" where
  "same_obj r q \<longleftrightarrow> rq_uid r = rq_uid q \<and> rq_chunked r = rq_chunked q"

definition share :: "'h req \<Rightarrow> 'h req list \<Rightarrow> 'h req list" where
  "share r = map (\<lambda>q. if same_obj r q then r else q)"

definition share_batch :: "'h req \<Rightarrow> 'h batch \<Rightarrow> 'h batch" where
  "share_batch r b = b\<lparr>ba_reqs := share r (ba_reqs b)\<rparr>"

section \<open>Messages (process_one_msg)\<close>

definition tombstone_max :: int where "tombstone_max = 65536"

definition user_msg :: "sched_config \<Rightarrow> int \<Rightarrow> int list \<Rightarrow> sampling_params \<Rightarrow> bool \<Rightarrow> ('c, 'h) sched \<Rightarrow> ('c, 'h) sched \<times> reply list" where
  "user_msg cfg uid ids sp mm s =
    (if uid \<in> set (sc_tombs s) then (s\<lparr>sc_tombs := remove1 uid (sc_tombs s)\<rparr>, [])
     else
       let max_output = sk_max_seq cfg - int (length ids) in
       if max_output \<le> 0 then (s, [ErrorReply uid ''prompt is too long'' (Some ''context_length_exceeded'')])
       else (s\<lparr>sc_pending := add_pending uid ids (sp\<lparr>sp_max_tokens := min (sp_max_tokens sp) max_output\<rparr>) mm (sc_pending s)\<rparr>, []))"

text \<open>\<open>tombstones[uid] = None\<close>, then the oldest are dropped.\<close>

definition bury :: "int \<Rightarrow> int list \<Rightarrow> int list" where
  "bury uid ts = (let ts = (if uid \<in> set ts then ts else ts @ [uid]) in drop (nat (int (length ts) - tombstone_max)) ts)"

definition free_req :: "('c, 'h) cache_ops \<Rightarrow> int \<Rightarrow> int \<Rightarrow> 'h req \<Rightarrow> ('c, 'h) sched \<Rightarrow> (('c, 'h) sched \<times> 'h req) result option" where
  "free_req ops tic tic' r s =
    (if rq_table r = -1 then Some (ok (s, r))
     else obind (cache_req ops tic tic' r True (sc_cache s))
       (\<lambda>(m, r). Some (ok (s\<lparr>sc_cache := m, sc_table := tm_release (rq_table r) (sc_table s)\<rparr>, r\<lparr>rq_table := -1\<rparr>))))"

definition in_flight :: "'h req \<Rightarrow> ('c, 'h) sched \<Rightarrow> bool" where
  "in_flight r s = (case sc_last s of None \<Rightarrow> False | Some b \<Rightarrow> list_ex (same_obj r) (ba_reqs b))"

definition abort_msg :: "('c, 'h) cache_ops \<Rightarrow> (nat \<Rightarrow> int) \<Rightarrow> int \<Rightarrow> ('c, 'h) sched \<Rightarrow> ('c, 'h) sched result option" where
  "abort_msg ops tics uid s =
    (case abort_pending uid (sc_pending s) of (wl, waiting) \<Rightarrow>
     case (case waiting of Some c \<Rightarrow> (sc_decode s, Some c) | None \<Rightarrow> dm_abort uid (sc_decode s)) of (d, found) \<Rightarrow>
     let s = s\<lparr>sc_tombs := bury uid (sc_tombs s), sc_pending := wl, sc_decode := d\<rparr>;
         ack = (\<lambda>s. s\<lparr>sc_acks := List.insert uid (sc_acks s)\<rparr>) in
     case found of
       None \<Rightarrow> Some (ok (ack s))
     | Some r \<Rightarrow>
         if in_flight r s
         then Some (ok (ack (s\<lparr>sc_last := map_option (share_batch (r\<lparr>rq_aborted := True\<rparr>)) (sc_last s)\<rparr>)))
         else obind (free_req ops (tics 0) (tics 1) r s) (\<lambda>(s, _). Some (ok (ack s))))"

fun flatten_msg :: "msg \<Rightarrow> msg list" where
  "flatten_msg (BatchMsg ms) = concat (map flatten_msg ms)"
| "flatten_msg m = [m]"

text \<open>One message that is not a batch; batches are flattened first.\<close>

fun process_msg :: "('c, 'h) cache_ops \<Rightarrow> (nat \<Rightarrow> int) \<Rightarrow> sched_config \<Rightarrow> msg \<Rightarrow> ('c, 'h) sched
    \<Rightarrow> (('c, 'h) sched \<times> reply list) result option" where
  "process_msg ops tics cfg (UserMsg uid ids sp mm) s = Some (ok (user_msg cfg uid ids sp mm s))"
| "process_msg ops tics cfg (AbortMsg uid) s = obind (abort_msg ops tics uid s) (\<lambda>s. Some (ok (s, [])))"
| "process_msg ops tics cfg (BatchMsg ms) s = Some (ok (s, []))"

primrec process_msgs :: "('c, 'h) cache_ops \<Rightarrow> (nat \<Rightarrow> int) \<Rightarrow> sched_config \<Rightarrow> msg list \<Rightarrow> ('c, 'h) sched
    \<Rightarrow> (('c, 'h) sched \<times> reply list) result option" where
  "process_msgs ops tics cfg [] s = Some (ok (s, []))"
| "process_msgs ops tics cfg (m # ms) s =
    obind (process_msg ops tics cfg m s) (\<lambda>(s, out).
      obind (process_msgs ops (\<lambda>k. tics (k + 2)) cfg ms s) (\<lambda>(s, out'). Some (ok (s, out @ out'))))"

section \<open>Scheduling and the forward pass\<close>

definition admissions :: "'h batch \<Rightarrow> reply list" where
  "admissions b = (if ba_phase b \<noteq> phase.Prefill then [] else map (\<lambda>(uid, n, hit). PromptAdmitted uid n hit) (ba_admissions b))"

definition schedule_next :: "('c, 'h) cache_ops \<Rightarrow> (nat \<Rightarrow> int) \<Rightarrow> sched_config \<Rightarrow> ('c, 'h) sched
    \<Rightarrow> (('c, 'h) sched \<times> 'h batch option \<times> reply list) result option" where
  "schedule_next ops tics cfg s =
    obind (schedule_prefill ops tics (sk_budget cfg) (inflight_tokens (sc_decode s)) (sc_pending s) (sc_cache s) (sc_table s))
      (\<lambda>(m, tm, wl, b).
        let s = s\<lparr>sc_cache := m, sc_table := tm, sc_pending := wl\<rparr> in
        case (case b of Some b \<Rightarrow> Some b | None \<Rightarrow> dm_schedule (sc_decode s)) of
          None \<Rightarrow> Some (ok (s, None, []))
        | Some b \<Rightarrow> obind (allocate_paged ops (ba_reqs b) (sc_cache s))
            (\<lambda>m. Some (ok (s\<lparr>sc_cache := m\<rparr>, Some b, admissions b))))"

text \<open>\<open>forward_batch\<close> advances every request of the batch, then the decode set takes the batch in. The
  sampled tokens are read later, by the drain.\<close>

definition forward :: "'h batch \<Rightarrow> ('c, 'h) sched \<Rightarrow> ('c, 'h) sched \<times> 'h batch" where
  "forward b s =
    (let rs = map complete_one (ba_reqs b) in
     (s\<lparr>sc_decode := filter_reqs rs (sc_decode s),
        sc_pending := map (\<lambda>p. p\<lparr>pd_chunked := map_option (\<lambda>c. foldl (\<lambda>c r. if same_obj r c then r else c) c rs) (pd_chunked p)\<rparr>) (sc_pending s),
        sc_last := map_option (\<lambda>l. foldl (\<lambda>l r. if rq_chunked r then l else share_batch r l) l rs) (sc_last s)\<rparr>,
      b\<lparr>ba_reqs := rs\<rparr>))"

section \<open>Draining a batch (process_last_data)\<close>

definition substring :: "string \<Rightarrow> string \<Rightarrow> bool" where
  "substring p t = list_ex (\<lambda>i. take (length p) (drop i t) = p) [0..<Suc (length t)]"

definition match_stop_str :: "sched_config \<Rightarrow> 'h req \<Rightarrow> string option" where
  "match_stop_str cfg r =
    (let stops = sp_stop_strs (rq_sampling r);
         prompt_len = rq_max r - rq_output r;
         n = int (length (rq_ids r)) in
     if n \<le> prompt_len then None
     else
       let max_chars = int (Max (set (map length stops)));
           tail_start = max prompt_len (n - (max_chars + 1));
           tail = sk_text cfg (drop (nat tail_start) (rq_ids r)) in
       find (\<lambda>p. substring p tail) stops)"

text \<open>\<open>dr_ongoing\<close> is the batch launched before the drain, \<open>None\<close> in the normal loop; \<open>dr_new\<close> collects
  \<open>new_finished_reqs\<close>.\<close>

record ('c, 'h) drain =
  dr_sched :: "('c, 'h) sched"
  dr_ongoing :: "'h batch option"
  dr_reply :: "reply list"
  dr_new :: "int list"

definition share_all :: "'h req \<Rightarrow> ('c, 'h) drain \<Rightarrow> ('c, 'h) drain" where
  "share_all r d =
    (let s = dr_sched d in
     d\<lparr>dr_sched := s\<lparr>sc_decode := (sc_decode s)\<lparr>dm_running := share r (dm_running (sc_decode s))\<rparr>\<rparr>,
       dr_ongoing := map_option (share_batch r) (dr_ongoing d)\<rparr>)"

definition finish_req :: "('c, 'h) cache_ops \<Rightarrow> int \<Rightarrow> int \<Rightarrow> 'h req \<Rightarrow> ('c, 'h) drain \<Rightarrow> ('c, 'h) drain result option" where
  "finish_req ops tic tic' r d =
    (let s = dr_sched d; s = s\<lparr>sc_decode := remove_req r (sc_decode s)\<rparr> in
     obind (free_req ops tic tic' r s) (\<lambda>(s, r).
       Some (ok (share_all r (d\<lparr>dr_sched := s, dr_new := List.insert (rq_uid r) (dr_new d)\<rparr>)))))"

definition finish_of :: "sched_config \<Rightarrow> 'h req \<Rightarrow> int \<Rightarrow> finish_reason option \<times> string option" where
  "finish_of cfg r tok =
    (let hit_length = \<not> can_decode r;
         hit_eos = (\<not> sp_ignore_eos (rq_sampling r) \<and> tok \<in> set (sk_eos cfg));
         matched = (if \<not> hit_eos \<and> sp_stop_strs (rq_sampling r) \<noteq> [] then match_stop_str cfg r else None) in
     (if hit_eos \<or> matched \<noteq> None then Some Stop else if hit_length then Some Length else None, matched))"

definition drain_one :: "('c, 'h) cache_ops \<Rightarrow> int \<Rightarrow> int \<Rightarrow> sched_config \<Rightarrow> bool \<Rightarrow> 'h req \<Rightarrow> int \<Rightarrow> ('c, 'h) drain
    \<Rightarrow> ('c, 'h) drain result option" where
  "drain_one ops tic tic' cfg is_prefill r tok d =
    (if rq_chunked r then
       (if rq_aborted r then obind (free_req ops tic tic' r (dr_sched d)) (\<lambda>(s, r). Some (ok (d\<lparr>dr_sched := s\<rparr>)))
        else Some (ok d))
     else if rq_aborted r then finish_req ops tic tic' r d
     else if rq_uid r \<in> set (sc_finished (dr_sched d)) then Some (ok d)
     else
       obind (Some (append_host [tok] r)) (\<lambda>r.
         case finish_of cfg r tok of (reason, matched) \<Rightarrow>
         let d = share_all r (d\<lparr>dr_reply := dr_reply d @ [Detokenize (rq_uid r) tok reason matched]\<rparr>) in
         if reason \<noteq> None then finish_req ops tic tic' r d
         else if is_prefill \<and> rq_table r \<noteq> -1 then
           obind (cache_req ops tic tic' r False (sc_cache (dr_sched d)))
             (\<lambda>(m, r). Some (ok (share_all r (d\<lparr>dr_sched := (dr_sched d)\<lparr>sc_cache := m\<rparr>\<rparr>))))
         else Some (ok d)))"

primrec drain_reqs :: "('c, 'h) cache_ops \<Rightarrow> (nat \<Rightarrow> int) \<Rightarrow> sched_config \<Rightarrow> bool \<Rightarrow> ('h req \<times> int) list \<Rightarrow> ('c, 'h) drain
    \<Rightarrow> ('c, 'h) drain result option" where
  "drain_reqs ops tics cfg pf [] d = Some (ok d)"
| "drain_reqs ops tics cfg pf (x # xs) d =
    obind (drain_one ops (tics 0) (tics 1) cfg pf (fst x) (snd x) d) (drain_reqs ops (\<lambda>k. tics (k + 2)) cfg pf xs)"

definition process_last :: "('c, 'h) cache_ops \<Rightarrow> (nat \<Rightarrow> int) \<Rightarrow> sched_config \<Rightarrow> int list \<Rightarrow> 'h batch option \<Rightarrow> 'h batch option
    \<Rightarrow> ('c, 'h) sched \<Rightarrow> (('c, 'h) sched \<times> 'h batch option \<times> reply list) result option" where
  "process_last ops tics cfg toks prev ongoing s =
    (case prev of
       None \<Rightarrow> Some (ok (s, ongoing, []))
     | Some b \<Rightarrow>
         obind (drain_reqs ops tics cfg (ba_phase b = phase.Prefill) (zip (ba_reqs b) toks)
             \<lparr>dr_sched = s\<lparr>sc_cache := enter_lazy (sc_cache s)\<rparr>, dr_ongoing = ongoing, dr_reply = [], dr_new = []\<rparr>)
           (\<lambda>d. Some (ok ((dr_sched d)\<lparr>sc_cache := exit_lazy (sc_cache (dr_sched d)), sc_finished := dr_new d\<rparr>,
                          dr_ongoing d, dr_reply d))))"

definition flush_acks :: "('c, 'h) sched \<Rightarrow> ('c, 'h) sched \<times> reply list" where
  "flush_acks s = (s\<lparr>sc_acks := []\<rparr>, map (\<lambda>uid. ErrorReply uid ''request aborted'' None) (sort (sc_acks s)))"

section \<open>The two loops\<close>

text \<open>One iteration. \<open>toks\<close> are the tokens sampled for the batch that the iteration drains, which is the
  batch in flight in the overlapped loop and the batch just launched in the normal one.\<close>

definition launch :: "('c, 'h) cache_ops \<Rightarrow> (nat \<Rightarrow> int) \<Rightarrow> sched_config \<Rightarrow> ('c, 'h) sched
    \<Rightarrow> (('c, 'h) sched \<times> 'h batch option \<times> reply list) result option" where
  "launch ops tics cfg s =
    obind (schedule_next ops tics cfg s) (\<lambda>(s, b, out).
      case b of None \<Rightarrow> Some (ok (s, None, out)) | Some b \<Rightarrow> (case forward b s of (s, b) \<Rightarrow> Some (ok (s, Some b, out))))"

definition overlap_loop :: "('c, 'h) cache_ops \<Rightarrow> (nat \<Rightarrow> nat \<Rightarrow> int) \<Rightarrow> sched_config \<Rightarrow> msg list \<Rightarrow> int list \<Rightarrow> ('c, 'h) sched
    \<Rightarrow> (('c, 'h) sched \<times> reply list) result option" where
  "overlap_loop ops tics cfg ms toks s =
    obind (process_msgs ops (tics 0) cfg (concat (map flatten_msg ms)) s) (\<lambda>(s, out1).
      obind (launch ops (tics 1) cfg s) (\<lambda>(s, ongoing, out2).
        obind (process_last ops (tics 2) cfg toks (sc_last s) ongoing s) (\<lambda>(s, ongoing, out3).
          case flush_acks s of (s, out4) \<Rightarrow> Some (ok (s\<lparr>sc_last := ongoing\<rparr>, out1 @ out2 @ out3 @ out4)))))"

definition normal_loop :: "('c, 'h) cache_ops \<Rightarrow> (nat \<Rightarrow> nat \<Rightarrow> int) \<Rightarrow> sched_config \<Rightarrow> msg list \<Rightarrow> int list \<Rightarrow> ('c, 'h) sched
    \<Rightarrow> (('c, 'h) sched \<times> reply list) result option" where
  "normal_loop ops tics cfg ms toks s =
    obind (process_msgs ops (tics 0) cfg (concat (map flatten_msg ms)) s) (\<lambda>(s, out1).
      obind (launch ops (tics 1) cfg s) (\<lambda>(s, ongoing, out2).
        obind (process_last ops (tics 2) cfg toks ongoing None s) (\<lambda>(s, _, out3).
          case flush_acks s of (s, out4) \<Rightarrow> Some (ok (s, out1 @ out2 @ out3 @ out4)))))"

text \<open>Iterations with what each receives and what is sampled.\<close>

primrec run_loop :: "(msg list \<Rightarrow> int list \<Rightarrow> ('c, 'h) sched \<Rightarrow> (('c, 'h) sched \<times> reply list) result option)
    \<Rightarrow> (msg list \<times> int list) list \<Rightarrow> ('c, 'h) sched \<Rightarrow> (('c, 'h) sched \<times> reply list) result option" where
  "run_loop loop [] s = Some (ok (s, []))"
| "run_loop loop (x # xs) s =
    obind (loop (fst x) (snd x) s) (\<lambda>(s, out). obind (run_loop loop xs s) (\<lambda>(s, out'). Some (ok (s, out @ out'))))"

definition sched_init :: "'c cache_manager \<Rightarrow> nat \<Rightarrow> ('c, 'h) sched" where
  "sched_init m n = \<lparr>sc_cache = m, sc_table = tm_init n, sc_pending = [], sc_decode = \<lparr>dm_page = cm_page m, dm_running = []\<rparr>,
     sc_finished = [], sc_acks = [], sc_tombs = [], sc_last = None\<rparr>"

end
