(* ===== verification/SchedProps.thy ===== *)
theory SchedProps
  imports SchedLoop "HOL-Library.Sublist"
begin

text \<open>
  What the scheduler loop promises to a client: after the reply that ends a request no token follows.
  The proofs look only at uids: which requests wait, decode and are in flight; they hold for any
  prefix cache. The last section shows what the overlapped loop does to the length of an answer.
\<close>

section \<open>What each part of an iteration does to the uids\<close>

lemma obind_eq_ok [simp]: "obind m f = Some (Inr y) \<longleftrightarrow> (\<exists>x. m = Some (Inr x) \<and> f x = Some (Inr y))"
  by (auto simp: obind_def split: option.splits sum.splits)

abbreviation waiting :: "('c, 'h) sched \<Rightarrow> int list" where
  "waiting s \<equiv> map pd_uid (sc_pending s)"

abbreviation running :: "('c, 'h) sched \<Rightarrow> int list" where
  "running s \<equiv> map rq_uid (dm_running (sc_decode s))"

definition flying :: "('c, 'h) sched \<Rightarrow> 'h req list" where
  "flying s = (case sc_last s of None \<Rightarrow> [] | Some b \<Rightarrow> ba_reqs b)"

lemma add_one_req_uid: "add_one_req p h t n a = Inr (a', r) \<Longrightarrow> rq_uid r = pd_uid p \<and> \<not> rq_aborted r"
  by (auto simp: add_one_req_def mk_req_def Let_def split: if_splits)

lemma try_add_one_uid: "try_add_one ops tic p a = Some (Inr (a', Some r)) \<Longrightarrow> rq_uid r = pd_uid p \<and> \<not> rq_aborted r"
  by (auto simp: try_add_one_def dest: add_one_req_uid split: if_splits option.splits)

lemma admit_loop_uids:
  "admit_loop ops tics k wl a l = Some (Inr (a', l')) \<Longrightarrow>
    \<exists>dn rest rs. wl = dn @ rest \<and> pl_reqs l' = pl_reqs l @ rs \<and> map rq_uid rs = map pd_uid dn \<and> (\<forall>r \<in> set rs. \<not> rq_aborted r)
      \<and> pl_chunked l' = pl_chunked l @ next_chunks (zip dn rs)"
proof (induction wl arbitrary: k a l)
  case Nil
  then show ?case by (simp add: next_chunks_def)
next
  case (Cons p wl)
  from Cons.prems obtain a1 req where req: "try_add_one ops (tics k) p a = Some (Inr (a1, req))"
    and step: "(case req of None \<Rightarrow> Some (Inr (a1, l)) | Some r \<Rightarrow> admit_loop ops tics (Suc k) wl a1 (log_one ops p r l)) = Some (Inr (a', l'))"
    by auto
  show ?case
  proof (cases req)
    case None
    with step have "l' = l" by simp
    then show ?thesis by (metis append_Nil append_Nil2 list.simps(8) list.set(1) empty_iff next_chunks_simps(1) zip_Nil)
  next
    case (Some r)
    with step have "admit_loop ops tics (Suc k) wl a1 (log_one ops p r l) = Some (Inr (a', l'))" by simp
    from Cons.IH [OF this] obtain dn rest rs where "wl = dn @ rest" "pl_reqs l' = pl_reqs (log_one ops p r l) @ rs"
      "map rq_uid rs = map pd_uid dn" "\<forall>r \<in> set rs. \<not> rq_aborted r" "pl_chunked l' = pl_chunked (log_one ops p r l) @ next_chunks (zip dn rs)"
      by blast
    moreover have "rq_uid r = pd_uid p \<and> \<not> rq_aborted r" using try_add_one_uid req Some by blast
    ultimately have "p # wl = (p # dn) @ rest \<and> pl_reqs l' = pl_reqs l @ r # rs \<and> map rq_uid (r # rs) = map pd_uid (p # dn)
      \<and> (\<forall>q \<in> set (r # rs). \<not> rq_aborted q) \<and> pl_chunked l' = pl_chunked l @ next_chunks (zip (p # dn) (r # rs))"
      by (simp add: log_one_def Let_def)
    then show ?thesis by blast
  qed
qed

lemma next_chunks_in:
  assumes "p \<in> set (next_chunks (zip dn rs))" "map rq_uid rs = map pd_uid dn"
  shows "\<exists>r \<in> set rs. rq_chunked r \<and> pd_chunked p = Some r \<and> rq_uid r = pd_uid p"
proof -
  obtain q r where qr: "(q, r) \<in> set (zip dn rs)" "rq_chunked r" "p = q\<lparr>pd_chunked := Some r\<rparr>"
    using assms(1) by (auto simp: next_chunks_def split: if_splits)
  obtain i where "i < length dn" "i < length rs" "q = dn ! i" "r = rs ! i" using qr(1) by (auto simp: set_zip)
  then have "rq_uid r = pd_uid q" using assms(2) by (metis nth_map)
  then show ?thesis using qr set_zip_rightD by fastforce
qed

lemma next_chunks_sublist:
  assumes "length dn = length rs"
  shows "subseq (map pd_uid (next_chunks (zip dn rs))) (map pd_uid dn)"
  using assms by (induction dn rs rule: list_induct2) (auto simp: next_chunks_def)

lemma schedule_prefill_uids:
  assumes "schedule_prefill ops tics budget inflight wl m tm = Some (Inr (m', tm', wl', b))"
  shows "case b of None \<Rightarrow> wl' = wl
    | Some b \<Rightarrow> \<exists>dn rest. wl = dn @ rest \<and> map rq_uid (ba_reqs b) = map pd_uid dn \<and> wl' = next_chunks (zip dn (ba_reqs b)) @ rest"
proof (cases "wl = []")
  case True
  then show ?thesis using assms by (auto simp: schedule_prefill_def)
next
  case False
  then obtain a l where l: "admit_loop ops tics 0 wl \<lparr>ad_budget = budget, ad_reserved = inflight, ad_cache = m, ad_table = tm\<rparr> empty_log = Some (Inr (a, l))"
    and r: "(if length (pl_reqs l) = 0 then Some (Inr (ad_cache a, ad_table a, wl, None))
         else Some (Inr (ad_cache a, ad_table a, pl_chunked l @ drop (length (pl_reqs l)) wl,
           Some \<lparr>ba_reqs = pl_reqs l, ba_phase = phase.Prefill, ba_new_tokens = pl_new l, ba_cached_tokens = pl_hit l,
                 ba_admissions = pl_admissions l\<rparr>))) = Some (Inr (m', tm', wl', b))"
    using assms by (auto simp: schedule_prefill_def split: if_splits)
  from admit_loop_uids [OF l] obtain dn rest rs where d: "wl = dn @ rest" "pl_reqs l = rs" "map rq_uid rs = map pd_uid dn"
    "pl_chunked l = next_chunks (zip dn rs)"
    by (auto simp: empty_log_def)
  have "length rs = length dn" using d(3) by (metis length_map)
  then have "drop (length (pl_reqs l)) wl = rest" using d by simp
  with r d(2,4) have "(b = None \<and> wl' = wl) \<or> (\<exists>b'. b = Some b' \<and> ba_reqs b' = rs \<and> wl' = next_chunks (zip dn rs) @ rest)"
    by (auto split: if_splits)
  then show ?thesis
  proof
    assume "\<exists>b'. b = Some b' \<and> ba_reqs b' = rs \<and> wl' = next_chunks (zip dn rs) @ rest"
    then obtain b' where b': "b = Some b'" "ba_reqs b' = rs" "wl' = next_chunks (zip dn rs) @ rest" by blast
    show ?thesis unfolding b'(1) option.case b'(2) using d(1,3) b'(3) by blast
  qed simp
qed

lemma schedule_next_uids:
  assumes "schedule_next ops tics cfg s = Some (Inr (s', b, out))"
  shows "sc_decode s' = sc_decode s" "sc_finished s' = sc_finished s" "sc_tombs s' = sc_tombs s" "sc_acks s' = sc_acks s"
    "sc_last s' = sc_last s"
    "case b of None \<Rightarrow> sc_pending s' = sc_pending s
     | Some b \<Rightarrow> (\<exists>dn rest. sc_pending s = dn @ rest \<and> map rq_uid (ba_reqs b) = map pd_uid dn
                    \<and> sc_pending s' = next_chunks (zip dn (ba_reqs b)) @ rest)
               \<or> (sc_pending s' = sc_pending s \<and> set (ba_reqs b) = set (dm_running (sc_decode s))
                    \<and> distinct (map rq_uid (ba_reqs b)) = distinct (running s))"
    "\<exists>ps. out = map (\<lambda>(uid, n, hit). PromptAdmitted uid n hit) ps"
proof -
  obtain x where x: "schedule_prefill ops tics (sk_budget cfg) (inflight_tokens (sc_decode s)) (sc_pending s) (sc_cache s) (sc_table s) = Some (Inr x)"
    using assms unfolding schedule_next_def obind_eq_ok by blast
  obtain m tm wl b0 where p: "x = (m, tm, wl, b0)" by (cases x)
  note pf = x [unfolded p]
  define s1 where "s1 = s\<lparr>sc_cache := m, sc_table := tm, sc_pending := wl\<rparr>"
  have r: "(case (case b0 of Some b \<Rightarrow> Some b | None \<Rightarrow> dm_schedule (sc_decode s)) of
          None \<Rightarrow> Some (Inr (s1, None, []))
        | Some b \<Rightarrow> obind (allocate_paged ops (ba_reqs b) m)
            (\<lambda>m'. Some (Inr (s1\<lparr>sc_cache := m'\<rparr>, Some b, admissions b)))) = Some (Inr (s', b, out))"
    using assms unfolding schedule_next_def pf by (simp add: Let_def s1_def cong: option.case_cong)
  have out: "\<exists>ps. admissions b = map (\<lambda>(uid, n, hit). PromptAdmitted uid n hit) ps" for b :: "'b batch"
    by (auto simp: admissions_def intro: exI [of _ "[]"])
  obtain b1 where b1: "b1 = (case b0 of Some b \<Rightarrow> Some b | None \<Rightarrow> dm_schedule (sc_decode s))" by blast
  have s': "(b1 = None \<and> b = None \<and> s' = s1 \<and> out = []) \<or>
      (\<exists>b2 m'. b1 = Some b2 \<and> b = Some b2 \<and> s' = s1\<lparr>sc_cache := m'\<rparr> \<and> out = admissions b2)"
    using r unfolding b1 [symmetric] by (cases b1) auto
  then show "sc_decode s' = sc_decode s" "sc_finished s' = sc_finished s" "sc_tombs s' = sc_tombs s" "sc_acks s' = sc_acks s"
    "sc_last s' = sc_last s"
    by (auto simp: s1_def)
  show "\<exists>ps. out = map (\<lambda>(uid, n, hit). PromptAdmitted uid n hit) ps"
    using s' out by auto
  have pend: "sc_pending s' = wl" using s' by (auto simp: s1_def)
  have sorted: "distinct (map rq_uid (sort_key rq_uid rs)) = distinct (map rq_uid rs)" for rs :: "'b req list"
    by (rule mset_eq_imp_distinct_iff) simp
  show "case b of None \<Rightarrow> sc_pending s' = sc_pending s
     | Some b \<Rightarrow> (\<exists>dn rest. sc_pending s = dn @ rest \<and> map rq_uid (ba_reqs b) = map pd_uid dn
                    \<and> sc_pending s' = next_chunks (zip dn (ba_reqs b)) @ rest)
               \<or> (sc_pending s' = sc_pending s \<and> set (ba_reqs b) = set (dm_running (sc_decode s))
                    \<and> distinct (map rq_uid (ba_reqs b)) = distinct (running s))"
  proof (cases b0)
    case None
    then have "sc_pending s' = sc_pending s" using schedule_prefill_uids [OF pf] pend by simp
    then show ?thesis using s' None b1 sorted by (auto simp: dm_schedule_def split: if_splits)
  next
    case (Some b2)
    then have "b = Some b2" using s' b1 by auto
    with Some schedule_prefill_uids [OF pf] pend show ?thesis by simp
  qed
qed

section \<open>The invariant on uids\<close>

text \<open>\<open>seen\<close> are the uids of the user messages received so far. A waiting uid is not decoding, and a
  request in flight that is not a chunk is not waiting.\<close>

definition uids_ok :: "int set \<Rightarrow> ('c, 'h) sched \<Rightarrow> bool" where
  "uids_ok seen s \<longleftrightarrow> distinct (waiting s) \<and> distinct (running s) \<and> set (waiting s) \<inter> set (running s) = {}
     \<and> set (waiting s) \<union> set (running s) \<subseteq> seen \<and> (\<forall>r \<in> set (dm_running (sc_decode s)). \<not> rq_chunked r)
     \<and> (\<forall>p \<in> set (sc_pending s). \<forall>c. pd_chunked p = Some c \<longrightarrow> rq_chunked c \<and> rq_uid c = pd_uid p)"

definition flight_ok :: "int set \<Rightarrow> ('c, 'h) sched \<Rightarrow> 'h req list \<Rightarrow> bool" where
  "flight_ok seen s rs \<longleftrightarrow> distinct (map rq_uid rs) \<and> rq_uid ` set rs \<subseteq> seen
     \<and> (\<forall>r \<in> set rs. \<not> rq_chunked r \<longrightarrow> rq_uid r \<notin> set (waiting s))"

definition absent :: "int \<Rightarrow> ('c, 'h) sched \<Rightarrow> bool" where
  "absent u s \<longleftrightarrow> u \<notin> set (waiting s) \<and> u \<notin> set (running s)"

definition ids :: "'h req list \<Rightarrow> (int \<times> bool) list" where
  "ids rs = map (\<lambda>r. (rq_uid r, rq_chunked r)) rs"

lemma ids_uid: "map rq_uid rs = map fst (ids rs)"
  by (simp add: ids_def)

lemma ids_share [simp]: "ids (share r qs) = ids qs"
  by (auto simp: ids_def share_def same_obj_def)

lemma ids_share_batch [simp]: "ids (ba_reqs (share_batch r b)) = ids (ba_reqs b)"
  by (simp add: share_batch_def)

lemma ids_complete [simp]: "ids (map complete_one rs) = ids rs"
  by (auto simp: ids_def complete_one_def)

lemma flight_ok_ids:
  "flight_ok seen s rs \<longleftrightarrow> distinct (map fst (ids rs)) \<and> set (map fst (ids rs)) \<subseteq> seen
     \<and> (\<forall>(u, c) \<in> set (ids rs). \<not> c \<longrightarrow> u \<notin> set (waiting s))"
  by (auto simp: flight_ok_def ids_def comp_def)

lemma flight_ok_cong: "ids rs' = ids rs \<Longrightarrow> waiting s' = waiting s \<Longrightarrow> flight_ok seen s' rs' = flight_ok seen s rs"
  by (simp only: flight_ok_ids)

lemma flight_ok_less: "flight_ok seen s rs \<Longrightarrow> set (waiting s') \<subseteq> set (waiting s) \<Longrightarrow> flight_ok seen s' rs"
  by (auto simp: flight_ok_def)

lemma uids_ok_cong: "sc_pending s' = sc_pending s \<Longrightarrow> sc_decode s' = sc_decode s \<Longrightarrow> uids_ok seen s' = uids_ok seen s"
  by (simp add: uids_ok_def)

text \<open>The forward pass.\<close>

lemma same_fold: "rq_uid (foldl (\<lambda>c r. if same_obj r c then r else c) c rs) = rq_uid c
    \<and> rq_chunked (foldl (\<lambda>c r. if same_obj r c then r else c) c rs) = rq_chunked c"
  by (induction rs arbitrary: c) (auto simp: same_obj_def)

lemma ids_fold: "ids (ba_reqs (foldl (\<lambda>l r. if rq_chunked r then l else share_batch r l) l rs)) = ids (ba_reqs l)"
  by (induction rs arbitrary: l) simp_all

lemma forward_frame:
  assumes "forward b s = (s', b')"
  shows "waiting s' = waiting s" "ids (ba_reqs b') = ids (ba_reqs b)" "ids (flying s') = ids (flying s)"
    "sc_finished s' = sc_finished s" "sc_tombs s' = sc_tombs s" "sc_acks s' = sc_acks s"
    "sc_decode s' = filter_reqs (ba_reqs b') (sc_decode s)" "ba_reqs b' = map complete_one (ba_reqs b)"
  using assms by (auto simp: forward_def Let_def flying_def ids_fold comp_def split: option.splits)

lemma forward_chunks:
  assumes "forward b s = (s', b')" "p \<in> set (sc_pending s')" "pd_chunked p = Some c"
  shows "\<exists>q \<in> set (sc_pending s). \<exists>c'. pd_uid q = pd_uid p \<and> pd_chunked q = Some c' \<and> rq_uid c = rq_uid c' \<and> rq_chunked c = rq_chunked c'"
proof -
  define upd where "upd = (\<lambda>c. foldl (\<lambda>c r. if same_obj r c then r else c) c (map complete_one (ba_reqs b)))"
  have "sc_pending s' = map (\<lambda>p. p\<lparr>pd_chunked := map_option upd (pd_chunked p)\<rparr>) (sc_pending s)"
    using assms(1) by (auto simp: forward_def Let_def upd_def)
  then obtain q where q: "q \<in> set (sc_pending s)" "p = q\<lparr>pd_chunked := map_option upd (pd_chunked q)\<rparr>"
    using assms(2) by auto
  then obtain c' where c': "pd_chunked q = Some c'" "c = upd c'" using assms(3) by auto
  have "rq_uid (upd c') = rq_uid c' \<and> rq_chunked (upd c') = rq_chunked c'" unfolding upd_def by (rule same_fold)
  with q c' show ?thesis by (intro bexI [of _ q]) auto
qed

lemma running_filter: "set (map rq_uid (dm_running (filter_reqs rs d))) \<subseteq> set (map rq_uid (dm_running d)) \<union> set (map rq_uid rs)"
  by (auto simp: filter_reqs_def req_union_def)

lemma distinct_filter_reqs:
  "distinct (map rq_uid (dm_running d)) \<Longrightarrow> distinct (map rq_uid rs) \<Longrightarrow> distinct (map rq_uid (dm_running (filter_reqs rs d)))"
  by (auto simp: filter_reqs_def req_union_def distinct_map_filter)

lemma forward_uids:
  assumes "uids_ok seen s" "flight_ok seen s (ba_reqs b)" "forward b s = (s', b')"
  shows "uids_ok seen s'" "flight_ok seen s' (ba_reqs b')"
proof -
  note fr = forward_frame [OF assms(3)]
  show "flight_ok seen s' (ba_reqs b')" using flight_ok_cong [OF fr(2,1)] assms(2) by blast
  have run: "set (running s') \<subseteq> set (running s) \<union> rq_uid ` {r \<in> set (ba_reqs b'). \<not> rq_chunked r}"
    unfolding fr(7) by (auto simp: filter_reqs_def req_union_def can_decode_def)
  have "rq_uid ` {r \<in> set (ba_reqs b'). \<not> rq_chunked r} \<inter> set (waiting s') = {}"
    "rq_uid ` {r \<in> set (ba_reqs b'). \<not> rq_chunked r} \<subseteq> seen"
    using \<open>flight_ok seen s' (ba_reqs b')\<close> by (auto simp: flight_ok_def)
  moreover have "distinct (running s')"
    unfolding fr(7) using assms(1) \<open>flight_ok seen s' (ba_reqs b')\<close>
    by (intro distinct_filter_reqs) (simp_all add: uids_ok_def flight_ok_def)
  moreover have "\<forall>r \<in> set (dm_running (sc_decode s')). \<not> rq_chunked r"
    unfolding fr(7) by (auto simp: filter_reqs_def can_decode_def)
  moreover have "rq_chunked c \<and> rq_uid c = pd_uid p" if "p \<in> set (sc_pending s')" "pd_chunked p = Some c" for p c
    using forward_chunks [OF assms(3) that] assms(1) by (auto simp: uids_ok_def)
  moreover have "set (waiting s') \<inter> set (running s') = {}"
    using run calculation(1) assms(1) unfolding uids_ok_def fr(1) by blast
  moreover have "set (waiting s') \<union> set (running s') \<subseteq> seen"
    using run calculation(2) assms(1) unfolding uids_ok_def fr(1) by blast
  ultimately show "uids_ok seen s'"
    using assms(1) fr(1) unfolding uids_ok_def by simp
qed

text \<open>Scheduling.\<close>

lemma subseq_set: "subseq xs ys \<Longrightarrow> set xs \<subseteq> set ys"
  by (induction rule: list_emb.induct) auto

lemma subseq_unique: "subseq xs ys \<Longrightarrow> distinct ys \<Longrightarrow> distinct xs"
  by (induction rule: list_emb.induct) (auto dest: subseq_set)

lemma prefill_flight:
  assumes inv: "uids_ok seen s" and w: "sc_pending s = dn @ rest" "map rq_uid rs = map pd_uid dn"
    and p': "sc_pending s' = next_chunks (zip dn rs) @ rest" "sc_decode s' = sc_decode s"
  shows "uids_ok seen s'" "flight_ok seen s' rs" "set (waiting s') \<subseteq> set (waiting s)"
proof -
  have len: "length dn = length rs" using w(2) by (metis length_map)
  have sub: "subseq (waiting s') (waiting s)"
    unfolding w(1) p'(1) map_append by (rule list_emb_append_mono [OF next_chunks_sublist [OF len] subseq_order.order_refl])
  have dist: "distinct (map rq_uid rs @ map pd_uid rest)" using inv w by (simp add: uids_ok_def)
  show sets: "set (waiting s') \<subseteq> set (waiting s)" by (rule subseq_set [OF sub])
  have "rq_chunked c \<and> rq_uid c = pd_uid p" if p: "p \<in> set (sc_pending s')" "pd_chunked p = Some c" for p c
  proof (cases "p \<in> set rest")
    case True
    then show ?thesis using inv w(1) p(2) by (auto simp: uids_ok_def)
  next
    case False
    then have "p \<in> set (next_chunks (zip dn rs))" using p(1) p'(1) by simp
    from next_chunks_in [OF this w(2)] p(2) show ?thesis by auto
  qed
  moreover have "distinct (waiting s')" using subseq_unique [OF sub] inv by (simp add: uids_ok_def)
  ultimately show "uids_ok seen s'" using inv sets unfolding uids_ok_def p'(2) by blast
  have "rq_uid r \<notin> set (waiting s')" if r: "r \<in> set rs" "\<not> rq_chunked r" for r
  proof
    assume "rq_uid r \<in> set (waiting s')"
    then obtain p where p: "p \<in> set (sc_pending s')" "pd_uid p = rq_uid r" by auto
    show False
    proof (cases "p \<in> set rest")
      case True
      then show False using dist r(1) p(2) by (auto simp: image_iff)
    next
      case False
      then have "p \<in> set (next_chunks (zip dn rs))" using p(1) p'(1) by simp
      from next_chunks_in [OF this w(2)] obtain q where q: "q \<in> set rs" "rq_chunked q" "rq_uid q = rq_uid r" using p(2) by auto
      then have "q = r" using dist r(1) distinct_map_row_eq [of rq_uid rs q r] by simp
      with q r show False by simp
    qed
  qed
  moreover have "rq_uid ` set rs \<subseteq> seen"
  proof -
    have "rq_uid ` set rs = pd_uid ` set dn" using w(2) by (metis set_map)
    then show ?thesis using inv w(1) by (auto simp: uids_ok_def)
  qed
  ultimately show "flight_ok seen s' rs" using dist by (simp add: flight_ok_def)
qed

lemma schedule_next_flight:
  assumes inv: "uids_ok seen s" and r: "schedule_next ops tics cfg s = Some (Inr (s', b, out))"
  shows "uids_ok seen s'" "set (waiting s') \<subseteq> set (waiting s)" "case b of None \<Rightarrow> True | Some b \<Rightarrow> flight_ok seen s' (ba_reqs b)
    \<and> rq_uid ` set (ba_reqs b) \<subseteq> set (waiting s) \<union> set (running s)"
proof -
  note f = schedule_next_uids [OF r]
  have "uids_ok seen s' \<and> set (waiting s') \<subseteq> set (waiting s) \<and> (case b of None \<Rightarrow> True | Some b \<Rightarrow> flight_ok seen s' (ba_reqs b)
    \<and> rq_uid ` set (ba_reqs b) \<subseteq> set (waiting s) \<union> set (running s))"
  proof (cases b)
    case None
    then have p: "sc_pending s' = sc_pending s" using f(6) by simp
    then show ?thesis using uids_ok_cong [OF p f(1)] inv None by simp
  next
    case (Some b1)
    note f6 = f(6) [unfolded Some option.case]
    from f6 consider
        (pf) dn rest where "sc_pending s = dn @ rest" "map rq_uid (ba_reqs b1) = map pd_uid dn" "sc_pending s' = next_chunks (zip dn (ba_reqs b1)) @ rest"
      | (dc) "sc_pending s' = sc_pending s" "set (ba_reqs b1) = set (dm_running (sc_decode s))" "distinct (map rq_uid (ba_reqs b1)) = distinct (running s)"
      by blast
    then show ?thesis
    proof cases
      case pf
      have "rq_uid ` set (ba_reqs b1) = pd_uid ` set dn" using pf(2) by (metis set_map)
      then show ?thesis using prefill_flight [OF inv pf f(1)] pf(1) Some by auto
    next
      case dc
      have uid: "rq_uid ` set (ba_reqs b1) = set (running s)" unfolding dc(2) by simp
      have wait: "waiting s' = waiting s" by (simp only: dc(1))
      have "distinct (map rq_uid (ba_reqs b1))" using dc(3) inv by (simp add: uids_ok_def)
      then have "flight_ok seen s' (ba_reqs b1)"
        using inv uid unfolding flight_ok_def uids_ok_def wait by blast
      moreover have "uids_ok seen s'" using uids_ok_cong [OF dc(1) f(1)] inv by blast
      ultimately show ?thesis unfolding Some option.case uid wait by blast
    qed
  qed
  then show "uids_ok seen s'" "set (waiting s') \<subseteq> set (waiting s)" "case b of None \<Rightarrow> True | Some b \<Rightarrow> flight_ok seen s' (ba_reqs b)
    \<and> rq_uid ` set (ba_reqs b) \<subseteq> set (waiting s) \<union> set (running s)" by blast+
qed

definition batch_reqs :: "'h batch option \<Rightarrow> 'h req list" where
  "batch_reqs b = (case b of None \<Rightarrow> [] | Some b \<Rightarrow> ba_reqs b)"

lemma batch_reqs_simps [simp]: "batch_reqs None = []" "batch_reqs (Some b) = ba_reqs b"
  by (simp_all add: batch_reqs_def)

lemma launch_uids:
  assumes inv: "uids_ok seen s" "flight_ok seen s (flying s)"
    and l: "launch ops tics cfg s = Some (Inr (s', ongoing, out))"
  shows "uids_ok seen s'" "flight_ok seen s' (flying s')" "flight_ok seen s' (batch_reqs ongoing)"
    "absent v s \<Longrightarrow> absent v s' \<and> v \<notin> rq_uid ` set (batch_reqs ongoing)"
    "sc_finished s' = sc_finished s" "sc_tombs s' = sc_tombs s" "sc_acks s' = sc_acks s" "ids (flying s') = ids (flying s)"
    "\<exists>ps. out = map (\<lambda>(uid, n, hit). PromptAdmitted uid n hit) ps"
proof -
  obtain s1 b where sn: "schedule_next ops tics cfg s = Some (Inr (s1, b, out))"
    and r: "(case b of None \<Rightarrow> s' = s1 \<and> ongoing = None | Some b1 \<Rightarrow> \<exists>b2. forward b1 s1 = (s', b2) \<and> ongoing = Some b2)"
  proof -
    obtain x where x: "schedule_next ops tics cfg s = Some (Inr x)" using l unfolding launch_def obind_eq_ok by blast
    obtain s1 b o1 where p: "x = (s1, b, o1)" by (cases x)
    have "(case b of None \<Rightarrow> Some (ok (s1, None, o1)) | Some b \<Rightarrow> (case forward b s1 of (s, b) \<Rightarrow> Some (ok (s, Some b, o1)))) = Some (ok (s', ongoing, out))"
      using l unfolding launch_def x p by simp
    then have "o1 = out" "case b of None \<Rightarrow> s' = s1 \<and> ongoing = None | Some b1 \<Rightarrow> \<exists>b2. forward b1 s1 = (s', b2) \<and> ongoing = Some b2"
      by (cases b; cases "forward (the b) s1"; simp)+
    then show thesis using that x p by simp
  qed
  note f = schedule_next_uids [OF sn] and g = schedule_next_flight [OF inv(1) sn]
  have fl1: "flying s1 = flying s" using f(5) by (simp add: flying_def)
  have fo1: "flight_ok seen s1 (flying s)" using flight_ok_less [OF inv(2) g(2)] .
  have all: "uids_ok seen s' \<and> flight_ok seen s' (flying s') \<and> flight_ok seen s' (batch_reqs ongoing)
    \<and> (absent v s \<longrightarrow> absent v s' \<and> v \<notin> rq_uid ` set (batch_reqs ongoing))
    \<and> sc_finished s' = sc_finished s \<and> sc_tombs s' = sc_tombs s \<and> sc_acks s' = sc_acks s \<and> ids (flying s') = ids (flying s)"
  proof (cases b)
    case None
    then have "s' = s1" "ongoing = None" using r by auto
    then show ?thesis using f g(1,2) fo1 fl1 by (auto simp: flight_ok_def absent_def)
  next
    case (Some b1)
    then obtain b2 where fw: "forward b1 s1 = (s', b2)" "ongoing = Some b2" using r by auto
    note h = forward_frame [OF fw(1)]
    have b1: "flight_ok seen s1 (ba_reqs b1)" "rq_uid ` set (ba_reqs b1) \<subseteq> set (waiting s) \<union> set (running s)"
      using g(3) Some by auto
    have uid: "rq_uid ` set (ba_reqs b2) = rq_uid ` set (ba_reqs b1)"
      using arg_cong [OF h(2), where f = "\<lambda>xs. set (map fst xs)"] unfolding ids_uid [symmetric] by simp
    have "flight_ok seen s' (flying s')" using flight_ok_cong [OF h(3,1)] fo1 fl1 by metis
    moreover have "set (running s') \<subseteq> set (running s) \<union> rq_uid ` set (ba_reqs b1)"
      using running_filter [of "ba_reqs b2" "sc_decode s1"] unfolding h(7) f(1) set_map uid .
    then have "absent v s \<longrightarrow> absent v s' \<and> v \<notin> rq_uid ` set (ba_reqs b2)"
      using b1(2) g(2) unfolding absent_def h(1) uid by blast
    moreover have "sc_finished s' = sc_finished s" "sc_tombs s' = sc_tombs s" "sc_acks s' = sc_acks s" "ids (flying s') = ids (flying s)"
      using f(2-4) h(3-6) fl1 by metis+
    ultimately show ?thesis
      using forward_uids [OF g(1) b1(1) fw(1)] unfolding fw(2) batch_reqs_simps by blast
  qed
  then show "uids_ok seen s'" "flight_ok seen s' (flying s')" "flight_ok seen s' (batch_reqs ongoing)"
    "absent v s \<Longrightarrow> absent v s' \<and> v \<notin> rq_uid ` set (batch_reqs ongoing)"
    "sc_finished s' = sc_finished s" "sc_tombs s' = sc_tombs s" "sc_acks s' = sc_acks s" "ids (flying s') = ids (flying s)"
    by blast+
  show "\<exists>ps. out = map (\<lambda>(uid, n, hit). PromptAdmitted uid n hit) ps" by (fact f(7))
qed

section \<open>The drain\<close>

lemma cache_req_same:
  assumes "cache_req ops tic tic' r fin m = Some (Inr (m', r'))"
  shows "rq_uid r' = rq_uid r" "rq_chunked r' = rq_chunked r"
  using assms by (auto simp: cache_req_def Let_def split: if_splits)

text \<open>The state of a drain up to the pages: what the proofs below need of it.\<close>

definition same_view :: "('c, 'h) sched \<Rightarrow> ('c, 'h) sched \<Rightarrow> bool" where
  "same_view s s' \<longleftrightarrow> sc_pending s' = sc_pending s \<and> sc_finished s' = sc_finished s \<and> sc_tombs s' = sc_tombs s
     \<and> sc_acks s' = sc_acks s \<and> sc_last s' = sc_last s"

lemma free_req_frame:
  assumes "free_req ops tic tic' r s = Some (Inr (s', r'))"
  shows "same_view s s'" "sc_decode s' = sc_decode s" "rq_uid r' = rq_uid r" "rq_chunked r' = rq_chunked r"
proof -
  have "same_view s s' \<and> sc_decode s' = sc_decode s \<and> rq_uid r' = rq_uid r \<and> rq_chunked r' = rq_chunked r"
  proof (cases "rq_table r = -1")
    case True
    then show ?thesis using assms by (simp add: free_req_def same_view_def)
  next
    case False
    then obtain x where x: "cache_req ops tic tic' r True (sc_cache s) = Some (Inr x)"
      using assms unfolding free_req_def by auto
    obtain m q where q: "x = (m, q)" by (cases x)
    have "s' = s\<lparr>sc_cache := m, sc_table := tm_release (rq_table q) (sc_table s)\<rparr>" "r' = q\<lparr>rq_table := -1\<rparr>"
      using assms False unfolding free_req_def x q by simp_all
    then show ?thesis using cache_req_same [OF x [unfolded q]] by (simp add: same_view_def)
  qed
  then show "same_view s s'" "sc_decode s' = sc_decode s" "rq_uid r' = rq_uid r" "rq_chunked r' = rq_chunked r" by blast+
qed

abbreviation dr_running :: "('c, 'h) drain \<Rightarrow> 'h req list" where
  "dr_running d \<equiv> dm_running (sc_decode (dr_sched d))"

definition drain_frame :: "('c, 'h) drain \<Rightarrow> ('c, 'h) drain \<Rightarrow> bool" where
  "drain_frame d d' \<longleftrightarrow> same_view (dr_sched d) (dr_sched d') \<and> set (ids (dr_running d')) \<subseteq> set (ids (dr_running d))
     \<and> (distinct (map rq_uid (dr_running d)) \<longrightarrow> distinct (map rq_uid (dr_running d')))
     \<and> ids (batch_reqs (dr_ongoing d')) = ids (batch_reqs (dr_ongoing d)) \<and> set (dr_new d) \<subseteq> set (dr_new d')"

lemma drain_frame_refl: "drain_frame d d"
  by (simp add: drain_frame_def same_view_def)

lemma drain_frame_trans: "drain_frame a b \<Longrightarrow> drain_frame b c \<Longrightarrow> drain_frame a c"
  by (auto simp: drain_frame_def same_view_def)

lemma share_all_frame: "drain_frame d (share_all r d)"
  by (auto simp: drain_frame_def same_view_def share_all_def Let_def ids_uid batch_reqs_def split: option.splits)

lemma drain_frame_congI:
  assumes "drain_frame d d1" "same_view (dr_sched d1) (dr_sched d')" "sc_decode (dr_sched d') = sc_decode (dr_sched d1)"
    "dr_ongoing d' = dr_ongoing d1" "set (dr_new d1) \<subseteq> set (dr_new d')"
  shows "drain_frame d d'"
  using assms by (auto simp: drain_frame_def same_view_def)

lemma share_all_fields [simp]:
  "dr_reply (share_all r d) = dr_reply d" "dr_new (share_all r d) = dr_new d"
  "map rq_uid (dr_running (share_all r d)) = map rq_uid (dr_running d)"
  by (simp_all add: share_all_def Let_def ids_uid)

lemma ids_remove: "dm_running (remove_req r d) = filter (\<lambda>q. rq_uid q \<noteq> rq_uid r) (dm_running d)"
  by (simp add: remove_req_def)

lemma finish_req_frame:
  assumes "finish_req ops tic tic' r d = Some (Inr d')"
  shows "drain_frame d d'" "dr_reply d' = dr_reply d" "rq_uid r \<in> set (dr_new d')" "rq_uid r \<notin> set (map rq_uid (dr_running d'))"
proof -
  define s where "s = (dr_sched d)\<lparr>sc_decode := remove_req r (sc_decode (dr_sched d))\<rparr>"
  obtain x where x: "free_req ops tic tic' r s = Some (Inr x)" using assms unfolding finish_req_def Let_def s_def obind_eq_ok by blast
  obtain s' r' where q: "x = (s', r')" by (cases x)
  note f = free_req_frame [OF x [unfolded q]]
  define d1 where "d1 = d\<lparr>dr_sched := s', dr_new := List.insert (rq_uid r') (dr_new d)\<rparr>"
  have d': "d' = share_all r' d1" using assms unfolding finish_req_def Let_def s_def [symmetric] x q by (simp add: d1_def)
  have run: "dr_running d1 = filter (\<lambda>q. rq_uid q \<noteq> rq_uid r) (dr_running d)"
    using f(2) by (simp add: d1_def s_def ids_remove)
  have "drain_frame d d1"
    using f(1) run by (auto simp: drain_frame_def d1_def same_view_def s_def ids_def distinct_map_filter)
  then show "drain_frame d d'" unfolding d' using share_all_frame drain_frame_trans by blast
  show "dr_reply d' = dr_reply d" by (simp add: d' d1_def)
  show "rq_uid r \<in> set (dr_new d')" using f(3) by (simp add: d' d1_def)
  show "rq_uid r \<notin> set (map rq_uid (dr_running d'))" unfolding d' share_all_fields run by auto
qed

text \<open>One request of a drain answers at most with its own token, and only when it is neither a chunk
  nor aborted nor finished before; an answer with a reason closes the request.\<close>

lemma drain_one_frame:
  assumes "drain_one ops tic tic' cfg pf r tok d = Some (Inr d')"
  shows "drain_frame d d'"
    "dr_reply d' = dr_reply d \<or> (\<not> rq_chunked r \<and> rq_uid r \<notin> set (sc_finished (dr_sched d))
       \<and> (\<exists>reason m. dr_reply d' = dr_reply d @ [Detokenize (rq_uid r) tok reason m]
            \<and> (reason \<noteq> None \<longrightarrow> rq_uid r \<in> set (dr_new d') \<and> rq_uid r \<notin> set (map rq_uid (dr_running d')))))"
proof -
  let ?goal = "drain_frame d d' \<and> (dr_reply d' = dr_reply d \<or> (\<not> rq_chunked r \<and> rq_uid r \<notin> set (sc_finished (dr_sched d))
       \<and> (\<exists>reason m. dr_reply d' = dr_reply d @ [Detokenize (rq_uid r) tok reason m]
            \<and> (reason \<noteq> None \<longrightarrow> rq_uid r \<in> set (dr_new d') \<and> rq_uid r \<notin> set (map rq_uid (dr_running d'))))))"
  have ?goal
  proof (cases "rq_chunked r")
    case True
    show ?thesis
    proof (cases "rq_aborted r")
      case ab: True
      obtain x where x: "free_req ops tic tic' r (dr_sched d) = Some (Inr x)"
        using assms True ab unfolding drain_one_def by auto
      obtain s' r' where q: "x = (s', r')" by (cases x)
      have "d' = d\<lparr>dr_sched := s'\<rparr>" using assms True ab unfolding drain_one_def x q by simp
      then show ?thesis using free_req_frame(1,2) [OF x [unfolded q]]
        by (auto intro!: drain_frame_congI [OF drain_frame_refl])
    next
      case False
      then show ?thesis using assms True by (simp add: drain_one_def drain_frame_refl)
    qed
  next
    case nc: False
    consider (ab) "rq_aborted r" | (fin) "\<not> rq_aborted r" "rq_uid r \<in> set (sc_finished (dr_sched d))"
      | (live) "\<not> rq_aborted r" "rq_uid r \<notin> set (sc_finished (dr_sched d))" by blast
    then show ?thesis
    proof cases
      case ab
      then have "finish_req ops tic tic' r d = Some (Inr d')" using assms nc by (simp add: drain_one_def)
      from finish_req_frame [OF this] show ?thesis by simp
    next
      case fin
      then show ?thesis using assms nc by (simp add: drain_one_def drain_frame_refl)
    next
      case live
      obtain q where q: "append_host [tok] r = Inr q" using assms nc live by (auto simp: drain_one_def)
      then have uid: "rq_uid q = rq_uid r" by (auto simp: append_host_def split: if_splits)
      obtain reason m where fo: "finish_of cfg q tok = (reason, m)" by (cases "finish_of cfg q tok")
      define d1 where "d1 = d\<lparr>dr_reply := dr_reply d @ [Detokenize (rq_uid q) tok reason m]\<rparr>"
      have f1: "drain_frame d (share_all q d1)"
        by (rule drain_frame_trans [OF drain_frame_congI [OF drain_frame_refl, of d d1] share_all_frame])
          (simp_all add: d1_def same_view_def)
      have step: "(if reason \<noteq> None then finish_req ops tic tic' q (share_all q d1)
          else if pf \<and> rq_table q \<noteq> -1 then
            obind (cache_req ops tic tic' q False (sc_cache (dr_sched (share_all q d1))))
              (\<lambda>(m, r). Some (ok (share_all r ((share_all q d1)\<lparr>dr_sched := (dr_sched (share_all q d1))\<lparr>sc_cache := m\<rparr>\<rparr>))))
          else Some (ok (share_all q d1))) = Some (ok d')"
        unfolding assms [symmetric] drain_one_def q
        by (simp only: nc live if_False q obind_simps fo prod.case Let_def d1_def simp_thms)
      have rep: "dr_reply (share_all q d1) = dr_reply d @ [Detokenize (rq_uid r) tok reason m]" by (simp add: d1_def uid)
      consider (stop) "reason \<noteq> None" "finish_req ops tic tic' q (share_all q d1) = Some (Inr d')"
        | (keep) x where "reason = None" "d' = share_all (snd x) ((share_all q d1)\<lparr>dr_sched := (dr_sched (share_all q d1))\<lparr>sc_cache := fst x\<rparr>\<rparr>)"
        | (plain) "reason = None" "d' = share_all q d1"
        using step by (auto split: if_splits)
      then show ?thesis
      proof cases
        case stop
        note g = finish_req_frame [OF stop(2)]
        show ?thesis using drain_frame_trans [OF f1 g(1)] g(2-4) rep uid nc live by auto
      next
        case keep
        let ?d2 = "(share_all q d1)\<lparr>dr_sched := (dr_sched (share_all q d1))\<lparr>sc_cache := fst x\<rparr>\<rparr>"
        have "drain_frame d ?d2" by (rule drain_frame_congI [OF f1]) (simp_all add: same_view_def)
        then have "drain_frame d d'" unfolding keep(2) using share_all_frame drain_frame_trans by blast
        then show ?thesis using rep nc live keep by auto
      next
        case plain
        then show ?thesis using f1 rep nc live by auto
      qed
    qed
  qed
  then show "drain_frame d d'"
    "dr_reply d' = dr_reply d \<or> (\<not> rq_chunked r \<and> rq_uid r \<notin> set (sc_finished (dr_sched d))
       \<and> (\<exists>reason m. dr_reply d' = dr_reply d @ [Detokenize (rq_uid r) tok reason m]
            \<and> (reason \<noteq> None \<longrightarrow> rq_uid r \<in> set (dr_new d') \<and> rq_uid r \<notin> set (map rq_uid (dr_running d')))))"
    by blast+
qed

fun is_token :: "int \<Rightarrow> reply \<Rightarrow> bool" where
  "is_token u (Detokenize v tok reason m) \<longleftrightarrow> v = u"
| "is_token u _ \<longleftrightarrow> False"

fun ends :: "int \<Rightarrow> reply \<Rightarrow> bool" where
  "ends u (Detokenize v tok reason m) \<longleftrightarrow> v = u \<and> reason \<noteq> None"
| "ends u (ErrorReply v e code) \<longleftrightarrow> v = u"
| "ends u (PromptAdmitted v n hit) \<longleftrightarrow> False"

text \<open>No token of \<open>u\<close> after a reply that ends \<open>u\<close>.\<close>

primrec silent_after_end :: "int \<Rightarrow> reply list \<Rightarrow> bool" where
  "silent_after_end u [] \<longleftrightarrow> True"
| "silent_after_end u (t # ts) \<longleftrightarrow> (ends u t \<longrightarrow> \<not> list_ex (is_token u) ts) \<and> silent_after_end u ts"

lemma silent_after_end_append:
  "silent_after_end u (xs @ ys) \<longleftrightarrow> silent_after_end u xs \<and> silent_after_end u ys
     \<and> (list_ex (ends u) xs \<longrightarrow> \<not> list_ex (is_token u) ys)"
  by (induction xs) auto

lemma no_token_silent: "\<not> list_ex (is_token u) xs \<Longrightarrow> silent_after_end u xs"
  by (induction xs) auto

lemma drain_reqs_frame:
  "drain_reqs ops tics cfg pf xs d = Some (Inr d') \<Longrightarrow> distinct (map (\<lambda>x. rq_uid (fst x)) xs) \<Longrightarrow>
    drain_frame d d' \<and> (\<exists>out. dr_reply d' = dr_reply d @ out \<and> silent_after_end u out
      \<and> (list_ex (is_token u) out \<longrightarrow> u \<notin> set (sc_finished (dr_sched d)) \<and> (\<exists>r \<in> fst ` set xs. rq_uid r = u \<and> \<not> rq_chunked r))
      \<and> (list_ex (ends u) out \<longrightarrow> list_ex (is_token u) out \<and> u \<in> set (dr_new d') \<and> u \<notin> set (map rq_uid (dr_running d'))))"
proof (induction xs arbitrary: tics d)
  case Nil
  then show ?case by (simp add: drain_frame_refl)
next
  case (Cons x xs)
  obtain d1 where d1: "drain_one ops (tics 0) (tics 1) cfg pf (fst x) (snd x) d = Some (Inr d1)"
    and d': "drain_reqs ops (\<lambda>k. tics (k + 2)) cfg pf xs d1 = Some (Inr d')"
    using Cons.prems(1) by auto
  note o = drain_one_frame [OF d1]
  from Cons.IH [OF d'] Cons.prems(2) obtain out where IH: "drain_frame d1 d'" "dr_reply d' = dr_reply d1 @ out" "silent_after_end u out"
      "list_ex (is_token u) out \<longrightarrow> u \<notin> set (sc_finished (dr_sched d1)) \<and> (\<exists>r \<in> fst ` set xs. rq_uid r = u \<and> \<not> rq_chunked r)"
      "list_ex (ends u) out \<longrightarrow> list_ex (is_token u) out \<and> u \<in> set (dr_new d') \<and> u \<notin> set (map rq_uid (dr_running d'))"
    by auto
  have fin: "sc_finished (dr_sched d1) = sc_finished (dr_sched d)" using o(1) by (simp add: drain_frame_def same_view_def)
  have frame: "drain_frame d d'" using drain_frame_trans [OF o(1) IH(1)] .
  from o(2) show ?case
  proof
    assume "dr_reply d1 = dr_reply d"
    then show ?thesis using IH(2-5) frame fin by auto
  next
    assume "\<not> rq_chunked (fst x) \<and> rq_uid (fst x) \<notin> set (sc_finished (dr_sched d))
       \<and> (\<exists>reason m. dr_reply d1 = dr_reply d @ [Detokenize (rq_uid (fst x)) (snd x) reason m]
            \<and> (reason \<noteq> None \<longrightarrow> rq_uid (fst x) \<in> set (dr_new d1) \<and> rq_uid (fst x) \<notin> set (map rq_uid (dr_running d1))))"
    then obtain reason m where x: "\<not> rq_chunked (fst x)" "rq_uid (fst x) \<notin> set (sc_finished (dr_sched d))"
      "dr_reply d1 = dr_reply d @ [Detokenize (rq_uid (fst x)) (snd x) reason m]"
      "reason \<noteq> None \<longrightarrow> rq_uid (fst x) \<in> set (dr_new d1) \<and> rq_uid (fst x) \<notin> set (map rq_uid (dr_running d1))"
      by blast
    let ?t = "Detokenize (rq_uid (fst x)) (snd x) reason m"
    have later: "\<not> list_ex (is_token u) out" if "rq_uid (fst x) = u"
    proof
      assume "list_ex (is_token u) out"
      then obtain y where "y \<in> set xs" "rq_uid (fst y) = u" using IH(4) by auto
      then have "u \<in> (\<lambda>x. rq_uid (fst x)) ` set xs" by (metis imageI)
      with Cons.prems(2) that show False by simp
    qed
    have sub: "set (map rq_uid (dr_running d')) \<subseteq> set (map rq_uid (dr_running d1))" "set (dr_new d1) \<subseteq> set (dr_new d')"
      using IH(1) unfolding drain_frame_def ids_uid by auto
    have out: "dr_reply d' = dr_reply d @ ?t # out" using x(3) IH(2) by simp
    have a: "silent_after_end u (?t # out)" using IH(3) later by auto
    have b: "list_ex (is_token u) (?t # out) \<longrightarrow> u \<notin> set (sc_finished (dr_sched d)) \<and> (\<exists>r \<in> fst ` set (x # xs). rq_uid r = u \<and> \<not> rq_chunked r)"
      using IH(4) x(1,2) fin by auto
    have c: "list_ex (ends u) (?t # out) \<longrightarrow> list_ex (is_token u) (?t # out) \<and> u \<in> set (dr_new d') \<and> u \<notin> set (map rq_uid (dr_running d'))"
      using IH(5) x(4) sub by auto
    show ?thesis using frame out a b c by blast
  qed
qed

text \<open>The whole drain: nothing but the pages and the decode set changes before the end, where
  \<open>finished_reqs\<close> becomes the set of the requests closed here.\<close>

lemma process_last_frame:
  assumes "process_last ops tics cfg toks (sc_last s) ongoing s = Some (Inr (s', ongoing', out))" "distinct (map rq_uid (flying s))"
  shows "sc_pending s' = sc_pending s" "sc_tombs s' = sc_tombs s" "sc_acks s' = sc_acks s"
    "set (ids (dm_running (sc_decode s'))) \<subseteq> set (ids (dm_running (sc_decode s)))"
    "distinct (running s) \<Longrightarrow> distinct (running s')"
    "ids (batch_reqs ongoing') = ids (batch_reqs ongoing)"
    "silent_after_end u out"
    "list_ex (is_token u) out \<Longrightarrow> u \<notin> set (sc_finished s) \<and> (\<exists>r \<in> set (flying s). rq_uid r = u \<and> \<not> rq_chunked r)"
    "list_ex (ends u) out \<Longrightarrow> list_ex (is_token u) out \<and> u \<in> set (sc_finished s') \<and> u \<notin> set (running s')"
proof -
  have "sc_pending s' = sc_pending s \<and> sc_tombs s' = sc_tombs s \<and> sc_acks s' = sc_acks s
    \<and> set (ids (dm_running (sc_decode s'))) \<subseteq> set (ids (dm_running (sc_decode s)))
    \<and> (distinct (running s) \<longrightarrow> distinct (running s')) \<and> ids (batch_reqs ongoing') = ids (batch_reqs ongoing) \<and> silent_after_end u out
    \<and> (list_ex (is_token u) out \<longrightarrow> u \<notin> set (sc_finished s) \<and> (\<exists>r \<in> set (flying s). rq_uid r = u \<and> \<not> rq_chunked r))
    \<and> (list_ex (ends u) out \<longrightarrow> list_ex (is_token u) out \<and> u \<in> set (sc_finished s') \<and> u \<notin> set (running s'))"
  proof (cases "sc_last s")
    case None
    then show ?thesis using assms(1) by (auto simp: process_last_def)
  next
    case (Some b)
    define d0 where "d0 = \<lparr>dr_sched = s\<lparr>sc_cache := enter_lazy (sc_cache s)\<rparr>, dr_ongoing = ongoing, dr_reply = [], dr_new = []\<rparr>"
    obtain d where d: "drain_reqs ops tics cfg (ba_phase b = phase.Prefill) (zip (ba_reqs b) toks) d0 = Some (Inr d)"
      and r: "s' = (dr_sched d)\<lparr>sc_cache := exit_lazy (sc_cache (dr_sched d)), sc_finished := dr_new d\<rparr>" "ongoing' = dr_ongoing d" "out = dr_reply d"
      using assms(1) unfolding process_last_def Some option.case d0_def [symmetric] by auto
    have fl: "flying s = ba_reqs b" using Some by (simp add: flying_def)
    have "distinct (map rq_uid (map fst (zip (ba_reqs b) toks)))"
      using assms(2) unfolding fl map_fst_zip_take by (simp add: take_map [symmetric])
    then have "distinct (map (\<lambda>x. rq_uid (fst x)) (zip (ba_reqs b) toks))" by (simp add: comp_def)
    from drain_reqs_frame [OF d this, of u] obtain o1 where f: "drain_frame d0 d" "dr_reply d = dr_reply d0 @ o1" "silent_after_end u o1"
      "list_ex (is_token u) o1 \<longrightarrow> u \<notin> set (sc_finished (dr_sched d0)) \<and> (\<exists>r \<in> fst ` set (zip (ba_reqs b) toks). rq_uid r = u \<and> \<not> rq_chunked r)"
      "list_ex (ends u) o1 \<longrightarrow> list_ex (is_token u) o1 \<and> u \<in> set (dr_new d) \<and> u \<notin> set (map rq_uid (dr_running d))"
      by blast
    have o1: "out = o1" using f(2) r(3) by (simp add: d0_def)
    have zips: "fst ` set (zip (ba_reqs b) toks) \<subseteq> set (flying s)" unfolding fl by (auto dest: set_zip_leftD)
    have fr: "same_view s (dr_sched d)" "set (ids (dr_running d)) \<subseteq> set (ids (dm_running (sc_decode s)))"
      "distinct (running s) \<longrightarrow> distinct (map rq_uid (dr_running d))" "ids (batch_reqs (dr_ongoing d)) = ids (batch_reqs ongoing)"
      using f(1) by (simp_all add: drain_frame_def d0_def same_view_def)
    show ?thesis using fr f(3-5) zips unfolding o1 r by (auto simp: same_view_def d0_def)
  qed
  then show "sc_pending s' = sc_pending s" "sc_tombs s' = sc_tombs s" "sc_acks s' = sc_acks s"
    "set (ids (dm_running (sc_decode s'))) \<subseteq> set (ids (dm_running (sc_decode s)))"
    "distinct (running s) \<Longrightarrow> distinct (running s')"
    "ids (batch_reqs ongoing') = ids (batch_reqs ongoing)"
    "silent_after_end u out"
    "list_ex (is_token u) out \<Longrightarrow> u \<notin> set (sc_finished s) \<and> (\<exists>r \<in> set (flying s). rq_uid r = u \<and> \<not> rq_chunked r)"
    "list_ex (ends u) out \<Longrightarrow> list_ex (is_token u) out \<and> u \<in> set (sc_finished s') \<and> u \<notin> set (running s')"
    by blast+
qed

section \<open>Messages\<close>

lemma abort_pending_uids: "map pd_uid (fst (abort_pending u wl)) = remove1 u (map pd_uid wl)"
  "set (fst (abort_pending u wl)) \<subseteq> set wl"
  "snd (abort_pending u wl) = Some c \<Longrightarrow> \<exists>p \<in> set wl. pd_uid p = u \<and> pd_chunked p = Some c"
  by (induction wl) (auto split: prod.splits if_splits)

lemma bury_keeps: "int (length ts) < tombstone_max \<Longrightarrow> set ts \<subseteq> set (bury u ts)" "length (bury u ts) \<le> Suc (length ts)"
  "int (length ts) < tombstone_max \<Longrightarrow> u \<in> set (bury u ts)"
  by (auto simp: bury_def Let_def)

definition shut :: "int set \<Rightarrow> int \<Rightarrow> ('c, 'h) sched \<Rightarrow> bool" where
  "shut seen u s \<longleftrightarrow> absent u s \<and> (u \<in> seen \<or> u \<in> set (sc_tombs s))"

definition msgs_inv :: "int set \<Rightarrow> ('c, 'h) sched \<Rightarrow> bool" where
  "msgs_inv seen s \<longleftrightarrow> uids_ok seen s \<and> flight_ok seen s (flying s) \<and> (\<forall>u \<in> set (sc_acks s). shut seen u s)"

lemma dm_abort_frame:
  assumes "dm_abort u d = (d', f)"
  shows "set (dm_running d') \<subseteq> set (dm_running d)" "distinct (map rq_uid (dm_running d)) \<Longrightarrow> distinct (map rq_uid (dm_running d'))"
    "u \<notin> rq_uid ` set (dm_running d')"
proof -
  have "set (dm_running d') \<subseteq> set (dm_running d) \<and> (distinct (map rq_uid (dm_running d)) \<longrightarrow> distinct (map rq_uid (dm_running d')))
    \<and> u \<notin> rq_uid ` set (dm_running d')"
  proof (cases "filter (\<lambda>r. rq_uid r = u) (dm_running d)")
    case Nil
    then show ?thesis using assms by (auto simp: dm_abort_def filter_empty_conv)
  next
    case (Cons r rs)
    then have "r \<in> set (filter (\<lambda>r. rq_uid r = u) (dm_running d))" by simp
    then have "rq_uid r = u" by simp
    moreover have "d' = remove_req r d" using assms Cons by (simp add: dm_abort_def)
    ultimately show ?thesis by (auto simp: remove_req_def distinct_map_filter)
  qed
  then show "set (dm_running d') \<subseteq> set (dm_running d)" "distinct (map rq_uid (dm_running d)) \<Longrightarrow> distinct (map rq_uid (dm_running d'))"
    "u \<notin> rq_uid ` set (dm_running d')" by blast+
qed

text \<open>What an abort leaves behind.\<close>

lemma abort_msg_frame:
  assumes "abort_msg ops tics u s = Some (Inr s')" "uids_ok seen s"
  shows "waiting s' = remove1 u (waiting s)" "set (sc_pending s') \<subseteq> set (sc_pending s)"
    "set (dm_running (sc_decode s')) \<subseteq> set (dm_running (sc_decode s))" "distinct (running s')" "u \<notin> set (running s')"
    "sc_finished s' = sc_finished s" "sc_tombs s' = bury u (sc_tombs s)" "sc_acks s' = List.insert u (sc_acks s)"
    "ids (flying s') = ids (flying s)"
proof -
  obtain wl w where wl: "abort_pending u (sc_pending s) = (wl, w)" by (cases "abort_pending u (sc_pending s)")
  obtain d f where df: "(case w of Some c \<Rightarrow> (sc_decode s, Some c) | None \<Rightarrow> dm_abort u (sc_decode s)) = (d, f)"
    by (cases "case w of Some c \<Rightarrow> (sc_decode s, Some c) | None \<Rightarrow> dm_abort u (sc_decode s)")
  define s1 where "s1 = s\<lparr>sc_tombs := bury u (sc_tombs s), sc_pending := wl, sc_decode := d\<rparr>"
  have run: "set (dm_running d) \<subseteq> set (dm_running (sc_decode s)) \<and> distinct (map rq_uid (dm_running d)) \<and> u \<notin> rq_uid ` set (dm_running d)"
  proof (cases w)
    case None
    then have "dm_abort u (sc_decode s) = (d, f)" using df by simp
    from dm_abort_frame [OF this] show ?thesis using assms(2) by (simp add: uids_ok_def)
  next
    case (Some c)
    then have "u \<in> set (waiting s)" using abort_pending_uids(3) [of u "sc_pending s" c] wl by auto
    then have "u \<notin> set (running s)" using assms(2) by (auto simp: uids_ok_def)
    then show ?thesis using df Some assms(2) by (auto simp: uids_ok_def)
  qed
  have s': "\<exists>m. same_view s1 m \<and> sc_decode m = d
      \<and> (s' = m\<lparr>sc_acks := List.insert u (sc_acks s)\<rparr>
         \<or> (\<exists>r. s' = s1\<lparr>sc_last := map_option (share_batch r) (sc_last s), sc_acks := List.insert u (sc_acks s)\<rparr>))"
  proof (cases f)
    case None
    then have "s' = s1\<lparr>sc_acks := List.insert u (sc_acks s)\<rparr>"
      using assms(1) unfolding abort_msg_def wl prod.case df by (simp add: Let_def s1_def)
    then show ?thesis by (intro exI [of _ s1]) (simp add: same_view_def s1_def)
  next
    case (Some r)
    show ?thesis
    proof (cases "in_flight r s1")
      case True
      then have "s' = s1\<lparr>sc_last := map_option (share_batch (r\<lparr>rq_aborted := True\<rparr>)) (sc_last s), sc_acks := List.insert u (sc_acks s)\<rparr>"
        using assms(1) unfolding abort_msg_def wl prod.case df Some by (simp add: Let_def s1_def)
      then show ?thesis by (intro exI [of _ s1]) (auto simp: same_view_def s1_def)
    next
      case False
      then obtain x where x: "free_req ops (tics 0) (tics 1) r s1 = Some (Inr x)"
        using assms(1) unfolding abort_msg_def wl prod.case df Some by (auto simp: Let_def s1_def)
      obtain m r' where q: "x = (m, r')" by (cases x)
      note fr = free_req_frame [OF x [unfolded q]]
      have "s' = m\<lparr>sc_acks := List.insert u (sc_acks m)\<rparr>"
        using assms(1) False x q unfolding abort_msg_def wl prod.case df Some by (simp add: Let_def s1_def)
      then show ?thesis using fr(1,2) by (intro exI [of _ m]) (auto simp: same_view_def s1_def)
    qed
  qed
  have w: "map pd_uid wl = remove1 u (waiting s)" "set wl \<subseteq> set (sc_pending s)" using abort_pending_uids(1,2) [of u "sc_pending s"] wl by auto
  have "sc_pending s' = wl \<and> sc_decode s' = d \<and> sc_finished s' = sc_finished s \<and> sc_tombs s' = bury u (sc_tombs s)
    \<and> sc_acks s' = List.insert u (sc_acks s) \<and> ids (flying s') = ids (flying s)"
    using s' by (auto simp: same_view_def s1_def flying_def split: option.split)
  then show "waiting s' = remove1 u (waiting s)" "set (sc_pending s') \<subseteq> set (sc_pending s)"
    "set (dm_running (sc_decode s')) \<subseteq> set (dm_running (sc_decode s))" "distinct (running s')" "u \<notin> set (running s')"
    "sc_finished s' = sc_finished s" "sc_tombs s' = bury u (sc_tombs s)" "sc_acks s' = List.insert u (sc_acks s)"
    "ids (flying s') = ids (flying s)"
    using run w by auto
qed

fun user_uids :: "msg \<Rightarrow> int list" where
  "user_uids (UserMsg uid p sp mm) = [uid]"
| "user_uids _ = []"

fun abort_uids :: "msg \<Rightarrow> int list" where
  "abort_uids (AbortMsg uid) = [uid]"
| "abort_uids _ = []"

lemma shut_abort:
  assumes "abort_msg ops tics u s = Some (Inr s')" "uids_ok seen s" "int (length (sc_tombs s)) < tombstone_max" "shut seen v s \<or> v = u"
  shows "shut seen v s'"
proof -
  note f = abort_msg_frame [OF assms(1,2)]
  have dw: "distinct (waiting s)" using assms(2) by (simp add: uids_ok_def)
  have run: "set (running s') \<subseteq> set (running s)" using f(3) by auto
  have wait: "set (waiting s') = set (waiting s) - {u}" unfolding f(1) using dw by (simp add: set_remove1_eq)
  have "absent v s'" using assms(4) run wait f(5) unfolding shut_def absent_def by auto
  moreover have "set (sc_tombs s) \<subseteq> set (sc_tombs s')" "u \<in> set (sc_tombs s')" using bury_keeps(1,3) [OF assms(3)] f(7) by simp_all
  ultimately show ?thesis using assms(4) unfolding shut_def by auto
qed

lemma abort_msg_inv:
  assumes "abort_msg ops tics u s = Some (Inr s')" "msgs_inv seen s" "int (length (sc_tombs s)) < tombstone_max"
  shows "msgs_inv seen s'"
proof -
  have ok: "uids_ok seen s" using assms(2) by (simp add: msgs_inv_def)
  note f = abort_msg_frame [OF assms(1) ok]
  have dw: "distinct (waiting s)" using ok by (simp add: uids_ok_def)
  have wait: "set (waiting s') \<subseteq> set (waiting s)" "distinct (waiting s')" unfolding f(1) using dw by (auto dest: notin_set_remove1 simp: set_remove1_eq)
  have run: "set (running s') \<subseteq> set (running s)" using f(3) by auto
  have "uids_ok seen s'" using ok wait run f(2-4) unfolding uids_ok_def by blast
  moreover have "flight_ok seen s' (flying s')"
  proof -
    have "flight_ok seen s' (flying s)" using assms(2) wait(1) flight_ok_less unfolding msgs_inv_def by blast
    then show ?thesis using flight_ok_cong [OF f(9) refl] by blast
  qed
  moreover have "\<forall>v \<in> set (sc_acks s'). shut seen v s'"
    using shut_abort [OF assms(1) ok assms(3)] assms(2) unfolding f(8) msgs_inv_def by auto
  ultimately show ?thesis by (simp add: msgs_inv_def)
qed

lemma user_msg_frame:
  assumes "user_msg cfg u p sp mm s = (s', out)"
  shows "sc_decode s' = sc_decode s" "sc_finished s' = sc_finished s" "sc_acks s' = sc_acks s" "sc_last s' = sc_last s"
    "u \<in> set (sc_tombs s) \<and> sc_tombs s' = remove1 u (sc_tombs s) \<and> sc_pending s' = sc_pending s \<and> out = []
     \<or> u \<notin> set (sc_tombs s) \<and> sc_tombs s' = sc_tombs s
       \<and> (sc_pending s' = sc_pending s \<and> (\<exists>e code. out = [ErrorReply u e code])
          \<or> (\<exists>x. sc_pending s' = sc_pending s @ [x] \<and> pd_uid x = u \<and> pd_chunked x = None) \<and> out = [])"
  using assms by (auto simp: user_msg_def add_pending_def Let_def split: if_splits)

lemma shut_user:
  assumes "user_msg cfg u p sp mm s = (s', out)" "u \<notin> seen" "shut seen v s"
  shows "shut (insert u seen) v s'"
proof -
  note f = user_msg_frame [OF assms(1)]
  have "v = u \<Longrightarrow> u \<in> set (sc_tombs s)" using assms(2,3) by (auto simp: shut_def)
  then show ?thesis using assms(3) f(1,5) by (auto simp: shut_def absent_def in_set_remove1)
qed

lemma user_msg_inv:
  assumes "user_msg cfg u p sp mm s = (s', out)" "u \<notin> seen" "msgs_inv seen s"
  shows "msgs_inv (insert u seen) s'"
proof -
  note f = user_msg_frame [OF assms(1)]
  have ok: "uids_ok seen s" "flight_ok seen s (flying s)" using assms(3) by (simp_all add: msgs_inv_def)
  have fresh: "u \<notin> set (waiting s)" "u \<notin> set (running s)" "u \<notin> rq_uid ` set (flying s)"
    using ok assms(2) by (auto simp: uids_ok_def flight_ok_def)
  have fl: "flying s' = flying s" using f(4) by (simp add: flying_def)
  consider "sc_pending s' = sc_pending s" | x where "sc_pending s' = sc_pending s @ [x]" "pd_uid x = u" "pd_chunked x = None"
    using f(5) by blast
  then have "uids_ok (insert u seen) s' \<and> flight_ok (insert u seen) s' (flying s')"
  proof cases
    case 1
    have "uids_ok seen s'" "flight_ok seen s' (flying s')"
      using uids_ok_cong [OF 1 f(1), of seen] ok flight_ok_cong [of "flying s'" "flying s" s' s seen] 1 fl by auto
    then show ?thesis by (auto simp: uids_ok_def flight_ok_def)
  next
    case 2
    show ?thesis
    proof
      show "uids_ok (insert u seen) s'" using ok(1) fresh 2 unfolding uids_ok_def f(1) by auto
      show "flight_ok (insert u seen) s' (flying s')" using ok(2) fresh 2 unfolding flight_ok_def fl by (auto simp: image_iff)
    qed
  qed
  moreover have "\<forall>v \<in> set (sc_acks s'). shut (insert u seen) v s'"
    using shut_user [OF assms(1,2)] assms(3) f(3) by (simp add: msgs_inv_def)
  ultimately show ?thesis by (simp add: msgs_inv_def)
qed

text \<open>A list of messages with fresh uids and room for its aborts.\<close>

definition fresh_msgs :: "int set \<Rightarrow> ('c, 'h) sched \<Rightarrow> msg list \<Rightarrow> bool" where
  "fresh_msgs seen s ms \<longleftrightarrow> distinct (concat (map user_uids ms)) \<and> set (concat (map user_uids ms)) \<inter> seen = {}
     \<and> int (length (sc_tombs s) + length (concat (map abort_uids ms))) \<le> tombstone_max"

lemma fresh_msgs_split:
  "fresh_msgs seen s (ms @ ms') \<Longrightarrow> length (sc_tombs s') \<le> length (sc_tombs s) + length (concat (map abort_uids ms))
    \<Longrightarrow> fresh_msgs (seen \<union> set (concat (map user_uids ms))) s' ms'"
  by (auto simp: fresh_msgs_def)

definition msg_post :: "int set \<Rightarrow> int set \<Rightarrow> ('c, 'h) sched \<Rightarrow> ('c, 'h) sched \<Rightarrow> reply list \<Rightarrow> nat \<Rightarrow> bool" where
  "msg_post seen new s s' out k \<longleftrightarrow> msgs_inv (seen \<union> new) s' \<and> (\<forall>v. shut seen v s \<longrightarrow> shut (seen \<union> new) v s')
     \<and> ids (flying s') = ids (flying s) \<and> sc_finished s' = sc_finished s \<and> length (sc_tombs s') \<le> length (sc_tombs s) + k
     \<and> (\<forall>v. \<not> list_ex (is_token v) out) \<and> (\<forall>v. list_ex (ends v) out \<longrightarrow> v \<in> new \<and> shut (seen \<union> new) v s')"

lemma process_msg_post:
  assumes "process_msg ops tics cfg m s = Some (Inr (s', out))" "msgs_inv seen s" "fresh_msgs seen s (m # ms)"
  shows "msg_post seen (set (user_uids m)) s s' out (length (abort_uids m))"
proof (cases m)
  case (UserMsg u p sp mm)
  have um: "user_msg cfg u p sp mm s = (s', out)" using assms(1) UserMsg by simp
  have u: "u \<notin> seen" using assms(3) UserMsg by (simp add: fresh_msgs_def)
  note f = user_msg_frame [OF um]
  have fl: "flying s' = flying s" using f(4) by (simp add: flying_def)
  have rej: "shut (insert u seen) v s'" if "list_ex (ends v) out" for v
  proof -
    have "v = u" "sc_pending s' = sc_pending s" using that f(5) by auto
    moreover have "absent u s" using assms(2) u by (auto simp: msgs_inv_def uids_ok_def absent_def)
    ultimately show ?thesis using f(1) by (simp add: shut_def absent_def)
  qed
  have "list_ex (ends v) out \<Longrightarrow> v = u" "\<not> list_ex (is_token v) out" for v using f(5) by auto
  moreover have "length (sc_tombs s') \<le> length (sc_tombs s)" using f(5) by (auto simp: length_remove1)
  ultimately show ?thesis
    using user_msg_inv [OF um u assms(2)] shut_user [OF um u] f(2) fl rej UserMsg by (simp add: msg_post_def)
next
  case (AbortMsg u)
  have ab: "abort_msg ops tics u s = Some (Inr s')" "out = []" using assms(1) AbortMsg by auto
  have room: "int (length (sc_tombs s)) < tombstone_max" using assms(3) AbortMsg by (simp add: fresh_msgs_def)
  have ok: "uids_ok seen s" using assms(2) by (simp add: msgs_inv_def)
  note f = abort_msg_frame [OF ab(1) ok]
  show ?thesis using abort_msg_inv [OF ab(1) assms(2) room] shut_abort [OF ab(1) ok room] f(6,7,9) bury_keeps(2) ab(2) AbortMsg
    by (simp add: msg_post_def)
next
  case (BatchMsg xs)
  with assms show ?thesis by (simp add: msg_post_def)
qed

lemma process_msgs_post:
  "process_msgs ops tics cfg ms s = Some (Inr (s', out)) \<Longrightarrow> msgs_inv seen s \<Longrightarrow> fresh_msgs seen s ms \<Longrightarrow>
    msg_post seen (set (concat (map user_uids ms))) s s' out (length (concat (map abort_uids ms)))"
proof (induction ms arbitrary: tics s seen out)
  case Nil
  then show ?case by (simp add: msg_post_def)
next
  case (Cons m ms)
  obtain x where x: "process_msg ops tics cfg m s = Some (Inr x)" using Cons.prems(1) unfolding process_msgs.simps obind_eq_ok by blast
  obtain s1 o1 where p: "x = (s1, o1)" by (cases x)
  obtain o2 where o2: "process_msgs ops (\<lambda>k. tics (k + 2)) cfg ms s1 = Some (Inr (s', o2))" "out = o1 @ o2"
    using Cons.prems(1) x p by auto
  have a: "msg_post seen (set (user_uids m)) s s1 o1 (length (abort_uids m))"
    using process_msg_post [OF x [unfolded p] Cons.prems(2,3)] .
  have "fresh_msgs (seen \<union> set (concat (map user_uids [m]))) s1 ms"
    using a Cons.prems(3) by (intro fresh_msgs_split [of seen s "[m]" ms]) (simp_all add: msg_post_def)
  then have fr: "fresh_msgs (seen \<union> set (user_uids m)) s1 ms" by simp
  have inv: "msgs_inv (seen \<union> set (user_uids m)) s1" using a by (simp add: msg_post_def)
  have b: "msg_post (seen \<union> set (user_uids m)) (set (concat (map user_uids ms))) s1 s' o2 (length (concat (map abort_uids ms)))"
    using Cons.IH [OF o2(1) inv fr] .
  have new: "seen \<union> set (concat (map user_uids (m # ms))) = seen \<union> set (user_uids m) \<union> set (concat (map user_uids ms))" by auto
  show ?case using a b unfolding msg_post_def new o2(2) by auto
qed

section \<open>One iteration of the overlapped loop\<close>

definition loop_inv :: "int set \<Rightarrow> ('c, 'h) sched \<Rightarrow> bool" where
  "loop_inv seen s \<longleftrightarrow> uids_ok seen s \<and> flight_ok seen s (flying s) \<and> sc_acks s = []"

text \<open>No later iteration answers \<open>u\<close> with a token.\<close>

definition silent :: "int set \<Rightarrow> int \<Rightarrow> ('c, 'h) sched \<Rightarrow> bool" where
  "silent seen u s \<longleftrightarrow> shut seen u s \<and> (u \<in> rq_uid ` set (flying s) \<longrightarrow> u \<in> set (sc_finished s))"

lemma ids_uid_set: "ids rs' = ids rs \<Longrightarrow> rq_uid ` set rs' = rq_uid ` set rs"
  by (metis ids_uid set_map)

lemma promise_no_token: "out = map (\<lambda>(uid, n, hit). PromptAdmitted uid n hit) ps \<Longrightarrow> \<not> list_ex (is_token u) out \<and> \<not> list_ex (ends u) out"
  by (induction ps arbitrary: out) auto

lemma flush_frame:
  assumes "flush_acks s = (s', out)"
  shows "s' = s\<lparr>sc_acks := []\<rparr>" "\<not> list_ex (is_token u) out" "list_ex (ends u) out \<Longrightarrow> u \<in> set (sc_acks s)"
  using assms by (auto simp: flush_acks_def list_ex_iff)

lemma overlap_parts:
  assumes "overlap_loop ops tics cfg ms toks s = Some (Inr (s', out))"
  obtains s1 o1 s2 ongoing o2 s3 ongoing' o3 o4 where
    "process_msgs ops (tics 0) cfg (concat (map flatten_msg ms)) s = Some (Inr (s1, o1))"
    "launch ops (tics 1) cfg s1 = Some (Inr (s2, ongoing, o2))"
    "process_last ops (tics 2) cfg toks (sc_last s2) ongoing s2 = Some (Inr (s3, ongoing', o3))"
    "flush_acks s3 = (s3\<lparr>sc_acks := []\<rparr>, o4)" "s' = s3\<lparr>sc_acks := [], sc_last := ongoing'\<rparr>" "out = o1 @ o2 @ o3 @ o4"
proof -
  obtain x where x: "process_msgs ops (tics 0) cfg (concat (map flatten_msg ms)) s = Some (Inr x)"
    using assms unfolding overlap_loop_def obind_eq_ok by blast
  obtain s1 o1 where x': "x = (s1, o1)" by (cases x)
  have a1: "obind (launch ops (tics 1) cfg s1) (\<lambda>(s, ongoing, out2).
        obind (process_last ops (tics 2) cfg toks (sc_last s) ongoing s) (\<lambda>(s, ongoing, out3).
          case flush_acks s of (s, out4) \<Rightarrow> Some (ok (s\<lparr>sc_last := ongoing\<rparr>, o1 @ out2 @ out3 @ out4)))) = Some (ok (s', out))"
    using assms unfolding overlap_loop_def x x' obind_simps prod.case .
  obtain y where y: "launch ops (tics 1) cfg s1 = Some (Inr y)" using a1 unfolding obind_eq_ok by blast
  obtain s2 ongoing o2 where y': "y = (s2, ongoing, o2)" by (cases y)
  have a2: "obind (process_last ops (tics 2) cfg toks (sc_last s2) ongoing s2) (\<lambda>(s, ongoing, out3).
          case flush_acks s of (s, out4) \<Rightarrow> Some (ok (s\<lparr>sc_last := ongoing\<rparr>, o1 @ o2 @ out3 @ out4))) = Some (ok (s', out))"
    using a1 unfolding y y' obind_simps prod.case .
  obtain z where z: "process_last ops (tics 2) cfg toks (sc_last s2) ongoing s2 = Some (Inr z)" using a2 unfolding obind_eq_ok by blast
  obtain s3 ongoing' o3 where z': "z = (s3, ongoing', o3)" by (cases z)
  obtain s4 o4 where f: "flush_acks s3 = (s4, o4)" by (cases "flush_acks s3")
  have "s' = s4\<lparr>sc_last := ongoing'\<rparr>" "out = o1 @ o2 @ o3 @ o4"
    using a2 unfolding z z' obind_simps prod.case f by simp_all
  then show thesis using that x y z f flush_frame(1) [OF f] unfolding x' y' z' by simp
qed

lemma overlap_step:
  assumes loop: "overlap_loop ops tics cfg ms toks s = Some (Inr (s', out))"
    and inv: "loop_inv seen s" and fresh: "fresh_msgs seen s (concat (map flatten_msg ms))"
  defines "new \<equiv> set (concat (map user_uids (concat (map flatten_msg ms))))"
  shows "loop_inv (seen \<union> new) s'"
    "length (sc_tombs s') \<le> length (sc_tombs s) + length (concat (map abort_uids (concat (map flatten_msg ms))))"
    "silent_after_end u out" "list_ex (ends u) out \<Longrightarrow> silent (seen \<union> new) u s'"
    "silent seen u s \<Longrightarrow> \<not> list_ex (is_token u) out \<and> silent (seen \<union> new) u s'"
proof -
  obtain s1 o1 s2 ongoing o2 s3 ongoing' o3 o4 where
    m: "process_msgs ops (tics 0) cfg (concat (map flatten_msg ms)) s = Some (Inr (s1, o1))"
    and l: "launch ops (tics 1) cfg s1 = Some (Inr (s2, ongoing, o2))"
    and p: "process_last ops (tics 2) cfg toks (sc_last s2) ongoing s2 = Some (Inr (s3, ongoing', o3))"
    and fl: "flush_acks s3 = (s3\<lparr>sc_acks := []\<rparr>, o4)" and s': "s' = s3\<lparr>sc_acks := [], sc_last := ongoing'\<rparr>"
    and out: "out = o1 @ o2 @ o3 @ o4"
    using overlap_parts [OF loop] by blast
  have "msgs_inv seen s" using inv by (simp add: loop_inv_def msgs_inv_def)
  then have post: "msg_post seen new s s1 o1 (length (concat (map abort_uids (concat (map flatten_msg ms)))))"
    unfolding new_def using process_msgs_post [OF m _ fresh] by blast
  have inv1: "uids_ok (seen \<union> new) s1" "flight_ok (seen \<union> new) s1 (flying s1)" "\<forall>v \<in> set (sc_acks s1). shut (seen \<union> new) v s1"
    using post by (simp_all add: msg_post_def msgs_inv_def)
  note b = launch_uids [OF inv1(1,2) l]
  have "distinct (map rq_uid (flying s2))" using b(2) by (simp add: flight_ok_def)
  note c = process_last_frame [OF p this]
  have wait: "waiting s' = waiting s2" using c(1) by (simp add: s')
  have run: "set (running s') \<subseteq> set (running s2)" using c(4) unfolding ids_uid s' by auto
  have fly: "ids (flying s') = ids (batch_reqs ongoing)" using c(6) by (simp add: s' flying_def batch_reqs_def)
  have tombs: "sc_tombs s' = sc_tombs s1" "sc_acks s3 = sc_acks s1" using c(2,3) b(6,7) by (simp_all add: s')
  have uok: "uids_ok (seen \<union> new) s'"
  proof -
    have "\<forall>r \<in> set (dm_running (sc_decode s')). \<not> rq_chunked r"
    proof
      fix r assume "r \<in> set (dm_running (sc_decode s'))"
      then have "(rq_uid r, rq_chunked r) \<in> set (ids (dm_running (sc_decode s2)))" using c(4) by (auto simp: s' ids_def)
      then show "\<not> rq_chunked r" using b(1) by (auto simp: ids_def uids_ok_def)
    qed
    moreover have "distinct (running s')" using c(5) b(1) by (simp add: s' uids_ok_def)
    moreover have "sc_pending s' = sc_pending s2" using c(1) by (simp add: s')
    moreover have "set (waiting s') \<inter> set (running s') = {} \<and> set (waiting s') \<union> set (running s') \<subseteq> seen \<union> new"
      using b(1) run unfolding uids_ok_def wait by blast
    ultimately show ?thesis using b(1) unfolding uids_ok_def wait by simp
  qed
  have "flight_ok (seen \<union> new) s' (flying s')" using flight_ok_cong [OF fly wait] b(3) by blast
  with uok show "loop_inv (seen \<union> new) s'" by (simp add: loop_inv_def s')
  show "length (sc_tombs s') \<le> length (sc_tombs s) + length (concat (map abort_uids (concat (map flatten_msg ms))))"
    unfolding tombs using post by (simp add: msg_post_def)
  have L: "silent (seen \<union> new) v s'" if "shut (seen \<union> new) v s1" for v
  proof -
    have ab: "absent v s2" "v \<notin> rq_uid ` set (batch_reqs ongoing)" using b(4) [of v] that by (auto simp: shut_def)
    have "absent v s'" using ab(1) run unfolding absent_def wait by blast
    then show ?thesis using that ab(2) unfolding silent_def shut_def tombs ids_uid_set [OF fly] by blast
  qed
  have fin: "sc_finished s2 = sc_finished s" "rq_uid ` set (flying s2) = rq_uid ` set (flying s)"
    using post b(5) ids_uid_set [OF b(8)] ids_uid_set [of "flying s1" "flying s"] by (simp_all add: msg_post_def)
  have t2: "\<not> list_ex (is_token v) o2 \<and> \<not> list_ex (ends v) o2" for v using b(9) promise_no_token by blast
  have t1: "\<not> list_ex (is_token v) o1" "list_ex (ends v) o1 \<Longrightarrow> v \<in> new \<and> shut (seen \<union> new) v s1" for v
    using post by (simp_all add: msg_post_def)
  have t3: "\<not> list_ex (is_token v) o3" if "v \<notin> rq_uid ` set (flying s) \<or> v \<in> set (sc_finished s)" for v
  proof
    assume a: "list_ex (is_token v) o3"
    have "v \<notin> set (sc_finished s2) \<and> (\<exists>r \<in> set (flying s2). rq_uid r = v)"
      using process_last_frame(8) [OF p \<open>distinct (map rq_uid (flying s2))\<close> a] by blast
    with that fin show False by (metis imageI)
  qed
  have t4: "\<not> list_ex (is_token v) o4" for v by (rule flush_frame(2) [OF fl])
  have new_fl: "v \<in> new \<Longrightarrow> v \<notin> rq_uid ` set (flying s)" for v
    using fresh inv unfolding fresh_msgs_def new_def loop_inv_def flight_ok_def by blast
  show "silent_after_end u out"
    unfolding out silent_after_end_append list_ex_append
    using no_token_silent [OF t1(1)] no_token_silent [OF t4] no_token_silent [of u o2] t2 c(7) t4 t1(2) [of u] t3 [of u] new_fl [of u] by blast
  show "silent (seen \<union> new) u s'" if "list_ex (ends u) out"
  proof -
    from that t2 consider "list_ex (ends u) o1" | "list_ex (ends u) o3" | "list_ex (ends u) o4" unfolding out by auto
    then show ?thesis
    proof cases
      case 1
      then show ?thesis using t1(2) L by blast
    next
      case 2
      have e: "list_ex (is_token u) o3" "u \<in> set (sc_finished s3)" "u \<notin> set (running s3)" using c(9) [OF 2] by blast+
      obtain r where r: "r \<in> set (flying s2)" "rq_uid r = u" "\<not> rq_chunked r" using c(8) [OF e(1)] by blast
      then have "u \<notin> set (waiting s2)" "u \<in> seen \<union> new" using b(2) by (auto simp: flight_ok_def)
      then show ?thesis using e(2,3) unfolding silent_def shut_def absent_def wait by (simp add: s')
    next
      case 3
      then have "u \<in> set (sc_acks s1)" using flush_frame(3) [OF fl] tombs(2) by simp
      then show ?thesis using inv1(3) L by blast
    qed
  qed
  show "\<not> list_ex (is_token u) out \<and> silent (seen \<union> new) u s'" if "silent seen u s"
  proof
    have "shut (seen \<union> new) u s1" using post that by (simp add: msg_post_def silent_def)
    then show "silent (seen \<union> new) u s'" by (rule L)
    show "\<not> list_ex (is_token u) out" unfolding out using t1(1) t2 t4 t3 [of u] that by (auto simp: silent_def)
  qed
qed

text \<open>Runs.\<close>

abbreviation run_msgs :: "(msg list \<times> int list) list \<Rightarrow> msg list" where
  "run_msgs xs \<equiv> concat (map (\<lambda>x. concat (map flatten_msg (fst x))) xs)"

lemma run_silent:
  "run_loop (overlap_loop ops tics cfg) xs s = Some (Inr (s', out)) \<Longrightarrow> loop_inv seen s \<Longrightarrow> fresh_msgs seen s (run_msgs xs) \<Longrightarrow>
    silent_after_end u out \<and> (silent seen u s \<longrightarrow> \<not> list_ex (is_token u) out)"
proof (induction xs arbitrary: s seen out)
  case Nil
  then show ?case by simp
next
  case (Cons x xs)
  obtain y where y: "overlap_loop ops tics cfg (fst x) (snd x) s = Some (Inr y)"
    using Cons.prems(1) unfolding run_loop.simps obind_eq_ok by blast
  obtain s1 o1 where y': "y = (s1, o1)" by (cases y)
  obtain o2 where o2: "run_loop (overlap_loop ops tics cfg) xs s1 = Some (Inr (s', o2))" "out = o1 @ o2"
    using Cons.prems(1) y y' by auto
  define ms where "ms = concat (map flatten_msg (fst x))"
  define new where "new = set (concat (map user_uids ms))"
  have fresh: "fresh_msgs seen s (ms @ run_msgs xs)" using Cons.prems(3) by (simp add: ms_def)
  then have fr: "fresh_msgs seen s ms" by (auto simp: fresh_msgs_def)
  note st = overlap_step [OF y [unfolded y'] Cons.prems(2) fr [unfolded ms_def], folded ms_def, folded new_def]
  have "fresh_msgs (seen \<union> new) s1 (run_msgs xs)"
    using fresh_msgs_split [OF fresh] st(2) unfolding new_def by blast
  from Cons.IH [OF o2(1) st(1) this] have IH: "silent_after_end u o2" "silent (seen \<union> new) u s1 \<longrightarrow> \<not> list_ex (is_token u) o2" by blast+
  show ?case unfolding o2(2) silent_after_end_append list_ex_append using IH st(3) [of u] st(4,5) [of u] by blast
qed

lemma sched_init_inv: "loop_inv {} (sched_init m n)"
  by (simp add: loop_inv_def uids_ok_def flight_ok_def flying_def sched_init_def)

text \<open>C5: An ended request stays silent. From the initial state, whatever messages arrive in whatever
  order, whatever is sampled and whatever the prefix cache does, no token for a request is sent after
  the reply that ends it: the last token, the refusal of a prompt that is too long, or the
  acknowledgement of an abort, even when the abort overtakes the request or finds it in the batch in
  flight. Uids must not be reused, and a run has at most 65,536 aborts.\<close>

theorem ended_request_silent:
  assumes "run_loop (overlap_loop ops tics cfg) xs (sched_init m n) = Some (Inr (s, out))"
    and "distinct (concat (map user_uids (run_msgs xs)))" "int (length (concat (map abort_uids (run_msgs xs)))) \<le> tombstone_max"
  shows "silent_after_end u out"
proof -
  have "fresh_msgs {} (sched_init m n) (run_msgs xs)"
    using assms(2,3) by (simp add: fresh_msgs_def sched_init_def)
  from run_silent [OF assms(1) sched_init_inv this] show ?thesis by blast
qed

section \<open>The length of an answer\<close>

definition budget_of :: "int \<Rightarrow> sampling_params" where
  "budget_of n = \<lparr>sp_temperature = 0, sp_top_k = -1, sp_top_p = 1, sp_ignore_eos = False, sp_max_tokens = n, sp_stop_strs = []\<rparr>"

definition plain_cfg :: sched_config where
  "plain_cfg = \<lparr>sk_max_seq = 100, sk_budget = 64, sk_eos = [2], sk_text = (\<lambda>_. [])\<rparr>"

definition plain_sched :: "(unit, unit) sched" where
  "plain_sched = sched_init (init_manager () 30 4 (\<lambda>_ _. 0)) 4"

definition replies_of :: "(('c, 'h) sched \<times> reply list) result option \<Rightarrow> reply list option" where
  "replies_of r = (case r of Some (Inr (s, out)) \<Rightarrow> Some out | _ \<Rightarrow> None)"

text \<open>A request for three tokens, no end-of-sequence token sampled.\<close>

definition three_tokens :: "(msg list \<times> int list) list" where
  "three_tokens = [([UserMsg 1 [7, 8, 9] (budget_of 3) False], [11]), ([], [12]), ([], [13]), ([], [14]), ([], [15])]"

text \<open>The overlapped loop, which is the default, answers a request for three tokens with two and
  the reason \<open>length\<close>; the normal loop answers with three. The drain reads \<open>can_decode\<close> after the next
  batch has been launched and has already advanced the shared request.\<close>

lemma overlap_drops_last_token:
  "replies_of (run_loop (overlap_loop naive_ops (\<lambda>_ _. 0) plain_cfg) three_tokens plain_sched) =
     Some [PromptAdmitted 1 3 0, Detokenize 1 12 None None, Detokenize 1 13 (Some Length) None] \<and>
   replies_of (run_loop (normal_loop naive_ops (\<lambda>_ _. 0) plain_cfg) three_tokens plain_sched) =
     Some [PromptAdmitted 1 3 0, Detokenize 1 11 None None, Detokenize 1 12 None None, Detokenize 1 13 (Some Length) None]"
  by code_simp

text \<open>An abort that finds its request in flight, then one that arrives before its request.\<close>

definition aborts :: "(msg list \<times> int list) list" where
  "aborts = [([UserMsg 1 [7, 8, 9] (budget_of 5) False, AbortMsg 2], []), ([BatchMsg [UserMsg 2 [5] (budget_of 5) False]], [12]),
     ([AbortMsg 1], [13]), ([], [14])]"

theorem ended_request_silent_witness:
  "\<exists>s out. run_loop (overlap_loop naive_ops (\<lambda>_ _. 0) plain_cfg) aborts plain_sched = Some (Inr (s, out)) \<and>
     out = [PromptAdmitted 1 3 0, ErrorReply 2 ''request aborted'' None, Detokenize 1 12 None None, ErrorReply 1 ''request aborted'' None] \<and>
     silent_after_end 1 out"
proof -
  have r: "replies_of (run_loop (overlap_loop naive_ops (\<lambda>_ _. 0) plain_cfg) aborts plain_sched) =
    Some [PromptAdmitted 1 3 0, ErrorReply 2 ''request aborted'' None, Detokenize 1 12 None None, ErrorReply 1 ''request aborted'' None]"
    by code_simp
  then obtain s out where s: "run_loop (overlap_loop naive_ops (\<lambda>_ _. 0) plain_cfg) aborts plain_sched = Some (Inr (s, out))"
    "out = [PromptAdmitted 1 3 0, ErrorReply 2 ''request aborted'' None, Detokenize 1 12 None None, ErrorReply 1 ''request aborted'' None]"
    by (auto simp: replies_of_def split: option.splits sum.splits)
  have "distinct (concat (map user_uids (run_msgs aborts)))" "int (length (concat (map abort_uids (run_msgs aborts)))) \<le> tombstone_max"
    by (simp_all add: aborts_def tombstone_max_def)
  from ended_request_silent [OF s(1) [unfolded plain_sched_def] this, of 1] s show ?thesis by blast
qed

end
