(* ===== verification/Steering.thy ===== *)
theory Steering
  imports Prelude
begin

text \<open>
  Messages to a running agent: \<open>ui/backend/app/steering.py\<close>. The two SQLite tables are a record; a
  call is one transaction under the module lock, so a run is a sequence of calls. The clock is an
  argument of every call. The events published to the console are not modelled.
\<close>

section \<open>The tables\<close>

record steer_row =
  st_id :: int
  st_project :: string
  st_objective :: "string option"
  st_agent :: string
  st_kind :: string
  st_text :: string
  st_source :: string
  st_exclude :: "string option"
  st_created :: time
  st_expires :: time
  st_cancelled :: "time option"

record delivery =
  de_steer :: int
  de_agent :: string
  de_record :: "string option"
  de_round :: "int option"
  de_at :: time

record steer_db =
  sd_steers :: "steer_row list"
  sd_next :: int
  sd_deliveries :: "delivery list"

definition empty_steers :: steer_db where
  "empty_steers = \<lparr>sd_steers = [], sd_next = 1, sd_deliveries = []\<rparr>"

section \<open>The calls\<close>

definition text_max :: nat where "text_max = 4000"

definition steer_add :: "time \<Rightarrow> string \<Rightarrow> string \<Rightarrow> string \<Rightarrow> string \<Rightarrow> string \<Rightarrow> string option \<Rightarrow> time \<Rightarrow> string option
    \<Rightarrow> steer_db \<Rightarrow> (steer_db \<times> steer_row) result" where
  "steer_add now project agent msg kind source objective ttl exclude db =
    (let body = py_strip msg; to = py_strip agent in
     if kind = ''steer'' \<and> body = [] then raise (ValueError ''a steering message needs text'')
     else if kind \<notin> {''steer'', ''wrap_up'', ''abort''} then raise (ValueError ''unknown kind'')
     else
       let row = \<lparr>st_id = sd_next db, st_project = project, st_objective = objective, st_agent = (if to = [] then ''*'' else to),
                  st_kind = kind, st_text = take text_max body, st_source = source, st_exclude = exclude, st_created = now,
                  st_expires = now + max 60 ttl, st_cancelled = None\<rparr>
       in ok (db\<lparr>sd_steers := sd_steers db @ [row], sd_next := sd_next db + 1\<rparr>, row))"

definition received :: "steer_db \<Rightarrow> string \<Rightarrow> int \<Rightarrow> bool" where
  "received db agent i \<longleftrightarrow> (\<exists>d \<in> set (sd_deliveries db). de_steer d = i \<and> de_agent d = agent)"

definition unread :: "time \<Rightarrow> string \<Rightarrow> string \<Rightarrow> string option \<Rightarrow> steer_db \<Rightarrow> steer_row \<Rightarrow> bool" where
  "unread now project agent objective db s \<longleftrightarrow>
     st_project s = project \<and> \<not> received db agent (st_id s) \<and> st_cancelled s = None \<and> st_expires s > now
     \<and> (st_agent s = agent \<or> st_agent s = ''*'')
     \<and> (st_objective s = None \<or> objective = None \<or> st_objective s = objective)"

definition stale :: "time option \<Rightarrow> string option \<Rightarrow> steer_row \<Rightarrow> bool" where
  "stale since model s \<longleftrightarrow>
     (st_agent s = ''*'' \<and> (case since of None \<Rightarrow> False | Some t \<Rightarrow> st_created s < t))
     \<or> (case (st_exclude s, model) of (Some e, Some m) \<Rightarrow> e \<noteq> [] \<and> m \<noteq> [] \<and> e = m | _ \<Rightarrow> False)"

text \<open>\<open>INSERT OR IGNORE\<close>: the primary key is the message and the agent.\<close>

definition mark :: "delivery \<Rightarrow> steer_db \<Rightarrow> steer_db" where
  "mark d db = (if received db (de_agent d) (de_steer d) then db else db\<lparr>sd_deliveries := sd_deliveries db @ [d]\<rparr>)"

definition delivery_of :: "time \<Rightarrow> string \<Rightarrow> bool \<Rightarrow> string option \<Rightarrow> int option \<Rightarrow> steer_row \<Rightarrow> delivery" where
  "delivery_of now agent skip rec_id rnd s =
    \<lparr>de_steer = st_id s, de_agent = agent, de_record = (if skip then None else rec_id),
     de_round = (if skip then None else rnd), de_at = now\<rparr>"

definition steer_take :: "time \<Rightarrow> string \<Rightarrow> string \<Rightarrow> string option \<Rightarrow> string option \<Rightarrow> time option \<Rightarrow> string option
    \<Rightarrow> int option \<Rightarrow> steer_db \<Rightarrow> steer_db \<times> steer_row list" where
  "steer_take now project agent model objective since rec_id rnd db =
    (let rows = filter (unread now project agent objective db) (sd_steers db) in
     (foldl (\<lambda>db s. mark (delivery_of now agent (stale since model s) rec_id rnd s) db) db rows,
      filter (\<lambda>s. \<not> stale since model s) rows))"

definition steer_cancel :: "time \<Rightarrow> int \<Rightarrow> steer_db \<Rightarrow> (steer_db \<times> steer_row) result" where
  "steer_cancel now i db =
    (case find (\<lambda>s. st_id s = i) (sd_steers db) of
       None \<Rightarrow> raise KeyError
     | Some s \<Rightarrow>
         if st_cancelled s = None then
           ok (db\<lparr>sd_steers := map (\<lambda>r. if st_id r = i then r\<lparr>st_cancelled := Some now\<rparr> else r) (sd_steers db)\<rparr>,
               s\<lparr>st_cancelled := Some now\<rparr>)
         else ok (db, s))"

definition steer_prune :: "time \<Rightarrow> time \<Rightarrow> steer_db \<Rightarrow> steer_db" where
  "steer_prune now older_than db =
    (let cutoff = now - older_than; gone = map st_id (filter (\<lambda>s. st_created s < cutoff) (sd_steers db)) in
     db\<lparr>sd_deliveries := filter (\<lambda>d. de_steer d \<notin> set gone) (sd_deliveries db),
        sd_steers := filter (\<lambda>s. \<not> st_created s < cutoff) (sd_steers db)\<rparr>)"

definition steer_recent :: "string \<Rightarrow> int \<Rightarrow> steer_db \<Rightarrow> (steer_row \<times> delivery list) list" where
  "steer_recent project limit db =
    (let rows = take (nat (max 1 (min limit 200))) (rev (filter (\<lambda>s. st_project s = project) (sd_steers db))) in
     map (\<lambda>s. (s, sort_key de_at (filter (\<lambda>d. de_steer d = st_id s \<and> de_record d \<noteq> None) (sd_deliveries db)))) rows)"

text \<open>Any sequence of calls, with the messages each call hands out.\<close>

datatype steer_op =
    Add time string string string string string "string option" time "string option"
  | Take time string string "string option" "string option" "time option" "string option" "int option"
  | Cancel time int
  | Prune time time

primrec steer_step :: "steer_op \<Rightarrow> steer_db \<Rightarrow> steer_db \<times> (int \<times> string) list" where
  "steer_step (Add now project agent msg kind source objective ttl exclude) db =
     (case steer_add now project agent msg kind source objective ttl exclude db of Inl _ \<Rightarrow> (db, []) | Inr (db', _) \<Rightarrow> (db', []))"
| "steer_step (Take now project agent model objective since rec_id rnd) db =
     (case steer_take now project agent model objective since rec_id rnd db of (db', out) \<Rightarrow> (db', map (\<lambda>s. (st_id s, agent)) out))"
| "steer_step (Cancel now i) db = (case steer_cancel now i db of Inl _ \<Rightarrow> (db, []) | Inr (db', _) \<Rightarrow> (db', []))"
| "steer_step (Prune now older_than) db = (steer_prune now older_than db, [])"

primrec steer_run :: "steer_op list \<Rightarrow> steer_db \<Rightarrow> steer_db \<times> (int \<times> string) list" where
  "steer_run [] db = (db, [])"
| "steer_run (c # cs) db = (case steer_step c db of (db1, out1) \<Rightarrow> case steer_run cs db1 of (db2, out2) \<Rightarrow> (db2, out1 @ out2))"

section \<open>Marks and the handed out messages\<close>

lemma received_mark: "received (mark d db) a i \<longleftrightarrow> received db a i \<or> (de_agent d = a \<and> de_steer d = i)"
  by (auto simp: mark_def received_def)

lemma mark_fields [simp]: "sd_steers (mark d db) = sd_steers db" "sd_next (mark d db) = sd_next db"
  by (simp_all add: mark_def)

lemma marks_fields [simp]:
  "sd_steers (foldl (\<lambda>db s. mark (f s) db) db rows) = sd_steers db"
  "sd_next (foldl (\<lambda>db s. mark (f s) db) db rows) = sd_next db"
  by (induction rows arbitrary: db) simp_all

lemma received_marks:
  "received (foldl (\<lambda>db s. mark (f s) db) db rows) a i \<longleftrightarrow> received db a i \<or> (\<exists>s \<in> set rows. de_agent (f s) = a \<and> de_steer (f s) = i)"
  by (induction rows arbitrary: db) (auto simp: received_mark)

lemma delivery_of_fields [simp]:
  "de_agent (delivery_of now agent skip r n s) = agent" "de_steer (delivery_of now agent skip r n s) = st_id s"
  by (simp_all add: delivery_of_def)

text \<open>Ids are unique and below the counter; \<open>out\<close> are the messages handed out so far: each is
  recorded as received as long as its row exists.\<close>

definition steer_inv :: "steer_db \<Rightarrow> (int \<times> string) list \<Rightarrow> bool" where
  "steer_inv db out \<longleftrightarrow> distinct (map st_id (sd_steers db)) \<and> (\<forall>s \<in> set (sd_steers db). st_id s < sd_next db)
     \<and> distinct out \<and> (\<forall>(i, a) \<in> set out. i < sd_next db \<and> (i \<in> st_id ` set (sd_steers db) \<longrightarrow> received db a i))"

lemma steer_inv_add:
  assumes "steer_inv db out" "steer_add now p a m k src obj ttl ex db = ok (db', row)"
  shows "steer_inv db' out"
proof -
  have d: "sd_steers db' = sd_steers db @ [row]" "sd_next db' = sd_next db + 1" "st_id row = sd_next db"
      "sd_deliveries db' = sd_deliveries db"
    using assms(2) by (auto simp: steer_add_def Let_def split: if_splits)
  have "received db' b i = received db b i" for b i using d(4) by (simp add: received_def)
  then show ?thesis using assms(1) d by (fastforce simp: steer_inv_def)
qed

lemma steer_inv_take:
  assumes "steer_inv db out" "steer_take now p a m obj since r n db = (db', rows)"
  shows "steer_inv db' (out @ map (\<lambda>s. (st_id s, a)) rows)"
proof -
  let ?un = "filter (unread now p a obj db) (sd_steers db)"
  have d: "sd_steers db' = sd_steers db" "sd_next db' = sd_next db" "rows = filter (\<lambda>s. \<not> stale since m s) ?un"
      "\<And>b i. received db' b i \<longleftrightarrow> received db b i \<or> (\<exists>s \<in> set ?un. b = a \<and> st_id s = i)"
    using assms(2) by (auto simp: steer_take_def Let_def received_marks)
  have "distinct (map (\<lambda>s. (st_id s, a)) rows)"
  proof -
    have "distinct (map st_id rows)" using assms(1) d(3) by (simp add: steer_inv_def distinct_map_filter)
    then show ?thesis by (auto simp: distinct_map inj_on_def)
  qed
  moreover have "(st_id s, a) \<notin> set out" if "s \<in> set rows" for s
    using that d(3) assms(1) by (fastforce simp: steer_inv_def unread_def)
  ultimately show ?thesis using assms(1) d by (fastforce simp: steer_inv_def)
qed

lemma steer_inv_cancel:
  assumes "steer_inv db out" "steer_cancel now i db = ok (db', row)"
  shows "steer_inv db' out"
proof -
  have "map st_id (sd_steers db') = map st_id (sd_steers db) \<and> sd_next db' = sd_next db \<and> sd_deliveries db' = sd_deliveries db"
    using assms(2) by (auto simp: steer_cancel_def split: option.splits if_splits)
  moreover from this have "st_id ` set (sd_steers db') = st_id ` set (sd_steers db)" by (metis list.set_map)
  moreover from calculation have "received db' = received db" by (simp add: fun_eq_iff received_def)
  moreover from calculation have "(\<forall>s \<in> set (sd_steers db'). st_id s < sd_next db) = (\<forall>s \<in> set (sd_steers db). st_id s < sd_next db)"
    by (metis (mono_tags, lifting) imageE imageI)
  ultimately show ?thesis using assms(1) by (simp add: steer_inv_def)
qed

lemma steer_inv_prune:
  assumes "steer_inv db out"
  shows "steer_inv (steer_prune now old db) out"
proof -
  let ?db = "steer_prune now old db" and ?gone = "st_id ` {s \<in> set (sd_steers db). st_created s < now - old}"
  have d: "sd_steers ?db = filter (\<lambda>s. \<not> st_created s < now - old) (sd_steers db)" "sd_next ?db = sd_next db"
      "\<And>a i. received ?db a i \<longleftrightarrow> received db a i \<and> i \<notin> ?gone"
    by (auto simp: steer_prune_def Let_def received_def)
  have "i \<notin> ?gone" if "i \<in> st_id ` set (sd_steers ?db)" for i
    using that d(1) assms distinct_map_row_eq [of st_id "sd_steers db"] by (fastforce simp: steer_inv_def)
  then show ?thesis using assms d by (fastforce simp: steer_inv_def distinct_map_filter)
qed

lemma steer_inv_step:
  assumes "steer_inv db out" "steer_step c db = (db', new)"
  shows "steer_inv db' (out @ new)"
proof (cases c)
  case (Add now p a m k src obj ttl ex)
  then show ?thesis using assms steer_inv_add [of db out now p a m k src obj ttl ex] by (auto split: sum.splits)
next
  case (Take now p a m obj since r n)
  then show ?thesis using assms steer_inv_take [of db out now p a m obj since r n] by (auto split: prod.splits)
next
  case (Cancel now i)
  then show ?thesis using assms steer_inv_cancel [of db out now i] by (auto split: sum.splits)
next
  case (Prune now old)
  then show ?thesis using assms steer_inv_prune by auto
qed

lemma steer_inv_run: "steer_run cs db = (db', new) \<Longrightarrow> steer_inv db out \<Longrightarrow> steer_inv db' (out @ new)"
proof (induction cs arbitrary: db out new)
  case (Cons c cs)
  obtain db1 o1 o2 where "steer_step c db = (db1, o1)" "steer_run cs db1 = (db', o2)" "new = o1 @ o2"
    using Cons.prems(1) by (auto split: prod.splits)
  then show ?case using Cons.IH [of db1 o2 "out @ o1"] steer_inv_step [OF Cons.prems(2)] by simp
qed simp

lemma steer_inv_init: "steer_inv empty_steers []"
  by (simp add: steer_inv_def empty_steers_def)

section \<open>Properties\<close>

text \<open>C19: over any sequence of calls, cancellations and prunings included, no agent is ever handed
  the same message twice.\<close>

theorem steer_delivered_once:
  "distinct (snd (steer_run cs empty_steers))"
  using steer_inv_run [of cs empty_steers _ _ "[]"] steer_inv_init by (cases "steer_run cs empty_steers") (auto simp: steer_inv_def)

text \<open>A call of take hands out exactly the messages of the project that are addressed to the
  agent or to all, fit its objective, are neither cancelled nor expired nor received before, and are
  not older broadcasts or news about its own model; every one of them, skipped ones included, is
  then received, so no later call hands it out.\<close>

theorem steer_take_exact:
  assumes "steer_take now project agent model objective since rec_id rnd db = (db', out)"
  shows "set out = {s \<in> set (sd_steers db). unread now project agent objective db s \<and> \<not> stale since model s}
    \<and> (\<forall>s \<in> set (sd_steers db). unread now project agent objective db s \<longrightarrow> received db' agent (st_id s))
    \<and> (\<forall>a i. received db a i \<longrightarrow> received db' a i)
    \<and> (\<forall>a i. a \<noteq> agent \<longrightarrow> received db' a i = received db a i)"
  using assms by (auto simp: steer_take_def Let_def received_marks)

definition demo_steers :: steer_db where
  "demo_steers = fst (steer_run [Add 100 ''p'' ''Muse'' '' stop '' ''steer'' ''operator'' None 7200 None,
     Add 100 ''p'' ''*'' ''news'' ''steer'' ''harness'' None 7200 None] empty_steers)"

theorem steer_take_exact_witness:
  "\<exists>db' out. steer_take 200 ''p'' ''Muse'' None None (Some 150) (Some ''r1'') (Some 3) demo_steers = (db', out)
    \<and> map st_text out = [''stop''] \<and> received db' ''Muse'' 2"
proof -
  obtain db' out where r: "steer_take 200 ''p'' ''Muse'' None None (Some 150) (Some ''r1'') (Some 3) demo_steers = (db', out)"
    by fastforce
  have out: "map st_text (snd (steer_take 200 ''p'' ''Muse'' None None (Some 150) (Some ''r1'') (Some 3) demo_steers)) = [''stop'']"
    by code_simp
  have two: "\<exists>s \<in> set (sd_steers demo_steers). st_id s = 2 \<and> unread 200 ''p'' ''Muse'' None demo_steers s" by code_simp
  show ?thesis using steer_take_exact [OF r] two out r by auto
qed

end
