(* ===== verification/TaskOAuth.thy ===== *)
theory TaskOAuth
  imports Prelude
begin

text \<open>
  The authorization server of a task server: \<open>mcp/taskkit/oauth.py\<close>, class \<open>TaskServerOAuth\<close>. The
  dictionaries and the token file are one record; random secrets and the clock are arguments of the
  calls. Hashing, signing and encoding come from the Python library: they are the functions of the
  record \<open>crypto\<close>, about which the lemmas state what they need. The HTML of the consent page, the
  command line that creates the secrets and file permissions are not modelled. An exchange that takes the lock
  twice, to pop the grant and to issue the tokens, is one step here: the popped grant is no longer visible to
  the calls that run in between, and the issue reads nothing that they write.
\<close>

section \<open>State\<close>

record payload =
  pl_jti :: string
  pl_cid :: string
  pl_scp :: "string list"
  pl_exp :: int
  pl_aud :: string
  pl_iat :: int

text \<open>\<open>cr_sha\<close>: hex digest; \<open>cr_mac\<close>: HMAC of a body under the server's key; \<open>cr_dump\<close>, \<open>cr_load\<close>: a
  payload as base64 of its JSON text and back; \<open>cr_pass\<close>: the scrypt hash of a passphrase. The two
  decoders give \<open>None\<close> where the library raises.\<close>

record crypto =
  cr_sha :: "string \<Rightarrow> string"
  cr_mac :: "string \<Rightarrow> string"
  cr_b64 :: "string \<Rightarrow> string"
  cr_unb64 :: "string \<Rightarrow> string option"
  cr_dump :: "payload \<Rightarrow> string"
  cr_load :: "string \<Rightarrow> payload option"
  cr_pass :: "string \<Rightarrow> string"

record auth_params =
  ap_scopes :: "string list option"
  ap_redirect :: string
  ap_state :: "string option"
  ap_challenge :: string
  ap_explicit :: bool
  ap_resource :: "string option"

record auth_code =
  ac_code :: string
  ac_scopes :: "string list"
  ac_expires :: time
  ac_client :: string
  ac_challenge :: string
  ac_redirect :: string

record refresh_row =
  rf_cid :: string
  rf_scp :: "string list"
  rf_exp :: time

record oauth =
  oa_resource :: string
  oa_client :: string
  oa_approval :: string
  oa_consents :: "(string \<times> time \<times> string \<times> auth_params) list"
  oa_codes :: "(string \<times> auth_code) list"
  oa_failures :: "time list"
  oa_refresh :: "(string \<times> refresh_row) list"
  oa_revoked :: "(string \<times> time) list"

definition access_ttl :: int where "access_ttl = 3600"
definition refresh_ttl :: int where "refresh_ttl = 30 * 86400"
definition code_ttl :: time where "code_ttl = 300"
definition consent_ttl :: time where "consent_ttl = 600"
definition max_failures :: nat where "max_failures = 5"
definition lockout_s :: time where "lockout_s = 600"
definition oauth_scope :: string where "oauth_scope = ''tasks''"

section \<open>Clients, consent and codes\<close>

text \<open>\<open>_store\<close>: the token file without its expired rows.\<close>

definition store :: "time \<Rightarrow> oauth \<Rightarrow> oauth" where
  "store now o1 = o1\<lparr>oa_refresh := filter (\<lambda>(h, r). rf_exp r > now) (oa_refresh o1),
                     oa_revoked := filter (\<lambda>(j, e). e > now) (oa_revoked o1)\<rparr>"

definition get_client :: "string \<Rightarrow> oauth \<Rightarrow> string option" where
  "get_client client_id o1 = (if client_id = oa_client o1 then Some client_id else None)"

definition register_client :: "oauth \<Rightarrow> oauth result" where
  "register_client o1 = raise NotImplementedError"

definition authorize :: "time \<Rightarrow> string \<Rightarrow> string \<Rightarrow> auth_params \<Rightarrow> oauth \<Rightarrow> oauth" where
  "authorize now tx client params o1 =
    o1\<lparr>oa_consents := AList.update tx (now + consent_ttl, client, params) (filter (\<lambda>(k, v). fst v > now) (oa_consents o1))\<rparr>"

datatype consent_answer =
    Denied string "string option"
  | Approved string string "string option"
  | Expired
  | LockedOut
  | WrongPassphrase

definition consent_submit :: "crypto \<Rightarrow> time \<Rightarrow> string \<Rightarrow> string \<Rightarrow> string \<Rightarrow> string \<Rightarrow> oauth \<Rightarrow> oauth \<times> consent_answer" where
  "consent_submit cr now tx passphrase decision code o1 =
    (case map_of (oa_consents o1) tx of
       None \<Rightarrow> (o1, Expired)
     | Some (expiry, client, params) \<Rightarrow>
         if expiry < now then (o1, Expired)
         else if decision \<noteq> ''approve'' then
           (o1\<lparr>oa_consents := AList.delete tx (oa_consents o1)\<rparr>, Denied (ap_redirect params) (ap_state params))
         else
           let o2 = o1\<lparr>oa_failures := filter (\<lambda>f. f > now - lockout_s) (oa_failures o1)\<rparr> in
           if length (oa_failures o2) \<ge> max_failures then (o2, LockedOut)
           else if oa_approval o2 \<noteq> cr_pass cr passphrase then
             (o2\<lparr>oa_failures := oa_failures o2 @ [now]\<rparr>, WrongPassphrase)
           else
             let codes = filter (\<lambda>(k, c). ac_expires c > now) (oa_codes o2);
                 c = \<lparr>ac_code = code, ac_scopes = (case ap_scopes params of None \<Rightarrow> [oauth_scope] | Some [] \<Rightarrow> [oauth_scope] | Some s \<Rightarrow> s),
                      ac_expires = now + code_ttl, ac_client = client, ac_challenge = ap_challenge params,
                      ac_redirect = ap_redirect params\<rparr>
             in (o2\<lparr>oa_consents := AList.delete tx (oa_consents o2), oa_codes := AList.update code c codes\<rparr>,
                 Approved (ap_redirect params) code (ap_state params)))"

definition load_code :: "time \<Rightarrow> string \<Rightarrow> string \<Rightarrow> oauth \<Rightarrow> auth_code option" where
  "load_code now client code o1 =
    (case map_of (oa_codes o1) code of
       None \<Rightarrow> None
     | Some c \<Rightarrow> if ac_client c \<noteq> client \<or> ac_expires c < now then None else Some c)"

section \<open>Tokens\<close>

definition dot :: string where "dot = ''.''"

definition access_token :: "crypto \<Rightarrow> payload \<Rightarrow> string" where
  "access_token cr p = (let body = cr_dump cr p in ''fsat'' @ dot @ body @ dot @ cr_b64 cr (cr_mac cr body))"

definition issue :: "crypto \<Rightarrow> time \<Rightarrow> string \<Rightarrow> string \<Rightarrow> string \<Rightarrow> string list \<Rightarrow> oauth \<Rightarrow> oauth \<times> string \<times> string" where
  "issue cr now jti refresh client scopes o1 =
    (let t = \<lfloor>now\<rfloor>;
         p = \<lparr>pl_jti = jti, pl_cid = client, pl_scp = scopes, pl_exp = t + access_ttl, pl_aud = oa_resource o1, pl_iat = t\<rparr>;
         s = store now o1
     in (s\<lparr>oa_refresh := AList.update (cr_sha cr refresh) \<lparr>rf_cid = client, rf_scp = scopes, rf_exp = of_int (t + refresh_ttl)\<rparr>
             (oa_refresh s)\<rparr>,
         access_token cr p, refresh))"

definition exchange_code :: "crypto \<Rightarrow> time \<Rightarrow> string \<Rightarrow> string \<Rightarrow> string \<Rightarrow> auth_code \<Rightarrow> oauth
    \<Rightarrow> (oauth \<times> string \<times> string) result" where
  "exchange_code cr now jti refresh client c o1 =
    (if map_of (oa_codes o1) (ac_code c) = None then raise (TokenError ''invalid_grant'')
     else ok (issue cr now jti refresh client (ac_scopes c) (o1\<lparr>oa_codes := AList.delete (ac_code c) (oa_codes o1)\<rparr>)))"

definition load_refresh :: "crypto \<Rightarrow> time \<Rightarrow> string \<Rightarrow> string \<Rightarrow> oauth \<Rightarrow> refresh_row option" where
  "load_refresh cr now client token o1 =
    (case map_of (oa_refresh (store now o1)) (cr_sha cr token) of
       None \<Rightarrow> None
     | Some r \<Rightarrow> if rf_cid r \<noteq> client then None else Some r)"

definition exchange_refresh :: "crypto \<Rightarrow> time \<Rightarrow> string \<Rightarrow> string \<Rightarrow> string \<Rightarrow> string \<Rightarrow> string list \<Rightarrow> string list \<Rightarrow> oauth
    \<Rightarrow> (oauth \<times> string \<times> string) result" where
  "exchange_refresh cr now jti refresh client token token_scopes scopes o1 =
    (let s = store now o1; h = cr_sha cr token in
     if map_of (oa_refresh s) h = None then raise (TokenError ''invalid_grant'')
     else ok (issue cr now jti refresh client (filter (\<lambda>x. x \<in> set token_scopes) (if scopes = [] then token_scopes else scopes))
                (s\<lparr>oa_refresh := AList.delete h (oa_refresh s)\<rparr>)))"

fun split_on :: "char \<Rightarrow> string \<Rightarrow> string list" where
  "split_on d [] = [[]]"
| "split_on d (c # cs) = (if c = d then [] # split_on d cs
     else (case split_on d cs of [] \<Rightarrow> [[c]] | w # ws \<Rightarrow> (c # w) # ws))"

text \<open>The checks of \<open>verify\<close> before it takes the lock.\<close>

definition verify_signed :: "crypto \<Rightarrow> time \<Rightarrow> string \<Rightarrow> string \<Rightarrow> payload option result" where
  "verify_signed cr now resource token =
    (case split_on (CHR ''.'') token of
       [prefix, body, sig] \<Rightarrow>
         if prefix \<noteq> ''fsat'' then ok None
         else (case cr_unb64 cr sig of
           None \<Rightarrow> raise (ValueError ''base64'')
         | Some got \<Rightarrow>
           if cr_mac cr body \<noteq> got then ok None
           else (case cr_load cr body of
                 None \<Rightarrow> raise (ValueError ''json'')
               | Some p \<Rightarrow> ok (if of_int (pl_exp p) < now \<or> pl_aud p \<noteq> resource then None else Some p)))
     | _ \<Rightarrow> ok None)"

text \<open>\<open>verify\<close>; \<open>held\<close> says whether the caller holds the lock, which is not reentrant.\<close>

definition verify :: "crypto \<Rightarrow> time \<Rightarrow> bool \<Rightarrow> string \<Rightarrow> oauth \<Rightarrow> payload option result" where
  "verify cr now held token o1 =
    rbind (verify_signed cr now (oa_resource o1) token) (\<lambda>r.
      case r of
        None \<Rightarrow> ok None
      | Some p \<Rightarrow>
          if held then raise Deadlock
          else ok (if pl_jti p \<in> fst ` set (oa_revoked (store now o1)) then None else Some p))"

definition load_access :: "crypto \<Rightarrow> time \<Rightarrow> string \<Rightarrow> oauth \<Rightarrow> (string \<times> string list \<times> int) option result" where
  "load_access cr now token o1 =
    rbind (verify cr now False token o1) (\<lambda>p. ok (map_option (\<lambda>p. (pl_cid p, pl_scp p, pl_exp p)) p))"

definition starts_with :: "string \<Rightarrow> string \<Rightarrow> bool" where
  "starts_with p s \<longleftrightarrow> take (length p) s = p"

definition revoke :: "crypto \<Rightarrow> time \<Rightarrow> string \<Rightarrow> oauth \<Rightarrow> oauth result" where
  "revoke cr now token o1 =
    (let s = store now o1; s = s\<lparr>oa_refresh := AList.delete (cr_sha cr token) (oa_refresh s)\<rparr> in
     rbind (if starts_with ''fsat.'' token then verify cr now True token o1 else ok None)
       (\<lambda>p. ok (case p of None \<Rightarrow> s | Some p \<Rightarrow> s\<lparr>oa_revoked := AList.update (pl_jti p) (of_int (pl_exp p)) (oa_revoked s)\<rparr>)))"

section \<open>Sequences of calls\<close>

text \<open>The calls that change the state, in the order in which they take the lock, each at the time it
  reads. \<open>oa_step\<close> gives the new state and, for a wrong passphrase, the time of the try; an exception
  leaves the state alone, and \<open>None\<close> is a call that never returns. Nothing runs after such a call,
  because it still holds the lock.\<close>

datatype oauth_call =
    Authorize string string auth_params
  | Consent string string string string
  | ExchangeCode string string string auth_code
  | ExchangeRefresh string string string string "string list" "string list"
  | Revoke string

definition settle :: "oauth \<Rightarrow> oauth result \<Rightarrow> (oauth \<times> time list) option" where
  "settle s r = (case r of Inr s' \<Rightarrow> Some (s', []) | Inl e \<Rightarrow> if e = Deadlock then None else Some (s, []))"

fun oa_step :: "crypto \<Rightarrow> time \<Rightarrow> oauth_call \<Rightarrow> oauth \<Rightarrow> (oauth \<times> time list) option" where
  "oa_step cr now (Authorize tx client params) s = Some (authorize now tx client params s, [])"
| "oa_step cr now (Consent tx pass decision code) s =
     (case consent_submit cr now tx pass decision code s of
        (s', answer) \<Rightarrow> Some (s', if answer = WrongPassphrase then [now] else []))"
| "oa_step cr now (ExchangeCode jti refresh client c) s =
     settle s (rbind (exchange_code cr now jti refresh client c s) (\<lambda>(s', _). ok s'))"
| "oa_step cr now (ExchangeRefresh jti refresh client token token_scopes scopes) s =
     settle s (rbind (exchange_refresh cr now jti refresh client token token_scopes scopes s) (\<lambda>(s', _). ok s'))"
| "oa_step cr now (Revoke token) s = settle s (revoke cr now token s)"

fun oa_run :: "crypto \<Rightarrow> (time \<times> oauth_call) list \<Rightarrow> oauth \<Rightarrow> oauth \<times> time list" where
  "oa_run cr [] s = (s, [])"
| "oa_run cr ((now, c) # cs) s =
     (case oa_step cr now c s of
        None \<Rightarrow> (s, [])
      | Some (s1, w) \<Rightarrow> (case oa_run cr cs s1 of (s2, ws) \<Rightarrow> (s2, w @ ws)))"

fun_cases consent_case: "oa_step cr now (Consent tx pass decision code) s = Some r"

text \<open>The codes and refresh tokens that a sequence of calls may issue.\<close>

fun new_code :: "oauth_call \<Rightarrow> string list" where
  "new_code (Consent tx pass decision code) = [code]"
| "new_code _ = []"

fun new_refresh :: "oauth_call \<Rightarrow> string list" where
  "new_refresh (ExchangeCode jti refresh client c) = [refresh]"
| "new_refresh (ExchangeRefresh jti refresh client token token_scopes scopes) = [refresh]"
| "new_refresh _ = []"

end
