(* ===== verification/OAuthProps.thy ===== *)
theory OAuthProps
  imports TaskOAuth
begin

text \<open>
  What the authorization server of a task server promises: approvals are throttled, a code and a
  refresh token are good for one use, an access token is accepted until it expires. One more theorem
  shows that revoking a live access token does not return.
\<close>

section \<open>The parts of the state that each call touches\<close>

lemma store_simps [simp]:
  "oa_resource (store now s) = oa_resource s" "oa_client (store now s) = oa_client s"
  "oa_approval (store now s) = oa_approval s" "oa_consents (store now s) = oa_consents s"
  "oa_codes (store now s) = oa_codes s" "oa_failures (store now s) = oa_failures s"
  "oa_refresh (store now s) = filter (\<lambda>(h, r). rf_exp r > now) (oa_refresh s)"
  "oa_revoked (store now s) = filter (\<lambda>(j, e). e > now) (oa_revoked s)"
  by (simp_all add: store_def)

lemma issue_simps [simp]:
  "oa_resource (fst (issue cr now jti refresh client scopes s)) = oa_resource s"
  "oa_codes (fst (issue cr now jti refresh client scopes s)) = oa_codes s"
  "oa_failures (fst (issue cr now jti refresh client scopes s)) = oa_failures s"
  "oa_revoked (fst (issue cr now jti refresh client scopes s)) = filter (\<lambda>(j, e). e > now) (oa_revoked s)"
  by (simp_all add: issue_def Let_def)

lemma fst_filter_subset: "fst ` set (filter P xs) \<subseteq> fst ` set xs"
  by auto

lemma issue_refresh_keys:
  "fst ` set (oa_refresh (fst (issue cr now jti refresh client scopes s))) \<subseteq> insert (cr_sha cr refresh) (fst ` set (oa_refresh s))"
  by (auto simp: issue_def Let_def dom_update)

lemma keys_delete: "fst ` set (AList.delete k xs) = fst ` set xs - {k}"
  by (metis delete_keys set_map set_removeAll)

lemma keys_delete_filter: "fst ` set (AList.delete k (filter P xs)) \<subseteq> fst ` set xs - {k}"
  using fst_filter_subset [of P xs] by (auto simp only: keys_delete)

lemma exchange_code_frame:
  assumes "exchange_code cr now jti refresh client c s = Inr (s', tok)"
  shows "oa_failures s' = oa_failures s" "oa_codes s' = AList.delete (ac_code c) (oa_codes s)"
    "fst ` set (oa_refresh s') \<subseteq> insert (cr_sha cr refresh) (fst ` set (oa_refresh s))"
    "map_of (oa_codes s) (ac_code c) \<noteq> None"
proof -
  define s1 where "s1 = s\<lparr>oa_codes := AList.delete (ac_code c) (oa_codes s)\<rparr>"
  have "s' = fst (issue cr now jti refresh client (ac_scopes c) s1)" "map_of (oa_codes s) (ac_code c) \<noteq> None"
    using assms by (auto simp: exchange_code_def s1_def split: if_splits dest: arg_cong [where f = fst])
  then show "oa_failures s' = oa_failures s" "oa_codes s' = AList.delete (ac_code c) (oa_codes s)"
    "fst ` set (oa_refresh s') \<subseteq> insert (cr_sha cr refresh) (fst ` set (oa_refresh s))"
    "map_of (oa_codes s) (ac_code c) \<noteq> None"
    using issue_refresh_keys [of cr now jti refresh client "ac_scopes c" s1] by (simp_all add: s1_def)
qed


lemma exchange_refresh_frame:
  assumes "exchange_refresh cr now jti refresh client token tsc scopes s = Inr (s', tok)"
  shows "oa_failures s' = oa_failures s" "oa_codes s' = oa_codes s"
    "fst ` set (oa_refresh s') \<subseteq> insert (cr_sha cr refresh) (fst ` set (oa_refresh s) - {cr_sha cr token})"
proof -
  define s1 where "s1 = (store now s)\<lparr>oa_refresh := AList.delete (cr_sha cr token) (oa_refresh (store now s))\<rparr>"
  have refresh1: "oa_refresh s1 = AList.delete (cr_sha cr token) (filter (\<lambda>(h, r). rf_exp r > now) (oa_refresh s))"
    by (simp add: s1_def)
  have s': "s' = fst (issue cr now jti refresh client (filter (\<lambda>x. x \<in> set tsc) (if scopes = [] then tsc else scopes)) s1)"
    using assms by (auto simp: exchange_refresh_def s1_def Let_def split: if_splits dest: arg_cong [where f = fst])
  show "oa_failures s' = oa_failures s" "oa_codes s' = oa_codes s"
    unfolding s' by (simp_all add: s1_def)
  have "fst ` set (oa_refresh s1) \<subseteq> fst ` set (oa_refresh s) - {cr_sha cr token}"
    unfolding refresh1 by (rule keys_delete_filter)
  then show "fst ` set (oa_refresh s') \<subseteq> insert (cr_sha cr refresh) (fst ` set (oa_refresh s) - {cr_sha cr token})"
    unfolding s' by (rule order_trans [OF issue_refresh_keys insert_mono])
qed

lemma settle_cases:
  assumes "settle s r = Some (s', w)"
  obtains "r = Inr s'" "w = []" | e where "r = Inl e" "s' = s" "w = []"
  using assms by (auto simp: settle_def split: sum.splits if_splits)

lemma settle_Inr: "settle s (rbind r (\<lambda>(s', _). ok s')) = Some (s', w) \<Longrightarrow> (w = [] \<and> s' = s) \<or> (w = [] \<and> (\<exists>tok. r = Inr (s', tok)))"
  by (cases r) (auto simp: settle_def split: if_splits)

lemma revoke_frame:
  assumes "revoke cr now token s = Inr s'"
  shows "oa_failures s' = oa_failures s" "oa_codes s' = oa_codes s"
    "fst ` set (oa_refresh s') \<subseteq> fst ` set (oa_refresh s)"
proof -
  define s1 where "s1 = (store now s)\<lparr>oa_refresh := AList.delete (cr_sha cr token) (oa_refresh (store now s))\<rparr>"
  have refresh1: "oa_refresh s1 = AList.delete (cr_sha cr token) (filter (\<lambda>(h, r). rf_exp r > now) (oa_refresh s))"
    by (simp add: s1_def)
  have "s' = s1 \<or> (\<exists>r. s' = s1\<lparr>oa_revoked := r\<rparr>)"
    using assms by (auto simp: revoke_def Let_def s1_def split: option.splits)
  moreover have "fst ` set (oa_refresh s1) \<subseteq> fst ` set (oa_refresh s)"
    unfolding refresh1 by (rule order_trans [OF keys_delete_filter Diff_subset])
  moreover have "oa_failures s1 = oa_failures s" "oa_codes s1 = oa_codes s" by (simp_all add: s1_def)
  ultimately show "oa_failures s' = oa_failures s" "oa_codes s' = oa_codes s"
    "fst ` set (oa_refresh s') \<subseteq> fst ` set (oa_refresh s)"
    by (metis oauth.select_convs(5,6,7) oauth.surjective oauth.update_convs(8))+
qed

section \<open>Approvals are throttled\<close>

lemma consent_codes:
  "fst ` set (oa_codes (fst (consent_submit cr now tx pass decision code s))) \<subseteq> insert code (fst ` set (oa_codes s))"
  by (auto simp: consent_submit_def Let_def dom_update split: option.splits)

lemma consent_refresh: "oa_refresh (fst (consent_submit cr now tx pass decision code s)) = oa_refresh s"
  by (auto simp: consent_submit_def Let_def split: option.splits)

text \<open>A consent form leaves the failures alone, prunes them, or adds one while fewer than five are
  recent.\<close>

lemma consent_failures:
  assumes "consent_submit cr now tx pass decision code s = (s', a)"
  defines "recent \<equiv> filter (\<lambda>f. f > now - lockout_s) (oa_failures s)"
  shows "(a = WrongPassphrase \<and> oa_failures s' = recent @ [now] \<and> length recent < max_failures) \<or>
         (a \<noteq> WrongPassphrase \<and> (oa_failures s' = recent \<or> oa_failures s' = oa_failures s))"
  using assms by (auto simp: consent_submit_def Let_def split: option.splits if_splits)

lemma consent_locked:
  assumes "map_of (oa_consents s) tx = Some (expiry, client, params)" "now \<le> expiry"
    and "max_failures \<le> length (filter (\<lambda>f. f > now - lockout_s) (oa_failures s))"
  shows "snd (consent_submit cr now tx pass ''approve'' code s) = LockedOut"
    and "oa_codes (fst (consent_submit cr now tx pass ''approve'' code s)) = oa_codes s"
  using assms by (simp_all add: consent_submit_def Let_def)

text \<open>What a state knows of the wrong tries \<open>ws\<close> so far.\<close>

definition tries_inv :: "time \<Rightarrow> time list \<Rightarrow> oauth \<Rightarrow> bool" where
  "tries_inv now ws s \<longleftrightarrow>
     filter (\<lambda>f. f > now - lockout_s) (oa_failures s) = filter (\<lambda>f. f > now - lockout_s) ws \<and>
     (\<forall>f \<in> set ws. f \<le> now) \<and>
     (\<forall>t. length (filter (\<lambda>f. t - lockout_s < f \<and> f \<le> t) ws) \<le> max_failures)"

lemma tries_later:
  assumes "tries_inv t0 ws s" "t0 \<le> now"
  shows "tries_inv now ws s"
proof -
  have later: "filter (\<lambda>f. f > now - lockout_s) xs = filter (\<lambda>f. f > now - lockout_s) (filter (\<lambda>f. f > t0 - lockout_s) xs)"
    for xs :: "time list"
    using assms(2) by (induction xs) auto
  have "filter (\<lambda>f. f > now - lockout_s) (oa_failures s) = filter (\<lambda>f. f > now - lockout_s) ws"
    unfolding later [of "oa_failures s"] later [of ws] using assms(1) by (simp add: tries_inv_def)
  with assms show ?thesis by (force simp: tries_inv_def)
qed

lemma tries_cong: "tries_inv now ws s \<Longrightarrow> oa_failures s' = oa_failures s \<Longrightarrow> tries_inv now ws s'"
  by (simp add: tries_inv_def)

lemma tries_pruned:
  "tries_inv now ws s \<Longrightarrow> oa_failures s' = filter (\<lambda>f. f > now - lockout_s) (oa_failures s) \<Longrightarrow> tries_inv now ws s'"
  by (simp add: tries_inv_def)

lemma tries_wrong:
  assumes inv: "tries_inv now ws s"
    and few: "length (filter (\<lambda>f. f > now - lockout_s) (oa_failures s)) < max_failures"
    and s': "oa_failures s' = filter (\<lambda>f. f > now - lockout_s) (oa_failures s) @ [now]"
  shows "tries_inv now (ws @ [now]) s'"
proof -
  have "length (filter (\<lambda>f. t - lockout_s < f \<and> f \<le> t) (ws @ [now])) \<le> max_failures" for t
  proof (cases "now \<le> t")
    case True
    have "filter (\<lambda>f. t - lockout_s < f \<and> f \<le> t) ws = filter (\<lambda>f. t - lockout_s < f \<and> f \<le> t) (filter (\<lambda>f. f > now - lockout_s) ws)"
      using True by (induction ws) auto
    then have "length (filter (\<lambda>f. t - lockout_s < f \<and> f \<le> t) ws) \<le> length (filter (\<lambda>f. f > now - lockout_s) ws)"
      by (metis length_filter_le)
    with few inv show ?thesis by (simp add: tries_inv_def)
  next
    case False
    with inv show ?thesis by (simp add: tries_inv_def)
  qed
  with inv s' show ?thesis by (auto simp: tries_inv_def lockout_s_def)
qed

lemma step_tries:
  assumes "tries_inv now ws s" "oa_step cr now c s = Some (s', w)"
  shows "tries_inv now (ws @ w) s'"
proof (cases c)
  case (Authorize tx client params)
  with assms show ?thesis by (auto simp: authorize_def intro: tries_cong)
next
  case (Consent tx pass decision code)
  then obtain a where a: "consent_submit cr now tx pass decision code s = (s', a)"
    and w: "w = (if a = WrongPassphrase then [now] else [])"
    using assms(2) by (auto split: prod.splits)
  from consent_failures [OF a] assms(1) w show ?thesis
    by (auto intro: tries_wrong tries_cong tries_pruned)
next
  case (ExchangeCode jti refresh client ac)
  with assms(2) settle_Inr exchange_code_frame(1) have "oa_failures s' = oa_failures s \<and> w = []" by fastforce
  with assms(1) show ?thesis by (auto intro: tries_cong)
next
  case (ExchangeRefresh jti refresh client token tsc scopes)
  with assms(2) settle_Inr exchange_refresh_frame(1) have "oa_failures s' = oa_failures s \<and> w = []" by fastforce
  with assms(1) show ?thesis by (auto intro: tries_cong)
next
  case (Revoke token)
  with assms(2) have "oa_failures s' = oa_failures s \<and> w = []"
    by (auto elim!: settle_cases dest: revoke_frame)
  with assms(1) show ?thesis by (auto intro: tries_cong)
qed

lemma run_tries:
  "tries_inv t0 ws s \<Longrightarrow> sorted (t0 # map fst cs) \<Longrightarrow> oa_run cr cs s = (s', w) \<Longrightarrow>
    length (filter (\<lambda>f. t - lockout_s < f \<and> f \<le> t) (ws @ w)) \<le> max_failures"
proof (induction cs arbitrary: t0 ws s w)
  case Nil
  then show ?case by (simp add: tries_inv_def)
next
  case (Cons x cs)
  obtain now c where x: "x = (now, c)" by (cases x)
  from Cons.prems x have inv: "tries_inv now ws s" by (auto intro: tries_later)
  show ?case
  proof (cases "oa_step cr now c s")
    case None
    with Cons.prems(3) x inv show ?thesis by (simp add: tries_inv_def)
  next
    case (Some r)
    obtain s1 w1 where r: "r = (s1, w1)" by (cases r)
    obtain w2 where w: "oa_run cr cs s1 = (s', w2)" "w = w1 @ w2"
      using Cons.prems(3) x Some r by (auto split: prod.splits)
    have "tries_inv now (ws @ w1) s1" using step_tries [OF inv] Some r by simp
    from Cons.IH [OF this _ w(1)] Cons.prems(2) x w(2) show ?thesis by simp
  qed
qed

section \<open>A concrete server, for the examples\<close>

definition payload0 :: payload where
  "payload0 = \<lparr>pl_jti = ''j'', pl_cid = ''cp'', pl_scp = [oauth_scope], pl_exp = 3600, pl_aud = ''mcp'', pl_iat = 0\<rparr>"

definition crypto0 :: crypto where
  "crypto0 = \<lparr>cr_sha = (\<lambda>x. ''h'' @ x), cr_mac = (\<lambda>b. ''m'' @ b), cr_b64 = (\<lambda>x. ''b'' @ x),
     cr_unb64 = (\<lambda>x. case x of [] \<Rightarrow> None | c # cs \<Rightarrow> Some cs), cr_dump = (\<lambda>p. pl_jti p @ ''-'' @ pl_cid p),
     cr_load = (\<lambda>x. if x = ''j-cp'' then Some payload0 else None), cr_pass = (\<lambda>x. ''p'' @ x)\<rparr>"

definition params0 :: auth_params where
  "params0 = \<lparr>ap_scopes = None, ap_redirect = ''cb'', ap_state = None, ap_challenge = ''ch'', ap_explicit = True, ap_resource = None\<rparr>"

definition code0 :: auth_code where
  "code0 = \<lparr>ac_code = ''k'', ac_scopes = [oauth_scope], ac_expires = 300, ac_client = ''cp'', ac_challenge = ''ch'', ac_redirect = ''cb''\<rparr>"

definition oauth0 :: oauth where
  "oauth0 = \<lparr>oa_resource = ''mcp'', oa_client = ''cp'', oa_approval = ''psesame'', oa_consents = [], oa_codes = [(''k'', code0)],
     oa_failures = [], oa_refresh = [(''hr0'', \<lparr>rf_cid = ''cp'', rf_scp = [oauth_scope], rf_exp = 1000\<rparr>)], oa_revoked = []\<rparr>"

definition guesses :: "(time \<times> oauth_call) list" where
  "guesses = (0, Authorize ''t'' ''cp'' params0) # map (\<lambda>t. (t, Consent ''t'' ''wrong'' ''approve'' ''c'')) [1, 2, 3, 4, 5, 6, 7]"

text \<open>C32: In any sequence of calls whose clock does not run backwards, no window of ten minutes
  contains more than five wrong passphrases: whoever guesses at the consent form is stopped after five
  tries, whatever other calls happen in between.\<close>

theorem approvals_throttled:
  assumes "oa_failures s = []" "sorted (map fst cs)" "oa_run cr cs s = (s', w)"
  shows "length (filter (\<lambda>f. t - lockout_s < f \<and> f \<le> t) w) \<le> max_failures"
proof (cases cs)
  case Nil
  with assms(3) show ?thesis by (simp add: max_failures_def)
next
  case (Cons x xs)
  have "tries_inv (fst x) [] s" using assms(1) by (simp add: tries_inv_def)
  from run_tries [OF this _ assms(3), of t] assms(2) Cons show ?thesis by simp
qed

lemma approvals_throttled_witness:
  "snd (oa_run crypto0 guesses oauth0) = [1, 2, 3, 4, 5] \<and>
   length (filter (\<lambda>f. 7 - lockout_s < f \<and> f \<le> 7) (snd (oa_run crypto0 guesses oauth0))) \<le> max_failures"
proof -
  have "oa_failures oauth0 = []" "sorted (map fst guesses)" by (code_simp, code_simp)
  from approvals_throttled [OF this prod.collapse [symmetric], where t = 7 and cr = crypto0]
  have "length (filter (\<lambda>f. 7 - lockout_s < f \<and> f \<le> 7) (snd (oa_run crypto0 guesses oauth0))) \<le> max_failures" .
  moreover have "snd (oa_run crypto0 guesses oauth0) = [1, 2, 3, 4, 5]" by code_simp
  ultimately show ?thesis by blast
qed

section \<open>Codes and refresh tokens are good for one use\<close>

lemma step_codes:
  assumes "oa_step cr now c s = Some (s', w)"
  shows "fst ` set (oa_codes s') \<subseteq> set (new_code c) \<union> fst ` set (oa_codes s)"
proof (cases c)
  case (Authorize tx client params)
  with assms show ?thesis by (auto simp: authorize_def)
next
  case (Consent tx pass decision code)
  with assms have "s' = fst (consent_submit cr now tx pass decision code s)" by (auto split: prod.splits)
  with Consent consent_codes [of cr now tx pass decision code s] show ?thesis by simp
next
  case (ExchangeCode jti refresh client ac)
  with assms have "s' = s \<or> (\<exists>tok. exchange_code cr now jti refresh client ac s = Inr (s', tok))"
    using settle_Inr by fastforce
  then have "fst ` set (oa_codes s') \<subseteq> fst ` set (oa_codes s)"
  proof
    assume "\<exists>tok. exchange_code cr now jti refresh client ac s = Inr (s', tok)"
    then obtain tok where "exchange_code cr now jti refresh client ac s = Inr (s', tok)" ..
    from exchange_code_frame(2) [OF this] show ?thesis by (simp only: keys_delete Diff_subset)
  qed simp
  then show ?thesis by blast
next
  case (ExchangeRefresh jti refresh client token tsc scopes)
  with assms have "oa_codes s' = oa_codes s" using settle_Inr exchange_refresh_frame(2) by fastforce
  then show ?thesis by simp
next
  case (Revoke token)
  with assms have "oa_codes s' = oa_codes s" by (auto elim!: settle_cases dest: revoke_frame(2))
  then show ?thesis by simp
qed

lemma step_refresh:
  assumes "oa_step cr now c s = Some (s', w)"
  shows "fst ` set (oa_refresh s') \<subseteq> cr_sha cr ` set (new_refresh c) \<union> fst ` set (oa_refresh s)"
proof (cases c)
  case (Authorize tx client params)
  with assms show ?thesis by (auto simp: authorize_def)
next
  case (Consent tx pass decision code)
  with assms have "s' = fst (consent_submit cr now tx pass decision code s)" by (auto split: prod.splits)
  then have "oa_refresh s' = oa_refresh s" by (simp only: consent_refresh)
  then show ?thesis by simp
next
  case (ExchangeCode jti refresh client ac)
  with assms have "s' = s \<or> (\<exists>tok. exchange_code cr now jti refresh client ac s = Inr (s', tok))"
    using settle_Inr by fastforce
  then have "fst ` set (oa_refresh s') \<subseteq> insert (cr_sha cr refresh) (fst ` set (oa_refresh s))"
    by (elim disjE exE) (blast, rule exchange_code_frame(3))
  then show ?thesis using ExchangeCode by simp
next
  case (ExchangeRefresh jti refresh client token tsc scopes)
  with assms have "s' = s \<or> (\<exists>tok. exchange_refresh cr now jti refresh client token tsc scopes s = Inr (s', tok))"
    using settle_Inr by fastforce
  then have "fst ` set (oa_refresh s') \<subseteq> insert (cr_sha cr refresh) (fst ` set (oa_refresh s))"
    by (elim disjE exE) (blast, rule order_trans [OF exchange_refresh_frame(3) insert_mono [OF Diff_subset]])
  then show ?thesis using ExchangeRefresh by simp
next
  case (Revoke token)
  with assms have "s' = s \<or> revoke cr now token s = Inr s'" by (auto elim!: settle_cases)
  then have "fst ` set (oa_refresh s') \<subseteq> fst ` set (oa_refresh s)" by (elim disjE) (simp, rule revoke_frame(3))
  then show ?thesis by blast
qed

lemma run_keeps_out:
  assumes "\<And>now c s s' w. oa_step cr now c s = Some (s', w) \<Longrightarrow> f s' \<subseteq> g c \<union> f s"
  shows "k \<notin> f s \<Longrightarrow> k \<notin> (\<Union>c \<in> set cs. g (snd c)) \<Longrightarrow> k \<notin> f (fst (oa_run cr cs s))"
proof (induction cs arbitrary: s)
  case (Cons x cs)
  obtain now c where x: "x = (now, c)" by (cases x)
  show ?case
  proof (cases "oa_step cr now c s")
    case (Some r)
    obtain s1 w1 where r: "r = (s1, w1)" by (cases r)
    with assms Some Cons.prems x have "k \<notin> f s1" by fastforce
    with Cons.IH Cons.prems(2) x Some r show ?thesis by (simp split: prod.splits) (metis fst_conv)
  qed (use x Cons.prems in simp)
qed simp

text \<open>C34: An authorization code is exchanged at most once: after a successful exchange, whatever calls
  follow, a second exchange of the same code raises the error, as long as the server does not draw the
  same random code again.\<close>

theorem code_single_use:
  assumes "exchange_code cr now jti refresh client c s = Inr (s', tok)"
    and "ac_code c \<notin> (\<Union>x \<in> set cs. set (new_code (snd x)))"
  shows "exchange_code cr now2 jti2 refresh2 client2 c (fst (oa_run cr cs s')) = raise (TokenError ''invalid_grant'')"
proof -
  have "ac_code c \<notin> fst ` set (oa_codes s')"
    by (simp only: exchange_code_frame(2) [OF assms(1)] keys_delete) simp
  from run_keeps_out [where f = "\<lambda>s. fst ` set (oa_codes s)" and g = "\<lambda>c. set (new_code c)" and cr = cr, OF _ this assms(2)]
  have "ac_code c \<notin> fst ` set (oa_codes (fst (oa_run cr cs s')))" by (simp add: step_codes)
  then show ?thesis by (simp add: exchange_code_def map_of_eq_None_iff)
qed

lemma code_single_use_witness:
  "\<exists>s' tok. exchange_code crypto0 10 ''j'' ''r1'' ''cp'' code0 oauth0 = Inr (s', tok) \<and>
     exchange_code crypto0 30 ''j2'' ''r2'' ''cp'' code0 (fst (oa_run crypto0 [(20, Revoke ''r1'')] s')) = raise (TokenError ''invalid_grant'')"
proof -
  have "is_ok (exchange_code crypto0 10 ''j'' ''r1'' ''cp'' code0 oauth0)" by code_simp
  then obtain s' tok where ex: "exchange_code crypto0 10 ''j'' ''r1'' ''cp'' code0 oauth0 = Inr (s', tok)"
    by (auto simp: is_ok_def split: sum.splits)
  from code_single_use [OF ex, where cs = "[(20, Revoke ''r1'')]"] ex show ?thesis by simp
qed

text \<open>C35: A refresh token dies when it is used: after a successful exchange, whatever calls follow, the
  same token neither loads nor can be exchanged again, as long as no newly drawn token has the same
  hash.\<close>

theorem refresh_rotates:
  assumes "exchange_refresh cr now jti refresh client token tsc scopes s = Inr (s', tok)"
    and "cr_sha cr token \<noteq> cr_sha cr refresh"
    and "cr_sha cr token \<notin> (\<Union>x \<in> set cs. cr_sha cr ` set (new_refresh (snd x)))"
  shows "load_refresh cr now2 client2 token (fst (oa_run cr cs s')) = None \<and>
    exchange_refresh cr now2 jti2 refresh2 client2 token tsc2 scopes2 (fst (oa_run cr cs s')) = raise (TokenError ''invalid_grant'')"
proof -
  let ?s = "fst (oa_run cr cs s')"
  have "cr_sha cr token \<notin> fst ` set (oa_refresh s')"
    using exchange_refresh_frame(3) [OF assms(1)] assms(2) by blast
  from run_keeps_out [where f = "\<lambda>s. fst ` set (oa_refresh s)" and g = "\<lambda>c. cr_sha cr ` set (new_refresh c)" and cr = cr, OF _ this assms(3)]
  have "cr_sha cr token \<notin> fst ` set (oa_refresh ?s)" by (simp add: step_refresh)
  then have "map_of (oa_refresh (store now2 ?s)) (cr_sha cr token) = None"
    using fst_filter_subset [of _ "oa_refresh ?s"] by (simp only: map_of_eq_None_iff store_simps) blast
  then show ?thesis by (simp add: load_refresh_def exchange_refresh_def Let_def)
qed

lemma refresh_rotates_witness:
  "\<exists>s' tok. exchange_refresh crypto0 10 ''j'' ''r1'' ''cp'' ''r0'' [oauth_scope] [] oauth0 = Inr (s', tok) \<and>
     load_refresh crypto0 30 ''cp'' ''r0'' (fst (oa_run crypto0 [(20, ExchangeCode ''j2'' ''r2'' ''cp'' code0)] s')) = None"
proof -
  have "is_ok (exchange_refresh crypto0 10 ''j'' ''r1'' ''cp'' ''r0'' [oauth_scope] [] oauth0)" by code_simp
  then obtain s' tok where ex: "exchange_refresh crypto0 10 ''j'' ''r1'' ''cp'' ''r0'' [oauth_scope] [] oauth0 = Inr (s', tok)"
    by (auto simp: is_ok_def split: sum.splits)
  from refresh_rotates [OF ex, where cs = "[(20, ExchangeCode ''j2'' ''r2'' ''cp'' code0)]"] ex show ?thesis
    by (simp add: crypto0_def)
qed

section \<open>Access tokens\<close>

lemma split_on_plain: "d \<notin> set w \<Longrightarrow> split_on d w = [w]"
  by (induction w) auto

lemma split_on_field: "d \<notin> set w \<Longrightarrow> split_on d (w @ d # rest) = w # split_on d rest"
proof (induction w)
  case (Cons c w)
  then show ?case by (cases "split_on d rest") auto
qed simp

text \<open>What the token format relies on: a signed body decodes to what was encoded, and neither base64
  text has a dot in it.\<close>

definition encodes :: "crypto \<Rightarrow> payload \<Rightarrow> bool" where
  "encodes cr p \<longleftrightarrow>
     (let body = cr_dump cr p; sig = cr_b64 cr (cr_mac cr body) in
      cr_load cr body = Some p \<and> cr_unb64 cr sig = Some (cr_mac cr body) \<and> CHR ''.'' \<notin> set body \<and> CHR ''.'' \<notin> set sig)"

lemma verify_signed_issued:
  assumes "encodes cr p"
  shows "verify_signed cr now resource (access_token cr p) =
    ok (if of_int (pl_exp p) < now \<or> pl_aud p \<noteq> resource then None else Some p)"
proof -
  let ?b = "cr_dump cr p"
  let ?g = "cr_b64 cr (cr_mac cr ?b)"
  have "access_token cr p = ''fsat'' @ CHR ''.'' # ?b @ CHR ''.'' # ?g"
    by (simp add: access_token_def dot_def Let_def)
  moreover have "split_on (CHR ''.'') \<dots> = [''fsat'', ?b, ?g]"
    using assms by (subst split_on_field) (simp_all add: split_on_field split_on_plain encodes_def Let_def)
  ultimately show ?thesis using assms by (simp add: verify_signed_def encodes_def Let_def)
qed

definition issued :: "crypto \<Rightarrow> time \<Rightarrow> string \<Rightarrow> string \<Rightarrow> string list \<Rightarrow> oauth \<Rightarrow> payload" where
  "issued cr now jti client scopes s =
    \<lparr>pl_jti = jti, pl_cid = client, pl_scp = scopes, pl_exp = \<lfloor>now\<rfloor> + access_ttl, pl_aud = oa_resource s, pl_iat = \<lfloor>now\<rfloor>\<rparr>"

lemma issue_token: "fst (snd (issue cr now jti refresh client scopes s)) = access_token cr (issued cr now jti client scopes s)"
  by (simp add: issue_def issued_def Let_def)

text \<open>The access token that the server issues is the one it accepts: at any later state of the
  same server the token loads, with the client, the scopes and the expiry of its issue, until its hour
  is over or it is on the revocation list.\<close>

theorem access_token_roundtrip:
  assumes "issue cr now jti refresh client scopes s = (s1, access, r)"
    and "encodes cr (issued cr now jti client scopes s)"
    and "oa_resource s2 = oa_resource s"
  shows "load_access cr now2 access s2 =
    ok (if of_int (\<lfloor>now\<rfloor> + access_ttl) < now2 \<or> (\<exists>e > now2. (jti, e) \<in> set (oa_revoked s2)) then None
        else Some (client, scopes, \<lfloor>now\<rfloor> + access_ttl))"
proof -
  have access: "access = access_token cr (issued cr now jti client scopes s)"
    using issue_token [of cr now jti refresh client scopes s] assms(1) by simp
  show ?thesis
    unfolding load_access_def verify_def access verify_signed_issued [OF assms(2)]
    by (auto simp: issued_def assms(3) image_iff)
qed

lemma issue0: "issue crypto0 0 ''j'' ''r'' ''cp'' [oauth_scope] oauth0
    = (fst (issue crypto0 0 ''j'' ''r'' ''cp'' [oauth_scope] oauth0), ''fsat.j-cp.bmj-cp'', ''r'')"
  by (simp add: issue_def access_token_def crypto0_def dot_def Let_def)

lemma encodes0: "encodes crypto0 (issued crypto0 0 ''j'' ''cp'' [oauth_scope] oauth0)"
  by (simp add: encodes_def issued_def crypto0_def payload0_def oauth0_def access_ttl_def Let_def)

lemma access_token_roundtrip_witness:
  "load_access crypto0 100 ''fsat.j-cp.bmj-cp'' oauth0 = ok (Some (''cp'', [oauth_scope], 3600))"
  using access_token_roundtrip [where ?now2.0 = 100, OF issue0 encodes0 refl] by (simp add: access_ttl_def oauth0_def)

text \<open>Revoking a live access token never returns: \<open>revoke_token\<close> holds the lock and calls \<open>verify\<close>,
  which waits for the same lock; the server is stuck from then on.\<close>

theorem revoke_access_deadlocks:
  assumes "issue cr now jti refresh client scopes s = (s1, access, r)"
    and "encodes cr (issued cr now jti client scopes s)"
    and "oa_resource s2 = oa_resource s" "now2 \<le> of_int (\<lfloor>now\<rfloor> + access_ttl)"
  shows "revoke cr now2 access s2 = raise Deadlock \<and> oa_run cr ((now2, Revoke access) # cs) s2 = (s2, [])"
proof -
  have access: "access = access_token cr (issued cr now jti client scopes s)"
    using issue_token [of cr now jti refresh client scopes s] assms(1) by simp
  have fsat: "starts_with ''fsat.'' access" by (simp add: access access_token_def dot_def Let_def starts_with_def)
  have "verify cr now2 True access s2 = raise Deadlock"
    unfolding verify_def access verify_signed_issued [OF assms(2)] using assms(3,4) by (simp add: issued_def not_less)
  with fsat have "revoke cr now2 access s2 = raise Deadlock" by (simp add: revoke_def Let_def)
  then show ?thesis by (simp add: settle_def)
qed

lemma revoke_access_deadlocks_witness: "revoke crypto0 100 ''fsat.j-cp.bmj-cp'' oauth0 = raise Deadlock"
  using revoke_access_deadlocks [where ?now2.0 = 100, OF issue0 encodes0 refl] by (simp add: access_ttl_def)

end
