(* ===== verification/LogFollow.thy ===== *)
theory LogFollow
  imports Prelude
begin

text \<open>
  The log of a serve as the daemon keeps it: \<open>daemon/logfmt.py\<close> turns the output stream into lines,
  \<open>daemon/tailer.py\<close> follows the file and throttles redraws, \<open>daemon/logring.py\<close> keeps the last records
  under all-time numbers; \<open>server/request_ring.py\<close> keeps the last API requests the same way, with a
  limit per poll. The decoding of bytes, the file and the threads are not modelled; a subscriber of a
  ring is a number, and the records pushed to it are part of the result of \<open>append\<close>.
\<close>

section \<open>Lines (logfmt.py)\<close>

definition nl :: char where "nl = CHR 0x0A"
definition cr :: char where "cr = CHR 0x0D"
definition esc :: char where "esc = CHR 0x1B"

definition in_range :: "nat \<Rightarrow> nat \<Rightarrow> char \<Rightarrow> bool" where
  "in_range a b c \<longleftrightarrow> a \<le> of_char c \<and> of_char c \<le> (b :: nat)"

text \<open>The length of an escape sequence after the \<open>ESC\<close>, 0 if there is none. The three classes of a
  control sequence are disjoint, so the expression matches in one way.\<close>

definition escape_len :: "string \<Rightarrow> nat" where
  "escape_len s = (case s of
      [] \<Rightarrow> 0
    | c # rest \<Rightarrow>
        if in_range 0x40 0x5A c \<or> in_range 0x5C 0x5F c then 1
        else if c = CHR ''['' then
          let params = takeWhile (in_range 0x30 0x3F) rest;
              inter = takeWhile (in_range 0x20 0x2F) (drop (length params) rest);
              n = length params + length inter in
          if n < length rest \<and> in_range 0x40 0x7E (rest ! n) then 2 + n else 0
        else 0)"

function strip_ansi :: "string \<Rightarrow> string" where
  "strip_ansi [] = []"
| "strip_ansi (c # s) = (if c = esc \<and> 0 < escape_len s then strip_ansi (drop (escape_len s) s) else c # strip_ansi s)"
  by pat_completeness auto
termination by (relation "measure length") auto

datatype event_kind = Line | Partial

record assembler =
  as_cur :: string
  as_cr :: bool

definition assembler_init :: assembler where
  "assembler_init = \<lparr>as_cur = [], as_cr = False\<rparr>"

definition feed_char :: "char \<Rightarrow> assembler \<Rightarrow> assembler \<times> (event_kind \<times> string) list" where
  "feed_char c a =
    (if c = cr then (a\<lparr>as_cr := True\<rparr>, [])
     else if as_cr a then
       (if c = nl then (a\<lparr>as_cr := False, as_cur := []\<rparr>, [(Line, as_cur a)])
        else (a\<lparr>as_cr := False, as_cur := [c]\<rparr>, [(Partial, as_cur a)]))
     else if c = nl then (a\<lparr>as_cur := []\<rparr>, [(Line, as_cur a)])
     else (a\<lparr>as_cur := as_cur a @ [c]\<rparr>, []))"

primrec feed :: "string \<Rightarrow> assembler \<Rightarrow> assembler \<times> (event_kind \<times> string) list" where
  "feed [] a = (a, [])"
| "feed (c # cs) a = (case feed_char c a of (a, out) \<Rightarrow> case feed cs a of (a, out') \<Rightarrow> (a, out @ out'))"

definition flush :: "assembler \<Rightarrow> assembler \<times> (event_kind \<times> string) list" where
  "flush a =
    (if as_cr a then (a\<lparr>as_cr := False, as_cur := []\<rparr>, [(Partial, as_cur a)])
     else if as_cur a \<noteq> [] then (a\<lparr>as_cur := []\<rparr>, [(Line, as_cur a)])
     else (a, []))"

section \<open>The ring (logring.py)\<close>

datatype log_kind = LLine | LProgress | LEvent

record log_rec =
  lo_seq :: nat
  lo_ts :: time
  lo_kind :: log_kind
  lo_text :: string

record log_ring =
  lr_cap :: nat
  lr_buf :: "log_rec list"
  lr_next :: nat
  lr_subs :: "nat list"

definition ring_init :: "nat \<Rightarrow> log_ring" where
  "ring_init cap = \<lparr>lr_cap = cap, lr_buf = [], lr_next = 0, lr_subs = []\<rparr>"

text \<open>\<open>deque(maxlen=n).append\<close>\<close>

definition push :: "nat \<Rightarrow> 'a \<Rightarrow> 'a list \<Rightarrow> 'a list" where
  "push cap x xs = (let ys = xs @ [x] in drop (length ys - cap) ys)"

definition ring_append :: "string \<Rightarrow> log_kind \<Rightarrow> time \<Rightarrow> log_ring \<Rightarrow> log_ring \<times> log_rec \<times> (nat \<times> log_rec) list" where
  "ring_append msg kind ts r =
    (let rec = \<lparr>lo_seq = lr_next r, lo_ts = ts, lo_kind = kind, lo_text = msg\<rparr> in
     (r\<lparr>lr_buf := push (lr_cap r) rec (lr_buf r), lr_next := lr_next r + 1\<rparr>, rec, map (\<lambda>s. (s, rec)) (lr_subs r)))"

definition ring_since :: "nat \<Rightarrow> log_ring \<Rightarrow> log_rec list \<times> nat" where
  "ring_since cur r = (filter (\<lambda>x. lo_seq x \<ge> cur) (lr_buf r), lr_next r)"

definition ring_subscribe :: "nat \<Rightarrow> log_ring \<Rightarrow> log_ring" where
  "ring_subscribe s r = r\<lparr>lr_subs := List.insert s (lr_subs r)\<rparr>"

definition ring_unsubscribe :: "nat \<Rightarrow> log_ring \<Rightarrow> log_ring" where
  "ring_unsubscribe s r = r\<lparr>lr_subs := remove1 s (lr_subs r)\<rparr>"

section \<open>The tailer\<close>

record tailer =
  ta_asm :: assembler
  ta_last :: time
  ta_ring :: log_ring

definition throttle_s :: time where "throttle_s = 2 / 5"

text \<open>\<open>_append\<close>; \<open>now\<close> is the clock at the call.\<close>

definition tail_append :: "time \<Rightarrow> event_kind \<times> string \<Rightarrow> bool \<Rightarrow> tailer \<Rightarrow> tailer" where
  "tail_append now e force t =
    (let clean = strip_ansi (snd e) in
     case fst e of
       Partial \<Rightarrow>
         if clean = [] then t
         else if \<not> force \<and> now - ta_last t < throttle_s then t
         else t\<lparr>ta_last := now, ta_ring := fst (ring_append clean LProgress now (ta_ring t))\<rparr>
     | Line \<Rightarrow> t\<lparr>ta_ring := fst (ring_append clean LLine now (ta_ring t))\<rparr>)"

primrec tail_events :: "(nat \<Rightarrow> time) \<Rightarrow> (event_kind \<Rightarrow> bool) \<Rightarrow> (event_kind \<times> string) list \<Rightarrow> tailer \<Rightarrow> tailer" where
  "tail_events clock force [] t = t"
| "tail_events clock force (e # es) t = tail_events (\<lambda>k. clock (Suc k)) force es (tail_append (clock 0) e (force (fst e)) t)"

definition tail_consume :: "(nat \<Rightarrow> time) \<Rightarrow> string \<Rightarrow> tailer \<Rightarrow> tailer" where
  "tail_consume clock s t =
    (case feed s (ta_asm t) of (a, es) \<Rightarrow> tail_events clock (\<lambda>k. k = Line) es (t\<lparr>ta_asm := a\<rparr>))"

definition tail_finish :: "(nat \<Rightarrow> time) \<Rightarrow> tailer \<Rightarrow> tailer" where
  "tail_finish clock t = (case flush (ta_asm t) of (a, es) \<Rightarrow> tail_events clock (\<lambda>_. True) es (t\<lparr>ta_asm := a\<rparr>))"

text \<open>\<open>_follow\<close> over the chunks that the reads return, then the drain after the stop.\<close>

primrec tail_chunks :: "(nat \<Rightarrow> nat \<Rightarrow> time) \<Rightarrow> string list \<Rightarrow> tailer \<Rightarrow> tailer" where
  "tail_chunks clock [] t = t"
| "tail_chunks clock (c # cs) t = tail_chunks (\<lambda>k. clock (Suc k)) cs (tail_consume (clock 0) c t)"

definition tail_follow :: "(nat \<Rightarrow> nat \<Rightarrow> time) \<Rightarrow> string list \<Rightarrow> tailer \<Rightarrow> tailer" where
  "tail_follow clock cs t = tail_finish (clock (length cs)) (tail_chunks clock cs t)"

definition tailer_init :: "log_ring \<Rightarrow> tailer" where
  "tailer_init r = \<lparr>ta_asm = assembler_init, ta_last = 0, ta_ring = r\<rparr>"

section \<open>The request ring (request_ring.py)\<close>

record request_rec =
  rr_ts :: string
  rr_method :: string
  rr_path :: string
  rr_status :: int
  rr_model :: "string option"
  rr_duration :: int
  rr_ttft :: "int option"
  rr_prompt :: "int option"
  rr_completion :: "int option"
  rr_stream :: "bool option"
  rr_error :: "string option"

record 'a request_ring =
  qr_cap :: nat
  qr_buf :: "(nat \<times> 'a) list"
  qr_next :: nat

definition requests_init :: "nat \<Rightarrow> 'a request_ring" where
  "requests_init cap = \<lparr>qr_cap = cap, qr_buf = [], qr_next = 0\<rparr>"

definition request_add :: "'a \<Rightarrow> 'a request_ring \<Rightarrow> 'a request_ring" where
  "request_add x r = r\<lparr>qr_buf := push (qr_cap r) (qr_next r, x) (qr_buf r), qr_next := qr_next r + 1\<rparr>"

text \<open>\<open>matched[len(out) - 1]\<close>; the index \<open>-1\<close> of an empty page is the last element.\<close>

definition requests_since :: "nat \<Rightarrow> nat \<Rightarrow> 'a request_ring \<Rightarrow> 'a list \<times> nat" where
  "requests_since cur limit r =
    (let matched = filter (\<lambda>p. fst p \<ge> cur) (qr_buf r); out = map snd (take limit matched) in
     if length out < length matched then (out, fst (matched ! (if out = [] then length matched - 1 else length out - 1)) + 1) else (out, qr_next r))"

definition p95_ms :: "request_rec request_ring \<Rightarrow> int" where
  "p95_ms r =
    (let durs = sort (map (rr_duration \<circ> snd) (qr_buf r)) in
     if durs = [] then 0
     else durs ! nat (max 0 (\<lceil>(95 / 100 :: rat) * of_nat (length durs)\<rceil> - 1)))"

text \<open>Python's \<open>round\<close>: half to even.\<close>

definition py_round :: "rat \<Rightarrow> int" where
  "py_round x = (let f = \<lfloor>x\<rfloor>; d = x - of_int f in
     if d < 1 / 2 then f else if d > 1 / 2 then f + 1 else if even f then f else f + 1)"

definition ttft_mean_ms :: "request_rec request_ring \<Rightarrow> int" where
  "ttft_mean_ms r =
    (let vals = List.map_filter (rr_ttft \<circ> snd) (qr_buf r) in
     if vals = [] then 0 else py_round (of_int (sum_list vals) / of_nat (length vals)))"

section \<open>The lines of a text, read as a whole\<close>

text \<open>The reference: a run of carriage returns before a newline is part of the newline, any other run is
  one redraw; then the text is cut at the marks.\<close>

datatype mark = Plain char | Redraw | Newline

function marks :: "string \<Rightarrow> mark list" where
  "marks [] = []"
| "marks (c # cs) =
    (if c = nl then Newline # marks cs
     else if c = cr then
       (case dropWhile (\<lambda>d. d = cr) cs of
          [] \<Rightarrow> [Redraw]
        | d # ds \<Rightarrow> if d = nl then Newline # marks ds else Redraw # marks (d # ds))
     else Plain c # marks cs)"
  by pat_completeness auto
termination
proof (relation "measure length", goal_cases)
  case (3 c cs d ds)
  then have "length (d # ds) \<le> length cs" by (metis length_dropWhile_le)
  then show ?case by simp
next
  case (4 c cs d ds)
  then have "length (d # ds) \<le> length cs" by (metis length_dropWhile_le)
  then show ?case by simp
qed simp_all

fun cut :: "string \<Rightarrow> mark list \<Rightarrow> (event_kind \<times> string) list" where
  "cut cur [] = (if cur = [] then [] else [(Line, cur)])"
| "cut cur (Plain c # ms) = cut (cur @ [c]) ms"
| "cut cur (Redraw # ms) = (Partial, cur) # cut [] ms"
| "cut cur (Newline # ms) = (Line, cur) # cut [] ms"

definition text_events :: "string \<Rightarrow> (event_kind \<times> string) list" where
  "text_events s = cut [] (marks s)"

lemma cr_nl [simp]: "cr \<noteq> nl" "nl \<noteq> cr"
  by (simp_all add: cr_def nl_def)

lemma marks_cr_run: "marks (cr # cr # cs) = marks (cr # cs)"
  by simp

text \<open>What the assembler still owes for the rest \<open>s\<close> of a text.\<close>

definition owed :: "assembler \<Rightarrow> string \<Rightarrow> (event_kind \<times> string) list" where
  "owed a s = cut (as_cur a) (marks ((if as_cr a then [cr] else []) @ s))"

lemma feed_char_owed: "feed_char c a = (a', out) \<Longrightarrow> owed a (c # s) = out @ owed a' s"
  by (auto simp: feed_char_def owed_def split: if_splits)

lemma flush_owed: "snd (flush a) = owed a []"
  by (simp add: flush_def owed_def)

lemma feed_owed: "feed cs a = (a', out) \<Longrightarrow> owed a (cs @ s) = out @ owed a' s"
proof (induction cs arbitrary: a a' out)
  case (Cons c cs)
  obtain a1 o1 where a1: "feed_char c a = (a1, o1)" by (cases "feed_char c a")
  obtain a2 o2 where a2: "feed cs a1 = (a2, o2)" by (cases "feed cs a1")
  have r: "a' = a2" "out = o1 @ o2" using Cons.prems a1 a2 by simp_all
  show ?case using feed_char_owed [OF a1, of "cs @ s"] Cons.IH [OF a2] unfolding r by simp
qed simp

section \<open>A ring as the end of an unbounded log\<close>

text \<open>\<open>last_n n xs\<close> is what a \<open>deque(maxlen=n)\<close> keeps of \<open>xs\<close>.\<close>

definition last_n :: "nat \<Rightarrow> 'a list \<Rightarrow> 'a list" where
  "last_n n xs = drop (length xs - n) xs"

lemma push_last_n: "push n x (last_n n xs) = last_n n (xs @ [x])"
proof (cases "length xs \<le> n")
  case True
  then show ?thesis by (simp add: push_def last_n_def Let_def)
next
  case False
  then show ?thesis by (simp add: push_def last_n_def Let_def Suc_diff_le)
qed

definition ring_shows :: "log_ring \<Rightarrow> log_rec list \<Rightarrow> bool" where
  "ring_shows r all \<longleftrightarrow> lr_buf r = last_n (lr_cap r) all \<and> lr_next r = length all \<and> map lo_seq all = [0..<length all]"

lemma ring_init_shows: "ring_shows (ring_init cap) []"
  by (simp add: ring_shows_def ring_init_def last_n_def)

lemma ring_append_shows:
  assumes "ring_shows r all" "ring_append msg kind ts r = (r', x, out)"
  shows "ring_shows r' (all @ [x])" "lo_kind x = kind" "lo_text x = msg"
  using assms push_last_n [of "lr_cap r" x all] by (auto simp: ring_shows_def ring_append_def Let_def)

end
