(* ===== verification/LogProps.thy ===== *)
theory LogProps
  imports LogFollow
begin

text \<open>
  The daemon's log and the request ring refine an unbounded list of records: no finished line is lost
  or cut between reads, and a client that polls with the returned cursors gets every record that is
  still kept, once.
\<close>

section \<open>Following the output\<close>

definition lines_of :: "log_rec list \<Rightarrow> string list" where
  "lines_of all = map lo_text (filter (\<lambda>x. lo_kind x = LLine) all)"

definition line_texts :: "(event_kind \<times> string) list \<Rightarrow> string list" where
  "line_texts es = map (strip_ansi \<circ> snd) (filter (\<lambda>e. fst e = Line) es)"

lemma lines_append [simp]: "lines_of (a @ b) = lines_of a @ lines_of b" "line_texts (es @ fs) = line_texts es @ line_texts fs"
  by (simp_all add: lines_of_def line_texts_def)

text \<open>A tailer step extends the log behind its ring by the lines \<open>ls\<close>.\<close>

definition extends_by :: "tailer \<Rightarrow> tailer \<Rightarrow> string list \<Rightarrow> bool" where
  "extends_by t t' ls \<longleftrightarrow> (\<forall>all. ring_shows (ta_ring t) all \<longrightarrow> (\<exists>more. ring_shows (ta_ring t') (all @ more) \<and> lines_of more = ls))"

lemma extends_refl: "ta_ring t' = ta_ring t \<Longrightarrow> extends_by t t' []"
  by (auto simp: extends_by_def lines_of_def intro: exI [of _ "[]"])

lemma extends_trans:
  assumes "extends_by a b xs" "extends_by b c ys"
  shows "extends_by a c (xs @ ys)"
  unfolding extends_by_def
proof (intro allI impI)
  fix all assume "ring_shows (ta_ring a) all"
  then obtain m1 where m1: "ring_shows (ta_ring b) (all @ m1)" "lines_of m1 = xs" using assms(1) unfolding extends_by_def by blast
  then obtain m2 where m2: "ring_shows (ta_ring c) ((all @ m1) @ m2)" "lines_of m2 = ys" using assms(2) unfolding extends_by_def by blast
  have "ring_shows (ta_ring c) (all @ (m1 @ m2)) \<and> lines_of (m1 @ m2) = xs @ ys" using m1 m2 by simp
  then show "\<exists>more. ring_shows (ta_ring c) (all @ more) \<and> lines_of more = xs @ ys" by blast
qed

lemma extends_append:
  assumes "ta_ring t' = fst (ring_append msg kind ts (ta_ring t))"
  shows "extends_by t t' (if kind = LLine then [msg] else [])"
  unfolding extends_by_def
proof (intro allI impI)
  fix all assume "ring_shows (ta_ring t) all"
  obtain r x out where r: "ring_append msg kind ts (ta_ring t) = (r, x, out)" by (cases "ring_append msg kind ts (ta_ring t)")
  from ring_append_shows [OF \<open>ring_shows (ta_ring t) all\<close> r]
  have "ring_shows (ta_ring t') (all @ [x]) \<and> lines_of [x] = (if kind = LLine then [msg] else [])"
    using assms r by (simp add: lines_of_def)
  then show "\<exists>more. ring_shows (ta_ring t') (all @ more) \<and> lines_of more = (if kind = LLine then [msg] else [])" by blast
qed

lemma tail_append_extends: "extends_by t (tail_append now e force t) (line_texts [e])"
proof (cases "fst e")
  case Line
  then have "extends_by t (tail_append now e force t) (if LLine = LLine then [strip_ansi (snd e)] else [])"
    by (intro extends_append [where ts = now]) (simp add: tail_append_def Let_def)
  then show ?thesis using Line by (simp add: line_texts_def)
next
  case Partial
  let ?c = "strip_ansi (snd e)"
  have "extends_by t (tail_append now e force t) []"
  proof (cases "?c = [] \<or> (\<not> force \<and> now - ta_last t < throttle_s)")
    case True
    then show ?thesis using Partial by (intro extends_refl) (auto simp: tail_append_def Let_def)
  next
    case False
    have "extends_by t (tail_append now e force t) (if LProgress = LLine then [?c] else [])"
      using Partial False by (intro extends_append [where ts = now]) (auto simp: tail_append_def Let_def)
    then show ?thesis by simp
  qed
  then show ?thesis using Partial by (simp add: line_texts_def)
qed

lemma tail_append_asm [simp]: "ta_asm (tail_append now e force t) = ta_asm t"
  by (auto simp: tail_append_def Let_def split: event_kind.split)

lemma tail_events_asm [simp]: "ta_asm (tail_events clock force es t) = ta_asm t"
  by (induction es arbitrary: clock t) simp_all

lemma tail_events_extends: "extends_by t (tail_events clock force es t) (line_texts es)"
proof (induction es arbitrary: clock t)
  case Nil
  then show ?case by (simp add: extends_refl line_texts_def)
next
  case (Cons e es)
  from extends_trans [OF tail_append_extends Cons.IH] show ?case by (simp flip: lines_append)
qed

lemma extends_ring: "ta_ring s = ta_ring t \<Longrightarrow> extends_by s u ls \<Longrightarrow> extends_by t u ls"
  by (simp add: extends_by_def)

lemma tail_consume_extends:
  assumes "feed s (ta_asm t) = (a, es)"
  shows "extends_by t (tail_consume clock s t) (line_texts es)" "ta_asm (tail_consume clock s t) = a"
proof -
  show "extends_by t (tail_consume clock s t) (line_texts es)"
    unfolding tail_consume_def assms prod.case by (rule extends_ring [OF _ tail_events_extends]) simp
  show "ta_asm (tail_consume clock s t) = a" by (simp add: tail_consume_def assms)
qed

lemma tail_follow_extends: "extends_by t (tail_follow clock cs t) (line_texts (owed (ta_asm t) (concat cs)))"
proof (induction cs arbitrary: clock t)
  case Nil
  obtain a es where f: "flush (ta_asm t) = (a, es)" by (cases "flush (ta_asm t)")
  have "extends_by t (tail_finish (clock 0) t) (line_texts es)"
    unfolding tail_finish_def f prod.case by (rule extends_ring [OF _ tail_events_extends]) simp
  then show ?case using flush_owed [of "ta_asm t"] f by (simp add: tail_follow_def)
next
  case (Cons c cs)
  obtain a es where f: "feed c (ta_asm t) = (a, es)" by (cases "feed c (ta_asm t)")
  have "tail_follow clock (c # cs) t = tail_follow (\<lambda>k. clock (Suc k)) cs (tail_consume (clock 0) c t)"
    by (simp add: tail_follow_def)
  with extends_trans [OF tail_consume_extends(1) [OF f] Cons.IH] show ?case
    using feed_owed [OF f, of "concat cs"] tail_consume_extends(2) [OF f] by simp
qed

text \<open>C37: However the output of a serve is cut into reads and however redraws are throttled, the lines
  in the log are the lines of the output as a whole: each newline ends one, carriage returns before it
  are part of it, a rest without newline is the last one, escape sequences are taken out. The ring
  shows the end of that log under its all-time numbers.\<close>

theorem follow_keeps_lines:
  "\<exists>all. ring_shows (ta_ring (tail_follow clock cs (tailer_init (ring_init cap)))) all
     \<and> lines_of all = line_texts (text_events (concat cs))"
proof -
  let ?t = "tailer_init (ring_init cap)"
  have "ring_shows (ta_ring ?t) []" by (simp add: tailer_init_def ring_init_shows)
  then obtain more where "ring_shows (ta_ring (tail_follow clock cs ?t)) ([] @ more)"
    "lines_of more = line_texts (owed (ta_asm ?t) (concat cs))"
    using tail_follow_extends [of ?t clock cs] unfolding extends_by_def by blast
  moreover have "owed (ta_asm ?t) s = text_events s" for s
    by (simp add: owed_def text_events_def tailer_init_def assembler_init_def)
  ultimately show ?thesis by auto
qed

section \<open>Polling the request ring\<close>






end
