(* ===== verification/Checkpoint.thy ===== *)
theory Checkpoint
  imports Prelude
begin

text \<open>
  The supervisor of checkpoint conversions, \<open>daemon/checkpoint.py\<close>, class \<open>CheckpointManager\<close>. Each
  critical section of its lock is one step: reserving the job, recording the spawned child, releasing
  a failed reservation, cancelling, and the monitor's entry when the child has exited. \<open>ck_spawning\<close>
  holds the calls of \<open>start\<close> between their two critical sections, \<open>ck_alive\<close> the children that run,
  \<open>ck_signals\<close> the children told to terminate. Children are numbered in the order of their spawns; the
  number stands for the child object and for its pid. Log events, tailers and the grace period before
  a kill are not modelled.
\<close>

section \<open>State and steps\<close>

datatype job_state = JRunning | JDone | JFailed | JCancelled

record job =
  jb_id :: string
  jb_pid :: int
  jb_started :: time
  jb_state :: job_state
  jb_exit :: "int option"

record checkpoints =
  ck_job :: "job option"
  ck_child :: "nat option"
  ck_reaped :: "nat list"
  ck_spawning :: "string list"
  ck_alive :: "(nat \<times> string) list"
  ck_signals :: "nat list"
  ck_count :: nat

definition ck_init :: checkpoints where
  "ck_init = \<lparr>ck_job = None, ck_child = None, ck_reaped = [], ck_spawning = [], ck_alive = [], ck_signals = [], ck_count = 0\<rparr>"

datatype start_answer =
    Reserved
  | Idempotent "int option"
  | Conflict string

text \<open>The first critical section of \<open>start\<close>.\<close>

definition ck_reserve :: "time \<Rightarrow> string \<Rightarrow> checkpoints \<Rightarrow> checkpoints \<times> start_answer" where
  "ck_reserve now i s =
    (let running = (case ck_job s of None \<Rightarrow> None | Some j \<Rightarrow> if jb_state j = JRunning then Some j else None) in
     case running of
       Some j \<Rightarrow>
         if jb_id j = i then (s, Idempotent (if jb_pid j > 0 then Some (jb_pid j) else None))
         else (s, Conflict ''already running'')
     | None \<Rightarrow>
         if (case ck_child s of None \<Rightarrow> False | Some c \<Rightarrow> c \<notin> set (ck_reaped s)) then (s, Conflict ''still terminating'')
         else (s\<lparr>ck_job := Some \<lparr>jb_id = i, jb_pid = -1, jb_started = now, jb_state = JRunning, jb_exit = None\<rparr>,
                 ck_child := None, ck_spawning := ck_spawning s @ [i]\<rparr>, Reserved))"

text \<open>The spawn of a reserved job has succeeded: the second critical section, and the signal to a child
  whose job was cancelled meanwhile.\<close>

definition ck_spawned :: "string \<Rightarrow> checkpoints \<Rightarrow> checkpoints result" where
  "ck_spawned i s =
    (let c = Suc (ck_count s);
         s = s\<lparr>ck_spawning := remove1 i (ck_spawning s), ck_count := c, ck_alive := ck_alive s @ [(c, i)], ck_child := Some c\<rparr> in
     case ck_job s of
       None \<Rightarrow> raise (RuntimeError ''AttributeError'')
     | Some j \<Rightarrow>
         ok (s\<lparr>ck_job := Some (j\<lparr>jb_pid := int c\<rparr>),
               ck_signals := (if jb_state j = JCancelled then ck_signals s @ [c] else ck_signals s)\<rparr>))"

definition ck_spawn_failed :: "string \<Rightarrow> checkpoints \<Rightarrow> checkpoints" where
  "ck_spawn_failed i s =
    (let s = s\<lparr>ck_spawning := remove1 i (ck_spawning s)\<rparr> in
     case ck_job s of None \<Rightarrow> s | Some j \<Rightarrow> if jb_id j = i then s\<lparr>ck_job := None\<rparr> else s)"

text \<open>The monitor of child \<open>c\<close>, after the child has exited.\<close>

definition ck_exited :: "nat \<Rightarrow> int option \<Rightarrow> checkpoints \<Rightarrow> checkpoints" where
  "ck_exited c code s =
    (case map_of (ck_alive s) c of
       None \<Rightarrow> s
     | Some i \<Rightarrow>
         let s = s\<lparr>ck_reaped := ck_reaped s @ [c], ck_alive := filter (\<lambda>p. fst p \<noteq> c) (ck_alive s)\<rparr> in
         (case ck_job s of
            None \<Rightarrow> s
          | Some j \<Rightarrow>
              if jb_id j = i then
                s\<lparr>ck_job := Some (j\<lparr>jb_state := (if jb_state j \<noteq> JCancelled then if code = Some 0 then JDone else JFailed else jb_state j),
                                  jb_exit := code\<rparr>)\<rparr>
              else s))"

definition ck_cancel :: "string \<Rightarrow> checkpoints \<Rightarrow> checkpoints \<times> bool" where
  "ck_cancel i s =
    (case ck_job s of
       None \<Rightarrow> (s, False)
     | Some j \<Rightarrow>
         if jb_id j \<noteq> i \<or> jb_state j \<noteq> JRunning then (s, False)
         else
           let s = s\<lparr>ck_job := Some (j\<lparr>jb_state := JCancelled\<rparr>)\<rparr> in
           case ck_child s of
             Some c \<Rightarrow> (if jb_pid j > 0 then s\<lparr>ck_signals := ck_signals s @ [c]\<rparr> else s, True)
           | None \<Rightarrow> (s, True))"

definition ck_status :: "time \<Rightarrow> checkpoints \<Rightarrow> (string \<times> int \<times> job_state \<times> int \<times> int option) option" where
  "ck_status now s = map_option (\<lambda>j. (jb_id j, jb_pid j, jb_state j, \<lfloor>now - jb_started j\<rfloor>, jb_exit j)) (ck_job s)"

section \<open>Interleavings\<close>

text \<open>One step of any thread; \<open>window\<close> says whether a cancel may fall between the two critical sections
  of a start.\<close>

inductive ck_step :: "bool \<Rightarrow> checkpoints \<Rightarrow> checkpoints \<Rightarrow> bool" for window where
  reserve: "ck_step window s (fst (ck_reserve now i s))"
| spawned: "i \<in> set (ck_spawning s) \<Longrightarrow> ck_spawned i s = ok s' \<Longrightarrow> ck_step window s s'"
| failed: "i \<in> set (ck_spawning s) \<Longrightarrow> ck_step window s (ck_spawn_failed i s)"
| exited: "c \<in> fst ` set (ck_alive s) \<Longrightarrow> ck_step window s (ck_exited c code s)"
| cancelled: "window \<or> ck_spawning s = [] \<Longrightarrow> ck_step window s (fst (ck_cancel i s))"

text \<open>The children that run or are about to, and what goes with them.\<close>

definition calm_inv :: "checkpoints \<Rightarrow> bool" where
  "calm_inv s \<longleftrightarrow>
     (case ck_spawning s of
        [] \<Rightarrow> (case ck_alive s of [] \<Rightarrow> True | [(c, i)] \<Rightarrow> ck_child s = Some c \<and> c \<notin> set (ck_reaped s) | _ \<Rightarrow> False)
      | [i] \<Rightarrow> ck_alive s = [] \<and> (\<exists>j. ck_job s = Some j \<and> jb_id j = i \<and> jb_state j = JRunning)
      | _ \<Rightarrow> False)
     \<and> (\<forall>c \<in> set (ck_reaped s) \<union> fst ` set (ck_alive s). c \<le> ck_count s)"

lemma calm_init: "calm_inv ck_init"
  by (simp add: calm_inv_def ck_init_def)

lemma calm_reserve: "calm_inv s \<Longrightarrow> calm_inv (fst (ck_reserve now i s))"
  by (auto simp: calm_inv_def ck_reserve_def Let_def split: option.splits list.splits if_splits)

lemma calm_spawned: "calm_inv s \<Longrightarrow> i \<in> set (ck_spawning s) \<Longrightarrow> ck_spawned i s = ok s' \<Longrightarrow> calm_inv s'"
  by (fastforce simp: calm_inv_def ck_spawned_def Let_def split: option.splits list.splits if_splits)

lemma calm_failed: "calm_inv s \<Longrightarrow> i \<in> set (ck_spawning s) \<Longrightarrow> calm_inv (ck_spawn_failed i s)"
  by (auto simp: calm_inv_def ck_spawn_failed_def Let_def split: option.splits list.splits if_splits)

lemma calm_cancel: "calm_inv s \<Longrightarrow> ck_spawning s = [] \<Longrightarrow> calm_inv (fst (ck_cancel i s))"
  by (auto simp: calm_inv_def ck_cancel_def Let_def split: option.splits list.splits if_splits)

lemma calm_exited:
  assumes "calm_inv s" "c \<in> fst ` set (ck_alive s)"
  shows "calm_inv (ck_exited c code s)"
proof -
  obtain i where alive: "ck_alive s = [(c, i)]" "ck_spawning s = []" "ck_child s = Some c"
    using assms by (auto simp: calm_inv_def split: list.splits)
  then show ?thesis
    using assms(1) by (auto simp: calm_inv_def ck_exited_def Let_def split: option.splits)
qed

lemma calm_step: "ck_step False s s' \<Longrightarrow> calm_inv s \<Longrightarrow> calm_inv s'"
  by (induction rule: ck_step.induct) (auto intro: calm_reserve calm_spawned calm_failed calm_exited calm_cancel)

lemma calm_one: "calm_inv s \<Longrightarrow> length (ck_alive s) + length (ck_spawning s) \<le> 1"
  by (auto simp: calm_inv_def split: list.splits)

text \<open>As long as no cancel falls between the two critical sections of a start, at most one conversion
  runs or is being spawned, whatever the order of starts, failed spawns, cancels and exits.\<close>

theorem one_conversion:
  assumes "(ck_step False)\<^sup>*\<^sup>* ck_init s"
  shows "length (ck_alive s) + length (ck_spawning s) \<le> 1"
proof -
  have "calm_inv s" using assms by (induction rule: rtranclp_induct) (auto intro: calm_init calm_step)
  then show ?thesis by (rule calm_one)
qed

definition after_cancel :: checkpoints where
  "after_cancel = fst (ck_reserve 1 ''b'' (fst (ck_cancel ''a'' (fst (ck_reserve 0 ''a'' ck_init)))))"

definition two_running :: checkpoints where
  "two_running = (case ck_spawned ''a'' after_cancel of Inl _ \<Rightarrow> ck_init | Inr s \<Rightarrow>
     (case ck_spawned ''b'' s of Inl _ \<Rightarrow> ck_init | Inr s' \<Rightarrow> s'))"

lemma after_cancel_reachable: "(ck_step True)\<^sup>*\<^sup>* ck_init after_cancel"
proof -
  let ?a = "fst (ck_reserve 0 ''a'' ck_init)"
  let ?c = "fst (ck_cancel ''a'' ?a)"
  have "ck_step True ck_init ?a" "ck_step True ?a ?c" "ck_step True ?c after_cancel"
    unfolding after_cancel_def by (rule ck_step.reserve, rule ck_step.cancelled, simp, rule ck_step.reserve)
  then show ?thesis by (meson rtranclp.rtrancl_into_rtrancl rtranclp.rtrancl_refl)
qed

text \<open>A cancel between the two critical sections of a start defeats the exclusion: a second start is
  then accepted, both conversions run, and the cancelled one is never told to stop.\<close>

theorem two_conversions:
  "(ck_step True)\<^sup>*\<^sup>* ck_init two_running \<and> map snd (ck_alive two_running) = [''a'', ''b''] \<and> ck_signals two_running = []"
proof -
  obtain s1 where s1: "ck_spawned ''a'' after_cancel = Inr s1" "''b'' \<in> set (ck_spawning s1)"
    by (simp add: after_cancel_def ck_spawned_def ck_reserve_def ck_cancel_def ck_init_def Let_def)
  obtain s2 where s2: "ck_spawned ''b'' s1 = Inr s2"
    using s1(1) by (auto simp: after_cancel_def ck_spawned_def ck_reserve_def ck_cancel_def ck_init_def Let_def)
  have two: "two_running = s2" by (simp add: two_running_def s1(1) s2)
  have "''a'' \<in> set (ck_spawning after_cancel)"
    by (simp add: after_cancel_def ck_reserve_def ck_cancel_def ck_init_def Let_def)
  then have "ck_step True after_cancel s1" "ck_step True s1 s2" using s1 s2 ck_step.spawned by blast+
  then have "(ck_step True)\<^sup>*\<^sup>* ck_init two_running"
    unfolding two using after_cancel_reachable by (meson rtranclp.rtrancl_into_rtrancl)
  moreover have "map snd (ck_alive two_running) = [''a'', ''b'']" "ck_signals two_running = []" by code_simp+
  ultimately show ?thesis by blast
qed

definition one_running :: checkpoints where
  "one_running = (case ck_spawned ''a'' (fst (ck_reserve 0 ''a'' ck_init)) of Inl _ \<Rightarrow> ck_init | Inr s \<Rightarrow> s)"

theorem one_conversion_witness: "(ck_step False)\<^sup>*\<^sup>* ck_init one_running \<and> length (ck_alive one_running) = 1 \<and>
    length (ck_alive one_running) + length (ck_spawning one_running) \<le> 1"
proof -
  let ?r = "fst (ck_reserve 0 ''a'' ck_init)"
  have "ck_spawned ''a'' ?r = Inr one_running" "''a'' \<in> set (ck_spawning ?r)"
    by (simp_all add: one_running_def ck_spawned_def ck_reserve_def ck_init_def Let_def)
  then have "ck_step False ck_init ?r" "ck_step False ?r one_running" using ck_step.reserve ck_step.spawned by blast+
  then have reach: "(ck_step False)\<^sup>*\<^sup>* ck_init one_running" by (meson rtranclp.rtrancl_into_rtrancl rtranclp.rtrancl_refl)
  moreover have "length (ck_alive one_running) = 1" by code_simp
  ultimately show ?thesis using one_conversion [OF reach] by blast
qed

end
