(* ===== verification/Frontend.thy ===== *)
theory Frontend
  imports Prelude
begin

text \<open>
  The lifecycle of a serve as its frontend sees it: the counters of \<open>server/stats.py\<close>, the admission
  gate \<open>maintenance_state\<close> of \<open>server/api_server.py\<close> (class \<open>FrontendManager\<close>, \<open>dispatch_rebuild\<close>,
  \<open>cache_rebuild\<close>, the callbacks of the supervisor), the accounting barrier before a stop
  (\<open>server/accounting.py\<close>).

  Everything runs on one event loop, so the code between two \<open>await\<close>s is one event. A call that waits
  takes the events that happen meanwhile as an argument. Queues, futures and the HTTP layer are not
  modelled; \<open>fr_rebuild\<close> is the position of the coroutine that dispatches a rebuild.
\<close>

section \<open>Counters (stats.py)\<close>

record user_reply =
  ur_uid :: int
  ur_finished :: bool
  ur_prompt :: int
  ur_completion :: int
  ur_kv :: "int \<times> int"
  ur_mamba :: "int \<times> int"
  ur_swa :: "int \<times> int"
  ur_gpu :: int

record stats =
  ss_decode :: "(time \<times> int) list"
  ss_prefill :: "(time \<times> int) list"
  ss_inflight :: "int list"
  ss_aborting :: "int list"
  ss_completed :: int
  ss_prompt :: int
  ss_completion :: int
  ss_kv :: "int \<times> int"
  ss_mamba :: "int \<times> int"
  ss_swa :: "int \<times> int"
  ss_vram :: int

definition stats_init :: stats where
  "stats_init = \<lparr>ss_decode = [], ss_prefill = [], ss_inflight = [], ss_aborting = [], ss_completed = 0, ss_prompt = 0,
     ss_completion = 0, ss_kv = (0, 0), ss_mamba = (0, 0), ss_swa = (0, 0), ss_vram = 0\<rparr>"

definition window_s :: time where "window_s = 5"
definition samples_max :: int where "samples_max = 4096"

definition add_sample :: "time \<times> int \<Rightarrow> (time \<times> int) list \<Rightarrow> (time \<times> int) list" where
  "add_sample x xs = (let ys = xs @ [x] in drop (nat (int (length ys) - samples_max)) ys)"

definition on_new_user :: "int \<Rightarrow> stats \<Rightarrow> stats" where
  "on_new_user uid s = s\<lparr>ss_inflight := List.insert uid (ss_inflight s), ss_aborting := removeAll uid (ss_aborting s)\<rparr>"

definition on_abort :: "int \<Rightarrow> stats \<Rightarrow> stats" where
  "on_abort uid s = (if uid \<in> set (ss_inflight s) then s\<lparr>ss_aborting := List.insert uid (ss_aborting s)\<rparr> else s)"

definition note_finished :: "int \<Rightarrow> stats \<Rightarrow> stats" where
  "note_finished uid s =
    (if uid \<in> set (ss_inflight s) then
       let s1 = s\<lparr>ss_inflight := removeAll uid (ss_inflight s)\<rparr> in
       if uid \<in> set (ss_aborting s1) then s1\<lparr>ss_aborting := removeAll uid (ss_aborting s1)\<rparr>
       else s1\<lparr>ss_completed := ss_completed s1 + 1\<rparr>
     else s)"

definition observe :: "time \<Rightarrow> user_reply \<Rightarrow> stats \<Rightarrow> stats" where
  "observe t m s =
    (let s = (if ur_completion m > 0 then s\<lparr>ss_decode := add_sample (t, ur_completion m) (ss_decode s),
                                           ss_completion := ss_completion s + ur_completion m\<rparr> else s);
         s = (if ur_prompt m > 0 then s\<lparr>ss_prefill := add_sample (t, ur_prompt m) (ss_prefill s),
                                       ss_prompt := ss_prompt s + ur_prompt m\<rparr> else s);
         s = (if snd (ur_kv m) > 0 then s\<lparr>ss_kv := ur_kv m\<rparr> else s);
         s = (if snd (ur_mamba m) > 0 then s\<lparr>ss_mamba := ur_mamba m\<rparr> else s);
         s = (if snd (ur_swa m) > 0 then s\<lparr>ss_swa := ur_swa m\<rparr> else s);
         s = (if ur_gpu m > 0 then s\<lparr>ss_vram := ur_gpu m\<rparr> else s)
     in if ur_finished m then note_finished (ur_uid m) s else s)"

definition in_window :: "time \<Rightarrow> (time \<times> int) list \<Rightarrow> (time \<times> int) list" where
  "in_window t w = dropWhile (\<lambda>x. fst x < t - window_s) w"

definition rate :: "time \<Rightarrow> (time \<times> int) list \<Rightarrow> (time \<times> int) list \<times> rat" where
  "rate t w = (let w = in_window t w in
     (w, if w = [] then 0 else of_int (sum_list (map snd w)) / max (t - fst (hd w)) (1 / 10 ^ 9)))"

definition active :: "stats \<Rightarrow> nat" where
  "active s = length (ss_inflight s)"

section \<open>The frontend and its gate\<close>

datatype gate = Loading | Serving | Rebuilding | Stopping | Failed

datatype rebuild_phase = Sending | Sent

record snapshot =
  sn_prompt :: int
  sn_completion :: int
  sn_uptime :: int

record front =
  fr_gate :: gate
  fr_stats :: stats
  fr_uids :: int
  fr_acks :: "int list"
  fr_fatal :: "string option"
  fr_ready :: "time option"
  fr_rebuild :: "rebuild_phase option"
  fr_last :: "string option"
  fr_sealed :: "snapshot option"

definition front_init :: front where
  "front_init = \<lparr>fr_gate = Loading, fr_stats = stats_init, fr_uids = 0, fr_acks = [], fr_fatal = None, fr_ready = None,
     fr_rebuild = None, fr_last = None, fr_sealed = None\<rparr>"

definition new_user :: "front \<Rightarrow> front \<times> int result" where
  "new_user f =
    (if fr_gate f \<noteq> Serving then (f, raise (RuntimeError ''AdmissionClosed''))
     else (f\<lparr>fr_uids := fr_uids f + 1, fr_acks := List.insert (fr_uids f) (fr_acks f), fr_stats := on_new_user (fr_uids f) (fr_stats f)\<rparr>,
           ok (fr_uids f)))"

definition front_reply :: "time \<Rightarrow> user_reply \<Rightarrow> front \<Rightarrow> front" where
  "front_reply t m f = f\<lparr>fr_stats := observe t m (fr_stats f)\<rparr>"

text \<open>\<open>_resolve_rebuild\<close>.\<close>

definition resolve_rebuild :: "string \<Rightarrow> front \<Rightarrow> front" where
  "resolve_rebuild status f =
    (let f = f\<lparr>fr_last := Some status, fr_rebuild := None\<rparr> in
     if fr_fatal f \<noteq> None then f\<lparr>fr_gate := Failed\<rparr>
     else f\<lparr>fr_gate := (if status = ''failed'' then Failed else Serving)\<rparr>)"

text \<open>The handler of \<open>/v1/cache/rebuild\<close> up to the send: refused unless serving.\<close>

definition rebuild_call :: "front \<Rightarrow> front \<times> nat" where
  "rebuild_call f =
    (case fr_gate f of
       Loading \<Rightarrow> (f, 503)
     | Failed \<Rightarrow> (f, 503)
     | Rebuilding \<Rightarrow> (f, 409)
     | Stopping \<Rightarrow> (f, 409)
     | Serving \<Rightarrow> (f\<lparr>fr_rebuild := Some Sending, fr_gate := Rebuilding\<rparr>, 200))"

definition dispatch_failed :: "front \<Rightarrow> front" where
  "dispatch_failed f = f\<lparr>fr_rebuild := None, fr_gate := Serving\<rparr>"

definition on_ready :: "time \<Rightarrow> front \<Rightarrow> front" where
  "on_ready now f = (if fr_gate f = Loading then f\<lparr>fr_gate := Serving, fr_ready := Some now\<rparr> else f)"

definition on_failure :: "string \<Rightarrow> front \<Rightarrow> front" where
  "on_failure msg f = f\<lparr>fr_fatal := Some msg, fr_gate := Failed\<rparr>"

definition abort_user :: "int \<Rightarrow> front \<Rightarrow> front" where
  "abort_user uid f = f\<lparr>fr_acks := removeAll uid (fr_acks f), fr_stats := on_abort uid (fr_stats f)\<rparr>"

datatype front_event =
    NewUser
  | Reply time user_reply
  | Abort int
  | RebuildCall
  | RebuildSent
  | DispatchFailed
  | RebuildReply string
  | Ready time
  | Death string

text \<open>An event that the position of the rebuild coroutine does not allow changes nothing.\<close>

fun handle_event :: "front_event \<Rightarrow> front \<Rightarrow> front" where
  "handle_event NewUser f = fst (new_user f)"
| "handle_event (Reply t m) f = front_reply t m f"
| "handle_event (Abort uid) f = abort_user uid f"
| "handle_event RebuildCall f = fst (rebuild_call f)"
| "handle_event RebuildSent f = (if fr_rebuild f = Some Sending then f\<lparr>fr_rebuild := Some Sent\<rparr> else f)"
| "handle_event DispatchFailed f = (if fr_rebuild f = Some Sending then dispatch_failed f else f)"
| "handle_event (RebuildReply status) f = (if fr_rebuild f = Some Sent then resolve_rebuild status f else f)"
| "handle_event (Ready now) f = on_ready now f"
| "handle_event (Death msg) f = on_failure msg f"

definition front_events :: "front_event list \<Rightarrow> front \<Rightarrow> front" where
  "front_events es f = foldl (\<lambda>f e. handle_event e f) f es"

section \<open>The barrier before a stop (accounting.py)\<close>

text \<open>\<open>_wait_for_idle\<close>: one list of events per poll; when the lists are used up the deadline is over.\<close>

fun wait_for_idle :: "front_event list list \<Rightarrow> front \<Rightarrow> front \<times> bool" where
  "wait_for_idle [] f = (f, active (fr_stats f) = 0)"
| "wait_for_idle (es # rounds) f =
     (if active (fr_stats f) = 0 then (f, True) else wait_for_idle rounds (front_events es f))"

definition seal :: "time \<Rightarrow> front \<Rightarrow> front \<times> snapshot result" where
  "seal now f =
    (let sn = \<lparr>sn_prompt = ss_prompt (fr_stats f), sn_completion = ss_completion (fr_stats f),
               sn_uptime = (case fr_ready f of None \<Rightarrow> 0 | Some t \<Rightarrow> max 0 \<lfloor>now - t\<rfloor>)\<rparr>
     in (f\<lparr>fr_sealed := Some sn\<rparr>, ok sn))"

text \<open>\<open>prepare_stop_accounting\<close>: the events of the first wait, those before the aborts are sent, and
  those of the second wait.\<close>

definition prepare_stop :: "time \<Rightarrow> front_event list list \<Rightarrow> front_event list \<Rightarrow> front_event list list \<Rightarrow> front
    \<Rightarrow> front \<times> snapshot result" where
  "prepare_stop now drain mid abort f =
    (case fr_sealed f of
       Some sn \<Rightarrow> (f, ok sn)
     | None \<Rightarrow>
         if fr_gate f = Rebuilding then (f, raise (RuntimeError ''cache rebuild is in progress''))
         else
           (case wait_for_idle drain (f\<lparr>fr_gate := Stopping\<rparr>) of
              (f, True) \<Rightarrow> seal now f
            | (f, False) \<Rightarrow>
                let inflight = sort (ss_inflight (fr_stats f)) in
                if inflight = [] then (f, raise (RuntimeError ''unidentified request''))
                else
                  (case wait_for_idle abort (foldl (\<lambda>f uid. abort_user uid f) (front_events mid f) inflight) of
                     (f, True) \<Rightarrow> seal now f
                   | (f, False) \<Rightarrow> (f, raise (RuntimeError ''abort barrier timed out'')))))"

section \<open>The gate stays closed after the barrier\<close>





lemma event_sealed [simp]: "fr_sealed (handle_event e f) = fr_sealed f"
  by (cases e) (auto simp: new_user_def front_reply_def abort_user_def rebuild_call_def resolve_rebuild_def dispatch_failed_def
      on_ready_def on_failure_def Let_def split: gate.splits)
















definition idle_front :: front where
  "idle_front = handle_event (Ready 5) front_init"


text \<open>The excluded event does reopen the gate: when the engine dies while a rebuild is being sent, the stop
  is prepared and then the send fails, the frontend admits requests again after its totals are sealed.\<close>

definition reopened :: front where
  "reopened = handle_event DispatchFailed (fst (prepare_stop 8 [] [] [] (handle_event (Death ''cuda'') (handle_event RebuildCall idle_front))))"

lemma failed_dispatch_reopens: "fr_gate reopened = Serving \<and> fr_sealed reopened \<noteq> None \<and> fr_fatal reopened \<noteq> None \<and> is_ok (snd (new_user reopened))"
  by code_simp

end
