(* ===== verification/HybridRadix.thy ===== *)
theory HybridRadix
  imports PrefixCache
begin

text \<open>
  The prefix cache of hybrid models: \<open>kvcache/hybrid_radix_cache.py\<close>. It is the radix tree of
  \<open>RadixCache\<close> with a second currency: a node may own a snapshot of the linear state at its end (a slot number),
  and a match is only as long as the deepest snapshot on its path. \<open>_walk\<close> is the walk of the plain cache
  line by line, so the tree functions are shared; \<open>rt_evictable\<close> and \<open>rt_protected\<close> are \<open>full_evictable\<close> and
  \<open>full_protected\<close>. As there, the heap takes the first node with the least time stamp.
\<close>

section \<open>The cache\<close>

record htree =
  hc_tree :: rtree
  hc_mev :: int
  hc_mprot :: int

definition init_hybrid :: "nat \<Rightarrow> int \<Rightarrow> htree" where
  "init_hybrid page tic = \<lparr>hc_tree = init_tree page tic, hc_mev = 0, hc_mprot = 0\<rparr>"

definition hybrid_walk :: "int \<Rightarrow> int list \<Rightarrow> rtree \<Rightarrow> (rtree \<times> nat \<times> nat) result option" where
  "hybrid_walk tic input_ids t = tree_walk tic input_ids 0 0 t"

partial_function (option) path_len :: "rtree \<Rightarrow> nat \<Rightarrow> nat \<Rightarrow> nat option" where
  "path_len t i acc =
     (case rn_parent (rt_node t i) of
        None \<Rightarrow> Some acc
      | Some p \<Rightarrow> path_len t p (acc + node_length t i))"

definition collect_kv :: "rtree \<Rightarrow> nat \<Rightarrow> int list option" where
  "collect_kv t i = map_option concat (matched_values t i [])"

record hybrid_match =
  hm_kv :: "int list"
  hm_len :: int
  hm_mamba :: "nat option"
  hm_node :: nat

text \<open>The walk up to the deepest node with a snapshot\<close>

partial_function (option) deepest_snapshot :: "rtree \<Rightarrow> nat \<Rightarrow> int \<Rightarrow> hybrid_match option" where
  "deepest_snapshot t cur end_len =
     (case rn_parent (rt_node t cur) of
        None \<Rightarrow> Some \<lparr>hm_kv = [], hm_len = 0, hm_mamba = None, hm_node = 0\<rparr>
      | Some p \<Rightarrow>
          (case rn_mamba (rt_node t cur) of
             Some s \<Rightarrow> map_option (\<lambda>kv. \<lparr>hm_kv = kv, hm_len = end_len, hm_mamba = Some s, hm_node = cur\<rparr>)
                          (collect_kv t cur)
           | None \<Rightarrow> deepest_snapshot t p (end_len - int (node_length t cur))))"

definition hybrid_match_prefix :: "int \<Rightarrow> int list \<Rightarrow> htree \<Rightarrow> (htree \<times> hybrid_match) result option" where
  "hybrid_match_prefix tic input_ids h =
     Option.bind (hybrid_walk tic input_ids (hc_tree h)) (\<lambda>r.
       case r of
         Inl e \<Rightarrow> Some (Inl e)
       | Inr (t, node, _) \<Rightarrow>
           Option.bind (path_len t node 0) (\<lambda>len.
             map_option (\<lambda>m. ok (h\<lparr>hc_tree := t\<rparr>, m)) (deepest_snapshot t node (int len))))"

definition set_mamba :: "nat \<Rightarrow> nat option \<Rightarrow> rtree \<Rightarrow> rtree" where
  "set_mamba i s t = update_node i (\<lambda>n. n\<lparr>rn_mamba := s\<rparr>) t"

definition hybrid_insert ::
  "int \<Rightarrow> int \<Rightarrow> int list \<Rightarrow> int list \<Rightarrow> nat \<Rightarrow> htree \<Rightarrow> (htree \<times> nat \<times> bool) result option" where
  "hybrid_insert tic tic' input_ids kv slot h =
     map_option (\<lambda>r. rbind r (\<lambda>(t, prefix_len, hd).
       let node = hd_node hd in
       if is_root t node then ok (h\<lparr>hc_tree := t\<rparr>, prefix_len, True)
       else if rn_mamba (rt_node t node) \<noteq> None then ok (h\<lparr>hc_tree := t\<rparr>, prefix_len, True)
       else ok (h\<lparr>hc_tree := set_mamba node (Some slot) t,
                  hc_mev := hc_mev h + (if rn_mamba_ref (rt_node t node) = 0 then 1 else 0)\<rparr>, prefix_len, False)))
       (insert_prefix tic tic' input_ids kv (hc_tree h))"

section \<open>Locks\<close>

definition set_mamba_ref :: "nat \<Rightarrow> int \<Rightarrow> rtree \<Rightarrow> rtree" where
  "set_mamba_ref i r t = update_node i (\<lambda>n. n\<lparr>rn_mamba_ref := r\<rparr>) t"

definition inc_lock :: "nat \<Rightarrow> htree \<Rightarrow> htree result option" where
  "inc_lock i h =
     (let n = rt_node (hc_tree h) i;
          h = (if rn_mamba n \<noteq> None
               then (let h = (if rn_mamba_ref n = 0 then h\<lparr>hc_mev := hc_mev h - 1, hc_mprot := hc_mprot h + 1\<rparr> else h)
                     in h\<lparr>hc_tree := set_mamba_ref i (rn_mamba_ref n + 1) (hc_tree h)\<rparr>)
               else h)
      in map_option (\<lambda>r. rbind r (\<lambda>t. ok (h\<lparr>hc_tree := t\<rparr>))) (lock_loop False i (hc_tree h)))"

definition dec_lock :: "nat \<Rightarrow> htree \<Rightarrow> htree result option" where
  "dec_lock i h =
     (let n = rt_node (hc_tree h) i;
          h = (if rn_mamba n \<noteq> None \<and> rn_mamba_ref n > 0
               then (let h = h\<lparr>hc_tree := set_mamba_ref i (rn_mamba_ref n - 1) (hc_tree h)\<rparr>
                     in if rn_mamba_ref n - 1 = 0 then h\<lparr>hc_mev := hc_mev h + 1, hc_mprot := hc_mprot h - 1\<rparr> else h)
               else h)
      in map_option (\<lambda>r. rbind r (\<lambda>t. ok (h\<lparr>hc_tree := t\<rparr>))) (lock_loop True i (hc_tree h)))"

section \<open>Eviction\<close>

definition free_mamba :: "nat \<Rightarrow> htree \<Rightarrow> htree" where
  "free_mamba i h =
     (let n = rt_node (hc_tree h) i in
      if rn_mamba n = None then h
      else h\<lparr>hc_tree := set_mamba i None (hc_tree h),
             hc_mev := (if rn_mamba_ref n = 0 then hc_mev h - 1 else hc_mev h)\<rparr>)"

definition mamba_out :: "nat \<Rightarrow> htree \<Rightarrow> nat list" where
  "mamba_out i h = (case rn_mamba (rt_node (hc_tree h) i) of None \<Rightarrow> [] | Some s \<Rightarrow> [s])"

text \<open>\<open>_cascade_tombstone_leaves\<close>: the tree, the surviving ancestor, the indices and their number\<close>

partial_function (option) cascade ::
  "nat \<Rightarrow> rtree \<Rightarrow> int list list \<Rightarrow> int \<Rightarrow> (rtree \<times> nat \<times> int list list \<times> int) option" where
  "cascade parent t kv freed =
     (case rn_parent (rt_node t parent) of
        None \<Rightarrow> Some (t, parent, kv, freed)
      | Some q \<Rightarrow>
          (if rn_mamba (rt_node t parent) = None \<and> is_leaf t parent \<and> rn_ref (rt_node t parent) = 0
           then cascade q (unlink q parent t) (kv @ [rn_value (rt_node t parent)]) (freed + int (node_length t parent))
           else Some (t, parent, kv, freed)))"

partial_function (option) full_loop ::
  "int \<Rightarrow> htree \<Rightarrow> nat list \<Rightarrow> int \<Rightarrow> int list list \<Rightarrow> nat list \<Rightarrow> (htree \<times> int list list \<times> nat list) option" where
  "full_loop need h leaves freed kv mamba =
     (if freed < need then
        (case pop_min (\<lambda>i. rn_ts (rt_node (hc_tree h) i)) leaves of
           None \<Rightarrow> Some (h, kv, mamba)
         | Some (node, rest) \<Rightarrow>
             (case rn_parent (rt_node (hc_tree h) node) of
                None \<Rightarrow> full_loop need h rest freed kv mamba
              | Some p \<Rightarrow>
                  (if rn_ref (rt_node (hc_tree h) node) \<noteq> 0 \<or> \<not> is_leaf (hc_tree h) node
                   then full_loop need h rest freed kv mamba
                   else
                     (let h' = free_mamba node h in
                      Option.bind (cascade p (unlink p node (hc_tree h')) (kv @ [rn_value (rt_node (hc_tree h) node)])
                          (freed + int (node_length (hc_tree h) node))) (\<lambda>(t, parent, kv, freed).
                        full_loop need (h'\<lparr>hc_tree := t\<rparr>)
                          (if is_leaf t parent \<and> rn_ref (rt_node t parent) = 0 \<and> \<not> is_root t parent
                           then rest @ [parent] else rest)
                          freed kv (mamba @ mamba_out node h))))))
      else Some (h, kv, mamba))"

record evict_result =
  er_kv :: "int list"
  er_mamba :: "nat list"

definition evict_full :: "int \<Rightarrow> htree \<Rightarrow> (htree \<times> evict_result) option" where
  "evict_full need h =
     Option.bind (collect_leaves (hc_tree h) [0] []) (\<lambda>leaves.
       map_option (\<lambda>(h, kv, mamba). (h, \<lparr>er_kv = concat kv, er_mamba = mamba\<rparr>))
         (full_loop need h (filter (\<lambda>i. \<not> is_root (hc_tree h) i) leaves) 0 [] []))"

partial_function (option) snapshot_nodes :: "rtree \<Rightarrow> nat list \<Rightarrow> nat list \<Rightarrow> nat list option" where
  "snapshot_nodes t stack acc =
     (case stack of
        [] \<Rightarrow> Some acc
      | node # stack' \<Rightarrow>
          snapshot_nodes t (rev (map snd (rn_children (rt_node t node))) @ stack')
            (if rn_mamba (rt_node t node) \<noteq> None \<and> \<not> is_root t node then acc @ [node] else acc))"

partial_function (option) mamba_loop ::
  "nat \<Rightarrow> htree \<Rightarrow> nat list \<Rightarrow> nat \<Rightarrow> int list list \<Rightarrow> nat list \<Rightarrow> (htree \<times> int list list \<times> nat list) option" where
  "mamba_loop need h cands freed kv mamba =
     (if freed < need then
        (case pop_min (\<lambda>i. rn_ts (rt_node (hc_tree h) i)) cands of
           None \<Rightarrow> Some (h, kv, mamba)
         | Some (node, rest) \<Rightarrow>
             (case rn_parent (rt_node (hc_tree h) node) of
                None \<Rightarrow> mamba_loop need h rest freed kv mamba
              | Some p \<Rightarrow>
                  (if rn_mamba (rt_node (hc_tree h) node) = None \<or> rn_mamba_ref (rt_node (hc_tree h) node) \<noteq> 0
                   then mamba_loop need h rest freed kv mamba
                   else if is_leaf (hc_tree h) node \<and> rn_ref (rt_node (hc_tree h) node) = 0
                   then (let h' = free_mamba node h in
                         Option.bind (cascade p (unlink p node (hc_tree h')) (kv @ [rn_value (rt_node (hc_tree h) node)]) 0)
                           (\<lambda>(t, _, kv, _). mamba_loop need (h'\<lparr>hc_tree := t\<rparr>) rest (freed + 1) kv
                              (mamba @ mamba_out node h)))
                   else mamba_loop need (free_mamba node h) rest (freed + 1) kv (mamba @ mamba_out node h))))
      else Some (h, kv, mamba))"

definition evict_mamba :: "nat \<Rightarrow> htree \<Rightarrow> (htree \<times> evict_result) option" where
  "evict_mamba need h =
     Option.bind (snapshot_nodes (hc_tree h) [0] []) (\<lambda>cands.
       map_option (\<lambda>(h, kv, mamba). (h, \<lparr>er_kv = concat kv, er_mamba = mamba\<rparr>))
         (mamba_loop need h (filter (\<lambda>i. rn_mamba_ref (rt_node (hc_tree h) i) = 0) cands) 0 [] []))"

declare path_len.simps [code] deepest_snapshot.simps [code] cascade.simps [code] full_loop.simps [code]
  snapshot_nodes.simps [code] mamba_loop.simps [code]

section \<open>The invariant\<close>

text \<open>The nodes with a snapshot whose lock count satisfies \<open>P\<close>, and the slots the tree owns\<close>

definition snap_nodes :: "(int \<Rightarrow> bool) \<Rightarrow> rtree \<Rightarrow> nat set" where
  "snap_nodes P t = {i \<in> live_nodes t. rn_mamba (rt_node t i) \<noteq> None \<and> P (rn_mamba_ref (rt_node t i))}"

definition tree_slots :: "rtree \<Rightarrow> nat multiset" where
  "tree_slots t = image_mset (\<lambda>i. the (rn_mamba (rt_node t i))) (mset_set (snap_nodes (\<lambda>_. True) t))"

text \<open>A snapshot counts the locked handles at its node, a locked node other than the root owns a snapshot, and
  a leaf owns one unless it is in \<open>X\<close>.\<close>

definition marks_ok :: "nat set \<Rightarrow> rtree \<Rightarrow> nat list \<Rightarrow> bool" where
  "marks_ok X t L \<longleftrightarrow> rn_mamba (rt_node t 0) = None
     \<and> (\<forall>i \<in> live_nodes t. rn_mamba_ref (rt_node t i) = (if rn_mamba (rt_node t i) = None then 0 else int (count_list L i)))
     \<and> (\<forall>i \<in> set L. i \<noteq> 0 \<longrightarrow> rn_mamba (rt_node t i) \<noteq> None)
     \<and> (\<forall>i \<in> live_nodes t. is_leaf t i \<longrightarrow> i \<notin> X \<longrightarrow> rn_mamba (rt_node t i) \<noteq> None)"

definition hinv :: "htree \<Rightarrow> nat list \<Rightarrow> bool" where
  "hinv h L \<longleftrightarrow> rinv (hc_tree h) L \<and> marks_ok {} (hc_tree h) L
     \<and> hc_mev h = int (card (snap_nodes (\<lambda>r. r = 0) (hc_tree h)))
     \<and> hc_mprot h = int (card (snap_nodes (\<lambda>r. r \<noteq> 0) (hc_tree h)))"

lemma hinvD:
  assumes "hinv h L"
  shows "rinv (hc_tree h) L" "marks_ok {} (hc_tree h) L"
    "hc_mev h = int (card (snap_nodes (\<lambda>r. r = 0) (hc_tree h)))"
    "hc_mprot h = int (card (snap_nodes (\<lambda>r. r \<noteq> 0) (hc_tree h)))"
  using assms by (simp_all add: hinv_def)

lemma marks_okD:
  assumes "marks_ok X t L"
  shows "rn_mamba (rt_node t 0) = None"
    "i \<in> live_nodes t \<Longrightarrow> rn_mamba_ref (rt_node t i) = (if rn_mamba (rt_node t i) = None then 0 else int (count_list L i))"
    "i \<in> set L \<Longrightarrow> i \<noteq> 0 \<Longrightarrow> rn_mamba (rt_node t i) \<noteq> None"
    "i \<in> live_nodes t \<Longrightarrow> is_leaf t i \<Longrightarrow> i \<notin> X \<Longrightarrow> rn_mamba (rt_node t i) \<noteq> None"
  using assms by (simp_all add: marks_ok_def)

lemma snap_nodes_live: "snap_nodes P t \<subseteq> live_nodes t"
  by (auto simp: snap_nodes_def)

lemma finite_snap: "rinv t L \<Longrightarrow> finite (snap_nodes P t)"
  using finite_subset [OF snap_nodes_live finite_live] rinvD(1) by blast

lemma rinv_same:
  assumes "same_shape t t'" "\<And>j. rn_ref (rt_node t' j) = rn_ref (rt_node t j)"
    "rt_evictable t' = rt_evictable t" "rt_protected t' = rt_protected t"
  shows "rinv t' L = rinv t L"
proof -
  have "node_length t' j = node_length t j" for j using assms(1) by (simp add: node_length_def same_shape_def)
  then have "weight (\<lambda>n. P (rn_ref n)) t' = weight (\<lambda>n. P (rn_ref n)) t" for P
    by (intro weight_same) (simp_all add: same_shape_live_nodes [OF assms(1)] assms(2))
  from this [of "\<lambda>x. x = 0"] this [of "\<lambda>x. x \<noteq> 0"] show ?thesis
    by (simp add: rinv_def same_shape_rwf [OF assms(1)] sizes_ok_def refs_ok_def same_shape_live [OF assms(1)]
        same_shape_live_nodes [OF assms(1)] same_shape_up [OF assms(1)] assms(2-4))
qed

lemma set_mamba_sel [simp]:
  "rt_page (set_mamba i s t) = rt_page t" "rt_evictable (set_mamba i s t) = rt_evictable t"
  "rt_protected (set_mamba i s t) = rt_protected t"
  "rn_mamba (rt_node (set_mamba i s t) j) = (if j = i then s else rn_mamba (rt_node t j))"
  "rn_mamba_ref (rt_node (set_mamba i s t) j) = rn_mamba_ref (rt_node t j)"
  "rn_ref (rt_node (set_mamba i s t) j) = rn_ref (rt_node t j)"
  "rn_parent (rt_node (set_mamba i s t) j) = rn_parent (rt_node t j)"
  "rn_value (rt_node (set_mamba i s t) j) = rn_value (rt_node t j)"
  "node_length (set_mamba i s t) j = node_length t j" "is_leaf (set_mamba i s t) j = is_leaf t j"
  by (simp_all add: set_mamba_def update_node_def node_length_def is_leaf_def)

lemma set_mamba_ref_sel [simp]:
  "rt_page (set_mamba_ref i r t) = rt_page t" "rt_evictable (set_mamba_ref i r t) = rt_evictable t"
  "rt_protected (set_mamba_ref i r t) = rt_protected t"
  "rn_mamba (rt_node (set_mamba_ref i r t) j) = rn_mamba (rt_node t j)"
  "rn_mamba_ref (rt_node (set_mamba_ref i r t) j) = (if j = i then r else rn_mamba_ref (rt_node t j))"
  "rn_ref (rt_node (set_mamba_ref i r t) j) = rn_ref (rt_node t j)"
  "is_leaf (set_mamba_ref i r t) j = is_leaf t j"
  by (simp_all add: set_mamba_ref_def update_node_def is_leaf_def)

lemma set_mamba_shape: "same_shape t (set_mamba i s t)" "same_shape t (set_mamba_ref i r t)"
  unfolding set_mamba_def set_mamba_ref_def by (rule same_shape_update; simp)+

lemma set_mamba_rinv [simp]: "rinv (set_mamba i s t) L = rinv t L" "rinv (set_mamba_ref i r t) L = rinv t L"
  by (rule rinv_same [OF set_mamba_shape(1)] rinv_same [OF set_mamba_shape(2)]; simp)+

lemma set_mamba_live [simp]: "live_nodes (set_mamba i s t) = live_nodes t" "live_nodes (set_mamba_ref i r t) = live_nodes t"
  by (simp_all add: same_shape_live_nodes [OF set_mamba_shape(1)] same_shape_live_nodes [OF set_mamba_shape(2)])

section \<open>What the walk leaves\<close>

lemma marks_kept:
  assumes "keeps_marks N t t'" "rwf t" "\<And>i ys us. spells t i ys us \<Longrightarrow> spells t' i ys us"
  shows "snap_nodes P t' = snap_nodes P t" "tree_slots t' = tree_slots t"
    "\<And>L. (\<forall>h \<in> set L. live t h) \<Longrightarrow> marks_ok X t L \<Longrightarrow> marks_ok (X \<union> N) t' L"
proof -
  note k = assms(1) [unfolded keeps_marks_def] and lt = rwfD(3) [OF assms(2)]
  have sub: "live t i \<Longrightarrow> live t' i" for i using assms(3) unfolding live_def by blast
  have old: "i < rt_next t \<Longrightarrow> i \<in> live_nodes t' \<longleftrightarrow> i \<in> live_nodes t" for i
    using k sub by (auto simp: live_nodes_def)
  have new: "i \<in> live_nodes t' \<Longrightarrow> \<not> i < rt_next t \<Longrightarrow> rn_mamba (rt_node t' i) = None \<and> rn_mamba_ref (rt_node t' i) = 0
      \<and> (is_leaf t' i \<longrightarrow> i \<in> N)" for i
    using k by (auto simp: live_nodes_def)
  have lts: "i \<in> live_nodes t \<Longrightarrow> i < rt_next t" for i using lt by (simp add: live_nodes_def)
  have iff: "i \<in> snap_nodes P t' \<longleftrightarrow> i \<in> snap_nodes P t" for i P
    using k old [of i] new [of i] lts [of i] unfolding snap_nodes_def by (cases "i < rt_next t") auto
  then show sn: "snap_nodes P t' = snap_nodes P t" for P by blast
  have "rn_mamba (rt_node t' i) = rn_mamba (rt_node t i)" if "i \<in> snap_nodes (\<lambda>_. True) t" for i
    using that k lts snap_nodes_live by blast
  then show "tree_slots t' = tree_slots t"
    unfolding tree_slots_def sn by (intro image_mset_cong) (metis elem_mset_set finite_subset finite_live [OF assms(2)] snap_nodes_live)
  show "marks_ok (X \<union> N) t' L" if L: "\<forall>h \<in> set L. live t h" and m: "marks_ok X t L" for L
    unfolding marks_ok_def
  proof (intro conjI ballI impI)
    show "rn_mamba (rt_node t' 0) = None" using marks_okD(1) [OF m] k lt [OF live_root] by simp
    show "rn_mamba_ref (rt_node t' i) = (if rn_mamba (rt_node t' i) = None then 0 else int (count_list L i))"
      if "i \<in> live_nodes t'" for i
      using marks_okD(2) [OF m, of i] old [of i] new [of i] that k by (cases "i < rt_next t") auto
    show "rn_mamba (rt_node t' i) \<noteq> None" if "i \<in> set L" "i \<noteq> 0" for i
      using marks_okD(3) [OF m that] k lt [of i] L that(1) by simp
    show "rn_mamba (rt_node t' i) \<noteq> None" if "i \<in> live_nodes t'" "is_leaf t' i" "i \<notin> X \<union> N" for i
      using marks_okD(4) [OF m, of i] old [of i] new [of i] that k by (cases "i < rt_next t") (auto simp: live_nodes_def)
  qed
qed

section \<open>Matching\<close>

lemma up_last_step: "up t b p \<Longrightarrow> b \<noteq> p \<Longrightarrow> \<exists>c. up t b c \<and> rn_parent (rt_node t c) = Some p"
  unfolding up_def by (metis (mono_tags, lifting) rtranclp.cases)

text \<open>A node whose text is a prefix of another's lies above it.\<close>

lemma prefix_up:
  assumes "spells t a ys us" "rwf t" "spells t b zs ws" "take (length ys) zs = ys"
  shows "up t b a"
  using assms
proof (induction arbitrary: zs ws rule: spells.induct)
  case at_root
  show ?case
  proof -
    have "spells t b zs ws \<Longrightarrow> up t b 0"
    proof (induction rule: spells.induct)
      case (at_child q xs vs k c)
      have "rn_parent (rt_node t c) = Some q"
        using rwfD(4) [OF at_root(1) at_live [OF at_child.hyps(1)] at_child.hyps(2)] by (simp add: linked_def)
      then show ?case using up_step at_child.IH by blast
    qed simp
    then show ?thesis using at_root by blast
  qed
next
  case (at_child p xs vs k a)
  let ?ka = "rn_key (rt_node t a)" and ?page = "rt_page t"
  have w: "rwf t" by fact
  have la: "linked t p k a" using rwfD(4) [OF w at_live [OF at_child.hyps(1)] at_child.hyps(2)] .
  have pre: "take (length (xs @ ?ka)) zs = xs @ ?ka" by fact
  have up: "up t b p"
    by (rule at_child.IH [OF w at_child.prems(2)]) (rule take_append_prefix [OF pre])
  have "b \<noteq> p"
  proof
    assume "b = p"
    then have "zs = xs" using at_unique [OF at_child.hyps(1) w] at_child.prems(2) by blast
    then have "length (xs @ ?ka) \<le> length xs" using pre by (metis length_take min.cobounded1 min.absorb_iff2 take_all_iff nle_le)
    then show False using la by (simp add: linked_def)
  qed
  then obtain c where c: "up t b c" "rn_parent (rt_node t c) = Some p" using up_last_step [OF up] by blast
  obtain cs cv where cs: "spells t c cs cv" "take (length cs) zs = cs" "length cs \<le> length zs"
    using up_spells [OF c(1) w at_child.prems(2)] by blast
  obtain k' where k': "map_of (rn_children (rt_node t p)) k' = Some c" "linked t p k' c"
    using parent_live(3) [OF w at_live [OF cs(1)] c(2)] by blast
  let ?kc = "rn_key (rt_node t c)"
  have "spells t c (xs @ ?kc) (vs @ rn_value (rt_node t c))" by (rule spells.at_child [OF at_child.hyps(1) k'(1)])
  then have ceq: "cs = xs @ ?kc" using at_unique [OF cs(1) w] by blast
  have pg: "?page \<le> length ?ka" "?page \<le> length ?kc" "0 < ?page"
    using la k'(2) rwfD(1) [OF w] aligned_ge [of ?page] by (auto simp: linked_def)
  have "drop (length xs) zs = ?ka @ drop (length (xs @ ?ka)) zs"
    using pre by (metis append_assoc append_eq_conv_conj append_take_drop_id)
  moreover have "drop (length xs) zs = ?kc @ drop (length (xs @ ?kc)) zs"
    using cs(2) unfolding ceq by (metis append_assoc append_eq_conv_conj append_take_drop_id)
  ultimately have "take ?page (?ka @ drop (length (xs @ ?ka)) zs) = take ?page (?kc @ drop (length (xs @ ?kc)) zs)" by metis
  then have "take ?page ?ka = take ?page ?kc" using pg by simp
  then have "k = k'" using la k'(2) by (simp add: linked_def key_fn_def)
  then show ?case using at_child.hyps(2) k'(1) c(1) by simp
qed

lemma path_len_ok: "spells t i xs vs \<Longrightarrow> rwf t \<Longrightarrow> path_len t i acc = Some (acc + length xs)"
proof (induction "length xs" arbitrary: i xs vs acc rule: less_induct)
  case less
  from less.prems(2,1) show ?case
  proof (cases rule: at_cases)
    case at_top
    then show ?thesis using rwfD(2) [OF less.prems(2)] by (subst path_len.simps) simp
  next
    case (at_below p k ys us)
    then have "length ys < length xs" by (simp add: linked_def)
    then have "path_len t p (acc + node_length t i) = Some (acc + node_length t i + length ys)"
      using less.hyps at_below(3) less.prems(2) by blast
    then show ?thesis using at_below by (subst path_len.simps) (simp add: node_length_def)
  qed
qed

lemma collect_kv_ok: "rwf t \<Longrightarrow> spells t i xs vs \<Longrightarrow> collect_kv t i = Some vs"
  using matched_values_ok [of t i xs vs "[]"] by (auto simp: collect_kv_def)

definition cold_match :: hybrid_match where
  "cold_match = \<lparr>hm_kv = [], hm_len = 0, hm_mamba = None, hm_node = 0\<rparr>"

lemma deepest_snapshot_ok:
  assumes "spells t i xs vs" "rwf t"
  shows "\<exists>m. deepest_snapshot t i (int (length xs)) = Some m
    \<and> (m = cold_match \<and> (\<forall>j. up t i j \<longrightarrow> j \<noteq> 0 \<longrightarrow> rn_mamba (rt_node t j) = None)
      \<or> (\<exists>ys us s. up t i (hm_node m) \<and> hm_node m \<noteq> 0 \<and> rn_mamba (rt_node t (hm_node m)) = Some s
          \<and> spells t (hm_node m) ys us \<and> m = \<lparr>hm_kv = us, hm_len = int (length ys), hm_mamba = Some s, hm_node = hm_node m\<rparr>
          \<and> (\<forall>j. up t i j \<longrightarrow> j \<noteq> 0 \<longrightarrow> rn_mamba (rt_node t j) \<noteq> None \<longrightarrow> up t (hm_node m) j)))"
  using assms
proof (induction "length xs" arbitrary: i xs vs rule: less_induct)
  case less
  from less.prems(2,1) show ?case
  proof (cases rule: at_cases)
    case at_top
    then show ?thesis using rwfD(2) [OF less.prems(2)]
      by (subst deepest_snapshot.simps) (auto simp: up_top cold_match_def)
  next
    case (at_below p k ys us)
    show ?thesis
    proof (cases "rn_mamba (rt_node t i)")
      case None
      have "length ys < length xs" using at_below by (simp add: linked_def)
      note IH = less.hyps [OF this at_below(3) less.prems(2)]
      have "deepest_snapshot t i (int (length xs)) = deepest_snapshot t p (int (length ys))"
        using None at_below by (subst deepest_snapshot.simps) (simp add: node_length_def)
      then show ?thesis using IH up_step [OF at_below(2)] None by metis
    next
      case (Some s)
      let ?m = "\<lparr>hm_kv = vs, hm_len = int (length xs), hm_mamba = Some s, hm_node = i\<rparr>"
      have "deepest_snapshot t i (int (length xs)) = Some ?m"
        using Some at_below(2) collect_kv_ok [OF less.prems(2,1)] by (subst deepest_snapshot.simps) simp
      moreover have "\<exists>ys us s. up t i (hm_node ?m) \<and> hm_node ?m \<noteq> 0 \<and> rn_mamba (rt_node t (hm_node ?m)) = Some s
          \<and> spells t (hm_node ?m) ys us \<and> ?m = \<lparr>hm_kv = us, hm_len = int (length ys), hm_mamba = Some s, hm_node = hm_node ?m\<rparr>
          \<and> (\<forall>j. up t i j \<longrightarrow> j \<noteq> 0 \<longrightarrow> rn_mamba (rt_node t j) \<noteq> None \<longrightarrow> up t (hm_node ?m) j)"
        by (rule exI [of _ xs], rule exI [of _ vs], rule exI [of _ s]) (use Some at_below(1) less.prems(1) in simp)
      ultimately show ?thesis by blast
    qed
  qed
qed

text \<open>\<open>snapshot_at t ys s\<close>: the tree owns the slot \<open>s\<close> for the state behind the tokens \<open>ys\<close>.\<close>

definition snapshot_at :: "rtree \<Rightarrow> int list \<Rightarrow> nat \<Rightarrow> bool" where
  "snapshot_at t ys s \<longleftrightarrow> (\<exists>i us. i \<noteq> 0 \<and> spells t i ys us \<and> rn_mamba (rt_node t i) = Some s)"

lemma marks_snapshot_at:
  assumes "keeps_marks N t t'" "rwf t" "rwf t'" "\<And>i ys us. spells t i ys us \<Longrightarrow> spells t' i ys us"
  shows "snapshot_at t' ys s \<longleftrightarrow> snapshot_at t ys s"
proof
  note k = assms(1) [unfolded keeps_marks_def]
  show "snapshot_at t' ys s \<Longrightarrow> snapshot_at t ys s"
  proof -
    assume "snapshot_at t' ys s"
    then obtain i us where i: "i \<noteq> 0" "spells t' i ys us" "rn_mamba (rt_node t' i) = Some s" by (auto simp: snapshot_at_def)
    have lv: "live t' i" by (rule at_live [OF i(2)])
    then have lt: "i < rt_next t" using k i(3) by (metis not_le option.distinct(1))
    then obtain zs ws where z: "spells t i zs ws" using k lv unfolding live_def by blast
    then have "zs = ys" using assms(4) at_unique [OF i(2) assms(3)] by blast
    then show ?thesis using z i k lt unfolding snapshot_at_def by metis
  qed
  show "snapshot_at t' ys s" if at: "snapshot_at t ys s"
  proof -
    obtain i us where i: "i \<noteq> 0" "spells t i ys us" "rn_mamba (rt_node t i) = Some s"
      using at by (auto simp: snapshot_at_def)
    then have "rn_mamba (rt_node t' i) = Some s" using k rwfD(3) [OF assms(2) at_live [OF i(2)]] by simp
    then show ?thesis unfolding snapshot_at_def by (intro exI [of _ i] exI [of _ us] conjI i(1) assms(4) [OF i(2)])
  qed
qed

lemma hinv_tree:
  assumes "hinv h L" "keeps_marks N (hc_tree h) t'" "\<And>i ys us. spells (hc_tree h) i ys us \<Longrightarrow> spells t' i ys us"
    and "rinv t' L" "N = {}"
  shows "hinv (h\<lparr>hc_tree := t'\<rparr>) L" "tree_slots t' = tree_slots (hc_tree h)"
proof -
  note v = hinvD [OF assms(1)] and w = rinvD(1) [OF hinvD(1) [OF assms(1)]]
  note k = marks_kept [OF assms(2) w assms(3)]
  have "\<forall>x \<in> set L. live (hc_tree h) x" using rinvD(3) [OF v(1)] by (simp add: refs_ok_def)
  then have "marks_ok {} t' L" using k(3) [of L "{}"] v(2) assms(5) by simp
  then show "hinv (h\<lparr>hc_tree := t'\<rparr>) L" using assms(4) v(3,4) k(1) by (simp add: hinv_def)
  show "tree_slots t' = tree_slots (hc_tree h)" by (rule k(2))
qed

lemma hybrid_match_ok:
  assumes "hinv h L"
  obtains h' m where "hybrid_match_prefix tic xs h = Some (ok (h', m))" "hinv h' L"
    "tree_slots (hc_tree h') = tree_slots (hc_tree h)" "tree_pages (hc_tree h') = tree_pages (hc_tree h)"
    "\<And>ys s. snapshot_at (hc_tree h') ys s \<longleftrightarrow> snapshot_at (hc_tree h) ys s"
    "hm_node m = 0 \<and> m = cold_match \<or> hm_node m \<noteq> 0 \<and> live (hc_tree h') (hm_node m)
       \<and> rn_mamba (rt_node (hc_tree h') (hm_node m)) = hm_mamba m \<and> hm_mamba m \<noteq> None
       \<and> spells (hc_tree h') (hm_node m) (take (nat (hm_len m)) xs) (hm_kv m) \<and> 0 \<le> hm_len m \<and> hm_len m \<le> int (length xs)"
    "\<And>ys s. snapshot_at (hc_tree h) ys s \<Longrightarrow> take (length ys) xs = ys \<Longrightarrow> int (length ys) \<le> hm_len m"
    "\<And>i ys us. spells (hc_tree h) i ys us \<Longrightarrow> spells (hc_tree h') i ys us"
proof -
  note v = hinvD [OF assms]
  obtain t node n vs where w: "tree_walk tic xs 0 0 (hc_tree h) = Some (ok (t, node, n))" "rinv t L" "preserves (hc_tree h) t"
      "n \<le> length xs" "spells t node (take n xs) vs"
    and reach: "\<And>ys us. holds (hc_tree h) ys us \<Longrightarrow> take (length ys) xs = ys \<Longrightarrow> length ys \<le> n"
    by (rule holds_unique_walk [OF v(1), of tic xs]) blast
  note pr = w(3) [unfolded preserves_def]
  have wf: "rwf (hc_tree h)" "rwf t" using rinvD(1) v(1) w(2) by blast+
  have sp: "spells (hc_tree h) i ys us \<Longrightarrow> spells t i ys us" for i ys us using pr by blast
  note H = hinv_tree [OF assms, of "{}" t] and S = marks_snapshot_at [of "{}" "hc_tree h" t, OF _ wf sp]
  obtain m where m: "deepest_snapshot t node (int n) = Some m"
    and d: "m = cold_match \<and> (\<forall>j. up t node j \<longrightarrow> j \<noteq> 0 \<longrightarrow> rn_mamba (rt_node t j) = None)
      \<or> (\<exists>ys us s. up t node (hm_node m) \<and> hm_node m \<noteq> 0 \<and> rn_mamba (rt_node t (hm_node m)) = Some s
          \<and> spells t (hm_node m) ys us \<and> m = \<lparr>hm_kv = us, hm_len = int (length ys), hm_mamba = Some s, hm_node = hm_node m\<rparr>
          \<and> (\<forall>j. up t node j \<longrightarrow> j \<noteq> 0 \<longrightarrow> rn_mamba (rt_node t j) \<noteq> None \<longrightarrow> up t (hm_node m) j))"
    using deepest_snapshot_ok [OF w(5) wf(2)] w(4) by (auto simp: min_absorb2)
  have res: "hybrid_match_prefix tic xs h = Some (ok (h\<lparr>hc_tree := t\<rparr>, m))"
    using w(1,4) m path_len_ok [OF w(5) wf(2), of 0] by (simp add: hybrid_match_prefix_def hybrid_walk_def min_absorb2)
  show thesis
  proof (rule that [OF res])
    show "hinv (h\<lparr>hc_tree := t\<rparr>) L" "tree_slots (hc_tree (h\<lparr>hc_tree := t\<rparr>)) = tree_slots (hc_tree h)"
      using H sp pr w(2) by simp_all
    show "tree_pages (hc_tree (h\<lparr>hc_tree := t\<rparr>)) = tree_pages (hc_tree h)" using pr by simp
    show "snapshot_at (hc_tree (h\<lparr>hc_tree := t\<rparr>)) ys s \<longleftrightarrow> snapshot_at (hc_tree h) ys s" for ys s using S pr by simp
    show "spells (hc_tree (h\<lparr>hc_tree := t\<rparr>)) i ys us" if "spells (hc_tree h) i ys us" for i ys us using sp that by simp
    show "hm_node m = 0 \<and> m = cold_match \<or> hm_node m \<noteq> 0 \<and> live (hc_tree (h\<lparr>hc_tree := t\<rparr>)) (hm_node m)
       \<and> rn_mamba (rt_node (hc_tree (h\<lparr>hc_tree := t\<rparr>)) (hm_node m)) = hm_mamba m \<and> hm_mamba m \<noteq> None
       \<and> spells (hc_tree (h\<lparr>hc_tree := t\<rparr>)) (hm_node m) (take (nat (hm_len m)) xs) (hm_kv m) \<and> 0 \<le> hm_len m \<and> hm_len m \<le> int (length xs)"
      using d
    proof
      assume "\<exists>ys us s. up t node (hm_node m) \<and> hm_node m \<noteq> 0 \<and> rn_mamba (rt_node t (hm_node m)) = Some s
          \<and> spells t (hm_node m) ys us \<and> m = \<lparr>hm_kv = us, hm_len = int (length ys), hm_mamba = Some s, hm_node = hm_node m\<rparr>
          \<and> (\<forall>j. up t node j \<longrightarrow> j \<noteq> 0 \<longrightarrow> rn_mamba (rt_node t j) \<noteq> None \<longrightarrow> up t (hm_node m) j)"
      then obtain ys us s where y: "up t node (hm_node m)" "hm_node m \<noteq> 0" "rn_mamba (rt_node t (hm_node m)) = Some s"
          "spells t (hm_node m) ys us" and meq: "m = \<lparr>hm_kv = us, hm_len = int (length ys), hm_mamba = Some s, hm_node = hm_node m\<rparr>"
        by blast
      have sel: "hm_kv m = us" "hm_len m = int (length ys)" "hm_mamba m = Some s"
        by (subst meq, simp)+
      obtain zs ws where "spells t (hm_node m) zs ws" "take (length zs) (take n xs) = zs" "length zs \<le> length (take n xs)"
        using up_spells [OF y(1) wf(2) w(5)] by blast
      then have "take (length ys) xs = ys" "length ys \<le> length xs"
        using at_unique [OF y(4) wf(2)] w(4) by (auto simp: min_def split: if_splits)
      then show ?thesis using y at_live [OF y(4)] by (simp add: sel)
    qed (simp add: cold_match_def)
    show "int (length ys) \<le> hm_len m" if "snapshot_at (hc_tree h) ys s" "take (length ys) xs = ys" for ys s
    proof -
      have "snapshot_at t ys s" using that(1) S pr by simp
      then obtain j us where j: "j \<noteq> 0" "spells t j ys us" "rn_mamba (rt_node t j) = Some s" by (auto simp: snapshot_at_def)
      have "holds (hc_tree h) ys us" using spells_holds [OF j(2) wf(2)] pr by blast
      from reach [OF this that(2)] have "length ys \<le> n" .
      then have "take (length ys) (take n xs) = ys" using that(2) by (simp add: min_absorb1)
      then have u: "up t node j" by (rule prefix_up [OF j(2) wf(2) w(5)])
      then obtain ys' us' where y: "up t (hm_node m) j" "spells t (hm_node m) ys' us'" "hm_len m = int (length ys')"
        using d j(1,3) by (metis hybrid_match.select_convs(2) option.distinct(1))
      obtain zs ws where "spells t j zs ws" "length zs \<le> length ys'" using up_spells [OF y(1) wf(2) y(2)] by blast
      then show ?thesis using at_unique [OF j(2) wf(2)] y(3) by auto
    qed
  qed
qed

section \<open>Inserting\<close>

lemma marks_unlocked: "marks_ok X t L \<Longrightarrow> i \<noteq> 0 \<Longrightarrow> rn_mamba (rt_node t i) = None \<Longrightarrow> i \<notin> set L"
  using marks_okD(3) by blast

lemma attach_ok:
  assumes "rinv t L" "marks_ok {i} t L" "i \<in> live_nodes t" "rn_mamba (rt_node t i) = None"
  shows "marks_ok {} (set_mamba i (Some s) t) L" "rn_mamba_ref (rt_node t i) = 0"
    "card (snap_nodes (\<lambda>r. r = 0) (set_mamba i (Some s) t)) = Suc (card (snap_nodes (\<lambda>r. r = 0) t))"
    "snap_nodes (\<lambda>r. r \<noteq> 0) (set_mamba i (Some s) t) = snap_nodes (\<lambda>r. r \<noteq> 0) t"
    "tree_slots (set_mamba i (Some s) t) = add_mset s (tree_slots t)"
proof -
  have i0: "i \<noteq> 0" using assms(3) by (simp add: live_nodes_def)
  have r0: "rn_mamba_ref (rt_node t i) = 0" using marks_okD(2) [OF assms(2,3)] assms(4) by simp
  then show "rn_mamba_ref (rt_node t i) = 0" .
  have cL: "count_list L i = 0" using marks_unlocked [OF assms(2) i0 assms(4)] by (simp add: count_list_0_iff)
  show "marks_ok {} (set_mamba i (Some s) t) L"
    using assms(2) i0 cL r0 unfolding marks_ok_def by auto
  have ins: "snap_nodes P (set_mamba i (Some s) t) = (if P 0 then insert i (snap_nodes P t) else snap_nodes P t)" for P
    using assms(3,4) r0 by (auto simp: snap_nodes_def)
  have nin: "i \<notin> snap_nodes P t" for P using assms(4) by (simp add: snap_nodes_def)
  show "card (snap_nodes (\<lambda>r. r = 0) (set_mamba i (Some s) t)) = Suc (card (snap_nodes (\<lambda>r. r = 0) t))"
    using nin finite_snap [OF assms(1)] by (simp add: ins)
  show "snap_nodes (\<lambda>r. r \<noteq> 0) (set_mamba i (Some s) t) = snap_nodes (\<lambda>r. r \<noteq> 0) t" by (simp add: ins)
  have "image_mset (\<lambda>j. the (rn_mamba (rt_node (set_mamba i (Some s) t) j))) (mset_set (snap_nodes (\<lambda>_. True) t))
      = tree_slots t"
    unfolding tree_slots_def using nin finite_snap [OF assms(1)] by (intro image_mset_cong) auto
  then show "tree_slots (set_mamba i (Some s) t) = add_mset s (tree_slots t)"
    unfolding tree_slots_def [of "set_mamba i (Some s) t"] ins using nin finite_snap [OF assms(1)] by simp
qed

lemma snapshot_at_attach:
  assumes "i \<noteq> 0" "spells t i xs vs" "rn_mamba (rt_node t i) = None"
  shows "snapshot_at (set_mamba i (Some s) t) xs s"
  unfolding snapshot_at_def
  by (intro exI [of _ i] exI [of _ vs]) (use assms in \<open>simp add: same_shape_at [OF set_mamba_shape(1)]\<close>)

lemma hybrid_insert_ok:
  assumes "hinv h L" "length xs \<le> length kv"
    and "paged (rt_page (hc_tree h)) (take (length xs div rt_page (hc_tree h) * rt_page (hc_tree h)) kv)"
    and A: "A = length xs div rt_page (hc_tree h) * rt_page (hc_tree h)"
  obtains h' n ex where "hybrid_insert tic tic' xs kv slot h = Some (ok (h', n, ex))" "hinv h' L" "n \<le> A"
    "tree_slots (hc_tree h') = tree_slots (hc_tree h) + (if ex then {#} else {#slot#})"
    "tree_pages (hc_tree h') = tree_pages (hc_tree h) + mset (take (A - n) (drop n kv))"
    "ex \<longleftrightarrow> A = 0 \<or> (\<exists>s. snapshot_at (hc_tree h) (take A xs) s)"
    "ex \<or> snapshot_at (hc_tree h') (take A xs) slot"
    "\<And>i ys us. spells (hc_tree h) i ys us \<Longrightarrow> spells (hc_tree h') i ys us"
    "rt_page (hc_tree h') = rt_page (hc_tree h)"
proof -
  note v = hinvD [OF assms(1)]
  let ?t = "hc_tree h"
  obtain t n hd vs where r: "insert_prefix tic tic' xs kv ?t = Some (ok (t, n, hd))" "rinv t L"
      "n \<le> A" "spells t (hd_node hd) (take A xs) (vs @ take (A - n) (drop n kv))"
      "\<And>i ys us. spells ?t i ys us \<Longrightarrow> spells t i ys us" "rt_page t = rt_page ?t"
      "tree_pages t = tree_pages ?t + mset (take (A - n) (drop n kv))" "keeps_marks {hd_node hd} ?t t"
    by (rule insert_prefix_ok [OF v(1) assms(2,3), of tic tic']) (use A in blast)
  let ?i = "hd_node hd"
  have wf: "rwf ?t" "rwf t" using rinvD(1) v(1) r(2) by blast+
  note k = marks_kept [OF r(8) wf(1) r(5)]
  have lv: "\<forall>x \<in> set L. live ?t x" using rinvD(3) [OF v(1)] by (simp add: refs_ok_def)
  have mk: "marks_ok {?i} t L" using k(3) [of L "{}"] lv v(2) by simp
  have li: "live t ?i" by (rule at_live [OF r(4)])
  have "A \<le> length xs" unfolding A by (rule div_times_less_eq_dividend)
  then have lA: "length (take A xs) = A" by simp
  have root: "is_root t ?i \<longleftrightarrow> ?i = 0"
    using rwfD(2) [OF wf(2)] live_parent [OF wf(2) li] by (metis is_root_def option.distinct(1))
  have root0: "?i = 0 \<longleftrightarrow> A = 0"
  proof
    assume "?i = 0"
    then have "take A xs = []" using at_unique [OF r(4) wf(2)] spells.at_root by metis
    then show "A = 0" using lA by (metis list.size(3))
  next
    assume "A = 0"
    then have sp: "spells t ?i [] (vs @ take (A - n) (drop n kv))" using r(4) by simp
    from wf(2) sp show "?i = 0" by (cases rule: at_cases) (auto simp: linked_def)
  qed
  have snap: "snapshot_at ?t (take A xs) s \<longleftrightarrow> ?i \<noteq> 0 \<and> rn_mamba (rt_node t ?i) = Some s" for s
  proof -
    have "snapshot_at ?t (take A xs) s \<longleftrightarrow> snapshot_at t (take A xs) s"
      using marks_snapshot_at [OF r(8) wf r(5)] by simp
    also have "\<dots> \<longleftrightarrow> ?i \<noteq> 0 \<and> rn_mamba (rt_node t ?i) = Some s"
    proof
      assume "snapshot_at t (take A xs) s"
      then obtain j us where j: "j \<noteq> 0" "spells t j (take A xs) us" "rn_mamba (rt_node t j) = Some s" by (auto simp: snapshot_at_def)
      have tt: "take (length (take A xs)) (take A xs) = take A xs" by (rule take_all) simp
      have "up t ?i j" "up t j ?i" by (rule prefix_up [OF j(2) wf(2) r(4) tt], rule prefix_up [OF r(4) wf(2) j(2) tt])
      then have "j = ?i" using up_spells [of t j ?i, OF _ wf(2) j(2)] at_unique [OF r(4) wf(2)] lA by fastforce
      then show "?i \<noteq> 0 \<and> rn_mamba (rt_node t ?i) = Some s" using j by simp
    next
      show "?i \<noteq> 0 \<and> rn_mamba (rt_node t ?i) = Some s \<Longrightarrow> snapshot_at t (take A xs) s"
        unfolding snapshot_at_def using r(4) by blast
    qed
    finally show ?thesis .
  qed
  show thesis
  proof (cases "?i = 0 \<or> rn_mamba (rt_node t ?i) \<noteq> None")
    case True
    have res: "hybrid_insert tic tic' xs kv slot h = Some (ok (h\<lparr>hc_tree := t\<rparr>, n, True))"
      using r(1) True root by (auto simp: hybrid_insert_def Let_def)
    have "marks_ok {} t L"
      using mk True marks_okD(1) [OF mk] unfolding marks_ok_def by (auto simp: live_nodes_def)
    then have inv: "hinv (h\<lparr>hc_tree := t\<rparr>) L" using r(2) v(3,4) k(1) by (simp add: hinv_def)
    show thesis
      by (rule that [OF res inv r(3)]) (use r(5-7) k(2) True root0 snap in auto)
  next
    case False
    let ?t' = "set_mamba ?i (Some slot) t"
    have il: "?i \<in> live_nodes t" using False li by (simp add: live_nodes_def)
    have nm: "rn_mamba (rt_node t ?i) = None" using False by simp
    note at = attach_ok [OF r(2) mk il nm]
    have res: "hybrid_insert tic tic' xs kv slot h = Some (ok (h\<lparr>hc_tree := ?t', hc_mev := hc_mev h + 1\<rparr>, n, False))"
      using r(1) False root at(2) by (auto simp: hybrid_insert_def Let_def)
    have inv: "hinv (h\<lparr>hc_tree := ?t', hc_mev := hc_mev h + 1\<rparr>) L"
      using r(2) at(1,3,4) v(3,4) k(1) by (simp add: hinv_def)
    have sp: "spells ?t' i ys us \<longleftrightarrow> spells t i ys us" for i ys us by (simp add: same_shape_at [OF set_mamba_shape(1)])
    have at_slot: "snapshot_at ?t' (take A xs) slot" by (rule snapshot_at_attach [OF _ r(4) nm]) (use False in simp)
    show thesis
      by (rule that [OF res inv r(3)])
        (use r(5-7) k(2) at(5) False root0 snap at_slot in \<open>auto simp: sp same_shape_pages [OF set_mamba_shape(1)]\<close>)
  qed
qed

section \<open>Locking\<close>

definition same_marks :: "rtree \<Rightarrow> rtree \<Rightarrow> bool" where
  "same_marks t t' \<longleftrightarrow> (\<forall>j. rn_mamba (rt_node t' j) = rn_mamba (rt_node t j)
     \<and> rn_mamba_ref (rt_node t' j) = rn_mamba_ref (rt_node t j))"

lemma same_marks_trans: "same_marks t t' \<Longrightarrow> same_marks t' t'' \<Longrightarrow> same_marks t t''"
  by (simp add: same_marks_def)

lemma same_marks_sym: "same_marks t t' \<Longrightarrow> same_marks t' t"
  by (simp add: same_marks_def)

lemma same_marks_snap: "same_marks t t' \<Longrightarrow> live_nodes t' = live_nodes t \<Longrightarrow> snap_nodes P t' = snap_nodes P t"
  by (simp add: same_marks_def snap_nodes_def)

lemma same_marks_ref: "same_marks t (ref_up i t)" "same_marks t (ref_down i t)"
  by (simp_all add: same_marks_def ref_up_def ref_down_def update_node_def Let_def)

lemma lock_loop_marks:
  assumes "lock_loop u i t = Some r"
  shows "\<forall>t'. r = ok t' \<longrightarrow> same_marks t t'"
  using assms
proof (rule lock_loop.raw_induct [where P = "\<lambda>u i t r. \<forall>t'. r = ok t' \<longrightarrow> same_marks t t'", rotated])
  fix loop u i t r
  assume IH: "\<And>u i t y. loop u i t = Some y \<Longrightarrow> \<forall>t'. y = ok t' \<longrightarrow> same_marks t t'"
    and eq: "(case rn_parent (rt_node t i) of None \<Rightarrow> Some (ok t)
      | Some p \<Rightarrow> if u then if 0 \<le> rn_ref (rt_node t i) - 1 then loop u p (ref_down i t) else Some (raise AssertionError)
          else loop u p (ref_up i t)) = Some r"
  show "\<forall>t'. r = ok t' \<longrightarrow> same_marks t t'"
  proof (cases "rn_parent (rt_node t i)")
    case None
    then show ?thesis using eq by (auto simp: same_marks_def)
  next
    case (Some p)
    have up: "\<forall>t'. r = ok t' \<longrightarrow> same_marks t t'" if "loop u p (ref_up i t) = Some r"
      using IH [OF that] same_marks_trans [OF same_marks_ref(1)] by blast
    have down: "\<forall>t'. r = ok t' \<longrightarrow> same_marks t t'" if "loop u p (ref_down i t) = Some r"
      using IH [OF that] same_marks_trans [OF same_marks_ref(2)] by blast
    show ?thesis using eq Some up down by (cases u; cases "0 \<le> rn_ref (rt_node t i) - 1") auto
  qed
qed

lemma same_shape_leaf: "same_shape t t' \<Longrightarrow> is_leaf t' j = is_leaf t j"
  by (simp add: same_shape_def is_leaf_def)

text \<open>Changing the lock count of a snapshot moves it between the two counters.\<close>

lemma set_ref_ok:
  assumes "rinv t L" "marks_ok {} t L" "i \<in> live_nodes t" "rn_mamba (rt_node t i) \<noteq> None"
    and L': "\<And>j. j \<noteq> i \<Longrightarrow> count_list L' j = count_list L j" "set L' \<subseteq> set L \<union> {i}"
  shows "marks_ok {} (set_mamba_ref i (int (count_list L' i)) t) L'"
    "tree_slots (set_mamba_ref i r t) = tree_slots t"
    "card (snap_nodes P (set_mamba_ref i r t)) + (if P (int (count_list L i)) then 1 else 0)
       = card (snap_nodes P t) + (if P r then 1 else 0)"
proof -
  note m = marks_okD [OF assms(2)]
  have i0: "i \<noteq> 0" using assms(3) by (simp add: live_nodes_def)
  have ref: "rn_mamba_ref (rt_node t i) = int (count_list L i)" using m(2) [OF assms(3)] assms(4) by simp
  show "marks_ok {} (set_mamba_ref i (int (count_list L' i)) t) L'"
    unfolding marks_ok_def
  proof (intro conjI ballI impI)
    show "rn_mamba (rt_node (set_mamba_ref i (int (count_list L' i)) t) j) \<noteq> None" if "j \<in> set L'" "j \<noteq> 0" for j
      using that L'(2) m(3) [of j] assms(4) by (cases "j = i") auto
  qed (use m(1,2,4) L'(1) assms(4) in auto)
  have sn: "snap_nodes P (set_mamba_ref i r t) = (if P r then insert i (snap_nodes P t - {i}) else snap_nodes P t - {i})" for P r
    using assms(3,4) by (auto simp: snap_nodes_def)
  have mem: "i \<in> snap_nodes P t \<longleftrightarrow> P (int (count_list L i))" using assms(3,4) ref by (simp add: snap_nodes_def)
  have fin: "finite (snap_nodes P t - {i})" using finite_snap [OF assms(1)] by blast
  show "card (snap_nodes P (set_mamba_ref i r t)) + (if P (int (count_list L i)) then 1 else 0)
       = card (snap_nodes P t) + (if P r then 1 else 0)"
  proof (cases "i \<in> snap_nodes P t")
    case True
    then show ?thesis
      using mem card.remove [OF finite_snap [OF assms(1)] True] card.insert [OF fin, of i] by (simp add: sn del: card_Diff_insert)
  next
    case False
    then show ?thesis using mem card.insert [OF fin, of i] by (simp add: sn)
  qed
  have "snap_nodes (\<lambda>_. True) (set_mamba_ref i r t) = snap_nodes (\<lambda>_. True) t" by (simp add: snap_nodes_def)
  then show "tree_slots (set_mamba_ref i r t) = tree_slots t" by (simp add: tree_slots_def)
qed

lemma lock_moved:
  assumes "marks_ok {} t L'" "same_shape t t'" "same_marks t t'"
  shows "marks_ok {} t' L'" "snap_nodes P t' = snap_nodes P t" "tree_slots t' = tree_slots t"
  using assms same_marks_snap [OF assms(3) same_shape_live_nodes [OF assms(2)]]
  by (simp_all add: marks_ok_def same_marks_def same_shape_live_nodes same_shape_leaf tree_slots_def)

lemma count_remove1: "count_list (remove1 i L) j = count_list L j - (if i = j then 1 else 0)"
  by (induction L) auto

lemma inc_lock_ok:
  assumes "hinv h L" "live (hc_tree h) i" "i \<noteq> 0 \<Longrightarrow> rn_mamba (rt_node (hc_tree h) i) \<noteq> None"
  obtains h' where "inc_lock i h = Some (ok h')" "hinv h' (i # L)" "same_shape (hc_tree h) (hc_tree h')"
    "tree_slots (hc_tree h') = tree_slots (hc_tree h)"
    "\<And>j. rn_mamba (rt_node (hc_tree h') j) = rn_mamba (rt_node (hc_tree h) j)"
proof -
  note v = hinvD [OF assms(1)] and m = marks_okD [OF hinvD(2) [OF assms(1)]]
  let ?t = "hc_tree h" and ?P = "\<lambda>r :: int. r = 0" and ?Q = "\<lambda>r :: int. r \<noteq> 0"
  let ?h = "\<lparr>hd_cached_len = 0, hd_node = i\<rparr>"
  show thesis
  proof (cases "i = 0")
    case True
    have root: "rn_parent (rt_node ?t 0) = None" using rwfD(2) rinvD(1) v(1) by blast
    have res: "inc_lock i h = Some (ok (h\<lparr>hc_tree := ?t\<rparr>))"
      using m(1) True root by (subst inc_lock_def, subst lock_loop.simps) simp
    obtain t' where t': "lock_handle ?h False ?t = Some (ok t')" "same_shape ?t t'" "rinv t' (i # L)"
      using lock_rinv [OF v(1), of ?h] assms(2) by auto
    have "t' = ?t" using t'(1) True root by (simp add: lock_handle_def) (subst (asm) lock_loop.simps, simp)
    then have r: "rinv ?t (i # L)" using t'(3) by simp
    have "marks_ok {} ?t (i # L)" using v(2) True by (auto simp: marks_ok_def live_nodes_def)
    then have "hinv (h\<lparr>hc_tree := ?t\<rparr>) (i # L)" using r v(3,4) by (simp add: hinv_def)
    then show thesis by (rule that [OF res]) simp_all
  next
    case False
    have nm: "rn_mamba (rt_node ?t i) \<noteq> None" using assms(3) False .
    have il: "i \<in> live_nodes ?t" using False assms(2) by (simp add: live_nodes_def)
    have ref: "rn_mamba_ref (rt_node ?t i) = int (count_list L i)" using m(2) [OF il] nm by simp
    let ?t1 = "set_mamba_ref i (int (count_list (i # L) i)) ?t"
    have sr: "marks_ok {} ?t1 (i # L)"
      by (rule set_ref_ok(1) [OF v(1,2) il nm]) auto
    have cards: "card (snap_nodes P ?t1) + (if P (int (count_list L i)) then 1 else 0)
        = card (snap_nodes P ?t) + (if P (int (count_list (i # L) i)) then 1 else 0)" for P
      by (rule set_ref_ok(3) [OF v(1,2) il nm, of "i # L"]) auto
    have slots: "tree_slots ?t1 = tree_slots ?t" by (rule set_ref_ok(2) [OF v(1,2) il nm, of "i # L"]) auto
    have "live ?t1 i" using il set_mamba_live(2) [of i _ ?t] by (auto simp: live_nodes_def)
    then obtain t' where t': "lock_loop False i ?t1 = Some (ok t')" "same_shape ?t1 t'" "rinv t' (i # L)"
      using lock_rinv [of ?t1 L ?h] v(1) by (auto simp: lock_handle_def)
    have sm: "same_marks ?t1 t'" using lock_loop_marks [OF t'(1)] by blast
    note mv = lock_moved [OF sr t'(2) sm]
    let ?h' = "(if count_list L i = 0 then h\<lparr>hc_mev := hc_mev h - 1, hc_mprot := hc_mprot h + 1\<rparr> else h)\<lparr>hc_tree := t'\<rparr>"
    have res: "inc_lock i h = Some (ok ?h')"
      using nm ref t'(1) by (cases "count_list L i = 0") (simp_all add: inc_lock_def Let_def add.commute)
    have "hinv ?h' (i # L)"
      using t'(3) mv(1,2) v(3,4) cards [of ?P] cards [of ?Q] by (cases "count_list L i = 0") (simp_all add: hinv_def)
    then show thesis
    proof (rule that [OF res])
      show "same_shape ?t (hc_tree ?h')" using same_shape_trans [OF set_mamba_shape(2) t'(2)] by simp
      show "tree_slots (hc_tree ?h') = tree_slots ?t" using mv(3) slots by simp
      show "rn_mamba (rt_node (hc_tree ?h') j) = rn_mamba (rt_node ?t j)" for j using sm by (simp add: same_marks_def)
    qed
  qed
qed

lemma dec_lock_ok:
  assumes "hinv h L" "i \<in> set L"
  obtains h' where "dec_lock i h = Some (ok h')" "hinv h' (remove1 i L)" "same_shape (hc_tree h) (hc_tree h')"
    "tree_slots (hc_tree h') = tree_slots (hc_tree h)"
    "\<And>j. rn_mamba (rt_node (hc_tree h') j) = rn_mamba (rt_node (hc_tree h) j)"
proof -
  note v = hinvD [OF assms(1)] and m = marks_okD [OF hinvD(2) [OF assms(1)]]
  let ?t = "hc_tree h" and ?P = "\<lambda>r :: int. r = 0" and ?Q = "\<lambda>r :: int. r \<noteq> 0"
  let ?h = "\<lparr>hd_cached_len = 0, hd_node = i\<rparr>" and ?L = "remove1 i L"
  have lv: "live ?t i" using rinvD(3) [OF v(1)] assms(2) by (simp add: refs_ok_def)
  show thesis
  proof (cases "i = 0")
    case True
    have root: "rn_parent (rt_node ?t 0) = None" using rwfD(2) rinvD(1) v(1) by blast
    have res: "dec_lock i h = Some (ok (h\<lparr>hc_tree := ?t\<rparr>))"
      using m(1) True root by (subst dec_lock_def, subst lock_loop.simps) simp
    obtain t' where t': "lock_handle ?h True ?t = Some (ok t')" "same_shape ?t t'" "rinv t' ?L"
      using unlock_rinv [OF v(1), of ?h] assms(2) by auto
    have "t' = ?t" using t'(1) True root by (simp add: lock_handle_def) (subst (asm) lock_loop.simps, simp)
    then have r: "rinv ?t ?L" using t'(3) by simp
    have "marks_ok {} ?t ?L"
      using v(2) True unfolding marks_ok_def by (auto simp: live_nodes_def count_remove1 dest: notin_set_remove1)
    then have "hinv (h\<lparr>hc_tree := ?t\<rparr>) ?L" using r v(3,4) by (simp add: hinv_def)
    then show thesis by (rule that [OF res]) simp_all
  next
    case False
    have nm: "rn_mamba (rt_node ?t i) \<noteq> None" using m(3) [OF assms(2) False] .
    have il: "i \<in> live_nodes ?t" using False lv by (simp add: live_nodes_def)
    have ref: "rn_mamba_ref (rt_node ?t i) = int (count_list L i)" using m(2) [OF il] nm by simp
    have pos: "0 < count_list L i" using assms(2) by (simp add: count_list_0_iff neq0_conv [symmetric] del: neq0_conv)
    have cnt: "int (count_list ?L i) = int (count_list L i) - 1" using pos by (simp add: count_remove1)
    let ?t1 = "set_mamba_ref i (int (count_list ?L i)) ?t"
    have other: "\<And>j. j \<noteq> i \<Longrightarrow> count_list ?L j = count_list L j" "set ?L \<subseteq> set L \<union> {i}"
      by (auto simp: count_remove1 dest: notin_set_remove1)
    have sr: "marks_ok {} ?t1 ?L" by (rule set_ref_ok(1) [OF v(1,2) il nm other])
    have cards: "card (snap_nodes P ?t1) + (if P (int (count_list L i)) then 1 else 0)
        = card (snap_nodes P ?t) + (if P (int (count_list ?L i)) then 1 else 0)" for P
      by (rule set_ref_ok(3) [OF v(1,2) il nm other])
    have slots: "tree_slots ?t1 = tree_slots ?t" by (rule set_ref_ok(2) [OF v(1,2) il nm other])
    obtain t' where t': "lock_loop True i ?t1 = Some (ok t')" "same_shape ?t1 t'" "rinv t' ?L"
      using unlock_rinv [of ?t1 L ?h] v(1) assms(2) by (auto simp: lock_handle_def)
    have sm: "same_marks ?t1 t'" using lock_loop_marks [OF t'(1)] by blast
    note mv = lock_moved [OF sr t'(2) sm]
    let ?h' = "(if count_list ?L i = 0 then h\<lparr>hc_mev := hc_mev h + 1, hc_mprot := hc_mprot h - 1\<rparr> else h)\<lparr>hc_tree := t'\<rparr>"
    have c: "rn_mamba_ref (rt_node ?t i) - 1 = int (count_list ?L i)" "rn_mamba_ref (rt_node ?t i) > 0" using ref cnt pos by simp_all
    have res: "dec_lock i h = Some (ok ?h')"
      using nm t'(1) c(2) unfolding dec_lock_def Let_def c(1) by (cases "count_list ?L i = 0") simp_all
    have "hinv ?h' ?L"
      using t'(3) mv(1,2) v(3,4) cards [of ?P] cards [of ?Q] pos by (cases "count_list ?L i = 0") (simp_all add: hinv_def)
    then show thesis
    proof (rule that [OF res])
      show "same_shape ?t (hc_tree ?h')" using same_shape_trans [OF set_mamba_shape(2) t'(2)] by simp
      show "tree_slots (hc_tree ?h') = tree_slots ?t" using mv(3) slots by simp
      show "rn_mamba (rt_node (hc_tree ?h') j) = rn_mamba (rt_node ?t j)" for j using sm by (simp add: same_marks_def)
    qed
  qed
qed

section \<open>Unlinking and the cascade\<close>

text \<open>What a tree loses: whole nodes, none of them on a locked path; the indices \<open>evs\<close> go out.\<close>

definition shrinks :: "nat list \<Rightarrow> int list list \<Rightarrow> rtree \<Rightarrow> rtree \<Rightarrow> bool" where
  "shrinks L evs t t' \<longleftrightarrow> rinv t' L \<and> rt_page t' = rt_page t \<and> live_nodes t' \<subseteq> live_nodes t
     \<and> tree_pages t = mset (concat evs) + tree_pages t'
     \<and> rt_evictable t' = rt_evictable t - int (length (concat evs)) \<and> rt_protected t' = rt_protected t
     \<and> (\<forall>i xs vs. spells t' i xs vs \<longrightarrow> spells t i xs vs)
     \<and> (\<forall>h \<in> set L. \<forall>xs vs. spells t h xs vs \<longrightarrow> spells t' h xs vs)"

lemma shrinks_refl: "rinv t L \<Longrightarrow> shrinks L [] t t"
  by (simp add: shrinks_def)

lemma shrinks_trans:
  assumes "shrinks L es t t'" "shrinks L fs t' t''"
  shows "shrinks L (es @ fs) t t''"
proof -
  note a = assms(1) [unfolded shrinks_def] and b = assms(2) [unfolded shrinks_def]
  have "live_nodes t'' \<subseteq> live_nodes t" using a b by blast
  moreover have "tree_pages t = mset (concat (es @ fs)) + tree_pages t''" using a b by simp
  moreover have "rt_evictable t'' = rt_evictable t - int (length (concat (es @ fs)))"
    using a b by (simp del: length_concat)
  moreover have "rinv t'' L" "rt_page t'' = rt_page t" "rt_protected t'' = rt_protected t" using a b by simp_all
  moreover have "spells t i xs vs" if "spells t'' i xs vs" for i xs vs using a b that by blast
  moreover have "spells t'' h xs vs" if "h \<in> set L" "spells t h xs vs" for h xs vs using a b that by blast
  ultimately show ?thesis unfolding shrinks_def by blast
qed

lemma shrinks_same:
  assumes "same_shape t t'" "rinv t' L" "rt_evictable t' = rt_evictable t" "rt_protected t' = rt_protected t"
  shows "shrinks L [] t t'"
  using assms same_shape_pages [OF assms(1)]
  by (simp add: shrinks_def same_shape_live_nodes [OF assms(1)] same_shape_at [OF assms(1)]) (simp add: same_shape_def)

lemma shrinks_unlink:
  assumes U: "unlinks t p i t'" and inv: "rinv t L"
  shows "shrinks L [rn_value (rt_node t i)] t t'" "length (rn_value (rt_node t i)) = node_length t i"
proof -
  have w: "rwf t" "live t i" "rn_parent (rt_node t i) = Some p"
    using U by (auto simp: unlinks_def free_leaf_def live_nodes_def)
  then show len: "length (rn_value (rt_node t i)) = node_length t i"
    using parent_live(3) [OF w] by (auto simp: linked_def node_length_def)
  have "h \<noteq> i" if "h \<in> set L" for h using unlink_rinv(3) [OF U inv] that by blast
  then show "shrinks L [rn_value (rt_node t i)] t t'"
    using unlink_rinv(1,2) [OF U inv] unlink_sel(1,3,4) [OF U] unlink_live(2) [OF U] len
    by (auto simp: shrinks_def unlink_spells [OF U])
qed

lemma unlink_marks:
  assumes U: "unlinks t p i t'" and m: "marks_ok X t L" and none: "rn_mamba (rt_node t i) = None" and X: "X \<subseteq> {i}"
  shows "marks_ok {p} t' L" "same_marks t t'" "snap_nodes P t' = snap_nodes P t"
proof -
  have sel: "rn_mamba (rt_node t' j) = rn_mamba (rt_node t j)" "rn_mamba_ref (rt_node t' j) = rn_mamba_ref (rt_node t j)" for j
    using U by (auto simp: unlinks_def unlink_def)
  then show "same_marks t t'" by (simp add: same_marks_def)
  show "snap_nodes P t' = snap_nodes P t" using none by (auto simp: snap_nodes_def sel unlink_live(2) [OF U])
  have leaf: "is_leaf t' j = is_leaf t j" if "j \<noteq> p" for j
    using that unlink_sel(9) [OF U] by (simp add: is_leaf_def)
  show "marks_ok {p} t' L"
    using m X unfolding marks_ok_def sel unlink_live(2) [OF U] by (auto simp: leaf)
qed

text \<open>A leaf without a snapshot that no lock protects hangs nowhere else: only the exception is one.\<close>

lemma tombstone_unlocked:
  assumes "rinv t L" "marks_ok X t L" "i \<in> live_nodes t" "is_leaf t i" "rn_mamba (rt_node t i) = None"
  shows "rn_ref (rt_node t i) = 0"
proof -
  have w: "rwf t" by (rule rinvD(1) [OF assms(1)])
  have i: "live t i" "i \<noteq> 0" using assms(3) by (auto simp: live_nodes_def)
  have "h = i" if h: "h \<in> set L" "up t h i" for h
  proof (rule ccontr)
    assume "h \<noteq> i"
    then obtain c where c: "up t h c" "rn_parent (rt_node t c) = Some i" using up_last_step [OF h(2)] by blast
    have "live t h" using rinvD(3) [OF assms(1)] h(1) by (simp add: refs_ok_def)
    then have "live t c" using up_live [OF c(1) w] by blast
    then show False using parent_live(3) [OF w _ c(2)] assms(4) by (auto simp: is_leaf_def)
  qed
  then have "filter (\<lambda>h. up t h i) L = []" using marks_unlocked [OF assms(2) i(2) assms(5)] by (auto simp: filter_empty_conv)
  then show ?thesis using rinvD(3) [OF assms(1)] assms(3) by (simp add: refs_ok_def)
qed

definition free_leaves :: "rtree \<Rightarrow> nat set" where
  "free_leaves t = {j. free_leaf t j}"

lemma finite_free: "rwf t \<Longrightarrow> finite (free_leaves t)"
  by (rule finite_subset [OF _ finite_live]) (auto simp: free_leaves_def free_leaf_def)

lemma free_leaves_unlink:
  assumes U: "unlinks t p i t'" and inv: "rinv t L"
  shows "free_leaves t' = free_leaves t - {i} \<union> (if free_leaf t' p then {p} else {})" "p \<notin> free_leaves t"
proof -
  obtain ls where ls: "set ls = free_leaves t" "distinct ls"
    using finite_distinct_list [OF finite_free [OF rinvD(1) [OF inv]]] by blast
  have np: "\<not> is_leaf t p" using unlink_link(4) [OF U] by (auto simp: is_leaf_def)
  then show "p \<notin> free_leaves t" by (simp add: free_leaves_def free_leaf_def)
  have "set (if is_leaf t' p \<and> rn_ref (rt_node t' p) = 0 then remove1 i ls @ [p] else remove1 i ls) = free_leaves t'"
    using free_leaves_step [OF U inv, of ls] ls by (simp add: free_leaves_def)
  then have "free_leaves t' = (free_leaves t - {i}) \<union> (if is_leaf t' p \<and> rn_ref (rt_node t' p) = 0 then {p} else {})"
    using ls by (auto split: if_splits)
  then show "free_leaves t' = free_leaves t - {i} \<union> (if free_leaf t' p then {p} else {})"
    by (auto simp: free_leaves_def free_leaf_def split: if_splits)
qed

lemma cascade_ok:
  assumes "rinv t L" "marks_ok {p} t L" "live t p"
  shows "\<exists>t' q evs. cascade p t kv fr = Some (t', q, kv @ evs, fr + int (length (concat evs)))
    \<and> shrinks L evs t t' \<and> marks_ok {} t' L \<and> same_marks t t' \<and> (\<forall>P. snap_nodes P t' = snap_nodes P t) \<and> live t' q
    \<and> (\<forall>S. p \<notin> S \<longrightarrow> free_leaves t = S \<union> (if free_leaf t p then {p} else {})
         \<longrightarrow> free_leaves t' = S \<union> (if free_leaf t' q then {q} else {}) \<and> q \<notin> S)"
  using assms
proof (induction "card (live_nodes t)" arbitrary: t p kv fr rule: less_induct)
  case less
  have w: "rwf t" by (rule rinvD(1) [OF less.prems(1)])
  note m = less.prems(2)
  have stop: "?case" if "cascade p t kv fr = Some (t, p, kv, fr)"
    and "p \<in> live_nodes t \<Longrightarrow> is_leaf t p \<Longrightarrow> rn_mamba (rt_node t p) \<noteq> None"
  proof -
    have "marks_ok {} t L" using m that(2) unfolding marks_ok_def by blast
    then show ?thesis
      using that(1) less.prems shrinks_refl [OF less.prems(1)]
      by (intro exI [of _ t] exI [of _ p] exI [of _ "[]"]) (simp add: same_marks_def)
  qed
  show ?case
  proof (cases "rn_parent (rt_node t p)")
    case None
    have "p = 0" using live_parent [OF w less.prems(3)] None by (metis option.distinct(1))
    then show ?thesis using None by (intro stop) (subst cascade.simps, simp, simp add: live_nodes_def)
  next
    case (Some q)
    show ?thesis
    proof (cases "rn_mamba (rt_node t p) = None \<and> is_leaf t p \<and> rn_ref (rt_node t p) = 0")
      case False
      have p0: "p \<in> live_nodes t" using less.prems(3) parent_live(2) [OF w less.prems(3) Some] by (simp add: live_nodes_def)
      show ?thesis
      proof (rule stop)
        show "cascade p t kv fr = Some (t, p, kv, fr)" using Some False by (subst cascade.simps) auto
        show "rn_mamba (rt_node t p) \<noteq> None" if "is_leaf t p"
          using tombstone_unlocked [OF less.prems(1) m p0 that] False that by metis
      qed
    next
      case True
      let ?t1 = "unlink q p t" and ?v = "rn_value (rt_node t p)"
      have p0: "p \<in> live_nodes t" using less.prems(3) parent_live(2) [OF w less.prems(3) Some] by (simp add: live_nodes_def)
      have fl: "free_leaf t p" using True p0 by (simp add: free_leaf_def)
      have U: "unlinks t q p ?t1" using w fl Some by (simp add: unlinks_def)
      note sh = shrinks_unlink [OF U less.prems(1)] and um = unlink_marks [OF U m _ subset_refl]
      have none: "rn_mamba (rt_node t p) = None" using True by simp
      have lq: "live ?t1 q" using unlink_live(1) [OF U] unlink_link [OF U] by simp
      have "card (live_nodes ?t1) < card (live_nodes t)"
        unfolding unlink_live(2) [OF U] using finite_live [OF w] p0 by (intro psubset_card_mono) auto
      from less.hyps [OF this unlink_rinv(1) [OF U less.prems(1)] um(1) [OF none] lq, of "kv @ [?v]" "fr + int (node_length t p)"]
      obtain t' q' evs where r: "cascade q ?t1 (kv @ [?v]) (fr + int (node_length t p))
            = Some (t', q', (kv @ [?v]) @ evs, fr + int (node_length t p) + int (length (concat evs)))"
          "shrinks L evs ?t1 t'" "marks_ok {} t' L" "same_marks ?t1 t'" "\<forall>P. snap_nodes P t' = snap_nodes P ?t1" "live t' q'"
          "\<forall>S. q \<notin> S \<longrightarrow> free_leaves ?t1 = S \<union> (if free_leaf ?t1 q then {q} else {})
             \<longrightarrow> free_leaves t' = S \<union> (if free_leaf t' q' then {q'} else {}) \<and> q' \<notin> S"
        by (elim exE conjE) (rule that; assumption)
      have c: "cascade p t kv fr = Some (t', q', kv @ (?v # evs), fr + int (length (concat (?v # evs))))"
        using Some True r(1) sh(2) by (subst cascade.simps) simp
      have S: "free_leaves t' = S \<union> (if free_leaf t' q' then {q'} else {}) \<and> q' \<notin> S"
        if S: "p \<notin> S" "free_leaves t = S \<union> (if free_leaf t p then {p} else {})" for S
      proof -
        note fu = free_leaves_unlink [OF U less.prems(1)]
        have "S = free_leaves t - {p}" using S fl by auto
        then show ?thesis using r(7) fu by auto
      qed
      have s: "shrinks L (?v # evs) t t'" using shrinks_trans [OF sh(1) r(2)] by simp
      show ?thesis
      proof (intro exI [of _ t'] exI [of _ q'] exI [of _ "?v # evs"] conjI allI impI)
        show "same_marks t t'" using same_marks_trans [OF um(2) r(4)] none by simp
        show "snap_nodes P t' = snap_nodes P t" for P using r(5) um(3) none by simp
      qed (use c s r(3,6) S in blast)+
    qed
  qed
qed

lemma free_mamba_ok:
  assumes "hinv h L" "i \<in> live_nodes (hc_tree h)" "rn_mamba (rt_node (hc_tree h) i) \<noteq> None"
    and "rn_mamba_ref (rt_node (hc_tree h) i) = 0"
  defines "t \<equiv> hc_tree (free_mamba i h)"
  shows "t = set_mamba i None (hc_tree h)" "rinv t L" "marks_ok {i} t L"
    "\<not> is_leaf (hc_tree h) i \<Longrightarrow> marks_ok {} t L" "snap_nodes P t = snap_nodes P (hc_tree h) - {i}"
    "hc_mev (free_mamba i h) = int (card (snap_nodes (\<lambda>r. r = 0) t))"
    "hc_mprot (free_mamba i h) = int (card (snap_nodes (\<lambda>r. r \<noteq> 0) t))"
    "tree_slots (hc_tree h) = mset (mamba_out i h) + tree_slots t" "length (mamba_out i h) = 1" "i \<notin> set L"
proof -
  note v = hinvD [OF assms(1)] and m = marks_okD [OF hinvD(2) [OF assms(1)]]
  let ?t = "hc_tree h"
  obtain s where s: "rn_mamba (rt_node ?t i) = Some s" using assms(3) by blast
  have i0: "i \<noteq> 0" using assms(2) by (simp add: live_nodes_def)
  have fin: "finite (snap_nodes P ?t)" for P by (rule finite_snap [OF v(1)])
  show t: "t = set_mamba i None ?t" using s by (simp add: t_def free_mamba_def Let_def)
  have cL: "count_list L i = 0" using m(2) [OF assms(2)] assms(3,4) by simp
  then show iL: "i \<notin> set L" by (simp add: count_list_0_iff)
  show "rinv t L" using v(1) by (simp add: t)
  have mk: "marks_ok X t L" if "i \<in> X \<or> \<not> is_leaf ?t i" for X
    using v(2) i0 iL that assms(4) unfolding marks_ok_def t by auto
  then show "marks_ok {i} t L" "\<not> is_leaf ?t i \<Longrightarrow> marks_ok {} t L" by simp_all
  have sn: "snap_nodes P t = snap_nodes P ?t - {i}" for P by (auto simp: snap_nodes_def t)
  then show "snap_nodes P t = snap_nodes P ?t - {i}" .
  have mem: "i \<in> snap_nodes P ?t \<longleftrightarrow> P 0" for P using assms(2-4) by (simp add: snap_nodes_def)
  show "hc_mev (free_mamba i h) = int (card (snap_nodes (\<lambda>r. r = 0) t))"
  proof -
    have "card (snap_nodes (\<lambda>r. r = 0) ?t) = Suc (card (snap_nodes (\<lambda>r. r = 0) ?t - {i}))"
      by (rule card.remove [OF fin]) (simp add: mem)
    then show ?thesis using v(3) s assms(4) by (simp add: free_mamba_def sn)
  qed
  show "hc_mprot (free_mamba i h) = int (card (snap_nodes (\<lambda>r. r \<noteq> 0) t))"
    using v(4) s mem [of "\<lambda>r. r \<noteq> 0"] by (simp add: free_mamba_def sn)
  have eq: "image_mset (\<lambda>j. the (rn_mamba (rt_node t j))) (mset_set (snap_nodes (\<lambda>_. True) ?t - {i}))
      = image_mset (\<lambda>j. the (rn_mamba (rt_node ?t j))) (mset_set (snap_nodes (\<lambda>_. True) ?t - {i}))"
    using fin by (intro image_mset_cong) (auto simp: t)
  have "mset_set (snap_nodes (\<lambda>_. True) ?t) = add_mset i (mset_set (snap_nodes (\<lambda>_. True) ?t - {i}))"
    by (rule mset_set.remove [OF fin]) (simp add: mem)
  then show "tree_slots ?t = mset (mamba_out i h) + tree_slots t"
    unfolding tree_slots_def sn eq by (simp add: mamba_out_def s)
  show "length (mamba_out i h) = 1" by (simp add: mamba_out_def s)
qed

lemma drop_leaf:
  assumes inv: "hinv h L" and fl: "free_leaf (hc_tree h) i" and p: "rn_parent (rt_node (hc_tree h) i) = Some p"
  obtains t' q es where
    "cascade p (unlink p i (hc_tree (free_mamba i h))) (kv @ [rn_value (rt_node (hc_tree h) i)]) fr
       = Some (t', q, kv @ rn_value (rt_node (hc_tree h) i) # es, fr + int (length (concat es)))"
    "hinv ((free_mamba i h)\<lparr>hc_tree := t'\<rparr>) L" "shrinks L (rn_value (rt_node (hc_tree h) i) # es) (hc_tree h) t'"
    "tree_slots (hc_tree h) = mset (mamba_out i h) + tree_slots t'" "length (mamba_out i h) = 1"
    "\<And>P. snap_nodes P t' = snap_nodes P (hc_tree h) - {i}" "live t' q"
    "free_leaves t' = free_leaves (hc_tree h) - {i} \<union> (if free_leaf t' q then {q} else {})"
    "q \<notin> free_leaves (hc_tree h) - {i}" "card (live_nodes t') < card (live_nodes (hc_tree h))"
    "length (rn_value (rt_node (hc_tree h) i)) = node_length (hc_tree h) i"
    "\<And>j. rn_mamba (rt_node t' j) \<in> {rn_mamba (rt_node (hc_tree h) j), None}"
proof -
  let ?t = "hc_tree h" and ?u = "hc_tree (free_mamba i h)"
  note v = hinvD [OF inv] and m = marks_okD [OF hinvD(2) [OF inv]]
  have il: "i \<in> live_nodes ?t" and leaf: "is_leaf ?t i" and ref: "rn_ref (rt_node ?t i) = 0" using fl by (auto simp: free_leaf_def)
  have nm: "rn_mamba (rt_node ?t i) \<noteq> None" using m(4) [OF il leaf] by simp
  have "filter (\<lambda>h. up ?t h i) L = []" using rinvD(3) [OF v(1)] il ref by (simp add: refs_ok_def)
  then have "i \<notin> set L" using up_refl [of ?t i] by (auto simp: filter_empty_conv simp del: up_refl)
  then have mr: "rn_mamba_ref (rt_node ?t i) = 0" using m(2) [OF il] nm by (simp add: count_list_0_iff)
  note F = free_mamba_ok [OF inv il nm mr]
  have sh0: "same_shape ?t ?u" unfolding F(1) by (rule set_mamba_shape(1))
  have fl0: "free_leaf ?u j \<longleftrightarrow> free_leaf ?t j" for j
    unfolding free_leaf_def F(1) by simp
  have U: "unlinks ?u p i (unlink p i ?u)"
    using rinvD(1) [OF F(2)] fl fl0 [of i] p F(1) by (simp add: unlinks_def)
  have none0: "rn_mamba (rt_node ?u i) = None" by (simp add: F(1))
  note um = unlink_marks [OF U F(3) none0 subset_refl] and sh = shrinks_unlink [OF U F(2)]
  have val: "rn_value (rt_node ?u i) = rn_value (rt_node ?t i)" "node_length ?u i = node_length ?t i" by (simp_all add: F(1))
  have lp: "live (unlink p i ?u) p" using unlink_live(1) [OF U] unlink_link [OF U] by simp
  from cascade_ok [OF unlink_rinv(1) [OF U F(2)] um(1) lp, of "kv @ [rn_value (rt_node ?t i)]" fr]
  obtain t' q es where r: "cascade p (unlink p i ?u) (kv @ [rn_value (rt_node ?t i)]) fr
        = Some (t', q, (kv @ [rn_value (rt_node ?t i)]) @ es, fr + int (length (concat es)))"
      "shrinks L es (unlink p i ?u) t'" "marks_ok {} t' L" "same_marks (unlink p i ?u) t'"
      "\<forall>P. snap_nodes P t' = snap_nodes P (unlink p i ?u)" "live t' q"
      "\<forall>S. p \<notin> S \<longrightarrow> free_leaves (unlink p i ?u) = S \<union> (if free_leaf (unlink p i ?u) p then {p} else {})
         \<longrightarrow> free_leaves t' = S \<union> (if free_leaf t' q then {q} else {}) \<and> q \<notin> S"
    by (elim exE conjE) (rule that; assumption)
  have sm: "same_marks ?u t'" using same_marks_trans [OF um(2) r(4)] .
  have sn: "snap_nodes P t' = snap_nodes P ?u" for P using r(5) um(3) by simp
  have sl: "tree_slots t' = tree_slots ?u" using sm unfolding tree_slots_def sn by (simp add: same_marks_def)
  have s3: "shrinks L ([rn_value (rt_node ?t i)] @ es) ?t t'"
    using shrinks_trans [OF shrinks_same [OF sh0 F(2)] shrinks_trans [OF sh(1) r(2)]] unfolding val by (simp add: F(1))
  have fr0: "free_leaves ?u = free_leaves ?t" using fl0 by (simp add: free_leaves_def)
  have fin: "finite (live_nodes ?t)" using finite_live rinvD(1) v(1) by blast
  have "live_nodes t' \<subseteq> live_nodes ?t - {i}"
    using r(2) unfolding shrinks_def unlink_live(2) [OF U] same_shape_live_nodes [OF sh0] by blast
  then have card: "card (live_nodes t') < card (live_nodes ?t)"
    using il fin by (intro psubset_card_mono) auto
  show thesis
  proof (rule that)
    show "cascade p (unlink p i ?u) (kv @ [rn_value (rt_node ?t i)]) fr
        = Some (t', q, kv @ rn_value (rt_node ?t i) # es, fr + int (length (concat es)))" using r(1) by simp
    show "hinv ((free_mamba i h)\<lparr>hc_tree := t'\<rparr>) L"
      using r(2,3) F(6,7) sn by (simp add: hinv_def shrinks_def)
    show "free_leaves t' = free_leaves ?t - {i} \<union> (if free_leaf t' q then {q} else {})" "q \<notin> free_leaves ?t - {i}"
      using r(7) free_leaves_unlink [OF U F(2)] unfolding fr0 by blast+
    show "rn_mamba (rt_node t' j) \<in> {rn_mamba (rt_node ?t j), None}" for j using sm by (simp add: same_marks_def F(1))
  qed (use s3 F(8,9) sl F(5) sn r(6) card sh(2) val in simp_all)
qed

section \<open>Evicting\<close>

definition drained :: "nat list \<Rightarrow> htree \<Rightarrow> int list list \<Rightarrow> nat list \<Rightarrow> htree \<Rightarrow> bool" where
  "drained L h evs ms h' \<longleftrightarrow> hinv h' L \<and> shrinks L evs (hc_tree h) (hc_tree h')
     \<and> tree_slots (hc_tree h) = mset ms + tree_slots (hc_tree h')
     \<and> (\<forall>j. rn_mamba (rt_node (hc_tree h') j) \<in> {rn_mamba (rt_node (hc_tree h) j), None})"

lemma drained_refl: "hinv h L \<Longrightarrow> drained L h [] [] h"
  by (simp add: drained_def shrinks_refl hinvD(1))

lemma drained_trans:
  assumes "drained L h es ms h'" "drained L h' fs ns h''"
  shows "drained L h (es @ fs) (ms @ ns) h''"
proof -
  note a = assms(1) [unfolded drained_def] and b = assms(2) [unfolded drained_def]
  have "shrinks L (es @ fs) (hc_tree h) (hc_tree h'')" using shrinks_trans a b by blast
  moreover have "rn_mamba (rt_node (hc_tree h'') j) \<in> {rn_mamba (rt_node (hc_tree h) j), None}" for j
    using a b by (metis insert_iff singletonD)
  ultimately show ?thesis using a b unfolding drained_def by (simp add: add.assoc)
qed

lemma full_loop_ok:
  assumes "hinv h L" "set ls = free_leaves (hc_tree h)" "distinct ls"
  shows "\<exists>h' evs ms. full_loop need h ls fr kv mb = Some (h', kv @ evs, mb @ ms) \<and> drained L h evs ms h'
    \<and> (need \<le> fr + int (length (concat evs)) \<or> free_leaves (hc_tree h') = {})"
  using assms
proof (induction "card (live_nodes (hc_tree h))" arbitrary: h ls fr kv mb rule: less_induct)
  case less
  note inv = less.prems(1)
  let ?t = "hc_tree h"
  show ?case
  proof (cases "fr < need \<and> ls \<noteq> []")
    case False
    have "full_loop need h ls fr kv mb = Some (h, kv, mb)"
    proof (cases "fr < need")
      case True
      then show ?thesis using False by (subst full_loop.simps) (simp add: pop_min_def)
    qed (subst full_loop.simps, simp)
    then show ?thesis using False less.prems(2) drained_refl [OF inv]
      by (intro exI [of _ h] exI [of _ "[]"] conjI) auto
  next
    case True
    then obtain i where i: "i \<in> set ls" "pop_min (\<lambda>j. rn_ts (rt_node ?t j)) ls = Some (i, remove1 i ls)"
      using pop_min_ok by blast
    have fl: "free_leaf ?t i" using i(1) less.prems(2) by (simp add: free_leaves_def)
    then have lv: "live ?t i" "i \<noteq> 0" by (auto simp: free_leaf_def live_nodes_def)
    obtain p where p: "rn_parent (rt_node ?t i) = Some p" using live_parent [OF rinvD(1) [OF hinvD(1) [OF inv]] lv] by blast
    let ?v = "rn_value (rt_node ?t i)" and ?n = "node_length ?t i"
    obtain t' q es where d: "cascade p (unlink p i (hc_tree (free_mamba i h))) (kv @ [?v]) (fr + int ?n)
           = Some (t', q, kv @ ?v # es, fr + int ?n + int (length (concat es)))"
        "hinv ((free_mamba i h)\<lparr>hc_tree := t'\<rparr>) L" "shrinks L (?v # es) ?t t'"
        "tree_slots ?t = mset (mamba_out i h) + tree_slots t'"
        "free_leaves t' = free_leaves ?t - {i} \<union> (if free_leaf t' q then {q} else {})"
        "q \<notin> free_leaves ?t - {i}" "card (live_nodes t') < card (live_nodes ?t)" "length ?v = ?n" "live t' q"
        "\<And>j. rn_mamba (rt_node t' j) \<in> {rn_mamba (rt_node ?t j), None}"
      by (rule drop_leaf [OF inv fl p, of kv "fr + int ?n"]) blast
    let ?h = "(free_mamba i h)\<lparr>hc_tree := t'\<rparr>"
    let ?ls = "if is_leaf t' q \<and> rn_ref (rt_node t' q) = 0 \<and> \<not> is_root t' q then remove1 i ls @ [q] else remove1 i ls"
    have w': "rwf t'" using d(3) by (simp add: shrinks_def rinv_def)
    have root: "is_root t' q \<longleftrightarrow> q = 0"
      using rwfD(2) [OF w'] live_parent [OF w' d(9)] by (metis is_root_def option.distinct(1))
    have flq: "free_leaf t' q \<longleftrightarrow> is_leaf t' q \<and> rn_ref (rt_node t' q) = 0 \<and> \<not> is_root t' q"
      using d(9) root by (auto simp: free_leaf_def live_nodes_def)
    have ls: "set ?ls = free_leaves t'" "distinct ?ls"
      using d(5,6) less.prems(2,3) unfolding flq [symmetric] by auto
    have dr: "drained L h (?v # es) (mamba_out i h) ?h" using d(2-4,10) by (simp add: drained_def)
    have "card (live_nodes (hc_tree ?h)) < card (live_nodes ?t)" using d(7) by simp
    from less.hyps [OF this d(2), of ?ls "fr + int ?n + int (length (concat es))" "kv @ ?v # es" "mb @ mamba_out i h"] ls
    obtain h' evs ms where r: "full_loop need ?h ?ls (fr + int ?n + int (length (concat es))) (kv @ ?v # es) (mb @ mamba_out i h)
          = Some (h', (kv @ ?v # es) @ evs, (mb @ mamba_out i h) @ ms)" "drained L ?h evs ms h'"
        "need \<le> fr + int ?n + int (length (concat es)) + int (length (concat evs)) \<or> free_leaves (hc_tree h') = {}" by auto
    have "full_loop need h ls fr kv mb = Some (h', kv @ ((?v # es) @ evs), mb @ (mamba_out i h @ ms))"
      using True i(2) p fl r(1) d(1) by (subst full_loop.simps) (simp add: free_leaf_def Let_def)
    then show ?thesis using drained_trans [OF dr r(2)] r(3) d(8) by fastforce
  qed
qed

lemma collected_free:
  assumes "rinv t L"
  obtains ls where "collect_leaves t [0] [] = Some ls" "set (filter (\<lambda>i. \<not> is_root t i) ls) = free_leaves t"
    "distinct (filter (\<lambda>i. \<not> is_root t i) ls)"
proof -
  have w: "rwf t" by (rule rinvD(1) [OF assms])
  obtain ls where c: "collects t [0] ls" using collects_node [OF w live_root] by blast
  then have "collect_leaves t ([0] @ []) [] = collect_leaves t [] ([] @ ls)" unfolding collects_def by blast
  moreover have "collect_leaves t [] ls = Some ls" by (subst collect_leaves.simps) simp
  ultimately have cl: "collect_leaves t [0] [] = Some ls" by simp
  have up0: "up t j 0" if lv: "live t j" for j
  proof -
    obtain xs vs where "spells t j xs vs" using lv by (auto simp: live_def)
    then show ?thesis using prefix_up [OF spells.at_root w] by simp
  qed
  have root: "is_root t j \<longleftrightarrow> j = 0" if "live t j" for j
    using rwfD(2) [OF w] live_parent [OF w that] by (metis is_root_def option.distinct(1))
  have "set ls = {j. live t j \<and> up t j 0 \<and> is_leaf t j \<and> rn_ref (rt_node t j) = 0}"
    using c by (simp add: collects_def free_leaves_below_def)
  then have "set (filter (\<lambda>i. \<not> is_root t i) ls) = free_leaves t"
    using up0 root by (auto simp: free_leaves_def free_leaf_def live_nodes_def)
  then show thesis using that [OF cl] c by (simp add: collects_def)
qed

lemma evict_full_ok:
  assumes "hinv h L"
  obtains h' r evs where "evict_full need h = Some (h', r)" "er_kv r = concat evs" "drained L h evs (er_mamba r) h'"
    "need \<le> int (length (er_kv r)) \<or> rt_evictable (hc_tree h') = 0"
proof -
  obtain ls where ls: "collect_leaves (hc_tree h) [0] [] = Some ls"
      "set (filter (\<lambda>i. \<not> is_root (hc_tree h) i) ls) = free_leaves (hc_tree h)"
      "distinct (filter (\<lambda>i. \<not> is_root (hc_tree h) i) ls)" using collected_free [OF hinvD(1) [OF assms]] by blast
  obtain h' evs ms where r: "full_loop need h (filter (\<lambda>i. \<not> is_root (hc_tree h) i) ls) 0 [] [] = Some (h', evs, ms)"
      "drained L h evs ms h'" "need \<le> int (length (concat evs)) \<or> free_leaves (hc_tree h') = {}"
    using full_loop_ok [OF assms ls(2,3), of need 0 "[]" "[]"] by auto
  have i': "rinv (hc_tree h') L" using r(2) hinvD(1) by (simp add: drained_def)
  have "rt_evictable (hc_tree h') = 0" if "free_leaves (hc_tree h') = {}"
    using free_leaf_exists [OF i'] tree_pages_size(2) [OF i'] that by (fastforce simp: free_leaves_def)
  then show thesis
    using that [of h' "\<lparr>er_kv = concat evs, er_mamba = ms\<rparr>" evs] ls(1) r by (auto simp: evict_full_def)
qed

text \<open>The search for snapshots visits every node of the tree once.\<close>

definition marked_below :: "rtree \<Rightarrow> nat \<Rightarrow> nat set" where
  "marked_below t i = {j. live t j \<and> up t j i \<and> rn_mamba (rt_node t j) \<noteq> None \<and> \<not> is_root t j}"

definition gathers :: "rtree \<Rightarrow> nat list \<Rightarrow> nat list \<Rightarrow> bool" where
  "gathers t is ls \<longleftrightarrow> (\<forall>st acc. snapshot_nodes t (is @ st) acc = snapshot_nodes t st (acc @ ls))
     \<and> set ls = (\<Union>i \<in> set is. marked_below t i) \<and> distinct ls"

lemma gathers_list:
  assumes "\<And>c. c \<in> set cs \<Longrightarrow> \<exists>ls. gathers t [c] ls" "distinct cs"
    and "\<And>a b. a \<in> set cs \<Longrightarrow> b \<in> set cs \<Longrightarrow> a \<noteq> b \<Longrightarrow> marked_below t a \<inter> marked_below t b = {}"
  shows "\<exists>ls. gathers t cs ls"
  using assms
proof (induction cs)
  case Nil
  then show ?case by (intro exI [of _ "[]"]) (simp add: gathers_def)
next
  case (Cons c cs)
  obtain ls where ls: "gathers t [c] ls" using Cons.prems(1) by auto
  obtain ls' where ls': "gathers t cs ls'" using Cons by auto
  have "marked_below t c \<inter> (\<Union>i \<in> set cs. marked_below t i) = {}"
    using Cons.prems(2,3) by fastforce
  then have "gathers t (c # cs) (ls @ ls')" using ls ls' by (auto simp: gathers_def)
  then show ?case by blast
qed

lemma gathers_node: "rwf t \<Longrightarrow> live t i \<Longrightarrow> \<exists>ls. gathers t [i] ls"
proof (rule tree_induct)
  fix i assume w: "rwf t" and lv: "live t i"
    and IH: "\<And>k c. map_of (rn_children (rt_node t i)) k = Some c \<Longrightarrow> \<exists>ls. gathers t [c] ls"
  let ?cs = "rev (map snd (rn_children (rt_node t i)))"
    and ?me = "if rn_mamba (rt_node t i) \<noteq> None \<and> \<not> is_root t i then [i] else []"
  note cl = child_list [OF w lv]
  have "marked_below t a \<inter> marked_below t b = {}" if "a \<in> set ?cs" "b \<in> set ?cs" "a \<noteq> b" for a b
    using siblings_disjoint [OF w _ _ _ _ that(3)] cl(1) that(1,2) by (auto simp: marked_below_def)
  then obtain ls where ls: "gathers t ?cs ls" using gathers_list [of ?cs t] IH cl(2,3) by blast
  have "up t j c \<Longrightarrow> c \<in> set ?cs \<Longrightarrow> j \<noteq> i" for j c
    using up_acyclic [OF w, of c i] cl(1) [of c] by (auto dest: up_trans)
  then have "i \<notin> set ls" using ls by (auto simp: gathers_def marked_below_def)
  moreover have "marked_below t i = set ?me \<union> (\<Union>c \<in> set ?cs. marked_below t c)"
    using up_children [OF w lv] lv up_refl [of t i] by (auto simp: marked_below_def simp del: up_refl set_rev)
  ultimately have "gathers t [i] (?me @ ls)"
    using ls unfolding gathers_def by (subst snapshot_nodes.simps) auto
  then show "\<exists>ls. gathers t [i] ls" by blast
qed

lemma gathered_snapshots:
  assumes "rinv t L"
  obtains ls where "snapshot_nodes t [0] [] = Some ls"
    "set (filter (\<lambda>i. rn_mamba_ref (rt_node t i) = 0) ls) = snap_nodes (\<lambda>r. r = 0) t"
    "distinct (filter (\<lambda>i. rn_mamba_ref (rt_node t i) = 0) ls)"
proof -
  have w: "rwf t" by (rule rinvD(1) [OF assms])
  obtain ls where c: "gathers t [0] ls" using gathers_node [OF w live_root] by blast
  then have "snapshot_nodes t ([0] @ []) [] = snapshot_nodes t [] ([] @ ls)" unfolding gathers_def by blast
  moreover have "snapshot_nodes t [] ls = Some ls" by (subst snapshot_nodes.simps) simp
  ultimately have sn: "snapshot_nodes t [0] [] = Some ls" by simp
  have up0: "up t j 0" if lv: "live t j" for j
  proof -
    obtain xs vs where "spells t j xs vs" using lv by (auto simp: live_def)
    then show ?thesis using prefix_up [OF spells.at_root w] by simp
  qed
  have root: "is_root t j \<longleftrightarrow> j = 0" if "live t j" for j
    using rwfD(2) [OF w] live_parent [OF w that] by (metis is_root_def option.distinct(1))
  have "set ls = marked_below t 0" using c by (simp add: gathers_def)
  then have "set (filter (\<lambda>i. rn_mamba_ref (rt_node t i) = 0) ls) = snap_nodes (\<lambda>r. r = 0) t"
    using up0 root by (auto simp: marked_below_def snap_nodes_def live_nodes_def)
  then show thesis using that [OF sn] c by (simp add: gathers_def)
qed

lemma mamba_loop_ok:
  assumes "hinv h L" "set ls = snap_nodes (\<lambda>r. r = 0) (hc_tree h)" "distinct ls"
  shows "\<exists>h' evs ms. mamba_loop need h ls fr kv mb = Some (h', kv @ evs, mb @ ms) \<and> drained L h evs ms h'
    \<and> length ms = min (need - fr) (length ls)"
  using assms
proof (induction ls arbitrary: h fr kv mb rule: length_induct)
  case (1 ls)
  note inv = 1(2)
  let ?t = "hc_tree h"
  show ?case
  proof (cases "fr < need \<and> ls \<noteq> []")
    case False
    have "mamba_loop need h ls fr kv mb = Some (h, kv, mb)"
    proof (cases "fr < need")
      case True
      then show ?thesis using False by (subst mamba_loop.simps) (simp add: pop_min_def)
    qed (subst mamba_loop.simps, simp)
    then show ?thesis using False drained_refl [OF inv]
      by (intro exI [of _ h] exI [of _ "[]"] conjI) auto
  next
    case True
    then obtain i where i: "i \<in> set ls" "pop_min (\<lambda>j. rn_ts (rt_node ?t j)) ls = Some (i, remove1 i ls)"
      using pop_min_ok by blast
    have il: "i \<in> live_nodes ?t" and nm: "rn_mamba (rt_node ?t i) \<noteq> None" and mr: "rn_mamba_ref (rt_node ?t i) = 0"
      using i(1) 1(3) by (auto simp: snap_nodes_def)
    then have lv: "live ?t i" "i \<noteq> 0" by (auto simp: live_nodes_def)
    obtain p where p: "rn_parent (rt_node ?t i) = Some p" using live_parent [OF rinvD(1) [OF hinvD(1) [OF inv]] lv] by blast
    have len: "length (remove1 i ls) < length ls" "length (remove1 i ls) = length ls - 1"
      using i(1) length_pos_if_in_set [OF i(1)] by (auto simp: length_remove1)
    have srt: "set (remove1 i ls) = snap_nodes (\<lambda>r. r = 0) ?t - {i}" "distinct (remove1 i ls)" using 1(3,4) by auto
    obtain h1 es where h1: "drained L h es (mamba_out i h) h1" "snap_nodes (\<lambda>r. r = 0) (hc_tree h1) = snap_nodes (\<lambda>r. r = 0) ?t - {i}"
        "length (mamba_out i h) = 1"
        "mamba_loop need h ls fr kv mb = mamba_loop need h1 (remove1 i ls) (fr + 1) (kv @ es) (mb @ mamba_out i h)"
    proof (cases "is_leaf ?t i \<and> rn_ref (rt_node ?t i) = 0")
      case leaf: True
      then have fl: "free_leaf ?t i" using il by (simp add: free_leaf_def)
      let ?v = "rn_value (rt_node ?t i)"
      obtain t' q es where d: "cascade p (unlink p i (hc_tree (free_mamba i h))) (kv @ [?v]) 0
           = Some (t', q, kv @ ?v # es, 0 + int (length (concat es)))"
        "hinv ((free_mamba i h)\<lparr>hc_tree := t'\<rparr>) L" "shrinks L (?v # es) ?t t'"
        "tree_slots ?t = mset (mamba_out i h) + tree_slots t'" "length (mamba_out i h) = 1"
        "\<And>P. snap_nodes P t' = snap_nodes P ?t - {i}" "\<And>j. rn_mamba (rt_node t' j) \<in> {rn_mamba (rt_node ?t j), None}"
        by (rule drop_leaf [OF inv fl p, of kv 0]) blast
      show thesis
      proof (rule that)
        show "drained L h (?v # es) (mamba_out i h) ((free_mamba i h)\<lparr>hc_tree := t'\<rparr>)"
          using d(2-4,7) by (simp add: drained_def)
        show "mamba_loop need h ls fr kv mb
          = mamba_loop need ((free_mamba i h)\<lparr>hc_tree := t'\<rparr>) (remove1 i ls) (fr + 1) (kv @ ?v # es) (mb @ mamba_out i h)"
          using True i(2) p nm mr leaf d(1) by (subst mamba_loop.simps) (auto simp: Let_def)
      qed (use d(5,6) in simp_all)
    next
      case inner: False
      note F = free_mamba_ok [OF inv il nm mr]
      have nl: "\<not> is_leaf ?t i"
      proof
        assume lf: "is_leaf ?t i"
        have "i \<in> live_nodes (hc_tree (free_mamba i h))" "is_leaf (hc_tree (free_mamba i h)) i"
            "rn_mamba (rt_node (hc_tree (free_mamba i h)) i) = None" using il lf by (simp_all add: F(1))
        from tombstone_unlocked [OF F(2,3) this] have "rn_ref (rt_node ?t i) = 0" by (simp add: F(1))
        then show False using inner lf by simp
      qed
      show thesis
      proof (rule that)
        have "hinv (free_mamba i h) L" using F(2,6,7) F(4) [OF nl] by (simp add: hinv_def)
        moreover have "shrinks L [] ?t (hc_tree (free_mamba i h))"
          by (rule shrinks_same) (use F(2) set_mamba_shape(1) in \<open>simp_all add: F(1)\<close>)
        ultimately show "drained L h [] (mamba_out i h) (free_mamba i h)"
          using F(8) by (simp add: drained_def F(1))
        show "mamba_loop need h ls fr kv mb
          = mamba_loop need (free_mamba i h) (remove1 i ls) (fr + 1) (kv @ []) (mb @ mamba_out i h)"
          using True i(2) p nm mr inner by (subst mamba_loop.simps) auto
      qed (use F(5,9) in simp_all)
    qed
    have "hinv h1 L" using h1(1) by (simp add: drained_def)
    with 1(1) len(1) srt h1(2)
    obtain h' evs ms where r: "mamba_loop need h1 (remove1 i ls) (fr + 1) (kv @ es) (mb @ mamba_out i h)
          = Some (h', (kv @ es) @ evs, (mb @ mamba_out i h) @ ms)" "drained L h1 evs ms h'"
        "length ms = min (need - (fr + 1)) (length (remove1 i ls))" by metis
    have "length (mamba_out i h @ ms) = min (need - fr) (length ls)" using r(3) h1(3) len(2) True by (cases ls) auto
    then show ?thesis using h1(4) r(1) drained_trans [OF h1(1) r(2)]
      by (intro exI [of _ h'] exI [of _ "es @ evs"] exI [of _ "mamba_out i h @ ms"]) simp
  qed
qed

lemma evict_mamba_ok:
  assumes "hinv h L"
  obtains h' r evs where "evict_mamba need h = Some (h', r)" "er_kv r = concat evs" "drained L h evs (er_mamba r) h'"
    "length (er_mamba r) = min need (nat (hc_mev h))"
proof -
  let ?ls = "\<lambda>ls. filter (\<lambda>i. rn_mamba_ref (rt_node (hc_tree h) i) = 0) ls"
  obtain ls where ls: "snapshot_nodes (hc_tree h) [0] [] = Some ls" "set (?ls ls) = snap_nodes (\<lambda>r. r = 0) (hc_tree h)"
      "distinct (?ls ls)" using gathered_snapshots [OF hinvD(1) [OF assms]] by blast
  obtain h' evs ms where r: "mamba_loop need h (?ls ls) 0 [] [] = Some (h', evs, ms)" "drained L h evs ms h'"
      "length ms = min need (length (?ls ls))"
    using mamba_loop_ok [OF assms ls(2,3), of need 0 "[]" "[]"] by auto
  have "hc_mev h = int (length (?ls ls))" using hinvD(3) [OF assms] ls(2,3) distinct_card [OF ls(3)] by simp
  then show thesis
    using that [of h' "\<lparr>er_kv = concat evs, er_mamba = ms\<rparr>" evs] ls(1) r by (simp add: evict_mamba_def)
qed

end
