(* ===== verification/HybridProps.thy ===== *)
theory HybridProps
  imports HybridRadix RadixProps
begin

text \<open>
  The properties of the hybrid cache: the invariant over every sequence of calls, the deepest usable
  snapshot, and what the two evictions may take.
\<close>

section \<open>Every sequence of calls\<close>

inductive hybrid_step :: "htree \<times> nat list \<Rightarrow> htree \<times> nat list \<Rightarrow> bool" where
  hybrid_matches: "hybrid_match_prefix tic xs h = Some (ok (h', m)) \<Longrightarrow> hybrid_step (h, L) (h', L)"
| hybrid_inserts: "length xs \<le> length kv
    \<Longrightarrow> paged (rt_page (hc_tree h)) (take (length xs div rt_page (hc_tree h) * rt_page (hc_tree h)) kv)
    \<Longrightarrow> hybrid_insert tic tic' xs kv slot h = Some (ok (h', n, ex)) \<Longrightarrow> hybrid_step (h, L) (h', L)"
| hybrid_locks: "live (hc_tree h) i \<Longrightarrow> i = 0 \<or> rn_mamba (rt_node (hc_tree h) i) \<noteq> None
    \<Longrightarrow> inc_lock i h = Some (ok h') \<Longrightarrow> hybrid_step (h, L) (h', i # L)"
| hybrid_unlocks: "i \<in> set L \<Longrightarrow> dec_lock i h = Some (ok h') \<Longrightarrow> hybrid_step (h, L) (h', remove1 i L)"
| hybrid_evicts: "evict_full need h = Some (h', r) \<Longrightarrow> hybrid_step (h, L) (h', L)"
| hybrid_evicts_mamba: "evict_mamba n h = Some (h', r) \<Longrightarrow> hybrid_step (h, L) (h', L)"

inductive_cases hybrid_stepE: "hybrid_step s s'"

lemma init_hybrid_inv: "0 < page \<Longrightarrow> hinv (init_hybrid page tic) []"
proof -
  assume "0 < page"
  then have r: "rinv (init_tree page tic) []" using init_inv [of page tic] radix_invD(1) by fastforce
  have "live (init_tree page tic) i \<Longrightarrow> i < 1" for i using rwfD(3) [OF rinvD(1) [OF r], of i] by (simp add: init_tree_def)
  then have "live_nodes (init_tree page tic) = {}" by (auto simp: live_nodes_def)
  then show ?thesis using r by (simp add: hinv_def init_hybrid_def marks_ok_def snap_nodes_def) (simp add: init_tree_def new_node_def)
qed

lemma hybrid_step_inv: "hybrid_step s s' \<Longrightarrow> hinv (fst s) (snd s) \<Longrightarrow> hinv (fst s') (snd s')"
proof (induction rule: hybrid_step.induct)
  case (hybrid_matches tic xs h h' m L)
  from hybrid_matches(2) have inv: "hinv h L" by simp
  obtain h'' m' where "hybrid_match_prefix tic xs h = Some (ok (h'', m'))" "hinv h'' L"
    by (rule hybrid_match_ok [OF inv, of tic xs]) blast
  then show ?case using hybrid_matches(1) by simp
next
  case (hybrid_inserts xs kv h tic tic' slot h' n ex L)
  from hybrid_inserts(4) have inv: "hinv h L" by simp
  obtain h'' n' ex' where "hybrid_insert tic tic' xs kv slot h = Some (ok (h'', n', ex'))" "hinv h'' L"
    by (rule hybrid_insert_ok [OF inv hybrid_inserts(1,2) refl, of tic tic' slot]) blast
  then show ?case using hybrid_inserts(3) by simp
next
  case (hybrid_locks h i h' L)
  from hybrid_locks(4) have inv: "hinv h L" by simp
  obtain h'' where "inc_lock i h = Some (ok h'')" "hinv h'' (i # L)"
    by (rule inc_lock_ok [OF inv hybrid_locks(1)]) (use hybrid_locks(2) in blast)+
  then show ?case using hybrid_locks(3) by simp
next
  case (hybrid_unlocks i L h h')
  from hybrid_unlocks(3) have inv: "hinv h L" by simp
  obtain h'' where "dec_lock i h = Some (ok h'')" "hinv h'' (remove1 i L)"
    by (rule dec_lock_ok [OF inv hybrid_unlocks(1)]) blast
  then show ?case using hybrid_unlocks(2) by simp
next
  case (hybrid_evicts need h h' r L)
  from hybrid_evicts(2) have "hinv h L" by simp
  from evict_full_ok [OF this, of need] obtain h'' r' evs where "evict_full need h = Some (h'', r')" "drained L h evs (er_mamba r') h''" by blast
  then show ?case using hybrid_evicts(1) by (simp add: drained_def)
next
  case (hybrid_evicts_mamba n h h' r L)
  from hybrid_evicts_mamba(2) have "hinv h L" by simp
  from evict_mamba_ok [OF this, of n] obtain h'' r' evs where "evict_mamba n h = Some (h'', r')" "drained L h evs (er_mamba r') h''" by blast
  then show ?case using hybrid_evicts_mamba(1) by (simp add: drained_def)
qed

lemma hybrid_reach_inv:
  assumes "0 < page" "hybrid_step\<^sup>*\<^sup>* (init_hybrid page tic, []) (h, L)"
  shows "hinv h L"
proof -
  have "hybrid_step\<^sup>*\<^sup>* (init_hybrid page tic, []) s \<Longrightarrow> hinv (fst s) (snd s)" for s
    by (induction rule: rtranclp_induct) (use init_hybrid_inv [OF assms(1)] hybrid_step_inv in auto)
  from this [OF assms(2)] show ?thesis by simp
qed

text \<open>C17: in every state that calls can lead to, all four counters are exact: the token counters are the sizes
  of the unlocked and the locked nodes, the snapshot counters count the unlocked and the locked snapshots;
  a node counts the locked handles at or below it, a snapshot those at its node; and every leaf owns a snapshot.\<close>

theorem hybrid_reachable:
  assumes "0 < page" "hybrid_step\<^sup>*\<^sup>* (init_hybrid page tic, []) (h, L)"
  shows "rt_evictable (hc_tree h) = weight (\<lambda>n. rn_ref n = 0) (hc_tree h)
    \<and> rt_protected (hc_tree h) = weight (\<lambda>n. rn_ref n \<noteq> 0) (hc_tree h)
    \<and> hc_mev h = int (card (snap_nodes (\<lambda>r. r = 0) (hc_tree h)))
    \<and> hc_mprot h = int (card (snap_nodes (\<lambda>r. r \<noteq> 0) (hc_tree h)))
    \<and> (\<forall>i \<in> live_nodes (hc_tree h).
         rn_ref (rt_node (hc_tree h) i) = int (length (filter (\<lambda>j. up (hc_tree h) j i) L))
         \<and> (rn_mamba (rt_node (hc_tree h) i) \<noteq> None \<longrightarrow> rn_mamba_ref (rt_node (hc_tree h) i) = int (count_list L i))
         \<and> (is_leaf (hc_tree h) i \<longrightarrow> rn_mamba (rt_node (hc_tree h) i) \<noteq> None))"
proof -
  note v = hinvD [OF hybrid_reach_inv [OF assms]]
  then show ?thesis
    using rinvD(2,3) [OF v(1)] marks_okD(2,4) [OF v(2)] by (simp add: sizes_ok_def refs_ok_def)
qed

section \<open>Matching\<close>

text \<open>C10: a match resumes from the deepest usable snapshot: it covers a prefix of the request at whose end the
  tree owns a snapshot, with the cached indices of that prefix, and no longer prefix of the request ends in a
  snapshot; without one it is empty. It moves no snapshot and no page.\<close>

theorem hybrid_match_deepest:
  assumes "hinv h L"
  shows "\<exists>h' m. hybrid_match_prefix tic xs h = Some (ok (h', m)) \<and> hinv h' L
    \<and> tree_slots (hc_tree h') = tree_slots (hc_tree h) \<and> tree_pages (hc_tree h') = tree_pages (hc_tree h)
    \<and> 0 \<le> hm_len m \<and> hm_len m \<le> int (length xs)
    \<and> (case hm_mamba m of
         None \<Rightarrow> hm_len m = 0 \<and> hm_kv m = []
       | Some s \<Rightarrow> snapshot_at (hc_tree h) (take (nat (hm_len m)) xs) s
           \<and> holds (hc_tree h') (take (nat (hm_len m)) xs) (hm_kv m))
    \<and> (\<forall>ys s. snapshot_at (hc_tree h) ys s \<longrightarrow> take (length ys) xs = ys \<longrightarrow> int (length ys) \<le> hm_len m)"
proof -
  obtain h' m where m: "hybrid_match_prefix tic xs h = Some (ok (h', m))" "hinv h' L"
    "tree_slots (hc_tree h') = tree_slots (hc_tree h)" "tree_pages (hc_tree h') = tree_pages (hc_tree h)"
    "\<And>ys s. snapshot_at (hc_tree h') ys s \<longleftrightarrow> snapshot_at (hc_tree h) ys s"
    "hm_node m = 0 \<and> m = cold_match \<or> hm_node m \<noteq> 0 \<and> live (hc_tree h') (hm_node m)
       \<and> rn_mamba (rt_node (hc_tree h') (hm_node m)) = hm_mamba m \<and> hm_mamba m \<noteq> None
       \<and> spells (hc_tree h') (hm_node m) (take (nat (hm_len m)) xs) (hm_kv m) \<and> 0 \<le> hm_len m \<and> hm_len m \<le> int (length xs)"
    "\<And>ys s. snapshot_at (hc_tree h) ys s \<Longrightarrow> take (length ys) xs = ys \<Longrightarrow> int (length ys) \<le> hm_len m"
    by (rule hybrid_match_ok [OF assms, of tic xs]) blast
  have "0 \<le> hm_len m \<and> hm_len m \<le> int (length xs)
    \<and> (case hm_mamba m of
         None \<Rightarrow> hm_len m = 0 \<and> hm_kv m = []
       | Some s \<Rightarrow> snapshot_at (hc_tree h) (take (nat (hm_len m)) xs) s
           \<and> holds (hc_tree h') (take (nat (hm_len m)) xs) (hm_kv m))"
    using m(6)
  proof
    assume a: "hm_node m \<noteq> 0 \<and> live (hc_tree h') (hm_node m)
       \<and> rn_mamba (rt_node (hc_tree h') (hm_node m)) = hm_mamba m \<and> hm_mamba m \<noteq> None
       \<and> spells (hc_tree h') (hm_node m) (take (nat (hm_len m)) xs) (hm_kv m) \<and> 0 \<le> hm_len m \<and> hm_len m \<le> int (length xs)"
    then obtain s where s: "hm_mamba m = Some s" by blast
    have "snapshot_at (hc_tree h') (take (nat (hm_len m)) xs) s" using a s unfolding snapshot_at_def by metis
    moreover have "holds (hc_tree h') (take (nat (hm_len m)) xs) (hm_kv m)"
      using a spells_holds rinvD(1) [OF hinvD(1) [OF m(2)]] by blast
    ultimately show ?thesis using a s m(5) by simp
  qed (simp add: cold_match_def)
  then show ?thesis using m(1-4,7) by blast
qed

section \<open>Evicting\<close>

text \<open>\<open>takes L h h' r\<close>: going from \<open>h\<close> to \<open>h'\<close>, exactly the pages and slots of \<open>r\<close> left the tree, and every prefix
  locked in \<open>L\<close> kept its tokens, its indices and its snapshot.\<close>

definition takes :: "nat list \<Rightarrow> htree \<Rightarrow> htree \<Rightarrow> evict_result \<Rightarrow> bool" where
  "takes L h h' r \<longleftrightarrow> hinv h' L
     \<and> tree_pages (hc_tree h) = mset (er_kv r) + tree_pages (hc_tree h')
     \<and> tree_slots (hc_tree h) = mset (er_mamba r) + tree_slots (hc_tree h')
     \<and> (\<forall>i \<in> set L. rn_mamba (rt_node (hc_tree h') i) = rn_mamba (rt_node (hc_tree h) i)
         \<and> (\<forall>xs vs. spells (hc_tree h) i xs vs \<longrightarrow> spells (hc_tree h') i xs vs))"

lemma drained_takes:
  assumes "hinv h L" "drained L h evs (er_mamba r) h'" "er_kv r = concat evs"
  shows "takes L h h' r"
proof -
  note d = assms(2) [unfolded drained_def]
  have h': "hinv h' L" using d by blast
  have "rn_mamba (rt_node (hc_tree h') i) = rn_mamba (rt_node (hc_tree h) i)" if i: "i \<in> set L" for i
  proof -
    have "rn_mamba (rt_node (hc_tree h') i) \<noteq> None \<or> i = 0" using marks_okD(3) [OF hinvD(2) [OF h'] i] by blast
    moreover have "rn_mamba (rt_node (hc_tree h') 0) = None" "rn_mamba (rt_node (hc_tree h) 0) = None"
      by (rule marks_okD(1) [OF hinvD(2) [OF h']], rule marks_okD(1) [OF hinvD(2) [OF assms(1)]])
    moreover have "rn_mamba (rt_node (hc_tree h') i) = rn_mamba (rt_node (hc_tree h) i) \<or> rn_mamba (rt_node (hc_tree h') i) = None"
      using d [THEN conjunct2, THEN conjunct2, THEN conjunct2, THEN spec, of i] by simp
    ultimately show ?thesis by metis
  qed
  moreover note sh = d [THEN conjunct2, THEN conjunct1, unfolded shrinks_def]
  have "spells (hc_tree h') i xs vs" if "i \<in> set L" "spells (hc_tree h) i xs vs" for i xs vs using sh that by blast
  moreover have "tree_pages (hc_tree h) = mset (er_kv r) + tree_pages (hc_tree h')" unfolding assms(3) using sh by blast
  moreover have "tree_slots (hc_tree h) = mset (er_mamba r) + tree_slots (hc_tree h')" using d by blast
  ultimately show ?thesis using h' unfolding takes_def by blast
qed

text \<open>C11: both evictions return exactly what leaves the tree, pages and snapshots, and leave every locked prefix
  with its indices and its snapshot; \<open>evict_full\<close> frees the tokens it was asked for when so many are
  evictable, \<open>evict_mamba\<close> exactly the snapshots it was asked for, or all unlocked ones.\<close>

theorem hybrid_eviction_safe:
  assumes "hinv h L" "need \<le> rt_evictable (hc_tree h)"
  shows "(\<exists>h' r. evict_full need h = Some (h', r) \<and> takes L h h' r \<and> need \<le> int (length (er_kv r)))
    \<and> (\<exists>h' r. evict_mamba n h = Some (h', r) \<and> takes L h h' r \<and> length (er_mamba r) = min n (nat (hc_mev h)))"
proof -
  obtain h1 r1 e1 where a: "evict_full need h = Some (h1, r1)" "er_kv r1 = concat e1" "drained L h e1 (er_mamba r1) h1"
      "need \<le> int (length (er_kv r1)) \<or> rt_evictable (hc_tree h1) = 0"
    using evict_full_ok [OF assms(1), of need] by blast
  obtain h2 r2 e2 where b: "evict_mamba n h = Some (h2, r2)" "er_kv r2 = concat e2" "drained L h e2 (er_mamba r2) h2"
      "length (er_mamba r2) = min n (nat (hc_mev h))"
    using evict_mamba_ok [OF assms(1), of n] by blast
  have "rt_evictable (hc_tree h1) = rt_evictable (hc_tree h) - int (length (concat e1))"
    using a(3) by (simp add: drained_def shrinks_def del: length_concat)
  then have "need \<le> int (length (er_kv r1))" using a(4) assms(2) unfolding a(2) [symmetric] by linarith
  then show ?thesis
    using a(1) b(1,4) drained_takes [OF assms(1) a(3,2)] drained_takes [OF assms(1) b(3,2)] by blast
qed

section \<open>A run\<close>

lemma nothing_locked:
  assumes "hinv h []"
  shows "rt_evictable (hc_tree h) = int (size (tree_pages (hc_tree h)))" "hc_mev h = int (size (tree_slots (hc_tree h)))"
proof -
  note v = hinvD [OF assms]
  have "weight (\<lambda>n. rn_ref n \<noteq> 0) (hc_tree h) = 0"
    using rinvD(3) [OF v(1)] unfolding weight_def refs_ok_def by (intro sum.neutral) simp
  then show "rt_evictable (hc_tree h) = int (size (tree_pages (hc_tree h)))"
    using rinvD(2) [OF v(1)] tree_pages_size(1) [OF v(1)] by (simp add: sizes_ok_def)
  have "snap_nodes (\<lambda>r. r = 0) (hc_tree h) = snap_nodes (\<lambda>_. True) (hc_tree h)"
    using marks_okD(2) [OF v(2)] unfolding snap_nodes_def by fastforce
  then show "hc_mev h = int (size (tree_slots (hc_tree h)))"
    using v(3) finite_snap [OF v(1), of "\<lambda>_. True"] by (simp add: tree_slots_def)
qed

text \<open>One prefix of two pages with the snapshot in slot 7\<close>

lemma demo_hybrid:
  obtains h n where "hybrid_insert 5 6 [1, 2, 3, 4] [10, 11, 20, 21] 7 (init_hybrid 2 1) = Some (ok (h, n, False))"
    "hinv h []" "snapshot_at (hc_tree h) [1, 2, 3, 4] 7" "rt_evictable (hc_tree h) = 4" "hc_mev h = 1" "n \<le> 4"
proof -
  have inv: "hinv (init_hybrid 2 1) []" by (rule init_hybrid_inv) simp
  have pg: "rt_page (hc_tree (init_hybrid 2 1)) = 2" by (simp add: init_hybrid_def init_tree_def)
  have ev: "rt_evictable (hc_tree (init_hybrid 2 1)) = 0" "hc_mev (init_hybrid 2 1) = 0"
    by (simp_all add: init_hybrid_def init_tree_def)
  then have e: "tree_pages (hc_tree (init_hybrid 2 1)) = {#}" "tree_slots (hc_tree (init_hybrid 2 1)) = {#}"
    using nothing_locked [OF inv] by simp_all
  have none: "\<not> snapshot_at (hc_tree (init_hybrid 2 1)) xs s" for xs s
    using marks_okD(1) [OF hinvD(2) [OF inv]] by (auto simp: snapshot_at_def init_hybrid_def init_tree_def new_node_def)
  have len: "length [1, 2, 3, 4 :: int] \<le> length [10, 11, 20, 21 :: int]" by simp
  have pd: "paged (rt_page (hc_tree (init_hybrid 2 1)))
      (take (length [1, 2, 3, 4 :: int] div rt_page (hc_tree (init_hybrid 2 1)) * rt_page (hc_tree (init_hybrid 2 1))) [10, 11, 20, 21])"
    using paged_demo by (simp add: pg)
  have A: "4 = length [1, 2, 3, 4 :: int] div rt_page (hc_tree (init_hybrid 2 1)) * rt_page (hc_tree (init_hybrid 2 1))"
    by (simp add: pg)
  obtain h n ex where h: "hybrid_insert 5 6 [1, 2, 3, 4] [10, 11, 20, 21] 7 (init_hybrid 2 1) = Some (ok (h, n, ex))" "hinv h []"
    "tree_slots (hc_tree h) = (if ex then {#} else {#7#})" "n \<le> 4"
    "tree_pages (hc_tree h) = mset (take (4 - n) (drop n [10, 11, 20, 21]))"
    "ex \<longleftrightarrow> 4 = (0 :: nat) \<or> (\<exists>s. snapshot_at (hc_tree (init_hybrid 2 1)) (take 4 [1, 2, 3, 4]) s)"
    "ex \<or> snapshot_at (hc_tree h) (take 4 [1, 2, 3, 4]) 7" "rt_page (hc_tree h) = 2"
    by (rule hybrid_insert_ok [OF inv len pd A, of 5 6 7]) (simp add: e pg)
  have ex: "\<not> ex" using h(6) none by simp
  obtain t m and hd :: handle where t: "insert_prefix 5 6 [1, 2, 3, 4] [10, 11, 20, 21] (init_tree 2 1) = Some (ok (t, m, hd))"
      "tree_pages t = mset [10, 11, 20, 21]" by (rule demo_tree_ok) blast
  have "hc_tree h = t \<or> hc_tree h = set_mamba (hd_node hd) (Some 7) t"
    using h(1) t(1) by (auto simp: hybrid_insert_def init_hybrid_def Let_def split: if_splits)
  then have "tree_pages (hc_tree h) = mset [10, 11, 20, 21]"
    using t(2) same_shape_pages [OF set_mamba_shape(1)] by auto
  then have "rt_evictable (hc_tree h) = 4" "hc_mev h = 1" using nothing_locked [OF h(2)] h(3) ex by simp_all
  then show thesis using that [of h n] h(1,2,4,7) ex by simp
qed

theorem hybrid_reachable_witness:
  "\<exists>h :: htree. rt_evictable (hc_tree h) = 4 \<and> rt_evictable (hc_tree h) = weight (\<lambda>n. rn_ref n = 0) (hc_tree h)
    \<and> hc_mev h = int (card (snap_nodes (\<lambda>r. r = 0) (hc_tree h))) \<and> hc_mev h = 1"
proof -
  obtain h n where h: "hybrid_insert 5 6 [1, 2, 3, 4] [10, 11, 20, 21] 7 (init_hybrid 2 1) = Some (ok (h, n, False))"
      "rt_evictable (hc_tree h) = 4" "hc_mev h = 1" by (rule demo_hybrid) blast
  have pg: "rt_page (hc_tree (init_hybrid 2 1)) = 2" by (simp add: init_hybrid_def init_tree_def)
  have "hybrid_step (init_hybrid 2 1, []) (h, [])"
    by (rule hybrid_inserts [OF _ _ h(1)]) (use paged_demo in \<open>simp_all add: pg\<close>)
  then have "hybrid_step\<^sup>*\<^sup>* (init_hybrid 2 1, []) (h, [])" by blast
  note r = hybrid_reachable [OF zero_less_numeral this]
  show ?thesis
    by (intro exI [of _ h] conjI h(2,3) r [THEN conjunct1] r [THEN conjunct2, THEN conjunct2, THEN conjunct1])
qed

theorem hybrid_match_deepest_witness:
  "\<exists>h h' m s. hybrid_match_prefix 7 [1, 2, 3, 4] h = Some (ok (h', m)) \<and> hm_len m = 4 \<and> hm_mamba m = Some s
    \<and> snapshot_at (hc_tree h) [1, 2, 3, 4] s"
proof -
  obtain h n where h: "hybrid_insert 5 6 [1, 2, 3, 4] [10, 11, 20, 21] 7 (init_hybrid 2 1) = Some (ok (h, n, False))"
      "hinv h []" "snapshot_at (hc_tree h) [1, 2, 3, 4] 7" by (rule demo_hybrid) blast
  obtain h' m where m: "hybrid_match_prefix 7 [1, 2, 3, 4] h = Some (ok (h', m))" "hm_len m \<le> int (length [1, 2, 3, 4 :: int])"
      "case hm_mamba m of None \<Rightarrow> hm_len m = 0 \<and> hm_kv m = []
        | Some s \<Rightarrow> snapshot_at (hc_tree h) (take (nat (hm_len m)) [1, 2, 3, 4]) s
            \<and> holds (hc_tree h') (take (nat (hm_len m)) [1, 2, 3, 4]) (hm_kv m)"
      "\<And>ys s. snapshot_at (hc_tree h) ys s \<Longrightarrow> take (length ys) [1, 2, 3, 4] = ys \<Longrightarrow> int (length ys) \<le> hm_len m"
    using hybrid_match_deepest [OF h(2), of 7 "[1, 2, 3, 4]"] by metis
  have "hm_len m = 4" using m(2) m(4) [OF h(3)] by simp
  then show ?thesis using m(1,3) by (auto split: option.splits)
qed

theorem hybrid_eviction_safe_witness:
  "\<exists>h h1 r1 h2 r2. evict_full 4 h = Some (h1, r1) \<and> 4 \<le> length (er_kv r1) \<and> takes [] h h1 r1
    \<and> evict_mamba 3 h = Some (h2, r2) \<and> length (er_mamba r2) = 1 \<and> takes [] h h2 r2"
proof -
  obtain h n where h: "hybrid_insert 5 6 [1, 2, 3, 4] [10, 11, 20, 21] 7 (init_hybrid 2 1) = Some (ok (h, n, False))"
      "hinv h []" "rt_evictable (hc_tree h) = 4" "hc_mev h = 1" by (rule demo_hybrid) blast
  have "4 \<le> rt_evictable (hc_tree h)" using h(3) by simp
  from hybrid_eviction_safe [OF h(2) this, of 3]
  obtain h1 r1 h2 r2 where "evict_full 4 h = Some (h1, r1)" "takes [] h h1 r1" "4 \<le> int (length (er_kv r1))"
      "evict_mamba 3 h = Some (h2, r2)" "takes [] h h2 r2" "length (er_mamba r2) = min 3 (nat (hc_mev h))" by blast
  then show ?thesis using h(4)
    by (intro exI [of _ h] exI [of _ h1] exI [of _ r1] exI [of _ h2] exI [of _ r2]) simp
qed

end
