(* ===== verification/TextOps.thy ===== *)
theory TextOps
  imports Prelude "HOL-Library.Sublist"
begin

text \<open>
  Python's string operations that the output parsers use. A text is its list of Unicode code
  points, because the markers of some models lie outside Latin-1; \<open>codes\<close> turns a literal into one.
  \<open>find\<close> with a start position is a search in the suffix from there.
\<close>

type_synonym utext = "int list"

definition codes :: "string \<Rightarrow> utext" where
  "codes s = map of_char s"

definition has_prefix :: "'a list \<Rightarrow> 'a list \<Rightarrow> bool" where
  "has_prefix p xs \<longleftrightarrow> take (length p) xs = p"

definition ends_with :: "'a list \<Rightarrow> 'a list \<Rightarrow> bool" where
  "ends_with p xs \<longleftrightarrow> length p \<le> length xs \<and> drop (length xs - length p) xs = p"

fun find_sub :: "'a list \<Rightarrow> 'a list \<Rightarrow> nat option" where
  "find_sub p [] = (if p = [] then Some 0 else None)"
| "find_sub p (x # xs) = (if has_prefix p (x # xs) then Some 0 else map_option Suc (find_sub p xs))"

definition has_sub :: "'a list \<Rightarrow> 'a list \<Rightarrow> bool" where
  "has_sub p xs \<longleftrightarrow> find_sub p xs \<noteq> None"

text \<open>\<open>text.replace(p, "")\<close> and \<open>text.replace(p, "", 1)\<close>; the empty pattern leaves the text.\<close>

function remove_subs :: "'a list \<Rightarrow> 'a list \<Rightarrow> 'a list" where
  "remove_subs p xs =
     (if p = [] then xs
      else case find_sub p xs of
        None \<Rightarrow> xs
      | Some i \<Rightarrow> take i xs @ remove_subs p (drop (i + length p) xs))"
  by pat_completeness auto

lemma find_sub_bound: "find_sub p xs = Some i \<Longrightarrow> i + length p \<le> length xs"
  by (induction p xs arbitrary: i rule: find_sub.induct)
    (auto simp: has_prefix_def dest: arg_cong [of _ _ length] split: if_splits)

lemma drop_found_less: "p \<noteq> [] \<Longrightarrow> find_sub p xs = Some i \<Longrightarrow> length xs - (i + length p) < length xs"
  by (cases p; drule find_sub_bound) auto

termination remove_subs
  by (relation "measure (length \<circ> snd)") (simp_all add: drop_found_less)

declare remove_subs.simps [simp del]

definition remove_sub1 :: "'a list \<Rightarrow> 'a list \<Rightarrow> 'a list" where
  "remove_sub1 p xs = (case find_sub p xs of None \<Rightarrow> xs | Some i \<Rightarrow> take i xs @ drop (i + length p) xs)"

text \<open>The characters \<open>str.isspace\<close> accepts, which \<open>strip()\<close> and \<open>split()\<close> use.\<close>

definition is_space :: "int \<Rightarrow> bool" where
  "is_space c \<longleftrightarrow> (9 \<le> c \<and> c \<le> 13) \<or> (28 \<le> c \<and> c \<le> 32) \<or> c = 133 \<or> c = 160 \<or> c = 5760 \<or> (8192 \<le> c \<and> c \<le> 8202)
     \<or> c = 8232 \<or> c = 8233 \<or> c = 8239 \<or> c = 8287 \<or> c = 12288"

definition lstrip :: "utext \<Rightarrow> utext" where
  "lstrip xs = dropWhile is_space xs"

definition rstrip :: "utext \<Rightarrow> utext" where
  "rstrip xs = rev (dropWhile is_space (rev xs))"

definition strip :: "utext \<Rightarrow> utext" where
  "strip xs = rstrip (lstrip xs)"

text \<open>The longest suffix of the text that is a proper prefix of one of the tokens, searched as the
  code does: token by token, from the longest candidate down to the best so far.\<close>

definition held_by :: "'a list \<Rightarrow> 'a list \<Rightarrow> nat \<Rightarrow> nat" where
  "held_by xs tok best =
     (case find (\<lambda>k. ends_with (take k tok) xs) (rev [Suc best ..< Suc (min (length tok - 1) (length xs))]) of
        None \<Rightarrow> best | Some k \<Rightarrow> k)"

definition held_suffix :: "'a list list \<Rightarrow> 'a list \<Rightarrow> nat" where
  "held_suffix toks xs = foldl (\<lambda>best tok. held_by xs tok best) 0 toks"

section \<open>Prefixes and suffixes\<close>

lemma has_prefix_prefix: "has_prefix p xs \<longleftrightarrow> prefix p xs"
  by (metis append_eq_conv_conj append_take_drop_id prefix_def has_prefix_def)

lemma ends_with_suffix: "ends_with p xs \<longleftrightarrow> suffix p xs"
proof
  assume "ends_with p xs"
  then show "suffix p xs" unfolding ends_with_def by (metis suffix_drop)
next
  assume "suffix p xs"
  then show "ends_with p xs" by (auto simp: suffix_def ends_with_def)
qed

lemma suffix_iff_drop: "suffix p xs \<longleftrightarrow> length p \<le> length xs \<and> drop (length xs - length p) xs = p"
  using ends_with_suffix ends_with_def by metis

section \<open>Search\<close>

text \<open>A search returns the first position at which the pattern occurs.\<close>

lemma find_sub_Some:
  "find_sub p xs = Some i \<longleftrightarrow> i \<le> length xs \<and> prefix p (drop i xs) \<and> (\<forall>j<i. \<not> prefix p (drop j xs))"
proof (induction xs arbitrary: i)
  case Nil
  then show ?case by auto
next
  case (Cons x xs)
  show ?case
  proof (cases "prefix p (x # xs)")
    case True
    then show ?thesis by (auto simp: has_prefix_prefix)
  next
    case False
    then show ?thesis
      using Cons.IH by (cases i) (auto simp: has_prefix_prefix less_Suc_eq_0_disj all_conj_distrib)
  qed
qed

lemma find_sub_None: "find_sub p xs = None \<longleftrightarrow> (\<forall>i \<le> length xs. \<not> prefix p (drop i xs))"
proof (induction xs)
  case (Cons x xs)
  have "(\<forall>i \<le> length (x # xs). \<not> prefix p (drop i (x # xs)))
    \<longleftrightarrow> \<not> prefix p (x # xs) \<and> (\<forall>i \<le> length xs. \<not> prefix p (drop i xs))"
    by (simp add: less_Suc_eq_le [symmetric] All_less_Suc2)
  with Cons show ?case by (simp add: has_prefix_prefix)
qed simp

lemma has_sub_iff: "has_sub p xs \<longleftrightarrow> (\<exists>a b. xs = a @ p @ b)"
proof
  assume "has_sub p xs"
  then obtain i where "prefix p (drop i xs)" by (auto simp: has_sub_def find_sub_None)
  then obtain b where "drop i xs = p @ b" by (auto simp: prefix_def)
  then have "xs = take i xs @ p @ b" by (metis append_take_drop_id)
  then show "\<exists>a b. xs = a @ p @ b" by blast
next
  assume "\<exists>a b. xs = a @ p @ b"
  then obtain a b where "xs = a @ p @ b" by blast
  then have "length a \<le> length xs" "prefix p (drop (length a) xs)" by simp_all
  then show "has_sub p xs" by (auto simp: has_sub_def find_sub_None simp del: not_None_eq)
qed

lemma find_sub_split:
  assumes "find_sub p xs = Some i"
  shows "xs = take i xs @ p @ drop (i + length p) xs"
proof -
  obtain b where b: "drop i xs = p @ b" using assms by (auto simp: find_sub_Some prefix_def)
  then have "drop (i + length p) xs = b" by (metis add.commute append_eq_conv_conj drop_drop)
  with b show ?thesis by (metis append_take_drop_id)
qed

text \<open>A found occurrence stays the first one when the text grows.\<close>

lemma find_sub_append:
  assumes "find_sub p xs = Some i"
  shows "find_sub p (xs @ ys) = Some i"
proof -
  have i: "i + length p \<le> length xs" using find_sub_bound [OF assms] .
  have s: "prefix p (drop i xs)" "\<forall>j<i. \<not> prefix p (drop j xs)" using assms by (auto simp: find_sub_Some)
  have "\<not> prefix p (drop j (xs @ ys))" if "j < i" for j
  proof
    assume "prefix p (drop j (xs @ ys))"
    moreover have "length p \<le> length (drop j xs)" "drop j (xs @ ys) = drop j xs @ drop (j - length xs) ys"
      using i that by auto
    ultimately have "prefix p (drop j xs)" by (metis prefix_length_prefix prefix_def)
    with s(2) that show False by blast
  qed
  moreover have "prefix p (drop i (xs @ ys))" using s(1) i by (auto simp: prefix_def)
  ultimately show ?thesis using i by (auto simp: find_sub_Some)
qed

text \<open>A pattern that first occurs after the text has grown begins in a suffix that is one of its
  proper prefixes, or in the new part.\<close>

lemma find_sub_straddle:
  assumes "find_sub p (xs @ ys) = Some i" "\<not> has_sub p xs" "i < length xs"
  shows "suffix (take (length xs - i) p) xs" "length xs - i < length p"
proof -
  have p: "prefix p (drop i xs @ ys)" using assms(1,3) by (auto simp: find_sub_Some)
  have "\<not> prefix p (drop i xs)"
    using assms(2,3) by (metis find_sub_None has_sub_def less_imp_le_nat)
  then have n: "length (drop i xs) < length p"
    by (metis p not_less prefix_def prefix_length_prefix)
  then show "length xs - i < length p" by simp
  have "take (length (drop i xs)) p = drop i xs" using p n by (metis append_eq_conv_conj less_imp_le_nat prefix_def prefix_length_prefix append_Nil2 prefixI)
  then have "take (length xs - i) p = drop i xs" by simp
  then show "suffix (take (length xs - i) p) xs" by (simp add: suffix_drop)
qed

lemma has_sub_append1: "has_sub p xs \<Longrightarrow> has_sub p (xs @ ys)"
  unfolding has_sub_iff by (metis append.assoc)

lemma has_sub_append2: "has_sub p ys \<Longrightarrow> has_sub p (xs @ ys)"
  unfolding has_sub_iff by (metis append.assoc)

lemma remove_subs_none: "\<not> has_sub p xs \<Longrightarrow> remove_subs p xs = xs"
  by (subst remove_subs.simps) (simp add: has_sub_def)

section \<open>The held suffix\<close>

lemma find_rev_upt:
  "find P (rev [a..<b]) = Some n \<Longrightarrow> a \<le> n \<and> n < b \<and> P n \<and> (\<forall>k<b. P k \<longrightarrow> k \<le> n)"
  by (induction b) (auto simp: less_Suc_eq split: if_splits)

lemma held_by_ge: "best \<le> held_by xs tok best"
  by (auto simp: held_by_def simp del: upt_Suc dest: find_rev_upt split: option.splits)

lemma held_by_le: "best \<le> length xs \<Longrightarrow> held_by xs tok best \<le> length xs"
  by (auto simp: held_by_def simp del: upt_Suc dest: find_rev_upt split: option.splits)

lemma held_by_max:
  assumes "suffix (take k tok) xs" "k < length tok"
  shows "k \<le> held_by xs tok best"
proof -
  let ?ks = "[Suc best ..< Suc (min (length tok - 1) (length xs))]"
  have "length (take k tok) \<le> length xs" using assms(1) suffix_length_le by blast
  then have k: "k \<le> best \<or> k \<in> set ?ks" using assms(2) by auto
  have e: "ends_with (take k tok) xs" using assms(1) by (simp add: ends_with_suffix)
  show ?thesis
  proof (cases "find (\<lambda>k. ends_with (take k tok) xs) (rev ?ks)")
    case None
    then have "k \<le> best" using k e unfolding find_None_iff set_rev by blast
    then show ?thesis using held_by_ge order_trans by blast
  next
    case (Some n)
    then have "k \<le> n" using find_rev_upt [OF Some] k e by (auto simp del: upt_Suc)
    then show ?thesis using Some by (simp add: held_by_def del: upt_Suc)
  qed
qed

lemma held_fold_ge: "b \<le> foldl (\<lambda>best tok. held_by xs tok best) b toks"
  by (induction toks arbitrary: b) (auto intro: order_trans held_by_ge)

lemma held_suffix_le: "held_suffix toks xs \<le> length xs"
proof -
  have "foldl (\<lambda>best tok. held_by xs tok best) b toks \<le> length xs" if "b \<le> length xs" for b
    using that by (induction toks arbitrary: b) (auto intro: held_by_le)
  then show ?thesis by (simp add: held_suffix_def)
qed

lemma held_suffix_max:
  assumes "tok \<in> set toks" "suffix (take k tok) xs" "k < length tok"
  shows "k \<le> held_suffix toks xs"
proof -
  obtain a b where ab: "toks = a @ tok # b" using assms(1) by (meson split_list)
  let ?f = "\<lambda>best tok. held_by xs tok best"
  have "k \<le> held_by xs tok (foldl ?f 0 a)" using held_by_max assms(2,3) by blast
  also have "\<dots> \<le> foldl ?f (held_by xs tok (foldl ?f 0 a)) b" by (rule held_fold_ge)
  finally show ?thesis by (simp add: held_suffix_def ab)
qed

lemma held_suffix_attained:
  "held_suffix toks xs = 0 \<or> (\<exists>tok \<in> set toks. held_suffix toks xs < length tok \<and> suffix (take (held_suffix toks xs) tok) xs)"
proof -
  let ?ok = "\<lambda>S n. n = 0 \<or> (\<exists>tok \<in> S. n < length tok \<and> suffix (take n tok) xs)"
  have step: "?ok (insert t S) (held_by xs t n)" if "?ok S n" for t S n
    using that by (auto simp: held_by_def ends_with_suffix simp del: upt_Suc dest!: find_rev_upt split: option.splits)
  have "?ok (S \<union> set toks) (foldl (\<lambda>best tok. held_by xs tok best) n toks)" if "?ok S n" for S n
    using that
  proof (induction toks arbitrary: S n)
    case (Cons t toks)
    from Cons.IH [OF step [OF Cons.prems]] show ?case by simp
  qed simp
  from this [where S = "{}" and n = 0] show ?thesis by (simp add: held_suffix_def)
qed

lemma suffix_take_append:
  assumes "suffix (take k tok) (xs @ ys)" "length ys \<le> k" "k \<le> length tok"
  shows "suffix (take (k - length ys) tok) xs"
proof -
  obtain z where z: "xs @ ys = z @ take k tok" using assms(1) by (auto simp: suffix_def)
  then have "length xs + length ys = length z + k" using assms(3) by (metis length_append length_take min.absorb2)
  then have "length xs - length z = k - length ys" "length z \<le> length xs" using assms(2) by linarith+
  then have "xs = z @ take (k - length ys) tok" using arg_cong [OF z, of "take (length xs)"] by (simp add: min_def)
  then show ?thesis by (auto simp: suffix_def)
qed

section \<open>Stripping\<close>

abbreviation blank :: "utext \<Rightarrow> bool" where
  "blank xs \<equiv> list_all is_space xs"

lemma lstrip_split: "\<exists>ws. blank ws \<and> xs = ws @ lstrip xs"
  unfolding lstrip_def by (metis list_all_iff set_takeWhileD takeWhile_dropWhile_id)

lemma rstrip_split: "\<exists>ws. blank ws \<and> xs = rstrip xs @ ws"
proof -
  obtain ws where "blank ws" "rev xs = ws @ dropWhile is_space (rev xs)" using lstrip_split [of "rev xs"] by (auto simp: lstrip_def)
  then have "blank (rev ws)" "xs = rstrip xs @ rev ws" unfolding rstrip_def by (simp_all, metis rev_append rev_rev_ident)
  then show ?thesis by blast
qed

lemma lstrip_blank [simp]: "blank ws \<Longrightarrow> lstrip (ws @ xs) = lstrip xs"
  unfolding lstrip_def by (induction ws) auto

lemma rstrip_blank [simp]: "blank ws \<Longrightarrow> rstrip (xs @ ws) = rstrip xs"
  using lstrip_blank [of "rev ws" "rev xs"] by (simp add: rstrip_def lstrip_def list.pred_set)

lemma lstrip_idem [simp]: "lstrip (lstrip xs) = lstrip xs"
  unfolding lstrip_def by (induction xs) auto

lemma rstrip_idem [simp]: "rstrip (rstrip xs) = rstrip xs"
  using lstrip_idem [of "rev xs"] by (simp add: rstrip_def lstrip_def)

lemma lstrip_keep: "p \<noteq> [] \<Longrightarrow> \<not> is_space (hd p) \<Longrightarrow> lstrip (xs @ p @ ys) = lstrip xs @ p @ ys"
  unfolding lstrip_def by (induction xs) (auto simp: dropWhile_eq_self_iff neq_Nil_conv)

lemma rstrip_keep: "p \<noteq> [] \<Longrightarrow> \<not> is_space (last p) \<Longrightarrow> rstrip (xs @ p @ ys) = xs @ p @ rstrip ys"
  using lstrip_keep [of "rev p" "rev ys" "rev xs"] by (simp add: rstrip_def lstrip_def hd_rev)

text \<open>The order in which the two ends are stripped does not matter.\<close>

lemma strip_alt: "strip xs = lstrip (rstrip xs)"
proof (cases "blank xs")
  case True
  then have "lstrip xs = []" "rstrip xs = []" by (simp_all add: lstrip_def rstrip_def list_all_iff)
  then show ?thesis by (simp add: strip_def) (simp add: lstrip_def rstrip_def)
next
  case False
  then obtain x where "x \<in> set xs" "\<not> is_space x" by (auto simp: list_all_iff)
  then obtain a b where "xs = a @ [x] @ b" by (metis append_Cons append_Nil split_list)
  then show ?thesis using lstrip_keep [of "[x]" a] rstrip_keep [of "[x]"] \<open>\<not> is_space x\<close> by (simp add: strip_def)
qed

lemma strip_idem [simp]: "strip (strip xs) = strip xs" "strip (lstrip xs) = strip xs" "strip (rstrip xs) = strip xs"
proof -
  show "strip (lstrip xs) = strip xs" by (simp add: strip_def)
  show r: "strip (rstrip xs) = strip xs" by (simp add: strip_alt)
  have "strip (strip xs) = lstrip (strip xs)" by (simp add: strip_alt [of "strip xs"]) (simp add: strip_def)
  then show "strip (strip xs) = strip xs" by (simp add: strip_alt)
qed

lemma strip_split: "\<exists>a b. xs = a @ strip xs @ b"
  using lstrip_split [of xs] rstrip_split [of "lstrip xs"] unfolding strip_def by metis

lemma find_sub_shift: "find_sub p (xs @ ys) = Some i \<Longrightarrow> length xs \<le> i \<Longrightarrow> find_sub p ys = Some (i - length xs)"
  by (induction xs arbitrary: i) (auto split: if_splits)

lemma find_sub_prefix:
  assumes "find_sub p (xs @ ys) = Some i" "i + length p \<le> length xs"
  shows "find_sub p xs = Some i"
proof (cases "has_sub p xs")
  case True
  then obtain j where "find_sub p xs = Some j" by (auto simp: has_sub_def)
  then show ?thesis using find_sub_append assms(1) by (metis option.inject)
next
  case False
  show ?thesis
  proof (cases "i < length xs")
    case True
    with find_sub_straddle(2) [OF assms(1) False] assms(2) show ?thesis by simp
  next
    case False
    then have "p = []" using assms(2) by (cases p) auto
    then have "has_sub p xs" by (auto simp: has_sub_iff)
    with \<open>\<not> has_sub p xs\<close> show ?thesis by simp
  qed
qed

section \<open>The earliest of several markers\<close>

text \<open>An earlier token of the list wins a tie.\<close>

definition earlier :: "'a list \<Rightarrow> (nat \<times> 'a list) option \<Rightarrow> 'a list \<Rightarrow> (nat \<times> 'a list) option" where
  "earlier xs best tok =
    (case find_sub tok xs of
       None \<Rightarrow> best
     | Some i \<Rightarrow> (case best of None \<Rightarrow> Some (i, tok) | Some (j, _) \<Rightarrow> if i < j then Some (i, tok) else best))"

definition earliest :: "'a list list \<Rightarrow> 'a list \<Rightarrow> (nat \<times> 'a list) option" where
  "earliest toks xs = foldl (earlier xs) None toks"

text \<open>Markers that begin with a character they do not contain elsewhere, none a prefix of another\<close>

definition marker_set :: "'a list list \<Rightarrow> bool" where
  "marker_set toks \<longleftrightarrow> (\<forall>s \<in> set toks. s \<noteq> [] \<and> (\<forall>t \<in> set toks. hd s \<notin> set (tl t) \<and> (prefix s t \<longrightarrow> s = t)))"

lemma earlier_None [simp]: "earlier xs best tok = None \<longleftrightarrow> best = None \<and> find_sub tok xs = None"
  by (auto simp: earlier_def split: option.splits)

lemma earliest_None: "earliest toks xs = None \<longleftrightarrow> (\<forall>tok \<in> set toks. find_sub tok xs = None)"
proof -
  have "foldl (earlier xs) best toks = None \<longleftrightarrow> best = None \<and> (\<forall>tok \<in> set toks. find_sub tok xs = None)" for best
    by (induction toks arbitrary: best) auto
  then show ?thesis by (simp add: earliest_def)
qed

lemma earliest_Some:
  assumes "earliest toks xs = Some (e, tok)"
  shows "tok \<in> set toks \<and> find_sub tok xs = Some e \<and> (\<forall>t \<in> set toks. \<forall>i. find_sub t xs = Some i \<longrightarrow> e \<le> i)"
proof -
  let ?ok = "\<lambda>best S. \<forall>e tok. best = Some (e, tok) \<longrightarrow> tok \<in> S \<and> find_sub tok xs = Some e
    \<and> (\<forall>t \<in> S. \<forall>i. find_sub t xs = Some i \<longrightarrow> e \<le> i)"
  have step: "?ok (earlier xs best t) (insert t S)" if "?ok best S" "best = None \<longrightarrow> (\<forall>t \<in> S. find_sub t xs = None)" for best t S
    using that by (auto simp: earlier_def split: option.splits) (metis less_imp_le order_trans)+
  have "?ok (foldl (earlier xs) best toks) (S \<union> set toks)"
    if "?ok best S" "best = None \<longrightarrow> (\<forall>t \<in> S. find_sub t xs = None)" for best S
    using that
  proof (induction toks arbitrary: best S)
    case (Cons t toks)
    have "earlier xs best t = None \<longrightarrow> (\<forall>t \<in> insert t S. find_sub t xs = None)" using Cons.prems(2) by simp
    from Cons.IH [OF step [OF Cons.prems] this] show ?case by simp
  qed simp
  from this [of None "{}"] assms show ?thesis by (simp add: earliest_def)
qed

lemma earliest_bound: "earliest toks xs = Some (e, tok) \<Longrightarrow> e + length tok \<le> length xs"
  using earliest_Some find_sub_bound by blast

text \<open>A marker that was found stays the earliest when the text grows.\<close>

lemma earliest_append:
  assumes "earliest toks xs = Some (e, tok)" "marker_set toks"
  shows "earliest toks (xs @ ys) = Some (e, tok)"
proof -
  have tok: "tok \<in> set toks" "find_sub tok xs = Some e"
    and least: "\<And>t i. t \<in> set toks \<Longrightarrow> find_sub t xs = Some i \<Longrightarrow> e \<le> i"
    using earliest_Some [OF assms(1)] by blast+
  have f: "find_sub tok (xs @ ys) = Some e" using find_sub_append [OF tok(2)] .
  then have "earliest toks (xs @ ys) \<noteq> None" using tok(1) by (auto simp: earliest_None simp del: not_None_eq)
  then obtain e' t where e': "earliest toks (xs @ ys) = Some (e', t)" by auto
  then have t: "t \<in> set toks" "find_sub t (xs @ ys) = Some e'" "e' \<le> e"
    using earliest_Some [OF e'] f tok(1) by blast+
  have "e \<le> e'"
  proof (cases "has_sub t xs")
    case True
    then obtain i where "find_sub t xs = Some i" by (auto simp: has_sub_def)
    then show ?thesis using find_sub_append [of t xs i ys] t(1,2) least by fastforce
  next
    case False
    show ?thesis
    proof (rule ccontr)
      assume less: "\<not> e \<le> e'"
      have len: "e + length tok \<le> length xs" using find_sub_bound [OF tok(2)] .
      have ne: "tok \<noteq> []" "hd tok \<notin> set (tl t)" using assms(2) tok(1) t(1) unfolding marker_set_def by blast+
      obtain b where b: "drop e xs = tok @ b" using tok(2) by (auto simp: find_sub_Some prefix_def)
      have x1: "e < length xs" using len ne(1) by (cases tok) auto
      then have "xs ! e = hd (tok @ b)" using b by (metis hd_drop_conv_nth)
      then have x: "xs ! e = hd tok" using ne by simp
      have "e' < length xs" using less x1 by simp
      note s = find_sub_straddle [OF t(2) False this]
      then have d: "drop e' xs = take (length xs - e') t"
        using \<open>e' < length xs\<close> by (auto simp: suffix_iff_drop)
      have "t ! (e - e') = xs ! e" using arg_cong [OF d, of "\<lambda>l. l ! (e - e')"] less x1 s(2) by simp
      moreover have "e - e' < length t" "e - e' \<noteq> 0" using s(2) x1 less by auto
      ultimately have "hd tok \<in> set (tl t)" using x by (cases t; cases "e - e'") (auto simp: in_set_conv_nth)
      with ne(2) show False by simp
    qed
  qed
  then have "e' = e" using t(3) by simp
  then have "prefix t (drop e (xs @ ys))" "prefix tok (drop e (xs @ ys))" using t(2) f by (auto simp: find_sub_Some)
  then have "prefix t tok \<or> prefix tok t" using prefix_same_cases by blast
  then have "t = tok" using t(1) tok(1) assms(2) unfolding marker_set_def by blast
  with e' \<open>e' = e\<close> show ?thesis by simp
qed

text \<open>A marker that only occurs in the longer text begins in the held suffix or behind it.\<close>

lemma earliest_late:
  assumes "earliest toks xs = None" "earliest toks (xs @ ys) = Some (e, tok)" "set toks \<subseteq> set held"
  shows "length xs - held_suffix held xs \<le> e"
proof (cases "e < length xs")
  case True
  have t: "tok \<in> set toks" "find_sub tok (xs @ ys) = Some e" using earliest_Some [OF assms(2)] by auto
  then have "\<not> has_sub tok xs" using assms(1) by (auto simp: earliest_None has_sub_def)
  note s = find_sub_straddle [OF t(2) this True]
  have "tok \<in> set held" using t(1) assms(3) by blast
  from held_suffix_max [OF this s] show ?thesis by simp
qed simp

lemma held_grows:
  "length xs - held_suffix toks xs \<le> length (xs @ ys) - held_suffix toks (xs @ ys)"
proof (cases "held_suffix toks (xs @ ys) \<le> length ys")
  case False
  let ?k = "held_suffix toks (xs @ ys)"
  obtain tok where "tok \<in> set toks" "?k < length tok" "suffix (take ?k tok) (xs @ ys)"
    using held_suffix_attained [of toks "xs @ ys"] False by auto
  then have "?k - length ys \<le> held_suffix toks xs"
    using suffix_take_append [of ?k tok xs ys] False held_suffix_max [of tok toks] by simp
  then show ?thesis by simp
qed simp

section \<open>Searches in the rest of a text\<close>

lemma find_sub_drop: "find_sub p xs = Some i \<Longrightarrow> k \<le> i \<Longrightarrow> find_sub p (drop k xs) = Some (i - k)"
  using find_sub_shift [of p "take k xs" "drop k xs" i] find_sub_bound [of p xs i] by simp

lemma find_sub_drop_None: "find_sub p xs = None \<Longrightarrow> find_sub p (drop k xs) = None"
  using has_sub_append2 [of p "drop k xs" "take k xs"] unfolding has_sub_def append_take_drop_id by metis

lemma earliest_drop_None: "earliest toks xs = None \<Longrightarrow> earliest toks (drop k xs) = None"
  by (simp add: earliest_None find_sub_drop_None)

lemma earliest_drop:
  assumes "earliest toks xs = Some (e, tok)" "k \<le> e"
  shows "earliest toks (drop k xs) = Some (e - k, tok)"
proof -
  have all: "\<forall>t \<in> set toks. \<forall>i. find_sub t xs = Some i \<longrightarrow> k \<le> i"
    using earliest_Some [OF assms(1)] assms(2) by (meson order_trans)
  have "foldl (earlier (drop k xs)) (map_option (\<lambda>(i, t). (i - k, t)) b) toks
      = map_option (\<lambda>(i, t). (i - k, t)) (foldl (earlier xs) b toks)"
    if "\<forall>i t. b = Some (i, t) \<longrightarrow> k \<le> i" for b
    using all that
  proof (induction toks arbitrary: b)
    case (Cons t toks)
    have d: "find_sub t (drop k xs) = map_option (\<lambda>i. i - k) (find_sub t xs)"
      using Cons.prems(1) find_sub_drop [of t xs _ k] find_sub_drop_None [of t xs k] by (cases "find_sub t xs") simp_all
    have "earlier (drop k xs) (map_option (\<lambda>(i, t). (i - k, t)) b) t = map_option (\<lambda>(i, t). (i - k, t)) (earlier xs b t)"
      using Cons.prems unfolding earlier_def d by (cases "find_sub t xs"; cases b) auto
    moreover have "\<forall>i u. earlier xs b t = Some (i, u) \<longrightarrow> k \<le> i"
      using Cons.prems by (auto simp: earlier_def split: option.splits if_splits)
    ultimately show ?case using Cons.IH [of "earlier xs b t"] Cons.prems(1) by simp
  qed simp
  from this [of None] show ?thesis using assms(1) by (simp add: earliest_def)
qed

lemma held_suffix_unique:
  assumes "\<And>tok k. tok \<in> set toks \<Longrightarrow> k < length tok \<Longrightarrow> suffix (take k tok) ys \<Longrightarrow> suffix (take k tok) xs"
  shows "held_suffix toks ys \<le> held_suffix toks xs"
  using held_suffix_attained [of toks ys] assms held_suffix_max by fastforce

lemma held_suffix_drop:
  assumes "k \<le> length xs - held_suffix toks xs"
  shows "held_suffix toks (drop k xs) = held_suffix toks xs"
proof (rule order_antisym)
  show "held_suffix toks (drop k xs) \<le> held_suffix toks xs"
    by (rule held_suffix_unique) (metis suffix_drop suffix_order.trans)
  show "held_suffix toks xs \<le> held_suffix toks (drop k xs)"
  proof (cases "held_suffix toks xs = 0")
    case False
    let ?h = "held_suffix toks xs"
    obtain tok where t: "tok \<in> set toks" "?h < length tok" "suffix (take ?h tok) xs"
      using held_suffix_attained [of toks xs] False by auto
    have "length (take ?h tok) \<le> length (drop k xs)" using assms t(2) held_suffix_le [of toks xs] by simp
    then have "suffix (take ?h tok) (drop k xs)" using t(3) suffix_drop suffix_length_suffix by metis
    then show ?thesis using held_suffix_max t(1,2) by blast
  qed simp
qed

lemma cut_at: "h \<le> k \<Longrightarrow> take h xs @ take (k - h) (drop h xs) = take k xs" "h \<le> k \<Longrightarrow> drop (k - h) (drop h xs) = drop k xs"
  by (metis le_add_diff_inverse take_add) simp

section \<open>How often a marker occurs\<close>

fun count_sub :: "utext \<Rightarrow> utext \<Rightarrow> nat" where
  "count_sub p [] = 0"
| "count_sub p (x # xs) = (if has_prefix p (x # xs) then 1 else 0) + count_sub p xs"

lemma count_sub_drop: "count_sub p (drop k xs) \<le> count_sub p xs"
proof (induction xs arbitrary: k)
  case (Cons x xs)
  then show ?case using Cons.IH [of "k - 1"] by (cases k) (auto intro: le_SucI)
qed simp

lemma count_sub_append: "count_sub p a \<le> count_sub p (a @ b)"
proof (induction a)
  case (Cons x a)
  have "has_prefix p (x # a @ b)" if "has_prefix p (x # a)"
    using that prefix_prefix [of p "x # a" b] by (simp add: has_prefix_prefix)
  then show ?case using Cons by simp
qed simp

lemma count_sub_found:
  "p \<noteq> [] \<Longrightarrow> find_sub p xs = Some i \<Longrightarrow> Suc (count_sub p (drop (i + length p) xs)) \<le> count_sub p xs"
proof (induction xs arbitrary: i)
  case (Cons x xs)
  then show ?case
  proof (cases "has_prefix p (x # xs)")
    case True
    then have "i = 0" using Cons.prems by simp
    then show ?thesis using True Cons.prems(1) count_sub_drop [of p "length p - 1" xs] by (cases p) simp_all
  next
    case False
    then obtain j where "find_sub p xs = Some j" "i = Suc j" using Cons.prems(2) by auto
    then show ?thesis using Cons.IH Cons.prems(1) False by simp
  qed
qed simp

end
