(* ===== verification/Reasoning.thy ===== *)
theory Reasoning
  imports TextOps
begin

text \<open>
  \<open>server/reasoning_parser.py\<close>: splitting a completion into its reasoning and its content, at once
  (\<open>detect_and_parse\<close>) and chunk by chunk (\<open>parse_streaming_increment\<close>, \<open>flush\<close>). The base class
  serves DeepSeek, the generic think tags and Gemma; MiniMax-M3 extends it with the check for a
  leading bare closer; gpt-oss has the channel protocol of Harmony. The Muse Glimmer parser, which
  needs regular expressions, is not modelled. An object is a record that a call returns updated.
\<close>

section \<open>Results and markers\<close>

record parse_result =
  pr_reasoning :: utext
  pr_normal :: utext

abbreviation parsed :: "utext \<Rightarrow> utext \<Rightarrow> parse_result" where
  "parsed r n \<equiv> \<lparr>pr_reasoning = r, pr_normal = n\<rparr>"

definition THINK_START_TOKEN :: utext where "THINK_START_TOKEN = codes ''<think>''"
definition THINK_END_TOKEN :: utext where "THINK_END_TOKEN = codes ''</think>''"
definition DSML_TOKEN :: utext where "DSML_TOKEN = [65372] @ codes ''DSML'' @ [65372]"

definition strip_special_tokens :: "utext \<Rightarrow> utext list \<Rightarrow> utext" where
  "strip_special_tokens xs tokens = foldl (\<lambda>xs tok. if tok \<noteq> [] then remove_subs tok xs else xs) xs tokens"

section \<open>The base parser\<close>

record base_parser =
  rp_start :: utext
  rp_end :: utext
  rp_tool :: "utext option"
  rp_force :: bool
  rp_stream :: bool
  rp_in :: bool
  rp_buf :: utext
  rp_stripped :: bool

definition base_init :: "utext \<Rightarrow> utext \<Rightarrow> bool \<Rightarrow> bool \<Rightarrow> utext option \<Rightarrow> base_parser" where
  "base_init s e force stream tool =
    \<lparr>rp_start = s, rp_end = e, rp_tool = tool, rp_force = force, rp_stream = stream, rp_in = force, rp_buf = [],
     rp_stripped = False\<rparr>"

definition deepseek_init :: "bool \<Rightarrow> bool \<Rightarrow> base_parser" where
  "deepseek_init force stream = base_init THINK_START_TOKEN THINK_END_TOKEN force stream (Some (codes ''<'' @ DSML_TOKEN))"

definition think_init :: "bool \<Rightarrow> bool \<Rightarrow> base_parser" where
  "think_init force stream = base_init THINK_START_TOKEN THINK_END_TOKEN force stream None"

definition gemma_init :: "bool \<Rightarrow> bool \<Rightarrow> base_parser" where
  "gemma_init force stream =
    base_init (codes ''<|channel>thought'' @ [10]) (codes ''<channel|>'') force stream None"

definition TOOL_HOLD_MAX :: int where "TOOL_HOLD_MAX = 512"

text \<open>\<open>text.find(tok)\<close> where the code has checked that the token occurs\<close>

definition pos_of :: "'a list \<Rightarrow> 'a list \<Rightarrow> nat" where
  "pos_of tok xs = (case find_sub tok xs of None \<Rightarrow> length xs | Some i \<Rightarrow> i)"

definition detect_and_parse :: "utext \<Rightarrow> 'a base_parser_scheme \<Rightarrow> parse_result" where
  "detect_and_parse xs p =
    (if \<not> (rp_in p \<or> has_sub (rp_start p) xs) then parsed [] xs
     else
       let t = strip (remove_subs (rp_start p) xs) in
       if \<not> has_sub (rp_end p) t then
         (case rp_tool p of
            Some tool \<Rightarrow>
              if has_sub tool t then parsed (strip (take (pos_of tool t) t)) (drop (pos_of tool t) t) else parsed t []
          | None \<Rightarrow> parsed t [])
       else
         let e = pos_of (rp_end p) t in parsed (take e t) (strip (drop (e + length (rp_end p)) t)))"

definition tracked_tokens :: "'a base_parser_scheme \<Rightarrow> utext list" where
  "tracked_tokens p = rp_end p # (if rp_stripped p then [] else [rp_start p]) @ (case rp_tool p of None \<Rightarrow> [] | Some t \<Rightarrow> [t])"

definition split_trailing_partial :: "utext \<Rightarrow> 'a base_parser_scheme \<Rightarrow> utext \<times> utext" where
  "split_trailing_partial xs p =
    (let k = length xs - held_suffix (tracked_tokens p) xs in (take k xs, drop k xs))"

text \<open>The four parts of \<open>parse_streaming_increment\<close>: an opening marker is stripped once; a closing
  marker ends the reasoning; a tool marker inside the reasoning is held; anything else is emitted but
  for a trailing partial marker.\<close>

definition strip_opening :: "utext \<Rightarrow> 'a base_parser_scheme \<Rightarrow> utext \<times> 'a base_parser_scheme" where
  "strip_opening cur p =
    (if \<not> rp_stripped p \<and> has_sub (rp_start p) cur
     then (remove_sub1 (rp_start p) cur, p\<lparr>rp_stripped := True, rp_in := True\<rparr>)
     else (cur, p))"

definition hold_tool :: "utext \<Rightarrow> utext \<Rightarrow> 'a base_parser_scheme \<Rightarrow> 'a base_parser_scheme \<times> parse_result" where
  "hold_tool tool cur p =
    (let i = pos_of tool cur; held = drop i cur in
     if int (length held) > TOOL_HOLD_MAX then (p\<lparr>rp_buf := [], rp_in := False\<rparr>, parsed (take i cur) held)
     else (p\<lparr>rp_buf := held\<rparr>, parsed (take i cur) []))"

definition emit_safe :: "utext \<Rightarrow> 'a base_parser_scheme \<Rightarrow> 'a base_parser_scheme \<times> parse_result" where
  "emit_safe cur p =
    (case split_trailing_partial cur p of (safe, held) \<Rightarrow>
     if rp_in p \<and> \<not> rp_stream p then (p\<lparr>rp_buf := cur\<rparr>, parsed [] [])
     else if rp_in p then (p\<lparr>rp_buf := held\<rparr>, parsed safe [])
     else (p\<lparr>rp_buf := held\<rparr>, parsed [] safe))"

definition parse_increment :: "utext \<Rightarrow> 'a base_parser_scheme \<Rightarrow> 'a base_parser_scheme \<times> parse_result" where
  "parse_increment new p =
    (case strip_opening (rp_buf p @ new) p of (cur, p) \<Rightarrow>
     if rp_in p \<and> has_sub (rp_end p) cur then
       (let e = pos_of (rp_end p) cur in
        (p\<lparr>rp_buf := [], rp_in := False\<rparr>, parsed (rstrip (take e cur)) (drop (e + length (rp_end p)) cur)))
     else case rp_tool p of
       Some tool \<Rightarrow> if rp_in p \<and> tool \<noteq> [] \<and> has_sub tool cur then hold_tool tool cur p else emit_safe cur p
     | None \<Rightarrow> emit_safe cur p)"

definition flush_parser :: "'a base_parser_scheme \<Rightarrow> 'a base_parser_scheme \<times> parse_result" where
  "flush_parser p =
    (let buf = rp_buf p; q = p\<lparr>rp_buf := []\<rparr> in
     if buf = [] then (q, parsed [] [])
     else if (case rp_tool p of None \<Rightarrow> False | Some tool \<Rightarrow> tool \<noteq> [] \<and> has_prefix tool (lstrip buf))
     then (q\<lparr>rp_in := False\<rparr>, parsed [] buf)
     else if rp_in p then (q, parsed buf [])
     else (q, parsed [] buf))"

text \<open>A whole stream: the results of the chunks and of the final flush.\<close>

primrec parse_chunks :: "utext list \<Rightarrow> 'a base_parser_scheme \<Rightarrow> 'a base_parser_scheme \<times> parse_result list" where
  "parse_chunks [] p = (p, [])"
| "parse_chunks (c # cs) p =
    (case parse_increment c p of (p, r) \<Rightarrow> case parse_chunks cs p of (p, rs) \<Rightarrow> (p, r # rs))"

definition parse_stream :: "utext list \<Rightarrow> 'a base_parser_scheme \<Rightarrow> parse_result list" where
  "parse_stream cs p = (case parse_chunks cs p of (p, rs) \<Rightarrow> rs @ [snd (flush_parser p)])"

abbreviation all_reasoning :: "parse_result list \<Rightarrow> utext" where
  "all_reasoning rs \<equiv> concat (map pr_reasoning rs)"

abbreviation all_normal :: "parse_result list \<Rightarrow> utext" where
  "all_normal rs \<equiv> concat (map pr_normal rs)"

section \<open>MiniMax-M3\<close>

record m3_parser = base_parser +
  m3_pending :: bool
  m3_head :: utext

definition m3_init :: "bool \<Rightarrow> bool \<Rightarrow> m3_parser" where
  "m3_init force stream =
    base_parser.extend (base_init (codes ''<mm:think>'') (codes ''</mm:think>'') force stream (Some (codes '']<]minimax[>[<tool_call>'')))
      (m3_parser.fields (\<not> force) [])"

definition m3_detect :: "utext \<Rightarrow> m3_parser \<Rightarrow> parse_result" where
  "m3_detect xs p =
    (let close = (\<lambda>before body no_close.
           if has_sub (rp_end p) body
           then let e = pos_of (rp_end p) body in parsed (take e body) (before @ drop (e + length (rp_end p)) body)
           else case rp_tool p of
             Some tool \<Rightarrow> if has_sub tool body then parsed (take (pos_of tool body) body) (before @ drop (pos_of tool body) body)
                         else parsed no_close []
           | None \<Rightarrow> parsed no_close [])
     in if rp_force p then close [] xs xs
        else if has_prefix (rp_end p) (lstrip xs) then parsed [] (drop (length (rp_end p)) (lstrip xs))
        else case find_sub (rp_start p) xs of
          None \<Rightarrow> parsed [] xs
        | Some s \<Rightarrow> let body = drop (s + length (rp_start p)) xs in close (take s xs) body body)"

definition m3_increment :: "utext \<Rightarrow> m3_parser \<Rightarrow> m3_parser \<times> parse_result" where
  "m3_increment new p =
    (if m3_pending p then
       let buf = m3_head p @ new; head = lstrip buf in
       if has_prefix (rp_end p) head then
         let q = p\<lparr>m3_pending := False, m3_head := [], rp_in := False\<rparr>; rest = drop (length (rp_end p)) head in
         if rest \<noteq> [] then parse_increment rest q else (q, parsed [] [])
       else if head = [] \<or> has_prefix head (rp_end p) then (p\<lparr>m3_head := buf\<rparr>, parsed [] [])
       else parse_increment buf (p\<lparr>m3_head := [], m3_pending := False\<rparr>)
     else parse_increment new p)"

definition m3_flush :: "m3_parser \<Rightarrow> m3_parser \<times> parse_result" where
  "m3_flush p =
    (if m3_pending p \<and> m3_head p \<noteq> [] then
       case parse_increment (m3_head p) (p\<lparr>m3_head := [], m3_pending := False\<rparr>) of (p, a) \<Rightarrow>
       case flush_parser p of (p, b) \<Rightarrow> (p, parsed (pr_reasoning a @ pr_reasoning b) (pr_normal a @ pr_normal b))
     else flush_parser p)"

end
