(* ===== verification/ReasonStream.thy ===== *)
theory ReasonStream
  imports Reasoning
begin

text \<open>
  The base parser of \<open>server/reasoning_parser.py\<close>: what the chunks of a stream add up to, and that this is
  what the one-shot parse finds.
\<close>

section \<open>The parts of a step\<close>

lemma pos_of_Some [simp]: "find_sub tok xs = Some i \<Longrightarrow> pos_of tok xs = i"
  by (simp add: pos_of_def)

text \<open>What a step never changes.\<close>

definition same_markers :: "base_parser \<Rightarrow> base_parser \<Rightarrow> bool" where
  "same_markers p q \<longleftrightarrow> rp_start q = rp_start p \<and> rp_end q = rp_end p \<and> rp_tool q = rp_tool p \<and> rp_stream q = rp_stream p
     \<and> (rp_stripped p \<longrightarrow> rp_stripped q)"

text \<open>No marker but the closing one occurs in the text.\<close>

definition marker_free :: "base_parser \<Rightarrow> utext \<Rightarrow> bool" where
  "marker_free p xs \<longleftrightarrow> (rp_stripped p \<or> \<not> has_sub (rp_start p) xs) \<and> (\<forall>tool. rp_tool p = Some tool \<longrightarrow> \<not> has_sub tool xs)"

lemma marker_free_sub: "marker_free p (a @ b @ c) \<Longrightarrow> marker_free p b"
  unfolding marker_free_def by (meson has_sub_append1 has_sub_append2)

lemma opening_free: "marker_free p cur \<Longrightarrow> strip_opening cur p = (cur, p)"
  by (auto simp: strip_opening_def marker_free_def)

lemma split_partial_append:
  assumes "split_trailing_partial xs p = (safe, held)"
  shows "xs = safe @ held" "suffix (take k (rp_end p)) xs \<Longrightarrow> k < length (rp_end p) \<Longrightarrow> k \<le> length held"
proof -
  show "xs = safe @ held" using assms by (auto simp: split_trailing_partial_def Let_def)
  assume k: "suffix (take k (rp_end p)) xs" "k < length (rp_end p)"
  have "k \<le> held_suffix (tracked_tokens p) xs"
    by (rule held_suffix_max [OF _ k]) (simp add: tracked_tokens_def)
  moreover have "length held = held_suffix (tracked_tokens p) xs"
    using assms held_suffix_le [of "tracked_tokens p" xs] by (auto simp: split_trailing_partial_def Let_def)
  ultimately show "k \<le> length held" by simp
qed

lemma free_step:
  assumes "marker_free p (rp_buf p @ new)"
  shows "parse_increment new p =
    (let cur = rp_buf p @ new in
     if rp_in p \<and> has_sub (rp_end p) cur
     then (p\<lparr>rp_buf := [], rp_in := False\<rparr>, parsed (rstrip (take (pos_of (rp_end p) cur) cur)) (drop (pos_of (rp_end p) cur + length (rp_end p)) cur))
     else emit_safe cur p)"
  using assms by (auto simp: parse_increment_def opening_free marker_free_def Let_def split: option.splits)

section \<open>The stream without other markers\<close>

text \<open>While the reasoning runs: all of the text is emitted or buffered, no closing marker has occurred,
  and whatever could be the beginning of one is buffered.\<close>

definition thinking :: "utext \<Rightarrow> utext \<Rightarrow> utext \<Rightarrow> base_parser \<Rightarrow> bool" where
  "thinking xs r n p \<longleftrightarrow> rp_in p \<and> n = [] \<and> r @ rp_buf p = xs \<and> \<not> has_sub (rp_end p) xs
     \<and> (\<forall>k < length (rp_end p). suffix (take k (rp_end p)) xs \<longrightarrow> k \<le> length (rp_buf p))"

text \<open>After it: the reasoning is the text before the first closing marker, up to trailing blanks, and the
  rest of the text is emitted or buffered.\<close>

definition answering :: "utext \<Rightarrow> utext \<Rightarrow> utext \<Rightarrow> base_parser \<Rightarrow> bool" where
  "answering xs r n p \<longleftrightarrow> \<not> rp_in p \<and> (\<exists>i. find_sub (rp_end p) xs = Some i \<and> rstrip r = rstrip (take i xs)
     \<and> n @ rp_buf p = drop (i + length (rp_end p)) xs)"

lemma suffix_append_cases:
  assumes "suffix (take k tok) (xs @ ys)" "\<forall>j < length tok. suffix (take j tok) xs \<longrightarrow> j \<le> length b"
    "suffix b xs" "k < length tok"
  shows "k \<le> length (b @ ys)" "suffix (take k tok) (b @ ys)"
proof -
  show k: "k \<le> length (b @ ys)"
  proof (cases "k \<le> length ys")
    case False
    then have "suffix (take (k - length ys) tok) xs" using suffix_take_append [OF assms(1)] assms(4) by simp
    then have "k - length ys \<le> length b" using assms(2,4) by auto
    then show ?thesis by simp
  qed simp
  show "suffix (take k tok) (b @ ys)"
    by (rule suffix_length_suffix [OF assms(1)]) (use assms(3,4) k in \<open>auto simp: suffix_def\<close>)
qed

lemma thinking_step:
  assumes "thinking xs r n p" "marker_free p (xs @ new)" "parse_increment new p = (q, d)"
  shows "same_markers p q \<and> (thinking (xs @ new) (r @ pr_reasoning d) (n @ pr_normal d) q
    \<or> answering (xs @ new) (r @ pr_reasoning d) (n @ pr_normal d) q)"
proof -
  let ?e = "rp_end p" and ?cur = "rp_buf p @ new"
  have t: "rp_in p" "n = []" "r @ rp_buf p = xs" "\<not> has_sub ?e xs"
    "\<forall>k < length ?e. suffix (take k ?e) xs \<longrightarrow> k \<le> length (rp_buf p)"
    using assms(1) by (auto simp: thinking_def)
  have all: "xs @ new = r @ ?cur" using t(3) by auto
  have "marker_free p ?cur" using assms(2) marker_free_sub [of p r ?cur "[]"] all by simp
  note step = free_step [OF this, unfolded Let_def assms(3)]
  have late: "length r \<le> i" if i: "find_sub ?e (xs @ new) = Some i" for i
  proof (rule ccontr)
    assume "\<not> length r \<le> i"
    then have "i < length xs" using t(3) by auto
    note f = find_sub_straddle [OF i t(4) this]
    have "length xs - i \<le> length (rp_buf p)" using t(5) f by blast
    with \<open>\<not> length r \<le> i\<close> \<open>i < length xs\<close> t(3) show False by auto
  qed
  show ?thesis
  proof (cases "find_sub ?e (xs @ new)")
    case (Some i)
    then have c: "find_sub ?e ?cur = Some (i - length r)" using find_sub_shift late all by metis
    have h: "has_sub ?e ?cur" using c by (simp add: has_sub_def)
    have q: "q = p\<lparr>rp_buf := [], rp_in := False\<rparr>" "pr_reasoning d = rstrip (take (i - length r) ?cur)"
      "pr_normal d = drop (i - length r + length ?e) ?cur"
      using step h t(1) c by simp_all
    obtain ws where "blank ws" "take (i - length r) ?cur = pr_reasoning d @ ws" using rstrip_split q(2) by metis
    then have r: "rstrip (take i (xs @ new)) = rstrip (r @ pr_reasoning d)"
      unfolding all using late [OF Some] rstrip_blank [of ws "r @ pr_reasoning d"] by simp
    have n: "drop (i + length ?e) (xs @ new) = pr_normal d"
      unfolding all q(3) using late [OF Some] by simp
    have "answering (xs @ new) (r @ pr_reasoning d) (n @ pr_normal d) q"
      unfolding answering_def using Some r n q(1) t(2) by simp
    then show ?thesis using q(1) by (simp add: same_markers_def)
  next
    case None
    then have h: "\<not> has_sub ?e (xs @ new)" by (simp add: has_sub_def)
    then have hc: "\<not> has_sub ?e ?cur" using has_sub_append2 all by metis
    obtain safe held where sh: "split_trailing_partial ?cur p = (safe, held)" by fastforce
    have qd: "(q, d) = emit_safe ?cur p" using step hc by simp
    have b: "suffix (rp_buf p) xs" using t(3) by (auto simp: suffix_def)
    have k: "k \<le> length (rp_buf q)" if "k < length ?e" "suffix (take k ?e) (xs @ new)" for k
      using suffix_append_cases [OF that(2) t(5) b that(1)] split_partial_append(2) [OF sh] that(1) qd sh t(1)
      by (cases "rp_stream p") (auto simp: emit_safe_def)
    have "rp_end q = ?e" "rp_in q" "pr_normal d = []" "pr_reasoning d @ rp_buf q = ?cur" "same_markers p q"
      using qd sh split_partial_append(1) [OF sh] t(1) by (auto simp: emit_safe_def same_markers_def split: if_splits)
    then have "thinking (xs @ new) (r @ pr_reasoning d) (n @ pr_normal d) q \<and> same_markers p q"
      unfolding thinking_def using h k t(2) all by simp
    then show ?thesis by blast
  qed
qed

lemma answering_step:
  assumes "answering xs r n p" "marker_free p (xs @ new)" "parse_increment new p = (q, d)"
  shows "same_markers p q \<and> answering (xs @ new) (r @ pr_reasoning d) (n @ pr_normal d) q"
proof -
  let ?e = "rp_end p" and ?cur = "rp_buf p @ new"
  obtain i where a: "\<not> rp_in p" "find_sub ?e xs = Some i" "rstrip r = rstrip (take i xs)"
    "n @ rp_buf p = drop (i + length ?e) xs"
    using assms(1) by (auto simp: answering_def)
  have b: "i + length ?e \<le> length xs" using find_sub_bound [OF a(2)] .
  have "xs @ new = (take (i + length ?e) xs @ n) @ ?cur @ []" using a(4) by (metis append.assoc append_take_drop_id append_Nil2)
  then have "marker_free p ((take (i + length ?e) xs @ n) @ ?cur @ [])" using assms(2) by argo
  then have "marker_free p ?cur" by (rule marker_free_sub)
  note step = free_step [OF this, unfolded Let_def assms(3)]
  obtain safe held where sh: "split_trailing_partial ?cur p = (safe, held)" by fastforce
  have q: "q = p\<lparr>rp_buf := held\<rparr>" "d = parsed [] safe" using step a(1) sh by (simp_all add: emit_safe_def)
  have "n @ safe @ held = (n @ rp_buf p) @ new" using split_partial_append(1) [OF sh] by simp
  then have "n @ safe @ held = drop (i + length ?e) (xs @ new)" using a(4) b by simp
  moreover have "take i (xs @ new) = take i xs" using b by simp
  ultimately show ?thesis
    using q a find_sub_append [OF a(2)] by (simp add: answering_def same_markers_def del: take_append drop_append)
qed

lemma marker_free_same: "same_markers p q \<Longrightarrow> marker_free p xs \<Longrightarrow> marker_free q xs"
  by (auto simp: same_markers_def marker_free_def)

lemma same_markers_trans: "same_markers p q \<Longrightarrow> same_markers q s \<Longrightarrow> same_markers p s"
  by (auto simp: same_markers_def)

lemma chunks_phase:
  assumes "thinking xs r n p \<or> answering xs r n p" "marker_free p (xs @ concat cs)" "parse_chunks cs p = (q, ds)"
  shows "same_markers p q \<and> (thinking (xs @ concat cs) (r @ all_reasoning ds) (n @ all_normal ds) q
    \<or> answering (xs @ concat cs) (r @ all_reasoning ds) (n @ all_normal ds) q)"
  using assms
proof (induction cs arbitrary: xs r n p q ds)
  case Nil
  then show ?case by (simp add: same_markers_def)
next
  case (Cons c cs)
  obtain p1 d where s1: "parse_increment c p = (p1, d)" by fastforce
  obtain ds' where s2: "parse_chunks cs p1 = (q, ds')" "ds = d # ds'"
    using Cons.prems(3) s1 by (auto split: prod.splits)
  have "marker_free p (xs @ c)" using Cons.prems(2) marker_free_sub [of p "[]" "xs @ c" "concat cs"] by simp
  with Cons.prems(1) s1 have m: "same_markers p p1"
    and ph: "thinking (xs @ c) (r @ pr_reasoning d) (n @ pr_normal d) p1 \<or> answering (xs @ c) (r @ pr_reasoning d) (n @ pr_normal d) p1"
    using thinking_step answering_step by blast+
  have "marker_free p1 ((xs @ c) @ concat cs)" using marker_free_same [OF m Cons.prems(2)] by simp
  from Cons.IH [OF ph this s2(1)] m show ?case using same_markers_trans s2(2) by fastforce
qed

text \<open>The flush empties the buffer into the phase it belongs to.\<close>

lemma flush_phase:
  assumes "thinking xs r n p \<or> answering xs r n p" "marker_free p xs" "flush_parser p = (q, d)"
  shows "r @ pr_reasoning d = xs \<and> n @ pr_normal d = [] \<and> \<not> has_sub (rp_end p) xs
    \<or> (\<exists>i. find_sub (rp_end p) xs = Some i \<and> rstrip (r @ pr_reasoning d) = rstrip (take i xs)
         \<and> n @ pr_normal d = drop (i + length (rp_end p)) xs)"
proof -
  obtain z k where "z @ rp_buf p = drop k xs"
    using assms(1) unfolding thinking_def answering_def by (metis drop0)
  then have "suffix (rp_buf p) xs" by (metis suffixI suffix_drop suffix_order.trans)
  then obtain zs where zs: "xs = zs @ rp_buf p" by (auto simp: suffix_def)
  have "\<not> has_prefix tool (lstrip (rp_buf p))" if t: "rp_tool p = Some tool" for tool
  proof
    assume "has_prefix tool (lstrip (rp_buf p))"
    then obtain b where "lstrip (rp_buf p) = tool @ b" by (auto simp: has_prefix_prefix prefix_def)
    then obtain ws where "xs = (zs @ ws) @ tool @ b" using zs lstrip_split [of "rp_buf p"] by auto
    then have "has_sub tool xs" unfolding has_sub_iff by blast
    then show False using assms(2) t by (simp add: marker_free_def)
  qed
  then have "r @ pr_reasoning d = r @ (if rp_in p then rp_buf p else []) \<and> n @ pr_normal d = n @ (if rp_in p then [] else rp_buf p)"
    using assms(3) by (auto simp: flush_parser_def Let_def split: option.splits if_splits)
  with assms(1) show ?thesis by (auto simp: thinking_def answering_def)
qed

section \<open>An opening marker at the start\<close>

definition in_opener :: "utext \<Rightarrow> base_parser \<Rightarrow> bool" where
  "in_opener xs p \<longleftrightarrow> \<not> rp_in p \<and> \<not> rp_stripped p \<and> rp_buf p = xs \<and> prefix xs (rp_start p) \<and> length xs < length (rp_start p)"

lemma opening_step:
  assumes "in_opener xs p" "parse_increment new p = (q, d)" "prefix (xs @ new) (rp_start p)" "length (xs @ new) < length (rp_start p)"
  shows "in_opener (xs @ new) q \<and> d = parsed [] [] \<and> same_markers p q"
proof -
  let ?cur = "xs @ new" and ?h = "held_suffix (tracked_tokens p) (xs @ new)"
  have p: "\<not> rp_in p" "\<not> rp_stripped p" "rp_buf p = xs" using assms(1) by (auto simp: in_opener_def)
  have "\<not> has_sub (rp_start p) ?cur" using assms(4) by (auto simp: has_sub_iff dest: arg_cong [of _ _ length])
  then have e: "(q, d) = emit_safe ?cur p"
    using assms(2) p by (simp add: parse_increment_def strip_opening_def split: option.splits)
  have "take (length ?cur) (rp_start p) = ?cur" using assms(3) by (metis append_eq_conv_conj prefix_def)
  then have "length ?cur \<le> ?h"
    using held_suffix_max [of "rp_start p" "tracked_tokens p" "length ?cur" ?cur] assms(4) p(2) by (simp add: tracked_tokens_def)
  then have "split_trailing_partial ?cur p = ([], ?cur)" by (simp add: split_trailing_partial_def)
  then show ?thesis using e p assms(3,4) by (simp add: emit_safe_def in_opener_def same_markers_def)
qed

lemma opening_done:
  assumes "in_opener xs p" "xs @ new = rp_start p @ u"
  shows "parse_increment new p = parse_increment u (p\<lparr>rp_buf := [], rp_stripped := True, rp_in := True\<rparr>)"
proof -
  let ?q = "p\<lparr>rp_stripped := True, rp_in := True\<rparr>" and ?q' = "p\<lparr>rp_buf := [], rp_stripped := True, rp_in := True\<rparr>"
  have f: "find_sub (rp_start p) (rp_start p @ u) = Some 0"
    by (cases "rp_start p") (auto simp: has_prefix_def find_sub_Some)
  have a: "strip_opening (rp_buf p @ new) p = (u, ?q)"
    using assms f by (simp add: strip_opening_def in_opener_def has_sub_def remove_sub1_def)
  have b: "strip_opening (rp_buf ?q' @ u) ?q' = (u, ?q')" by (simp add: strip_opening_def)
  have "split_trailing_partial u ?q = split_trailing_partial u ?q'" by (simp add: split_trailing_partial_def tracked_tokens_def)
  then have "emit_safe u ?q = emit_safe u ?q'" by (auto simp: emit_safe_def split: prod.splits)
  moreover have "hold_tool tool u ?q = hold_tool tool u ?q'" for tool by (simp add: hold_tool_def Let_def)
  ultimately show ?thesis unfolding parse_increment_def a b by (simp split: option.splits)
qed

lemma thinking_start: "rp_in p \<Longrightarrow> rp_buf p = [] \<Longrightarrow> rp_end p \<noteq> [] \<Longrightarrow> thinking [] [] [] p"
  by (auto simp: thinking_def has_sub_def)

lemma chunks_opening:
  assumes "in_opener xs p" "xs @ concat cs = rp_start p @ u" "parse_chunks cs p = (q, ds)" "rp_end p \<noteq> []"
    "\<forall>tool. rp_tool p = Some tool \<longrightarrow> \<not> has_sub tool u"
  shows "same_markers p q \<and> rp_stripped q \<and> (thinking u (all_reasoning ds) (all_normal ds) q \<or> answering u (all_reasoning ds) (all_normal ds) q)"
  using assms
proof (induction cs arbitrary: xs p q ds)
  case Nil
  then have "length (rp_start p @ u) < length (rp_start p)" by (auto simp: in_opener_def)
  then show ?case by simp
next
  case (Cons c cs)
  obtain p1 d where s1: "parse_increment c p = (p1, d)" by fastforce
  obtain ds' where s2: "parse_chunks cs p1 = (q, ds')" "ds = d # ds'"
    using Cons.prems(3) s1 by (auto split: prod.splits)
  have eq: "(xs @ c) @ concat cs = rp_start p @ u" using Cons.prems(2) by simp
  show ?case
  proof (cases "length (xs @ c) < length (rp_start p)")
    case True
    then have "prefix (xs @ c) (rp_start p)" using eq by (metis less_imp_le prefixI prefix_length_prefix)
    note o = opening_step [OF Cons.prems(1) s1 this True]
    then have "rp_start p1 = rp_start p" "rp_end p1 = rp_end p" "rp_tool p1 = rp_tool p" by (auto simp: same_markers_def)
    then have "same_markers p1 q \<and> rp_stripped q
      \<and> (thinking u (all_reasoning ds') (all_normal ds') q \<or> answering u (all_reasoning ds') (all_normal ds') q)"
      by (intro Cons.IH [of "xs @ c" p1 q ds']) (use o eq s2(1) Cons.prems(4,5) in simp_all)
    then show ?thesis using same_markers_trans [of p p1 q] o s2(2) by simp
  next
    case False
    have a: "prefix (rp_start p) ((xs @ c) @ concat cs)" unfolding eq by (rule prefixI) (rule refl)
    have b: "prefix (xs @ c) ((xs @ c) @ concat cs)" by (rule prefixI) (rule refl)
    have "prefix (rp_start p) (xs @ c)" by (rule prefix_length_prefix [OF a b]) (use False in linarith)
    then obtain v where v1: "xs @ c = rp_start p @ v" unfolding prefix_def by blast
    have "rp_start p @ (v @ concat cs) = rp_start p @ u" using eq unfolding v1 append.assoc .
    then have v: "xs @ c = rp_start p @ v" "v @ concat cs = u" using v1 same_append_eq by blast+
    let ?p = "p\<lparr>rp_buf := [], rp_stripped := True, rp_in := True\<rparr>"
    have "parse_increment v ?p = (p1, d)" using opening_done [OF Cons.prems(1) v(1)] s1 by argo
    then have "parse_chunks (v # cs) ?p = (q, ds)" using s2 by simp
    moreover have "marker_free ?p u" using Cons.prems(5) by (simp add: marker_free_def)
    moreover have "thinking [] [] [] ?p" by (rule thinking_start) (use Cons.prems(4) in simp_all)
    ultimately have "same_markers ?p q \<and> (thinking u (all_reasoning ds) (all_normal ds) q \<or> answering u (all_reasoning ds) (all_normal ds) q)"
      using chunks_phase [of "[]" "[]" "[]" ?p "v # cs" q ds] v(2) by simp
    then show ?thesis by (auto simp: same_markers_def)
  qed
qed

section \<open>The one-shot parse\<close>

lemma remove_opening:
  assumes "s \<noteq> []" "\<not> has_sub s u"
  shows "remove_subs s (s @ u) = u"
proof -
  have "find_sub s (s @ u) = Some 0" using assms(1) by (cases s) (auto simp: has_prefix_def)
  then show ?thesis using assms remove_subs_none [OF assms(2)] by (subst remove_subs.simps) simp
qed

lemma oneshot_marker_free:
  assumes "rp_in p \<or> has_sub (rp_start p) xs" "remove_subs (rp_start p) xs = u"
    "\<forall>tool. rp_tool p = Some tool \<longrightarrow> \<not> has_sub tool u"
    "rp_end p \<noteq> []" "\<not> is_space (hd (rp_end p))" "\<not> is_space (last (rp_end p))"
  shows "detect_and_parse xs p = (case find_sub (rp_end p) u of
      None \<Rightarrow> parsed (strip u) []
    | Some i \<Rightarrow> parsed (lstrip (take i u)) (strip (drop (i + length (rp_end p)) u)))"
proof -
  let ?e = "rp_end p"
  have tool: "\<not> has_sub t (strip u)" if "rp_tool p = Some t" for t
    using assms(3) that strip_split [of u] has_sub_append1 has_sub_append2 by metis
  show ?thesis
  proof (cases "find_sub ?e u")
    case None
    then have "\<not> has_sub ?e (strip u)" using strip_split [of u] has_sub_append1 has_sub_append2 unfolding has_sub_def by metis
    then show ?thesis using None assms(1,2) tool by (auto simp: detect_and_parse_def Let_def split: option.splits)
  next
    case (Some i)
    let ?a = "take i u" and ?b = "drop (i + length ?e) u"
    have u: "u = ?a @ ?e @ ?b" using find_sub_split [OF Some] .
    have st: "strip u = lstrip ?a @ ?e @ rstrip ?b"
      by (subst u) (simp add: strip_def lstrip_keep [OF assms(4,5)] rstrip_keep [OF assms(4,6)])
    obtain ws where ws: "?a = ws @ lstrip ?a" using lstrip_split by blast
    have u2: "u = ws @ (lstrip ?a @ ?e @ ?b)" using u ws by (metis append.assoc)
    have len: "length ws + length (lstrip ?a) = i"
      using arg_cong [OF ws, of length] find_sub_bound [OF Some] by simp
    have "find_sub ?e (lstrip ?a @ ?e @ ?b) = Some (i - length ws)"
      by (rule find_sub_shift [of _ ws]) (use Some u2 len in auto)
    then have f: "find_sub ?e ((lstrip ?a @ ?e) @ ?b) = Some (length (lstrip ?a))" using len by (metis add_diff_cancel_left' append.assoc)
    then have "find_sub ?e (lstrip ?a @ ?e) = Some (length (lstrip ?a))" by (rule find_sub_prefix) simp
    then have g: "find_sub ?e (lstrip ?a @ ?e @ rstrip ?b) = Some (length (lstrip ?a))" using find_sub_append by fastforce
    then show ?thesis
      using Some assms(1,2) by (simp add: detect_and_parse_def st has_sub_def)
  qed
qed

text \<open>What the stream yields, for any parser of the class.\<close>

lemma stream_result:
  assumes "p = base_init s e force stream tool" "xs = (if force then [] else s) @ u" "concat cs = xs"
    "\<not> has_sub s u" "\<forall>t. tool = Some t \<longrightarrow> \<not> has_sub t u" "s \<noteq> []" "e \<noteq> []" "parse_stream cs p = ds"
  shows "all_reasoning ds = u \<and> all_normal ds = [] \<and> \<not> has_sub e u
    \<or> (\<exists>i. find_sub e u = Some i \<and> rstrip (all_reasoning ds) = rstrip (take i u) \<and> all_normal ds = drop (i + length e) u)"
proof -
  have p: "rp_start p = s" "rp_end p = e" "rp_tool p = tool" "rp_in p = force" "rp_buf p = []" "\<not> rp_stripped p"
    using assms(1) by (simp_all add: base_init_def)
  obtain q ds' where c: "parse_chunks cs p = (q, ds')" by fastforce
  obtain q' d where f: "flush_parser q = (q', d)" by fastforce
  have ds: "ds = ds' @ [d]" using assms(8) c f by (simp add: parse_stream_def)
  have "same_markers p q \<and> marker_free q u
    \<and> (thinking u (all_reasoning ds') (all_normal ds') q \<or> answering u (all_reasoning ds') (all_normal ds') q)"
  proof (cases force)
    case True
    then have "thinking [] [] [] p" using thinking_start p assms(7) by simp
    moreover have "marker_free p u" using p assms(4,5) by (simp add: marker_free_def)
    moreover have "concat cs = u" using assms(2,3) True by simp
    ultimately show ?thesis using chunks_phase [of "[]" "[]" "[]" p cs q ds'] c marker_free_same [of p q u] by simp
  next
    case False
    then have "in_opener [] p" using p assms(6) by (simp add: in_opener_def)
    moreover have "[] @ concat cs = rp_start p @ u" using assms(2,3) False p by simp
    ultimately have "same_markers p q \<and> rp_stripped q
      \<and> (thinking u (all_reasoning ds') (all_normal ds') q \<or> answering u (all_reasoning ds') (all_normal ds') q)"
      using chunks_opening [of "[]" p cs u q ds'] c p assms(5,7) by simp
    then show ?thesis using assms(5) p by (auto simp: marker_free_def same_markers_def)
  qed
  moreover from this have "rp_end q = e" using p by (simp add: same_markers_def)
  ultimately show ?thesis using flush_phase [of u "all_reasoning ds'" "all_normal ds'" q q' d] f unfolding ds by simp
qed

section \<open>A text without reasoning\<close>

lemma plain_step:
  assumes "\<not> rp_in p" "\<not> has_sub (rp_start p) (rp_buf p @ new)" "parse_increment new p = (q, r)"
  shows "\<not> rp_in q \<and> rp_start q = rp_start p \<and> pr_reasoning r = [] \<and> pr_normal r @ rp_buf q = rp_buf p @ new"
proof -
  obtain safe held where sp: "split_trailing_partial (rp_buf p @ new) p = (safe, held)" by fastforce
  have "parse_increment new p = (p\<lparr>rp_buf := held\<rparr>, parsed [] safe)"
    using assms(1,2) sp by (simp add: parse_increment_def strip_opening_def emit_safe_def split: option.splits)
  then show ?thesis using assms(1,3) split_partial_append(1) [OF sp] by auto
qed

lemma plain_chunks:
  "\<not> rp_in p \<Longrightarrow> \<not> has_sub (rp_start p) (rp_buf p @ concat cs) \<Longrightarrow> parse_chunks cs p = (q, ds)
   \<Longrightarrow> \<not> rp_in q \<and> all_reasoning ds = [] \<and> all_normal ds @ rp_buf q = rp_buf p @ concat cs"
proof (induction cs arbitrary: p ds)
  case (Cons c cs)
  obtain p1 r where r: "parse_increment c p = (p1, r)" by fastforce
  obtain rs where rs: "parse_chunks cs p1 = (q, rs)" "ds = r # rs" using Cons.prems(3) r by (auto split: prod.splits)
  have "\<not> has_sub (rp_start p) (rp_buf p @ c)" using Cons.prems(2) has_sub_append1 [of "rp_start p" "rp_buf p @ c" "concat cs"] by auto
  note st = plain_step [OF Cons.prems(1) this r]
  have e: "pr_normal r @ rp_buf p1 @ concat cs = rp_buf p @ concat (c # cs)" using arg_cong [of _ _ "\<lambda>x. x @ concat cs"] st by simp
  have "\<not> has_sub (rp_start p1) (rp_buf p1 @ concat cs)"
    using Cons.prems(2) st has_sub_append2 [of "rp_start p" "rp_buf p1 @ concat cs" "pr_normal r"] unfolding e by auto
  from Cons.IH [OF _ this rs(1)] show ?case using st e rs(2) by simp
qed simp

lemma plain_stream:
  assumes "\<not> rp_in p" "rp_buf p = []" "\<not> has_sub (rp_start p) (concat cs)"
  shows "all_reasoning (parse_stream cs p) = [] \<and> all_normal (parse_stream cs p) = concat cs"
proof -
  obtain q ds where c: "parse_chunks cs p = (q, ds)" by fastforce
  note q = plain_chunks [OF assms(1) _ c] 
  have "pr_reasoning (snd (flush_parser q)) = [] \<and> pr_normal (snd (flush_parser q)) = rp_buf q"
    using q assms(2,3) by (auto simp: flush_parser_def Let_def)
  then show ?thesis using c q assms(2,3) by (simp add: parse_stream_def)
qed

end
