(* ===== verification/Harmony.thy ===== *)
theory Harmony
  imports Reasoning
begin

text \<open>
  The gpt-oss part of \<open>server/reasoning_parser.py\<close>: the scan of a Harmony text into reasoning and content,
  at once and over the growing buffer of a stream. \<open>_scan\<close> keeps an index into the text; here it is
  the suffix from that index.
\<close>

section \<open>The scan\<close>

definition HARMONY_CHANNEL :: utext where "HARMONY_CHANNEL = codes ''<|channel|>''"
definition HARMONY_MESSAGE :: utext where "HARMONY_MESSAGE = codes ''<|message|>''"

definition HARMONY_CLOSING :: "utext list" where
  "HARMONY_CLOSING = [codes ''<|end|>'', codes ''<|return|>'', codes ''<|call|>'']"

definition HARMONY_BOUNDARY_TOKENS :: "utext list" where
  "HARMONY_BOUNDARY_TOKENS = HARMONY_CLOSING @ [codes ''<|start|>'', codes ''<|channel|>'']"

definition HARMONY_ALL_TOKENS :: "utext list" where
  "HARMONY_ALL_TOKENS = HARMONY_CHANNEL # HARMONY_MESSAGE # HARMONY_BOUNDARY_TOKENS"

text \<open>\<open>_segment_end\<close>: the earliest boundary token\<close>

definition segment_end :: "utext \<Rightarrow> (nat \<times> utext) option" where
  "segment_end xs = earliest HARMONY_BOUNDARY_TOKENS xs"

text \<open>\<open>header.split()\<close>, of which the code uses the first word\<close>

definition first_word :: "utext \<Rightarrow> utext" where
  "first_word xs = takeWhile (\<lambda>c. \<not> is_space c) (lstrip xs)"

definition is_tool :: "utext \<Rightarrow> bool" where
  "is_tool header \<longleftrightarrow> first_word header = codes ''commentary'' \<and> has_sub (codes ''to=functions'') header"

text \<open>One segment: its text goes to the reasoning or to the content. \<open>verbatim\<close> is the text from
  the channel marker on, \<open>skip\<close> the length of the markers and the header.\<close>

definition segment_text :: "bool \<Rightarrow> utext \<Rightarrow> nat \<Rightarrow> utext \<Rightarrow> utext \<Rightarrow> utext \<times> utext" where
  "segment_text hold verbatim skip header body =
    (let ended = segment_end body; e = (case ended of None \<Rightarrow> length body | Some (i, _) \<Rightarrow> i) in
     if is_tool header then
       ([], take (skip + e + (case ended of Some (_, tok) \<Rightarrow> if tok \<in> set HARMONY_CLOSING then length tok else 0 | None \<Rightarrow> 0)) verbatim)
     else
       let part = take e body;
           part = (if ended = None \<and> hold then take (length part - held_suffix HARMONY_ALL_TOKENS part) part else part)
       in if first_word header = codes ''analysis'' then (part, []) else ([], part))"

text \<open>The loop over the segments\<close>

function scan :: "bool \<Rightarrow> utext \<Rightarrow> utext \<times> utext" where
  "scan hold xs =
    (case find_sub HARMONY_CHANNEL xs of
       None \<Rightarrow> ([], [])
     | Some ch \<Rightarrow>
         (let rest = drop (ch + length HARMONY_CHANNEL) xs in
          case find_sub HARMONY_MESSAGE rest of
            None \<Rightarrow> ([], [])
          | Some m \<Rightarrow>
              (let body = drop (m + length HARMONY_MESSAGE) rest;
                   (r, c) = segment_text hold (drop ch xs) (length HARMONY_CHANNEL + m + length HARMONY_MESSAGE) (take m rest) body
               in case segment_end body of
                    None \<Rightarrow> (r, c)
                  | Some (e, _) \<Rightarrow> (case scan hold (drop e body) of (r', c') \<Rightarrow> (r @ r', c @ c')))))"
  by pat_completeness auto

lemma channel_length: "length HARMONY_CHANNEL = 11"
  by (simp add: HARMONY_CHANNEL_def codes_def)

termination scan
  by (relation "measure (length \<circ> snd)") (auto dest!: find_sub_bound simp: channel_length)

declare scan.simps [simp del]

section \<open>The parser\<close>

record harmony =
  ha_buf :: utext
  ha_reasoning :: nat
  ha_content :: nat

definition harmony_init :: harmony where
  "harmony_init = \<lparr>ha_buf = [], ha_reasoning = 0, ha_content = 0\<rparr>"

definition harmony_detect :: "utext \<Rightarrow> parse_result" where
  "harmony_detect xs =
    (if \<not> has_sub HARMONY_CHANNEL xs then parsed [] xs
     else case scan False xs of (r, c) \<Rightarrow> parsed (strip r) (strip c))"

text \<open>What is new since the last scan is emitted.\<close>

definition harmony_emit :: "bool \<Rightarrow> harmony \<Rightarrow> harmony \<times> parse_result" where
  "harmony_emit hold h =
    (case scan hold (ha_buf h) of (r, c) \<Rightarrow>
       (h\<lparr>ha_reasoning := length r, ha_content := length c\<rparr>, parsed (drop (ha_reasoning h) r) (drop (ha_content h) c)))"

definition harmony_increment :: "utext \<Rightarrow> harmony \<Rightarrow> harmony \<times> parse_result" where
  "harmony_increment new h = harmony_emit True (h\<lparr>ha_buf := ha_buf h @ new\<rparr>)"

definition harmony_flush :: "harmony \<Rightarrow> harmony \<times> parse_result" where
  "harmony_flush h = harmony_emit False h"

primrec harmony_chunks :: "utext list \<Rightarrow> harmony \<Rightarrow> harmony \<times> parse_result list" where
  "harmony_chunks [] h = (h, [])"
| "harmony_chunks (c # cs) h =
    (case harmony_increment c h of (h, r) \<Rightarrow> case harmony_chunks cs h of (h, rs) \<Rightarrow> (h, r # rs))"

definition harmony_stream :: "utext list \<Rightarrow> parse_result list" where
  "harmony_stream cs = (case harmony_chunks cs harmony_init of (h, rs) \<Rightarrow> rs @ [snd (harmony_flush h)])"

section \<open>Boundaries in a growing text\<close>

lemma boundary_markers: "marker_set HARMONY_BOUNDARY_TOKENS"
  by (simp add: marker_set_def HARMONY_BOUNDARY_TOKENS_def HARMONY_CLOSING_def codes_def)

lemma segment_end_Some:
  assumes "segment_end xs = Some (e, tok)"
  shows "tok \<in> set HARMONY_BOUNDARY_TOKENS \<and> find_sub tok xs = Some e"
  using earliest_Some [OF assms [unfolded segment_end_def]] by blast

text \<open>A boundary that was found stays the boundary; what a growing text may still claim is held back.\<close>

lemma segment_end_append: "segment_end xs = Some (e, tok) \<Longrightarrow> segment_end (xs @ ys) = Some (e, tok)"
  using earliest_append boundary_markers by (simp add: segment_end_def)

lemma segment_end_late:
  "segment_end xs = None \<Longrightarrow> segment_end (xs @ ys) = Some (e, tok) \<Longrightarrow> length xs - held_suffix HARMONY_ALL_TOKENS xs \<le> e"
  by (rule earliest_late [where toks = HARMONY_BOUNDARY_TOKENS and ys = ys and tok = tok])
    (auto simp: segment_end_def HARMONY_ALL_TOKENS_def)

section \<open>The scan of a growing text\<close>

definition pair_prefix :: "utext \<times> utext \<Rightarrow> utext \<times> utext \<Rightarrow> bool" where
  "pair_prefix a b \<longleftrightarrow> prefix (fst a) (fst b) \<and> prefix (snd a) (snd b)"

lemma segment_prefix:
  assumes "\<not> is_tool header"
  shows "pair_prefix (segment_text True v s header body) (segment_text hold v' s' header (body @ ys))"
    "segment_end body \<noteq> None \<Longrightarrow> segment_text hold v' s' header (body @ ys) = segment_text True v s header body"
proof -
  let ?h = "\<lambda>xs. length xs - held_suffix HARMONY_ALL_TOKENS xs"
  let ?part = "case segment_end (body @ ys) of None \<Rightarrow> (if hold then take (?h (body @ ys)) (body @ ys) else body @ ys)
    | Some (e, _) \<Rightarrow> take e (body @ ys)"
  have new: "segment_text hold v' s' header (body @ ys)
    = (if first_word header = codes ''analysis'' then (?part, []) else ([], ?part))"
    using assms by (auto simp: segment_text_def Let_def split: option.splits)
  have ended: "segment_text True v s header body = segment_text hold v' s' header (body @ ys)" if "segment_end body = Some (e, tok)" for e tok
  proof -
    have "e \<le> length body" using segment_end_Some [OF that] by (auto simp: find_sub_Some)
    then show ?thesis using assms that segment_end_append [OF that, of ys] by (auto simp: segment_text_def Let_def)
  qed
  then show "segment_end body \<noteq> None \<Longrightarrow> segment_text hold v' s' header (body @ ys) = segment_text True v s header body" by force
  show "pair_prefix (segment_text True v s header body) (segment_text hold v' s' header (body @ ys))"
  proof (cases "segment_end body")
    case None
    have "prefix (take (?h body) body) ?part"
    proof (cases "segment_end (body @ ys)")
      case (Some p)
      then obtain e tok where p: "p = (e, tok)" by fastforce
      then have "?h body \<le> e" using segment_end_late None Some by blast
      then have "prefix (take (?h body) (body @ ys)) (take e (body @ ys))" by (metis min.absorb1 take_is_prefix take_take)
      then show ?thesis using Some p by simp
    next
      case N: None
      have "prefix (take (?h body) (body @ ys)) (take (?h (body @ ys)) (body @ ys))"
        using held_grows [of body _ ys] by (metis min.absorb1 take_is_prefix take_take)
      moreover have "prefix (take (?h body) (body @ ys)) (body @ ys)" by (rule take_is_prefix)
      ultimately show ?thesis using N by (cases hold) simp_all
    qed
    then show ?thesis using assms None unfolding new by (simp add: segment_text_def Let_def pair_prefix_def)
  next
    case (Some p)
    then show ?thesis using ended by (cases p) (simp add: pair_prefix_def)
  qed
qed

lemma no_tool: "\<not> has_sub (codes ''to=functions'') xs \<Longrightarrow> xs = a @ b @ c \<Longrightarrow> \<not> is_tool b"
  using has_sub_append2 [of _ "b @ c" a] has_sub_append1 [of _ b c] by (auto simp: is_tool_def)

lemma scan_prefix:
  assumes "\<not> has_sub (codes ''to=functions'') (xs @ ys)"
  shows "pair_prefix (scan True xs) (scan hold (xs @ ys))"
  using assms
proof (induction xs rule: measure_induct_rule [of length])
  case (less xs)
  show ?case
  proof (cases "find_sub HARMONY_CHANNEL xs")
    case None
    then show ?thesis by (subst scan.simps) (simp add: pair_prefix_def)
  next
    case ch: (Some ch)
    let ?rest = "drop (ch + length HARMONY_CHANNEL) xs"
    have ch2: "find_sub HARMONY_CHANNEL (xs @ ys) = Some ch" using find_sub_append [OF ch] .
    have l: "ch + length HARMONY_CHANNEL \<le> length xs" using find_sub_bound [OF ch] .
    show ?thesis
    proof (cases "find_sub HARMONY_MESSAGE ?rest")
      case None
      then show ?thesis using ch by (subst scan.simps) (simp add: pair_prefix_def Let_def)
    next
      case m: (Some m)
      let ?body = "drop (m + length HARMONY_MESSAGE) ?rest" and ?head = "take m ?rest"
      let ?s = "length HARMONY_CHANNEL + m + length HARMONY_MESSAGE"
      have m2: "find_sub HARMONY_MESSAGE (?rest @ ys) = Some m" using find_sub_append [OF m] .
      have l2: "m + length HARMONY_MESSAGE \<le> length ?rest" using find_sub_bound [OF m] .
      have all: "xs @ ys = take (ch + length HARMONY_CHANNEL) xs @ ?head @ drop m ?rest @ ys"
        by (simp only: append_assoc [symmetric] append_take_drop_id)
      then have nt: "\<not> is_tool ?head" using no_tool less.prems by blast
      have nb: "\<not> has_sub (codes ''to=functions'') (drop e ?body @ ys)" for e
      proof -
        obtain n where n: "drop e ?body = drop n xs" by simp
        have "xs @ ys = take n xs @ drop n xs @ ys" by simp
        then show ?thesis using less.prems has_sub_append2 unfolding n by metis
      qed
      have old: "scan True xs = (case segment_text True (drop ch xs) ?s ?head ?body of (r, c) \<Rightarrow>
          case segment_end ?body of None \<Rightarrow> (r, c) | Some (e, _) \<Rightarrow> (case scan True (drop e ?body) of (r', c') \<Rightarrow> (r @ r', c @ c')))"
        by (subst scan.simps) (simp only: ch m option.case Let_def)
      have r2: "drop (ch + length HARMONY_CHANNEL) (xs @ ys) = ?rest @ ys" using l by simp
      have b2: "drop (m + length HARMONY_MESSAGE) (?rest @ ys) = ?body @ ys" "take m (?rest @ ys) = ?head" using l2 by simp_all
      have new: "scan hold (xs @ ys) = (case segment_text hold (drop ch (xs @ ys)) ?s ?head (?body @ ys) of (r, c) \<Rightarrow>
          case segment_end (?body @ ys) of None \<Rightarrow> (r, c)
          | Some (e, _) \<Rightarrow> (case scan hold (drop e (?body @ ys)) of (r', c') \<Rightarrow> (r @ r', c @ c')))"
        by (subst scan.simps) (simp only: ch2 r2 m2 b2 option.case Let_def)
      show ?thesis
      proof (cases "segment_end ?body")
        case None
        have "pair_prefix (segment_text True (drop ch xs) ?s ?head ?body) (segment_text hold (drop ch (xs @ ys)) ?s ?head (?body @ ys))"
          using segment_prefix(1) [OF nt] .
        then show ?thesis unfolding old new using None
          by (auto simp: pair_prefix_def split: prod.splits option.splits)
      next
        case (Some p)
        then obtain e tok where p: "segment_end ?body = Some (e, tok)" by (cases p) simp
        have le: "e \<le> length ?body" using segment_end_Some [OF p] by (auto simp: find_sub_Some)
        have same: "segment_text hold (drop ch (xs @ ys)) ?s ?head (?body @ ys) = segment_text True (drop ch xs) ?s ?head ?body"
          using segment_prefix(2) [OF nt] p by simp
        have "length (drop e ?body) < length xs" using l channel_length by simp
        then have "pair_prefix (scan True (drop e ?body)) (scan hold (drop e ?body @ ys))" using less.IH nb by blast
        then show ?thesis unfolding old new same using p segment_end_append [OF p, of ys] le
          by (auto simp: pair_prefix_def split: prod.splits)
      qed
    qed
  qed
qed

section \<open>The stream\<close>

lemma emit_total:
  assumes "r = fst (scan True buf)" "c = snd (scan True buf)" "ha_reasoning h = length r" "ha_content h = length c"
    "ha_buf h = buf @ new" "\<not> has_sub (codes ''to=functions'') (buf @ new)" "harmony_emit hold h = (h', d)"
  shows "r @ pr_reasoning d = fst (scan hold (buf @ new))" "c @ pr_normal d = snd (scan hold (buf @ new))"
    "ha_reasoning h' = length (r @ pr_reasoning d)" "ha_content h' = length (c @ pr_normal d)" "ha_buf h' = buf @ new"
  using scan_prefix [OF assms(6), of hold] assms(1-5,7)
  by (auto simp: harmony_emit_def pair_prefix_def prefix_def split: prod.splits)

lemma harmony_chunks_total:
  assumes "r = fst (scan True (ha_buf h))" "c = snd (scan True (ha_buf h))" "ha_reasoning h = length r" "ha_content h = length c"
    "\<not> has_sub (codes ''to=functions'') (ha_buf h @ concat cs)" "harmony_chunks cs h = (h', ds)"
  shows "r @ all_reasoning ds = fst (scan True (ha_buf h')) \<and> c @ all_normal ds = snd (scan True (ha_buf h'))
    \<and> ha_reasoning h' = length (r @ all_reasoning ds) \<and> ha_content h' = length (c @ all_normal ds) \<and> ha_buf h' = ha_buf h @ concat cs"
  using assms
proof (induction cs arbitrary: h r c ds)
  case (Cons x cs)
  obtain h1 d where s1: "harmony_increment x h = (h1, d)" by fastforce
  obtain ds' where s2: "harmony_chunks cs h1 = (h', ds')" "ds = d # ds'"
    using Cons.prems(6) s1 by (auto split: prod.splits)
  have "\<not> has_sub (codes ''to=functions'') (ha_buf h @ x)" using Cons.prems(5) has_sub_append1 by fastforce
  note t = emit_total [OF Cons.prems(1,2) _ _ _ this, of "h\<lparr>ha_buf := ha_buf h @ x\<rparr>" True h1 d]
  have t: "r @ pr_reasoning d = fst (scan True (ha_buf h1))" "c @ pr_normal d = snd (scan True (ha_buf h1))"
    "ha_reasoning h1 = length (r @ pr_reasoning d)" "ha_content h1 = length (c @ pr_normal d)" "ha_buf h1 = ha_buf h @ x"
    using t Cons.prems(3,4) s1 by (simp_all add: harmony_increment_def)
  have "\<not> has_sub (codes ''to=functions'') (ha_buf h1 @ concat cs)" using Cons.prems(5) t(5) by simp
  note ih = Cons.IH [OF t(1,2,3,4) this s2(1)]
  then show ?case using s2(2) t(5) by (simp add: append_assoc [symmetric] del: append_assoc length_append)
qed simp

lemma harmony_stream_total:
  assumes "\<not> has_sub (codes ''to=functions'') (concat cs)"
  shows "all_reasoning (harmony_stream cs) = fst (scan False (concat cs))"
    "all_normal (harmony_stream cs) = snd (scan False (concat cs))"
proof -
  obtain h ds where c: "harmony_chunks cs harmony_init = (h, ds)" by fastforce
  obtain h' d where f: "harmony_flush h = (h', d)" by fastforce
  have z: "scan True [] = ([], [])" by (subst scan.simps) (simp add: HARMONY_CHANNEL_def codes_def)
  have t: "all_reasoning ds = fst (scan True (ha_buf h))" "all_normal ds = snd (scan True (ha_buf h))"
    "ha_reasoning h = length (all_reasoning ds)" "ha_content h = length (all_normal ds)" "ha_buf h = concat cs"
    using harmony_chunks_total [of "[]" harmony_init "[]" cs h ds] z assms c by (simp_all add: harmony_init_def)
  have n: "\<not> has_sub (codes ''to=functions'') (ha_buf h @ [])" using assms t(5) by simp
  note e = emit_total [OF t(1,2) t(3,4) _ n, of False h' d]
  show "all_reasoning (harmony_stream cs) = fst (scan False (concat cs))"
    "all_normal (harmony_stream cs) = snd (scan False (concat cs))"
    using e f t(5) c by (simp_all add: harmony_stream_def harmony_flush_def)
qed

end
