(* ===== verification/ReasonProps.thy ===== *)
theory ReasonProps
  imports ReasonStream Harmony
begin

text \<open>
  Properties of the reasoning parsers: the pieces of a stream add up to what the one-shot parse
  returns, whatever the chunks, and where the two disagree.
\<close>

section \<open>The markers of the models\<close>

lemma parser_markers:
  assumes "p = deepseek_init f st \<or> p = think_init f st \<or> p = gemma_init f st"
  shows "p = base_init (rp_start p) (rp_end p) f st (rp_tool p)"
    "rp_start p \<noteq> []" "rp_end p \<noteq> []" "\<not> is_space (hd (rp_end p))" "\<not> is_space (last (rp_end p))"
  using assms
  by (auto simp: deepseek_init_def think_init_def gemma_init_def base_init_def THINK_START_TOKEN_def THINK_END_TOKEN_def
      codes_def is_space_def)

text \<open>When the reasoning is open, by the template or by the text\<close>

lemma opened_matches_oneshot:
  assumes "p = deepseek_init f st \<or> p = think_init f st \<or> p = gemma_init f st"
    and "concat cs = (if f then [] else rp_start p) @ u"
    and "\<not> has_sub (rp_start p) u" "\<forall>tool. rp_tool p = Some tool \<longrightarrow> \<not> has_sub tool u"
  shows "strip (all_reasoning (parse_stream cs p)) = strip (pr_reasoning (detect_and_parse (concat cs) p))
    \<and> strip (all_normal (parse_stream cs p)) = strip (pr_normal (detect_and_parse (concat cs) p))"
proof -
  note m = parser_markers [OF assms(1)]
  have i: "rp_in p = f" by (subst m(1)) (simp add: base_init_def)
  have r: "remove_subs (rp_start p) (concat cs) = u"
    using assms(2,3) m(2) remove_opening remove_subs_none by (cases f) simp_all
  have o: "rp_in p \<or> has_sub (rp_start p) (concat cs)"
    using assms(2) i by (auto simp: has_sub_iff)
  note one = oneshot_marker_free [OF o r assms(4) m(3,4,5)]
  let ?ds = "parse_stream cs p"
  have "all_reasoning ?ds = u \<and> all_normal ?ds = [] \<and> \<not> has_sub (rp_end p) u
    \<or> (\<exists>i. find_sub (rp_end p) u = Some i \<and> rstrip (all_reasoning ?ds) = rstrip (take i u)
         \<and> all_normal ?ds = drop (i + length (rp_end p)) u)"
    using stream_result [OF m(1) refl assms(2,3,4) m(2,3) refl] .
  then show ?thesis
  proof (elim disjE exE conjE)
    fix i assume "find_sub (rp_end p) u = Some i" "rstrip (all_reasoning ?ds) = rstrip (take i u)"
      "all_normal ?ds = drop (i + length (rp_end p)) u"
    then show ?thesis unfolding one by (simp add: strip_alt [of "all_reasoning ?ds"]) (simp add: strip_alt [symmetric])
  qed (simp add: one has_sub_def del: concat_eq_Nil_conv)
qed

text \<open>C20: for the DeepSeek, think-tag and Gemma parsers a stream gives, up to surrounding blanks, the
  reasoning and the content of the one-shot parse of the whole text, however the text is cut into
  chunks. When the template did not open the reasoning, the text may begin with the opening marker; it
  holds no other opening marker and no tool marker.\<close>

theorem stream_matches_oneshot:
  assumes "p = deepseek_init f st \<or> p = think_init f st \<or> p = gemma_init f st"
    and "concat cs = u \<or> (\<not> f \<and> concat cs = rp_start p @ u)"
    and "\<not> has_sub (rp_start p) u" "\<forall>tool. rp_tool p = Some tool \<longrightarrow> \<not> has_sub tool u"
  shows "strip (all_reasoning (parse_stream cs p)) = strip (pr_reasoning (detect_and_parse (concat cs) p))
    \<and> strip (all_normal (parse_stream cs p)) = strip (pr_normal (detect_and_parse (concat cs) p))"
proof (cases "f \<or> concat cs \<noteq> u")
  case True
  then have c: "concat cs = (if f then [] else rp_start p) @ u" using assms(2) by auto
  show ?thesis by (rule opened_matches_oneshot [OF assms(1) c assms(3,4)])
next
  case False
  have "\<not> rp_in p" "rp_buf p = []" using False by (subst parser_markers(1) [OF assms(1)], simp add: base_init_def)+
  moreover have n: "\<not> has_sub (rp_start p) (concat cs)" using False assms(3) by simp
  ultimately have "all_reasoning (parse_stream cs p) = []" "all_normal (parse_stream cs p) = concat cs"
    "detect_and_parse (concat cs) p = parsed [] (concat cs)"
    using plain_stream [of p cs] by (simp_all add: detect_and_parse_def)
  then show ?thesis by (simp only: parse_result.simps)
qed

abbreviation demo_text :: utext where
  "demo_text \<equiv> codes ''so < 2 </think>ok''"

lemma stream_matches_oneshot_witness:
  "strip (all_reasoning (parse_stream [codes ''so <'', codes '' 2 </th'', codes ''ink>ok''] (think_init True True))) = codes ''so < 2''
    \<and> strip (all_normal (parse_stream [codes ''so <'', codes '' 2 </th'', codes ''ink>ok''] (think_init True True))) = codes ''ok''"
proof -
  let ?cs = "[codes ''so <'', codes '' 2 </th'', codes ''ink>ok'']" and ?p = "think_init True True"
  have c: "concat ?cs = demo_text \<or> (\<not> True \<and> concat ?cs = rp_start ?p @ demo_text)" by (simp add: codes_def)
  have f: "\<not> has_sub (rp_start ?p) demo_text" by code_simp
  have t: "\<forall>tool. rp_tool ?p = Some tool \<longrightarrow> \<not> has_sub tool demo_text" by (simp add: think_init_def base_init_def)
  have "strip (pr_reasoning (detect_and_parse demo_text ?p)) = codes ''so < 2''"
    "strip (pr_normal (detect_and_parse demo_text ?p)) = codes ''ok''" by code_simp+
  then show ?thesis using stream_matches_oneshot [OF disjI2 [OF disjI1 [OF refl]] c f t] c by simp
qed

section \<open>Harmony\<close>

text \<open>C27: a Harmony text with a channel and without a tool call streams, up to surrounding blanks, into the
  reasoning and the content of the one-shot parse, wherever the chunks cut its markers.\<close>

theorem harmony_stream_matches:
  assumes "has_sub HARMONY_CHANNEL (concat cs)" "\<not> has_sub (codes ''to=functions'') (concat cs)"
  shows "strip (all_reasoning (harmony_stream cs)) = pr_reasoning (harmony_detect (concat cs))
    \<and> strip (all_normal (harmony_stream cs)) = pr_normal (harmony_detect (concat cs))"
  using harmony_stream_total [OF assms(2)] assms(1) by (simp add: harmony_detect_def split: prod.splits)

lemma harmony_stream_matches_witness:
  "strip (all_reasoning (harmony_stream [codes ''<|chan'', codes ''nel|>analysis<|message|>why<|en'', codes ''d|><|channel|>final<|message|>ok''])) = codes ''why''
   \<and> strip (all_normal (harmony_stream [codes ''<|chan'', codes ''nel|>analysis<|message|>why<|en'', codes ''d|><|channel|>final<|message|>ok''])) = codes ''ok''"
proof -
  let ?cs = "[codes ''<|chan'', codes ''nel|>analysis<|message|>why<|en'', codes ''d|><|channel|>final<|message|>ok'']"
  have "has_sub HARMONY_CHANNEL (concat ?cs)" "\<not> has_sub (codes ''to=functions'') (concat ?cs)" by code_simp+
  note t = harmony_stream_matches [OF this]
  have "pr_reasoning (harmony_detect (concat ?cs)) = codes ''why''" "pr_normal (harmony_detect (concat ?cs)) = codes ''ok''"
    by code_simp+
  with t show ?thesis by simp
qed

text \<open>A completion without any channel marker is the content of the one-shot parse, but its stream
  is empty: no chunk and no flush ever delivers it.\<close>

theorem harmony_plain_dropped:
  assumes "\<not> has_sub HARMONY_CHANNEL (concat cs)"
  shows "harmony_detect (concat cs) = parsed [] (concat cs)
    \<and> all_reasoning (harmony_stream cs) = [] \<and> all_normal (harmony_stream cs) = []"
proof -
  have z: "scan h xs = ([], [])" if "\<not> has_sub HARMONY_CHANNEL xs" for h xs
    using that by (subst scan.simps) (simp add: has_sub_def)
  have emit: "snd (harmony_emit hold h) = parsed [] []" if "\<not> has_sub HARMONY_CHANNEL (ha_buf h)" for hold h
    using z [OF that] by (simp add: harmony_emit_def)
  have "all_reasoning ds = [] \<and> all_normal ds = [] \<and> ha_buf h' = ha_buf h @ concat cs"
    if "\<not> has_sub HARMONY_CHANNEL (ha_buf h @ concat cs)" "harmony_chunks cs h = (h', ds)" for cs h h' ds
    using that
  proof (induction cs arbitrary: h ds)
    case (Cons c cs)
    obtain h1 d where s1: "harmony_increment c h = (h1, d)" by fastforce
    obtain ds' where s2: "harmony_chunks cs h1 = (h', ds')" "ds = d # ds'"
      using Cons.prems(2) s1 by (auto split: prod.splits)
    have "\<not> has_sub HARMONY_CHANNEL (ha_buf h @ c)" using Cons.prems(1) has_sub_append1 by fastforce
    then have d: "d = parsed [] []" "ha_buf h1 = ha_buf h @ c"
      using s1 emit [of "h\<lparr>ha_buf := ha_buf h @ c\<rparr>" True] by (auto simp: harmony_increment_def harmony_emit_def split: prod.splits)
    then show ?case using Cons.IH [of h1 ds'] Cons.prems(1) s2 by simp
  qed simp
  note chunks = this [of harmony_init cs]
  obtain h ds where c: "harmony_chunks cs harmony_init = (h, ds)" by fastforce
  have "all_reasoning ds = []" "all_normal ds = []" "ha_buf h = concat cs"
    using chunks [of h ds] c assms by (simp_all add: harmony_init_def)
  moreover have "snd (harmony_flush h) = parsed [] []" unfolding harmony_flush_def
    by (rule emit) (use assms \<open>ha_buf h = concat cs\<close> in simp)
  ultimately show ?thesis using assms c by (simp add: harmony_detect_def harmony_stream_def)
qed

lemma harmony_plain_dropped_witness:
  "harmony_detect (codes ''plain text'') = parsed [] (codes ''plain text'')
    \<and> all_normal (harmony_stream [codes ''plain '', codes ''text'']) = []"
proof -
  have c: "concat [codes ''plain '', codes ''text''] = codes ''plain text''" by (simp add: codes_def)
  have "\<not> has_sub HARMONY_CHANNEL (concat [codes ''plain '', codes ''text''])" by code_simp
  from harmony_plain_dropped [OF this] show ?thesis unfolding c by blast
qed

text \<open>A tool call is emitted without a hold: when the next chunk completes the marker that ends it, the
  beginning of the marker has already gone out, and the content that follows loses as many
  characters.\<close>

lemma harmony_tool_marker_leaks:
  "all_normal (harmony_stream [codes ''<|channel|>commentary to=functions.f<|message|>{}<|st'', codes ''art|>x<|channel|>final<|message|>hello''])
     = codes ''<|channel|>commentary to=functions.f<|message|>{}<|sto''
   \<and> pr_normal (harmony_detect (codes ''<|channel|>commentary to=functions.f<|message|>{}<|start|>x<|channel|>final<|message|>hello''))
     = codes ''<|channel|>commentary to=functions.f<|message|>{}hello''"
  by code_simp

section \<open>MiniMax-M3\<close>

text \<open>The one-shot parse drops the prose before an opening marker that is never closed; the stream
  delivers it.\<close>

lemma m3_prose_dropped:
  "m3_detect (codes ''Hi. <mm:think>hm'') (m3_init False True) = parsed (codes ''hm'') []
   \<and> pr_normal (snd (m3_increment (codes ''Hi. '') (m3_init False True))) = codes ''Hi. ''"
  by code_simp

end
