(* ===== verification/PyJson.thy ===== *)
theory PyJson
  imports TextOps
begin

text \<open>
  The JSON of Python's standard library as \<open>server/function_call_parser.py\<close> uses it:
  \<open>JSONDecoder().raw_decode\<close>, \<open>json.loads\<close> and \<open>json.dumps(..., ensure_ascii=False)\<close>. A float is kept as the
  text \<open>json.dumps\<close> prints for it, which the parameter \<open>fl\<close> computes from the literal (rounding to
  binary64 and the shortest representation are not modelled). A decoding error is \<open>None\<close>. The
  interpreter's recursion and digit limits are not modelled.
\<close>

datatype jval =
    VNull
  | VBool bool
  | VInt int
  | VFloat utext
  | VText utext
  | VArr "jval list"
  | VObj "(utext \<times> jval) list"

section \<open>Printing\<close>

definition is_digit :: "int \<Rightarrow> bool" where
  "is_digit c \<longleftrightarrow> 48 \<le> c \<and> c \<le> 57"

fun nat_digits :: "nat \<Rightarrow> utext" where
  "nat_digits n = (if n < 10 then [48 + int n] else nat_digits (n div 10) @ [48 + int (n mod 10)])"

declare nat_digits.simps [simp del]

definition int_digits :: "int \<Rightarrow> utext" where
  "int_digits i = (if i < 0 then 45 # nat_digits (nat (- i)) else nat_digits (nat i))"

definition hex_digit :: "int \<Rightarrow> int" where
  "hex_digit d = (if d < 10 then 48 + d else 87 + d)"

definition escape_char :: "int \<Rightarrow> utext" where
  "escape_char c =
    (if c = 34 then [92, 34] else if c = 92 then [92, 92]
     else if c = 10 then [92, 110] else if c = 13 then [92, 114] else if c = 9 then [92, 116]
     else if c = 12 then [92, 102] else if c = 8 then [92, 98]
     else if 0 \<le> c \<and> c < 32 then [92, 117, 48, 48, hex_digit (c div 16), hex_digit (c mod 16)]
     else [c])"

text \<open>\<open>_json_escape_chunk\<close> is \<open>json.dumps(text)[1:-1]\<close>.\<close>

definition escape_text :: "utext \<Rightarrow> utext" where
  "escape_text s = concat (map escape_char s)"

definition dumps_text :: "utext \<Rightarrow> utext" where
  "dumps_text s = 34 # escape_text s @ [34]"

definition join :: "utext \<Rightarrow> utext list \<Rightarrow> utext" where
  "join sep xs = (case xs of [] \<Rightarrow> [] | x # ys \<Rightarrow> x @ concat (map ((@) sep) ys))"

fun dumps :: "jval \<Rightarrow> utext" where
  "dumps VNull = codes ''null''"
| "dumps (VBool b) = (if b then codes ''true'' else codes ''false'')"
| "dumps (VInt i) = int_digits i"
| "dumps (VFloat t) = t"
| "dumps (VText s) = dumps_text s"
| "dumps (VArr vs) = 91 # join (codes '', '') (map dumps vs) @ [93]"
| "dumps (VObj kvs) = 123 # join (codes '', '') (map (\<lambda>(k, v). dumps_text k @ codes '': '' @ dumps v) kvs) @ [125]"

section \<open>Reading\<close>

definition json_space :: "int \<Rightarrow> bool" where
  "json_space c \<longleftrightarrow> c = 32 \<or> c = 9 \<or> c = 10 \<or> c = 13"

definition skip_space :: "utext \<Rightarrow> utext" where
  "skip_space xs = dropWhile json_space xs"

definition hex_value :: "int \<Rightarrow> int option" where
  "hex_value c =
    (if is_digit c then Some (c - 48) else if 97 \<le> c \<and> c \<le> 102 then Some (c - 87)
     else if 65 \<le> c \<and> c \<le> 70 then Some (c - 55) else None)"

definition hex4 :: "utext \<Rightarrow> int option" where
  "hex4 xs = (if length xs < 4 then None
    else foldl (\<lambda>acc c. case (acc, hex_value c) of (Some a, Some d) \<Rightarrow> Some (16 * a + d) | _ \<Rightarrow> None) (Some 0) (take 4 xs))"

text \<open>One character of a string, after the backslash when there is one: an escape, with a surrogate
  pair joined into one code point.\<close>

definition scan_unicode :: "utext \<Rightarrow> (int \<times> utext) option" where
  "scan_unicode xs =
    (case hex4 xs of
       None \<Rightarrow> None
     | Some u \<Rightarrow>
         (let r = drop 4 xs in
          if 55296 \<le> u \<and> u \<le> 56319 \<and> take 2 r = [92, 117]
          then (case hex4 (drop 2 r) of
                  None \<Rightarrow> None
                | Some v \<Rightarrow> if 56320 \<le> v \<and> v \<le> 57343 then Some (65536 + (u - 55296) * 1024 + (v - 56320), drop 6 r) else Some (u, r))
          else Some (u, r)))"

definition simple_escape :: "int \<Rightarrow> int option" where
  "simple_escape e = map_of [(34, 34), (92, 92), (47, 47), (98, 8), (102, 12), (110, 10), (114, 13), (116, 9)] e"

definition scan_char :: "int \<Rightarrow> utext \<Rightarrow> (int \<times> utext) option" where
  "scan_char c xs =
    (if c = 92 then
       (case xs of
          [] \<Rightarrow> None
        | e # ys \<Rightarrow> if e = 117 then scan_unicode ys else map_option (\<lambda>v. (v, ys)) (simple_escape e))
     else if 0 \<le> c \<and> c < 32 then None
     else Some (c, xs))"

lemma scan_char_shorter: "scan_char c xs = Some (v, ys) \<Longrightarrow> length ys \<le> length xs"
  by (auto simp: scan_char_def scan_unicode_def Let_def split: if_splits list.splits option.splits)

text \<open>\<open>scanstring\<close>, from behind the opening quote\<close>

function scan_string :: "utext \<Rightarrow> (utext \<times> utext) option" where
  "scan_string xs =
    (case xs of
       [] \<Rightarrow> None
     | c # ys \<Rightarrow>
         if c = 34 then Some ([], ys)
         else (case scan_char c ys of
             None \<Rightarrow> None
           | Some (v, zs) \<Rightarrow> map_option (\<lambda>(s, r). (v # s, r)) (scan_string zs)))"
  by pat_completeness auto

termination scan_string
  by (relation "measure length") (auto dest: scan_char_shorter)

declare scan_string.simps [simp del]

text \<open>The number literal at the head of a text: its integer part, fraction and exponent\<close>

definition digits_head :: "utext \<Rightarrow> utext" where
  "digits_head xs = takeWhile is_digit xs"

definition lex_int :: "utext \<Rightarrow> utext" where
  "lex_int xs =
    (let sign = (if take 1 xs = [45] then [45] else []);
         ds = digits_head (drop (length sign) xs)
     in if ds = [] then [] else if hd ds = 48 then sign @ [48] else sign @ ds)"

definition lex_frac :: "utext \<Rightarrow> utext" where
  "lex_frac xs = (if take 1 xs = [46] \<and> digits_head (drop 1 xs) \<noteq> [] then 46 # digits_head (drop 1 xs) else [])"

definition lex_exp :: "utext \<Rightarrow> utext" where
  "lex_exp xs =
    (if take 1 xs = [101] \<or> take 1 xs = [69] then
       (let sign = (if take 1 (drop 1 xs) = [43] \<or> take 1 (drop 1 xs) = [45] then take 1 (drop 1 xs) else []);
            ds = digits_head (drop (1 + length sign) xs)
        in if ds = [] then [] else take 1 xs @ sign @ ds)
     else [])"

definition int_value :: "utext \<Rightarrow> int" where
  "int_value xs =
    (let v = (\<lambda>ds. foldl (\<lambda>a d. 10 * a + (d - 48)) 0 ds)
     in if take 1 xs = [45] then - v (drop 1 xs) else v xs)"

definition scan_number :: "(utext \<Rightarrow> utext) \<Rightarrow> utext \<Rightarrow> (jval \<times> utext) option" where
  "scan_number fl xs =
    (let i = lex_int xs; r = drop (length i) xs; f = lex_frac r; r = drop (length f) r; e = lex_exp r; r = drop (length e) r
     in if i = [] then None
        else if f = [] \<and> e = [] then Some (VInt (int_value i), r)
        else Some (VFloat (fl (i @ f @ e)), r))"

text \<open>The constants, then the numbers, in the order of \<open>scan_once\<close>\<close>

definition constants :: "(utext \<times> jval) list" where
  "constants = [(codes ''null'', VNull), (codes ''true'', VBool True), (codes ''false'', VBool False), (codes ''NaN'', VFloat (codes ''NaN'')),
    (codes ''Infinity'', VFloat (codes ''Infinity'')), (codes ''-Infinity'', VFloat (codes ''-Infinity''))]"

definition scan_atom :: "(utext \<Rightarrow> utext) \<Rightarrow> utext \<Rightarrow> (jval \<times> utext) option" where
  "scan_atom fl xs =
    (case find (\<lambda>(t, _). has_prefix t xs) constants of
       Some (t, v) \<Rightarrow> Some (v, drop (length t) xs)
     | None \<Rightarrow> scan_number fl xs)"

text \<open>\<open>scan_once\<close>: the elements of an array or an object are read with the scanner of the next
  nesting level. Every element and every level consumes a character, so the length of the text is
  fuel enough for both. Objects are Python dictionaries: a repeated key keeps its place and takes
  the last value.\<close>

type_synonym scanner = "utext \<Rightarrow> (jval \<times> utext) option"

primrec scan_items :: "scanner \<Rightarrow> nat \<Rightarrow> jval list \<Rightarrow> scanner" where
  "scan_items sv 0 acc xs = None"
| "scan_items sv (Suc n) acc xs =
    (case sv xs of
       None \<Rightarrow> None
     | Some (v, r) \<Rightarrow>
         (case skip_space r of
            [] \<Rightarrow> None
          | c # ys \<Rightarrow>
              if c = 93 then Some (VArr (acc @ [v]), ys)
              else if c = 44 then scan_items sv n (acc @ [v]) (skip_space ys)
              else None))"

definition scan_key :: "utext \<Rightarrow> (utext \<times> utext) option" where
  "scan_key xs =
    (if take 1 xs \<noteq> [34] then None
     else case scan_string (drop 1 xs) of
       None \<Rightarrow> None
     | Some (k, r) \<Rightarrow> (case skip_space r of c # ys \<Rightarrow> if c = 58 then Some (k, skip_space ys) else None | [] \<Rightarrow> None))"

primrec scan_members :: "scanner \<Rightarrow> nat \<Rightarrow> (utext \<times> jval) list \<Rightarrow> scanner" where
  "scan_members sv 0 acc xs = None"
| "scan_members sv (Suc n) acc xs =
    (case scan_key xs of
       None \<Rightarrow> None
     | Some (k, r) \<Rightarrow>
         (case sv r of
            None \<Rightarrow> None
          | Some (v, r') \<Rightarrow>
              (case skip_space r' of
                 [] \<Rightarrow> None
               | c # ys \<Rightarrow>
                   if c = 125 then Some (VObj (AList.update k v acc), ys)
                   else if c = 44 then scan_members sv n (AList.update k v acc) (skip_space ys)
                   else None)))"

primrec scan_value :: "(utext \<Rightarrow> utext) \<Rightarrow> nat \<Rightarrow> scanner" where
  "scan_value fl 0 xs = None"
| "scan_value fl (Suc n) xs =
    (if take 1 xs = [34] then map_option (\<lambda>(s, r). (VText s, r)) (scan_string (drop 1 xs))
     else if take 1 xs = [123] then
       (case skip_space (drop 1 xs) of
          [] \<Rightarrow> None
        | c # ys \<Rightarrow> if c = 125 then Some (VObj [], ys) else scan_members (scan_value fl n) (length xs) [] (c # ys))
     else if take 1 xs = [91] then
       (case skip_space (drop 1 xs) of
          [] \<Rightarrow> None
        | c # ys \<Rightarrow> if c = 93 then Some (VArr [], ys) else scan_items (scan_value fl n) (length xs) [] (c # ys))
     else scan_atom fl xs)"

definition raw_decode :: "(utext \<Rightarrow> utext) \<Rightarrow> scanner" where
  "raw_decode fl xs = scan_value fl (Suc (length xs)) xs"

definition loads :: "(utext \<Rightarrow> utext) \<Rightarrow> utext \<Rightarrow> jval option" where
  "loads fl xs =
    (case raw_decode fl (skip_space xs) of
       Some (v, r) \<Rightarrow> if skip_space r = [] then Some v else None
     | None \<Rightarrow> None)"

section \<open>Strings are read back\<close>

lemma hex_digit_value: "0 \<le> d \<Longrightarrow> d < 16 \<Longrightarrow> hex_value (hex_digit d) = Some d"
  by (auto simp: hex_value_def hex_digit_def is_digit_def)

lemma hex_value_zero: "hex_value 48 = Some 0"
  by (simp add: hex_value_def is_digit_def)

lemma scan_escaped: "scan_string (escape_char c @ xs) = map_option (\<lambda>(s, r). (c # s, r)) (scan_string xs)"
proof -
  have u: "scan_unicode (48 # 48 # hex_digit (c div 16) # hex_digit (c mod 16) # xs) = Some (c, xs)" if "0 \<le> c" "c < 32"
  proof -
    have "hex4 (48 # 48 # hex_digit (c div 16) # hex_digit (c mod 16) # xs) = Some (16 * (c div 16) + c mod 16)"
      using that by (simp add: hex4_def hex_value_zero hex_digit_value)
    then show ?thesis using that by (simp add: scan_unicode_def)
  qed
  show ?thesis
    by (subst scan_string.simps) (auto simp: escape_char_def scan_char_def simple_escape_def u split: option.splits)
qed

lemma scan_escape_text [simp]: "scan_string (escape_text s @ 34 # r) = Some (s, r)"
proof (induction s)
  case Nil
  then show ?case by (subst scan_string.simps) (simp add: escape_text_def)
next
  case (Cons c s)
  then show ?case by (simp add: escape_text_def scan_escaped)
qed

lemma scan_string_shorter: "scan_string xs = Some (s, r) \<Longrightarrow> length r < length xs"
proof (induction xs arbitrary: s r rule: scan_string.induct)
  case (1 xs)
  show ?case
  proof (cases xs)
    case Nil
    then show ?thesis using "1.prems" by (simp add: scan_string.simps)
  next
    case (Cons c ys)
    show ?thesis
    proof (cases "c = 34")
      case True
      then show ?thesis using Cons "1.prems" by (subst (asm) scan_string.simps) simp
    next
      case False
      then obtain v zs where c: "scan_char c ys = Some (v, zs)"
        using Cons "1.prems" by (subst (asm) scan_string.simps) (auto split: option.splits)
      then obtain s' where "scan_string zs = Some (s', r)"
        using Cons False "1.prems" by (subst (asm) scan_string.simps) auto
      then have "length r < length zs" using "1.IH" [OF Cons False c] c by simp
      then show ?thesis using scan_char_shorter [OF c] Cons by simp
    qed
  qed
qed

section \<open>Numbers are read back\<close>

text \<open>What follows a value in a document cannot continue a number.\<close>

definition number_end :: "utext \<Rightarrow> bool" where
  "number_end r \<longleftrightarrow> r = [] \<or> (\<not> is_digit (hd r) \<and> hd r \<notin> {43, 45, 46, 69, 101})"

lemma digits_head_end [simp]: "number_end r \<Longrightarrow> digits_head (xs @ r) = digits_head xs"
  unfolding digits_head_def by (induction xs) (cases r; auto simp: number_end_def)+


lemma digits_head_Nil [simp]: "digits_head [] = []"
  by (simp add: digits_head_def)

lemma digits_head_only [simp]: "number_end r \<Longrightarrow> digits_head r = []"
  using digits_head_end [of r "[]"] by (simp add: digits_head_def)

lemma number_end_take: "number_end r \<Longrightarrow> take 1 r \<noteq> [45] \<and> take 1 r \<noteq> [46] \<and> take 1 r \<noteq> [101] \<and> take 1 r \<noteq> [69] \<and> take 1 r \<noteq> [43]"
  by (cases r) (auto simp: number_end_def)

lemma digits_head_Cons_end [simp]: "number_end r \<Longrightarrow> digits_head (x # xs @ r) = digits_head (x # xs)"
  using digits_head_end [of r "x # xs"] by simp

lemma lex_end [simp]:
  assumes "number_end r"
  shows "lex_int (xs @ r) = lex_int xs" "lex_frac (xs @ r) = lex_frac xs" "lex_exp (xs @ r) = lex_exp xs"
proof -
  note e = assms number_end_take [OF assms]
  show "lex_int (xs @ r) = lex_int xs" using e by (cases xs) (auto simp: lex_int_def Let_def)
  show "lex_frac (xs @ r) = lex_frac xs" using e by (cases xs) (auto simp: lex_frac_def)
  show "lex_exp (xs @ r) = lex_exp xs"
  proof (cases xs)
    case Nil
    then show ?thesis using e by (simp add: lex_exp_def)
  next
    case (Cons x ys)
    then show ?thesis using e by (cases ys) (auto simp: lex_exp_def Let_def)
  qed
qed

lemma digits_head_le: "length (digits_head xs) \<le> length xs"
  by (simp add: digits_head_def length_takeWhile_le)

lemma lex_le: "length (lex_int xs) \<le> length xs" "length (lex_frac xs) \<le> length xs" "length (lex_exp xs) \<le> length xs"
proof -
  show "length (lex_int xs) \<le> length xs"
    using digits_head_le [of xs] digits_head_le [of "drop 1 xs"]
    by (cases xs; cases "drop 1 xs") (auto simp: lex_int_def Let_def digits_head_def)
  show "length (lex_frac xs) \<le> length xs"
    using digits_head_le [of "drop 1 xs"] by (cases xs) (auto simp: lex_frac_def)
  show "length (lex_exp xs) \<le> length xs"
  proof (cases xs)
    case (Cons x ys)
    then show ?thesis
      using digits_head_le [of ys] digits_head_le [of "drop 1 ys"] by (cases ys) (auto simp: lex_exp_def Let_def)
  qed (simp add: lex_exp_def)
qed

lemma scan_number_end:
  assumes "number_end r"
  shows "scan_number fl (xs @ r) = map_option (\<lambda>(v, y). (v, y @ r)) (scan_number fl xs)"
proof -
  let ?i = "lex_int xs" let ?x = "drop (length ?i) xs"
  let ?f = "lex_frac ?x" let ?y = "drop (length ?f) ?x"
  let ?e = "lex_exp ?y"
  have a: "drop (length ?i) (xs @ r) = ?x @ r" using lex_le(1) [of xs] by simp
  have b: "drop (length ?f) (?x @ r) = ?y @ r" using lex_le(2) [of ?x] by simp
  have c: "drop (length ?e) (?y @ r) = drop (length ?e) ?y @ r" using lex_le(3) [of ?y] by simp
  show ?thesis unfolding scan_number_def Let_def lex_end [OF assms] a b c
    by (simp only: if_distrib [of "map_option _"] option.map prod.case)
qed

lemma is_digit_nat: "n < 10 \<Longrightarrow> is_digit (48 + int n)"
  by (simp add: is_digit_def)

lemma nat_digits_digits: "list_all is_digit (nat_digits n) \<and> nat_digits n \<noteq> []"
proof (induction n rule: nat_digits.induct)
  case (1 n)
  then show ?case by (subst (1 2) nat_digits.simps) (simp add: is_digit_nat list.pred_inject)
qed

definition digits_value :: "int \<Rightarrow> utext \<Rightarrow> int" where
  "digits_value a ds = foldl (\<lambda>a d. 10 * a + (d - 48)) a ds"

lemma nat_digits_value: "digits_value 0 (nat_digits n) = int n"
proof (induction n rule: nat_digits.induct)
  case (1 n)
  then show ?case
    by (subst nat_digits.simps) (auto simp: digits_value_def zdiv_int zmod_int)
qed

lemma nat_digits_hd: "hd (nat_digits n) = 48 \<Longrightarrow> nat_digits n = [48]"
proof (induction n rule: nat_digits.induct)
  case (1 n)
  show ?case
  proof (cases "n < 10")
    case True
    then show ?thesis using 1 by (subst (asm) nat_digits.simps, subst nat_digits.simps) auto
  next
    case False
    have h: "hd (nat_digits (n div 10)) = 48"
      using 1(2) False nat_digits_digits by (subst (asm) nat_digits.simps) auto
    then have "nat_digits (n div 10) = [48]" using 1(1) False by blast
    then have "int (n div 10) = 0" using nat_digits_value [of "n div 10"] by (simp add: digits_value_def)
    then show ?thesis using False by auto
  qed
qed

lemma digits_head_all: "list_all is_digit ds \<Longrightarrow> digits_head ds = ds"
  by (simp add: digits_head_def list_all_iff)

lemma nat_digits_first: "is_digit (hd (nat_digits n))"
  using nat_digits_digits [of n] by (cases "nat_digits n") auto

lemma scan_int_digits: "scan_number fl (int_digits i) = Some (VInt i, [])"
proof -
  have lex: "lex_int (nat_digits n) = nat_digits n" "lex_int (45 # nat_digits n) = 45 # nat_digits n" for n
    using nat_digits_digits [of n] nat_digits_hd [of n] nat_digits_first [of n]
    by (cases "nat_digits n"; auto simp: lex_int_def digits_head_all Let_def is_digit_def)+
  have val: "int_value (nat_digits n) = int n" "int_value (45 # nat_digits n) = - int n" for n
    using nat_digits_value [of n] nat_digits_first [of n]
    by (cases "nat_digits n"; auto simp: int_value_def digits_value_def is_digit_def)+
  have e: "lex_frac [] = []" "lex_exp [] = []" by (simp_all add: lex_frac_def lex_exp_def)
  show ?thesis using lex val e nat_digits_digits by (auto simp: scan_number_def int_digits_def)
qed

lemma int_digits_first: "int_digits i \<noteq> [] \<and> (is_digit (hd (int_digits i)) \<or> (hd (int_digits i) = 45 \<and> (\<exists>d ds. tl (int_digits i) = d # ds \<and> is_digit d)))"
  using nat_digits_first nat_digits_digits by (auto simp: int_digits_def neq_Nil_conv) (metis list.sel(1))+
section \<open>Documents are read back\<close>

text \<open>A value \<open>json.loads\<close> can have produced: floats in printed form, and dictionaries without repeated keys.\<close>

fun jval_ok :: "(utext \<Rightarrow> utext) \<Rightarrow> jval \<Rightarrow> bool" where
  "jval_ok fl (VFloat t) = (scan_atom fl t = Some (VFloat t, []))"
| "jval_ok fl (VArr vs) = list_all (jval_ok fl) vs"
| "jval_ok fl (VObj kvs) = (distinct (map fst kvs) \<and> list_all (\<lambda>(k, v). jval_ok fl v) kvs)"
| "jval_ok fl v = True"

fun jdepth :: "jval \<Rightarrow> nat" where
  "jdepth (VArr vs) = Suc (foldr (\<lambda>v m. max (jdepth v) m) vs 0)"
| "jdepth (VObj kvs) = Suc (foldr (\<lambda>(k, v) m. max (jdepth v) m) kvs 0)"
| "jdepth v = 0"

lemma depth_items: "v \<in> set vs \<Longrightarrow> jdepth v \<le> foldr (\<lambda>v m. max (jdepth v) m) vs 0"
  by (induction vs) auto

lemma depth_members: "(k, v) \<in> set kvs \<Longrightarrow> jdepth v \<le> foldr (\<lambda>(k, v) m. max (jdepth v) m) kvs 0"
  by (induction kvs) auto

lemma skip_space_id: "xs \<noteq> [] \<Longrightarrow> \<not> json_space (hd xs) \<Longrightarrow> skip_space xs = xs"
  by (cases xs) (auto simp: skip_space_def)

lemma skip_space_simps [simp]:
  "skip_space [] = []"
  "skip_space (c # xs) = (if json_space c then skip_space xs else c # xs)"
  by (simp_all add: skip_space_def)

lemma skip_space_append [simp]: "list_all json_space a \<Longrightarrow> skip_space (a @ xs) = skip_space xs"
  by (simp add: skip_space_def list_all_iff)

lemma lex_int_first:
  assumes "lex_int xs \<noteq> []"
  shows "xs \<noteq> [] \<and> (is_digit (hd xs) \<or> (hd xs = 45 \<and> tl xs \<noteq> [] \<and> is_digit (hd (tl xs))))"
proof (cases xs)
  case Nil
  then show ?thesis using assms by (simp add: lex_int_def)
next
  case (Cons x ys)
  then show ?thesis
    using assms by (cases ys) (auto simp: lex_int_def digits_head_def Let_def split: if_splits)
qed

lemma constants_codes:
  "constants = [([110, 117, 108, 108], VNull), ([116, 114, 117, 101], VBool True), ([102, 97, 108, 115, 101], VBool False),
    ([78, 97, 78], VFloat (codes ''NaN'')), ([73, 110, 102, 105, 110, 105, 116, 121], VFloat (codes ''Infinity'')),
    ([45, 73, 110, 102, 105, 110, 105, 116, 121], VFloat (codes ''-Infinity''))]"
  by (simp add: constants_def codes_def)

lemma find_in: "find P xs = Some y \<Longrightarrow> y \<in> set xs \<and> P y"
  by (induction xs) (auto split: if_splits)

lemma has_prefix_Cons [simp]: "has_prefix [] xs" "has_prefix (a # p) (x # xs) \<longleftrightarrow> x = a \<and> has_prefix p xs" "\<not> has_prefix (a # p) []"
  by (auto simp: has_prefix_def)

lemma no_constant:
  assumes "xs \<noteq> []" "is_digit (hd xs) \<or> (hd xs = 45 \<and> tl xs \<noteq> [] \<and> is_digit (hd (tl xs)))"
  shows "find (\<lambda>(t, _). has_prefix t (xs @ r)) constants = None"
proof -
  obtain x ys where x: "xs = x # ys" using assms(1) by (cases xs) auto
  consider "is_digit x" | y zs where "x = 45" "ys = y # zs" "is_digit y"
    using assms(2) x by (cases ys) auto
  then show ?thesis
  proof cases
    case 1
    then have "x \<notin> {110, 116, 102, 78, 73, 45}" by (auto simp: is_digit_def)
    then show ?thesis by (simp add: constants_codes x)
  next
    case 2
    then have "y \<noteq> 73" by (auto simp: is_digit_def)
    then show ?thesis by (simp add: constants_codes x 2)
  qed
qed

lemma scan_number_lex: "scan_number fl xs = Some p \<Longrightarrow> lex_int xs \<noteq> []"
  by (auto simp: scan_number_def Let_def split: if_splits)

lemma scan_atom_number:
  assumes "scan_number fl xs = Some (v, [])" "number_end r"
  shows "scan_atom fl (xs @ r) = Some (v, r)"
  using no_constant lex_int_first [OF scan_number_lex [OF assms(1)]] scan_number_end [OF assms(2), of fl xs] assms(1)
  by (simp add: scan_atom_def)

lemma find_constant:
  assumes "find (\<lambda>(t, _). has_prefix t xs) constants = Some (t, v)"
  shows "find (\<lambda>(t, _). has_prefix t (xs @ r)) constants = Some (t, v)"
proof -
  have p: "(t, v) \<in> set constants" "has_prefix t xs"
    using find_in [OF assms] by simp_all
  then obtain ys where xs: "xs = t @ ys" by (auto simp: has_prefix_prefix prefix_def)
  have "find (\<lambda>(t, _). has_prefix t (u @ zs)) constants = Some (u, w)" if "(u, w) \<in> set constants" for u w zs
  proof -
    have "list_all (\<lambda>(u, w). find (\<lambda>(t, _). has_prefix t (u @ zs)) constants = Some (u, w)) constants"
      by (simp add: constants_codes)
    with that show ?thesis by (auto simp: list_all_iff)
  qed
  from this [OF p(1), of "ys @ r"] show ?thesis by (simp add: xs)
qed

lemma scan_atom_end:
  assumes "scan_atom fl xs = Some (v, [])" "number_end r"
  shows "scan_atom fl (xs @ r) = Some (v, r)"
proof (cases "find (\<lambda>(t, _). has_prefix t xs) constants")
  case None
  then show ?thesis using scan_atom_number assms by (simp add: scan_atom_def)
next
  case (Some tv)
  obtain t w where tv: "tv = (t, w)" by fastforce
  have p: "has_prefix t xs" using Some by (auto simp: tv find_Some_iff)
  moreover have "w = v" "length xs \<le> length t" using assms(1) Some tv by (simp_all add: scan_atom_def)
  ultimately have "t = xs" by (metis has_prefix_def take_all)
  then show ?thesis using find_constant [OF Some [unfolded tv]] \<open>w = v\<close> by (simp add: scan_atom_def)
qed

text \<open>What a value's text begins with: no blank, so nothing of it is skipped.\<close>

definition value_start :: "utext \<Rightarrow> bool" where
  "value_start xs \<longleftrightarrow> xs \<noteq> [] \<and> \<not> json_space (hd xs) \<and> hd xs \<notin> {93, 125}"

lemma value_start_append: "value_start xs \<Longrightarrow> value_start (xs @ r)"
  by (auto simp: value_start_def)

lemma value_start_skip: "value_start xs \<Longrightarrow> skip_space (xs @ r) = xs @ r"
  by (cases xs) (auto simp: value_start_def)

lemma atom_start: "scan_atom fl xs = Some p \<Longrightarrow> value_start xs \<and> hd xs \<notin> {34, 123, 91}"
proof (cases "find (\<lambda>(t, _). has_prefix t xs) constants")
  case None
  moreover assume "scan_atom fl xs = Some p"
  ultimately have "scan_number fl xs = Some p" by (simp add: scan_atom_def)
  from lex_int_first [OF scan_number_lex [OF this]] show ?thesis
    by (auto simp: value_start_def json_space_def is_digit_def)
next
  case (Some tv)
  from find_in [OF this] have "tv \<in> set constants" "has_prefix (fst tv) xs" by auto
  then show ?thesis by (cases xs) (auto simp: constants_codes value_start_def json_space_def)
qed

lemma constant_atoms:
  "scan_atom fl (codes ''null'') = Some (VNull, [])"
  "scan_atom fl (codes ''true'') = Some (VBool True, [])"
  "scan_atom fl (codes ''false'') = Some (VBool False, [])"
  by (simp_all add: scan_atom_def constants_codes codes_def)

lemma int_atom: "scan_atom fl (int_digits i) = Some (VInt i, [])"
  using scan_atom_number [OF scan_int_digits, of "[]"] by (simp add: number_end_def)

lemma dumps_start:
  assumes "jval_ok fl v"
  shows "value_start (dumps v)"
proof -
  have "value_start t" if "scan_atom fl t = Some p" for t p using atom_start [OF that] by simp
  note a = this [OF constant_atoms(1)] this [OF constant_atoms(2)] this [OF constant_atoms(3)] this [OF int_atom] this
  show ?thesis
  proof (cases v)
    case (VFloat t)
    then show ?thesis using assms a(5) by simp
  qed (use a in \<open>simp_all add: value_start_def dumps_text_def json_space_def\<close>)
qed

text \<open>How a scanner reads the text \<open>t\<close> of a value.\<close>

definition reads :: "scanner \<Rightarrow> utext \<Rightarrow> jval \<Rightarrow> bool" where
  "reads sv t v \<longleftrightarrow> value_start t \<and> (\<forall>r. number_end r \<longrightarrow> sv (t @ r) = Some (v, r))"

lemma number_end_simps [simp]: "number_end (93 # r)" "number_end (125 # r)" "number_end (44 # r)" "number_end []"
  by (simp_all add: number_end_def is_digit_def)

lemma join_Cons [simp]: "join sep [x] = x" "join sep (x # y # ys) = x @ sep @ join sep (y # ys)" "join sep [] = []"
  by (simp_all add: join_def)

lemma scan_items_join:
  assumes "list_all2 (reads sv) ts vs" "ts \<noteq> []" "length ts \<le> m" "list_all json_space a"
  shows "scan_items sv m acc (join (44 # a) ts @ 93 # r) = Some (VArr (acc @ vs), r)"
  using assms(1-3)
proof (induction ts arbitrary: vs m acc)
  case (Cons t ts)
  obtain v vs' where v: "vs = v # vs'" "reads sv t v" "list_all2 (reads sv) ts vs'" using Cons.prems(1) by (cases vs) auto
  obtain k where m: "m = Suc k" using Cons.prems(3) by (cases m) auto
  show ?case
  proof (cases ts)
    case Nil
    then show ?thesis using v m by (simp add: reads_def json_space_def)
  next
    case (Cons t' ts')
    then obtain v' where "reads sv t' v'" using v(3) by (cases vs') auto
    then have s: "value_start (join (44 # a) ts)" using Cons by (cases ts') (auto simp: reads_def value_start_append)
    have "scan_items sv k (acc @ [v]) (join (44 # a) ts @ 93 # r) = Some (VArr ((acc @ [v]) @ vs'), r)"
      using Cons.IH [OF v(3), of k] Cons Cons.prems m by simp
    then show ?thesis using v m s assms(4) Cons by (simp add: reads_def json_space_def value_start_skip)
  qed
qed simp

text \<open>A member, with blanks behind the colon\<close>

definition member_text :: "utext \<Rightarrow> utext \<Rightarrow> utext \<Rightarrow> utext" where
  "member_text b k t = dumps_text k @ 58 # b @ t"

lemma scan_key_member:
  assumes "value_start t" "list_all json_space b"
  shows "scan_key (member_text b k t @ r) = Some (k, t @ r)"
  using assms by (simp add: scan_key_def member_text_def dumps_text_def json_space_def value_start_skip)

lemma scan_members_join:
  assumes "list_all2 (\<lambda>(k, t) (k', v). k' = k \<and> reads sv t v) kts kvs" "kts \<noteq> []" "length kts \<le> m"
    "list_all json_space a" "list_all json_space b"
  shows "scan_members sv m acc (join (44 # a) (map (\<lambda>(k, t). member_text b k t) kts) @ 125 # r)
    = Some (VObj (foldl (\<lambda>d (k, v). AList.update k v d) acc kvs), r)"
  using assms(1-3)
proof (induction kts arbitrary: kvs m acc)
  case (Cons kt kts)
  obtain k t where kt: "kt = (k, t)" by fastforce
  obtain v kvs' where v: "kvs = (k, v) # kvs'" "reads sv t v" "list_all2 (\<lambda>(k, t) (k', v). k' = k \<and> reads sv t v) kts kvs'"
    using Cons.prems(1) kt by (cases kvs) auto
  obtain n where m: "m = Suc n" using Cons.prems(3) by (cases m) auto
  have key: "scan_key (member_text b k t @ r') = Some (k, t @ r')" for r'
    using scan_key_member v(2) assms(5) by (simp add: reads_def)
  show ?case
  proof (cases kts)
    case Nil
    then show ?thesis using v m kt key by (simp add: reads_def json_space_def)
  next
    case (Cons kt' kts')
    let ?rest = "join (44 # a) (map (\<lambda>(k, t). member_text b k t) kts)"
    have s: "value_start ?rest" using Cons
      by (cases kts') (auto simp: value_start_def member_text_def dumps_text_def json_space_def split: prod.splits)
    have "scan_members sv n (AList.update k v acc) (?rest @ 125 # r)
      = Some (VObj (foldl (\<lambda>d (k, v). AList.update k v d) (AList.update k v acc) kvs'), r)"
      using Cons.IH [OF v(3), of n] Cons Cons.prems m by simp
    then show ?thesis using v m s kt key assms(4) Cons by (simp add: reads_def json_space_def value_start_skip)
  qed
qed simp

lemma update_new: "k \<notin> fst ` set acc \<Longrightarrow> AList.update k v acc = acc @ [(k, v)]"
  by (induction acc) auto

lemma foldl_update_new:
  "distinct (map fst (acc @ kvs)) \<Longrightarrow> foldl (\<lambda>d (k, v). AList.update k v d) acc kvs = acc @ kvs"
  by (induction kvs arbitrary: acc) (auto simp: update_new)

lemma join_length: "list_all (\<lambda>t. t \<noteq> []) ts \<Longrightarrow> length ts \<le> length (join sep ts)"
proof (induction ts)
  case (Cons t ts)
  then show ?case by (cases ts; cases t) auto
qed simp

lemma dumps_joins:
  "dumps (VArr vs) = 91 # join (44 # [32]) (map dumps vs) @ [93]"
  "dumps (VObj kvs) = 123 # join (44 # [32]) (map (\<lambda>(k, t). member_text [32] k t) (map (\<lambda>(k, v). (k, dumps v)) kvs)) @ [125]"
  by (simp_all add: codes_def member_text_def split_def comp_def)

lemma join_first: "value_start t \<Longrightarrow> value_start (join sep (t # ts) @ r)"
  by (cases ts) (simp_all add: value_start_append)

lemma member_start: "value_start (member_text b k t)"
  by (simp add: value_start_def member_text_def dumps_text_def json_space_def)

lemma value_start_cons: "value_start xs \<Longrightarrow> \<exists>c ys. xs = c # ys \<and> \<not> json_space c \<and> c \<noteq> 93 \<and> c \<noteq> 125"
  by (cases xs) (auto simp: value_start_def)

lemma reads_array:
  assumes "list_all2 (reads (scan_value fl n)) ts vs" "list_all json_space a"
  shows "reads (scan_value fl (Suc n)) (91 # join (44 # a) ts @ [93]) (VArr vs)"
proof -
  let ?t = "join (44 # a) ts"
  have "scan_value fl (Suc n) (91 # ?t @ 93 # r) = Some (VArr vs, r)" for r
  proof (cases ts)
    case Nil
    then show ?thesis using assms by (simp add: json_space_def)
  next
    case (Cons t ts')
    then have "value_start t" using assms(1) by (cases vs) (auto simp: reads_def)
    then obtain c ys where c: "?t @ 93 # r = c # ys" "\<not> json_space c" "c \<noteq> 93"
      using value_start_cons [OF join_first] Cons by metis
    have "list_all (\<lambda>t. t \<noteq> []) ts"
      using assms(1) by (auto simp: list_all2_conv_all_nth list_all_length reads_def value_start_def)
    from join_length [OF this, of "44 # a"]
    have "scan_items (scan_value fl n) (length (91 # ?t @ 93 # r)) [] (?t @ 93 # r) = Some (VArr ([] @ vs), r)"
      using assms Cons by (intro scan_items_join) simp_all
    then show ?thesis using c by simp
  qed
  then show ?thesis by (simp add: reads_def value_start_def json_space_def)
qed

lemma reads_object:
  assumes "list_all2 (\<lambda>(k, t) (k', v). k' = k \<and> reads (scan_value fl n) t v) kts kvs" "list_all json_space a" "list_all json_space b"
  shows "reads (scan_value fl (Suc n)) (123 # join (44 # a) (map (\<lambda>(k, t). member_text b k t) kts) @ [125])
    (VObj (foldl (\<lambda>d (k, v). AList.update k v d) [] kvs))"
proof -
  let ?ts = "map (\<lambda>(k, t). member_text b k t) kts" let ?t = "join (44 # a) ?ts"
  let ?v = "VObj (foldl (\<lambda>d (k, v). AList.update k v d) [] kvs)"
  have "scan_value fl (Suc n) (123 # ?t @ 125 # r) = Some (?v, r)" for r
  proof (cases kts)
    case Nil
    then show ?thesis using assms by (simp add: json_space_def)
  next
    case (Cons kt kts')
    then obtain c ys where c: "?t @ 125 # r = c # ys" "\<not> json_space c" "c \<noteq> 125"
      using value_start_cons [OF join_first [OF member_start]] by (cases kt) fastforce
    have "list_all (\<lambda>t. t \<noteq> []) ?ts" by (auto simp: list_all_iff member_text_def dumps_text_def)
    from join_length [OF this, of "44 # a"]
    have "scan_members (scan_value fl n) (length (123 # ?t @ 125 # r)) [] (?t @ 125 # r) = Some (?v, r)"
      using assms Cons by (intro scan_members_join) simp_all
    then show ?thesis using c by simp
  qed
  then show ?thesis by (simp add: reads_def value_start_def json_space_def)
qed

lemma reads_atom: "scan_atom fl t = Some (v, []) \<Longrightarrow> 0 < n \<Longrightarrow> reads (scan_value fl n) t v"
  using atom_start [of fl t] scan_atom_end [of fl t] by (cases n; cases t) (auto simp: reads_def value_start_def)

theorem dumps_read: "jval_ok fl v \<Longrightarrow> jdepth v < n \<Longrightarrow> reads (scan_value fl n) (dumps v) v"
proof (induction v arbitrary: n)
  case (VArr vs)
  obtain m where n: "n = Suc m" using VArr.prems(2) by (cases n) auto
  have "reads (scan_value fl m) (dumps v) v" if "v \<in> set vs" for v
    using VArr.IH [OF that, of m] VArr.prems that depth_items [OF that] n by (auto simp: list_all_iff)
  then have "list_all2 (reads (scan_value fl m)) (map dumps vs) vs" by (simp add: list_all2_conv_all_nth)
  then show ?case unfolding n dumps_joins by (rule reads_array) (simp add: json_space_def)
next
  case (VObj kvs)
  obtain m where n: "n = Suc m" using VObj.prems(2) by (cases n) auto
  have r: "reads (scan_value fl m) (dumps v) v" if "(k, v) \<in> set kvs" for k v
    using VObj.IH [OF that, of v m] VObj.prems that depth_members [OF that] n by (auto simp: list_all_iff)
  have l: "list_all2 (\<lambda>(k, t) (k', v). k' = k \<and> reads (scan_value fl m) t v) (map (\<lambda>(k, v). (k, dumps v)) kvs) kvs"
    unfolding list_all2_conv_all_nth using r by (auto split: prod.splits) (metis nth_mem)
  have s: "list_all json_space [32]" by (simp add: json_space_def)
  have "foldl (\<lambda>d (k, v). AList.update k v d) [] kvs = kvs" using foldl_update_new [of "[]" kvs] VObj.prems(1) by simp
  then show ?case using reads_object [OF l s s] by (simp only: n dumps_joins)
next
  case (VText s)
  then show ?case by (cases n) (auto simp: reads_def value_start_def dumps_text_def json_space_def)
qed (use constant_atoms int_atom in \<open>auto intro!: reads_atom\<close>)

lemma join_part: "t \<in> set ts \<Longrightarrow> length t \<le> length (join sep ts)"
proof (induction ts)
  case (Cons t' ts)
  then show ?case by (cases ts) auto
qed simp

lemma foldr_max_le: "(\<And>x. x \<in> set xs \<Longrightarrow> f x \<le> b) \<Longrightarrow> foldr (\<lambda>x m. max (f x) m) xs (0::nat) \<le> b"
  by (induction xs) auto

lemma depth_length: "jdepth v \<le> length (dumps v)"
proof (induction v)
  case (VArr vs)
  have "jdepth v \<le> length (join (44 # [32]) (map dumps vs))" if "v \<in> set vs" for v
    using VArr.IH [OF that] join_part [of "dumps v" "map dumps vs" "44 # [32]"] that by simp
  then show ?case unfolding dumps_joins by (simp add: foldr_max_le le_SucI)
next
  case (VObj kvs)
  let ?ts = "map (\<lambda>(k, t). member_text [32] k t) (map (\<lambda>(k, v). (k, dumps v)) kvs)"
  have "(\<lambda>(k, v). jdepth v) kv \<le> length (join (44 # [32]) ?ts)" if "kv \<in> set kvs" for kv
  proof -
    obtain k v where kv: "kv = (k, v)" by fastforce
    have "member_text [32] k (dumps v) \<in> set ?ts" using that kv by force
    from join_part [OF this] have "length (member_text [32] k (dumps v)) \<le> length (join (44 # [32]) ?ts)" .
    moreover have "length (dumps v) \<le> length (member_text [32] k (dumps v))" by (simp add: member_text_def)
    ultimately have "length (dumps v) \<le> length (join (44 # [32]) ?ts)" by (rule order_trans [rotated])
    then show ?thesis using VObj.IH [OF that, of v] kv by simp
  qed
  then have "foldr (\<lambda>x m. max ((\<lambda>(k, v). jdepth v) x) m) kvs 0 \<le> length (join (44 # [32]) ?ts)" by (rule foldr_max_le)
  then show ?case unfolding dumps_joins by (simp add: split_def)
qed simp_all

theorem loads_dumps:
  assumes "jval_ok fl v"
  shows "loads fl (dumps v) = Some v"
proof -
  have "reads (scan_value fl (Suc (length (dumps v)))) (dumps v) v"
    using dumps_read [OF assms] depth_length by (simp add: less_Suc_eq_le)
  then have "raw_decode fl (dumps v) = Some (v, [])"
    unfolding reads_def raw_decode_def by (metis append_Nil2 number_end_simps(4))
  moreover have "skip_space (dumps v) = dumps v" using value_start_skip [OF dumps_start [OF assms], of "[]"] by simp
  ultimately show ?thesis by (simp add: loads_def)
qed

section \<open>The fuel is enough\<close>

lemma skip_space_le: "length (skip_space xs) \<le> length xs"
  by (simp add: skip_space_def length_dropWhile_le)

lemma skip_space_Cons: "skip_space xs = c # ys \<Longrightarrow> length ys < length xs"
  using skip_space_le [of xs] by simp

definition consumes :: "scanner \<Rightarrow> bool" where
  "consumes sv \<longleftrightarrow> (\<forall>xs v r. sv xs = Some (v, r) \<longrightarrow> length r < length xs)"

lemma consumesD: "consumes sv \<Longrightarrow> sv xs = Some (v, r) \<Longrightarrow> length r < length xs"
  by (simp add: consumes_def)

lemma scan_key_consumes: "scan_key xs = Some (k, r) \<Longrightarrow> length r < length xs"
proof -
  assume "scan_key xs = Some (k, r)"
  then obtain y c ys where y: "scan_string (drop 1 xs) = Some (k, y)" "skip_space y = c # ys" "r = skip_space ys"
    by (auto simp: scan_key_def split: if_splits option.splits list.splits prod.splits)
  show ?thesis using scan_string_shorter [OF y(1)] skip_space_Cons [OF y(2)] skip_space_le [of ys] y(3) by simp
qed

lemma scan_items_consumes: "consumes sv \<Longrightarrow> consumes (scan_items sv m acc)"
proof (induction m arbitrary: acc)
  case (Suc m)
  have "length r' < length xs" if h: "scan_items sv (Suc m) acc xs = Some (w, r')" for xs w r'
  proof -
    obtain v r c ys where s: "sv xs = Some (v, r)" "skip_space r = c # ys"
      "c = 93 \<and> r' = ys \<or> scan_items sv m (acc @ [v]) (skip_space ys) = Some (w, r')"
      using h by (auto split: option.splits list.splits if_splits)
    show ?thesis
      using consumesD [OF Suc.prems s(1)] skip_space_Cons [OF s(2)] skip_space_le [of ys] s(3)
        consumesD [OF Suc.IH [OF Suc.prems], of "acc @ [v]" "skip_space ys" w r'] by auto
  qed
  then show ?case unfolding consumes_def by blast
qed (simp add: consumes_def)

lemma scan_members_consumes: "consumes sv \<Longrightarrow> consumes (scan_members sv m acc)"
proof (induction m arbitrary: acc)
  case (Suc m)
  have "length r' < length xs" if h: "scan_members sv (Suc m) acc xs = Some (w, r')" for xs w r'
  proof -
    obtain k q v r c ys where s: "scan_key xs = Some (k, q)" "sv q = Some (v, r)" "skip_space r = c # ys"
      "c = 125 \<and> r' = ys \<or> scan_members sv m (AList.update k v acc) (skip_space ys) = Some (w, r')"
      using h by (auto split: option.splits list.splits if_splits)
    show ?thesis
      using scan_key_consumes [OF s(1)] consumesD [OF Suc.prems s(2)] skip_space_Cons [OF s(3)] skip_space_le [of ys] s(4)
        consumesD [OF Suc.IH [OF Suc.prems], of "AList.update k v acc" "skip_space ys" w r'] by auto
  qed
  then show ?case unfolding consumes_def by blast
qed (simp add: consumes_def)

lemma scan_atom_consumes: "consumes (scan_atom fl)"
proof -
  have "length r < length xs" if h: "scan_atom fl xs = Some (v, r)" for xs v r
  proof -
    have x: "xs \<noteq> []" using atom_start [OF h] by (simp add: value_start_def)
    show ?thesis
    proof (cases "find (\<lambda>(t, _). has_prefix t xs) constants")
      case None
      then have n: "scan_number fl xs = Some (v, r)" using h by (simp add: scan_atom_def)
      from scan_number_lex [OF n] have "0 < length (lex_int xs)" by simp
      then show ?thesis using n x unfolding scan_number_def Let_def by (auto split: if_splits)
    next
      case (Some tv)
      then have "tv \<in> set constants" using find_in by metis
      then have "fst tv \<noteq> []" by (auto simp: constants_codes)
      then have "0 < length (fst tv)" by simp
      then show ?thesis using h Some x by (cases tv) (auto simp: scan_atom_def)
    qed
  qed
  then show ?thesis unfolding consumes_def by blast
qed

lemma scan_value_consumes: "consumes (scan_value fl n)"
proof (induction n)
  case (Suc n)
  note i = consumesD [OF scan_items_consumes [OF Suc]] consumesD [OF scan_members_consumes [OF Suc]]
  have "length r < length xs" if h: "scan_value fl (Suc n) xs = Some (v, r)" for xs v r
  proof (cases "skip_space (drop 1 xs)")
    case Nil
    then show ?thesis using h consumesD [OF scan_atom_consumes] scan_string_shorter [of "drop 1 xs"]
      by (auto split: if_splits)
  next
    case (Cons c ys)
    have "length (c # ys) \<le> length xs - 1" using skip_space_le [of "drop 1 xs"] Cons by simp
    then show ?thesis using h Cons consumesD [OF scan_atom_consumes] scan_string_shorter [of "drop 1 xs"] i
      by (fastforce split: if_splits)
  qed
  then show ?case unfolding consumes_def by blast
qed (simp add: consumes_def)

lemma scan_items_agree:
  assumes "\<And>ys. length ys \<le> k \<Longrightarrow> sv ys = sv' ys" "consumes sv"
  shows "length xs \<le> k \<Longrightarrow> length xs < m \<Longrightarrow> length xs < m' \<Longrightarrow> scan_items sv m acc xs = scan_items sv' m' acc xs"
proof (induction m arbitrary: m' acc xs)
  case (Suc m)
  obtain l where l: "m' = Suc l" using Suc.prems(3) by (cases m') auto
  have "scan_items sv m a (skip_space ys) = scan_items sv' l a (skip_space ys)"
    if "sv xs = Some (v, r)" "skip_space r = c # ys" for v r c ys a
    using consumesD [OF assms(2) that(1)] skip_space_Cons [OF that(2)] skip_space_le [of ys] Suc.prems l
    by (intro Suc.IH) simp_all
  then show ?case using assms(1) [OF Suc.prems(1)] l by (auto split: option.split list.split)
qed simp

lemma scan_members_agree:
  assumes "\<And>ys. length ys \<le> k \<Longrightarrow> sv ys = sv' ys" "consumes sv"
  shows "length xs \<le> k \<Longrightarrow> length xs < m \<Longrightarrow> length xs < m' \<Longrightarrow> scan_members sv m acc xs = scan_members sv' m' acc xs"
proof (induction m arbitrary: m' acc xs)
  case (Suc m)
  obtain l where l: "m' = Suc l" using Suc.prems(3) by (cases m') auto
  have q: "sv q = sv' q" if "scan_key xs = Some (x, q)" for x q
    using scan_key_consumes [OF that] Suc.prems by (intro assms(1)) simp
  have "scan_members sv m a (skip_space ys) = scan_members sv' l a (skip_space ys)"
    if "scan_key xs = Some (x, q)" "sv q = Some (v, r)" "skip_space r = c # ys" for x q v r c ys a
    using scan_key_consumes [OF that(1)] consumesD [OF assms(2) that(2)] skip_space_Cons [OF that(3)] skip_space_le [of ys] Suc.prems l
    by (intro Suc.IH) simp_all
  then show ?case using q l by (auto split: option.split list.split)
qed simp

theorem scan_value_fuel: "length xs < n \<Longrightarrow> length xs < n' \<Longrightarrow> scan_value fl n xs = scan_value fl n' xs"
proof (induction n arbitrary: n' xs)
  case (Suc n)
  obtain m where m: "n' = Suc m" using Suc.prems by (cases n') auto
  have a: "scan_value fl n ys = scan_value fl m ys" if "length ys \<le> length xs - 1" "xs \<noteq> []" for ys
    using that Suc.prems m by (intro Suc.IH) (cases xs; simp)+
  show ?case
  proof (cases "xs = [] \<or> skip_space (drop 1 xs) = []")
    case True
    then show ?thesis using m by auto
  next
    case False
    then obtain c ys where c: "skip_space (drop 1 xs) = c # ys" by (auto simp: neq_Nil_conv)
    have l: "length (c # ys) \<le> length xs - 1" using skip_space_le [of "drop 1 xs"] c by simp
    have x: "0 < length xs" using False by simp
    have "scan_items (scan_value fl n) (length xs) [] (c # ys) = scan_items (scan_value fl m) (length xs) [] (c # ys)"
      "scan_members (scan_value fl n) (length xs) [] (c # ys) = scan_members (scan_value fl m) (length xs) [] (c # ys)"
      using l x False a
      by (intro scan_items_agree [where k = "length xs - 1"] scan_members_agree [where k = "length xs - 1"] scan_value_consumes; simp)+
    then show ?thesis using m c by simp
  qed
qed simp

end
