(* ===== verification/ToolCalls.thy ===== *)
theory ToolCalls
  imports PyJson
begin

text \<open>
  What the tool call parsers of \<open>server/function_call_parser.py\<close> share: the items they emit, the
  table of tool names, the interface of a detector, and \<open>FunctionCallParser\<close>, which drives a detector
  over the chunks of a stream or over a whole text. A detector is a record of its operations on a
  state; only streaming steps and one-shot parses can raise.
\<close>

section \<open>Items and tools\<close>

record tool_function =
  tf_name :: utext
  tf_parameters :: "jval option"

record call_item =
  ci_index :: int
  ci_name :: "utext option"
  ci_parameters :: utext

record parse_out =
  po_text :: utext
  po_calls :: "call_item list"

abbreviation streaming_result :: "utext \<Rightarrow> call_item list \<Rightarrow> parse_out" where
  "streaming_result t cs \<equiv> \<lparr>po_text = t, po_calls = cs\<rparr>"

abbreviation call_start :: "int \<Rightarrow> utext \<Rightarrow> call_item" where
  "call_start i name \<equiv> \<lparr>ci_index = i, ci_name = Some name, ci_parameters = []\<rparr>"

abbreviation call_part :: "int \<Rightarrow> utext \<Rightarrow> call_item" where
  "call_part i piece \<equiv> \<lparr>ci_index = i, ci_name = None, ci_parameters = piece\<rparr>"

text \<open>\<open>_get_tool_indices\<close>: a later tool of the same name wins, nameless ones are left out.\<close>

definition tool_indices :: "tool_function list \<Rightarrow> utext \<Rightarrow> int option" where
  "tool_indices tools name = map_of (rev (filter (\<lambda>(k, _). k \<noteq> []) (zip (map tf_name tools) (map int [0..<length tools])))) name"

text \<open>\<open>_should_forward_unknown_tool\<close>, by the server's setting\<close>

definition forward_unknown :: "bool \<Rightarrow> utext \<Rightarrow> bool" where
  "forward_unknown fwd name \<longleftrightarrow> fwd \<or> 58 \<in> set name"

definition accepted_tool :: "tool_function list \<Rightarrow> bool \<Rightarrow> utext \<Rightarrow> bool" where
  "accepted_tool tools fwd name \<longleftrightarrow> tool_indices tools name \<noteq> None \<or> forward_unknown fwd name"

definition first_existing_pos :: "utext \<Rightarrow> utext list \<Rightarrow> nat option" where
  "first_existing_pos text toks =
    (case List.map_filter (\<lambda>tok. find_sub tok text) toks of [] \<Rightarrow> None | p # ps \<Rightarrow> Some (foldl min p ps))"

text \<open>\<open>_parse_first_json_value\<close>: what is decoded is decoded at the first bracket.\<close>

definition first_json_value :: "(utext \<Rightarrow> utext) \<Rightarrow> utext \<Rightarrow> jval option" where
  "first_json_value fl text =
    (let s = dropWhile (\<lambda>c. c \<noteq> 91 \<and> c \<noteq> 123) (strip text)
     in if s = [] then None else map_option fst (raw_decode fl s))"

text \<open>\<open>_ends_with_partial_token\<close>: the shortest suffix of the text that is a proper prefix of the token\<close>

definition ends_with_partial :: "utext \<Rightarrow> utext \<Rightarrow> nat" where
  "ends_with_partial buf tok =
    (case find (\<lambda>i. has_prefix (drop (length buf - i) buf) tok) [1..<min (length buf + 1) (length tok)] of
       Some i \<Rightarrow> i | None \<Rightarrow> 0)"

text \<open>A list that is padded until an index exists\<close>

definition pad_to :: "'a \<Rightarrow> nat \<Rightarrow> 'a list \<Rightarrow> 'a list" where
  "pad_to x n xs = xs @ replicate (Suc n - length xs) x"

section \<open>Detectors\<close>

record 's detector =
  dt_has :: "utext \<Rightarrow> bool"
  dt_detect :: "utext \<Rightarrow> parse_out result"
  dt_increment :: "utext \<Rightarrow> 's \<Rightarrow> ('s \<times> parse_out) result"
  dt_finish :: "'s \<Rightarrow> 's \<times> utext"
  dt_finalize :: "'s \<Rightarrow> 's \<times> call_item list"
  dt_closers :: "utext list"
  dt_eot :: utext
  dt_buffer :: "'s \<Rightarrow> utext"
  dt_clear :: "'s \<Rightarrow> 's"
  dt_arguments :: "'s \<Rightarrow> int \<Rightarrow> jval option"

text \<open>The arguments recorded for a call: \<open>prev_tool_call_arr[i].get("arguments")\<close>; \<open>None\<close> also stands for
  an entry without them.\<close>

definition recorded_arguments :: "(utext \<times> jval) option list \<Rightarrow> int \<Rightarrow> jval option" where
  "recorded_arguments arr i =
    (if 0 \<le> i \<and> nat i < length arr then map_option snd (arr ! nat i) else None)"

section \<open>FunctionCallParser\<close>

datatype segment = SegText utext | SegCalls "call_item list"

text \<open>The drain loop of \<open>parse_stream_events\<close>: the chunk is fed once, then the empty text, until a step
  yields nothing; at most sixteen steps.\<close>

definition segments_of :: "parse_out \<Rightarrow> segment list" where
  "segments_of r = (if po_text r = [] then [] else [SegText (po_text r)]) @ (if po_calls r = [] then [] else [SegCalls (po_calls r)])"

primrec drain_chunk :: "('s, 'm) detector_scheme \<Rightarrow> nat \<Rightarrow> utext \<Rightarrow> 's \<Rightarrow> ('s \<times> segment list) result" where
  "drain_chunk d 0 text s = ok (s, [])"
| "drain_chunk d (Suc n) text s =
    rbind (dt_increment d text s) (\<lambda>(s', r).
      if text = [] \<and> po_calls r = [] \<and> po_text r = [] then ok (s', [])
      else rbind (drain_chunk d n [] s') (\<lambda>(s'', segs). ok (s'', segments_of r @ segs)))"

definition parse_stream_events :: "('s, 'm) detector_scheme \<Rightarrow> tool_function list \<Rightarrow> utext \<Rightarrow> 's \<Rightarrow> ('s \<times> segment list) result" where
  "parse_stream_events d tools chunk s =
    (if tools = [] then ok (s, if chunk = [] then [] else [SegText chunk]) else drain_chunk d 16 chunk s)"

text \<open>\<open>parse_non_stream\<close>: text behind the last call is kept, unless it is blank, part of the text already
  kept, or holds another opener.\<close>

definition rfind :: "utext \<Rightarrow> utext \<Rightarrow> nat option" where
  "rfind p xs = map_option (\<lambda>i. length xs - i - length p) (find_sub (rev p) (rev xs))"

definition tail_start :: "utext list \<Rightarrow> utext \<Rightarrow> int" where
  "tail_start closers text =
    foldl (\<lambda>t tok. case rfind tok text of None \<Rightarrow> t | Some pos \<Rightarrow> max t (int (pos + length tok))) (- 1) closers"

definition parse_whole :: "('s, 'm) detector_scheme \<Rightarrow> tool_function list \<Rightarrow> utext \<Rightarrow> parse_out result" where
  "parse_whole d tools text =
    (if tools = [] then ok (streaming_result text [])
     else rbind (dt_detect d text) (\<lambda>r.
       if po_calls r = [] then ok (streaming_result text [])
       else if tail_start (dt_closers d) text = - 1 then ok r
       else
         (let tail = drop (nat (tail_start (dt_closers d) text)) text in
          if strip tail \<noteq> [] \<and> \<not> has_sub (strip tail) (po_text r) \<and> \<not> dt_has d tail
          then ok (r\<lparr>po_text := po_text r @ tail\<rparr>) else ok r)))"

text \<open>\<open>recover_truncated_call\<close>: any exception of the parse yields no call.\<close>

definition recover_truncated :: "('s, 'm) detector_scheme \<Rightarrow> 's \<Rightarrow> 's \<times> call_item list" where
  "recover_truncated d s =
    (if dt_buffer d s = [] \<or> dt_eot d = [] \<or> \<not> dt_has d (dt_buffer d s) then (s, [])
     else case dt_detect d (dt_buffer d s @ dt_eot d) of
       Inl _ \<Rightarrow> (s, [])
     | Inr r \<Rightarrow> (if po_calls r = [] then s else dt_clear d s, po_calls r))"

definition unstreamed_arguments :: "('s, 'm) detector_scheme \<Rightarrow> 's \<Rightarrow> int \<Rightarrow> utext option" where
  "unstreamed_arguments d s i = map_option dumps (dt_arguments d s i)"

text \<open>A whole stream: the chunks one after the other, then the text that was held back\<close>

primrec stream_chunks :: "('s, 'm) detector_scheme \<Rightarrow> tool_function list \<Rightarrow> utext list \<Rightarrow> 's \<Rightarrow> ('s \<times> segment list) result" where
  "stream_chunks d tools [] s = ok (s, [])"
| "stream_chunks d tools (c # cs) s =
    rbind (parse_stream_events d tools c s) (\<lambda>(s', segs).
      rbind (stream_chunks d tools cs s') (\<lambda>(s'', segs'). ok (s'', segs @ segs')))"

definition stream_finished :: "('s, 'm) detector_scheme \<Rightarrow> tool_function list \<Rightarrow> utext list \<Rightarrow> 's \<Rightarrow> segment list result" where
  "stream_finished d tools cs s =
    rbind (stream_chunks d tools cs s) (\<lambda>(s', segs). ok (segs @ [SegText (snd (dt_finish d s'))]))"

end
