(* ===== verification/Generation.thy ===== *)
theory Generation
  imports ToolCalls Reasoning
begin

text \<open>
  \<open>server/generation.py\<close>: the acknowledgements of the engine become the events every protocol adapter
  formats. The text goes through the reasoning parser, the tool call parser and the removal of leaked
  special tokens. A parser is a record of its operations; the events a generator has yielded when it
  raises are part of the result.
\<close>

section \<open>Events\<close>

record generation_end =
  ge_reason :: string
  ge_prompt :: int
  ge_completion :: int
  ge_matched :: "string option"
  ge_cached :: int

datatype gen_event =
    ReasoningDelta utext
  | ContentDelta utext
  | ToolCallStart int "utext option" bool
  | ToolCallArgsDelta int utext
  | ToolCallsDelta "call_item list"
  | GenDone generation_end

datatype gen_stop = Returned | GenerationError string "string option" | Raised py_error

text \<open>One acknowledgement (\<open>UserReply\<close>), as far as it is read here\<close>

record user_ack =
  ua_error :: "string option"
  ua_code :: "string option"
  ua_prompt :: int
  ua_completion :: int
  ua_cached :: int
  ua_output :: utext
  ua_finished :: bool
  ua_reason :: "string option"
  ua_matched :: "string option"

record 'r reasoner =
  rs_chunk :: "utext \<Rightarrow> 'r \<Rightarrow> 'r \<times> parse_result"
  rs_flush :: "'r \<Rightarrow> parse_result"
  rs_whole :: "utext \<Rightarrow> parse_result"

text \<open>The configuration of a generation: the parsers of the server, the special tokens to strip, the
  tools of the request (\<open>None\<close> disables parsing; the list may be empty). \<open>gc_detector\<close> is \<open>None\<close> when the name of the tool call parser
  is not supported. Every detector supports streaming and emits prefix-stable fragments.\<close>

record ('r, 's) gen_config =
  gc_reasoner :: "'r reasoner option"
  gc_tools :: "tool_function list option"
  gc_detector :: "'s detector option"
  gc_specials :: "utext list"
  gc_float :: "utext \<Rightarrow> utext"

definition valid_json :: "(utext \<Rightarrow> utext) \<Rightarrow> utext \<Rightarrow> bool" where
  "valid_json fl text \<longleftrightarrow> text \<noteq> [] \<and> loads fl text \<noteq> None"

definition TOOLS_TAG_LIST :: "utext list" where
  "TOOLS_TAG_LIST = map codes [''<|plugin|>'', ''<|tool_call>'', ''<|tool_call_begin|>'', ''<|channel|>'', ''<function='', ''<tool_call>'',
     ''<minimax:tool_call>'', '']<]minimax[>[<tool_call>'', ''<|python_tag|>'', ''[TOOL_CALLS]''] @
   [codes ''<'' @ DSML_TOKEN @ codes ''function_calls>'', codes ''<'' @ DSML_TOKEN @ codes ''tool_calls>'',
    codes ''<'' @ DSML_TOKEN @ codes ''invoke'', codes ''<atem:function_calls>'']"

section \<open>Tool calls in a stream\<close>

record open_call =
  oc_detector :: int
  oc_name :: "utext option"
  oc_params :: utext
  oc_ordinal :: int

text \<open>The variables of the generator that the routing changes\<close>

record 's routing =
  ro_state :: 's
  ro_open :: "open_call option"
  ro_emitted :: int
  ro_blank :: bool

definition close_params :: "'s detector \<Rightarrow> (utext \<Rightarrow> utext) \<Rightarrow> open_call \<Rightarrow> 's \<Rightarrow> utext" where
  "close_params d fl c s =
    (if valid_json fl (oc_params c) then oc_params c
     else (case unstreamed_arguments d s (oc_detector c) of Some a \<Rightarrow> if a = [] then oc_params c else a | None \<Rightarrow> oc_params c))"

definition close_open_call :: "'s detector \<Rightarrow> (utext \<Rightarrow> utext) \<Rightarrow> 's routing \<Rightarrow> 's routing \<times> gen_event list" where
  "close_open_call d fl r =
    (case ro_open r of
       None \<Rightarrow> (r, [])
     | Some c \<Rightarrow>
         (let params = close_params d fl c (ro_state r) in
          (r\<lparr>ro_open := None, ro_emitted := ro_emitted r + 1, ro_blank := True\<rparr>,
           [ToolCallsDelta [\<lparr>ci_index = oc_ordinal c, ci_name = oc_name c,
              ci_parameters = (if params = [] then codes ''{}'' else params)\<rparr>]])))"

text \<open>A fragment opens a call when it carries a name and belongs to another call than the open one, or
  when no call is open.\<close>

definition starts_new :: "call_item \<Rightarrow> open_call option \<Rightarrow> bool" where
  "starts_new frag c \<longleftrightarrow> ci_name frag \<noteq> None \<and> (case c of None \<Rightarrow> True | Some c \<Rightarrow> ci_index frag \<noteq> oc_detector c)"

definition add_fragment :: "call_item \<Rightarrow> 's routing \<Rightarrow> 's routing \<times> gen_event list" where
  "add_fragment frag r =
    (case ro_open r of
       None \<Rightarrow> (r, [])
     | Some c \<Rightarrow>
         if ci_parameters frag = [] then (r, [])
         else (r\<lparr>ro_open := Some (c\<lparr>oc_params := oc_params c @ ci_parameters frag\<rparr>)\<rparr>,
               [ToolCallArgsDelta (oc_ordinal c) (ci_parameters frag)]))"

definition route_fragment :: "'s detector \<Rightarrow> (utext \<Rightarrow> utext) \<Rightarrow> call_item \<Rightarrow> 's routing \<Rightarrow> 's routing \<times> gen_event list" where
  "route_fragment d fl frag r =
    (let fresh = starts_new frag (ro_open r);
         (r, closed) = (if fresh then close_open_call d fl r else (r, []));
         (r, opened) =
           (if ro_open r = None \<or> fresh
            then (r\<lparr>ro_open := Some \<lparr>oc_detector = ci_index frag, oc_name = ci_name frag, oc_params = [], oc_ordinal = ro_emitted r\<rparr>\<rparr>,
                  [ToolCallStart (ro_emitted r) (ci_name frag) True])
            else (r, []));
         (r, added) = add_fragment frag r
     in (r, closed @ opened @ added))"

primrec route_fragments :: "'s detector \<Rightarrow> (utext \<Rightarrow> utext) \<Rightarrow> call_item list \<Rightarrow> 's routing \<Rightarrow> 's routing \<times> gen_event list" where
  "route_fragments d fl [] r = (r, [])"
| "route_fragments d fl (f # fs) r =
    (case route_fragment d fl f r of (r, es) \<Rightarrow> case route_fragments d fl fs r of (r, es') \<Rightarrow> (r, es @ es'))"

text \<open>Text ends the open call. Blanks between a call and the next text are swallowed.\<close>

definition route_content :: "utext list \<Rightarrow> utext \<Rightarrow> 's routing \<Rightarrow> 's routing \<times> gen_event list" where
  "route_content specials text r =
    (let t = strip_special_tokens text specials in
     if t \<noteq> [] \<and> \<not> (strip t = [] \<and> ro_blank r)
     then (if strip t \<noteq> [] then r\<lparr>ro_blank := False\<rparr> else r, [ContentDelta t])
     else (r, []))"

primrec route_segments :: "'s detector \<Rightarrow> (utext \<Rightarrow> utext) \<Rightarrow> utext list \<Rightarrow> segment list \<Rightarrow> 's routing \<Rightarrow> 's routing \<times> gen_event list" where
  "route_segments d fl specials [] r = (r, [])"
| "route_segments d fl specials (seg # segs) r =
    (case (case seg of
             SegText t \<Rightarrow> (case close_open_call d fl r of (r, es) \<Rightarrow> case route_content specials t r of (r, es') \<Rightarrow> (r, es @ es'))
           | SegCalls fs \<Rightarrow> route_fragments d fl fs r) of
       (r, es) \<Rightarrow> case route_segments d fl specials segs r of (r, es') \<Rightarrow> (r, es @ es'))"

text \<open>\<open>_route_tool_text\<close>: the whole piece is parsed before its segments are routed; if the parser raises,
  nothing of it is emitted. The fragments are looked up in the state of the detector behind the piece.\<close>

definition route_tool_text :: "'s detector \<Rightarrow> tool_function list \<Rightarrow> (utext \<Rightarrow> utext) \<Rightarrow> utext list \<Rightarrow> utext \<Rightarrow> 's routing \<Rightarrow> ('s routing \<times> gen_event list) result" where
  "route_tool_text d tools fl specials piece r =
    (if piece = [] then ok (r, [])
     else rbind (parse_stream_events d tools piece (ro_state r)) (\<lambda>(s, segs). ok (route_segments d fl specials segs (r\<lparr>ro_state := s\<rparr>))))"

section \<open>The generator\<close>

record ('r, 's) generation =
  gn_reasoner :: "'r option"
  gn_routing :: "'s routing option"
  gn_pending :: utext
  gn_prompt :: int
  gn_completion :: int
  gn_cached :: int
  gn_reason :: "string option"
  gn_matched :: "string option"

text \<open>The tool parser exists when the request has a list of tools and the parser name is supported.\<close>

definition generation_init :: "('r, 's) gen_config \<Rightarrow> 'r \<Rightarrow> 's \<Rightarrow> ('r, 's) generation" where
  "generation_init cfg r0 s0 =
    \<lparr>gn_reasoner = map_option (\<lambda>_. r0) (gc_reasoner cfg),
     gn_routing = (if gc_tools cfg \<noteq> None \<and> gc_detector cfg \<noteq> None
       then Some \<lparr>ro_state = s0, ro_open = None, ro_emitted = 0, ro_blank = False\<rparr> else None),
     gn_pending = [], gn_prompt = 0, gn_completion = 0, gn_cached = 0, gn_reason = None, gn_matched = None\<rparr>"

definition reasoning_events :: "utext list \<Rightarrow> utext \<Rightarrow> gen_event list" where
  "reasoning_events specials t =
    (if t = [] \<or> strip_special_tokens t specials = [] then [] else [ReasoningDelta (strip_special_tokens t specials)])"

text \<open>Content of an acknowledgement or of the flush: routed, buffered, or emitted as it is\<close>

definition content_events :: "('r, 's) gen_config \<Rightarrow> utext \<Rightarrow> ('r, 's) generation \<Rightarrow> (('r, 's) generation \<times> gen_event list) result" where
  "content_events cfg t g =
    (if t = [] then ok (g, [])
     else case (gn_routing g, gc_detector cfg, gc_tools cfg) of
       (Some r, Some d, Some tools) \<Rightarrow>
         rbind (route_tool_text d tools (gc_float cfg) (gc_specials cfg) t r) (\<lambda>(r, es). ok (g\<lparr>gn_routing := Some r\<rparr>, es))
     | (_, _, Some tools) \<Rightarrow> ok (g\<lparr>gn_pending := gn_pending g @ t\<rparr>, [])
     | _ \<Rightarrow> ok (g, [ContentDelta (strip_special_tokens t (gc_specials cfg))]))"

definition count_ack :: "user_ack \<Rightarrow> ('r, 's) generation \<Rightarrow> ('r, 's) generation" where
  "count_ack a g = g\<lparr>gn_prompt := gn_prompt g + ua_prompt a, gn_completion := gn_completion g + ua_completion a,
     gn_cached := gn_cached g + ua_cached a\<rparr>"

definition split_ack :: "('r, 's) gen_config \<Rightarrow> utext \<Rightarrow> ('r, 's) generation \<Rightarrow> ('r, 's) generation \<times> utext \<times> utext" where
  "split_ack cfg t g =
    (case (gc_reasoner cfg, gn_reasoner g) of
       (Some rp, Some r) \<Rightarrow>
         if t = [] then (g, [], [])
         else (case rs_chunk rp t r of (r', p) \<Rightarrow> (g\<lparr>gn_reasoner := Some r'\<rparr>, pr_reasoning p, pr_normal p))
     | _ \<Rightarrow> (g, [], t))"

text \<open>What the generator has yielded, and the exception that stops it. An acknowledgement that fails ends
  it; the last one ends the loop.\<close>

definition ack_events :: "('r, 's) gen_config \<Rightarrow> user_ack \<Rightarrow> ('r, 's) generation \<Rightarrow> ('r, 's) generation \<times> gen_event list \<times> gen_stop option" where
  "ack_events cfg a g =
    (if ua_error a \<noteq> None \<and> ua_error a \<noteq> Some [] then (g, [], Some (GenerationError (the (ua_error a)) (ua_code a)))
     else
       (case split_ack cfg (ua_output a) (count_ack a g) of (g, reasoning, content) \<Rightarrow>
          let es = reasoning_events (gc_specials cfg) reasoning in
          case content_events cfg content g of
            Inl e \<Rightarrow> (g, es, Some (Raised e))
          | Inr (g, es') \<Rightarrow>
              (if ua_finished a then g\<lparr>gn_reason := ua_reason a, gn_matched := ua_matched a\<rparr> else g, es @ es', None)))"

fun ack_loop :: "('r, 's) gen_config \<Rightarrow> user_ack list \<Rightarrow> ('r, 's) generation \<Rightarrow> ('r, 's) generation \<times> gen_event list \<times> gen_stop option" where
  "ack_loop cfg [] g = (g, [], None)"
| "ack_loop cfg (a # as) g =
    (case ack_events cfg a g of
       (g, es, Some x) \<Rightarrow> (g, es, Some x)
     | (g, es, None) \<Rightarrow>
         if ua_finished a then (g, es, None)
         else (case ack_loop cfg as g of (g, es', x) \<Rightarrow> (g, es @ es', x)))"

definition flush_events :: "('r, 's) gen_config \<Rightarrow> ('r, 's) generation \<Rightarrow> ('r, 's) generation \<times> gen_event list \<times> gen_stop option" where
  "flush_events cfg g =
    (case (gc_reasoner cfg, gn_reasoner g) of
       (Some rp, Some r) \<Rightarrow>
         (let p = rs_flush rp r; es = reasoning_events (gc_specials cfg) (pr_reasoning p) in
          case content_events cfg (pr_normal p) g of
            Inl e \<Rightarrow> (g, es, Some (Raised e))
          | Inr (g, es') \<Rightarrow> (g, es @ es', None))
     | _ \<Rightarrow> (g, [], None))"

text \<open>The end of a streamed tool call parse: closing fragments, the open call, a call that is recovered from
  the buffer, and text that was held back\<close>

primrec finalize_fragments :: "call_item list \<Rightarrow> 's routing \<Rightarrow> 's routing \<times> gen_event list" where
  "finalize_fragments [] r = (r, [])"
| "finalize_fragments (f # fs) r =
    (case add_fragment f r of (r, es) \<Rightarrow> case finalize_fragments fs r of (r, es') \<Rightarrow> (r, es @ es'))"

primrec recovered_calls :: "call_item list \<Rightarrow> 's routing \<Rightarrow> 's routing \<times> gen_event list" where
  "recovered_calls [] r = (r, [])"
| "recovered_calls (c # cs) r =
    (case recovered_calls cs (r\<lparr>ro_emitted := ro_emitted r + 1\<rparr>) of
       (r', es) \<Rightarrow> (r', ToolCallStart (ro_emitted r) (ci_name c) True # ToolCallsDelta [c\<lparr>ci_index := ro_emitted r\<rparr>] # es))"

definition finish_routing :: "'s detector \<Rightarrow> (utext \<Rightarrow> utext) \<Rightarrow> utext list \<Rightarrow> 's routing \<Rightarrow> 's routing \<times> gen_event list" where
  "finish_routing d fl specials r =
    (let (s, frags) = dt_finalize d (ro_state r);
         (r, es1) = finalize_fragments frags (r\<lparr>ro_state := s\<rparr>);
         (r, es2) = close_open_call d fl r;
         (s, calls) = recover_truncated d (ro_state r);
         (r, es3) = recovered_calls calls (r\<lparr>ro_state := s\<rparr>);
         (s, residual) = dt_finish d (ro_state r);
         r = r\<lparr>ro_state := s\<rparr>;
         t = strip_special_tokens residual specials
     in (r, es1 @ es2 @ es3 @ (if residual \<noteq> [] \<and> t \<noteq> [] \<and> \<not> (strip t = [] \<and> ro_blank r) then [ContentDelta t] else [])))"

text \<open>\<open>_parse_tool_response\<close>: no call unless a marker of some format occurs\<close>

definition parse_tool_response :: "('r, 's) gen_config \<Rightarrow> utext \<Rightarrow> (utext \<times> call_item list) option result" where
  "parse_tool_response cfg text =
    (case gc_tools cfg of
       None \<Rightarrow> ok None
     | Some tools \<Rightarrow>
         if \<not> list_ex (\<lambda>tag. has_sub tag text) TOOLS_TAG_LIST then ok None
         else (case gc_detector cfg of
             None \<Rightarrow> raise (ValueError ''Unsupported tool_call_parser'')
           | Some d \<Rightarrow> rbind (parse_whole d tools text) (\<lambda>r. ok (if po_calls r = [] then None else Some (po_text r, po_calls r)))))"

definition final_reason :: "('r, 's) generation \<Rightarrow> bool \<Rightarrow> string" where
  "final_reason g called =
    (let reason = (case gn_reason g of None \<Rightarrow> ''stop'' | Some x \<Rightarrow> if x = [] then ''stop'' else x)
     in if called \<and> reason \<noteq> ''length'' then ''tool_calls'' else reason)"

definition gen_done :: "('r, 's) generation \<Rightarrow> bool \<Rightarrow> gen_event" where
  "gen_done g called = GenDone \<lparr>ge_reason = final_reason g called, ge_prompt = gn_prompt g, ge_completion = gn_completion g,
     ge_matched = gn_matched g, ge_cached = gn_cached g\<rparr>"

definition finish_events :: "('r, 's) gen_config \<Rightarrow> ('r, 's) generation \<Rightarrow> gen_event list \<times> gen_stop" where
  "finish_events cfg g =
    (case (gn_routing g, gc_detector cfg) of
       (Some r, Some d) \<Rightarrow>
         (case finish_routing d (gc_float cfg) (gc_specials cfg) r of (r, es) \<Rightarrow> (es @ [gen_done g (ro_emitted r \<noteq> 0)], Returned))
     | _ \<Rightarrow>
         (case parse_tool_response cfg (gn_pending g) of
            Inl e \<Rightarrow> ([], Raised e)
          | Inr (Some (t, calls)) \<Rightarrow>
              (let t = strip_special_tokens t (gc_specials cfg)
               in ((if t = [] then [] else [ContentDelta t]) @ [ToolCallsDelta calls, gen_done g True], Returned))
          | Inr None \<Rightarrow>
              ((if gc_tools cfg \<noteq> None \<and> gn_pending g \<noteq> [] then [ContentDelta (strip_special_tokens (gn_pending g) (gc_specials cfg))] else [])
               @ [gen_done g False], Returned)))"

text \<open>\<open>_generate_events_impl\<close> over the acknowledgements that arrive\<close>

definition generate_events :: "('r, 's) gen_config \<Rightarrow> 'r \<Rightarrow> 's \<Rightarrow> user_ack list \<Rightarrow> gen_event list \<times> gen_stop" where
  "generate_events cfg r0 s0 acks =
    (case ack_loop cfg acks (generation_init cfg r0 s0) of
       (g, es, Some x) \<Rightarrow> (es, x)
     | (g, es, None) \<Rightarrow>
         (case flush_events cfg g of
            (g, es', Some x) \<Rightarrow> (es @ es', x)
          | (g, es', None) \<Rightarrow> (case finish_events cfg g of (es'', x) \<Rightarrow> (es @ es' @ es'', x))))"

section \<open>Without streaming\<close>

record gen_result =
  gr_reasoning :: utext
  gr_content :: utext
  gr_calls :: "call_item list"
  gr_reason :: string
  gr_prompt :: int
  gr_completion :: int
  gr_matched :: "string option"
  gr_cached :: int

fun collect_acks :: "user_ack list \<Rightarrow> utext \<Rightarrow> ('r, 's) generation \<Rightarrow> ((string \<times> string option) + (utext \<times> ('r, 's) generation))" where
  "collect_acks [] text g = Inr (text, g)"
| "collect_acks (a # as) text g =
    (if ua_error a \<noteq> None \<and> ua_error a \<noteq> Some [] then Inl (the (ua_error a), ua_code a)
     else if ua_finished a then Inr (text @ ua_output a, (count_ack a g)\<lparr>gn_reason := ua_reason a, gn_matched := ua_matched a\<rparr>)
     else collect_acks as (text @ ua_output a) (count_ack a g))"

definition generate_full :: "('r, 's) gen_config \<Rightarrow> 'r \<Rightarrow> 's \<Rightarrow> user_ack list \<Rightarrow> gen_stop + gen_result" where
  "generate_full cfg r0 s0 acks =
    (case collect_acks acks [] (generation_init cfg r0 s0) of
       Inl (m, c) \<Rightarrow> Inl (GenerationError m c)
     | Inr (text, g) \<Rightarrow>
         (let p = (case gc_reasoner cfg of None \<Rightarrow> parsed [] text | Some rp \<Rightarrow> rs_whole rp text) in
          case parse_tool_response cfg (pr_normal p) of
            Inl e \<Rightarrow> Inl (Raised e)
          | Inr tool \<Rightarrow>
              (let (content, calls) = (case tool of None \<Rightarrow> (pr_normal p, []) | Some tc \<Rightarrow> tc)
               in Inr \<lparr>gr_reasoning = strip (strip_special_tokens (pr_reasoning p) (gc_specials cfg)),
                       gr_content = strip_special_tokens content (gc_specials cfg), gr_calls = calls,
                       gr_reason = final_reason g (tool \<noteq> None), gr_prompt = gn_prompt g, gr_completion = gn_completion g,
                       gr_matched = gn_matched g, gr_cached = gn_cached g\<rparr>)))"

section \<open>The request log\<close>

text \<open>\<open>generate_events\<close> logs the totals of the terminal event, and zero when the stream ends before it.
  The string of a \<open>GenerationError\<close> is the row's error; another exception leaves none.\<close>

fun event_totals :: "gen_event list \<Rightarrow> int \<times> int" where
  "event_totals [] = (0, 0)"
| "event_totals (e # es) = (case event_totals es of t \<Rightarrow>
     if list_ex (\<lambda>e. case e of GenDone _ \<Rightarrow> True | _ \<Rightarrow> False) es then t
     else (case e of GenDone d \<Rightarrow> (ge_prompt d, ge_completion d) | _ \<Rightarrow> (0, 0)))"

definition logged_row :: "gen_event list \<times> gen_stop \<Rightarrow> nat \<times> int \<times> int \<times> string option" where
  "logged_row g =
    (case g of (es, stop) \<Rightarrow>
       let err = (case stop of GenerationError m _ \<Rightarrow> Some m | _ \<Rightarrow> None)
       in (if err \<noteq> None \<and> err \<noteq> Some [] then 500 else 200, fst (event_totals es), snd (event_totals es), err))"

end
