(* ===== verification/GptOss.thy ===== *)
theory GptOss
  imports ToolCalls
begin

text \<open>
  The gpt-oss tool call detector of \<open>server/function_call_parser.py\<close> (\<open>GptOssDetector\<close>): the
  channel state machine over a growing buffer and the one-shot parse.
\<close>

section \<open>Markers\<close>

definition BLOCK_OPENERS :: "utext list" where
  "BLOCK_OPENERS = [codes ''<|start|>'', codes ''<|channel|>'']"

definition CLOSING_TOKENS :: "utext list" where
  "CLOSING_TOKENS = [codes ''<|end|>'', codes ''<|return|>'', codes ''<|call|>'']"

definition MESSAGE_TOKEN :: utext where
  "MESSAGE_TOKEN = codes ''<|message|>''"

definition FUNCTIONS :: utext where
  "FUNCTIONS = codes ''to=functions.''"

abbreviation BOUNDARIES :: "utext list" where
  "BOUNDARIES \<equiv> CLOSING_TOKENS @ BLOCK_OPENERS"

text \<open>\<open>_name_regex.search\<close>: the first \<open>to=functions.\<close> that a name follows\<close>

definition name_head :: "utext \<Rightarrow> utext" where
  "name_head xs = takeWhile (\<lambda>c. \<not> is_space c \<and> c \<noteq> 60) xs"

function search_name :: "utext \<Rightarrow> utext option" where
  "search_name xs =
    (case find_sub FUNCTIONS xs of
       None \<Rightarrow> None
     | Some i \<Rightarrow>
         (let r = drop (i + length FUNCTIONS) xs in
          if name_head r \<noteq> [] then Some (name_head r) else search_name (drop (Suc i) xs)))"
  by pat_completeness auto

lemma functions_length: "length FUNCTIONS = 13"
  by (simp add: FUNCTIONS_def codes_def)

termination search_name
  by (relation "measure length") (auto dest!: find_sub_bound simp: functions_length)

declare search_name.simps [simp del]

text \<open>The function a header calls, if it is a header of the commentary channel and the tool is accepted\<close>

definition header_call :: "tool_function list \<Rightarrow> bool \<Rightarrow> utext \<Rightarrow> utext option" where
  "header_call tools fwd header =
    (if \<not> has_sub (codes ''commentary'') header then None
     else case search_name header of
       None \<Rightarrow> None
     | Some name \<Rightarrow> if accepted_tool tools fwd name then Some name else None)"

section \<open>The state machine\<close>

datatype gmode = GText | GTool | GSkip

record gptoss =
  go_buf :: utext
  go_mode :: gmode
  go_acc :: utext
  go_id :: int
  go_prev :: "(utext \<times> jval) option list"
  go_streamed :: "utext list"

definition gptoss_init :: gptoss where
  "gptoss_init = \<lparr>go_buf = [], go_mode = GText, go_acc = [], go_id = - 1, go_prev = [], go_streamed = []\<rparr>"

text \<open>A header that opens a call: the tables are padded to the index of the call.\<close>

definition open_tool :: "utext \<Rightarrow> gptoss \<Rightarrow> gptoss" where
  "open_tool name g =
    (let i = (if go_id g = - 1 then 0 else go_id g) in
     g\<lparr>go_id := i, go_prev := (pad_to None (nat i) (go_prev g))[nat i := Some (name, VObj [])],
       go_streamed := pad_to [] (nat i) (go_streamed g), go_acc := [], go_mode := GTool\<rparr>)"

text \<open>A piece of the arguments\<close>

definition add_piece :: "utext \<Rightarrow> gptoss \<Rightarrow> gptoss" where
  "add_piece piece g = g\<lparr>go_acc := go_acc g @ piece,
     go_streamed := (go_streamed g)[nat (go_id g) := go_streamed g ! nat (go_id g) @ piece]\<rparr>"

definition piece_items :: "utext \<Rightarrow> gptoss \<Rightarrow> call_item list" where
  "piece_items piece g = (if piece = [] then [] else [call_part (go_id g) piece])"

text \<open>The end of a call: its arguments are recorded when they are an object.\<close>

definition close_tool :: "(utext \<Rightarrow> utext) \<Rightarrow> gptoss \<Rightarrow> gptoss" where
  "close_tool fl g =
    (let i = nat (go_id g);
         args = (case first_json_value fl (go_acc g) of Some (VObj kvs) \<Rightarrow> VObj kvs | _ \<Rightarrow> VObj [])
     in g\<lparr>go_prev := (go_prev g)[i := map_option (\<lambda>(name, _). (name, args)) (go_prev g ! i)],
          go_streamed := (go_streamed g)[i := []], go_id := go_id g + 1, go_acc := []\<rparr>)"

text \<open>One turn of the loop: the new state, the text and the items it yields, and whether the loop goes on.
  \<open>had\<close> says whether this call of \<open>parse_streaming_increment\<close> has items already.\<close>

definition text_turn :: "tool_function list \<Rightarrow> bool \<Rightarrow> gptoss \<Rightarrow> gptoss \<times> utext \<times> call_item list \<times> bool" where
  "text_turn tools fwd g =
    (let buf = go_buf g in
     case earliest BLOCK_OPENERS buf of
       None \<Rightarrow>
         (let release = take (length buf - held_suffix BLOCK_OPENERS buf) buf
          in (g\<lparr>go_buf := drop (length release) buf\<rparr>, release, [], False))
     | Some (pos, _) \<Rightarrow>
         if pos > 0 then (g\<lparr>go_buf := drop pos buf\<rparr>, take pos buf, [], True)
         else (case find_sub MESSAGE_TOKEN buf of
             None \<Rightarrow> (g, [], [], False)
           | Some m \<Rightarrow>
               (let g = g\<lparr>go_buf := drop (m + length MESSAGE_TOKEN) buf\<rparr> in
                case header_call tools fwd (take m buf) of
                  Some name \<Rightarrow> (open_tool name g, [], [call_start (go_id (open_tool name g)) name], True)
                | None \<Rightarrow> (g\<lparr>go_mode := GSkip\<rparr>, [], [], True))))"

definition body_turn :: "(utext \<Rightarrow> utext) \<Rightarrow> gptoss \<Rightarrow> gptoss \<times> utext \<times> call_item list \<times> bool" where
  "body_turn fl g =
    (let buf = go_buf g in
     case earliest BOUNDARIES buf of
       None \<Rightarrow>
         (let piece = take (length buf - held_suffix BOUNDARIES buf) buf;
              g = g\<lparr>go_buf := drop (length piece) buf\<rparr>
          in if go_mode g = GTool \<and> piece \<noteq> [] then (add_piece piece g, [], piece_items piece g, False) else (g, [], [], False))
     | Some (pos, tok) \<Rightarrow>
         (let piece = take pos buf;
              g = g\<lparr>go_buf := drop (if tok \<in> set CLOSING_TOKENS then pos + length tok else pos) buf\<rparr>
          in if go_mode g = GTool
             then ((close_tool fl (add_piece piece g))\<lparr>go_mode := GText\<rparr>, [], piece_items piece g, True)
             else (g\<lparr>go_mode := GText\<rparr>, [], [], True)))"

definition loop_turn :: "(utext \<Rightarrow> utext) \<Rightarrow> tool_function list \<Rightarrow> bool \<Rightarrow> bool \<Rightarrow> gptoss \<Rightarrow> gptoss \<times> utext \<times> call_item list \<times> bool" where
  "loop_turn fl tools fwd had g =
    (if go_buf g = [] \<or> go_mode g = GText \<and> had then (g, [], [], False)
     else if go_mode g = GText then text_turn tools fwd g
     else body_turn fl g)"

text \<open>Every turn that goes on shortens the buffer, or leaves a body at an opener.\<close>

definition turn_measure :: "gptoss \<Rightarrow> nat" where
  "turn_measure g = 2 * length (go_buf g) + (if go_mode g = GText then 0 else 1)"

lemma block_openers: "tok \<in> set BLOCK_OPENERS \<Longrightarrow> tok \<noteq> []"
  by (auto simp: BLOCK_OPENERS_def codes_def)

lemma closing_tokens: "tok \<in> set CLOSING_TOKENS \<Longrightarrow> tok \<noteq> []"
  by (auto simp: CLOSING_TOKENS_def codes_def)

lemma message_length: "length MESSAGE_TOKEN = 11"
  by (simp add: MESSAGE_TOKEN_def codes_def)

lemma tool_buf [simp]:
  "go_buf (open_tool name g) = go_buf g" "go_buf (add_piece p g) = go_buf g" "go_buf (close_tool fl g) = go_buf g"
  "go_mode (open_tool name g) = GTool" "go_mode (add_piece p g) = go_mode g" "go_mode (close_tool fl g) = go_mode g"
  by (simp_all add: open_tool_def add_piece_def close_tool_def Let_def)

lemma turn_decreases:
  assumes "loop_turn fl tools fwd had g = (g', t, cs, True)"
  shows "turn_measure g' < turn_measure g"
proof (cases "go_mode g = GText")
  case True
  then have e: "text_turn tools fwd g = (g', t, cs, True)" using assms by (auto simp: loop_turn_def split: if_splits)
  then obtain pos tok where p: "earliest BLOCK_OPENERS (go_buf g) = Some (pos, tok)"
    by (auto simp: text_turn_def Let_def split: option.splits)
  have b: "pos + length tok \<le> length (go_buf g)" "tok \<noteq> []"
    using earliest_bound [OF p] block_openers earliest_Some [OF p] by blast+
  then have n: "0 < length (go_buf g)" by (cases tok) auto
  show ?thesis
  proof (cases "pos > 0")
    case True
    then show ?thesis using e p b \<open>go_mode g = GText\<close> by (cases tok) (auto simp: text_turn_def turn_measure_def Let_def)
  next
    case False
    then obtain m where m: "find_sub MESSAGE_TOKEN (go_buf g) = Some m"
      using e p by (auto simp: text_turn_def Let_def split: option.splits)
    have "go_buf g' = drop (m + length MESSAGE_TOKEN) (go_buf g)"
      using e p False m by (auto simp: text_turn_def Let_def split: option.splits)
    then have "length (go_buf g') = length (go_buf g) - (m + 11)" by (simp add: message_length)
    moreover have "turn_measure g' \<le> 2 * length (go_buf g') + 1" by (simp add: turn_measure_def)
    ultimately show ?thesis using find_sub_bound [OF m] n True by (simp add: turn_measure_def message_length)
  qed
next
  case False
  then have e: "body_turn fl g = (g', t, cs, True)" using assms by (auto simp: loop_turn_def split: if_splits)
  then obtain pos tok where p: "earliest BOUNDARIES (go_buf g) = Some (pos, tok)"
    by (auto simp: body_turn_def Let_def split: option.splits if_splits)
  have "go_mode g' = GText" "length (go_buf g') \<le> length (go_buf g)"
    using e p by (auto simp: body_turn_def Let_def split: if_splits)
  then show ?thesis using False by (simp add: turn_measure_def)
qed

function turn_loop :: "(utext \<Rightarrow> utext) \<Rightarrow> tool_function list \<Rightarrow> bool \<Rightarrow> bool \<Rightarrow> gptoss \<Rightarrow> gptoss \<times> utext \<times> call_item list" where
  "turn_loop fl tools fwd had g =
    (case loop_turn fl tools fwd had g of
       (g', t, cs, goes_on) \<Rightarrow>
         if goes_on
         then (case turn_loop fl tools fwd (had \<or> cs \<noteq> []) g' of (g'', t', cs') \<Rightarrow> (g'', t @ t', cs @ cs'))
         else (g', t, cs))"
  by pat_completeness auto

termination turn_loop
  by (relation "measure (\<lambda>(fl, tools, fwd, had, g). turn_measure g)") (auto dest: turn_decreases [OF sym])

declare turn_loop.simps [simp del]

definition gptoss_increment :: "(utext \<Rightarrow> utext) \<Rightarrow> tool_function list \<Rightarrow> bool \<Rightarrow> utext \<Rightarrow> gptoss \<Rightarrow> gptoss \<times> parse_out" where
  "gptoss_increment fl tools fwd new g =
    (case turn_loop fl tools fwd False (g\<lparr>go_buf := go_buf g @ new\<rparr>) of (g', t, cs) \<Rightarrow> (g', streaming_result t cs))"

definition gptoss_finish :: "gptoss \<Rightarrow> gptoss \<times> utext" where
  "gptoss_finish g =
    (g\<lparr>go_buf := [], go_mode := GText\<rparr>,
     if go_mode g \<noteq> GText \<or> (\<exists>tok \<in> set BLOCK_OPENERS. has_sub tok (go_buf g)) then [] else go_buf g)"

section \<open>The one-shot parse\<close>

definition gptoss_has :: "utext \<Rightarrow> bool" where
  "gptoss_has text \<longleftrightarrow> has_sub FUNCTIONS text \<and> has_sub MESSAGE_TOKEN text"

text \<open>The payload of a call ends before \<open><|end|>\<close>, before \<open><|start|>\<close>, or at the end of the text, where
  the pattern's \<open>$\<close> also matches before a final line feed.\<close>

definition payload_length :: "utext \<Rightarrow> nat" where
  "payload_length body =
    (let e = (if body \<noteq> [] \<and> last body = 10 then length body - 1 else length body);
         e = (case find_sub (codes ''<|end|>'') body of Some i \<Rightarrow> min e i | None \<Rightarrow> e)
     in case find_sub (codes ''<|start|>'') body of Some i \<Rightarrow> min e i | None \<Rightarrow> e)"

definition COMMENTARY :: utext where
  "COMMENTARY = codes ''<|channel|>commentary''"

text \<open>What the pattern finds behind the channel name: the function and the text behind its name\<close>

definition call_header :: "utext \<Rightarrow> (utext \<times> utext) option" where
  "call_header xs =
    (let r = dropWhile is_space xs in
     if takeWhile is_space xs \<noteq> [] \<and> has_prefix FUNCTIONS r \<and> name_head (drop (length FUNCTIONS) r) \<noteq> []
     then Some (name_head (drop (length FUNCTIONS) r),
       drop (length FUNCTIONS + length (name_head (drop (length FUNCTIONS) r))) r)
     else None)"

lemma call_header_shorter: "call_header xs = Some (n, ys) \<Longrightarrow> length ys \<le> length xs"
  using length_dropWhile_le [of is_space xs] by (auto simp: call_header_def Let_def split: if_splits)

text \<open>\<open>call_regex.findall\<close>: the matches do not overlap. Without a message marker behind a header no later
  header has one.\<close>

function find_calls :: "utext \<Rightarrow> (utext \<times> utext) list" where
  "find_calls xs =
    (case find_sub COMMENTARY xs of
       None \<Rightarrow> []
     | Some i \<Rightarrow>
         (case call_header (drop (i + length COMMENTARY) xs) of
            None \<Rightarrow> find_calls (drop (Suc i) xs)
          | Some (name, r) \<Rightarrow>
              (case find_sub MESSAGE_TOKEN r of
                 None \<Rightarrow> []
               | Some m \<Rightarrow>
                   (let body = drop (m + length MESSAGE_TOKEN) r
                    in (name, take (payload_length body) body) # find_calls (drop (payload_length body) body)))))"
  by pat_completeness auto

lemma commentary_length: "length COMMENTARY = 21"
  by (simp add: COMMENTARY_def codes_def)

termination find_calls
  by (relation "measure length") (auto dest!: find_sub_bound call_header_shorter simp: commentary_length)

declare find_calls.simps [simp del]

fun detect_calls :: "(utext \<Rightarrow> utext) \<Rightarrow> tool_function list \<Rightarrow> bool \<Rightarrow> int \<Rightarrow> (utext \<times> utext) list \<Rightarrow> call_item list" where
  "detect_calls fl tools fwd n [] = []"
| "detect_calls fl tools fwd n ((name, payload) # ms) =
    (if \<not> accepted_tool tools fwd name then detect_calls fl tools fwd n ms
     else case first_json_value fl payload of
       None \<Rightarrow> detect_calls fl tools fwd n ms
     | Some VNull \<Rightarrow> detect_calls fl tools fwd n ms
     | Some args \<Rightarrow> \<lparr>ci_index = n, ci_name = Some name, ci_parameters = dumps args\<rparr> # detect_calls fl tools fwd (n + 1) ms)"

definition gptoss_detect :: "(utext \<Rightarrow> utext) \<Rightarrow> tool_function list \<Rightarrow> bool \<Rightarrow> utext \<Rightarrow> parse_out" where
  "gptoss_detect fl tools fwd text =
    (let normal = (case first_existing_pos text BLOCK_OPENERS of Some i \<Rightarrow> strip (take i text) | None \<Rightarrow> text) in
     if \<not> gptoss_has text then streaming_result normal []
     else streaming_result normal (detect_calls fl tools fwd 0 (find_calls text)))"

definition gptoss_detector :: "(utext \<Rightarrow> utext) \<Rightarrow> tool_function list \<Rightarrow> bool \<Rightarrow> gptoss detector" where
  "gptoss_detector fl tools fwd =
    \<lparr>dt_has = gptoss_has, dt_detect = (\<lambda>text. ok (gptoss_detect fl tools fwd text)),
     dt_increment = (\<lambda>new g. ok (gptoss_increment fl tools fwd new g)), dt_finish = gptoss_finish,
     dt_finalize = (\<lambda>g. (g, [])), dt_closers = CLOSING_TOKENS, dt_eot = codes ''<|end|>'', dt_buffer = go_buf,
     dt_clear = (\<lambda>g. g\<lparr>go_buf := []\<rparr>), dt_arguments = (\<lambda>g. recorded_arguments (go_prev g))\<rparr>"

end
