(* ===== verification/TurnStream.thy ===== *)
theory TurnStream
  imports ToolCalls
begin

text \<open>
  Streaming detectors that are a machine of turns over a growing buffer. The locale \<open>turn_machine\<close> states
  what such a machine promises about its turns; from it follows that the stream of a text in any chunks
  delivers, character by character, what the machine delivers on the whole text at once.
\<close>

section \<open>The stream character by character\<close>

text \<open>What a client receives, without the cuts between the pieces\<close>

datatype atom = TextChar int | CallStart int utext | ArgChar int int

definition text_atoms :: "utext \<Rightarrow> atom list" where
  "text_atoms t = map TextChar t"

fun item_atoms :: "call_item list \<Rightarrow> atom list" where
  "item_atoms [] = []"
| "item_atoms (c # cs) =
    (case ci_name c of Some n \<Rightarrow> [CallStart (ci_index c) n] | None \<Rightarrow> []) @ map (ArgChar (ci_index c)) (ci_parameters c) @ item_atoms cs"

fun seg_atoms :: "segment list \<Rightarrow> atom list" where
  "seg_atoms [] = []"
| "seg_atoms (SegText t # ss) = text_atoms t @ seg_atoms ss"
| "seg_atoms (SegCalls cs # ss) = item_atoms cs @ seg_atoms ss"

lemma item_atoms_append [simp]: "item_atoms (cs @ ds) = item_atoms cs @ item_atoms ds"
  by (induction cs) simp_all

lemma seg_atoms_append [simp]: "seg_atoms (ss @ ts) = seg_atoms ss @ seg_atoms ts"
  by (induction ss rule: seg_atoms.induct) simp_all

lemma text_atoms_simps [simp]: "text_atoms [] = []" "text_atoms (s @ t) = text_atoms s @ text_atoms t"
  by (simp_all add: text_atoms_def)

lemma segments_atoms [simp]: "seg_atoms (segments_of r) = text_atoms (po_text r) @ item_atoms (po_calls r)"
  by (simp add: segments_of_def)

section \<open>Machines\<close>

text \<open>A turn yields the next state, text, items and whether the machine goes on. \<open>runs\<close> is the machine
  without the cuts between steps: the state it waits in, up to what \<open>core\<close> forgets of it, and all it delivered, or the exception.\<close>

type_synonym 's turn_result = "('s \<times> utext \<times> call_item list \<times> bool) result"

definition prepend :: "atom list \<Rightarrow> ('s \<times> atom list) result \<Rightarrow> ('s \<times> atom list) result" where
  "prepend as r = rbind r (\<lambda>(s, bs). ok (s, as @ bs))"

inductive runs :: "('s \<Rightarrow> 's) \<Rightarrow> ('s \<Rightarrow> 's turn_result) \<Rightarrow> 's \<Rightarrow> ('s \<times> atom list) result \<Rightarrow> bool" for core turn where
  runs_fails: "turn s = Inl e \<Longrightarrow> runs core turn s (Inl e)"
| runs_waits: "turn s = ok (s', t, cs, False) \<Longrightarrow> runs core turn s (ok (core s', text_atoms t @ item_atoms cs))"
| runs_on: "turn s = ok (s', t, cs, True) \<Longrightarrow> runs core turn s' r \<Longrightarrow> runs core turn s (prepend (text_atoms t @ item_atoms cs) r)"

inductive_cases runsE: "runs core turn s r"

definition resting :: "('s \<Rightarrow> 's turn_result) \<Rightarrow> 's \<Rightarrow> bool" where
  "resting turn s \<longleftrightarrow> turn s = ok (s, [], [], False)"

lemma prepend_simps [simp]:
  "prepend [] r = r" "prepend as (prepend bs r) = prepend (as @ bs) r" "prepend as (Inl e) = Inl e" "prepend as (ok (s, bs)) = ok (s, as @ bs)"
  by (cases r; simp add: prepend_def split: prod.splits)+

lemma runs_unique: "runs core turn s r \<Longrightarrow> runs core turn s r' \<Longrightarrow> r = r'"
proof (induction arbitrary: r' rule: runs.induct)
  case (runs_on s s' t cs r)
  from runs_on.prems runs_on.hyps(1) obtain r2 where "runs core turn s' r2" "r' = prepend (text_atoms t @ item_atoms cs) r2"
    by (cases rule: runs.cases) auto
  then show ?case using runs_on.IH by simp
next
  case (runs_fails s e)
  from runs_fails(2,1) show ?case by (cases rule: runs.cases) auto
next
  case (runs_waits s s' t cs)
  from runs_waits(2,1) show ?case by (cases rule: runs.cases) auto
qed

lemma quiet_runs: "resting turn s \<Longrightarrow> runs core turn s (ok (core s, []))"
  using runs_waits [of turn s s "[]" "[]" core] by (simp add: resting_def)

text \<open>Two states whose turns do the same, or wait alike\<close>

lemma runs_alike:
  assumes "turn s = turn s2 \<or> (resting turn s \<and> resting turn s2 \<and> core s = core s2)" "runs core turn s r"
  shows "runs core turn s2 r"
  using assms(1)
proof
  assume e: "turn s = turn s2"
  from assms(2) show ?thesis
    by (cases rule: runs.cases) (auto simp: e intro: runs.intros)
next
  assume a: "resting turn s \<and> resting turn s2 \<and> core s = core s2"
  then have "r = ok (core s, [])" using runs_unique [OF assms(2) quiet_runs] by blast
  then show ?thesis using a quiet_runs [of turn s2 core] by simp
qed

locale turn_machine =
  fixes turn :: "bool \<Rightarrow> 's \<Rightarrow> 's turn_result"
    and feed :: "utext \<Rightarrow> 's \<Rightarrow> 's"
    and rank :: "'s \<Rightarrow> nat"
    and idle :: "'s \<Rightarrow> bool"
    and left :: "'s \<Rightarrow> nat"
    and core :: "'s \<Rightarrow> 's"
  assumes feed_nil: "feed [] s = s"
    and feed_twice: "feed zs (feed ys s) = feed (ys @ zs) s"
    and shorter: "turn False s = ok (s', t, cs, True) \<Longrightarrow> rank s' < rank s"
    and blocked: "idle s \<Longrightarrow> turn True s = ok (s, [], [], False)"
    and free: "\<not> idle s \<Longrightarrow> turn True s = turn False s"
    and only_idle: "\<not> idle s \<Longrightarrow> turn False s = ok (s', t, cs, on) \<Longrightarrow> t = []"
    and one_kind: "turn False s = ok (s', t, cs, on) \<Longrightarrow> t = [] \<or> cs = []"
    and waits: "turn False s = ok (s', t, cs, False) \<Longrightarrow> resting (turn False) s'"
    and push: "turn False s = ok (s', t, cs, on) \<Longrightarrow> runs core (turn False) (feed ys s') r
      \<Longrightarrow> runs core (turn False) (feed ys s) (prepend (text_atoms t @ item_atoms cs) r)"
    and push_fails: "turn False s = Inl e \<Longrightarrow> turn False (feed ys s) = Inl e"
    and core_feed: "runs core (turn False) (feed ys s) r \<Longrightarrow> runs core (turn False) (feed ys (core s)) r"
    and core_feed_back: "runs core (turn False) (feed ys (core s)) r \<Longrightarrow> runs core (turn False) (feed ys s) r"
    and left_grows: "left (feed ys s) \<le> left (feed (ys @ zs) s)"
    and left_turn: "turn False s = ok (s', t, cs, on) \<Longrightarrow> left (feed ys s') \<le> left (feed ys s)"
    and left_call: "turn False s = ok (s', t, cs, True) \<Longrightarrow> \<not> idle s \<Longrightarrow> idle s' \<Longrightarrow> left (feed ys s') < left (feed ys s)"
    and opens: "turn False s = ok (s', t, cs, on) \<Longrightarrow> idle s \<Longrightarrow> cs \<noteq> [] \<Longrightarrow> \<not> idle s'"
begin

lemma runs_total: "\<exists>r. runs core (turn False) s r"
proof (induction "rank s" arbitrary: s rule: less_induct)
  case less
  show ?case
  proof (cases "turn False s")
    case (Inl e)
    from exI [of "runs core (turn False) s", OF runs_fails [of "turn False", OF this]] show ?thesis .
  next
    case (Inr x)
    obtain s' t cs on where x: "x = (s', t, cs, on)" by (metis prod_cases4)
    show ?thesis
    proof (cases on)
      case True
      then have t: "turn False s = ok (s', t, cs, True)" using Inr x by simp
      obtain r where "runs core (turn False) s' r" using less.hyps [OF shorter [OF t]] by blast
      from exI [of "runs core (turn False) s", OF runs_on [of "turn False", OF t this]] show ?thesis .
    next
      case False
      then have t: "turn False s = ok (s', t, cs, False)" using Inr x by simp
      from exI [of "runs core (turn False) s", OF runs_waits [of "turn False", OF t]] show ?thesis .
    qed
  qed
qed

text \<open>The machine may be stopped and fed at any point.\<close>

lemma runs_push:
  assumes "runs core (turn False) s (ok (s1, as))" "runs core (turn False) (feed ys s1) r"
  shows "runs core (turn False) (feed ys s) (prepend as r)"
  using assms
proof (induction "rank s" arbitrary: s as rule: less_induct)
  case less
  from less.prems(1) show ?case
  proof (cases rule: runs.cases)
    case (runs_waits s' t cs)
    then have r: "runs core (turn False) (feed ys s') r" using core_feed_back less.prems(2) by simp
    from push [OF runs_waits(3) r] show ?thesis using runs_waits(2) by simp
  next
    case (runs_on s' t cs r')
    then obtain bs where r': "r' = ok (s1, bs)" "as = text_atoms t @ item_atoms cs @ bs"
      by (cases r') (auto simp: prepend_def)
    have "runs core (turn False) (feed ys s') (prepend bs r)"
      using less.hyps [OF shorter [OF runs_on(2)] _ less.prems(2)] runs_on(3) r'(1) by simp
    from push [OF runs_on(2) this] show ?thesis using r'(2) by simp
  qed
qed

lemma runs_push_fails: "runs core (turn False) s (Inl e) \<Longrightarrow> runs core (turn False) (feed ys s) (Inl e)"
proof (induction "rank s" arbitrary: s rule: less_induct)
  case less
  from less.prems show ?case
  proof (cases rule: runs.cases)
    case runs_fails
    from runs.runs_fails [of "turn False", OF push_fails [OF this]] show ?thesis .
  next
    case (runs_on s' t cs r')
    then have "r' = Inl e" by (cases r') (auto simp: prepend_def split: prod.splits)
    then have "runs core (turn False) (feed ys s') (Inl e)" using less.hyps [OF shorter [OF runs_on(2)]] runs_on(3) by simp
    from push [OF runs_on(2) this] show ?thesis by simp
  qed
qed

end

section \<open>Steps, chunks and streams\<close>

text \<open>A step of a stream is a run of turns that stops at idle once it has a call; a detector feeds a chunk and
  makes steps.\<close>

locale stream_machine = turn_machine turn feed rank idle left core
  for turn :: "bool \<Rightarrow> 's \<Rightarrow> 's turn_result" and feed rank idle left core +
  fixes loop :: "bool \<Rightarrow> 's \<Rightarrow> ('s \<times> utext \<times> call_item list) result"
    and d :: "'s detector"
  assumes loop_unfold: "loop had s =
      rbind (turn had s) (\<lambda>(s', t, cs, on).
        if on then rbind (loop (had \<or> cs \<noteq> []) s') (\<lambda>(s'', t', cs'). ok (s'', t @ t', cs @ cs')) else ok (s', t, cs))"
    and increment: "dt_increment d new s = rbind (loop False (feed new s)) (\<lambda>(s', t, cs). ok (s', streaming_result t cs))"
begin

lemma turn_cases: "turn had s = (if had \<and> idle s then ok (s, [], [], False) else turn False s)"
  using blocked free by (cases had) auto

lemma loop_blocked: "idle s \<Longrightarrow> loop True s = ok (s, [], [])"
  by (subst loop_unfold) (simp add: blocked)

lemma loop_runs:
  "(case loop had s of Inl e \<Rightarrow> runs core (turn False) s (Inl e)
    | Inr (s1, t, cs) \<Rightarrow> (had \<longrightarrow> t = []) \<and> (\<forall>r. runs core (turn False) s1 r \<longrightarrow> runs core (turn False) s (prepend (text_atoms t @ item_atoms cs) r)))"
proof (induction "rank s" arbitrary: s had rule: less_induct)
  case less
  show ?case
  proof (cases "had \<and> idle s")
    case True
    then show ?thesis using loop_blocked by simp
  next
    case False
    then have tf: "turn had s = turn False s" by (subst turn_cases) (rule if_not_P)
    show ?thesis
    proof (cases "turn False s")
      case (Inl e)
      have "loop had s = Inl e" by (subst loop_unfold) (simp add: tf Inl)
      then show ?thesis using runs_fails [of "turn False", OF Inl] by simp
    next
      case (Inr x)
      obtain s' t0 cs0 on where x: "x = (s', t0, cs0, on)" by (metis prod_cases4)
      have tu: "turn False s = ok (s', t0, cs0, on)" using Inr x by simp
      have t0: "had \<longrightarrow> t0 = []" using only_idle [OF _ tu] False by blast
      show ?thesis
      proof (cases on)
        case off: False
        have l: "loop had s = ok (s', t0, cs0)" by (subst loop_unfold) (simp add: tf tu off)
        have w: "turn False s = ok (s', t0, cs0, False)" using tu off by simp
        have "runs core (turn False) s (prepend (text_atoms t0 @ item_atoms cs0) r)" if "runs core (turn False) s' r" for r
          using runs_unique [OF that quiet_runs [OF waits [OF w]]] runs_waits [of "turn False", OF w] by simp
        then show ?thesis using l t0 by simp
      next
        case True
        have w: "turn False s = ok (s', t0, cs0, True)" using tu True by simp
        note ih = less.hyps [OF shorter [OF w], of "had \<or> cs0 \<noteq> []"]
        have l: "loop had s = rbind (loop (had \<or> cs0 \<noteq> []) s') (\<lambda>(s'', t', cs'). ok (s'', t0 @ t', cs0 @ cs'))"
          by (subst loop_unfold) (simp add: tf tu True)
        show ?thesis
        proof (cases "loop (had \<or> cs0 \<noteq> []) s'")
          case (Inl e)
          then have "runs core (turn False) s' (Inl e)" using ih by simp
          from runs_on [of "turn False", OF w this] show ?thesis using l Inl by simp
        next
          case (Inr y)
          obtain s1 t1 cs1 where y: "y = (s1, t1, cs1)" by (metis prod_cases3)
          then have i: "had \<or> cs0 \<noteq> [] \<longrightarrow> t1 = []" "\<And>r. runs core (turn False) s1 r \<Longrightarrow> runs core (turn False) s' (prepend (text_atoms t1 @ item_atoms cs1) r)"
            using ih Inr by simp_all
          have e: "(text_atoms t0 @ item_atoms cs0) @ (text_atoms t1 @ item_atoms cs1) = text_atoms (t0 @ t1) @ item_atoms (cs0 @ cs1)"
            using one_kind [OF w] i(1) by (cases "cs0 = []") auto
          have "runs core (turn False) s (prepend (text_atoms (t0 @ t1) @ item_atoms (cs0 @ cs1)) r)" if "runs core (turn False) s1 r" for r
            using runs_on [of "turn False", OF w i(2) [OF that]] by (simp only: prepend_simps(2) e)
          then show ?thesis using l Inr y i(1) t0 by simp
        qed
      qed
    qed
  qed
qed

lemma loop_left:
  "loop had s = ok (s1, t, cs) \<Longrightarrow> left (feed ys s1) \<le> left (feed ys s) \<and>
    (resting (turn False) s1 \<or> (left (feed ys s1) < left (feed ys s) \<and> (had \<or> cs \<noteq> [])) \<or> (had \<and> idle s \<and> s1 = s))"
proof (induction "rank s" arbitrary: s had t cs rule: less_induct)
  case less
  show ?case
  proof (cases "had \<and> idle s")
    case True
    then show ?thesis using less.prems loop_blocked by simp
  next
    case False
    then have tf: "turn had s = turn False s" by (subst turn_cases) (rule if_not_P)
    obtain s' t0 cs0 on where tu: "turn False s = ok (s', t0, cs0, on)"
      using less.prems by (subst (asm) loop_unfold) (auto simp: rbind_eq_Inr tf)
    note le = left_turn [OF tu, of ys]
    show ?thesis
    proof (cases on)
      case off: False
      then have "s1 = s'" using less.prems by (subst (asm) loop_unfold) (simp add: tf tu)
      then show ?thesis using waits tu off le by simp
    next
      case True
      have w: "turn False s = ok (s', t0, cs0, True)" using tu True by simp
      obtain t1 cs1 where l: "loop (had \<or> cs0 \<noteq> []) s' = ok (s1, t1, cs1)" "cs = cs0 @ cs1"
        using less.prems True by (subst (asm) loop_unfold) (auto simp: tf tu rbind_eq_Inr)
      have "left (feed ys s') < left (feed ys s)" if "had \<or> cs0 \<noteq> []" "idle s'"
        using that False opens [OF tu] left_call [OF w] by blast
      with less.hyps [OF shorter [OF w] l(1)] le l(2) show ?thesis by auto
    qed
  qed
qed

lemma rest_loop: "resting (turn False) s \<Longrightarrow> loop False s = ok (s, [], [])"
  by (subst loop_unfold) (simp add: resting_def)

lemma rest_drain: "resting (turn False) s \<Longrightarrow> drain_chunk d n [] s = ok (s, [])"
  by (cases n) (simp_all add: increment feed_nil rest_loop)

text \<open>A chunk is drained when there are more steps than calls it can still deliver.\<close>

lemma drain_runs:
  "left (feed new s) < n \<Longrightarrow>
    (case drain_chunk d n new s of Inl e \<Rightarrow> runs core (turn False) (feed new s) (Inl e)
     | Inr (s2, segs) \<Rightarrow> runs core (turn False) (feed new s) (ok (core s2, seg_atoms segs)) \<and> resting (turn False) s2
         \<and> (\<forall>ys. left (feed ys s2) \<le> left (feed (new @ ys) s)))"
proof (induction n arbitrary: new s)
  case (Suc n)
  note run = loop_runs [where had = False and s = "feed new s"]
  show ?case
  proof (cases "loop False (feed new s)")
    case (Inl e)
    then show ?thesis using run by (simp add: increment)
  next
    case (Inr x)
    obtain s1 t cs where x: "x = (s1, t, cs)" by (metis prod_cases3)
    then have l: "loop False (feed new s) = ok (s1, t, cs)" using Inr by simp
    have r1: "runs core (turn False) (feed new s) (prepend (text_atoms t @ item_atoms cs) r)" if "runs core (turn False) s1 r" for r
      using run l that by simp
    have left1: "left (feed ys s1) \<le> left (feed (new @ ys) s) \<and>
      (resting (turn False) s1 \<or> (left (feed ys s1) < left (feed (new @ ys) s) \<and> cs \<noteq> []))" for ys
      using loop_left [OF l, of ys] by (auto simp: feed_twice)
    show ?thesis
    proof (cases "resting (turn False) s1")
      case True
      have dr: "drain_chunk d (Suc n) new s = ok (s1, if new = [] \<and> cs = [] \<and> t = [] then [] else segments_of (streaming_result t cs))"
        using l rest_drain [OF True] by (simp add: increment)
      have "seg_atoms (if new = [] \<and> cs = [] \<and> t = [] then [] else segments_of (streaming_result t cs)) = text_atoms t @ item_atoms cs"
        by simp
      then show ?thesis using r1 [OF quiet_runs [OF True]] True left1 unfolding dr by simp
    next
      case False
      then have strict: "left (feed ys s1) < left (feed (new @ ys) s)" "cs \<noteq> []" for ys using left1 by auto
      have "left (feed [] s1) < n" using strict(1) [of "[]"] Suc.prems by simp
      from Suc.IH [OF this] have ih: "case drain_chunk d n [] s1 of Inl e \<Rightarrow> runs core (turn False) s1 (Inl e)
        | Inr (s2, segs) \<Rightarrow> runs core (turn False) s1 (ok (core s2, seg_atoms segs)) \<and> resting (turn False) s2 \<and> (\<forall>ys. left (feed ys s2) \<le> left (feed ys s1))"
        unfolding feed_nil append_Nil .
      have dr: "drain_chunk d (Suc n) new s = rbind (drain_chunk d n [] s1) (\<lambda>(s2, segs). ok (s2, segments_of (streaming_result t cs) @ segs))"
        using l strict(2) by (simp add: increment)
      show ?thesis
      proof (cases "drain_chunk d n [] s1")
        case (Inl e)
        then show ?thesis using ih r1 [of "Inl e"] unfolding dr by simp
      next
        case (Inr y)
        obtain s2 segs where y: "y = (s2, segs)" by (cases y)
        then have i: "runs core (turn False) s1 (ok (core s2, seg_atoms segs))" "resting (turn False) s2" "\<forall>ys. left (feed ys s2) \<le> left (feed ys s1)"
          using ih Inr by simp_all
        moreover have "left (feed ys s2) \<le> left (feed (new @ ys) s)" for ys using i(3) strict(1) by (meson less_imp_le order_trans)
        ultimately show ?thesis using r1 [OF i(1)] Inr y unfolding dr by simp
      qed
    qed
  qed
qed simp

lemma stream_runs:
  assumes "tools \<noteq> []"
  shows "resting (turn False) s \<Longrightarrow> left (feed (concat cs) s) < 16 \<Longrightarrow>
    runs core (turn False) (feed (concat cs) s) (rbind (stream_chunks d tools cs s) (\<lambda>(s2, segs). ok (core s2, seg_atoms segs)))"
proof (induction cs arbitrary: s)
  case Nil
  then show ?case using quiet_runs [of "turn False" s core] by (simp add: feed_nil)
next
  case (Cons c cs)
  have "left (feed c s) < 16" using left_grows [of c s "concat cs"] Cons.prems(2) by simp
  note dr = drain_runs [OF this]
  show ?case
  proof (cases "drain_chunk d 16 c s")
    case (Inl e)
    then have "runs core (turn False) (feed (concat cs) (feed c s)) (Inl e)" using dr runs_push_fails by simp
    then show ?thesis using Inl assms by (simp add: parse_stream_events_def feed_twice)
  next
    case (Inr x)
    obtain s1 segs where x: "x = (s1, segs)" by (cases x)
    then have r: "runs core (turn False) (feed c s) (ok (core s1, seg_atoms segs))" "resting (turn False) s1" "left (feed (concat cs) s1) \<le> left (feed (c @ concat cs) s)"
      using dr Inr by simp_all
    have "left (feed (concat cs) s1) < 16" using r(3) Cons.prems(2) by simp
    note runs_push [OF r(1) core_feed [OF Cons.IH [OF r(2) this]]]
    moreover have "prepend (seg_atoms segs) (rbind q (\<lambda>(s2, segs). ok (core s2, seg_atoms segs)))
      = rbind (rbind q (\<lambda>(s'', segs'). ok (s'', segs @ segs'))) (\<lambda>(s2, segs). ok (core s2, seg_atoms segs))" for q :: "('s \<times> segment list) result"
      by (cases q) (auto simp: prepend_def)
    ultimately show ?thesis using Inr x assms by (simp add: parse_stream_events_def feed_twice)
  qed
qed

end

end
