(* ===== verification/GptOssProps.thy ===== *)
theory GptOssProps
  imports GptOss TurnStream
begin

text \<open>
  The gpt-oss tool call stream: whatever the chunks, it delivers what a reading of the whole text finds.
\<close>

section \<open>The machine\<close>

text \<open>The machine without the cuts between the steps\<close>


type_synonym machine = "(utext \<Rightarrow> utext) \<times> tool_function list \<times> bool"

abbreviation turn :: "machine \<Rightarrow> bool \<Rightarrow> gptoss \<Rightarrow> gptoss \<times> utext \<times> call_item list \<times> bool" where
  "turn d had g \<equiv> (case d of (fl, tools, fwd) \<Rightarrow> loop_turn fl tools fwd had g)"

function turn_run :: "machine \<Rightarrow> gptoss \<Rightarrow> gptoss \<times> atom list" where
  "turn_run d g =
    (case turn d False g of
       (g', t, cs, goes_on) \<Rightarrow>
         (if goes_on then (case turn_run d g' of (g'', as) \<Rightarrow> (g'', text_atoms t @ item_atoms cs @ as))
          else (g', text_atoms t @ item_atoms cs)))"
  by pat_completeness auto

termination turn_run
  by (relation "measure (\<lambda>(d, g). turn_measure g)") (auto dest: turn_decreases [OF sym] split: prod.splits)

declare turn_run.simps [simp del]

definition fed :: "utext \<Rightarrow> gptoss \<Rightarrow> gptoss" where
  "fed ys g = g\<lparr>go_buf := go_buf g @ ys\<rparr>"

abbreviation gturn :: "machine \<Rightarrow> bool \<Rightarrow> gptoss \<Rightarrow> gptoss turn_result" where
  "gturn d had g \<equiv> ok (turn d had g)"

definition at_rest :: "machine \<Rightarrow> gptoss \<Rightarrow> bool" where
  "at_rest d g \<longleftrightarrow> resting (gturn d False) g"

lemma at_rest_turn: "at_rest d g \<longleftrightarrow> turn d False g = (g, [], [], False)"
  by (simp add: at_rest_def resting_def)

lemma runs_run: "runs (\<lambda>g. g) (gturn d False) g (ok (turn_run d g))"
proof (induction d g rule: turn_run.induct)
  case (1 d g)
  obtain g' t cs on where t: "turn d False g = (g', t, cs, on)" by (metis prod_cases4)
  show ?case
  proof (cases on)
    case True
    obtain h as where h: "turn_run d g' = (h, as)" by (cases "turn_run d g'")
    have "turn_run d g = (h, text_atoms t @ item_atoms cs @ as)" by (subst turn_run.simps) (simp add: t True h)
    moreover have "gturn d False g = ok (g', t, cs, True)" using t True by simp
    from runs_on [of "gturn d False", OF this "1.IH" [OF t [symmetric] refl refl True]]
    have "runs (\<lambda>g. g) (gturn d False) g (prepend (text_atoms t @ item_atoms cs) (ok (h, as)))" unfolding h .
    ultimately show ?thesis by simp
  next
    case False
    have "gturn d False g = ok (g', t, cs, False)" using t False by simp
    from runs_waits [of "gturn d False", OF this, of "\<lambda>g. g"]
    have "runs (\<lambda>g. g) (gturn d False) g (ok (g', text_atoms t @ item_atoms cs))" .
    moreover have "turn_run d g = (g', text_atoms t @ item_atoms cs)" by (subst turn_run.simps) (simp add: t False)
    ultimately show ?thesis by simp
  qed
qed

lemma run_of_runs: "runs (\<lambda>g. g) (gturn d False) g r \<Longrightarrow> r = ok (turn_run d g)"
  by (rule runs_unique [OF _ runs_run])

lemma quiet_run: "at_rest d g \<Longrightarrow> turn_run d g = (g, [])"
  by (subst turn_run.simps) (simp add: at_rest_turn)

lemma fed_simps [simp]: "go_buf (fed ys g) = go_buf g @ ys" "go_mode (fed ys g) = go_mode g" "fed [] g = g"
  "fed zs (fed ys g) = fed (ys @ zs) g"
  by (simp_all add: fed_def)


section \<open>A turn on a longer buffer\<close>

lemma marker_sets: "marker_set BLOCK_OPENERS" "marker_set BOUNDARIES"
  by (simp_all add: marker_set_def BLOCK_OPENERS_def CLOSING_TOKENS_def codes_def)

lemma buf_commutes [simp]:
  "open_tool n (g\<lparr>go_buf := b\<rparr>) = (open_tool n g)\<lparr>go_buf := b\<rparr>"
  "add_piece p (g\<lparr>go_buf := b\<rparr>) = (add_piece p g)\<lparr>go_buf := b\<rparr>"
  "close_tool fl (g\<lparr>go_buf := b\<rparr>) = (close_tool fl g)\<lparr>go_buf := b\<rparr>"
  "piece_items p (g\<lparr>go_buf := b\<rparr>) = piece_items p g"
  by (simp_all add: open_tool_def add_piece_def close_tool_def piece_items_def Let_def)

lemma fed_buf: "fed ys (g\<lparr>go_buf := b\<rparr>) = g\<lparr>go_buf := b @ ys\<rparr>"
  by (simp add: fed_def)

lemma set_own_buf: "go_buf g = b \<Longrightarrow> g\<lparr>go_buf := b\<rparr> = g"
  by simp

lemma text_turn_push:
  assumes "text_turn tools fwd g = (g', t, cs, True)"
  shows "text_turn tools fwd (fed ys g) = (fed ys g', t, cs, True)"
proof -
  obtain pos tok where e: "earliest BLOCK_OPENERS (go_buf g) = Some (pos, tok)"
    using assms by (auto simp: text_turn_def Let_def split: option.splits)
  have e': "earliest BLOCK_OPENERS (go_buf g @ ys) = Some (pos, tok)" using earliest_append [OF e marker_sets(1)] .
  have b: "pos \<le> length (go_buf g)" using earliest_bound [OF e] by simp
  show ?thesis
  proof (cases "pos > 0")
    case True
    then show ?thesis using assms b by (auto simp: text_turn_def e e' Let_def fed_def)
  next
    case False
    then obtain m where m: "find_sub MESSAGE_TOKEN (go_buf g) = Some m"
      using assms e by (auto simp: text_turn_def Let_def split: option.splits)
    have m': "find_sub MESSAGE_TOKEN (go_buf g @ ys) = Some m" "m + length MESSAGE_TOKEN \<le> length (go_buf g)"
      using find_sub_append [OF m] find_sub_bound [OF m] by auto
    show ?thesis using assms False m' by (auto simp: text_turn_def e e' m Let_def fed_def split: option.splits)
  qed
qed

lemma body_turn_push:
  assumes "body_turn fl g = (g', t, cs, True)"
  shows "body_turn fl (fed ys g) = (fed ys g', t, cs, True)"
proof -
  obtain pos tok where e: "earliest BOUNDARIES (go_buf g) = Some (pos, tok)"
    using assms by (auto simp: body_turn_def Let_def split: option.splits if_splits)
  have e': "earliest BOUNDARIES (go_buf g @ ys) = Some (pos, tok)" using earliest_append [OF e marker_sets(2)] .
  have b: "pos + length tok \<le> length (go_buf g)" using earliest_bound [OF e] .
  show ?thesis using assms b
    by (auto simp: body_turn_def e e' Let_def fed_def piece_items_def split: if_splits)
qed

lemma gpt_turn_push:
  assumes "turn d False g = (g', t, cs, True)"
  shows "turn d False (fed ys g) = (fed ys g', t, cs, True)"
  using assms text_turn_push body_turn_push by (auto simp: loop_turn_def split: prod.splits if_splits)

lemma run_push_goes_on:
  assumes "turn d False g = (g', t, cs, True)" "turn_run d (fed ys g') = (h, as)"
  shows "turn_run d (fed ys g) = (h, text_atoms t @ item_atoms cs @ as)"
  using gpt_turn_push [OF assms(1)] assms(2) by (subst turn_run.simps) simp

section \<open>A turn that waits for more text\<close>

lemma add_piece_twice [simp]: "add_piece q (add_piece p g) = add_piece (p @ q) g"
  by (cases "nat (go_id g) < length (go_streamed g)") (simp_all add: add_piece_def list_update_beyond)

lemma add_piece_nil [simp]: "add_piece [] g = g"
  by (cases "nat (go_id g) < length (go_streamed g)") (simp_all add: add_piece_def list_update_beyond)

lemma add_piece_id [simp]: "go_id (add_piece p g) = go_id g"
  by (simp add: add_piece_def)

lemma piece_atoms [simp]: "item_atoms (piece_items p g) = map (ArgChar (go_id g)) p"
  by (simp add: piece_items_def)

lemma held_nil [simp]: "held_suffix toks [] = 0"
  using held_suffix_le [of toks "[]"] by simp

lemma earliest_nil: "earliest BLOCK_OPENERS [] = None" "earliest BOUNDARIES [] = None"
  using block_openers closing_tokens by (auto simp: earliest_None)

lemma empty_turns: "go_buf g = [] \<Longrightarrow> text_turn tools fwd g = (g, [], [], False) \<and> body_turn fl g = (g, [], [], False)"
  by (auto simp: text_turn_def body_turn_def earliest_nil Let_def)

lemma gpt_turn_cases: "loop_turn fl tools fwd False g = (if go_mode g = GText then text_turn tools fwd g else body_turn fl g)"
  using empty_turns [of g tools fwd fl] by (simp add: loop_turn_def)

text \<open>The body turn with the piece of a skipped body dropped\<close>

lemma body_turn_none:
  assumes "earliest BOUNDARIES (go_buf g) = None" "p = take (length (go_buf g) - held_suffix BOUNDARIES (go_buf g)) (go_buf g)"
  shows "body_turn fl g = (if go_mode g = GTool
    then ((add_piece p g)\<lparr>go_buf := drop (length p) (go_buf g)\<rparr>, [], piece_items p g, False)
    else (g\<lparr>go_buf := drop (length p) (go_buf g)\<rparr>, [], [], False))"
  using assms(1) by (cases "p = []") (auto simp: body_turn_def Let_def assms(2)[symmetric] piece_items_def)

lemma text_turn_waits:
  assumes "text_turn tools fwd g = (g', t, cs, False)"
  obtains "g' = g" "t = []" "cs = []"
  | h where "earliest BLOCK_OPENERS (go_buf g) = None" "h = length (go_buf g) - held_suffix BLOCK_OPENERS (go_buf g)"
      "g' = g\<lparr>go_buf := drop h (go_buf g)\<rparr>" "t = take h (go_buf g)" "cs = []" "h \<le> length (go_buf g)"
proof (cases "earliest BLOCK_OPENERS (go_buf g)")
  case None
  then show ?thesis using assms that(2) [of "length (go_buf g) - held_suffix BLOCK_OPENERS (go_buf g)"]
    by (auto simp: text_turn_def Let_def)
next
  case (Some pt)
  then show ?thesis using assms that(1) by (auto simp: text_turn_def Let_def split: if_splits option.splits prod.splits)
qed

lemma body_turn_waits:
  assumes "body_turn fl g = (g', t, cs, False)"
  obtains h where "earliest BOUNDARIES (go_buf g) = None" "h = length (go_buf g) - held_suffix BOUNDARIES (go_buf g)"
    "g' = (if go_mode g = GTool then add_piece (take h (go_buf g)) g else g)\<lparr>go_buf := drop h (go_buf g)\<rparr>" "t = []"
    "cs = (if go_mode g = GTool then piece_items (take h (go_buf g)) g else [])" "h \<le> length (go_buf g)"
proof (cases "earliest BOUNDARIES (go_buf g)")
  case None
  show ?thesis using assms body_turn_none [OF None refl, of fl] None
    by (intro that [of "length (go_buf g) - held_suffix BOUNDARIES (go_buf g)"]) (auto split: if_splits)
next
  case (Some pt)
  then show ?thesis using assms by (auto simp: body_turn_def Let_def split: if_splits prod.splits)
qed

lemma held_drop_all:
  assumes "h = length xs - held_suffix toks xs"
  shows "held_suffix toks (drop h xs) = length (drop h xs)"
  using held_suffix_drop [of h xs toks] assms held_suffix_le [of toks xs] by simp

lemma waits_quiet:
  assumes "turn d False g = (g', t, cs, False)"
  shows "at_rest d g'"
proof -
  obtain fl tools fwd where d: "d = (fl, tools, fwd)" by (cases d)
  show ?thesis
  proof (cases "go_mode g = GText")
    case True
    then have "text_turn tools fwd g = (g', t, cs, False)" using assms d gpt_turn_cases by simp
    then show ?thesis
    proof (cases rule: text_turn_waits)
      case 1
      then show ?thesis using assms by (simp add: at_rest_turn)
    next
      case (2 h)
      have "text_turn tools fwd g' = (g', [], [], False)"
        using 2(3) earliest_drop_None [OF 2(1), of h] held_drop_all [OF 2(2)] by (auto simp: text_turn_def Let_def)
      then show ?thesis using True 2(3) d by (simp add: at_rest_turn gpt_turn_cases)
    qed
  next
    case False
    then have "body_turn fl g = (g', t, cs, False)" using assms d gpt_turn_cases by simp
    then obtain h where h: "earliest BOUNDARIES (go_buf g) = None" "h = length (go_buf g) - held_suffix BOUNDARIES (go_buf g)"
      "g' = (if go_mode g = GTool then add_piece (take h (go_buf g)) g else g)\<lparr>go_buf := drop h (go_buf g)\<rparr>"
      by (rule body_turn_waits)
    have "body_turn fl g' = (g', [], [], False)"
      using h(3) earliest_drop_None [OF h(1), of h] held_drop_all [OF h(2)] by (auto simp: body_turn_def Let_def)
    moreover have "go_mode g' = go_mode g" using h(3) by simp
    ultimately show ?thesis using False d by (simp add: at_rest_turn gpt_turn_cases)
  qed
qed


lemma text_waits_push:
  assumes "text_turn tools fwd g = (g', t, cs, False)" "text_turn tools fwd (fed ys g') = (u, t2, cs2, on)"
  shows "(t = [] \<and> cs = [] \<and> g' = g) \<or> (cs = [] \<and> text_turn tools fwd (fed ys g) = (fed ys g', t, [], True))
    \<or> (cs = [] \<and> text_turn tools fwd (fed ys g) = (u, t @ t2, cs2, on))"
  using assms(1)
proof (cases rule: text_turn_waits)
  case (2 h)
  obtain xs where xs: "go_buf g @ ys = xs" by blast
  have d: "go_buf (fed ys g) = xs" "go_buf (fed ys g') = drop h xs" "take h xs = t" using 2 xs by auto
  have up: "(fed ys g')\<lparr>go_buf := b\<rparr> = (fed ys g)\<lparr>go_buf := b\<rparr>" for b using 2(3) by (simp add: fed_def)
  show ?thesis
  proof (cases "earliest BLOCK_OPENERS xs")
    case None
    let ?k = "length xs - held_suffix BLOCK_OPENERS xs"
    have le: "h \<le> ?k" using held_grows [of "go_buf g" BLOCK_OPENERS ys] 2(2) xs by simp
    have l: "length (drop h xs) - held_suffix BLOCK_OPENERS (drop h xs) = ?k - h"
      unfolding held_suffix_drop [OF le] by simp
    have "text_turn tools fwd (fed ys g') = ((fed ys g)\<lparr>go_buf := drop ?k xs\<rparr>, take (?k - h) (drop h xs), [], False)"
      using earliest_drop_None [OF None, of h] cut_at(2) [OF le, of xs]
      unfolding text_turn_def d Let_def l up by simp
    moreover have "text_turn tools fwd (fed ys g) = ((fed ys g)\<lparr>go_buf := drop ?k xs\<rparr>, take ?k xs, [], False)"
      using None d by (simp add: text_turn_def Let_def)
    ultimately show ?thesis using assms(2) cut_at(1) [OF le, of xs] d(3) 2(5) by auto
  next
    case (Some pt)
    then obtain pos tok where e: "earliest BLOCK_OPENERS xs = Some (pos, tok)" by (cases pt) simp
    have le: "h \<le> pos" using earliest_late [OF 2(1), of ys pos tok BLOCK_OPENERS] 2(2) xs e by simp
    have e2: "earliest BLOCK_OPENERS (drop h xs) = Some (pos - h, tok)" using earliest_drop [OF e le] .
    consider "pos = 0" | "pos > 0" "pos = h" | "pos > h" using le by linarith
    then show ?thesis
    proof cases
      case 1
      then show ?thesis using le 2 by simp
    next
      case 3
      have "text_turn tools fwd (fed ys g') = ((fed ys g)\<lparr>go_buf := drop pos xs\<rparr>, take (pos - h) (drop h xs), [], True)"
        using 3 e2 cut_at(2) [OF le, of xs] unfolding text_turn_def d Let_def up by simp
      moreover have "text_turn tools fwd (fed ys g) = ((fed ys g)\<lparr>go_buf := drop pos xs\<rparr>, take pos xs, [], True)"
        using 3 e d by (simp add: text_turn_def Let_def)
      ultimately show ?thesis using assms(2) cut_at(1) [OF le, of xs] d(3) 2(5) by auto
    next
      case p: 2
      have "fed ys g' = (fed ys g)\<lparr>go_buf := drop pos xs\<rparr>" using 2(3) d p by (simp add: fed_def)
      then show ?thesis using p e d 2(5) by (simp add: text_turn_def Let_def)
    qed
  qed
qed simp

text \<open>What a body turn does with a piece that ends the call, or not\<close>

definition take_piece :: "utext \<Rightarrow> gptoss \<Rightarrow> gptoss" where
  "take_piece p g = (if go_mode g = GTool then add_piece p g else g)"

definition piece_out :: "utext \<Rightarrow> gptoss \<Rightarrow> call_item list" where
  "piece_out p g = (if go_mode g = GTool then piece_items p g else [])"

lemma body_turn_pieces:
  "earliest BOUNDARIES (go_buf g) = None \<Longrightarrow>
    (let p = take (length (go_buf g) - held_suffix BOUNDARIES (go_buf g)) (go_buf g) in
     body_turn fl g = ((take_piece p g)\<lparr>go_buf := drop (length p) (go_buf g)\<rparr>, [], piece_out p g, False))"
  "earliest BOUNDARIES (go_buf g) = Some (pos, tok) \<Longrightarrow>
    body_turn fl g = (((if go_mode g = GTool then close_tool fl else id) (take_piece (take pos (go_buf g)) g))
      \<lparr>go_buf := drop (if tok \<in> set CLOSING_TOKENS then pos + length tok else pos) (go_buf g), go_mode := GText\<rparr>,
      [], piece_out (take pos (go_buf g)) g, True)"
  using body_turn_none [of g _ fl] by (auto simp: body_turn_def take_piece_def piece_out_def piece_items_def Let_def)

lemma piece_twice: "take_piece q (take_piece p g) = take_piece (p @ q) g"
  "item_atoms (piece_out p g) @ item_atoms (piece_out q g) = item_atoms (piece_out (p @ q) g)"
  by (simp_all add: take_piece_def piece_out_def)

lemma body_waits_push:
  assumes "body_turn fl g = (g', t, cs, False)" "body_turn fl (fed ys g') = (u, t2, cs2, on)"
  shows "\<exists>cs3. body_turn fl (fed ys g) = (u, [], cs3, on) \<and> t = [] \<and> t2 = [] \<and> item_atoms cs3 = item_atoms cs @ item_atoms cs2"
proof -
  obtain h where h: "earliest BOUNDARIES (go_buf g) = None" "h = length (go_buf g) - held_suffix BOUNDARIES (go_buf g)"
    "g' = (if go_mode g = GTool then add_piece (take h (go_buf g)) g else g)\<lparr>go_buf := drop h (go_buf g)\<rparr>" "t = []"
    "cs = (if go_mode g = GTool then piece_items (take h (go_buf g)) g else [])" "h \<le> length (go_buf g)"
    using assms(1) by (rule body_turn_waits)
  obtain xs where xs: "go_buf g @ ys = xs" by blast
  have d: "go_buf (fed ys g) = xs" "go_buf (fed ys g') = drop h xs" "take h (go_buf g) = take h xs" using h xs by auto
  have up: "(take_piece q (fed ys g'))\<lparr>go_buf := b\<rparr> = (take_piece (take h xs @ q) (fed ys g))\<lparr>go_buf := b\<rparr>"
    "go_mode (fed ys g') = go_mode g" for b q
    using h(3) d(3) by (simp_all add: fed_def take_piece_def)
  have out: "item_atoms (piece_out (take h xs @ q) (fed ys g)) = item_atoms cs @ item_atoms (piece_out q (fed ys g'))" for q
    using h(3,5) d(3) by (simp add: fed_def piece_out_def)
  show ?thesis
  proof (cases "earliest BOUNDARIES xs")
    case None
    obtain k where k: "k = length xs - held_suffix BOUNDARIES xs" by blast
    have le: "h \<le> k" using held_grows [of "go_buf g" BOUNDARIES ys] h(2) xs k by simp
    have l: "length (drop h xs) - held_suffix BOUNDARIES (drop h xs) = k - h"
      using held_suffix_drop [of h xs BOUNDARIES] le k by simp
    have kk: "length (take k xs) = k" "length (take (k - h) (drop h xs)) = k - h" using k by simp_all
    have "body_turn fl (fed ys g') = ((take_piece (take (k - h) (drop h xs)) (fed ys g'))\<lparr>go_buf := drop k xs\<rparr>, [],
        piece_out (take (k - h) (drop h xs)) (fed ys g'), False)"
      using body_turn_pieces(1) [of "fed ys g'" fl, unfolded d l Let_def kk cut_at(2) [OF le], OF earliest_drop_None [OF None]] .
    moreover have "body_turn fl (fed ys g) = ((take_piece (take k xs) (fed ys g))\<lparr>go_buf := drop k xs\<rparr>, [],
        piece_out (take k xs) (fed ys g), False)"
      using body_turn_pieces(1) [of "fed ys g" fl, unfolded d Let_def k [symmetric] kk, OF None] .
    ultimately show ?thesis using assms(2) up(1) [of _ "take (k - h) (drop h xs)"] out [of "take (k - h) (drop h xs)"] h(4)
      unfolding cut_at(1) [OF le] by auto
  next
    case (Some pt)
    then obtain pos tok where e: "earliest BOUNDARIES xs = Some (pos, tok)" by (cases pt) simp
    have le: "h \<le> pos" using earliest_late [OF h(1), of ys pos tok BOUNDARIES] h(2) xs e by simp
    have e2: "earliest BOUNDARIES (drop h xs) = Some (pos - h, tok)" using earliest_drop [OF e le] .
    let ?F = "if go_mode g = GTool then close_tool fl else id"
    have cl: "drop (if tok \<in> set CLOSING_TOKENS then pos - h + length tok else pos - h) (drop h xs)
      = drop (if tok \<in> set CLOSING_TOKENS then pos + length tok else pos) xs" using le by simp
    note n1 = body_turn_pieces(2) [of "fed ys g'" "pos - h" tok fl, unfolded d cl up(2), OF e2]
    note n2 = body_turn_pieces(2) [of "fed ys g" pos tok fl, unfolded d fed_simps(2), OF e]
    have F: "(?F (take_piece q (fed ys g')))\<lparr>go_buf := b, go_mode := GText\<rparr>
      = (?F (take_piece (take h xs @ q) (fed ys g)))\<lparr>go_buf := b, go_mode := GText\<rparr>" for b q
      using arg_cong [OF up(1) [of b q], of "\<lambda>g. (?F g)\<lparr>go_mode := GText\<rparr>"]
      by (cases "go_mode g = GTool") simp_all
    show ?thesis using assms(2) n1 n2 F [of _ "take (pos - h) (drop h xs)"] out [of "take (pos - h) (drop h xs)"] h(4)
      unfolding cut_at(1) [OF le] by auto
  qed
qed

lemma run_push_waits:
  assumes "turn d False g = (g', t, cs, False)" "turn_run d (fed ys g') = (h, as)"
  shows "turn_run d (fed ys g) = (h, text_atoms t @ item_atoms cs @ as)"
proof -
  obtain fl tools fwd where d: "d = (fl, tools, fwd)" by (cases d)
  obtain u t2 cs2 on where n: "turn d False (fed ys g') = (u, t2, cs2, on)" by (metis prod_cases4)
  have run: "turn_run d x = (if on then (case turn_run d u of (g'', as) \<Rightarrow> (g'', text_atoms y @ item_atoms zs @ as)) else (u, text_atoms y @ item_atoms zs))"
    if "turn d False x = (u, y, zs, on)" for x y zs
    using that by (subst turn_run.simps) simp
  have r0: "(h, as) = (if on then (case turn_run d u of (g'', as) \<Rightarrow> (g'', text_atoms t2 @ item_atoms cs2 @ as)) else (u, text_atoms t2 @ item_atoms cs2))"
    using run [OF n] assms(2) by simp
  show ?thesis
  proof (cases "go_mode g = GText")
    case True
    have a: "text_turn tools fwd g = (g', t, cs, False)" using assms(1) True d gpt_turn_cases by simp
    have m: "go_mode g' = GText" using a True by (cases rule: text_turn_waits) simp_all
    have b: "text_turn tools fwd (fed ys g') = (u, t2, cs2, on)" using n m d gpt_turn_cases by simp
    have tt: "turn d False (fed ys g) = text_turn tools fwd (fed ys g)" using True d gpt_turn_cases by simp
    from text_waits_push [OF a b] show ?thesis
    proof (elim disjE conjE)
      assume "t = []" "cs = []" "g' = g"
      then show ?thesis using assms(2) by simp
    next
      assume "cs = []" "text_turn tools fwd (fed ys g) = (fed ys g', t, [], True)"
      then show ?thesis using tt assms(2) by (subst turn_run.simps) simp
    next
      assume c: "cs = []" "text_turn tools fwd (fed ys g) = (u, t @ t2, cs2, on)"
      then have "turn d False (fed ys g) = (u, t @ t2, cs2, on)" using tt by simp
      from run [OF this] show ?thesis using r0 c(1) by (auto split: prod.splits if_splits)
    qed
  next
    case False
    have a: "body_turn fl g = (g', t, cs, False)" using assms(1) False d gpt_turn_cases by simp
    have "go_mode g' = go_mode g" by (rule body_turn_waits [OF a]) simp
    then have b: "body_turn fl (fed ys g') = (u, t2, cs2, on)" using n False d gpt_turn_cases by simp
    from body_waits_push [OF a b] obtain cs3 where c: "body_turn fl (fed ys g) = (u, [], cs3, on)" "t = []" "t2 = []"
      "item_atoms cs3 = item_atoms cs @ item_atoms cs2" by blast
    then have "turn d False (fed ys g) = (u, [], cs3, on)" using False d gpt_turn_cases by simp
    from run [OF this] show ?thesis using r0 c by (auto split: prod.splits if_splits)
  qed
qed

section \<open>One step of the stream\<close>

abbreviation steps :: "machine \<Rightarrow> bool \<Rightarrow> gptoss \<Rightarrow> gptoss \<times> utext \<times> call_item list" where
  "steps d had g \<equiv> (case d of (fl, tools, fwd) \<Rightarrow> turn_loop fl tools fwd had g)"

lemma steps_unfold:
  "steps d had g = (case turn d had g of (g', t, cs, on) \<Rightarrow>
    if on then (case steps d (had \<or> cs \<noteq> []) g' of (g'', t', cs') \<Rightarrow> (g'', t @ t', cs @ cs')) else (g', t, cs))"
proof -
  obtain fl tools fwd where d: "d = (fl, tools, fwd)" by (cases d)
  show ?thesis unfolding d prod.case by (subst turn_loop.simps) (rule refl)
qed

text \<open>A call blocks the text behind it until the next step.\<close>

definition blocked :: "bool \<Rightarrow> gptoss \<Rightarrow> bool" where
  "blocked had g \<longleftrightarrow> had \<and> go_mode g = GText"

lemma turn_blocked: "blocked had g \<Longrightarrow> turn d had g = (g, [], [], False)"
  by (cases d) (simp add: loop_turn_def blocked_def)

lemma turn_free: "\<not> blocked had g \<Longrightarrow> turn d had g = turn d False g"
  by (cases d) (auto simp: loop_turn_def blocked_def)

lemma turn_text_calls: "turn d False g = (g', t, cs, on) \<Longrightarrow> go_mode g \<noteq> GText \<Longrightarrow> t = []"
  by (cases d) (auto simp: gpt_turn_cases body_turn_def Let_def split: option.splits if_splits)

lemma turn_text_no_calls: "turn d False g = (g', t, cs, on) \<Longrightarrow> t = [] \<or> cs = []"
  by (cases d) (auto simp: gpt_turn_cases body_turn_def text_turn_def Let_def split: option.splits if_splits)

section \<open>How many steps a chunk needs\<close>

text \<open>The markers that can still open a call, and the open call\<close>

definition calls_left :: "gptoss \<Rightarrow> nat" where
  "calls_left g = count_sub MESSAGE_TOKEN (go_buf g) + (if go_mode g = GText then 0 else 1)"

text \<open>No turn makes more calls possible; a call that ends takes one away.\<close>

lemma turn_calls_left:
  assumes "turn d False g = (g', t, cs, on)"
  shows "calls_left (fed ys g') \<le> calls_left (fed ys g)"
    "on \<Longrightarrow> go_mode g \<noteq> GText \<Longrightarrow> calls_left (fed ys g') < calls_left (fed ys g)"
proof -
  let ?M = "count_sub MESSAGE_TOKEN"
  obtain fl tools fwd where d: "d = (fl, tools, fwd)" by (cases d)
  have c: "?M (drop k (go_buf g) @ ys) \<le> ?M (go_buf g @ ys)" for k
    using count_sub_drop [of MESSAGE_TOKEN "min k (length (go_buf g))" "go_buf g @ ys"]
    by (cases "k \<le> length (go_buf g)") simp_all
  show "calls_left (fed ys g') \<le> calls_left (fed ys g)"
  proof (cases "go_mode g = GText")
    case True
    then have tt: "text_turn tools fwd g = (g', t, cs, on)" using assms d gpt_turn_cases by simp
    show ?thesis
    proof (cases "earliest BLOCK_OPENERS (go_buf g)")
      case None
      then show ?thesis using tt True c by (auto simp: text_turn_def Let_def calls_left_def)
    next
      case (Some pt)
      then obtain pos tok where e: "earliest BLOCK_OPENERS (go_buf g) = Some (pos, tok)" by (cases pt) simp
      show ?thesis
      proof (cases "pos > 0")
        case True
        then show ?thesis using tt \<open>go_mode g = GText\<close> e c by (auto simp: text_turn_def Let_def calls_left_def)
      next
        case z: False
        show ?thesis
        proof (cases "find_sub MESSAGE_TOKEN (go_buf g)")
          case None
          then show ?thesis using tt e z by (auto simp: text_turn_def Let_def)
        next
          case (Some m)
          have b: "m + length MESSAGE_TOKEN \<le> length (go_buf g)" using find_sub_bound [OF Some] .
          have "MESSAGE_TOKEN \<noteq> []" using message_length by auto
          from count_sub_found [OF this find_sub_append [OF Some, of ys]]
          have "Suc (?M (drop (m + length MESSAGE_TOKEN) (go_buf g) @ ys)) \<le> ?M (go_buf g @ ys)" using b by simp
          moreover have "go_buf g' = drop (m + length MESSAGE_TOKEN) (go_buf g)"
            using tt e z Some by (auto simp: text_turn_def Let_def split: option.splits)
          ultimately show ?thesis using \<open>go_mode g = GText\<close> by (simp add: calls_left_def)
        qed
      qed
    qed
  next
    case False
    then have "body_turn fl g = (g', t, cs, on)" using assms d gpt_turn_cases by simp
    then show ?thesis using False c c [THEN le_SucI] by (auto simp: body_turn_def Let_def calls_left_def split: option.splits if_splits)
  qed
  assume "on" "go_mode g \<noteq> GText"
  then have "body_turn fl g = (g', t, cs, True)" using assms d gpt_turn_cases by simp
  then show "calls_left (fed ys g') < calls_left (fed ys g)"
    using \<open>go_mode g \<noteq> GText\<close> c by (auto simp: body_turn_def Let_def calls_left_def less_Suc_eq_le split: option.splits if_splits)
qed

abbreviation machine_of :: "machine \<Rightarrow> gptoss detector" where
  "machine_of d \<equiv> (case d of (fl, tools, fwd) \<Rightarrow> gptoss_detector fl tools fwd)"

lemma increment_steps:
  "dt_increment (machine_of d) new g = ok (case steps d False (fed new g) of (g', t, cs) \<Rightarrow> (g', streaming_result t cs))"
  by (cases d) (simp add: gptoss_detector_def gptoss_increment_def fed_def)

interpretation gpt: stream_machine "gturn d" fed turn_measure "\<lambda>g. go_mode g = GText" calls_left "\<lambda>g. g" "\<lambda>had g. ok (steps d had g)" "machine_of d"
  for d
proof
  fix ys zs g g' t cs on r had new err
  show "fed [] g = g" "fed zs (fed ys g) = fed (ys @ zs) g" by simp_all
  show "turn_measure g' < turn_measure g" if "gturn d False g = ok (g', t, cs, True)"
    using that turn_decreases by (cases d) auto
  show "gturn d True g = ok (g, [], [], False)" if "go_mode g = GText" using turn_blocked [of True g d] that by (simp add: blocked_def)
  show "gturn d True g = gturn d False g" if "go_mode g \<noteq> GText" using turn_free [of True g d] that by (simp add: blocked_def)
  show "t = []" if "go_mode g \<noteq> GText" "gturn d False g = ok (g', t, cs, on)" using turn_text_calls [where d = d and g = g and g' = g' and t = t and cs = cs and on = on] that by simp
  show "t = [] \<or> cs = []" if "gturn d False g = ok (g', t, cs, on)" using turn_text_no_calls [where d = d and g = g and g' = g' and t = t and cs = cs and on = on] that by simp
  show "resting (gturn d False) g'" if "gturn d False g = ok (g', t, cs, False)"
    using waits_quiet [where d = d and g = g and g' = g' and t = t and cs = cs] that by (simp add: at_rest_def)
  show "runs (\<lambda>g. g) (gturn d False) (fed ys g) (prepend (text_atoms t @ item_atoms cs) r)"
    if "gturn d False g = ok (g', t, cs, on)" "runs (\<lambda>g. g) (gturn d False) (fed ys g') r"
  proof -
    obtain h as where h: "turn_run d (fed ys g') = (h, as)" by (cases "turn_run d (fed ys g')")
    have "turn_run d (fed ys g) = (h, text_atoms t @ item_atoms cs @ as)"
      using run_push_goes_on [OF _ h] run_push_waits [OF _ h] that(1) by (cases on) simp_all
    then show ?thesis using run_of_runs [OF that(2)] h runs_run [of d "fed ys g"] by simp
  qed
  show "gturn d False (fed ys g) = Inl err" if "gturn d False g = Inl err" using that by simp
  show "calls_left (fed ys g) \<le> calls_left (fed (ys @ zs) g)"
    using count_sub_append [of MESSAGE_TOKEN "go_buf g @ ys" zs] by (simp add: calls_left_def)
  show "calls_left (fed ys g') \<le> calls_left (fed ys g)" if "gturn d False g = ok (g', t, cs, on)"
    using turn_calls_left(1) [where d = d and g = g and g' = g' and t = t and cs = cs and on = on] that by simp
  show "calls_left (fed ys g') < calls_left (fed ys g)" if "gturn d False g = ok (g', t, cs, True)" "go_mode g \<noteq> GText" "go_mode g' = GText"
    using turn_calls_left(2) [where d = d and g = g and g' = g' and t = t and cs = cs and on = True] that by simp
  show "go_mode g' \<noteq> GText" if "gturn d False g = ok (g', t, cs, on)" "go_mode g = GText" "cs \<noteq> []"
    using that by (cases d) (auto simp: gpt_turn_cases text_turn_def Let_def split: option.splits if_splits)
  show "ok (steps d had g) = rbind (gturn d had g) (\<lambda>(g', t, cs, on).
      if on then rbind (ok (steps d (had \<or> cs \<noteq> []) g')) (\<lambda>(g'', t', cs'). ok (g'', t @ t', cs @ cs')) else ok (g', t, cs))"
    by (subst steps_unfold) (auto split: prod.splits)
  show "dt_increment (machine_of d) new g = rbind (ok (steps d False (fed new g))) (\<lambda>(g', t, cs). ok (g', streaming_result t cs))"
    by (simp add: increment_steps split: prod.splits)
qed simp_all

text \<open>The machine may be stopped and fed at any point; a chunk and a stream deliver what the machine does.\<close>

lemma run_push:
  assumes "turn_run d g = (g1, as)" "turn_run d (fed ys g1) = (g2, bs)"
  shows "turn_run d (fed ys g) = (g2, as @ bs)"
  using run_of_runs [OF gpt.runs_push [OF runs_run [of d g, unfolded assms(1)] runs_run [of d "fed ys g1", unfolded assms(2)]]] by simp

lemma drain_run:
  assumes "calls_left (fed new g) < n"
  shows "\<exists>g2 segs. drain_chunk (machine_of d) n new g = ok (g2, segs) \<and> turn_run d (fed new g) = (g2, seg_atoms segs) \<and> at_rest d g2
    \<and> (\<forall>ys. calls_left (fed ys g2) \<le> calls_left (fed (new @ ys) g))"
  using gpt.drain_runs [OF assms, of d] run_of_runs [of d "fed new g"]
  by (fastforce simp: at_rest_def split: sum.splits)

lemma stream_run:
  assumes "calls_left (fed (concat cs) g) < 16" "at_rest d g" "tools \<noteq> []"
  shows "\<exists>g2 segs. stream_chunks (machine_of d) tools cs g = ok (g2, segs) \<and> turn_run d (fed (concat cs) g) = (g2, seg_atoms segs)"
  using run_of_runs [OF gpt.stream_runs [OF assms(3) assms(2) [unfolded at_rest_def] assms(1)]]
  by (auto simp: rbind_eq_Inr)

section \<open>A reading of the whole text\<close>

text \<open>The reference: text up to the next block; the header of the block; the body, which is a call's
  arguments or is dropped; then on. \<open>n\<close> is the number of the next call.\<close>

definition split_body :: "utext \<Rightarrow> utext \<times> utext option" where
  "split_body xs =
    (case earliest BOUNDARIES xs of
       None \<Rightarrow> (take (length xs - held_suffix BOUNDARIES xs) xs, None)
     | Some (e, tok) \<Rightarrow> (take e xs, Some (drop (if tok \<in> set CLOSING_TOKENS then e + length tok else e) xs)))"

lemma split_body_shorter: "split_body xs = (p, Some r) \<Longrightarrow> length r \<le> length xs"
  by (auto simp: split_body_def split: option.splits if_splits)

function read_text :: "tool_function list \<Rightarrow> bool \<Rightarrow> int \<Rightarrow> utext \<Rightarrow> atom list" where
  "read_text tools fwd n xs =
    (case earliest BLOCK_OPENERS xs of
       None \<Rightarrow> text_atoms xs
     | Some (pos, _) \<Rightarrow>
         text_atoms (take pos xs) @
         (case find_sub MESSAGE_TOKEN (drop pos xs) of
            None \<Rightarrow> []
          | Some m \<Rightarrow>
              (case split_body (drop (m + length MESSAGE_TOKEN) (drop pos xs)) of
                 (body, rest) \<Rightarrow>
                   (case header_call tools fwd (take m (drop pos xs)) of
                      None \<Rightarrow> (case rest of None \<Rightarrow> [] | Some r \<Rightarrow> read_text tools fwd n r)
                    | Some name \<Rightarrow> CallStart n name # map (ArgChar n) body @
                        (case rest of None \<Rightarrow> [] | Some r \<Rightarrow> read_text tools fwd (n + 1) r)))))"
  by pat_completeness auto

termination read_text
  by (relation "measure (\<lambda>(tools, fwd, n, xs). length xs)")
    (auto dest!: split_body_shorter [OF sym] find_sub_bound simp: message_length)

declare read_text.simps [simp del]

definition delivered :: "machine \<Rightarrow> gptoss \<Rightarrow> atom list" where
  "delivered d g = (case turn_run d g of (g', as) \<Rightarrow> as @ text_atoms (snd (gptoss_finish g')))"

lemma delivered_goes_on: "turn d False g = (g', t, cs, True) \<Longrightarrow> delivered d g = text_atoms t @ item_atoms cs @ delivered d g'"
  unfolding delivered_def by (subst turn_run.simps) (simp split: prod.splits)

lemma delivered_waits: "turn d False g = (g', t, cs, False) \<Longrightarrow> delivered d g = text_atoms t @ item_atoms cs @ text_atoms (snd (gptoss_finish g'))"
  unfolding delivered_def by (subst turn_run.simps) simp

definition next_id :: "gptoss \<Rightarrow> int" where
  "next_id g = (if go_id g = - 1 then 0 else go_id g)"

lemma next_id_buf [simp]: "next_id (g\<lparr>go_buf := b\<rparr>) = next_id g"
  by (simp add: next_id_def)

lemma close_id [simp]: "go_id (close_tool fl g) = go_id g + 1"
  by (simp add: close_tool_def Let_def)

lemma open_id [simp]: "go_id (open_tool name g) = next_id g"
  by (simp add: open_tool_def next_id_def Let_def)

lemma delivered_body:
  assumes "go_mode g \<noteq> GText" "split_body (go_buf g) = (body, rest)" "d = (fl, tools, fwd)"
  shows "\<exists>g'. delivered d g = (if go_mode g = GTool then map (ArgChar (go_id g)) body else []) @ (case rest of None \<Rightarrow> [] | Some r \<Rightarrow> delivered d g')
    \<and> go_mode g' = GText \<and> go_id g' = (if go_mode g = GTool then go_id g + 1 else go_id g) \<and> (\<forall>r. rest = Some r \<longrightarrow> go_buf g' = r)"
proof -
  have t: "turn d False g = body_turn fl g" using assms(1,3) by (simp add: gpt_turn_cases)
  show ?thesis
  proof (cases "earliest BOUNDARIES (go_buf g)")
    case None
    have b: "body = take (length (go_buf g) - held_suffix BOUNDARIES (go_buf g)) (go_buf g)" "rest = None"
      using assms(2) None by (simp_all add: split_body_def)
    obtain g1 cs where w: "turn d False g = (g1, [], cs, False)" "item_atoms cs = (if go_mode g = GTool then map (ArgChar (go_id g)) body else [])"
      "go_mode g1 = go_mode g"
      using t body_turn_none [OF None b(1), of fl] that
      by (cases "go_mode g = GTool") auto
    have f: "snd (gptoss_finish g1) = []" using w(3) assms(1) by (simp add: gptoss_finish_def)
    show ?thesis using delivered_waits [OF w(1)] w(2) b(2) f
      by (intro exI [of _ "g\<lparr>go_mode := GText, go_id := (if go_mode g = GTool then go_id g + 1 else go_id g)\<rparr>"]) simp
  next
    case (Some pt)
    then obtain pos tok where e: "earliest BOUNDARIES (go_buf g) = Some (pos, tok)" by (cases pt) simp
    have b: "body = take pos (go_buf g)" "rest = Some (drop (if tok \<in> set CLOSING_TOKENS then pos + length tok else pos) (go_buf g))"
      using assms(2) e by (simp_all add: split_body_def)
    let ?k = "if tok \<in> set CLOSING_TOKENS then pos + length tok else pos"
    let ?g1 = "((if go_mode g = GTool then close_tool fl else id) (take_piece body g))\<lparr>go_buf := drop ?k (go_buf g), go_mode := GText\<rparr>"
    have w: "turn d False g = (?g1, [], piece_out body g, True)" using t body_turn_pieces(2) [OF e, of fl] b by simp
    moreover have "item_atoms (piece_out body g) = (if go_mode g = GTool then map (ArgChar (go_id g)) body else [])"
      "go_mode ?g1 = GText" "go_id ?g1 = (if go_mode g = GTool then go_id g + 1 else go_id g)" "rest = Some (go_buf ?g1)"
      using b by (simp_all add: piece_out_def take_piece_def)
    ultimately show ?thesis using delivered_goes_on [OF w] by (intro exI [of _ ?g1]) simp
  qed
qed

lemma delivered_text:
  assumes "go_mode g = GText" "go_id g \<ge> - 1" "d = (fl, tools, fwd)"
  shows "delivered d g = read_text tools fwd (next_id g) (go_buf g)"
  using assms(1,2)
proof (induction "length (go_buf g)" arbitrary: g rule: less_induct)
  case less
  have t: "turn d False x = text_turn tools fwd x" if "go_mode x = GText" for x using that assms(3) by (simp add: gpt_turn_cases)
  obtain xs where xs: "go_buf g = xs" by blast
  show ?case
  proof (cases "earliest BLOCK_OPENERS xs")
    case None
    let ?k = "length xs - held_suffix BLOCK_OPENERS xs"
    have "turn d False g = (g\<lparr>go_buf := drop ?k xs\<rparr>, take ?k xs, [], False)"
      using None t [OF less.prems(1)] xs by (simp add: text_turn_def Let_def)
    note w = delivered_waits [OF this]
    have "\<not> has_sub tok (drop ?k xs)" if "tok \<in> set BLOCK_OPENERS" for tok
      using earliest_drop_None [OF None, of ?k] that by (auto simp: earliest_None has_sub_def)
    then have "snd (gptoss_finish (g\<lparr>go_buf := drop ?k xs\<rparr>)) = drop ?k xs" using less.prems(1) by (auto simp: gptoss_finish_def)
    then have "delivered d g = text_atoms (take ?k xs @ drop ?k xs)" using w by (simp del: append_take_drop_id)
    then show ?thesis using None xs by (subst read_text.simps) simp
  next
    case (Some pt)
    then obtain pos tok where e: "earliest BLOCK_OPENERS xs = Some (pos, tok)" by (cases pt) simp
    let ?ys = "drop pos xs"
    let ?g = "g\<lparr>go_buf := ?ys\<rparr>"
    have e0: "earliest BLOCK_OPENERS ?ys = Some (0, tok)" using earliest_drop [OF e, of pos] by simp
    have first: "delivered d g = text_atoms (take pos xs) @ delivered d ?g"
    proof (cases "pos > 0")
      case True
      then have "turn d False g = (?g, take pos xs, [], True)" using t [OF less.prems(1)] xs e by (simp add: text_turn_def Let_def)
      from delivered_goes_on [OF this] show ?thesis by simp
    next
      case False
      then show ?thesis using xs [symmetric] by simp
    qed
    show ?thesis
    proof (cases "find_sub MESSAGE_TOKEN ?ys")
      case None
      have tt: "turn d False ?g = (?g, [], [], False)" using t [of ?g] less.prems(1) e0 None by (simp add: text_turn_def Let_def)
      have "has_sub tok ?ys" "tok \<in> set BLOCK_OPENERS" using earliest_Some [OF e0] by (auto simp: has_sub_def)
      then have "snd (gptoss_finish ?g) = []" by (auto simp: gptoss_finish_def)
      then have "delivered d ?g = []" using delivered_waits [OF tt] by simp
      then show ?thesis using first e None xs by (subst read_text.simps) simp
    next
      case m: (Some m)
      let ?zs = "drop (m + length MESSAGE_TOKEN) ?ys"
      obtain body rest where sb: "split_body ?zs = (body, rest)" by fastforce
      have shorter: "length r < length xs" if "rest = Some r" for r
        using split_body_shorter [of ?zs body r] sb that find_sub_bound [OF m] by (simp add: message_length)
      have ih: "delivered d g' = read_text tools fwd (next_id g') r" if "rest = Some r" "go_buf g' = r" "go_mode g' = GText" "go_id g' \<ge> - 1" for g' r
        using less.hyps [of g'] shorter [OF that(1)] that(2-4) xs by simp
      show ?thesis
      proof (cases "header_call tools fwd (take m ?ys)")
        case None
        let ?s = "g\<lparr>go_buf := ?zs, go_mode := GSkip\<rparr>"
        have "turn d False ?g = (?s, [], [], True)" using t [of ?g] less.prems(1) e0 m None by (simp add: text_turn_def Let_def)
        note on = delivered_goes_on [OF this]
        obtain g' where g': "delivered d ?s = (case rest of None \<Rightarrow> [] | Some r \<Rightarrow> delivered d g')" "go_mode g' = GText" "go_id g' = go_id g"
          "\<forall>r. rest = Some r \<longrightarrow> go_buf g' = r"
          using delivered_body [of ?s body rest d fl tools fwd] sb assms(3) by auto
        have "delivered d ?s = (case rest of None \<Rightarrow> [] | Some r \<Rightarrow> read_text tools fwd (next_id g) r)"
          using g' ih [of _ g'] less.prems(2) by (cases rest) (simp_all add: next_id_def)
        then show ?thesis using first on e m None sb xs by (subst read_text.simps) simp
      next
        case (Some name)
        let ?s = "open_tool name (g\<lparr>go_buf := ?zs\<rparr>)"
        have "turn d False ?g = (?s, [], [call_start (next_id g) name], True)"
          using t [of ?g] less.prems(1) e0 m Some by (simp add: text_turn_def Let_def)
        note on = delivered_goes_on [OF this]
        obtain g' where g': "delivered d ?s = map (ArgChar (next_id g)) body @ (case rest of None \<Rightarrow> [] | Some r \<Rightarrow> delivered d g')"
          "go_mode g' = GText" "go_id g' = next_id g + 1" "\<forall>r. rest = Some r \<longrightarrow> go_buf g' = r"
          using delivered_body [of ?s body rest d fl tools fwd] sb assms(3) by auto
        have nn: "next_id g \<ge> 0" using less.prems(2) by (auto simp: next_id_def)
        then have "next_id g' = next_id g + 1" using g'(3) by (simp add: next_id_def)
        then have "delivered d ?s = map (ArgChar (next_id g)) body @ (case rest of None \<Rightarrow> [] | Some r \<Rightarrow> read_text tools fwd (next_id g + 1) r)"
          using g' ih [of _ g'] nn by (cases rest) simp_all
        then show ?thesis using first on e m Some sb xs by (subst read_text.simps) simp
      qed
    qed
  qed
qed

text \<open>C24: however the text is cut into chunks, the gpt-oss tool call stream delivers, character by character
  and in order, what a reading of the whole text finds: the text outside the blocks, for every block of the
  commentary channel that calls an accepted function the start of the call with its number and then its
  body up to the boundary, and nothing of the other blocks. Text that could still become a marker is
  neither lost nor delivered twice. The text holds at most fifteen message markers: a chunk is
  drained in sixteen steps, each of which delivers at most one call, so a chunk with more can lose calls.\<close>

theorem gptoss_stream_reading:
  assumes "tools \<noteq> []" "count_sub MESSAGE_TOKEN (concat cs) \<le> 15"
  shows "\<exists>segs. stream_finished (gptoss_detector fl tools fwd) tools cs gptoss_init = ok segs
    \<and> seg_atoms segs = read_text tools fwd 0 (concat cs)"
proof -
  let ?d = "(fl, tools, fwd)"
  have "calls_left (fed (concat cs) gptoss_init) < 16" using assms(2) by (simp add: calls_left_def gptoss_init_def)
  moreover have "at_rest ?d gptoss_init" by (simp add: at_rest_turn loop_turn_def gptoss_init_def)
  ultimately obtain g2 segs where s: "stream_chunks (machine_of ?d) tools cs gptoss_init = ok (g2, segs)"
    "turn_run ?d (fed (concat cs) gptoss_init) = (g2, seg_atoms segs)" using stream_run assms(1) by blast
  have "delivered ?d (fed (concat cs) gptoss_init) = read_text tools fwd (next_id (fed (concat cs) gptoss_init)) (go_buf (fed (concat cs) gptoss_init))"
    by (rule delivered_text) (simp_all add: gptoss_init_def fed_def)
  then have "seg_atoms segs @ text_atoms (snd (gptoss_finish g2)) = read_text tools fwd 0 (concat cs)"
    using s(2) by (simp add: delivered_def next_id_def gptoss_init_def fed_def)
  moreover have "stream_finished (gptoss_detector fl tools fwd) tools cs gptoss_init = ok (segs @ [SegText (snd (gptoss_finish g2))])"
    using s(1) by (simp add: stream_finished_def) (simp add: gptoss_detector_def)
  ultimately show ?thesis by simp
qed

abbreviation demo_tools :: "tool_function list" where
  "demo_tools \<equiv> [\<lparr>tf_name = codes ''f'', tf_parameters = None\<rparr>]"

abbreviation demo_chunks :: "utext list" where
  "demo_chunks \<equiv> [codes ''a<|chan'', codes ''nel|>commentary to=functions.f <|mess'', codes ''age|>{}<|ca'', codes ''ll|>b'']"

lemma gptoss_stream_reading_witness:
  "\<exists>segs. stream_finished (gptoss_detector id demo_tools False) demo_tools demo_chunks gptoss_init = ok segs
    \<and> seg_atoms segs = [TextChar 97, CallStart 0 [102], ArgChar 0 123, ArgChar 0 125, TextChar 98]"
proof -
  have r: "read_text demo_tools False 0 (concat demo_chunks) = [TextChar 97, CallStart 0 [102], ArgChar 0 123, ArgChar 0 125, TextChar 98]"
    by code_simp
  have c: "count_sub MESSAGE_TOKEN (concat demo_chunks) \<le> 15" by code_simp
  show ?thesis using gptoss_stream_reading [OF _ c, of demo_tools id False] unfolding r by simp
qed
end
