(* ===== verification/GenProps.thy ===== *)
theory GenProps
  imports Generation GptOssProps
begin

text \<open>
  What the protocol adapters rely on: the events of a generation follow one protocol whatever the
  detector returns, and with the gpt-oss detector they carry what a reading of the output finds.
\<close>

section \<open>The protocol of the events\<close>

text \<open>Between two calls with \<open>n\<close> calls behind, within call \<open>n\<close> with these arguments so far, or ended\<close>

datatype wire = Between int | Within int utext | Ended

fun wire_step :: "(utext \<Rightarrow> utext) \<Rightarrow> wire \<Rightarrow> gen_event \<Rightarrow> wire option" where
  "wire_step fl Ended e = None"
| "wire_step fl (Between n) (ReasoningDelta t) = (if t = [] then None else Some (Between n))"
| "wire_step fl (Within n a) (ReasoningDelta t) = (if t = [] then None else Some (Within n a))"
| "wire_step fl (Between n) (ContentDelta t) = (if t = [] then None else Some (Between n))"
| "wire_step fl (Between n) (ToolCallStart i name st) = (if i = n \<and> st then Some (Within n []) else None)"
| "wire_step fl (Within n a) (ToolCallArgsDelta i f) = (if i = n \<and> f \<noteq> [] then Some (Within n (a @ f)) else None)"
| "wire_step fl (Within n a) (ToolCallsDelta [c]) =
    (if ci_index c = n \<and> (valid_json fl a \<longrightarrow> ci_parameters c = a) then Some (Between (n + 1)) else None)"
| "wire_step fl (Between n) (GenDone d) = (if n > 0 \<and> ge_reason d \<noteq> ''length'' \<and> ge_reason d \<noteq> ''tool_calls'' then None else Some Ended)"
| "wire_step fl w e = None"

fun wire_run :: "(utext \<Rightarrow> utext) \<Rightarrow> wire \<Rightarrow> gen_event list \<Rightarrow> wire option" where
  "wire_run fl w [] = Some w"
| "wire_run fl w (e # es) = Option.bind (wire_step fl w e) (\<lambda>w. wire_run fl w es)"

lemma wire_run_append: "wire_run fl w (es @ es') = Option.bind (wire_run fl w es) (\<lambda>w. wire_run fl w es')"
  by (induction es arbitrary: w) (auto split: bind_splits)

definition wire_of :: "'s routing \<Rightarrow> wire" where
  "wire_of r = (case ro_open r of None \<Rightarrow> Between (ro_emitted r) | Some c \<Rightarrow> Within (oc_ordinal c) (oc_params c))"

definition routing_ok :: "'s routing \<Rightarrow> bool" where
  "routing_ok r \<longleftrightarrow> ro_emitted r \<ge> 0 \<and> (\<forall>c. ro_open r = Some c \<longrightarrow> oc_ordinal c = ro_emitted r)"

text \<open>What every part of the routing does to the protocol\<close>

definition follows :: "(utext \<Rightarrow> utext) \<Rightarrow> 's routing \<Rightarrow> 's routing \<times> gen_event list \<Rightarrow> bool" where
  "follows fl r p \<longleftrightarrow> (case p of (r', es) \<Rightarrow> routing_ok r' \<and> wire_run fl (wire_of r) es = Some (wire_of r'))"

lemma follows_nil: "routing_ok r \<Longrightarrow> follows fl r (r, [])"
  by (simp add: follows_def)

lemma follows_append: "follows fl r (r1, es) \<Longrightarrow> follows fl r1 (r2, es') \<Longrightarrow> follows fl r (r2, es @ es')"
  by (simp add: follows_def wire_run_append)

lemma follows_ok: "follows fl r (r', es) \<Longrightarrow> routing_ok r'"
  by (simp add: follows_def)

lemma close_follows: "routing_ok r \<Longrightarrow> follows fl r (close_open_call d fl r) \<and> ro_open (fst (close_open_call d fl r)) = None"
  by (auto simp: close_open_call_def close_params_def follows_def routing_ok_def wire_of_def Let_def valid_json_def split: option.splits)

lemma add_follows: "routing_ok r \<Longrightarrow> follows fl r (add_fragment f r)"
  by (auto simp: add_fragment_def follows_def routing_ok_def wire_of_def split: option.splits)

lemma fragment_follows:
  assumes "routing_ok r"
  shows "follows fl r (route_fragment d fl f r)"
proof -
  let ?fresh = "starts_new f (ro_open r)"
  obtain r1 es1 where c: "(if ?fresh then close_open_call d fl r else (r, [])) = (r1, es1)" by fastforce
  obtain r2 es2 where o: "(if ro_open r1 = None \<or> ?fresh
      then (r1\<lparr>ro_open := Some \<lparr>oc_detector = ci_index f, oc_name = ci_name f, oc_params = [], oc_ordinal = ro_emitted r1\<rparr>\<rparr>,
            [ToolCallStart (ro_emitted r1) (ci_name f) True])
      else (r1, [])) = (r2, es2)" by fastforce
  obtain r3 es3 where a: "add_fragment f r2 = (r3, es3)" by fastforce
  have f1: "follows fl r (r1, es1)" using c close_follows [OF assms, of fl d] follows_nil [OF assms] by (auto split: if_splits)
  have none: "?fresh \<Longrightarrow> ro_open r1 = None" using c close_follows [OF assms, of fl d] by auto
  have "follows fl r1 (r2, es2)"
    using o none follows_ok [OF f1] by (auto simp: follows_def routing_ok_def wire_of_def split: if_splits)
  moreover from follows_ok [OF this] have "follows fl r2 (r3, es3)" using add_follows a by metis
  ultimately have "follows fl r (r3, es1 @ es2 @ es3)" using f1 follows_append by blast
  moreover have "route_fragment d fl f r = (r3, es1 @ es2 @ es3)"
    unfolding route_fragment_def Let_def c prod.case o a by simp
  ultimately show ?thesis by simp
qed

lemma fragments_follow: "routing_ok r \<Longrightarrow> follows fl r (route_fragments d fl fs r)"
proof (induction fs arbitrary: r)
  case (Cons f fs)
  obtain r1 es where f: "route_fragment d fl f r = (r1, es)" by fastforce
  then have "follows fl r (r1, es)" using fragment_follows [OF Cons.prems, of fl d f] by simp
  moreover from follows_ok [OF this] have "follows fl r1 (route_fragments d fl fs r1)" by (rule Cons.IH)
  ultimately show ?case using f follows_append by (auto split: prod.splits)
qed (simp add: follows_nil)

lemma content_follows: "routing_ok r \<Longrightarrow> ro_open r = None \<Longrightarrow> follows fl r (route_content sp t r)"
  by (auto simp: route_content_def follows_def routing_ok_def wire_of_def Let_def)

lemma segments_follow: "routing_ok r \<Longrightarrow> follows fl r (route_segments d fl sp segs r)"
proof (induction segs arbitrary: r)
  case (Cons seg segs)
  have "follows fl r (case seg of SegText t \<Rightarrow> (case close_open_call d fl r of (r, es) \<Rightarrow> case route_content sp t r of (r, es') \<Rightarrow> (r, es @ es'))
      | SegCalls fs \<Rightarrow> route_fragments d fl fs r)"
  proof (cases seg)
    case (SegText t)
    obtain r1 es where c: "close_open_call d fl r = (r1, es)" by fastforce
    then have f: "follows fl r (r1, es)" "ro_open r1 = None" using close_follows [OF Cons.prems, of fl d] by auto
    have "follows fl r1 (route_content sp t r1)" using content_follows [OF follows_ok [OF f(1)] f(2)] .
    then show ?thesis using c f(1) SegText follows_append by (auto split: prod.splits)
  next
    case (SegCalls fs)
    then show ?thesis using fragments_follow [OF Cons.prems] by simp
  qed
  then obtain r1 es where s: "(case seg of SegText t \<Rightarrow> (case close_open_call d fl r of (r, es) \<Rightarrow> case route_content sp t r of (r, es') \<Rightarrow> (r, es @ es'))
      | SegCalls fs \<Rightarrow> route_fragments d fl fs r) = (r1, es)" "follows fl r (r1, es)" by (metis surj_pair)
  have "follows fl r1 (route_segments d fl sp segs r1)" by (rule Cons.IH [OF follows_ok [OF s(2)]])
  then show ?case using s follows_append by (auto split: prod.splits)
qed (simp add: follows_nil)

lemma state_irrelevant [simp]: "wire_of (r\<lparr>ro_state := s\<rparr>) = wire_of r" "routing_ok (r\<lparr>ro_state := s\<rparr>) = routing_ok r"
  "follows fl (r\<lparr>ro_state := s\<rparr>) p = follows fl r p"
  by (cases "ro_open r"; simp add: wire_of_def routing_ok_def follows_def)+

lemma route_follows: "routing_ok r \<Longrightarrow> route_tool_text d tools fl sp t r = ok p \<Longrightarrow> follows fl r p"
  using segments_follow [of "r\<lparr>ro_state := s\<rparr>" fl d sp for s] by (auto simp: route_tool_text_def follows_nil split: if_splits)

lemma finalize_follows: "routing_ok r \<Longrightarrow> follows fl r (finalize_fragments fs r)"
proof (induction fs arbitrary: r)
  case (Cons f fs)
  obtain r1 es where f: "add_fragment f r = (r1, es)" by fastforce
  then have "follows fl r (r1, es)" using add_follows [OF Cons.prems, of fl f] by simp
  moreover from follows_ok [OF this] have "follows fl r1 (finalize_fragments fs r1)" by (rule Cons.IH)
  ultimately show ?case using f follows_append by (auto split: prod.splits)
qed (simp add: follows_nil)

lemma recovered_follow:
  "routing_ok r \<Longrightarrow> ro_open r = None \<Longrightarrow> follows fl r (recovered_calls cs r) \<and> ro_open (fst (recovered_calls cs r)) = None"
proof (induction cs arbitrary: r)
  case (Cons c cs)
  let ?r = "r\<lparr>ro_emitted := ro_emitted r + 1\<rparr>"
  have "routing_ok ?r" "ro_open ?r = None" using Cons.prems by (auto simp: routing_ok_def)
  note ih = Cons.IH [OF this]
  have w: "wire_of r = Between (ro_emitted r)" "wire_of ?r = Between (ro_emitted r + 1)" using Cons.prems by (simp_all add: wire_of_def)
  have "\<not> valid_json fl []" by (simp add: valid_json_def)
  then show ?case using ih w by (auto simp: follows_def split: prod.splits)
qed (simp add: follows_nil)

lemma finish_follows:
  assumes "routing_ok r" "finish_routing d fl sp r = (r', es)"
  shows "follows fl r (r', es) \<and> ro_open r' = None"
proof -
  obtain s frags where z: "dt_finalize d (ro_state r) = (s, frags)" by fastforce
  obtain r1 es1 where a: "finalize_fragments frags (r\<lparr>ro_state := s\<rparr>) = (r1, es1)" by fastforce
  obtain r2 es2 where b: "close_open_call d fl r1 = (r2, es2)" by fastforce
  obtain s2 calls where y: "recover_truncated d (ro_state r2) = (s2, calls)" by fastforce
  obtain r3 es3 where c: "recovered_calls calls (r2\<lparr>ro_state := s2\<rparr>) = (r3, es3)" by fastforce
  obtain s3 residual where x: "dt_finish d (ro_state r3) = (s3, residual)" by fastforce
  let ?t = "strip_special_tokens residual sp"
  have f1: "follows fl r (r1, es1)" using finalize_follows [of "r\<lparr>ro_state := s\<rparr>" fl frags] assms(1) a by simp
  have f2: "follows fl r1 (r2, es2)" "ro_open r2 = None" using close_follows [OF follows_ok [OF f1], of fl d] b by simp_all
  have f3: "follows fl r2 (r3, es3)" "ro_open r3 = None"
    using recovered_follow [of "r2\<lparr>ro_state := s2\<rparr>" fl calls] follows_ok [OF f2(1)] f2(2) c by simp_all
  have r': "r' = r3\<lparr>ro_state := s3\<rparr>" "es = es1 @ es2 @ es3 @ (if residual \<noteq> [] \<and> ?t \<noteq> [] \<and> \<not> (strip ?t = [] \<and> ro_blank r3) then [ContentDelta ?t] else [])"
    using assms(2) unfolding finish_routing_def Let_def z a b y c x prod.case by auto
  have "follows fl r3 (r', if residual \<noteq> [] \<and> ?t \<noteq> [] \<and> \<not> (strip ?t = [] \<and> ro_blank r3) then [ContentDelta ?t] else [])"
    using follows_ok [OF f3(1)] f3(2) r'(1) by (simp add: follows_def wire_of_def routing_ok_def)
  from follows_append [OF f1 follows_append [OF f2(1) follows_append [OF f3(1) this]]]
  show ?thesis using f3(2) r' by simp
qed

section \<open>The generator\<close>

lemma wire_of_open: "wire_of r \<noteq> Ended"
  by (simp add: wire_of_def split: option.split)

lemma reasoning_follows: "routing_ok r \<Longrightarrow> follows fl r (r, reasoning_events sp t)"
  by (cases "wire_of r") (auto simp: follows_def reasoning_events_def wire_of_open)

text \<open>A part of a generation with a tool call parser\<close>

definition advances :: "('r, 's) gen_config \<Rightarrow> ('r, 's) generation \<Rightarrow> ('r, 's) generation \<Rightarrow> gen_event list \<Rightarrow> bool" where
  "advances cfg g g' es \<longleftrightarrow>
    (\<forall>r. gn_routing g = Some r \<and> routing_ok r \<longrightarrow> (\<exists>r'. gn_routing g' = Some r' \<and> follows (gc_float cfg) r (r', es)))"

lemma advances_append: "advances cfg g g1 es \<Longrightarrow> advances cfg g1 g2 es' \<Longrightarrow> advances cfg g g2 (es @ es')"
  unfolding advances_def using follows_ok follows_append by metis

lemma advances_reasoning: "gn_routing g' = gn_routing g \<Longrightarrow> advances cfg g g' (reasoning_events sp t)"
  using reasoning_follows by (auto simp: advances_def)

lemma content_advances:
  assumes "content_events cfg t g = ok (g', es)" "gc_tools cfg = Some tools" "gc_detector cfg = Some d"
  shows "advances cfg g g' es"
  unfolding advances_def
proof (intro allI impI, elim conjE)
  fix r assume r: "gn_routing g = Some r" "routing_ok r"
  show "\<exists>r'. gn_routing g' = Some r' \<and> follows (gc_float cfg) r (r', es)"
  proof (cases "t = []")
    case True
    then show ?thesis using assms(1) r follows_nil by (auto simp: content_events_def)
  next
    case False
    then obtain r' where "route_tool_text d tools (gc_float cfg) (gc_specials cfg) t r = ok (r', es)" "g' = g\<lparr>gn_routing := Some r'\<rparr>"
      using assms r by (auto simp: content_events_def)
    then show ?thesis using route_follows [OF r(2)] by auto
  qed
qed

lemma split_routing: "split_ack cfg t g = (g', reasoning, content) \<Longrightarrow> gn_routing g' = gn_routing g"
  by (auto simp: split_ack_def split: option.splits if_splits prod.splits)

lemma advances_same: "gn_routing g' = gn_routing g1 \<Longrightarrow> advances cfg g g1 es \<Longrightarrow> advances cfg g g' es"
  by (simp add: advances_def)

lemma advances_nil: "gn_routing g' = gn_routing g \<Longrightarrow> advances cfg g g' []"
  using follows_nil by (auto simp: advances_def)

definition failed :: "user_ack \<Rightarrow> bool" where
  "failed a \<longleftrightarrow> ua_error a \<noteq> None \<and> ua_error a \<noteq> Some []"

lemma ack_failed: "failed a \<Longrightarrow> ack_events cfg a g = (g, [], Some (GenerationError (the (ua_error a)) (ua_code a)))"
  by (simp add: ack_events_def failed_def)

lemma ack_unfold:
  assumes "\<not> failed a" "split_ack cfg (ua_output a) (count_ack a g) = (g1, re, co)"
  shows "ack_events cfg a g = (case content_events cfg co g1 of
      Inl e \<Rightarrow> (g1, reasoning_events (gc_specials cfg) re, Some (Raised e))
    | Inr (g2, es') \<Rightarrow>
        (if ua_finished a then g2\<lparr>gn_reason := ua_reason a, gn_matched := ua_matched a\<rparr> else g2,
         reasoning_events (gc_specials cfg) re @ es', None))"
  unfolding ack_events_def assms(2) using assms(1) by (auto simp: failed_def Let_def)

lemma ack_advances:
  assumes "ack_events cfg a g = (g', es, x)" "gc_tools cfg = Some tools" "gc_detector cfg = Some d"
  shows "advances cfg g g' es"
proof (cases "failed a")
  case True
  then show ?thesis using assms(1) by (auto simp: ack_failed advances_nil)
next
  case False
  obtain g1 re co where s: "split_ack cfg (ua_output a) (count_ack a g) = (g1, re, co)" by (metis prod_cases3)
  have r1: "gn_routing g1 = gn_routing g" using split_routing [OF s] by (simp add: count_ack_def)
  note base = advances_reasoning [OF r1, of cfg "gc_specials cfg" re]
  show ?thesis
  proof (cases "content_events cfg co g1")
    case (Inl e)
    then show ?thesis using assms(1) ack_unfold [OF False s] base by simp
  next
    case (Inr p)
    obtain g2 es2 where p: "p = (g2, es2)" by fastforce
    have "advances cfg g1 g2 es2" using content_advances assms(2,3) Inr p by blast
    from advances_append [OF base this] have a: "advances cfg g g2 (reasoning_events (gc_specials cfg) re @ es2)" .
    have "es = reasoning_events (gc_specials cfg) re @ es2" "gn_routing g' = gn_routing g2"
      using assms(1) ack_unfold [OF False s] Inr p by (auto split: if_splits)
    then show ?thesis using advances_same a by blast
  qed
qed

lemma loop_advances:
  assumes "ack_loop cfg as g = (g', es, x)" "gc_tools cfg = Some tools" "gc_detector cfg = Some d"
  shows "advances cfg g g' es"
  using assms(1)
proof (induction as arbitrary: g g' es x)
  case Nil
  then show ?case by (auto simp: advances_nil)
next
  case (Cons a as)
  obtain g1 es1 x1 where a: "ack_events cfg a g = (g1, es1, x1)" by (metis prod_cases3)
  note adv = ack_advances [OF a assms(2,3)]
  show ?case
  proof (cases "x1 = None \<and> \<not> ua_finished a")
    case True
    obtain g2 es2 x2 where l: "ack_loop cfg as g1 = (g2, es2, x2)" by (metis prod_cases3)
    show ?thesis using Cons.prems True a l advances_append [OF adv Cons.IH [OF l]] by auto
  next
    case False
    then show ?thesis using Cons.prems a adv by (auto split: option.splits)
  qed
qed

lemma flush_advances:
  assumes "flush_events cfg g = (g', es, x)" "gc_tools cfg = Some tools" "gc_detector cfg = Some d"
  shows "advances cfg g g' es"
proof (cases "gc_reasoner cfg = None \<or> gn_reasoner g = None")
  case True
  then show ?thesis using assms(1) by (auto simp: flush_events_def advances_nil split: option.splits)
next
  case False
  then obtain rp r where r: "gc_reasoner cfg = Some rp" "gn_reasoner g = Some r" by auto
  let ?p = "rs_flush rp r"
  note base = advances_reasoning [of g g cfg "gc_specials cfg" "pr_reasoning ?p", OF refl]
  show ?thesis
  proof (cases "content_events cfg (pr_normal ?p) g")
    case (Inl e)
    then show ?thesis using assms(1) r base by (simp add: flush_events_def)
  next
    case (Inr p)
    then have "advances cfg g (fst p) (snd p)" using content_advances [of cfg "pr_normal ?p" g "fst p" "snd p"] assms(2,3) by simp
    then show ?thesis using assms(1) r Inr advances_append [OF base] by (auto simp: flush_events_def split: prod.splits)
  qed
qed

lemma finish_ends:
  assumes "gn_routing g = Some r" "routing_ok r" "gc_detector cfg = Some d" "finish_events cfg g = (es, x)"
  shows "wire_run (gc_float cfg) (wire_of r) es = Some Ended \<and> x = Returned"
proof -
  obtain r' es' where f: "finish_routing d (gc_float cfg) (gc_specials cfg) r = (r', es')" by fastforce
  have w: "wire_run (gc_float cfg) (wire_of r) es' = Some (Between (ro_emitted r'))"
    using finish_follows [OF assms(2) f] by (auto simp: follows_def wire_of_def)
  have "wire_step (gc_float cfg) (Between (ro_emitted r')) (gen_done g (ro_emitted r' \<noteq> 0)) = Some Ended"
    by (simp add: gen_done_def final_reason_def Let_def)
  then show ?thesis using w f assms(1,3,4) by (auto simp: finish_events_def wire_run_append)
qed

text \<open>A generation without a reasoning parser and without special tokens to strip\<close>

definition plain_config :: "machine \<Rightarrow> tool_function list \<Rightarrow> (utext \<Rightarrow> utext) \<Rightarrow> (unit, gptoss) gen_config" where
  "plain_config d tools fl =
    \<lparr>gc_reasoner = None, gc_tools = Some tools, gc_detector = Some (machine_of d), gc_specials = [], gc_float = fl\<rparr>"

abbreviation demo_ack :: "utext \<Rightarrow> bool \<Rightarrow> user_ack" where
  "demo_ack t fin \<equiv> \<lparr>ua_error = None, ua_code = None, ua_prompt = 3, ua_completion = 1, ua_cached = 0, ua_output = t, ua_finished = fin,
     ua_reason = (if fin then Some ''stop'' else None), ua_matched = None\<rparr>"

abbreviation demo_acks :: "user_ack list" where
  "demo_acks \<equiv> [demo_ack (codes ''a<|chan'') False, demo_ack (codes ''nel|>commentary to=functions.f <|mess'') False,
    demo_ack (codes ''age|>{}<|ca'') False, demo_ack (codes ''ll|>b'') True]"

text \<open>Before the end, a generator stops only by raising.\<close>

lemma ack_raises: "ack_events cfg a g = (g', es, x) \<Longrightarrow> x \<noteq> Some Returned"
  using ack_failed [of a cfg g] ack_unfold [of a cfg g]
  by (cases "failed a"; cases "split_ack cfg (ua_output a) (count_ack a g)") (auto split: sum.splits prod.splits)

lemma loop_raises: "ack_loop cfg as g = (g', es, x) \<Longrightarrow> x \<noteq> Some Returned"
proof (induction as arbitrary: g g' es x)
  case (Cons a as)
  obtain h es1 y where "ack_events cfg a g = (h, es1, y)" by (metis prod_cases3)
  then show ?case using Cons ack_raises [of cfg a g h es1 y] by (auto split: option.splits prod.splits if_splits)
qed simp

lemma flush_raises: "flush_events cfg g = (g', es, x) \<Longrightarrow> x \<noteq> Some Returned"
  by (auto simp: flush_events_def Let_def split: option.splits sum.splits)

text \<open>C21: whatever the detector, the reasoning parser and the engine return, the events of a streamed generation
  with tools follow one protocol: calls are numbered 0, 1, ... in the order they start, no call starts and no
  content comes while one is open, fragments belong to the open call, a call is closed by exactly one item with its number,
  whose arguments are the fragments joined when these are valid JSON; \<open>GenDone\<close> is the last event, comes with no call
  open, and reports tool calls or a truncation when there were calls. It comes exactly when the generator
  returns; when it raises, the events so far follow the protocol.\<close>

theorem generation_protocol:
  assumes "gc_tools cfg = Some tools" "gc_detector cfg = Some d"
  shows "\<exists>w. wire_run (gc_float cfg) (Between 0) (fst (generate_events cfg r0 s0 acks)) = Some w
    \<and> (w = Ended) = (snd (generate_events cfg r0 s0 acks) = Returned)"
proof -
  let ?g = "generation_init cfg r0 s0" and ?run = "wire_run (gc_float cfg)"
  obtain r where r: "gn_routing ?g = Some r" "routing_ok r" "wire_of r = Between 0"
    using assms by (simp add: generation_init_def routing_ok_def wire_of_def)
  obtain g1 es1 x1 where l: "ack_loop cfg acks ?g = (g1, es1, x1)" by (metis prod_cases3)
  obtain r1 where r1: "gn_routing g1 = Some r1" "routing_ok r1" "?run (Between 0) es1 = Some (wire_of r1)"
    using loop_advances [OF l assms] r by (auto simp: advances_def follows_def)
  show ?thesis
  proof (cases x1)
    case (Some x)
    then show ?thesis using l r1(3) loop_raises [OF l] wire_of_open by (auto simp: generate_events_def)
  next
    case None
    obtain g2 es2 x2 where f: "flush_events cfg g1 = (g2, es2, x2)" by (metis prod_cases3)
    obtain r2 where r2: "gn_routing g2 = Some r2" "routing_ok r2" "?run (wire_of r1) es2 = Some (wire_of r2)"
      using flush_advances [OF f assms] r1 by (auto simp: advances_def follows_def)
    show ?thesis
    proof (cases x2)
      case (Some x)
      then show ?thesis using l f None r1(3) r2(3) flush_raises [OF f] wire_of_open by (auto simp: generate_events_def wire_run_append)
    next
      case n: None
      obtain es3 x3 where e: "finish_events cfg g2 = (es3, x3)" by fastforce
      have "?run (wire_of r2) es3 = Some Ended \<and> x3 = Returned" by (rule finish_ends [OF r2(1,2) assms(2) e])
      then show ?thesis using l f e None n r1(3) r2(3) by (simp add: generate_events_def wire_run_append)
    qed
  qed
qed

lemma generation_protocol_witness:
  "wire_run id (Between 0) (fst (generate_events (plain_config (id, demo_tools, False) demo_tools id) () gptoss_init demo_acks)) = Some Ended"
proof -
  let ?cfg = "plain_config (id, demo_tools, False) demo_tools id"
  have "snd (generate_events ?cfg () gptoss_init demo_acks) = Returned" by code_simp
  moreover have "gc_tools ?cfg = Some demo_tools" "gc_detector ?cfg = Some (machine_of (id, demo_tools, False))" "gc_float ?cfg = id"
    by (simp_all add: plain_config_def)
  ultimately show ?thesis using generation_protocol [of ?cfg demo_tools "machine_of (id, demo_tools, False)" "()" gptoss_init demo_acks] by simp
qed

section \<open>Streaming and not streaming\<close>

text \<open>The acknowledgements that are read: up to the first that ends the request\<close>

fun read_acks :: "user_ack list \<Rightarrow> user_ack list" where
  "read_acks [] = []"
| "read_acks (a # as) = (if ua_finished a then [a] else a # read_acks as)"

definition counts_are :: "user_ack list \<Rightarrow> ('r, 's) generation \<Rightarrow> ('r, 's) generation \<Rightarrow> bool" where
  "counts_are as g g' \<longleftrightarrow> gn_prompt g' = gn_prompt g + sum_list (map ua_prompt as)
     \<and> gn_completion g' = gn_completion g + sum_list (map ua_completion as) \<and> gn_cached g' = gn_cached g + sum_list (map ua_cached as)"

definition same_counts :: "('r, 's) generation \<Rightarrow> ('r, 's) generation \<Rightarrow> bool" where
  "same_counts g g' \<longleftrightarrow> gn_prompt g' = gn_prompt g \<and> gn_completion g' = gn_completion g \<and> gn_cached g' = gn_cached g
     \<and> gn_reason g' = gn_reason g \<and> gn_matched g' = gn_matched g"

lemma content_counts: "content_events cfg t g = ok (g', es) \<Longrightarrow> same_counts g g'"
  by (auto simp: content_events_def same_counts_def split: if_splits option.splits)

lemma split_counts: "split_ack cfg t g = (g', re, co) \<Longrightarrow> same_counts g g'"
  by (auto simp: split_ack_def same_counts_def split: option.splits if_splits prod.splits)

text \<open>Both ways of generating count alike and end alike.\<close>

lemma loop_collects:
  assumes "ack_loop cfg as g = (g', es, None)" "same_counts g h"
  shows "\<exists>text h'. collect_acks as t0 h = Inr (text, h') \<and> same_counts g' h' \<and> counts_are (read_acks as) g g'"
  using assms
proof (induction as arbitrary: g es h t0)
  case Nil
  then show ?case by (simp add: counts_are_def)
next
  case (Cons a as)
  obtain g1 es1 x1 where a: "ack_events cfg a g = (g1, es1, x1)" by (metis prod_cases3)
  have x: "x1 = None" using Cons.prems(1) a by (cases x1) auto
  have nf: "\<not> failed a" using a x ack_failed [of a cfg g] by auto
  obtain g0 re co where s: "split_ack cfg (ua_output a) (count_ack a g) = (g0, re, co)" by (metis prod_cases3)
  obtain g2 es2 where c: "content_events cfg co g0 = ok (g2, es2)"
    "g1 = (if ua_finished a then g2\<lparr>gn_reason := ua_reason a, gn_matched := ua_matched a\<rparr> else g2)"
    using a x ack_unfold [OF nf s] by (auto split: sum.splits prod.splits)
  have sc: "same_counts (count_ack a g) g2"
    using content_counts [OF c(1)] split_counts [OF s] by (simp add: same_counts_def)
  have err: "\<not> (ua_error a \<noteq> None \<and> ua_error a \<noteq> Some [])" using nf by (simp add: failed_def)
  show ?case
  proof (cases "ua_finished a")
    case True
    let ?h = "(count_ack a h)\<lparr>gn_reason := ua_reason a, gn_matched := ua_matched a\<rparr>"
    have "collect_acks (a # as) t0 h = Inr (t0 @ ua_output a, ?h)" using True err by simp
    moreover have "g' = g1" using Cons.prems(1) a x True by simp
    ultimately show ?thesis using sc c(2) True Cons.prems(2) by (simp add: same_counts_def counts_are_def count_ack_def)
  next
    case False
    obtain g3 es3 where l: "ack_loop cfg as g1 = (g3, es3, None)" "g' = g3"
      using Cons.prems(1) a x False by (auto split: prod.splits)
    have "same_counts g1 (count_ack a h)" using sc c(2) False Cons.prems(2) by (simp add: same_counts_def count_ack_def)
    from Cons.IH [OF l(1) [folded l(2)] this, of "t0 @ ua_output a"] show ?thesis
      using sc c(2) False err by (auto simp: counts_are_def count_ack_def same_counts_def)
  qed
qed

lemma flush_counts: "flush_events cfg g = (g', es, x) \<Longrightarrow> same_counts g g'"
  using content_counts [of cfg _ g] by (auto simp: flush_events_def Let_def same_counts_def split: option.splits sum.splits prod.splits)

lemma finish_last: "finish_events cfg g = (es, Returned) \<Longrightarrow> \<exists>pre called. es = pre @ [gen_done g called]"
  by (auto simp: finish_events_def Let_def split: option.splits sum.splits prod.splits if_splits)

text \<open>When a generation succeeds both ways, the terminal event of the stream and the result without streaming
  report the same token counts and the same matched stop string, and the counts are the sums over the
  acknowledgements up to the first that ends the request.\<close>

theorem stream_and_full_agree:
  assumes "generate_events cfg r0 s0 acks = (es, Returned)" "generate_full cfg r0 s0 acks = Inr res"
  shows "\<exists>pre d. es = pre @ [GenDone d]
    \<and> ge_prompt d = gr_prompt res \<and> gr_prompt res = sum_list (map ua_prompt (read_acks acks))
    \<and> ge_completion d = gr_completion res \<and> gr_completion res = sum_list (map ua_completion (read_acks acks))
    \<and> ge_cached d = gr_cached res \<and> gr_cached res = sum_list (map ua_cached (read_acks acks))
    \<and> ge_matched d = gr_matched res"
proof -
  let ?g = "generation_init cfg r0 s0"
  obtain g1 es1 x1 where l: "ack_loop cfg acks ?g = (g1, es1, x1)" by (metis prod_cases3)
  obtain g2 es2 x2 where f: "flush_events cfg g1 = (g2, es2, x2)" by (metis prod_cases3)
  obtain es3 x3 where e: "finish_events cfg g2 = (es3, x3)" by fastforce
  have none: "x1 = None" "x2 = None \<and> x3 = Returned" "es = es1 @ es2 @ es3"
    using assms(1) l f e loop_raises [OF l] flush_raises [OF f] by (auto simp: generate_events_def split: option.splits)
  obtain tx h where c: "collect_acks acks [] ?g = Inr (tx, h)" "same_counts g1 h" "counts_are (read_acks acks) ?g g1"
    using loop_collects [OF l [unfolded none(1)], of ?g "[]"] by (auto simp: same_counts_def)
  have "same_counts g1 g2" using flush_counts [OF f] .
  moreover obtain pre called where "es3 = pre @ [gen_done g2 called]" using finish_last e none(2) by blast
  moreover have "gr_prompt res = gn_prompt h" "gr_completion res = gn_completion h" "gr_cached res = gn_cached h" "gr_matched res = gn_matched h"
    using assms(2) c(1) by (auto simp: generate_full_def Let_def split: sum.splits prod.splits)
  ultimately show ?thesis using c(2,3) none(3)
    by (intro exI [of _ "es1 @ es2 @ pre"]) (auto simp: gen_done_def same_counts_def counts_are_def generation_init_def)
qed

lemma stream_and_full_agree_witness:
  "\<exists>pre d. fst (generate_events (plain_config (id, demo_tools, False) demo_tools id) () gptoss_init demo_acks) = pre @ [GenDone d]
    \<and> ge_prompt d = 12 \<and> ge_completion d = 4"
proof -
  let ?cfg = "plain_config (id, demo_tools, False) demo_tools id"
  have s: "snd (generate_events ?cfg () gptoss_init demo_acks) = Returned" by code_simp
  have f: "(case generate_full ?cfg () gptoss_init demo_acks of Inl _ \<Rightarrow> False | Inr _ \<Rightarrow> True) = True" by code_simp
  obtain res where r: "generate_full ?cfg () gptoss_init demo_acks = Inr res"
    using f by (cases "generate_full ?cfg () gptoss_init demo_acks") simp_all
  have e: "generate_events ?cfg () gptoss_init demo_acks = (fst (generate_events ?cfg () gptoss_init demo_acks), Returned)"
    using s by (metis prod.collapse)
  from stream_and_full_agree [OF e r] show ?thesis by auto
qed
end
