(* ===== verification/GenGptOss.thy ===== *)
theory GenGptOss
  imports GenProps
begin

text \<open>
  The generator with the gpt-oss detector, end to end: from the acknowledgements of the engine to the events,
  which carry what a reading of the whole output finds.
\<close>

section \<open>Numbered calls\<close>

text \<open>\<open>n\<close> calls have started; \<open>b\<close> says whether the last may still get arguments.\<close>

fun calls_numbered :: "int \<Rightarrow> bool \<Rightarrow> atom list \<Rightarrow> bool" where
  "calls_numbered n b [] = True"
| "calls_numbered n b (TextChar c # as) = calls_numbered n False as"
| "calls_numbered n b (CallStart i name # as) = (i = n \<and> calls_numbered (n + 1) True as)"
| "calls_numbered n b (ArgChar i c # as) = (b \<and> i = n - 1 \<and> calls_numbered n b as)"

fun after_atoms :: "int \<times> bool \<Rightarrow> atom list \<Rightarrow> int \<times> bool" where
  "after_atoms nb [] = nb"
| "after_atoms (n, b) (TextChar c # as) = after_atoms (n, False) as"
| "after_atoms (n, b) (CallStart i name # as) = after_atoms (n + 1, True) as"
| "after_atoms (n, b) (ArgChar i c # as) = after_atoms (n, b) as"

lemma calls_numbered_append: "calls_numbered n b (as @ bs) \<longleftrightarrow> calls_numbered n b as \<and> (case after_atoms (n, b) as of (m, c) \<Rightarrow> calls_numbered m c bs)"
  by (induction n b as rule: calls_numbered.induct) auto

lemma after_append: "after_atoms nb (as @ bs) = after_atoms (after_atoms nb as) bs"
  by (induction nb as rule: after_atoms.induct) auto

lemma numbered_text [simp]: "calls_numbered n b (text_atoms t)" "after_atoms (n, b) (text_atoms t) = (n, b \<and> t = [])"
  by (induction t arbitrary: b) (auto simp: text_atoms_def)

lemma numbered_args [simp]: "calls_numbered n b (map (ArgChar i) p) \<longleftrightarrow> p = [] \<or> (b \<and> i = n - 1)" "after_atoms (n, b) (map (ArgChar i) p) = (n, b)"
  by (induction p) auto

lemma numbered_weaken: "calls_numbered n False as \<Longrightarrow> calls_numbered n b as"
  by (cases as; cases "hd as") auto

lemma read_numbered: "calls_numbered n False (read_text tools fwd n xs)"
proof (induction tools fwd n xs rule: read_text.induct)
  case (1 tools fwd n xs)
  show ?case
  proof (cases "earliest BLOCK_OPENERS xs")
    case None
    then show ?thesis by (subst read_text.simps) simp
  next
    case (Some pt)
    then obtain pos tok where e: "earliest BLOCK_OPENERS xs = Some (pos, tok)" by (cases pt) simp
    show ?thesis
    proof (cases "find_sub MESSAGE_TOKEN (drop pos xs)")
      case None
      then show ?thesis using e by (subst read_text.simps) simp
    next
      case m: (Some m)
      obtain body rest where sb: "split_body (drop (m + length MESSAGE_TOKEN) (drop pos xs)) = (body, rest)" by fastforce
      note ih = "1.IH" [OF e refl m sb [symmetric]]
      show ?thesis
      proof (cases "header_call tools fwd (take m (drop pos xs))")
        case None
        then show ?thesis using e m sb ih(1) [OF None] by (subst read_text.simps) (simp add: calls_numbered_append split: option.split)
      next
        case (Some name)
        then show ?thesis using e m sb numbered_weaken ih(2) [OF Some]
          by (subst read_text.simps) (simp add: calls_numbered_append split: option.split)
      qed
    qed
  qed
qed

section \<open>Events and atoms\<close>

fun event_atoms :: "gen_event list \<Rightarrow> atom list" where
  "event_atoms [] = []"
| "event_atoms (ContentDelta t # es) = text_atoms t @ event_atoms es"
| "event_atoms (ToolCallStart i name st # es) = (case name of Some n \<Rightarrow> [CallStart i n] | None \<Rightarrow> []) @ event_atoms es"
| "event_atoms (ToolCallArgsDelta i f # es) = map (ArgChar i) f @ event_atoms es"
| "event_atoms (e # es) = event_atoms es"

lemma event_atoms_append [simp]: "event_atoms (es @ es') = event_atoms es @ event_atoms es'"
  by (induction es rule: event_atoms.induct) simp_all

text \<open>Blank text between calls may be swallowed; everything else counts.\<close>

definition visible :: "atom list \<Rightarrow> atom list" where
  "visible as = filter (\<lambda>a. case a of TextChar c \<Rightarrow> \<not> is_space c | _ \<Rightarrow> True) as"

lemma visible_append [simp]: "visible (as @ bs) = visible as @ visible bs" "visible [] = []"
  by (simp_all add: visible_def)

lemma visible_args [simp]: "visible (map (ArgChar i) p) = map (ArgChar i) p" "visible (CallStart i n # as) = CallStart i n # visible as"
  by (induction p) (simp_all add: visible_def)

lemma strip_blank: "strip t = [] \<Longrightarrow> visible (text_atoms t) = []"
proof -
  assume "strip t = []"
  then have "rstrip (lstrip t) = []" by (simp add: strip_def)
  moreover obtain ws where "blank ws" "lstrip t = rstrip (lstrip t) @ ws" using rstrip_split by blast
  ultimately have "blank (lstrip t)" by simp
  moreover obtain vs where "blank vs" "t = vs @ lstrip t" using lstrip_split by blast
  ultimately have "blank t" by (metis list_all_append)
  then show ?thesis by (auto simp: visible_def text_atoms_def list_all_iff filter_empty_conv)
qed

text \<open>How the routing stands to the numbers of the detector\<close>

definition call_linked :: "'s routing \<Rightarrow> int \<times> bool \<Rightarrow> bool" where
  "call_linked r nb \<longleftrightarrow> (case nb of (n, b) \<Rightarrow>
    (case ro_open r of None \<Rightarrow> \<not> b \<and> n = ro_emitted r
     | Some c \<Rightarrow> b \<and> n = ro_emitted r + 1 \<and> oc_detector c = ro_emitted r \<and> oc_ordinal c = ro_emitted r))"

definition item_ok :: "call_item \<Rightarrow> bool" where
  "item_ok c \<longleftrightarrow> ci_name c \<noteq> None \<or> ci_parameters c \<noteq> []"

fun segment_ok :: "segment \<Rightarrow> bool" where
  "segment_ok (SegText t) = (t \<noteq> [])"
| "segment_ok (SegCalls cs) = list_all item_ok cs"

lemma fragment_linked:
  assumes "call_linked r (n, b)" "item_ok f" "calls_numbered n b (item_atoms [f])" "route_fragment d fl f r = (r', es)"
  shows "call_linked r' (after_atoms (n, b) (item_atoms [f])) \<and> event_atoms es = item_atoms [f] \<and> ro_state r' = ro_state r"
proof (cases "ci_name f")
  case None
  then have p: "ci_parameters f \<noteq> []" using assms(2) by (simp add: item_ok_def)
  then have b: "b" "ci_index f = n - 1" using assms(3) None by auto
  then obtain c where c: "ro_open r = Some c" "n = ro_emitted r + 1" "oc_detector c = ro_emitted r" "oc_ordinal c = ro_emitted r"
    using assms(1) by (auto simp: call_linked_def split: option.splits)
  have "route_fragment d fl f r = (r\<lparr>ro_open := Some (c\<lparr>oc_params := oc_params c @ ci_parameters f\<rparr>)\<rparr>, [ToolCallArgsDelta (oc_ordinal c) (ci_parameters f)])"
    using None p c(1) by (simp add: route_fragment_def starts_new_def add_fragment_def)
  then show ?thesis using assms(4) None b c p by (auto simp: call_linked_def)
next
  case (Some name)
  then have i: "ci_index f = n" using assms(3) by simp
  have fresh: "starts_new f (ro_open r)" using Some i assms(1) by (auto simp: starts_new_def call_linked_def split: option.splits)
  obtain r1 es1 where cl: "close_open_call d fl r = (r1, es1)" by fastforce
  have r1: "ro_open r1 = None" "ro_emitted r1 = n" "event_atoms es1 = []" "ro_state r1 = ro_state r"
    using cl assms(1) by (auto simp: close_open_call_def call_linked_def Let_def split: option.splits)
  let ?c = "\<lparr>oc_detector = ci_index f, oc_name = ci_name f, oc_params = [], oc_ordinal = ro_emitted r1\<rparr>"
  have "route_fragment d fl f r = (case add_fragment f (r1\<lparr>ro_open := Some ?c\<rparr>) of (r, added) \<Rightarrow> (r, es1 @ [ToolCallStart (ro_emitted r1) (ci_name f) True] @ added))"
    using fresh cl by (simp add: route_fragment_def)
  then show ?thesis using assms(4) r1 i Some by (auto simp: add_fragment_def call_linked_def split: if_splits)
qed

lemma item_atoms_Cons: "item_atoms (c # cs) = item_atoms [c] @ item_atoms cs"
  by simp

lemma fragments_linked:
  assumes "call_linked r (n, b)" "list_all item_ok fs" "calls_numbered n b (item_atoms fs)" "route_fragments d fl fs r = (r', es)"
  shows "call_linked r' (after_atoms (n, b) (item_atoms fs)) \<and> event_atoms es = item_atoms fs \<and> ro_state r' = ro_state r"
  using assms
proof (induction fs arbitrary: r n b es)
  case (Cons f fs)
  obtain r1 es1 where f: "route_fragment d fl f r = (r1, es1)" by fastforce
  obtain es2 where g: "route_fragments d fl fs r1 = (r', es2)" "es = es1 @ es2" using Cons.prems(4) f by (auto split: prod.splits)
  obtain m c where mc: "after_atoms (n, b) (item_atoms [f]) = (m, c)" by fastforce
  have nf: "calls_numbered n b (item_atoms [f])" "calls_numbered m c (item_atoms fs)"
    using Cons.prems(3) mc unfolding item_atoms_Cons [of f fs] calls_numbered_append by auto
  have a: "call_linked r1 (m, c)" "event_atoms es1 = item_atoms [f]" "ro_state r1 = ro_state r"
    using fragment_linked [OF Cons.prems(1) _ nf(1) f] Cons.prems(2) mc by auto
  have "call_linked r' (after_atoms (m, c) (item_atoms fs)) \<and> event_atoms es2 = item_atoms fs \<and> ro_state r' = ro_state r1"
    using Cons.IH [OF a(1) _ nf(2) g(1)] Cons.prems(2) by simp
  then show ?case using a g(2) mc unfolding item_atoms_Cons [of f fs] after_append by simp
qed simp

lemma content_linked:
  assumes "call_linked r (n, b)" "t \<noteq> []" "close_open_call d fl r = (r1, es1)" "route_content [] t r1 = (r2, es2)"
  shows "call_linked r2 (after_atoms (n, b) (text_atoms t)) \<and> visible (event_atoms (es1 @ es2)) = visible (text_atoms t) \<and> ro_state r2 = ro_state r"
proof -
  have r1: "call_linked r1 (n, False)" "event_atoms es1 = []" "ro_state r1 = ro_state r"
    using assms(1,3) by (auto simp: close_open_call_def call_linked_def Let_def split: option.splits)
  have "strip_special_tokens t [] = t" by (simp add: strip_special_tokens_def)
  then show ?thesis using assms(2,4) r1 strip_blank [of t]
    by (auto simp: route_content_def Let_def call_linked_def split: if_splits option.splits)
qed

lemma segments_linked:
  assumes "call_linked r (n, b)" "list_all segment_ok segs" "calls_numbered n b (seg_atoms segs)" "route_segments d fl [] segs r = (r', es)"
  shows "call_linked r' (after_atoms (n, b) (seg_atoms segs)) \<and> visible (event_atoms es) = visible (seg_atoms segs) \<and> ro_state r' = ro_state r"
  using assms
proof (induction segs arbitrary: r n b es)
  case (Cons seg segs)
  obtain as where as: "seg_atoms (seg # segs) = as @ seg_atoms segs" "as = seg_atoms [seg]" by (cases seg) simp_all
  obtain m c where mc: "after_atoms (n, b) as = (m, c)" by fastforce
  have nf: "calls_numbered n b as" "calls_numbered m c (seg_atoms segs)" using Cons.prems(3) mc unfolding as(1) calls_numbered_append by auto
  have "\<exists>r1 es1 es2. route_segments d fl [] segs r1 = (r', es2) \<and> es = es1 @ es2
      \<and> call_linked r1 (m, c) \<and> visible (event_atoms es1) = visible as \<and> ro_state r1 = ro_state r"
  proof (cases seg)
    case (SegText t)
    obtain r0 es0 r1 es1 where c: "close_open_call d fl r = (r0, es0)" "route_content [] t r0 = (r1, es1)" by fastforce
    note l = content_linked [OF Cons.prems(1) _ c]
    show ?thesis
      by (rule exI [of _ r1], rule exI [of _ "es0 @ es1"])
        (use l Cons.prems(2,4) c SegText mc as(2) in \<open>auto split: prod.splits\<close>)
  next
    case (SegCalls fs)
    obtain r1 es1 where c: "route_fragments d fl fs r = (r1, es1)" by fastforce
    note l = fragments_linked [OF Cons.prems(1) _ _ c]
    show ?thesis
      by (rule exI [of _ r1], rule exI [of _ es1])
        (use l Cons.prems(2,4) c SegCalls mc nf(1) as(2) in \<open>auto split: prod.splits\<close>)
  qed
  then obtain r1 es1 es2 where s: "route_segments d fl [] segs r1 = (r', es2)" "es = es1 @ es2"
      "call_linked r1 (m, c)" "visible (event_atoms es1) = visible as" "ro_state r1 = ro_state r" by blast
  have "call_linked r' (after_atoms (m, c) (seg_atoms segs)) \<and> visible (event_atoms es2) = visible (seg_atoms segs) \<and> ro_state r' = ro_state r1"
    using Cons.IH [OF s(3) _ nf(2) s(1)] Cons.prems(2) by simp
  then show ?case using s mc unfolding as(1) after_append by simp
qed simp

section \<open>What the detector emits and keeps\<close>

lemma turn_items_ok: "turn d had g = (g', t, cs, on) \<Longrightarrow> list_all item_ok cs"
  by (cases d) (auto simp: loop_turn_def text_turn_def body_turn_def piece_items_def item_ok_def Let_def split: if_splits option.splits prod.splits)

lemma steps_items_ok: "steps d had g = (g', t, cs) \<Longrightarrow> list_all item_ok cs"
proof (induction "turn_measure g" arbitrary: g had t cs rule: less_induct)
  case less
  obtain g0 t0 cs0 on where tu: "turn d had g = (g0, t0, cs0, on)" by (metis prod_cases4)
  note ok = turn_items_ok [OF tu]
  show ?case
  proof (cases on)
    case True
    obtain t1 cs1 where s: "steps d (had \<or> cs0 \<noteq> []) g0 = (g', t1, cs1)" "cs = cs0 @ cs1"
      using less.prems True unfolding steps_unfold [where d = d and had = had and g = g] tu by (auto split: prod.splits)
    have "turn_measure g0 < turn_measure g" using tu True by (cases d) (auto intro: turn_decreases)
    from less.hyps [OF this s(1)] show ?thesis using ok s(2) by simp
  next
    case False
    then show ?thesis using less.prems ok unfolding steps_unfold [where d = d and had = had and g = g] tu by simp
  qed
qed

lemma drain_segments_ok: "drain_chunk (machine_of d) n c g = ok (g', segs) \<Longrightarrow> list_all segment_ok segs"
proof (induction n arbitrary: c g segs)
  case (Suc n)
  obtain g1 t cs where s: "steps d False (fed c g) = (g1, t, cs)" by (metis prod_cases3)
  note ok = steps_items_ok [OF s]
  have "list_all segment_ok (segments_of (streaming_result t cs))" using ok by (simp add: segments_of_def)
  then show ?case using Suc s by (auto simp: increment_steps split: if_splits)
qed simp

lemma quiet_not_has:
  assumes "at_rest d g" "go_buf g \<noteq> []"
  shows "\<not> gptoss_has (go_buf g)"
proof -
  obtain fl tools fwd where d: "d = (fl, tools, fwd)" by (cases d)
  have small: "\<not> gptoss_has xs" if h: "held_suffix toks xs = length xs" "\<forall>tok \<in> set toks. length tok \<le> 12" for toks and xs :: utext
  proof
    assume "gptoss_has xs"
    then have "has_sub FUNCTIONS xs" by (simp add: gptoss_has_def)
    then have "13 \<le> length xs" by (auto simp: has_sub_iff functions_length)
    moreover from this obtain tok where "tok \<in> set toks" "held_suffix toks xs < length tok"
      using held_suffix_attained [of toks xs] h(1) by auto
    ultimately show False using h by fastforce
  qed
  have len: "\<forall>tok \<in> set BLOCK_OPENERS. length tok \<le> 12" "\<forall>tok \<in> set BOUNDARIES. length tok \<le> 12"
    by (simp_all add: BLOCK_OPENERS_def CLOSING_TOKENS_def codes_def)
  show ?thesis
  proof (cases "go_mode g = GText")
    case True
    then have t: "text_turn tools fwd g = (g, [], [], False)" using assms(1) d by (simp add: at_rest_turn gpt_turn_cases)
    show ?thesis
    proof (cases "earliest BLOCK_OPENERS (go_buf g)")
      case None
      then have "take (length (go_buf g) - held_suffix BLOCK_OPENERS (go_buf g)) (go_buf g) = []" using t by (simp add: text_turn_def Let_def)
      then have "held_suffix BLOCK_OPENERS (go_buf g) = length (go_buf g)" using assms(2) held_suffix_le [of BLOCK_OPENERS "go_buf g"] by simp
      then show ?thesis using small len by blast
    next
      case (Some pt)
      then have "find_sub MESSAGE_TOKEN (go_buf g) = None" using t by (auto simp: text_turn_def Let_def split: if_splits option.splits prod.splits)
      then show ?thesis by (simp add: gptoss_has_def has_sub_def)
    qed
  next
    case False
    then have t: "body_turn fl g = (g, [], [], False)" using assms(1) d by (simp add: at_rest_turn gpt_turn_cases)
    then obtain h where h: "h = length (go_buf g) - held_suffix BOUNDARIES (go_buf g)"
      "g = (if go_mode g = GTool then add_piece (take h (go_buf g)) g else g)\<lparr>go_buf := drop h (go_buf g)\<rparr>"
      by (rule body_turn_waits)
    then have "go_buf g = drop h (go_buf g)" by (metis gptoss.select_convs(1) gptoss.surjective gptoss.update_convs(1))
    then have "length (go_buf g) = length (go_buf g) - h" by (metis length_drop)
    then have "held_suffix BOUNDARIES (go_buf g) = length (go_buf g)" using h(1) assms(2) held_suffix_le [of BOUNDARIES "go_buf g"] by simp
    then show ?thesis using small len by blast
  qed
qed

section \<open>The generator over the detector\<close>

text \<open>The relation of a generation to the text that is still to come\<close>

definition in_step :: "machine \<Rightarrow> utext \<Rightarrow> gptoss routing \<Rightarrow> bool" where
  "in_step d ys r \<longleftrightarrow> at_rest d (ro_state r) \<and> calls_left (fed ys (ro_state r)) < 16
     \<and> (\<exists>n b. call_linked r (n, b) \<and> calls_numbered n b (delivered d (fed ys (ro_state r))))"

lemma delivered_split: "turn_run d g = (g1, as) \<Longrightarrow> delivered d (fed ys g) = as @ delivered d (fed ys g1)"
  using run_push [of d g g1 as ys] by (auto simp: delivered_def split: prod.splits)

lemma piece_step:
  assumes "in_step d (t @ ys) r" "tools \<noteq> []"
  shows "\<exists>r' es. route_tool_text (machine_of d) tools fl [] t r = ok (r', es) \<and> in_step d ys r'
    \<and> visible (event_atoms es) @ visible (delivered d (fed ys (ro_state r'))) = visible (delivered d (fed (t @ ys) (ro_state r)))"
proof (cases "t = []")
  case True
  then show ?thesis using assms(1) by (simp add: route_tool_text_def)
next
  case False
  let ?s = "ro_state r"
  obtain n b where nb: "call_linked r (n, b)" "calls_numbered n b (delivered d (fed (t @ ys) ?s))" using assms(1) by (auto simp: in_step_def)
  have "calls_left (fed t ?s) \<le> calls_left (fed (t @ ys) ?s)" using count_sub_append [of MESSAGE_TOKEN] by (simp add: calls_left_def del: append_assoc add: append_assoc [symmetric])
  then have "calls_left (fed t ?s) < 16" using assms(1) by (simp add: in_step_def)
  from drain_run [OF this, of d] obtain s2 segs where s: "drain_chunk (machine_of d) 16 t ?s = ok (s2, segs)"
    "turn_run d (fed t ?s) = (s2, seg_atoms segs)" "at_rest d s2" "\<forall>ys. calls_left (fed ys s2) \<le> calls_left (fed (t @ ys) ?s)" by blast
  have split: "delivered d (fed (t @ ys) ?s) = seg_atoms segs @ delivered d (fed ys s2)"
    using delivered_split [OF s(2), of ys] by simp
  obtain r' es where r': "route_segments (machine_of d) fl [] segs (r\<lparr>ro_state := s2\<rparr>) = (r', es)" by fastforce
  have route: "route_tool_text (machine_of d) tools fl [] t r = ok (r', es)"
    using False assms(2) s(1) r' by (simp add: route_tool_text_def parse_stream_events_def)
  have l: "call_linked (r\<lparr>ro_state := s2\<rparr>) (n, b)" using nb(1) by (cases "ro_open r") (simp_all add: call_linked_def)
  have num: "calls_numbered n b (seg_atoms segs)" "case after_atoms (n, b) (seg_atoms segs) of (m, c) \<Rightarrow> calls_numbered m c (delivered d (fed ys s2))"
    using nb(2) unfolding split calls_numbered_append by (rule conjunct1, rule conjunct2)
  have out: "call_linked r' (after_atoms (n, b) (seg_atoms segs))" "visible (event_atoms es) = visible (seg_atoms segs)" "ro_state r' = s2"
    using segments_linked [OF l drain_segments_ok [OF s(1)] num(1) r'] by simp_all
  have "in_step d ys r'"
    using out(1,3) s(3,4) assms(1) num(2) unfolding in_step_def by (auto split: prod.splits dest: le_less_trans)
  then show ?thesis using route out(2,3) split by auto
qed

lemma finish_atoms:
  assumes "in_step d [] r"
  shows "visible (event_atoms (snd (finish_routing (machine_of d) fl [] r))) = visible (delivered d (ro_state r))"
proof -
  let ?s = "ro_state r"
  have q: "at_rest d ?s" using assms by (simp add: in_step_def)
  obtain r2 es2 where c: "close_open_call (machine_of d) fl (r\<lparr>ro_state := ?s\<rparr>) = (r2, es2)" by fastforce
  have r2: "ro_state r2 = ?s" "event_atoms es2 = []" using c by (auto simp: close_open_call_def Let_def split: option.splits)
  have rec: "recover_truncated (machine_of d) ?s = (?s, [])"
    using quiet_not_has [OF q] by (cases d) (auto simp: recover_truncated_def gptoss_detector_def)
  have ops: "dt_finalize (machine_of d) x = (x, [])" "dt_finish (machine_of d) = gptoss_finish" for x
    by (cases d; simp add: gptoss_detector_def)+
  let ?res = "snd (gptoss_finish ?s)"
  have "event_atoms (snd (finish_routing (machine_of d) fl [] r)) = event_atoms (if ?res \<noteq> [] \<and> \<not> (strip ?res = [] \<and> ro_blank r2) then [ContentDelta ?res] else [])"
    unfolding finish_routing_def Let_def ops prod.case finalize_fragments.simps c r2(1) rec recovered_calls.simps
    using r2 by (simp add: strip_special_tokens_def rec ops split: prod.splits)
  moreover have "delivered d ?s = text_atoms ?res" using quiet_run [OF q] by (simp add: delivered_def)
  ultimately show ?thesis using strip_blank [of ?res] by simp
qed

lemma ack_step:
  assumes "gn_routing g = Some r" "in_step d (ua_output a @ ys) r" "\<not> failed a" "tools \<noteq> []"
  shows "\<exists>g' r' es. ack_events (plain_config d tools fl) a g = (g', es, None) \<and> gn_routing g' = Some r' \<and> in_step d ys r'
    \<and> visible (event_atoms es) @ visible (delivered d (fed ys (ro_state r'))) = visible (delivered d (fed (ua_output a @ ys) (ro_state r)))"
proof -
  let ?cfg = "plain_config d tools fl"
  have cfg: "gc_reasoner ?cfg = None" "gc_tools ?cfg = Some tools" "gc_detector ?cfg = Some (machine_of d)" "gc_specials ?cfg = []" "gc_float ?cfg = fl"
    by (simp_all add: plain_config_def)
  have s: "split_ack ?cfg (ua_output a) (count_ack a g) = (count_ack a g, [], ua_output a)" by (simp add: split_ack_def cfg)
  obtain r' es where p: "route_tool_text (machine_of d) tools fl [] (ua_output a) r = ok (r', es)" "in_step d ys r'"
    "visible (event_atoms es) @ visible (delivered d (fed ys (ro_state r'))) = visible (delivered d (fed (ua_output a @ ys) (ro_state r)))"
    using piece_step [OF assms(2,4)] by blast
  have "\<exists>g2. content_events ?cfg (ua_output a) (count_ack a g) = ok (g2, es) \<and> gn_routing g2 = Some r'"
  proof (cases "ua_output a = []")
    case True
    then have "r' = r \<and> es = []" using p(1) by (simp add: route_tool_text_def)
    then show ?thesis using True assms(1) by (simp add: content_events_def count_ack_def)
  next
    case False
    then show ?thesis using p(1) assms(1) by (simp add: content_events_def count_ack_def cfg)
  qed
  then obtain g2 where c: "content_events ?cfg (ua_output a) (count_ack a g) = ok (g2, es)" "gn_routing g2 = Some r'" by blast
  have "ack_events ?cfg a g = (if ua_finished a then g2\<lparr>gn_reason := ua_reason a, gn_matched := ua_matched a\<rparr> else g2, es, None)"
    using ack_unfold [OF assms(3) s] c(1) by (simp add: reasoning_events_def)
  then show ?thesis using c(2) p(2,3) by (intro exI conjI) (assumption, simp_all)
qed

lemma loop_step:
  assumes "gn_routing g = Some r" "in_step d (concat (map ua_output (read_acks acks))) r" "\<forall>a \<in> set (read_acks acks). \<not> failed a" "tools \<noteq> []"
  shows "\<exists>g' r' es. ack_loop (plain_config d tools fl) acks g = (g', es, None) \<and> gn_routing g' = Some r' \<and> in_step d [] r'
    \<and> visible (event_atoms es) @ visible (delivered d (ro_state r')) = visible (delivered d (fed (concat (map ua_output (read_acks acks))) (ro_state r)))"
  using assms(1-3)
proof (induction acks arbitrary: g r)
  case Nil
  then show ?case by simp
next
  case (Cons a acks)
  let ?rest = "if ua_finished a then [] else concat (map ua_output (read_acks acks))"
  have tx: "concat (map ua_output (read_acks (a # acks))) = ua_output a @ ?rest" by simp
  have nf: "\<not> failed a" using Cons.prems(3) by (cases "ua_finished a") simp_all
  obtain g1 r1 es1 where s: "ack_events (plain_config d tools fl) a g = (g1, es1, None)" "gn_routing g1 = Some r1" "in_step d ?rest r1"
    "visible (event_atoms es1) @ visible (delivered d (fed ?rest (ro_state r1))) = visible (delivered d (fed (ua_output a @ ?rest) (ro_state r)))"
    using ack_step [OF Cons.prems(1) Cons.prems(2) [unfolded tx] nf assms(4)] by blast
  show ?case
  proof (cases "ua_finished a")
    case True
    then show ?thesis using s tx by simp
  next
    case False
    have "in_step d (concat (map ua_output (read_acks acks))) r1" using s(3) False by simp
    from Cons.IH [OF s(2) this] Cons.prems(3) False obtain g2 r2 es2 where l: "ack_loop (plain_config d tools fl) acks g1 = (g2, es2, None)"
      "gn_routing g2 = Some r2" "in_step d [] r2"
      "visible (event_atoms es2) @ visible (delivered d (ro_state r2)) = visible (delivered d (fed (concat (map ua_output (read_acks acks))) (ro_state r1)))"
      by auto
    have "ack_loop (plain_config d tools fl) (a # acks) g = (g2, es1 @ es2, None)" using s(1) l(1) False by simp
    moreover have "visible (event_atoms (es1 @ es2)) @ visible (delivered d (ro_state r2))
      = visible (delivered d (fed (concat (map ua_output (read_acks (a # acks)))) (ro_state r)))"
      using s(4) l(4) False tx by simp
    ultimately show ?thesis using l(2,3) by blast
  qed
qed

text \<open>C22: for a gpt-oss completion with tools, the streamed content, tool call starts and argument fragments are, in
  order and up to blank text between calls, exactly what a reading of the whole output finds, however
  the engine cuts it into acknowledgements, and the generation ends normally. No acknowledgement reports
  an error and no reasoning parser is configured. The output holds at most fifteen message markers, which is
  what the drain of a single chunk can deliver.\<close>

theorem gptoss_generation:
  assumes "tools \<noteq> []" "\<forall>a \<in> set (read_acks acks). \<not> failed a"
    "count_sub MESSAGE_TOKEN (concat (map ua_output (read_acks acks))) \<le> 15"
  shows "snd (generate_events (plain_config (fl, tools, fwd) tools fl) () gptoss_init acks) = Returned
    \<and> visible (event_atoms (fst (generate_events (plain_config (fl, tools, fwd) tools fl) () gptoss_init acks)))
      = visible (read_text tools fwd 0 (concat (map ua_output (read_acks acks))))"
proof -
  let ?d = "(fl, tools, fwd)" let ?cfg = "plain_config ?d tools fl" and ?xs = "concat (map ua_output (read_acks acks))"
  let ?g = "generation_init ?cfg () gptoss_init"
  let ?r = "\<lparr>ro_state = gptoss_init, ro_open = None, ro_emitted = 0, ro_blank = False\<rparr>"
  have r: "gn_routing ?g = Some ?r" by (simp add: generation_init_def plain_config_def)
  have all: "delivered ?d (fed ?xs gptoss_init) = read_text tools fwd 0 ?xs"
    using delivered_text [of "fed ?xs gptoss_init" ?d fl tools fwd] by (simp add: gptoss_init_def fed_def next_id_def)
  have "calls_left (fed ?xs gptoss_init) < 16" using assms(3) by (simp add: calls_left_def gptoss_init_def)
  moreover have "at_rest ?d gptoss_init" by (simp add: at_rest_turn loop_turn_def gptoss_init_def)
  ultimately have "in_step ?d ?xs ?r"
    using read_numbered all by (auto simp: in_step_def call_linked_def)
  from loop_step [OF r this assms(2,1), of fl] obtain g' r' es where l: "ack_loop ?cfg acks ?g = (g', es, None)" "gn_routing g' = Some r'" "in_step ?d [] r'"
    "visible (event_atoms es) @ visible (delivered ?d (ro_state r')) = visible (delivered ?d (fed ?xs gptoss_init))" by auto
  obtain r2 es2 where f: "finish_routing (machine_of ?d) fl [] r' = (r2, es2)" by fastforce
  have "flush_events ?cfg g' = (g', [], None)" by (simp add: flush_events_def plain_config_def)
  moreover have "finish_events ?cfg g' = (es2 @ [gen_done g' (ro_emitted r2 \<noteq> 0)], Returned)"
    using l(2) f by (simp add: finish_events_def plain_config_def)
  ultimately have "generate_events ?cfg () gptoss_init acks = (es @ es2 @ [gen_done g' (ro_emitted r2 \<noteq> 0)], Returned)"
    using l(1) by (simp add: generate_events_def)
  moreover have "visible (event_atoms es2) = visible (delivered ?d (ro_state r'))" using finish_atoms [OF l(3), of fl] f by simp
  ultimately show ?thesis using l(4) all by (simp add: gen_done_def)
qed

lemma gptoss_generation_witness:
  "visible (event_atoms (fst (generate_events (plain_config (id, demo_tools, False) demo_tools id) () gptoss_init demo_acks)))
    = [TextChar 97, CallStart 0 [102], ArgChar 0 123, ArgChar 0 125, TextChar 98]"
proof -
  have r: "visible (read_text demo_tools False 0 (concat (map ua_output (read_acks demo_acks))))
    = [TextChar 97, CallStart 0 [102], ArgChar 0 123, ArgChar 0 125, TextChar 98]" by code_simp
  have c: "count_sub MESSAGE_TOKEN (concat (map ua_output (read_acks demo_acks))) \<le> 15" by code_simp
  have f: "\<forall>a \<in> set (read_acks demo_acks). \<not> failed a" by (simp add: failed_def)
  show ?thesis using gptoss_generation [OF _ f c, of demo_tools id False] unfolding r by simp
qed
end
