(* ===== verification/InvokeGrammar.thy ===== *)
theory InvokeGrammar
  imports ToolCalls
begin

text \<open>
  The invoke formats of Qwen3-Coder and MiniMax-M2 in \<open>server/function_call_parser.py\<close>: the conversion of
  parameter values by the schema of the tool, the grammar a subclass of \<open>InvokeParamStreamMixin\<close> declares, and
  the laws the streaming parser relies on. What Python's \<open>float\<close>, \<open>ast.literal_eval\<close> and the Unicode digits
  yield is a parameter; a value \<open>json.dumps\<close> refuses is the inner \<open>None\<close> of \<open>pe_literal\<close>.
\<close>

section \<open>Values\<close>

datatype py_float = Integral int | Fractional utext | Infinite | NotANumber

record py_env =
  pe_repr :: "utext \<Rightarrow> utext"
  pe_float :: "utext \<Rightarrow> py_float option"
  pe_literal :: "utext \<Rightarrow> jval option option"
  pe_digit :: "int \<Rightarrow> nat option"

text \<open>\<open>str.lower\<close>, as far as it decides a comparison with the ASCII words below\<close>

definition lower :: "utext \<Rightarrow> utext" where
  "lower s = map (\<lambda>c. if 65 \<le> c \<and> c \<le> 90 then c + 32 else c) s"

text \<open>\<open>int(value)\<close>: blanks around it, a sign, digits with single underscores between them, at most 4300\<close>

definition digit_value :: "py_env \<Rightarrow> int \<Rightarrow> nat option" where
  "digit_value e c = (if is_digit c then Some (nat (c - 48)) else pe_digit e c)"

fun int_digit_run :: "py_env \<Rightarrow> nat list \<Rightarrow> utext \<Rightarrow> nat list option" where
  "int_digit_run e acc [] = (if acc = [] then None else Some acc)"
| "int_digit_run e acc (c # cs) =
    (case digit_value e c of
       Some d \<Rightarrow> int_digit_run e (acc @ [d]) cs
     | None \<Rightarrow>
         if c = 95 \<and> acc \<noteq> [] \<and> cs \<noteq> [] \<and> digit_value e (hd cs) \<noteq> None then int_digit_run e acc cs else None)"

definition int_of_text :: "py_env \<Rightarrow> utext \<Rightarrow> int option" where
  "int_of_text e value =
    (let s = strip value; neg = (take 1 s = [45]); body = (if neg \<or> take 1 s = [43] then drop 1 s else s) in
     case int_digit_run e [] body of
       None \<Rightarrow> None
     | Some ds \<Rightarrow>
         if length ds > 4300 then None
         else Some ((if neg then - 1 else 1) * foldl (\<lambda>a d. 10 * a + int d) 0 ds))"

text \<open>\<open>_get_param_config\<close>: the properties of the first tool of that name that has parameters. A schema whose
  \<open>properties\<close> are no object is malformed and yields none.\<close>

type_synonym param_config = "(utext \<times> jval) list"

definition get_param_config :: "utext \<Rightarrow> tool_function list \<Rightarrow> param_config" where
  "get_param_config name tools =
    (case find (\<lambda>t. tf_name t = name \<and> (case tf_parameters t of Some (VObj (kv # kvs)) \<Rightarrow> True | _ \<Rightarrow> False)) tools of
       Some t \<Rightarrow>
         (case tf_parameters t of
            Some (VObj params) \<Rightarrow>
              (case map_of params (codes ''properties'') of Some (VObj props) \<Rightarrow> props | Some _ \<Rightarrow> [] | None \<Rightarrow> params)
          | _ \<Rightarrow> [])
     | None \<Rightarrow> [])"

text \<open>\<open>str(prop.get("type", "string")).strip().lower()\<close>; the text of anything but a string is none of the
  names the code compares with, and is represented by the empty text.\<close>

definition type_name :: "jval \<Rightarrow> utext" where
  "type_name prop =
    (case prop of
       VObj kvs \<Rightarrow> (case map_of kvs (codes ''type'') of None \<Rightarrow> codes ''string'' | Some (VText s) \<Rightarrow> lower (strip s) | Some _ \<Rightarrow> [])
     | _ \<Rightarrow> codes ''string'')"

definition schema_param_type :: "utext \<Rightarrow> param_config \<Rightarrow> utext \<Rightarrow> utext" where
  "schema_param_type key config missing = (case map_of config key of None \<Rightarrow> missing | Some prop \<Rightarrow> type_name prop)"

definition string_type :: "utext \<Rightarrow> bool" where
  "string_type t \<longleftrightarrow> t \<in> {codes ''string'', codes ''str'', codes ''enum''}"

text \<open>\<open>_convert_param_value\<close>: the value, \<open>None\<close> for one that \<open>json.dumps\<close> refuses, or an exception that the code
  does not catch (\<open>int\<close> of an infinite float).\<close>

definition convert_number :: "py_env \<Rightarrow> utext \<Rightarrow> jval option result" where
  "convert_number e value =
    (case pe_float e value of
       None \<Rightarrow> ok (Some (VText value))
     | Some (Integral i) \<Rightarrow> ok (Some (VInt i))
     | Some (Fractional t) \<Rightarrow> ok (Some (VFloat t))
     | Some NotANumber \<Rightarrow> ok (Some (VText value))
     | Some Infinite \<Rightarrow> raise OverflowError)"

definition convert_param_value :: "py_env \<Rightarrow> utext \<Rightarrow> utext \<Rightarrow> param_config \<Rightarrow> jval option result" where
  "convert_param_value e value key config =
    (if lower value = codes ''null'' then ok (Some VNull)
     else case map_of config key of
       None \<Rightarrow> ok (Some (VText value))
     | Some prop \<Rightarrow>
         (let t = type_name prop in
          if string_type t then ok (Some (VText value))
          else if has_prefix (codes ''int'') t then ok (Some (case int_of_text e value of Some i \<Rightarrow> VInt i | None \<Rightarrow> VText value))
          else if t \<in> {codes ''number'', codes ''float'', codes ''double''} then convert_number e value
          else if t \<in> {codes ''boolean'', codes ''bool''} then ok (Some (VBool (lower value = codes ''true'')))
          else if t \<in> {codes ''object'', codes ''array''} then
            ok (case loads (pe_repr e) value of
                  Some v \<Rightarrow> Some v
                | None \<Rightarrow> (case pe_literal e value of Some v \<Rightarrow> v | None \<Rightarrow> Some (VText value)))
          else ok (Some (VText value))))"

definition parse_loose_json_value :: "py_env \<Rightarrow> utext \<Rightarrow> jval" where
  "parse_loose_json_value e value =
    (case loads (pe_repr e) value of
       Some v \<Rightarrow> v
     | None \<Rightarrow>
         if lower value = codes ''true'' then VBool True
         else if lower value = codes ''false'' then VBool False
         else if lower value = codes ''null'' then VNull
         else VText value)"

section \<open>Grammars\<close>

text \<open>The regular expression of an opening tag searches from a position on; it yields the captured group and
  how many characters lie up to the end of the match.\<close>

record grammar =
  gm_outer_open :: utext
  gm_outer_close :: utext
  gm_invoke_prefix :: utext
  gm_invoke_open :: "utext \<Rightarrow> (utext \<times> nat) option"
  gm_invoke_close :: utext
  gm_param_prefix :: utext
  gm_param_open :: "utext \<Rightarrow> (utext \<times> nat) option"
  gm_param_close :: utext
  gm_trim_single :: bool
  gm_missing :: utext

text \<open>Every grammar trims line feeds: one at each end, or all.\<close>

definition trim_leading :: "grammar \<Rightarrow> utext \<Rightarrow> utext" where
  "trim_leading gm t = (if gm_trim_single gm then (if take 1 t = [10] then drop 1 t else t) else dropWhile (\<lambda>c. c = 10) t)"

definition rstrip_lf :: "utext \<Rightarrow> utext" where
  "rstrip_lf t = rev (dropWhile (\<lambda>c. c = 10) (rev t))"

definition trim_trailing :: "grammar \<Rightarrow> utext \<Rightarrow> utext" where
  "trim_trailing gm t = (if gm_trim_single gm then (if t \<noteq> [] \<and> last t = 10 then butlast t else t) else rstrip_lf t)"

text \<open>\<open><tag=([^>]*)>\<close>\<close>

definition equals_tag :: "utext \<Rightarrow> utext \<Rightarrow> (utext \<times> nat) option" where
  "equals_tag tag xs =
    (case find_sub tag xs of
       None \<Rightarrow> None
     | Some i \<Rightarrow>
         (let r = drop (i + length tag) xs; name = takeWhile (\<lambda>c. c \<noteq> 62) r
          in if length name < length r then Some (name, i + length tag + length name + 1) else None))"

text \<open>\<open><tag\s+name="([^"]+)"\s*>\<close> at the head of a text, and searched for\<close>

definition named_tag_at :: "utext \<Rightarrow> utext \<Rightarrow> (utext \<times> nat) option" where
  "named_tag_at tag xs =
    (let r = drop (length tag) xs; sp = takeWhile is_space r; q = drop (length sp) r;
         v = drop 6 q; name = takeWhile (\<lambda>c. c \<noteq> 34) v; w = drop (Suc (length name)) v; sp' = takeWhile is_space w
     in if has_prefix tag xs \<and> sp \<noteq> [] \<and> has_prefix (codes ''name='' @ [34]) q \<and> name \<noteq> [] \<and> length name < length v
           \<and> take 1 (drop (length sp') w) = [62]
        then Some (name, length tag + length sp + 6 + length name + 1 + length sp' + 1) else None)"

fun named_tag :: "utext \<Rightarrow> utext \<Rightarrow> (utext \<times> nat) option" where
  "named_tag tag [] = None"
| "named_tag tag (x # xs) =
    (case named_tag_at tag (x # xs) of
       Some m \<Rightarrow> Some m
     | None \<Rightarrow> map_option (\<lambda>(name, n). (name, Suc n)) (named_tag tag xs))"

datatype family = Qwen3Coder | MiniMaxM2

definition grammar_of :: "family \<Rightarrow> grammar" where
  "grammar_of fam =
    (case fam of
       Qwen3Coder \<Rightarrow>
         \<lparr>gm_outer_open = codes ''<tool_call>'', gm_outer_close = codes ''</tool_call>'', gm_invoke_prefix = codes ''<function='',
          gm_invoke_open = equals_tag (codes ''<function=''), gm_invoke_close = codes ''</function>'',
          gm_param_prefix = codes ''<parameter='', gm_param_open = equals_tag (codes ''<parameter=''),
          gm_param_close = codes ''</parameter>'', gm_trim_single = True, gm_missing = codes ''string''\<rparr>
     | MiniMaxM2 \<Rightarrow>
         \<lparr>gm_outer_open = codes ''<minimax:tool_call>'', gm_outer_close = codes ''</minimax:tool_call>'', gm_invoke_prefix = codes ''<invoke'',
          gm_invoke_open = named_tag (codes ''<invoke''), gm_invoke_close = codes ''</invoke>'',
          gm_param_prefix = codes ''<parameter'', gm_param_open = named_tag (codes ''<parameter''),
          gm_param_close = codes ''</parameter>'', gm_trim_single = False, gm_missing = codes ''loose''\<rparr>)"

text \<open>What the machine relies on: markers that begin with a character they do not contain elsewhere, none a
  prefix of another one looked for at the same time, and opening tags whose first match is final.\<close>

lemma marker_set_nonempty: "marker_set toks \<Longrightarrow> \<forall>t \<in> set toks. t \<noteq> []"
  by (simp add: marker_set_def)

locale invoke_grammar =
  fixes gm :: grammar
  assumes outer_marker: "marker_set [gm_outer_open gm]"
    and block_markers: "marker_set [gm_invoke_prefix gm, gm_outer_close gm]" "gm_invoke_prefix gm \<noteq> gm_outer_close gm"
    and invoke_markers: "marker_set [gm_param_prefix gm, gm_invoke_close gm]" "gm_param_prefix gm \<noteq> gm_invoke_close gm"
    and value_marker: "marker_set [gm_param_close gm]" "10 \<notin> set (gm_param_close gm)"
    and invoke_open_bound: "gm_invoke_open gm xs = Some (name, n) \<Longrightarrow> 0 < n \<and> n \<le> length xs"
    and param_open_bound: "gm_param_open gm xs = Some (name, n) \<Longrightarrow> 0 < n \<and> n \<le> length xs"
    and invoke_open_grows: "gm_invoke_open gm xs = Some m \<Longrightarrow> gm_invoke_open gm (xs @ ys) = Some m"
    and param_open_grows: "gm_param_open gm xs = Some m \<Longrightarrow> gm_param_open gm (xs @ ys) = Some m"
begin

lemma markers_nonempty [simp]:
  "gm_outer_open gm \<noteq> []" "gm_invoke_prefix gm \<noteq> []" "gm_outer_close gm \<noteq> []" "gm_param_prefix gm \<noteq> []"
  "gm_invoke_close gm \<noteq> []" "gm_param_close gm \<noteq> []"
  using marker_set_nonempty [OF outer_marker] marker_set_nonempty [OF block_markers(1)] marker_set_nonempty [OF invoke_markers(1)]
    marker_set_nonempty [OF value_marker(1)] by simp_all

end

lemma takeWhile_stops: "length (takeWhile P xs) < length xs \<Longrightarrow> takeWhile P (xs @ ys) = takeWhile P xs"
  by (induction xs) auto

lemma equals_tag_bound: "tag \<noteq> [] \<Longrightarrow> equals_tag tag xs = Some (name, n) \<Longrightarrow> 0 < n \<and> n \<le> length xs"
  by (auto simp: equals_tag_def Let_def split: option.splits if_splits)

lemma equals_tag_grows:
  assumes "equals_tag tag xs = Some m"
  shows "equals_tag tag (xs @ ys) = Some m"
proof -
  obtain i where i: "find_sub tag xs = Some i" using assms by (auto simp: equals_tag_def split: option.splits)
  let ?r = "drop (i + length tag) xs"
  have "length (takeWhile (\<lambda>c. c \<noteq> 62) ?r) < length ?r"
    using assms i by (auto simp: equals_tag_def Let_def split: if_splits)
  with takeWhile_stops [OF this, of ys] find_sub_append [OF i, of ys] find_sub_bound [OF i] assms i show ?thesis
    by (auto simp: equals_tag_def Let_def)
qed

lemma takeWhile_end: "length (takeWhile P xs) < length xs \<Longrightarrow> \<exists>x zs. xs = takeWhile P xs @ x # zs \<and> \<not> P x"
  by (induction xs) auto

text \<open>A tag that is there is a fixed arrangement of characters, whatever follows.\<close>

lemma named_tag_at_iff:
  assumes "tag \<noteq> []"
  shows "named_tag_at tag xs = Some (name, n) \<longleftrightarrow>
    (\<exists>sp sp' r. xs = tag @ sp @ codes ''name='' @ [34] @ name @ [34] @ sp' @ [62] @ r \<and> sp \<noteq> [] \<and> list_all is_space sp \<and> list_all is_space sp'
       \<and> name \<noteq> [] \<and> 34 \<notin> set name \<and> n = length tag + length sp + 6 + length name + 1 + length sp' + 1)" (is "_ \<longleftrightarrow> ?R")
proof
  assume a: "named_tag_at tag xs = Some (name, n)"
  define r where "r = drop (length tag) xs"
  define sp where "sp = takeWhile is_space r"
  define q where "q = drop (length sp) r"
  define v where "v = drop 6 q"
  define w where "w = drop (Suc (length name)) v"
  define sp' where "sp' = takeWhile is_space w"
  have c: "has_prefix tag xs" "sp \<noteq> []" "has_prefix (codes ''name='' @ [34]) q" "name \<noteq> []" "length name < length v"
    "take 1 (drop (length sp') w) = [62]" "name = takeWhile (\<lambda>c. c \<noteq> 34) v"
    "n = length tag + length sp + 6 + length name + 1 + length sp' + 1"
    using a unfolding named_tag_at_def Let_def r_def sp_def q_def v_def w_def sp'_def by (auto split: if_splits)
  have x: "xs = tag @ r" using c(1) by (auto simp: has_prefix_prefix prefix_def r_def)
  have r: "r = sp @ q" unfolding q_def sp_def by (metis append_take_drop_id takeWhile_eq_take)
  have q: "q = codes ''name='' @ [34] @ v" using c(3) by (auto simp: has_prefix_prefix prefix_def v_def codes_def)
  have "\<exists>x zs. v = takeWhile (\<lambda>c. c \<noteq> 34) v @ x # zs \<and> \<not> x \<noteq> 34" using c(5) unfolding c(7) by (rule takeWhile_end)
  then obtain zs where "v = name @ 34 # zs" using c(7) by auto
  then have v: "v = name @ 34 # w" by (simp add: w_def)
  have w: "w = sp' @ 62 # drop 1 (drop (length sp') w)"
    using c(6) unfolding sp'_def by (metis append_Cons append_Nil append_take_drop_id takeWhile_eq_take)
  have s: "list_all is_space sp" "list_all is_space sp'" "34 \<notin> set name"
    using c(7) by (auto simp: sp_def sp'_def list_all_iff dest: set_takeWhileD)
  show ?R using x r q v w s c(2,4,8) by (metis append.assoc append_Cons append_Nil)
next
  assume ?R
  then obtain sp sp' r where x: "xs = tag @ sp @ codes ''name='' @ [34] @ name @ [34] @ sp' @ [62] @ r"
    and s: "sp \<noteq> []" "list_all is_space sp" "list_all is_space sp'" "name \<noteq> []" "34 \<notin> set name"
    and n: "n = length tag + length sp + 6 + length name + 1 + length sp' + 1" by blast
  have t1: "takeWhile is_space (sp @ codes ''name='' @ y) = sp" for y
    using s(2) by (induction sp) (auto simp: codes_def is_space_def)
  have t2: "takeWhile is_space (sp' @ 62 # y) = sp'" for y using s(3) by (induction sp') (auto simp: is_space_def)
  have t3: "takeWhile (\<lambda>c. c \<noteq> 34) (name @ 34 # y) = name" for y using s(5) by (induction name) auto
  have t4: "drop 6 (codes ''name='' @ 34 # y) = y" for y by (simp add: codes_def)
  have t5: "has_prefix (codes ''name='' @ [34]) (codes ''name='' @ 34 # y)" for y by (simp add: has_prefix_prefix)
  obtain w where w: "w = sp' @ 62 # r" by blast
  obtain v where v: "v = name @ 34 # w" by blast
  obtain q where q: "q = codes ''name='' @ 34 # v" by blast
  have x': "xs = tag @ sp @ q" unfolding x q v w by simp
  have e: "takeWhile is_space (sp @ q) = sp" "takeWhile is_space w = sp'" "takeWhile (\<lambda>c. c \<noteq> 34) v = name" "drop 6 q = v"
    "has_prefix (codes ''name='' @ [34]) q" "drop (Suc (length name)) v = w" "drop (length sp') w = 62 # r" "length name < length v"
    unfolding q v w by (simp_all only: t1 t2 t3 t4 t5) (simp_all)
  show "named_tag_at tag xs = Some (name, n)"
    using s(1,4) n e unfolding x' named_tag_at_def Let_def by (simp add: has_prefix_prefix)
qed

lemma named_tag_at_bound: "tag \<noteq> [] \<Longrightarrow> named_tag_at tag xs = Some (name, n) \<Longrightarrow> 0 < n \<and> n \<le> length xs"
  by (auto simp: named_tag_at_iff codes_def)

lemma named_tag_at_grows:
  assumes "tag \<noteq> []" "named_tag_at tag xs = Some m"
  shows "named_tag_at tag (xs @ ys) = Some m"
proof -
  obtain name n where m: "m = (name, n)" by (cases m)
  show ?thesis using assms unfolding m by (auto simp: named_tag_at_iff) blast
qed

lemma named_tag_bound: "tag \<noteq> [] \<Longrightarrow> named_tag tag xs = Some (name, n) \<Longrightarrow> 0 < n \<and> n \<le> length xs"
  by (induction xs arbitrary: n) (auto dest: named_tag_at_bound split: option.splits)

lemma first_split: "a @ q # b = c @ q # d \<Longrightarrow> q \<notin> set a \<Longrightarrow> q \<notin> set c \<Longrightarrow> a = c \<and> b = d"
proof (induction a arbitrary: c)
  case Nil
  then show ?case by (cases c) auto
next
  case (Cons x a)
  then show ?case by (cases c) auto
qed

lemma named_tag_inner:
  assumes "tag \<noteq> []" "named_tag tag xs = Some m"
  shows "\<exists>u b v. xs = u @ 34 # b @ 62 # v \<and> 34 \<in> set u \<and> list_all is_space b"
  using assms(2)
proof (induction xs arbitrary: m)
  case (Cons x xs)
  show ?case
  proof (cases "named_tag_at tag (x # xs)")
    case None
    then obtain m' where "named_tag tag xs = Some m'" using Cons.prems by auto
    from Cons.IH [OF this] obtain u b v where "xs = u @ 34 # b @ 62 # v" "34 \<in> set u" "list_all is_space b" by blast
    then have "x # xs = (x # u) @ 34 # b @ 62 # v" "34 \<in> set (x # u)" "list_all is_space b" by simp_all
    then show ?thesis by blast
  next
    case (Some m')
    obtain name n where "m' = (name, n)" by (cases m')
    then obtain sp sp' r where "x # xs = tag @ sp @ codes ''name='' @ [34] @ name @ [34] @ sp' @ [62] @ r" "list_all is_space sp'"
      using Some named_tag_at_iff [OF assms(1)] by blast
    then have "x # xs = (tag @ sp @ codes ''name='' @ [34] @ name) @ 34 # sp' @ 62 # r" "list_all is_space sp'" by simp_all
    moreover have "34 \<in> set (tag @ sp @ codes ''name='' @ [34] @ name)" by simp
    ultimately show ?thesis by blast
  qed
qed simp

text \<open>A tag that is not there at the head of a text cannot come with more text when a later one is complete:
  it has two quotation marks, and the second one ends it.\<close>

lemma named_tag_at_decided:
  assumes "tag \<noteq> []" "34 \<notin> set tag" "named_tag_at tag xs = None" "xs = u @ 34 # b @ 62 # v" "34 \<in> set u" "list_all is_space b"
  shows "named_tag_at tag (xs @ ys) = None"
proof (rule ccontr)
  assume "named_tag_at tag (xs @ ys) \<noteq> None"
  then obtain name n where "named_tag_at tag (xs @ ys) = Some (name, n)" by auto
  then obtain sp sp' r where t: "xs @ ys = tag @ sp @ codes ''name='' @ [34] @ name @ [34] @ sp' @ [62] @ r"
    and s: "sp \<noteq> []" "list_all is_space sp" "list_all is_space sp'" "name \<noteq> []" "34 \<notin> set name"
    unfolding named_tag_at_iff [OF assms(1)] by blast
  let ?A = "tag @ sp @ codes ''name=''"
  have sq: "34 \<notin> set sp" "34 \<notin> set sp'" "62 \<notin> set sp'" "62 \<notin> set b" "34 \<notin> set b" using s(2,3) assms(6) by (auto simp: list_all_iff is_space_def)
  have A: "34 \<notin> set ?A" using assms(2) sq(1) by (auto simp: codes_def)
  obtain p q where u: "u = p @ 34 # q" "34 \<notin> set p" using split_list_first [OF assms(5)] by blast
  have "p @ 34 # (q @ 34 # b @ 62 # v @ ys) = ?A @ 34 # (name @ 34 # sp' @ 62 # r)" using t unfolding assms(4) u(1) by simp
  from first_split [OF this u(2) A] have e: "p = ?A" "q @ 34 # b @ 62 # v @ ys = name @ 34 # sp' @ 62 # r" by blast+
  have found: False if "xs = tag @ sp @ codes ''name='' @ [34] @ name @ [34] @ sp' @ [62] @ w" for w
  proof -
    have "named_tag_at tag xs = Some (name, length tag + length sp + 6 + length name + 1 + length sp' + 1)"
      unfolding named_tag_at_iff [OF assms(1)] using that s by blast
    with assms(3) show False by simp
  qed
  show False
  proof (cases "34 \<in> set q")
    case False
    from first_split [OF e(2) this s(5)] have "q = name" "b @ 62 # (v @ ys) = sp' @ 62 # r" by simp_all
    moreover from first_split [OF this(2) sq(4,3)] have "b = sp'" "v @ ys = r" by blast+
    ultimately have "xs = tag @ sp @ codes ''name='' @ [34] @ name @ [34] @ sp' @ [62] @ v"
      using assms(4) u(1) e(1) by simp
    from found [OF this] show False .
  next
    case True
    obtain q1 q2 where q: "q = q1 @ 34 # q2" "34 \<notin> set q1" using split_list_first [OF True] by blast
    have "q1 @ 34 # (q2 @ 34 # b @ 62 # v @ ys) = name @ 34 # (sp' @ 62 # r)" using e(2) unfolding q(1) by simp
    from first_split [OF this q(2) s(5)] have e3: "q1 = name" "q2 @ 34 # b @ 62 # v @ ys = sp' @ 62 # r" by blast+
    have "length sp' < length q2"
    proof (rule ccontr)
      assume "\<not> length sp' < length q2"
      then have "(sp' @ 62 # r) ! length q2 \<in> set (sp' @ [62])" by (auto simp: nth_append not_less le_less)
      moreover have "(sp' @ 62 # r) ! length q2 = 34" using e3(2) [symmetric] by (simp add: nth_append)
      ultimately show False using sq(2) by auto
    qed
    then have "take (Suc (length sp')) q2 = sp' @ [62]" using arg_cong [OF e3(2), of "take (Suc (length sp'))"] by simp
    then obtain q3 where "q2 = sp' @ [62] @ q3" by (metis append_take_drop_id append.assoc)
    then have "xs = tag @ sp @ codes ''name='' @ [34] @ name @ [34] @ sp' @ [62] @ q3 @ 34 # b @ 62 # v"
      using assms(4) u(1) e(1) q(1) e3(1) by simp
    from found [OF this] show False .
  qed
qed

lemma named_tag_grows:
  assumes "tag \<noteq> []" "34 \<notin> set tag"
  shows "named_tag tag xs = Some m \<Longrightarrow> named_tag tag (xs @ ys) = Some m"
proof (induction xs arbitrary: m)
  case (Cons x xs)
  show ?case
  proof (cases "named_tag_at tag (x # xs)")
    case None
    obtain u b v where w: "x # xs = u @ 34 # b @ 62 # v" "34 \<in> set u" "list_all is_space b"
      using named_tag_inner [OF assms(1) Cons.prems] by blast
    have "named_tag_at tag (x # xs @ ys) = None" using named_tag_at_decided [OF assms None w, of ys] by simp
    then show ?thesis using Cons None by auto
  next
    case (Some m')
    then show ?thesis using Cons.prems named_tag_at_grows [OF assms(1) Some, of ys] by simp
  qed
qed simp

lemma grammar_laws: "invoke_grammar (grammar_of fam)"
  by (cases fam; unfold_locales) (auto simp: grammar_of_def marker_set_def codes_def
    intro: equals_tag_grows named_tag_grows dest: equals_tag_bound [rotated] named_tag_bound [rotated])

interpretation qwen3: invoke_grammar "grammar_of Qwen3Coder"
  by (rule grammar_laws)

interpretation minimax: invoke_grammar "grammar_of MiniMaxM2"
  by (rule grammar_laws)

end
