(* ===== verification/InvokeStream.thy ===== *)
theory InvokeStream
  imports InvokeGrammar
begin

text \<open>
  The streaming parser of the invoke formats (\<open>InvokeParamStreamMixin\<close> in \<open>server/function_call_parser.py\<close>):
  the state machine over a growing buffer that emits parameter values while they arrive, and the one-shot
  parsers of Qwen3-Coder and MiniMax-M2.
\<close>

section \<open>The state machine\<close>

datatype imode = IIdle | IBlock | IInvoke | IInvokeSkip | IString | IBuffered | ISkipped

text \<open>\<open>_ps_emitted_any\<close> is written and never read; it is left out.\<close>

record invoke =
  iv_buf :: utext
  iv_mode :: imode
  iv_key :: utext
  iv_lead :: utext
  iv_trimmed :: bool
  iv_started :: bool
  iv_config :: param_config
  iv_id :: int
  iv_prev :: "(utext \<times> jval) option list"
  iv_streamed :: "utext list"

definition invoke_init :: invoke where
  "invoke_init =
    \<lparr>iv_buf = [], iv_mode = IIdle, iv_key = [], iv_lead = codes ''{'', iv_trimmed = False, iv_started = False, iv_config = [],
     iv_id = - 1, iv_prev = [], iv_streamed = []\<rparr>"

definition ps_reset :: "invoke \<Rightarrow> invoke" where
  "ps_reset s = s\<lparr>iv_mode := IIdle, iv_key := [], iv_lead := codes ''{'', iv_trimmed := False, iv_config := []\<rparr>"

text \<open>\<open>_emit\<close>: a fragment goes to the ledger of the open call and out\<close>

definition emit :: "utext \<Rightarrow> invoke \<Rightarrow> invoke" where
  "emit frag s = s\<lparr>iv_streamed := (iv_streamed s)[nat (iv_id s) := iv_streamed s ! nat (iv_id s) @ frag]\<rparr>"

definition frag_items :: "utext \<Rightarrow> invoke \<Rightarrow> call_item list" where
  "frag_items frag s = (if frag = [] then [] else [call_part (iv_id s) frag])"

text \<open>\<open>_update_prev\<close>: the arguments are recorded when the ledger, or the ledger with a closing brace, is
  an object.\<close>

definition ledger_value :: "(utext \<Rightarrow> utext) \<Rightarrow> utext \<Rightarrow> jval option" where
  "ledger_value fl ledger = (case loads fl ledger of Some v \<Rightarrow> Some v | None \<Rightarrow> loads fl (ledger @ codes ''}''))"

definition update_prev :: "(utext \<Rightarrow> utext) \<Rightarrow> invoke \<Rightarrow> invoke" where
  "update_prev fl s =
    (let i = nat (iv_id s) in
     case ledger_value fl (iv_streamed s ! i) of
       Some (VObj kvs) \<Rightarrow> s\<lparr>iv_prev := (iv_prev s)[i := map_option (\<lambda>(name, _). (name, VObj kvs)) (iv_prev s ! i)]\<rparr>
     | _ \<Rightarrow> s)"

definition convert_value :: "py_env \<Rightarrow> grammar \<Rightarrow> param_config \<Rightarrow> utext \<Rightarrow> utext \<Rightarrow> jval option result" where
  "convert_value e gm config key raw =
    (if map_of config key \<noteq> None \<or> gm_missing gm \<noteq> codes ''loose'' then convert_param_value e raw key config
     else ok (Some (parse_loose_json_value e raw)))"

text \<open>One turn of the loop: the new state, the text and the items it yields, and whether the loop goes on\<close>

type_synonym turn_step = "invoke \<times> utext \<times> call_item list \<times> bool"

definition held :: "utext \<Rightarrow> utext \<Rightarrow> utext \<Rightarrow> nat" where
  "held buf a b = max (ends_with_partial buf a) (if b = [] then 0 else ends_with_partial buf b)"

definition before :: "nat option \<Rightarrow> nat option \<Rightarrow> bool" where
  "before a b \<longleftrightarrow> (case a of None \<Rightarrow> False | Some i \<Rightarrow> (case b of None \<Rightarrow> True | Some j \<Rightarrow> i < j))"

definition idle_turn :: "grammar \<Rightarrow> invoke \<Rightarrow> turn_step" where
  "idle_turn gm s =
    (let buf = iv_buf s in
     case find_sub (gm_outer_open gm) buf of
       None \<Rightarrow>
         (let release = take (length buf - ends_with_partial buf (gm_outer_open gm)) buf
          in (s\<lparr>iv_buf := drop (length release) buf\<rparr>, release, [], False))
     | Some pos \<Rightarrow>
         if pos > 0 then (s\<lparr>iv_buf := drop pos buf\<rparr>, take pos buf, [], True)
         else (s\<lparr>iv_buf := drop (length (gm_outer_open gm)) buf, iv_mode := IBlock\<rparr>, [], [], True))"

text \<open>The tables are padded for every invoke, also for one that is skipped.\<close>

definition enter_invoke :: "invoke \<Rightarrow> invoke" where
  "enter_invoke s =
    (let i = (if iv_id s = - 1 then 0 else iv_id s)
     in s\<lparr>iv_id := i, iv_prev := pad_to None (nat i) (iv_prev s), iv_streamed := pad_to [] (nat i) (iv_streamed s)\<rparr>)"

definition open_invoke :: "tool_function list \<Rightarrow> utext \<Rightarrow> invoke \<Rightarrow> invoke" where
  "open_invoke tools name s =
    s\<lparr>iv_prev := (iv_prev s)[nat (iv_id s) := Some (name, VObj [])], iv_started := False,
      iv_config := get_param_config name tools, iv_mode := IInvoke\<rparr>"

definition block_turn :: "grammar \<Rightarrow> tool_function list \<Rightarrow> bool \<Rightarrow> invoke \<Rightarrow> turn_step" where
  "block_turn gm tools fwd s =
    (let buf = iv_buf s;
         inv = find_sub (gm_invoke_prefix gm) buf;
         close = (if gm_outer_close gm = [] then None else find_sub (gm_outer_close gm) buf)
     in if before close inv then (s\<lparr>iv_buf := drop (the close + length (gm_outer_close gm)) buf, iv_mode := IIdle\<rparr>, [], [], True)
        else case inv of
          Some i \<Rightarrow>
            (case gm_invoke_open gm (drop i buf) of
               None \<Rightarrow> (s, [], [], False)
             | Some (raw, n) \<Rightarrow>
                 (let name = strip raw; s = (enter_invoke s)\<lparr>iv_buf := drop (i + n) buf\<rparr> in
                  if accepted_tool tools fwd name
                  then (open_invoke tools name s, [], [call_start (iv_id s) name], True)
                  else (s\<lparr>iv_mode := IInvokeSkip\<rparr>, [], [], True)))
        | None \<Rightarrow>
            (s\<lparr>iv_buf := drop (length buf - held buf (gm_invoke_prefix gm) (gm_outer_close gm)) buf\<rparr>, [], [], False))"

text \<open>The end of an invoke, and the start of a parameter\<close>

definition close_invoke :: "(utext \<Rightarrow> utext) \<Rightarrow> invoke \<Rightarrow> invoke" where
  "close_invoke fl s =
    (let s = update_prev fl (emit (if iv_started s then codes ''}'' else codes ''{}'') s)
     in s\<lparr>iv_id := iv_id s + 1, iv_streamed := pad_to [] (nat (iv_id s + 1)) (iv_streamed s)\<rparr>)"

definition param_lead :: "invoke \<Rightarrow> utext" where
  "param_lead s = (if iv_started s then codes '','' else codes ''{'')"

definition start_param :: "grammar \<Rightarrow> utext \<Rightarrow> invoke \<Rightarrow> invoke \<times> call_item list" where
  "start_param gm key s =
    (let lead = param_lead s; s = s\<lparr>iv_key := key, iv_started := True\<rparr> in
     if string_type (schema_param_type key (iv_config s) (gm_missing gm))
     then (let frag = lead @ dumps_text key @ codes '':'' @ [34]
           in ((emit frag s)\<lparr>iv_trimmed := False, iv_mode := IString\<rparr>, frag_items frag s))
     else (s\<lparr>iv_lead := lead, iv_mode := IBuffered\<rparr>, []))"

definition invoke_turn :: "(utext \<Rightarrow> utext) \<Rightarrow> grammar \<Rightarrow> invoke \<Rightarrow> turn_step" where
  "invoke_turn fl gm s =
    (let buf = iv_buf s; p = find_sub (gm_param_prefix gm) buf; c = find_sub (gm_invoke_close gm) buf
     in if before c p then
          (let s' = (if iv_mode s = IInvoke then close_invoke fl s else s)
           in (s'\<lparr>iv_buf := drop (the c + length (gm_invoke_close gm)) buf, iv_mode := IBlock\<rparr>, [],
               if iv_mode s = IInvoke then frag_items (if iv_started s then codes ''}'' else codes ''{}'') s else [], True))
        else case p of
          Some i \<Rightarrow>
            (case gm_param_open gm (drop i buf) of
               None \<Rightarrow> (s, [], [], False)
             | Some (raw, n) \<Rightarrow>
                 (let s = s\<lparr>iv_buf := drop (i + n) buf\<rparr> in
                  if iv_mode s = IInvokeSkip then (s\<lparr>iv_mode := ISkipped\<rparr>, [], [], True)
                  else (case start_param gm (strip raw) s of (s', cs) \<Rightarrow> (s', [], cs, True))))
        | None \<Rightarrow>
            (s\<lparr>iv_buf := drop (length buf - max (ends_with_partial buf (gm_param_prefix gm)) (ends_with_partial buf (gm_invoke_close gm))) buf\<rparr>,
             [], [], False))"

text \<open>A string value: what cannot belong to the closing tag, or to the line feeds that are trimmed, is
  emitted at once.\<close>

definition string_turn :: "(utext \<Rightarrow> utext) \<Rightarrow> grammar \<Rightarrow> invoke \<Rightarrow> turn_step" where
  "string_turn fl gm s =
    (let buf = iv_buf s; trimmed = trim_leading gm buf in
     if \<not> iv_trimmed s \<and> trimmed \<noteq> buf
     then (s\<lparr>iv_buf := trimmed, iv_trimmed := (trimmed \<noteq> [] \<or> gm_trim_single gm)\<rparr>, [], [], True)
     else (let s = s\<lparr>iv_trimmed := True\<rparr> in
       case find_sub (gm_param_close gm) buf of
         None \<Rightarrow>
           (let safe = take (length buf - ends_with_partial buf (gm_param_close gm)) buf; emit_now = rstrip_lf safe in
            if emit_now = [] then (s, [], [], False)
            else ((emit (escape_text emit_now) s)\<lparr>iv_buf := drop (length emit_now) buf\<rparr>, [], frag_items (escape_text emit_now) s, False))
       | Some c \<Rightarrow>
           (let frag = escape_text (trim_trailing gm (take c buf)) @ [34]
            in ((update_prev fl (emit frag s))\<lparr>iv_buf := drop (c + length (gm_param_close gm)) buf, iv_mode := IInvoke\<rparr>, [], frag_items frag s, True))))"

text \<open>A value of another type, held until its closing tag; a skipped value is dropped.\<close>

definition value_turn :: "py_env \<Rightarrow> grammar \<Rightarrow> invoke \<Rightarrow> turn_step result" where
  "value_turn e gm s =
    (let buf = iv_buf s in
     case find_sub (gm_param_close gm) buf of
       None \<Rightarrow> ok (s, [], [], False)
     | Some c \<Rightarrow>
         (let rest = drop (c + length (gm_param_close gm)) buf in
          if iv_mode s = IBuffered then
            rbind (convert_value e gm (iv_config s) (iv_key s) (trim_trailing gm (trim_leading gm (take c buf)))) (\<lambda>converted.
              case converted of
                None \<Rightarrow> raise TypeError
              | Some v \<Rightarrow>
                  (let frag = iv_lead s @ dumps_text (iv_key s) @ codes '':'' @ dumps v
                   in ok ((update_prev (pe_repr e) (emit frag s))\<lparr>iv_buf := rest, iv_mode := IInvoke\<rparr>, [], frag_items frag s, True)))
          else ok (s\<lparr>iv_buf := rest, iv_mode := IInvokeSkip\<rparr>, [], [], True)))"

definition iturn :: "py_env \<Rightarrow> grammar \<Rightarrow> tool_function list \<Rightarrow> bool \<Rightarrow> bool \<Rightarrow> invoke \<Rightarrow> turn_step result" where
  "iturn e gm tools fwd had s =
    (if iv_buf s = [] then ok (s, [], [], False)
     else case iv_mode s of
       IIdle \<Rightarrow> ok (if had then (s, [], [], False) else idle_turn gm s)
     | IBlock \<Rightarrow> ok (block_turn gm tools fwd s)
     | IString \<Rightarrow> ok (string_turn (pe_repr e) gm s)
     | IBuffered \<Rightarrow> value_turn e gm s
     | ISkipped \<Rightarrow> value_turn e gm s
     | _ \<Rightarrow> ok (invoke_turn (pe_repr e) gm s))"

section \<open>The loop\<close>

text \<open>Every turn that goes on shortens the buffer.\<close>

lemma emitted_buf [simp]:
  "iv_buf (emit f s) = iv_buf s" "iv_buf (update_prev fl s) = iv_buf s" "iv_buf (enter_invoke s) = iv_buf s"
  "iv_buf (open_invoke tools n s) = iv_buf s" "iv_buf (close_invoke fl s) = iv_buf s"
  by (auto simp: emit_def update_prev_def enter_invoke_def open_invoke_def close_invoke_def Let_def split: option.splits jval.splits)

lemma trim_leading_shorter: "trim_leading gm xs \<noteq> xs \<Longrightarrow> length (trim_leading gm xs) < length xs"
  by (cases xs) (auto simp: trim_leading_def le_imp_less_Suc length_dropWhile_le split: if_splits)

lemma before_Some: "before a b \<Longrightarrow> \<exists>i. a = Some i"
  by (auto simp: before_def split: option.splits)

lemma drop_shorter: "0 < n \<Longrightarrow> xs \<noteq> [] \<Longrightarrow> length (drop n xs) < length xs"
  by simp

lemma start_param_buf: "start_param gm key s = (s', cs) \<Longrightarrow> iv_buf s' = iv_buf s"
  by (auto simp: start_param_def Let_def split: if_splits)

context invoke_grammar
begin

lemma invoke_turn_shorter:
  assumes "invoke_turn fl gm s = (s', t, cs, True)"
  shows "\<exists>n > 0. iv_buf s' = drop n (iv_buf s)"
proof (cases "before (find_sub (gm_invoke_close gm) (iv_buf s)) (find_sub (gm_param_prefix gm) (iv_buf s))")
  case True
  then show ?thesis using assms
    by (auto simp: invoke_turn_def Let_def intro!: exI [of _ "the (find_sub (gm_invoke_close gm) (iv_buf s)) + length (gm_invoke_close gm)"])
next
  case False
  then obtain i x n where i: "find_sub (gm_param_prefix gm) (iv_buf s) = Some i" "gm_param_open gm (drop i (iv_buf s)) = Some (x, n)"
    using assms by (auto simp: invoke_turn_def Let_def split: option.splits)
  then have "iv_buf s' = drop (i + n) (iv_buf s)"
    using assms False by (auto simp: invoke_turn_def Let_def dest!: start_param_buf split: if_splits prod.splits)
  moreover have "0 < i + n" using param_open_bound [OF i(2)] by simp
  ultimately show ?thesis by blast
qed

lemma turn_shorter:
  assumes "iturn e gm tools fwd had s = ok (s', t, cs, True)"
  shows "length (iv_buf s') < length (iv_buf s)"
proof -
  have b: "iv_buf s \<noteq> []" using assms by (auto simp: iturn_def)
  note drops = drop_shorter [OF _ b]
  have opens: "0 < n" if "gm_invoke_open gm (drop i xs) = Some (x, n) \<or> gm_param_open gm (drop i xs) = Some (x, n)" for i xs x n
    using that invoke_open_bound param_open_bound by blast
  have "\<exists>n > 0. iv_buf s' = drop n (iv_buf s)" if "iv_mode s \<noteq> IString"
  proof (cases "iv_mode s")
    case IIdle
    then show ?thesis using assms b
      by (auto simp: iturn_def idle_turn_def Let_def split: option.splits if_splits intro: exI [of _ "length (gm_outer_open gm)"])
  next
    case IBlock
    show ?thesis
    proof (cases "before (find_sub (gm_outer_close gm) (iv_buf s)) (find_sub (gm_invoke_prefix gm) (iv_buf s))")
      case True
      then show ?thesis using assms b IBlock
        by (auto simp: iturn_def block_turn_def Let_def intro!: exI [of _ "the (find_sub (gm_outer_close gm) (iv_buf s)) + length (gm_outer_close gm)"])
    next
      case False
      then obtain i x n where i: "find_sub (gm_invoke_prefix gm) (iv_buf s) = Some i" "gm_invoke_open gm (drop i (iv_buf s)) = Some (x, n)"
        using assms b IBlock by (auto simp: iturn_def block_turn_def Let_def split: option.splits)
      then have "iv_buf s' = drop (i + n) (iv_buf s)" "0 < i + n"
        using assms b IBlock False opens by (auto simp: iturn_def block_turn_def Let_def split: if_splits)
      then show ?thesis by blast
    qed
  next
    case IString
    then show ?thesis using that by simp
  next
    case IBuffered
    then show ?thesis using assms b
      by (auto simp: iturn_def value_turn_def Let_def split: option.splits) (metis add_gr_0 length_greater_0_conv markers_nonempty(6))+
  next
    case ISkipped
    then show ?thesis using assms b
      by (auto simp: iturn_def value_turn_def Let_def split: option.splits) (metis add_gr_0 length_greater_0_conv markers_nonempty(6))+
  next
    case IInvoke
    then show ?thesis using assms b invoke_turn_shorter by (auto simp: iturn_def)
  next
    case IInvokeSkip
    then show ?thesis using assms b invoke_turn_shorter by (auto simp: iturn_def)
  qed
  moreover have ?thesis if "iv_mode s = IString"
    using that assms b trim_leading_shorter [of gm "iv_buf s"]
    by (auto simp: iturn_def string_turn_def Let_def split: option.splits if_splits)
  ultimately show ?thesis using drops by (cases "iv_mode s = IString") auto
qed

end

function invoke_loop :: "py_env \<Rightarrow> family \<Rightarrow> tool_function list \<Rightarrow> bool \<Rightarrow> bool \<Rightarrow> invoke \<Rightarrow> (invoke \<times> utext \<times> call_item list) result" where
  "invoke_loop e fam tools fwd had s =
    (case iturn e (grammar_of fam) tools fwd had s of
       Inl err \<Rightarrow> raise err
     | Inr (s', t, cs, goes_on) \<Rightarrow>
         if goes_on
         then rbind (invoke_loop e fam tools fwd (had \<or> cs \<noteq> []) s') (\<lambda>(s'', t', cs'). ok (s'', t @ t', cs @ cs'))
         else ok (s', t, cs))"
  by pat_completeness auto

termination invoke_loop
  by (relation "measure (\<lambda>(e, fam, tools, fwd, had, s). length (iv_buf s))")
    (auto dest: invoke_grammar.turn_shorter [OF grammar_laws] simp: sym)

declare invoke_loop.simps [simp del]

definition invoke_increment :: "py_env \<Rightarrow> family \<Rightarrow> tool_function list \<Rightarrow> bool \<Rightarrow> utext \<Rightarrow> invoke \<Rightarrow> (invoke \<times> parse_out) result" where
  "invoke_increment e fam tools fwd new s =
    rbind (invoke_loop e fam tools fwd False (s\<lparr>iv_buf := iv_buf s @ new\<rparr>)) (\<lambda>(s', t, cs). ok (s', streaming_result t cs))"

definition invoke_finish :: "grammar \<Rightarrow> invoke \<Rightarrow> invoke \<times> utext" where
  "invoke_finish gm s =
    (ps_reset (s\<lparr>iv_buf := []\<rparr>),
     if iv_mode s \<noteq> IIdle \<or> (gm_outer_open gm \<noteq> [] \<and> has_sub (gm_outer_open gm) (iv_buf s)) then []
     else if iv_prev s \<noteq> [] \<and> strip (iv_buf s) = [] then []
     else iv_buf s)"

section \<open>The one-shot parse\<close>

text \<open>\<open>tool_call_block_regex\<close>\<close>

function find_blocks :: "utext \<Rightarrow> utext list" where
  "find_blocks xs =
    (case find_sub (codes ''<tool_call>'') xs of
       None \<Rightarrow> []
     | Some i \<Rightarrow>
         (let r = drop (i + 11) xs in
          case find_sub (codes ''</tool_call>'') r of
            None \<Rightarrow> []
          | Some c \<Rightarrow> take c r # find_blocks (drop (c + 12) r)))"
  by pat_completeness auto

termination find_blocks
  by (relation "measure length") (auto dest!: find_sub_bound simp: codes_def)

text \<open>\<open>function_regex\<close>: a function that is not closed reaches to the end of the text.\<close>

function find_functions :: "utext \<Rightarrow> utext list" where
  "find_functions xs =
    (case find_sub (codes ''<function='') xs of
       None \<Rightarrow> []
     | Some i \<Rightarrow>
         (let r = drop (i + 10) xs in
          case find_sub (codes ''</function>'') r of
            None \<Rightarrow> [r]
          | Some c \<Rightarrow> take c r # find_functions (drop (c + 11) r)))"
  by pat_completeness auto

termination find_functions
  by (relation "measure length") (auto dest!: find_sub_bound simp: codes_def)

text \<open>\<open>parameter_regex\<close>: a value ends at its closing tag, before the next parameter, before the end of the
  function, or at the end of the text, where \<open>$\<close> also matches before a final line feed.\<close>

definition PARAM_ENDS :: "utext list" where
  "PARAM_ENDS = [codes ''</parameter>'', codes ''<parameter='', codes ''</function>'']"

function find_parameters :: "utext \<Rightarrow> utext list" where
  "find_parameters xs =
    (case find_sub (codes ''<parameter='') xs of
       None \<Rightarrow> []
     | Some i \<Rightarrow>
         (let r = drop (i + 11) xs in
          case earliest PARAM_ENDS r of
            None \<Rightarrow> [if r \<noteq> [] \<and> last r = 10 then butlast r else r]
          | Some (p, tok) \<Rightarrow> take p r # find_parameters (drop (if tok = codes ''</parameter>'' then p + length tok else p) r)))"
  by pat_completeness auto

termination find_parameters
  by (relation "measure length") (auto dest!: find_sub_bound simp: codes_def)

declare find_blocks.simps [simp del] find_functions.simps [simp del] find_parameters.simps [simp del]

text \<open>The dictionary of the arguments: a repeated name keeps its place and takes the last value. A value that
  \<open>json.dumps\<close> refuses only counts when it stays.\<close>

primrec convert_all :: "(utext \<Rightarrow> utext \<Rightarrow> jval option result) \<Rightarrow> (utext \<times> utext) list \<Rightarrow> (utext \<times> jval option) list \<Rightarrow> (utext \<times> jval option) list result" where
  "convert_all conv [] acc = ok acc"
| "convert_all conv (kv # kvs) acc =
    rbind (conv (fst kv) (snd kv)) (\<lambda>v. convert_all conv kvs (AList.update (fst kv) v acc))"

definition dumps_arguments :: "(utext \<times> jval option) list \<Rightarrow> utext result" where
  "dumps_arguments kvs =
    (if list_all (\<lambda>(_, v). v \<noteq> None) kvs then ok (dumps (VObj (map (\<lambda>(k, v). (k, the v)) kvs))) else raise TypeError)"

text \<open>Text before \<open>>\<close> is the name, the rest the value without a line feed at either end.\<close>

definition split_tag :: "utext \<Rightarrow> (utext \<times> utext) option" where
  "split_tag m = (case find_sub [62] m of None \<Rightarrow> None | Some i \<Rightarrow> Some (strip (take i m), drop (Suc i) m))"

definition qwen_parameters :: "utext \<Rightarrow> (utext \<times> utext) list" where
  "qwen_parameters body =
    map (\<lambda>(k, v). (k, trim_trailing (grammar_of Qwen3Coder) (trim_leading (grammar_of Qwen3Coder) v)))
      (List.map_filter split_tag (find_parameters body))"

definition parse_function_call :: "py_env \<Rightarrow> tool_function list \<Rightarrow> bool \<Rightarrow> utext \<Rightarrow> (utext \<times> utext) option result" where
  "parse_function_call e tools fwd function_str =
    (case split_tag function_str of
       None \<Rightarrow> ok None
     | Some (name, body) \<Rightarrow>
         if \<not> accepted_tool tools fwd name then ok None
         else
           (let config = get_param_config name tools in
            rbind (convert_all (\<lambda>k v. convert_param_value e v k config) (qwen_parameters body) []) (\<lambda>d.
              rbind (dumps_arguments d) (\<lambda>t. ok (Some (name, t))))))"

text \<open>The calls found get the numbers 0, 1, \<dots> in order.\<close>

primrec parse_calls :: "('a \<Rightarrow> (utext \<times> utext) option result) \<Rightarrow> int \<Rightarrow> 'a list \<Rightarrow> call_item list result" where
  "parse_calls parse n [] = ok []"
| "parse_calls parse n (x # xs) =
    rbind (parse x) (\<lambda>r. case r of
       None \<Rightarrow> parse_calls parse n xs
     | Some (name, args) \<Rightarrow>
         rbind (parse_calls parse (n + 1) xs) (\<lambda>cs. ok (\<lparr>ci_index = n, ci_name = Some name, ci_parameters = args\<rparr> # cs)))"

definition text_before :: "utext \<Rightarrow> utext \<Rightarrow> utext" where
  "text_before tok text = (case find_sub tok text of Some i \<Rightarrow> strip (take i text) | None \<Rightarrow> text)"

definition qwen3_detect :: "py_env \<Rightarrow> tool_function list \<Rightarrow> bool \<Rightarrow> utext \<Rightarrow> parse_out result" where
  "qwen3_detect e tools fwd text =
    (let normal = text_before (codes ''<tool_call>'') text in
     if \<not> has_sub (codes ''<function='') text then ok (streaming_result normal [])
     else
       (let found = find_blocks text;
            blocks = (if found = [] then [text] else found)
        in rbind (parse_calls (parse_function_call e tools fwd) 0 (concat (map find_functions blocks)))
             (\<lambda>cs. ok (streaming_result normal cs))))"

text \<open>\<open>invoke_regex.findall\<close> and \<open>param_regex.findall\<close> of MiniMax-M2\<close>

function find_named :: "utext \<Rightarrow> utext \<Rightarrow> utext \<Rightarrow> (utext \<times> utext) list" where
  "find_named tag closer xs =
    (case named_tag tag xs of
       None \<Rightarrow> []
     | Some (name, n) \<Rightarrow>
         (case find_sub closer (drop n xs) of
            None \<Rightarrow> []
          | Some c \<Rightarrow>
              (name, take c (drop n xs)) # find_named tag closer (drop (n + c + length closer) xs)))"
  by pat_completeness auto

lemma named_tag_there: "named_tag tag xs = Some (name, n) \<Longrightarrow> 0 < n \<and> xs \<noteq> []"
  by (induction xs arbitrary: n) (auto simp: named_tag_at_def Let_def split: option.splits if_splits)

termination find_named
  by (relation "measure (\<lambda>(_, _, xs). length xs)") (auto dest: named_tag_there)

declare find_named.simps [simp del]

definition minimax_parameters :: "utext \<Rightarrow> (utext \<times> utext) list" where
  "minimax_parameters body =
    map (\<lambda>(k, v). (strip k, trim_trailing (grammar_of MiniMaxM2) (trim_leading (grammar_of MiniMaxM2) v)))
      (find_named (codes ''<parameter'') (codes ''</parameter>'') body)"

definition minimax_call :: "py_env \<Rightarrow> tool_function list \<Rightarrow> bool \<Rightarrow> utext \<times> utext \<Rightarrow> (utext \<times> utext) option result" where
  "minimax_call e tools fwd nb =
    (case nb of
       (name, body) \<Rightarrow>
         if \<not> accepted_tool tools fwd name then ok None
         else
           (let config = get_param_config name tools in
            rbind (convert_all (convert_value e (grammar_of MiniMaxM2) config) (minimax_parameters body) []) (\<lambda>d.
              rbind (dumps_arguments d) (\<lambda>t. ok (Some (name, t))))))"

definition minimax_detect :: "py_env \<Rightarrow> tool_function list \<Rightarrow> bool \<Rightarrow> utext \<Rightarrow> parse_out result" where
  "minimax_detect e tools fwd text =
    (let normal = text_before (codes ''<minimax:tool_call>'') text in
     if \<not> has_sub (codes ''<minimax:tool_call>'') text then ok (streaming_result normal [])
     else rbind (parse_calls (minimax_call e tools fwd) 0 (find_named (codes ''<invoke'') (codes ''</invoke>'') text))
            (\<lambda>cs. ok (streaming_result normal cs)))"

definition invoke_has :: "family \<Rightarrow> utext \<Rightarrow> bool" where
  "invoke_has fam text \<longleftrightarrow>
    has_sub (gm_outer_open (grammar_of fam)) text \<or> fam = Qwen3Coder \<and> has_sub (codes ''<function='') text"

definition invoke_detector :: "py_env \<Rightarrow> family \<Rightarrow> tool_function list \<Rightarrow> bool \<Rightarrow> invoke detector" where
  "invoke_detector e fam tools fwd =
    \<lparr>dt_has = invoke_has fam,
     dt_detect = (case fam of Qwen3Coder \<Rightarrow> qwen3_detect e tools fwd | MiniMaxM2 \<Rightarrow> minimax_detect e tools fwd),
     dt_increment = invoke_increment e fam tools fwd, dt_finish = invoke_finish (grammar_of fam),
     dt_finalize = (\<lambda>s. (s, [])), dt_closers = [gm_outer_close (grammar_of fam)], dt_eot = gm_outer_close (grammar_of fam),
     dt_buffer = iv_buf, dt_clear = (\<lambda>s. s\<lparr>iv_buf := []\<rparr>), dt_arguments = (\<lambda>s. recorded_arguments (iv_prev s))\<rparr>"

end
