(* ===== verification/InvokeChunks.thy ===== *)
theory InvokeChunks
  imports InvokeStream TurnStream
begin

text \<open>
  The streaming parser of the invoke formats is a machine of turns: where a text is cut does not matter.
\<close>

section \<open>Held suffixes\<close>

lemma held_single_unique:
  assumes "tok \<noteq> []" "hd tok \<notin> set (tl tok)" "suffix (take i tok) xs" "suffix (take j tok) xs" "0 < i" "i < j" "j \<le> length tok"
  shows False
proof -
  have "length (take i tok) \<le> length (take j tok)" using assms(6) by simp
  from suffix_length_suffix [OF assms(3,4) this] obtain zs where z: "take j tok = zs @ take i tok" by (auto simp: suffix_def)
  have l: "length zs = j - i" using arg_cong [OF z, of length] assms(6,7) by simp
  have "tok ! (j - i) = hd tok" using arg_cong [OF z, of "\<lambda>l. l ! (j - i)"] l assms(1,5-7) by (simp add: nth_append hd_conv_nth)
  moreover have "tok ! (j - i) \<in> set (tl tok)" using assms(5-7) by (cases tok) (auto simp: nth_Cons' in_set_conv_nth intro!: exI [of _ "j - i - 1"])
  ultimately show False using assms(2) by simp
qed

lemma suffix_take_iff: "i \<le> length tok \<Longrightarrow> i \<le> length xs \<Longrightarrow> has_prefix (drop (length xs - i) xs) tok \<longleftrightarrow> suffix (take i tok) xs"
  unfolding has_prefix_prefix suffix_iff_drop prefix_def
  by (simp add: min_absorb2) (metis append_eq_conv_conj append_take_drop_id diff_diff_cancel length_drop)

lemma partial_held:
  assumes "marker_set [tok]"
  shows "ends_with_partial xs tok = held_suffix [tok] xs"
proof -
  let ?P = "\<lambda>i. has_prefix (drop (length xs - i) xs) tok" and ?r = "[1..<min (length xs + 1) (length tok)]"
  have m: "tok \<noteq> []" "hd tok \<notin> set (tl tok)" using assms by (auto simp: marker_set_def)
  have P: "?P i \<longleftrightarrow> suffix (take i tok) xs" if "i \<in> set ?r" for i using suffix_take_iff [of i tok xs] that by auto
  let ?h = "held_suffix [tok] xs"
  show ?thesis
  proof (cases "find ?P ?r")
    case None
    have "?h = 0"
    proof (rule ccontr)
      assume "?h \<noteq> 0"
      then have "?h < length tok" "suffix (take ?h tok) xs" using held_suffix_attained [of "[tok]" xs] by auto
      moreover from this have "?h \<in> set ?r" using \<open>?h \<noteq> 0\<close> held_suffix_le [of "[tok]" xs] by auto
      ultimately show False using None P by (auto simp: find_None_iff)
    qed
    then show ?thesis using None by (simp add: ends_with_partial_def)
  next
    case (Some i)
    from find_in [OF Some] have i: "i \<in> set ?r" "?P i" by blast+
    then have s: "suffix (take i tok) xs" "0 < i" "i < length tok" using P by auto
    then have "i \<le> ?h" using held_suffix_max [of tok "[tok]" i xs] by simp
    moreover have "\<not> i < ?h"
    proof
      assume l: "i < ?h"
      then have "?h < length tok" "suffix (take ?h tok) xs" using held_suffix_attained [of "[tok]" xs] by auto
      then show False using held_single_unique [OF m s(1) _ s(2) l] by simp
    qed
    ultimately show ?thesis using Some by (simp add: ends_with_partial_def)
  qed
qed

lemma held_two: "held_suffix [a, b] xs = max (held_suffix [a] xs) (held_suffix [b] xs)"
proof (rule order_antisym)
  show "held_suffix [a, b] xs \<le> max (held_suffix [a] xs) (held_suffix [b] xs)"
    using held_suffix_attained [of "[a, b]" xs] held_suffix_max [of a "[a]" "held_suffix [a, b] xs" xs]
      held_suffix_max [of b "[b]" "held_suffix [a, b] xs" xs] by auto
  have "held_suffix [a] xs \<le> held_suffix [a, b] xs"
    using held_suffix_attained [of "[a]" xs] held_suffix_max [of a "[a, b]" "held_suffix [a] xs" xs] by auto
  moreover have "held_suffix [b] xs \<le> held_suffix [a, b] xs"
    using held_suffix_attained [of "[b]" xs] held_suffix_max [of b "[a, b]" "held_suffix [b] xs" xs] by auto
  ultimately show "max (held_suffix [a] xs) (held_suffix [b] xs) \<le> held_suffix [a, b] xs" by simp
qed

lemma marker_set_mono: "marker_set toks \<Longrightarrow> set toks' \<subseteq> set toks \<Longrightarrow> marker_set toks'"
  unfolding marker_set_def by blast

lemma held_markers: "marker_set [a, b] \<Longrightarrow> held xs a b = held_suffix [a, b] xs"
  using marker_set_mono [of "[a, b]" "[a]"] marker_set_mono [of "[a, b]" "[b]"] marker_set_nonempty [of "[a, b]"]
  by (simp add: held_def held_two partial_held)

text \<open>Two markers that are looked for at once\<close>

lemma earliest_two:
  "earliest [a, b] xs =
    (if before (find_sub b xs) (find_sub a xs) then Some (the (find_sub b xs), b) else map_option (\<lambda>i. (i, a)) (find_sub a xs))"
  by (auto simp: earliest_def earlier_def before_def split: option.splits)

section \<open>The turns as scans for the earliest marker\<close>

definition more :: "utext \<Rightarrow> invoke \<Rightarrow> invoke" where
  "more ys s = s\<lparr>iv_buf := iv_buf s @ ys\<rparr>"

lemma more_simps [simp]: "iv_buf (more ys s) = iv_buf s @ ys" "iv_mode (more ys s) = iv_mode s" "more [] s = s"
  "more zs (more ys s) = more (ys @ zs) s" "iv_id (more ys s) = iv_id s" "iv_trimmed (more ys s) = iv_trimmed s"
  "iv_started (more ys s) = iv_started s" "iv_config (more ys s) = iv_config s" "iv_key (more ys s) = iv_key s" "iv_lead (more ys s) = iv_lead s"
  "iv_streamed (more ys s) = iv_streamed s"
  by (simp_all add: more_def)

lemma more_set [simp]: "(more ys s)\<lparr>iv_buf := b\<rparr> = s\<lparr>iv_buf := b\<rparr>"
  by (simp add: more_def)

text \<open>What a turn does behind an opening tag\<close>

definition invoke_found :: "tool_function list \<Rightarrow> bool \<Rightarrow> utext \<Rightarrow> utext \<Rightarrow> invoke \<Rightarrow> turn_step" where
  "invoke_found tools fwd raw rest s =
    (let name = strip raw; s = (enter_invoke s)\<lparr>iv_buf := rest\<rparr> in
     if accepted_tool tools fwd name then (open_invoke tools name s, [], [call_start (iv_id s) name], True)
     else (s\<lparr>iv_mode := IInvokeSkip\<rparr>, [], [], True))"

definition param_found :: "grammar \<Rightarrow> utext \<Rightarrow> utext \<Rightarrow> invoke \<Rightarrow> turn_step" where
  "param_found gm raw rest s =
    (if iv_mode s = IInvokeSkip then (s\<lparr>iv_buf := rest, iv_mode := ISkipped\<rparr>, [], [], True)
     else (case start_param gm (strip raw) (s\<lparr>iv_buf := rest\<rparr>) of (s', cs) \<Rightarrow> (s', [], cs, True)))"

definition invoke_closed :: "(utext \<Rightarrow> utext) \<Rightarrow> utext \<Rightarrow> invoke \<Rightarrow> turn_step" where
  "invoke_closed fl rest s =
    ((if iv_mode s = IInvoke then close_invoke fl s else s)\<lparr>iv_buf := rest, iv_mode := IBlock\<rparr>, [],
     if iv_mode s = IInvoke then frag_items (if iv_started s then codes ''}'' else codes ''{}'') s else [], True)"

lemma commutes [simp]:
  "enter_invoke (s\<lparr>iv_buf := b\<rparr>) = (enter_invoke s)\<lparr>iv_buf := b\<rparr>"
  "emit f (s\<lparr>iv_buf := b\<rparr>) = (emit f s)\<lparr>iv_buf := b\<rparr>"
  "open_invoke tools n (s\<lparr>iv_buf := b\<rparr>) = (open_invoke tools n s)\<lparr>iv_buf := b\<rparr>"
  "frag_items f (s\<lparr>iv_buf := b\<rparr>) = frag_items f s" "param_lead (s\<lparr>iv_buf := b\<rparr>) = param_lead s"
  by (simp_all add: enter_invoke_def emit_def open_invoke_def frag_items_def param_lead_def Let_def)

lemma update_commutes [simp]: "update_prev fl (s\<lparr>iv_buf := b\<rparr>) = (update_prev fl s)\<lparr>iv_buf := b\<rparr>"
  by (simp add: update_prev_def Let_def split: option.split jval.split)

lemma close_commutes [simp]: "close_invoke fl (s\<lparr>iv_buf := b\<rparr>) = (close_invoke fl s)\<lparr>iv_buf := b\<rparr>"
  by (simp add: close_invoke_def Let_def)

lemma start_param_commutes:
  "start_param gm k (s\<lparr>iv_buf := b\<rparr>) = (case start_param gm k s of (s', cs) \<Rightarrow> (s'\<lparr>iv_buf := b\<rparr>, cs))"
  by (auto simp: start_param_def Let_def emit_def param_lead_def frag_items_def)

definition block_closed :: "utext \<Rightarrow> invoke \<Rightarrow> turn_step" where
  "block_closed rest s = (s\<lparr>iv_buf := rest, iv_mode := IIdle\<rparr>, [], [], True)"

definition more_out :: "utext \<Rightarrow> turn_step \<Rightarrow> turn_step" where
  "more_out ys r = (case r of (s', t, cs, on) \<Rightarrow> (more ys s', t, cs, on))"

definition goes_on :: "turn_step \<Rightarrow> bool" where
  "goes_on r = (case r of (_, _, _, on) \<Rightarrow> on)"

lemma found_more:
  "invoke_found tools fwd raw (rest @ ys) (more ys s) = more_out ys (invoke_found tools fwd raw rest s)"
  "param_found gm raw (rest @ ys) (more ys s) = more_out ys (param_found gm raw rest s)"
  "invoke_closed fl (rest @ ys) (more ys s) = more_out ys (invoke_closed fl rest s)"
  "block_closed (rest @ ys) (more ys s) = more_out ys (block_closed rest s)"
  by (auto simp: invoke_found_def param_found_def invoke_closed_def block_closed_def start_param_commutes more_out_def Let_def more_def
    split: prod.splits)

text \<open>The part of the buffer that is scanned away does not count.\<close>

lemma found_set:
  "invoke_found tools fwd raw rest (s\<lparr>iv_buf := b\<rparr>) = invoke_found tools fwd raw rest s"
  "param_found gm raw rest (s\<lparr>iv_buf := b\<rparr>) = param_found gm raw rest s"
  "invoke_closed fl rest (s\<lparr>iv_buf := b\<rparr>) = invoke_closed fl rest s"
  "block_closed rest (s\<lparr>iv_buf := b\<rparr>) = block_closed rest s"
  by (simp_all add: invoke_found_def param_found_def invoke_closed_def block_closed_def Let_def)

lemma found_goes_on:
  "goes_on (invoke_found tools fwd raw rest s)" "goes_on (param_found gm raw rest s)" "goes_on (invoke_closed fl rest s)"
  "goes_on (block_closed rest s)"
  by (simp_all add: goes_on_def invoke_found_def param_found_def invoke_closed_def block_closed_def Let_def split: prod.split)

definition scan_turn :: "utext \<Rightarrow> utext \<Rightarrow> (utext \<Rightarrow> (utext \<times> nat) option) \<Rightarrow> (utext \<Rightarrow> utext \<Rightarrow> invoke \<Rightarrow> turn_step) \<Rightarrow> (utext \<Rightarrow> invoke \<Rightarrow> turn_step) \<Rightarrow> invoke \<Rightarrow> turn_step" where
  "scan_turn a b tag found ended s =
    (let xs = iv_buf s in
     case earliest [a, b] xs of
       None \<Rightarrow> (s\<lparr>iv_buf := drop (length xs - held_suffix [a, b] xs) xs\<rparr>, [], [], False)
     | Some (i, tok) \<Rightarrow>
         if tok = b then ended (drop (i + length b) xs) s
         else (case tag (drop i xs) of None \<Rightarrow> (s, [], [], False) | Some (raw, n) \<Rightarrow> found raw (drop (i + n) xs) s))"

context invoke_grammar
begin

lemma block_turn_scan:
  "block_turn gm tools fwd s =
    scan_turn (gm_invoke_prefix gm) (gm_outer_close gm) (gm_invoke_open gm) (invoke_found tools fwd) block_closed s"
  using block_markers(2) held_markers [OF block_markers(1)]
  by (auto simp: block_turn_def scan_turn_def earliest_two invoke_found_def block_closed_def Let_def before_def split: option.splits)

lemma invoke_turn_scan:
  "invoke_turn fl gm s =
    scan_turn (gm_param_prefix gm) (gm_invoke_close gm) (gm_param_open gm) (param_found gm) (invoke_closed fl) s"
proof -
  have h: "max (ends_with_partial xs (gm_param_prefix gm)) (ends_with_partial xs (gm_invoke_close gm))
    = held_suffix [gm_param_prefix gm, gm_invoke_close gm] xs" for xs
    using held_markers [OF invoke_markers(1), of xs] by (simp add: held_def)
  show ?thesis
    using invoke_markers(2)
    by (auto simp: invoke_turn_def h scan_turn_def earliest_two param_found_def invoke_closed_def Let_def before_def split: option.splits)
qed

end

section \<open>Scans on a longer buffer\<close>

definition skipped :: "utext \<Rightarrow> utext \<Rightarrow> utext \<Rightarrow> nat" where
  "skipped a b xs = (case earliest [a, b] xs of Some (i, _) \<Rightarrow> i | None \<Rightarrow> length xs - held_suffix [a, b] xs)"

locale marker_scan =
  fixes a b :: utext
    and tag :: "utext \<Rightarrow> (utext \<times> nat) option"
    and found :: "utext \<Rightarrow> utext \<Rightarrow> invoke \<Rightarrow> turn_step"
    and ended :: "utext \<Rightarrow> invoke \<Rightarrow> turn_step"
  assumes markers: "marker_set [a, b]"
    and tag_grows: "tag xs = Some m \<Longrightarrow> tag (xs @ ys) = Some m"
    and tag_bound: "tag xs = Some (x, n) \<Longrightarrow> n \<le> length xs"
    and found_grows: "found raw (rest @ ys) (more ys s) = more_out ys (found raw rest s)"
    and ended_grows: "ended (rest @ ys) (more ys s) = more_out ys (ended rest s)"
    and found_sets: "found raw rest (s\<lparr>iv_buf := x\<rparr>) = found raw rest s"
    and ended_sets: "ended rest (s\<lparr>iv_buf := x\<rparr>) = ended rest s"
    and both_go_on: "goes_on (found raw rest s)" "goes_on (ended rest s)"
begin

lemma scan_push:
  assumes "scan_turn a b tag found ended s = (s', t, cs, True)"
  shows "scan_turn a b tag found ended (more ys s) = (more ys s', t, cs, True)"
proof -
  obtain i tok where e: "earliest [a, b] (iv_buf s) = Some (i, tok)"
    using assms by (auto simp: scan_turn_def Let_def split: option.splits)
  have l: "i + length tok \<le> length (iv_buf s)" using earliest_bound [OF e] .
  have e': "earliest [a, b] (iv_buf s @ ys) = Some (i, tok)" using earliest_append [OF e markers] .
  show ?thesis
  proof (cases "tok = b")
    case True
    have "ended (drop (i + length b) (iv_buf s)) s = (s', t, cs, True)" using assms e True by (simp add: scan_turn_def)
    then show ?thesis using e' True l ended_grows [of "drop (i + length b) (iv_buf s)" ys s] by (simp add: scan_turn_def more_out_def)
  next
    case False
    then obtain raw n where n: "tag (drop i (iv_buf s)) = Some (raw, n)" "found raw (drop (i + n) (iv_buf s)) s = (s', t, cs, True)"
      using assms e by (auto simp: scan_turn_def Let_def split: option.splits)
    have "i + n \<le> length (iv_buf s)" using tag_bound [OF n(1)] l by simp
    then show ?thesis using e' False l tag_grows [OF n(1), of ys] n(2) found_grows [of raw "drop (i + n) (iv_buf s)" ys s]
      by (simp add: scan_turn_def more_out_def)
  qed
qed

lemma scan_waits:
  assumes "scan_turn a b tag found ended s = (s', t, cs, False)"
  obtains "t = []" "cs = []" "s' = s" | "t = []" "cs = []" "earliest [a, b] (iv_buf s) = None"
    "s' = s\<lparr>iv_buf := drop (length (iv_buf s) - held_suffix [a, b] (iv_buf s)) (iv_buf s)\<rparr>"
proof (cases "earliest [a, b] (iv_buf s)")
  case None
  then show thesis using assms that(2) by (simp add: scan_turn_def Let_def)
next
  case (Some it)
  have "\<not> goes_on (s', t, cs, False)" by (simp add: goes_on_def)
  then have f: "found raw rest x \<noteq> (s', t, cs, False)" "ended rest x \<noteq> (s', t, cs, False)" for raw rest x using both_go_on by metis+
  show thesis using assms Some f that(1) by (cases it) (auto simp: scan_turn_def Let_def split: if_splits option.splits)
qed

text \<open>The scan_turn does not look at what lies before the first marker, or before the held suffix.\<close>

lemma scan_skip:
  assumes "k \<le> skipped a b xs"
  shows "scan_turn a b tag found ended (s\<lparr>iv_buf := drop k xs\<rparr>) = scan_turn a b tag found ended (s\<lparr>iv_buf := xs\<rparr>)
    \<or> (\<forall>j \<in> {0, k}. scan_turn a b tag found ended (s\<lparr>iv_buf := drop j xs\<rparr>) = (s\<lparr>iv_buf := drop j xs\<rparr>, [], [], False))"
proof (cases "earliest [a, b] xs")
  case None
  have "length (drop k xs) - held_suffix [a, b] (drop k xs) + k = length xs - held_suffix [a, b] xs"
    using held_suffix_drop [of k xs "[a, b]"] assms None by (simp add: skipped_def)
  then show ?thesis using None earliest_drop_None [OF None, of k] by (simp add: scan_turn_def Let_def)
next
  case (Some it)
  obtain i tok where e: "earliest [a, b] xs = Some (i, tok)" using Some by (cases it) simp
  then have k: "k \<le> i" using assms by (simp add: skipped_def)
  from earliest_drop [OF e k] have e': "earliest [a, b] (drop k xs) = Some (i - k, tok)" .
  have d: "drop (i - k + n) (drop k xs) = drop (i + n) xs" for n using k by simp
  have d0: "drop (i - k) (drop k xs) = drop i xs" using k by simp
  show ?thesis
  proof (cases "tok = b")
    case True
    then show ?thesis using e e' by (simp add: scan_turn_def d ended_sets del: drop_drop)
  next
    case False
    show ?thesis
    proof (cases "tag (drop i xs)")
      case None
      then show ?thesis using e e' False by (simp add: scan_turn_def d0 del: drop_drop)
    next
      case (Some rn)
      then show ?thesis using e e' False by (cases rn) (simp add: scan_turn_def d d0 found_sets del: drop_drop)
    qed
  qed
qed

lemma skipped_le: "skipped a b xs \<le> length xs"
  using earliest_bound [of "[a, b]" xs] by (fastforce simp: skipped_def split: option.splits)

lemma skipped_more: "skipped a b xs \<le> skipped a b (xs @ ys)"
proof (cases "earliest [a, b] xs")
  case (Some it)
  then obtain i tok where e: "earliest [a, b] xs = Some (i, tok)" by (cases it) simp
  then show ?thesis using earliest_append [OF e markers, of ys] by (simp add: skipped_def)
next
  case None
  show ?thesis
  proof (cases "earliest [a, b] (xs @ ys)")
    case (Some it)
    then obtain i tok where e: "earliest [a, b] (xs @ ys) = Some (i, tok)" by (cases it) simp
    then show ?thesis using earliest_late [OF None e, of "[a, b]"] None by (simp add: skipped_def)
  qed (use None held_grows [of xs "[a, b]" ys] in \<open>simp add: skipped_def\<close>)
qed

lemma skipped_drop:
  assumes "k \<le> skipped a b xs"
  shows "drop (skipped a b (drop k xs)) (drop k xs) = drop (skipped a b xs) xs"
proof (cases "earliest [a, b] xs")
  case (Some it)
  then obtain i tok where e: "earliest [a, b] xs = Some (i, tok)" by (cases it) simp
  have "k \<le> i" using assms e by (simp add: skipped_def)
  then show ?thesis using earliest_drop [OF e, of k] e by (simp add: skipped_def)
next
  case None
  then have "length xs - (k + held_suffix [a, b] xs) + k = length xs - held_suffix [a, b] xs" using assms by (simp add: skipped_def)
  then show ?thesis using None earliest_drop_None [OF None, of k] held_suffix_drop [of k xs "[a, b]"] assms by (simp add: skipped_def)
qed

lemma scan_rests:
  assumes "scan_turn a b tag found ended s = (s', t, cs, False)"
  shows "scan_turn a b tag found ended s' = (s', [], [], False)"
  using assms
proof (cases rule: scan_waits)
  case 2
  let ?k = "length (iv_buf s) - held_suffix [a, b] (iv_buf s)"
  have "held_suffix [a, b] (drop ?k (iv_buf s)) = length (drop ?k (iv_buf s))"
    using held_suffix_drop [of ?k "iv_buf s" "[a, b]"] held_suffix_le [of "[a, b]" "iv_buf s"] by simp
  then show ?thesis using 2 earliest_drop_None [OF 2(3), of ?k] by (simp add: scan_turn_def Let_def)
qed (use assms in simp)

lemma scan_empty: "iv_buf s = [] \<Longrightarrow> scan_turn a b tag found ended s = (s, [], [], False)"
  using markers earliest_bound [of "[a, b]" "[]"] earliest_Some [of "[a, b]" "[]"]
  by (cases "earliest [a, b] []") (fastforce simp: scan_turn_def marker_set_def)+

end

lemmas laws = invoke_grammar.outer_marker [OF grammar_laws] invoke_grammar.block_markers [OF grammar_laws]
  invoke_grammar.invoke_markers [OF grammar_laws] invoke_grammar.value_marker [OF grammar_laws]
  invoke_grammar.invoke_open_bound [OF grammar_laws] invoke_grammar.param_open_bound [OF grammar_laws]
  invoke_grammar.invoke_open_grows [OF grammar_laws] invoke_grammar.param_open_grows [OF grammar_laws]

interpretation block_scan: marker_scan "gm_invoke_prefix (grammar_of fam)" "gm_outer_close (grammar_of fam)" "gm_invoke_open (grammar_of fam)"
  "invoke_found tools fwd" block_closed
  for fam tools fwd
  by unfold_locales (use laws in \<open>auto simp: found_more found_set found_goes_on\<close>)

interpretation invoke_scan: marker_scan "gm_param_prefix (grammar_of fam)" "gm_invoke_close (grammar_of fam)" "gm_param_open (grammar_of fam)"
  "param_found (grammar_of fam)" "invoke_closed fl"
  for fam fl
  by unfold_locales (use laws in \<open>auto simp: found_more found_set found_goes_on\<close>)

section \<open>Turns by mode\<close>

abbreviation iturn_of :: "py_env \<Rightarrow> family \<Rightarrow> tool_function list \<Rightarrow> bool \<Rightarrow> bool \<Rightarrow> invoke \<Rightarrow> turn_step result" where
  "iturn_of e fam tools fwd \<equiv> iturn e (grammar_of fam) tools fwd"

text \<open>In a block and between parameters, text up to the next marker is dropped sooner or later. \<open>settle_invoke\<close>
  drops it at once.\<close>

definition skip_count :: "family \<Rightarrow> invoke \<Rightarrow> utext \<Rightarrow> nat" where
  "skip_count fam s xs =
    (if iv_mode s = IBlock then skipped (gm_invoke_prefix (grammar_of fam)) (gm_outer_close (grammar_of fam)) xs
     else if iv_mode s \<in> {IInvoke, IInvokeSkip} then skipped (gm_param_prefix (grammar_of fam)) (gm_invoke_close (grammar_of fam)) xs
     else 0)"

definition settle_invoke :: "family \<Rightarrow> invoke \<Rightarrow> invoke" where
  "settle_invoke fam s = s\<lparr>iv_buf := drop (skip_count fam s (iv_buf s)) (iv_buf s)\<rparr>"

lemma find_sub_Nil: "p \<noteq> [] \<Longrightarrow> find_sub p [] = None"
  by (simp add: find_sub_None)

lemma markers_there:
  "gm_outer_open (grammar_of fam) \<noteq> []" "gm_param_close (grammar_of fam) \<noteq> []"
  using invoke_grammar.markers_nonempty [OF grammar_laws] by blast+

lemma turn_idle: "iv_mode s = IIdle \<Longrightarrow> iturn_of e fam tools fwd False s = ok (idle_turn (grammar_of fam) s)"
  using find_sub_Nil [OF markers_there(1)] by (auto simp: iturn_def idle_turn_def)

lemma turn_value: "iv_mode s \<in> {IBuffered, ISkipped} \<Longrightarrow> iturn_of e fam tools fwd False s = value_turn e (grammar_of fam) s"
  using find_sub_Nil [OF markers_there(2)] by (auto simp: iturn_def value_turn_def)

lemma turn_block:
  "iv_mode s = IBlock \<Longrightarrow> iturn_of e fam tools fwd False s =
    ok (scan_turn (gm_invoke_prefix (grammar_of fam)) (gm_outer_close (grammar_of fam)) (gm_invoke_open (grammar_of fam)) (invoke_found tools fwd) block_closed s)"
  using block_scan.scan_empty [where s = s and fam = fam and tools = tools and fwd = fwd] invoke_grammar.block_turn_scan [OF grammar_laws, of fam] by (auto simp: iturn_def)

lemma turn_invoke:
  "iv_mode s \<in> {IInvoke, IInvokeSkip} \<Longrightarrow> iturn_of e fam tools fwd False s =
    ok (scan_turn (gm_param_prefix (grammar_of fam)) (gm_invoke_close (grammar_of fam)) (gm_param_open (grammar_of fam)) (param_found (grammar_of fam))
      (invoke_closed (pe_repr e)) s)"
  using invoke_scan.scan_empty invoke_grammar.invoke_turn_scan [OF grammar_laws] by (auto simp: iturn_def)

lemma turn_string:
  "iv_mode s = IString \<Longrightarrow> iturn_of e fam tools fwd had s =
    (if iv_buf s = [] then ok (s, [], [], False) else ok (string_turn (pe_repr e) (grammar_of fam) s))"
  by (simp add: iturn_def)

section \<open>A machine of turns\<close>

text \<open>A string value: line feeds at the end of what is emitted are held.\<close>

lemma rstrip_lf_end: "rstrip_lf xs = [] \<or> last (rstrip_lf xs) \<noteq> 10"
  using hd_dropWhile [of "\<lambda>c. c = 10" "rev xs"] by (auto simp: rstrip_lf_def last_rev)

lemma rstrip_lf_append: "xs = [] \<or> last xs \<noteq> 10 \<Longrightarrow> rstrip_lf (xs @ ys) = xs @ rstrip_lf ys"
proof -
  assume a: "xs = [] \<or> last xs \<noteq> 10"
  have "dropWhile (\<lambda>c. c = 10) (rev xs) = rev xs" using a by (cases xs rule: rev_cases) auto
  then show ?thesis by (auto simp: rstrip_lf_def dropWhile_append)
qed

lemma rstrip_lf_prefix: "\<exists>ys. xs = rstrip_lf xs @ ys \<and> rstrip_lf ys = []"
proof -
  have "xs = rstrip_lf xs @ rev (takeWhile (\<lambda>c. c = 10) (rev xs))"
    using arg_cong [OF takeWhile_dropWhile_id [of "\<lambda>c. c = 10" "rev xs"], of rev]
    unfolding rstrip_lf_def rev_append by simp
  moreover have "rstrip_lf (rev (takeWhile (\<lambda>c. c = 10) (rev xs))) = []" by (auto simp: rstrip_lf_def dropWhile_eq_Nil_conv dest: set_takeWhileD)
  ultimately show ?thesis by blast
qed

lemma trim_trailing_append: "xs = [] \<or> last xs \<noteq> 10 \<Longrightarrow> trim_trailing gm (xs @ ys) = xs @ trim_trailing gm ys"
  using rstrip_lf_append [of xs ys] by (auto simp: trim_trailing_def butlast_append)

lemma trim_leading_append: "trim_leading gm xs \<noteq> [] \<or> (gm_trim_single gm \<and> xs \<noteq> []) \<Longrightarrow> trim_leading gm (xs @ ys) = trim_leading gm xs @ ys"
  by (cases xs) (auto simp: trim_leading_def dropWhile_append split: if_splits)

lemma trim_leading_keeps: "trim_leading gm xs = xs \<Longrightarrow> xs \<noteq> [] \<Longrightarrow> trim_leading gm (xs @ ys) = xs @ ys"
  using trim_leading_append [of gm xs ys] by simp

text \<open>Idle: the text up to the next block\<close>

lemma idle_turn_alt:
  "idle_turn (grammar_of fam) s =
    (let xs = iv_buf s; k = length xs - held_suffix [gm_outer_open (grammar_of fam)] xs in
     case earliest [gm_outer_open (grammar_of fam)] xs of
       None \<Rightarrow> (s\<lparr>iv_buf := drop k xs\<rparr>, take k xs, [], False)
     | Some (i, _) \<Rightarrow>
         if i > 0 then (s\<lparr>iv_buf := drop i xs\<rparr>, take i xs, [], True)
         else (s\<lparr>iv_buf := drop (length (gm_outer_open (grammar_of fam))) xs, iv_mode := IBlock\<rparr>, [], [], True))"
  using partial_held [OF laws(1)] by (auto simp: idle_turn_def earliest_def earlier_def Let_def split: option.splits)

lemma runs_turn_on:
  "iturn_of e fam tools fwd False (more ys s) = ok (more ys s', t, cs, True) \<Longrightarrow>
    runs core (iturn_of e fam tools fwd False) (more ys s') r \<Longrightarrow>
    runs core (iturn_of e fam tools fwd False) (more ys s) (prepend (text_atoms t @ item_atoms cs) r)"
  by (rule runs_on)

text \<open>A turn that delivered \<open>out\<close> and was then fed, against the turn on the longer buffer\<close>

lemma runs_catch_up:
  assumes "turn x = ok (u, t2, cs2, on)" "turn y = ok (u, t3, cs3, on)"
    "text_atoms t3 @ item_atoms cs3 = out @ text_atoms t2 @ item_atoms cs2" "runs core turn x r"
  shows "runs core turn y (prepend out r)"
  using assms(4)
proof (cases rule: runs.cases)
  case (runs_waits s' t cs)
  then show ?thesis using assms(1-3) runs.runs_waits [of turn y u t3 cs3 core] by simp
next
  case (runs_on s' t cs r')
  then have "runs core turn y (prepend (text_atoms t3 @ item_atoms cs3) r')"
    using assms(1,2) runs.runs_on [of turn y u t3 cs3 core r'] by simp
  then show ?thesis using runs_on assms(1,3) by (simp add: prepend_simps(2) [symmetric] del: prepend_simps(2) append_assoc)
qed (use assms(1) in simp)

lemma idle_waits:
  assumes "idle_turn (grammar_of fam) s = (s', t, cs, False)"
  shows "earliest [gm_outer_open (grammar_of fam)] (iv_buf s) = None" "cs = []"
    "s' = s\<lparr>iv_buf := drop (length (iv_buf s) - held_suffix [gm_outer_open (grammar_of fam)] (iv_buf s)) (iv_buf s)\<rparr>"
    "t = take (length (iv_buf s) - held_suffix [gm_outer_open (grammar_of fam)] (iv_buf s)) (iv_buf s)"
  using assms by (auto simp: idle_turn_alt Let_def split: option.splits if_splits)

lemma idle_rests:
  assumes "iv_mode s = IIdle" "idle_turn (grammar_of fam) s = (s', t, cs, False)"
  shows "resting (iturn_of e fam tools fwd False) s'"
proof -
  note w = idle_waits [OF assms(2)]
  let ?o = "[gm_outer_open (grammar_of fam)]" let ?k = "length (iv_buf s) - held_suffix ?o (iv_buf s)"
  have "held_suffix ?o (drop ?k (iv_buf s)) = length (drop ?k (iv_buf s))"
    using held_suffix_drop [of ?k "iv_buf s" ?o] held_suffix_le [of ?o "iv_buf s"] by simp
  then have "idle_turn (grammar_of fam) s' = (s', [], [], False)"
    using w(3) earliest_drop_None [OF w(1), of ?k] by (simp add: idle_turn_alt Let_def)
  then show ?thesis using turn_idle [of s'] assms(1) w(3) by (simp add: resting_def)
qed

lemma idle_push:
  assumes "iv_mode s = IIdle" "idle_turn (grammar_of fam) s = (s', t, cs, on)"
    "runs core (iturn_of e fam tools fwd False) (more ys s') r"
  shows "runs core (iturn_of e fam tools fwd False) (more ys s) (prepend (text_atoms t @ item_atoms cs) r)"
proof -
  let ?o = "[gm_outer_open (grammar_of fam)]" let ?T = "iturn_of e fam tools fwd False"
  have T: "?T (more ys s) = ok (idle_turn (grammar_of fam) (more ys s))" using assms(1) by (simp add: turn_idle)
  show ?thesis
  proof (cases "earliest ?o (iv_buf s)")
    case (Some it)
    then obtain i tok where e: "earliest ?o (iv_buf s) = Some (i, tok)" by (cases it) simp
    have b: "i + length tok \<le> length (iv_buf s)" "tok = gm_outer_open (grammar_of fam)"
      using earliest_bound [OF e] earliest_Some [OF e] by auto
    have "idle_turn (grammar_of fam) (more ys s) = (more ys s', t, cs, on)" "on"
      using assms(2) e earliest_append [OF e laws(1), of ys] b by (auto simp: idle_turn_alt Let_def more_def split: if_splits)
    then show ?thesis using T assms(3) by (intro runs_turn_on) simp_all
  next
    case None
    obtain k where k: "k = length (iv_buf s) - held_suffix ?o (iv_buf s)" by blast
    have w: "s' = s\<lparr>iv_buf := drop k (iv_buf s)\<rparr>" "t = take k (iv_buf s)" "cs = []" "\<not> on"
      using assms(2) None k by (simp_all add: idle_turn_alt Let_def)
    obtain xs where xs: "iv_buf s @ ys = xs" by blast
    have kb: "k \<le> length (iv_buf s)" using k by simp
    have t: "t = take k xs" using w(2) kb xs by auto
    have ms: "more ys s' = s\<lparr>iv_buf := drop k xs\<rparr>" "more ys s = s\<lparr>iv_buf := xs\<rparr>" using w(1) kb xs by (auto simp: more_def)
    have T': "?T (more ys s') = ok (idle_turn (grammar_of fam) (more ys s'))" using assms(1) w(1) by (simp add: turn_idle)
    note Ts = T [unfolded ms(2)] T' [unfolded ms(1)]
    show ?thesis
    proof (cases "earliest ?o xs")
      case n: None
      obtain h where h: "h = length xs - held_suffix ?o xs" by blast
      have le: "k \<le> h" using held_grows [of "iv_buf s" ?o ys] k xs h by simp
      have l: "length (drop k xs) - held_suffix ?o (drop k xs) = h - k" using held_suffix_drop [of k xs ?o] le h by simp
      have c: "take h xs = t @ take (h - k) (drop k xs)" "drop (h - k) (drop k xs) = drop h xs"
        using cut_at [OF le, of xs] t by simp_all
      have a: "?T (more ys s') = ok (s\<lparr>iv_buf := drop h xs\<rparr>, take (h - k) (drop k xs), [], False)"
        using earliest_drop_None [OF n, of k] unfolding ms Ts idle_turn_alt Let_def by (simp add: l c(2) del: drop_drop length_drop)
      have b: "?T (more ys s) = ok (s\<lparr>iv_buf := drop h xs\<rparr>, take h xs, [], False)"
        using n unfolding ms Ts idle_turn_alt Let_def by (simp add: h)
      show ?thesis using runs_catch_up [of ?T, OF a b _ assms(3)] c(1) w(3) by simp
    next
      case (Some it)
      then obtain i tok where e: "earliest ?o xs = Some (i, tok)" by (cases it) simp
      have le: "k \<le> i" using earliest_late [OF None, of ys i tok ?o] k xs e by simp
      have e2: "earliest ?o (drop k xs) = Some (i - k, tok)" using earliest_drop [OF e le] .
      consider "i = 0" | "i > 0" "i = k" | "i > k" using le by linarith
      then show ?thesis
      proof cases
        case 1
        then have "more ys s' = more ys s" "t = []" using ms le t by simp_all
        then show ?thesis using assms(3) w(3) by simp
      next
        case 2
        have "?T (more ys s) = ok (more ys s', t, cs, True)" using 2 e t w(3) unfolding ms Ts idle_turn_alt Let_def by simp
        then show ?thesis using assms(3) by (rule runs_turn_on)
      next
        case 3
        have c: "take i xs = t @ take (i - k) (drop k xs)" "drop (i - k) (drop k xs) = drop i xs"
          using cut_at [OF le, of xs] t by simp_all
        have a: "?T (more ys s') = ok (s\<lparr>iv_buf := drop i xs\<rparr>, take (i - k) (drop k xs), [], True)"
          using 3 e2 unfolding ms Ts idle_turn_alt Let_def by (simp add: c(2) del: drop_drop length_drop)
        have b: "?T (more ys s) = ok (s\<lparr>iv_buf := drop i xs\<rparr>, take i xs, [], True)"
          using 3 e unfolding ms Ts idle_turn_alt Let_def by simp
        show ?thesis using runs_catch_up [of ?T, OF a b _ assms(3)] c(1) w(3) by simp
      qed
    qed
  qed
qed

text \<open>In a block and between parameters\<close>

lemma skip_count_simps [simp]: "skip_count fam (s\<lparr>iv_buf := b\<rparr>) = skip_count fam s" "skip_count fam (more ys s) = skip_count fam s"
  by (simp_all add: skip_count_def fun_eq_iff)

lemma skip_count_le: "skip_count fam s xs \<le> length xs" "skip_count fam s xs \<le> skip_count fam s (xs @ ys)"
  using block_scan.skipped_le invoke_scan.skipped_le block_scan.skipped_more invoke_scan.skipped_more by (auto simp: skip_count_def)

lemma skip_alike:
  assumes "k \<le> skip_count fam s xs"
  shows "(iturn_of e fam tools fwd False (s\<lparr>iv_buf := drop k xs\<rparr>) = iturn_of e fam tools fwd False (s\<lparr>iv_buf := xs\<rparr>))
    \<or> (resting (iturn_of e fam tools fwd False) (s\<lparr>iv_buf := drop k xs\<rparr>) \<and> resting (iturn_of e fam tools fwd False) (s\<lparr>iv_buf := xs\<rparr>)
       \<and> settle_invoke fam (s\<lparr>iv_buf := drop k xs\<rparr>) = settle_invoke fam (s\<lparr>iv_buf := xs\<rparr>))"
proof -
  consider "iv_mode s = IBlock" | "iv_mode s \<in> {IInvoke, IInvokeSkip}" | "k = 0"
    using assms by (auto simp: skip_count_def split: if_splits)
  then show ?thesis
  proof cases
    case 1
    then have k: "k \<le> skipped (gm_invoke_prefix (grammar_of fam)) (gm_outer_close (grammar_of fam)) xs" using assms by (simp add: skip_count_def)
    from block_scan.scan_skip [OF k, of tools fwd s] block_scan.skipped_drop [OF k] show ?thesis
      using 1 by (auto simp: turn_block resting_def settle_invoke_def skip_count_def)
  next
    case 2
    then have k: "k \<le> skipped (gm_param_prefix (grammar_of fam)) (gm_invoke_close (grammar_of fam)) xs"
      using assms by (auto simp: skip_count_def)
    have "skip_count fam s = skipped (gm_param_prefix (grammar_of fam)) (gm_invoke_close (grammar_of fam))"
      using 2 by (auto simp: skip_count_def fun_eq_iff)
    with invoke_scan.scan_skip [OF k, of "pe_repr e" s] invoke_scan.skipped_drop [OF k] show ?thesis
      using turn_invoke [of "s\<lparr>iv_buf := _\<rparr>" e fam tools fwd] 2 by (auto simp: resting_def settle_invoke_def)
  qed simp
qed

lemma settle_more: "\<exists>k xs. k \<le> skip_count fam s xs \<and> more ys (settle_invoke fam s) = s\<lparr>iv_buf := drop k xs\<rparr> \<and> more ys s = s\<lparr>iv_buf := xs\<rparr>"
proof -
  let ?k = "skip_count fam s (iv_buf s)" let ?xs = "iv_buf s @ ys"
  have "?k \<le> skip_count fam s ?xs" "?k \<le> length (iv_buf s)" using skip_count_le by blast+
  then show ?thesis by (intro exI [of _ ?k] exI [of _ ?xs]) (simp add: settle_invoke_def more_def)
qed

lemma settle_feed:
  "runs (settle_invoke fam) (iturn_of e fam tools fwd False) (more ys (settle_invoke fam s)) r \<longleftrightarrow> runs (settle_invoke fam) (iturn_of e fam tools fwd False) (more ys s) r"
proof -
  obtain k xs where k: "k \<le> skip_count fam s xs" "more ys (settle_invoke fam s) = s\<lparr>iv_buf := drop k xs\<rparr>" "more ys s = s\<lparr>iv_buf := xs\<rparr>"
    using settle_more by blast
  note a = skip_alike [OF k(1), of e tools fwd]
  show ?thesis unfolding k(2,3)
    using runs_alike [of "iturn_of e fam tools fwd False" _ _ "settle_invoke fam"] a by metis
qed

definition scan_modes :: "imode set" where
  "scan_modes = {IBlock, IInvoke, IInvokeSkip}"

lemma scan_turn_push:
  assumes "iv_mode s \<in> scan_modes" "iturn_of e fam tools fwd False s = ok (s', t, cs, True)"
  shows "iturn_of e fam tools fwd False (more ys s) = ok (more ys s', t, cs, True)"
  using assms block_scan.scan_push invoke_scan.scan_push by (auto simp: scan_modes_def turn_block turn_invoke)

lemma scan_turn_waits:
  assumes "iv_mode s \<in> scan_modes" "iturn_of e fam tools fwd False s = ok (s', t, cs, False)"
  shows "t = [] \<and> cs = [] \<and> (s' = s \<or> s' = settle_invoke fam s) \<and> resting (iturn_of e fam tools fwd False) s'"
proof (cases "iv_mode s = IBlock")
  case True
  then have sc: "scan_turn (gm_invoke_prefix (grammar_of fam)) (gm_outer_close (grammar_of fam)) (gm_invoke_open (grammar_of fam))
    (invoke_found tools fwd) block_closed s = (s', t, cs, False)" using assms(2) by (simp add: turn_block)
  from sc have "t = [] \<and> cs = [] \<and> (s' = s \<or> s' = settle_invoke fam s)"
    by (cases rule: block_scan.scan_waits) (use True in \<open>auto simp: settle_invoke_def skip_count_def skipped_def\<close>)
  moreover have "iv_mode s' = IBlock" using calculation True by (auto simp: settle_invoke_def)
  ultimately show ?thesis using block_scan.scan_rests [OF sc] by (simp add: resting_def turn_block)
next
  case False
  then have m: "iv_mode s \<in> {IInvoke, IInvokeSkip}" using assms(1) by (auto simp: scan_modes_def)
  have sc: "scan_turn (gm_param_prefix (grammar_of fam)) (gm_invoke_close (grammar_of fam)) (gm_param_open (grammar_of fam)) (param_found (grammar_of fam))
      (invoke_closed (pe_repr e)) s = (s', t, cs, False)" using assms(2) turn_invoke [OF m] by simp
  from sc have w: "t = [] \<and> cs = [] \<and> (s' = s \<or> s' = settle_invoke fam s)"
    by (cases rule: invoke_scan.scan_waits) (use m in \<open>auto simp: settle_invoke_def skip_count_def skipped_def\<close>)
  then have "iv_mode s' \<in> {IInvoke, IInvokeSkip}" using m by (auto simp: settle_invoke_def)
  then show ?thesis using w invoke_scan.scan_rests [OF sc] turn_invoke [of s'] by (simp add: resting_def)
qed

lemma scan_turn_runs:
  assumes "iv_mode s \<in> scan_modes" "iturn_of e fam tools fwd False s = ok (s', t, cs, on)"
    "runs (settle_invoke fam) (iturn_of e fam tools fwd False) (more ys s') r"
  shows "runs (settle_invoke fam) (iturn_of e fam tools fwd False) (more ys s) (prepend (text_atoms t @ item_atoms cs) r)"
proof (cases on)
  case True
  then show ?thesis using scan_turn_push [of s e fam tools fwd s' t cs ys] assms by (intro runs_turn_on) simp_all
next
  case False
  then show ?thesis using scan_turn_waits [of s e fam tools fwd s' t cs] assms settle_feed by auto
qed

text \<open>A string value\<close>

lemma emit_simps [simp]: "emit [] s = s" "emit g (emit f s) = emit (f @ g) s" "emit f (s\<lparr>iv_trimmed := x\<rparr>) = (emit f s)\<lparr>iv_trimmed := x\<rparr>"
  "frag_items f (emit g s) = frag_items f s" "frag_items f (s\<lparr>iv_trimmed := x\<rparr>) = frag_items f s"
  by (cases "nat (iv_id s) < length (iv_streamed s)"; simp add: emit_def frag_items_def list_update_beyond)+

lemma emit_fields [simp]: "iv_mode (emit f s) = iv_mode s" "iv_trimmed (emit f s) = iv_trimmed s" "iv_id (emit f s) = iv_id s"
  by (simp_all add: emit_def)

lemma frag_atoms [simp]: "item_atoms (frag_items f s) = map (ArgChar (iv_id s)) f"
  by (simp add: frag_items_def)

lemma update_trimmed [simp]: "update_prev fl (s\<lparr>iv_trimmed := x\<rparr>) = (update_prev fl s)\<lparr>iv_trimmed := x\<rparr>"
  by (simp add: update_prev_def Let_def split: option.split jval.split)

lemma escape_text_append: "escape_text (s @ t) = escape_text s @ escape_text t"
  by (simp add: escape_text_def)

definition untrimmed :: "grammar \<Rightarrow> invoke \<Rightarrow> bool" where
  "untrimmed gm s \<longleftrightarrow> \<not> iv_trimmed s \<and> trim_leading gm (iv_buf s) \<noteq> iv_buf s"

definition emit_now :: "grammar \<Rightarrow> utext \<Rightarrow> utext" where
  "emit_now gm xs = rstrip_lf (take (length xs - held_suffix [gm_param_close gm] xs) xs)"

lemma string_turn_none:
  assumes "\<not> untrimmed (grammar_of fam) s" "find_sub (gm_param_close (grammar_of fam)) (iv_buf s) = None"
  shows "string_turn fl (grammar_of fam) s =
    ((emit (escape_text (emit_now (grammar_of fam) (iv_buf s))) s)\<lparr>iv_buf := drop (length (emit_now (grammar_of fam) (iv_buf s))) (iv_buf s), iv_trimmed := True\<rparr>,
     [], frag_items (escape_text (emit_now (grammar_of fam) (iv_buf s))) s, False)"
  using assms partial_held [OF laws(6), of "iv_buf s" fam]
  by (auto simp: string_turn_def untrimmed_def emit_now_def Let_def frag_items_def escape_text_def)

lemma string_turn_some:
  assumes "\<not> untrimmed (grammar_of fam) s" "find_sub (gm_param_close (grammar_of fam)) (iv_buf s) = Some c"
    "frag = escape_text (trim_trailing (grammar_of fam) (take c (iv_buf s))) @ [34]"
  shows "string_turn fl (grammar_of fam) s =
    ((update_prev fl (emit frag s))\<lparr>iv_buf := drop (c + length (gm_param_close (grammar_of fam))) (iv_buf s), iv_mode := IInvoke, iv_trimmed := True\<rparr>,
     [], frag_items frag s, True)"
  using assms by (auto simp: string_turn_def untrimmed_def Let_def)

lemma string_turn_trims:
  assumes "untrimmed gm s"
  shows "string_turn fl gm s = (s\<lparr>iv_buf := trim_leading gm (iv_buf s), iv_trimmed := (trim_leading gm (iv_buf s) \<noteq> [] \<or> gm_trim_single gm)\<rparr>, [], [], True)"
  using assms by (auto simp: string_turn_def untrimmed_def Let_def)

lemma emit_now_prefix:
  "\<exists>r. xs = emit_now gm xs @ r" "emit_now gm xs = [] \<or> last (emit_now gm xs) \<noteq> 10"
  "length (emit_now gm xs) \<le> length xs - held_suffix [gm_param_close gm] xs"
proof -
  let ?k = "length xs - held_suffix [gm_param_close gm] xs"
  obtain r where r: "take ?k xs = emit_now gm xs @ r" using rstrip_lf_prefix [of "take ?k xs"] unfolding emit_now_def by blast
  then have "xs = emit_now gm xs @ r @ drop ?k xs" by (metis append.assoc append_take_drop_id)
  then show "\<exists>r. xs = emit_now gm xs @ r" by blast
  show "emit_now gm xs = [] \<or> last (emit_now gm xs) \<noteq> 10" using rstrip_lf_end unfolding emit_now_def .
  show "length (emit_now gm xs) \<le> ?k" using arg_cong [OF r, of length] by simp
qed

lemma emit_now_drop:
  assumes "h \<le> length xs - held_suffix [gm_param_close gm] xs" "h = 0 \<or> last (take h xs) \<noteq> 10"
  shows "emit_now gm xs = take h xs @ emit_now gm (drop h xs)"
proof -
  obtain k where k: "k = length xs - held_suffix [gm_param_close gm] xs" by blast
  have "length (drop h xs) - held_suffix [gm_param_close gm] (drop h xs) = k - h" using held_suffix_drop [OF assms(1)] k by simp
  moreover have "take k xs = take h xs @ take (k - h) (drop h xs)" using cut_at(1) [of h k xs] assms(1) k by simp
  ultimately show ?thesis using rstrip_lf_append [of "take h xs" "take (k - h) (drop h xs)"] assms(2) k by (auto simp: emit_now_def)
qed

lemma string_rests:
  assumes "iv_mode s = IString" "iturn_of e fam tools fwd False s = ok (s', t, cs, False)"
  shows "resting (iturn_of e fam tools fwd False) s'"
proof (cases "iv_buf s = []")
  case True
  then show ?thesis using assms by (simp add: turn_string resting_def)
next
  case False
  let ?gm = "grammar_of fam" let ?xs = "iv_buf s"
  have st: "string_turn (pe_repr e) ?gm s = (s', t, cs, False)" using assms False by (simp add: turn_string)
  have u: "\<not> untrimmed ?gm s" using st string_turn_trims by auto
  have n: "find_sub (gm_param_close ?gm) ?xs = None"
    using st string_turn_some [OF u] by (cases "find_sub (gm_param_close ?gm) ?xs") auto
  let ?h = "length (emit_now ?gm ?xs)"
  have s': "s' = (emit (escape_text (emit_now ?gm ?xs)) s)\<lparr>iv_buf := drop ?h ?xs, iv_trimmed := True\<rparr>"
    using st string_turn_none [OF u n] by simp
  have tk: "take ?h ?xs = emit_now ?gm ?xs" using emit_now_prefix(1) by (metis append_eq_conv_conj)
  have "emit_now ?gm ?xs = emit_now ?gm ?xs @ emit_now ?gm (drop ?h ?xs)"
    using emit_now_drop [OF emit_now_prefix(3), of ?gm ?xs] emit_now_prefix(2) [of ?gm ?xs] unfolding tk by simp
  then have e: "emit_now ?gm (drop ?h ?xs) = []" by simp
  have u': "\<not> untrimmed ?gm s'" using s' by (simp add: untrimmed_def)
  have n': "find_sub (gm_param_close ?gm) (iv_buf s') = None" using find_sub_drop_None [OF n] s' by simp
  have m: "iv_mode s' = IString" using s' assms(1) by (simp add: emit_def)
  have "string_turn (pe_repr e) ?gm s' = (s', [], [], False)"
    using string_turn_none [OF u' n', of "pe_repr e"] e s' by (simp add: frag_items_def escape_text_def)
  then show ?thesis using m by (simp add: resting_def turn_string)
qed

lemma find_late:
  assumes "find_sub p xs = None" "find_sub p (xs @ ys) = Some c"
  shows "length xs - held_suffix [p] xs \<le> c"
  using assms earliest_late [of "[p]" xs ys c p "[p]"] by (simp add: earliest_def earlier_def)

lemma string_turn_of:
  "iv_mode s = IString \<Longrightarrow> iv_buf s \<noteq> [] \<Longrightarrow> iturn_of e fam tools fwd had s = ok (string_turn (pe_repr e) (grammar_of fam) s)"
  by (simp add: turn_string)

lemma untrimmed_more: "\<not> untrimmed gm s \<Longrightarrow> iv_buf s \<noteq> [] \<Longrightarrow> \<not> untrimmed gm (more ys s)"
  using trim_leading_keeps [of gm "iv_buf s" ys] by (auto simp: untrimmed_def)

lemma string_push_trims:
  assumes "iv_mode s = IString" "untrimmed (grammar_of fam) s" "ys \<noteq> []"
    "string_turn (pe_repr e) (grammar_of fam) s = (s', t, cs, on)" "runs core (iturn_of e fam tools fwd False) (more ys s') r"
  shows "runs core (iturn_of e fam tools fwd False) (more ys s) (prepend (text_atoms t @ item_atoms cs) r)"
proof -
  let ?gm = "grammar_of fam" let ?T = "iturn_of e fam tools fwd False" let ?tr = "trim_leading ?gm"
  have s': "s' = s\<lparr>iv_buf := ?tr (iv_buf s), iv_trimmed := (?tr (iv_buf s) \<noteq> [] \<or> gm_trim_single ?gm)\<rparr>" "t = []" "cs = []"
    using assms(4) string_turn_trims [OF assms(2)] by simp_all
  have b: "iv_buf s \<noteq> []" using assms(2) by (auto simp: untrimmed_def trim_leading_def)
  show ?thesis
  proof (cases "?tr (iv_buf s) \<noteq> [] \<or> gm_trim_single ?gm")
    case True
    have tr: "?tr (iv_buf s @ ys) = ?tr (iv_buf s) @ ys" using trim_leading_append [of ?gm "iv_buf s" ys] True b by blast
    then have "untrimmed ?gm (more ys s)" using assms(2) by (simp add: untrimmed_def)
    from string_turn_trims [OF this, of "pe_repr e"] have "?T (more ys s) = ok (more ys s', t, cs, True)"
      using tr True s' assms(1) b by (simp add: string_turn_of more_def)
    then show ?thesis using assms(5) by (rule runs_turn_on)
  next
    case False
    then have d: "dropWhile (\<lambda>c. c = 10) (iv_buf s) = []" and sg: "\<not> gm_trim_single ?gm" by (auto simp: trim_leading_def)
    have tr: "?tr (iv_buf s @ ys) = ?tr ys" using sg d by (simp add: trim_leading_def dropWhile_append)
    have "length (?tr ys) \<le> length ys" using length_dropWhile_le sg by (simp add: trim_leading_def)
    then have "?tr (iv_buf s @ ys) \<noteq> iv_buf s @ ys" using tr b by (metis add_le_same_cancel2 le_zero_eq length_0_conv length_append)
    then have u: "untrimmed ?gm (more ys s)" using assms(2) by (simp add: untrimmed_def)
    let ?x = "s\<lparr>iv_buf := ?tr ys, iv_trimmed := (?tr ys \<noteq> [])\<rparr>"
    have T1: "?T (more ys s) = ok (?x, [], [], True)"
      using string_turn_trims [OF u, of "pe_repr e"] tr sg assms(1) b by (simp add: string_turn_of)
    have ms: "more ys s' = s\<lparr>iv_buf := ys, iv_trimmed := False\<rparr>" using s' False by (simp add: more_def)
    show ?thesis
    proof (cases "?tr ys = ys")
      case False
      then have "untrimmed ?gm (more ys s')" by (simp add: ms untrimmed_def)
      from string_turn_trims [OF this, of "pe_repr e"] have "?T (more ys s') = ok (?x, [], [], True)"
        using sg assms(1,3) by (simp add: string_turn_of ms)
      then show ?thesis using runs_alike [of ?T "more ys s'" "more ys s" core r] T1 assms(5) s'(2,3) by simp
    next
      case True
      have "string_turn (pe_repr e) ?gm ?x = string_turn (pe_repr e) ?gm (more ys s')"
        using True assms(3) unfolding ms by (simp add: string_turn_def Let_def)
      then have "?T ?x = ?T (more ys s')" using assms(1,3) True by (simp add: string_turn_of ms)
      then have "runs core ?T ?x r" using runs_alike [of ?T "more ys s'" ?x core r] assms(5) by simp
      from runs_on [of ?T, OF T1 this] show ?thesis using s'(2,3) by simp
    qed
  qed
qed

lemma string_push:
  assumes "iv_mode s = IString" "iturn_of e fam tools fwd False s = ok (s', t, cs, on)" "ys \<noteq> []"
    "runs core (iturn_of e fam tools fwd False) (more ys s') r"
  shows "runs core (iturn_of e fam tools fwd False) (more ys s) (prepend (text_atoms t @ item_atoms cs) r)"
proof (cases "iv_buf s = [] \<or> untrimmed (grammar_of fam) s")
  case True
  then show ?thesis
  proof (cases "iv_buf s = []")
    case True
    then have "s' = s" "t = []" "cs = []" using assms(1,2) by (simp_all add: turn_string)
    then show ?thesis using assms(4) by simp
  next
    case False
    then show ?thesis using string_push_trims [OF assms(1) _ assms(3) _ assms(4)] True assms(1,2) by (simp add: string_turn_of)
  qed
next
  case False
  let ?gm = "grammar_of fam" let ?T = "iturn_of e fam tools fwd False" let ?cl = "gm_param_close (grammar_of fam)"
  have b: "iv_buf s \<noteq> []" and u: "\<not> untrimmed ?gm s" using False by auto
  have st: "string_turn (pe_repr e) ?gm s = (s', t, cs, on)" using assms(1,2) b by (simp add: string_turn_of)
  have u2: "\<not> untrimmed ?gm (more ys s)" using untrimmed_more [OF u b] .
  obtain xs where xs: "iv_buf s @ ys = xs" by blast
  have T1: "?T (more ys s) = ok (string_turn (pe_repr e) ?gm (more ys s))" using assms(1) b by (simp add: string_turn_of)
  show ?thesis
  proof (cases "find_sub ?cl (iv_buf s)")
    case (Some c)
    have "c \<le> length (iv_buf s)" "c + length ?cl \<le> length (iv_buf s)" using find_sub_bound [OF Some] by simp_all
    then have "?T (more ys s) = ok (more ys s', t, cs, True)"
      using T1 string_turn_some [OF u Some refl, of "pe_repr e"] st
        string_turn_some [OF u2, of c, OF _ refl, of "pe_repr e"] find_sub_append [OF Some, of ys]
      by (simp add: more_def)
    then show ?thesis using assms(4) by (rule runs_turn_on)
  next
    case None
    obtain en h where en: "en = emit_now ?gm (iv_buf s)" "h = length en" by blast
    have s': "s' = (emit (escape_text en) s)\<lparr>iv_buf := drop h (iv_buf s), iv_trimmed := True\<rparr>" "t = []" "cs = frag_items (escape_text en) s" "\<not> on"
      using st string_turn_none [OF u None, of "pe_repr e"] en by simp_all
    have h: "h \<le> length (iv_buf s) - held_suffix [?cl] (iv_buf s)" using emit_now_prefix(3) en by simp
    then have hb: "h \<le> length (iv_buf s)" by simp
    have tk: "take h (iv_buf s) = en" using emit_now_prefix(1) en by (metis append_eq_conv_conj)
    then have tx: "take h xs = en" using xs hb by auto
    have l10: "h = 0 \<or> last (take h xs) \<noteq> 10" using emit_now_prefix(2) [of ?gm "iv_buf s"] en tx by simp
    have ms: "more ys s' = (emit (escape_text en) s)\<lparr>iv_buf := drop h xs, iv_trimmed := True\<rparr>" "more ys s = s\<lparr>iv_buf := xs\<rparr>"
      using s'(1) hb xs by (auto simp: more_def)
    have "h < length xs" using assms(3) hb arg_cong [OF xs, of length] by (cases ys) simp_all
    then have "drop h xs \<noteq> []" by simp
    then have T2: "?T (more ys s') = ok (string_turn (pe_repr e) ?gm (more ys s'))" using assms(1) ms by (simp add: string_turn_of)
    have u3: "\<not> untrimmed ?gm (more ys s')" by (simp add: untrimmed_def ms)
    show ?thesis
    proof (cases "find_sub ?cl xs")
      case n: None
      have le: "h \<le> length xs - held_suffix [?cl] xs" using held_grows [of "iv_buf s" "[?cl]" ys] h xs by simp
      obtain en2 where en2: "en2 = emit_now ?gm (drop h xs)" by blast
      have e12: "emit_now ?gm xs = en @ en2" using emit_now_drop [OF le l10] tx en2 by simp
      have a: "?T (more ys s') = ok ((emit (escape_text (en @ en2)) s)\<lparr>iv_buf := drop (length (en @ en2)) xs, iv_trimmed := True\<rparr>, [], frag_items (escape_text en2) s, False)"
        using T2 string_turn_none [OF u3, of "pe_repr e"] find_sub_drop_None [OF n, of h] en2 en(2)
        by (simp add: ms escape_text_append add.commute)
      have b: "?T (more ys s) = ok ((emit (escape_text (en @ en2)) s)\<lparr>iv_buf := drop (length (en @ en2)) xs, iv_trimmed := True\<rparr>, [], frag_items (escape_text (en @ en2)) s, False)"
        using T1 string_turn_none [OF u2, of "pe_repr e"] n e12 by (simp add: ms)
      show ?thesis using runs_catch_up [of ?T, OF a b _ assms(4)] s'(2,3) by (simp add: escape_text_append)
    next
      case (Some c)
      have le: "h \<le> c" using find_late [OF None, of ys c] Some xs h by simp
      obtain tl2 where tl2: "tl2 = trim_trailing ?gm (take (c - h) (drop h xs))" by blast
      have tr: "trim_trailing ?gm (take c xs) = en @ tl2"
        using trim_trailing_append [of "take h xs" ?gm "take (c - h) (drop h xs)"] cut_at(1) [OF le, of xs] l10 tx tl2 by auto
      have f2: "find_sub ?cl (drop h xs) = Some (c - h)" using find_sub_drop [OF Some le] .
      have a: "?T (more ys s') = ok ((update_prev (pe_repr e) (emit (escape_text (en @ tl2) @ [34]) s))
          \<lparr>iv_buf := drop (c + length ?cl) xs, iv_mode := IInvoke, iv_trimmed := True\<rparr>, [], frag_items (escape_text tl2 @ [34]) s, True)"
        using T2 string_turn_some [OF u3, of "c - h" _ "pe_repr e", OF _ refl] f2 tl2 le by (simp add: ms escape_text_append)
      have b: "?T (more ys s) = ok ((update_prev (pe_repr e) (emit (escape_text (en @ tl2) @ [34]) s))
          \<lparr>iv_buf := drop (c + length ?cl) xs, iv_mode := IInvoke, iv_trimmed := True\<rparr>, [], frag_items (escape_text (en @ tl2) @ [34]) s, True)"
        using T1 string_turn_some [OF u2, of c _ "pe_repr e", OF _ refl] Some tr by (simp add: ms)
      show ?thesis using runs_catch_up [of ?T, OF a b _ assms(4)] s'(2,3) by (simp add: escape_text_append)
    qed
  qed
qed

text \<open>Other values\<close>

lemma value_push:
  assumes "iv_mode s \<in> {IBuffered, ISkipped}"
  shows "iturn_of e fam tools fwd False s = ok (s', t, cs, True) \<Longrightarrow> iturn_of e fam tools fwd False (more ys s) = ok (more ys s', t, cs, True)"
    "iturn_of e fam tools fwd False s = ok (s', t, cs, False) \<Longrightarrow> s' = s \<and> t = [] \<and> cs = []"
    "iturn_of e fam tools fwd False s = Inl err \<Longrightarrow> iturn_of e fam tools fwd False (more ys s) = Inl err"
proof -
  let ?cl = "gm_param_close (grammar_of fam)"
  have v: "iturn_of e fam tools fwd False s = value_turn e (grammar_of fam) s" "iturn_of e fam tools fwd False (more ys s) = value_turn e (grammar_of fam) (more ys s)"
    using assms by (simp_all only: turn_value more_simps)
  have b: "c \<le> length (iv_buf s) \<and> c + length ?cl \<le> length (iv_buf s) \<and> find_sub ?cl (iv_buf s @ ys) = Some c"
    if "find_sub ?cl (iv_buf s) = Some c" for c
    using find_sub_bound [OF that] find_sub_append [OF that, of ys] by simp
  show "s' = s \<and> t = [] \<and> cs = []" if "iturn_of e fam tools fwd False s = ok (s', t, cs, False)"
    using that unfolding v by (auto simp: value_turn_def Let_def rbind_eq_Inr split: option.splits if_splits)
  show "iturn_of e fam tools fwd False (more ys s) = ok (more ys s', t, cs, True)"
    if h: "iturn_of e fam tools fwd False s = ok (s', t, cs, True)"
  proof -
    obtain c where c: "find_sub ?cl (iv_buf s) = Some c" using h unfolding v by (auto simp: value_turn_def Let_def split: option.splits)
    show ?thesis
    proof (cases "iv_mode s = IBuffered")
      case True
      then obtain w where "convert_value e (grammar_of fam) (iv_config s) (iv_key s) (trim_trailing (grammar_of fam) (trim_leading (grammar_of fam) (take c (iv_buf s)))) = ok (Some w)"
        using h c unfolding v by (auto simp: value_turn_def Let_def rbind_eq_Inr split: option.splits)
      then show ?thesis using h b [OF c] c True unfolding v by (auto simp: value_turn_def Let_def more_def)
    next
      case False
      then show ?thesis using h b [OF c] c unfolding v by (auto simp: value_turn_def Let_def more_def)
    qed
  qed
  show "iturn_of e fam tools fwd False (more ys s) = Inl err" if h: "iturn_of e fam tools fwd False s = Inl err"
  proof -
    obtain c where c: "find_sub ?cl (iv_buf s) = Some c" using h unfolding v by (auto simp: value_turn_def Let_def split: option.splits)
    show ?thesis using h b [OF c] c unfolding v
      by (cases "convert_value e (grammar_of fam) (iv_config s) (iv_key s) (trim_trailing (grammar_of fam) (trim_leading (grammar_of fam) (take c (iv_buf s))))")
        (auto simp: value_turn_def Let_def split: option.splits if_splits)
  qed
qed

lemma value_runs:
  assumes "iv_mode s \<in> {IBuffered, ISkipped}" "iturn_of e fam tools fwd False s = ok (s', t, cs, on)"
    "runs core (iturn_of e fam tools fwd False) (more ys s') r"
  shows "runs core (iturn_of e fam tools fwd False) (more ys s) (prepend (text_atoms t @ item_atoms cs) r)"
proof (cases on)
  case True
  then show ?thesis using value_push(1) [OF assms(1), of e fam tools fwd s' t cs ys] assms by (intro runs_turn_on) simp_all
next
  case False
  then show ?thesis using value_push(2) [OF assms(1), of e fam tools fwd s' t cs] assms by simp
qed

lemma turn_waits:
  assumes "iturn_of e fam tools fwd False s = ok (s', t, cs, False)"
  shows "resting (iturn_of e fam tools fwd False) s'"
proof (cases "iv_mode s")
  case IIdle
  then show ?thesis using assms idle_rests by (simp add: turn_idle)
next
  case IString
  then show ?thesis using assms string_rests by blast
next
  case IBuffered
  then show ?thesis using assms value_push(2) [of s e fam tools fwd s' t cs] by (simp add: resting_def)
next
  case ISkipped
  then show ?thesis using assms value_push(2) [of s e fam tools fwd s' t cs] by (simp add: resting_def)
qed (use scan_turn_waits [OF _ assms] in \<open>simp_all add: scan_modes_def\<close>)

lemma turn_push:
  assumes "iturn_of e fam tools fwd False s = ok (s', t, cs, on)"
    "runs (settle_invoke fam) (iturn_of e fam tools fwd False) (more ys s') r"
  shows "runs (settle_invoke fam) (iturn_of e fam tools fwd False) (more ys s) (prepend (text_atoms t @ item_atoms cs) r)"
proof (cases "iv_mode s")
  case IIdle
  then show ?thesis using idle_push assms by (simp add: turn_idle)
next
  case IString
  show ?thesis
  proof (cases "ys = []")
    case True
    show ?thesis
    proof (cases on)
      case True
      then show ?thesis using runs_on [of "iturn_of e fam tools fwd False"] assms \<open>ys = []\<close> by simp
    next
      case False
      then have "r = ok (settle_invoke fam s', [])"
        using runs_unique [OF assms(2) [unfolded \<open>ys = []\<close> more_simps] quiet_runs] turn_waits assms(1) by simp
      then show ?thesis using runs_waits [of "iturn_of e fam tools fwd False"] assms(1) False \<open>ys = []\<close> by simp
    qed
  next
    case False
    then show ?thesis using string_push [OF IString assms(1)] assms(2) by blast
  qed
next
  case IBuffered
  then show ?thesis using value_runs assms by blast
next
  case ISkipped
  then show ?thesis using value_runs assms by blast
qed (use scan_turn_runs [OF _ assms] in \<open>simp_all add: scan_modes_def\<close>)

lemma turn_push_fails:
  assumes "iturn_of e fam tools fwd False s = Inl err"
  shows "iturn_of e fam tools fwd False (more ys s) = Inl err"
proof -
  have "iv_mode s \<in> {IBuffered, ISkipped}"
  proof (rule ccontr)
    assume "iv_mode s \<notin> {IBuffered, ISkipped}"
    then show False using assms by (cases "iv_mode s") (auto simp: iturn_def split: if_splits)
  qed
  then show ?thesis using value_push(3) assms by blast
qed

section \<open>How many blocks can still come\<close>

definition blocks_left :: "family \<Rightarrow> invoke \<Rightarrow> nat" where
  "blocks_left fam s = count_sub (gm_outer_open (grammar_of fam)) (iv_buf s) + (if iv_mode s = IIdle then 0 else 1)"

lemma count_drop_append: "count_sub p (drop k xs @ ys) \<le> count_sub p (xs @ ys)"
  using count_sub_drop [of p "min k (length xs)" "xs @ ys"] by (cases "k \<le> length xs") simp_all

lemma trim_leading_drop: "\<exists>k. trim_leading gm xs = drop k xs"
  by (metis drop0 dropWhile_eq_drop trim_leading_def)

lemma turn_buffer:
  assumes "iturn_of e fam tools fwd False s = ok (s', t, cs, on)"
  shows "(\<exists>k. iv_buf s' = drop k (iv_buf s)) \<and>
    (iv_mode s = IIdle \<longrightarrow> cs = [] \<and> (iv_mode s' = IIdle \<or>
      find_sub (gm_outer_open (grammar_of fam)) (iv_buf s) = Some 0 \<and> iv_buf s' = drop (length (gm_outer_open (grammar_of fam))) (iv_buf s))) \<and>
    (iv_mode s \<noteq> IIdle \<longrightarrow> t = []) \<and> (t = [] \<or> cs = [])"
proof (cases "iv_mode s = IIdle")
  case True
  then show ?thesis using assms by (auto simp: turn_idle idle_turn_def Let_def split: option.splits if_splits)
next
  case False
  have st: "\<exists>k. iv_buf s' = drop k (iv_buf s) \<and> t = []" if "string_turn (pe_repr e) (grammar_of fam) s = (s', t, cs, on)"
    using that trim_leading_drop [of "grammar_of fam" "iv_buf s"]
    by (auto simp: string_turn_def Let_def split: option.splits if_splits) (metis drop0)+
  have vt: "\<exists>k. iv_buf s' = drop k (iv_buf s) \<and> t = []" if "value_turn e (grammar_of fam) s = ok (s', t, cs, on)"
    using that by (auto simp: value_turn_def Let_def rbind_eq_Inr split: option.splits if_splits) (metis drop0)+
  have bt: "\<exists>k. iv_buf s' = drop k (iv_buf s) \<and> t = []" if "block_turn (grammar_of fam) tools fwd s = (s', t, cs, on)"
    using that by (auto simp: block_turn_def Let_def split: option.splits if_splits) (metis drop0)+
  have it: "\<exists>k. iv_buf s' = drop k (iv_buf s) \<and> t = []" if "invoke_turn (pe_repr e) (grammar_of fam) s = (s', t, cs, on)"
    using that by (auto simp: invoke_turn_def Let_def dest!: start_param_buf split: option.splits if_splits prod.splits) (metis drop0)+
  have "\<exists>k. iv_buf s' = drop k (iv_buf s) \<and> t = []"
    using assms False st vt bt it by (cases "iv_mode s") (auto simp: iturn_def split: if_splits)
  then show ?thesis using False by blast
qed

lemma turn_left:
  assumes "iturn_of e fam tools fwd False s = ok (s', t, cs, on)"
  shows "blocks_left fam (more ys s') \<le> blocks_left fam (more ys s)"
    "iv_mode s \<noteq> IIdle \<Longrightarrow> iv_mode s' = IIdle \<Longrightarrow> blocks_left fam (more ys s') < blocks_left fam (more ys s)"
proof -
  let ?o = "gm_outer_open (grammar_of fam)"
  note b = turn_buffer [OF assms]
  obtain k where k: "iv_buf s' = drop k (iv_buf s)" using b by blast
  have c: "count_sub ?o (iv_buf s' @ ys) \<le> count_sub ?o (iv_buf s @ ys)" unfolding k by (rule count_drop_append)
  show "blocks_left fam (more ys s') \<le> blocks_left fam (more ys s)"
  proof (cases "iv_mode s = IIdle \<and> iv_mode s' \<noteq> IIdle")
    case True
    then have f: "find_sub ?o (iv_buf s) = Some 0" "iv_buf s' = drop (length ?o) (iv_buf s)" using b by auto
    have "Suc (count_sub ?o (drop (length ?o) (iv_buf s @ ys))) \<le> count_sub ?o (iv_buf s @ ys)"
      using count_sub_found [OF markers_there(1) find_sub_append [OF f(1)]] by simp
    moreover have "length ?o \<le> length (iv_buf s)" using find_sub_bound [OF f(1)] by simp
    ultimately show ?thesis using True f(2) by (simp add: blocks_left_def)
  qed (use c in \<open>auto simp: blocks_left_def\<close>)
  show "blocks_left fam (more ys s') < blocks_left fam (more ys s)" if "iv_mode s \<noteq> IIdle" "iv_mode s' = IIdle"
    using c that by (simp add: blocks_left_def)
qed

interpretation invokes: stream_machine "iturn_of e fam tools fwd" more "\<lambda>s. length (iv_buf s)" "\<lambda>s. iv_mode s = IIdle" "blocks_left fam"
  "settle_invoke fam" "invoke_loop e fam tools fwd" "invoke_detector e fam tools fwd"
  for e fam tools fwd
proof
  fix ys zs s s' t cs on r had new err
  show "more [] s = s" by simp
  show "more zs (more ys s) = more (ys @ zs) s" by simp
  show "length (iv_buf s') < length (iv_buf s)" if "iturn_of e fam tools fwd False s = ok (s', t, cs, True)"
    using invoke_grammar.turn_shorter [OF grammar_laws that] .
  show "iturn_of e fam tools fwd True s = ok (s, [], [], False)" if "iv_mode s = IIdle" using that by (simp add: iturn_def)
  show "iturn_of e fam tools fwd True s = iturn_of e fam tools fwd False s" if "iv_mode s \<noteq> IIdle"
    using that by (cases "iv_mode s") (simp_all add: iturn_def)
  show "t = []" if "iv_mode s \<noteq> IIdle" "iturn_of e fam tools fwd False s = ok (s', t, cs, on)" using turn_buffer [OF that(2)] that(1) by blast
  show "t = [] \<or> cs = []" if "iturn_of e fam tools fwd False s = ok (s', t, cs, on)" using turn_buffer [OF that] by blast
  show "iv_mode s' \<noteq> IIdle" if "iturn_of e fam tools fwd False s = ok (s', t, cs, on)" "iv_mode s = IIdle" "cs \<noteq> []"
    using turn_buffer [OF that(1)] that(2,3) by blast
  show "blocks_left fam (more ys s) \<le> blocks_left fam (more (ys @ zs) s)"
    using count_sub_append [of "gm_outer_open (grammar_of fam)" "iv_buf s @ ys" zs] by (simp add: blocks_left_def)
  show "invoke_loop e fam tools fwd had s = rbind (iturn_of e fam tools fwd had s) (\<lambda>(s', t, cs, on).
      if on then rbind (invoke_loop e fam tools fwd (had \<or> cs \<noteq> []) s') (\<lambda>(s'', t', cs'). ok (s'', t @ t', cs @ cs')) else ok (s', t, cs))"
    by (subst invoke_loop.simps) (auto split: sum.splits)
  show "dt_increment (invoke_detector e fam tools fwd) new s = rbind (invoke_loop e fam tools fwd False (more new s)) (\<lambda>(s', t, cs). ok (s', streaming_result t cs))"
    by (simp add: invoke_detector_def invoke_increment_def more_def)
  show "resting (iturn_of e fam tools fwd False) s'" if "iturn_of e fam tools fwd False s = ok (s', t, cs, False)"
    using that by (rule turn_waits)
  show "runs (settle_invoke fam) (iturn_of e fam tools fwd False) (more ys s) (prepend (text_atoms t @ item_atoms cs) r)"
    if "iturn_of e fam tools fwd False s = ok (s', t, cs, on)" "runs (settle_invoke fam) (iturn_of e fam tools fwd False) (more ys s') r"
    using that by (rule turn_push)
  show "iturn_of e fam tools fwd False (more ys s) = Inl err" if "iturn_of e fam tools fwd False s = Inl err"
    using that by (rule turn_push_fails)
  show "runs (settle_invoke fam) (iturn_of e fam tools fwd False) (more ys (settle_invoke fam s)) r"
    if "runs (settle_invoke fam) (iturn_of e fam tools fwd False) (more ys s) r" using that by (simp only: settle_feed)
  show "runs (settle_invoke fam) (iturn_of e fam tools fwd False) (more ys s) r"
    if "runs (settle_invoke fam) (iturn_of e fam tools fwd False) (more ys (settle_invoke fam s)) r" using that by (simp only: settle_feed)
  show "blocks_left fam (more ys s') \<le> blocks_left fam (more ys s)" if "iturn_of e fam tools fwd False s = ok (s', t, cs, on)"
    using that by (rule turn_left)
  show "blocks_left fam (more ys s') < blocks_left fam (more ys s)"
    if "iturn_of e fam tools fwd False s = ok (s', t, cs, True)" "iv_mode s \<noteq> IIdle" "iv_mode s' = IIdle"
    using that by (rule turn_left)
qed

end
