(* ===== verification/InvokeProps.thy ===== *)
theory InvokeProps
  imports InvokeStream
begin

text \<open>
  The streaming parser of the invoke formats: whatever the chunks and the text, the argument fragments of
  every finished call join to a JSON object, the one the parser records.
\<close>

section \<open>Values that are printed are read back\<close>

text \<open>What the code relies on of Python: a printed float is a number literal that prints the same again, and
  \<open>ast.literal_eval\<close> yields values of that kind.\<close>

definition env_ok :: "py_env \<Rightarrow> bool" where
  "env_ok e \<longleftrightarrow> (\<forall>t. jval_ok (pe_repr e) (VFloat (pe_repr e t)))
    \<and> (\<forall>s t. pe_float e s = Some (Fractional t) \<longrightarrow> jval_ok (pe_repr e) (VFloat t))
    \<and> (\<forall>s v. pe_literal e s = Some (Some v) \<longrightarrow> jval_ok (pe_repr e) v)"

definition yields_ok :: "(utext \<Rightarrow> utext) \<Rightarrow> scanner \<Rightarrow> bool" where
  "yields_ok fl sv \<longleftrightarrow> (\<forall>xs v r. sv xs = Some (v, r) \<longrightarrow> jval_ok fl v)"

lemma yields_okD: "yields_ok fl sv \<Longrightarrow> sv xs = Some (v, r) \<Longrightarrow> jval_ok fl v"
  unfolding yields_ok_def by blast

lemma scan_items_ok: "yields_ok fl sv \<Longrightarrow> list_all (jval_ok fl) acc \<Longrightarrow> scan_items sv n acc xs = Some (v, r) \<Longrightarrow> jval_ok fl v"
proof (induction n arbitrary: acc xs)
  case (Suc n)
  then obtain w r' where w: "sv xs = Some (w, r')" by (auto split: option.splits)
  have "list_all (jval_ok fl) (acc @ [w])" using yields_okD [OF Suc.prems(1) w] Suc.prems(2) by simp
  with Suc.IH [OF Suc.prems(1) this] Suc.prems(3) w show ?case by (auto split: list.splits if_splits)
qed simp

lemma update_ok:
  "distinct (map fst kvs) \<and> list_all (\<lambda>(k, v). jval_ok fl v) kvs \<Longrightarrow> jval_ok fl w \<Longrightarrow>
    distinct (map fst (AList.update k w kvs)) \<and> list_all (\<lambda>(k, v). jval_ok fl v) (AList.update k w kvs)"
  by (induction kvs) (auto simp: update_keys)

lemma scan_members_ok:
  "yields_ok fl sv \<Longrightarrow> distinct (map fst acc) \<and> list_all (\<lambda>(k, v). jval_ok fl v) acc \<Longrightarrow> scan_members sv n acc xs = Some (v, r) \<Longrightarrow> jval_ok fl v"
proof (induction n arbitrary: acc xs)
  case (Suc n)
  then obtain k q w r' where w: "scan_key xs = Some (k, q)" "sv q = Some (w, r')" by (auto split: option.splits)
  note u = update_ok [OF Suc.prems(2) yields_okD [OF Suc.prems(1) w(2)], of k]
  from Suc.IH [OF Suc.prems(1) u] Suc.prems(3) w u show ?case by (auto split: list.splits if_splits)
qed simp

lemma float_constants:
  "scan_atom fl (codes ''NaN'') = Some (VFloat (codes ''NaN''), [])"
  "scan_atom fl (codes ''Infinity'') = Some (VFloat (codes ''Infinity''), [])"
  "scan_atom fl (codes ''-Infinity'') = Some (VFloat (codes ''-Infinity''), [])"
  by (simp_all add: scan_atom_def constants_def codes_def has_prefix_prefix)

lemma scan_atom_ok:
  assumes "\<forall>t. jval_ok fl (VFloat (fl t))"
  shows "yields_ok fl (scan_atom fl)"
proof -
  have c: "jval_ok fl v" if "(t, v) \<in> set constants" for t v
    using that constant_atoms float_constants by (auto simp: constants_def)
  have "jval_ok fl v" if h: "scan_atom fl xs = Some (v, r)" for xs v r
  proof (cases "find (\<lambda>(t, _). has_prefix t xs) constants")
    case None
    then show ?thesis using h assms by (auto simp: scan_atom_def scan_number_def Let_def split: if_splits)
  next
    case (Some tv)
    obtain t w where tv: "tv = (t, w)" by (cases tv)
    then have "(t, w) \<in> set constants" using Some find_in by metis
    then show ?thesis using h Some c tv by (simp add: scan_atom_def)
  qed
  then show ?thesis unfolding yields_ok_def by blast
qed

lemma scan_value_ok: "\<forall>t. jval_ok fl (VFloat (fl t)) \<Longrightarrow> yields_ok fl (scan_value fl n)"
proof (induction n)
  case (Suc n)
  have "jval_ok fl v" if h: "scan_value fl (Suc n) xs = Some (v, r)" for xs v r
    using h yields_okD [OF scan_atom_ok [OF Suc.prems]] scan_items_ok [OF Suc.IH [OF Suc.prems], of "[]"]
      scan_members_ok [OF Suc.IH [OF Suc.prems], of "[]"]
    by (auto split: if_splits list.splits)
  then show ?case unfolding yields_ok_def by blast
qed (simp add: yields_ok_def)

lemma loads_ok:
  assumes "\<forall>t. jval_ok fl (VFloat (fl t))" "loads fl xs = Some v"
  shows "jval_ok fl v"
proof -
  obtain r where "scan_value fl (Suc (length (skip_space xs))) (skip_space xs) = Some (v, r)"
    using assms(2) by (auto simp: loads_def raw_decode_def simp del: scan_value.simps split: option.splits if_splits)
  from yields_okD [OF scan_value_ok [OF assms(1)] this] show ?thesis .
qed

lemma convert_value_ok:
  assumes "env_ok e" "convert_value e gm config key raw = ok (Some v)"
  shows "jval_ok (pe_repr e) v"
proof -
  note l = loads_ok [of "pe_repr e"]
  show ?thesis using assms
    by (auto simp: convert_value_def convert_param_value_def convert_number_def parse_loose_json_value_def Let_def env_ok_def
        split: if_splits option.splits py_float.splits intro: l)
qed

section \<open>Objects written member by member\<close>

type_synonym members = "(utext \<times> jval) list"

definition args_text :: "members \<Rightarrow> utext" where
  "args_text kvs = (if kvs = [] then [] else 123 # join [44] (map (\<lambda>(k, v). member_text [] k (dumps v)) kvs))"

definition as_dict :: "members \<Rightarrow> members" where
  "as_dict kvs = foldl (\<lambda>d (k, v). AList.update k v d) [] kvs"

lemma join_snoc: "join sep (ts @ [t]) = (if ts = [] then t else join sep ts @ sep @ t)"
  by (cases ts) (simp_all add: join_def)

lemma args_text_snoc:
  "args_text (kvs @ [(k, v)]) = args_text kvs @ (if kvs = [] then [123] else [44]) @ dumps_text k @ 58 # dumps v"
  by (simp add: args_text_def join_snoc member_text_def)

lemma loads_args:
  assumes "list_all (\<lambda>(k, v). jval_ok fl v) kvs"
  shows "loads fl ((if kvs = [] then [123] else args_text kvs) @ [125]) = Some (VObj (as_dict kvs))"
proof -
  let ?t = "123 # join [44] (map (\<lambda>(k, t). member_text [] k t) (map (\<lambda>(k, v). (k, dumps v)) kvs)) @ [125]"
  have t: "(if kvs = [] then [123] else args_text kvs) @ [125] = ?t"
    by (simp add: args_text_def join_def comp_def split_def)
  obtain n where n: "length ?t < n" "foldr (\<lambda>(k, v) m. max (jdepth v) m) kvs 0 < n" by (meson max_less_iff_conj lessI)
  have "reads (scan_value fl n) (dumps v) v" if "(k, v) \<in> set kvs" for k v
    using dumps_read [of fl v n] assms that depth_members [OF that] n(2) by (auto simp: list_all_iff)
  then have l: "list_all2 (\<lambda>(k, t) (k', v). k' = k \<and> reads (scan_value fl n) t v) (map (\<lambda>(k, v). (k, dumps v)) kvs) kvs"
    unfolding list_all2_conv_all_nth by (auto split: prod.splits) (metis nth_mem)
  have "reads (scan_value fl (Suc n)) ?t (VObj (as_dict kvs))"
    using reads_object [OF l, of "[]" "[]"] by (simp add: as_dict_def)
  then have "scan_value fl (Suc n) ?t = Some (VObj (as_dict kvs), [])" unfolding reads_def by (metis append_Nil2 number_end_simps(4))
  then have "raw_decode fl ?t = Some (VObj (as_dict kvs), [])"
    using scan_value_fuel [of ?t "Suc (length ?t)" "Suc n" fl] n(1) unfolding raw_decode_def by simp
  moreover have "skip_space ?t = ?t" by (simp add: skip_space_def json_space_def)
  ultimately show ?thesis unfolding t by (simp add: loads_def skip_space_def)
qed

section \<open>The ledger of a call\<close>

definition ledger :: "invoke \<Rightarrow> int \<Rightarrow> utext" where
  "ledger s i = (if 0 \<le> i \<and> nat i < length (iv_streamed s) then iv_streamed s ! nat i else [])"

text \<open>What the client joins for a call\<close>

definition part_text :: "int \<Rightarrow> call_item list \<Rightarrow> utext" where
  "part_text i cs = concat (map ci_parameters (filter (\<lambda>c. ci_index c = i) cs))"

definition finished :: "py_env \<Rightarrow> invoke \<Rightarrow> int \<Rightarrow> bool" where
  "finished e s i \<longleftrightarrow> (\<exists>kvs. loads (pe_repr e) (ledger s i) = Some (VObj kvs) \<and> recorded_arguments (iv_prev s) i = Some (VObj kvs))"

definition call_open :: "invoke \<Rightarrow> bool" where
  "call_open s \<longleftrightarrow> 0 \<le> iv_id s \<and> nat (iv_id s) < length (iv_streamed s) \<and> nat (iv_id s) < length (iv_prev s) \<and> iv_prev s ! nat (iv_id s) \<noteq> None"

abbreviation members_ok :: "py_env \<Rightarrow> members \<Rightarrow> bool" where
  "members_ok e kvs \<equiv> list_all (\<lambda>(k, v). jval_ok (pe_repr e) v) kvs"

definition lead_of :: "members \<Rightarrow> utext" where
  "lead_of kvs = (if kvs = [] then [123] else [44])"

definition shape :: "py_env \<Rightarrow> invoke \<Rightarrow> bool" where
  "shape e s \<longleftrightarrow>
    (case iv_mode s of
       IInvoke \<Rightarrow> call_open s \<and> (\<exists>kvs. members_ok e kvs \<and> ledger s (iv_id s) = args_text kvs \<and> iv_started s = (kvs \<noteq> []))
     | IBuffered \<Rightarrow> call_open s \<and> iv_started s
         \<and> (\<exists>kvs. members_ok e kvs \<and> ledger s (iv_id s) = args_text kvs \<and> iv_lead s = lead_of kvs)
     | IString \<Rightarrow> call_open s \<and> iv_started s
         \<and> (\<exists>kvs k t. members_ok e kvs \<and> ledger s (iv_id s) = args_text kvs @ lead_of kvs @ dumps_text k @ 58 # 34 # escape_text t)
     | _ \<Rightarrow> ledger s (iv_id s) = [])"

definition call_inv :: "py_env \<Rightarrow> invoke \<Rightarrow> bool" where
  "call_inv e s \<longleftrightarrow> - 1 \<le> iv_id s \<and> (\<forall>i. 0 \<le> i \<and> i < iv_id s \<longrightarrow> finished e s i) \<and> (\<forall>i > iv_id s. ledger s i = []) \<and> shape e s"

lemma part_simps [simp]:
  "part_text i [] = []" "part_text i (cs @ ds) = part_text i cs @ part_text i ds"
  "part_text i (frag_items f s) = (if i = iv_id s then f else [])" "part_text i [call_start j n] = []"
  by (simp_all add: part_text_def frag_items_def)

lemma ledger_emit: "call_open s \<Longrightarrow> ledger (emit f s) i = ledger s i @ (if i = iv_id s then f else [])"
  by (auto simp: ledger_def emit_def call_open_def nth_list_update)

lemma ledger_simps [simp]:
  "ledger (update_prev fl s) = ledger s" "ledger (open_invoke tools n s) = ledger s"
  "ledger (s\<lparr>iv_buf := b\<rparr>) = ledger s" "ledger (s\<lparr>iv_mode := m\<rparr>) = ledger s" "ledger (s\<lparr>iv_trimmed := x\<rparr>) = ledger s"
  "ledger (s\<lparr>iv_lead := l\<rparr>) = ledger s" "ledger (s\<lparr>iv_key := k\<rparr>) = ledger s" "ledger (s\<lparr>iv_started := x\<rparr>) = ledger s"
  "ledger (s\<lparr>iv_id := j\<rparr>) = ledger s"
  by (auto simp: ledger_def fun_eq_iff update_prev_def open_invoke_def Let_def split: option.splits jval.splits)

lemma pad_nth: "j < length (pad_to x n xs) \<Longrightarrow> pad_to x n xs ! j = (if j < length xs then xs ! j else x)"
  by (simp add: pad_to_def nth_append)

lemma pad_length [simp]: "n < length (pad_to x n xs)" "j < length xs \<Longrightarrow> j < length (pad_to x n xs)"
  by (simp_all add: pad_to_def)

lemma ledger_pad [simp]: "ledger (s\<lparr>iv_streamed := pad_to [] n (iv_streamed s)\<rparr>) = ledger s"
  by (auto simp: ledger_def fun_eq_iff pad_nth)

lemma ledger_enter [simp]: "ledger (enter_invoke s) = ledger s"
  by (auto simp: ledger_def fun_eq_iff pad_nth enter_invoke_def Let_def)

lemma ledger_same: "iv_streamed s' = iv_streamed s \<Longrightarrow> ledger s' = ledger s"
  by (simp add: ledger_def fun_eq_iff)

section \<open>Every turn keeps the ledgers\<close>

lemma finished_frame:
  "ledger s' i = ledger s i \<Longrightarrow> recorded_arguments (iv_prev s') i = recorded_arguments (iv_prev s) i \<Longrightarrow> finished e s' i = finished e s i"
  by (simp add: finished_def)

lemma recorded_enter: "recorded_arguments (iv_prev s) i = Some v \<Longrightarrow> recorded_arguments (iv_prev (enter_invoke s)) i = Some v"
  by (auto simp: recorded_arguments_def enter_invoke_def Let_def pad_nth split: if_splits)

lemma recorded_other:
  "i < iv_id s \<Longrightarrow> recorded_arguments (iv_prev (open_invoke tools n s)) i = recorded_arguments (iv_prev s) i"
  "i < iv_id s \<Longrightarrow> recorded_arguments (iv_prev (update_prev fl s)) i = recorded_arguments (iv_prev s) i"
  by (auto simp: recorded_arguments_def open_invoke_def update_prev_def Let_def nth_list_update split: option.splits jval.splits)

lemma same_fields [simp]:
  "iv_prev (emit f s) = iv_prev s" "iv_id (emit f s) = iv_id s" "iv_mode (emit f s) = iv_mode s" "iv_started (emit f s) = iv_started s"
  "iv_id (update_prev fl s) = iv_id s" "iv_streamed (update_prev fl s) = iv_streamed s" "iv_started (update_prev fl s) = iv_started s"
  "iv_id (open_invoke tools n s) = iv_id s" "iv_streamed (open_invoke tools n s) = iv_streamed s"
  "iv_mode (open_invoke tools n s) = IInvoke" "iv_started (open_invoke tools n s) = False"
  "iv_id (enter_invoke s) = (if iv_id s = - 1 then 0 else iv_id s)" "iv_mode (enter_invoke s) = iv_mode s"
  by (auto simp: emit_def update_prev_def open_invoke_def enter_invoke_def Let_def split: option.splits jval.splits)

lemma open_kept [simp]:
  "call_open (emit f s) = call_open s" "call_open (update_prev fl s) = call_open s"
  by (auto simp: call_open_def emit_def update_prev_def Let_def nth_list_update split: option.splits jval.splits)

text \<open>A change of the open call alone\<close>

lemma inv_step:
  assumes "call_inv e s" "iv_id s' = iv_id s" "\<And>i. i \<noteq> iv_id s \<Longrightarrow> ledger s' i = ledger s i"
    "\<And>i. i < iv_id s \<Longrightarrow> recorded_arguments (iv_prev s') i = recorded_arguments (iv_prev s) i" "shape e s'"
  shows "call_inv e s'"
  using assms finished_frame [of s' _ s] by (auto simp: call_inv_def)

lemma inv_quiet: "call_inv e s \<Longrightarrow> call_inv e (s\<lparr>iv_buf := b\<rparr>)"
  by (auto simp: call_inv_def shape_def call_open_def finished_def split: imode.splits)

lemma inv_skipping:
  assumes "call_inv e s" "iv_mode s \<notin> {IInvoke, IString, IBuffered}" "m \<notin> {IInvoke, IString, IBuffered}"
  shows "call_inv e (s\<lparr>iv_buf := b, iv_mode := m\<rparr>)"
proof (rule inv_step [OF assms(1)])
  show "shape e (s\<lparr>iv_buf := b, iv_mode := m\<rparr>)" using assms by (auto simp: call_inv_def shape_def split: imode.splits)
qed simp_all

lemma enter_inv:
  assumes "call_inv e s" "iv_mode s = IBlock"
  shows "call_inv e (enter_invoke s)" "ledger s (iv_id (enter_invoke s)) = []"
proof -
  have l: "ledger s (iv_id s) = []" using assms by (simp add: call_inv_def shape_def)
  then show k: "ledger s (iv_id (enter_invoke s)) = []" using assms(1) by (auto simp: call_inv_def)
  show "call_inv e (enter_invoke s)"
    using assms k recorded_enter unfolding call_inv_def shape_def finished_def by auto
qed

lemma open_inv:
  assumes "call_inv e s" "iv_mode s = IBlock"
  shows "call_inv e ((open_invoke tools name (enter_invoke s))\<lparr>iv_buf := b\<rparr>)"
proof -
  let ?s = "(open_invoke tools name (enter_invoke s))\<lparr>iv_buf := b\<rparr>"
  note n = enter_inv [OF assms]
  have "call_open ?s" using assms(1) by (auto simp: call_open_def open_invoke_def enter_invoke_def Let_def call_inv_def)
  then have "shape e ?s" using n(2) by (auto simp: shape_def args_text_def intro!: exI [of _ "[]"])
  then show ?thesis using recorded_other(1) by (intro inv_step [OF n(1)]) simp_all
qed

lemma update_prev_records:
  assumes "call_open s" "loads fl (ledger s (iv_id s)) = Some (VObj kvs)"
  shows "recorded_arguments (iv_prev (update_prev fl s)) (iv_id s) = Some (VObj kvs)"
proof -
  have "iv_streamed s ! nat (iv_id s) = ledger s (iv_id s)" using assms(1) by (simp add: call_open_def ledger_def)
  then show ?thesis using assms by (auto simp: update_prev_def ledger_value_def recorded_arguments_def call_open_def)
qed

lemma close_inv:
  assumes "call_inv e s" "iv_mode s = IInvoke"
  shows "call_inv e ((close_invoke (pe_repr e) s)\<lparr>iv_buf := b, iv_mode := IBlock\<rparr>)"
    "ledger (close_invoke (pe_repr e) s) i = ledger s i @ part_text i (frag_items (if iv_started s then codes ''}'' else codes ''{}'') s)"
proof -
  obtain kvs where k: "call_open s" "members_ok e kvs" "ledger s (iv_id s) = args_text kvs" "iv_started s = (kvs \<noteq> [])"
    using assms by (auto simp: call_inv_def shape_def)
  obtain f where f: "f = (if iv_started s then codes ''}'' else codes ''{}'')" by blast
  let ?s = "update_prev (pe_repr e) (emit f s)"
  have c: "close_invoke (pe_repr e) s = ?s\<lparr>iv_id := iv_id s + 1, iv_streamed := pad_to [] (nat (iv_id s + 1)) (iv_streamed ?s)\<rparr>"
    by (simp add: close_invoke_def f Let_def)
  have l: "ledger (close_invoke (pe_repr e) s) = ledger (emit f s)"
    unfolding c using ledger_pad [where s = "?s\<lparr>iv_id := iv_id s + 1\<rparr>" and n = "nat (iv_id s + 1)"] by (simp del: ledger_pad)
  show "ledger (close_invoke (pe_repr e) s) i = ledger s i @ part_text i (frag_items (if iv_started s then codes ''}'' else codes ''{}'') s)"
    unfolding l f [symmetric] using ledger_emit [OF k(1), of f i] by auto
  have "f = (if kvs = [] then [123] else []) @ [125]" using f k(4) by (simp add: codes_def)
  then have "ledger (emit f s) (iv_id s) = (if kvs = [] then [123] else args_text kvs) @ [125]"
    using ledger_emit [OF k(1), of f "iv_id s"] k(3) by (simp add: args_text_def)
  then have v: "loads (pe_repr e) (ledger (emit f s) (iv_id s)) = Some (VObj (as_dict kvs))" using loads_args [OF k(2)] by simp
  have "call_open (emit f s)" using k(1) by simp
  from update_prev_records [OF this] v have "recorded_arguments (iv_prev ?s) (iv_id s) = Some (VObj (as_dict kvs))" by simp
  then have closed: "finished e (close_invoke (pe_repr e) s) (iv_id s)"
    using v unfolding finished_def l by (simp add: c)
  have "finished e (close_invoke (pe_repr e) s) i" if "0 \<le> i" "i < iv_id s + 1" for i
  proof (cases "i = iv_id s")
    case False
    then have "i < iv_id s" using that by simp
    moreover have "ledger (close_invoke (pe_repr e) s) i = ledger s i" using False ledger_emit [OF k(1), of f i] unfolding l by simp
    moreover have "recorded_arguments (iv_prev (close_invoke (pe_repr e) s)) i = recorded_arguments (iv_prev s) i"
      using recorded_other(2) [of i "emit f s"] \<open>i < iv_id s\<close> by (simp add: c)
    moreover have "finished e s i" using assms(1) that(1) \<open>i < iv_id s\<close> by (simp add: call_inv_def)
    ultimately show ?thesis by (simp add: finished_def)
  qed (use closed in simp)
  moreover have "ledger (close_invoke (pe_repr e) s) i = []" if "i > iv_id s" for i
    using that ledger_emit [OF k(1), of f i] assms(1) unfolding l by (simp add: call_inv_def)
  moreover have "iv_id (close_invoke (pe_repr e) s) = iv_id s + 1" by (simp add: c)
  ultimately show "call_inv e ((close_invoke (pe_repr e) s)\<lparr>iv_buf := b, iv_mode := IBlock\<rparr>)"
    using assms(1) by (auto simp: call_inv_def shape_def finished_def)
qed

lemma start_inv:
  assumes "call_inv e s" "iv_mode s = IInvoke" "start_param gm key s = (s', cs)"
  shows "call_inv e s'" "ledger s' i = ledger s i @ part_text i cs"
proof -
  obtain kvs where k: "call_open s" "members_ok e kvs" "ledger s (iv_id s) = args_text kvs" "iv_started s = (kvs \<noteq> [])"
    using assms by (auto simp: call_inv_def shape_def)
  have lead: "param_lead s = lead_of kvs" using k(4) by (simp add: param_lead_def lead_of_def codes_def)
  let ?s0 = "s\<lparr>iv_key := key, iv_started := True\<rparr>"
  have o: "call_open ?s0" using k(1) by (simp add: call_open_def)
  let ?f = "lead_of kvs @ dumps_text key @ codes '':'' @ [34]"
  consider (str) "s' = (emit ?f ?s0)\<lparr>iv_trimmed := False, iv_mode := IString\<rparr>" "cs = frag_items ?f ?s0"
    | (buffered) "s' = ?s0\<lparr>iv_lead := lead_of kvs, iv_mode := IBuffered\<rparr>" "cs = []"
    using assms(3) lead by (auto simp: start_param_def Let_def split: if_splits)
  then have "ledger s' i = ledger s i @ part_text i cs \<and> iv_id s' = iv_id s \<and> iv_prev s' = iv_prev s \<and> shape e s'" for i
  proof cases
    case str
    have "ledger s' (iv_id s) = args_text kvs @ lead_of kvs @ dumps_text key @ 58 # 34 # escape_text []"
      using str(1) ledger_emit [OF o, of ?f "iv_id s"] k(3) by (simp add: codes_def escape_text_def)
    moreover have "call_open s'" using o str(1) by (simp add: call_open_def emit_def)
    ultimately have "shape e s'" using k(2) str(1) by (auto simp: shape_def)
    then show ?thesis using str ledger_emit [OF o, of ?f i] by simp
  next
    case buffered
    then show ?thesis using k by (auto simp: shape_def call_open_def ledger_def)
  qed
  then have a: "\<And>i. ledger s' i = ledger s i @ part_text i cs" "iv_id s' = iv_id s" "iv_prev s' = iv_prev s" "shape e s'" by blast+
  then show "ledger s' i = ledger s i @ part_text i cs" by simp
  have "part_text i cs = []" if "i \<noteq> iv_id s" for i
    using that assms(3) by (auto simp: start_param_def Let_def split: if_splits)
  then show "call_inv e s'" using a by (intro inv_step [OF assms(1)]) simp_all
qed

lemma escape_append: "escape_text (s @ t) = escape_text s @ escape_text t"
  by (simp add: escape_text_def)

lemma args_text_more: "args_text (kvs @ [(k, v)]) = args_text kvs @ lead_of kvs @ dumps_text k @ 58 # dumps v"
  by (simp add: args_text_snoc lead_of_def)

text \<open>A change that only moves the buffer, and one that emits a fragment\<close>

lemma inv_trimmed: "call_inv e s \<Longrightarrow> call_inv e (s\<lparr>iv_buf := b, iv_trimmed := x\<rparr>)"
  by (auto simp: call_inv_def shape_def call_open_def finished_def split: imode.splits)

lemma inv_emit:
  assumes "call_inv e s" "call_open s" "iv_id s' = iv_id s" "iv_streamed s' = iv_streamed (emit f s)" "iv_prev s' = iv_prev s \<or> iv_prev s' = iv_prev (update_prev fl (emit f s))"
    "shape e s'"
  shows "call_inv e s'" "ledger s' i = ledger s i @ part_text i (frag_items f s)"
proof -
  have l: "ledger s' = ledger (emit f s)" using assms(4) by (rule ledger_same)
  show "ledger s' i = ledger s i @ part_text i (frag_items f s)" unfolding l using ledger_emit [OF assms(2)] by simp
  have "recorded_arguments (iv_prev s') i = recorded_arguments (iv_prev s) i" if "i < iv_id s" for i
    using assms(5) recorded_other(2) [of i "emit f s" fl] that by (elim disjE; simp only: same_fields)
  then show "call_inv e s'"
    using assms(3,6) l ledger_emit [OF assms(2), of f] by (intro inv_step [OF assms(1)]) simp_all
qed

lemma string_turn_inv:
  assumes "call_inv e s" "iv_mode s = IString" "string_turn fl gm s = (s', t, cs, on)"
  shows "call_inv e s' \<and> (\<forall>i. ledger s' i = ledger s i @ part_text i cs)"
proof -
  obtain kvs k x where k: "call_open s" "iv_started s" "members_ok e kvs"
    "ledger s (iv_id s) = args_text kvs @ lead_of kvs @ dumps_text k @ 58 # 34 # escape_text x"
    using assms by (auto simp: call_inv_def shape_def)
  let ?s = "s\<lparr>iv_trimmed := True\<rparr>"
  have o: "call_open ?s" using k(1) by (simp add: call_open_def)
  have inv: "call_inv e ?s" using inv_trimmed [OF assms(1), of True "iv_buf s"] by simp
  consider (trim) b y where "s' = s\<lparr>iv_buf := b, iv_trimmed := y\<rparr>" "cs = []"
    | (waits) "s' = ?s" "cs = []"
    | (part) p b where "s' = (emit (escape_text p) ?s)\<lparr>iv_buf := b\<rparr>" "cs = frag_items (escape_text p) ?s"
    | (ends) p b where "s' = (update_prev fl (emit (escape_text p @ [34]) ?s))\<lparr>iv_buf := b, iv_mode := IInvoke\<rparr>"
        "cs = frag_items (escape_text p @ [34]) ?s"
    using assms(3) unfolding string_turn_def Let_def by (simp split: if_splits option.splits) blast+
  then show ?thesis
  proof cases
    case trim
    then show ?thesis using inv_trimmed [OF assms(1)] by (simp add: ledger_def)
  next
    case waits
    then show ?thesis using inv by simp
  next
    case part
    have "ledger s' (iv_id s) = args_text kvs @ lead_of kvs @ dumps_text k @ 58 # 34 # escape_text (x @ p)"
      using part(1) ledger_emit [OF o, of "escape_text p" "iv_id s"] k(4) by (simp add: escape_append)
    moreover have "call_open s'" using o part(1) by (simp add: call_open_def emit_def)
    moreover have m: "iv_mode s' = IString" "iv_started s'" "iv_id s' = iv_id s" using part(1) assms(2) k(2) by simp_all
    ultimately have "shape e s'" using k(3) unfolding shape_def by auto
    with inv_emit [OF inv o, of s' "escape_text p" fl] part show ?thesis by simp
  next
    case ends
    have "ledger s' (iv_id s) = args_text (kvs @ [(k, VText (x @ p))])"
      using ends(1) ledger_emit [OF o, of "escape_text p @ [34]" "iv_id s"] k(4) by (simp add: escape_append args_text_more dumps_text_def)
    moreover have "members_ok e (kvs @ [(k, VText (x @ p))])" using k(3) by simp
    moreover have "call_open (update_prev fl (emit (escape_text p @ [34]) ?s))" using o by simp
    then have "call_open s'" using ends(1) by (simp add: call_open_def)
    moreover have "iv_mode s' = IInvoke" "iv_started s'" "iv_id s' = iv_id s" using ends(1) k(2) by simp_all
    ultimately have "shape e s'" unfolding shape_def by (auto intro!: exI [of _ "kvs @ [(k, VText (x @ p))]"])
    with inv_emit [OF inv o, of s' "escape_text p @ [34]" fl] ends show ?thesis by simp
  qed
qed

lemma value_turn_inv:
  assumes "call_inv e s" "iv_mode s \<in> {IBuffered, ISkipped}" "value_turn e gm s = ok (s', t, cs, on)" "env_ok e"
  shows "call_inv e s' \<and> (\<forall>i. ledger s' i = ledger s i @ part_text i cs)"
proof (cases "find_sub (gm_param_close gm) (iv_buf s) \<noteq> None \<and> iv_mode s = IBuffered")
  case False
  then show ?thesis using assms inv_skipping [OF assms(1), of IInvokeSkip]
    by (auto simp: value_turn_def Let_def split: option.splits)
next
  case True
  then obtain c v where c: "convert_value e gm (iv_config s) (iv_key s) (trim_trailing gm (trim_leading gm (take c (iv_buf s)))) = ok (Some v)"
    "find_sub (gm_param_close gm) (iv_buf s) = Some c"
    using assms(3) by (auto simp: value_turn_def Let_def rbind_eq_Inr split: option.splits)
  have v: "jval_ok (pe_repr e) v" using convert_value_ok [OF assms(4) c(1)] .
  obtain kvs where k: "call_open s" "iv_started s" "members_ok e kvs" "ledger s (iv_id s) = args_text kvs" "iv_lead s = lead_of kvs"
    using assms(1) True by (auto simp: call_inv_def shape_def)
  let ?f = "iv_lead s @ dumps_text (iv_key s) @ codes '':'' @ dumps v"
  have s': "s' = (update_prev (pe_repr e) (emit ?f s))\<lparr>iv_buf := drop (c + length (gm_param_close gm)) (iv_buf s), iv_mode := IInvoke\<rparr>"
    "cs = frag_items ?f s"
    using assms(3) c True by (simp_all add: value_turn_def Let_def)
  have "ledger s' (iv_id s) = args_text (kvs @ [(iv_key s, v)])"
    using s'(1) ledger_emit [OF k(1), of ?f "iv_id s"] k(4,5) by (simp add: args_text_more codes_def)
  moreover have "call_open (update_prev (pe_repr e) (emit ?f s))" using k(1) by simp
  then have "call_open s'" using s'(1) by (simp add: call_open_def)
  moreover have "members_ok e (kvs @ [(iv_key s, v)])" "iv_mode s' = IInvoke" "iv_started s'" "iv_id s' = iv_id s"
    using k(2,3) v s'(1) by simp_all
  ultimately have "shape e s'" unfolding shape_def by (auto intro!: exI [of _ "kvs @ [(iv_key s, v)]"])
  with inv_emit [OF assms(1) k(1), of s' ?f "pe_repr e"] s' show ?thesis by simp
qed

lemma open_buf: "open_invoke tools n (s\<lparr>iv_buf := b\<rparr>) = (open_invoke tools n s)\<lparr>iv_buf := b\<rparr>"
  by (simp add: open_invoke_def)

lemma block_turn_inv:
  assumes "call_inv e s" "iv_mode s = IBlock" "block_turn gm tools fwd s = (s', t, cs, on)"
  shows "call_inv e s' \<and> (\<forall>i. ledger s' i = ledger s i @ part_text i cs)"
proof -
  have skip: "call_inv e ((enter_invoke s)\<lparr>iv_buf := b, iv_mode := IInvokeSkip\<rparr>)" for b
    using inv_skipping [OF enter_inv(1) [OF assms(1,2)], of IInvokeSkip b] assms(2) by simp
  show ?thesis
    using assms(3) inv_skipping [OF assms(1), of IIdle] inv_quiet [OF assms(1)] skip open_inv [OF assms(1,2)] assms(1,2)
    by (auto simp: block_turn_def Let_def open_buf split: if_splits option.splits)
qed

lemma invoke_turn_inv:
  assumes "call_inv e s" "iv_mode s \<in> {IInvoke, IInvokeSkip}" "invoke_turn (pe_repr e) gm s = (s', t, cs, on)"
  shows "call_inv e s' \<and> (\<forall>i. ledger s' i = ledger s i @ part_text i cs)"
proof -
  have q: "call_inv e (s\<lparr>iv_buf := b\<rparr>)" for b using inv_quiet [OF assms(1)] .
  have st: "call_inv e s'' \<and> (\<forall>i. ledger s'' i = ledger s i @ part_text i ds)"
    if "start_param gm k (s\<lparr>iv_buf := b\<rparr>) = (s'', ds)" "iv_mode s = IInvoke" for k b s'' ds
    using start_inv [OF q _ that(1)] that(2) by simp
  show ?thesis
  proof (cases "iv_mode s = IInvoke")
    case True
    then show ?thesis
      using assms(1,3) True close_inv [OF assms(1) True] q st
      by (auto simp: invoke_turn_def Let_def simp del: part_simps(3) split: if_splits option.splits prod.splits)
  next
    case False
    then have m: "iv_mode s = IInvokeSkip" using assms(2) by simp
    then show ?thesis using assms(1,3) q inv_skipping [OF assms(1), of IBlock] inv_skipping [OF assms(1), of ISkipped]
      by (auto simp: invoke_turn_def Let_def split: if_splits option.splits)
  qed
qed

lemma idle_turn_inv:
  assumes "call_inv e s" "iv_mode s = IIdle" "idle_turn gm s = (s', t, cs, on)"
  shows "call_inv e s' \<and> (\<forall>i. ledger s' i = ledger s i @ part_text i cs)"
  using assms inv_quiet [OF assms(1)] inv_skipping [OF assms(1), of IBlock]
  by (auto simp: idle_turn_def Let_def split: if_splits option.splits)

lemma iturn_inv:
  assumes "call_inv e s" "env_ok e" "iturn e gm tools fwd had s = ok (s', t, cs, on)"
  shows "call_inv e s' \<and> (\<forall>i. ledger s' i = ledger s i @ part_text i cs)"
proof (cases "iv_buf s = [] \<or> iv_mode s = IIdle \<and> had")
  case True
  then show ?thesis using assms by (auto simp: iturn_def split: if_splits)
next
  case False
  show ?thesis
  proof (cases "iv_mode s")
    case IIdle
    then show ?thesis using idle_turn_inv [OF assms(1)] assms(3) False by (simp add: iturn_def)
  next
    case IBlock
    then show ?thesis using block_turn_inv [OF assms(1)] assms(3) False by (simp add: iturn_def)
  next
    case IString
    then show ?thesis using string_turn_inv [OF assms(1)] assms(3) False by (simp add: iturn_def)
  next
    case IInvoke
    then show ?thesis using invoke_turn_inv [OF assms(1)] assms(3) False by (simp add: iturn_def)
  next
    case IInvokeSkip
    then show ?thesis using invoke_turn_inv [OF assms(1)] assms(3) False by (simp add: iturn_def)
  next
    case IBuffered
    then show ?thesis using value_turn_inv [OF assms(1) _ _ assms(2)] assms(3) False by (simp add: iturn_def)
  next
    case ISkipped
    then show ?thesis using value_turn_inv [OF assms(1) _ _ assms(2)] assms(3) False by (simp add: iturn_def)
  qed
qed

lemma invoke_loop_inv:
  assumes "env_ok e"
  shows "call_inv e s \<Longrightarrow> invoke_loop e fam tools fwd had s = ok (s', t, cs)
    \<Longrightarrow> call_inv e s' \<and> (\<forall>i. ledger s' i = ledger s i @ part_text i cs)"
  using assms
proof (induction e fam tools fwd had s arbitrary: s' t cs rule: invoke_loop.induct)
  case (1 e fam tools fwd had s)
  obtain s1 t1 cs1 on where n: "iturn e (grammar_of fam) tools fwd had s = ok (s1, t1, cs1, on)"
    using "1.prems"(2) by (subst (asm) invoke_loop.simps) (auto split: sum.splits)
  note i1 = iturn_inv [OF "1.prems"(1,3) n]
  show ?case
  proof (cases on)
    case False
    then show ?thesis using "1.prems"(2) n i1 by (subst (asm) invoke_loop.simps) simp
  next
    case True
    then obtain t2 cs2 where r: "invoke_loop e fam tools fwd (had \<or> cs1 \<noteq> []) s1 = ok (s', t2, cs2)" "cs = cs1 @ cs2"
      using "1.prems"(2) n by (subst (asm) invoke_loop.simps) (auto simp: rbind_eq_Inr)
    have "call_inv e s' \<and> (\<forall>i. ledger s' i = ledger s1 i @ part_text i cs2)"
      by (rule "1.IH" [OF n refl refl refl True _ r(1) "1.prems"(3)]) (use i1 in simp)
    then show ?thesis using i1 r(2) by simp
  qed
qed

section \<open>Over a stream\<close>

definition seg_items :: "segment list \<Rightarrow> call_item list" where
  "seg_items ss = concat (map (\<lambda>sg. case sg of SegText _ \<Rightarrow> [] | SegCalls cs \<Rightarrow> cs) ss)"

lemma seg_items_simps [simp]: "seg_items [] = []" "seg_items (ss @ ts) = seg_items ss @ seg_items ts" "seg_items (segments_of r) = po_calls r"
  by (simp_all add: seg_items_def segments_of_def)

lemma drain_inv:
  assumes "env_ok e" "call_inv e s" "drain_chunk (invoke_detector e fam tools fwd) n c s = ok (s', segs)"
  shows "call_inv e s' \<and> (\<forall>i. ledger s' i = ledger s i @ part_text i (seg_items segs))"
  using assms(2,3)
proof (induction n arbitrary: c s segs)
  case (Suc n)
  obtain s1 r where n: "invoke_increment e fam tools fwd c s = ok (s1, r)"
    using Suc.prems(2) by (auto simp: rbind_eq_Inr invoke_detector_def)
  obtain t where l: "invoke_loop e fam tools fwd False (s\<lparr>iv_buf := iv_buf s @ c\<rparr>) = ok (s1, t, po_calls r)"
    using n by (auto simp: invoke_increment_def rbind_eq_Inr)
  note i1 = invoke_loop_inv [OF assms(1) inv_quiet [OF Suc.prems(1)] l]
  have d: "dt_increment (invoke_detector e fam tools fwd) c s = ok (s1, r)" using n by (simp add: invoke_detector_def)
  show ?case
  proof (cases "c = [] \<and> po_calls r = [] \<and> po_text r = []")
    case True
    then show ?thesis using Suc.prems(2) d i1 by simp
  next
    case False
    then obtain segs' where "drain_chunk (invoke_detector e fam tools fwd) n [] s1 = ok (s', segs')" "segs = segments_of r @ segs'"
      using Suc.prems(2) d by (auto simp: rbind_eq_Inr split: if_splits)
    with Suc.IH [of s1 "[]" segs'] i1 show ?thesis by simp
  qed
qed simp

lemma stream_inv:
  assumes "env_ok e" "call_inv e s" "stream_chunks (invoke_detector e fam tools fwd) tools cs s = ok (s', segs)"
  shows "call_inv e s' \<and> (\<forall>i. ledger s' i = ledger s i @ part_text i (seg_items segs))"
  using assms(2,3)
proof (induction cs arbitrary: s segs)
  case (Cons c cs)
  obtain s1 segs1 segs2 where c: "parse_stream_events (invoke_detector e fam tools fwd) tools c s = ok (s1, segs1)"
    "stream_chunks (invoke_detector e fam tools fwd) tools cs s1 = ok (s', segs2)" "segs = segs1 @ segs2"
    using Cons.prems(2) by (auto simp: rbind_eq_Inr)
  have "call_inv e s1 \<and> (\<forall>i. ledger s1 i = ledger s i @ part_text i (seg_items segs1))"
    using c(1) Cons.prems(1) drain_inv [OF assms(1) Cons.prems(1)]
    by (auto simp: parse_stream_events_def seg_items_def split: if_splits)
  with Cons.IH [of s1 segs2] c(2,3) show ?case by simp
qed simp

lemma invoke_init_inv: "call_inv e invoke_init" "ledger invoke_init i = []"
  by (auto simp: call_inv_def invoke_init_def shape_def ledger_def)

text \<open>C26: Whatever text a model produces and however it is cut into chunks, when the stream of a Qwen3-Coder or
  MiniMax-M2 parser does not raise, the argument fragments a client received for every call that is finished
  join to one JSON object, and that object is what the parser has recorded for the call.\<close>

theorem invoke_calls_are_objects:
  assumes "env_ok e" "stream_chunks (invoke_detector e fam tools fwd) tools cs invoke_init = ok (s, segs)" "0 \<le> i" "i < iv_id s"
  shows "\<exists>kvs. loads (pe_repr e) (part_text i (seg_items segs)) = Some (VObj kvs) \<and> recorded_arguments (iv_prev s) i = Some (VObj kvs)"
  using stream_inv [OF assms(1) invoke_init_inv(1) assms(2)] invoke_init_inv(2) assms(3,4) by (auto simp: call_inv_def finished_def)

lemma invoke_calls_are_objects_witness:
  "\<exists>s segs kvs. stream_chunks (invoke_detector
      \<lparr>pe_repr = (\<lambda>_. codes ''0.5''), pe_float = (\<lambda>_. None), pe_literal = (\<lambda>_. None), pe_digit = (\<lambda>_. None)\<rparr> Qwen3Coder [\<lparr>tf_name = codes ''f'', tf_parameters = None\<rparr>] False)
      [\<lparr>tf_name = codes ''f'', tf_parameters = None\<rparr>] [codes ''<tool_call><function=f><para'', codes ''meter=k>x</parameter></function>''] invoke_init = ok (s, segs)
    \<and> loads (\<lambda>_. codes ''0.5'') (part_text 0 (seg_items segs)) = Some (VObj kvs)"
proof -
  let ?e = "\<lparr>pe_repr = (\<lambda>_. codes ''0.5''), pe_float = (\<lambda>_. None), pe_literal = (\<lambda>_. None), pe_digit = (\<lambda>_. None)\<rparr>"
  let ?r = "stream_chunks (invoke_detector ?e Qwen3Coder [\<lparr>tf_name = codes ''f'', tf_parameters = None\<rparr>] False) [\<lparr>tf_name = codes ''f'', tf_parameters = None\<rparr>]
    [codes ''<tool_call><function=f><para'', codes ''meter=k>x</parameter></function>''] invoke_init"
  have a: "scan_atom (\<lambda>_. codes ''0.5'') (codes ''0.5'') = Some (VFloat (codes ''0.5''), [])" by code_simp
  have e: "env_ok ?e" using a by (simp add: env_ok_def)
  have r: "case ?r of Inl _ \<Rightarrow> False | Inr (s, _) \<Rightarrow> 0 < iv_id s" by code_simp
  then obtain s segs where s: "?r = ok (s, segs)" "0 < iv_id s" by (cases ?r) auto
  from invoke_calls_are_objects [OF e s(1) order_refl s(2)] s(1) show ?thesis by auto
qed

end
