(* ===== verification/InvokeRead.thy ===== *)
theory InvokeRead
  imports InvokeChunks InvokeProps
begin

text \<open>
  What the streaming parser delivers: the same for every way to cut a text, and on a document of Qwen3-Coder
  calls the text, the calls and their arguments that were written.
\<close>

section \<open>Where a text is cut does not matter\<close>

definition delivered_by :: "py_env \<Rightarrow> family \<Rightarrow> tool_function list \<Rightarrow> bool \<Rightarrow> utext list \<Rightarrow> atom list result" where
  "delivered_by e fam tools fwd cs =
    rbind (stream_finished (invoke_detector e fam tools fwd) tools cs invoke_init) (\<lambda>segs. ok (seg_atoms segs))"

lemma init_rests: "resting (iturn_of e fam tools fwd False) invoke_init"
  by (simp add: resting_def iturn_def invoke_init_def)

lemma finish_settled: "iv_mode s = iv_mode (settle_invoke fam s)" "snd (invoke_finish gm (settle_invoke fam s)) = snd (invoke_finish gm s)"
  by (auto simp: settle_invoke_def skip_count_def invoke_finish_def)

lemma stream_delivers:
  assumes "tools \<noteq> []" "count_sub (gm_outer_open (grammar_of fam)) (concat cs) \<le> 15"
  shows "\<exists>r. runs (settle_invoke fam) (iturn_of e fam tools fwd False) (more (concat cs) invoke_init) r
    \<and> delivered_by e fam tools fwd cs = rbind r (\<lambda>(s, as). ok (as @ text_atoms (snd (invoke_finish (grammar_of fam) s))))"
proof -
  let ?D = "invoke_detector e fam tools fwd"
  have "blocks_left fam (more (concat cs) invoke_init) < 16" using assms(2) by (simp add: blocks_left_def invoke_init_def)
  from invokes.stream_runs [OF assms(1) init_rests this]
  have r: "runs (settle_invoke fam) (iturn_of e fam tools fwd False) (more (concat cs) invoke_init)
    (rbind (stream_chunks ?D tools cs invoke_init) (\<lambda>(s2, segs). ok (settle_invoke fam s2, seg_atoms segs)))" .
  have "delivered_by e fam tools fwd cs = rbind (rbind (stream_chunks ?D tools cs invoke_init) (\<lambda>(s2, segs). ok (settle_invoke fam s2, seg_atoms segs)))
    (\<lambda>(s, as). ok (as @ text_atoms (snd (invoke_finish (grammar_of fam) s))))"
    by (cases "stream_chunks ?D tools cs invoke_init")
      (auto simp: delivered_by_def stream_finished_def finish_settled invoke_detector_def)
  then show ?thesis using r by blast
qed

text \<open>C25: However a text with at most fifteen opening markers is cut into chunks, the Qwen3-Coder and MiniMax-M2
  streams deliver the same text, call starts and argument characters in the same order, or raise the same
  exception; two clients that see different chunks of one output agree. A chunk is drained in sixteen
  steps, each of which delivers at most one block, so one chunk with more can lose calls that several
  chunks deliver.\<close>

theorem invoke_chunks_agree:
  assumes "tools \<noteq> []" "concat cs = concat ds" "count_sub (gm_outer_open (grammar_of fam)) (concat cs) \<le> 15"
  shows "delivered_by e fam tools fwd cs = delivered_by e fam tools fwd ds"
proof -
  obtain r where r: "runs (settle_invoke fam) (iturn_of e fam tools fwd False) (more (concat cs) invoke_init) r"
    "delivered_by e fam tools fwd cs = rbind r (\<lambda>(s, as). ok (as @ text_atoms (snd (invoke_finish (grammar_of fam) s))))"
    using stream_delivers [OF assms(1,3)] by blast
  obtain r' where r': "runs (settle_invoke fam) (iturn_of e fam tools fwd False) (more (concat ds) invoke_init) r'"
    "delivered_by e fam tools fwd ds = rbind r' (\<lambda>(s, as). ok (as @ text_atoms (snd (invoke_finish (grammar_of fam) s))))"
    using stream_delivers [OF assms(1), of fam ds] assms(2,3) by auto
  have "r = r'" using runs_unique [OF r(1)] r'(1) assms(2) by simp
  then show ?thesis using r(2) r'(2) by simp
qed

section \<open>Steps that lead on\<close>

inductive leads :: "('s \<Rightarrow> 's turn_result) \<Rightarrow> 's \<Rightarrow> atom list \<Rightarrow> 's \<Rightarrow> bool" for turn where
  leads_refl: "leads turn s [] s"
| leads_step: "turn s = ok (s', t, cs, True) \<Longrightarrow> leads turn s' as s'' \<Longrightarrow> leads turn s (text_atoms t @ item_atoms cs @ as) s''"

lemma leads_one: "turn s = ok (s', t, cs, True) \<Longrightarrow> leads turn s (text_atoms t @ item_atoms cs) s'"
  using leads_step [of turn s s' t cs "[]" s'] leads_refl [of turn s'] by simp

lemma leads_trans: "leads turn s as s' \<Longrightarrow> leads turn s' bs s'' \<Longrightarrow> leads turn s (as @ bs) s''"
proof (induction rule: leads.induct)
  case (leads_step s s' t cs as s2)
  from leads.leads_step [of turn, OF leads_step.hyps(1) leads_step.IH [OF leads_step.prems]] show ?case by simp
qed simp

lemma leads_runs: "leads turn s as s' \<Longrightarrow> runs core turn s' r \<Longrightarrow> runs core turn s (prepend as r)"
proof (induction rule: leads.induct)
  case (leads_step s s' t cs as s2)
  from runs_on [of turn, OF leads_step.hyps(1) leads_step.IH [OF leads_step.prems]] show ?case by simp
qed simp

section \<open>The first marker\<close>

lemma found_at:
  assumes "marker_set [p]" "find_sub p xs = None"
  shows "find_sub p (xs @ p @ ys) = Some (length xs)"
proof -
  have "has_sub p (xs @ p @ ys)" by (auto simp: has_sub_iff)
  then obtain i where i: "find_sub p (xs @ p @ ys) = Some i" by (auto simp: has_sub_def)
  have m: "p \<noteq> []" "hd p \<notin> set (tl p)" using assms(1) by (auto simp: marker_set_def)
  have "i \<le> length xs" using i unfolding find_sub_Some by (metis append_eq_conv_conj not_less prefixI)
  moreover have "\<not> i < length xs"
  proof
    assume l: "i < length xs"
    have ns: "\<not> has_sub p xs" using assms(2) by (simp add: has_sub_def)
    note st = find_sub_straddle [of p xs "p @ ys", OF i ns l]
    obtain zs where z: "drop i (xs @ p @ ys) = p @ zs" using i by (auto simp: find_sub_Some prefix_def)
    have "p ! (length xs - i) = drop i (xs @ p @ ys) ! (length xs - i)" unfolding z using st(2) by (simp add: nth_append)
    also have "\<dots> = hd p" using l m(1) by (simp add: nth_append hd_conv_nth)
    finally have "hd p \<in> set (tl p)" using st(2) l by (cases p) (auto simp: nth_Cons' in_set_conv_nth intro!: exI [of _ "length xs - i - 1"])
    then show False using m(2) by simp
  qed
  ultimately show ?thesis using i by simp
qed

lemma none_without: "p \<noteq> [] \<Longrightarrow> hd p \<notin> set xs \<Longrightarrow> find_sub p xs = None"
  unfolding find_sub_None prefix_def by (metis append_is_Nil_conv hd_append2 hd_in_set in_set_dropD)

lemma none_snoc: "find_sub p xs = None \<Longrightarrow> p \<noteq> [] \<Longrightarrow> x \<notin> set p \<Longrightarrow> find_sub p (xs @ [x]) = None"
proof (rule ccontr)
  assume a: "find_sub p xs = None" "p \<noteq> []" "x \<notin> set p" "find_sub p (xs @ [x]) \<noteq> None"
  then obtain u v where uv: "xs @ [x] = u @ p @ v" using has_sub_iff [of p "xs @ [x]"] by (auto simp: has_sub_def)
  show False
  proof (cases v rule: rev_cases)
    case Nil
    then have "last p = x" using arg_cong [OF uv, of last] a(2) by simp
    then show False using a(2,3) by auto
  next
    case (snoc w y)
    then have "xs = u @ p @ w" using uv by simp
    then have "has_sub p xs" by (auto simp: has_sub_iff)
    then show False using a(1) by (simp add: has_sub_def)
  qed
qed

lemma earliest_first:
  assumes "marker_set [a, b]" "hd a = 60" "hd b = 60" "p \<in> {a, b}" "60 \<notin> set w"
  shows "earliest [a, b] (w @ p @ rest) = Some (length w, p)"
proof -
  let ?xs = "w @ p @ rest"
  have m: "marker_set [p]" "p \<noteq> []" "hd p = 60" using assms marker_set_mono [of "[a, b]" "[p]"] by (auto simp: marker_set_def)
  have f: "find_sub p ?xs = Some (length w)" using found_at [OF m(1) none_without [of p w]] m assms(5) by simp
  then have "earliest [a, b] ?xs \<noteq> None" using assms(4) by (auto simp: earliest_None)
  then obtain i q where e: "earliest [a, b] ?xs = Some (i, q)" by auto
  then have q: "q \<in> {a, b}" "find_sub q ?xs = Some i" "i \<le> length w" using earliest_Some [OF e] f assms(4) by auto
  have qn: "q \<noteq> []" "hd q = 60" using q(1) assms(1-3) by (auto simp: marker_set_def)
  have pre: "prefix q (drop i ?xs)" using q(2) by (simp add: find_sub_Some)
  have "\<not> i < length w"
  proof
    assume l: "i < length w"
    obtain zs where "drop i ?xs = q @ zs" using pre by (auto simp: prefix_def)
    then have "hd (drop i ?xs) = 60" using qn by simp
    moreover have "hd (drop i ?xs) = w ! i" using l by (simp add: hd_append hd_drop_conv_nth)
    ultimately have "60 \<in> set w" using l by (metis nth_mem)
    with assms(5) show False by simp
  qed
  then have "i = length w" using q(3) by simp
  moreover have "prefix q p \<or> prefix p q"
    using prefix_same_cases [OF pre, of p] \<open>i = length w\<close> by (metis append_eq_conv_conj prefixI)
  then have "q = p" using q(1) assms(1,4) by (auto simp: marker_set_def)
  ultimately show ?thesis using e by simp
qed

section \<open>Documents of Qwen3-Coder calls\<close>

text \<open>How the format writes a call: a name or a value is framed by its tags, a value by a line feed at each end.\<close>

fun written_params :: "(utext \<times> utext) list \<Rightarrow> utext" where
  "written_params [] = []"
| "written_params ((k, v) # ps) =
    codes ''<parameter='' @ k @ [62, 10] @ v @ 10 # codes ''</parameter>'' @ 10 # written_params ps"

definition written_call :: "utext \<Rightarrow> (utext \<times> utext) list \<Rightarrow> utext" where
  "written_call name ps =
    codes ''<tool_call>'' @ 10 # codes ''<function='' @ name @ [62, 10] @ written_params ps @ codes ''</function>'' @ 10 # codes ''</tool_call>''"

text \<open>A document: calls, each with the text before it, and the text behind the last one\<close>

type_synonym document = "(utext \<times> utext \<times> (utext \<times> utext) list) list"

fun written :: "document \<Rightarrow> utext \<Rightarrow> utext" where
  "written [] tail = tail"
| "written ((t, name, ps) # d) tail = t @ written_call name ps @ written d tail"

text \<open>What the schema makes of a value that is written for a parameter\<close>

definition param_value :: "py_env \<Rightarrow> param_config \<Rightarrow> utext \<Rightarrow> utext \<Rightarrow> jval option result" where
  "param_value e config k v =
    (if string_type (schema_param_type k config (codes ''string'')) then ok (Some (VText v)) else convert_param_value e v k config)"

definition param_ok :: "py_env \<Rightarrow> param_config \<Rightarrow> utext \<times> utext \<Rightarrow> bool" where
  "param_ok e config kv = (case kv of (k, v) \<Rightarrow>
    62 \<notin> set k \<and> strip k = k \<and> \<not> has_sub (codes ''</parameter>'') v \<and> (case param_value e config k v of Inr (Some _) \<Rightarrow> True | _ \<Rightarrow> False))"

definition call_ok :: "py_env \<Rightarrow> tool_function list \<Rightarrow> bool \<Rightarrow> utext \<times> utext \<times> (utext \<times> utext) list \<Rightarrow> bool" where
  "call_ok e tools fwd c = (case c of (t, name, ps) \<Rightarrow>
    \<not> has_sub (codes ''<tool_call>'') t \<and> 62 \<notin> set name \<and> strip name = name \<and> accepted_tool tools fwd name
    \<and> list_all (param_ok e (get_param_config name tools)) ps)"

definition members_of :: "py_env \<Rightarrow> param_config \<Rightarrow> (utext \<times> utext) list \<Rightarrow> members" where
  "members_of e config ps = map (\<lambda>(k, v). (k, case param_value e config k v of Inr (Some w) \<Rightarrow> w | _ \<Rightarrow> VNull)) ps"

definition arguments_of :: "py_env \<Rightarrow> tool_function list \<Rightarrow> utext \<Rightarrow> (utext \<times> utext) list \<Rightarrow> members" where
  "arguments_of e tools name ps = members_of e (get_param_config name tools) ps"

definition object_text :: "members \<Rightarrow> utext" where
  "object_text kvs = (if kvs = [] then [123] else args_text kvs) @ [125]"

fun expected :: "py_env \<Rightarrow> tool_function list \<Rightarrow> int \<Rightarrow> document \<Rightarrow> utext \<Rightarrow> atom list" where
  "expected e tools n [] tail = text_atoms tail"
| "expected e tools n ((t, name, ps) # d) tail =
    text_atoms t @ CallStart n name # map (ArgChar n) (object_text (arguments_of e tools name ps)) @ expected e tools (n + 1) d tail"

section \<open>The machine on a document\<close>

abbreviation qwen_turn :: "py_env \<Rightarrow> tool_function list \<Rightarrow> bool \<Rightarrow> invoke \<Rightarrow> turn_step result" where
  "qwen_turn e tools fwd \<equiv> iturn_of e Qwen3Coder tools fwd False"

lemmas qwen_one = leads_one [where turn = "qwen_turn e tools fwd"] for e tools fwd

lemma qwen_tags:
  "gm_outer_open (grammar_of Qwen3Coder) = codes ''<tool_call>''" "gm_outer_close (grammar_of Qwen3Coder) = codes ''</tool_call>''"
  "gm_invoke_prefix (grammar_of Qwen3Coder) = codes ''<function=''" "gm_invoke_close (grammar_of Qwen3Coder) = codes ''</function>''"
  "gm_param_prefix (grammar_of Qwen3Coder) = codes ''<parameter=''" "gm_param_close (grammar_of Qwen3Coder) = codes ''</parameter>''"
  "gm_invoke_open (grammar_of Qwen3Coder) = equals_tag (codes ''<function='')"
  "gm_param_open (grammar_of Qwen3Coder) = equals_tag (codes ''<parameter='')"
  "gm_trim_single (grammar_of Qwen3Coder)" "gm_missing (grammar_of Qwen3Coder) = codes ''string''"
  by (simp_all add: grammar_of_def)

lemma tag_heads: "hd (codes ''<function='') = 60" "hd (codes ''</tool_call>'') = 60" "hd (codes ''<parameter='') = 60" "hd (codes ''</function>'') = 60"
  by (simp_all add: codes_def)

lemma qwen_sets: "marker_set [codes ''<function='', codes ''</tool_call>'']" "marker_set [codes ''<parameter='', codes ''</function>'']"
  "marker_set [codes ''</parameter>'']" "marker_set [codes ''<tool_call>'']"
  using laws(1-6) [of Qwen3Coder] by (simp_all only: qwen_tags)

lemma equals_tag_here:
  assumes "tag \<noteq> []" "62 \<notin> set name"
  shows "equals_tag tag (tag @ name @ 62 # rest) = Some (name, length tag + length name + 1)"
proof -
  have "find_sub tag (tag @ name @ 62 # rest) = Some 0" using assms(1) by (cases tag) (simp_all add: has_prefix_prefix)
  moreover have "takeWhile (\<lambda>c. c \<noteq> 62) (name @ 62 # rest) = name" using assms(2) by (induction name) auto
  ultimately show ?thesis by (simp add: equals_tag_def Let_def)
qed

lemma idle_leads:
  assumes "iv_mode s = IIdle" "iv_buf s = t @ codes ''<tool_call>'' @ rest" "\<not> has_sub (codes ''<tool_call>'') t"
  shows "leads (qwen_turn e tools fwd) s (text_atoms t) (s\<lparr>iv_buf := rest, iv_mode := IBlock\<rparr>)"
proof -
  let ?T = "qwen_turn e tools fwd" let ?o = "codes ''<tool_call>''"
  have o: "qwen_turn e tools fwd x = ok (x\<lparr>iv_buf := rest, iv_mode := IBlock\<rparr>, [], [], True)" if "iv_mode x = IIdle" "iv_buf x = ?o @ rest" for x
  proof -
    have "find_sub ?o (?o @ rest) = Some 0" using found_at [OF qwen_sets(4), of "[]" rest] none_without [of ?o "[]"] by (simp add: codes_def)
    then show ?thesis using that by (simp add: turn_idle idle_turn_def qwen_tags)
  qed
  show ?thesis
  proof (cases "t = []")
    case True
    then show ?thesis using qwen_one [OF o [OF assms(1)]] assms(2) by simp
  next
    case False
    have f: "find_sub ?o (t @ ?o @ rest) = Some (length t)" using found_at [OF qwen_sets(4)] assms(3) by (simp add: has_sub_def)
    have "?T s = ok (s\<lparr>iv_buf := ?o @ rest\<rparr>, t, [], True)"
      using assms(1,2) f False by (simp add: turn_idle idle_turn_def qwen_tags)
    from leads_trans [OF qwen_one [OF this] qwen_one [OF o]] show ?thesis using assms(1) by simp
  qed
qed

lemma block_leads:
  assumes "iv_mode s = IBlock" "iv_buf s = w @ codes ''<function='' @ name @ 62 # rest" "60 \<notin> set w" "62 \<notin> set name" "strip name = name"
    "accepted_tool tools fwd name"
  shows "leads (qwen_turn e tools fwd) s [CallStart (iv_id (enter_invoke s)) name] (open_invoke tools name ((enter_invoke s)\<lparr>iv_buf := rest\<rparr>))"
proof -
  let ?f = "codes ''<function=''"
  have e: "earliest [?f, codes ''</tool_call>''] (w @ ?f @ name @ 62 # rest) = Some (length w, ?f)"
    using earliest_first [OF qwen_sets(1) tag_heads(1,2), of ?f w] assms(3) by simp
  have tg: "equals_tag ?f (?f @ name @ 62 # rest) = Some (name, length ?f + length name + 1)"
    using equals_tag_here [OF _ assms(4), of ?f] by (simp add: codes_def)
  have ne: "?f \<noteq> codes ''</tool_call>''" by (simp add: codes_def)
  have "qwen_turn e tools fwd s = ok (invoke_found tools fwd name rest s)"
    unfolding turn_block [OF assms(1)] scan_turn_def qwen_tags assms(2) Let_def e using tg ne by simp
  then have "qwen_turn e tools fwd s = ok (open_invoke tools name ((enter_invoke s)\<lparr>iv_buf := rest\<rparr>), [], [call_start (iv_id (enter_invoke s)) name], True)"
    using assms(5,6) by (simp add: invoke_found_def Let_def)
  from qwen_one [OF this] show ?thesis by simp
qed

lemma block_end_leads:
  assumes "iv_mode s = IBlock" "iv_buf s = w @ codes ''</tool_call>'' @ rest" "60 \<notin> set w"
  shows "leads (qwen_turn e tools fwd) s [] (s\<lparr>iv_buf := rest, iv_mode := IIdle\<rparr>)"
proof -
  let ?c = "codes ''</tool_call>''"
  have e: "earliest [codes ''<function='', ?c] (w @ ?c @ rest) = Some (length w, ?c)"
    using earliest_first [OF qwen_sets(1) tag_heads(1,2), of ?c w] assms(3) by simp
  have "qwen_turn e tools fwd s = ok (block_closed rest s)"
    unfolding turn_block [OF assms(1)] scan_turn_def qwen_tags assms(2) Let_def e by simp
  then show ?thesis using qwen_one [of e tools fwd s "s\<lparr>iv_buf := rest, iv_mode := IIdle\<rparr>" "[]" "[]"] by (simp add: block_closed_def)
qed

lemma close_leads:
  assumes "iv_mode s = IInvoke" "iv_buf s = w @ codes ''</function>'' @ rest" "60 \<notin> set w"
  shows "leads (qwen_turn e tools fwd) s (map (ArgChar (iv_id s)) (if iv_started s then [125] else [123, 125]))
    ((close_invoke (pe_repr e) s)\<lparr>iv_buf := rest, iv_mode := IBlock\<rparr>)"
proof -
  let ?c = "codes ''</function>''"
  have e: "earliest [codes ''<parameter='', ?c] (w @ ?c @ rest) = Some (length w, ?c)"
    using earliest_first [OF qwen_sets(2) tag_heads(3,4), of ?c w] assms(3) by simp
  have m: "iv_mode s \<in> {IInvoke, IInvokeSkip}" using assms(1) by simp
  have "qwen_turn e tools fwd s = ok (invoke_closed (pe_repr e) rest s)"
    unfolding turn_invoke [OF m] scan_turn_def qwen_tags assms(2) Let_def e by simp
  from qwen_one [OF this [unfolded invoke_closed_def]] assms(1) show ?thesis by (cases "iv_started s") (simp_all add: codes_def)
qed

definition same_call :: "invoke \<Rightarrow> invoke \<Rightarrow> bool" where
  "same_call s s' \<longleftrightarrow> iv_id s' = iv_id s \<and> iv_config s' = iv_config s"

lemma config_kept [simp]: "iv_config (emit f s) = iv_config s" "iv_config (update_prev fl s) = iv_config s"
  by (auto simp: emit_def update_prev_def Let_def split: option.splits jval.splits)

lemma param_tag_turn:
  assumes "iv_mode s = IInvoke" "iv_buf s = w @ codes ''<parameter='' @ k @ 62 # rest" "60 \<notin> set w" "62 \<notin> set k" "strip k = k"
    "start_param (grammar_of Qwen3Coder) k (s\<lparr>iv_buf := rest\<rparr>) = (s', cs)"
  shows "leads (qwen_turn e tools fwd) s (item_atoms cs) s'"
proof -
  let ?p = "codes ''<parameter=''"
  have e: "earliest [?p, codes ''</function>''] (w @ ?p @ k @ 62 # rest) = Some (length w, ?p)"
    using earliest_first [OF qwen_sets(2) tag_heads(3,4), of ?p w] assms(3) by simp
  have tg: "equals_tag ?p (?p @ k @ 62 # rest) = Some (k, length ?p + length k + 1)"
    using equals_tag_here [OF _ assms(4), of ?p] by (simp add: codes_def)
  have ne: "?p \<noteq> codes ''</function>''" by (simp add: codes_def)
  have m: "iv_mode s \<in> {IInvoke, IInvokeSkip}" using assms(1) by simp
  have "qwen_turn e tools fwd s = ok (param_found (grammar_of Qwen3Coder) k rest s)"
    unfolding turn_invoke [OF m] scan_turn_def qwen_tags assms(2) Let_def e using tg ne by simp
  then have "qwen_turn e tools fwd s = ok (s', [], cs, True)" using assms(1,5,6) by (simp add: param_found_def)
  from qwen_one [OF this] show ?thesis by simp
qed

lemma value_end:
  assumes "\<not> has_sub (codes ''</parameter>'') v"
  shows "find_sub (codes ''</parameter>'') (v @ 10 # codes ''</parameter>'' @ rest) = Some (length v + 1)"
proof -
  let ?c = "codes ''</parameter>''"
  have "find_sub ?c (v @ [10]) = None"
    using none_snoc [of ?c v 10] assms by (simp add: has_sub_def) (simp add: codes_def)
  from found_at [OF qwen_sets(3) this, of rest] show ?thesis by simp
qed

lemma string_value_leads:
  assumes "iv_mode s = IString" "iv_buf s = 10 # v @ 10 # codes ''</parameter>'' @ rest" "\<not> iv_trimmed s" "\<not> has_sub (codes ''</parameter>'') v"
  shows "leads (qwen_turn e tools fwd) s (map (ArgChar (iv_id s)) (escape_text v @ [34]))
    ((update_prev (pe_repr e) (emit (escape_text v @ [34]) s))\<lparr>iv_buf := rest, iv_mode := IInvoke, iv_trimmed := True\<rparr>)"
proof -
  let ?Q = "grammar_of Qwen3Coder" let ?c = "codes ''</parameter>''" let ?xs = "v @ 10 # ?c @ rest"
  let ?s = "s\<lparr>iv_buf := ?xs, iv_trimmed := True\<rparr>"
  have tl: "trim_leading ?Q (iv_buf s) = ?xs" by (simp add: assms(2) trim_leading_def qwen_tags)
  then have u: "untrimmed ?Q s" using assms(2,3) by (simp add: untrimmed_def)
  have t1: "qwen_turn e tools fwd s = ok (?s, [], [], True)"
    using string_turn_trims [OF u, of "pe_repr e"] tl assms(1,2) by (simp add: string_turn_of qwen_tags)
  have f: "find_sub (gm_param_close ?Q) (iv_buf ?s) = Some (length v + 1)" using value_end [OF assms(4)] by (simp add: qwen_tags)
  have tt: "escape_text v @ [34] = escape_text (trim_trailing ?Q (take (length v + 1) (iv_buf ?s))) @ [34]"
    by (simp add: trim_trailing_def qwen_tags)
  have u2: "\<not> untrimmed ?Q ?s" by (simp add: untrimmed_def)
  let ?s2 = "(update_prev (pe_repr e) (emit (escape_text v @ [34]) ?s))\<lparr>iv_buf := rest, iv_mode := IInvoke, iv_trimmed := True\<rparr>"
  have t2: "qwen_turn e tools fwd ?s = ok (?s2, [], frag_items (escape_text v @ [34]) ?s, True)"
    using string_turn_some [OF u2 f tt, of "pe_repr e"] assms(1) by (simp add: string_turn_of qwen_tags)
  have "?s2 = (update_prev (pe_repr e) (emit (escape_text v @ [34]) s))\<lparr>iv_buf := rest, iv_mode := IInvoke, iv_trimmed := True\<rparr>" by simp
  with leads_trans [OF qwen_one [OF t1] qwen_one [OF t2]] show ?thesis by simp
qed

lemma typed_value_leads:
  assumes "iv_mode s = IBuffered" "iv_buf s = 10 # v @ 10 # codes ''</parameter>'' @ rest" "\<not> has_sub (codes ''</parameter>'') v"
    "convert_param_value e v (iv_key s) (iv_config s) = ok (Some x)"
  shows "leads (qwen_turn e tools fwd) s (map (ArgChar (iv_id s)) (iv_lead s @ dumps_text (iv_key s) @ 58 # dumps x))
    ((update_prev (pe_repr e) (emit (iv_lead s @ dumps_text (iv_key s) @ 58 # dumps x) s))\<lparr>iv_buf := rest, iv_mode := IInvoke\<rparr>)"
proof -
  let ?Q = "grammar_of Qwen3Coder" let ?c = "codes ''</parameter>''"
  have "\<not> has_sub ?c (10 # v)"
  proof
    assume "has_sub ?c (10 # v)"
    then obtain a b where ab: "10 # v = a @ ?c @ b" by (auto simp: has_sub_iff)
    then have "a \<noteq> []" by (cases a) (simp_all add: codes_def)
    then have "v = tl a @ ?c @ b" using ab by (cases a) simp_all
    then show False using assms(3) by (auto simp: has_sub_iff)
  qed
  from value_end [OF this, of rest] have f: "find_sub (gm_param_close ?Q) (iv_buf s) = Some (length v + 2)"
    by (simp add: assms(2) qwen_tags)
  have tr: "trim_trailing ?Q (trim_leading ?Q (take (length v + 2) (iv_buf s))) = v"
    by (simp add: assms(2) trim_trailing_def trim_leading_def qwen_tags)
  have "convert_value e ?Q (iv_config s) (iv_key s) v = ok (Some x)" using assms(4) by (simp add: convert_value_def qwen_tags codes_def)
  then have "qwen_turn e tools fwd s = ok ((update_prev (pe_repr e) (emit (iv_lead s @ dumps_text (iv_key s) @ 58 # dumps x) s))\<lparr>iv_buf := rest, iv_mode := IInvoke\<rparr>,
      [], frag_items (iv_lead s @ dumps_text (iv_key s) @ 58 # dumps x) s, True)"
    using assms(1) f tr turn_value [of s e Qwen3Coder tools fwd] assms(2)
    by (simp add: value_turn_def Let_def qwen_tags) (simp add: codes_def)
  from qwen_one [OF this] show ?thesis by simp
qed

lemma param_leads:
  assumes "iv_mode s = IInvoke" "iv_buf s = w @ codes ''<parameter='' @ k @ 62 # 10 # v @ 10 # codes ''</parameter>'' @ rest" "60 \<notin> set w"
    "62 \<notin> set k" "strip k = k" "\<not> has_sub (codes ''</parameter>'') v" "param_value e (iv_config s) k v = ok (Some x)"
  shows "\<exists>s'. leads (qwen_turn e tools fwd) s (map (ArgChar (iv_id s)) (param_lead s @ dumps_text k @ 58 # dumps x)) s'
    \<and> iv_mode s' = IInvoke \<and> iv_buf s' = rest \<and> iv_started s' \<and> same_call s s'"
proof -
  let ?Q = "grammar_of Qwen3Coder" let ?body = "10 # v @ 10 # codes ''</parameter>'' @ rest"
  let ?s0 = "s\<lparr>iv_buf := ?body, iv_key := k, iv_started := True\<rparr>"
  note tag = param_tag_turn [OF assms(1,2,3,4,5), of _ _ e tools fwd]
  show ?thesis
  proof (cases "string_type (schema_param_type k (iv_config s) (codes ''string''))")
    case True
    then have x: "x = VText v" using assms(7) by (simp add: param_value_def)
    let ?f = "param_lead s @ dumps_text k @ codes '':'' @ [34]"
    let ?s1 = "(emit ?f ?s0)\<lparr>iv_trimmed := False, iv_mode := IString\<rparr>"
    have st: "start_param ?Q k (s\<lparr>iv_buf := ?body\<rparr>) = (?s1, frag_items ?f ?s0)"
      using True by (simp add: start_param_def Let_def qwen_tags)
    have sv: "leads (qwen_turn e tools fwd) ?s1 (map (ArgChar (iv_id ?s1)) (escape_text v @ [34]))
      ((update_prev (pe_repr e) (emit (escape_text v @ [34]) ?s1))\<lparr>iv_buf := rest, iv_mode := IInvoke, iv_trimmed := True\<rparr>)"
      by (rule string_value_leads) (use assms(6) in simp_all)
    have "map (ArgChar (iv_id s)) (param_lead s @ dumps_text k @ 58 # dumps x)
      = item_atoms (frag_items ?f ?s0) @ map (ArgChar (iv_id ?s1)) (escape_text v @ [34])"
      by (simp add: x dumps_text_def codes_def)
    then show ?thesis using leads_trans [OF tag [OF st] sv] by (intro exI [of _ "(update_prev (pe_repr e) (emit (escape_text v @ [34]) ?s1))\<lparr>iv_buf := rest, iv_mode := IInvoke, iv_trimmed := True\<rparr>"])
      (simp add: same_call_def)
  next
    case False
    let ?s1 = "?s0\<lparr>iv_lead := param_lead s, iv_mode := IBuffered\<rparr>"
    have st: "start_param ?Q k (s\<lparr>iv_buf := ?body\<rparr>) = (?s1, [])" using False by (simp add: start_param_def Let_def qwen_tags)
    have "convert_param_value e v k (iv_config s) = ok (Some x)" using assms(7) False by (simp add: param_value_def)
    then have sv: "leads (qwen_turn e tools fwd) ?s1 (map (ArgChar (iv_id ?s1)) (iv_lead ?s1 @ dumps_text (iv_key ?s1) @ 58 # dumps x))
      ((update_prev (pe_repr e) (emit (iv_lead ?s1 @ dumps_text (iv_key ?s1) @ 58 # dumps x) ?s1))\<lparr>iv_buf := rest, iv_mode := IInvoke\<rparr>)"
      by (intro typed_value_leads) (use assms(6) in simp_all)
    show ?thesis using leads_trans [OF tag [OF st] sv] by (intro exI [of _ "(update_prev (pe_repr e) (emit (iv_lead ?s1 @ dumps_text (iv_key ?s1) @ 58 # dumps x) ?s1))\<lparr>iv_buf := rest, iv_mode := IInvoke\<rparr>"])
      (simp add: same_call_def)
  qed
qed

lemma param_okD:
  assumes "param_ok e config (k, v)"
  obtains x where "param_value e config k v = ok (Some x)" "62 \<notin> set k" "strip k = k" "\<not> has_sub (codes ''</parameter>'') v"
  using assms by (auto simp: param_ok_def split: sum.splits option.splits)

lemma params_leads:
  assumes "iv_mode s = IInvoke" "iv_buf s = w @ written_params ps @ rest" "60 \<notin> set w" "list_all (param_ok e (iv_config s)) ps"
    "iv_started s = (kvs \<noteq> [])"
  shows "\<exists>s' w' out. leads (qwen_turn e tools fwd) s (map (ArgChar (iv_id s)) out) s' \<and> iv_mode s' = IInvoke \<and> iv_buf s' = w' @ rest
    \<and> 60 \<notin> set w' \<and> same_call s s' \<and> iv_started s' = (kvs @ members_of e (iv_config s) ps \<noteq> [])
    \<and> args_text (kvs @ members_of e (iv_config s) ps) = args_text kvs @ out"
  using assms
proof (induction ps arbitrary: s w kvs)
  case Nil
  have "leads (qwen_turn e tools fwd) s (map (ArgChar (iv_id s)) []) s" using leads_refl [of "qwen_turn e tools fwd" s] by simp
  then show ?case using Nil by (intro exI [of _ s] exI [of _ w] exI [of _ "[]"]) (simp add: same_call_def members_of_def)
next
  case (Cons kv ps)
  obtain k v where kv: "kv = (k, v)" by (cases kv)
  from Cons.prems(4) have "param_ok e (iv_config s) (k, v)" "list_all (param_ok e (iv_config s)) ps" by (simp_all add: kv)
  then obtain x where x: "param_value e (iv_config s) k v = ok (Some x)" "62 \<notin> set k" "strip k = k" "\<not> has_sub (codes ''</parameter>'') v"
    by (elim param_okD)
  have buf: "iv_buf s = w @ codes ''<parameter='' @ k @ 62 # 10 # v @ 10 # codes ''</parameter>'' @ (10 # written_params ps @ rest)"
    using Cons.prems(2) kv by simp
  from param_leads [OF Cons.prems(1) buf Cons.prems(3) x(2-4,1), of tools fwd] obtain s1
    where s1: "leads (qwen_turn e tools fwd) s (map (ArgChar (iv_id s)) (param_lead s @ dumps_text k @ 58 # dumps x)) s1"
    "iv_mode s1 = IInvoke" "iv_buf s1 = [10] @ written_params ps @ rest" "iv_started s1" "same_call s s1" by auto
  let ?kvs = "kvs @ [(k, x)]"
  have "60 \<notin> set [10 :: int]" "list_all (param_ok e (iv_config s1)) ps" "iv_started s1 = (?kvs \<noteq> [])"
    using \<open>list_all (param_ok e (iv_config s)) ps\<close> s1(4,5) by (simp_all add: same_call_def)
  from Cons.IH [OF s1(2,3) this] obtain s' w' out where s':
    "leads (qwen_turn e tools fwd) s1 (map (ArgChar (iv_id s1)) out) s'" "iv_mode s' = IInvoke" "iv_buf s' = w' @ rest" "60 \<notin> set w'"
    "same_call s1 s'" "iv_started s' = (?kvs @ members_of e (iv_config s1) ps \<noteq> [])"
    "args_text (?kvs @ members_of e (iv_config s1) ps) = args_text ?kvs @ out" by blast
  have lead: "param_lead s = lead_of kvs" using Cons.prems(5) by (simp add: param_lead_def lead_of_def codes_def)
  have m: "kvs @ members_of e (iv_config s) (kv # ps) = ?kvs @ members_of e (iv_config s1) ps"
    using x(1) s1(5) by (simp add: members_of_def kv same_call_def)
  let ?out = "(param_lead s @ dumps_text k @ 58 # dumps x) @ out"
  have "leads (qwen_turn e tools fwd) s (map (ArgChar (iv_id s)) ?out) s'"
    using leads_trans [OF s1(1) s'(1)] s1(5) by (simp add: same_call_def)
  moreover have "args_text (kvs @ members_of e (iv_config s) (kv # ps)) = args_text kvs @ ?out"
    unfolding m s'(7) args_text_more lead by simp
  moreover have "same_call s s'" using s1(5) s'(5) by (simp add: same_call_def)
  ultimately show ?case using s'(2-4,6) unfolding m [symmetric]
    by (intro exI [of _ s'] exI [of _ w'] exI [of _ ?out]) simp
qed

definition next_call :: "invoke \<Rightarrow> int" where
  "next_call s = (if iv_id s = - 1 then 0 else iv_id s)"

lemma call_fields [simp]:
  "iv_config (open_invoke tools n s) = get_param_config n tools" "iv_buf (open_invoke tools n s) = iv_buf s"
  "iv_id (close_invoke fl s) = iv_id s + 1"
  by (simp_all add: open_invoke_def close_invoke_def Let_def)

lemma call_leads:
  assumes "iv_mode s = IIdle" "iv_buf s = t @ written_call name ps @ rest" "call_ok e tools fwd (t, name, ps)"
  shows "\<exists>s'. leads (qwen_turn e tools fwd) s
      (text_atoms t @ CallStart (next_call s) name # map (ArgChar (next_call s)) (object_text (arguments_of e tools name ps))) s'
    \<and> iv_mode s' = IIdle \<and> iv_buf s' = rest \<and> iv_id s' = next_call s + 1"
proof -
  let ?T = "qwen_turn e tools fwd" let ?kvs = "arguments_of e tools name ps"
  have c: "\<not> has_sub (codes ''<tool_call>'') t" "62 \<notin> set name" "strip name = name" "accepted_tool tools fwd name"
    "list_all (param_ok e (get_param_config name tools)) ps" using assms(3) by (simp_all add: call_ok_def)
  let ?r1 = "10 # codes ''<function='' @ name @ [62, 10] @ written_params ps @ codes ''</function>'' @ 10 # codes ''</tool_call>'' @ rest"
  have "iv_buf s = t @ codes ''<tool_call>'' @ ?r1" using assms(2) by (simp add: written_call_def)
  note l1 = idle_leads [OF assms(1) this c(1), of e tools fwd]
  let ?s1 = "s\<lparr>iv_buf := ?r1, iv_mode := IBlock\<rparr>"
  let ?r2 = "10 # written_params ps @ codes ''</function>'' @ 10 # codes ''</tool_call>'' @ rest"
  have b1: "iv_buf ?s1 = [10] @ codes ''<function='' @ name @ 62 # ?r2" by simp
  have n10: "60 \<notin> set [10 :: int]" by simp
  note l2 = block_leads [OF _ b1 n10 c(2-4), of e]
  obtain s2 where s2: "s2 = open_invoke tools name ((enter_invoke ?s1)\<lparr>iv_buf := ?r2\<rparr>)" by blast
  have id2: "iv_id s2 = next_call s" "iv_id (enter_invoke ?s1) = next_call s" by (simp_all add: s2 next_call_def)
  have b2: "iv_buf s2 = [10] @ written_params ps @ (codes ''</function>'' @ 10 # codes ''</tool_call>'' @ rest)" by (simp add: s2)
  have cf: "list_all (param_ok e (iv_config s2)) ps" "iv_started s2 = (([] :: members) \<noteq> [])" "iv_mode s2 = IInvoke" using c(5) by (simp_all add: s2)
  have kv: "members_of e (iv_config s2) ps = ?kvs" by (simp add: s2 arguments_of_def)
  have na: "args_text [] = []" by (simp add: args_text_def)
  from params_leads [OF cf(3) b2 n10 cf(1,2)] obtain s3 w out where l3: "leads ?T s2 (map (ArgChar (next_call s)) out) s3"
    "iv_mode s3 = IInvoke" "iv_buf s3 = w @ codes ''</function>'' @ 10 # codes ''</tool_call>'' @ rest" "60 \<notin> set w" "same_call s2 s3"
    "iv_started s3 = (?kvs \<noteq> [])" "args_text ?kvs = out"
    unfolding id2 kv na append_Nil by blast
  note l4 = close_leads [OF l3(2,3,4), of e tools fwd]
  let ?s4 = "(close_invoke (pe_repr e) s3)\<lparr>iv_buf := 10 # codes ''</tool_call>'' @ rest, iv_mode := IBlock\<rparr>"
  have b4: "iv_buf ?s4 = [10] @ codes ''</tool_call>'' @ rest" by simp
  note l5 = block_end_leads [OF _ b4 n10, of e tools fwd]
  let ?s5 = "?s4\<lparr>iv_buf := rest, iv_mode := IIdle\<rparr>"
  have id3: "iv_id s3 = next_call s" using l3(5) id2 by (simp add: same_call_def)
  have out: "object_text ?kvs = out @ (if iv_started s3 then [125] else [123, 125])"
    using l3(6,7) na by (cases "?kvs = []") (simp_all add: object_text_def)
  have "leads ?T s (text_atoms t @ [CallStart (next_call s) name] @ map (ArgChar (next_call s)) out @
      map (ArgChar (next_call s)) (if iv_started s3 then [125] else [123, 125]) @ []) ?s5"
    using leads_trans [OF l1 leads_trans [OF l2 [folded s2] leads_trans [OF l3(1) leads_trans [OF l4 l5]]]] unfolding id2 id3 by simp
  then show ?thesis unfolding out by (intro exI [of _ ?s5]) (simp add: id3)
qed

lemma doc_leads:
  assumes "iv_mode s = IIdle" "iv_buf s = written d tail" "- 1 \<le> iv_id s" "list_all (call_ok e tools fwd) d"
  shows "\<exists>s' as. leads (qwen_turn e tools fwd) s as s' \<and> iv_mode s' = IIdle \<and> iv_buf s' = tail \<and> expected e tools (next_call s) d tail = as @ text_atoms tail"
  using assms
proof (induction d arbitrary: s)
  case Nil
  then show ?case using leads_refl [of "qwen_turn e tools fwd" s] by (intro exI [of _ s] exI [of _ "[]"]) simp
next
  case (Cons c d)
  obtain t name ps where c: "c = (t, name, ps)" by (metis prod_cases3)
  have "iv_buf s = t @ written_call name ps @ written d tail" "call_ok e tools fwd (t, name, ps)" using Cons.prems(2,4) c by simp_all
  from call_leads [OF Cons.prems(1) this] obtain s1 where s1: "leads (qwen_turn e tools fwd) s
      (text_atoms t @ CallStart (next_call s) name # map (ArgChar (next_call s)) (object_text (arguments_of e tools name ps))) s1"
    "iv_mode s1 = IIdle" "iv_buf s1 = written d tail" "iv_id s1 = next_call s + 1" by blast
  have n: "next_call s1 = next_call s + 1" "- 1 \<le> iv_id s1" using s1(4) Cons.prems(3) by (auto simp: next_call_def)
  have "list_all (call_ok e tools fwd) d" using Cons.prems(4) by simp
  from Cons.IH [OF s1(2,3) n(2) this] obtain s' as where s': "leads (qwen_turn e tools fwd) s1 as s'" "iv_mode s' = IIdle" "iv_buf s' = tail"
    "expected e tools (next_call s1) d tail = as @ text_atoms tail" by blast
  from leads_trans [OF s1(1) s'(1)] s' n(1) c show ?case by (intro exI [of _ s'] exI conjI) (assumption | simp)+
qed

lemma expected_append: "expected e tools n d tail = expected e tools n d [] @ text_atoms tail"
  by (induction d arbitrary: n) auto

lemma idle_tail:
  assumes "iv_mode s = IIdle" "iv_buf s = tail" "\<not> has_sub (codes ''<tool_call>'') tail"
  shows "\<exists>s' as. runs (settle_invoke Qwen3Coder) (qwen_turn e tools fwd) s (ok (s', as)) \<and> as @ text_atoms (snd (invoke_finish (grammar_of Qwen3Coder) s')) = text_atoms tail"
proof -
  let ?o = "codes ''<tool_call>''" let ?Q = "grammar_of Qwen3Coder"
  let ?h = "held_suffix [?o] tail" let ?k = "length tail - ?h"
  let ?s' = "s\<lparr>iv_buf := drop ?k tail\<rparr>"
  have n: "find_sub ?o tail = None" using assms(3) by (simp add: has_sub_def)
  have "ends_with_partial tail ?o = ?h" using partial_held [OF qwen_sets(4)] .
  then have t: "qwen_turn e tools fwd s = ok (?s', take ?k tail, [], False)"
    using n assms(1,2) by (simp add: turn_idle idle_turn_def qwen_tags Let_def)
  from runs_waits [of "qwen_turn e tools fwd", OF t, of "settle_invoke Qwen3Coder"]
  have r: "runs (settle_invoke Qwen3Coder) (qwen_turn e tools fwd) s (ok (?s', text_atoms (take ?k tail)))"
    using assms(1) by (simp add: settle_invoke_def skip_count_def)
  have "drop ?k tail = [] \<or> strip (drop ?k tail) \<noteq> []"
  proof (cases "?h = 0")
    case False
    then obtain w where h: "?h < length ?o" "suffix (take ?h ?o) tail" using held_suffix_attained [of "[?o]" tail] by auto
    then have "drop ?k tail = take ?h ?o" by (simp add: suffix_iff_drop)
    then obtain y where y: "drop ?k tail = 60 # y" using False by (cases "take ?h ?o") (auto simp: codes_def take_Cons' split: if_splits)
    have "lstrip (60 # y) = 60 # y" by (simp add: lstrip_def is_space_def)
    moreover have "rstrip ([] @ [60] @ y) = [] @ [60] @ rstrip y" by (rule rstrip_keep) (simp_all add: is_space_def)
    ultimately show ?thesis unfolding y strip_def by simp
  qed simp
  then have "snd (invoke_finish ?Q ?s') = drop ?k tail"
    using find_sub_drop_None [OF n, of ?k] assms(1) by (auto simp: invoke_finish_def has_sub_def qwen_tags)
  moreover have "text_atoms (take ?k tail) @ text_atoms (drop ?k tail) = text_atoms tail"
    by (simp add: text_atoms_simps(2) [symmetric] del: text_atoms_simps(2))
  ultimately show ?thesis using r by (intro exI [of _ ?s'] exI [of _ "text_atoms (take ?k tail)"]) simp
qed

lemma param_value_ok: "env_ok e \<Longrightarrow> param_value e config k v = ok (Some w) \<Longrightarrow> jval_ok (pe_repr e) w"
  using convert_value_ok [of e "grammar_of Qwen3Coder" config k v w]
  by (auto simp: param_value_def convert_value_def qwen_tags codes_def split: if_splits)

lemma members_of_ok: "env_ok e \<Longrightarrow> members_ok e (members_of e config ps)"
  by (induction ps) (auto simp: members_of_def dest: param_value_ok split: sum.splits option.splits)

text \<open>C23: A document of Qwen3-Coder calls with at most fifteen opening markers, cut into any chunks, is streamed as it
  was written: the text outside the calls, for every call its number and name, and as its arguments the characters of a JSON
  object that reads back as the parameters that were written, each with the value the tool's schema makes
  of it. The document is well formed (\<open>call_ok\<close>): the text before a call holds no opening marker, names hold no
  \<open>>\<close> and no blanks at their ends, the function is one that is accepted, a value holds no closing tag and
  converts to a JSON value; a value may hold any other text, line feeds and other tags included. A
  document with more markers is not covered: the drain of one chunk stops after sixteen steps of at most one call each.\<close>

theorem invoke_round_trip:
  assumes "tools \<noteq> []" "env_ok e" "list_all (call_ok e tools fwd) d" "\<not> has_sub (codes ''<tool_call>'') tail"
    "concat cs = written d tail" "count_sub (codes ''<tool_call>'') (concat cs) \<le> 15"
  shows "delivered_by e Qwen3Coder tools fwd cs = ok (expected e tools 0 d tail)
    \<and> (\<forall>(t, name, ps) \<in> set d. loads (pe_repr e) (object_text (arguments_of e tools name ps)) = Some (VObj (as_dict (arguments_of e tools name ps))))"
proof
  let ?T = "qwen_turn e tools fwd" let ?s = "more (concat cs) invoke_init" let ?fin = "\<lambda>s. text_atoms (snd (invoke_finish (grammar_of Qwen3Coder) s))"
  obtain r where r: "runs (settle_invoke Qwen3Coder) ?T ?s r" "delivered_by e Qwen3Coder tools fwd cs = rbind r (\<lambda>(s, as). ok (as @ ?fin s))"
    using stream_delivers [OF assms(1), of Qwen3Coder cs e fwd] assms(6) by (auto simp: qwen_tags)
  have i: "iv_mode ?s = IIdle" "iv_buf ?s = written d tail" "- 1 \<le> iv_id ?s" "next_call ?s = 0"
    using assms(5) by (simp_all add: invoke_init_def next_call_def)
  obtain s1 as where s1: "leads ?T ?s as s1" "iv_mode s1 = IIdle" "iv_buf s1 = tail" "expected e tools 0 d tail = as @ text_atoms tail"
    using doc_leads [OF i(1,2,3) assms(3)] i(4) by auto
  obtain s2 bs where s2: "runs (settle_invoke Qwen3Coder) ?T s1 (ok (s2, bs))" "bs @ ?fin s2 = text_atoms tail"
    using idle_tail [OF s1(2,3) assms(4)] by blast
  have "r = prepend as (ok (s2, bs))" using runs_unique [OF r(1) leads_runs [OF s1(1) s2(1)]] .
  then show "delivered_by e Qwen3Coder tools fwd cs = ok (expected e tools 0 d tail)" using r(2) s1(4) s2(2) by simp
  show "\<forall>(t, name, ps) \<in> set d. loads (pe_repr e) (object_text (arguments_of e tools name ps)) = Some (VObj (as_dict (arguments_of e tools name ps)))"
  proof (clarify)
    fix t name ps
    assume "(t, name, ps) \<in> set d"
    have "members_ok e (arguments_of e tools name ps)" using members_of_ok [OF assms(2)] by (simp add: arguments_of_def)
    from loads_args [OF this]
    show "loads (pe_repr e) (object_text (arguments_of e tools name ps)) = Some (VObj (as_dict (arguments_of e tools name ps)))"
      by (simp add: object_text_def)
  qed
qed

section \<open>Examples\<close>

abbreviation half_env :: py_env where
  "half_env \<equiv> \<lparr>pe_repr = (\<lambda>_. codes ''0.5''), pe_float = (\<lambda>_. Some (Fractional (codes ''0.5''))), pe_literal = (\<lambda>_. None), pe_digit = (\<lambda>_. None)\<rparr>"

abbreviation int_tools :: "tool_function list" where
  "int_tools \<equiv> [\<lparr>tf_name = codes ''f'', tf_parameters = Some (VObj [(codes ''n'', VObj [(codes ''type'', VText (codes ''integer''))])])\<rparr>]"

abbreviation one_call :: document where
  "one_call \<equiv> [(codes ''a'', codes ''f'', [(codes ''s'', codes ''x''), (codes ''n'', codes ''42'')])]"

abbreviation call_chunks :: "utext list" where
  "call_chunks \<equiv> [codes ''a<tool'', codes ''_call>'' @ 10 # codes ''<function=f>'' @ 10 # codes ''<parameter=s>'' @ 10 # codes ''x'' @ [10], codes ''</para'',
     codes ''meter>'' @ 10 # codes ''<parameter=n>'' @ 10 # codes ''4'', codes ''2'' @ 10 # codes ''</parameter>'' @ 10 # codes ''</function>'' @ 10 # codes ''</tool_call>b'']"

lemma half_env_ok: "env_ok half_env"
proof -
  have "scan_atom (\<lambda>_. codes ''0.5'') (codes ''0.5'') = Some (VFloat (codes ''0.5''), [])" by code_simp
  then show ?thesis by (simp add: env_ok_def)
qed

lemma invoke_round_trip_witness:
  "delivered_by half_env Qwen3Coder int_tools False call_chunks
    = ok (TextChar 97 # CallStart 0 [102] # map (ArgChar 0) [123, 34, 115, 34, 58, 34, 120, 34, 44, 34, 110, 34, 58, 52, 50, 125] @ [TextChar 98])"
proof -
  have c: "list_all (call_ok half_env int_tools False) one_call" by code_simp
  have t: "\<not> has_sub (codes ''<tool_call>'') (codes ''b'')" by code_simp
  have w: "concat call_chunks = written one_call (codes ''b'')" by code_simp
  have n: "count_sub (codes ''<tool_call>'') (concat call_chunks) \<le> 15" by code_simp
  have x: "expected half_env int_tools 0 one_call (codes ''b'') =
    TextChar 97 # CallStart 0 [102] # map (ArgChar 0) [123, 34, 115, 34, 58, 34, 120, 34, 44, 34, 110, 34, 58, 52, 50, 125] @ [TextChar 98]"
    by code_simp
  have ne: "int_tools \<noteq> []" by simp
  from invoke_round_trip [OF ne half_env_ok c t w n] show ?thesis unfolding x by (rule conjunct1)
qed

lemma invoke_chunks_agree_witness:
  "delivered_by half_env Qwen3Coder int_tools False [codes ''a<tool'', codes ''_call>''] = delivered_by half_env Qwen3Coder int_tools False [codes ''a<tool_call>'']"
proof -
  have n: "count_sub (gm_outer_open (grammar_of Qwen3Coder)) (concat [codes ''a<tool'', codes ''_call>'']) \<le> 15" by code_simp
  have c: "concat [codes ''a<tool'', codes ''_call>''] = concat [codes ''a<tool_call>'']" by code_simp
  have ne: "int_tools \<noteq> []" by simp
  show ?thesis using invoke_chunks_agree [OF ne c n] .
qed

end
