(* ===== verification/Receipts.thy ===== *)
theory Receipts
  imports Prelude
begin

text \<open>
  The accounting receipts of the daemon: how \<open>daemon/serve_manager.py\<close> validates the document an
  engine returns and builds a receipt from it, falling back to degraded ones, and the outbox of
  \<open>daemon/accounting.py\<close> that keeps the receipts. A decoded JSON document is a value of type \<open>jdoc\<close>;
  the hash behind a receipt id (\<open>uuid5\<close>) is a parameter; a clock value is a parameter of the call.
\<close>

section \<open>Documents\<close>

datatype jdoc =
    DNull
  | DBool bool
  | DInt int
  | DFloat rat
  | DStr string
  | DArr "jdoc list"
  | DObj "(string \<times> jdoc) list"

text \<open>\<open>doc.get(k)\<close> and \<open>doc.get(k, doc.get(alt))\<close>: the default counts only when the key is missing.\<close>

definition jget :: "string \<Rightarrow> (string \<times> jdoc) list \<Rightarrow> jdoc" where
  "jget k doc = (case map_of doc k of None \<Rightarrow> DNull | Some v \<Rightarrow> v)"

definition jget_alt :: "string \<Rightarrow> string \<Rightarrow> (string \<times> jdoc) list \<Rightarrow> jdoc" where
  "jget_alt k alt doc = (case map_of doc k of None \<Rightarrow> jget alt doc | Some v \<Rightarrow> v)"

fun truthy :: "jdoc \<Rightarrow> bool" where
  "truthy DNull = False"
| "truthy (DBool b) = b"
| "truthy (DInt i) = (i \<noteq> 0)"
| "truthy (DFloat x) = (x \<noteq> 0)"
| "truthy (DStr s) = (s \<noteq> [])"
| "truthy (DArr xs) = (xs \<noteq> [])"
| "truthy (DObj kvs) = (kvs \<noteq> [])"

fun is_token_total :: "jdoc \<Rightarrow> bool" where
  "is_token_total (DInt i) = (i \<ge> 0)"
| "is_token_total _ = False"

fun int_of_total :: "jdoc \<Rightarrow> int" where
  "int_of_total (DInt i) = i"
| "int_of_total _ = 0"

fun uptime_of :: "jdoc \<Rightarrow> rat option" where
  "uptime_of (DInt i) = (if i \<ge> 0 then Some (of_int i) else None)"
| "uptime_of (DFloat x) = (if x \<ge> 0 then Some x else None)"
| "uptime_of _ = None"

record snapshot_doc =
  sp_instance :: "string option"
  sp_model :: string
  sp_prompt :: int
  sp_completion :: int
  sp_uptime :: rat

abbreviation prepare_error :: "string \<Rightarrow> py_error" where
  "prepare_error \<equiv> RuntimeError"

text \<open>A total is looked up at the top of the document, then in its \<open>requests\<close>.\<close>

definition total_in :: "string \<Rightarrow> string \<Rightarrow> (string \<times> jdoc) list \<Rightarrow> (string \<times> jdoc) list \<Rightarrow> jdoc" where
  "total_in k alt doc requests = (case jget_alt k alt doc of DNull \<Rightarrow> jget_alt k alt requests | v \<Rightarrow> v)"

definition model_of :: "string option \<Rightarrow> (string \<times> jdoc) list \<Rightarrow> jdoc" where
  "model_of model doc =
    (let v = (case (jget_alt ''model_id'' ''modelId'' doc, jget ''model'' doc) of
                (DNull, DObj m) \<Rightarrow> jget ''id'' m | (v, _) \<Rightarrow> v)
     in if truthy v then v else (case model of None \<Rightarrow> DNull | Some m \<Rightarrow> DStr m))"

definition check_values :: "string option \<Rightarrow> jdoc \<Rightarrow> jdoc \<Rightarrow> jdoc \<Rightarrow> jdoc \<Rightarrow> snapshot_doc result" where
  "check_values inst mdl prompt completion uptime =
    (case mdl of
       DStr m \<Rightarrow>
         if m = [] then raise (prepare_error ''missing model_id'')
         else if \<not> is_token_total prompt \<or> \<not> is_token_total completion then raise (prepare_error ''invalid token totals'')
         else (case uptime_of uptime of
           None \<Rightarrow> raise (prepare_error ''invalid uptime_s'')
         | Some u \<Rightarrow> ok \<lparr>sp_instance = inst, sp_model = m, sp_prompt = int_of_total prompt,
                        sp_completion = int_of_total completion, sp_uptime = u\<rparr>)
     | _ \<Rightarrow> raise (prepare_error ''missing model_id''))"

definition snapshot_values :: "string option \<Rightarrow> bool \<Rightarrow> jdoc \<Rightarrow> snapshot_doc result" where
  "snapshot_values model require_instance snapshot =
    (case snapshot of
       DObj doc \<Rightarrow>
         if jget ''reachable'' doc = DBool False \<or> jget ''running'' doc = DBool False
         then raise (prepare_error ''accounting snapshot is unreachable'')
         else
           (let inst = jget_alt ''instance_id'' ''instanceId'' doc;
                mdl = model_of model doc;
                requests = (case jget ''requests'' doc of DObj r \<Rightarrow> r | _ \<Rightarrow> []);
                prompt = total_in ''prompt_tokens_total'' ''promptTokensTotal'' doc requests;
                completion = total_in ''completion_tokens_total'' ''completionTokensTotal'' doc requests;
                uptime = jget_alt ''uptime_s'' ''uptimeS'' doc
            in case inst of
                 DNull \<Rightarrow> if require_instance then raise (prepare_error ''missing instance_id'')
                          else check_values None mdl prompt completion uptime
               | DStr i \<Rightarrow> if i = [] then raise (prepare_error ''invalid instance_id'')
                          else check_values (Some i) mdl prompt completion uptime
               | _ \<Rightarrow> raise (prepare_error ''invalid instance_id''))
     | _ \<Rightarrow> raise (prepare_error ''accounting snapshot is not an object''))"

section \<open>Receipts\<close>

record receipt =
  rc_id :: string
  rc_created :: int
  rc_instance :: "string option"
  rc_model :: "string option"
  rc_prompt :: "int option"
  rc_completion :: "int option"
  rc_uptime :: "int option"
  rc_drain :: bool
  rc_degraded :: bool
  rc_best_effort :: bool
  rc_reason :: "string option"
  rc_detail :: "string option"

text \<open>\<open>stable_receipt_id\<close>; \<open>uuid\<close> stands for \<open>str(uuid.uuid5(NAMESPACE_URL, _))\<close>.\<close>

definition stable_receipt_id :: "(string \<Rightarrow> string) \<Rightarrow> string \<Rightarrow> string" where
  "stable_receipt_id uuid identity = uuid (''freetoken-accounting:'' @ identity)"

definition created_ms :: "time \<Rightarrow> int" where
  "created_ms wall = (let t = wall * 1000 in max 0 (if t \<ge> 0 then \<lfloor>t\<rfloor> else \<lceil>t\<rceil>))"

definition str_int :: "int \<Rightarrow> string" where
  "str_int i = (if i < 0 then CHR ''-'' # nat_str (nat (- i)) else nat_str (nat i))"

definition or_none :: "string \<Rightarrow> string option" where
  "or_none s = (if s = [] then None else Some s)"

definition sealed_receipt :: "(string \<Rightarrow> string) \<Rightarrow> time \<Rightarrow> string option \<Rightarrow> jdoc \<Rightarrow> receipt result" where
  "sealed_receipt uuid wall model prepared =
    (case prepared of
       DObj doc \<Rightarrow>
         rbind (snapshot_values model True prepared) (\<lambda>v.
           if jget_alt ''drain_complete'' ''drainComplete'' doc \<noteq> DBool True
           then raise (prepare_error ''prepare-stop response is not fully drained'')
           else case sp_instance v of
             None \<Rightarrow> raise AssertionError
           | Some i \<Rightarrow>
               ok \<lparr>rc_id = stable_receipt_id uuid (''instance:'' @ i), rc_created = created_ms wall, rc_instance = Some i,
                   rc_model = Some (sp_model v), rc_prompt = Some (sp_prompt v), rc_completion = Some (sp_completion v),
                   rc_uptime = Some \<lfloor>sp_uptime v\<rfloor>, rc_drain = True, rc_degraded = False, rc_best_effort = False,
                   rc_reason = None, rc_detail = None\<rparr>)
     | _ \<Rightarrow> raise (prepare_error ''prepare-stop returned a non-object response''))"

definition degraded_receipt :: "(string \<Rightarrow> string) \<Rightarrow> time \<Rightarrow> string \<Rightarrow> string option \<Rightarrow> string \<Rightarrow> string \<Rightarrow> receipt" where
  "degraded_receipt uuid wall identity model reason detail =
    \<lparr>rc_id = stable_receipt_id uuid identity, rc_created = created_ms wall, rc_instance = None, rc_model = model,
     rc_prompt = None, rc_completion = None, rc_uptime = None, rc_drain = False, rc_degraded = True, rc_best_effort = True,
     rc_reason = Some reason, rc_detail = or_none detail\<rparr>"

text \<open>\<open>stats\<close> is what \<open>_read_stats(port)\<close> gives, \<open>Inl\<close> for its exception or when there is no reader or port.\<close>

definition best_effort_receipt :: "(string \<Rightarrow> string) \<Rightarrow> time \<Rightarrow> string \<Rightarrow> string option \<Rightarrow> jdoc result \<Rightarrow> string \<Rightarrow> bool \<Rightarrow> string
    \<Rightarrow> receipt result" where
  "best_effort_receipt uuid wall identity model stats reason force detail =
    (case rbind stats (snapshot_values model False) of
       Inr v \<Rightarrow>
         ok \<lparr>rc_id = stable_receipt_id uuid (''snapshot:'' @ (case sp_instance v of Some i \<Rightarrow> i | None \<Rightarrow> identity) @ '':'' @ sp_model v
               @ '':'' @ str_int (sp_prompt v) @ '':'' @ str_int (sp_completion v)),
             rc_created = created_ms wall, rc_instance = sp_instance v, rc_model = Some (sp_model v),
             rc_prompt = Some (sp_prompt v), rc_completion = Some (sp_completion v), rc_uptime = Some \<lfloor>sp_uptime v\<rfloor>,
             rc_drain = False, rc_degraded = True, rc_best_effort = True, rc_reason = Some reason, rc_detail = or_none detail\<rparr>
     | Inl e \<Rightarrow>
         if \<not> force then raise (prepare_error (reason @ '' stats fallback failed''))
         else ok (degraded_receipt uuid wall identity model (reason @ ''-stats-unavailable'')
                (if detail \<noteq> [] then detail @ ''; '' @ reason @ '' stats fallback failed'' else reason @ '' stats fallback failed'')))"

text \<open>The receipt for a child that died unasked; \<open>seen\<close> is the last observed snapshot.\<close>

definition crash_receipt :: "(string \<Rightarrow> string) \<Rightarrow> time \<Rightarrow> string \<Rightarrow> string option \<Rightarrow> snapshot_doc option \<Rightarrow> bool \<Rightarrow> string \<Rightarrow> receipt" where
  "crash_receipt uuid wall identity model seen was_stopping detail =
    \<lparr>rc_id = stable_receipt_id uuid (''crash:'' @ identity), rc_created = created_ms wall,
     rc_instance = (case seen of None \<Rightarrow> None | Some v \<Rightarrow> sp_instance v),
     rc_model = (case seen of None \<Rightarrow> model | Some v \<Rightarrow> Some (sp_model v)),
     rc_prompt = map_option sp_prompt seen, rc_completion = map_option sp_completion seen,
     rc_uptime = map_option (\<lambda>v. \<lfloor>sp_uptime v\<rfloor>) seen, rc_drain = False, rc_degraded = True, rc_best_effort = True,
     rc_reason = Some (if was_stopping then ''engine-crashed-during-stop'' else ''engine-crashed''), rc_detail = Some detail\<rparr>"

text \<open>How the engine answers \<open>prepare-stop\<close>: the endpoint is missing (or no client is configured), the
  call fails, or it returns a document.\<close>

datatype prepare_answer = Unavailable string | PrepareFailed string | Answered jdoc

definition prepare_receipt :: "(string \<Rightarrow> string) \<Rightarrow> time \<Rightarrow> string \<Rightarrow> string option \<Rightarrow> prepare_answer \<Rightarrow> jdoc result \<Rightarrow> bool
    \<Rightarrow> receipt result" where
  "prepare_receipt uuid wall identity model ans stats force =
    (let failed = (\<lambda>msg. if \<not> force then raise (prepare_error msg)
                        else best_effort_receipt uuid wall identity model stats ''prepare-stop-failed'' True msg)
     in case ans of
          Unavailable msg \<Rightarrow> best_effort_receipt uuid wall identity model stats ''legacy-engine'' force msg
        | PrepareFailed msg \<Rightarrow> failed msg
        | Answered doc \<Rightarrow>
            (case sealed_receipt uuid wall model doc of
               Inr r \<Rightarrow> ok r
             | Inl (RuntimeError msg) \<Rightarrow> failed msg
             | Inl _ \<Rightarrow> failed ''prepare-stop failed''))"

section \<open>The outbox (daemon/accounting.py)\<close>

type_synonym outbox = "(string \<times> receipt) list"

definition safe_char :: "char \<Rightarrow> bool" where
  "safe_char c \<longleftrightarrow> (let n = of_char c :: nat in (65 \<le> n \<and> n \<le> 90) \<or> (97 \<le> n \<and> n \<le> 122) \<or> (48 \<le> n \<and> n \<le> 57)
     \<or> n = 46 \<or> n = 95 \<or> n = 45)"

definition valid_receipt_id :: "string \<Rightarrow> bool" where
  "valid_receipt_id s \<longleftrightarrow> 1 \<le> int (length s) \<and> int (length s) \<le> 200 \<and> list_all safe_char s"

text \<open>What becomes of a new file: it reaches its place; writing it fails, which is caught and raised as
  \<open>AccountingOutboxError\<close>; or the directory cannot be made, whose \<open>OSError\<close> is raised as it is.\<close>

datatype disk = Stored | WriteFails | NoFolder

abbreviation outbox_error :: py_error where
  "outbox_error \<equiv> RuntimeError ''AccountingOutboxError''"

definition persist :: "disk \<Rightarrow> receipt \<Rightarrow> outbox \<Rightarrow> (outbox \<times> receipt) result" where
  "persist disk r box =
    (if \<not> valid_receipt_id (rc_id r) then raise (ValueError ''invalid accounting receiptId'')
     else case map_of box (rc_id r) of
       Some r0 \<Rightarrow> ok (box, r0)
     | None \<Rightarrow>
         (case disk of
            Stored \<Rightarrow> ok (box @ [(rc_id r, r)], r)
          | WriteFails \<Rightarrow> raise outbox_error
          | NoFolder \<Rightarrow> raise (RuntimeError ''OSError'')))"

text \<open>After a call that returns, the outbox holds the receipt of that id, the older one if there was one.\<close>

lemma persist_ok:
  assumes "persist disk r box = ok (box', r')"
  shows "map_of box' (rc_id r) = Some r'" "r' = (case map_of box (rc_id r) of None \<Rightarrow> r | Some r0 \<Rightarrow> r0)"
  using assms by (auto simp: persist_def map_add_def split: if_splits option.splits disk.splits)

lemma persist_stored: "valid_receipt_id (rc_id r) \<Longrightarrow> \<exists>x. persist Stored r box = ok x"
  by (auto simp: persist_def split: option.splits)

definition pending_receipts :: "outbox \<Rightarrow> receipt list" where
  "pending_receipts box = sort_key rc_created (sort_key rc_id (map snd box))"

definition ack_receipt :: "string \<Rightarrow> outbox \<Rightarrow> (outbox \<times> bool) result" where
  "ack_receipt i box =
    (if \<not> valid_receipt_id i then raise (ValueError ''invalid accounting receiptId'')
     else ok (AList.delete i box, map_of box i = None))"

section \<open>What a receipt says\<close>

lemma best_effort_cases:
  assumes "best_effort_receipt uuid wall i model stats reason force msg = ok r"
  shows "rc_degraded r \<and> rc_best_effort r \<and> \<not> rc_drain r
    \<and> (rc_prompt r = None \<and> rc_completion r = None \<and> force
       \<or> (\<exists>v. rbind stats (snapshot_values model False) = ok v \<and> rc_prompt r = Some (sp_prompt v) \<and> rc_completion r = Some (sp_completion v)))"
  using assms
  by (cases "rbind stats (snapshot_values model False)") (auto simp: best_effort_receipt_def degraded_receipt_def simp del: rbind_eq_Inr split: if_splits)

lemma sealed_cases:
  assumes "sealed_receipt uuid wall model d = ok r"
  shows "\<exists>doc v. d = DObj doc \<and> jget_alt ''drain_complete'' ''drainComplete'' doc = DBool True
    \<and> snapshot_values model True d = ok v \<and> sp_instance v \<noteq> None \<and> \<not> rc_degraded r \<and> rc_drain r
    \<and> rc_instance r = sp_instance v \<and> rc_prompt r = Some (sp_prompt v) \<and> rc_completion r = Some (sp_completion v)"
  using assms by (auto simp: sealed_receipt_def split: jdoc.splits if_splits option.splits)

lemma best_effort_forced: "is_ok (best_effort_receipt uuid wall i model stats reason True msg)"
  by (simp add: best_effort_receipt_def split: sum.splits)

text \<open>A receipt that is not degraded comes from a fully drained document and carries its totals; a
  degraded one carries the totals of the stats or none, and without force it is only written for an
  engine that has no prepare-stop. With force there is always a receipt.\<close>

theorem stop_receipt_sound:
  "(prepare_receipt uuid wall i model ans stats force = ok r \<longrightarrow>
     (\<not> rc_degraded r \<and> rc_drain r \<and> (\<exists>doc v. ans = Answered (DObj doc) \<and> jget_alt ''drain_complete'' ''drainComplete'' doc = DBool True
        \<and> snapshot_values model True (DObj doc) = ok v \<and> rc_prompt r = Some (sp_prompt v) \<and> rc_completion r = Some (sp_completion v)))
     \<or> (rc_degraded r \<and> \<not> rc_drain r \<and> (force \<or> (\<exists>msg. ans = Unavailable msg))
        \<and> (rc_prompt r = None \<and> rc_completion r = None \<and> force
           \<or> (\<exists>v. rbind stats (snapshot_values model False) = ok v \<and> rc_prompt r = Some (sp_prompt v) \<and> rc_completion r = Some (sp_completion v)))))
   \<and> (force \<longrightarrow> is_ok (prepare_receipt uuid wall i model ans stats force))"
proof (cases ans)
  case (Unavailable msg)
  then show ?thesis using best_effort_cases [of uuid wall i model stats "''legacy-engine''" force msg r] best_effort_forced
    by (auto simp: prepare_receipt_def Let_def simp del: rbind_eq_Inr)
next
  case (PrepareFailed msg)
  then show ?thesis using best_effort_cases [of uuid wall i model stats "''prepare-stop-failed''" True msg r] best_effort_forced
    by (auto simp: prepare_receipt_def Let_def simp del: rbind_eq_Inr)
next
  case (Answered doc)
  show ?thesis
  proof (cases "sealed_receipt uuid wall model doc")
    case (Inr r')
    then have p: "prepare_receipt uuid wall i model ans stats force = ok r'" using Answered by (simp add: prepare_receipt_def Let_def)
    show ?thesis unfolding p using sealed_cases [OF Inr] Answered by (auto simp del: rbind_eq_Inr)
  next
    case (Inl e)
    then obtain msg where p: "prepare_receipt uuid wall i model ans stats force =
      (if \<not> force then raise (prepare_error msg) else best_effort_receipt uuid wall i model stats ''prepare-stop-failed'' True msg)"
      using Answered by (cases e) (auto simp: prepare_receipt_def Let_def)
    show ?thesis unfolding p using best_effort_cases [of uuid wall i model stats "''prepare-stop-failed''" True msg r] best_effort_forced
      by (auto simp del: rbind_eq_Inr)
  qed
qed

abbreviation demo_doc :: jdoc where
  "demo_doc \<equiv> DObj [(''instance_id'', DStr ''i''), (''model_id'', DStr ''m''), (''prompt_tokens_total'', DInt 5),
     (''completion_tokens_total'', DInt 7), (''uptime_s'', DInt 3), (''drain_complete'', DBool True)]"

lemma stop_receipt_sound_witness:
  "\<exists>r. prepare_receipt (\<lambda>_. ''r'') 1 ''legacy:7:None'' None (Answered demo_doc) (raise KeyError) True = ok r
     \<and> \<not> rc_degraded r \<and> rc_drain r \<and> rc_prompt r = Some 5"
proof -
  have "is_ok (prepare_receipt (\<lambda>_. ''r'') 1 ''legacy:7:None'' None (Answered demo_doc) (raise KeyError) True)"
    using stop_receipt_sound [where force = True] by blast
  then obtain r where r: "prepare_receipt (\<lambda>_. ''r'') 1 ''legacy:7:None'' None (Answered demo_doc) (raise KeyError) True = ok r"
    by (auto simp: is_ok_def split: sum.splits)
  have "map_option rc_prompt (case prepare_receipt (\<lambda>_. ''r'') 1 ''legacy:7:None'' None (Answered demo_doc) (raise KeyError) True of
      Inl _ \<Rightarrow> None | Inr r \<Rightarrow> Some r) = Some (Some 5)" by code_simp
  then have "rc_prompt r = Some 5" using r by simp
  moreover have "\<not> rc_degraded r \<and> rc_drain r"
    using stop_receipt_sound [THEN conjunct1, rule_format, OF r] \<open>rc_prompt r = Some 5\<close> by auto
  ultimately show ?thesis using r by blast
qed

end
