(* ===== verification/ServeManager.thy ===== *)
theory ServeManager
  imports Receipts
begin

text \<open>
  \<open>daemon/serve_manager.py\<close>: one \<open>ft serve\<close> child, its starts, stops, switches and shutdowns, the monitor
  thread that reaps it, and the automatic restart. A definition is one critical section of
  \<open>_cond\<close> (or a step between two of them that touches shared state); the step relation \<open>mstep\<close>
  interleaves them. The lifecycle lock admits one transaction at a time: \<open>sm_op\<close> is its position.
  The accounting guard is held from the call of \<open>prepare-stop\<close> until its receipt is stored, which makes
  \<open>stop_prepared\<close> one step for the crash receipts of the monitor.

  The environment is part of the state: the processes that run, the signals sent, the monitor
  threads with their positions, and the restart threads that wait for the lifecycle lock. A failing
  \<open>wait()\<close>, log lines, tailers and the OOM score are left out.

  A monitor that an uncaught exception has ended is \<open>Broken\<close>. A process counts as running until its monitor has seen
  it exit, so one without a live monitor stays in \<open>sm_running\<close>. Spawning the process and publishing it are one
  step, as are saving the pidfile and starting the monitor: in between the lifecycle lock and \<open>sm_starting\<close> keep every
  other transaction away, and no monitor knows the child.
\<close>

section \<open>State\<close>

record serve_cfg =
  cf_model :: string
  cf_port :: int
  cf_args :: "string list"

record child =
  ch_gen :: nat
  ch_pid :: int
  ch_start :: "int option"
  ch_adopted :: bool

record exit_info =
  ei_code :: "int option"
  ei_source :: string

datatype signal = SIGTERM | SIGKILL

datatype op_mode = StopOnly | SwitchTo serve_cfg | Shutdown

datatype op =
    Idle
  | Spawning serve_cfg
  | Spawned serve_cfg child
  | Preparing op_mode bool child "string option" "int option"
  | Signalling op_mode child
  | TermWait op_mode child
  | KillWait op_mode child

datatype mon_pc =
    Waiting
  | Exited exit_info
  | Observed exit_info bool bool "string option"
  | Accounted exit_info bool
  | Cleared exit_info bool bool
  | Finished bool bool
  | Done
  | Broken

record mgr =
  sm_child :: "child option"
  sm_cfg :: "serve_cfg option"
  sm_started :: "time option"
  sm_last :: "exit_info option"
  sm_stopping :: bool
  sm_starting :: bool
  sm_stop_req :: bool
  sm_shutdown :: bool
  sm_auto :: bool
  sm_durable :: "string list"
  sm_seen :: "(string \<times> snapshot_doc) list"
  sm_outbox :: outbox
  sm_store :: "(serve_cfg \<times> child) option"
  sm_op :: op
  sm_gen :: nat
  sm_running :: "child list"
  sm_reaped :: "nat list"
  sm_signals :: "(child \<times> signal) list"
  sm_mons :: "(child \<times> mon_pc) list"
  sm_restarts :: "serve_cfg list"

definition mgr_init :: "bool \<Rightarrow> outbox \<Rightarrow> (serve_cfg \<times> child) option \<Rightarrow> mgr" where
  "mgr_init auto box store =
    \<lparr>sm_child = None, sm_cfg = None, sm_started = None, sm_last = None, sm_stopping = False, sm_starting = False,
     sm_stop_req = False, sm_shutdown = False, sm_auto = auto, sm_durable = [], sm_seen = [], sm_outbox = box,
     sm_store = store, sm_op = Idle, sm_gen = 0, sm_running = [], sm_reaped = [], sm_signals = [], sm_mons = [],
     sm_restarts = []\<rparr>"

text \<open>\<open>_child_identity\<close>\<close>

definition child_identity :: "child \<Rightarrow> string" where
  "child_identity c = ''legacy:'' @ str_int (ch_pid c) @ '':'' @ (case ch_start c of None \<Rightarrow> ''None'' | Some t \<Rightarrow> str_int t)"

section \<open>Starting\<close>

datatype start_reply = Aborted | Refused | Idempotent int | Wait | Spawn

definition start_admit :: "bool \<Rightarrow> serve_cfg \<Rightarrow> mgr \<Rightarrow> mgr \<times> start_reply" where
  "start_admit auto cfg m =
    (if sm_shutdown m then (m, if auto then Aborted else Refused)
     else if auto \<and> sm_stop_req m then (m, Aborted)
     else
       let m = (if auto then m else m\<lparr>sm_stop_req := False\<rparr>) in
       case (sm_child m, sm_stopping m) of
         (Some c, False) \<Rightarrow> (m, if sm_cfg m = Some cfg then Idempotent (ch_pid c) else Refused)
       | _ \<Rightarrow>
           if sm_starting m then (m, Wait)
           else if auto \<and> sm_stop_req m then (m, Aborted)
           else (m\<lparr>sm_starting := True\<rparr>, Spawn))"

definition start_failed :: "mgr \<Rightarrow> mgr" where
  "start_failed m = m\<lparr>sm_starting := False, sm_op := Idle\<rparr>"

definition start_spawned :: "time \<Rightarrow> int \<Rightarrow> int option \<Rightarrow> serve_cfg \<Rightarrow> mgr \<Rightarrow> mgr" where
  "start_spawned now pid start cfg m =
    (let c = \<lparr>ch_gen = sm_gen m, ch_pid = pid, ch_start = start, ch_adopted = False\<rparr> in
     m\<lparr>sm_child := Some c, sm_cfg := Some cfg, sm_started := Some now, sm_last := None, sm_stopping := False,
       sm_starting := False, sm_op := Spawned cfg c, sm_gen := Suc (sm_gen m), sm_running := sm_running m @ [c]\<rparr>)"

definition begin_watch :: "child \<Rightarrow> mgr \<Rightarrow> mgr" where
  "begin_watch c m = m\<lparr>sm_mons := sm_mons m @ [(c, Waiting)]\<rparr>"

definition start_watch :: "serve_cfg \<Rightarrow> child \<Rightarrow> mgr \<Rightarrow> mgr" where
  "start_watch cfg c m = (begin_watch c m)\<lparr>sm_store := Some (cfg, c), sm_op := Idle\<rparr>"

text \<open>The pidfile cannot be saved: the start raises, and its child has no monitor.\<close>

definition start_unsaved :: "mgr \<Rightarrow> mgr" where
  "start_unsaved m = m\<lparr>sm_op := Idle\<rparr>"

text \<open>A start that holds the lifecycle lock up to its spawn.\<close>

definition start_call :: "bool \<Rightarrow> serve_cfg \<Rightarrow> mgr \<Rightarrow> mgr \<times> start_reply" where
  "start_call auto cfg m =
    (case start_admit auto cfg m of (m, a) \<Rightarrow> (m\<lparr>sm_op := (if a = Spawn then Spawning cfg else Idle)\<rparr>, a))"

section \<open>Stopping\<close>

text \<open>How a transaction goes on after its stop has succeeded, and when it has raised.\<close>

definition stop_done :: "op_mode \<Rightarrow> mgr \<Rightarrow> mgr" where
  "stop_done mode m = (case mode of SwitchTo cfg \<Rightarrow> fst (start_call False cfg m) | _ \<Rightarrow> m\<lparr>sm_op := Idle\<rparr>)"

definition stop_raised :: "op_mode \<Rightarrow> child \<Rightarrow> mgr \<Rightarrow> mgr" where
  "stop_raised mode c m =
    (let m = (if sm_child m = Some c then m\<lparr>sm_stopping := False\<rparr> else m);
         m = (if mode = Shutdown then m\<lparr>sm_shutdown := False\<rparr> else m)
     in m\<lparr>sm_op := Idle\<rparr>)"

definition stop_call :: "op_mode \<Rightarrow> bool \<Rightarrow> mgr \<Rightarrow> mgr" where
  "stop_call mode force m =
    (let m = (if mode = Shutdown then m\<lparr>sm_shutdown := True\<rparr> else m);
         m = m\<lparr>sm_stop_req := True\<rparr>
     in case sm_child m of
          None \<Rightarrow> stop_done mode m
        | Some c \<Rightarrow> m\<lparr>sm_stopping := True, sm_op := Preparing mode force c (map_option cf_model (sm_cfg m)) (map_option cf_port (sm_cfg m))\<rparr>)"

text \<open>Without a control port nothing is asked.\<close>

definition answer_of :: "int option \<Rightarrow> prepare_answer \<Rightarrow> prepare_answer" where
  "answer_of port ans =
    (if port = None \<and> (\<forall>d. ans \<noteq> Unavailable d) then PrepareFailed ''running engine has no control port'' else ans)"

definition stats_of :: "int option \<Rightarrow> jdoc result \<Rightarrow> jdoc result" where
  "stats_of port stats = (if port = None then raise (prepare_error ''stats fallback is unavailable'') else stats)"

definition stop_prepared :: "(string \<Rightarrow> string) \<Rightarrow> time \<Rightarrow> prepare_answer \<Rightarrow> jdoc result \<Rightarrow> disk \<Rightarrow> op_mode \<Rightarrow> bool \<Rightarrow> child
    \<Rightarrow> string option \<Rightarrow> int option \<Rightarrow> mgr \<Rightarrow> mgr" where
  "stop_prepared uuid wall ans stats disk mode force c model port m =
    (let ident = child_identity c in
     case rbind (prepare_receipt uuid wall ident model (answer_of port ans) (stats_of port stats) force) (\<lambda>r. persist disk r (sm_outbox m)) of
          Inl e \<Rightarrow> stop_raised mode c m
        | Inr (box, r) \<Rightarrow>
            m\<lparr>sm_outbox := box, sm_durable := List.insert ident (sm_durable m), sm_seen := AList.delete ident (sm_seen m),
              sm_op := Signalling mode c\<rparr>)"

definition stop_signal :: "op_mode \<Rightarrow> child \<Rightarrow> mgr \<Rightarrow> mgr" where
  "stop_signal mode c m =
    (if ch_gen c \<in> set (sm_reaped m) then stop_done mode m
     else m\<lparr>sm_signals := sm_signals m @ [(c, SIGTERM)], sm_op := TermWait mode c\<rparr>)"

definition stop_grace_over :: "op_mode \<Rightarrow> child \<Rightarrow> mgr \<Rightarrow> mgr" where
  "stop_grace_over mode c m = m\<lparr>sm_signals := sm_signals m @ [(c, SIGKILL)], sm_op := KillWait mode c\<rparr>"

section \<open>Reaping\<close>

definition set_mon :: "child \<Rightarrow> mon_pc \<Rightarrow> mgr \<Rightarrow> mgr" where
  "set_mon c pc m = m\<lparr>sm_mons := AList.update c pc (sm_mons m)\<rparr>"

definition mon_exit :: "child \<Rightarrow> exit_info \<Rightarrow> mgr \<Rightarrow> mgr" where
  "mon_exit c info m = set_mon c (Exited info) (m\<lparr>sm_running := removeAll c (sm_running m)\<rparr>)"

definition mon_observe :: "child \<Rightarrow> exit_info \<Rightarrow> mgr \<Rightarrow> mgr" where
  "mon_observe c info m =
    set_mon c (Observed info (sm_stopping m \<or> sm_stop_req m) (sm_child m = Some c) (map_option cf_model (sm_cfg m))) m"

text \<open>Only \<open>AccountingOutboxError\<close> is caught; any other exception ends the monitor before it has forgotten the child.\<close>

definition mon_account :: "(string \<Rightarrow> string) \<Rightarrow> time \<Rightarrow> string \<Rightarrow> disk \<Rightarrow> child \<Rightarrow> exit_info \<Rightarrow> bool \<Rightarrow> bool \<Rightarrow> string option \<Rightarrow> mgr \<Rightarrow> mgr" where
  "mon_account uuid wall detail disk c info was_stopping is_current model m =
    (let ident = child_identity c; next = set_mon c (Accounted info was_stopping) in
     if \<not> is_current \<or> ident \<in> set (sm_durable m) then next m
     else case persist disk (crash_receipt uuid wall ident model (map_of (sm_seen m) ident) was_stopping detail) (sm_outbox m) of
       Inl e \<Rightarrow> if e = outbox_error then next (m\<lparr>sm_stop_req := True\<rparr>) else set_mon c Broken m
     | Inr (box, _) \<Rightarrow>
         next (m\<lparr>sm_outbox := box, sm_durable := List.insert ident (sm_durable m), sm_seen := AList.delete ident (sm_seen m)\<rparr>))"

definition mon_clear :: "child \<Rightarrow> exit_info \<Rightarrow> bool \<Rightarrow> mgr \<Rightarrow> mgr" where
  "mon_clear c info was_stopping m =
    (if sm_child m = Some c then
       let info = (if was_stopping then \<lparr>ei_code = ei_code info, ei_source = ''stopped''\<rparr> else info) in
       set_mon c (Cleared info was_stopping True)
         (m\<lparr>sm_child := None, sm_started := None, sm_stopping := False, sm_last := Some info\<rparr>)
     else set_mon c (Cleared info was_stopping False) m)"

definition mon_finish :: "child \<Rightarrow> bool \<Rightarrow> bool \<Rightarrow> mgr \<Rightarrow> mgr" where
  "mon_finish c was_stopping is_current m =
    set_mon c (Finished was_stopping is_current)
      (m\<lparr>sm_store := (if is_current then None else sm_store m), sm_reaped := List.insert (ch_gen c) (sm_reaped m)\<rparr>)"

definition mon_restart :: "child \<Rightarrow> bool \<Rightarrow> bool \<Rightarrow> mgr \<Rightarrow> mgr" where
  "mon_restart c was_stopping is_current m =
    set_mon c Done
      (case sm_cfg m of
         Some cfg \<Rightarrow>
           if is_current \<and> \<not> was_stopping \<and> sm_auto m \<and> \<not> sm_stop_req m then m\<lparr>sm_restarts := sm_restarts m @ [cfg]\<rparr> else m
       | None \<Rightarrow> m)"

section \<open>Other operations\<close>

text \<open>\<open>readopt\<close> at boot; \<open>alive\<close> says whether the recorded process is still a serve on its port.\<close>

definition readopt :: "time \<Rightarrow> bool \<Rightarrow> mgr \<Rightarrow> mgr" where
  "readopt now alive m =
    (case sm_store m of
       None \<Rightarrow> m
     | Some (cfg, c) \<Rightarrow>
         if \<not> alive then m\<lparr>sm_store := None\<rparr>
         else
           let c = c\<lparr>ch_gen := sm_gen m, ch_adopted := True\<rparr> in
           begin_watch c (m\<lparr>sm_child := Some c, sm_cfg := Some cfg, sm_started := Some now, sm_last := None, sm_stopping := False,
             sm_gen := Suc (sm_gen m), sm_running := sm_running m @ [c]\<rparr>))"

definition observe_accounting :: "jdoc \<Rightarrow> mgr \<Rightarrow> mgr" where
  "observe_accounting doc m =
    (case sm_child m of
       None \<Rightarrow> m
     | Some c \<Rightarrow> (case snapshot_values (map_option cf_model (sm_cfg m)) False doc of
         Inl _ \<Rightarrow> m
       | Inr v \<Rightarrow> m\<lparr>sm_seen := AList.update (child_identity c) v (sm_seen m)\<rparr>))"

definition ack_accounting :: "string \<Rightarrow> mgr \<Rightarrow> mgr" where
  "ack_accounting i m = (case ack_receipt i (sm_outbox m) of Inl _ \<Rightarrow> m | Inr (box, _) \<Rightarrow> m\<lparr>sm_outbox := box\<rparr>)"

record serve_status =
  vs_running :: bool
  vs_starting :: bool
  vs_stopping :: bool
  vs_adopted :: bool
  vs_pid :: "int option"
  vs_model :: "string option"
  vs_uptime :: int
  vs_last :: "exit_info option"

definition status_of :: "time \<Rightarrow> mgr \<Rightarrow> serve_status" where
  "status_of now m =
    (let running = (sm_child m \<noteq> None \<and> \<not> sm_stopping m) in
     \<lparr>vs_running = running, vs_starting = sm_starting m, vs_stopping = sm_stopping m,
      vs_adopted = (case sm_child m of Some c \<Rightarrow> running \<and> ch_adopted c | None \<Rightarrow> False),
      vs_pid = map_option ch_pid (sm_child m), vs_model = map_option cf_model (sm_cfg m),
      vs_uptime = (case sm_started m of Some t \<Rightarrow> if running then \<lfloor>now - t\<rfloor> else 0 | None \<Rightarrow> 0),
      vs_last = sm_last m\<rparr>)"

section \<open>Interleavings\<close>

text \<open>A label says which call or thread moves. A waiting call takes no step.\<close>

datatype mlabel = UserStart | AutoStart | UserStop | UserSwitch | UserShutdown | Inside | Monitor | Report

inductive mstep :: "(string \<Rightarrow> string) \<Rightarrow> mgr \<Rightarrow> mlabel \<Rightarrow> mgr \<Rightarrow> bool" for uuid where
  user_start: "sm_op m = Idle \<Longrightarrow> start_call False cfg m = (m', a) \<Longrightarrow> a \<noteq> Wait \<Longrightarrow> mstep uuid m UserStart m'"
| auto_start: "sm_op m = Idle \<Longrightarrow> cfg \<in> set (sm_restarts m)
    \<Longrightarrow> start_call True cfg (m\<lparr>sm_restarts := remove1 cfg (sm_restarts m)\<rparr>) = (m', a) \<Longrightarrow> a \<noteq> Wait \<Longrightarrow> mstep uuid m AutoStart m'"
| spawn_fails: "sm_op m = Spawning cfg \<Longrightarrow> mstep uuid m Inside (start_failed m)"
| spawn: "sm_op m = Spawning cfg \<Longrightarrow> mstep uuid m Inside (start_spawned now pid start cfg m)"
| watch: "sm_op m = Spawned cfg c \<Longrightarrow> mstep uuid m Inside (start_watch cfg c m)"
| save_fails: "sm_op m = Spawned cfg c \<Longrightarrow> mstep uuid m Inside (start_unsaved m)"
| user_stop: "sm_op m = Idle \<Longrightarrow> mstep uuid m UserStop (stop_call StopOnly force m)"
| user_switch: "sm_op m = Idle \<Longrightarrow> mstep uuid m UserSwitch (stop_call (SwitchTo cfg) force m)"
| user_shutdown: "sm_op m = Idle \<Longrightarrow> mstep uuid m UserShutdown (stop_call Shutdown force m)"
| prepared: "sm_op m = Preparing mode force c model port
    \<Longrightarrow> mstep uuid m Inside (stop_prepared uuid wall ans stats disk mode force c model port m)"
| term_sent: "sm_op m = Signalling mode c \<Longrightarrow> mstep uuid m Inside (stop_signal mode c m)"
| signal_fails: "sm_op m = Signalling mode c \<Longrightarrow> ch_gen c \<notin> set (sm_reaped m) \<Longrightarrow> mstep uuid m Inside (stop_raised mode c m)"
| kill_fails: "sm_op m = TermWait mode c \<Longrightarrow> mstep uuid m Inside (stop_raised mode c m)"
| term_done: "sm_op m = TermWait mode c \<Longrightarrow> ch_gen c \<in> set (sm_reaped m) \<Longrightarrow> mstep uuid m Inside (stop_done mode m)"
| grace_over: "sm_op m = TermWait mode c \<Longrightarrow> mstep uuid m Inside (stop_grace_over mode c m)"
| kill_done: "sm_op m = KillWait mode c \<Longrightarrow> ch_gen c \<in> set (sm_reaped m) \<Longrightarrow> mstep uuid m Inside (stop_done mode m)"
| kill_over: "sm_op m = KillWait mode c \<Longrightarrow> mstep uuid m Inside (stop_raised mode c m)"
| exits: "map_of (sm_mons m) c = Some Waiting \<Longrightarrow> mstep uuid m Monitor (mon_exit c info m)"
| observes: "map_of (sm_mons m) c = Some (Exited info) \<Longrightarrow> mstep uuid m Monitor (mon_observe c info m)"
| accounts: "map_of (sm_mons m) c = Some (Observed info ws cur model)
    \<Longrightarrow> mstep uuid m Monitor (mon_account uuid wall detail disk c info ws cur model m)"
| clears: "map_of (sm_mons m) c = Some (Accounted info ws) \<Longrightarrow> mstep uuid m Monitor (mon_clear c info ws m)"
| finishes: "map_of (sm_mons m) c = Some (Cleared info ws cur) \<Longrightarrow> mstep uuid m Monitor (mon_finish c ws cur m)"
| restarts: "map_of (sm_mons m) c = Some (Finished ws cur) \<Longrightarrow> mstep uuid m Monitor (mon_restart c ws cur m)"
| observed: "mstep uuid m Report (observe_accounting doc m)"
| acked: "mstep uuid m Report (ack_accounting i m)"

inductive_cases mstep_cases: "mstep uuid m l m'"

text \<open>Reachability, and runs with their labels\<close>

inductive mreach :: "(string \<Rightarrow> string) \<Rightarrow> mgr \<Rightarrow> bool" for uuid where
  boot: "mreach uuid (readopt now alive (mgr_init auto box store))"
| step: "mreach uuid m \<Longrightarrow> mstep uuid m l m' \<Longrightarrow> mreach uuid m'"

inductive mrun :: "(string \<Rightarrow> string) \<Rightarrow> mgr \<Rightarrow> mlabel list \<Rightarrow> mgr \<Rightarrow> bool" for uuid where
  stay: "mrun uuid m [] m"
| more: "mstep uuid m l m' \<Longrightarrow> mrun uuid m' ls m'' \<Longrightarrow> mrun uuid m (l # ls) m''"

inductive_simps mrun_Nil [simp]: "mrun uuid m [] m'"
inductive_simps mrun_Cons: "mrun uuid m (l # ls) m'"

end
