(* ===== verification/ServeProps.thy ===== *)
theory ServeProps
  imports ServeManager
begin

text \<open>
  The serve manager over all interleavings: one serve at a time, a durable receipt before every
  signal, a shutdown and a stop that stay, and the race that loses the pidfile of a running serve.
\<close>

section \<open>The invariant\<close>

text \<open>The phases in which a stop holds the lifecycle lock\<close>

fun stop_phase :: "op \<Rightarrow> (op_mode \<times> child) option" where
  "stop_phase (Preparing mode f c model p) = Some (mode, c)"
| "stop_phase (Signalling mode c) = Some (mode, c)"
| "stop_phase (TermWait mode c) = Some (mode, c)"
| "stop_phase (KillWait mode c) = Some (mode, c)"
| "stop_phase _ = None"

fun receipted :: "op \<Rightarrow> child option" where
  "receipted (Signalling mode c) = Some c"
| "receipted (TermWait mode c) = Some c"
| "receipted (KillWait mode c) = Some c"
| "receipted _ = None"

fun spawning :: "op \<Rightarrow> bool" where
  "spawning (Spawning cfg) = True"
| "spawning _ = False"

text \<open>The transaction and the child\<close>

definition op_inv :: "mgr \<Rightarrow> bool" where
  "op_inv m \<longleftrightarrow> (sm_starting m \<longleftrightarrow> spawning (sm_op m))
     \<and> (sm_starting m \<longrightarrow> sm_child m = None)
     \<and> (\<forall>cfg c. sm_op m = Spawned cfg c \<longrightarrow> sm_child m = Some c \<and> map_of (sm_mons m) c = None)
     \<and> (\<forall>mode c. stop_phase (sm_op m) = Some (mode, c) \<longrightarrow> sm_child m = None \<or> sm_child m = Some c)
     \<and> (sm_stopping m \<longrightarrow> (\<exists>mode c. stop_phase (sm_op m) = Some (mode, c) \<and> sm_child m = Some c))
     \<and> (sm_shutdown m \<longrightarrow> sm_op m = Idle \<and> sm_child m = None \<or> (\<exists>c. stop_phase (sm_op m) = Some (Shutdown, c)))"

text \<open>The processes and their monitors\<close>

fun forgotten :: "mon_pc \<Rightarrow> bool" where
  "forgotten (Cleared i w f) = True"
| "forgotten (Finished w f) = True"
| "forgotten Done = True"
| "forgotten _ = False"

definition proc_inv :: "mgr \<Rightarrow> bool" where
  "proc_inv m \<longleftrightarrow> (\<forall>c. sm_child m = Some c \<longrightarrow> ch_gen c < sm_gen m \<and> ch_gen c \<notin> set (sm_reaped m))
     \<and> (sm_running m = [] \<or> (\<exists>c. sm_running m = [c] \<and> sm_child m = Some c))
     \<and> (\<forall>g \<in> set (sm_reaped m). g < sm_gen m)"

definition mon_inv :: "mgr \<Rightarrow> bool" where
  "mon_inv m \<longleftrightarrow> (\<forall>c pc. map_of (sm_mons m) c = Some pc \<longrightarrow> ch_gen c < sm_gen m
     \<and> (\<forall>d. sm_child m = Some d \<and> ch_gen c = ch_gen d \<longrightarrow> c = d)
     \<and> (pc \<noteq> Waiting \<longrightarrow> c \<notin> set (sm_running m)) \<and> (forgotten pc \<longrightarrow> sm_child m \<noteq> Some c))"

definition receipt_inv :: "mgr \<Rightarrow> bool" where
  "receipt_inv m \<longleftrightarrow> (\<forall>c. receipted (sm_op m) = Some c \<longrightarrow> child_identity c \<in> set (sm_durable m))
     \<and> (\<forall>c s. (c, s) \<in> set (sm_signals m) \<longrightarrow> child_identity c \<in> set (sm_durable m))"

definition mgr_inv :: "mgr \<Rightarrow> bool" where
  "mgr_inv m \<longleftrightarrow> op_inv m \<and> proc_inv m \<and> mon_inv m \<and> receipt_inv m"

lemma receipted_stop: "receipted x = Some c \<Longrightarrow> \<exists>mode. stop_phase x = Some (mode, c)"
  by (cases x) auto

text \<open>Which fields a part of the invariant looks at\<close>

lemma op_inv_cong:
  "sm_starting m' = sm_starting m \<Longrightarrow> sm_op m' = sm_op m \<Longrightarrow> sm_child m' = sm_child m \<Longrightarrow> sm_stopping m' = sm_stopping m
   \<Longrightarrow> sm_shutdown m' = sm_shutdown m \<Longrightarrow> sm_mons m' = sm_mons m \<Longrightarrow> op_inv m' = op_inv m"
  by (simp add: op_inv_def)

lemma proc_inv_cong:
  "sm_child m' = sm_child m \<Longrightarrow> sm_gen m' = sm_gen m \<Longrightarrow> sm_reaped m' = sm_reaped m \<Longrightarrow> sm_running m' = sm_running m
   \<Longrightarrow> proc_inv m' = proc_inv m"
  by (simp add: proc_inv_def)

lemma mon_inv_cong:
  "sm_child m' = sm_child m \<Longrightarrow> sm_gen m' = sm_gen m \<Longrightarrow> sm_mons m' = sm_mons m \<Longrightarrow> sm_running m' = sm_running m
   \<Longrightarrow> mon_inv m' = mon_inv m"
  by (simp add: mon_inv_def)

lemma receipt_inv_cong:
  "sm_op m' = sm_op m \<Longrightarrow> sm_durable m' = sm_durable m \<Longrightarrow> sm_signals m' = sm_signals m \<Longrightarrow> receipt_inv m' = receipt_inv m"
  by (simp add: receipt_inv_def)

lemmas inv_congs = op_inv_cong proc_inv_cong mon_inv_cong receipt_inv_cong

lemma mgr_invI: "op_inv m \<Longrightarrow> proc_inv m \<Longrightarrow> mon_inv m \<Longrightarrow> receipt_inv m \<Longrightarrow> mgr_inv m"
  by (simp add: mgr_inv_def)

lemma mgr_invD: "mgr_inv m \<Longrightarrow> op_inv m" "mgr_inv m \<Longrightarrow> proc_inv m" "mgr_inv m \<Longrightarrow> mon_inv m" "mgr_inv m \<Longrightarrow> receipt_inv m"
  by (simp_all add: mgr_inv_def)

text \<open>A stop in progress\<close>

lemma in_stop:
  assumes "op_inv m" "stop_phase (sm_op m) = Some (mode, c)"
  shows "\<not> sm_starting m" "sm_child m = None \<or> sm_child m = Some c" "sm_stopping m \<Longrightarrow> sm_child m = Some c"
    "sm_shutdown m \<Longrightarrow> mode = Shutdown"
  using assms by (cases "sm_op m"; auto simp: op_inv_def)+

lemma when_idle:
  assumes "op_inv m" "sm_op m = Idle"
  shows "\<not> sm_starting m" "\<not> sm_stopping m" "sm_shutdown m \<Longrightarrow> sm_child m = None"
  using assms by (auto simp: op_inv_def)

section \<open>Starting\<close>

text \<open>What a start leaves behind, whatever it answers.\<close>

lemma start_call_cases:
  assumes "start_call auto cfg m = (m', a)" "\<not> sm_starting m" "\<not> sm_stopping m"
  shows "(\<exists>b. m' = m\<lparr>sm_stop_req := b, sm_op := Idle\<rparr> \<and> (auto \<or> sm_shutdown m \<longrightarrow> b = sm_stop_req m) \<and> a \<noteq> Spawn \<and> a \<noteq> Wait)
    \<or> (\<exists>b. m' = m\<lparr>sm_stop_req := b, sm_starting := True, sm_op := Spawning cfg\<rparr> \<and> sm_child m = None \<and> \<not> b
        \<and> \<not> sm_shutdown m \<and> (auto \<longrightarrow> \<not> sm_stop_req m) \<and> a = Spawn)"
proof -
  have self: "m\<lparr>sm_op := x\<rparr> = m\<lparr>sm_stop_req := sm_stop_req m, sm_op := x\<rparr>" for x by simp
  have "(\<exists>b. fst (start_admit auto cfg m) = m\<lparr>sm_stop_req := b\<rparr> \<and> (auto \<or> sm_shutdown m \<longrightarrow> b = sm_stop_req m) \<and> snd (start_admit auto cfg m) \<noteq> Spawn
      \<and> snd (start_admit auto cfg m) \<noteq> Wait)
    \<or> (\<exists>b. start_admit auto cfg m = (m\<lparr>sm_stop_req := b, sm_starting := True\<rparr>, Spawn) \<and> sm_child m = None \<and> \<not> b
        \<and> \<not> sm_shutdown m \<and> (auto \<longrightarrow> \<not> sm_stop_req m))"
  proof (cases "sm_shutdown m \<or> (auto \<and> sm_stop_req m)")
    case True
    then have "fst (start_admit auto cfg m) = m\<lparr>sm_stop_req := sm_stop_req m\<rparr>" "snd (start_admit auto cfg m) \<noteq> Spawn"
      "snd (start_admit auto cfg m) \<noteq> Wait"
      by (auto simp: start_admit_def)
    then show ?thesis by blast
  next
    case False
    show ?thesis
    proof (cases "sm_child m")
      case None
      then have "start_admit auto cfg m = (m\<lparr>sm_stop_req := False, sm_starting := True\<rparr>, Spawn)"
        using False assms(2) by (cases auto) (auto simp: start_admit_def)
      then show ?thesis using None False by blast
    next
      case (Some c)
      then have "fst (start_admit auto cfg m) = m\<lparr>sm_stop_req := False\<rparr>" "snd (start_admit auto cfg m) \<noteq> Spawn"
        "snd (start_admit auto cfg m) \<noteq> Wait" "auto \<longrightarrow> \<not> sm_stop_req m"
        using False assms(2,3) by (cases auto; auto simp: start_admit_def)+
      then show ?thesis using False by blast
    qed
  qed
  then show ?thesis
  proof (elim disjE exE conjE)
    fix b assume b: "fst (start_admit auto cfg m) = m\<lparr>sm_stop_req := b\<rparr>" "auto \<or> sm_shutdown m \<longrightarrow> b = sm_stop_req m"
      "snd (start_admit auto cfg m) \<noteq> Spawn" "snd (start_admit auto cfg m) \<noteq> Wait"
    then have "m' = m\<lparr>sm_stop_req := b, sm_op := Idle\<rparr>" "a = snd (start_admit auto cfg m)"
      using assms(1) by (auto simp: start_call_def split: prod.splits)
    with b show ?thesis by blast
  next
    fix b assume b: "start_admit auto cfg m = (m\<lparr>sm_stop_req := b, sm_starting := True\<rparr>, Spawn)" "sm_child m = None" "\<not> b"
      "\<not> sm_shutdown m" "auto \<longrightarrow> \<not> sm_stop_req m"
    then have "m' = m\<lparr>sm_stop_req := b, sm_starting := True, sm_op := Spawning cfg\<rparr>" "a = Spawn"
      using assms(1) by (simp_all add: start_call_def)
    with b show ?thesis by blast
  qed
qed

text \<open>A start, alone or at the end of a switch, from a state in which nothing is being stopped.\<close>

definition settled :: "mgr \<Rightarrow> bool" where
  "settled m \<longleftrightarrow> \<not> sm_starting m \<and> \<not> sm_stopping m \<and> (sm_shutdown m \<longrightarrow> sm_child m = None)
     \<and> proc_inv m \<and> mon_inv m \<and> receipt_inv m"

lemma settledD: "mgr_inv m \<Longrightarrow> sm_op m = Idle \<Longrightarrow> settled m"
  using when_idle by (auto simp: mgr_inv_def settled_def)

lemma settled_answered:
  assumes "settled m"
  shows "mgr_inv (m\<lparr>sm_stop_req := b, sm_op := Idle\<rparr>)"
proof (rule mgr_invI)
  let ?m = "m\<lparr>sm_stop_req := b, sm_op := Idle\<rparr>"
  show "op_inv ?m" using assms by (simp add: settled_def op_inv_def)
  show "receipt_inv ?m" using assms by (simp add: settled_def receipt_inv_def)
  show "proc_inv ?m" using assms proc_inv_cong [of ?m m] by (simp add: settled_def)
  show "mon_inv ?m" using assms mon_inv_cong [of ?m m] by (simp add: settled_def)
qed

lemma settled_spawning:
  assumes "settled m" "sm_child m = None" "\<not> sm_shutdown m"
  shows "mgr_inv (m\<lparr>sm_stop_req := b, sm_starting := True, sm_op := Spawning cfg\<rparr>)"
proof (rule mgr_invI)
  let ?m = "m\<lparr>sm_stop_req := b, sm_starting := True, sm_op := Spawning cfg\<rparr>"
  show "op_inv ?m" using assms by (simp add: settled_def op_inv_def)
  show "receipt_inv ?m" using assms by (simp add: settled_def receipt_inv_def)
  show "proc_inv ?m" using assms proc_inv_cong [of ?m m] by (simp add: settled_def)
  show "mon_inv ?m" using assms mon_inv_cong [of ?m m] by (simp add: settled_def)
qed

lemma start_call_inv:
  assumes "settled m"
  shows "mgr_inv (fst (start_call auto cfg m))"
proof -
  obtain m' a where m': "start_call auto cfg m = (m', a)" by fastforce
  have "\<not> sm_starting m" "\<not> sm_stopping m" using assms by (auto simp: settled_def)
  from start_call_cases [OF m' this] show ?thesis
    using settled_answered [OF assms] settled_spawning [OF assms] m' by auto
qed

lemma failed_inv: "mgr_inv m \<Longrightarrow> sm_op m = Spawning cfg \<Longrightarrow> mgr_inv (start_failed m)"
  by (auto simp: start_failed_def mgr_inv_def op_inv_def proc_inv_def mon_inv_def receipt_inv_def)

lemma spawned_inv:
  assumes "mgr_inv m" "sm_op m = Spawning cfg"
  shows "mgr_inv (start_spawned now pid start cfg m)"
proof -
  let ?c = "\<lparr>ch_gen = sm_gen m, ch_pid = pid, ch_start = start, ch_adopted = False\<rparr>" and ?m = "start_spawned now pid start cfg m"
  note inv = mgr_invD [OF assms(1)]
  have c: "sm_child m = None" "\<not> sm_shutdown m" using inv(1) assms(2) by (auto simp: op_inv_def)
  then have r: "sm_running m = []" using inv(2) by (auto simp: proc_inv_def)
  have old: "ch_gen d < sm_gen m" if "map_of (sm_mons m) d = Some pc" for d pc using inv(3) that by (auto simp: mon_inv_def)
  then have "map_of (sm_mons m) ?c = None" by (metis child.select_convs(1) less_irrefl not_None_eq)
  then have "op_inv ?m" using c by (simp add: start_spawned_def op_inv_def Let_def)
  moreover have "proc_inv ?m" using inv(2) r by (auto simp: start_spawned_def proc_inv_def Let_def)
  moreover have "mon_inv ?m" unfolding mon_inv_def
  proof (intro allI impI)
    fix d pc assume "map_of (sm_mons ?m) d = Some pc"
    then have d: "map_of (sm_mons m) d = Some pc" by (simp add: start_spawned_def Let_def)
    then have "ch_gen d < sm_gen m" using old by blast
    then show "ch_gen d < sm_gen ?m \<and> (\<forall>e. sm_child ?m = Some e \<and> ch_gen d = ch_gen e \<longrightarrow> d = e)
      \<and> (pc \<noteq> Waiting \<longrightarrow> d \<notin> set (sm_running ?m)) \<and> (forgotten pc \<longrightarrow> sm_child ?m \<noteq> Some d)"
      using r by (auto simp: start_spawned_def Let_def)
  qed
  moreover have "receipt_inv ?m" using inv(4) by (simp add: start_spawned_def receipt_inv_def Let_def)
  ultimately show ?thesis by (rule mgr_invI)
qed

lemma unsaved_inv:
  assumes "mgr_inv m" "sm_op m = Spawned cfg c"
  shows "mgr_inv (start_unsaved m)"
proof (rule mgr_invI)
  note inv = mgr_invD [OF assms(1)]
  show "op_inv (start_unsaved m)" using inv(1) assms(2) by (simp add: start_unsaved_def op_inv_def)
  show "proc_inv (start_unsaved m)" "mon_inv (start_unsaved m)" "receipt_inv (start_unsaved m)"
    using inv(2-4) by (simp_all add: start_unsaved_def proc_inv_def mon_inv_def receipt_inv_def)
qed

lemma watch_inv:
  assumes "mgr_inv m" "sm_op m = Spawned cfg c"
  shows "mgr_inv (start_watch cfg c m)"
proof -
  let ?m = "start_watch cfg c m"
  note inv = mgr_invD [OF assms(1)]
  have c: "sm_child m = Some c" "map_of (sm_mons m) c = None" "\<not> sm_shutdown m" "\<not> sm_stopping m" "\<not> sm_starting m"
    using inv(1) assms(2) by (auto simp: op_inv_def)
  have mons: "map_of (sm_mons ?m) = (map_of (sm_mons m))(c \<mapsto> Waiting)"
    using c(2) by (auto simp: start_watch_def begin_watch_def map_of_append fun_eq_iff map_add_def split: option.splits)
  have "op_inv ?m" using c by (simp add: start_watch_def begin_watch_def op_inv_def)
  moreover have "proc_inv ?m" using inv(2) by (simp add: start_watch_def begin_watch_def proc_inv_def)
  moreover have "mon_inv ?m"
    using inv(2,3) c(1) unfolding mon_inv_def proc_inv_def mons by (auto simp: start_watch_def begin_watch_def)
  moreover have "receipt_inv ?m" using inv(4) by (simp add: start_watch_def begin_watch_def receipt_inv_def)
  ultimately show ?thesis by (rule mgr_invI)
qed

section \<open>Stopping\<close>

text \<open>A stop that succeeds has seen its child reaped.\<close>

lemma stop_done_inv:
  assumes "settled m"
  shows "mgr_inv (stop_done mode m)"
proof -
  have "m\<lparr>sm_op := Idle\<rparr> = m\<lparr>sm_stop_req := sm_stop_req m, sm_op := Idle\<rparr>" by simp
  then have "mgr_inv (m\<lparr>sm_op := Idle\<rparr>)" using settled_answered [OF assms] by metis
  then show ?thesis using start_call_inv [OF assms] by (cases mode) (simp_all add: stop_done_def)
qed

lemma stop_call_inv:
  assumes "mgr_inv m" "sm_op m = Idle"
  shows "mgr_inv (stop_call mode force m)"
proof -
  note inv = mgr_invD [OF assms(1)]
  let ?s = "mode = Shutdown \<or> sm_shutdown m"
  let ?m = "m\<lparr>sm_shutdown := ?s, sm_stop_req := True\<rparr>"
  have m: "(if mode = Shutdown then m\<lparr>sm_shutdown := True\<rparr> else m)\<lparr>sm_stop_req := True\<rparr> = ?m" by simp
  note f = when_idle [OF inv(1) assms(2)]
  have p: "proc_inv ?m" "mon_inv ?m" "receipt_inv ?m"
    using inv(2-4) proc_inv_cong [of ?m m] mon_inv_cong [of ?m m] receipt_inv_cong [of ?m m] by simp_all
  show ?thesis
  proof (cases "sm_child m")
    case None
    then have "settled ?m" using f p by (simp add: settled_def)
    moreover have "stop_call mode force m = stop_done mode ?m" unfolding stop_call_def Let_def m using None by simp
    ultimately show ?thesis using stop_done_inv by simp
  next
    case (Some c)
    let ?n = "\<lambda>model port. ?m\<lparr>sm_stopping := True, sm_op := Preparing mode force c model port\<rparr>"
    have "op_inv (?n model port)" for model port using f Some by (auto simp: op_inv_def)
    moreover have "proc_inv (?n model port)" for model port using p(1) proc_inv_cong [of "?n model port" ?m] by simp
    moreover have "mon_inv (?n model port)" for model port using p(2) mon_inv_cong [of "?n model port" ?m] by simp
    moreover have "receipt_inv (?n model port)" for model port using inv(4) by (simp add: receipt_inv_def)
    ultimately have "mgr_inv (?n model port)" for model port by (intro mgr_invI)
    then show ?thesis unfolding stop_call_def Let_def m using Some by simp
  qed
qed

lemma stop_raised_inv:
  assumes "mgr_inv m" "stop_phase (sm_op m) = Some (mode, c)"
  shows "mgr_inv (stop_raised mode c m)"
proof -
  note inv = mgr_invD [OF assms(1)] and st = in_stop [OF mgr_invD(1) [OF assms(1)] assms(2)]
  let ?m = "m\<lparr>sm_stopping := False, sm_shutdown := (sm_shutdown m \<and> mode \<noteq> Shutdown), sm_op := Idle\<rparr>"
  have keep: "m\<lparr>sm_stopping := False\<rparr> = m" if "sm_child m \<noteq> Some c" using st(3) that by (cases m) auto
  have "m\<lparr>sm_stopping := False, sm_shutdown := sm_shutdown m\<rparr> = m\<lparr>sm_stopping := False\<rparr>" by simp
  then have m: "stop_raised mode c m = ?m"
    using keep by (cases "sm_child m = Some c"; cases "mode = Shutdown") (simp_all add: stop_raised_def Let_def)
  have "op_inv ?m" using st by (auto simp: op_inv_def)
  moreover have "proc_inv ?m" "mon_inv ?m" using inv(2,3) proc_inv_cong [of ?m m] mon_inv_cong [of ?m m] by simp_all
  moreover have "receipt_inv ?m" using inv(4) by (simp add: receipt_inv_def)
  ultimately show ?thesis unfolding m by (rule mgr_invI)
qed

lemma reaped_gone:
  assumes "mgr_inv m" "stop_phase (sm_op m) = Some (mode, c)" "ch_gen c \<in> set (sm_reaped m)"
  shows "mgr_inv (stop_done mode m)"
proof -
  note inv = mgr_invD [OF assms(1)] and st = in_stop [OF mgr_invD(1) [OF assms(1)] assms(2)]
  have "sm_child m = None" using st(2) inv(2) assms(3) by (auto simp: proc_inv_def)
  then have "settled m" using st inv by (auto simp: settled_def)
  then show ?thesis by (rule stop_done_inv)
qed

text \<open>A stop that goes on to its next phase.\<close>

lemma next_phase:
  assumes "mgr_inv m" "stop_phase (sm_op m) = Some (mode, c)" "stop_phase x = Some (mode, c)"
    "child_identity c \<in> set dur" "set (sm_durable m) \<subseteq> set dur"
  shows "mgr_inv (m\<lparr>sm_outbox := box, sm_durable := dur, sm_seen := seen, sm_signals := sm_signals m @ map (Pair c) sigs, sm_op := x\<rparr>)"
proof -
  let ?m = "m\<lparr>sm_outbox := box, sm_durable := dur, sm_seen := seen, sm_signals := sm_signals m @ map (Pair c) sigs, sm_op := x\<rparr>"
  note inv = mgr_invD [OF assms(1)] and st = in_stop [OF mgr_invD(1) [OF assms(1)] assms(2)]
  have "op_inv ?m" using st inv(1) assms(2,3) by (cases x) (auto simp: op_inv_def)
  moreover have "proc_inv ?m" "mon_inv ?m" using inv(2,3) proc_inv_cong [of ?m m] mon_inv_cong [of ?m m] by simp_all
  moreover have "receipt_inv ?m" using inv(4) assms(3-5) receipted_stop [of x] by (fastforce simp: receipt_inv_def)
  ultimately show ?thesis by (rule mgr_invI)
qed

lemma prepared_inv:
  assumes "mgr_inv m" "sm_op m = Preparing mode force c model port"
  shows "mgr_inv (stop_prepared uuid wall ans stats disk mode force c model port m)"
proof -
  have raised: "mgr_inv (stop_raised mode c m)" by (rule stop_raised_inv) (use assms in auto)
  have kept: "mgr_inv (m\<lparr>sm_outbox := box, sm_durable := List.insert (child_identity c) (sm_durable m), sm_seen := seen,
    sm_op := Signalling mode c\<rparr>)" for box seen
    using next_phase [OF assms(1), of mode c "Signalling mode c" "List.insert (child_identity c) (sm_durable m)",
      where box = box and seen = seen and sigs = "[]"] assms(2) by auto
  show ?thesis unfolding stop_prepared_def Let_def by (auto simp only: split: sum.splits prod.splits intro!: raised kept)
qed

lemma signalled_inv:
  assumes "mgr_inv m" "receipted (sm_op m) = Some c" "stop_phase (sm_op m) = Some (mode, c)" "stop_phase x = Some (mode, c)"
  shows "mgr_inv (m\<lparr>sm_signals := sm_signals m @ [(c, s)], sm_op := x\<rparr>)"
proof -
  have d: "child_identity c \<in> set (sm_durable m)" using mgr_invD(4) [OF assms(1)] assms(2) by (simp add: receipt_inv_def)
  show ?thesis
    using next_phase [OF assms(1,3,4) d order_refl, where box = "sm_outbox m" and seen = "sm_seen m" and sigs = "[s]"] by simp
qed

lemma signal_inv:
  assumes "mgr_inv m" "sm_op m = Signalling mode c"
  shows "mgr_inv (stop_signal mode c m)"
  using reaped_gone [OF assms(1), of mode c] signalled_inv [OF assms(1), of c mode "TermWait mode c"] assms(2)
  by (simp add: stop_signal_def)

lemma grace_inv:
  assumes "mgr_inv m" "sm_op m = TermWait mode c"
  shows "mgr_inv (stop_grace_over mode c m)"
  using signalled_inv [OF assms(1), of c mode "KillWait mode c"] assms(2) by (simp add: stop_grace_over_def)

section \<open>Reaping\<close>

lemma set_mon_sel [simp]:
  "sm_child (set_mon c pc m) = sm_child m" "sm_op (set_mon c pc m) = sm_op m" "sm_starting (set_mon c pc m) = sm_starting m"
  "sm_stopping (set_mon c pc m) = sm_stopping m" "sm_shutdown (set_mon c pc m) = sm_shutdown m"
  "sm_running (set_mon c pc m) = sm_running m" "sm_reaped (set_mon c pc m) = sm_reaped m" "sm_gen (set_mon c pc m) = sm_gen m"
  "sm_durable (set_mon c pc m) = sm_durable m" "sm_signals (set_mon c pc m) = sm_signals m" "sm_stop_req (set_mon c pc m) = sm_stop_req m"
  "map_of (sm_mons (set_mon c pc m)) = (map_of (sm_mons m))(c \<mapsto> pc)"
  by (simp_all add: set_mon_def AList.update_conv')

text \<open>A monitor that moves on without touching what the invariant looks at.\<close>

definition same_child_view :: "mgr \<Rightarrow> mgr \<Rightarrow> bool" where
  "same_child_view m m' \<longleftrightarrow> sm_starting m' = sm_starting m \<and> sm_op m' = sm_op m \<and> sm_child m' = sm_child m \<and> sm_stopping m' = sm_stopping m
     \<and> sm_shutdown m' = sm_shutdown m \<and> sm_mons m' = sm_mons m \<and> sm_gen m' = sm_gen m \<and> sm_reaped m' = sm_reaped m
     \<and> sm_running m' = sm_running m \<and> sm_signals m' = sm_signals m \<and> set (sm_durable m) \<subseteq> set (sm_durable m')"

lemma view_inv: "mgr_inv m \<Longrightarrow> same_child_view m m' \<Longrightarrow> mgr_inv m'"
  using op_inv_cong [of m' m] proc_inv_cong [of m' m] mon_inv_cong [of m' m]
  by (auto simp: mgr_inv_def same_child_view_def receipt_inv_def)

lemma set_mon_inv:
  assumes "mgr_inv m" "map_of (sm_mons m) c = Some pc" "pc' \<noteq> Waiting \<longrightarrow> c \<notin> set (sm_running m)"
    "forgotten pc' \<longrightarrow> sm_child m \<noteq> Some c"
  shows "mgr_inv (set_mon c pc' m)"
proof (rule mgr_invI)
  note inv = mgr_invD [OF assms(1)]
  show "op_inv (set_mon c pc' m)" using inv(1) assms(2) by (auto simp: op_inv_def)
  show "proc_inv (set_mon c pc' m)" using inv(2) proc_inv_cong [of "set_mon c pc' m" m] by simp
  show "mon_inv (set_mon c pc' m)" using inv(3) assms(2-4) by (auto simp: mon_inv_def)
  show "receipt_inv (set_mon c pc' m)" using inv(4) receipt_inv_cong [of "set_mon c pc' m" m] by simp
qed

lemma dead: "mgr_inv m \<Longrightarrow> map_of (sm_mons m) c = Some pc \<Longrightarrow> pc \<noteq> Waiting \<Longrightarrow> c \<notin> set (sm_running m)"
  by (auto simp: mgr_inv_def mon_inv_def)

text \<open>The monitor of a dead child changes the rest, then moves on.\<close>

lemma view_mon:
  assumes "mgr_inv m" "same_child_view m m'" "map_of (sm_mons m) c = Some pc" "pc \<noteq> Waiting" "forgotten pc' \<longrightarrow> sm_child m \<noteq> Some c"
  shows "mgr_inv (set_mon c pc' m')"
  using set_mon_inv [OF view_inv [OF assms(1,2)], of c pc pc'] assms(2,3,5) dead [OF assms(1,3,4)] by (simp add: same_child_view_def)

lemma view_refl [simp]: "same_child_view m m"
  by (simp add: same_child_view_def)

lemma exit_inv:
  assumes "mgr_inv m" "map_of (sm_mons m) c = Some Waiting"
  shows "mgr_inv (mon_exit c info m)"
proof -
  note inv = mgr_invD [OF assms(1)]
  let ?m = "m\<lparr>sm_running := removeAll c (sm_running m)\<rparr>"
  have "mgr_inv ?m"
  proof (rule mgr_invI)
    show "op_inv ?m" using inv(1) op_inv_cong [of ?m m] by simp
    show "proc_inv ?m" using inv(2) by (auto simp: proc_inv_def split: if_splits)
    show "mon_inv ?m" using inv(3) by (auto simp: mon_inv_def)
    show "receipt_inv ?m" using inv(4) receipt_inv_cong [of ?m m] by simp
  qed
  then have "mgr_inv (set_mon c (Exited info) ?m)" by (rule set_mon_inv) (use assms(2) in auto)
  then show ?thesis by (simp add: mon_exit_def)
qed

lemma observe_inv: "mgr_inv m \<Longrightarrow> map_of (sm_mons m) c = Some (Exited info) \<Longrightarrow> mgr_inv (mon_observe c info m)"
  unfolding mon_observe_def by (rule view_mon [of m]) auto

lemma account_inv:
  assumes "mgr_inv m" "map_of (sm_mons m) c = Some (Observed info ws cur model)"
  shows "mgr_inv (mon_account uuid wall detail disk c info ws cur model m)"
proof -
  have a: "same_child_view m (m\<lparr>sm_stop_req := True\<rparr>)"
    "same_child_view m (m\<lparr>sm_outbox := box, sm_durable := List.insert i (sm_durable m), sm_seen := seen\<rparr>)" for box i seen
    by (auto simp: same_child_view_def)
  show ?thesis
    unfolding mon_account_def Let_def
    by (auto simp only: split: if_splits sum.splits prod.splits intro!: view_mon [OF assms(1) _ assms(2)] a view_refl) auto
qed

lemma clear_inv:
  assumes "mgr_inv m" "map_of (sm_mons m) c = Some (Accounted info ws)"
  shows "mgr_inv (mon_clear c info ws m)"
proof (cases "sm_child m = Some c")
  case True
  note inv = mgr_invD [OF assms(1)]
  have d: "sm_running m = []" using inv(2) dead [OF assms] True by (auto simp: proc_inv_def)
  let ?m = "\<lambda>i. m\<lparr>sm_child := None, sm_started := None, sm_stopping := False, sm_last := Some i\<rparr>"
  have "mgr_inv (?m i)" for i
  proof (rule mgr_invI)
    show "op_inv (?m i)" using inv(1) assms(2) True by (auto simp: op_inv_def)
    show "proc_inv (?m i)" using inv(2) d by (auto simp: proc_inv_def)
    show "mon_inv (?m i)" using inv(3) by (auto simp: mon_inv_def)
    show "receipt_inv (?m i)" using inv(4) receipt_inv_cong [of "?m i" m] by simp
  qed
  then have "mgr_inv (set_mon c (Cleared j ws True) (?m i))" for i j
    by (rule set_mon_inv) (use assms(2) d in auto)
  then show ?thesis using True by (simp add: mon_clear_def Let_def)
next
  case False
  then show ?thesis unfolding mon_clear_def using view_mon [OF assms(1) view_refl assms(2)] by simp
qed

lemma gone:
  assumes "mgr_inv m" "map_of (sm_mons m) c = Some pc" "forgotten pc"
  shows "sm_child m \<noteq> Some c" "ch_gen c < sm_gen m" "sm_child m = Some d \<Longrightarrow> ch_gen c \<noteq> ch_gen d"
  using assms unfolding mgr_inv_def mon_inv_def by (metis option.inject)+

lemma finish_inv:
  assumes "mgr_inv m" "map_of (sm_mons m) c = Some (Cleared info ws cur)"
  shows "mgr_inv (mon_finish c ws cur m)"
proof -
  note inv = mgr_invD [OF assms(1)] and g = gone [OF assms]
  let ?m = "\<lambda>s. m\<lparr>sm_store := s, sm_reaped := List.insert (ch_gen c) (sm_reaped m)\<rparr>"
  have "mgr_inv (?m s)" for s
  proof (rule mgr_invI)
    show "op_inv (?m s)" using inv(1) op_inv_cong [of "?m s" m] by simp
    show "proc_inv (?m s)" using inv(2) g by (auto simp: proc_inv_def)
    show "mon_inv (?m s)" using inv(3) mon_inv_cong [of "?m s" m] by simp
    show "receipt_inv (?m s)" using inv(4) receipt_inv_cong [of "?m s" m] by simp
  qed
  then have "mgr_inv (set_mon c (Finished ws cur) (?m s))" for s
    by (rule set_mon_inv) (use assms(2) g dead [OF assms] in auto)
  then show ?thesis by (simp add: mon_finish_def)
qed

lemma restart_inv:
  assumes "mgr_inv m" "map_of (sm_mons m) c = Some (Finished ws cur)"
  shows "mgr_inv (mon_restart c ws cur m)"
proof -
  have "same_child_view m (m\<lparr>sm_restarts := r\<rparr>)" for r by (simp add: same_child_view_def)
  then have "mgr_inv (set_mon c Done m)" "mgr_inv (set_mon c Done (m\<lparr>sm_restarts := r\<rparr>))" for r
    using view_mon [OF assms(1) _ assms(2)] gone(1) [OF assms] by simp_all
  then show ?thesis by (simp add: mon_restart_def split: option.splits)
qed

section \<open>Every step\<close>

lemma boot_inv: "mgr_inv (readopt now alive (mgr_init auto box store))"
  by (auto simp: readopt_def mgr_init_def begin_watch_def mgr_inv_def op_inv_def proc_inv_def mon_inv_def receipt_inv_def Let_def
      split: option.splits prod.splits if_splits)

lemma report_inv:
  assumes "mgr_inv m"
  shows "mgr_inv (observe_accounting doc m)" "mgr_inv (ack_accounting i m)"
proof -
  have "same_child_view m (observe_accounting doc m)"
    by (auto simp: observe_accounting_def same_child_view_def split: option.splits sum.splits)
  then show "mgr_inv (observe_accounting doc m)" by (rule view_inv [OF assms])
  have "same_child_view m (ack_accounting i m)" by (auto simp: ack_accounting_def same_child_view_def split: sum.splits prod.splits)
  then show "mgr_inv (ack_accounting i m)" by (rule view_inv [OF assms])
qed

lemma step_inv:
  assumes "mstep uuid m l m'" "mgr_inv m"
  shows "mgr_inv m'"
  using assms
proof (cases rule: mstep.cases)
  case (user_start cfg a)
  then show ?thesis using start_call_inv [OF settledD, of m False cfg] assms(2) by simp
next
  case (auto_start cfg a)
  let ?m = "m\<lparr>sm_restarts := remove1 cfg (sm_restarts m)\<rparr>"
  have "mgr_inv ?m" by (rule view_inv [OF assms(2)]) (simp add: same_child_view_def)
  then show ?thesis using start_call_inv [OF settledD, of ?m True cfg] auto_start by simp
qed (use assms(2) in \<open>auto intro: failed_inv spawned_inv watch_inv unsaved_inv stop_call_inv prepared_inv signal_inv stop_raised_inv reaped_gone
    grace_inv exit_inv observe_inv account_inv clear_inv finish_inv restart_inv report_inv\<close>)

lemma reach_inv: "mreach uuid m \<Longrightarrow> mgr_inv m"
  by (induction rule: mreach.induct) (auto intro: boot_inv step_inv)

lemma run_reach: "mrun uuid m ls m' \<Longrightarrow> mreach uuid m \<Longrightarrow> mreach uuid m'"
  by (induction rule: mrun.induct) (auto intro: mreach.step)

section \<open>Properties\<close>

text \<open>C13: at any moment at most one serve process runs, it is the child the manager reports, and its
  start was the last one.\<close>

theorem one_serve:
  assumes "mreach uuid m"
  shows "sm_running m = [] \<or> (\<exists>c. sm_running m = [c] \<and> sm_child m = Some c)"
  using mgr_invD(2) [OF reach_inv [OF assms]] by (auto simp: proc_inv_def)

text \<open>The step of a stop that puts its receipt into the outbox: the receipt made from the answers of the engine,
  or the one that an earlier stop has stored under its id.\<close>

definition stop_recorded :: "(string \<Rightarrow> string) \<Rightarrow> child \<Rightarrow> mgr \<Rightarrow> mgr \<Rightarrow> bool" where
  "stop_recorded uuid c m1 m2 \<longleftrightarrow> (\<exists>wall ans stats disk mode force model port r.
     sm_op m1 = Preparing mode force c model port
     \<and> prepare_receipt uuid wall (child_identity c) model (answer_of port ans) (stats_of port stats) force = ok r
     \<and> m2 = stop_prepared uuid wall ans stats disk mode force c model port m1
     \<and> map_of (sm_outbox m2) (rc_id r) = Some (case map_of (sm_outbox m1) (rc_id r) of None \<Rightarrow> r | Some r0 \<Rightarrow> r0))"

definition signalled :: "child \<Rightarrow> mgr \<Rightarrow> bool" where
  "signalled c m \<longleftrightarrow> c \<in> fst ` set (sm_signals m)"

definition recorded_before :: "(string \<Rightarrow> string) \<Rightarrow> child \<Rightarrow> mgr \<Rightarrow> bool" where
  "recorded_before uuid c m \<longleftrightarrow> (\<exists>m1 m2 ls. mreach uuid m1 \<and> stop_recorded uuid c m1 m2 \<and> \<not> signalled c m2 \<and> mrun uuid m2 ls m)"

lemma run_snoc: "mrun uuid m ls m' \<Longrightarrow> mstep uuid m' l m'' \<Longrightarrow> mrun uuid m (ls @ [l]) m''"
  by (induction rule: mrun.induct) (auto simp: mrun_Cons)

lemma prepared_records:
  assumes "sm_op m = Preparing mode force c model port" "m' = stop_prepared uuid wall ans stats disk mode force c model port m"
  shows "sm_signals m' = sm_signals m" "receipted (sm_op m') = Some d \<Longrightarrow> d = c \<and> stop_recorded uuid c m m'"
proof -
  let ?p = "rbind (prepare_receipt uuid wall (child_identity c) model (answer_of port ans) (stats_of port stats) force) (\<lambda>r. persist disk r (sm_outbox m))"
  show "sm_signals m' = sm_signals m"
    unfolding assms(2) by (auto simp: stop_prepared_def stop_raised_def Let_def split: sum.splits)
  assume d: "receipted (sm_op m') = Some d"
  show "d = c \<and> stop_recorded uuid c m m'"
  proof (cases ?p)
    case (Inl e)
    then have "m' = stop_raised mode c m" unfolding assms(2) stop_prepared_def Let_def by simp
    then show ?thesis using d by (simp add: stop_raised_def Let_def)
  next
    case (Inr x)
    obtain box r' where x: "x = (box, r')" by fastforce
    from Inr x obtain r where r: "prepare_receipt uuid wall (child_identity c) model (answer_of port ans) (stats_of port stats) force = ok r"
      "persist disk r (sm_outbox m) = ok (box, r')" by (auto simp: rbind_eq_Inr)
    have o: "sm_outbox m' = box" "sm_op m' = Signalling mode c" using Inr x unfolding assms(2) stop_prepared_def Let_def by (simp_all del: rbind_eq_Inr)
    show ?thesis using persist_ok [OF r(2)] r(1) assms o d unfolding stop_recorded_def by fastforce
  qed
qed

text \<open>The steps that send no signal\<close>

lemma admit_signals: "sm_signals (fst (start_admit auto cfg m)) = sm_signals m"
  by (cases "sm_child m"; cases "sm_stopping m") (simp_all add: start_admit_def Let_def)

lemma start_signals:
  "sm_signals (fst (start_call auto cfg m)) = sm_signals m" "receipted (sm_op (fst (start_call auto cfg m))) = None"
  using admit_signals [of auto cfg m] by (auto simp: start_call_def split: prod.splits)

lemma done_signals: "sm_signals (stop_done mode m) = sm_signals m" "receipted (sm_op (stop_done mode m)) = None"
  using start_signals by (cases mode; simp add: stop_done_def)+

lemma raised_signals: "sm_signals (stop_raised mode c m) = sm_signals m" "receipted (sm_op (stop_raised mode c m)) = None"
  by (simp_all add: stop_raised_def Let_def)

lemma stop_signals: "sm_signals (stop_call mode force m) = sm_signals m" "receipted (sm_op (stop_call mode force m)) = None"
  using done_signals by (simp_all add: stop_call_def Let_def split: option.splits)

lemma mon_signals:
  "sm_signals (mon_exit c i m) = sm_signals m" "sm_op (mon_exit c i m) = sm_op m"
  "sm_signals (mon_observe c i m) = sm_signals m" "sm_op (mon_observe c i m) = sm_op m"
  "sm_signals (mon_account uuid wall det disk c i ws cur model m) = sm_signals m" "sm_op (mon_account uuid wall det disk c i ws cur model m) = sm_op m"
  "sm_signals (mon_clear c i ws m) = sm_signals m" "sm_op (mon_clear c i ws m) = sm_op m"
  "sm_signals (mon_finish c ws cur m) = sm_signals m" "sm_op (mon_finish c ws cur m) = sm_op m"
  "sm_signals (mon_restart c ws cur m) = sm_signals m" "sm_op (mon_restart c ws cur m) = sm_op m"
  "sm_signals (observe_accounting doc m) = sm_signals m" "sm_op (observe_accounting doc m) = sm_op m"
  "sm_signals (ack_accounting rid m) = sm_signals m" "sm_op (ack_accounting rid m) = sm_op m"
  by (auto simp: mon_exit_def mon_observe_def mon_account_def mon_clear_def mon_finish_def mon_restart_def observe_accounting_def ack_accounting_def
      Let_def split: option.splits sum.splits prod.splits)

text \<open>Whoever may be signalled next has been recorded by the step that leads there.\<close>

lemma due_step:
  assumes "mstep uuid m l m'" "receipted (sm_op m') = Some c \<or> signalled c m'"
  shows "receipted (sm_op m) = Some c \<or> signalled c m \<or> (stop_recorded uuid c m m' \<and> \<not> signalled c m')"
  using assms(1)
proof (cases rule: mstep.cases)
  case (prepared mode force d model port wall ans stats disk)
  from prepared_records [OF this(3,2)] show ?thesis using assms(2) by (auto simp: signalled_def)
next
  case (user_start cfg a)
  then show ?thesis using start_signals [of False cfg m] assms(2) by (simp add: signalled_def)
next
  case (auto_start cfg a)
  then show ?thesis using start_signals [of True cfg "m\<lparr>sm_restarts := remove1 cfg (sm_restarts m)\<rparr>"] assms(2) by (simp add: signalled_def)
next
  case (term_sent mode d)
  then show ?thesis using assms(2) done_signals [of mode m] by (auto simp: signalled_def stop_signal_def split: if_splits)
next
  case (grace_over mode d)
  then show ?thesis using assms(2) by (auto simp: signalled_def stop_grace_over_def)
qed (use assms(2) in \<open>auto simp: stop_signals done_signals raised_signals mon_signals signalled_def start_failed_def start_spawned_def start_watch_def
    begin_watch_def start_unsaved_def Let_def\<close>)

lemma due_recorded:
  "mreach uuid m \<Longrightarrow> receipted (sm_op m) = Some c \<or> signalled c m \<Longrightarrow> recorded_before uuid c m"
proof (induction rule: mreach.induct)
  case (boot now alive auto box store)
  then show ?case by (auto simp: readopt_def mgr_init_def begin_watch_def signalled_def Let_def split: option.splits prod.splits if_splits)
next
  case (step m l m')
  from due_step [OF step.hyps(2) step.prems] show ?case
  proof (elim disjE)
    assume "stop_recorded uuid c m m' \<and> \<not> signalled c m'"
    then show ?thesis unfolding recorded_before_def using step.hyps(1) mrun.stay by blast
  qed (use step.IH step.hyps(2) run_snoc in \<open>unfold recorded_before_def, blast\<close>)+
qed

text \<open>C31: no process is signalled before a receipt of its stop is in the outbox. On the way to any state in
  which a signal has been sent to a process lies the step in which a stop made a receipt for it and stored it, with the
  outbox holding it after that step and no signal sent to the process up to then; and its identity is
  marked, so that its monitor writes no second receipt.\<close>

theorem signal_after_receipt:
  assumes "mreach uuid m" "(c, s) \<in> set (sm_signals m)"
  shows "(\<exists>m1 m2 ls. mreach uuid m1 \<and> stop_recorded uuid c m1 m2 \<and> \<not> signalled c m2 \<and> mrun uuid m2 ls m)
    \<and> child_identity c \<in> set (sm_durable m)"
proof -
  have "signalled c m" using assms(2) by (force simp: signalled_def)
  then show ?thesis
    using due_recorded [OF assms(1)] assms(2) mgr_invD(4) [OF reach_inv [OF assms(1)]] by (auto simp: recorded_before_def receipt_inv_def)
qed

text \<open>Once idle with the shutdown latch set, a manager stays so.\<close>

lemma shutdown_step:
  assumes "mreach uuid m" "sm_shutdown m" "sm_op m = Idle" "mstep uuid m l m'"
  shows "sm_shutdown m' \<and> sm_op m' = Idle"
proof -
  note inv = mgr_invD [OF reach_inv [OF assms(1)]]
  have i: "\<not> sm_starting m" "\<not> sm_stopping m" "sm_child m = None" using when_idle [OF inv(1) assms(3)] assms(2) by auto
  have st: "sm_shutdown m' \<and> sm_op m' = Idle" if "start_call auto cfg n = (m', a)" "sm_shutdown n" for auto cfg n m' a
    using that by (auto simp: start_call_def start_admit_def)
  have dn: "sm_shutdown (stop_done mode n) \<and> sm_op (stop_done mode n) = Idle" if "sm_shutdown n" for mode n
    using st [of False _ n "fst (start_call False cfg n)" "snd (start_call False cfg n)" for cfg] that
    by (cases mode) (auto simp: stop_done_def)
  have sc: "sm_shutdown (stop_call mode force m) \<and> sm_op (stop_call mode force m) = Idle" for mode force
    using dn assms(2) i(3) by (simp add: stop_call_def Let_def)
  from assms(4) show ?thesis
  proof (cases rule: mstep.cases)
    case (accounts c info ws cur model wall detail disk)
    then show ?thesis using assms(2,3) by (auto simp: mon_account_def Let_def split: sum.splits)
  next
    case (clears c info ws)
    then show ?thesis using assms(2,3) by (simp add: mon_clear_def Let_def)
  next
    case (restarts c ws cur)
    then show ?thesis using assms(2,3) by (auto simp: mon_restart_def split: option.splits)
  next
    case (observed doc)
    then show ?thesis using assms(2,3) by (auto simp: observe_accounting_def split: option.splits sum.splits)
  next
    case (acked i)
    then show ?thesis using assms(2,3) by (auto simp: ack_accounting_def split: sum.splits)
  qed (use assms(2,3) st sc in \<open>auto simp: mon_exit_def mon_observe_def mon_finish_def\<close>)
qed

text \<open>C15: after a shutdown has succeeded no interleaving of later calls, restarts and monitor steps brings a
  serve back.\<close>

theorem shutdown_final:
  assumes "mreach uuid m" "sm_shutdown m" "sm_op m = Idle" "mrun uuid m ls m'"
  shows "sm_running m' = [] \<and> sm_child m' = None"
proof -
  have "sm_shutdown m' \<and> sm_op m' = Idle"
    using assms(4,1,2,3)
  proof (induction rule: mrun.induct)
    case (more m l m1 ls m2)
    have "sm_shutdown m1 \<and> sm_op m1 = Idle" using shutdown_step more.prems more.hyps(1) by blast
    then show ?case using more.IH mreach.step [OF more.prems(1) more.hyps(1)] by blast
  qed simp
  then have "sm_child m' = None" using when_idle(3) mgr_invD(1) reach_inv run_reach [OF assms(4,1)] by blast
  then show ?thesis using mgr_invD(2) [OF reach_inv [OF run_reach [OF assms(4,1)]]] by (auto simp: proc_inv_def)
qed

text \<open>A stop that found or left no child keeps it that way until somebody starts or switches.\<close>

lemma stopped_step:
  assumes "sm_stop_req m \<and> sm_child m = None \<and> sm_op m = Idle" "mstep uuid m l m'" "l \<noteq> UserStart" "l \<noteq> UserSwitch"
  shows "sm_stop_req m' \<and> sm_child m' = None \<and> sm_op m' = Idle"
proof -
  from assms(2) show ?thesis
  proof (cases rule: mstep.cases)
    case (auto_start cfg a)
    then show ?thesis using assms(1) by (auto simp: start_call_def start_admit_def split: if_splits)
  next
    case (accounts c info ws cur model wall detail disk)
    then show ?thesis using assms(1) by (auto simp: mon_account_def Let_def split: sum.splits)
  next
    case (clears c info ws)
    then show ?thesis using assms(1) by (simp add: mon_clear_def Let_def)
  next
    case (restarts c ws cur)
    then show ?thesis using assms(1) by (auto simp: mon_restart_def split: option.splits)
  next
    case (acked i)
    then show ?thesis using assms(1) by (auto simp: ack_accounting_def split: sum.splits)
  qed (use assms in \<open>auto simp: mon_exit_def mon_observe_def mon_finish_def observe_accounting_def stop_call_def stop_done_def Let_def\<close>)
qed

text \<open>C30: after a stop the automatic restart of a crashed serve never undoes it: until a client starts or
  switches, no serve runs.\<close>

theorem stop_sticks:
  assumes "mreach uuid m" "sm_stop_req m" "sm_child m = None" "sm_op m = Idle" "mrun uuid m ls m'"
    and "UserStart \<notin> set ls" "UserSwitch \<notin> set ls"
  shows "sm_running m' = [] \<and> sm_child m' = None"
proof -
  have "sm_stop_req m' \<and> sm_child m' = None \<and> sm_op m' = Idle"
    using assms(5,2,3,4,6,7)
  proof (induction rule: mrun.induct)
    case (more m l m1 ls m2)
    then show ?case using stopped_step [OF _ more.hyps(1)] by (simp add: eq_commute)
  qed simp
  then show ?thesis using mgr_invD(2) [OF reach_inv [OF run_reach [OF assms(5,1)]]] by (auto simp: proc_inv_def)
qed

section \<open>A run\<close>

text \<open>A start, then a crash whose monitor has cleared the child but not yet the pidfile.\<close>

abbreviation demo_id :: "string \<Rightarrow> string" where
  "demo_id \<equiv> \<lambda>_. ''r''"

abbreviation demo_cfg :: serve_cfg where
  "demo_cfg \<equiv> \<lparr>cf_model = ''m'', cf_port = 8000, cf_args = []\<rparr>"

definition demo_child :: "nat \<Rightarrow> child" where
  "demo_child g = \<lparr>ch_gen = g, ch_pid = 7, ch_start = None, ch_adopted = False\<rparr>"

definition demo_init :: mgr where
  "demo_init = mgr_init True [] None"

definition demo_start :: "mgr \<Rightarrow> mgr" where
  "demo_start m = start_spawned 0 7 None demo_cfg (fst (start_call False demo_cfg m))"

lemma demo_reach_init: "mreach demo_id demo_init"
  using mreach.boot [of demo_id 0 True True "[]" None] by (simp add: demo_init_def readopt_def mgr_init_def)

lemma demo_reach_start:
  assumes "mreach demo_id m" "sm_op m = Idle" "sm_child m = None" "\<not> sm_shutdown m" "\<not> sm_starting m" "sm_gen m = g"
  shows "mreach demo_id (start_watch demo_cfg (demo_child g) (demo_start m))"
proof -
  obtain m1 a where m1: "start_call False demo_cfg m = (m1, a)" by fastforce
  then have a: "sm_op m1 = Spawning demo_cfg" "a = Spawn" "sm_gen m1 = g"
    using assms(3-6) by (auto simp: start_call_def start_admit_def)
  have r1: "mreach demo_id m1" by (rule mreach.step [OF assms(1) mstep.user_start]) (use assms(2) m1 a in auto)
  have r2: "mreach demo_id (demo_start m)"
    unfolding demo_start_def m1 fst_conv by (rule mreach.step [OF r1 mstep.spawn]) (rule a(1))
  show ?thesis
    by (rule mreach.step [OF r2 mstep.watch]) (use m1 a in \<open>simp add: demo_start_def start_spawned_def demo_child_def Let_def\<close>)
qed

definition demo_one :: mgr where
  "demo_one = start_watch demo_cfg (demo_child 0) (demo_start demo_init)"

lemmas demo_serve_defs = demo_one_def demo_start_def demo_init_def mgr_init_def demo_child_def start_call_def start_admit_def
  start_spawned_def start_watch_def begin_watch_def Let_def

lemma demo_reach_one: "mreach demo_id demo_one"
  unfolding demo_one_def by (rule demo_reach_start [OF demo_reach_init]) (simp_all add: demo_init_def mgr_init_def)

lemma one_serve_witness: "sm_running demo_one = [demo_child 0] \<and> sm_child demo_one = Some (demo_child 0)"
proof -
  have "sm_running demo_one \<noteq> []" "sm_child demo_one = Some (demo_child 0)" by (simp_all add: demo_serve_defs)
  then show ?thesis using one_serve [OF demo_reach_one] by simp
qed

definition demo_stopping :: mgr where
  "demo_stopping = stop_prepared demo_id 0 (PrepareFailed ''down'') (raise KeyError) Stored StopOnly True (demo_child 0) (Some ''m'') (Some 8000)
     (stop_call StopOnly True demo_one)"

lemma demo_reach_stopping: "mreach demo_id demo_stopping" "sm_op demo_stopping = Signalling StopOnly (demo_child 0)"
  "sm_reaped demo_stopping = []" "sm_signals demo_stopping = []"
proof -
  have p: "sm_op (stop_call StopOnly True demo_one) = Preparing StopOnly True (demo_child 0) (Some ''m'') (Some 8000)"
    by (simp add: stop_call_def demo_serve_defs)
  have r: "mreach demo_id (stop_call StopOnly True demo_one)"
    by (rule mreach.step [OF demo_reach_one mstep.user_stop]) (simp add: demo_serve_defs)
  show "mreach demo_id demo_stopping" unfolding demo_stopping_def by (rule mreach.step [OF r mstep.prepared [OF p]])
  have v: "valid_receipt_id ''r''" by code_simp
  show "sm_op demo_stopping = Signalling StopOnly (demo_child 0)" "sm_reaped demo_stopping = []" "sm_signals demo_stopping = []"
    using v by (simp_all add: demo_stopping_def stop_prepared_def prepare_receipt_def best_effort_receipt_def degraded_receipt_def
        stable_receipt_id_def persist_def stop_call_def answer_of_def stats_of_def demo_serve_defs)
qed

lemma signal_after_receipt_witness:
  "(\<exists>m1 m2 ls. mreach demo_id m1 \<and> stop_recorded demo_id (demo_child 0) m1 m2 \<and> \<not> signalled (demo_child 0) m2
      \<and> mrun demo_id m2 ls (stop_signal StopOnly (demo_child 0) demo_stopping))
    \<and> child_identity (demo_child 0) \<in> set (sm_durable (stop_signal StopOnly (demo_child 0) demo_stopping))"
proof -
  have "mreach demo_id (stop_signal StopOnly (demo_child 0) demo_stopping)"
    by (rule mreach.step [OF demo_reach_stopping(1) mstep.term_sent]) (rule demo_reach_stopping(2))
  moreover have "(demo_child 0, SIGTERM) \<in> set (sm_signals (stop_signal StopOnly (demo_child 0) demo_stopping))"
    by (simp add: stop_signal_def demo_reach_stopping(3,4))
  ultimately show ?thesis by (rule signal_after_receipt)
qed

lemma shutdown_final_witness:
  "sm_running (fst (start_call False demo_cfg (stop_call Shutdown False demo_init))) = []
    \<and> sm_child (fst (start_call False demo_cfg (stop_call Shutdown False demo_init))) = None"
proof (rule shutdown_final [of demo_id "stop_call Shutdown False demo_init" "[UserStart]"])
  let ?m = "stop_call Shutdown False demo_init"
  show "mreach demo_id ?m" by (rule mreach.step [OF demo_reach_init mstep.user_shutdown]) (simp add: demo_init_def mgr_init_def)
  show sh: "sm_shutdown ?m" "sm_op ?m = Idle" by (simp_all add: stop_call_def stop_done_def demo_init_def mgr_init_def)
  obtain m' a where c: "start_call False demo_cfg ?m = (m', a)" by fastforce
  then have "a = Refused" using sh(1) by (simp add: start_call_def start_admit_def)
  then have "a \<noteq> Wait" by simp
  then have "mrun demo_id ?m [UserStart] m'" by (rule mrun.more [OF mstep.user_start [OF sh(2) c] mrun.stay])
  then show "mrun demo_id ?m [UserStart] (fst (start_call False demo_cfg ?m))" unfolding c by simp
qed

lemma stop_sticks_witness:
  "sm_running (stop_call StopOnly True (stop_call StopOnly False demo_init)) = []
    \<and> sm_child (stop_call StopOnly True (stop_call StopOnly False demo_init)) = None"
proof (rule stop_sticks [of demo_id "stop_call StopOnly False demo_init" "[UserStop]"])
  let ?m = "stop_call StopOnly False demo_init"
  show "mreach demo_id ?m" by (rule mreach.step [OF demo_reach_init mstep.user_stop]) (simp add: demo_init_def mgr_init_def)
  show sh: "sm_stop_req ?m" "sm_child ?m = None" "sm_op ?m = Idle"
    by (simp_all add: stop_call_def stop_done_def demo_init_def mgr_init_def)
  show "mrun demo_id ?m [UserStop] (stop_call StopOnly True ?m)"
    by (rule mrun.more [OF mstep.user_stop mrun.stay]) (rule sh(3))
qed simp_all

section \<open>The pidfile race\<close>








end
