(* ===== verification/Supervisor.thy ===== *)
theory Supervisor
  imports Frontend TextOps
begin

text \<open>
  \<open>server/supervisor.py\<close>: waiting until every worker has acknowledged, with the liveness of the workers
  polled in between, and the watch over them afterwards. What the queue and the process handles
  answer is the argument: one \<open>poll\<close> per call of \<open>get\<close>; an empty answer comes with the name of the
  first dead worker at that moment. The calls run out when the wait is still going on.
\<close>

section \<open>Progress\<close>

datatype load_phase = ExpertBanks | Weights | Warmup | OtherPhase

definition phase_slug :: "string \<Rightarrow> load_phase" where
  "phase_slug desc =
    (let d = map lower_char desc in
     if has_sub ''expert'' d then ExpertBanks
     else if has_sub ''weight'' d then Weights
     else if has_sub ''graph'' d \<or> has_sub ''warm'' d then Warmup
     else OtherPhase)"

record load_progress =
  lp_desc :: string
  lp_done :: int
  lp_total :: int

definition progress_init :: load_progress where
  "progress_init = \<lparr>lp_desc = [], lp_done = 0, lp_total = 0\<rparr>"

definition progress_phase :: "load_progress \<Rightarrow> load_phase" where
  "progress_phase p = phase_slug (lp_desc p)"

section \<open>Waiting for readiness\<close>

datatype 'm ack =
    AckError "string option"
  | AckProgress string int int
  | AckMeta 'm
  | AckReady

datatype 'm poll = Got "'m ack" | Nothing "string option"

fun as_error :: "'m ack \<Rightarrow> string option" where
  "as_error (AckError (Some reason)) = Some reason"
| "as_error (AckError None) = Some ''backend worker failed during load''"
| "as_error _ = None"

text \<open>The first error among the next \<open>n\<close> answers\<close>

fun drain_pending_error :: "nat \<Rightarrow> 'm poll list \<Rightarrow> string option" where
  "drain_pending_error (Suc n) (Got a # ps) = (case as_error a of Some e \<Rightarrow> Some e | None \<Rightarrow> drain_pending_error n ps)"
| "drain_pending_error (Suc n) (Nothing d # ps) = drain_pending_error n ps"
| "drain_pending_error _ _ = None"

datatype drained = Ready nat | Died string | StillWaiting

text \<open>\<open>Ready k\<close>: the wait ends with \<open>k\<close> answers left.\<close>

fun drain_ready :: "nat \<Rightarrow> 'm poll list \<Rightarrow> load_progress \<times> 'm list \<Rightarrow> (load_progress \<times> 'm list) \<times> drained" where
  "drain_ready 0 ps s = (s, Ready (length ps))"
| "drain_ready (Suc n) [] s = (s, StillWaiting)"
| "drain_ready (Suc n) (Nothing None # ps) s = drain_ready (Suc n) ps s"
| "drain_ready (Suc n) (Nothing (Some w) # ps) s =
     (s, Died (case drain_pending_error 5 ps of
        Some r \<Rightarrow> if r \<noteq> [] then r else ''backend worker '' @ w @ '' exited during load''
      | None \<Rightarrow> ''backend worker '' @ w @ '' exited during load''))"
| "drain_ready (Suc n) (Got a # ps) s =
     (case as_error a of
        Some e \<Rightarrow> (s, Died e)
      | None \<Rightarrow>
          (case a of
             AckProgress d k t \<Rightarrow> drain_ready (Suc n) ps (\<lparr>lp_desc = d, lp_done = k, lp_total = t\<rparr>, snd s)
           | AckMeta m \<Rightarrow> drain_ready (Suc n) ps (fst s, snd s @ [m])
           | _ \<Rightarrow> drain_ready n ps s))"

section \<open>The watch\<close>

datatype callback = OnReady | OnFailure string

text \<open>After readiness: for each round, the first dead worker and whether a shutdown is under way.\<close>

fun watch_workers :: "(string option \<times> bool) list \<Rightarrow> callback list" where
  "watch_workers [] = []"
| "watch_workers ((None, sd) # rs) = watch_workers rs"
| "watch_workers ((Some w, True) # rs) = []"
| "watch_workers ((Some w, False) # rs) = [OnFailure (''backend worker '' @ w @ '' exited'')]"

definition run_backend_supervisor :: "nat \<Rightarrow> 'm poll list \<Rightarrow> bool \<Rightarrow> (string option \<times> bool) list \<Rightarrow> callback list" where
  "run_backend_supervisor expected ps shutting_down rounds =
    (case snd (drain_ready expected ps (progress_init, [])) of
       StillWaiting \<Rightarrow> []
     | Died msg \<Rightarrow> if shutting_down then [] else [OnFailure msg]
     | Ready _ \<Rightarrow> OnReady # watch_workers rounds)"

text \<open>What the callbacks do to the frontend.\<close>

fun apply_callback :: "time \<Rightarrow> callback \<Rightarrow> front \<Rightarrow> front" where
  "apply_callback now OnReady f = on_ready now f"
| "apply_callback now (OnFailure msg) f = on_failure msg f"

section \<open>Properties\<close>

fun ready_acks :: "'m poll list \<Rightarrow> nat" where
  "ready_acks [] = 0"
| "ready_acks (Got AckReady # ps) = Suc (ready_acks ps)"
| "ready_acks (p # ps) = ready_acks ps"

fun bad_poll :: "'m poll \<Rightarrow> bool" where
  "bad_poll (Got (AckError e)) = True"
| "bad_poll (Nothing (Some w)) = True"
| "bad_poll _ = False"

text \<open>The answers the wait consumes: no error and no death among them, and the last one completes the
  readiness.\<close>

definition consumed :: "nat \<Rightarrow> 'm poll list \<Rightarrow> nat \<Rightarrow> bool" where
  "consumed n ps k \<longleftrightarrow> (\<exists>as bs. ps = as @ bs \<and> length bs = k \<and> list_all (\<lambda>p. \<not> bad_poll p) as \<and> ready_acks as = n
     \<and> (as = [] \<or> last as = Got AckReady))"

lemma last_ready: "as \<noteq> [] \<Longrightarrow> last as = Got AckReady \<Longrightarrow> 0 < ready_acks as"
  by (induction as rule: ready_acks.induct) (auto split: if_splits)

lemma consumed_0: "consumed 0 ps k \<longleftrightarrow> k = length ps"
proof
  assume "consumed 0 ps k"
  then obtain as bs where "ps = as @ bs" "length bs = k" "ready_acks as = 0" "as = [] \<or> last as = Got AckReady"
    by (auto simp: consumed_def)
  then show "k = length ps" using last_ready [of as] by auto
next
  assume "k = length ps"
  then show "consumed 0 ps k" unfolding consumed_def by (intro exI [of _ "[]"] exI [of _ ps]) simp
qed

lemma consumed_Nil: "\<not> consumed (Suc n) [] k"
  by (auto simp: consumed_def)

lemma consumed_ready: "consumed (Suc n) (Got AckReady # ps) k \<longleftrightarrow> consumed n ps k"
proof
  assume "consumed (Suc n) (Got AckReady # ps) k"
  then obtain as bs where as: "Got AckReady # ps = as @ bs" "length bs = k" "list_all (\<lambda>p. \<not> bad_poll p) as" "ready_acks as = Suc n"
      "as = [] \<or> last as = Got AckReady"
    by (auto simp: consumed_def)
  then obtain as' where "as = Got AckReady # as'" "ps = as' @ bs" by (cases as) auto
  with as show "consumed n ps k" unfolding consumed_def by (intro exI [of _ as'] exI [of _ bs]) (auto split: if_splits)
next
  assume "consumed n ps k"
  then obtain as bs where "ps = as @ bs" "length bs = k" "list_all (\<lambda>p. \<not> bad_poll p) as" "ready_acks as = n"
      "as = [] \<or> last as = Got AckReady"
    by (auto simp: consumed_def)
  then show "consumed (Suc n) (Got AckReady # ps) k"
    unfolding consumed_def by (intro exI [of _ "Got AckReady # as"] exI [of _ bs]) auto
qed

lemma consumed_other:
  assumes "p \<noteq> Got AckReady"
  shows "consumed (Suc n) (p # ps) k \<longleftrightarrow> \<not> bad_poll p \<and> consumed (Suc n) ps k"
proof -
  have r: "ready_acks (p # xs) = ready_acks xs" for xs using assms by (cases p rule: bad_poll.cases) auto
  show ?thesis
  proof
    assume "consumed (Suc n) (p # ps) k"
    then obtain as bs where as: "p # ps = as @ bs" "length bs = k" "list_all (\<lambda>p. \<not> bad_poll p) as" "ready_acks as = Suc n"
        "as = [] \<or> last as = Got AckReady"
      by (auto simp: consumed_def)
    then obtain as' where as': "as = p # as'" "ps = as' @ bs" by (cases as) auto
    then have "as' \<noteq> []" using as(4) r by auto
    with as as' r show "\<not> bad_poll p \<and> consumed (Suc n) ps k"
      unfolding consumed_def by (intro conjI exI [of _ as'] exI [of _ bs]) (auto simp: last_ConsR)
  next
    assume "\<not> bad_poll p \<and> consumed (Suc n) ps k"
    then obtain as bs where "\<not> bad_poll p" "ps = as @ bs" "length bs = k" "list_all (\<lambda>p. \<not> bad_poll p) as" "ready_acks as = Suc n"
        "as = [] \<or> last as = Got AckReady"
      by (auto simp: consumed_def)
    then show "consumed (Suc n) (p # ps) k"
      unfolding consumed_def using r by (intro exI [of _ "p # as"] exI [of _ bs]) auto
  qed
qed

text \<open>The wait for the backend succeeds exactly when as many ready acknowledgements as expected arrive
  before any error and before any poll that finds a dead worker, and it stops at the last of them.\<close>

theorem drain_ready_exact:
  "snd (drain_ready n ps s) = Ready k \<longleftrightarrow>
    (\<exists>as bs. ps = as @ bs \<and> length bs = k \<and> list_all (\<lambda>p. \<not> bad_poll p) as \<and> ready_acks as = n
       \<and> (as = [] \<or> last as = Got AckReady))"
proof -
  have "snd (drain_ready n ps s) = Ready k \<longleftrightarrow> consumed n ps k"
  proof (induction n ps s rule: drain_ready.induct)
    case (5 n a ps s)
    show ?case
    proof (cases a)
      case (AckError e)
      then show ?thesis by (cases e) (simp_all add: consumed_other)
    qed (use 5 in \<open>simp_all add: consumed_ready consumed_other\<close>)
  qed (auto simp: consumed_0 consumed_Nil consumed_other)
  then show ?thesis by (simp add: consumed_def)
qed

text \<open>The callbacks: at most one readiness, at most one failure, and the failure last.\<close>

lemma supervisor_callbacks:
  "run_backend_supervisor n ps sd rounds \<in> {[], [OnReady]} \<union> range (\<lambda>m. [OnFailure m]) \<union> range (\<lambda>m. [OnReady, OnFailure m])"
proof -
  have "watch_workers rs \<in> {[]} \<union> range (\<lambda>m. [OnFailure m])" for rs
    by (induction rs rule: watch_workers.induct) auto
  then show ?thesis by (fastforce simp: run_backend_supervisor_def split: drained.splits)
qed

end
