(* ===== verification/TokenUsage.thy ===== *)
theory TokenUsage
  imports Receipts TextOps
begin

text \<open>
  \<open>ui/backend/app/tokens.py\<close>: the tokens processed per hour, source and model. Counts wait in memory
  (\<open>_pending\<close>) until a flush folds them into the database; engine counters are diffed against the
  highest reading seen (\<open>_marks\<close>). A table is an association list with distinct keys, in insertion
  order as a dict has it. Every function runs under the module's lock. Bytes are Latin-1 characters;
  the JSON decoder and Python's \<open>int(str)\<close> are parameters.
\<close>

section \<open>Rows\<close>

record usage_row =
  us_prompt :: int
  us_completion :: int
  us_requests :: int
  us_unmetered :: int
  us_first :: time
  us_last :: time

type_synonym usage_key = "int \<times> string \<times> string"
type_synonym usage_table = "(usage_key \<times> usage_row) list"

definition BUCKET_S :: int where "BUCKET_S = 3600"

definition bucket_of :: "time \<Rightarrow> int" where
  "bucket_of ts = \<lfloor>ts / of_int BUCKET_S\<rfloor> * BUCKET_S"

definition sources :: "string list" where
  "sources = [''local'', ''network'', ''external'']"

definition add_row :: "usage_row \<Rightarrow> usage_row \<Rightarrow> usage_row" where
  "add_row a b =
    \<lparr>us_prompt = us_prompt a + us_prompt b, us_completion = us_completion a + us_completion b,
     us_requests = us_requests a + us_requests b, us_unmetered = us_unmetered a + us_unmetered b,
     us_first = min (us_first a) (us_first b), us_last = max (us_last a) (us_last b)\<rparr>"

definition fold_row :: "usage_key \<Rightarrow> usage_row \<Rightarrow> usage_table \<Rightarrow> usage_table" where
  "fold_row k r t = (case map_of t k of None \<Rightarrow> t @ [(k, r)] | Some old \<Rightarrow> AList.update k (add_row old r) t)"

definition fold_rows :: "usage_table \<Rightarrow> usage_table \<Rightarrow> usage_table" where
  "fold_rows rows t = foldl (\<lambda>t (k, r). fold_row k r t) t rows"

section \<open>Recording\<close>

record usage_state =
  tu_pending :: usage_table
  tu_db :: usage_table
  tu_marks :: "(string \<times> ((int \<times> int \<times> int) \<times> time)) list"

definition usage_init :: "usage_table \<Rightarrow> usage_state" where
  "usage_init db = \<lparr>tu_pending = [], tu_db = db, tu_marks = []\<rparr>"

definition record_tokens :: "string \<Rightarrow> string \<Rightarrow> int \<Rightarrow> int \<Rightarrow> int \<Rightarrow> int \<Rightarrow> time \<Rightarrow> usage_state \<Rightarrow> usage_state" where
  "record_tokens src model prompt completion requests unmetered ts s =
    (if model = [] \<or> src \<notin> set sources then s
     else s\<lparr>tu_pending := fold_row (bucket_of ts, src, model)
       \<lparr>us_prompt = prompt, us_completion = completion, us_requests = requests, us_unmetered = unmetered,
        us_first = ts, us_last = ts\<rparr> (tu_pending s)\<rparr>)"

text \<open>\<open>int(v)\<close>; \<open>None\<close> for its TypeError or ValueError\<close>

fun json_int :: "(string \<Rightarrow> int option) \<Rightarrow> jdoc \<Rightarrow> int option" where
  "json_int conv (DInt i) = Some i"
| "json_int conv (DBool b) = Some (if b then 1 else 0)"
| "json_int conv (DFloat x) = Some (if x \<ge> 0 then \<lfloor>x\<rfloor> else \<lceil>x\<rceil>)"
| "json_int conv (DStr s) = conv s"
| "json_int conv _ = None"

definition json_int_or_0 :: "(string \<Rightarrow> int option) \<Rightarrow> jdoc \<Rightarrow> int option" where
  "json_int_or_0 conv v = (if truthy v then json_int conv v else Some 0)"

definition usage_tokens :: "(string \<Rightarrow> int option) \<Rightarrow> jdoc \<Rightarrow> (int \<times> int) option" where
  "usage_tokens conv usage =
    (case usage of
       DObj u \<Rightarrow>
         (let pt = jget_alt ''prompt_tokens'' ''input_tokens'' u; ct = jget_alt ''completion_tokens'' ''output_tokens'' u in
          if pt = DNull \<and> ct = DNull then None
          else case (json_int_or_0 conv pt, json_int_or_0 conv ct) of
            (Some p, Some c) \<Rightarrow> Some (max 0 p, max 0 c) | _ \<Rightarrow> None)
     | _ \<Rightarrow> None)"

definition record_usage :: "(string \<Rightarrow> int option) \<Rightarrow> string \<Rightarrow> string \<Rightarrow> jdoc \<Rightarrow> time \<Rightarrow> usage_state \<Rightarrow> usage_state" where
  "record_usage conv src model usage ts s =
    (case usage_tokens conv usage of
       None \<Rightarrow> record_tokens src model 0 0 1 1 ts s
     | Some (p, c) \<Rightarrow> record_tokens src model p c 1 0 ts s)"

section \<open>Streams\<close>

definition byte_lines :: "string \<Rightarrow> string list" where
  "byte_lines s = foldr (\<lambda>c ls. if c = CHR 0x0A then [] # ls else (c # hd ls) # tl ls) s [[]]"

definition byte_space :: "char \<Rightarrow> bool" where
  "byte_space c \<longleftrightarrow> c \<in> {CHR 0x09, CHR 0x0A, CHR 0x0B, CHR 0x0C, CHR 0x0D, CHR '' ''}"

definition byte_strip :: "string \<Rightarrow> string" where
  "byte_strip s = rev (dropWhile byte_space (rev (dropWhile byte_space s)))"

definition sse_tail :: "string \<Rightarrow> string \<Rightarrow> string" where
  "sse_tail tail chunk = (let s = tail @ chunk in drop (nat (int (length s) - 65536)) s)"

fun usage_in_lines :: "(string \<Rightarrow> jdoc option) \<Rightarrow> string list \<Rightarrow> jdoc result" where
  "usage_in_lines loads [] = ok DNull"
| "usage_in_lines loads (l # ls) =
    (let line = byte_strip l in
     if has_prefix ''data: {'' line \<and> has_sub (CHR 0x22 # ''usage'' @ [CHR 0x22]) line then
       (case loads (drop 6 line) of
          Some (DObj d) \<Rightarrow>
            (let u = jget ''usage'' d in
             if truthy u then ok u
             else let g = jget ''x_groq'' d in
               if \<not> truthy g then usage_in_lines loads ls
               else (case g of
                 DObj x \<Rightarrow> if truthy (jget ''usage'' x) then ok (jget ''usage'' x) else usage_in_lines loads ls
               | _ \<Rightarrow> raise (RuntimeError ''AttributeError'')))
        | Some _ \<Rightarrow> raise (RuntimeError ''AttributeError'')
        | None \<Rightarrow> usage_in_lines loads ls)
     else usage_in_lines loads ls)"

definition usage_from_sse :: "(string \<Rightarrow> jdoc option) \<Rightarrow> string \<Rightarrow> jdoc result" where
  "usage_from_sse loads tail = usage_in_lines loads (rev (byte_lines tail))"

definition with_stream_usage :: "(string \<times> jdoc) list \<Rightarrow> (string \<times> jdoc) list" where
  "with_stream_usage payload =
    (if truthy (jget ''stream'' payload) \<and> map_of payload ''stream_options'' = None
     then payload @ [(''stream_options'', DObj [(''include_usage'', DBool True)])] else payload)"

section \<open>Engine counters\<close>

definition engine_sample :: "(string \<Rightarrow> int option) \<Rightarrow> jdoc \<Rightarrow> (int \<times> int \<times> int) option" where
  "engine_sample conv stats =
    (case stats of
       DObj st \<Rightarrow>
         (case jget ''requests'' st of
            DObj req \<Rightarrow>
              (case (Option.bind (map_of req ''prompt_tokens_total'') (json_int conv),
                     Option.bind (map_of req ''completion_tokens_total'') (json_int conv),
                     json_int_or_0 conv (jget ''completed'' req)) of
                 (Some p, Some c, Some n) \<Rightarrow> Some (p, c, n) | _ \<Rightarrow> None)
          | _ \<Rightarrow> None)
     | _ \<Rightarrow> None)"

fun max3 :: "int \<times> int \<times> int \<Rightarrow> int \<times> int \<times> int \<Rightarrow> int \<times> int \<times> int" where
  "max3 (a, b, c) (x, y, z) = (max a x, max b y, max c z)"

definition mark_of :: "string \<Rightarrow> usage_state \<Rightarrow> int \<times> int \<times> int" where
  "mark_of ident s = (case map_of (tu_marks s) ident of None \<Rightarrow> (0, 0, 0) | Some (m, _) \<Rightarrow> m)"

definition observe_sample :: "string \<Rightarrow> string \<Rightarrow> int \<times> int \<times> int \<Rightarrow> time \<Rightarrow> usage_state \<Rightarrow> usage_state" where
  "observe_sample ident model now ts s =
    (case (now, mark_of ident s) of
       ((p, c, n), (p0, c0, n0)) \<Rightarrow>
         (let s = s\<lparr>tu_marks := AList.update ident (max3 (p, c, n) (p0, c0, n0), ts) (tu_marks s)\<rparr>;
              dp = max 0 (p - p0); dc = max 0 (c - c0); dn = max 0 (n - n0)
          in if dp \<noteq> 0 \<or> dc \<noteq> 0 \<or> dn \<noteq> 0 then record_tokens ''local'' model dp dc dn 0 ts s else s))"

definition observe_engine :: "(string \<Rightarrow> int option) \<Rightarrow> string \<Rightarrow> string \<Rightarrow> jdoc \<Rightarrow> time \<Rightarrow> usage_state \<Rightarrow> usage_state" where
  "observe_engine conv ident model stats ts s =
    (case engine_sample conv stats of
       Some now \<Rightarrow> if model = [] then s else observe_sample ident model now ts s
     | None \<Rightarrow> s)"

definition FORGET_AFTER_S :: time where "FORGET_AFTER_S = 600"

definition forget_engines :: "string list \<Rightarrow> time \<Rightarrow> usage_state \<Rightarrow> usage_state" where
  "forget_engines keep now s =
    s\<lparr>tu_marks := filter (\<lambda>(k, m). k \<in> set keep \<or> snd m \<ge> now - FORGET_AFTER_S) (tu_marks s)\<rparr>"

section \<open>Flushing\<close>

text \<open>What the database does with the batch: it commits; it fails before it has written anything (a
  locked file); or the commit fails and leaves the rows in the open transaction of the connection,
  which the next commit then makes durable.\<close>

datatype flush_outcome = Committed | NotWritten | NotCommitted

definition flush_usage :: "flush_outcome \<Rightarrow> usage_state \<Rightarrow> usage_state \<times> unit result" where
  "flush_usage out s =
    (if tu_pending s = [] then (s, ok ())
     else
       let rows = tu_pending s; t = s\<lparr>tu_pending := []\<rparr> in
       case out of
         Committed \<Rightarrow> (t\<lparr>tu_db := fold_rows rows (tu_db s)\<rparr>, ok ())
       | NotWritten \<Rightarrow> (t\<lparr>tu_pending := fold_rows rows []\<rparr>, raise (RuntimeError ''sqlite3.Error''))
       | NotCommitted \<Rightarrow> (t\<lparr>tu_db := fold_rows rows (tu_db s), tu_pending := fold_rows rows []\<rparr>, raise (RuntimeError ''sqlite3.Error'')))"

section \<open>Reading\<close>

text \<open>\<open>_rows\<close> after its flush: the groups of the source and model of the rows from the start bucket on.\<close>

definition usage_rows :: "time option \<Rightarrow> usage_state \<Rightarrow> ((string \<times> string) \<times> usage_row) list" where
  "usage_rows since s =
    (let start = (case since of None \<Rightarrow> 0 | Some t \<Rightarrow> if t \<noteq> 0 then bucket_of t else 0) in
     foldl (\<lambda>t ((b, src, m), r). if b \<ge> start then (case map_of t (src, m) of None \<Rightarrow> t @ [((src, m), r)]
         | Some old \<Rightarrow> AList.update (src, m) (add_row old r) t) else t) [] (tu_db s))"

section \<open>Amounts\<close>

definition amount :: "(usage_row \<Rightarrow> int) \<Rightarrow> ('k \<Rightarrow> bool) \<Rightarrow> ('k \<times> usage_row) list \<Rightarrow> int" where
  "amount f P t = sum_list (map (f \<circ> snd) (filter (P \<circ> fst) t))"

lemma amount_simps [simp]:
  "amount f P [] = 0"
  "amount f P ((k, r) # t) = (if P k then f r else 0) + amount f P t"
  "amount f P (t @ u) = amount f P t + amount f P u"
  by (simp_all add: amount_def)

lemma amount_update:
  "map_of t k = Some old \<Longrightarrow> amount f P (AList.update k new t) = amount f P t + (if P k then f new - f old else 0)"
  by (induction t) (auto split: if_splits)

text \<open>A column that adds up when rows are merged.\<close>

locale usage_counter =
  fixes f :: "usage_row \<Rightarrow> int"
  assumes add: "f (add_row a b) = f a + f b"
    and zero: "f \<lparr>us_prompt = 0, us_completion = 0, us_requests = 0, us_unmetered = 0, us_first = x, us_last = y\<rparr> = 0"
begin

lemma amount_fold_row: "amount f P (fold_row k r t) = amount f P t + (if P k then f r else 0)"
  by (simp add: fold_row_def amount_update add split: option.splits)

lemma amount_fold_rows: "amount f P (fold_rows rows t) = amount f P t + amount f P rows"
  by (induction rows arbitrary: t) (auto simp: fold_rows_def amount_fold_row)

end

text \<open>What is stored, in memory and in the database\<close>

definition stored :: "(usage_row \<Rightarrow> int) \<Rightarrow> (usage_key \<Rightarrow> bool) \<Rightarrow> usage_state \<Rightarrow> int" where
  "stored f P s = amount f P (tu_pending s) + amount f P (tu_db s)"

section \<open>Runs\<close>

datatype usage_op =
    ORecord string string int int int int time
  | OUsage string string jdoc time
  | OEngine string string jdoc time
  | OForget "string list" time
  | OFlush flush_outcome

fun usage_step :: "(string \<Rightarrow> int option) \<Rightarrow> usage_op \<Rightarrow> usage_state \<Rightarrow> usage_state" where
  "usage_step conv (ORecord src m p c n u ts) s = record_tokens src m p c n u ts s"
| "usage_step conv (OUsage src m usage ts) s = record_usage conv src m usage ts s"
| "usage_step conv (OEngine ident m stats ts) s = observe_engine conv ident m stats ts s"
| "usage_step conv (OForget keep now) s = forget_engines keep now s"
| "usage_step conv (OFlush out) s = fst (flush_usage out s)"

text \<open>The rows an operation has to add, which is what a ledger of all of them would list.\<close>

definition entry :: "string \<Rightarrow> string \<Rightarrow> int \<Rightarrow> int \<Rightarrow> int \<Rightarrow> int \<Rightarrow> time \<Rightarrow> usage_table" where
  "entry src m p c n u ts =
    (if m = [] \<or> src \<notin> set sources then []
     else [((bucket_of ts, src, m), \<lparr>us_prompt = p, us_completion = c, us_requests = n, us_unmetered = u, us_first = ts, us_last = ts\<rparr>)])"

fun entries :: "(string \<Rightarrow> int option) \<Rightarrow> usage_op \<Rightarrow> usage_state \<Rightarrow> usage_table" where
  "entries conv (ORecord src m p c n u ts) s = entry src m p c n u ts"
| "entries conv (OUsage src m usage ts) s =
     (case usage_tokens conv usage of None \<Rightarrow> entry src m 0 0 1 1 ts | Some (p, c) \<Rightarrow> entry src m p c 1 0 ts)"
| "entries conv (OEngine ident m stats ts) s =
     (case engine_sample conv stats of
        None \<Rightarrow> []
      | Some (p, c, n) \<Rightarrow> (case mark_of ident s of (p0, c0, n0) \<Rightarrow> entry ''local'' m (max 0 (p - p0)) (max 0 (c - c0)) (max 0 (n - n0)) 0 ts))"
| "entries conv _ s = []"

primrec usage_run :: "(string \<Rightarrow> int option) \<Rightarrow> usage_op list \<Rightarrow> usage_state \<Rightarrow> usage_state" where
  "usage_run conv [] s = s"
| "usage_run conv (x # xs) s = usage_run conv xs (usage_step conv x s)"

primrec usage_ledger :: "(string \<Rightarrow> int option) \<Rightarrow> usage_op list \<Rightarrow> usage_state \<Rightarrow> usage_table" where
  "usage_ledger conv [] s = []"
| "usage_ledger conv (x # xs) s = entries conv x s @ usage_ledger conv xs (usage_step conv x s)"

text \<open>The rows that a failed commit leaves both in the open transaction and in memory\<close>

fun counted_again :: "usage_op \<Rightarrow> usage_state \<Rightarrow> usage_table" where
  "counted_again (OFlush NotCommitted) s = tu_pending s"
| "counted_again _ s = []"

primrec usage_again :: "(string \<Rightarrow> int option) \<Rightarrow> usage_op list \<Rightarrow> usage_state \<Rightarrow> usage_table" where
  "usage_again conv [] s = []"
| "usage_again conv (x # xs) s = counted_again x s @ usage_again conv xs (usage_step conv x s)"



lemma stored_marks [simp]: "stored f P (s\<lparr>tu_marks := m\<rparr>) = stored f P s"
  by (simp add: stored_def)

context usage_counter begin

lemma stored_record: "stored f P (record_tokens src m p c n u ts s) = stored f P s + amount f P (entry src m p c n u ts)"
  by (simp add: record_tokens_def entry_def stored_def amount_fold_row)

lemma stored_flush: "out \<noteq> NotCommitted \<Longrightarrow> stored f P (fst (flush_usage out s)) = stored f P s"
  by (cases out) (simp_all add: flush_usage_def stored_def amount_fold_rows)

lemma stored_flush_twice: "stored f P (fst (flush_usage NotCommitted s)) = stored f P s + amount f P (tu_pending s)"
  by (simp add: flush_usage_def stored_def amount_fold_rows Let_def)

lemma stored_sample:
  assumes "mark_of ident s = (p0, c0, n0)"
  shows "stored f P (observe_sample ident m (p, c, n) ts s)
    = stored f P s + amount f P (entry ''local'' m (max 0 (p - p0)) (max 0 (c - c0)) (max 0 (n - n0)) 0 ts)"
  using assms by (auto simp: observe_sample_def Let_def stored_record entry_def zero)

lemma stored_step:
  "stored f P (usage_step conv op s) = stored f P s + amount f P (entries conv op s) + amount f P (counted_again op s)"
proof (cases op)
  case (OUsage src m usage ts)
  then show ?thesis by (auto simp: record_usage_def stored_record split: option.splits)
next
  case (OEngine ident m stats ts)
  obtain p0 c0 n0 where mk: "mark_of ident s = (p0, c0, n0)" by (metis prod_cases3)
  show ?thesis
  proof (cases "m = []")
    case True
    then show ?thesis using OEngine mk by (auto simp: observe_engine_def entry_def split: option.splits)
  next
    case False
    then show ?thesis using OEngine mk by (auto simp: observe_engine_def stored_sample [OF mk] split: option.splits)
  qed
next
  case (OFlush out)
  then show ?thesis by (cases out) (simp_all add: stored_flush stored_flush_twice)
qed (auto simp: stored_record forget_engines_def)

lemma stored_run:
  "stored f P (usage_run conv ops s) = stored f P s + amount f P (usage_ledger conv ops s) + amount f P (usage_again conv ops s)"
  by (induction ops arbitrary: s) (simp_all add: stored_step)

end

text \<open>The columns of the table\<close>

interpretation prompt_col: usage_counter us_prompt
  by unfold_locales (simp_all add: add_row_def)




section \<open>Properties\<close>



text \<open>Samples of one engine, in any order\<close>

fun observe_samples :: "string \<Rightarrow> string \<Rightarrow> ((int \<times> int \<times> int) \<times> time) list \<Rightarrow> usage_state \<Rightarrow> usage_state" where
  "observe_samples ident m [] s = s"
| "observe_samples ident m ((x, ts) # xs) s = observe_samples ident m xs (observe_sample ident m x ts s)"

lemma sample_mark: "mark_of ident (observe_sample ident m x ts s) = max3 x (mark_of ident s)"
proof -
  obtain p c n p0 c0 n0 where "x = (p, c, n)" "mark_of ident s = (p0, c0, n0)" by (metis prod_cases3)
  then show ?thesis by (auto simp: observe_sample_def Let_def mark_of_def record_tokens_def AList.update_conv')
qed

lemma samples_prompt:
  "m \<noteq> [] \<Longrightarrow> stored us_prompt (\<lambda>(b, src, mm). src = ''local'' \<and> mm = m) (observe_samples ident m xs s) - fst (mark_of ident (observe_samples ident m xs s))
     = stored us_prompt (\<lambda>(b, src, mm). src = ''local'' \<and> mm = m) s - fst (mark_of ident s)
   \<and> mark_of ident (observe_samples ident m xs s) = foldl (\<lambda>k x. max3 (fst x) k) (mark_of ident s) xs"
proof (induction xs arbitrary: s)
  case (Cons y xs)
  obtain p c n ts where y: "y = ((p, c, n), ts)" by (metis prod_cases3 surj_pair)
  obtain p0 c0 n0 where mk: "mark_of ident s = (p0, c0, n0)" by (metis prod_cases3)
  have "stored us_prompt (\<lambda>(b, src, mm). src = ''local'' \<and> mm = m) (observe_sample ident m (p, c, n) ts s)
    = stored us_prompt (\<lambda>(b, src, mm). src = ''local'' \<and> mm = m) s + max 0 (p - p0)"
    using prompt_col.stored_sample [OF mk] Cons.prems by (simp add: entry_def sources_def)
  moreover have "max 0 (p - p0) = max p p0 - p0" by simp
  ultimately show ?case using Cons.IH [of "observe_sample ident m (p, c, n) ts s"] Cons.prems y mk
    by (auto simp: sample_mark)
qed simp

text \<open>However the readings of an engine's counters arrive, late ones included, the prompt tokens counted for
  its model grow by the highest reading, once.\<close>

theorem engine_counted_once:
  assumes "m \<noteq> []" "mark_of ident s = (0, 0, 0)"
  shows "stored us_prompt (\<lambda>(b, src, mm). src = ''local'' \<and> mm = m) (observe_samples ident m xs s)
    = stored us_prompt (\<lambda>(b, src, mm). src = ''local'' \<and> mm = m) s + Max (insert 0 ((\<lambda>x. fst (fst x)) ` set xs))"
proof -
  have two: "Max (insert (max a b) A) = Max (insert a (insert b A))" if "finite A" for a b :: int and A
    using that by (cases "A = {}") (simp_all add: max.assoc)
  have "fst (foldl (\<lambda>k x. max3 (fst x) k) k xs) = Max (insert (fst k) ((\<lambda>x. fst (fst x)) ` set xs))" for k
  proof (induction xs arbitrary: k)
    case (Cons y xs)
    have "fst (max3 (fst y) k) = max (fst (fst y)) (fst k)" by (cases "fst y"; cases k) simp
    then show ?case using Cons [of "max3 (fst y) k"] by (simp add: two insert_commute del: Max_insert)
  qed simp
  then show ?thesis using samples_prompt [OF assms(1), of ident xs s] assms(2) by auto
qed

lemma engine_counted_once_witness:
  "stored us_prompt (\<lambda>(b, src, mm). src = ''local'' \<and> mm = ''m'')
     (observe_samples ''e'' ''m'' [((10, 4, 1), 100), ((30, 9, 2), 200), ((20, 6, 1), 201)] (usage_init [])) = 30"
proof -
  let ?xs = "[((10, 4, 1), 100), ((30, 9, 2), 200), ((20, 6, 1), 201)] :: ((int \<times> int \<times> int) \<times> time) list"
  have "mark_of ''e'' (usage_init []) = (0, 0, 0)" by (simp add: mark_of_def usage_init_def)
  then show ?thesis using engine_counted_once [of "''m''" "''e''" "usage_init []" ?xs] by (simp add: stored_def usage_init_def)
qed

text \<open>A commit that fails after the rows were written puts them back although the open transaction keeps
  them: the next successful flush counts them twice.\<close>

lemma failed_commit_doubles:
  "stored us_prompt P (fst (flush_usage Committed (fst (flush_usage NotCommitted s)))) = stored us_prompt P s + amount us_prompt P (tu_pending s)"
  by (simp add: prompt_col.stored_flush prompt_col.stored_flush_twice)

end
