(* ===== verification/LoadProgress.thy ===== *)
theory LoadProgress
  imports Supervisor
begin

text \<open>
  \<open>ui/backend/app/progress.py\<close>: which phase of a load the engine has reached, read off its log and its
  \<open>/health\<close>, and the bar the console shows. The regular expressions are matchers over characters;
  percentages are exact rationals. The text of the detail line is not modelled.
\<close>

section \<open>Phases\<close>

datatype bar_phase = Starting | LoadWeights | PinExperts | KvCache | CudaGraphs | PrefillWarmup | PhaseReady

fun phase_index :: "bar_phase \<Rightarrow> nat" where
  "phase_index Starting = 0"
| "phase_index LoadWeights = 1"
| "phase_index PinExperts = 2"
| "phase_index KvCache = 3"
| "phase_index CudaGraphs = 4"
| "phase_index PrefillWarmup = 5"
| "phase_index PhaseReady = 6"

text \<open>\<open>_ORDER\<close> as the linear order of the type\<close>

instantiation bar_phase :: linorder
begin

definition less_eq_bar_phase :: "bar_phase \<Rightarrow> bar_phase \<Rightarrow> bool" where
  "less_eq_bar_phase a b \<longleftrightarrow> phase_index a \<le> phase_index b"

definition less_bar_phase :: "bar_phase \<Rightarrow> bar_phase \<Rightarrow> bool" where
  "less_bar_phase a b \<longleftrightarrow> phase_index a < phase_index b"

instance
proof
  fix a b :: bar_phase
  show "a \<le> b \<Longrightarrow> b \<le> a \<Longrightarrow> a = b" by (cases a; cases b) (simp_all add: less_eq_bar_phase_def)
qed (auto simp: less_eq_bar_phase_def less_bar_phase_def)

end

definition PHASES :: "(bar_phase \<times> string \<times> rat) list" where
  "PHASES = [(Starting, ''starting'', 2 / 100), (LoadWeights, ''weights'', 45 / 100), (PinExperts, ''expert_banks'', 35 / 100),
     (KvCache, ''kv_cache'', 3 / 100), (CudaGraphs, ''cuda_graphs'', 10 / 100), (PrefillWarmup, ''warmup'', 5 / 100),
     (PhaseReady, ''ready'', 0)]"

definition phase_of_slug :: "string \<Rightarrow> bar_phase option" where
  "phase_of_slug s = map_option fst (find (\<lambda>(p, slug, w). slug = s) PHASES)"

definition phase_weight :: "bar_phase \<Rightarrow> rat" where
  "phase_weight p = snd (snd (PHASES ! phase_index p))"

definition overall :: "bar_phase \<Rightarrow> rat option \<Rightarrow> rat" where
  "overall p pct =
    (let whole = sum_list (map (snd \<circ> snd) PHASES);
         before = sum_list (map (snd \<circ> snd) (take (phase_index p) PHASES));
         fraction = (case pct of None \<Rightarrow> 0 | Some x \<Rightarrow> x) / 100
     in min 100 ((before + phase_weight p * fraction) / (if whole = 0 then 1 else whole) * 100))"

section \<open>Log lines\<close>

definition char_space :: "char \<Rightarrow> bool" where
  "char_space c \<longleftrightarrow> is_space (of_char c)"

definition char_digit :: "char \<Rightarrow> bool" where
  "char_digit c \<longleftrightarrow> (let n = of_char c :: nat in 48 \<le> n \<and> n \<le> 57)"

text \<open>The escape sequences \<open>_ANSI\<close> removes: how many characters one takes\<close>

definition ansi_len :: "string \<Rightarrow> nat" where
  "ansi_len s =
    (case s of
       c # b # r \<Rightarrow>
         (let args = takeWhile (\<lambda>c. char_digit c \<or> c = CHR '';'') r in
          if c = CHR 0x1B \<and> b = CHR ''['' \<and> has_prefix ''m'' (drop (length args) r) then length args + 3 else 0)
     | _ \<Rightarrow> 0)"

function strip_colors :: "string \<Rightarrow> string" where
  "strip_colors [] = []"
| "strip_colors (c # r) = (if ansi_len (c # r) > 0 then strip_colors (drop (ansi_len (c # r)) (c # r)) else c # strip_colors r)"
  by pat_completeness auto

termination by (relation "measure length") auto

definition clean_line :: "string \<Rightarrow> string" where
  "clean_line s = rev (dropWhile char_space (rev (dropWhile char_space (strip_colors s))))"

definition has_ci :: "string \<Rightarrow> string \<Rightarrow> bool" where
  "has_ci pat line = has_sub (map lower_char pat) (map lower_char line)"

definition kv_at :: "string \<Rightarrow> bool" where
  "kv_at s \<longleftrightarrow> has_prefix ''allocating'' s \<and>
    (let r = drop 10 s; r1 = dropWhile char_space r; r2 = dropWhile (\<lambda>c. char_digit c \<or> c = CHR '','') r1; r3 = dropWhile char_space r2
     in r1 \<noteq> r \<and> r2 \<noteq> r1 \<and> r3 \<noteq> r2 \<and> has_prefix ''tokens for kv cache'' r3)"

fun suffixes_of :: "string \<Rightarrow> string list" where
  "suffixes_of [] = [[]]"
| "suffixes_of (c # r) = (c # r) # suffixes_of r"

definition kv_line :: "string \<Rightarrow> bool" where
  "kv_line s \<longleftrightarrow> list_ex kv_at (suffixes_of (map lower_char s))"

text \<open>\<open>_MARKERS\<close>\<close>

definition markers :: "((string \<Rightarrow> bool) \<times> bar_phase) list" where
  "markers =
    [(has_ci ''free memory before loading model'', LoadWeights),
     (\<lambda>l. has_ci ''loading expert'' l \<or> has_ci ''expert bank'' l \<or> has_ci ''pinning expert'' l, PinExperts),
     (kv_line, KvCache),
     (has_ci ''free memory after initialization'', KvCache),
     (\<lambda>l. has_ci ''start capturing cuda graphs'' l \<or> has_ci ''preparing for capturing cuda graphs'' l, CudaGraphs),
     (has_ci ''capturing graphs:'', CudaGraphs),
     (has_ci ''free gpu memory after capturing cuda graphs'', PrefillWarmup),
     (\<lambda>l. has_ci ''prefill warmup'' l \<or> has_ci ''warmup complete'' l, PrefillWarmup),
     (\<lambda>l. has_ci ''api server is ready to serve'' l \<or> has_ci ''scheduler is idle'' l, PhaseReady)]"

definition note_marker :: "string \<Rightarrow> bar_phase \<Rightarrow> (string \<Rightarrow> bool) \<times> bar_phase \<Rightarrow> bar_phase" where
  "note_marker line reached m = (if fst m line \<and> snd m > reached then snd m else reached)"

definition note_line :: "bar_phase \<Rightarrow> string \<Rightarrow> bar_phase" where
  "note_line reached raw =
    (let line = clean_line raw in if line = [] then reached else foldl (note_marker line) reached markers)"

definition latest_phase :: "string list \<Rightarrow> bar_phase" where
  "latest_phase lines = foldl note_line Starting lines"

section \<open>Bars in the log\<close>

text \<open>\<open>(\d+)\s*/\s*(\d+)\s*\[\<close> and \<open>(\d{1,3})%\|\<close> at the start of a text\<close>

definition fraction_at :: "string \<Rightarrow> (nat \<times> nat) option" where
  "fraction_at s =
    (let a = takeWhile char_digit s; r = dropWhile char_space (drop (length a) s) in
     if a = [] \<or> \<not> has_prefix ''/'' r then None
     else let r = dropWhile char_space (drop 1 r); b = takeWhile char_digit r; r = dropWhile char_space (drop (length b) r) in
       if b = [] \<or> \<not> has_prefix ''['' r then None else Some (str_nat a, str_nat b))"

definition percent_at :: "string \<Rightarrow> nat option" where
  "percent_at s =
    (let a = takeWhile char_digit s in
     if 1 \<le> length a \<and> length a \<le> 3 \<and> has_prefix ''%|'' (drop (length a) s) then Some (str_nat a) else None)"

fun first_match :: "(string \<Rightarrow> 'a option) \<Rightarrow> string \<Rightarrow> 'a option" where
  "first_match f [] = f []"
| "first_match f (c # r) = (case f (c # r) of Some x \<Rightarrow> Some x | None \<Rightarrow> first_match f r)"

definition bar_percent :: "bar_phase \<Rightarrow> string \<Rightarrow> rat option" where
  "bar_percent p raw =
    (let line = clean_line raw in
     if \<not> has_sub ''%|'' line \<and> \<not> has_sub ''/'' line then None
     else if p = CudaGraphs \<and> \<not> (has_sub ''Capturing graphs'' line \<or> has_sub ''capturing CUDA graphs'' line) then None
     else case first_match fraction_at line of
       Some (k, n) \<Rightarrow> if n > 0 then Some (of_nat k / of_nat n * 100) else map_option of_nat (first_match percent_at line)
     | None \<Rightarrow> map_option of_nat (first_match percent_at line))"

definition tqdm_percent :: "string list \<Rightarrow> bar_phase \<Rightarrow> rat option" where
  "tqdm_percent lines p = (case List.map_filter (bar_percent p) (take 80 (rev lines)) of [] \<Rightarrow> None | x # _ \<Rightarrow> Some x)"

section \<open>Merging the sources\<close>

record mem_reading =
  model_size_bytes :: int
  vram_bytes :: int
  baseline_vram :: int
  ram_bytes :: int
  baseline_ram :: int

definition memory_estimate :: "mem_reading option \<Rightarrow> rat option" where
  "memory_estimate mem =
    (case mem of None \<Rightarrow> None | Some m \<Rightarrow>
       if model_size_bytes m \<le> 0 then None
       else let grown_vram = max 0 (vram_bytes m - baseline_vram m);
                grown_ram = max 0 (ram_bytes m - baseline_ram m);
                grown = max grown_vram grown_ram
            in if grown \<le> 0 then None else Some (min 99 (of_int grown / of_int (model_size_bytes m) * 100)))"

text \<open>What \<open>/health\<close> says: missing keys are the empty string and 0\<close>

record load_health =
  h_phase :: string
  h_status :: string
  h_done :: int
  h_total :: int

definition no_health :: load_health where
  "no_health = \<lparr>h_phase = [], h_status = [], h_done = 0, h_total = 0\<rparr>"

datatype step_state = StepDone | StepActive | StepPending

record load_status =
  ls_phase :: bar_phase
  ls_pct :: "rat option"
  ls_overall :: rat
  ls_done :: int
  ls_total :: int
  ls_estimated :: bool
  ls_steps :: "(bar_phase \<times> step_state \<times> rat option) list"

definition pick_phase :: "bar_phase \<Rightarrow> load_health \<Rightarrow> bar_phase" where
  "pick_phase log_phase h =
    (if h_status h = ''ok'' then PhaseReady
     else case phase_of_slug (h_phase h) of
       Some p \<Rightarrow> if h_total h > 0 \<and> p > log_phase then p else log_phase
     | None \<Rightarrow> log_phase)"

text \<open>The percentage within the phase, and whether it is an estimate\<close>

definition pick_percent :: "string list \<Rightarrow> bar_phase \<Rightarrow> load_health \<Rightarrow> mem_reading option \<Rightarrow> rat option \<times> bool" where
  "pick_percent lines p h mem =
    (if p = PhaseReady then (Some 100, False)
     else if h_total h > 0 \<and> (p = LoadWeights \<or> p = PinExperts)
     then (Some (min 100 (of_int (h_done h) / of_int (h_total h) * 100)), False)
     else case tqdm_percent lines p of
       Some x \<Rightarrow> (Some x, False)
     | None \<Rightarrow> if p = LoadWeights \<or> p = PinExperts
               then (let e = memory_estimate mem in (e, e \<noteq> None)) else (None, False))"

definition load_step :: "bar_phase \<Rightarrow> rat option \<Rightarrow> bar_phase \<Rightarrow> bar_phase \<times> step_state \<times> rat option" where
  "load_step current pct p =
    (p, if p < current then StepDone else if p = current then StepActive else StepPending,
     if p < current then Some 100 else if p = current then pct else None)"

definition build :: "string list \<Rightarrow> load_health option \<Rightarrow> mem_reading option \<Rightarrow> load_status" where
  "build lines health mem =
    (let h = (case health of None \<Rightarrow> no_health | Some h \<Rightarrow> h);
         p = pick_phase (latest_phase lines) h;
         (pct, est) = pick_percent lines p h mem
     in \<lparr>ls_phase = p, ls_pct = pct, ls_overall = (if p = PhaseReady then 100 else overall p pct),
         ls_done = h_done h, ls_total = h_total h, ls_estimated = est,
         ls_steps = map (load_step p pct) (filter (\<lambda>q. q \<noteq> PhaseReady) (map fst PHASES))\<rparr>)"

section \<open>The bar never leaves its range and never falls behind the log\<close>

lemma note_line_mono: "reached \<le> note_line reached raw"
proof -
  have step: "r \<le> note_marker l r m" for r l m
    by (auto simp: note_marker_def)
  have "r \<le> foldl (note_marker l) r ms" for r l ms
    by (induction ms arbitrary: r) (auto intro: order_trans [OF step])
  then show ?thesis by (simp add: note_line_def Let_def)
qed

lemma fold_note_mono: "reached \<le> foldl note_line reached lines"
  by (induction lines arbitrary: reached) (auto intro: order_trans [OF note_line_mono])

lemma latest_phase_append: "latest_phase lines \<le> latest_phase (lines @ later)"
  by (simp add: latest_phase_def fold_note_mono)

lemma phase_le_ready: "p \<le> PhaseReady"
  by (cases p) (simp_all add: less_eq_bar_phase_def)

lemma pick_phase_ge: "p \<le> pick_phase p h"
  by (auto simp: pick_phase_def phase_le_ready split: option.splits)

lemma first_match_in: "first_match f s = Some x \<Longrightarrow> \<exists>t. f t = Some x"
  by (induction s) (auto split: option.splits)

lemma bar_percent_nonneg: "bar_percent p raw = Some x \<Longrightarrow> 0 \<le> x"
  by (auto simp: bar_percent_def Let_def split: if_splits option.splits)

lemma tqdm_percent_nonneg: "tqdm_percent lines p = Some x \<Longrightarrow> 0 \<le> x"
proof -
  assume *: "tqdm_percent lines p = Some x"
  then have "x \<in> set (List.map_filter (bar_percent p) (take 80 (rev lines)))"
    by (auto simp: tqdm_percent_def split: list.splits)
  then show ?thesis by (auto simp: List.map_filter_def dest: bar_percent_nonneg)
qed

lemma memory_estimate_range: "memory_estimate mem = Some x \<Longrightarrow> 0 \<le> x \<and> x \<le> 99"
  by (auto simp: memory_estimate_def Let_def split: option.splits if_splits)

lemma pick_percent_nonneg: "0 \<le> h_done h \<Longrightarrow> fst (pick_percent lines p h mem) = Some x \<Longrightarrow> 0 \<le> x"
  by (auto simp: pick_percent_def Let_def split: if_splits option.splits dest: tqdm_percent_nonneg memory_estimate_range)

lemma overall_simps:
  "overall Starting pct = min 100 ((case pct of None \<Rightarrow> 0 | Some x \<Rightarrow> x) * (2 / 100))"
  "overall LoadWeights pct = min 100 (2 + (case pct of None \<Rightarrow> 0 | Some x \<Rightarrow> x) * (45 / 100))"
  "overall PinExperts pct = min 100 (47 + (case pct of None \<Rightarrow> 0 | Some x \<Rightarrow> x) * (35 / 100))"
  "overall KvCache pct = min 100 (82 + (case pct of None \<Rightarrow> 0 | Some x \<Rightarrow> x) * (3 / 100))"
  "overall CudaGraphs pct = min 100 (85 + (case pct of None \<Rightarrow> 0 | Some x \<Rightarrow> x) * (10 / 100))"
  "overall PrefillWarmup pct = min 100 (95 + (case pct of None \<Rightarrow> 0 | Some x \<Rightarrow> x) * (5 / 100))"
  "overall PhaseReady pct = 100"
  by (simp_all add: overall_def PHASES_def phase_weight_def Let_def field_simps split: option.splits)

lemma overall_range: "(\<And>x. pct = Some x \<Longrightarrow> 0 \<le> x) \<Longrightarrow> 0 \<le> overall p pct \<and> overall p pct \<le> 100"
  by (cases p; cases pct) (auto simp: overall_simps)

lemma overall_mono:
  assumes "p < q" "\<And>x. a = Some x \<Longrightarrow> x \<le> 100" "\<And>x. b = Some x \<Longrightarrow> 0 \<le> x"
  shows "overall p a \<le> overall q b"
  using assms by (cases p; cases q; cases a; cases b) (auto simp: overall_simps less_bar_phase_def)

lemma build_fields:
  fixes lines health mem
  defines "h \<equiv> (case health of None \<Rightarrow> no_health | Some h \<Rightarrow> h)"
  shows "ls_phase (build lines health mem) = pick_phase (latest_phase lines) h"
    and "ls_pct (build lines health mem) = fst (pick_percent lines (pick_phase (latest_phase lines) h) h mem)"
    and "ls_overall (build lines health mem) =
      (if pick_phase (latest_phase lines) h = PhaseReady then 100
       else overall (pick_phase (latest_phase lines) h) (ls_pct (build lines health mem)))"
  by (simp_all add: build_def h_def Let_def split: prod.splits)

text \<open>The overall bar stays between 0 and 100; the phase shown is never behind the furthest one the
  log proves, also after more lines; and of two views of a load, the one in a later phase never shows a smaller
  bar, whatever the percentages within the phases (the earlier of the two not above 100, which a malformed
  progress line can exceed) and whichever source they come from.\<close>

lemma load_bar_forward:
  assumes "\<And>r. h1 = Some r \<Longrightarrow> 0 \<le> h_done r" "\<And>r. h2 = Some r \<Longrightarrow> 0 \<le> h_done r"
    and "\<And>x. ls_pct (build xs h1 m1) = Some x \<Longrightarrow> x \<le> 100"
  shows "0 \<le> ls_overall (build xs h1 m1) \<and> ls_overall (build xs h1 m1) \<le> 100
    \<and> latest_phase xs \<le> ls_phase (build (xs @ ys) h2 m2)
    \<and> (ls_phase (build xs h1 m1) < ls_phase (build zs h2 m2) \<longrightarrow>
         ls_overall (build xs h1 m1) \<le> ls_overall (build zs h2 m2))"
proof -
  have pct: "0 \<le> x" if "ls_pct (build l h m) = Some x" "\<And>r. h = Some r \<Longrightarrow> 0 \<le> h_done r" for l h m x
    using that by (auto simp: build_fields no_health_def elim!: pick_percent_nonneg [rotated] split: option.splits)
  have range: "0 \<le> ls_overall (build l h m) \<and> ls_overall (build l h m) \<le> 100"
    if "\<And>r. h = Some r \<Longrightarrow> 0 \<le> h_done r" for l h m
    unfolding build_fields(3) using overall_range pct that by (auto split: if_splits)
  have "latest_phase xs \<le> ls_phase (build (xs @ ys) h2 m2)"
    unfolding build_fields(1) using latest_phase_append pick_phase_ge order_trans by blast
  moreover have "ls_overall (build xs h1 m1) \<le> ls_overall (build zs h2 m2)"
    if "ls_phase (build xs h1 m1) < ls_phase (build zs h2 m2)"
  proof (cases "ls_phase (build zs h2 m2) = PhaseReady")
    case True
    then show ?thesis using range [OF assms(1)] by (simp add: build_fields)
  next
    case False
    then have "ls_phase (build xs h1 m1) \<noteq> PhaseReady"
      using that phase_le_ready [of "ls_phase (build zs h2 m2)"] by auto
    then show ?thesis
      using False that overall_mono [of "ls_phase (build xs h1 m1)" "ls_phase (build zs h2 m2)"] assms(3) pct [of zs h2 m2] assms(2)
      by (simp add: build_fields(1) build_fields(3) [of xs h1 m1] build_fields(3) [of zs h2 m2])
  qed
  ultimately show ?thesis using range [OF assms(1)] by blast
qed

definition reading_banks :: load_health where
  "reading_banks = \<lparr>h_phase = ''expert_banks'', h_status = ''loading'', h_done = 3, h_total = 4\<rparr>"

lemma load_bar_forward_witness:
  "ls_overall (build [''expert bank''] (Some reading_banks) None) = 293 / 4
    \<and> latest_phase [''expert bank''] \<le> ls_phase (build ([''expert bank''] @ [''warmup complete'']) None None)
    \<and> ls_overall (build [''expert bank''] (Some reading_banks) None) \<le> ls_overall (build [''warmup complete''] None None)"
proof -
  have first: "(ls_phase b, ls_pct b, ls_overall b) = (PinExperts, Some 75, 293 / 4)"
    if "b = build [''expert bank''] (Some reading_banks) None" for b
    unfolding that by code_simp
  have later: "ls_phase (build [''warmup complete''] None None) = PrefillWarmup"
    by code_simp
  show ?thesis
    using load_bar_forward [of "Some reading_banks" None "[''expert bank'']" None "[''warmup complete'']" None "[''warmup complete'']"]
      first [OF refl] later
    by (simp add: reading_banks_def less_bar_phase_def)
qed

end
