(* ===== verification/Spec2Isabelle.thy ===== *)
theory Spec2Isabelle
  imports CacheBudget BoardProps RadixProps PrefillProps SchedProps Steering OAuthProps LogProps Checkpoint Frontend
    HybridProps ReasonProps GenGptOss InvokeRead ServeProps Supervisor TokenUsage LoadProgress
begin

text \<open>
  FreeSwarm is a local inference engine for large language models (\<open>src/python/freetoken\<close>), a daemon
  that keeps it running (\<open>freetoken/daemon\<close>), and a console with a swarm of agents that use it
  (\<open>src/ui/backend\<close>, task servers in \<open>src/mcp\<close>). This development models the logic of these parts that
  decides what is kept, handed out, started, counted and answered. A request to the console or an agent is
  text; the engine admits it, reuses the cached prefix of its tokens, gives it pages of the KV cache, decodes
  it in batches, splits its text into reasoning and content; the daemon watches the engine's process and
  accounts for its tokens; the board, the steering messages and the ledger keep the state of the agents.

  \<^bold>\<open>Shared theories.\<close> \<open>Prelude\<close>: numbers, results (\<open>error + 'a\<close>, every \<open>raise\<close> an \<open>Inl\<close>), association
  lists for dictionaries whose order counts, pages of token slots, and the collections of rewrite rules.
  \<open>TextOps\<close>: Python's string operations over code points. \<open>PyJson\<close>: Python's \<open>json\<close>, the writer and the
  reader, with the round trip; what \<open>repr(float(t))\<close> yields is a parameter.

  \<^bold>\<open>KV cache and scheduler\<close> (\<open>freetoken/kvcache\<close>, \<open>freetoken/scheduler\<close>, \<open>freetoken/core.py\<close>).
  \<^item> \<open>CacheBudget\<close>: the sizing of expert slots and KV pages (\<open>engine/cache_budget.py\<close>): a plan fits, and
    one is found exactly when one exists.
  \<^item> \<open>RadixCache\<close>, \<open>RadixOps\<close>, \<open>RadixEvict\<close>, \<open>RadixProps\<close>: the radix tree of \<open>kvcache/radix_cache.py\<close> as
    an explicit store of nodes (a map from node numbers), since splitting a node changes what older handles
    refer to. \<open>rinv\<close> is its invariant with the multiset of locked handles; each operation keeps it.
  \<^item> \<open>PrefixCache\<close>: the abstract class \<open>BasePrefixCache\<close> as a record of operations and the locale
    \<open>prefix_cache\<close> of the laws its callers rely on, interpreted on the radix and on the empty cache.
  \<^item> \<open>HybridRadix\<close>, \<open>HybridProps\<close>: the cache of hybrid models (\<open>kvcache/hybrid_radix_cache.py\<close>) on the
    same nodes: snapshots of the linear state at boundaries, two kinds of locks, two evictions.
  \<^item> \<open>SchedCore\<close>, \<open>CacheManager\<close>, \<open>CacheOwn\<close>, \<open>CacheAlloc\<close>: requests, slots, the page table and the free
    list (\<open>scheduler/cache.py\<close>), proved for any provider of the locale: who owns a page, that allocation and
    release keep it.
  \<^item> \<open>Prefill\<close>, \<open>Serving\<close>, \<open>PrefillProps\<close>: admission (\<open>scheduler/prefill.py\<close>), and the step relation of
    everything the scheduler does to these states on the radix cache.
  \<^item> \<open>SchedLoop\<close>, \<open>SchedProps\<close>: the loop of \<open>scheduler/scheduler.py\<close>, overlapped and normal: messages,
    batch selection, forward pass, drain of the result of the batch before. What is sampled is an argument.

  \<^bold>\<open>Serving one engine\<close> (\<open>freetoken/server\<close>).
  \<^item> \<open>Frontend\<close>: counters, admission gate and stop barrier (\<open>stats.py\<close>, \<open>accounting.py\<close>, \<open>api_server.py\<close>).
  \<^item> \<open>Reasoning\<close>, \<open>ReasonStream\<close>, \<open>Harmony\<close>, \<open>ReasonProps\<close>: the parsers of \<open>reasoning_parser.py\<close>, one-shot
    and streaming. The stream of a text in any chunks is compared with the one-shot parse of the whole.
  \<^item> \<open>ToolCalls\<close>, \<open>GptOss\<close>, \<open>GptOssProps\<close>: \<open>FunctionCallParser\<close> of \<open>function_call_parser.py\<close> over any
    detector, and the gpt-oss detector, whose stream is compared with a reading of the whole text.
  \<^item> \<open>InvokeGrammar\<close>, \<open>InvokeStream\<close>: \<open>InvokeParamStreamMixin\<close> with the grammars of Qwen3-Coder and MiniMax-M2
    (locale \<open>invoke_grammar\<close>). \<open>InvokeProps\<close>: a call the stream closes has a JSON object as its arguments.
    \<open>InvokeChunks\<close>, \<open>InvokeRead\<close>: where a text is cut does not matter; what a document of calls says is what
    its reader gets. \<open>TurnStream\<close> holds what both detectors share (locale \<open>stream_machine\<close>): a loop of turns
    that may stop before the buffer is exhausted, driven by the drain of \<open>parse_stream_events\<close>.
  \<^item> \<open>Generation\<close>, \<open>GenProps\<close>, \<open>GenGptOss\<close>: the generator of \<open>generation.py\<close> from the acknowledgements of
    the engine to the events a protocol adapter sees, over any parser and detector, and on gpt-oss.
  \<^item> \<open>Supervisor\<close>: waiting for the workers and noticing their death (\<open>supervisor.py\<close>).

  \<^bold>\<open>The daemon\<close> (\<open>freetoken/daemon\<close>).
  \<^item> \<open>Receipts\<close>: validation of accounting documents, receipts and their durable outbox.
  \<^item> \<open>ServeManager\<close>, \<open>ServeProps\<close>: \<open>serve_manager.py\<close>. A step is one critical section of one thread, so the
    inductive relation \<open>mstep\<close> ranges over every interleaving of calls, monitor threads and restarts.
  \<^item> \<open>Checkpoint\<close>: the conversions of \<open>checkpoint.py\<close>, one step per critical section.
  \<^item> \<open>LogFollow\<close>, \<open>LogProps\<close>: lines, redraws and the two rings with cursors (\<open>logfmt.py\<close>, \<open>tailer.py\<close>,
    \<open>logring.py\<close>, \<open>server/request_ring.py\<close>), as refinements of an unbounded list.

  \<^bold>\<open>The console\<close> (\<open>ui/backend/app\<close>, \<open>mcp/taskkit\<close>).
  \<^item> \<open>Projects\<close>, \<open>MsgBoard\<close>, \<open>BoardProps\<close>: the project registry and the agents' message board; a handler is
    one function from the tables to the tables and an answer, HTTP errors included.
  \<^item> \<open>Steering\<close>: messages to a running agent. \<open>TaskOAuth\<close>, \<open>OAuthProps\<close>: the authorization server of a
    task server; hashing, signing and encoding are parameters.
  \<^item> \<open>TokenUsage\<close>: the ledger of processed tokens. \<open>LoadProgress\<close>: the progress bar of a model load.

  \<^bold>\<open>Conventions.\<close> A class is a record, an enumeration a datatype, Python's integers are \<open>int\<close> or, where the
  code keeps them non-negative, \<open>nat\<close>; a database table is a list of records in row order. Time is an
  argument. A lock that a thread takes twice is the error \<open>Deadlock\<close>. Random tokens, the file system, the
  clock, the tokenizer, hashes and the sampled tokens are arguments, never definitions.

  \<^bold>\<open>Recursion.\<close> Loops over data are structural. The walk down the radix tree and the search for a free
  slug are \<open>function\<close>s or bounded searches whose bound is proved sufficient: a walk consumes tokens, the
  search tries one more suffix than there are projects. Eviction runs on fuel equal to the number of nodes
  in the tree and the property states that it returns. The scans of the output parsers shorten their text.
  The JSON reader nests on fuel: one more than the length of the text is proved as good as any more. The
  drain of a detector takes at most sixteen steps in the code as well; the properties on it ask for at most
  fifteen markers in the whole text, so that no chunk can hold more than the steps deliver. A single chunk with
  more does lose calls.

  \<^bold>\<open>Not modelled.\<close> Tensors, kernels and models (\<open>attention\<close>, \<open>kernel\<close>, \<open>layers\<close>, \<open>models\<close>, \<open>moe\<close>,
  \<open>distributed\<close>): numerical code on a device that has no meaning without it. The sliding window
  caches, the branches of the scheduler for them and for hybrid models, and runtime rebuilds of the caches:
  definitions of the scheduler leave these branches out. The tool call detectors of the other model
  families. HTTP routes, protocol adapters, the command lines, the text shown to a user: input and output. Where a component is only partly modelled, its operations that
  are left out do not change the state the theorems speak about.
\<close>

end
